(* ===== verification/Prelude.thy ===== *)
theory Prelude
  imports Complex_Main "HOL-Library.AList" "HOL-Library.Char_ord" "HOL-Library.List_Lexorder"
    "HOL-Library.Multiset"
begin

text \<open>
  Shared vocabulary of the development: the exception classes of \<^verbatim>\<open>code/common/errors.py\<close>
  (with the subclasses the modules declare) as values of a sum type, Python dictionaries as
  insertion-ordered association lists, decimal rendering of integers as the f-strings of the
  code do it, and the generic facts on lists and dictionaries that the component theories share.
\<close>

section \<open>Exceptions as values\<close>

datatype exn =
    ValidationError | NotFoundError | ConflictError | InvalidStateError
  | NodeDownError | FencingError | ClockDriftError | OffsetOutOfRangeError
  | StepFailed | TransientError | OrchestratorCrash
  | QuorumError | SimulationTimeout
  | ValueError | KeyError | IndexError | ZeroDivisionError | StopIteration

type_synonym 'a result = "exn + 'a"

text \<open>The class hierarchy, as far as an \<^verbatim>\<open>except\<close> clause of the code looks at it.\<close>

fun is_conflict_error :: "exn \<Rightarrow> bool" where
  "is_conflict_error ConflictError = True"
| "is_conflict_error FencingError = True"
| "is_conflict_error _ = False"

fun is_handbook_error :: "exn \<Rightarrow> bool" where
  "is_handbook_error ValueError = False"
| "is_handbook_error KeyError = False"
| "is_handbook_error IndexError = False"
| "is_handbook_error ZeroDivisionError = False"
| "is_handbook_error StopIteration = False"
| "is_handbook_error _ = True"

section \<open>Dictionaries\<close>

text \<open>
  A Python dict keeps insertion order: assigning to a present key overwrites in place, a new
  key goes to the end, and iteration follows that order. \<open>AList.update\<close> and \<open>AList.delete\<close>
  do exactly that on association lists.
\<close>

named_theorems dict_simps

type_synonym ('k, 'v) dict = "('k \<times> 'v) list"

abbreviation dict_get :: "('k, 'v) dict \<Rightarrow> 'k \<Rightarrow> 'v option" where
  "dict_get \<equiv> map_of"

abbreviation dict_set :: "'k \<Rightarrow> 'v \<Rightarrow> ('k, 'v) dict \<Rightarrow> ('k, 'v) dict" where
  "dict_set \<equiv> AList.update"

abbreviation dict_del :: "'k \<Rightarrow> ('k, 'v) dict \<Rightarrow> ('k, 'v) dict" where
  "dict_del \<equiv> AList.delete"

abbreviation dict_keys :: "('k, 'v) dict \<Rightarrow> 'k list" where
  "dict_keys d \<equiv> map fst d"

definition dict_ok :: "('k, 'v) dict \<Rightarrow> bool" where
  "dict_ok d \<longleftrightarrow> distinct (map fst d)"

lemma dict_ok_Nil [dict_simps, simp]: "dict_ok []"
  by (simp add: dict_ok_def)

lemma dict_ok_set [dict_simps, simp]: "dict_ok d \<Longrightarrow> dict_ok (dict_set k v d)"
  by (simp add: dict_ok_def distinct_update)

lemma dict_ok_del [dict_simps, simp]: "dict_ok d \<Longrightarrow> dict_ok (dict_del k d)"
  by (simp add: dict_ok_def distinct_delete)

lemma dict_get_set [dict_simps, simp]:
  "dict_get (dict_set k v d) x = (if x = k then Some v else dict_get d x)"
  by (simp add: update_conv')

lemma dict_get_del [dict_simps, simp]:
  "dict_get (dict_del k d) x = (if x = k then None else dict_get d x)"
  by (simp add: delete_conv')

lemma dict_ok_filter [dict_simps, simp]: "dict_ok d \<Longrightarrow> dict_ok (filter P d)"
  by (auto simp: dict_ok_def distinct_map inj_on_def)

lemma dict_get_mem: "dict_ok d \<Longrightarrow> (k, v) \<in> set d \<longleftrightarrow> dict_get d k = Some v"
  unfolding dict_ok_def by (metis map_of_eq_Some_iff)

lemma dict_set_keys_present [simp]:
  "k \<in> set (map fst d) \<Longrightarrow> map fst (dict_set k v d) = map fst d"
  by (induction d) auto

lemma dict_set_new: "dict_get d k = None \<Longrightarrow> dict_set k v d = d @ [(k, v)]"
  by (induction d) (auto split: if_splits)

lemma dict_get_keys: "dict_get d k = Some v \<Longrightarrow> k \<in> set (map fst d)"
  by (induction d) (auto split: if_splits)

lemma dict_keys_set: "set (dict_keys (dict_set k v d)) = insert k (set (dict_keys d))"
  by (simp add: dom_update)

lemma dict_get_None: "dict_get d k = None \<longleftrightarrow> k \<notin> set (map fst d)"
  by (induction d) auto

lemma dict_vals_set:
  "p \<in> set (dict_set k v d) \<Longrightarrow> p = (k, v) \<or> (p \<in> set d)"
  by (induction d) (auto split: if_splits)

lemma set_dict_set:
  "dict_ok d \<Longrightarrow> set (dict_set k v d) = {p \<in> set d. fst p \<noteq> k} \<union> {(k, v)}"
  by (induction d) (auto simp: dict_ok_def image_iff)

lemma set_dict_del: "set (dict_del k d) = {p \<in> set d. fst p \<noteq> k}"
  by (auto simp: AList.delete_eq)

lemma fold_dict_del_get: "dict_get (fold dict_del ks d) k = (if k \<in> set ks then None else dict_get d k)"
  by (induction ks arbitrary: d) auto

lemma fold_dict_del_ok: "dict_ok d \<Longrightarrow> dict_ok (fold dict_del ks d)"
  by (induction ks arbitrary: d) auto

text \<open>How a sum over the entries moves when one entry is overwritten, added or removed.\<close>

lemma sum_dict_set:
  fixes f :: "'k \<times> 'v \<Rightarrow> int"
  assumes "dict_ok d" and "dict_get d k = Some v"
  shows "sum_list (map f (dict_set k w d)) = sum_list (map f d) - f (k, v) + f (k, w)"
  using assms by (induction d) (auto simp: dict_ok_def split: if_splits dest: map_of_SomeD)

lemma sum_dict_set_new:
  fixes f :: "'k \<times> 'v \<Rightarrow> int"
  assumes "dict_get d k = None"
  shows "sum_list (map f (dict_set k w d)) = sum_list (map f d) + f (k, w)"
  using assms by (simp add: dict_set_new)

section \<open>Decimal rendering\<close>

text \<open>The \<open>{n}\<close> of an f-string, for a non-negative integer.\<close>

fun str_of_nat :: "nat \<Rightarrow> string" where
  "str_of_nat n =
     (if n < 10 then [char_of (48 + n)] else str_of_nat (n div 10) @ [char_of (48 + n mod 10)])"

declare str_of_nat.simps [simp del]

fun nat_of_str :: "nat \<Rightarrow> string \<Rightarrow> nat" where
  "nat_of_str acc [] = acc"
| "nat_of_str acc (c # cs) = nat_of_str (10 * acc + (of_char c - 48)) cs"

lemma nat_of_str_append: "nat_of_str acc (xs @ ys) = nat_of_str (nat_of_str acc xs) ys"
  by (induction xs arbitrary: acc) auto

lemma nat_of_str_str_of_nat: "nat_of_str 0 (str_of_nat n) = n"
proof (induction n rule: str_of_nat.induct)
  case (1 n)
  show ?case
  proof (cases "n < 10")
    case True
    then show ?thesis by (subst str_of_nat.simps) simp
  next
    case False
    have "(48 + n mod 10) mod 256 = 48 + n mod 10" by simp
    with False "1.IH" show ?thesis
      by (subst str_of_nat.simps) (simp add: nat_of_str_append)
  qed
qed

lemma str_of_nat_inject [simp]: "str_of_nat m = str_of_nat n \<longleftrightarrow> m = n"
  by (metis nat_of_str_str_of_nat)

lemma str_of_nat_no_sign: "\<exists>c cs. str_of_nat n = c # cs \<and> c \<noteq> CHR ''-''"
proof (induction n rule: str_of_nat.induct)
  case (1 n)
  show ?case
  proof (cases "n < 10")
    case True
    have "(of_char (char_of (48 + n) :: char) :: nat) \<noteq> of_char CHR ''-''"
      using True by simp
    then have "(char_of (48 + n) :: char) \<noteq> CHR ''-''" by metis
    with True show ?thesis by (subst str_of_nat.simps) simp
  next
    case False
    with "1.IH" obtain c cs where "str_of_nat (n div 10) = c # cs" "c \<noteq> CHR ''-''" by blast
    with False show ?thesis by (subst str_of_nat.simps) simp
  qed
qed

definition str_of_int :: "int \<Rightarrow> string" where
  "str_of_int i = (if i < 0 then CHR ''-'' # str_of_nat (nat (- i)) else str_of_nat (nat i))"

lemma str_of_int_inject [simp]: "str_of_int i = str_of_int j \<longleftrightarrow> i = j"
  using str_of_nat_no_sign [of "nat i"] str_of_nat_no_sign [of "nat j"]
  by (auto simp: str_of_int_def)

section \<open>Python's rounding\<close>

text \<open>\<^verbatim>\<open>round(x)\<close>: to the nearest integer, ties to the even one.\<close>

definition py_round :: "rat \<Rightarrow> int" where
  "py_round x =
     (let f = \<lfloor>x\<rfloor>; d = x - of_int f
      in if d < 1/2 then f else if d > 1/2 then f + 1 else if even f then f else f + 1)"

lemma py_round_of_int [simp]: "py_round (of_int n) = n"
  by (simp add: py_round_def)

section \<open>Lists\<close>

lemma sum_list_list_update:
  fixes xs :: "int list"
  assumes "i < length xs"
  shows "sum_list (xs[i := x]) = sum_list xs - xs ! i + x"
  using assms by (induction xs arbitrary: i) (auto split: nat.splits)

lemma sum_list_map_filter_le:
  fixes f :: "'a \<Rightarrow> int"
  assumes "\<And>x. x \<in> set xs \<Longrightarrow> 0 \<le> f x"
  shows "sum_list (map f (filter P xs)) \<le> sum_list (map f xs)"
  using assms by (induction xs) (auto simp: add_increasing)

lemma find_SomeD: "find P xs = Some x \<Longrightarrow> x \<in> set xs \<and> P x"
  by (induction xs) (auto split: if_splits)

end
