(* ===== verification/OT_Transform.thy ===== *)
theory OT_Transform
  imports Prelude
begin

text \<open>
  The collaborative editor of \<^verbatim>\<open>code/hld/ot_transform.py\<close>: the insert and delete operations,
  the transformation function with its tie-break, the sequencing document server and the
  optimistic client, composed into a system of one server and any number of clients whose
  edits, pushes and pulls interleave freely. The text of a document is a list of characters;
  offsets and lengths are Python integers.
\<close>

section \<open>Operations\<close>

datatype op = Insert (op_pos: int) (op_text: string) | Delete (op_pos: int) (op_len: int)

text \<open>The constructor checks of the two dataclasses.\<close>

definition insert_new :: "int \<Rightarrow> string \<Rightarrow> op result" where
  "insert_new p s = (if p < 0 \<or> s = [] then Inl ValidationError else Inr (Insert p s))"

definition delete_new :: "int \<Rightarrow> int \<Rightarrow> op result" where
  "delete_new p n = (if p < 0 \<or> n \<le> 0 then Inl ValidationError else Inr (Delete p n))"

text \<open>What those checks leave: the operations that exist at run time.\<close>

fun wf_op :: "op \<Rightarrow> bool" where
  "wf_op (Insert p s) \<longleftrightarrow> 0 \<le> p \<and> s \<noteq> []"
| "wf_op (Delete p n) \<longleftrightarrow> 0 \<le> p \<and> 0 < n"

fun op_length :: "op \<Rightarrow> int" where
  "op_length (Insert p s) = int (length s)"
| "op_length (Delete p n) = n"

definition op_end :: "op \<Rightarrow> int" where
  "op_end x = op_pos x + op_length x"

fun apply_op :: "string \<Rightarrow> op \<Rightarrow> string result" where
  "apply_op txt (Insert p s) =
     (if p > int (length txt) then Inl ValidationError
      else Inr (take (nat p) txt @ s @ drop (nat p) txt))"
| "apply_op txt (Delete p n) =
     (if op_end (Delete p n) > int (length txt) then Inl ValidationError
      else Inr (take (nat p) txt @ drop (nat (op_end (Delete p n))) txt))"

fun transform :: "op \<Rightarrow> op \<Rightarrow> bool \<Rightarrow> op option" where
  "transform (Insert p s) (Insert q t) op_first =
     (if p > q \<or> p = q \<and> \<not> op_first then Some (Insert (p + int (length t)) s)
      else Some (Insert p s))"
| "transform (Insert p s) (Delete q m) op_first =
     (if p \<le> q then Some (Insert p s)
      else if p \<ge> op_end (Delete q m) then Some (Insert (p - m) s)
      else None)"
| "transform (Delete p n) (Insert q t) op_first =
     (if q \<le> p then Some (Delete (p + int (length t)) n)
      else if q \<ge> op_end (Delete p n) then Some (Delete p n)
      else Some (Delete p (n + int (length t))))"
| "transform (Delete p n) (Delete q m) op_first =
     (if op_end (Delete q m) \<le> p then Some (Delete (p - m) n)
      else if op_end (Delete p n) \<le> q then Some (Delete p n)
      else let overlap = min (op_end (Delete p n)) (op_end (Delete q m)) - max p q;
               remaining = n - overlap
           in if remaining = 0 then None else Some (Delete (min p q) remaining))"

text \<open>Applying an operation that may have been transformed away.\<close>

fun apply_opt :: "string \<Rightarrow> op option \<Rightarrow> string result" where
  "apply_opt txt None = Inr txt"
| "apply_opt txt (Some x) = apply_op txt x"

section \<open>The document server\<close>

record applied_op =
  ao_revision :: int
  ao_client :: string
  ao_op :: "op option"

record doc_server =
  ds_text :: string
  ds_log :: "applied_op list"

definition server_new :: "string \<Rightarrow> doc_server" where
  "server_new txt = \<lparr>ds_text = txt, ds_log = []\<rparr>"

definition server_revision :: "doc_server \<Rightarrow> int" where
  "server_revision s = int (length (ds_log s))"

definition server_snapshot :: "doc_server \<Rightarrow> int \<times> string" where
  "server_snapshot s = (int (length (ds_log s)), ds_text s)"

definition server_ops_since :: "doc_server \<Rightarrow> int \<Rightarrow> applied_op list result" where
  "server_ops_since s revision =
     (if \<not> (0 \<le> revision \<and> revision \<le> int (length (ds_log s))) then Inl ValidationError
      else Inr (drop (nat revision) (ds_log s)))"

text \<open>The rebase loop of \<^verbatim>\<open>submit\<close>, over the log entries accepted since the base revision.\<close>

fun rebase :: "op option \<Rightarrow> applied_op list \<Rightarrow> op option" where
  "rebase x [] = x"
| "rebase None (e # es) = None"
| "rebase (Some x) (e # es) =
     rebase (case ao_op e of None \<Rightarrow> Some x | Some y \<Rightarrow> transform x y False) es"

definition server_submit :: "doc_server \<Rightarrow> string \<Rightarrow> op \<Rightarrow> int \<Rightarrow> (applied_op \<times> doc_server) result" where
  "server_submit s client x base =
     (if \<not> (0 \<le> base \<and> base \<le> int (length (ds_log s))) then Inl ValidationError
      else let rebased = rebase (Some x) (drop (nat base) (ds_log s))
           in case apply_opt (ds_text s) rebased of
                Inl e \<Rightarrow> Inl e
              | Inr txt \<Rightarrow>
                  let applied = \<lparr>ao_revision = int (length (ds_log s)) + 1, ao_client = client,
                                 ao_op = rebased\<rparr>
                  in Inr (applied, s\<lparr>ds_text := txt, ds_log := ds_log s @ [applied]\<rparr>))"

section \<open>The client\<close>

record client_doc =
  cd_id :: string
  cd_text :: string
  cd_revision :: int
  cd_outstanding :: "op option"
  cd_sent :: bool

definition client_new :: "string \<Rightarrow> string \<Rightarrow> int \<Rightarrow> client_doc" where
  "client_new i txt r =
     \<lparr>cd_id = i, cd_text = txt, cd_revision = r, cd_outstanding = None, cd_sent = False\<rparr>"

definition client_edit :: "client_doc \<Rightarrow> op \<Rightarrow> client_doc result" where
  "client_edit c x =
     (if cd_outstanding c \<noteq> None then Inl InvalidStateError
      else case apply_op (cd_text c) x of
             Inl e \<Rightarrow> Inl e
           | Inr txt \<Rightarrow> Inr (c\<lparr>cd_text := txt, cd_outstanding := Some x\<rparr>))"

definition client_push :: "client_doc \<Rightarrow> doc_server \<Rightarrow> (bool \<times> client_doc \<times> doc_server) result" where
  "client_push c s =
     (case cd_outstanding c of
        None \<Rightarrow> Inr (False, c, s)
      | Some x \<Rightarrow>
          if cd_sent c then Inr (False, c, s)
          else case server_submit s (cd_id c) x (cd_revision c) of
                 Inl e \<Rightarrow> Inl e
               | Inr (_, s') \<Rightarrow> Inr (True, c\<lparr>cd_sent := True\<rparr>, s'))"

text \<open>One iteration of the replay loop of \<^verbatim>\<open>pull\<close>.\<close>

definition pull_step :: "client_doc \<Rightarrow> applied_op \<Rightarrow> client_doc result" where
  "pull_step c0 applied =
     (let c = c0\<lparr>cd_revision := ao_revision applied\<rparr>
      in if ao_client applied = cd_id c then Inr (c\<lparr>cd_outstanding := None, cd_sent := False\<rparr>)
         else let (remote, outstanding) =
                (case (ao_op applied, cd_outstanding c) of
                   (Some r, Some x) \<Rightarrow> (transform r x True, transform x r False)
                 | (r, x) \<Rightarrow> (r, x))
              in case apply_opt (cd_text c) remote of
                   Inl e \<Rightarrow> Inl e
                 | Inr txt \<Rightarrow> Inr (c\<lparr>cd_outstanding := outstanding, cd_text := txt\<rparr>))"

fun pull_loop :: "client_doc \<Rightarrow> applied_op list \<Rightarrow> client_doc result" where
  "pull_loop c [] = Inr c"
| "pull_loop c (e # es) = (case pull_step c e of Inl x \<Rightarrow> Inl x | Inr c' \<Rightarrow> pull_loop c' es)"

definition client_pull :: "client_doc \<Rightarrow> doc_server \<Rightarrow> client_doc result" where
  "client_pull c s =
     (case server_ops_since s (cd_revision c) of Inl e \<Rightarrow> Inl e | Inr es \<Rightarrow> pull_loop c es)"

section \<open>The system: one server, many editors\<close>

record ot_sys =
  os_server :: doc_server
  os_clients :: "string \<rightharpoonup> client_doc"

definition ot_init :: "string \<Rightarrow> ot_sys" where
  "ot_init txt = \<lparr>os_server = server_new txt, os_clients = Map.empty\<rparr>"

inductive ot_step :: "ot_sys \<Rightarrow> ot_sys \<Rightarrow> bool" where
  join: "os_clients s i = None \<Longrightarrow> server_snapshot (os_server s) = (r, txt) \<Longrightarrow>
    ot_step s (s\<lparr>os_clients := (os_clients s)(i \<mapsto> client_new i txt r)\<rparr>)"
| edit: "os_clients s i = Some c \<Longrightarrow> wf_op x \<Longrightarrow> client_edit c x = Inr c' \<Longrightarrow>
    ot_step s (s\<lparr>os_clients := (os_clients s)(i \<mapsto> c')\<rparr>)"
| push: "os_clients s i = Some c \<Longrightarrow> client_push c (os_server s) = Inr (b, c', sv') \<Longrightarrow>
    ot_step s (s\<lparr>os_clients := (os_clients s)(i \<mapsto> c'), os_server := sv'\<rparr>)"
| pull: "os_clients s i = Some c \<Longrightarrow> client_pull c (os_server s) = Inr c' \<Longrightarrow>
    ot_step s (s\<lparr>os_clients := (os_clients s)(i \<mapsto> c')\<rparr>)"

inductive ot_reachable :: "string \<Rightarrow> ot_sys \<Rightarrow> bool" for t0 where
  start: "ot_reachable t0 (ot_init t0)"
| step: "ot_reachable t0 s \<Longrightarrow> ot_step s t \<Longrightarrow> ot_reachable t0 t"

section \<open>One step of convergence (TP1)\<close>

text \<open>Cutting a document at two, three or four offsets.\<close>

lemma cut2:
  assumes "0 \<le> p" "p \<le> q" "q \<le> int (length d)"
  obtains x y z where "d = x @ y @ z" "p = int (length x)" "q = int (length x + length y)"
proof
  show "d = take (nat p) d @ take (nat q - nat p) (drop (nat p) d) @ drop (nat q) d"
    using assms by (metis append_take_drop_id drop_drop le_add_diff_inverse2 nat_mono)
qed (use assms in auto)

lemma cut3:
  assumes "0 \<le> p" "p \<le> q" "q \<le> r" "r \<le> int (length d)"
  obtains x y z w where "d = x @ y @ z @ w" "p = int (length x)" "q = int (length x + length y)"
    "r = int (length x + length y + length z)"
proof -
  obtain x y u where 1: "d = x @ y @ u" "p = int (length x)" "q = int (length x + length y)"
    by (rule cut2 [of p q d]) (use assms in auto)
  obtain z0 z w where 2: "u = z0 @ z @ w" "0 = int (length z0)" "r - q = int (length z0 + length z)"
    by (rule cut2 [of 0 "r - q" u]) (use assms 1 in auto)
  show thesis by (rule that [of x y z w]) (use 1 2 assms in auto)
qed

lemma cut4:
  assumes "0 \<le> p" "p \<le> q" "q \<le> r" "r \<le> t" "t \<le> int (length d)"
  obtains x y z w v where "d = x @ y @ z @ w @ v" "p = int (length x)" "q = int (length x + length y)"
    "r = int (length x + length y + length z)" "t = int (length x + length y + length z + length w)"
proof -
  obtain x y z u where 1: "d = x @ y @ z @ u" "p = int (length x)" "q = int (length x + length y)"
      "r = int (length x + length y + length z)"
    by (rule cut3 [of p q r d]) (use assms in auto)
  obtain w0 w v where 2: "u = w0 @ w @ v" "0 = int (length w0)" "t - r = int (length w0 + length w)"
    by (rule cut2 [of 0 "t - r" u]) (use assms 1 in auto)
  show thesis by (rule that [of x y z w v]) (use 1 2 assms in auto)
qed

text \<open>
  The diamond: both orders end in the same text, for the operation already in the log (\<open>a\<close>)
  and the one rebased over it (\<open>b\<close>).
\<close>

definition diamond :: "string \<Rightarrow> op \<Rightarrow> op \<Rightarrow> string \<Rightarrow> string \<Rightarrow> bool" where
  "diamond d a b da db \<longleftrightarrow> (\<exists>r. apply_opt da (transform b a False) = Inr r
     \<and> apply_opt db (transform a b True) = Inr r)"

lemmas diamond_simps = diamond_def op_end_def Let_def nat_add_distrib

lemma diamond_insert_insert:
  assumes "wf_op (Insert p s)" "wf_op (Insert q t)"
    and "apply_op d (Insert p s) = Inr da" "apply_op d (Insert q t) = Inr db"
  shows "diamond d (Insert p s) (Insert q t) da db"
proof (cases "p \<le> q")
  case True
  obtain x y z where "d = x @ y @ z" "p = int (length x)" "q = int (length x + length y)"
    by (rule cut2 [of p q d]) (use assms True in \<open>auto split: if_splits\<close>)
  with assms show ?thesis by (auto simp: diamond_simps)
next
  case False
  obtain x y z where "d = x @ y @ z" "q = int (length x)" "p = int (length x + length y)"
    by (rule cut2 [of q p d]) (use assms False in \<open>auto split: if_splits\<close>)
  with assms False show ?thesis by (auto simp: diamond_simps)
qed

text \<open>An insertion at \<open>p\<close> against a deletion of \<open>q .. q + m\<close>: before, after, or inside.\<close>

lemma insert_delete_cut:
  assumes "0 \<le> p" "p \<le> int (length d)" "0 \<le> q" "0 < m" "q + m \<le> int (length d)"
  obtains
    (before) x y z w where "d = x @ y @ z @ w" "p = int (length x)" "q = int (length x + length y)"
      "m = int (length z)"
  | (after) x y z w where "d = x @ y @ z @ w" "q = int (length x)" "m = int (length y)"
      "p = int (length x + length y + length z)"
  | (inside) x y z w where "d = x @ y @ z @ w" "q = int (length x)" "y \<noteq> []" "z \<noteq> []"
      "p = int (length x + length y)" "m = int (length y + length z)"
proof -
  consider "p \<le> q" | "q + m \<le> p" | "q < p" "p < q + m" by linarith
  then show thesis
  proof cases
    case 1
    show thesis
      by (rule cut3 [of p q "q + m" d], use assms 1 in auto) (rule before, auto)
  next
    case 2
    show thesis
      by (rule cut3 [of q "q + m" p d], use assms 2 in auto) (rule after, auto)
  next
    case 3
    show thesis
      by (rule cut3 [of q p "q + m" d], use assms 3 in auto) (rule inside, use 3 in auto)
  qed
qed

lemma diamond_insert_delete:
  assumes "wf_op (Insert p s)" "wf_op (Delete q m)"
    and "apply_op d (Insert p s) = Inr da" "apply_op d (Delete q m) = Inr db"
  shows "diamond d (Insert p s) (Delete q m) da db" "diamond d (Delete q m) (Insert p s) db da"
proof -
  have range: "0 \<le> p" "p \<le> int (length d)" "0 \<le> q" "0 < m" "q + m \<le> int (length d)"
    using assms by (auto simp: op_end_def split: if_splits)
  then show "diamond d (Insert p s) (Delete q m) da db" "diamond d (Delete q m) (Insert p s) db da"
    using assms by (cases rule: insert_delete_cut; auto simp: diamond_simps)+
qed

text \<open>
  Two deletions, up to exchanging them: apart, overlapping with the left one starting first, or
  nested.
\<close>

lemma delete_delete_cut:
  assumes "0 \<le> p" "0 < n" "p + n \<le> int (length d)" "q + m \<le> int (length d)" "0 < m" "p \<le> q"
  obtains
    (apart) x y z w v where "d = x @ y @ z @ w @ v" "p = int (length x)" "n = int (length y)"
      "q = int (length x + length y + length z)" "m = int (length w)"
  | (overlap) x y z w v where "d = x @ y @ z @ w @ v" "p = int (length x)" "z \<noteq> []"
      "n = int (length y + length z)" "q = int (length x + length y)" "m = int (length z + length w)"
  | (nested) x y z w v where "d = x @ y @ z @ w @ v" "p = int (length x)" "z \<noteq> []"
      "n = int (length y + length z + length w)" "q = int (length x + length y)" "m = int (length z)"
proof -
  consider "p + n \<le> q" | "q < p + n" "p + n \<le> q + m" | "q + m \<le> p + n" by linarith
  then show thesis
  proof cases
    case 1
    show thesis
      by (rule cut4 [of p "p + n" q "q + m" d], use assms 1 in auto) (rule apart, auto)
  next
    case 2
    show thesis
      by (rule cut4 [of p q "p + n" "q + m" d], use assms 2 in auto) (rule overlap, use 2 in auto)
  next
    case 3
    show thesis
      by (rule cut4 [of p q "q + m" "p + n" d], use assms 3 in auto) (rule nested, use assms in auto)
  qed
qed

lemma int_lengths_zero [simp]:
  "int (length u) + int (length v) \<le> 0 \<longleftrightarrow> u = [] \<and> v = []"
  "int (length u) + (int (length v) + int (length w)) \<le> 0 \<longleftrightarrow> u = [] \<and> v = [] \<and> w = []"
  "int (length u) + int (length v) = 0 \<longleftrightarrow> u = [] \<and> v = []"
  by (auto simp flip: of_nat_add)

lemma diamond_delete_delete_left:
  assumes "wf_op (Delete p n)" "wf_op (Delete q m)" "p \<le> q"
    and "apply_op d (Delete p n) = Inr da" "apply_op d (Delete q m) = Inr db"
  shows "diamond d (Delete p n) (Delete q m) da db \<and> diamond d (Delete q m) (Delete p n) db da"
proof -
  have "0 \<le> p" "0 < n" "p + n \<le> int (length d)" "q + m \<le> int (length d)" "0 < m" "p \<le> q"
    using assms by (auto simp: op_end_def split: if_splits)
  then show ?thesis
  proof (cases rule: delete_delete_cut)
    case (apart x y z w v)
    with assms show ?thesis by (cases "y = []"; cases "w = []") (auto simp: diamond_simps)
  next
    case (overlap x y z w v)
    with assms show ?thesis
      by (cases "y = []"; cases "w = []") (auto simp: diamond_simps min_def max_def)
  next
    case (nested x y z w v)
    with assms show ?thesis
      by (cases "y = []"; cases "w = []") (auto simp: diamond_simps min_def max_def)
  qed
qed

lemma transform_wf: "wf_op x \<Longrightarrow> wf_op y \<Longrightarrow> transform x y f = Some z \<Longrightarrow> wf_op z"
  by (cases x; cases y) (auto simp: op_end_def Let_def split: if_splits)

lemma diamond_holds:
  assumes "wf_op a" "wf_op b" "apply_op d a = Inr da" "apply_op d b = Inr db"
  shows "diamond d a b da db"
proof (cases a)
  case a: (Insert p s)
  then show ?thesis using assms diamond_insert_insert diamond_insert_delete(1) by (cases b) blast+
next
  case a: (Delete p n)
  show ?thesis
  proof (cases b)
    case (Insert q t)
    with a assms diamond_insert_delete(2) show ?thesis by blast
  next
    case (Delete q m)
    with a assms diamond_delete_delete_left [of p n q m d da db]
      diamond_delete_delete_left [of q m p n d db da] show ?thesis
      by (cases "p \<le> q") auto
  qed
qed

section \<open>Histories\<close>

fun wf_opt :: "op option \<Rightarrow> bool" where
  "wf_opt None = True"
| "wf_opt (Some x) = wf_op x"

text \<open>One transformation step when either side may have vanished.\<close>

fun xform :: "op option \<Rightarrow> op option \<Rightarrow> bool \<Rightarrow> op option" where
  "xform (Some x) (Some y) f = transform x y f"
| "xform x _ _ = x"

lemma xform_None [simp]: "xform x None f = x"
  by (cases x) auto

lemma xform_wf: "wf_opt x \<Longrightarrow> wf_opt y \<Longrightarrow> wf_opt (xform x y f)"
  by (cases x; cases y; cases "xform x y f") (auto intro: transform_wf)

lemma diamond_opt:
  assumes "wf_opt a" "wf_opt b" "apply_opt d a = Inr da" "apply_opt d b = Inr db"
  shows "\<exists>r. apply_opt da (xform b a False) = Inr r \<and> apply_opt db (xform a b True) = Inr r"
  using assms diamond_holds by (cases a; cases b) (auto simp: diamond_def)

fun replay :: "string \<Rightarrow> applied_op list \<Rightarrow> string result" where
  "replay t [] = Inr t"
| "replay t (e # es) = (case apply_opt t (ao_op e) of Inl x \<Rightarrow> Inl x | Inr t' \<Rightarrow> replay t' es)"

lemma replay_append:
  "replay t (xs @ ys) = (case replay t xs of Inl x \<Rightarrow> Inl x | Inr t' \<Rightarrow> replay t' ys)"
  by (induction xs arbitrary: t) (auto split: sum.splits)

definition wf_log :: "applied_op list \<Rightarrow> bool" where
  "wf_log es \<longleftrightarrow> (\<forall>e \<in> set es. wf_opt (ao_op e))"

lemma wf_log_simps [simp]:
  "wf_log []" "wf_log (e # es) \<longleftrightarrow> wf_opt (ao_op e) \<and> wf_log es"
  "wf_log (xs @ ys) \<longleftrightarrow> wf_log xs \<and> wf_log ys"
  by (auto simp: wf_log_def)

lemma rebase_Nil_None [simp]: "rebase None es = None"
  by (cases es) auto

lemma rebase_Cons: "rebase x (e # es) = rebase (xform x (ao_op e) False) es"
  by (cases x; cases "ao_op e") auto

lemma rebase_wf: "wf_opt x \<Longrightarrow> wf_log es \<Longrightarrow> wf_opt (rebase x es)"
  by (induction es arbitrary: x) (auto simp: rebase_Cons xform_wf simp del: rebase.simps(2,3))

text \<open>An operation valid on a text stays valid, rebased, after any history of that text.\<close>

lemma rebase_applies:
  assumes "apply_opt d x = Inr t" "replay d es = Inr d'" "wf_opt x" "wf_log es"
  shows "\<exists>t'. apply_opt d' (rebase x es) = Inr t'"
  using assms
proof (induction es arbitrary: d x t)
  case (Cons e es)
  obtain d1 where d1: "apply_opt d (ao_op e) = Inr d1" "replay d1 es = Inr d'"
    using Cons.prems(2) by (auto split: sum.splits)
  obtain r where "apply_opt d1 (xform x (ao_op e) False) = Inr r"
    using diamond_opt [OF _ _ d1(1) Cons.prems(1)] Cons.prems by auto
  from Cons.IH [OF this d1(2)] Cons.prems show ?case
    by (auto simp: rebase_Cons xform_wf simp del: rebase.simps(2,3))
qed auto

lemma pull_step_other:
  assumes "ao_client e \<noteq> cd_id c" "apply_opt d (cd_outstanding c) = Inr (cd_text c)"
    and "apply_opt d (ao_op e) = Inr d'" "wf_opt (ao_op e)" "wf_opt (cd_outstanding c)"
  shows "\<exists>t. pull_step c e = Inr (c\<lparr>cd_revision := ao_revision e, cd_text := t,
                cd_outstanding := xform (cd_outstanding c) (ao_op e) False\<rparr>)
            \<and> apply_opt d' (xform (cd_outstanding c) (ao_op e) False) = Inr t"
proof -
  obtain r where "apply_opt d' (xform (cd_outstanding c) (ao_op e) False) = Inr r"
      "apply_opt (cd_text c) (xform (ao_op e) (cd_outstanding c) True) = Inr r"
    using diamond_opt [OF assms(4,5,3,2)] by blast
  with assms show ?thesis
    by (cases "cd_outstanding c"; cases "ao_op e") (auto simp: pull_step_def Let_def)
qed

lemma pull_loop_others:
  assumes "\<forall>e \<in> set es. ao_client e \<noteq> cd_id c" "apply_opt d (cd_outstanding c) = Inr (cd_text c)"
    and "replay d es = Inr d'" "wf_log es" "wf_opt (cd_outstanding c)"
  shows "\<exists>t r. pull_loop c es = Inr (c\<lparr>cd_revision := r, cd_text := t,
                cd_outstanding := rebase (cd_outstanding c) es\<rparr>)
            \<and> apply_opt d' (rebase (cd_outstanding c) es) = Inr t
            \<and> r = (if es = [] then cd_revision c else ao_revision (last es))"
  using assms
proof (induction es arbitrary: c d)
  case Nil
  then show ?case by auto
next
  case (Cons e es)
  obtain d1 where d1: "apply_opt d (ao_op e) = Inr d1" "replay d1 es = Inr d'"
    using Cons.prems(3) by (auto split: sum.splits)
  let ?x = "xform (cd_outstanding c) (ao_op e) False"
  obtain t where t: "pull_step c e = Inr (c\<lparr>cd_revision := ao_revision e, cd_text := t,
                cd_outstanding := ?x\<rparr>)" "apply_opt d1 ?x = Inr t"
    using pull_step_other [OF _ Cons.prems(2) d1(1)] Cons.prems by auto
  show ?case
    using Cons.IH [of "c\<lparr>cd_revision := ao_revision e, cd_text := t, cd_outstanding := ?x\<rparr>" d1]
      Cons.prems t d1
    by (auto simp: rebase_Cons xform_wf simp del: rebase.simps(2,3))
qed

lemma pull_loop_append:
  "pull_loop c (xs @ ys) = (case pull_loop c xs of Inl x \<Rightarrow> Inl x | Inr c' \<Rightarrow> pull_loop c' ys)"
  by (induction xs arbitrary: c) (auto split: sum.splits)

section \<open>The invariant of the system\<close>

definition server_inv :: "string \<Rightarrow> doc_server \<Rightarrow> bool" where
  "server_inv t0 sv \<longleftrightarrow> replay t0 (ds_log sv) = Inr (ds_text sv) \<and> wf_log (ds_log sv)
     \<and> (\<forall>k < length (ds_log sv). ao_revision (ds_log sv ! k) = int k + 1)"

abbreviation unseen :: "doc_server \<Rightarrow> client_doc \<Rightarrow> applied_op list" where
  "unseen sv c \<equiv> drop (nat (cd_revision c)) (ds_log sv)"

definition client_inv :: "string \<Rightarrow> doc_server \<Rightarrow> client_doc \<Rightarrow> bool" where
  "client_inv t0 sv c \<longleftrightarrow>
     0 \<le> cd_revision c \<and> cd_revision c \<le> int (length (ds_log sv)) \<and> wf_opt (cd_outstanding c)
     \<and> (\<exists>d. replay t0 (take (nat (cd_revision c)) (ds_log sv)) = Inr d
            \<and> apply_opt d (cd_outstanding c) = Inr (cd_text c))
     \<and> (if cd_sent c
         then cd_outstanding c \<noteq> None \<and> (\<exists>es e fs. unseen sv c = es @ e # fs \<and> ao_client e = cd_id c
                \<and> ao_op e = rebase (cd_outstanding c) es
                \<and> (\<forall>x \<in> set (es @ fs). ao_client x \<noteq> cd_id c))
         else \<forall>x \<in> set (unseen sv c). ao_client x \<noteq> cd_id c)"

definition ot_inv :: "string \<Rightarrow> ot_sys \<Rightarrow> bool" where
  "ot_inv t0 s \<longleftrightarrow> server_inv t0 (os_server s)
     \<and> (\<forall>i c. os_clients s i = Some c \<longrightarrow> cd_id c = i \<and> client_inv t0 (os_server s) c)
     \<and> (\<forall>e \<in> set (ds_log (os_server s)). os_clients s (ao_client e) \<noteq> None)"

lemma replay_rest:
  assumes "server_inv t0 sv" "replay t0 (take n (ds_log sv)) = Inr d"
  shows "replay d (drop n (ds_log sv)) = Inr (ds_text sv)"
  using assms replay_append [of t0 "take n (ds_log sv)" "drop n (ds_log sv)"]
  by (simp add: server_inv_def)

lemma wf_log_drop: "server_inv t0 sv \<Longrightarrow> wf_log (drop n (ds_log sv))"
  by (auto simp: server_inv_def wf_log_def dest: in_set_dropD)

lemma last_unseen_revision:
  assumes "server_inv t0 sv" "drop n (ds_log sv) \<noteq> []"
  shows "ao_revision (last (drop n (ds_log sv))) = int (length (ds_log sv))"
proof -
  let ?L = "ds_log sv"
  have "?L \<noteq> []" and l: "last (drop n ?L) = ?L ! (length ?L - 1)"
    using assms(2) by (auto simp: last_drop last_conv_nth)
  then show ?thesis using assms(1) by (simp add: server_inv_def of_nat_diff Suc_leI)
qed

text \<open>A pull never raises, catches up with the log, and leaves only the outstanding op ahead.\<close>

lemma pull_result:
  assumes sv: "server_inv t0 sv" and c: "client_inv t0 sv c"
  shows "\<exists>c'. client_pull c sv = Inr c' \<and> cd_id c' = cd_id c \<and> \<not> cd_sent c'
     \<and> cd_revision c' = int (length (ds_log sv)) \<and> wf_opt (cd_outstanding c')
     \<and> apply_opt (ds_text sv) (cd_outstanding c') = Inr (cd_text c')
     \<and> (cd_sent c \<or> cd_outstanding c = None \<longrightarrow> cd_outstanding c' = None)"
proof -
  let ?E = "unseen sv c"
  obtain d where d: "replay t0 (take (nat (cd_revision c)) (ds_log sv)) = Inr d"
      "apply_opt d (cd_outstanding c) = Inr (cd_text c)"
    and rev: "0 \<le> cd_revision c" "cd_revision c \<le> int (length (ds_log sv))"
    and wf: "wf_opt (cd_outstanding c)"
    using c by (auto simp: client_inv_def)
  have E: "replay d ?E = Inr (ds_text sv)" "wf_log ?E"
    using replay_rest [OF sv d(1)] wf_log_drop [OF sv] by auto
  have pull: "client_pull c sv = pull_loop c ?E"
    using rev by (simp add: client_pull_def server_ops_since_def)
  have last: "?E \<noteq> [] \<Longrightarrow> ao_revision (last ?E) = int (length (ds_log sv))"
    by (rule last_unseen_revision [OF sv])
  have empty: "?E = [] \<Longrightarrow> cd_revision c = int (length (ds_log sv))"
    using rev by auto
  show ?thesis
  proof (cases "cd_sent c")
    case False
    with c have "\<forall>x \<in> set ?E. ao_client x \<noteq> cd_id c" by (simp add: client_inv_def)
    note others = pull_loop_others [OF this d(2) E wf]
    show ?thesis
    proof (cases "?E = []")
      case True
      with False pull empty d wf E(1) show ?thesis by simp
    next
      case ne: False
      with others show ?thesis using False pull last rebase_wf [OF wf E(2)] by auto
    qed
  next
    case True
    then obtain es e fs where own: "?E = es @ e # fs" "ao_client e = cd_id c"
        "ao_op e = rebase (cd_outstanding c) es" "\<forall>x \<in> set (es @ fs). ao_client x \<noteq> cd_id c"
      using c by (auto simp: client_inv_def)
    obtain d1 where d1: "replay d es = Inr d1" "replay d1 (e # fs) = Inr (ds_text sv)"
      using E(1) own(1) by (auto simp: replay_append split: sum.splits)
    have wfs: "wf_log es" "wf_log fs" using E(2) own(1) by auto
    obtain t r where t: "pull_loop c es = Inr (c\<lparr>cd_revision := r, cd_text := t,
          cd_outstanding := rebase (cd_outstanding c) es\<rparr>)"
        "apply_opt d1 (rebase (cd_outstanding c) es) = Inr t"
      using pull_loop_others [OF _ d(2) d1(1) wfs(1) wf] own(4) by auto
    let ?c1 = "c\<lparr>cd_text := t, cd_revision := ao_revision e, cd_outstanding := None, cd_sent := False\<rparr>"
    have step: "pull_loop c ?E = pull_loop ?c1 fs"
      using t(1) own(1,2) by (simp add: pull_loop_append pull_step_def Let_def)
    have fs: "replay t fs = Inr (ds_text sv)" using d1(2) t(2) own(3) by simp
    obtain t' r' where "pull_loop ?c1 fs = Inr (?c1\<lparr>cd_revision := r', cd_text := t',
          cd_outstanding := None\<rparr>)" "ds_text sv = t'"
        "r' = (if fs = [] then ao_revision e else ao_revision (last fs))"
      using pull_loop_others [of fs ?c1 t, OF _ _ fs wfs(2)] own(4) by auto
    then show ?thesis using pull step last own(1) True by (cases "fs = []") auto
  qed
qed

section \<open>Every step keeps the invariant\<close>

lemma submit_result:
  assumes sv: "server_inv t0 sv" and c: "client_inv t0 sv c" and x: "cd_outstanding c = Some x"
  shows "\<exists>a sv'. server_submit sv i x (cd_revision c) = Inr (a, sv')
     \<and> server_inv t0 sv' \<and> ds_log sv' = ds_log sv @ [a] \<and> ao_client a = i
     \<and> ao_op a = rebase (Some x) (unseen sv c)"
proof -
  obtain d where d: "replay t0 (take (nat (cd_revision c)) (ds_log sv)) = Inr d"
      "apply_opt d (Some x) = Inr (cd_text c)"
    and rev: "0 \<le> cd_revision c" "cd_revision c \<le> int (length (ds_log sv))" and wf: "wf_opt (Some x)"
    using c x by (auto simp: client_inv_def)
  note E = replay_rest [OF sv d(1)] wf_log_drop [OF sv]
  obtain t where t: "apply_opt (ds_text sv) (rebase (Some x) (unseen sv c)) = Inr t"
    using rebase_applies [OF d(2) E(1) wf E(2)] by auto
  let ?a = "\<lparr>ao_revision = int (length (ds_log sv)) + 1, ao_client = i,
    ao_op = rebase (Some x) (unseen sv c)\<rparr>"
  have "server_inv t0 (sv\<lparr>ds_text := t, ds_log := ds_log sv @ [?a]\<rparr>)"
    using sv t rebase_wf [OF wf E(2)]
    by (auto simp: server_inv_def replay_append nth_append less_Suc_eq)
  then show ?thesis using t rev by (auto simp: server_submit_def Let_def)
qed

text \<open>A new log entry by client \<open>i\<close> does not disturb the others.\<close>

lemma client_inv_grow:
  assumes "client_inv t0 sv c" "ds_log sv' = ds_log sv @ [a]" "ao_client a \<noteq> cd_id c"
  shows "client_inv t0 sv' c"
proof -
  have grow: "unseen sv' c = unseen sv c @ [a]"
    "take (nat (cd_revision c)) (ds_log sv') = take (nat (cd_revision c)) (ds_log sv)"
    using assms by (auto simp: client_inv_def)
  have "\<exists>es e fs. unseen sv' c = es @ e # fs \<and> ao_client e = cd_id c
      \<and> ao_op e = rebase (cd_outstanding c) es \<and> (\<forall>x \<in> set (es @ fs). ao_client x \<noteq> cd_id c)"
    if sent: "cd_sent c"
  proof -
    obtain es e fs where "unseen sv c = es @ e # fs" "ao_client e = cd_id c"
        "ao_op e = rebase (cd_outstanding c) es" "\<forall>x \<in> set (es @ fs). ao_client x \<noteq> cd_id c"
      using sent assms(1) by (auto simp: client_inv_def)
    with grow(1) assms(3) show ?thesis
      by (intro exI [of _ es] exI [of _ e] exI [of _ "fs @ [a]"]) auto
  qed
  with assms grow show ?thesis by (auto simp: client_inv_def)
qed

lemma client_inv_pushed:
  assumes "client_inv t0 sv c" "cd_outstanding c = Some x" "\<not> cd_sent c"
    and "ds_log sv' = ds_log sv @ [a]" "ao_client a = cd_id c"
    and "ao_op a = rebase (Some x) (unseen sv c)"
  shows "client_inv t0 sv' (c\<lparr>cd_sent := True\<rparr>)"
proof -
  have "unseen sv' c = unseen sv c @ a # []"
    "take (nat (cd_revision c)) (ds_log sv') = take (nat (cd_revision c)) (ds_log sv)"
    using assms by (auto simp: client_inv_def)
  then show ?thesis using assms unfolding client_inv_def by fastforce
qed

lemma push_result:
  assumes "server_inv t0 sv" "client_inv t0 sv c"
  shows "\<exists>b c' sv'. client_push c sv = Inr (b, c', sv') \<and> cd_id c' = cd_id c
     \<and> server_inv t0 sv' \<and> client_inv t0 sv' c'
     \<and> (b \<longleftrightarrow> cd_outstanding c \<noteq> None \<and> \<not> cd_sent c)
     \<and> (if b then \<exists>a. ds_log sv' = ds_log sv @ [a] \<and> ao_client a = cd_id c else sv' = sv)"
proof (cases "cd_outstanding c = None \<or> cd_sent c")
  case True
  with assms show ?thesis by (auto simp: client_push_def split: option.splits)
next
  case False
  then obtain x where x: "cd_outstanding c = Some x" "\<not> cd_sent c" by auto
  obtain a sv' where a: "server_submit sv (cd_id c) x (cd_revision c) = Inr (a, sv')"
      "server_inv t0 sv'" "ds_log sv' = ds_log sv @ [a]" "ao_client a = cd_id c"
      "ao_op a = rebase (Some x) (unseen sv c)"
    using submit_result [OF assms x(1)] by blast
  with client_inv_pushed [OF assms(2) x a(3-5)] x show ?thesis by (auto simp: client_push_def)
qed

lemma client_inv_edit:
  assumes "client_inv t0 sv c" "wf_op x" "client_edit c x = Inr c'"
  shows "client_inv t0 sv c'" "cd_id c' = cd_id c"
proof -
  obtain t where c: "cd_outstanding c = None" "apply_op (cd_text c) x = Inr t"
      "c' = c\<lparr>cd_text := t, cd_outstanding := Some x\<rparr>"
    using assms(3) by (auto simp: client_edit_def split: if_splits sum.splits)
  then show "cd_id c' = cd_id c" by simp
  have "\<not> cd_sent c" using assms(1) c(1) by (auto simp: client_inv_def)
  with assms(1,2) c show "client_inv t0 sv c'" by (auto simp: client_inv_def)
qed

lemma client_inv_new:
  assumes "server_inv t0 sv"
  shows "client_inv t0 sv (client_new i (ds_text sv) (int (length (ds_log sv))))"
  using assms by (auto simp: client_inv_def client_new_def server_inv_def)

lemma client_inv_pull:
  assumes "server_inv t0 sv" "client_inv t0 sv c" "client_pull c sv = Inr c'"
  shows "client_inv t0 sv c'" "cd_id c' = cd_id c"
  using pull_result [OF assms(1,2)] assms(1,3) by (auto simp: client_inv_def server_inv_def)

inductive_cases ot_stepE [consumes 1, case_names join edit push pull]: "ot_step s t"

lemma ot_step_inv:
  assumes "ot_step s t" "ot_inv t0 s"
  shows "ot_inv t0 t"
  using assms(1)
proof (cases rule: ot_stepE)
  case (join i r u)
  then show ?thesis using assms(2) client_inv_new [of t0 "os_server s" i]
    by (auto simp: ot_inv_def server_snapshot_def client_new_def)
next
  case (edit i c x c')
  then show ?thesis using assms(2) client_inv_edit [of t0 "os_server s" c x c']
    by (auto simp: ot_inv_def)
next
  case (push i c b c' sv')
  have inv: "server_inv t0 (os_server s)" "client_inv t0 (os_server s) c" "cd_id c = i"
    using assms(2) push by (auto simp: ot_inv_def)
  from push_result [OF inv(1,2)] push(3)
  have new: "cd_id c' = i" "server_inv t0 sv'" "client_inv t0 sv' c'"
    and grow: "sv' = os_server s \<or> (\<exists>a. ds_log sv' = ds_log (os_server s) @ [a] \<and> ao_client a = i)"
    using inv(3) by (auto split: if_splits)
  have others: "client_inv t0 sv' k" if "os_clients s j = Some k" "j \<noteq> i" for j k
    using grow client_inv_grow [of t0 "os_server s" k sv'] that assms(2)
    by (auto simp: ot_inv_def)
  have "os_clients t (ao_client e) \<noteq> None" if "e \<in> set (ds_log sv')" for e
    using that grow assms(2) push by (auto simp: ot_inv_def)
  with push new others assms(2) show ?thesis by (auto simp: ot_inv_def)
next
  case (pull i c c')
  then show ?thesis using assms(2) client_inv_pull [of t0 "os_server s" c c']
    by (auto simp: ot_inv_def)
qed

lemma ot_reachable_inv: "ot_reachable t0 s \<Longrightarrow> ot_inv t0 s"
proof (induction rule: ot_reachable.induct)
  case start
  then show ?case by (simp add: ot_inv_def ot_init_def server_new_def server_inv_def)
next
  case (step s t)
  then show ?case by (blast intro: ot_step_inv)
qed

section \<open>Properties\<close>

text \<open>C8. Transformation property TP1, for every pair of well-formed operations that both apply to
  a document, ties, overlaps and swallowed insertions included: applying \<open>a\<close> and then the
  rebased \<open>b\<close> gives the same text as applying \<open>b\<close> and then \<open>a\<close> rebased with the tie-break
  mirrored, and neither side raises.
\<close>

theorem transform_TP1:
  assumes "wf_op a" "wf_op b" "apply_op d a = Inr da" "apply_op d b = Inr db"
  shows "\<exists>r. apply_opt da (transform b a False) = Inr r \<and> apply_opt db (transform a b True) = Inr r"
  using diamond_holds [OF assms] by (simp add: diamond_def)

theorem transform_TP1_witness:
  "apply_op ''abcd'' (Insert 2 ''X'') = Inr ''abXcd'' \<and> apply_op ''abcd'' (Delete 1 3) = Inr ''a''
   \<and> (\<exists>r. apply_opt ''abXcd'' (transform (Delete 1 3) (Insert 2 ''X'') False) = Inr r
         \<and> apply_opt ''a'' (transform (Insert 2 ''X'') (Delete 1 3) True) = Inr r)"
proof -
  have h: "wf_op (Insert 2 ''X'')" "wf_op (Delete 1 3)"
      "apply_op ''abcd'' (Insert 2 ''X'') = Inr ''abXcd''" "apply_op ''abcd'' (Delete 1 3) = Inr ''a''"
    by (simp_all add: op_end_def numeral_2_eq_2)
  from h transform_TP1 [OF h] show ?thesis by blast
qed

text \<open>A run with a concurrent insertion and deletion, for the witnesses below.\<close>

lemma editor_run:
  "\<exists>s c. ot_reachable ''ab'' s \<and> os_clients s ''b'' = Some c \<and> ds_text (os_server s) = ''aXb''
     \<and> cd_outstanding c = Some (Delete 0 2) \<and> \<not> cd_sent c"
proof -
  let ?a0 = "client_new ''a'' ''ab'' 0" and ?b0 = "client_new ''b'' ''ab'' 0"
  let ?a1 = "?a0\<lparr>cd_text := ''aXb'', cd_outstanding := Some (Insert 1 ''X'')\<rparr>"
  let ?b1 = "?b0\<lparr>cd_text := [], cd_outstanding := Some (Delete 0 2)\<rparr>"
  let ?sv = "\<lparr>ds_text = ''aXb'',
    ds_log = [\<lparr>ao_revision = 1, ao_client = ''a'', ao_op = Some (Insert 1 ''X'')\<rparr>]\<rparr>"
  have 1: "ot_reachable ''ab'' (ot_init ''ab'')" by (rule ot_reachable.start)
  have 2: "ot_reachable ''ab'' ((ot_init ''ab'')\<lparr>os_clients := [''a'' \<mapsto> ?a0]\<rparr>)"
    by (rule ot_reachable.step [OF 1])
      (use ot_step.join [of "ot_init ''ab''" "''a''" 0 "''ab''"] in
        \<open>simp add: ot_init_def server_snapshot_def server_new_def\<close>)
  have 3: "ot_reachable ''ab'' ((ot_init ''ab'')\<lparr>os_clients := [''a'' \<mapsto> ?a0, ''b'' \<mapsto> ?b0]\<rparr>)"
    by (rule ot_reachable.step [OF 2])
      (use ot_step.join [of "(ot_init ''ab'')\<lparr>os_clients := [''a'' \<mapsto> ?a0]\<rparr>" "''b''" 0 "''ab''"] in
        \<open>simp add: ot_init_def server_snapshot_def server_new_def\<close>)
  have 4: "ot_reachable ''ab'' ((ot_init ''ab'')\<lparr>os_clients := [''a'' \<mapsto> ?a0, ''b'' \<mapsto> ?b1]\<rparr>)"
    by (rule ot_reachable.step [OF 3])
      (use ot_step.edit [of "(ot_init ''ab'')\<lparr>os_clients := [''a'' \<mapsto> ?a0, ''b'' \<mapsto> ?b0]\<rparr>"
          "''b''" ?b0 "Delete 0 2" ?b1] in
        \<open>simp add: client_edit_def client_new_def op_end_def\<close>)
  have 5: "ot_reachable ''ab'' ((ot_init ''ab'')\<lparr>os_clients := [''a'' \<mapsto> ?a1, ''b'' \<mapsto> ?b1]\<rparr>)"
    by (rule ot_reachable.step [OF 4])
      (use ot_step.edit [of "(ot_init ''ab'')\<lparr>os_clients := [''a'' \<mapsto> ?a0, ''b'' \<mapsto> ?b1]\<rparr>"
          "''a''" ?a0 "Insert 1 ''X''" ?a1] in
        \<open>simp add: client_edit_def client_new_def fun_upd_twist\<close>)
  have 6: "ot_reachable ''ab'' \<lparr>os_server = ?sv,
      os_clients = [''a'' \<mapsto> ?a1\<lparr>cd_sent := True\<rparr>, ''b'' \<mapsto> ?b1]\<rparr>"
    by (rule ot_reachable.step [OF 5])
      (use ot_step.push [of "(ot_init ''ab'')\<lparr>os_clients := [''a'' \<mapsto> ?a1, ''b'' \<mapsto> ?b1]\<rparr>"
          "''a''" ?a1 True "?a1\<lparr>cd_sent := True\<rparr>" ?sv] in
        \<open>simp add: client_push_def client_new_def server_submit_def ot_init_def server_new_def
            Let_def fun_upd_twist\<close>)
  show ?thesis by (rule exI, rule exI [of _ ?b1], rule conjI [OF 6]) (simp add: client_new_def)
qed

text \<open>C1. Convergence of the editor: in every state the server and its clients can reach by joining,
  editing, pushing and pulling in any order, a pull never raises and brings the client to the
  server's revision; its text is then the server's text with its outstanding operation applied,
  and equals the server's text when there was none or when it had been pushed.
\<close>

theorem ot_convergence:
  assumes "ot_reachable t0 s" "os_clients s i = Some c"
  shows "\<exists>c'. client_pull c (os_server s) = Inr c'
     \<and> cd_revision c' = server_revision (os_server s)
     \<and> apply_opt (ds_text (os_server s)) (cd_outstanding c') = Inr (cd_text c')
     \<and> (cd_sent c \<or> cd_outstanding c = None \<longrightarrow> cd_text c' = ds_text (os_server s))"
proof -
  have "server_inv t0 (os_server s)" "client_inv t0 (os_server s) c"
    using ot_reachable_inv [OF assms(1)] assms(2) by (auto simp: ot_inv_def)
  from pull_result [OF this] show ?thesis by (auto simp: server_revision_def)
qed

theorem ot_convergence_witness:
  "\<exists>s c c'. ot_reachable ''ab'' s \<and> os_clients s ''b'' = Some c \<and> ds_text (os_server s) = ''aXb''
     \<and> cd_outstanding c = Some (Delete 0 2) \<and> client_pull c (os_server s) = Inr c'
     \<and> apply_opt ''aXb'' (cd_outstanding c') = Inr (cd_text c')"
proof -
  obtain s c where s: "ot_reachable ''ab'' s" "os_clients s ''b'' = Some c"
      "ds_text (os_server s) = ''aXb''" "cd_outstanding c = Some (Delete 0 2)"
    using editor_run by blast
  with ot_convergence [OF s(1,2)] show ?thesis by metis
qed

text \<open>The server never rejects an honest client: in every reachable state a push succeeds, adds
  one log entry exactly when there was an unsent operation, and the server's text stays the
  replay of its log from the initial text.
\<close>

theorem ot_push_never_rejected:
  assumes "ot_reachable t0 s" "os_clients s i = Some c"
  shows "\<exists>b c' sv'. client_push c (os_server s) = Inr (b, c', sv')
     \<and> (b \<longleftrightarrow> cd_outstanding c \<noteq> None \<and> \<not> cd_sent c)
     \<and> server_revision sv' = server_revision (os_server s) + (if b then 1 else 0)
     \<and> replay t0 (ds_log sv') = Inr (ds_text sv')"
proof -
  have "server_inv t0 (os_server s)" "client_inv t0 (os_server s) c"
    using ot_reachable_inv [OF assms(1)] assms(2) by (auto simp: ot_inv_def)
  from push_result [OF this] show ?thesis
    by (auto simp: server_inv_def server_revision_def split: if_splits)
qed

theorem ot_push_never_rejected_witness:
  "\<exists>s c b c' sv'. ot_reachable ''ab'' s \<and> os_clients s ''b'' = Some c
     \<and> client_push c (os_server s) = Inr (b, c', sv') \<and> b
     \<and> replay ''ab'' (ds_log sv') = Inr (ds_text sv')"
proof -
  obtain s c where s: "ot_reachable ''ab'' s" "os_clients s ''b'' = Some c"
      "cd_outstanding c = Some (Delete 0 2)" "\<not> cd_sent c"
    using editor_run by blast
  obtain b c' sv' where r: "client_push c (os_server s) = Inr (b, c', sv')"
      "b \<longleftrightarrow> cd_outstanding c \<noteq> None \<and> \<not> cd_sent c" "replay ''ab'' (ds_log sv') = Inr (ds_text sv')"
    using ot_push_never_rejected [OF s(1,2)] by blast
  with s(3,4) have b by simp
  with s(1,2) r show ?thesis by blast
qed

end
