(* ===== verification/Common.thy ===== *)
theory Common
  imports Prelude
begin

text \<open>
  The shared utilities of \<^verbatim>\<open>code/common\<close>: the hand-moved clock of \<^verbatim>\<open>clock.py\<close>, the id
  generators of \<^verbatim>\<open>ids.py\<close> with the contract their clients rely on, and the integer money of
  \<^verbatim>\<open>money.py\<close> with its lossless split.

  Clock readings are floats in the code. The model reads them as exact rationals: the services
  only add durations to them and compare them. An operation of a service takes the reading
  of its injected \<^verbatim>\<open>Clock\<close> as an argument.
\<close>

section \<open>The hand-moved clock\<close>

type_synonym time = rat

record fake_clock =
  fc_now :: time

definition fake_clock_new :: "time \<Rightarrow> fake_clock" where
  "fake_clock_new start = \<lparr>fc_now = start\<rparr>"

definition fake_clock_advance :: "fake_clock \<Rightarrow> time \<Rightarrow> fake_clock result" where
  "fake_clock_advance c seconds =
     (if seconds < 0 then Inl ValueError else Inr (c\<lparr>fc_now := fc_now c + seconds\<rparr>))"

definition fake_clock_set :: "fake_clock \<Rightarrow> time \<Rightarrow> fake_clock" where
  "fake_clock_set c timestamp = c\<lparr>fc_now := timestamp\<rparr>"

lemma fake_clock_advance_monotone:
  "fake_clock_advance c s = Inr c' \<Longrightarrow> fc_now c \<le> fc_now c'"
  by (auto simp: fake_clock_advance_def split: if_splits)

section \<open>Id generators\<close>

text \<open>
  \<^verbatim>\<open>IdGenerator\<close> is a protocol with one method. What its clients need of it is that an id is
  never handed out twice: \<open>fresh g x\<close> says that \<open>x\<close> may still be issued from state \<open>g\<close>.
\<close>

locale id_source =
  fixes next_id :: "'g \<Rightarrow> string \<times> 'g"
    and fresh :: "'g \<Rightarrow> string \<Rightarrow> bool"
  assumes issued_was_fresh: "next_id g = (x, g') \<Longrightarrow> fresh g x"
    and issued_is_spent: "next_id g = (x, g') \<Longrightarrow> \<not> fresh g' x"
    and fresh_shrinks: "next_id g = (x, g') \<Longrightarrow> fresh g' y \<Longrightarrow> fresh g y"
begin

fun take_ids :: "nat \<Rightarrow> 'g \<Rightarrow> string list" where
  "take_ids 0 g = []"
| "take_ids (Suc n) g = (case next_id g of (x, g') \<Rightarrow> x # take_ids n g')"

lemma take_ids_fresh: "x \<in> set (take_ids n g) \<Longrightarrow> fresh g x"
proof (induction n arbitrary: g)
  case (Suc n)
  obtain y g' where "next_id g = (y, g')" by fastforce
  with Suc show ?case by (auto intro: issued_was_fresh fresh_shrinks)
qed simp

lemma take_ids_distinct: "distinct (take_ids n g)"
proof (induction n arbitrary: g)
  case (Suc n)
  obtain y g' where "next_id g = (y, g')" by fastforce
  with Suc show ?case by (auto dest: take_ids_fresh issued_is_spent)
qed simp

end

record id_gen =
  ig_prefix :: string
  ig_counter :: int

definition id_gen_new :: "string \<Rightarrow> int \<Rightarrow> id_gen" where
  "id_gen_new prefix start = \<lparr>ig_prefix = prefix, ig_counter = start\<rparr>"

definition seq_next_id :: "id_gen \<Rightarrow> string \<times> id_gen" where
  "seq_next_id g =
     (ig_prefix g @ ''-'' @ str_of_int (ig_counter g), g\<lparr>ig_counter := ig_counter g + 1\<rparr>)"

definition seq_fresh :: "id_gen \<Rightarrow> string \<Rightarrow> bool" where
  "seq_fresh g x \<longleftrightarrow> (\<exists>n \<ge> ig_counter g. x = ig_prefix g @ ''-'' @ str_of_int n)"

interpretation seq_ids: id_source seq_next_id seq_fresh
proof
  fix g x g' y
  assume nxt: "seq_next_id g = (x, g')"
  show "seq_fresh g x" using nxt by (auto simp: seq_next_id_def seq_fresh_def)
  show "\<not> seq_fresh g' x" using nxt by (auto simp: seq_next_id_def seq_fresh_def)
  show "seq_fresh g' y \<Longrightarrow> seq_fresh g y"
    using nxt by (fastforce simp: seq_next_id_def seq_fresh_def)
qed

section \<open>Money\<close>

datatype money = Money (cents: int) (currency: string)

text \<open>\<^verbatim>\<open>dataclass(order=True)\<close> compares the field tuple.\<close>

instantiation money :: linorder
begin

definition less_eq_money :: "money \<Rightarrow> money \<Rightarrow> bool" where
  "less_eq_money a b \<longleftrightarrow> cents a < cents b \<or> cents a = cents b \<and> currency a \<le> currency b"

definition less_money :: "money \<Rightarrow> money \<Rightarrow> bool" where
  "less_money a b \<longleftrightarrow> cents a < cents b \<or> cents a = cents b \<and> currency a < currency b"

instance
  by standard (auto simp: less_eq_money_def less_money_def intro: money.expand)

end

definition money_check :: "money \<Rightarrow> money \<Rightarrow> unit result" where
  "money_check a b = (if currency a \<noteq> currency b then Inl ValueError else Inr ())"

definition money_add :: "money \<Rightarrow> money \<Rightarrow> money result" where
  "money_add a b = (case money_check a b of Inl e \<Rightarrow> Inl e
     | Inr _ \<Rightarrow> Inr (Money (cents a + cents b) (currency a)))"

definition money_sub :: "money \<Rightarrow> money \<Rightarrow> money result" where
  "money_sub a b = (case money_check a b of Inl e \<Rightarrow> Inl e
     | Inr _ \<Rightarrow> Inr (Money (cents a - cents b) (currency a)))"

definition money_neg :: "money \<Rightarrow> money" where
  "money_neg a = Money (- cents a) (currency a)"

definition money_is_zero :: "money \<Rightarrow> bool" where
  "money_is_zero a \<longleftrightarrow> cents a = 0"

definition pad2 :: "nat \<Rightarrow> string" where
  "pad2 n = (if n < 10 then CHR ''0'' # str_of_nat n else str_of_nat n)"

definition money_str :: "money \<Rightarrow> string" where
  "money_str a =
     (if cents a < 0 then ''-'' else '''') @ str_of_int (\<bar>cents a\<bar> div 100) @ ''.'' @
     pad2 (nat (\<bar>cents a\<bar> mod 100)) @ '' '' @ currency a"

text \<open>The body of the remainder loop of \<^verbatim>\<open>allocate\<close>: one cent to share \<open>i mod n\<close>.\<close>

definition allocate_step :: "int \<Rightarrow> nat \<Rightarrow> int list \<Rightarrow> int list" where
  "allocate_step remainder i shares =
     (let j = i mod length shares
      in shares[j := shares ! j + (if remainder > 0 then 1 else -1)])"

definition allocate_floor :: "int \<Rightarrow> int list \<Rightarrow> int list" where
  "allocate_floor c ratios = map (\<lambda>r. c * r div sum_list ratios) ratios"

definition money_allocate :: "money \<Rightarrow> int list \<Rightarrow> money list result" where
  "money_allocate m ratios =
     (if ratios = [] \<or> (\<exists>r \<in> set ratios. r < 0) \<or> sum_list ratios = 0 then Inl ValueError
      else let shares = allocate_floor (cents m) ratios;
               remainder = cents m - sum_list shares;
               final = fold (allocate_step remainder) [0 ..< nat \<bar>remainder\<bar>] shares
           in Inr (map (\<lambda>s. Money s (currency m)) final))"

subsection \<open>The split loses nothing\<close>

lemma allocate_floor_lower:
  "0 < t \<Longrightarrow> sum_list (map (\<lambda>r. c * r div t) rs) * t \<le> c * sum_list rs" for c t :: int
proof (induction rs)
  case (Cons r rs)
  have "(c * r div t) * t \<le> c * r" using Cons.prems by (simp add: pos_mod_sign minus_mod_eq_div_mult [symmetric])
  with Cons show ?case by (simp add: algebra_simps)
qed simp

lemma allocate_floor_upper:
  "0 < t \<Longrightarrow>
   c * sum_list rs \<le> sum_list (map (\<lambda>r. c * r div t) rs) * t + int (length rs) * (t - 1)" for c t :: int
proof (induction rs)
  case (Cons r rs)
  have "c * r \<le> (c * r div t) * t + (t - 1)"
    using Cons.prems pos_mod_bound [of t "c * r"] div_mult_mod_eq [of "c * r" t] by linarith
  with Cons show ?case by (simp add: algebra_simps)
qed simp

lemma allocate_remainder_range:
  fixes c :: int
  assumes "0 < sum_list rs"
  shows "0 \<le> c - sum_list (allocate_floor c rs)"
    and "c - sum_list (allocate_floor c rs) < int (length rs)"
proof -
  let ?t = "sum_list rs" and ?S = "sum_list (allocate_floor c rs)"
  have lo: "?S * ?t \<le> c * ?t"
    using allocate_floor_lower [OF assms, of c rs] by (simp add: allocate_floor_def)
  then show "0 \<le> c - ?S" using assms by simp
  have "c * ?t \<le> ?S * ?t + int (length rs) * (?t - 1)"
    using allocate_floor_upper [OF assms, of c rs] by (simp add: allocate_floor_def)
  then have "(c - ?S) * ?t \<le> int (length rs) * ?t - int (length rs)"
    by (simp add: algebra_simps)
  moreover have "0 < length rs" using assms by (cases rs) auto
  ultimately have "(c - ?S) * ?t < int (length rs) * ?t" by linarith
  then show "c - ?S < int (length rs)" using assms by simp
qed

lemma allocate_loop:
  assumes "0 < rem" and "k \<le> length xs"
  shows "fold (allocate_step rem) [0 ..< k] xs =
    map (\<lambda>i. xs ! i + (if i < k then 1 else 0)) [0 ..< length xs]"
  using assms(2)
proof (induction k)
  case 0
  then show ?case by (simp add: map_nth)
next
  case (Suc k)
  then show ?case
    by (auto simp: allocate_step_def Let_def \<open>0 < rem\<close> nth_list_update less_Suc_eq
        intro!: nth_equalityI)
qed

lemma money_allocate_shares:
  assumes "money_allocate m ratios = Inr ms"
  shows "ms = map (\<lambda>i. Money (cents m * (ratios ! i) div sum_list ratios +
                 (if int i < cents m - sum_list (allocate_floor (cents m) ratios) then 1 else 0))
               (currency m)) [0 ..< length ratios]"
    and "0 < sum_list ratios"
proof -
  let ?F = "allocate_floor (cents m) ratios"
  let ?R = "cents m - sum_list ?F"
  have nonneg: "\<forall>r \<in> set ratios. 0 \<le> r" and nz: "sum_list ratios \<noteq> 0"
    using assms by (auto simp: money_allocate_def Let_def split: if_splits)
  then show pos: "0 < sum_list ratios"
    using sum_list_nonneg [of ratios] by fastforce
  have ms: "ms = map (\<lambda>s. Money s (currency m)) (fold (allocate_step ?R) [0 ..< nat \<bar>?R\<bar>] ?F)"
    using assms by (auto simp: money_allocate_def Let_def split: if_splits)
  note R = allocate_remainder_range [OF pos, of "cents m"]
  have len: "length ?F = length ratios" by (simp add: allocate_floor_def)
  have "fold (allocate_step ?R) [0 ..< nat \<bar>?R\<bar>] ?F =
     map (\<lambda>i. ?F ! i + (if int i < ?R then 1 else 0)) [0 ..< length ratios]"
  proof (cases "0 < ?R")
    case True
    then show ?thesis
      using R len by (subst allocate_loop) (auto simp: zless_nat_conj intro!: map_cong)
  next
    case False
    then have "?R = 0" using R(1) by linarith
    then show ?thesis using map_nth [of ?F] by (simp add: len del: right_minus_eq)
  qed
  then show "ms = map (\<lambda>i. Money (cents m * (ratios ! i) div sum_list ratios +
                 (if int i < ?R then 1 else 0)) (currency m)) [0 ..< length ratios]"
    unfolding ms by (simp add: allocate_floor_def)
qed

lemma sum_indicator_upt:
  "0 \<le> R \<Longrightarrow> R \<le> int n \<Longrightarrow> (\<Sum>i \<leftarrow> [0 ..< n]. if int i < R then 1 else 0) = R"
proof (induction n arbitrary: R)
  case (Suc n)
  show ?case
  proof (cases "R = int (Suc n)")
    case True
    have "(\<Sum>i \<leftarrow> [0 ..< n]. if int i < R then 1 else 0) = (\<Sum>i \<leftarrow> [0 ..< n]. if int i < int n then 1 else (0::int))"
      using True by (intro arg_cong [where f = sum_list] map_cong) auto
    also have "\<dots> = int n" by (rule Suc.IH) auto
    finally show ?thesis using True by simp
  next
    case False
    with Suc show ?thesis by simp
  qed
qed simp

text \<open>Splitting an amount by integer ratios loses no cent: the shares add up to the amount, there
  is one per ratio, in the same currency, and each is its exact proportional part rounded down
  or that plus one cent.
\<close>

theorem allocate_exact:
  assumes "money_allocate m ratios = Inr shares"
  shows "sum_list (map cents shares) = cents m
    \<and> length shares = length ratios
    \<and> (\<forall>i < length ratios. currency (shares ! i) = currency m
        \<and> cents (shares ! i) - cents m * (ratios ! i) div sum_list ratios \<in> {0, 1})"
proof -
  let ?R = "cents m - sum_list (allocate_floor (cents m) ratios)"
  note shares = money_allocate_shares [OF assms]
  have "sum_list (map cents shares) = sum_list (map (\<lambda>i. cents m * (ratios ! i) div sum_list ratios)
          [0 ..< length ratios]) + (\<Sum>i \<leftarrow> [0 ..< length ratios]. if int i < ?R then 1 else 0)"
    by (subst shares(1)) (simp add: o_def sum_list_addf)
  also have "\<dots> = sum_list (allocate_floor (cents m) ratios) + ?R"
    using allocate_remainder_range [OF shares(2), of "cents m"]
    by (subst sum_indicator_upt) (auto simp: allocate_floor_def map_nth
        intro!: arg_cong [where f = sum_list] nth_equalityI)
  finally have "sum_list (map cents shares) = cents m" by simp
  then show ?thesis by (auto simp: shares(1))
qed

theorem allocate_exact_witness:
  "money_allocate (Money 100 ''USD'') [1, 1, 1] = Inr [Money 34 ''USD'', Money 33 ''USD'', Money 33 ''USD'']
   \<and> sum_list (map cents [Money 34 ''USD'', Money 33 ''USD'', Money 33 ''USD'']) = cents (Money 100 ''USD'')"
proof -
  have h: "money_allocate (Money 100 ''USD'') [1, 1, 1] =
      Inr [Money 34 ''USD'', Money 33 ''USD'', Money 33 ''USD'']"
    by (simp add: money_allocate_def allocate_floor_def allocate_step_def)
  with allocate_exact [OF h] show ?thesis by blast
qed

end
