(* ===== verification/Snowflake.thy ===== *)
theory Snowflake
  imports Common "HOL-Library.Word"
begin

text \<open>
  The id generator of \<^verbatim>\<open>code/hld/snowflake.py\<close>: the bit layout with \<^verbatim>\<open>compose\<close> and
  \<^verbatim>\<open>decompose\<close>, the generator with its logical millisecond, borrowed milliseconds and drift
  limit, and the registry that leases machine ids. Python integers are unbounded, so ids are
  \<open>int\<close> and the shifts are \<open>push_bit\<close> and \<open>drop_bit\<close>; that an id fits 63 bits is a theorem with
  its side condition, not an assumption.
\<close>

unbundle bit_operations_syntax

section \<open>Layout\<close>

record sf_parts =
  sp_timestamp_ms :: int
  sp_machine_id :: int
  sp_sequence :: int

record layout =
  ly_timestamp_bits :: int
  ly_machine_bits :: int
  ly_sequence_bits :: int

definition layout_new :: "int \<Rightarrow> int \<Rightarrow> int \<Rightarrow> layout result" where
  "layout_new t m s =
     (if min (min t m) s \<le> 0 then Inl ValidationError
      else if t + m + s \<noteq> 63 then Inl ValidationError
      else Inr \<lparr>ly_timestamp_bits = t, ly_machine_bits = m, ly_sequence_bits = s\<rparr>)"

definition default_layout :: layout where
  "default_layout = \<lparr>ly_timestamp_bits = 41, ly_machine_bits = 10, ly_sequence_bits = 12\<rparr>"

definition shl :: "int \<Rightarrow> int \<Rightarrow> int" where
  "shl x n = push_bit (nat n) x"

definition shr :: "int \<Rightarrow> int \<Rightarrow> int" where
  "shr x n = drop_bit (nat n) x"

definition max_machine_id :: "layout \<Rightarrow> int" where
  "max_machine_id l = shl 1 (ly_machine_bits l) - 1"

definition max_sequence :: "layout \<Rightarrow> int" where
  "max_sequence l = shl 1 (ly_sequence_bits l) - 1"

definition lifetime_ms :: "layout \<Rightarrow> int" where
  "lifetime_ms l = shl 1 (ly_timestamp_bits l)"

definition machine_shift :: "layout \<Rightarrow> int" where
  "machine_shift l = ly_sequence_bits l"

definition timestamp_shift :: "layout \<Rightarrow> int" where
  "timestamp_shift l = ly_sequence_bits l + ly_machine_bits l"

definition compose :: "layout \<Rightarrow> int \<Rightarrow> int \<Rightarrow> int \<Rightarrow> int" where
  "compose l elapsed machine sequence =
     (shl elapsed (timestamp_shift l) OR shl machine (machine_shift l)) OR sequence"

definition decompose :: "layout \<Rightarrow> int \<Rightarrow> int \<Rightarrow> sf_parts result" where
  "decompose l x epoch =
     (if x < 0 then Inl ValidationError
      else Inr \<lparr>sp_timestamp_ms = shr x (timestamp_shift l) + epoch,
                sp_machine_id = shr x (machine_shift l) AND max_machine_id l,
                sp_sequence = x AND max_sequence l\<rparr>)"

text \<open>What the constructor check guarantees of every layout that exists.\<close>

definition wf_layout :: "layout \<Rightarrow> bool" where
  "wf_layout l \<longleftrightarrow> 0 < ly_timestamp_bits l \<and> 0 < ly_machine_bits l \<and> 0 < ly_sequence_bits l
     \<and> ly_timestamp_bits l + ly_machine_bits l + ly_sequence_bits l = 63"

lemma layout_new_wf: "layout_new t m s = Inr l \<Longrightarrow> wf_layout l"
  by (auto simp: layout_new_def wf_layout_def split: if_splits)

lemma default_layout_wf: "wf_layout default_layout"
  by (simp add: default_layout_def wf_layout_def)

section \<open>Bit arithmetic of the layout\<close>

lemma take_bit_range: "0 \<le> x \<Longrightarrow> x < 2 ^ n \<Longrightarrow> take_bit n x = x" for x :: int
  by (simp add: take_bit_int_eq_self)

lemma or_shifted_eq_add:
  fixes x y :: int
  assumes "0 \<le> y" "y < 2 ^ n"
  shows "push_bit n x OR y = push_bit n x + y"
proof -
  have "\<not> bit y k" if "n \<le> k" for k
    using take_bit_range [OF assms] that by (metis bit_take_bit_iff not_le)
  then have "push_bit n x AND y = 0"
    by (intro bit_eqI) (auto simp: bit_simps)
  then show ?thesis by (simp add: disjunctive_add_eq_or)
qed

lemma compose_eq:
  assumes "wf_layout l" "0 \<le> m" "m \<le> max_machine_id l" "0 \<le> s" "s \<le> max_sequence l"
  shows "compose l e m s =
    e * 2 ^ nat (timestamp_shift l) + m * 2 ^ nat (machine_shift l) + s"
proof -
  let ?sb = "nat (ly_sequence_bits l)" and ?mb = "nat (ly_machine_bits l)"
  have bounds: "m < 2 ^ ?mb" "s < 2 ^ ?sb"
    using assms by (auto simp: max_machine_id_def max_sequence_def shl_def push_bit_eq_mult)
  have ts: "nat (timestamp_shift l) = ?sb + ?mb"
    using assms(1) by (simp add: timestamp_shift_def wf_layout_def nat_add_distrib)
  have "shl e (timestamp_shift l) OR shl m (machine_shift l) =
      push_bit ?sb (push_bit ?mb e OR m)"
    by (simp add: shl_def ts machine_shift_def push_bit_or push_bit_push_bit add.commute)
  then have "compose l e m s = push_bit ?sb (push_bit ?mb e + m) + s"
    using bounds assms by (simp add: compose_def or_shifted_eq_add)
  then show ?thesis
    by (simp add: push_bit_eq_mult ts machine_shift_def power_add algebra_simps)
qed

lemma compose_parts:
  assumes "wf_layout l" "0 \<le> m" "m \<le> max_machine_id l" "0 \<le> s" "s \<le> max_sequence l"
  shows "shr (compose l e m s) (timestamp_shift l) = e"
    and "shr (compose l e m s) (machine_shift l) AND max_machine_id l = m"
    and "compose l e m s AND max_sequence l = s"
proof -
  let ?sb = "nat (ly_sequence_bits l)" and ?mb = "nat (ly_machine_bits l)"
  have bounds: "m < 2 ^ ?mb" "s < 2 ^ ?sb"
    using assms by (auto simp: max_machine_id_def max_sequence_def shl_def push_bit_eq_mult)
  have ts: "nat (timestamp_shift l) = ?sb + ?mb"
    using assms(1) by (simp add: timestamp_shift_def wf_layout_def nat_add_distrib)
  have c: "compose l e m s = (e * 2 ^ ?mb + m) * 2 ^ ?sb + s"
    by (simp add: compose_eq [OF assms] ts machine_shift_def power_add algebra_simps)
  have div1: "compose l e m s div 2 ^ ?sb = e * 2 ^ ?mb + m"
    using bounds assms(4) by (simp add: c)
  show "shr (compose l e m s) (timestamp_shift l) = e"
    using bounds assms(2) div1
    by (simp add: shr_def drop_bit_eq_div ts power_add zdiv_zmult2_eq)
  show "shr (compose l e m s) (machine_shift l) AND max_machine_id l = m"
    using bounds assms(2) div1
    by (simp add: shr_def drop_bit_eq_div machine_shift_def max_machine_id_def shl_def
        push_bit_eq_mult flip: mask_eq_exp_minus_1 take_bit_eq_mask) (simp add: take_bit_eq_mod)
  show "compose l e m s AND max_sequence l = s"
    using bounds assms(4) c
    by (simp add: max_sequence_def shl_def push_bit_eq_mult flip: mask_eq_exp_minus_1 take_bit_eq_mask)
      (simp add: take_bit_eq_mod)
qed

section \<open>Generator\<close>

record sf_gen =
  sg_layout :: layout
  sg_machine_id :: int
  sg_epoch_ms :: int
  sg_max_drift_ms :: int
  sg_last_ms :: int
  sg_sequence :: int
  sg_borrowed_ms :: int

definition sf_new :: "int \<Rightarrow> layout \<Rightarrow> int \<Rightarrow> int \<Rightarrow> sf_gen result" where
  "sf_new machine l epoch max_drift =
     (if \<not> (0 \<le> machine \<and> machine \<le> max_machine_id l) then Inl ValidationError
      else if max_drift < 0 then Inl ValidationError
      else Inr \<lparr>sg_layout = l, sg_machine_id = machine, sg_epoch_ms = epoch,
                sg_max_drift_ms = max_drift, sg_last_ms = -1, sg_sequence = 0, sg_borrowed_ms = 0\<rparr>)"

definition wall_ms :: "sf_gen \<Rightarrow> time \<Rightarrow> int result" where
  "wall_ms g now =
     (let elapsed = py_round (now * 1000) - sg_epoch_ms g
      in if elapsed < 0 then Inl InvalidStateError
         else if elapsed \<ge> lifetime_ms (sg_layout g) then Inl InvalidStateError
         else Inr elapsed)"

definition sf_next_id :: "sf_gen \<Rightarrow> time \<Rightarrow> (int \<times> sf_gen) result" where
  "sf_next_id g now =
     (case wall_ms g now of
        Inl e \<Rightarrow> Inl e
      | Inr wall \<Rightarrow>
          let mint = (\<lambda>last_ms sequence borrowed.
                Inr (compose (sg_layout g) last_ms (sg_machine_id g) sequence,
                     g\<lparr>sg_last_ms := last_ms, sg_sequence := sequence,
                       sg_borrowed_ms := sg_borrowed_ms g + borrowed\<rparr>))
          in if wall > sg_last_ms g then mint wall 0 0
             else let (last_ms, sequence, borrowed) =
                    (if sg_sequence g + 1 > max_sequence (sg_layout g)
                     then (sg_last_ms g + 1, 0, 1)
                     else (sg_last_ms g, sg_sequence g + 1, 0))
                  in if last_ms - wall > sg_max_drift_ms g then Inl ClockDriftError
                     else mint last_ms sequence borrowed)"

text \<open>
  A run of calls against arbitrary clock readings. A call that raises leaves the generator as
  it was, and the caller goes on.
\<close>

fun mint :: "sf_gen \<Rightarrow> time list \<Rightarrow> int list" where
  "mint g [] = []"
| "mint g (now # ts) =
     (case sf_next_id g now of Inl e \<Rightarrow> mint g ts | Inr (i, g') \<Rightarrow> i # mint g' ts)"

definition sf_inv :: "sf_gen \<Rightarrow> bool" where
  "sf_inv g \<longleftrightarrow> wf_layout (sg_layout g)
     \<and> 0 \<le> sg_machine_id g \<and> sg_machine_id g \<le> max_machine_id (sg_layout g)
     \<and> 0 \<le> sg_sequence g \<and> sg_sequence g \<le> max_sequence (sg_layout g) \<and> -1 \<le> sg_last_ms g"

lemma max_nonneg: "0 \<le> max_sequence l" "0 \<le> max_machine_id l"
  by (simp_all add: max_sequence_def max_machine_id_def shl_def push_bit_eq_mult)

lemma sf_new_inv: "sf_new m l e d = Inr g \<Longrightarrow> wf_layout l \<Longrightarrow> sf_inv g"
  by (auto simp: sf_new_def sf_inv_def max_nonneg split: if_splits)

text \<open>What one successful call does: the pair (millisecond, sequence) moves up.\<close>

lemma sf_next_id_cases:
  assumes "sf_next_id g now = Inr (i, g')" "sf_inv g"
  shows "sf_inv g'" "sg_layout g' = sg_layout g" "sg_machine_id g' = sg_machine_id g"
    "sg_epoch_ms g' = sg_epoch_ms g" "sg_max_drift_ms g' = sg_max_drift_ms g"
    "i = compose (sg_layout g) (sg_last_ms g') (sg_machine_id g) (sg_sequence g')"
    "sg_last_ms g < sg_last_ms g' \<or>
     sg_last_ms g = sg_last_ms g' \<and> sg_sequence g < sg_sequence g'"
    "0 \<le> sg_last_ms g'"
    "\<exists>wall. wall_ms g now = Inr wall \<and> wall \<le> sg_last_ms g'
       \<and> sg_last_ms g' \<le> max wall (wall + sg_max_drift_ms g)"
proof -
  obtain wall where wall: "wall_ms g now = Inr wall"
    using assms(1) by (auto simp: sf_next_id_def split: sum.splits)
  then have "0 \<le> wall" by (auto simp: wall_ms_def Let_def split: if_splits)
  note facts = assms wall \<open>0 \<le> wall\<close>
  show "sf_inv g'" "sg_layout g' = sg_layout g" "sg_machine_id g' = sg_machine_id g"
    "sg_epoch_ms g' = sg_epoch_ms g" "sg_max_drift_ms g' = sg_max_drift_ms g"
    "i = compose (sg_layout g) (sg_last_ms g') (sg_machine_id g) (sg_sequence g')"
    "sg_last_ms g < sg_last_ms g' \<or>
     sg_last_ms g = sg_last_ms g' \<and> sg_sequence g < sg_sequence g'"
    "0 \<le> sg_last_ms g'"
    "\<exists>wall. wall_ms g now = Inr wall \<and> wall \<le> sg_last_ms g'
       \<and> sg_last_ms g' \<le> max wall (wall + sg_max_drift_ms g)"
    using facts max_nonneg by (auto simp: sf_next_id_def sf_inv_def Let_def split: if_splits)
qed

lemma compose_strict_mono:
  assumes "wf_layout l" "0 \<le> m" "m \<le> max_machine_id l"
    and "0 \<le> s" "s \<le> max_sequence l" "0 \<le> s'" "s' \<le> max_sequence l"
    and "e < e' \<or> e = e' \<and> s < s'"
  shows "compose l e m s < compose l e' m s'"
proof (cases "e < e'")
  case False
  with assms show ?thesis by (simp add: compose_eq)
next
  case True
  let ?sb = "nat (ly_sequence_bits l)" and ?mb = "nat (ly_machine_bits l)"
  have ts: "nat (timestamp_shift l) = ?sb + ?mb"
    using assms(1) by (simp add: timestamp_shift_def wf_layout_def nat_add_distrib)
  have "s < 2 ^ ?sb" using assms(5) by (simp add: max_sequence_def shl_def push_bit_eq_mult)
  also have "(2 :: int) ^ ?sb \<le> 2 ^ ?sb * 2 ^ ?mb" by simp
  also have "\<dots> \<le> (e' - e) * 2 ^ (?sb + ?mb)" using True by (simp add: power_add)
  finally have "s < (e' - e) * 2 ^ nat (timestamp_shift l) + s'" using assms(6) ts by simp
  then show ?thesis using assms by (simp add: compose_eq algebra_simps)
qed

lemma sf_top_below:
  assumes "wf_layout l" "0 \<le> m" "m \<le> max_machine_id l" "0 \<le> s" "s \<le> max_sequence l" "e < e'"
  shows "compose l e m s < compose l e' 0 0"
proof -
  let ?sb = "nat (ly_sequence_bits l)" and ?mb = "nat (ly_machine_bits l)"
  have ts: "nat (timestamp_shift l) = ?sb + ?mb"
    using assms(1) by (simp add: timestamp_shift_def wf_layout_def nat_add_distrib)
  have s: "s \<le> 2 ^ ?sb - 1" and m: "m \<le> 2 ^ ?mb - 1"
    using assms by (simp_all add: max_sequence_def max_machine_id_def shl_def push_bit_eq_mult)
  have "m * 2 ^ ?sb \<le> (2 ^ ?mb - 1) * 2 ^ ?sb" using m by (intro mult_right_mono) auto
  then have "m * 2 ^ ?sb + s < 2 ^ (?sb + ?mb)" using s by (simp add: power_add algebra_simps)
  also have "\<dots> \<le> (e' - e) * 2 ^ (?sb + ?mb)" using assms(6) by simp
  finally show ?thesis
    using assms max_nonneg by (simp add: compose_eq ts machine_shift_def algebra_simps)
qed

lemma mint_above:
  assumes "sf_inv g" "i \<in> set (mint g ts)"
  shows "compose (sg_layout g) (sg_last_ms g) (sg_machine_id g) (sg_sequence g) < i"
  using assms
proof (induction ts arbitrary: g)
  case (Cons now ts)
  show ?case
  proof (cases "sf_next_id g now")
    case (Inl e)
    with Cons show ?thesis by simp
  next
    case (Inr r)
    obtain j g' where "r = (j, g')" by fastforce
    with Inr have n: "sf_next_id g now = Inr (j, g')" by simp
    note c = sf_next_id_cases [OF n Cons.prems(1)]
    have "compose (sg_layout g) (sg_last_ms g) (sg_machine_id g) (sg_sequence g) < j"
      using Cons.prems(1) c by (auto simp: sf_inv_def intro!: compose_strict_mono)
    moreover have "i = j \<or> j < i"
      using Cons.IH [OF c(1)] Cons.prems(2) n c(2,3,6) by auto
    ultimately show ?thesis by auto
  qed
qed simp

lemma mint_sorted: "sf_inv g \<Longrightarrow> sorted_wrt (<) (mint g ts)"
proof (induction ts arbitrary: g)
  case (Cons now ts)
  show ?case
  proof (cases "sf_next_id g now")
    case (Inl e)
    with Cons show ?thesis by simp
  next
    case (Inr r)
    obtain j g' where "r = (j, g')" by fastforce
    with Inr have n: "sf_next_id g now = Inr (j, g')" by simp
    note c = sf_next_id_cases [OF n Cons.prems(1)]
    have "\<forall>i \<in> set (mint g' ts). j < i" using mint_above [OF c(1)] c(2,3,6) by auto
    with n Cons.IH [OF c(1)] show ?thesis by simp
  qed
qed simp

lemma mint_machine:
  assumes "sf_inv g" "i \<in> set (mint g ts)"
  shows "shr i (machine_shift (sg_layout g)) AND max_machine_id (sg_layout g) = sg_machine_id g"
  using assms
proof (induction ts arbitrary: g)
  case (Cons now ts)
  show ?case
  proof (cases "sf_next_id g now")
    case (Inl e)
    with Cons show ?thesis by simp
  next
    case (Inr r)
    obtain j g' where "r = (j, g')" by fastforce
    with Inr have n: "sf_next_id g now = Inr (j, g')" by simp
    note c = sf_next_id_cases [OF n Cons.prems(1)]
    have "shr j (machine_shift (sg_layout g)) AND max_machine_id (sg_layout g) = sg_machine_id g"
      using Cons.prems(1) c(1,2,3,6) by (auto simp: sf_inv_def compose_parts(2))
    with Cons.IH [OF c(1)] Cons.prems(2) n c(2,3) show ?thesis by auto
  qed
qed simp

section \<open>Machine-id registry\<close>

record machine_lease =
  ml_machine_id :: int
  ml_owner :: string
  ml_expires_at :: time

record registry =
  rg_capacity :: int
  rg_lease_seconds :: time
  rg_leases :: "(int, machine_lease) dict"

definition registry_new :: "int \<Rightarrow> time \<Rightarrow> registry result" where
  "registry_new capacity lease_seconds =
     (if capacity \<le> 0 \<or> lease_seconds \<le> 0 then Inl ValidationError
      else Inr \<lparr>rg_capacity = capacity, rg_lease_seconds = lease_seconds, rg_leases = []\<rparr>)"

definition reg_expire :: "time \<Rightarrow> registry \<Rightarrow> registry" where
  "reg_expire now r =
     r\<lparr>rg_leases := fold dict_del
         (map fst (filter (\<lambda>(m, l). ml_expires_at l \<le> now) (rg_leases r))) (rg_leases r)\<rparr>"

text \<open>The expiry sweep mutates the registry even when the call then raises.\<close>

definition reg_register :: "registry \<Rightarrow> time \<Rightarrow> string \<Rightarrow> registry \<times> int result" where
  "reg_register r0 now owner =
     (let r = reg_expire now r0
      in case find (\<lambda>(m, l). ml_owner l = owner) (rg_leases r) of
           Some (m, l) \<Rightarrow>
             (r\<lparr>rg_leases := dict_set m (l\<lparr>ml_expires_at := now + rg_lease_seconds r\<rparr>) (rg_leases r)\<rparr>,
              Inr (ml_machine_id l))
         | None \<Rightarrow>
             (case find (\<lambda>m. dict_get (rg_leases r) m = None) [0 .. rg_capacity r - 1] of
                Some m \<Rightarrow>
                  (r\<lparr>rg_leases := dict_set m \<lparr>ml_machine_id = m, ml_owner = owner,
                       ml_expires_at = now + rg_lease_seconds r\<rparr> (rg_leases r)\<rparr>, Inr m)
              | None \<Rightarrow> (r, Inl ConflictError)))"

definition reg_renew :: "registry \<Rightarrow> time \<Rightarrow> string \<Rightarrow> int \<Rightarrow> registry \<times> unit result" where
  "reg_renew r0 now owner m =
     (let r = reg_expire now r0
      in case dict_get (rg_leases r) m of
           None \<Rightarrow> (r, Inl InvalidStateError)
         | Some l \<Rightarrow>
             if ml_owner l \<noteq> owner then (r, Inl InvalidStateError)
             else (r\<lparr>rg_leases := dict_set m (l\<lparr>ml_expires_at := now + rg_lease_seconds r\<rparr>)
                       (rg_leases r)\<rparr>, Inr ()))"

definition reg_release :: "registry \<Rightarrow> string \<Rightarrow> int \<Rightarrow> registry" where
  "reg_release r owner m =
     (case dict_get (rg_leases r) m of
        None \<Rightarrow> r
      | Some l \<Rightarrow>
          if ml_owner l = owner then r\<lparr>rg_leases := dict_del m (rg_leases r)\<rparr> else r)"

definition reg_holder :: "registry \<Rightarrow> time \<Rightarrow> int \<Rightarrow> registry \<times> string option" where
  "reg_holder r0 now m =
     (let r = reg_expire now r0 in (r, map_option ml_owner (dict_get (rg_leases r) m)))"

text \<open>The lease table: every entry sits at its own id, in range, one per owner.\<close>

definition leases_ok :: "int \<Rightarrow> (int \<rightharpoonup> machine_lease) \<Rightarrow> bool" where
  "leases_ok cap f \<longleftrightarrow>
     (\<forall>m l. f m = Some l \<longrightarrow> ml_machine_id l = m \<and> 0 \<le> m \<and> m < cap)
     \<and> (\<forall>m m' l l'. f m = Some l \<and> f m' = Some l' \<and> ml_owner l = ml_owner l' \<longrightarrow> m = m')"

lemma leases_ok_sub:
  "leases_ok cap f \<Longrightarrow> (\<And>m l. g m = Some l \<Longrightarrow> f m = Some l) \<Longrightarrow> leases_ok cap g"
  unfolding leases_ok_def by blast

lemma leases_ok_upd:
  "leases_ok cap f \<Longrightarrow> ml_machine_id l = m \<Longrightarrow> 0 \<le> m \<Longrightarrow> m < cap \<Longrightarrow>
   (\<And>k l'. f k = Some l' \<Longrightarrow> ml_owner l' = ml_owner l \<Longrightarrow> k = m) \<Longrightarrow> leases_ok cap (f(m \<mapsto> l))"
  unfolding leases_ok_def by (auto split: if_splits)

definition reg_inv :: "registry \<Rightarrow> bool" where
  "reg_inv r \<longleftrightarrow> dict_ok (rg_leases r) \<and> 0 < rg_lease_seconds r
     \<and> leases_ok (rg_capacity r) (dict_get (rg_leases r))"

lemma reg_invD:
  assumes "reg_inv r" "dict_get (rg_leases r) m = Some l"
  shows "ml_machine_id l = m" "0 \<le> m" "m < rg_capacity r"
    "dict_get (rg_leases r) k = Some l' \<Longrightarrow> ml_owner l' = ml_owner l \<Longrightarrow> k = m"
  using assms by (auto simp: reg_inv_def leases_ok_def)

lemma reg_new_inv: "registry_new c s = Inr r \<Longrightarrow> reg_inv r"
  by (auto simp: registry_new_def reg_inv_def leases_ok_def split: if_splits)

lemma reg_expire_simps [simp]:
  "rg_capacity (reg_expire now r) = rg_capacity r"
  "rg_lease_seconds (reg_expire now r) = rg_lease_seconds r"
  by (simp_all add: reg_expire_def)

lemma reg_expire_get:
  assumes "reg_inv r"
  shows "dict_get (rg_leases (reg_expire now r)) m =
    (case dict_get (rg_leases r) m of None \<Rightarrow> None
     | Some l \<Rightarrow> if ml_expires_at l \<le> now then None else Some l)"
proof -
  have ok: "dict_ok (rg_leases r)" using assms by (simp add: reg_inv_def)
  have "m \<in> set (map fst (filter (\<lambda>(m, l). ml_expires_at l \<le> now) (rg_leases r))) \<longleftrightarrow>
      (\<exists>l. dict_get (rg_leases r) m = Some l \<and> ml_expires_at l \<le> now)"
    using dict_get_mem [OF ok] by force
  then show ?thesis
    by (auto simp: reg_expire_def fold_dict_del_get split: option.splits)
qed

lemma reg_expire_inv:
  assumes "reg_inv r"
  shows "reg_inv (reg_expire now r)"
proof -
  have "dict_ok (rg_leases (reg_expire now r))"
    using assms by (simp add: reg_expire_def fold_dict_del_ok reg_inv_def)
  moreover have "leases_ok (rg_capacity r) (dict_get (rg_leases (reg_expire now r)))"
    by (rule leases_ok_sub [of _ "dict_get (rg_leases r)"])
      (use assms in \<open>auto simp: reg_expire_get reg_inv_def split: option.splits if_splits\<close>)
  ultimately show ?thesis using assms by (simp add: reg_inv_def)
qed

text \<open>Both outcomes of a successful registration, seen from the swept registry.\<close>

lemma reg_register_cases:
  assumes "reg_inv r0" "reg_register r0 now owner = (r', Inr m)" "r = reg_expire now r0"
  shows "(\<exists>l. dict_get (rg_leases r) m = Some l \<and> ml_owner l = owner
            \<and> rg_leases r' = dict_set m (l\<lparr>ml_expires_at := now + rg_lease_seconds r\<rparr>) (rg_leases r))
       \<or> ((\<forall>k l. dict_get (rg_leases r) k = Some l \<longrightarrow> ml_owner l \<noteq> owner)
          \<and> dict_get (rg_leases r) m = None \<and> 0 \<le> m \<and> m < rg_capacity r
          \<and> (\<forall>k. 0 \<le> k \<and> k < m \<longrightarrow> dict_get (rg_leases r) k \<noteq> None)
          \<and> rg_leases r' = dict_set m \<lparr>ml_machine_id = m, ml_owner = owner,
              ml_expires_at = now + rg_lease_seconds r\<rparr> (rg_leases r))"
    and "rg_capacity r' = rg_capacity r \<and> rg_lease_seconds r' = rg_lease_seconds r"
proof -
  have inv: "reg_inv r" using assms reg_expire_inv by blast
  then have ok: "dict_ok (rg_leases r)" by (simp add: reg_inv_def)
  show "rg_capacity r' = rg_capacity r \<and> rg_lease_seconds r' = rg_lease_seconds r"
    using assms(2,3) by (auto simp: reg_register_def Let_def split: option.splits)
  show "(\<exists>l. dict_get (rg_leases r) m = Some l \<and> ml_owner l = owner
            \<and> rg_leases r' = dict_set m (l\<lparr>ml_expires_at := now + rg_lease_seconds r\<rparr>) (rg_leases r))
       \<or> ((\<forall>k l. dict_get (rg_leases r) k = Some l \<longrightarrow> ml_owner l \<noteq> owner)
          \<and> dict_get (rg_leases r) m = None \<and> 0 \<le> m \<and> m < rg_capacity r
          \<and> (\<forall>k. 0 \<le> k \<and> k < m \<longrightarrow> dict_get (rg_leases r) k \<noteq> None)
          \<and> rg_leases r' = dict_set m \<lparr>ml_machine_id = m, ml_owner = owner,
              ml_expires_at = now + rg_lease_seconds r\<rparr> (rg_leases r))"
  proof (cases "find (\<lambda>(m, l). ml_owner l = owner) (rg_leases r)")
    case (Some p)
    then obtain k l where p: "p = (k, l)" "(k, l) \<in> set (rg_leases r)" "ml_owner l = owner"
      using find_SomeD [OF Some] by (cases p) auto
    then have "dict_get (rg_leases r) k = Some l" using dict_get_mem [OF ok] by simp
    moreover from this have "ml_machine_id l = k" by (rule reg_invD(1) [OF inv])
    ultimately show ?thesis
      using assms(2,3) Some p by (auto simp: reg_register_def Let_def)
  next
    case None
    then have none: "\<forall>k l. dict_get (rg_leases r) k = Some l \<longrightarrow> ml_owner l \<noteq> owner"
      using dict_get_mem [OF ok] by (fastforce simp: find_None_iff)
    from None assms(2,3) obtain k where k:
        "find (\<lambda>m. dict_get (rg_leases r) m = None) [0 .. rg_capacity r - 1] = Some k" "m = k"
        "rg_leases r' = dict_set m \<lparr>ml_machine_id = m, ml_owner = owner,
              ml_expires_at = now + rg_lease_seconds r\<rparr> (rg_leases r)"
      by (auto simp: reg_register_def Let_def split: option.splits)
    have "\<forall>j. 0 \<le> j \<and> j < m \<longrightarrow> dict_get (rg_leases r) j \<noteq> None"
    proof (intro allI impI)
      fix j assume j: "0 \<le> j \<and> j < m"
      obtain i where i: "i < length [0 .. rg_capacity r - 1]" "[0 .. rg_capacity r - 1] ! i = m"
          "\<forall>h < i. dict_get (rg_leases r) ([0 .. rg_capacity r - 1] ! h) \<noteq> None"
        using k(1,2) by (auto simp: find_Some_iff)
      then have "int i = m" by auto
      with i(1,3) j show "dict_get (rg_leases r) j \<noteq> None"
        by (auto dest: spec [of _ "nat j"])
    qed
    moreover have "0 \<le> m" "m < rg_capacity r" "dict_get (rg_leases r) m = None"
      using k(1,2) by (auto simp: find_Some_iff)
    ultimately show ?thesis using none k(3) by blast
  qed
qed

lemma dict_get_set_fun: "dict_get (dict_set k v d) = (dict_get d)(k \<mapsto> v)"
  by (rule ext) simp

lemma dict_get_del_fun: "dict_get (dict_del k d) = (dict_get d)(k := None)"
  by (rule ext) simp

text \<open>Overwriting the lease at an id keeps the table well formed when its owner has no other.\<close>

lemma reg_inv_set:
  assumes "reg_inv r" "ml_machine_id l = m" "0 \<le> m" "m < rg_capacity r"
    and "\<And>k l'. dict_get (rg_leases r) k = Some l' \<Longrightarrow> ml_owner l' = ml_owner l \<Longrightarrow> k = m"
  shows "reg_inv (r\<lparr>rg_leases := dict_set m l (rg_leases r)\<rparr>)"
  using assms leases_ok_upd [of "rg_capacity r" "dict_get (rg_leases r)" l m]
  by (simp add: reg_inv_def dict_get_set_fun del: dict_get_set)

lemma reg_inv_refresh:
  assumes "reg_inv r" "dict_get (rg_leases r) m = Some l"
  shows "reg_inv (r\<lparr>rg_leases := dict_set m (l\<lparr>ml_expires_at := t\<rparr>) (rg_leases r)\<rparr>)"
  using reg_invD [OF assms] by (intro reg_inv_set [OF assms(1)]) auto

lemma reg_inv_cong:
  "rg_leases r' = rg_leases r \<Longrightarrow> rg_capacity r' = rg_capacity r \<Longrightarrow>
   rg_lease_seconds r' = rg_lease_seconds r \<Longrightarrow> reg_inv r' = reg_inv r"
  by (simp add: reg_inv_def)

lemma reg_register_inv:
  assumes "reg_inv r0" "reg_register r0 now owner = (r', Inr m)"
  shows "reg_inv r'"
proof -
  let ?r = "reg_expire now r0"
  have inv: "reg_inv ?r" using assms(1) by (rule reg_expire_inv)
  note c = reg_register_cases [OF assms refl]
  obtain l where "rg_leases r' = dict_set m l (rg_leases ?r)"
      "reg_inv (?r\<lparr>rg_leases := dict_set m l (rg_leases ?r)\<rparr>)"
    using c(1)
  proof (elim disjE exE conjE, goal_cases)
    case (1 l)
    then show ?case using reg_inv_refresh [OF inv] by blast
  next
    case 2
    have "reg_inv (?r\<lparr>rg_leases := dict_set m \<lparr>ml_machine_id = m, ml_owner = owner,
              ml_expires_at = now + rg_lease_seconds ?r\<rparr> (rg_leases ?r)\<rparr>)"
      by (rule reg_inv_set [OF inv]) (use 2 in auto)
    with 2 show ?case by blast
  qed
  then show ?thesis
    using c(2) reg_inv_cong [of r' "?r\<lparr>rg_leases := dict_set m l (rg_leases ?r)\<rparr>"] by simp
qed

lemma reg_others_inv:
  assumes "reg_inv r"
  shows "reg_inv (fst (reg_renew r now owner m))" "reg_inv (reg_release r owner m)"
    "reg_inv (fst (reg_holder r now m))"
proof -
  have inv: "reg_inv (reg_expire now r)" using assms by (rule reg_expire_inv)
  then show "reg_inv (fst (reg_renew r now owner m))" "reg_inv (fst (reg_holder r now m))"
    using reg_inv_refresh [OF inv] by (auto simp: reg_renew_def reg_holder_def Let_def
        split: option.splits)
  have "leases_ok (rg_capacity r) ((dict_get (rg_leases r))(m := None))"
    by (rule leases_ok_sub [of _ "dict_get (rg_leases r)"])
      (use assms in \<open>auto simp: reg_inv_def split: if_splits\<close>)
  with assms show "reg_inv (reg_release r owner m)"
    by (auto simp: reg_release_def reg_inv_def dict_get_del_fun simp del: dict_get_del
        split: option.splits)
qed

section \<open>Properties\<close>

text \<open>C28. Ids of one generator are strictly increasing, hence never repeated, whatever the wall clock
  does: the readings may stall, jump or run backwards, and calls that raise may be retried.
\<close>

theorem snowflake_ids_increasing:
  assumes "layout_new t m s = Inr l" "sf_new machine l epoch drift = Inr g"
  shows "sorted_wrt (<) (mint g readings)"
  using sf_new_inv [OF assms(2) layout_new_wf [OF assms(1)]] by (rule mint_sorted)

text \<open>The generator the witnesses run: machine 1, epoch 0, ten milliseconds of drift.\<close>

definition example_gen :: sf_gen where
  "example_gen = \<lparr>sg_layout = default_layout, sg_machine_id = 1, sg_epoch_ms = 0,
     sg_max_drift_ms = 10, sg_last_ms = -1, sg_sequence = 0, sg_borrowed_ms = 0\<rparr>"

lemma example_gen_new:
  "layout_new 41 10 12 = Inr default_layout" "sf_new 1 default_layout 0 10 = Inr example_gen"
  by (simp_all add: layout_new_def sf_new_def example_gen_def default_layout_def
      max_machine_id_def shl_def push_bit_eq_mult)

theorem snowflake_ids_increasing_witness:
  "mint example_gen [1, 1, 999/1000, 2] = [4194308096, 4194308097, 4194308098, 8388612096]
   \<and> sorted_wrt (<) (mint example_gen [1, 1, 999/1000, 2])"
  using snowflake_ids_increasing [OF example_gen_new, of "[1, 1, 999/1000, 2]"] by code_simp

text \<open>Generators with the same layout and different machine ids never mint the same id, whatever
  their clocks, epochs and drift limits.
\<close>

theorem snowflake_machines_disjoint:
  assumes "layout_new t m s = Inr l"
    and "sf_new machine1 l epoch1 drift1 = Inr g1" "sf_new machine2 l epoch2 drift2 = Inr g2"
    and "machine1 \<noteq> machine2"
  shows "set (mint g1 readings1) \<inter> set (mint g2 readings2) = {}"
proof -
  have inv: "sf_inv g1" "sf_inv g2"
    using assms(2,3) sf_new_inv layout_new_wf [OF assms(1)] by blast+
  have "sg_layout g1 = l" "sg_layout g2 = l" "sg_machine_id g1 = machine1" "sg_machine_id g2 = machine2"
    using assms(2,3) by (auto simp: sf_new_def split: if_splits)
  with mint_machine [OF inv(1)] mint_machine [OF inv(2)] assms(4) show ?thesis by fastforce
qed

theorem snowflake_machines_disjoint_witness:
  "set (mint example_gen [1, 2]) \<inter> set (mint (example_gen\<lparr>sg_machine_id := 2\<rparr>) [1, 2]) = {}"
proof -
  have "sf_new 2 default_layout 0 10 = Inr (example_gen\<lparr>sg_machine_id := 2\<rparr>)"
    by (simp add: sf_new_def example_gen_def default_layout_def max_machine_id_def shl_def
        push_bit_eq_mult)
  then show ?thesis by (rule snowflake_machines_disjoint [OF example_gen_new]) simp
qed

text \<open>A minted id splits back into exactly the logical millisecond, machine id and sequence it was
  made of, the logical millisecond is never behind the wall clock nor further ahead than the
  drift limit, and as long as it lies inside the layout's lifetime the id fits 63 bits.
\<close>

theorem snowflake_roundtrip:
  assumes "sf_inv g" "sf_next_id g now = Inr (i, g')"
  shows "decompose (sg_layout g) i (sg_epoch_ms g) = Inr \<lparr>
       sp_timestamp_ms = sg_last_ms g' + sg_epoch_ms g,
       sp_machine_id = sg_machine_id g, sp_sequence = sg_sequence g'\<rparr>
     \<and> (\<exists>wall. wall_ms g now = Inr wall \<and> wall \<le> sg_last_ms g'
          \<and> sg_last_ms g' \<le> max wall (wall + sg_max_drift_ms g))
     \<and> (sg_last_ms g' < lifetime_ms (sg_layout g) \<longrightarrow> i < 2 ^ 63)"
proof -
  let ?l = "sg_layout g"
  note c = sf_next_id_cases [OF assms(2,1)]
  have wf: "wf_layout ?l" "0 \<le> sg_machine_id g" "sg_machine_id g \<le> max_machine_id ?l"
      "0 \<le> sg_sequence g'" "sg_sequence g' \<le> max_sequence ?l"
    using assms(1) c(1,2) by (auto simp: sf_inv_def)
  have nonneg: "0 \<le> i"
    using c(6,8) wf by (simp add: compose_eq)
  have "i < 2 ^ 63" if "sg_last_ms g' < lifetime_ms ?l"
  proof -
    have "i < compose ?l (lifetime_ms ?l) 0 0"
      using sf_top_below [OF wf that] c(6) by simp
    also have "\<dots> = 2 ^ nat (ly_timestamp_bits ?l) * 2 ^ nat (timestamp_shift ?l)"
      using wf(1) max_nonneg by (simp add: compose_eq lifetime_ms_def shl_def push_bit_eq_mult)
    also have "\<dots> = 2 ^ nat (ly_timestamp_bits ?l + timestamp_shift ?l)"
      using wf(1) by (simp add: timestamp_shift_def wf_layout_def nat_add_distrib power_add)
    also have "ly_timestamp_bits ?l + timestamp_shift ?l = 63"
      using wf(1) by (simp add: timestamp_shift_def wf_layout_def)
    finally show ?thesis by simp
  qed
  with nonneg wf c compose_parts [OF wf] show ?thesis by (auto simp: decompose_def)
qed

theorem snowflake_roundtrip_witness:
  "sf_inv example_gen \<and> sf_next_id example_gen 1 = Inr (4194308096,
     example_gen\<lparr>sg_last_ms := 1000\<rparr>)
   \<and> decompose default_layout 4194308096 0 =
       Inr \<lparr>sp_timestamp_ms = 1000, sp_machine_id = 1, sp_sequence = 0\<rparr>"
proof -
  have inv: "sf_inv example_gen"
    by (rule sf_new_inv [OF example_gen_new(2) default_layout_wf])
  have run: "sf_next_id example_gen 1 = Inr (4194308096, example_gen\<lparr>sg_last_ms := 1000\<rparr>)"
    by code_simp
  from snowflake_roundtrip [OF inv run] inv run show ?thesis
    by (simp add: example_gen_def)
qed

text \<open>The 63-bit bound can fail: the lifetime check looks at the wall clock only, and a sequence
  overflow in the last millisecond borrows one past the end of the timestamp field. With the
  legal layout of 41/21/1 bits the third id minted in that millisecond is \<open>2 ^ 63\<close>, which no
  longer fits a signed 64-bit column.
\<close>

theorem snowflake_last_ms_overflow:
  "\<exists>l g. layout_new 41 21 1 = Inr l \<and> sf_new 0 l 0 10 = Inr g
     \<and> mint g [2199023255551 / 1000, 2199023255551 / 1000, 2199023255551 / 1000] =
        [2 ^ 63 - 2 ^ 22, 2 ^ 63 - 2 ^ 22 + 1, 2 ^ 63]"
proof -
  let ?l = "\<lparr>ly_timestamp_bits = 41, ly_machine_bits = 21, ly_sequence_bits = 1\<rparr>"
  let ?g = "\<lparr>sg_layout = ?l, sg_machine_id = 0, sg_epoch_ms = 0, sg_max_drift_ms = 10,
    sg_last_ms = -1, sg_sequence = 0, sg_borrowed_ms = 0\<rparr>"
  have "layout_new 41 21 1 = Inr ?l" by code_simp
  moreover have "sf_new 0 ?l 0 10 = Inr ?g" by code_simp
  moreover have "mint ?g [2199023255551 / 1000, 2199023255551 / 1000, 2199023255551 / 1000] =
        [2 ^ 63 - 2 ^ 22, 2 ^ 63 - 2 ^ 22 + 1, 2 ^ 63]"
    by code_simp
  ultimately show ?thesis by blast
qed

text \<open>A machine id is never shared: registering grants the lowest free id or refreshes the owner's
  own lease, and every live lease of another owner keeps its id, its owner and its expiry.
\<close>

theorem registry_exclusive:
  assumes "reg_inv r" "reg_register r now owner = (r', Inr m)"
  shows "reg_inv r' \<and> snd (reg_holder r' now m) = Some owner \<and> 0 \<le> m \<and> m < rg_capacity r
     \<and> (\<forall>k l. dict_get (rg_leases r) k = Some l \<and> now < ml_expires_at l \<and> ml_owner l \<noteq> owner
          \<longrightarrow> k \<noteq> m \<and> dict_get (rg_leases r') k = Some l)"
proof -
  let ?r = "reg_expire now r"
  note inv' = reg_register_inv [OF assms]
  have inv: "reg_inv ?r" using assms(1) by (rule reg_expire_inv)
  note c = reg_register_cases [OF assms refl]
  have "0 \<le> m \<and> m < rg_capacity r"
    using c(1) reg_invD(2,3) [OF inv] by auto
  moreover have "0 < rg_lease_seconds r" using assms(1) by (simp add: reg_inv_def)
  then have "snd (reg_holder r' now m) = Some owner"
    using c(1) reg_expire_get [OF inv', of now]
    by (auto simp: reg_holder_def Let_def split: option.splits)
  moreover have "k \<noteq> m \<and> dict_get (rg_leases r') k = Some l"
    if "dict_get (rg_leases r) k = Some l" "now < ml_expires_at l" "ml_owner l \<noteq> owner" for k l
    using c(1) that reg_expire_get [OF assms(1), of now k] by auto
  ultimately show ?thesis using inv' by auto
qed

theorem registry_exclusive_witness:
  "\<exists>r r'. reg_inv r \<and> dict_get (rg_leases r) 0 = Some \<lparr>ml_machine_id = 0, ml_owner = ''w1'', ml_expires_at = 30\<rparr>
     \<and> reg_register r 10 ''w2'' = (r', Inr 1)
     \<and> dict_get (rg_leases r') 0 = Some \<lparr>ml_machine_id = 0, ml_owner = ''w1'', ml_expires_at = 30\<rparr>"
proof -
  let ?r = "\<lparr>rg_capacity = 2, rg_lease_seconds = 30,
    rg_leases = [(0, \<lparr>ml_machine_id = 0, ml_owner = ''w1'', ml_expires_at = 30\<rparr>)]\<rparr> :: registry"
  obtain r' where run: "reg_register ?r 10 ''w2'' = (r', Inr 1)"
    by (simp add: reg_register_def reg_expire_def Let_def upto.simps)
  have inv: "reg_inv ?r" by (simp add: reg_inv_def dict_ok_def leases_ok_def)
  show ?thesis using registry_exclusive [OF inv run] inv run
    by (intro exI [of _ ?r] exI [of _ r']) simp
qed

end
