(* ===== verification/Base62.thy ===== *)
theory Base62
  imports Snowflake
begin

text \<open>
  Short codes, \<^verbatim>\<open>code/hld/base62.py\<close>: the base-62 codec, the Feistel permutation that
  scrambles a counter, the conditional-write store with the contract its clients rely on, and
  the three strategies that propose codes. The digests \<^verbatim>\<open>blake2b\<close> and \<^verbatim>\<open>sha256\<close> enter as
  function arguments: every theorem holds for whatever they return.
\<close>

section \<open>Codec\<close>

definition alphabet :: string where
  "alphabet = ''0123456789ABCDEFGHIJKLMNOPQRSTUVWXYZabcdefghijklmnopqrstuvwxyz''"

definition base :: int where
  "base = 62"

definition code_length :: int where
  "code_length = 7"

definition alpha_index :: "char \<Rightarrow> int option" where
  "alpha_index c = map_of (zip alphabet [0 .. 61]) c"

text \<open>The \<^verbatim>\<open>while number\<close> loop, least significant digit first, as the code appends them.\<close>

function enc_digits :: "int \<Rightarrow> string" where
  "enc_digits number =
     (if number \<le> 0 then []
      else alphabet ! nat (number mod base) # enc_digits (number div base))"
  by pat_completeness auto
termination
  by (relation "measure nat") (auto simp: base_def)

declare enc_digits.simps [simp del]

lemma enc_digits_nonpos [simp]: "n \<le> 0 \<Longrightarrow> enc_digits n = []"
  by (subst enc_digits.simps) simp

definition rjust :: "string \<Rightarrow> int \<Rightarrow> char \<Rightarrow> string" where
  "rjust s width c = replicate (nat width - length s) c @ s"

definition encode :: "int \<Rightarrow> int \<Rightarrow> string result" where
  "encode number width =
     (if number < 0 then Inl ValidationError
      else Inr (rjust (rev (enc_digits number)) (max width 1) (alphabet ! 0)))"

fun dec_loop :: "int \<Rightarrow> string \<Rightarrow> int result" where
  "dec_loop number [] = Inr number"
| "dec_loop number (c # cs) =
     (case alpha_index c of None \<Rightarrow> Inl ValidationError
      | Some digit \<Rightarrow> dec_loop (number * base + digit) cs)"

definition decode :: "string \<Rightarrow> int result" where
  "decode code = (if code = [] then Inl ValidationError else dec_loop 0 code)"

definition code_space :: "int \<Rightarrow> int result" where
  "code_space n = (if n \<le> 0 then Inl ValidationError else Inr (base ^ nat n))"

lemma alphabet_length [simp]: "length alphabet = 62"
  by (simp add: alphabet_def)

lemma alphabet_distinct: "distinct alphabet"
  by (simp add: alphabet_def)

lemma alpha_index_nth:
  assumes "i < 62"
  shows "alpha_index (alphabet ! i) = Some (int i)"
proof -
  have "map_of (zip alphabet [0 .. 61 :: int]) (alphabet ! i) = Some ([0 .. 61 :: int] ! i)"
    using assms alphabet_distinct by (intro map_of_zip_nth) auto
  with assms show ?thesis by (simp add: alpha_index_def)
qed

lemma alpha_index_zero [simp]: "alpha_index (alphabet ! 0) = Some 0"
  using alpha_index_nth [of 0] by simp

lemma dec_loop_append:
  "dec_loop n (xs @ ys) = (case dec_loop n xs of Inl e \<Rightarrow> Inl e | Inr m \<Rightarrow> dec_loop m ys)"
  by (induction xs arbitrary: n) (auto split: option.splits)

lemma dec_loop_zeros: "dec_loop 0 (replicate k (alphabet ! 0) @ xs) = dec_loop 0 xs"
  by (induction k) auto

lemma dec_enc_digits: "0 \<le> n \<Longrightarrow> dec_loop 0 (rev (enc_digits n)) = Inr n"
proof (induction n rule: enc_digits.induct)
  case (1 n)
  show ?case
  proof (cases "n \<le> 0")
    case True
    with "1.prems" show ?thesis by simp
  next
    case False
    have "alpha_index (alphabet ! nat (n mod base)) = Some (n mod base)"
      using alpha_index_nth [of "nat (n mod base)"] by (simp add: base_def nat_less_iff)
    with False "1.IH" show ?thesis
      by (simp add: enc_digits.simps [of n] dec_loop_append base_def)
  qed
qed

lemma enc_digits_length: "n < base ^ k \<Longrightarrow> length (enc_digits n) \<le> k"
proof (induction n arbitrary: k rule: enc_digits.induct)
  case (1 n)
  show ?case
  proof (cases "n \<le> 0")
    case True
    then show ?thesis by (simp add: enc_digits.simps [of n])
  next
    case False
    with "1.prems" obtain j where k: "k = Suc j" by (cases k) (auto simp: base_def)
    have "n div 62 * 62 \<le> n" by simp
    moreover have "n < 62 * 62 ^ j" using k "1.prems" by (simp add: base_def)
    ultimately have "n div base < base ^ j" unfolding base_def by linarith
    with False "1.IH" k show ?thesis by (simp add: enc_digits.simps [of n])
  qed
qed

lemma decode_encode: "encode n w = Inr code \<Longrightarrow> decode code = Inr n"
  using dec_enc_digits [of n]
  by (auto simp: encode_def decode_def rjust_def dec_loop_zeros split: if_splits)

lemma encode_total: "0 \<le> n \<Longrightarrow> \<exists>code. encode n w = Inr code"
  by (simp add: encode_def)

lemma encode_length:
  assumes "encode n w = Inr code" "1 \<le> w" "n < base ^ nat w"
  shows "int (length code) = w"
  using assms enc_digits_length [of n "nat w"] by (auto simp: encode_def rjust_def split: if_splits)

section \<open>The Feistel permutation\<close>

definition half_bits :: nat where
  "half_bits = 20"

definition half_mask :: int where
  "half_mask = push_bit half_bits 1 - 1"

text \<open>\<open>h\<close> is the 64-bit integer read from the blake2b digest of its seed.\<close>

definition round_function :: "(string \<Rightarrow> int) \<Rightarrow> int \<Rightarrow> int \<Rightarrow> int \<Rightarrow> int" where
  "round_function h v round_no key =
     h (str_of_int key @ '':'' @ str_of_int round_no @ '':'' @ str_of_int v) AND half_mask"

definition feistel_round :: "(string \<Rightarrow> int) \<Rightarrow> int \<Rightarrow> int \<Rightarrow> int \<times> int \<Rightarrow> int \<times> int" where
  "feistel_round h key r = (\<lambda>(left, right). (right, left XOR round_function h right r key))"

definition feistel_unround :: "(string \<Rightarrow> int) \<Rightarrow> int \<Rightarrow> int \<Rightarrow> int \<times> int \<Rightarrow> int \<times> int" where
  "feistel_unround h key r = (\<lambda>(left, right). (right XOR round_function h left r key, left))"

definition split_halves :: "int \<Rightarrow> int \<times> int" where
  "split_halves x = (drop_bit half_bits x, x AND half_mask)"

definition join_halves :: "int \<times> int \<Rightarrow> int" where
  "join_halves = (\<lambda>(left, right). push_bit half_bits left OR right)"

definition scramble :: "(string \<Rightarrow> int) \<Rightarrow> int \<Rightarrow> int \<Rightarrow> int result" where
  "scramble h counter key =
     (if \<not> (0 \<le> counter \<and> counter < push_bit (2 * half_bits) 1) then Inl ValidationError
      else Inr (join_halves (fold (feistel_round h key) [0, 1, 2, 3] (split_halves counter))))"

definition unscramble :: "(string \<Rightarrow> int) \<Rightarrow> int \<Rightarrow> int \<Rightarrow> int result" where
  "unscramble h scrambled key =
     (if \<not> (0 \<le> scrambled \<and> scrambled < push_bit (2 * half_bits) 1) then Inl ValidationError
      else Inr (join_halves (fold (feistel_unround h key) [3, 2, 1, 0] (split_halves scrambled))))"

text \<open>A pair of 20-bit halves.\<close>

definition half_pair :: "int \<times> int \<Rightarrow> bool" where
  "half_pair p \<longleftrightarrow> 0 \<le> fst p \<and> fst p < 2 ^ 20 \<and> 0 \<le> snd p \<and> snd p < 2 ^ 20"

lemma half_mask_take: "x AND half_mask = x mod 2 ^ 20"
proof -
  have "half_mask = mask 20"
    by (simp add: half_mask_def half_bits_def mask_eq_exp_minus_1 push_bit_eq_mult)
  then have "x AND half_mask = take_bit 20 x" by (simp add: take_bit_eq_mask)
  then show ?thesis by (simp add: take_bit_eq_mod)
qed

lemma round_function_range: "0 \<le> round_function h v r key" "round_function h v r key < 2 ^ 20"
  by (simp_all add: round_function_def half_mask_take)

lemma xor_range: "0 \<le> x \<Longrightarrow> x < 2 ^ n \<Longrightarrow> 0 \<le> y \<Longrightarrow> y < 2 ^ n \<Longrightarrow> 0 \<le> x XOR y \<and> x XOR y < 2 ^ n"
  for x y :: int
  by (simp add: XOR_upper)

lemma feistel_round_half: "half_pair p \<Longrightarrow> half_pair (feistel_round h key r p)"
  using round_function_range xor_range [where n = 20]
  by (auto simp: half_pair_def feistel_round_def split: prod.splits)

lemma feistel_unround_half: "half_pair p \<Longrightarrow> half_pair (feistel_unround h key r p)"
  using round_function_range xor_range [where n = 20]
  by (auto simp: half_pair_def feistel_unround_def split: prod.splits)

lemma feistel_inverse:
  "feistel_unround h key r (feistel_round h key r p) = p"
  "feistel_round h key r (feistel_unround h key r p) = p"
  by (auto simp: feistel_round_def feistel_unround_def xor.assoc split: prod.splits)

lemma join_halves_eq: "0 \<le> b \<Longrightarrow> b < 2 ^ 20 \<Longrightarrow> join_halves (a, b) = a * 2 ^ 20 + b"
  using or_shifted_eq_add [of b 20 a] by (simp add: join_halves_def half_bits_def push_bit_eq_mult)

lemma split_halves_eq: "split_halves x = (x div 2 ^ 20, x mod 2 ^ 20)"
  by (simp add: split_halves_def half_mask_take half_bits_def drop_bit_eq_div)

lemma split_join: "half_pair p \<Longrightarrow> split_halves (join_halves p) = p"
  by (cases p) (auto simp: half_pair_def join_halves_eq split_halves_eq)

lemma join_split: "join_halves (split_halves x) = x"
  using join_halves_eq [of "x mod 2 ^ 20" "x div 2 ^ 20"] by (simp add: split_halves_eq)

lemma split_half: "0 \<le> x \<Longrightarrow> x < 2 ^ 40 \<Longrightarrow> half_pair (split_halves x)"
  by (auto simp: half_pair_def split_halves_eq)

lemma join_range: "half_pair p \<Longrightarrow> 0 \<le> join_halves p \<and> join_halves p < 2 ^ 40"
  by (cases p) (auto simp: half_pair_def join_halves_eq)

lemma unscramble_scramble_aux:
  "fold (feistel_unround h key) [3, 2, 1, 0] (fold (feistel_round h key) [0, 1, 2, 3] p) = p"
  "fold (feistel_round h key) [0, 1, 2, 3] (fold (feistel_unround h key) [3, 2, 1, 0] p) = p"
  by (simp_all add: feistel_inverse)

lemma feistel_rounds_half:
  "half_pair p \<Longrightarrow> half_pair (fold (feistel_round h key) [0, 1, 2, 3] p)"
  "half_pair p \<Longrightarrow> half_pair (fold (feistel_unround h key) [3, 2, 1, 0] p)"
  by (simp_all add: feistel_round_half feistel_unround_half)

lemma domain_40: "push_bit (2 * half_bits) (1 :: int) = 2 ^ 40"
  by (simp add: half_bits_def push_bit_eq_mult)

lemmas scramble_unfold = scramble_def [unfolded domain_40] unscramble_def [unfolded domain_40]

lemma scramble_total:
  assumes "0 \<le> c" "c < 2 ^ 40"
  shows "\<exists>s. scramble h c key = Inr s \<and> 0 \<le> s \<and> s < 2 ^ 40 \<and> unscramble h s key = Inr c"
proof -
  let ?p = "fold (feistel_round h key) [0, 1, 2, 3] (split_halves c)"
  have p: "half_pair ?p" using feistel_rounds_half(1) [OF split_half [OF assms]] .
  then show ?thesis
    using assms join_range [OF p] split_join [OF p] unscramble_scramble_aux(1)
    by (simp add: scramble_unfold join_split del: fold_simps)
qed

section \<open>The conditional write\<close>

text \<open>
  What the write path needs of a \<^verbatim>\<open>CodeStore\<close>: claiming a free code binds it and nothing else,
  claiming a taken one changes nothing and reports the owner.
\<close>

locale code_store =
  fixes claim :: "'s \<Rightarrow> string \<Rightarrow> string \<Rightarrow> string option \<times> 's"
    and resolve :: "'s \<Rightarrow> string \<Rightarrow> string option"
  assumes claim_free: "resolve s c = None \<Longrightarrow> claim s c u = (r, s') \<Longrightarrow>
      r = None \<and> resolve s' = (resolve s)(c \<mapsto> u)"
    and claim_taken: "resolve s c = Some v \<Longrightarrow> claim s c u = (r, s') \<Longrightarrow> r = Some v \<and> s' = s"

record code_rows =
  cr_rows :: "(string, string) dict"

definition mem_claim :: "code_rows \<Rightarrow> string \<Rightarrow> string \<Rightarrow> string option \<times> code_rows" where
  "mem_claim s code long_url =
     (case dict_get (cr_rows s) code of
        None \<Rightarrow> (None, s\<lparr>cr_rows := dict_set code long_url (cr_rows s)\<rparr>)
      | Some existing \<Rightarrow> (Some existing, s))"

definition mem_resolve :: "code_rows \<Rightarrow> string \<Rightarrow> string option" where
  "mem_resolve s code = dict_get (cr_rows s) code"

interpretation mem_store: code_store mem_claim mem_resolve
  by unfold_locales (auto simp: mem_claim_def mem_resolve_def fun_eq_iff)

section \<open>Strategies\<close>

record short_link =
  sl_code :: string
  sl_long_url :: string
  sl_attempts :: int

text \<open>ASCII whitespace, as \<^verbatim>\<open>str.strip\<close> removes it.\<close>

definition is_space :: "char \<Rightarrow> bool" where
  "is_space c \<longleftrightarrow> of_char c \<in> {9, 10, 11, 12, 13, 28, 29, 30, 31, 32 :: nat}"

definition max_attempts :: nat where
  "max_attempts = 8"

text \<open>
  The loop of \<^verbatim>\<open>shorten\<close>. A strategy is its candidate method: given its own state, the URL and
  the attempt number it returns a code (or raises) and its next state. The collision counter is
  threaded through.
\<close>

fun shorten_loop ::
  "('s \<Rightarrow> string \<Rightarrow> string \<Rightarrow> string option \<times> 's) \<Rightarrow>
   ('g \<Rightarrow> string \<Rightarrow> nat \<Rightarrow> string result \<times> 'g) \<Rightarrow> string \<Rightarrow> nat list \<Rightarrow> 's \<times> 'g \<times> nat \<Rightarrow>
   ('s \<times> 'g \<times> nat) \<times> short_link result" where
  "shorten_loop claim candidate url [] st = (st, Inl ConflictError)"
| "shorten_loop claim candidate url (attempt # attempts) (s, g, collisions) =
     (case candidate g url attempt of
        (Inl e, g') \<Rightarrow> ((s, g', collisions), Inl e)
      | (Inr code, g') \<Rightarrow>
          (case claim s code url of (owner, s') \<Rightarrow>
             if owner = None \<or> owner = Some url
             then ((s', g', collisions),
                   Inr \<lparr>sl_code = code, sl_long_url = url, sl_attempts = int attempt + 1\<rparr>)
             else shorten_loop claim candidate url attempts (s', g', collisions + 1)))"

definition shorten ::
  "('s \<Rightarrow> string \<Rightarrow> string \<Rightarrow> string option \<times> 's) \<Rightarrow>
   ('g \<Rightarrow> string \<Rightarrow> nat \<Rightarrow> string result \<times> 'g) \<Rightarrow> string \<Rightarrow> 's \<times> 'g \<times> nat \<Rightarrow>
   ('s \<times> 'g \<times> nat) \<times> short_link result" where
  "shorten claim candidate url st =
     (if list_all is_space url then (st, Inl ValidationError)
      else shorten_loop claim candidate url [0 ..< max_attempts] st)"

record counter_codes =
  cc_next :: int
  cc_key :: int

definition counter_candidate ::
  "(string \<Rightarrow> int) \<Rightarrow> counter_codes \<Rightarrow> string \<Rightarrow> nat \<Rightarrow> string result \<times> counter_codes" where
  "counter_candidate h g url attempt =
     (case scramble h (cc_next g) (cc_key g) of
        Inl e \<Rightarrow> Inl e
      | Inr v \<Rightarrow> encode v code_length,
      g\<lparr>cc_next := cc_next g + 1\<rparr>)"

text \<open>A Snowflake strategy at the clock reading \<open>now\<close>.\<close>

definition snowflake_candidate :: "time \<Rightarrow> sf_gen \<Rightarrow> string \<Rightarrow> nat \<Rightarrow> string result \<times> sf_gen" where
  "snowflake_candidate now g url attempt =
     (case sf_next_id g now of Inl e \<Rightarrow> (Inl e, g) | Inr (i, g') \<Rightarrow> (encode i 0, g'))"

text \<open>\<open>sha\<close> is the integer read from the sha256 digest; the strategy has no state of its own.\<close>

definition hash_candidate ::
  "(string \<Rightarrow> int) \<Rightarrow> int \<Rightarrow> unit \<Rightarrow> string \<Rightarrow> nat \<Rightarrow> string result \<times> unit" where
  "hash_candidate sha width g url attempt =
     (let seed = (if attempt = 0 then url else url @ ''#'' @ str_of_nat attempt)
      in (case code_space width of Inl e \<Rightarrow> Inl e | Inr n \<Rightarrow> encode (sha seed mod n) width, g))"

context code_store
begin

text \<open>One claim never disturbs an existing binding, and binds when it accepts.\<close>

lemma claim_keeps: "claim s c u = (r, s') \<Longrightarrow> resolve s k = Some v \<Longrightarrow> resolve s' k = Some v"
  using claim_free [of s c u r s'] claim_taken [of s c _ u r s'] by (cases "resolve s c") auto

lemma claim_accepts:
  "claim s c u = (r, s') \<Longrightarrow> r = None \<or> r = Some u \<Longrightarrow> resolve s' c = Some u"
  by (cases "resolve s c") (auto dest: claim_free claim_taken)

lemma shorten_loop_binds:
  assumes "shorten_loop claim cand url attempts (s, g, k) = ((s', g', k'), r)"
  shows "resolve s c = Some v \<Longrightarrow> resolve s' c = Some v"
    and "r = Inr l \<Longrightarrow> resolve s' (sl_code l) = Some url \<and> sl_long_url l = url"
  using assms
proof (induction attempts arbitrary: s g k)
  case (Cons a as)
  case 1
  with Cons.IH(1) show ?case
    by (fastforce split: prod.splits sum.splits if_splits dest: claim_keeps)
next
  case (Cons a as)
  case 2
  with Cons.IH(2) show ?case
    by (fastforce split: prod.splits sum.splits if_splits dest: claim_accepts)
qed auto

lemma shorten_binds:
  assumes "shorten claim cand url (s, g, k) = ((s', g', k'), r)"
  shows "resolve s c = Some v \<Longrightarrow> resolve s' c = Some v"
    and "r = Inr l \<Longrightarrow> resolve s' (sl_code l) = Some url \<and> sl_long_url l = url"
  using assms shorten_loop_binds(1) [of cand url "[0 ..< max_attempts]" s g k s' g' k' r c v]
    shorten_loop_binds(2) [of cand url "[0 ..< max_attempts]" s g k s' g' k' r l]
  by (auto simp: shorten_def split: if_splits)

end

text \<open>Shortening one URL after the other with the in-memory store.\<close>

fun shorten_all ::
  "('g \<Rightarrow> string \<Rightarrow> nat \<Rightarrow> string result \<times> 'g) \<Rightarrow> string list \<Rightarrow> code_rows \<times> 'g \<times> nat \<Rightarrow>
   (code_rows \<times> 'g \<times> nat) \<times> short_link result list" where
  "shorten_all cand [] st = (st, [])"
| "shorten_all cand (u # us) st =
     (case shorten mem_claim cand u st of
        (st1, r) \<Rightarrow> (case shorten_all cand us st1 of (st2, rs) \<Rightarrow> (st2, r # rs)))"

section \<open>Counter codes never collide\<close>

lemma counter_code:
  assumes "0 \<le> cc_next g" "cc_next g < 2 ^ 40"
  shows "\<exists>code v. counter_candidate h g url a = (Inr code, g\<lparr>cc_next := cc_next g + 1\<rparr>)
     \<and> length code = 7 \<and> decode code = Inr v \<and> unscramble h v (cc_key g) = Inr (cc_next g)"
proof -
  obtain v where v: "scramble h (cc_next g) (cc_key g) = Inr v" "0 \<le> v" "v < 2 ^ 40"
      "unscramble h v (cc_key g) = Inr (cc_next g)"
    using scramble_total [OF assms] by blast
  obtain code where code: "encode v 7 = Inr code" using encode_total [OF v(2)] by blast
  have "(2 :: int) ^ 40 < base ^ 7" by (simp add: base_def)
  with v(3) have "int (length code) = 7" by (intro encode_length [OF code]) auto
  with v code decode_encode [OF code] show ?thesis
    by (simp add: counter_candidate_def code_length_def)
qed

text \<open>Every bound code unscrambles to a counter value already spent.\<close>

definition counter_inv :: "(string \<Rightarrow> int) \<Rightarrow> code_rows \<Rightarrow> counter_codes \<Rightarrow> bool" where
  "counter_inv h s g \<longleftrightarrow> (\<forall>c u. mem_resolve s c = Some u \<longrightarrow>
     (\<exists>v n. decode c = Inr v \<and> unscramble h v (cc_key g) = Inr n \<and> n < cc_next g))"

lemma counter_shorten:
  assumes "counter_inv h s g" "0 \<le> cc_next g" "cc_next g < 2 ^ 40" "\<not> list_all is_space u"
  shows "\<exists>code s'. shorten mem_claim (counter_candidate h) u (s, g, k) =
       ((s', g\<lparr>cc_next := cc_next g + 1\<rparr>, k), Inr \<lparr>sl_code = code, sl_long_url = u, sl_attempts = 1\<rparr>)
     \<and> mem_resolve s code = None \<and> length code = 7
     \<and> mem_resolve s' = (mem_resolve s)(code \<mapsto> u)
     \<and> counter_inv h s' (g\<lparr>cc_next := cc_next g + 1\<rparr>)"
proof -
  obtain code v where c: "counter_candidate h g u 0 = (Inr code, g\<lparr>cc_next := cc_next g + 1\<rparr>)"
      "length code = 7" "decode code = Inr v" "unscramble h v (cc_key g) = Inr (cc_next g)"
    using counter_code [OF assms(2,3)] by blast
  have free: "mem_resolve s code = None"
    using assms(1) c(3,4) by (fastforce simp: counter_inv_def)
  obtain r s' where cl: "mem_claim s code u = (r, s')" by fastforce
  note bound = mem_store.claim_free [OF free cl]
  have "[0 ..< max_attempts] = 0 # [1 ..< 8]" by (simp add: max_attempts_def upt_rec)
  then have "shorten mem_claim (counter_candidate h) u (s, g, k) =
       ((s', g\<lparr>cc_next := cc_next g + 1\<rparr>, k), Inr \<lparr>sl_code = code, sl_long_url = u, sl_attempts = 1\<rparr>)"
    using assms(4) c(1) cl bound by (simp add: shorten_def)
  moreover have "counter_inv h s' (g\<lparr>cc_next := cc_next g + 1\<rparr>)"
    using assms(1) bound c(3,4) by (fastforce simp: counter_inv_def)
  ultimately show ?thesis using free c(2) bound by blast
qed

lemma counter_shorten_all:
  assumes "counter_inv h s g" "0 \<le> cc_next g" "cc_next g + int (length us) \<le> 2 ^ 40"
    and "\<forall>u \<in> set us. \<not> list_all is_space u"
  shows "\<exists>s' g' codes. shorten_all (counter_candidate h) us (s, g, k) =
       ((s', g', k), map (\<lambda>(c, u). Inr \<lparr>sl_code = c, sl_long_url = u, sl_attempts = 1\<rparr>) (zip codes us))
     \<and> length codes = length us \<and> distinct codes \<and> (\<forall>c \<in> set codes. length c = 7)
     \<and> (\<forall>c \<in> set codes. mem_resolve s c = None)
     \<and> (\<forall>(c, u) \<in> set (zip codes us). mem_resolve s' c = Some u)
     \<and> (\<forall>c v. mem_resolve s c = Some v \<longrightarrow> mem_resolve s' c = Some v)"
  using assms
proof (induction us arbitrary: s g)
  case Nil
  then show ?case by auto
next
  case (Cons u us)
  obtain code s1 where 1: "shorten mem_claim (counter_candidate h) u (s, g, k) =
       ((s1, g\<lparr>cc_next := cc_next g + 1\<rparr>, k), Inr \<lparr>sl_code = code, sl_long_url = u, sl_attempts = 1\<rparr>)"
      "mem_resolve s code = None" "length code = 7" "mem_resolve s1 = (mem_resolve s)(code \<mapsto> u)"
      "counter_inv h s1 (g\<lparr>cc_next := cc_next g + 1\<rparr>)"
    using counter_shorten [OF Cons.prems(1,2), of u k] Cons.prems(3,4) by auto
  obtain s' g' codes where 2: "shorten_all (counter_candidate h) us (s1, g\<lparr>cc_next := cc_next g + 1\<rparr>, k) =
       ((s', g', k), map (\<lambda>(c, u). Inr \<lparr>sl_code = c, sl_long_url = u, sl_attempts = 1\<rparr>) (zip codes us))"
      "length codes = length us" "distinct codes" "\<forall>c \<in> set codes. length c = 7"
      "\<forall>c \<in> set codes. mem_resolve s1 c = None"
      "\<forall>(c, u) \<in> set (zip codes us). mem_resolve s' c = Some u"
      "\<forall>c v. mem_resolve s1 c = Some v \<longrightarrow> mem_resolve s' c = Some v"
    using Cons.IH [OF 1(5)] Cons.prems(2-4) by auto
  have "code \<notin> set codes" using 1(4) 2(5) by force
  moreover have "\<forall>c \<in> set codes. mem_resolve s c = None"
    using 1(4) 2(5) by (auto simp: fun_upd_def split: if_splits)
  moreover have "mem_resolve s' c = Some v" if "mem_resolve s c = Some v" for c v
  proof -
    have "mem_resolve s1 c = Some v" using that 1(2,4) by auto
    with 2(7) show ?thesis by blast
  qed
  ultimately show ?case
    using 1 2 by (intro exI [of _ s'] exI [of _ g'] exI [of _ "code # codes"]) auto
qed

section \<open>Hash codes deduplicate\<close>

context code_store
begin

text \<open>
  A strategy without state proposes the same codes again, so a URL shortened once is found again
  in any later store.
\<close>

lemma shorten_loop_again:
  assumes "shorten_loop claim cand url attempts (s, g, k) = ((s1, g1, k1), Inr l)"
    and "\<And>a. snd (cand g url a) = g"
    and "\<And>c v. resolve s1 c = Some v \<Longrightarrow> resolve s2 c = Some v"
  shows "\<exists>k3. shorten_loop claim cand url attempts (s2, g, k2) = ((s2, g, k3), Inr l)"
  using assms
proof (induction attempts arbitrary: s k k2)
  case (Cons a as)
  obtain code where cand: "cand g url a = (Inr code, g)"
    using Cons.prems(1) Cons.prems(2) [of a] by (cases "cand g url a"; cases "fst (cand g url a)") auto
  obtain r s' where cl: "claim s code url = (r, s')" by fastforce
  show ?case
  proof (cases "r = None \<or> r = Some url")
    case True
    then have "s1 = s'" and l: "l = \<lparr>sl_code = code, sl_long_url = url, sl_attempts = int a + 1\<rparr>"
      using Cons.prems(1) cand cl by auto
    then have taken: "resolve s2 code = Some url"
      using claim_accepts [OF cl True] Cons.prems(3) by blast
    obtain r2 s2' where "claim s2 code url = (r2, s2')" by fastforce
    with claim_taken [OF taken this] cand l show ?thesis by auto
  next
    case False
    then obtain w where w: "r = Some w" "w \<noteq> url" by auto
    then have "resolve s code = Some w" "s' = s"
      using cl by (cases "resolve s code"; auto dest: claim_free claim_taken)+
    moreover have rest: "shorten_loop claim cand url as (s', g, k + 1) = ((s1, g1, k1), Inr l)"
      using Cons.prems(1) cand cl w by auto
    ultimately have taken: "resolve s2 code = Some w"
      using shorten_loop_binds(1) [OF rest] Cons.prems(3) by blast
    obtain r2 s2' where cl2: "claim s2 code url = (r2, s2')" by fastforce
    obtain k3 where "shorten_loop claim cand url as (s2, g, k2 + 1) = ((s2, g, k3), Inr l)"
      using Cons.IH [OF rest Cons.prems(2,3)] by blast
    with claim_taken [OF taken cl2] cand cl2 w show ?thesis by auto
  qed
qed auto

end

section \<open>Properties\<close>

text \<open>Decoding inverts encoding at every width, so distinct numbers never share a code, and a
  number below \<open>62 ^ w\<close> takes exactly \<open>w\<close> characters when padded to \<open>w\<close>.
\<close>

theorem base62_roundtrip:
  assumes "encode n w = Inr code"
  shows "decode code = Inr n
     \<and> (\<forall>m w'. encode m w' = Inr code \<longrightarrow> m = n)
     \<and> (1 \<le> w \<and> n < base ^ nat w \<longrightarrow> int (length code) = w)"
  using decode_encode [OF assms] decode_encode encode_length [OF assms] by force

theorem base62_roundtrip_witness:
  "encode 3843 4 = Inr ''00zz'' \<and> decode ''00zz'' = Inr 3843"
proof -
  have run: "encode 3843 4 = Inr ''00zz''" by code_simp
  with base62_roundtrip [OF run] show ?thesis by blast
qed

text \<open>The scrambler is a permutation of the 40-bit counters, whatever the digest behind its round
  function returns: it accepts exactly the counters of that range, stays in it, and unscrambling
  gives the counter back.
\<close>

theorem scramble_permutes:
  "case scramble h c key of
     Inl e \<Rightarrow> \<not> (0 \<le> c \<and> c < 2 ^ 40) \<and> e = ValidationError
   | Inr s \<Rightarrow> 0 \<le> c \<and> c < 2 ^ 40 \<and> 0 \<le> s \<and> s < 2 ^ 40 \<and> unscramble h s key = Inr c"
proof (cases "0 \<le> c \<and> c < 2 ^ 40")
  case True
  with scramble_total [of c h key] show ?thesis by auto
qed (simp add: scramble_unfold)

text \<open>Counter codes never collide: shortening any list of non-blank URLs from an empty store, as
  long as the counter stays inside 40 bits, succeeds at the first attempt for each, with pairwise
  distinct seven-character codes that all resolve to their URLs, and no collision is counted.
\<close>

theorem counter_codes_collision_free:
  assumes "0 \<le> start" "start + int (length urls) \<le> 2 ^ 40" "\<forall>u \<in> set urls. \<not> list_all is_space u"
  shows "\<exists>s' g' codes. shorten_all (counter_candidate h) urls
         (\<lparr>cr_rows = []\<rparr>, \<lparr>cc_next = start, cc_key = key\<rparr>, 0) =
       ((s', g', 0), map (\<lambda>(c, u). Inr \<lparr>sl_code = c, sl_long_url = u, sl_attempts = 1\<rparr>) (zip codes urls))
     \<and> length codes = length urls \<and> distinct codes \<and> (\<forall>c \<in> set codes. length c = 7)
     \<and> (\<forall>(c, u) \<in> set (zip codes urls). mem_resolve s' c = Some u)"
proof -
  have "counter_inv h \<lparr>cr_rows = []\<rparr> \<lparr>cc_next = start, cc_key = key\<rparr>"
    by (simp add: counter_inv_def mem_resolve_def)
  from counter_shorten_all [OF this, of urls 0] assms show ?thesis by auto
qed

theorem counter_codes_collision_free_witness:
  "\<exists>s' g' codes. shorten_all (counter_candidate (\<lambda>s. int (length s))) [''a'', ''b'', ''a'']
         (\<lparr>cr_rows = []\<rparr>, \<lparr>cc_next = 1, cc_key = 24301\<rparr>, 0) =
       ((s', g', 0), map (\<lambda>(c, u). Inr \<lparr>sl_code = c, sl_long_url = u, sl_attempts = 1\<rparr>)
          (zip codes [''a'', ''b'', ''a'']))
     \<and> distinct codes"
  using counter_codes_collision_free [of 1 "[''a'', ''b'', ''a'']" "\<lambda>s. int (length s)" 24301]
  by (simp add: is_space_def) blast

text \<open>Hash codes deduplicate: a URL that was shortened once gets the same link again from any
  later state of the store, and the second call writes nothing, whatever sha256 returns and
  however many collisions the first call went through.
\<close>

theorem hash_codes_idempotent:
  assumes "shorten mem_claim (hash_candidate sha width) url (s, (), k) = ((s1, (), k1), Inr link)"
    and "\<forall>c v. mem_resolve s1 c = Some v \<longrightarrow> mem_resolve s2 c = Some v"
  shows "(\<exists>k3. shorten mem_claim (hash_candidate sha width) url (s2, (), k2) = ((s2, (), k3), Inr link))
     \<and> mem_resolve s2 (sl_code link) = Some url"
proof -
  have "shorten_loop mem_claim (hash_candidate sha width) url [0 ..< max_attempts] (s, (), k) =
      ((s1, (), k1), Inr link)"
    using assms(1) by (auto simp: shorten_def split: if_splits)
  from mem_store.shorten_loop_again [OF this, of s2 k2] assms(2)
  have "\<exists>k3. shorten_loop mem_claim (hash_candidate sha width) url [0 ..< max_attempts] (s2, (), k2) =
      ((s2, (), k3), Inr link)"
    by simp
  moreover have "\<not> list_all is_space url" using assms(1) by (auto simp: shorten_def)
  ultimately show ?thesis
    using mem_store.shorten_binds(2) [OF assms(1)] assms(2) by (auto simp: shorten_def)
qed

theorem hash_codes_idempotent_witness:
  "\<exists>s1 link. shorten mem_claim (hash_candidate (\<lambda>s. int (length s)) 7) ''xy''
        (\<lparr>cr_rows = [(''0000002'', ''ab'')]\<rparr>, (), 0) = ((s1, (), 1), Inr link)
     \<and> sl_attempts link = 2
     \<and> (\<exists>k3. shorten mem_claim (hash_candidate (\<lambda>s. int (length s)) 7) ''xy'' (s1, (), 5) =
          ((s1, (), k3), Inr link))"
proof -
  let ?link = "\<lparr>sl_code = ''0000004'', sl_long_url = ''xy'', sl_attempts = 2\<rparr>"
  let ?s1 = "\<lparr>cr_rows = [(''0000002'', ''ab''), (''0000004'', ''xy'')]\<rparr>"
  have run: "shorten mem_claim (hash_candidate (\<lambda>s. int (length s)) 7) ''xy''
      (\<lparr>cr_rows = [(''0000002'', ''ab'')]\<rparr>, (), 0) = ((?s1, (), 1), Inr ?link)"
    by code_simp
  with hash_codes_idempotent [OF run, of ?s1 5] show ?thesis
    by (intro exI [of _ ?s1] exI [of _ ?link]) simp
qed

end
