(* ===== verification/Two_Phase_Commit.thy ===== *)
theory Two_Phase_Commit
  imports Prelude
begin

text \<open>
  Two-phase commit, \<^verbatim>\<open>code/hld/two_phase_commit.py\<close>: the participants with their locks and
  prepare records, the coordinator with its durable log, and crash injection on both sides. Every
  critical section of a method is one atomic step; \<open>thread_step\<close> runs the next section of a method
  in progress, so that runs, coordinator recoveries and participant recoveries of any number of
  threads interleave at exactly the points where the code releases its locks. Participants are
  kept in a store by name, the reference the coordinator holds.
\<close>

section \<open>Participants\<close>

datatype vote = YES | NO

datatype decision = COMMIT | ABORT

datatype crash_point = BEFORE_DECISION_LOGGED | AFTER_DECISION_LOGGED

record participant =
  pt_name :: string
  pt_floor :: int
  pt_data :: "(string, int) dict"
  pt_locks :: "(string, string) dict"
  pt_prepared :: "(string, (string, int) dict) dict"
  pt_decided :: "(string, decision) dict"
  pt_down :: bool
  pt_crash_after_vote :: bool

definition participant_new :: "string \<Rightarrow> (string, int) dict \<Rightarrow> int \<Rightarrow> participant result" where
  "participant_new name d fl =
     (if name = [] then Inl ValidationError
      else Inr \<lparr>pt_name = name, pt_floor = fl, pt_data = d, pt_locks = [], pt_prepared = [],
                pt_decided = [], pt_down = False, pt_crash_after_vote = False\<rparr>)"

definition pt_get :: "participant \<Rightarrow> string \<Rightarrow> int" where
  "pt_get p k = (case dict_get (pt_data p) k of None \<Rightarrow> 0 | Some v \<Rightarrow> v)"

definition pt_in_doubt :: "participant \<Rightarrow> string list" where
  "pt_in_doubt p = sort (dict_keys (pt_prepared p))"

definition pt_crash :: "participant \<Rightarrow> participant" where
  "pt_crash p = p\<lparr>pt_down := True\<rparr>"

definition pt_arm_crash :: "participant \<Rightarrow> participant" where
  "pt_arm_crash p = p\<lparr>pt_crash_after_vote := True\<rparr>"

definition pt_check_up :: "participant \<Rightarrow> unit result" where
  "pt_check_up p = (if pt_down p then Inl NodeDownError else Inr ())"

text \<open>\<^verbatim>\<open>dict.update\<close>.\<close>

definition dict_update :: "('k, 'v) dict \<Rightarrow> ('k, 'v) dict \<Rightarrow> ('k, 'v) dict" where
  "dict_update d e = fold (\<lambda>(k, v). dict_set k v) e d"

definition pt_prepare :: "participant \<Rightarrow> string \<Rightarrow> (string, int) dict \<Rightarrow> (vote \<times> participant) result" where
  "pt_prepare p txid deltas =
     (case pt_check_up p of
        Inl e \<Rightarrow> Inl e
      | Inr _ \<Rightarrow>
          if dict_get (pt_prepared p) txid \<noteq> None then Inr (YES, p)
          else if \<exists>k \<in> set (dict_keys deltas). dict_get (pt_locks p) k \<notin> {None, Some txid}
          then Inr (NO, p)
          else let new_values = map (\<lambda>(k, delta). (k, pt_get p k + delta)) deltas
               in if \<exists>v \<in> set (map snd new_values). v < pt_floor p then Inr (NO, p)
                  else let p' = p\<lparr>pt_locks := fold (\<lambda>k. dict_set k txid) (dict_keys deltas) (pt_locks p),
                                  pt_prepared := dict_set txid new_values (pt_prepared p)\<rparr>
                       in Inr (YES, if pt_crash_after_vote p
                                    then p'\<lparr>pt_crash_after_vote := False, pt_down := True\<rparr> else p'))"

definition pt_apply_locked :: "participant \<Rightarrow> string \<Rightarrow> decision \<Rightarrow> participant" where
  "pt_apply_locked p txid d =
     p\<lparr>pt_prepared := dict_del txid (pt_prepared p),
       pt_data := (case dict_get (pt_prepared p) txid of
                     None \<Rightarrow> pt_data p
                   | Some pending \<Rightarrow> if d = COMMIT then dict_update (pt_data p) pending else pt_data p),
       pt_locks := filter (\<lambda>(k, holder). holder \<noteq> txid) (pt_locks p),
       pt_decided := dict_set txid d (pt_decided p)\<rparr>"

definition pt_commit :: "participant \<Rightarrow> string \<Rightarrow> participant result" where
  "pt_commit p txid =
     (case pt_check_up p of
        Inl e \<Rightarrow> Inl e
      | Inr _ \<Rightarrow>
          if dict_get (pt_prepared p) txid = None \<and> dict_get (pt_decided p) txid \<noteq> Some COMMIT
          then Inl InvalidStateError
          else Inr (pt_apply_locked p txid COMMIT))"

definition pt_abort :: "participant \<Rightarrow> string \<Rightarrow> participant result" where
  "pt_abort p txid =
     (case pt_check_up p of Inl e \<Rightarrow> Inl e | Inr _ \<Rightarrow> Inr (pt_apply_locked p txid ABORT))"

section \<open>The coordinator's log\<close>

record tx_record =
  tr_txid :: string
  tr_participants :: "string list"
  tr_decision :: "decision option"
  tr_acked :: "string set"

definition tr_delivered :: "tx_record \<Rightarrow> bool" where
  "tr_delivered r \<longleftrightarrow> tr_decision r \<noteq> None \<and> set (tr_participants r) \<subseteq> tr_acked r"

record cluster =
  cl_parts :: "(string, participant) dict"
  cl_log :: "(string, tx_record) dict"
  cl_down :: bool
  cl_crash_at :: "crash_point option"

definition coordinator_new :: cluster where
  "coordinator_new = \<lparr>cl_parts = [], cl_log = [], cl_down = False, cl_crash_at = None\<rparr>"

definition co_register :: "cluster \<Rightarrow> participant \<Rightarrow> cluster" where
  "co_register c p = c\<lparr>cl_parts := dict_set (pt_name p) p (cl_parts c)\<rparr>"

definition co_crash_at :: "cluster \<Rightarrow> crash_point option \<Rightarrow> cluster" where
  "co_crash_at c x = c\<lparr>cl_crash_at := x\<rparr>"

definition co_crash :: "cluster \<Rightarrow> cluster" where
  "co_crash c = c\<lparr>cl_down := True\<rparr>"

definition co_decision_of :: "cluster \<Rightarrow> string \<Rightarrow> decision option" where
  "co_decision_of c txid =
     (case dict_get (cl_log c) txid of None \<Rightarrow> None | Some r \<Rightarrow> tr_decision r)"

definition co_pending :: "cluster \<Rightarrow> string list" where
  "co_pending c = sort (map fst (filter (\<lambda>(t, r). \<not> tr_delivered r) (cl_log c)))"

text \<open>Writing \<open>d\<close> to a record that has no decision yet; a decision once logged stays.\<close>

definition log_decision :: "cluster \<Rightarrow> tx_record \<Rightarrow> string \<Rightarrow> decision \<Rightarrow> cluster" where
  "log_decision c r txid d =
     (if tr_decision r = None
      then c\<lparr>cl_log := dict_set txid (r\<lparr>tr_decision := Some d\<rparr>) (cl_log c)\<rparr> else c)"

definition co_decision_for :: "cluster \<Rightarrow> string \<Rightarrow> (decision \<times> cluster) result" where
  "co_decision_for c txid =
     (if cl_down c then Inl NodeDownError
      else case dict_get (cl_log c) txid of
             None \<Rightarrow> Inr (ABORT, c)
           | Some r \<Rightarrow> Inr (case tr_decision r of None \<Rightarrow> ABORT | Some d \<Rightarrow> d,
                           log_decision c r txid ABORT))"

section \<open>Methods in progress\<close>

type_synonym tx_plan = "(string \<times> (string, int) dict) list"

text \<open>
  What follows a broadcast: \<^verbatim>\<open>run\<close> returns, \<^verbatim>\<open>recover\<close> goes on with its loop. \<open>Returned t d\<close>
  is the return of \<^verbatim>\<open>run\<close> called for \<open>t\<close>.
\<close>

datatype cont = ReturnDecision decision | ResumeRecover "string list" "string list"

datatype thread =
    Voting string tx_plan "(string, vote) dict"
  | Deciding string decision
  | Decided string decision
  | Broadcasting string "string list" cont
  | Acking string string "string list" cont
  | Recovering "string list" "string list"
  | PListing string
  | PRecovering string "string list"
  | PApplying string string decision "string list"

datatype outcome =
    Next thread
  | Returned string decision
  | Resolved "string list"
  | Finished
  | Raised exn

text \<open>The first critical section of \<^verbatim>\<open>run\<close>, with its checks in the code's order.\<close>

definition co_start_run :: "cluster \<Rightarrow> string \<Rightarrow> tx_plan \<Rightarrow> cluster \<times> outcome" where
  "co_start_run c txid plan =
     (if plan = [] then (c, Raised ValidationError)
      else if cl_down c then (c, Raised NodeDownError)
      else if dict_get (cl_log c) txid \<noteq> None then (c, Raised ConflictError)
      else if \<exists>n \<in> set (dict_keys plan). dict_get (cl_parts c) n = None then (c, Raised NotFoundError)
      else (c\<lparr>cl_log := dict_set txid \<lparr>tr_txid = txid, tr_participants = dict_keys plan,
                tr_decision = None, tr_acked = {}\<rparr> (cl_log c)\<rparr>,
            Next (Voting txid plan [])))"

definition co_start_recover :: "cluster \<Rightarrow> cluster \<times> outcome" where
  "co_start_recover c =
     (let c' = c\<lparr>cl_down := False\<rparr> in (c', Next (Recovering (dict_keys (cl_log c')) [])))"

definition pt_start_recover :: "cluster \<Rightarrow> string \<Rightarrow> cluster \<times> outcome" where
  "pt_start_recover c n =
     (case dict_get (cl_parts c) n of
        None \<Rightarrow> (c, Raised KeyError)
      | Some p \<Rightarrow> (c\<lparr>cl_parts := dict_set n (p\<lparr>pt_down := False\<rparr>) (cl_parts c)\<rparr>, Next (PListing n)))"

definition maybe_crash :: "cluster \<Rightarrow> crash_point \<Rightarrow> cluster option" where
  "maybe_crash c point =
     (if cl_crash_at c \<noteq> Some point then None
      else Some (c\<lparr>cl_crash_at := None, cl_down := True\<rparr>))"

text \<open>Entering \<^verbatim>\<open>_broadcast\<close>.\<close>

definition enter_broadcast :: "tx_record \<Rightarrow> string \<Rightarrow> cont \<Rightarrow> outcome" where
  "enter_broadcast r txid k =
     (if tr_decision r = None then Raised InvalidStateError
      else Next (Broadcasting txid (tr_participants r) k))"

definition resume :: "string \<Rightarrow> cont \<Rightarrow> outcome" where
  "resume txid k = (case k of ReturnDecision d \<Rightarrow> Returned txid d
     | ResumeRecover rest resolved \<Rightarrow> Next (Recovering rest (resolved @ [txid])))"

definition deliver :: "participant \<Rightarrow> string \<Rightarrow> decision option \<Rightarrow> participant result" where
  "deliver p txid d = (if d = Some COMMIT then pt_commit p txid else pt_abort p txid)"

fun thread_step :: "cluster \<Rightarrow> thread \<Rightarrow> cluster \<times> outcome" where
  "thread_step c (Voting txid ((n, deltas) # plan) votes) =
     (case dict_get (cl_parts c) n of
        None \<Rightarrow> (c, Raised KeyError)
      | Some p \<Rightarrow>
          (case pt_prepare p txid deltas of
             Inl e \<Rightarrow> (c, if e = NodeDownError then Next (Voting txid plan (dict_set n NO votes))
                         else Raised e)
           | Inr (v, p') \<Rightarrow> (c\<lparr>cl_parts := dict_set n p' (cl_parts c)\<rparr>,
                            Next (Voting txid plan (dict_set n v votes)))))"
| "thread_step c (Voting txid [] votes) =
     (let d = (if \<forall>v \<in> set (map snd votes). v = YES then COMMIT else ABORT)
      in case maybe_crash c BEFORE_DECISION_LOGGED of
           Some c' \<Rightarrow> (c', Raised NodeDownError)
         | None \<Rightarrow> (c, Next (Deciding txid d)))"
| "thread_step c (Deciding txid d) =
     (case dict_get (cl_log c) txid of
        None \<Rightarrow> (c, Raised KeyError)
      | Some r \<Rightarrow> (log_decision c r txid d,
                  Next (Decided txid (case tr_decision r of None \<Rightarrow> d | Some d' \<Rightarrow> d'))))"
| "thread_step c (Decided txid d) =
     (case maybe_crash c AFTER_DECISION_LOGGED of
        Some c' \<Rightarrow> (c', Raised NodeDownError)
      | None \<Rightarrow>
          (case dict_get (cl_log c) txid of
             None \<Rightarrow> (c, Raised KeyError)
           | Some r \<Rightarrow> (c, enter_broadcast r txid (ReturnDecision d))))"
| "thread_step c (Broadcasting txid [] k) = (c, resume txid k)"
| "thread_step c (Broadcasting txid (n # ns) k) =
     (case dict_get (cl_log c) txid of
        None \<Rightarrow> (c, Raised KeyError)
      | Some r \<Rightarrow>
          if n \<in> tr_acked r then (c, Next (Broadcasting txid ns k))
          else case dict_get (cl_parts c) n of
                 None \<Rightarrow> (c, Raised KeyError)
               | Some p \<Rightarrow>
                   (case deliver p txid (tr_decision r) of
                      Inl e \<Rightarrow> (c, if e = NodeDownError then Next (Broadcasting txid ns k) else Raised e)
                    | Inr p' \<Rightarrow> (c\<lparr>cl_parts := dict_set n p' (cl_parts c)\<rparr>, Next (Acking txid n ns k))))"
| "thread_step c (Acking txid n ns k) =
     (case dict_get (cl_log c) txid of
        None \<Rightarrow> (c, Raised KeyError)
      | Some r \<Rightarrow> (c\<lparr>cl_log := dict_set txid (r\<lparr>tr_acked := insert n (tr_acked r)\<rparr>) (cl_log c)\<rparr>,
                  Next (Broadcasting txid ns k)))"
| "thread_step c (Recovering [] resolved) = (c, Resolved resolved)"
| "thread_step c (Recovering (txid # rest) resolved) =
     (case dict_get (cl_log c) txid of
        None \<Rightarrow> (c, Raised KeyError)
      | Some r \<Rightarrow>
          let c' = log_decision c r txid ABORT;
              r' = (if tr_decision r = None then r\<lparr>tr_decision := Some ABORT\<rparr> else r)
          in if \<not> tr_delivered r' then (c', enter_broadcast r' txid (ResumeRecover rest resolved))
             else (c', Next (Recovering rest resolved)))"
| "thread_step c (PListing n) =
     (case dict_get (cl_parts c) n of
        None \<Rightarrow> (c, Raised KeyError)
      | Some p \<Rightarrow> (c, Next (PRecovering n (pt_in_doubt p))))"
| "thread_step c (PRecovering n []) = (c, Finished)"
| "thread_step c (PRecovering n (txid # rest)) =
     (case co_decision_for c txid of
        Inl _ \<Rightarrow> (c, Finished)
      | Inr (d, c') \<Rightarrow> (c', Next (PApplying n txid d rest)))"
| "thread_step c (PApplying n txid d rest) =
     (case dict_get (cl_parts c) n of
        None \<Rightarrow> (c, Raised KeyError)
      | Some p \<Rightarrow> (c\<lparr>cl_parts := dict_set n (pt_apply_locked p txid d) (cl_parts c)\<rparr>,
                  Next (PRecovering n rest)))"


section \<open>The interleaved system\<close>

record tpc_sys =
  ts_cluster :: cluster
  ts_calls :: "nat \<Rightarrow> outcome option"

definition tpc_init :: tpc_sys where
  "tpc_init = \<lparr>ts_cluster = coordinator_new, ts_calls = (\<lambda>_. None)\<rparr>"

definition set_part :: "cluster \<Rightarrow> string \<Rightarrow> participant \<Rightarrow> cluster" where
  "set_part c n p = c\<lparr>cl_parts := dict_set n p (cl_parts c)\<rparr>"

text \<open>
  Any thread may call \<^verbatim>\<open>run\<close>, either \<^verbatim>\<open>recover\<close> or \<^verbatim>\<open>decision_for\<close>, any call in progress may run
  its next critical section, and both sides may crash, be armed or disarmed at any moment. A
  participant registers under a name not yet in use, with data that respects its floor.
\<close>

inductive tpc_step :: "tpc_sys \<Rightarrow> tpc_sys \<Rightarrow> bool" where
  register: "participant_new n d fl = Inr p \<Longrightarrow> dict_ok d \<Longrightarrow> \<forall>v \<in> set (map snd d). fl \<le> v \<Longrightarrow>
    dict_get (cl_parts c) n = None \<Longrightarrow>
    tpc_step \<lparr>ts_cluster = c, ts_calls = f\<rparr> \<lparr>ts_cluster = co_register c p, ts_calls = f\<rparr>"
| part_crash: "dict_get (cl_parts c) n = Some p \<Longrightarrow>
    tpc_step \<lparr>ts_cluster = c, ts_calls = f\<rparr> \<lparr>ts_cluster = set_part c n (pt_crash p), ts_calls = f\<rparr>"
| part_arm: "dict_get (cl_parts c) n = Some p \<Longrightarrow>
    tpc_step \<lparr>ts_cluster = c, ts_calls = f\<rparr> \<lparr>ts_cluster = set_part c n (pt_arm_crash p), ts_calls = f\<rparr>"
| co_arm: "tpc_step \<lparr>ts_cluster = c, ts_calls = f\<rparr> \<lparr>ts_cluster = co_crash_at c x, ts_calls = f\<rparr>"
| crash: "tpc_step \<lparr>ts_cluster = c, ts_calls = f\<rparr> \<lparr>ts_cluster = co_crash c, ts_calls = f\<rparr>"
| inquire: "co_decision_for c t = Inr (d, c') \<Longrightarrow>
    tpc_step \<lparr>ts_cluster = c, ts_calls = f\<rparr> \<lparr>ts_cluster = c', ts_calls = f\<rparr>"
| call_run: "f i = None \<Longrightarrow> dict_ok plan \<Longrightarrow> \<forall>deltas \<in> set (map snd plan). dict_ok deltas \<Longrightarrow>
    co_start_run c t plan = (c', out) \<Longrightarrow>
    tpc_step \<lparr>ts_cluster = c, ts_calls = f\<rparr> \<lparr>ts_cluster = c', ts_calls = f(i \<mapsto> out)\<rparr>"
| call_recover: "f i = None \<Longrightarrow> co_start_recover c = (c', out) \<Longrightarrow>
    tpc_step \<lparr>ts_cluster = c, ts_calls = f\<rparr> \<lparr>ts_cluster = c', ts_calls = f(i \<mapsto> out)\<rparr>"
| call_precover: "f i = None \<Longrightarrow> dict_get (cl_parts c) n = Some p \<Longrightarrow> pt_start_recover c n = (c', out) \<Longrightarrow>
    tpc_step \<lparr>ts_cluster = c, ts_calls = f\<rparr> \<lparr>ts_cluster = c', ts_calls = f(i \<mapsto> out)\<rparr>"
| advance: "f i = Some (Next th) \<Longrightarrow> thread_step c th = (c', out) \<Longrightarrow>
    tpc_step \<lparr>ts_cluster = c, ts_calls = f\<rparr> \<lparr>ts_cluster = c', ts_calls = f(i \<mapsto> out)\<rparr>"

definition tpc_reachable :: "tpc_sys \<Rightarrow> bool" where
  "tpc_reachable s \<longleftrightarrow> tpc_step\<^sup>*\<^sup>* tpc_init s"

section \<open>Participants keep their lock discipline\<close>

text \<open>
  The keys locked are exactly the keys of the transactions in doubt, each locked by its own; every
  value waiting to be applied, and every value stored, respects the floor.
\<close>

definition pt_inv :: "participant \<Rightarrow> bool" where
  "pt_inv p \<longleftrightarrow> dict_ok (pt_locks p) \<and> dict_ok (pt_prepared p) \<and> dict_ok (pt_data p) \<and>
     (\<forall>t vals. dict_get (pt_prepared p) t = Some vals \<longrightarrow> dict_ok vals) \<and>
     (\<forall>k t. dict_get (pt_locks p) k = Some t \<longleftrightarrow>
        (\<exists>vals. dict_get (pt_prepared p) t = Some vals \<and> k \<in> set (dict_keys vals))) \<and>
     (\<forall>t vals. dict_get (pt_prepared p) t = Some vals \<longrightarrow> (\<forall>v \<in> set (map snd vals). pt_floor p \<le> v)) \<and>
     (\<forall>k v. dict_get (pt_data p) k = Some v \<longrightarrow> pt_floor p \<le> v)"


lemma dict_get_lock_all [simp]:
  "dict_get (fold (\<lambda>k. dict_set k t) ks d) x = (if x \<in> set ks then Some t else dict_get d x)"
  by (induction ks arbitrary: d) auto

lemma dict_ok_lock_all [simp]: "dict_ok d \<Longrightarrow> dict_ok (fold (\<lambda>k. dict_set k t) ks d)"
  by (induction ks arbitrary: d) auto

lemma dict_ok_update [simp]: "dict_ok d \<Longrightarrow> dict_ok (dict_update d e)"
  unfolding dict_update_def by (induction e arbitrary: d) auto

lemma dict_get_update:
  "dict_ok e \<Longrightarrow> dict_get (dict_update d e) x =
     (case dict_get e x of None \<Rightarrow> dict_get d x | Some v \<Rightarrow> Some v)"
  unfolding dict_update_def
proof (induction e arbitrary: d)
  case (Cons kv e)
  obtain k v where kv: "kv = (k, v)" by fastforce
  from Cons.prems have "dict_ok e" "k \<notin> set (map fst e)" by (auto simp: dict_ok_def kv)
  then show ?case
    using Cons.IH [of "dict_set k v d"] by (auto simp: kv split: option.splits dest: dict_get_keys)
qed simp


lemma dict_get_filter_holder:
  "dict_ok d \<Longrightarrow> dict_get (filter (\<lambda>(k, h). h \<noteq> t) d) x =
     (case dict_get d x of None \<Rightarrow> None | Some h \<Rightarrow> if h = t then None else Some h)"
proof (induction d)
  case (Cons kh d)
  obtain k h where kh: "kh = (k, h)" by fastforce
  from Cons.prems have "dict_ok d" and new: "dict_get d k = None"
    by (auto simp: dict_ok_def kh dict_get_None)
  then show ?case using Cons.IH by (auto simp: kh split: option.splits)
qed simp

lemma dict_get_map_vals: "dict_get (map (\<lambda>(k, v). (k, g k v)) d) x = map_option (g x) (dict_get d x)"
  by (induction d) auto

lemma participant_new_inv:
  "participant_new n d fl = Inr p \<Longrightarrow> dict_ok d \<Longrightarrow> \<forall>v \<in> set (map snd d). fl \<le> v \<Longrightarrow> pt_inv p"
  by (fastforce simp: participant_new_def pt_inv_def split: if_splits dest!: map_of_SomeD)

lemma pt_inv_flags [simp]:
  "pt_inv (p\<lparr>pt_down := b\<rparr>) = pt_inv p" "pt_inv (p\<lparr>pt_crash_after_vote := b\<rparr>) = pt_inv p"
  by (simp_all add: pt_inv_def)

lemma pt_inv_disjoint:
  assumes "pt_inv p" "dict_get (pt_prepared p) t = Some vals" "dict_get (pt_prepared p) u = Some vals'"
    and "k \<in> set (dict_keys vals)" "k \<in> set (dict_keys vals')"
  shows "t = u"
proof -
  have "dict_get (pt_locks p) k = Some t" "dict_get (pt_locks p) k = Some u"
    using assms unfolding pt_inv_def by blast+
  then show ?thesis by simp
qed

text \<open>The record a YES vote leaves behind.\<close>

definition pt_promised :: "participant \<Rightarrow> string \<Rightarrow> (string, int) dict \<Rightarrow> participant" where
  "pt_promised p txid deltas = p\<lparr>
     pt_locks := fold (\<lambda>k. dict_set k txid) (dict_keys deltas) (pt_locks p),
     pt_prepared := dict_set txid (map (\<lambda>(k, delta). (k, pt_get p k + delta)) deltas) (pt_prepared p)\<rparr>"

lemma pt_prepare_cases:
  assumes "pt_prepare p t deltas = Inr (v, p')"
  obtains (same) "p' = p" "v = YES \<Longrightarrow> dict_get (pt_prepared p) t \<noteq> None"
  | (promised) b down where "v = YES" "dict_get (pt_prepared p) t = None"
      "\<forall>k \<in> set (dict_keys deltas). dict_get (pt_locks p) k \<in> {None, Some t}"
      "\<forall>(k, delta) \<in> set deltas. pt_floor p \<le> pt_get p k + delta"
      "p' = (pt_promised p t deltas)\<lparr>pt_crash_after_vote := b, pt_down := down\<rparr>"
proof -
  have flags: "pt_promised p t deltas = (pt_promised p t deltas)
      \<lparr>pt_crash_after_vote := pt_crash_after_vote p, pt_down := pt_down p\<rparr>"
    by (simp add: pt_promised_def)
  show thesis
  proof (cases "p' = p \<and> (v = YES \<longrightarrow> dict_get (pt_prepared p) t \<noteq> None)")
    case True
    then show thesis by (intro same) auto
  next
    case False
    with assms have new: "dict_get (pt_prepared p) t = None"
      and free: "\<not> (\<exists>k \<in> set (dict_keys deltas). dict_get (pt_locks p) k \<notin> {None, Some t})"
      and high: "\<not> (\<exists>v \<in> set (map snd (map (\<lambda>(k, delta). (k, pt_get p k + delta)) deltas)). v < pt_floor p)"
      by (auto simp: pt_prepare_def Let_def split: sum.splits if_splits)
    from assms False new free high have "v = YES"
      and p': "p' = (if pt_crash_after_vote p
         then (pt_promised p t deltas)\<lparr>pt_crash_after_vote := False, pt_down := True\<rparr>
         else pt_promised p t deltas)"
      by (auto simp: pt_prepare_def pt_promised_def Let_def split: sum.splits if_splits)
    moreover have "\<forall>(k, delta) \<in> set deltas. pt_floor p \<le> pt_get p k + delta"
      using high by (force simp: not_less)
    ultimately show thesis
      using promised [OF _ new, where b = False and down = "if pt_crash_after_vote p then True else pt_down p"]
        free flags by (cases "pt_crash_after_vote p") auto
  qed
qed

lemma pt_inv_promised:
  assumes inv: "pt_inv p" and ok: "dict_ok deltas" and new: "dict_get (pt_prepared p) t = None"
    and free: "\<forall>k \<in> set (dict_keys deltas). dict_get (pt_locks p) k \<in> {None, Some t}"
    and high: "\<forall>(k, delta) \<in> set deltas. pt_floor p \<le> pt_get p k + delta"
  shows "pt_inv (pt_promised p t deltas)"
proof -
  let ?vals = "map (\<lambda>(k, delta). (k, pt_get p k + delta)) deltas"
  have keys: "dict_keys ?vals = dict_keys deltas" by (simp add: case_prod_unfold)
  have none: "\<forall>k. dict_get (pt_locks p) k \<noteq> Some t" using inv new unfolding pt_inv_def by (metis option.discI)
  have vals: "\<forall>v \<in> set (map snd ?vals). pt_floor p \<le> v" using high by auto
  have okv: "dict_ok ?vals" using ok keys by (simp only: dict_ok_def)
  have locks: "(dict_get (fold (\<lambda>k. dict_set k t) (dict_keys deltas) (pt_locks p)) k = Some u) \<longleftrightarrow>
      (\<exists>vs. dict_get (dict_set t ?vals (pt_prepared p)) u = Some vs \<and> k \<in> set (dict_keys vs))" for k u
  proof (cases "u = t")
    case True
    then show ?thesis
      unfolding True dict_get_lock_all dict_get_set using none keys
      by (cases "k \<in> set (dict_keys deltas)") (simp_all del: set_map map_map)
  next
    case False
    then have "(dict_get (fold (\<lambda>k. dict_set k t) (dict_keys deltas) (pt_locks p)) k = Some u) \<longleftrightarrow>
        dict_get (pt_locks p) k = Some u"
      using free by (auto dest!: bspec)
    with False inv show ?thesis unfolding pt_inv_def by simp
  qed
  show ?thesis
    unfolding pt_inv_def pt_promised_def
    using inv okv vals locks by (simp add: pt_inv_def del: map_map)
qed

lemma pt_inv_prepare:
  "pt_inv p \<Longrightarrow> dict_ok deltas \<Longrightarrow> pt_prepare p t deltas = Inr (v, p') \<Longrightarrow> pt_inv p'"
  by (erule pt_prepare_cases) (simp_all add: pt_inv_promised del: set_map)

lemma pt_inv_apply:
  assumes inv: "pt_inv p"
  shows "pt_inv (pt_apply_locked p t d)"
proof -
  note I = inv [unfolded pt_inv_def]
  have locks: "(dict_get (filter (\<lambda>(k, h). h \<noteq> t) (pt_locks p)) k = Some u) \<longleftrightarrow>
      (\<exists>vs. dict_get (dict_del t (pt_prepared p)) u = Some vs \<and> k \<in> set (dict_keys vs))" for k u
  proof -
    have "(dict_get (filter (\<lambda>(k, h). h \<noteq> t) (pt_locks p)) k = Some u) \<longleftrightarrow>
        u \<noteq> t \<and> dict_get (pt_locks p) k = Some u"
      using dict_get_filter_holder [of "pt_locks p" t k] conjunct1 [OF I]
      by (simp split: option.splits) auto
    with I show ?thesis by (simp del: set_map)
  qed
  have data: "pt_floor p \<le> v" if "dict_get (pt_data (pt_apply_locked p t d)) k = Some v" for k v
  proof (cases "dict_get (pt_prepared p) t")
    case None
    with that I show ?thesis by (auto simp: pt_apply_locked_def)
  next
    case (Some vals)
    then have ok: "dict_ok vals" and "\<forall>v \<in> set (map snd vals). pt_floor p \<le> v"
      using I by blast+
    then have high: "\<And>v. v \<in> snd ` set vals \<Longrightarrow> pt_floor p \<le> v" by auto
    have old: "\<And>k v. dict_get (pt_data p) k = Some v \<Longrightarrow> pt_floor p \<le> v" using I by blast
    from Some that ok high old [of k v] show ?thesis
      by (auto simp: pt_apply_locked_def dict_get_update split: option.splits if_splits
          dest!: map_of_SomeD intro!: high rev_image_eqI [of "(k, v)"])
  qed
  have okd: "dict_ok (pt_data (pt_apply_locked p t d))"
    using I by (auto simp: pt_apply_locked_def split: option.split)
  show ?thesis
    unfolding pt_inv_def using I locks data okd by (simp add: pt_apply_locked_def)
qed


section \<open>What every critical section keeps\<close>

text \<open>A participant has touched a transaction when it prepared it or was told its outcome.\<close>

definition pt_touched :: "participant \<Rightarrow> string \<Rightarrow> bool" where
  "pt_touched p t \<longleftrightarrow> dict_get (pt_prepared p) t \<noteq> None \<or> dict_get (pt_decided p) t \<noteq> None"

definition touched :: "cluster \<Rightarrow> string \<Rightarrow> string \<Rightarrow> bool" where
  "touched c t n \<longleftrightarrow> (\<exists>p. dict_get (cl_parts c) n = Some p \<and> pt_touched p t)"

text \<open>Nothing the cluster has written is taken back.\<close>

definition cl_le :: "cluster \<Rightarrow> cluster \<Rightarrow> bool" where
  "cl_le c c' \<longleftrightarrow>
     (\<forall>n. dict_get (cl_parts c) n \<noteq> None \<longrightarrow> dict_get (cl_parts c') n \<noteq> None) \<and>
     (\<forall>t n. touched c t n \<longrightarrow> touched c' t n) \<and>
     (\<forall>t r. dict_get (cl_log c) t = Some r \<longrightarrow>
        (\<exists>r'. dict_get (cl_log c') t = Some r' \<and> tr_participants r' = tr_participants r \<and>
           (tr_decision r \<noteq> None \<longrightarrow> tr_decision r' = tr_decision r)))"

definition cl_inv :: "cluster \<Rightarrow> bool" where
  "cl_inv c \<longleftrightarrow>
     (\<forall>n p. dict_get (cl_parts c) n = Some p \<longrightarrow> pt_inv p \<and>
        (\<forall>t. dict_get (pt_prepared p) t \<noteq> None \<longrightarrow> dict_get (cl_log c) t \<noteq> None) \<and>
        (\<forall>t d. dict_get (pt_decided p) t = Some d \<longrightarrow> co_decision_of c t = Some d)) \<and>
     (\<forall>t r. dict_get (cl_log c) t = Some r \<longrightarrow>
        (\<forall>n \<in> set (tr_participants r). dict_get (cl_parts c) n \<noteq> None) \<and>
        (tr_decision r = Some COMMIT \<longrightarrow> (\<forall>n \<in> set (tr_participants r). touched c t n))) \<and>
     dict_ok (cl_log c)"

definition cl_step :: "cluster \<Rightarrow> cluster \<Rightarrow> bool" where
  "cl_step c c' \<longleftrightarrow> cl_inv c' \<and> cl_le c c'"

lemma cl_le_refl [simp]: "cl_le c c"
  by (simp add: cl_le_def)

lemma cl_step_refl: "cl_inv c \<Longrightarrow> cl_step c c"
  by (simp add: cl_step_def)

lemma co_decision_of_le: "cl_le c c' \<Longrightarrow> co_decision_of c t = Some d \<Longrightarrow> co_decision_of c' t = Some d"
  unfolding cl_le_def co_decision_of_def by (fastforce split: option.splits)

lemma touched_le: "cl_le c c' \<Longrightarrow> touched c t n \<Longrightarrow> touched c' t n"
  by (simp add: cl_le_def)

lemma cl_le_log:
  assumes "cl_le c c'" "dict_get (cl_log c) t = Some r"
  obtains r' where "dict_get (cl_log c') t = Some r'" "tr_participants r' = tr_participants r"
    "tr_decision r \<noteq> None \<Longrightarrow> tr_decision r' = tr_decision r"
  using assms unfolding cl_le_def by blast

lemma cl_flags [simp]:
  "cl_step c (c\<lparr>cl_down := b\<rparr>) = cl_inv c" "cl_step c (c\<lparr>cl_crash_at := x\<rparr>) = cl_inv c"
  "cl_step c (c\<lparr>cl_crash_at := x, cl_down := b\<rparr>) = cl_inv c"
  by (simp_all add: cl_step_def cl_inv_def cl_le_def touched_def co_decision_of_def)

lemma cl_step_part:
  assumes inv: "cl_inv c" and p: "dict_get (cl_parts c) n = Some p" and p': "pt_inv p'"
    and prep: "\<And>t. dict_get (pt_prepared p') t \<noteq> None \<Longrightarrow> dict_get (cl_log c) t \<noteq> None"
    and dec: "\<And>t d. dict_get (pt_decided p') t = Some d \<Longrightarrow> co_decision_of c t = Some d"
    and tch: "\<And>t. pt_touched p t \<Longrightarrow> pt_touched p' t"
  shows "cl_step c (c\<lparr>cl_parts := dict_set n p' (cl_parts c)\<rparr>)"
proof -
  let ?c = "c\<lparr>cl_parts := dict_set n p' (cl_parts c)\<rparr>"
  have t: "touched c t m \<Longrightarrow> touched ?c t m" for t m
    using p tch unfolding touched_def by auto
  have "cl_inv ?c"
    using inv p' prep dec t unfolding cl_inv_def co_decision_of_def by simp
  moreover have "cl_le c ?c" using t unfolding cl_le_def by simp
  ultimately show ?thesis by (simp add: cl_step_def)
qed

lemma cl_step_log:
  assumes inv: "cl_inv c" and r: "dict_get (cl_log c) t = Some r"
    and same: "tr_participants r' = tr_participants r"
    and dec: "tr_decision r \<noteq> None \<Longrightarrow> tr_decision r' = tr_decision r"
    and all: "tr_decision r = None \<Longrightarrow> tr_decision r' = Some COMMIT \<Longrightarrow>
      \<forall>n \<in> set (tr_participants r). touched c t n"
  shows "cl_step c (c\<lparr>cl_log := dict_set t r' (cl_log c)\<rparr>)"
proof -
  let ?c = "c\<lparr>cl_log := dict_set t r' (cl_log c)\<rparr>"
  have tch: "touched ?c = touched c" by (intro ext) (simp add: touched_def)
  have "cl_le c ?c" using r same dec unfolding cl_le_def tch by auto
  moreover have "co_decision_of c u = Some d \<Longrightarrow> co_decision_of ?c u = Some d" for u d
    using co_decision_of_le calculation by blast
  then have "cl_inv ?c"
    using inv r same dec all unfolding cl_inv_def tch
    by (cases "tr_decision r = None") auto
  ultimately show ?thesis by (simp add: cl_step_def)
qed

lemma cl_step_new_record:
  assumes inv: "cl_inv c" and "dict_get (cl_log c) t = None"
    and "tr_decision r = None" "\<forall>n \<in> set (tr_participants r). dict_get (cl_parts c) n \<noteq> None"
  shows "cl_step c (c\<lparr>cl_log := dict_set t r (cl_log c)\<rparr>)"
proof -
  let ?c = "c\<lparr>cl_log := dict_set t r (cl_log c)\<rparr>"
  have tch: "touched ?c = touched c" by (intro ext) (simp add: touched_def)
  have "cl_le c ?c" using assms unfolding cl_le_def tch by auto
  moreover have "co_decision_of c u = Some d \<Longrightarrow> co_decision_of ?c u = Some d" for u d
    using co_decision_of_le calculation by blast
  then have "cl_inv ?c" using assms unfolding cl_inv_def tch by auto
  ultimately show ?thesis by (simp add: cl_step_def)
qed

lemma cl_step_new_part:
  assumes inv: "cl_inv c" and "dict_get (cl_parts c) n = None" and "pt_inv p"
    and "pt_prepared p = []" "pt_decided p = []"
  shows "cl_step c (c\<lparr>cl_parts := dict_set n p (cl_parts c)\<rparr>)"
proof -
  let ?c = "c\<lparr>cl_parts := dict_set n p (cl_parts c)\<rparr>"
  have t: "touched c t m \<Longrightarrow> touched ?c t m" for t m using assms unfolding touched_def by auto
  have "cl_inv ?c" using assms t unfolding cl_inv_def co_decision_of_def by simp
  moreover have "cl_le c ?c" using t unfolding cl_le_def by simp
  ultimately show ?thesis by (simp add: cl_step_def)
qed


section \<open>What every call in progress knows\<close>

definition logged :: "cluster \<Rightarrow> string list \<Rightarrow> bool" where
  "logged c ts \<longleftrightarrow> (\<forall>t \<in> set ts. dict_get (cl_log c) t \<noteq> None)"

definition cont_ok :: "cluster \<Rightarrow> string \<Rightarrow> cont \<Rightarrow> bool" where
  "cont_ok c t k = (case k of ReturnDecision d \<Rightarrow> co_decision_of c t = Some d
     | ResumeRecover rest resolved \<Rightarrow> logged c rest)"

definition sending :: "cluster \<Rightarrow> string \<Rightarrow> string list \<Rightarrow> cont \<Rightarrow> bool" where
  "sending c t ns k \<longleftrightarrow> (\<exists>r. dict_get (cl_log c) t = Some r \<and> tr_decision r \<noteq> None \<and>
     set ns \<subseteq> set (tr_participants r)) \<and> cont_ok c t k"

fun thread_ok :: "cluster \<Rightarrow> thread \<Rightarrow> bool" where
  "thread_ok c (Voting t plan votes) \<longleftrightarrow>
     (\<forall>deltas \<in> set (map snd plan). dict_ok deltas) \<and>
     (\<exists>r. dict_get (cl_log c) t = Some r \<and>
        set (tr_participants r) = set (dict_keys plan) \<union> set (dict_keys votes)) \<and>
     (\<forall>n. dict_get votes n = Some YES \<longrightarrow> touched c t n)"
| "thread_ok c (Deciding t d) \<longleftrightarrow>
     (\<exists>r. dict_get (cl_log c) t = Some r \<and>
        (d = COMMIT \<longrightarrow> (\<forall>n \<in> set (tr_participants r). touched c t n)))"
| "thread_ok c (Decided t d) \<longleftrightarrow> co_decision_of c t = Some d"
| "thread_ok c (Broadcasting t ns k) \<longleftrightarrow> sending c t ns k"
| "thread_ok c (Acking t n ns k) \<longleftrightarrow> sending c t (n # ns) k"
| "thread_ok c (Recovering ts resolved) \<longleftrightarrow> logged c ts"
| "thread_ok c (PListing n) \<longleftrightarrow> dict_get (cl_parts c) n \<noteq> None"
| "thread_ok c (PRecovering n ts) \<longleftrightarrow> dict_get (cl_parts c) n \<noteq> None \<and> logged c ts"
| "thread_ok c (PApplying n t d ts) \<longleftrightarrow>
     dict_get (cl_parts c) n \<noteq> None \<and> co_decision_of c t = Some d \<and> logged c ts"

definition outcome_ok :: "cluster \<Rightarrow> outcome \<Rightarrow> bool" where
  "outcome_ok c out = (case out of
       Next th \<Rightarrow> thread_ok c th
     | Returned t d \<Rightarrow> co_decision_of c t = Some d
     | Raised e \<Rightarrow> e \<in> {ValidationError, NodeDownError, ConflictError, NotFoundError}
     | _ \<Rightarrow> True)"

lemma cl_le_logged:
  assumes "cl_le c c'" "dict_get (cl_log c) t \<noteq> None"
  shows "dict_get (cl_log c') t \<noteq> None"
proof -
  from assms(2) obtain r where "dict_get (cl_log c) t = Some r" by auto
  then obtain r' where "dict_get (cl_log c') t = Some r'" using assms(1) by (elim cl_le_log)
  then show ?thesis by simp
qed

lemma logged_le: "cl_le c c' \<Longrightarrow> logged c ts \<Longrightarrow> logged c' ts"
  unfolding logged_def using cl_le_logged by blast

lemma cont_ok_le: "cl_le c c' \<Longrightarrow> cont_ok c t k \<Longrightarrow> cont_ok c' t k"
  unfolding cont_ok_def by (auto split: cont.splits intro: logged_le co_decision_of_le)

lemma sending_le:
  assumes le: "cl_le c c'" and s: "sending c t ns k"
  shows "sending c' t ns k"
proof -
  from s obtain r where "dict_get (cl_log c) t = Some r" "tr_decision r \<noteq> None"
    "set ns \<subseteq> set (tr_participants r)" "cont_ok c t k"
    by (auto simp: sending_def)
  moreover have "cont_ok c' t k" using le \<open>cont_ok c t k\<close> by (rule cont_ok_le)
  ultimately show ?thesis using cl_le_log [OF le] unfolding sending_def by (metis (no_types))
qed

lemma thread_ok_le:
  assumes "cl_le c c'" "thread_ok c th"
  shows "thread_ok c' th"
proof (cases th)
  case (Voting t plan votes)
  with assms(2) obtain r where r: "dict_get (cl_log c) t = Some r"
    and names: "set (tr_participants r) = set (dict_keys plan) \<union> set (dict_keys votes)"
    and rest: "\<forall>deltas \<in> set (map snd plan). dict_ok deltas"
      "\<forall>n. dict_get votes n = Some YES \<longrightarrow> touched c t n"
    by (simp only: thread_ok.simps) blast
  obtain r' where "dict_get (cl_log c') t = Some r'" "tr_participants r' = tr_participants r"
    using assms(1) r by (rule cl_le_log)
  with names rest show ?thesis
    using touched_le [OF assms(1)] by (simp only: Voting thread_ok.simps) metis
next
  case (Deciding t d)
  with assms(2) obtain r where r: "dict_get (cl_log c) t = Some r"
    and all: "d = COMMIT \<longrightarrow> (\<forall>n \<in> set (tr_participants r). touched c t n)"
    by auto
  obtain r' where "dict_get (cl_log c') t = Some r'" "tr_participants r' = tr_participants r"
    using assms(1) r by (rule cl_le_log)
  with all show ?thesis
    using touched_le [OF assms(1)] by (simp only: Deciding thread_ok.simps) metis
next
  case (PListing n)
  with assms show ?thesis by (auto simp: cl_le_def)
next
  case (PRecovering n ts)
  with assms show ?thesis using logged_le by (auto simp: cl_le_def)
next
  case (PApplying n t d ts)
  with assms have "dict_get (cl_parts c') n \<noteq> None" unfolding cl_le_def by auto
  with assms PApplying show ?thesis using logged_le co_decision_of_le by simp
qed (use assms in \<open>auto intro: logged_le co_decision_of_le sending_le\<close>)

lemma outcome_ok_le: "cl_le c c' \<Longrightarrow> outcome_ok c out \<Longrightarrow> outcome_ok c' out"
  unfolding outcome_ok_def by (auto split: outcome.splits intro: thread_ok_le co_decision_of_le)

lemma pt_touched_apply: "pt_touched p u \<Longrightarrow> pt_touched (pt_apply_locked p t d) u"
  by (auto simp: pt_touched_def pt_apply_locked_def)

lemma pt_decided_apply [simp]: "pt_decided (pt_apply_locked p t d) = dict_set t d (pt_decided p)"
  "pt_prepared (pt_apply_locked p t d) = dict_del t (pt_prepared p)"
  by (simp_all add: pt_apply_locked_def)

lemma cl_step_apply:
  assumes inv: "cl_inv c" and p: "dict_get (cl_parts c) n = Some p" and d: "co_decision_of c t = Some d"
  shows "cl_step c (c\<lparr>cl_parts := dict_set n (pt_apply_locked p t d) (cl_parts c)\<rparr>)"
proof (rule cl_step_part [OF inv p])
  show "pt_inv (pt_apply_locked p t d)" using inv p by (simp add: cl_inv_def pt_inv_apply)
qed (use inv p d in \<open>auto simp: cl_inv_def pt_touched_apply split: if_splits\<close>)

lemma cl_step_prepare:
  assumes inv: "cl_inv c" and p: "dict_get (cl_parts c) n = Some p" and t: "dict_get (cl_log c) t \<noteq> None"
    and ok: "dict_ok deltas" and vote: "pt_prepare p t deltas = Inr (v, p')"
  shows "cl_step c (c\<lparr>cl_parts := dict_set n p' (cl_parts c)\<rparr>)"
    and "v = YES \<Longrightarrow> pt_touched p' t"
proof -
  have "pt_inv p" using inv p by (simp add: cl_inv_def)
  then have "pt_inv p'" using ok vote by (rule pt_inv_prepare)
  then show "cl_step c (c\<lparr>cl_parts := dict_set n p' (cl_parts c)\<rparr>)"
  proof (rule cl_step_part [OF inv p])
    show "dict_get (pt_prepared p') u \<noteq> None \<Longrightarrow> dict_get (cl_log c) u \<noteq> None" for u
      using vote inv p t by (cases rule: pt_prepare_cases)
        (auto simp: cl_inv_def pt_promised_def split: if_splits)
    show "dict_get (pt_decided p') u = Some d \<Longrightarrow> co_decision_of c u = Some d" for u d
      using vote inv p by (cases rule: pt_prepare_cases) (auto simp: cl_inv_def pt_promised_def)
    show "pt_touched p u \<Longrightarrow> pt_touched p' u" for u
      using vote by (cases rule: pt_prepare_cases) (auto simp: pt_touched_def pt_promised_def)
  qed
  show "v = YES \<Longrightarrow> pt_touched p' t"
    using vote by (cases rule: pt_prepare_cases) (auto simp: pt_touched_def pt_promised_def)
qed


lemma cl_step_log_decision:
  assumes inv: "cl_inv c" and r: "dict_get (cl_log c) t = Some r"
    and all: "d = COMMIT \<Longrightarrow> \<forall>n \<in> set (tr_participants r). touched c t n"
  shows "cl_step c (log_decision c r t d)"
proof (cases "tr_decision r = None")
  case True
  then have "cl_step c (c\<lparr>cl_log := dict_set t (r\<lparr>tr_decision := Some d\<rparr>) (cl_log c)\<rparr>)"
    by (intro cl_step_log [OF inv r]) (use all in auto)
  with True show ?thesis by (simp add: log_decision_def)
qed (use cl_step_refl [OF inv] in \<open>auto simp: log_decision_def\<close>)

lemma co_decision_of_logged:
  "dict_get (cl_log c) t = Some r \<Longrightarrow>
   co_decision_of (log_decision c r t d) t = Some (case tr_decision r of None \<Rightarrow> d | Some d' \<Rightarrow> d')"
  by (auto simp: log_decision_def co_decision_of_def split: option.splits)

lemma log_of_logged:
  "dict_get (cl_log c) t = Some r \<Longrightarrow> dict_get (cl_log (log_decision c r t d)) t =
     Some (if tr_decision r = None then r\<lparr>tr_decision := Some d\<rparr> else r)"
  by (simp add: log_decision_def)

definition step_ok :: "cluster \<Rightarrow> cluster \<times> outcome \<Rightarrow> bool" where
  "step_ok c res \<longleftrightarrow> cl_step c (fst res) \<and> outcome_ok (fst res) (snd res)"

lemma step_okI: "cl_step c c' \<Longrightarrow> (cl_le c c' \<Longrightarrow> outcome_ok c' out) \<Longrightarrow> step_ok c (c', out)"
  by (simp add: step_ok_def cl_step_def)

lemma maybe_crash_cl_step:
  "cl_inv c \<Longrightarrow> maybe_crash c point = Some c' \<Longrightarrow> cl_step c c'"
  by (auto simp: maybe_crash_def split: if_splits)

lemma enter_broadcast_ok:
  "dict_get (cl_log c) t = Some r \<Longrightarrow> tr_decision r \<noteq> None \<Longrightarrow> cont_ok c t k \<Longrightarrow>
   outcome_ok c (enter_broadcast r t k)"
  by (auto simp: enter_broadcast_def outcome_ok_def sending_def)

lemma step_ok_vote:
  assumes inv: "cl_inv c" and th: "thread_ok c (Voting t ((n, deltas) # plan) votes)"
  shows "step_ok c (thread_step c (Voting t ((n, deltas) # plan) votes))"
proof -
  from th obtain r where r: "dict_get (cl_log c) t = Some r"
    and names: "set (tr_participants r) = insert n (set (dict_keys plan)) \<union> set (dict_keys votes)"
    and ok: "dict_ok deltas" and rest: "\<forall>deltas \<in> set (map snd plan). dict_ok deltas"
    and yes: "\<forall>m. dict_get votes m = Some YES \<longrightarrow> touched c t m"
    by (simp only: thread_ok.simps) auto
  from inv r names obtain p where p: "dict_get (cl_parts c) n = Some p"
    unfolding cl_inv_def by blast
  have next_ok: "thread_ok c' (Voting t plan (dict_set n v votes))"
    if le: "cl_le c c'" and v: "v = YES \<Longrightarrow> touched c' t n" for c' v
  proof -
    obtain r' where "dict_get (cl_log c') t = Some r'" "tr_participants r' = tr_participants r"
      using le r by (rule cl_le_log)
    moreover have "set (dict_keys (dict_set n v votes)) = insert n (set (dict_keys votes))"
      by (simp add: dom_map_of_conv_image_fst [symmetric] dom_def) auto
    moreover have "\<forall>m. dict_get (dict_set n v votes) m = Some YES \<longrightarrow> touched c' t m"
      using v yes touched_le [OF le] by auto
    ultimately show ?thesis using names rest by (simp only: thread_ok.simps) auto
  qed
  show ?thesis
  proof (cases "pt_prepare p t deltas")
    case (Inl e)
    then have "e = NodeDownError"
      by (auto simp: pt_prepare_def pt_check_up_def Let_def split: if_splits)
    with Inl p next_ok [of c NO] show ?thesis
      by (auto simp: step_ok_def cl_step_refl [OF inv] outcome_ok_def)
  next
    case (Inr res)
    obtain v p' where res: "res = (v, p')" by fastforce
    note prep = cl_step_prepare [OF inv p _ ok Inr [unfolded res]]
    show ?thesis
      using Inr p r prep next_ok [of "c\<lparr>cl_parts := dict_set n p' (cl_parts c)\<rparr>" v]
      by (auto simp: step_ok_def res cl_step_def outcome_ok_def touched_def)
  qed
qed

lemma step_ok_count:
  assumes inv: "cl_inv c" and th: "thread_ok c (Voting t [] votes)"
  shows "step_ok c (thread_step c (Voting t [] votes))"
proof (cases "maybe_crash c BEFORE_DECISION_LOGGED")
  case None
  from th obtain r where r: "dict_get (cl_log c) t = Some r"
    and names: "set (tr_participants r) = set (dict_keys votes)"
    and yes: "\<forall>m. dict_get votes m = Some YES \<longrightarrow> touched c t m"
    by auto
  have "touched c t n" if all: "\<forall>v \<in> set (map snd votes). v = YES" and n: "n \<in> set (tr_participants r)" for n
  proof -
    from n names obtain v where "dict_get votes n = Some v" by (metis dict_get_None option.exhaust)
    moreover from this all have "v = YES" by (auto dest!: map_of_SomeD)
    ultimately show ?thesis using yes by blast
  qed
  with None r show ?thesis
    by (auto simp: step_ok_def cl_step_refl [OF inv] outcome_ok_def Let_def)
qed (auto simp: step_ok_def outcome_ok_def Let_def maybe_crash_cl_step [OF inv])

lemma step_ok_deliver:
  assumes inv: "cl_inv c" and th: "sending c t (n # ns) k"
  shows "step_ok c (thread_step c (Broadcasting t (n # ns) k))"
proof -
  from th obtain r d where r: "dict_get (cl_log c) t = Some r" and d: "tr_decision r = Some d"
    and ns: "n \<in> set (tr_participants r)" "set ns \<subseteq> set (tr_participants r)" and k: "cont_ok c t k"
    by (auto simp: sending_def)
  from inv r ns obtain p where p: "dict_get (cl_parts c) n = Some p"
    unfolding cl_inv_def by blast
  have dec: "co_decision_of c t = Some d" using r d by (simp add: co_decision_of_def)
  have commit: "dict_get (pt_prepared p) t \<noteq> None \<or> dict_get (pt_decided p) t = Some COMMIT" if "d = COMMIT"
  proof -
    from inv r d ns that have "touched c t n" unfolding cl_inv_def by blast
    with inv p dec that show ?thesis
      by (auto simp: touched_def pt_touched_def cl_inv_def)
  qed
  have deliver: "deliver p t (Some d) = (if pt_down p then Inl NodeDownError else Inr (pt_apply_locked p t d))"
    using commit by (cases d) (auto simp: deliver_def pt_commit_def pt_abort_def pt_check_up_def)
  note step = cl_step_apply [OF inv p dec]
  have "sending c t (n # ns) k" "sending c t ns k" using th by (auto simp: sending_def)
  with r d p deliver step show ?thesis
    by (auto simp: step_ok_def cl_step_refl [OF inv] inv outcome_ok_def cl_step_def intro: sending_le)
qed


lemma step_ok_decide:
  assumes inv: "cl_inv c" and th: "thread_ok c (Deciding t d)"
  shows "step_ok c (thread_step c (Deciding t d))"
proof -
  from th obtain r where r: "dict_get (cl_log c) t = Some r"
    and all: "d = COMMIT \<Longrightarrow> \<forall>n \<in> set (tr_participants r). touched c t n"
    by auto
  show ?thesis
    using cl_step_log_decision [OF inv r, of d] all r co_decision_of_logged [OF r, of d]
    by (auto simp: step_ok_def outcome_ok_def)
qed

lemma step_ok_ack:
  assumes inv: "cl_inv c" and th: "sending c t (n # ns) k"
  shows "step_ok c (thread_step c (Acking t n ns k))"
proof -
  from th obtain r where r: "dict_get (cl_log c) t = Some r" by (auto simp: sending_def)
  have step: "cl_step c (c\<lparr>cl_log := dict_set t (r\<lparr>tr_acked := insert n (tr_acked r)\<rparr>) (cl_log c)\<rparr>)"
    by (rule cl_step_log [OF inv r]) simp_all
  moreover have "sending c t ns k" using th by (auto simp: sending_def)
  ultimately show ?thesis
    using r sending_le by (auto simp: step_ok_def outcome_ok_def cl_step_def)
qed

lemma step_ok_redo:
  assumes inv: "cl_inv c" and th: "logged c (t # rest)"
  shows "step_ok c (thread_step c (Recovering (t # rest) resolved))"
proof -
  from th obtain r where r: "dict_get (cl_log c) t = Some r" by (auto simp: logged_def)
  let ?c = "log_decision c r t ABORT"
  let ?r = "if tr_decision r = None then r\<lparr>tr_decision := Some ABORT\<rparr> else r"
  have step: "cl_step c ?c" by (rule cl_step_log_decision [OF inv r]) simp
  then have rest: "logged ?c rest" using th logged_le by (auto simp: cl_step_def logged_def)
  have "outcome_ok ?c (enter_broadcast ?r t (ResumeRecover rest resolved))"
    by (rule enter_broadcast_ok) (use log_of_logged [OF r, of ABORT] rest in \<open>auto simp: cont_ok_def\<close>)
  moreover have "outcome_ok ?c (Next (Recovering rest resolved))" using rest by (simp add: outcome_ok_def)
  ultimately show ?thesis using step r by (simp add: step_ok_def Let_def)
qed

lemma thread_step_ok:
  assumes inv: "cl_inv c" and th: "thread_ok c th"
  shows "step_ok c (thread_step c th)"
proof (cases th)
  case (Voting t plan votes)
  show ?thesis
  proof (cases plan)
    case Nil
    with th Voting show ?thesis using step_ok_count [OF inv] by simp
  next
    case (Cons nd plan')
    with th Voting show ?thesis using step_ok_vote [OF inv] by (cases nd) simp
  qed
next
  case (Decided t d)
  with th have d: "co_decision_of c t = Some d" by simp
  then obtain r where r: "dict_get (cl_log c) t = Some r" "tr_decision r = Some d"
    by (auto simp: co_decision_of_def split: option.splits)
  with d have "outcome_ok c (enter_broadcast r t (ReturnDecision d))"
    by (intro enter_broadcast_ok) (auto simp: cont_ok_def)
  moreover have "outcome_ok c' (Raised NodeDownError)" for c' by (simp add: outcome_ok_def)
  ultimately show ?thesis using Decided r
    by (simp add: step_ok_def cl_step_refl [OF inv] maybe_crash_cl_step [OF inv] split: option.split)
next
  case (Broadcasting t ns k)
  show ?thesis
  proof (cases ns)
    case Nil
    from th Broadcasting have "cont_ok c t k" by (simp add: sending_def)
    with Nil Broadcasting show ?thesis
      by (auto simp: step_ok_def cl_step_refl [OF inv] outcome_ok_def resume_def cont_ok_def split: cont.split)
  next
    case (Cons n ns')
    with th Broadcasting show ?thesis using step_ok_deliver [OF inv] by simp
  qed
next
  case (Recovering ts resolved)
  show ?thesis
  proof (cases ts)
    case Nil
    with Recovering show ?thesis by (simp add: step_ok_def cl_step_refl [OF inv] outcome_ok_def)
  next
    case (Cons t rest)
    with th Recovering show ?thesis using step_ok_redo [OF inv] by simp
  qed
next
  case (PListing n)
  with th obtain p where p: "dict_get (cl_parts c) n = Some p" by auto
  then have "logged c (pt_in_doubt p)"
    using inv by (auto simp: cl_inv_def logged_def pt_in_doubt_def dict_get_None)
  with PListing p show ?thesis
    by (auto simp: step_ok_def cl_step_refl [OF inv] outcome_ok_def)
next
  case (PRecovering n ts)
  show ?thesis
  proof (cases ts)
    case Nil
    with PRecovering show ?thesis by (simp add: step_ok_def cl_step_refl [OF inv] outcome_ok_def)
  next
    case (Cons t rest)
    with th PRecovering obtain r where r: "dict_get (cl_log c) t = Some r" by (auto simp: logged_def)
    have step: "cl_step c (log_decision c r t ABORT)" by (rule cl_step_log_decision [OF inv r]) simp
    then have "thread_ok (log_decision c r t ABORT) (PRecovering n rest)"
      using th PRecovering Cons by (intro thread_ok_le [of c "log_decision c r t ABORT"]) (auto simp: cl_step_def logged_def)
    with step r Cons PRecovering co_decision_of_logged [OF r, of ABORT] show ?thesis
      by (auto simp: step_ok_def cl_step_refl [OF inv] outcome_ok_def co_decision_for_def)
  qed
next
  case (PApplying n t d ts)
  with th obtain p where p: "dict_get (cl_parts c) n = Some p" "co_decision_of c t = Some d" by auto
  note step = cl_step_apply [OF inv p]
  moreover from this have "thread_ok (c\<lparr>cl_parts := dict_set n (pt_apply_locked p t d) (cl_parts c)\<rparr>)
      (PRecovering n ts)"
    using th PApplying by (intro thread_ok_le [OF conjunct2 [OF step [unfolded cl_step_def]]]) simp
  ultimately show ?thesis using p PApplying by (auto simp: step_ok_def outcome_ok_def)
qed (use th step_ok_decide [OF inv] step_ok_ack [OF inv] in auto)


section \<open>Reachable systems\<close>

definition tpc_inv :: "tpc_sys \<Rightarrow> bool" where
  "tpc_inv s \<longleftrightarrow> cl_inv (ts_cluster s) \<and>
     (\<forall>i out. ts_calls s i = Some out \<longrightarrow> outcome_ok (ts_cluster s) out)"

lemma tpc_invD:
  "tpc_inv \<lparr>ts_cluster = c, ts_calls = f\<rparr> \<Longrightarrow> cl_inv c"
  "tpc_inv \<lparr>ts_cluster = c, ts_calls = f\<rparr> \<Longrightarrow> f i = Some out \<Longrightarrow> outcome_ok c out"
  by (auto simp: tpc_inv_def)

definition tpc_good :: "tpc_sys \<Rightarrow> tpc_sys \<Rightarrow> bool" where
  "tpc_good s s' \<longleftrightarrow> tpc_inv s' \<and> cl_le (ts_cluster s) (ts_cluster s')"

lemma tpc_inv_env:
  "tpc_inv \<lparr>ts_cluster = c, ts_calls = f\<rparr> \<Longrightarrow> cl_step c c' \<Longrightarrow>
   tpc_good \<lparr>ts_cluster = c, ts_calls = f\<rparr> \<lparr>ts_cluster = c', ts_calls = f\<rparr>"
  by (auto simp: tpc_good_def tpc_inv_def cl_step_def intro: outcome_ok_le)

lemma tpc_inv_call:
  "tpc_inv \<lparr>ts_cluster = c, ts_calls = f\<rparr> \<Longrightarrow> step_ok c (c', out) \<Longrightarrow>
   tpc_good \<lparr>ts_cluster = c, ts_calls = f\<rparr> \<lparr>ts_cluster = c', ts_calls = f(i \<mapsto> out)\<rparr>"
  by (auto simp: tpc_good_def tpc_inv_def cl_step_def step_ok_def intro: outcome_ok_le)

lemma cl_step_flag_part:
  assumes "cl_inv c" "dict_get (cl_parts c) n = Some p"
  shows "cl_step c (c\<lparr>cl_parts := dict_set n (p\<lparr>pt_down := b\<rparr>) (cl_parts c)\<rparr>)"
    and "cl_step c (c\<lparr>cl_parts := dict_set n (p\<lparr>pt_crash_after_vote := b\<rparr>) (cl_parts c)\<rparr>)"
  using assms by (auto intro!: cl_step_part simp: cl_inv_def pt_touched_def)

lemma co_start_run_ok:
  assumes inv: "cl_inv c" and ok: "\<forall>deltas \<in> set (map snd plan). dict_ok deltas"
  shows "step_ok c (co_start_run c t plan)"
proof -
  let ?r = "\<lparr>tr_txid = t, tr_participants = dict_keys plan, tr_decision = None, tr_acked = {}\<rparr>"
  let ?c = "c\<lparr>cl_log := dict_set t ?r (cl_log c)\<rparr>"
  have "step_ok c (?c, Next (Voting t plan []))"
    if "dict_get (cl_log c) t = None" "\<forall>n \<in> set (dict_keys plan). dict_get (cl_parts c) n \<noteq> None"
    using cl_step_new_record [OF inv, of t ?r] that ok by (simp add: step_ok_def outcome_ok_def)
  moreover have "step_ok c (c, Raised e)" if "e \<in> {ValidationError, NodeDownError, ConflictError, NotFoundError}" for e
    using that by (simp add: step_ok_def cl_step_refl [OF inv] outcome_ok_def)
  ultimately show ?thesis by (simp add: co_start_run_def)
qed

lemma tpc_step_good: "tpc_step s s' \<Longrightarrow> tpc_inv s \<Longrightarrow> tpc_good s s'"
proof (induction rule: tpc_step.induct)
  case (register n d fl p c f)
  from register have "pt_inv p" by (intro participant_new_inv) auto
  moreover from register have "pt_name p = n" "pt_prepared p = []" "pt_decided p = []"
    by (auto simp: participant_new_def split: if_splits)
  ultimately show ?case
    using register cl_step_new_part [OF tpc_invD(1) [OF register(5)], of n p]
    by (intro tpc_inv_env [OF register(5)]) (simp add: co_register_def)
next
  case (part_crash c n p f)
  then show ?case
    using tpc_inv_env [OF part_crash(2)] cl_step_flag_part(1) [OF tpc_invD(1) [OF part_crash(2)]]
    by (simp add: pt_crash_def set_part_def)
next
  case (part_arm c n p f)
  then show ?case
    using tpc_inv_env [OF part_arm(2)] cl_step_flag_part(2) [OF tpc_invD(1) [OF part_arm(2)]]
    by (simp add: pt_arm_crash_def set_part_def)
next
  case (co_arm c f x)
  then show ?case using tpc_invD(1) by (intro tpc_inv_env [OF co_arm]) (simp add: co_crash_at_def)
next
  case (crash c f)
  then show ?case using tpc_invD(1) by (intro tpc_inv_env [OF crash]) (simp add: co_crash_def)
next
  case (inquire c t d c' f)
  then have "cl_step c c'"
    using cl_step_log_decision [OF tpc_invD(1) [OF inquire(2)], of t _ ABORT] cl_step_refl tpc_invD(1)
    by (auto simp: co_decision_for_def split: if_splits option.splits)
  then show ?case by (rule tpc_inv_env [OF inquire(2)])
next
  case (call_run f i plan c t c' out)
  then have "step_ok c (c', out)" using co_start_run_ok [OF tpc_invD(1)] by metis
  then show ?case using call_run tpc_inv_call by blast
next
  case (call_recover f i c c' out)
  then have "step_ok c (c', out)"
    using tpc_invD(1) by (auto simp: co_start_recover_def Let_def step_ok_def outcome_ok_def logged_def
        dict_get_None)
  then show ?case using call_recover tpc_inv_call by blast
next
  case (call_precover f i c n p c' out)
  then have "step_ok c (c', out)"
    using tpc_invD(1) cl_step_flag_part(1) by (auto simp: pt_start_recover_def step_ok_def outcome_ok_def)
  then show ?case using call_precover tpc_inv_call by blast
next
  case (advance f i th c c' out)
  then have "outcome_ok c (Next th)" "cl_inv c" using tpc_invD by blast+
  then have "thread_ok c th" "cl_inv c" by (simp_all add: outcome_ok_def)
  then have "step_ok c (c', out)" using advance thread_step_ok by metis
  then show ?case using advance tpc_inv_call by blast
qed

lemma tpc_reachable_inv: "tpc_reachable s \<Longrightarrow> tpc_inv s"
  unfolding tpc_reachable_def
proof (induction rule: rtranclp_induct)
  case base
  show ?case by (simp add: tpc_inv_def tpc_init_def cl_inv_def coordinator_new_def)
next
  case (step s s')
  then show ?case using tpc_step_good by (auto simp: tpc_good_def)
qed

lemma cl_le_trans:
  assumes "cl_le a b" "cl_le b c"
  shows "cl_le a c"
proof -
  have "\<exists>r'. dict_get (cl_log c) t = Some r' \<and> tr_participants r' = tr_participants r \<and>
      (tr_decision r \<noteq> None \<longrightarrow> tr_decision r' = tr_decision r)"
    if r: "dict_get (cl_log a) t = Some r" for t r
  proof -
    obtain r1 where 1: "dict_get (cl_log b) t = Some r1"
      "tr_participants r1 = tr_participants r" "tr_decision r \<noteq> None \<Longrightarrow> tr_decision r1 = tr_decision r"
      using assms(1) r by (rule cl_le_log) blast
    obtain r2 where "dict_get (cl_log c) t = Some r2"
      "tr_participants r2 = tr_participants r1" "tr_decision r1 \<noteq> None \<Longrightarrow> tr_decision r2 = tr_decision r1"
      using assms(2) 1(1) by (rule cl_le_log) blast
    with 1 show ?thesis by auto
  qed
  with assms show ?thesis by (simp add: cl_le_def)
qed

lemma tpc_steps_good: "tpc_step\<^sup>*\<^sup>* s s' \<Longrightarrow> tpc_inv s \<Longrightarrow> tpc_good s s'"
proof (induction rule: rtranclp_induct)
  case (step s' s'')
  then show ?case using tpc_step_good by (auto simp: tpc_good_def intro: cl_le_trans)
qed (simp add: tpc_good_def)

lemma tpc_reachable_parts:
  assumes "tpc_reachable s" "dict_get (cl_parts (ts_cluster s)) n = Some p"
  shows "pt_inv p"
    and "dict_get (pt_decided p) t = Some d \<Longrightarrow> co_decision_of (ts_cluster s) t = Some d"
  using tpc_reachable_inv [OF assms(1)] assms(2) by (auto simp: tpc_inv_def cl_inv_def)


section \<open>Schedules\<close>

text \<open>One event of a schedule, and the system that a schedule leads to.\<close>

datatype tpc_event =
    Register string "(string, int) dict" int
  | CrashPart string
  | ArmPart string
  | ArmCoordinator "crash_point option"
  | CrashCoordinator
  | CallRun nat string tx_plan
  | CallRecover nat
  | CallPartRecover nat string
  | Advance nat

definition plan_ok :: "tx_plan \<Rightarrow> bool" where
  "plan_ok plan \<longleftrightarrow> dict_ok plan \<and> (\<forall>deltas \<in> set (map snd plan). dict_ok deltas)"

definition with_call :: "tpc_sys \<Rightarrow> nat \<Rightarrow> cluster \<times> outcome \<Rightarrow> tpc_sys" where
  "with_call s i res = \<lparr>ts_cluster = fst res, ts_calls = (ts_calls s)(i \<mapsto> snd res)\<rparr>"

fun tpc_exec :: "tpc_event \<Rightarrow> tpc_sys \<Rightarrow> tpc_sys option" where
  "tpc_exec (Register n d fl) s =
     (case participant_new n d fl of
        Inl e \<Rightarrow> None
      | Inr p \<Rightarrow> if dict_ok d \<and> (\<forall>v \<in> set (map snd d). fl \<le> v) \<and> dict_get (cl_parts (ts_cluster s)) n = None
                then Some (s\<lparr>ts_cluster := co_register (ts_cluster s) p\<rparr>) else None)"
| "tpc_exec (CrashPart n) s =
     map_option (\<lambda>p. s\<lparr>ts_cluster := set_part (ts_cluster s) n (pt_crash p)\<rparr>)
       (dict_get (cl_parts (ts_cluster s)) n)"
| "tpc_exec (ArmPart n) s =
     map_option (\<lambda>p. s\<lparr>ts_cluster := set_part (ts_cluster s) n (pt_arm_crash p)\<rparr>)
       (dict_get (cl_parts (ts_cluster s)) n)"
| "tpc_exec (ArmCoordinator x) s = Some (s\<lparr>ts_cluster := co_crash_at (ts_cluster s) x\<rparr>)"
| "tpc_exec CrashCoordinator s = Some (s\<lparr>ts_cluster := co_crash (ts_cluster s)\<rparr>)"
| "tpc_exec (CallRun i t plan) s =
     (if ts_calls s i = None \<and> plan_ok plan
      then Some (with_call s i (co_start_run (ts_cluster s) t plan)) else None)"
| "tpc_exec (CallRecover i) s =
     (if ts_calls s i = None then Some (with_call s i (co_start_recover (ts_cluster s))) else None)"
| "tpc_exec (CallPartRecover i n) s =
     (if ts_calls s i = None \<and> dict_get (cl_parts (ts_cluster s)) n \<noteq> None
      then Some (with_call s i (pt_start_recover (ts_cluster s) n)) else None)"
| "tpc_exec (Advance i) s =
     (case ts_calls s i of
        Some (Next th) \<Rightarrow> Some (with_call s i (thread_step (ts_cluster s) th)) | _ \<Rightarrow> None)"

fun tpc_exec_all :: "tpc_event list \<Rightarrow> tpc_sys \<Rightarrow> tpc_sys option" where
  "tpc_exec_all [] s = Some s"
| "tpc_exec_all (e # es) s = (case tpc_exec e s of None \<Rightarrow> None | Some s' \<Rightarrow> tpc_exec_all es s')"

lemma tpc_exec_step: "tpc_exec e s = Some s' \<Longrightarrow> tpc_step s s'"
proof (cases s)
  case (fields c f)
  assume run: "tpc_exec e s = Some s'"
  show ?thesis
  proof (cases e)
    case (CallRun i t plan)
    with run fields show ?thesis
      by (auto simp: with_call_def plan_ok_def prod_eq_iff split: if_splits intro!: tpc_step.call_run)
  next
    case (CallRecover i)
    with run fields show ?thesis
      by (auto simp: with_call_def split: if_splits intro!: tpc_step.call_recover)
  next
    case (CallPartRecover i n)
    with run fields show ?thesis
      by (auto simp: with_call_def split: if_splits intro!: tpc_step.call_precover)
  next
    case (Advance i)
    with run fields show ?thesis
      by (auto simp: with_call_def split: option.splits outcome.splits intro!: tpc_step.advance)
  next
    case (Register n d fl)
    with run fields show ?thesis
      by (auto split: sum.splits if_splits intro!: tpc_step.register)
  qed (use run fields in \<open>auto intro: tpc_step.intros\<close>)
qed

lemma tpc_exec_all_reachable: "tpc_exec_all es s = Some s' \<Longrightarrow> tpc_reachable s \<Longrightarrow> tpc_reachable s'"
proof (induction es arbitrary: s)
  case (Cons e es)
  then obtain s1 where "tpc_exec e s = Some s1" "tpc_exec_all es s1 = Some s'"
    by (auto split: option.splits)
  with Cons show ?case
    unfolding tpc_reachable_def by (meson rtranclp.rtrancl_into_rtrancl tpc_exec_step)
qed simp

lemma tpc_reachable_run: "tpc_exec_all es tpc_init = Some s \<Longrightarrow> tpc_reachable s"
  by (erule tpc_exec_all_reachable) (simp add: tpc_reachable_def)

definition demo_schedule :: "tpc_event list" where
  "demo_schedule =
     [Register ''orders'' [(''alice'', 100)] 0, Register ''payments'' [(''bob'', 100)] 0,
      CallRun 0 ''tx-1'' [(''orders'', [(''alice'', -30)]), (''payments'', [(''bob'', 30)])]] @
     replicate 10 (Advance 0) @
     [CallRun 1 ''tx-2'' [(''orders'', [(''alice'', -10)]), (''payments'', [(''bob'', 10)])]] @
     replicate 2 (Advance 1)"

text \<open>The system after the schedule: \<open>tx-1\<close> committed everywhere, \<open>tx-2\<close> in doubt everywhere.\<close>

definition demo_sys :: tpc_sys where
  "demo_sys = (case tpc_exec_all demo_schedule tpc_init of Some s \<Rightarrow> s | None \<Rightarrow> tpc_init)"

lemma demo_runs: "tpc_exec_all demo_schedule tpc_init \<noteq> None"
  by code_simp

lemma demo_reachable: "tpc_reachable demo_sys"
proof -
  obtain s where s: "tpc_exec_all demo_schedule tpc_init = Some s" using demo_runs by blast
  then have "demo_sys = s" by (simp add: demo_sys_def)
  with tpc_reachable_run [OF s] show ?thesis by simp
qed


section \<open>Atomic commitment\<close>




text \<open>C6. A commit is unanimous and final: once the log says COMMIT, then from that moment on, in
  every state the system can go to, the log still says COMMIT and every participant of the
  transaction holds the prepare record of its YES vote or has committed.\<close>

theorem tpc_commit_unanimous:
  assumes "tpc_reachable s" and "dict_get (cl_log (ts_cluster s)) t = Some r"
    and "tr_decision r = Some COMMIT" and "n \<in> set (tr_participants r)" and "tpc_step\<^sup>*\<^sup>* s s'"
  shows "co_decision_of (ts_cluster s') t = Some COMMIT \<and>
    (\<exists>p. dict_get (cl_parts (ts_cluster s')) n = Some p \<and>
       (dict_get (pt_prepared p) t \<noteq> None \<or> dict_get (pt_decided p) t = Some COMMIT))"
proof -
  have inv: "tpc_inv s" using assms(1) by (rule tpc_reachable_inv)
  then have "tpc_good s s'" using assms(5) tpc_steps_good by blast
  then have le: "cl_le (ts_cluster s) (ts_cluster s')" and inv': "cl_inv (ts_cluster s')"
    by (auto simp: tpc_good_def tpc_inv_def)
  have d: "co_decision_of (ts_cluster s') t = Some COMMIT"
    using le by (rule co_decision_of_le) (use assms in \<open>simp add: co_decision_of_def\<close>)
  from inv assms have "touched (ts_cluster s) t n" by (auto simp: tpc_inv_def cl_inv_def)
  with le have "touched (ts_cluster s') t n" by (rule touched_le)
  then obtain p where p: "dict_get (cl_parts (ts_cluster s')) n = Some p" "pt_touched p t"
    by (auto simp: touched_def)
  moreover have "dict_get (pt_decided p) t \<noteq> None \<Longrightarrow> dict_get (pt_decided p) t = Some COMMIT"
    using inv' p d by (auto simp: cl_inv_def)
  ultimately show ?thesis using d by (auto simp: pt_touched_def)
qed

theorem tpc_commit_unanimous_witness:
  "co_decision_of (ts_cluster demo_sys) ''tx-1'' = Some COMMIT \<and>
   (\<exists>p. dict_get (cl_parts (ts_cluster demo_sys)) ''payments'' = Some p \<and> pt_get p ''bob'' = 130)"
proof -
  let ?r = "the (dict_get (cl_log (ts_cluster demo_sys)) ''tx-1'')"
  have r: "dict_get (cl_log (ts_cluster demo_sys)) ''tx-1'' = Some ?r"
    "tr_decision ?r = Some COMMIT" "''payments'' \<in> set (tr_participants ?r)"
    by code_simp+
  have "\<exists>p. dict_get (cl_parts (ts_cluster demo_sys)) ''payments'' = Some p \<and> pt_get p ''bob'' = 130"
    by (rule exI [of _ "the (dict_get (cl_parts (ts_cluster demo_sys)) ''payments'')"]) code_simp
  with tpc_commit_unanimous [OF demo_reachable r] show ?thesis by simp
qed

text \<open>C35. Lock discipline: in every reachable state the keys a participant keeps locked are exactly
  the keys of the transactions it is in doubt about, each held by its own transaction, so that two
  transactions in doubt never share a key; and no value stored, nor any waiting to be applied, is
  below the participant's floor.\<close>

theorem tpc_lock_discipline:
  assumes "tpc_reachable s" and "dict_get (cl_parts (ts_cluster s)) n = Some p"
  shows "(\<forall>k t. dict_get (pt_locks p) k = Some t \<longleftrightarrow>
           (\<exists>vals. dict_get (pt_prepared p) t = Some vals \<and> k \<in> set (dict_keys vals))) \<and>
         (\<forall>t vals k v. dict_get (pt_prepared p) t = Some vals \<longrightarrow> (k, v) \<in> set vals \<longrightarrow> pt_floor p \<le> v) \<and>
         (\<forall>k v. dict_get (pt_data p) k = Some v \<longrightarrow> pt_floor p \<le> v)"
  using tpc_reachable_parts(1) [OF assms] unfolding pt_inv_def by fastforce

theorem tpc_lock_discipline_witness:
  "\<exists>p. dict_get (cl_parts (ts_cluster demo_sys)) ''orders'' = Some p \<and> pt_in_doubt p = [''tx-2''] \<and>
     dict_get (pt_locks p) ''alice'' = Some ''tx-2'' \<and> pt_floor p \<le> 60"
proof -
  let ?p = "the (dict_get (cl_parts (ts_cluster demo_sys)) ''orders'')"
  have p: "dict_get (cl_parts (ts_cluster demo_sys)) ''orders'' = Some ?p" by code_simp
  have t: "dict_get (pt_prepared ?p) ''tx-2'' = Some [(''alice'', 60)]" "pt_in_doubt ?p = [''tx-2'']"
    by code_simp+
  note D = tpc_lock_discipline [OF demo_reachable p]
  have "dict_get (pt_locks ?p) ''alice'' = Some ''tx-2''" using D t(1) by auto
  moreover have "pt_floor ?p \<le> 60" using D t(1) by fastforce
  ultimately show ?thesis using p t by blast
qed


section \<open>Every call returns, and recovery delivers\<close>

text \<open>Running a call alone, for at most the given number of critical sections.\<close>

fun run_call :: "nat \<Rightarrow> cluster \<Rightarrow> outcome \<Rightarrow> cluster \<times> outcome" where
  "run_call (Suc k) c (Next th) = (case thread_step c th of (c', out) \<Rightarrow> run_call k c' out)"
| "run_call _ c out = (c, out)"

definition in_progress :: "outcome \<Rightarrow> bool" where
  "in_progress out \<longleftrightarrow> (case out of Next _ \<Rightarrow> True | _ \<Rightarrow> False)"

definition tx_width :: "cluster \<Rightarrow> string \<Rightarrow> nat" where
  "tx_width c t = (case dict_get (cl_log c) t of None \<Rightarrow> 0 | Some r \<Rightarrow> length (tr_participants r))"

definition redo_cost :: "cluster \<Rightarrow> string list \<Rightarrow> nat" where
  "redo_cost c ts = (\<Sum>t\<leftarrow>ts. 2 * tx_width c t + 3) + 1"

definition cont_cost :: "cluster \<Rightarrow> cont \<Rightarrow> nat" where
  "cont_cost c k = (case k of ReturnDecision d \<Rightarrow> 0 | ResumeRecover rest resolved \<Rightarrow> redo_cost c rest)"

text \<open>How many critical sections a call still has at most.\<close>

fun call_cost :: "cluster \<Rightarrow> thread \<Rightarrow> nat" where
  "call_cost c (Voting t plan votes) = length plan + 2 * tx_width c t + 5"
| "call_cost c (Deciding t d) = 2 * tx_width c t + 4"
| "call_cost c (Decided t d) = 2 * tx_width c t + 3"
| "call_cost c (Broadcasting t ns k) = 2 * length ns + cont_cost c k + 1"
| "call_cost c (Acking t n ns k) = 2 * length ns + cont_cost c k + 2"
| "call_cost c (Recovering ts resolved) = redo_cost c ts"
| "call_cost c (PListing n) =
     (case dict_get (cl_parts c) n of None \<Rightarrow> 1 | Some p \<Rightarrow> 2 * length (pt_in_doubt p) + 2)"
| "call_cost c (PRecovering n ts) = 2 * length ts + 1"
| "call_cost c (PApplying n t d ts) = 2 * length ts + 2"

lemma tx_width_le: "cl_le c c' \<Longrightarrow> dict_get (cl_log c) t \<noteq> None \<Longrightarrow> tx_width c' t = tx_width c t"
  unfolding tx_width_def cl_le_def by fastforce

lemma redo_cost_le:
  assumes "cl_le c c'" "logged c ts"
  shows "redo_cost c' ts = redo_cost c ts"
proof -
  have "map (\<lambda>t. 2 * tx_width c' t + 3) ts = map (\<lambda>t. 2 * tx_width c t + 3) ts"
    using assms tx_width_le by (auto simp: logged_def)
  then show ?thesis by (simp only: redo_cost_def)
qed

lemma cont_cost_le: "cl_le c c' \<Longrightarrow> cont_ok c t k \<Longrightarrow> cont_cost c' k = cont_cost c k"
  by (auto simp: cont_cost_def cont_ok_def redo_cost_le split: cont.splits)

lemma thread_step_cost:
  assumes inv: "cl_inv c" and th: "thread_ok c th" and step: "thread_step c th = (c', Next th')"
  shows "call_cost c' th' < call_cost c th"
proof -
  have le: "cl_le c c'"
    using thread_step_ok [OF inv th] step by (simp add: step_ok_def cl_step_def)
  show ?thesis
  proof (cases th)
    case (Voting t plan votes)
    with th have "tx_width c' t = tx_width c t" using tx_width_le [OF le] by auto
    then show ?thesis using Voting step
      by (cases plan) (auto simp: Let_def split: option.splits sum.splits if_splits)
  next
    case (Deciding t d)
    with th have "tx_width c' t = tx_width c t" using tx_width_le [OF le] by auto
    then show ?thesis using Deciding step by (auto split: option.splits)
  next
    case (Decided t d)
    with th have "dict_get (cl_log c) t \<noteq> None" by (auto simp: co_decision_of_def split: option.splits)
    then show ?thesis using Decided step
      by (auto simp: enter_broadcast_def tx_width_def cont_cost_def split: option.splits if_splits)
  next
    case (Broadcasting t ns k)
    with th have "cont_cost c' k = cont_cost c k" using cont_cost_le [OF le] by (auto simp: sending_def)
    then show ?thesis using Broadcasting step
      by (cases ns) (auto simp: resume_def cont_cost_def split: option.splits sum.splits if_splits cont.splits)
  next
    case (Acking t n ns k)
    with th have "cont_cost c' k = cont_cost c k" using cont_cost_le [OF le] by (auto simp: sending_def)
    then show ?thesis using Acking step by (auto split: option.splits)
  next
    case (Recovering ts resolved)
    then obtain t rest where ts: "ts = t # rest" using step by (cases ts) auto
    with th Recovering have rest: "redo_cost c' rest = redo_cost c rest"
      by (intro redo_cost_le [OF le]) (simp add: logged_def)
    have "redo_cost c ts = 2 * tx_width c t + 3 + redo_cost c rest" by (simp add: ts redo_cost_def)
    then show ?thesis using Recovering step rest
      by (auto simp: ts Let_def enter_broadcast_def cont_cost_def tx_width_def
          split: option.splits if_splits)
  next
    case (PRecovering n ts)
    then show ?thesis using step by (cases ts) (auto split: sum.splits)
  qed (use step in \<open>auto split: option.splits\<close>)
qed

lemma run_call_returns:
  assumes "cl_inv c" "outcome_ok c out" "\<And>th. out = Next th \<Longrightarrow> call_cost c th \<le> k"
  shows "\<not> in_progress (snd (run_call k c out))"
  using assms
proof (induction k arbitrary: c out)
  case 0
  have "0 < call_cost c th" for th
    by (cases th) (auto simp: redo_cost_def split: option.split)
  with 0 have "\<And>th. out \<noteq> Next th" by (metis not_le)
  then show ?case by (cases out) (auto simp: in_progress_def)
next
  case (Suc k)
  show ?case
  proof (cases out)
    case (Next th)
    obtain c' out' where s: "thread_step c th = (c', out')" by fastforce
    from Suc Next have th: "thread_ok c th" by (simp add: outcome_ok_def)
    have "step_ok c (c', out')" using thread_step_ok [OF Suc(2) th] s by simp
    moreover have "call_cost c' th' \<le> k" if "out' = Next th'" for th'
      using thread_step_cost [OF Suc(2) th] s that Suc(4) [OF Next] by fastforce
    ultimately show ?thesis using Suc(1) s Next by (auto simp: step_ok_def cl_step_def)
  qed (simp_all add: in_progress_def)
qed


text \<open>No call hangs: whatever the others have done so far, a \<^verbatim>\<open>run\<close>, a coordinator recovery or a
  participant recovery in progress finishes within \<open>call_cost\<close> of its own critical sections, and it
  never ends in a \<^verbatim>\<open>KeyError\<close> or in the \<^verbatim>\<open>InvalidStateError\<close> of committing what was not prepared.\<close>

theorem tpc_calls_return:
  assumes "tpc_reachable s" and "ts_calls s i = Some (Next th)"
  shows "case run_call (call_cost (ts_cluster s) th) (ts_cluster s) (Next th) of
    (c', out) \<Rightarrow> \<not> in_progress out \<and> out \<notin> {Raised KeyError, Raised InvalidStateError}"
proof -
  have inv: "cl_inv (ts_cluster s)" and ok: "outcome_ok (ts_cluster s) (Next th)"
    using tpc_reachable_inv [OF assms(1)] assms(2) by (auto simp: tpc_inv_def)
  have keeps: "outcome_ok (fst (run_call k c out)) (snd (run_call k c out))"
    if "cl_inv c" "outcome_ok c out" for k c out
    using that
  proof (induction k c out rule: run_call.induct)
    case (1 k c th)
    then have "step_ok c (thread_step c th)" using thread_step_ok by (simp add: outcome_ok_def)
    with 1 show ?case by (cases "thread_step c th") (auto simp: step_ok_def cl_step_def)
  qed simp_all
  let ?r = "run_call (call_cost (ts_cluster s) th) (ts_cluster s) (Next th)"
  have "\<not> in_progress (snd ?r)" using inv ok by (rule run_call_returns) simp
  moreover have "outcome_ok (fst ?r) (snd ?r)" using inv ok by (rule keeps)
  ultimately show ?thesis by (auto simp: outcome_ok_def split: prod.split)
qed

theorem tpc_calls_return_witness:
  "\<exists>th. ts_calls demo_sys 1 = Some (Next th) \<and>
     snd (run_call (call_cost (ts_cluster demo_sys) th) (ts_cluster demo_sys) (Next th)) =
       Returned ''tx-2'' COMMIT"
proof -
  let ?th = "Voting ''tx-2'' [] [(''orders'', YES), (''payments'', YES)]"
  have th: "ts_calls demo_sys 1 = Some (Next ?th)" by code_simp
  have "snd (run_call (call_cost (ts_cluster demo_sys) ?th) (ts_cluster demo_sys) (Next ?th)) =
      Returned ''tx-2'' COMMIT"
    by code_simp
  with th tpc_calls_return [OF demo_reachable th] show ?thesis by blast
qed

text \<open>What a coordinator recovery that runs alone with every participant up has achieved so far.\<close>

definition all_up :: "cluster \<Rightarrow> bool" where
  "all_up c \<longleftrightarrow> (\<forall>n p. dict_get (cl_parts c) n = Some p \<longrightarrow> \<not> pt_down p)"

definition delivered_but :: "cluster \<Rightarrow> string set \<Rightarrow> bool" where
  "delivered_but c ts \<longleftrightarrow> (\<forall>t r. dict_get (cl_log c) t = Some r \<longrightarrow> t \<notin> ts \<longrightarrow> tr_delivered r)"

definition acked_but :: "cluster \<Rightarrow> string \<Rightarrow> string set \<Rightarrow> bool" where
  "acked_but c t ns \<longleftrightarrow> (\<exists>r. dict_get (cl_log c) t = Some r \<and> tr_decision r \<noteq> None \<and>
     set (tr_participants r) \<subseteq> tr_acked r \<union> ns)"

definition redo_ok :: "cluster \<Rightarrow> outcome \<Rightarrow> bool" where
  "redo_ok c out = (case out of
       Next (Recovering ts resolved) \<Rightarrow> delivered_but c (set ts)
     | Next (Broadcasting t ns (ResumeRecover rest resolved)) \<Rightarrow>
         acked_but c t (set ns) \<and> delivered_but c (insert t (set rest))
     | Next (Acking t n ns (ResumeRecover rest resolved)) \<Rightarrow>
         acked_but c t (insert n (set ns)) \<and> delivered_but c (insert t (set rest))
     | Resolved ts \<Rightarrow> delivered_but c {}
     | _ \<Rightarrow> False)"

lemma redo_ok_step:
  assumes inv: "cl_inv c" and th: "thread_ok c th" and up: "all_up c" and ok: "redo_ok c (Next th)"
    and step: "thread_step c th = (c', out)"
  shows "all_up c' \<and> redo_ok c' out"
proof (cases th)
  case (Recovering ts resolved)
  show ?thesis
  proof (cases ts)
    case Nil
    with Recovering step up ok show ?thesis by (auto simp: redo_ok_def)
  next
    case (Cons t rest)
    with th Recovering obtain r where r: "dict_get (cl_log c) t = Some r" by (auto simp: logged_def)
    have up': "all_up (log_decision c r t ABORT)" using up by (simp add: all_up_def log_decision_def)
    have rest: "delivered_but (log_decision c r t ABORT) (insert t (set rest))"
      using ok Recovering Cons by (auto simp: redo_ok_def delivered_but_def log_decision_def)
    let ?r = "if tr_decision r = None then r\<lparr>tr_decision := Some ABORT\<rparr> else r"
    note log = log_of_logged [OF r, of ABORT]
    show ?thesis
    proof (cases "tr_delivered ?r")
      case True
      then have "delivered_but (log_decision c r t ABORT) (set rest)"
        using rest log unfolding delivered_but_def by (metis insert_iff option.inject)
      with True step Recovering Cons r up' show ?thesis by (auto simp: redo_ok_def Let_def)
    next
      case False
      then have s: "(c', out) = (log_decision c r t ABORT,
          Next (Broadcasting t (tr_participants r) (ResumeRecover rest resolved)))"
        using step r by (auto simp: Recovering Cons Let_def enter_broadcast_def)
      have "acked_but c' t (set (tr_participants r))" using s log by (auto simp: acked_but_def)
      with s up' rest show ?thesis by (simp add: redo_ok_def)
    qed
  qed
next
  case (Broadcasting t ns k)
  with ok obtain rest resolved where k: "k = ResumeRecover rest resolved"
    by (cases k) (auto simp: redo_ok_def)
  have a: "acked_but c t (set ns)" and d: "delivered_but c (insert t (set rest))"
    using ok Broadcasting k by (auto simp: redo_ok_def)
  from a obtain r where r: "dict_get (cl_log c) t = Some r" "tr_decision r \<noteq> None"
    "set (tr_participants r) \<subseteq> tr_acked r \<union> set ns"
    by (auto simp: acked_but_def)
  show ?thesis
  proof (cases ns)
    case Nil
    then have "delivered_but c (set rest)"
      using d r unfolding delivered_but_def tr_delivered_def
      by (metis Un_empty_right insert_iff list.set(1) option.inject)
    with Nil Broadcasting k step up show ?thesis by (auto simp: redo_ok_def resume_def)
  next
    case (Cons n ns')
    have sok: "step_ok c (c', out)" using thread_step_ok [OF inv th] step by simp
    show ?thesis
    proof (cases "n \<in> tr_acked r")
      case True
      with r Cons have "acked_but c t (set ns')" by (auto simp: acked_but_def)
      with True Cons Broadcasting k step r d up show ?thesis by (auto simp: redo_ok_def)
    next
      case False
      from th Broadcasting Cons r have "n \<in> set (tr_participants r)" by (auto simp: sending_def)
      with inv r(1) obtain p where p: "dict_get (cl_parts c) n = Some p"
        unfolding cl_inv_def by blast
      with up have "\<not> pt_down p" by (simp add: all_up_def)
      then have "deliver p t (tr_decision r) = Inl InvalidStateError \<or>
          (\<exists>p'. deliver p t (tr_decision r) = Inr p' \<and> \<not> pt_down p')"
        by (simp add: deliver_def pt_commit_def pt_abort_def pt_check_up_def pt_apply_locked_def)
      with False Cons Broadcasting k step r p d a up sok show ?thesis
        by (auto simp: redo_ok_def all_up_def delivered_but_def acked_but_def step_ok_def outcome_ok_def
            split: if_splits)
    qed
  qed
next
  case (Acking t n ns k)
  with ok obtain rest resolved where k: "k = ResumeRecover rest resolved"
    by (cases k) (auto simp: redo_ok_def)
  have a: "acked_but c t (insert n (set ns))" and d: "delivered_but c (insert t (set rest))"
    using ok Acking k by (auto simp: redo_ok_def)
  from a d up show ?thesis
    using step Acking k by (auto simp: redo_ok_def acked_but_def delivered_but_def all_up_def)
qed (use ok in \<open>auto simp: redo_ok_def\<close>)


lemma run_call_redo:
  assumes "cl_inv c" "outcome_ok c out" "all_up c" "redo_ok c out"
  shows "cl_inv (fst (run_call k c out)) \<and> redo_ok (fst (run_call k c out)) (snd (run_call k c out))"
  using assms
proof (induction k c out rule: run_call.induct)
  case (1 k c th)
  obtain c' out where s: "thread_step c th = (c', out)" by fastforce
  from 1 have th: "thread_ok c th" by (simp add: outcome_ok_def)
  have "step_ok c (c', out)" using thread_step_ok [OF 1(2) th] s by simp
  moreover have "all_up c' \<and> redo_ok c' out" using redo_ok_step [OF 1(2) th 1(4,5) s] .
  ultimately show ?case using 1(1) [OF s [symmetric]] s by (auto simp: step_ok_def cl_step_def)
qed simp_all

text \<open>C37. Recovery delivers: from any reachable state in which every participant is up, a coordinator
  recovery that runs to its end returns the transactions it resolved, and leaves no transaction
  pending: each has a decision and an acknowledgement from all of its participants.\<close>

theorem tpc_recovery_delivers:
  assumes "tpc_reachable s" and "all_up (ts_cluster s)"
  shows "\<exists>k c' ts. (case co_start_recover (ts_cluster s) of (c, out) \<Rightarrow> run_call k c out) = (c', Resolved ts) \<and>
    co_pending c' = []"
proof -
  obtain c ts where c: "co_start_recover (ts_cluster s) = (c, Next (Recovering ts []))"
    and ts: "ts = dict_keys (cl_log c)" and down: "c = (ts_cluster s)\<lparr>cl_down := False\<rparr>"
    by (auto simp: co_start_recover_def Let_def)
  have inv: "cl_inv c"
    using tpc_reachable_inv [OF assms(1)] by (simp add: tpc_inv_def down cl_inv_def touched_def co_decision_of_def)
  have up: "all_up c" using assms(2) by (simp add: down all_up_def)
  have ok: "outcome_ok c (Next (Recovering ts []))"
    by (simp add: outcome_ok_def logged_def ts dict_get_None)
  have redo: "redo_ok c (Next (Recovering ts []))"
    by (auto simp: redo_ok_def delivered_but_def ts dest: dict_get_keys)
  let ?r = "run_call (redo_cost c ts) c (Next (Recovering ts []))"
  have ends: "\<not> in_progress (snd ?r)" by (rule run_call_returns [OF inv ok]) simp
  have fin: "cl_inv (fst ?r) \<and> redo_ok (fst ?r) (snd ?r)" by (rule run_call_redo [OF inv ok up redo])
  then obtain rs where rs: "snd ?r = Resolved rs"
    using ends by (cases "snd ?r") (auto simp: redo_ok_def in_progress_def)
  with fin have "delivered_but (fst ?r) {}" "dict_ok (cl_log (fst ?r))"
    by (auto simp: redo_ok_def cl_inv_def)
  then have "filter (\<lambda>(t, r). \<not> tr_delivered r) (cl_log (fst ?r)) = []"
    unfolding filter_empty_conv delivered_but_def using dict_get_mem by fastforce
  then have "co_pending (fst ?r) = []" unfolding co_pending_def by simp
  with rs c have "(case co_start_recover (ts_cluster s) of (c0, out) \<Rightarrow> run_call (redo_cost c ts) c0 out) =
      (fst ?r, Resolved rs)"
    unfolding c by (metis case_prod_conv prod.collapse)
  with \<open>co_pending (fst ?r) = []\<close> show ?thesis
    by (intro exI [of _ "redo_cost c ts"] exI [of _ "fst ?r"] exI [of _ rs]) simp
qed

text \<open>The coordinator dies after logging its commit, before it told anyone.\<close>

definition crash_schedule :: "tpc_event list" where
  "crash_schedule =
     [Register ''orders'' [(''alice'', 100)] 0, Register ''payments'' [(''bob'', 100)] 0,
      ArmCoordinator (Some AFTER_DECISION_LOGGED),
      CallRun 0 ''tx-6'' [(''orders'', [(''alice'', -20)]), (''payments'', [(''bob'', 20)])]] @
     replicate 5 (Advance 0)"

definition crash_sys :: tpc_sys where
  "crash_sys = (case tpc_exec_all crash_schedule tpc_init of Some s \<Rightarrow> s | None \<Rightarrow> tpc_init)"

lemma crash_reachable: "tpc_reachable crash_sys"
proof -
  have "tpc_exec_all crash_schedule tpc_init \<noteq> None" by code_simp
  then obtain s where s: "tpc_exec_all crash_schedule tpc_init = Some s" by blast
  then have "crash_sys = s" by (simp add: crash_sys_def)
  with tpc_reachable_run [OF s] show ?thesis by simp
qed

theorem tpc_recovery_delivers_witness:
  "ts_calls crash_sys 0 = Some (Raised NodeDownError) \<and> cl_down (ts_cluster crash_sys) \<and>
   co_pending (ts_cluster crash_sys) = [''tx-6''] \<and>
   (\<exists>k c' ts. (case co_start_recover (ts_cluster crash_sys) of (c, out) \<Rightarrow> run_call k c out) = (c', Resolved ts) \<and>
      co_pending c' = [])"
proof -
  have "list_all (\<lambda>(n, p). \<not> pt_down p) (cl_parts (ts_cluster crash_sys))" by code_simp
  then have "all_up (ts_cluster crash_sys)"
    by (auto simp: all_up_def list_all_iff dest!: map_of_SomeD)
  note tpc_recovery_delivers [OF crash_reachable this]
  moreover have "ts_calls crash_sys 0 = Some (Raised NodeDownError)" "cl_down (ts_cluster crash_sys)"
    "co_pending (ts_cluster crash_sys) = [''tx-6'']"
    by code_simp+
  ultimately show ?thesis by simp
qed

section \<open>The abort that arrives before the vote\<close>

definition lost_abort_schedule :: "tpc_event list" where
  "lost_abort_schedule =
     [Register ''orders'' [(''alice'', 100)] 0, Register ''payments'' [(''bob'', 100)] 0,
      CallRun 0 ''tx'' [(''orders'', [(''alice'', -10)]), (''payments'', [(''bob'', 10)])],
      Advance 0, CrashCoordinator, CallRecover 1] @
     replicate 7 (Advance 1) @ replicate 7 (Advance 0)"

definition lost_abort_sys :: tpc_sys where
  "lost_abort_sys = (case tpc_exec_all lost_abort_schedule tpc_init of Some s \<Rightarrow> s | None \<Rightarrow> tpc_init)"

lemma lost_abort_reachable: "tpc_reachable lost_abort_sys"
proof -
  have "tpc_exec_all lost_abort_schedule tpc_init \<noteq> None" by code_simp
  then obtain s where s: "tpc_exec_all lost_abort_schedule tpc_init = Some s" by blast
  then have "lost_abort_sys = s" by (simp add: lost_abort_sys_def)
  with tpc_reachable_run [OF s] show ?thesis by simp
qed

text \<open>The converse of delivery fails: \<^verbatim>\<open>prepare\<close> does not look at \<^verbatim>\<open>_decided\<close>. When the
  coordinator crashes and recovers during the voting of a run, its abort can reach a participant,
  and be acknowledged, before that participant is asked to prepare; the participant then votes YES
  and stays in doubt, its keys locked and other transactions refused, although every call has
  returned, every node is up and the log has nothing pending.\<close>

theorem tpc_lost_abort:
  "\<exists>s p. tpc_reachable s \<and> ts_calls s 0 = Some (Returned ''tx'' ABORT) \<and>
     ts_calls s 1 = Some (Resolved [''tx'']) \<and> \<not> cl_down (ts_cluster s) \<and> co_pending (ts_cluster s) = [] \<and>
     dict_get (cl_parts (ts_cluster s)) ''payments'' = Some p \<and> \<not> pt_down p \<and>
     dict_get (pt_decided p) ''tx'' = Some ABORT \<and> pt_in_doubt p = [''tx''] \<and>
     pt_prepare p ''tx-2'' [(''bob'', 1)] = Inr (NO, p)"
proof -
  let ?p = "the (dict_get (cl_parts (ts_cluster lost_abort_sys)) ''payments'')"
  have "ts_calls lost_abort_sys 0 = Some (Returned ''tx'' ABORT)"
    "ts_calls lost_abort_sys 1 = Some (Resolved [''tx''])"
    "\<not> cl_down (ts_cluster lost_abort_sys)" "co_pending (ts_cluster lost_abort_sys) = []"
    "dict_get (cl_parts (ts_cluster lost_abort_sys)) ''payments'' = Some ?p" "\<not> pt_down ?p"
    "dict_get (pt_decided ?p) ''tx'' = Some ABORT" "pt_in_doubt ?p = [''tx'']"
    "pt_prepare ?p ''tx-2'' [(''bob'', 1)] = Inr (NO, ?p)"
    by code_simp+
  with lost_abort_reachable show ?thesis by blast
qed

end
