(* ===== verification/Saga.thy ===== *)
theory Saga
  imports Prelude "HOL-Library.Sublist"
begin

text \<open>
  Orchestrated sagas, \<^verbatim>\<open>code/hld/saga.py\<close>: the durable log, the orchestrator that drives forward
  steps, compensations and retries over it, its crash injection, and the order saga with its four
  services. A step's action may change the context and the services (the world) and either
  returns or raises; messages of exceptions, and so the \<^verbatim>\<open>detail\<close> of a log entry, are left out.
\<close>

section \<open>Steps and records\<close>

datatype step_kind = COMPENSATABLE | PIVOT | RETRIABLE

datatype saga_state = RUNNING | COMPENSATING | COMPLETED | COMPENSATED | STUCK

type_synonym ('c, 'w) action = "'c \<Rightarrow> 'w \<Rightarrow> unit result \<times> 'c \<times> 'w"

record ('c, 'w) step =
  st_name :: string
  st_action :: "('c, 'w) action"
  st_compensation :: "('c, 'w) action option"
  st_kind :: step_kind

record log_entry =
  le_step :: string
  le_event :: string
  le_attempt :: int

record 'c saga_record =
  sr_id :: string
  sr_context :: 'c
  sr_state :: saga_state
  sr_entries :: "log_entry list"

definition steps_with :: "'c saga_record \<Rightarrow> string \<Rightarrow> string list" where
  "steps_with r event = map le_step (filter (\<lambda>e. le_event e = event) (sr_entries r))"

section \<open>The log\<close>

definition log_create ::
  "(string, 'c saga_record) dict \<Rightarrow> string \<Rightarrow> 'c \<Rightarrow> ('c saga_record \<times> (string, 'c saga_record) dict) result" where
  "log_create l i ctx =
     (if dict_get l i \<noteq> None then Inl ConflictError
      else let r = \<lparr>sr_id = i, sr_context = ctx, sr_state = RUNNING, sr_entries = []\<rparr>
           in Inr (r, dict_set i r l))"

definition log_get :: "(string, 'c saga_record) dict \<Rightarrow> string \<Rightarrow> 'c saga_record result" where
  "log_get l i = (case dict_get l i of None \<Rightarrow> Inl NotFoundError | Some r \<Rightarrow> Inr r)"

definition log_append :: "'c saga_record \<Rightarrow> string \<Rightarrow> string \<Rightarrow> int \<Rightarrow> 'c saga_record" where
  "log_append r name event attempt =
     r\<lparr>sr_entries := sr_entries r @ [\<lparr>le_step = name, le_event = event, le_attempt = attempt\<rparr>]\<rparr>"

definition log_set_state :: "'c saga_record \<Rightarrow> saga_state \<Rightarrow> 'c saga_record" where
  "log_set_state r s = r\<lparr>sr_state := s\<rparr>"

definition log_states :: "(string, 'c saga_record) dict \<Rightarrow> (string, saga_state) dict" where
  "log_states l = map (\<lambda>(i, r). (i, sr_state r)) l"

section \<open>The orchestrator\<close>

record ('c, 'w) orchestrator =
  so_steps :: "('c, 'w) step list"
  so_max_attempts :: int
  so_crash_after :: "string option"

fun validate_loop :: "bool \<Rightarrow> bool \<Rightarrow> ('c, 'w) step list \<Rightarrow> unit result" where
  "validate_loop has_compensatable seen_pivot [] = Inr ()"
| "validate_loop has_compensatable seen_pivot (s # steps) =
     (case st_kind s of
        COMPENSATABLE \<Rightarrow>
          if seen_pivot then Inl ValidationError
          else if st_compensation s = None then Inl ValidationError
          else validate_loop has_compensatable seen_pivot steps
      | PIVOT \<Rightarrow>
          if seen_pivot then Inl ValidationError else validate_loop has_compensatable True steps
      | RETRIABLE \<Rightarrow>
          if has_compensatable \<and> \<not> seen_pivot then Inl ValidationError
          else validate_loop has_compensatable seen_pivot steps)"

definition saga_validate :: "('c, 'w) step list \<Rightarrow> unit result" where
  "saga_validate steps =
     (if \<not> distinct (map st_name steps) then Inl ValidationError
      else validate_loop (\<exists>s \<in> set steps. st_kind s = COMPENSATABLE) False steps)"

definition orchestrator_new :: "('c, 'w) step list \<Rightarrow> int \<Rightarrow> ('c, 'w) orchestrator result" where
  "orchestrator_new steps max_attempts =
     (if steps = [] then Inl ValidationError
      else if max_attempts < 1 then Inl ValidationError
      else case saga_validate steps of
             Inl e \<Rightarrow> Inl e
           | Inr _ \<Rightarrow> Inr \<lparr>so_steps = steps, so_max_attempts = max_attempts, so_crash_after = None\<rparr>)"

definition saga_crash_after :: "('c, 'w) orchestrator \<Rightarrow> string option \<Rightarrow> ('c, 'w) orchestrator" where
  "saga_crash_after orch name = orch\<lparr>so_crash_after := name\<rparr>"

text \<open>The attempts \<^verbatim>\<open>range(1, max_attempts + 1)\<close> of one action.\<close>

fun attempt_loop ::
  "string \<Rightarrow> ('c, 'w) action \<Rightarrow> int list \<Rightarrow> 'c saga_record \<Rightarrow> 'w \<Rightarrow> bool result \<times> 'c saga_record \<times> 'w" where
  "attempt_loop name act [] r w = (Inr False, r, w)"
| "attempt_loop name act (n # ns) r w =
     (case act (sr_context r) w of
        (res, ctx, w') \<Rightarrow>
          let r' = r\<lparr>sr_context := ctx\<rparr>
          in case res of
               Inr _ \<Rightarrow> (Inr True, r', w')
             | Inl e \<Rightarrow>
                 if e = StepFailed then (Inr False, log_append r' name ''failed'' n, w')
                 else if e = TransientError then attempt_loop name act ns (log_append r' name ''failed'' n) w'
                 else (Inl e, r', w'))"

definition attempt ::
  "('c, 'w) orchestrator \<Rightarrow> 'c saga_record \<Rightarrow> string \<Rightarrow> ('c, 'w) action \<Rightarrow> 'w \<Rightarrow>
   bool result \<times> 'c saga_record \<times> 'w" where
  "attempt orch r name act w = attempt_loop name act [1 .. so_max_attempts orch] r w"

definition saga_maybe_crash ::
  "('c, 'w) orchestrator \<Rightarrow> string \<Rightarrow> unit result \<times> ('c, 'w) orchestrator" where
  "saga_maybe_crash orch name =
     (if so_crash_after orch \<noteq> Some name then (Inr (), orch)
      else (Inl OrchestratorCrash, orch\<lparr>so_crash_after := None\<rparr>))"

text \<open>The orchestrator, the record it drives and the world, threaded through a run.\<close>

type_synonym ('c, 'w, 'a) run = "'a result \<times> ('c, 'w) orchestrator \<times> 'c saga_record \<times> 'w"

definition run_forward ::
  "('c, 'w) orchestrator \<Rightarrow> 'c saga_record \<Rightarrow> ('c, 'w) step \<Rightarrow> 'w \<Rightarrow> ('c, 'w, bool) run" where
  "run_forward orch r s w =
     (case attempt orch (log_append r (st_name s) ''started'' 1) (st_name s) (st_action s) w of
        (Inl e, r', w') \<Rightarrow> (Inl e, orch, r', w')
      | (Inr False, r', w') \<Rightarrow> (Inr False, orch, r', w')
      | (Inr True, r', w') \<Rightarrow>
          (case saga_maybe_crash orch (st_name s) of
             (Inl e, orch') \<Rightarrow> (Inl e, orch', r', w')
           | (Inr _, orch') \<Rightarrow> (Inr True, orch', log_append r' (st_name s) ''done'' 1, w')))"

text \<open>The \<^verbatim>\<open>for ... else\<close> of \<^verbatim>\<open>_drive\<close>.\<close>

fun forward_loop ::
  "string set \<Rightarrow> ('c, 'w) step list \<Rightarrow> ('c, 'w) orchestrator \<Rightarrow> 'c saga_record \<Rightarrow> 'w \<Rightarrow> ('c, 'w, unit) run" where
  "forward_loop finished [] orch r w = (Inr (), orch, log_set_state r COMPLETED, w)"
| "forward_loop finished (s # steps) orch r w =
     (if st_name s \<in> finished then forward_loop finished steps orch r w
      else case run_forward orch r s w of
             (Inl e, orch', r', w') \<Rightarrow> (Inl e, orch', r', w')
           | (Inr True, orch', r', w') \<Rightarrow> forward_loop finished steps orch' r' w'
           | (Inr False, orch', r', w') \<Rightarrow>
               (Inr (), orch',
                log_set_state r' (if st_kind s = RETRIABLE then STUCK else COMPENSATING), w'))"

fun compensate_loop ::
  "string set \<Rightarrow> string set \<Rightarrow> ('c, 'w) step list \<Rightarrow> ('c, 'w) orchestrator \<Rightarrow> 'c saga_record \<Rightarrow> 'w \<Rightarrow>
   ('c, 'w, unit) run" where
  "compensate_loop finished undone [] orch r w = (Inr (), orch, log_set_state r COMPENSATED, w)"
| "compensate_loop finished undone (s # steps) orch r w =
     (case st_compensation s of
        None \<Rightarrow> compensate_loop finished undone steps orch r w
      | Some undo \<Rightarrow>
          if st_name s \<notin> finished \<or> st_name s \<in> undone
          then compensate_loop finished undone steps orch r w
          else case attempt orch r (st_name s) undo w of
                 (Inl e, r', w') \<Rightarrow> (Inl e, orch, r', w')
               | (Inr False, r', w') \<Rightarrow> (Inr (), orch, log_set_state r' STUCK, w')
               | (Inr True, r', w') \<Rightarrow>
                   compensate_loop finished undone steps orch
                     (log_append r' (st_name s) ''compensated'' 1) w')"

definition saga_compensate ::
  "('c, 'w) orchestrator \<Rightarrow> 'c saga_record \<Rightarrow> 'w \<Rightarrow> ('c, 'w, unit) run" where
  "saga_compensate orch r w =
     compensate_loop (set (steps_with r ''done'')) (set (steps_with r ''compensated''))
       (rev (so_steps orch)) orch r w"

definition drive :: "('c, 'w) orchestrator \<Rightarrow> 'c saga_record \<Rightarrow> 'w \<Rightarrow> ('c, 'w, saga_state) run" where
  "drive orch r w =
     (case (if sr_state r = RUNNING
            then forward_loop (set (steps_with r ''done'')) (so_steps orch) orch r w
            else (Inr (), orch, r, w)) of
        (Inl e, orch1, r1, w1) \<Rightarrow> (Inl e, orch1, r1, w1)
      | (Inr _, orch1, r1, w1) \<Rightarrow>
          (case (if sr_state r1 = COMPENSATING then saga_compensate orch1 r1 w1
                 else (Inr (), orch1, r1, w1)) of
             (Inl e, orch2, r2, w2) \<Rightarrow> (Inl e, orch2, r2, w2)
           | (Inr _, orch2, r2, w2) \<Rightarrow> (Inr (sr_state r2), orch2, r2, w2)))"

text \<open>
  The whole system: the orchestrator, its log and the services. The record in the log is the one
  driven, so what a run did to it stays there when the run raises.
\<close>

record ('c, 'w) saga_sys =
  sy_orch :: "('c, 'w) orchestrator"
  sy_log :: "(string, 'c saga_record) dict"
  sy_world :: 'w

definition drive_in ::
  "('c, 'w) saga_sys \<Rightarrow> string \<Rightarrow> 'c saga_record \<Rightarrow> saga_state result \<times> ('c, 'w) saga_sys" where
  "drive_in sys i r =
     (case drive (sy_orch sys) r (sy_world sys) of
        (res, orch, r', w) \<Rightarrow> (res, \<lparr>sy_orch = orch, sy_log = dict_set i r' (sy_log sys), sy_world = w\<rparr>))"

definition saga_start ::
  "('c, 'w) saga_sys \<Rightarrow> string \<Rightarrow> 'c \<Rightarrow> saga_state result \<times> ('c, 'w) saga_sys" where
  "saga_start sys i ctx =
     (case log_create (sy_log sys) i ctx of
        Inl e \<Rightarrow> (Inl e, sys)
      | Inr (r, l) \<Rightarrow> drive_in (sys\<lparr>sy_log := l\<rparr>) i r)"

definition saga_resume :: "('c, 'w) saga_sys \<Rightarrow> string \<Rightarrow> saga_state result \<times> ('c, 'w) saga_sys" where
  "saga_resume sys i =
     (case log_get (sy_log sys) i of
        Inl e \<Rightarrow> (Inl e, sys)
      | Inr r \<Rightarrow> drive_in sys i r)"


section \<open>The log tells the truth\<close>

definition undo_names :: "('c, 'w) step list \<Rightarrow> string list" where
  "undo_names steps = map st_name (filter (\<lambda>s. st_compensation s \<noteq> None) (rev steps))"

text \<open>
  The record after any sequence of runs and crashes: the steps done are a prefix of the saga; only
  a saga that is being or has been compensated has compensated steps, from the last one done
  backwards and only before the pivot; a completed one has done every step, a compensated one has
  undone every step that can be undone.
\<close>

definition rec_ok :: "('c, 'w) step list \<Rightarrow> 'c saga_record \<Rightarrow> bool" where
  "rec_ok steps r \<longleftrightarrow> (\<exists>k \<le> length steps. steps_with r ''done'' = map st_name (take k steps) \<and>
     (case sr_state r of
        RUNNING \<Rightarrow> steps_with r ''compensated'' = []
      | COMPLETED \<Rightarrow> k = length steps \<and> steps_with r ''compensated'' = []
      | COMPENSATING \<Rightarrow> prefix (steps_with r ''compensated'') (undo_names (take k steps)) \<and>
          (\<forall>s \<in> set (take k steps). st_kind s \<noteq> PIVOT)
      | COMPENSATED \<Rightarrow> steps_with r ''compensated'' = undo_names (take k steps) \<and>
          (\<forall>s \<in> set (take k steps). st_kind s \<noteq> PIVOT)
      | STUCK \<Rightarrow> prefix (steps_with r ''compensated'') (undo_names (take k steps))))"

lemma steps_with_append [simp]:
  "steps_with (log_append r name event n) x = steps_with r x @ (if event = x then [name] else [])"
  by (simp add: steps_with_def log_append_def)

lemma steps_with_same [simp]:
  "steps_with (r\<lparr>sr_context := c\<rparr>) x = steps_with r x" "steps_with (log_set_state r s) x = steps_with r x"
  by (simp_all add: steps_with_def log_set_state_def)

lemma sr_state_simps [simp]:
  "sr_state (log_append r name event n) = sr_state r" "sr_state (log_set_state r s) = s"
  by (simp_all add: log_append_def log_set_state_def)

lemma attempt_loop_keeps:
  "attempt_loop name act ns r w = (res, r', w') \<Longrightarrow>
   sr_state r' = sr_state r \<and> steps_with r' ''done'' = steps_with r ''done'' \<and>
   steps_with r' ''compensated'' = steps_with r ''compensated''"
proof (induction ns arbitrary: r w)
  case (Cons n ns)
  obtain x ctx v where x: "act (sr_context r) w = (x, ctx, v)" by (metis prod_cases3)
  show ?case
  proof (cases "x = Inl TransientError")
    case True
    with Cons.prems x
    have "attempt_loop name act ns (log_append (r\<lparr>sr_context := ctx\<rparr>) name ''failed'' n) v = (res, r', w')"
      by simp
    from Cons.IH [OF this] show ?thesis by simp
  next
    case False
    with Cons.prems x show ?thesis by (auto simp: Let_def split: sum.splits if_splits)
  qed
qed auto

lemma attempt_keeps:
  "attempt orch r name act w = (res, r', w') \<Longrightarrow>
   sr_state r' = sr_state r \<and> steps_with r' ''done'' = steps_with r ''done'' \<and>
   steps_with r' ''compensated'' = steps_with r ''compensated''"
  unfolding attempt_def by (rule attempt_loop_keeps)

lemma saga_maybe_crash_steps [simp]: "so_steps (snd (saga_maybe_crash orch name)) = so_steps orch"
  by (simp add: saga_maybe_crash_def)

lemma run_forward_log:
  assumes "run_forward orch r s w = (res, orch', r', w')"
  shows "so_steps orch' = so_steps orch \<and> sr_state r' = sr_state r \<and>
    steps_with r' ''compensated'' = steps_with r ''compensated'' \<and>
    steps_with r' ''done'' = steps_with r ''done'' @ (if res = Inr True then [st_name s] else [])"
proof -
  obtain x r1 w1 where a: "attempt orch (log_append r (st_name s) ''started'' 1) (st_name s) (st_action s) w = (x, r1, w1)"
    by (metis prod_cases3)
  obtain y orch1 where m: "saga_maybe_crash orch (st_name s) = (y, orch1)" by fastforce
  show ?thesis
    using attempt_keeps [OF a] assms a m saga_maybe_crash_steps [of orch "st_name s"]
    by (auto simp: run_forward_def split: sum.splits bool.splits)
qed


lemma validate_loop_pivot:
  "validate_loop h p (pre @ s # post) = Inr () \<Longrightarrow> st_kind s \<noteq> RETRIABLE \<Longrightarrow>
   \<not> p \<and> (\<forall>x \<in> set pre. st_kind x \<noteq> PIVOT)"
  by (induction pre arbitrary: p) (auto split: step_kind.splits if_splits)

lemma forward_loop_skip:
  "set (map st_name pre) \<subseteq> finished \<Longrightarrow>
   forward_loop finished (pre @ rest) orch r w = forward_loop finished rest orch r w"
  by (induction pre) auto

lemma rec_okI:
  assumes "k \<le> length steps" "steps_with r ''done'' = map st_name (take k steps)"
    and "case sr_state r of
        RUNNING \<Rightarrow> steps_with r ''compensated'' = []
      | COMPLETED \<Rightarrow> k = length steps \<and> steps_with r ''compensated'' = []
      | COMPENSATING \<Rightarrow> prefix (steps_with r ''compensated'') (undo_names (take k steps)) \<and>
          (\<forall>s \<in> set (take k steps). st_kind s \<noteq> PIVOT)
      | COMPENSATED \<Rightarrow> steps_with r ''compensated'' = undo_names (take k steps) \<and>
          (\<forall>s \<in> set (take k steps). st_kind s \<noteq> PIVOT)
      | STUCK \<Rightarrow> prefix (steps_with r ''compensated'') (undo_names (take k steps))"
  shows "rec_ok steps r"
  using assms unfolding rec_ok_def by blast

lemma forward_loop_log:
  assumes "forward_loop finished rest orch r w = (res, orch', r', w')"
    and "validate_loop h False (pre @ rest) = Inr ()"
    and "set (map st_name rest) \<inter> finished = {}"
    and "sr_state r = RUNNING" "steps_with r ''done'' = map st_name pre" "steps_with r ''compensated'' = []"
  shows "so_steps orch' = so_steps orch \<and> rec_ok (pre @ rest) r' \<and> (res = Inr () \<longrightarrow> sr_state r' \<noteq> RUNNING)"
  using assms
proof (induction rest arbitrary: pre orch r w)
  case Nil
  then show ?case by (auto intro!: rec_okI [of "length pre"])
next
  case (Cons s rest)
  obtain x orch1 r1 w1 where f: "run_forward orch r s w = (x, orch1, r1, w1)" by (metis prod_cases4)
  note log = run_forward_log [OF f]
  show ?case
  proof (cases "x = Inr True")
    case True
    with Cons.prems(1,3) f have "forward_loop finished rest orch1 r1 w1 = (res, orch', r', w')" by simp
    from Cons.IH [OF this, of "pre @ [s]"] Cons.prems log True show ?thesis by simp
  next
    case False
    have "rec_ok (pre @ s # rest) r'"
    proof (rule rec_okI [of "length pre"])
      have "st_kind s \<noteq> RETRIABLE \<Longrightarrow> \<forall>x \<in> set pre. st_kind x \<noteq> PIVOT"
        using validate_loop_pivot [OF Cons.prems(2)] by blast
      with False f Cons.prems log
      show "case sr_state r' of
          RUNNING \<Rightarrow> steps_with r' ''compensated'' = []
        | COMPLETED \<Rightarrow> length pre = length (pre @ s # rest) \<and> steps_with r' ''compensated'' = []
        | COMPENSATING \<Rightarrow> prefix (steps_with r' ''compensated'') (undo_names (take (length pre) (pre @ s # rest))) \<and>
            (\<forall>s \<in> set (take (length pre) (pre @ s # rest)). st_kind s \<noteq> PIVOT)
        | COMPENSATED \<Rightarrow> steps_with r' ''compensated'' = undo_names (take (length pre) (pre @ s # rest)) \<and>
            (\<forall>s \<in> set (take (length pre) (pre @ s # rest)). st_kind s \<noteq> PIVOT)
        | STUCK \<Rightarrow> prefix (steps_with r' ''compensated'') (undo_names (take (length pre) (pre @ s # rest)))"
        by (auto split: sum.splits bool.splits if_splits)
    qed (use False f Cons.prems log in \<open>auto split: sum.splits bool.splits\<close>)
    moreover have "so_steps orch' = so_steps orch \<and> (res = Inr () \<longrightarrow> sr_state r' \<noteq> RUNNING)"
      using False f Cons.prems log by (auto split: sum.splits bool.splits if_splits)
    ultimately show ?thesis by simp
  qed
qed

lemma undo_names_Cons: "undo_names (rev (s # steps)) =
    (if st_compensation s = None then [] else [st_name s]) @ undo_names (rev steps)"
  by (simp add: undo_names_def)

text \<open>
  Compensating the steps not undone yet: \<open>us\<close> is what the loop still has to look at, \<open>cs\<close> the steps
  before it in reverse.
\<close>

lemma compensate_loop_log:
  assumes "compensate_loop finished undone us orch r w = (res, orch', r', w')"
    and "set (map st_name us) \<subseteq> finished" "set (map st_name us) \<inter> undone = {}"
    and "sr_state r = COMPENSATING"
  shows "orch' = orch \<and> steps_with r' ''done'' = steps_with r ''done'' \<and>
    (\<exists>vs. steps_with r' ''compensated'' = steps_with r ''compensated'' @ vs \<and> prefix vs (undo_names (rev us)) \<and>
      (sr_state r' = COMPENSATED \<longrightarrow> vs = undo_names (rev us))) \<and>
    (case res of Inr _ \<Rightarrow> sr_state r' \<in> {COMPENSATED, STUCK} | Inl _ \<Rightarrow> sr_state r' = COMPENSATING)"
  using assms
proof (induction us arbitrary: r w)
  case Nil
  then show ?case by (auto simp: undo_names_def)
next
  case (Cons s us)
  show ?case
  proof (cases "st_compensation s")
    case None
    then have "undo_names (rev (s # us)) = undo_names (rev us)" by (simp add: undo_names_def)
    with Cons None show ?thesis by auto
  next
    case (Some undo)
    then have names: "undo_names (rev (s # us)) = st_name s # undo_names (rev us)" by (simp add: undo_names_def)
    obtain x r1 w1 where a: "attempt orch r (st_name s) undo w = (x, r1, w1)" by (metis prod_cases3)
    note log = attempt_keeps [OF a]
    show ?thesis
    proof (cases "x = Inr True")
      case True
      let ?r = "log_append r1 (st_name s) ''compensated'' 1"
      from True a Some Cons.prems
      have run: "compensate_loop finished undone us orch ?r w1 = (res, orch', r', w')" by auto
      have "sr_state ?r = COMPENSATING" using log Cons.prems by simp
      note IH = Cons.IH [OF run _ _ this]
      from IH obtain vs where "steps_with r' ''compensated'' = steps_with ?r ''compensated'' @ vs"
        "prefix vs (undo_names (rev us))" "sr_state r' = COMPENSATED \<longrightarrow> vs = undo_names (rev us)"
        using Cons.prems by auto
      with names log have "\<exists>vs. steps_with r' ''compensated'' = steps_with r ''compensated'' @ vs \<and>
          prefix vs (undo_names (rev (s # us))) \<and> (sr_state r' = COMPENSATED \<longrightarrow> vs = undo_names (rev (s # us)))"
        by (intro exI [of _ "st_name s # vs"]) simp
      with IH log Cons.prems show ?thesis by simp
    next
      case False
      with a Some log Cons.prems names show ?thesis
        by (auto split: sum.splits bool.splits)
    qed
  qed
qed


lemma compensate_loop_skip:
  "\<forall>s \<in> set us. st_name s \<in> finished \<longrightarrow> st_name s \<in> undone \<or> st_compensation s = None \<Longrightarrow>
   compensate_loop finished undone (us @ vs) orch r w = compensate_loop finished undone vs orch r w"
  by (induction us) (auto split: option.splits)

lemma prefix_filter_split:
  "prefix cs (map f (filter P xs)) \<Longrightarrow> \<exists>as bs. xs = as @ bs \<and> map f (filter P as) = cs"
proof (induction xs arbitrary: cs)
  case (Cons x xs)
  show ?case
  proof (cases "cs = [] \<or> \<not> P x")
    case True
    show ?thesis
    proof (cases "cs = []")
      case True
      then show ?thesis by (intro exI [of _ "[]"] exI [of _ "x # xs"]) simp
    next
      case False
      with True Cons.prems have "prefix cs (map f (filter P xs))" by simp
      from Cons.IH [OF this] obtain as bs where "xs = as @ bs" "map f (filter P as) = cs" by blast
      with True False show ?thesis by (intro exI [of _ "x # as"] exI [of _ bs]) auto
    qed
  next
    case False
    with Cons.prems obtain cs' where cs: "cs = f x # cs'" "prefix cs' (map f (filter P xs))"
      by (cases cs) auto
    from Cons.IH [OF cs(2)] obtain as bs where "xs = as @ bs" "map f (filter P as) = cs'" by blast
    with cs False show ?thesis by (intro exI [of _ "x # as"] exI [of _ bs]) auto
  qed
qed simp

lemma saga_compensate_log:
  assumes run: "saga_compensate orch r w = (res, orch', r', w')"
    and names: "distinct (map st_name (so_steps orch))"
    and st: "sr_state r = COMPENSATING" and ok: "rec_ok (so_steps orch) r"
  shows "orch' = orch \<and> rec_ok (so_steps orch) r' \<and> (\<forall>x. res = Inr x \<longrightarrow> sr_state r' \<in> {COMPENSATED, STUCK})"
proof -
  let ?steps = "so_steps orch"
  from ok st obtain k where k: "k \<le> length ?steps" and finished: "steps_with r ''done'' = map st_name (take k ?steps)"
    and pre: "prefix (steps_with r ''compensated'') (undo_names (take k ?steps))"
    and pivot: "\<forall>s \<in> set (take k ?steps). st_kind s \<noteq> PIVOT"
    unfolding rec_ok_def by auto
  let ?done = "set (steps_with r ''done'')" and ?undone = "set (steps_with r ''compensated'')"
  from pre obtain as bs where split: "rev (take k ?steps) = as @ bs"
    and as: "map st_name (filter (\<lambda>s. st_compensation s \<noteq> None) as) = steps_with r ''compensated''"
    unfolding undo_names_def using prefix_filter_split by blast
  have ab: "take k ?steps = rev bs @ rev as" by (metis rev_append rev_rev_ident split)
  have app: "rev ?steps = (rev (drop k ?steps) @ as) @ bs"
    by (metis append_assoc append_take_drop_id rev_append split)
  have dist: "distinct (map st_name (take k ?steps @ drop k ?steps))" using names by simp
  have "\<forall>s \<in> set (rev (drop k ?steps) @ as). st_name s \<in> ?done \<longrightarrow> st_name s \<in> ?undone \<or> st_compensation s = None"
  proof
    fix s assume "s \<in> set (rev (drop k ?steps) @ as)"
    then consider "s \<in> set (drop k ?steps)" | "s \<in> set as" by auto
    then show "st_name s \<in> ?done \<longrightarrow> st_name s \<in> ?undone \<or> st_compensation s = None"
    proof cases
      case 1
      with dist finished have "st_name s \<notin> ?done" unfolding map_append distinct_append by (auto simp del: append_take_drop_id)
      then show ?thesis by simp
    next
      case 2
      then show ?thesis unfolding as [symmetric] by auto
    qed
  qed
  from compensate_loop_skip [OF this, of bs orch r w]
  have rest: "compensate_loop ?done ?undone bs orch r w = (res, orch', r', w')"
    using run app by (simp add: saga_compensate_def)
  have "distinct (map st_name (rev bs @ rev as))"
    using dist ab unfolding map_append distinct_append by simp
  then have disj: "set (map st_name bs) \<inter> ?undone = {}"
    unfolding as [symmetric] by fastforce
  have sub: "set (map st_name bs) \<subseteq> ?done" by (simp add: finished ab)
  from compensate_loop_log [OF rest sub disj st] obtain vs where
    keep: "orch' = orch" "steps_with r' ''done'' = steps_with r ''done''"
    and vs: "steps_with r' ''compensated'' = steps_with r ''compensated'' @ vs" "prefix vs (undo_names (rev bs))"
      "sr_state r' = COMPENSATED \<longrightarrow> vs = undo_names (rev bs)"
    and state: "case res of Inr _ \<Rightarrow> sr_state r' \<in> {COMPENSATED, STUCK} | Inl _ \<Rightarrow> sr_state r' = COMPENSATING"
    by auto
  have all: "undo_names (take k ?steps) = steps_with r ''compensated'' @ undo_names (rev bs)"
    by (simp add: undo_names_def split as [symmetric])
  have "rec_ok ?steps r'"
    by (rule rec_okI [OF k]) (use keep finished vs all state pivot in \<open>auto split: sum.splits\<close>)
  with keep state show ?thesis by (auto split: sum.splits)
qed

lemma drive_log:
  assumes run: "drive orch r w = (res, orch', r', w')"
    and valid: "saga_validate (so_steps orch) = Inr ()" and ok: "rec_ok (so_steps orch) r"
  shows "so_steps orch' = so_steps orch \<and> rec_ok (so_steps orch) r' \<and>
    (\<forall>s. res = Inr s \<longrightarrow> s = sr_state r' \<and> s \<in> {COMPLETED, COMPENSATED, STUCK})"
proof -
  let ?steps = "so_steps orch"
  from valid have names: "distinct (map st_name ?steps)"
    and vl: "validate_loop (\<exists>s \<in> set ?steps. st_kind s = COMPENSATABLE) False ?steps = Inr ()"
    by (auto simp: saga_validate_def split: if_splits)
  obtain x orch1 r1 w1 where f: "(if sr_state r = RUNNING
      then forward_loop (set (steps_with r ''done'')) ?steps orch r w else (Inr (), orch, r, w)) = (x, orch1, r1, w1)"
    by (metis prod_cases4)
  have fwd: "so_steps orch1 = ?steps \<and> rec_ok ?steps r1 \<and> (x = Inr () \<longrightarrow> sr_state r1 \<noteq> RUNNING)"
  proof (cases "sr_state r = RUNNING")
    case True
    with ok obtain k where k: "k \<le> length ?steps" "steps_with r ''done'' = map st_name (take k ?steps)"
      "steps_with r ''compensated'' = []"
      by (auto simp: rec_ok_def)
    have loop: "forward_loop (set (steps_with r ''done'')) (drop k ?steps) orch r w = (x, orch1, r1, w1)"
      using f True forward_loop_skip [of "take k ?steps" "set (steps_with r ''done'')" "drop k ?steps" orch r w] k
      by simp
    have disj: "set (map st_name (drop k ?steps)) \<inter> set (steps_with r ''done'') = {}"
      using names k(2) by (metis append_take_drop_id distinct_append inf_commute map_append)
    have valid': "validate_loop (\<exists>s \<in> set ?steps. st_kind s = COMPENSATABLE) False (take k ?steps @ drop k ?steps) = Inr ()"
      using vl by simp
    have "so_steps orch1 = so_steps orch \<and> rec_ok (take k ?steps @ drop k ?steps) r1 \<and>
        (x = Inr () \<longrightarrow> sr_state r1 \<noteq> RUNNING)"
      by (rule forward_loop_log [OF loop valid' disj True]) (use k in auto)
    then show ?thesis by simp
  qed (use f ok in auto)
  obtain y orch2 r2 w2 where c: "(if sr_state r1 = COMPENSATING then saga_compensate orch1 r1 w1
      else (Inr (), orch1, r1, w1)) = (y, orch2, r2, w2)"
    by (metis prod_cases4)
  have cmp: "so_steps orch2 = ?steps \<and> rec_ok ?steps r2 \<and>
      (x = Inr () \<longrightarrow> y = Inr () \<longrightarrow> sr_state r2 \<in> {COMPLETED, COMPENSATED, STUCK})"
  proof (cases "sr_state r1 = COMPENSATING")
    case True
    with c have "saga_compensate orch1 r1 w1 = (y, orch2, r2, w2)" by simp
    from saga_compensate_log [OF this] True fwd names show ?thesis by auto
  next
    case False
    with c fwd show ?thesis by (cases "sr_state r1") auto
  qed
  show ?thesis
  proof (cases x)
    case (Inl e)
    with run f fwd show ?thesis by (auto simp: drive_def)
  next
    case (Inr u)
    with run f c have "res = (case y of Inl e \<Rightarrow> Inl e | Inr _ \<Rightarrow> Inr (sr_state r2))"
      "orch' = orch2" "r' = r2"
      by (cases y; simp add: drive_def)+
    with cmp Inr show ?thesis by (cases y) auto
  qed
qed


section \<open>The order saga and its services\<close>

record shop =
  sh_status :: "(string, string) dict"
  sh_stock :: "(string, int) dict"
  sh_reservations :: "(string, string \<times> int) dict"
  sh_limit :: int
  sh_charged :: "(string, int) dict"
  sh_failures_left :: int
  sh_scheduled :: "string set"

record order_ctx =
  oc_order :: string
  oc_sku :: string
  oc_qty :: int
  oc_amount :: int

definition shop_new :: "(string, int) dict \<Rightarrow> int \<Rightarrow> shop" where
  "shop_new stock limit = \<lparr>sh_status = [], sh_stock = stock, sh_reservations = [], sh_limit = limit,
     sh_charged = [], sh_failures_left = 0, sh_scheduled = {}\<rparr>"

definition order_set_status :: "shop \<Rightarrow> string \<Rightarrow> string \<Rightarrow> unit result \<times> shop" where
  "order_set_status w i status = (Inr (), w\<lparr>sh_status := dict_set i status (sh_status w)\<rparr>)"

definition order_status :: "shop \<Rightarrow> string \<Rightarrow> string" where
  "order_status w i = (case dict_get (sh_status w) i of None \<Rightarrow> ''NONE'' | Some s \<Rightarrow> s)"

definition shop_stock :: "shop \<Rightarrow> string \<Rightarrow> int" where
  "shop_stock w sku = (case dict_get (sh_stock w) sku of None \<Rightarrow> 0 | Some n \<Rightarrow> n)"

definition inv_reserve :: "shop \<Rightarrow> string \<Rightarrow> string \<Rightarrow> int \<Rightarrow> unit result \<times> shop" where
  "inv_reserve w i sku qty =
     (if dict_get (sh_reservations w) i \<noteq> None then (Inr (), w)
      else if shop_stock w sku < qty then (Inl StepFailed, w)
      else case dict_get (sh_stock w) sku of
             None \<Rightarrow> (Inl KeyError, w)
           | Some n \<Rightarrow> (Inr (), w\<lparr>sh_stock := dict_set sku (n - qty) (sh_stock w),
                               sh_reservations := dict_set i (sku, qty) (sh_reservations w)\<rparr>))"

definition inv_release :: "shop \<Rightarrow> string \<Rightarrow> unit result \<times> shop" where
  "inv_release w i =
     (let w' = w\<lparr>sh_reservations := dict_del i (sh_reservations w)\<rparr>
      in case dict_get (sh_reservations w) i of
           None \<Rightarrow> (Inr (), w')
         | Some (sku, qty) \<Rightarrow>
             (case dict_get (sh_stock w) sku of
                None \<Rightarrow> (Inl KeyError, w')
              | Some n \<Rightarrow> (Inr (), w'\<lparr>sh_stock := dict_set sku (n + qty) (sh_stock w')\<rparr>)))"

definition inv_reservations :: "shop \<Rightarrow> nat" where
  "inv_reservations w = length (sh_reservations w)"

definition pay_charge :: "shop \<Rightarrow> string \<Rightarrow> int \<Rightarrow> unit result \<times> shop" where
  "pay_charge w i amount =
     (if dict_get (sh_charged w) i \<noteq> None then (Inr (), w)
      else if amount > sh_limit w then (Inl StepFailed, w)
      else (Inr (), w\<lparr>sh_charged := dict_set i amount (sh_charged w)\<rparr>))"

definition pay_charged :: "shop \<Rightarrow> string \<Rightarrow> int" where
  "pay_charged w i = (case dict_get (sh_charged w) i of None \<Rightarrow> 0 | Some n \<Rightarrow> n)"

definition ship_fail_next :: "shop \<Rightarrow> int \<Rightarrow> shop" where
  "ship_fail_next w n = w\<lparr>sh_failures_left := n\<rparr>"

definition ship_schedule :: "shop \<Rightarrow> string \<Rightarrow> unit result \<times> shop" where
  "ship_schedule w i =
     (if i \<in> sh_scheduled w then (Inr (), w)
      else if sh_failures_left w > 0
      then (Inl TransientError, w\<lparr>sh_failures_left := sh_failures_left w - 1\<rparr>)
      else (Inr (), w\<lparr>sh_scheduled := insert i (sh_scheduled w)\<rparr>))"

text \<open>A lambda over the services: it reads the context and leaves it as it was.\<close>

definition service_call :: "(order_ctx \<Rightarrow> shop \<Rightarrow> unit result \<times> shop) \<Rightarrow> (order_ctx, shop) action" where
  "service_call f ctx w = (case f ctx w of (res, w') \<Rightarrow> (res, ctx, w'))"

definition set_status_step :: "string \<Rightarrow> (order_ctx, shop) action" where
  "set_status_step status = service_call (\<lambda>ctx w. order_set_status w (oc_order ctx) status)"

definition order_steps :: "(order_ctx, shop) step list" where
  "order_steps =
     [\<lparr>st_name = ''create_order'', st_action = set_status_step ''PENDING'',
       st_compensation = Some (set_status_step ''CANCELLED''), st_kind = COMPENSATABLE\<rparr>,
      \<lparr>st_name = ''reserve_inventory'',
       st_action = service_call (\<lambda>ctx w. inv_reserve w (oc_order ctx) (oc_sku ctx) (oc_qty ctx)),
       st_compensation = Some (service_call (\<lambda>ctx w. inv_release w (oc_order ctx))), st_kind = COMPENSATABLE\<rparr>,
      \<lparr>st_name = ''charge_card'', st_action = service_call (\<lambda>ctx w. pay_charge w (oc_order ctx) (oc_amount ctx)),
       st_compensation = None, st_kind = PIVOT\<rparr>,
      \<lparr>st_name = ''schedule_shipment'', st_action = service_call (\<lambda>ctx w. ship_schedule w (oc_order ctx)),
       st_compensation = None, st_kind = RETRIABLE\<rparr>,
      \<lparr>st_name = ''confirm_order'', st_action = set_status_step ''CONFIRMED'',
       st_compensation = None, st_kind = RETRIABLE\<rparr>]"

definition order_saga :: "int \<Rightarrow> (order_ctx, shop) orchestrator result" where
  "order_saga max_attempts = orchestrator_new order_steps max_attempts"

type_synonym shop_sys = "(order_ctx, shop) saga_sys"

text \<open>
  Everything that happens to the shop: sagas are started under their order's id, resumed, crash
  points are armed, the shipping service is told to time out.
\<close>

inductive shop_step :: "shop_sys \<Rightarrow> shop_sys \<Rightarrow> bool" where
  start: "saga_start sys (oc_order ctx) ctx = (res, sys') \<Longrightarrow> shop_step sys sys'"
| resume: "saga_resume sys i = (res, sys') \<Longrightarrow> shop_step sys sys'"
| arm: "shop_step sys (sys\<lparr>sy_orch := saga_crash_after (sy_orch sys) name\<rparr>)"
| time_out: "shop_step sys (sys\<lparr>sy_world := ship_fail_next (sy_world sys) n\<rparr>)"

definition shop_init :: "(string, int) dict \<Rightarrow> int \<Rightarrow> (order_ctx, shop) orchestrator \<Rightarrow> shop_sys" where
  "shop_init stock limit orch = \<lparr>sy_orch = orch, sy_log = [], sy_world = shop_new stock limit\<rparr>"

section \<open>How far an order has got\<close>

text \<open>The effects of the first \<open>p\<close> steps of an order are in the services, and no others.\<close>

definition progress :: "nat \<Rightarrow> order_ctx \<Rightarrow> shop \<Rightarrow> bool" where
  "progress p ctx w \<longleftrightarrow>
     (0 < p \<longrightarrow> dict_get (sh_status w) (oc_order ctx) = Some (if p = 5 then ''CONFIRMED'' else ''PENDING'')) \<and>
     dict_get (sh_reservations w) (oc_order ctx) = (if 2 \<le> p then Some (oc_sku ctx, oc_qty ctx) else None) \<and>
     dict_get (sh_charged w) (oc_order ctx) = (if 3 \<le> p then Some (oc_amount ctx) else None) \<and>
     (oc_order ctx \<in> sh_scheduled w \<longleftrightarrow> 4 \<le> p)"

definition order_undone :: "order_ctx \<Rightarrow> shop \<Rightarrow> bool" where
  "order_undone ctx w \<longleftrightarrow>
     dict_get (sh_status w) (oc_order ctx) = Some ''CANCELLED'' \<and>
     dict_get (sh_reservations w) (oc_order ctx) = None \<and>
     dict_get (sh_charged w) (oc_order ctx) = None \<and> oc_order ctx \<notin> sh_scheduled w"

text \<open>What one order may not do to another.\<close>

definition same_others :: "string \<Rightarrow> shop \<Rightarrow> shop \<Rightarrow> bool" where
  "same_others i w w' \<longleftrightarrow> (\<forall>j. j \<noteq> i \<longrightarrow>
     dict_get (sh_status w') j = dict_get (sh_status w) j \<and>
     dict_get (sh_reservations w') j = dict_get (sh_reservations w) j \<and>
     dict_get (sh_charged w') j = dict_get (sh_charged w) j \<and>
     (j \<in> sh_scheduled w' \<longleftrightarrow> j \<in> sh_scheduled w))"

definition reserved_of :: "string \<Rightarrow> shop \<Rightarrow> int" where
  "reserved_of sku w = sum_list (map (\<lambda>(i, s, q). if s = sku then q else 0) (sh_reservations w))"

text \<open>No unit is lost: what is in stock and what is reserved add up to the initial stock.\<close>

definition stock_ok :: "(string, int) dict \<Rightarrow> shop \<Rightarrow> bool" where
  "stock_ok stock w \<longleftrightarrow> dict_ok (sh_stock w) \<and> dict_ok (sh_reservations w) \<and>
     (\<forall>i s q. dict_get (sh_reservations w) i = Some (s, q) \<longrightarrow> dict_get (sh_stock w) s \<noteq> None) \<and>
     (\<forall>s. shop_stock w s + reserved_of s w = (case dict_get stock s of None \<Rightarrow> 0 | Some n \<Rightarrow> n))"

lemma sum_dict_del:
  fixes f :: "'k \<times> 'v \<Rightarrow> int"
  assumes "dict_ok d" "dict_get d k = Some v"
  shows "sum_list (map f (dict_del k d)) = sum_list (map f d) - f (k, v)"
  using assms
proof (induction d)
  case (Cons kv d)
  show ?case
  proof (cases "fst kv = k")
    case True
    with Cons.prems have "dict_del k d = d" "kv = (k, v)"
      by (auto simp: dict_ok_def image_iff)
    then show ?thesis by simp
  qed (use Cons in \<open>auto simp: dict_ok_def\<close>)
qed simp

lemma stock_ok_reserve:
  assumes "stock_ok stock w" "inv_reserve w i sku qty = (res, w')"
  shows "stock_ok stock w'"
proof (cases "w' = w")
  case False
  with assms(2) have "dict_get (sh_reservations w) i = None"
    unfolding inv_reserve_def by (metis prod.inject)
  with False assms(2) obtain n where n: "dict_get (sh_reservations w) i = None" "dict_get (sh_stock w) sku = Some n"
    and w': "w' = w\<lparr>sh_stock := dict_set sku (n - qty) (sh_stock w),
                  sh_reservations := dict_set i (sku, qty) (sh_reservations w)\<rparr>"
    by (auto simp: inv_reserve_def split: if_splits option.splits)
  have "reserved_of s w' = reserved_of s w + (if s = sku then qty else 0)" for s
    unfolding reserved_of_def w' using sum_dict_set_new [OF n(1), of "\<lambda>(i, s', q). if s' = s then q else 0"]
    by auto
  moreover have "shop_stock w' s = shop_stock w s - (if s = sku then qty else 0)" for s
    using n(2) by (simp add: shop_stock_def w')
  ultimately show ?thesis
    using assms(1) n(2) unfolding stock_ok_def by (auto simp: w' split: if_splits)
qed (use assms in simp)

lemma stock_ok_release:
  assumes "stock_ok stock w"
  shows "stock_ok stock (snd (inv_release w i)) \<and> fst (inv_release w i) = Inr ()"
proof (cases "dict_get (sh_reservations w) i")
  case None
  then have "dict_del i (sh_reservations w) = sh_reservations w"
    by (simp add: dict_get_None)
  with None assms show ?thesis by (simp add: inv_release_def Let_def)
next
  case (Some sq)
  obtain sku qty where sq: "sq = (sku, qty)" by fastforce
  with Some assms have "dict_get (sh_stock w) sku \<noteq> None" unfolding stock_ok_def by blast
  then obtain n where n: "dict_get (sh_stock w) sku = Some n" by auto
  let ?w = "w\<lparr>sh_reservations := dict_del i (sh_reservations w), sh_stock := dict_set sku (n + qty) (sh_stock w)\<rparr>"
  have w': "inv_release w i = (Inr (), ?w)" using Some sq n by (simp add: inv_release_def Let_def)
  have ok: "dict_ok (sh_reservations w)" using assms by (simp add: stock_ok_def)
  have "reserved_of s ?w = reserved_of s w - (if s = sku then qty else 0)" for s
    unfolding reserved_of_def
    using sum_dict_del [OF ok Some, of "\<lambda>(i, s', q). if s' = s then q else 0"] sq by auto
  moreover have "shop_stock ?w s = shop_stock w s + (if s = sku then qty else 0)" for s
    using n by (simp add: shop_stock_def)
  ultimately have "stock_ok stock ?w"
    using assms n unfolding stock_ok_def by (auto split: if_splits)
  with w' show ?thesis by simp
qed


lemma attempt_loop_inv:
  assumes run: "attempt_loop name (service_call f) ns r w = (x, r', w')"
    and call: "\<And>v res v'. J v \<Longrightarrow> f (sr_context r) v = (res, v') \<Longrightarrow>
      (case res of Inr _ \<Rightarrow> JT v' | Inl e \<Rightarrow> if e = StepFailed \<or> e = TransientError then JF v' else J v')"
    and sub: "\<And>v. JF v \<Longrightarrow> J v"
    and start: "J w" "ns = [] \<Longrightarrow> JF w"
  shows "sr_context r' = sr_context r \<and> (case x of Inr b \<Rightarrow> if b then JT w' else JF w' | Inl e \<Rightarrow> J w')"
  using run call start
proof (induction ns arbitrary: r w)
  case (Cons n ns)
  obtain res v where f: "f (sr_context r) w = (res, v)" by fastforce
  from Cons.prems(2) [OF Cons.prems(3) f]
  have post: "case res of Inr _ \<Rightarrow> JT v | Inl e \<Rightarrow> if e = StepFailed \<or> e = TransientError then JF v else J v" .
  have act: "service_call f (sr_context r) w = (res, sr_context r, v)" by (simp add: service_call_def f)
  show ?case
  proof (cases "res = Inl TransientError")
    case True
    with Cons.prems(1) f have rest: "attempt_loop name (service_call f) ns (log_append r name ''failed'' n) v = (x, r', w')"
      by (simp add: act Let_def)
    have ctx: "sr_context (log_append r name ''failed'' n) = sr_context r" by (simp add: log_append_def)
    from post True have "JF v" by simp
    then show ?thesis
      using Cons.IH [OF rest, unfolded ctx, OF Cons.prems(2)] sub by simp
  next
    case False
    with Cons.prems(1) f post show ?thesis
      by (auto simp: act Let_def log_append_def split: sum.splits if_splits)
  qed
qed auto

lemma same_others_trans: "same_others i u v \<Longrightarrow> same_others i v w \<Longrightarrow> same_others i u w"
  by (simp add: same_others_def)

lemma inv_reserve_cases:
  assumes "inv_reserve w i sku qty = (res, w')"
  obtains (again) "res = Inr ()" "w' = w" "dict_get (sh_reservations w) i \<noteq> None"
  | (fails) e where "res = Inl e" "w' = w" "dict_get (sh_reservations w) i = None"
  | (first) n where "res = Inr ()" "dict_get (sh_reservations w) i = None"
      "w' = w\<lparr>sh_stock := dict_set sku n (sh_stock w), sh_reservations := dict_set i (sku, qty) (sh_reservations w)\<rparr>"
  using assms by (cases "dict_get (sh_reservations w) i") (auto simp: inv_reserve_def split: if_splits option.splits)

lemma stock_ok_simps [simp]:
  "stock_ok stock (w\<lparr>sh_status := x\<rparr>) = stock_ok stock w"
  "stock_ok stock (w\<lparr>sh_charged := y\<rparr>) = stock_ok stock w"
  "stock_ok stock (w\<lparr>sh_scheduled := z\<rparr>) = stock_ok stock w"
  "stock_ok stock (w\<lparr>sh_failures_left := n\<rparr>) = stock_ok stock w"
  by (simp_all add: stock_ok_def shop_stock_def reserved_of_def)

definition at_step :: "(string, int) dict \<Rightarrow> order_ctx \<Rightarrow> shop \<Rightarrow> nat set \<Rightarrow> shop \<Rightarrow> bool" where
  "at_step stock ctx w0 ps w \<longleftrightarrow> stock_ok stock w \<and> same_others (oc_order ctx) w0 w \<and> (\<exists>p \<in> ps. progress p ctx w)"

lemma at_step_mono: "at_step stock ctx w0 ps w \<Longrightarrow> ps \<subseteq> qs \<Longrightarrow> at_step stock ctx w0 qs w"
  by (auto simp: at_step_def)

lemma step_create:
  assumes "at_step stock ctx w0 {0, 1} w" "order_set_status w (oc_order ctx) ''PENDING'' = (res, w')"
  shows "res = Inr () \<and> at_step stock ctx w0 {1} w'"
  using assms
  by (auto simp: at_step_def order_set_status_def progress_def same_others_def)

lemma step_reserve:
  assumes "at_step stock ctx w0 {1, 2} w" "inv_reserve w (oc_order ctx) (oc_sku ctx) (oc_qty ctx) = (res, w')"
  shows "case res of Inr _ \<Rightarrow> at_step stock ctx w0 {2} w' | Inl e \<Rightarrow> at_step stock ctx w0 {1} w'"
proof -
  have "stock_ok stock w'" using assms stock_ok_reserve by (auto simp: at_step_def)
  with assms show ?thesis
    by (cases rule: inv_reserve_cases [OF assms(2)])
      (auto simp: at_step_def progress_def same_others_def split: if_splits)
qed

lemma step_charge:
  assumes "at_step stock ctx w0 {2, 3} w" "pay_charge w (oc_order ctx) (oc_amount ctx) = (res, w')"
  shows "case res of Inr _ \<Rightarrow> at_step stock ctx w0 {3} w' | Inl e \<Rightarrow> at_step stock ctx w0 {2} w'"
  using assms
  by (auto simp: at_step_def pay_charge_def progress_def same_others_def split: if_splits)

lemma step_schedule:
  assumes "at_step stock ctx w0 {3, 4} w" "ship_schedule w (oc_order ctx) = (res, w')"
  shows "case res of Inr _ \<Rightarrow> at_step stock ctx w0 {4} w' | Inl e \<Rightarrow> at_step stock ctx w0 {3} w'"
  using assms
  by (auto simp: at_step_def ship_schedule_def progress_def same_others_def split: if_splits)

lemma step_confirm:
  assumes "at_step stock ctx w0 {4, 5} w" "order_set_status w (oc_order ctx) ''CONFIRMED'' = (res, w')"
  shows "res = Inr () \<and> at_step stock ctx w0 {5} w'"
  using assms
  by (auto simp: at_step_def order_set_status_def progress_def same_others_def)

definition order_call :: "nat \<Rightarrow> order_ctx \<Rightarrow> shop \<Rightarrow> unit result \<times> shop" where
  "order_call k ctx w =
     ([\<lambda>ctx w. order_set_status w (oc_order ctx) ''PENDING'',
      \<lambda>ctx w. inv_reserve w (oc_order ctx) (oc_sku ctx) (oc_qty ctx),
      \<lambda>ctx w. pay_charge w (oc_order ctx) (oc_amount ctx),
      \<lambda>ctx w. ship_schedule w (oc_order ctx),
      \<lambda>ctx w. order_set_status w (oc_order ctx) ''CONFIRMED''] ! k) ctx w"

lemma less_5: "k < (5::nat) \<longleftrightarrow> k = 0 \<or> k = 1 \<or> k = 2 \<or> k = 3 \<or> k = 4"
  by auto

lemma order_steps_action:
  "k < 5 \<Longrightarrow> st_action (order_steps ! k) = service_call (order_call k)"
  unfolding less_5 by (elim disjE) (intro ext, simp add: order_steps_def order_call_def set_status_step_def service_call_def)+

lemma order_call_step:
  assumes "k < 5" "at_step stock ctx w0 {k, Suc k} w" "order_call k ctx w = (res, w')"
  shows "case res of Inr _ \<Rightarrow> at_step stock ctx w0 {Suc k} w'
    | Inl e \<Rightarrow> k \<in> {1, 2, 3} \<and> at_step stock ctx w0 {k} w'"
  using assms step_create [of stock ctx w0 w res w'] step_reserve [of stock ctx w0 w res w']
    step_charge [of stock ctx w0 w res w'] step_schedule [of stock ctx w0 w res w']
    step_confirm [of stock ctx w0 w res w']
  unfolding less_5
  by (elim disjE) (auto simp: order_call_def numeral_2_eq_2 numeral_3_eq_3 eval_nat_numeral split: sum.splits)


section \<open>One run of the order saga\<close>

lemma order_attempt:
  assumes k: "k < 5" and max: "1 \<le> so_max_attempts orch" and here: "at_step stock (sr_context r) w0 {k, Suc k} w"
    and run: "attempt orch r name (st_action (order_steps ! k)) w = (x, r', w')"
  shows "sr_context r' = sr_context r \<and>
    (case x of Inr b \<Rightarrow> if b then at_step stock (sr_context r) w0 {Suc k} w'
                       else k \<in> {1, 2, 3} \<and> at_step stock (sr_context r) w0 {k} w'
     | Inl e \<Rightarrow> at_step stock (sr_context r) w0 {k, Suc k} w')"
proof (rule attempt_loop_inv)
  show "attempt_loop name (service_call (order_call k)) [1 .. so_max_attempts orch] r w = (x, r', w')"
    using run by (simp add: attempt_def order_steps_action [OF k])
  show "at_step stock (sr_context r) w0 {k, Suc k} w" by (rule here)
  show "[1 .. so_max_attempts orch] = [] \<Longrightarrow> k \<in> {1, 2, 3} \<and> at_step stock (sr_context r) w0 {k} w"
    using max by simp
  show "k \<in> {1, 2, 3} \<and> at_step stock (sr_context r) w0 {k} v \<Longrightarrow> at_step stock (sr_context r) w0 {k, Suc k} v" for v
    by (auto elim: at_step_mono)
  show "case res of Inr _ \<Rightarrow> at_step stock (sr_context r) w0 {Suc k} v'
      | Inl e \<Rightarrow> if e = StepFailed \<or> e = TransientError then k \<in> {1, 2, 3} \<and> at_step stock (sr_context r) w0 {k} v'
          else at_step stock (sr_context r) w0 {k, Suc k} v'"
    if "at_step stock (sr_context r) w0 {k, Suc k} v" "order_call k (sr_context r) v = (res, v')" for v res v'
    using order_call_step [OF k that] by (auto split: sum.splits elim: at_step_mono)
qed

lemma order_run_forward:
  assumes k: "k < 5" and max: "1 \<le> so_max_attempts orch" and here: "at_step stock (sr_context r) w0 {k, Suc k} w"
    and run: "run_forward orch r (order_steps ! k) w = (x, orch1, r1, w1)"
  shows "sr_context r1 = sr_context r \<and> so_max_attempts orch1 = so_max_attempts orch \<and>
    (case x of Inr b \<Rightarrow> if b then at_step stock (sr_context r) w0 {Suc k} w1
                       else k \<in> {1, 2, 3} \<and> at_step stock (sr_context r) w0 {k} w1
     | Inl e \<Rightarrow> at_step stock (sr_context r) w0 {k, Suc k} w1)"
proof -
  let ?s = "order_steps ! k" and ?r = "log_append r (st_name (order_steps ! k)) ''started'' 1"
  obtain y r' w' where a: "attempt orch ?r (st_name ?s) (st_action ?s) w = (y, r', w')" by (metis prod_cases3)
  have ctx: "sr_context ?r = sr_context r" by (simp add: log_append_def)
  note att = order_attempt [OF k max, of stock ?r, unfolded ctx, OF here a]
  have sub: "at_step stock (sr_context r) w0 {Suc k} w' \<Longrightarrow> at_step stock (sr_context r) w0 {k, Suc k} w'"
    by (auto elim: at_step_mono)
  from run a att sub show ?thesis
    by (auto simp: run_forward_def saga_maybe_crash_def log_append_def split: sum.splits bool.splits if_splits)
qed

definition window :: "nat \<Rightarrow> nat set" where
  "window k = (if k < 5 then {k, Suc k} else {5})"

definition forward_post :: "(string, int) dict \<Rightarrow> order_ctx \<Rightarrow> shop \<Rightarrow> order_ctx saga_record \<Rightarrow> shop \<Rightarrow> bool" where
  "forward_post stock ctx w0 r w \<longleftrightarrow> (\<exists>k \<le> 5. steps_with r ''done'' = map st_name (take k order_steps) \<and>
     (case sr_state r of
        RUNNING \<Rightarrow> at_step stock ctx w0 (window k) w
      | COMPLETED \<Rightarrow> at_step stock ctx w0 {5} w
      | COMPENSATING \<Rightarrow> k \<in> {1, 2} \<and> steps_with r ''compensated'' = [] \<and> at_step stock ctx w0 {k} w
      | STUCK \<Rightarrow> at_step stock ctx w0 {3} w
      | COMPENSATED \<Rightarrow> False))"

lemma order_kind: "k < 5 \<Longrightarrow> st_kind (order_steps ! k) = RETRIABLE \<longleftrightarrow> k = 3 \<or> k = 4"
  unfolding less_5 by (elim disjE) (simp_all add: order_steps_def)

lemma length_order_steps [simp]: "length order_steps = 5"
  by (simp add: order_steps_def)

lemma order_forward:
  assumes "forward_loop finished (drop k order_steps) orch r w = (res, orch', r', w')"
    and "k \<le> 5" "set (map st_name (drop k order_steps)) \<inter> finished = {}" "1 \<le> so_max_attempts orch"
    and "at_step stock (sr_context r) w0 (window k) w" "sr_state r = RUNNING"
    and "steps_with r ''done'' = map st_name (take k order_steps)" "steps_with r ''compensated'' = []"
  shows "sr_context r' = sr_context r \<and> so_max_attempts orch' = so_max_attempts orch \<and>
    forward_post stock (sr_context r) w0 r' w' \<and> (res = Inr () \<longrightarrow> sr_state r' \<noteq> RUNNING)"
  using assms
proof (induction "5 - k" arbitrary: k orch r w)
  case 0
  then have "k = 5" by simp
  with 0 show ?case
    by (auto simp: forward_post_def window_def log_set_state_def steps_with_def intro!: exI [of _ 5])
next
  case (Suc n)
  then have k: "k < 5" by simp
  have drop: "drop k order_steps = order_steps ! k # drop (Suc k) order_steps"
    using k by (simp add: Cons_nth_drop_Suc)
  have new: "st_name (order_steps ! k) \<notin> finished" using Suc.prems(3) by (simp add: drop)
  obtain x orch1 r1 w1 where f: "run_forward orch r (order_steps ! k) w = (x, orch1, r1, w1)" by (metis prod_cases4)
  have here: "at_step stock (sr_context r) w0 {k, Suc k} w" using Suc.prems(5) k by (simp add: window_def)
  note fwd = order_run_forward [OF k Suc.prems(4) here f]
  note log = run_forward_log [OF f]
  show ?case
  proof (cases "x = Inr True")
    case True
    have loop: "forward_loop finished (drop (Suc k) order_steps) orch1 r1 w1 = (res, orch', r', w')"
      using Suc.prems(1) f new True by (simp add: drop)
    have at: "at_step stock (sr_context r1) w0 (window (Suc k)) w1"
      using fwd True k by (auto simp: window_def elim: at_step_mono)
    have tk: "take (Suc k) order_steps = take k order_steps @ [order_steps ! k]"
      using k by (simp add: take_Suc_conv_app_nth)
    have "sr_context r' = sr_context r1 \<and> so_max_attempts orch' = so_max_attempts orch1 \<and>
        forward_post stock (sr_context r1) w0 r' w' \<and> (res = Inr () \<longrightarrow> sr_state r' \<noteq> RUNNING)"
      by (rule Suc.hyps(1) [OF _ loop _ _ _ at])
        (use Suc.hyps(2) Suc.prems log fwd True k tk drop in auto)
    with fwd show ?thesis by simp
  next
    case False
    have post: "forward_post stock (sr_context r) w0 r' w'"
      unfolding forward_post_def
      by (rule exI [of _ k])
        (use False f new Suc.prems fwd log k order_kind [OF k] here in
          \<open>auto simp: drop window_def split: sum.splits bool.splits if_splits\<close>)
    with False f new Suc.prems fwd log show ?thesis
      by (auto simp: drop log_set_state_def split: sum.splits bool.splits if_splits)
  qed
qed


lemma attempt_succeeds:
  assumes "1 \<le> so_max_attempts orch" "f (sr_context r) w = (Inr u, w')"
  shows "attempt orch r name (service_call f) w = (Inr True, r, w')"
  using assms by (simp add: attempt_def upto.simps [of 1] service_call_def Let_def)

lemma undo_create:
  "set_status_step s = service_call (\<lambda>ctx w. order_set_status w (oc_order ctx) s)"
  by (simp add: set_status_step_def)

lemma order_compensate:
  assumes run: "saga_compensate orch r w = (res, orch', r', w')" and steps: "so_steps orch = order_steps"
    and max: "1 \<le> so_max_attempts orch" and k: "k \<in> {1, 2}" and undone: "steps_with r ''compensated'' = []"
    and finished: "steps_with r ''done'' = map st_name (take k order_steps)"
    and here: "at_step stock (sr_context r) w0 {k} w"
  shows "res = Inr () \<and> orch' = orch \<and> sr_state r' = COMPENSATED \<and> sr_context r' = sr_context r \<and>
    stock_ok stock w' \<and> same_others (oc_order (sr_context r)) w0 w' \<and> order_undone (sr_context r) w'"
proof -
  let ?c = "sr_context r"
  have cancel: "attempt orch r1 nm (set_status_step s) v =
      (Inr True, r1, v\<lparr>sh_status := dict_set (oc_order (sr_context r1)) s (sh_status v)\<rparr>)" for r1 nm s v
    unfolding undo_create by (rule attempt_succeeds [OF max]) (simp add: order_set_status_def)
  obtain w1 where rel: "inv_release w (oc_order ?c) = (Inr (), w1)" and ok: "stock_ok stock w1"
    using stock_ok_release [of stock w "oc_order ?c"] here
    by (cases "inv_release w (oc_order ?c)") (auto simp: at_step_def)
  have release: "attempt orch r nm (service_call (\<lambda>ctx w. inv_release w (oc_order ctx))) w = (Inr True, r, w1)" for nm
    by (rule attempt_succeeds [OF max]) (simp add: rel)
  have w1: "sh_status w1 = sh_status w" "sh_reservations w1 = dict_del (oc_order ?c) (sh_reservations w)"
    "sh_charged w1 = sh_charged w" "sh_scheduled w1 = sh_scheduled w"
    using rel by (auto simp: inv_release_def Let_def split: option.splits)
  from k consider "k = 1" | "k = 2" by auto
  then show ?thesis
  proof cases
    case 1
    with run steps finished undone cancel here show ?thesis
      by (auto simp: saga_compensate_def order_steps_def log_append_def log_set_state_def order_undone_def
          at_step_def progress_def same_others_def)
  next
    case 2
    with run steps finished undone cancel release here w1 ok show ?thesis
      by (auto simp: saga_compensate_def order_steps_def numeral_2_eq_2 log_append_def log_set_state_def
          order_undone_def at_step_def progress_def same_others_def)
  qed
qed

definition order_rec_ok :: "(string, int) dict \<Rightarrow> order_ctx saga_record \<Rightarrow> shop \<Rightarrow> bool" where
  "order_rec_ok stock r w \<longleftrightarrow>
     (\<exists>k \<le> 5. steps_with r ''done'' = map st_name (take k order_steps) \<and>
        (case sr_state r of
           RUNNING \<Rightarrow> (\<exists>p \<in> window k. progress p (sr_context r) w) \<and> steps_with r ''compensated'' = []
         | COMPLETED \<Rightarrow> progress 5 (sr_context r) w
         | STUCK \<Rightarrow> progress 3 (sr_context r) w
         | COMPENSATED \<Rightarrow> order_undone (sr_context r) w
         | COMPENSATING \<Rightarrow> False))"

lemma forward_loop_keeps:
  "forward_loop finished rest orch r w = (res, orch', r', w') \<Longrightarrow>
   so_steps orch' = so_steps orch \<and> (\<forall>e. res = Inl e \<longrightarrow> sr_state r' = sr_state r)"
proof (induction rest arbitrary: orch r w)
  case (Cons s rest)
  obtain x orch1 r1 w1 where f: "run_forward orch r s w = (x, orch1, r1, w1)" by (metis prod_cases4)
  show ?case
  proof (cases "st_name s \<in> finished")
    case True
    with Cons show ?thesis by simp
  next
    case False
    with Cons.prems Cons.IH [of orch1 r1 w1] f run_forward_log [OF f] show ?thesis
      by (auto split: sum.splits bool.splits)
  qed
qed auto

lemma order_steps_valid: "saga_validate order_steps = Inr ()"
  by (simp add: saga_validate_def order_steps_def)

lemma order_drive:
  assumes run: "drive orch r w = (res, orch', r', w')" and steps: "so_steps orch = order_steps"
    and max: "1 \<le> so_max_attempts orch" and ok: "rec_ok order_steps r"
    and rec: "order_rec_ok stock r w" and stock: "stock_ok stock w"
  shows "sr_context r' = sr_context r \<and> so_max_attempts orch' = so_max_attempts orch \<and>
    order_rec_ok stock r' w' \<and> stock_ok stock w' \<and> same_others (oc_order (sr_context r)) w w'"
proof (cases "sr_state r = RUNNING")
  case False
  with rec have "sr_state r \<noteq> COMPENSATING" by (auto simp: order_rec_ok_def)
  with False run rec stock show ?thesis by (auto simp: drive_def same_others_def)
next
  case True
  from rec True obtain k p where k: "k \<le> 5" "steps_with r ''done'' = map st_name (take k order_steps)"
    and p: "p \<in> window k" "progress p (sr_context r) w" and undone: "steps_with r ''compensated'' = []"
    by (auto simp: order_rec_ok_def)
  obtain x orch1 r1 w1 where f: "forward_loop (set (steps_with r ''done'')) order_steps orch r w = (x, orch1, r1, w1)"
    by (metis prod_cases4)
  have loop: "forward_loop (set (steps_with r ''done'')) (drop k order_steps) orch r w = (x, orch1, r1, w1)"
    using f forward_loop_skip [of "take k order_steps" "set (steps_with r ''done'')" "drop k order_steps" orch r w] k
    by simp
  have "distinct (map st_name order_steps)" by (simp add: order_steps_def)
  then have disj: "set (map st_name (drop k order_steps)) \<inter> set (steps_with r ''done'') = {}"
    using k(2) by (metis append_take_drop_id distinct_append inf_commute map_append)
  have at: "at_step stock (sr_context r) w (window k) w"
    using p stock by (auto simp: at_step_def same_others_def)
  note fwd = order_forward [OF loop k(1) disj max at True k(2) undone]
  have log: "rec_ok order_steps r'"
    using drive_log [OF run] steps order_steps_valid ok by simp
  have o1: "so_steps orch1 = order_steps" and inl: "\<And>e. x = Inl e \<Longrightarrow> sr_state r1 = RUNNING"
    using forward_loop_keeps [OF f] steps True by auto
  from fwd obtain j where j: "j \<le> 5" "steps_with r1 ''done'' = map st_name (take j order_steps)"
    and st: "case sr_state r1 of
        RUNNING \<Rightarrow> at_step stock (sr_context r) w (window j) w1
      | COMPLETED \<Rightarrow> at_step stock (sr_context r) w {5} w1
      | COMPENSATING \<Rightarrow> j \<in> {1, 2} \<and> steps_with r1 ''compensated'' = [] \<and> at_step stock (sr_context r) w {j} w1
      | STUCK \<Rightarrow> at_step stock (sr_context r) w {3} w1
      | COMPENSATED \<Rightarrow> False"
    unfolding forward_post_def by blast
  show ?thesis
  proof (cases "sr_state r1 = COMPENSATING")
    case True
    obtain y orch2 r2 w2 where c: "saga_compensate orch1 r1 w1 = (y, orch2, r2, w2)" by (metis prod_cases4)
    have "j \<in> {1, 2}" "steps_with r1 ''compensated'' = []" "at_step stock (sr_context r1) w {j} w1"
      using st True fwd by auto
    then have cmp: "y = Inr () \<and> orch2 = orch1 \<and> sr_state r2 = COMPENSATED \<and> sr_context r2 = sr_context r1 \<and>
        stock_ok stock w2 \<and> same_others (oc_order (sr_context r1)) w w2 \<and> order_undone (sr_context r1) w2"
      using order_compensate [OF c o1, of j] max fwd j by auto
    have fin: "r' = r2" "w' = w2" "orch' = orch2"
      using run f c cmp True steps \<open>sr_state r = RUNNING\<close> inl
      by (auto simp: drive_def split: sum.splits)
    obtain i where "i \<le> 5" "steps_with r' ''done'' = map st_name (take i order_steps)"
      using log by (auto simp: rec_ok_def)
    with cmp fwd show ?thesis unfolding fin order_rec_ok_def by auto
  next
    case False
    with run f steps \<open>sr_state r = RUNNING\<close> have fin: "r' = r1" "w' = w1" "orch' = orch1"
      by (auto simp: drive_def split: sum.splits)
    have "sr_state r1 = RUNNING \<Longrightarrow> steps_with r1 ''compensated'' = []"
      using log fin by (auto simp: rec_ok_def)
    with st False fwd j show ?thesis
      unfolding fin order_rec_ok_def at_step_def by (cases "sr_state r1") auto
  qed
qed


section \<open>The shop as a whole\<close>

definition shop_reachable :: "(string, int) dict \<Rightarrow> int \<Rightarrow> int \<Rightarrow> shop_sys \<Rightarrow> bool" where
  "shop_reachable stock limit max_attempts sys \<longleftrightarrow>
     (\<exists>orch. order_saga max_attempts = Inr orch \<and> shop_step\<^sup>*\<^sup>* (shop_init stock limit orch) sys)"

definition slot_ok :: "(string, int) dict \<Rightarrow> order_ctx saga_record option \<Rightarrow> shop \<Rightarrow> string \<Rightarrow> bool" where
  "slot_ok stock slot w i \<longleftrightarrow>
     (case slot of
        Some r \<Rightarrow> oc_order (sr_context r) = i \<and> rec_ok order_steps r \<and> order_rec_ok stock r w
      | None \<Rightarrow> \<forall>ctx. oc_order ctx = i \<longrightarrow> progress 0 ctx w)"

definition shop_inv :: "(string, int) dict \<Rightarrow> shop_sys \<Rightarrow> bool" where
  "shop_inv stock sys \<longleftrightarrow> so_steps (sy_orch sys) = order_steps \<and> 1 \<le> so_max_attempts (sy_orch sys) \<and>
     stock_ok stock (sy_world sys) \<and>
     (\<forall>i. slot_ok stock (dict_get (sy_log sys) i) (sy_world sys) i)"

lemma progress_frame: "same_others i w w' \<Longrightarrow> oc_order ctx \<noteq> i \<Longrightarrow> progress p ctx w' = progress p ctx w"
  by (simp add: progress_def same_others_def)

lemma order_undone_frame: "same_others i w w' \<Longrightarrow> oc_order ctx \<noteq> i \<Longrightarrow> order_undone ctx w' = order_undone ctx w"
  by (simp add: order_undone_def same_others_def)

lemma order_rec_ok_frame:
  "same_others i w w' \<Longrightarrow> oc_order (sr_context r) \<noteq> i \<Longrightarrow> order_rec_ok stock r w' = order_rec_ok stock r w"
  unfolding order_rec_ok_def by (cases "sr_state r") (simp_all add: progress_frame order_undone_frame)

lemma shop_inv_drive:
  assumes inv: "so_steps (sy_orch sys) = order_steps" "1 \<le> so_max_attempts (sy_orch sys)"
      "stock_ok stock (sy_world sys)"
    and r: "oc_order (sr_context r) = i" "rec_ok order_steps r" "order_rec_ok stock r (sy_world sys)"
    and others: "\<And>j. j \<noteq> i \<Longrightarrow> slot_ok stock (dict_get (sy_log sys) j) (sy_world sys) j"
    and run: "drive_in sys i r = (res, sys')"
  shows "shop_inv stock sys'"
proof -
  obtain x orch' r' w' where d: "drive (sy_orch sys) r (sy_world sys) = (x, orch', r', w')" by (metis prod_cases4)
  with run have sys': "sys' = \<lparr>sy_orch = orch', sy_log = dict_set i r' (sy_log sys), sy_world = w'\<rparr>"
    by (simp add: drive_in_def)
  note post = order_drive [OF d inv(1,2) r(2,3) inv(3)]
  have log: "so_steps orch' = order_steps" "rec_ok order_steps r'"
    using drive_log [OF d] inv(1) order_steps_valid r(2) by auto
  have others': "slot_ok stock (dict_get (sy_log sys) j) w' j" if "j \<noteq> i" for j
    using others [OF that] post that r(1)
      order_rec_ok_frame [of i "sy_world sys" w'] progress_frame [of i "sy_world sys" w']
    by (auto simp: slot_ok_def split: option.splits)
  have "slot_ok stock (dict_get (dict_set i r' (sy_log sys)) j) w' j" for j
    using others' [of j] post log(2) r(1) by (cases "j = i") (auto simp: slot_ok_def)
  then show ?thesis
    unfolding shop_inv_def sys' using inv(2) log(1) post by simp
qed

lemma shop_step_inv: "shop_step sys sys' \<Longrightarrow> shop_inv stock sys \<Longrightarrow> shop_inv stock sys'"
proof (induction rule: shop_step.induct)
  case (start sys ctx res sys')
  show ?case
  proof (cases "dict_get (sy_log sys) (oc_order ctx)")
    case None
    let ?r = "\<lparr>sr_id = oc_order ctx, sr_context = ctx, sr_state = RUNNING, sr_entries = []\<rparr>"
    let ?sys = "sys\<lparr>sy_log := dict_set (oc_order ctx) ?r (sy_log sys)\<rparr>"
    from start(2) None have "progress 0 ctx (sy_world sys)"
      unfolding shop_inv_def slot_ok_def by (auto dest!: spec [of _ "oc_order ctx"])
    then have rec: "order_rec_ok stock ?r (sy_world sys)"
      by (auto simp: order_rec_ok_def steps_with_def window_def intro!: exI [of _ 0])
    have "rec_ok order_steps ?r" by (auto simp: rec_ok_def steps_with_def intro!: exI [of _ 0])
    moreover have "drive_in ?sys (oc_order ctx) ?r = (res, sys')"
      using start(1) None by (simp add: saga_start_def log_create_def Let_def)
    ultimately show ?thesis
      using start(2) rec by (intro shop_inv_drive [of ?sys stock ?r "oc_order ctx"]) (auto simp: shop_inv_def)
  next
    case (Some r)
    with start show ?thesis by (simp add: saga_start_def log_create_def)
  qed
next
  case (resume sys i res sys')
  show ?case
  proof (cases "dict_get (sy_log sys) i")
    case None
    with resume show ?thesis by (simp add: saga_resume_def log_get_def)
  next
    case (Some r)
    with resume(2) have "oc_order (sr_context r) = i" "rec_ok order_steps r" "order_rec_ok stock r (sy_world sys)"
      unfolding shop_inv_def slot_ok_def by (auto dest!: spec [of _ i])
    moreover from Some resume(1) have "drive_in sys i r = (res, sys')" by (simp add: saga_resume_def log_get_def)
    ultimately show ?thesis
      using resume(2) by (intro shop_inv_drive [of sys stock r i]) (auto simp: shop_inv_def)
  qed
next
  case (arm sys name)
  then show ?case by (simp add: shop_inv_def saga_crash_after_def)
next
  case (time_out sys n)
  have same: "progress p ctx (ship_fail_next (sy_world sys) n) = progress p ctx (sy_world sys)"
    "order_undone ctx (ship_fail_next (sy_world sys) n) = order_undone ctx (sy_world sys)" for p ctx
    by (simp_all add: progress_def order_undone_def ship_fail_next_def)
  then have "order_rec_ok stock r (ship_fail_next (sy_world sys) n) = order_rec_ok stock r (sy_world sys)" for r
    unfolding order_rec_ok_def by (cases "sr_state r") simp_all
  with same have "slot_ok stock x (ship_fail_next (sy_world sys) n) i = slot_ok stock x (sy_world sys) i" for x i
    by (simp add: slot_ok_def split: option.split)
  with time_out show ?case by (simp add: shop_inv_def) (simp add: ship_fail_next_def)
qed

lemma shop_reachable_inv:
  assumes "shop_reachable stock limit max_attempts sys" "dict_ok stock"
  shows "shop_inv stock sys"
proof -
  from assms(1) obtain orch where orch: "order_saga max_attempts = Inr orch"
    and steps: "shop_step\<^sup>*\<^sup>* (shop_init stock limit orch) sys"
    by (auto simp: shop_reachable_def)
  have "stock_ok stock (shop_new stock limit)"
    using assms(2) by (simp add: stock_ok_def shop_new_def shop_stock_def reserved_of_def)
  then have init: "shop_inv stock (shop_init stock limit orch)"
    using orch by (auto simp: shop_inv_def shop_init_def order_saga_def orchestrator_new_def progress_def shop_new_def
        slot_ok_def split: if_splits sum.splits)
  from steps show ?thesis
    by (induction rule: rtranclp_induct) (use init shop_step_inv in blast)+
qed



text \<open>No unit is lost or sold twice: in every reachable state, for every article, what is left in
  stock and what the open reservations hold add up to the initial stock.\<close>

theorem saga_stock_conserved:
  assumes "shop_reachable stock limit max_attempts sys" "dict_ok stock"
  shows "shop_stock (sy_world sys) sku + reserved_of sku (sy_world sys) = shop_stock (shop_new stock limit) sku"
  using shop_reachable_inv [OF assms] by (simp add: shop_inv_def stock_ok_def shop_stock_def shop_new_def)

text \<open>The log tells the truth about any saga, whatever its actions do: when the steps pass
  validation, a run or a resumption that returns ends completed, compensated or stuck; whether it
  returns or dies, the steps done stay a prefix of the saga, a completed saga has done them all, and
  compensation goes backwards from the last step done, each step once and none at or after the
  pivot, over all of them when the saga ends compensated.\<close>

theorem saga_log_truth:
  assumes "orchestrator_new steps max_attempts = Inr orch0" "so_steps orch = so_steps orch0"
    and "rec_ok steps r" and "drive orch r w = (res, orch', r', w')"
  shows "rec_ok steps r' \<and> so_steps orch' = steps \<and>
    (\<forall>s. res = Inr s \<longrightarrow> s = sr_state r' \<and> s \<in> {COMPLETED, COMPENSATED, STUCK})"
proof -
  have "so_steps orch = steps" "saga_validate steps = Inr ()"
    using assms(1,2) by (auto simp: orchestrator_new_def split: if_splits sum.splits)
  then show ?thesis using drive_log [OF assms(4)] assms(3) by auto
qed

section \<open>A day in the shop\<close>

definition demo_ctx :: "string \<Rightarrow> int \<Rightarrow> order_ctx" where
  "demo_ctx i amount = \<lparr>oc_order = i, oc_sku = ''sku-1'', oc_qty = 1, oc_amount = amount\<rparr>"

definition demo_orch :: "(order_ctx, shop) orchestrator" where
  "demo_orch = \<lparr>so_steps = order_steps, so_max_attempts = 3, so_crash_after = None\<rparr>"

definition demo_start :: "string \<Rightarrow> int \<Rightarrow> shop_sys \<Rightarrow> shop_sys" where
  "demo_start i amount sys = snd (saga_start sys (oc_order (demo_ctx i amount)) (demo_ctx i amount))"

definition demo_arm :: "string \<Rightarrow> shop_sys \<Rightarrow> shop_sys" where
  "demo_arm name sys = sys\<lparr>sy_orch := saga_crash_after (sy_orch sys) (Some name)\<rparr>"

text \<open>Two orders: the first crashes after its reservation, the second is declined at the pivot, and
  then the first is resumed while shipping times out twice.\<close>

definition demo_shop :: shop_sys where
  "demo_shop =
     (let s = shop_init [(''sku-1'', 10)] 500 demo_orch;
          s = demo_start ''o-1'' 120 (demo_arm ''reserve_inventory'' s);
          s = demo_start ''o-2'' 900 s;
          s = s\<lparr>sy_world := ship_fail_next (sy_world s) 2\<rparr>
      in snd (saga_resume s ''o-1''))"

lemma demo_shop_reachable: "shop_reachable [(''sku-1'', 10)] 500 3 demo_shop"
proof -
  have start: "shop_step\<^sup>*\<^sup>* s0 (demo_start i a s)" if "shop_step\<^sup>*\<^sup>* s0 s" for s0 s i a
    using that shop_step.start [of s "demo_ctx i a"] unfolding demo_start_def
    by (metis prod.collapse rtranclp.rtrancl_into_rtrancl)
  have arm: "shop_step\<^sup>*\<^sup>* s0 (demo_arm n s)" if "shop_step\<^sup>*\<^sup>* s0 s" for s0 s n
    using that shop_step.arm unfolding demo_arm_def by (metis rtranclp.rtrancl_into_rtrancl)
  have resume: "shop_step\<^sup>*\<^sup>* s0 (snd (saga_resume s i))" if "shop_step\<^sup>*\<^sup>* s0 s" for s0 s i
    using that shop_step.resume [of s i] by (metis prod.collapse rtranclp.rtrancl_into_rtrancl)
  have late: "shop_step\<^sup>*\<^sup>* s0 (s\<lparr>sy_world := ship_fail_next (sy_world s) n\<rparr>)" if "shop_step\<^sup>*\<^sup>* s0 s" for s0 s n
    using that shop_step.time_out by (metis rtranclp.rtrancl_into_rtrancl)
  have "order_saga 3 = Inr demo_orch"
    using order_steps_valid by (simp add: order_saga_def orchestrator_new_def demo_orch_def order_steps_def)
  then show ?thesis
    unfolding shop_reachable_def demo_shop_def Let_def 
    by (intro exI [of _ demo_orch] conjI resume late start arm) simp_all
qed


theorem saga_stock_conserved_witness:
  "shop_stock (sy_world demo_shop) ''sku-1'' = 9 \<and> reserved_of ''sku-1'' (sy_world demo_shop) = 1"
proof -
  have "shop_stock (sy_world demo_shop) ''sku-1'' = 9" by code_simp
  moreover have "dict_ok [(''sku-1'', 10 :: int)]" by (simp add: dict_ok_def)
  ultimately show ?thesis
    using saga_stock_conserved [OF demo_shop_reachable, of "''sku-1''"] by (simp add: shop_stock_def shop_new_def)
qed

theorem saga_log_truth_witness:
  "\<exists>r'. fst (drive (demo_orch\<lparr>so_crash_after := Some ''create_order''\<rparr>)
      \<lparr>sr_id = ''o'', sr_context = demo_ctx ''o'' 900, sr_state = RUNNING, sr_entries = []\<rparr>
      (shop_new [(''sku-1'', 10)] 500)) = Inl OrchestratorCrash \<and> rec_ok order_steps r' \<and> sr_entries r' \<noteq> []"
proof -
  let ?r = "\<lparr>sr_id = ''o'', sr_context = demo_ctx ''o'' 900, sr_state = RUNNING, sr_entries = []\<rparr>"
  let ?o = "demo_orch\<lparr>so_crash_after := Some ''create_order''\<rparr>"
  let ?d = "drive ?o ?r (shop_new [(''sku-1'', 10)] 500)"
  have new: "orchestrator_new order_steps 3 = Inr demo_orch"
    using order_steps_valid by (simp add: orchestrator_new_def demo_orch_def order_steps_def)
  have o: "so_steps ?o = so_steps demo_orch" by simp
  have rec: "rec_ok order_steps ?r" by (auto simp: rec_ok_def steps_with_def intro!: exI [of _ 0])
  have run: "?d = (fst ?d, fst (snd ?d), fst (snd (snd ?d)), snd (snd (snd ?d)))" by simp
  have "fst ?d = Inl OrchestratorCrash" "sr_entries (fst (snd (snd ?d))) \<noteq> []" by code_simp+
  with saga_log_truth [OF new o rec run] show ?thesis by blast
qed

end
