(* ===== verification/Inventory.thy ===== *)
theory Inventory
  imports Common Saga
begin

text \<open>
  Inventory reservations, \<^verbatim>\<open>code/hld/inventory_reservation.py\<close>: a stock table with holds that expire,
  optimistic-lock versions and an idempotency key per order; the sharded flash-sale counter; and the
  checkout saga that reserves, charges, commits and ships. Every method takes the lock for its whole
  body, so it is one atomic step; the clock's reading is an argument. The id source is a parameter.
\<close>

section \<open>Stock and reservations\<close>

datatype reservation_state = HELD | COMMITTED | RELEASED | EXPIRED

record stock_item =
  si_sku :: string
  si_on_hand :: int
  si_reserved :: int
  si_version :: int

definition si_available :: "stock_item \<Rightarrow> int" where
  "si_available item = si_on_hand item - si_reserved item"

record reservation =
  rv_id :: string
  rv_order :: string
  rv_lines :: "(string, int) dict"
  rv_expires_at :: time
  rv_versions :: "(string, int) dict"
  rv_state :: reservation_state

definition rv_is_live :: "reservation \<Rightarrow> bool" where
  "rv_is_live r \<longleftrightarrow> rv_state r \<in> {HELD, COMMITTED}"

record 'g inventory =
  iv_ids :: 'g
  iv_ttl :: time
  iv_stock :: "(string, stock_item) dict"
  iv_reservations :: "(string, reservation) dict"
  iv_by_order :: "(string, string) dict"

definition inventory_new :: "'g \<Rightarrow> time \<Rightarrow> 'g inventory result" where
  "inventory_new ids ttl =
     (if ttl \<le> 0 then Inl ValidationError
      else Inr \<lparr>iv_ids = ids, iv_ttl = ttl, iv_stock = [], iv_reservations = [], iv_by_order = []\<rparr>)"

definition iv_stock_in :: "'g inventory \<Rightarrow> string \<Rightarrow> int \<Rightarrow> stock_item result \<times> 'g inventory" where
  "iv_stock_in iv sku quantity =
     (if quantity \<le> 0 then (Inl ValidationError, iv)
      else let item = (case dict_get (iv_stock iv) sku of
                         Some item \<Rightarrow> item
                       | None \<Rightarrow> \<lparr>si_sku = sku, si_on_hand = 0, si_reserved = 0, si_version = 0\<rparr>);
               item' = item\<lparr>si_on_hand := si_on_hand item + quantity, si_version := si_version item + 1\<rparr>
           in (Inr item', iv\<lparr>iv_stock := dict_set sku item' (iv_stock iv)\<rparr>))"

text \<open>The loop over the lines of a reservation that changes one stock row per line.\<close>

fun each_line ::
  "(stock_item \<Rightarrow> int \<Rightarrow> stock_item) \<Rightarrow> (string \<times> int) list \<Rightarrow> (string, stock_item) dict \<Rightarrow>
   unit result \<times> (string, stock_item) dict" where
  "each_line f [] stock = (Inr (), stock)"
| "each_line f ((sku, qty) # lines) stock =
     (case dict_get stock sku of
        None \<Rightarrow> (Inl KeyError, stock)
      | Some item \<Rightarrow> each_line f lines (dict_set sku (f item qty) stock))"

definition hold_line :: "stock_item \<Rightarrow> int \<Rightarrow> stock_item" where
  "hold_line item qty = item\<lparr>si_reserved := si_reserved item + qty, si_version := si_version item + 1\<rparr>"

definition return_line :: "stock_item \<Rightarrow> int \<Rightarrow> stock_item" where
  "return_line item qty = item\<lparr>si_reserved := si_reserved item - qty, si_version := si_version item + 1\<rparr>"

definition sell_line :: "stock_item \<Rightarrow> int \<Rightarrow> stock_item" where
  "sell_line item qty = item\<lparr>si_on_hand := si_on_hand item - qty, si_reserved := si_reserved item - qty,
     si_version := si_version item + 1\<rparr>"

text \<open>The loop of \<^verbatim>\<open>reserve\<close>, which also notes the version each row got.\<close>

fun reserve_loop ::
  "(string \<times> int) list \<Rightarrow> (string, stock_item) dict \<Rightarrow> (string, int) dict \<Rightarrow>
   unit result \<times> (string, stock_item) dict \<times> (string, int) dict" where
  "reserve_loop [] stock versions = (Inr (), stock, versions)"
| "reserve_loop ((sku, qty) # lines) stock versions =
     (case dict_get stock sku of
        None \<Rightarrow> (Inl KeyError, stock, versions)
      | Some item \<Rightarrow>
          reserve_loop lines (dict_set sku (hold_line item qty) stock)
            (dict_set sku (si_version (hold_line item qty)) versions))"

definition iv_give_back :: "'g inventory \<Rightarrow> string \<Rightarrow> reservation \<Rightarrow> reservation_state \<Rightarrow> unit result \<times> 'g inventory" where
  "iv_give_back iv i r state =
     (case each_line return_line (rv_lines r) (iv_stock iv) of
        (Inl e, stock) \<Rightarrow> (Inl e, iv\<lparr>iv_stock := stock\<rparr>)
      | (Inr _, stock) \<Rightarrow> (Inr (), iv\<lparr>iv_stock := stock,
          iv_reservations := dict_set i (r\<lparr>rv_state := state\<rparr>) (iv_reservations iv)\<rparr>))"

fun reclaim_loop :: "(string \<times> reservation) list \<Rightarrow> 'g inventory \<Rightarrow> unit result \<times> 'g inventory" where
  "reclaim_loop [] iv = (Inr (), iv)"
| "reclaim_loop ((i, r) # stale) iv =
     (case iv_give_back iv i r EXPIRED of
        (Inl e, iv') \<Rightarrow> (Inl e, iv')
      | (Inr _, iv') \<Rightarrow> reclaim_loop stale iv')"

definition iv_stale :: "'g inventory \<Rightarrow> time \<Rightarrow> (string \<times> reservation) list" where
  "iv_stale iv now = filter (\<lambda>(i, r). rv_state r = HELD \<and> rv_expires_at r \<le> now) (iv_reservations iv)"

definition iv_reclaim :: "'g inventory \<Rightarrow> time \<Rightarrow> int result \<times> 'g inventory" where
  "iv_reclaim iv now =
     (case reclaim_loop (iv_stale iv now) iv of
        (Inl e, iv') \<Rightarrow> (Inl e, iv')
      | (Inr _, iv') \<Rightarrow> (Inr (int (length (iv_stale iv now))), iv'))"

text \<open>The part of \<^verbatim>\<open>reserve\<close> after the idempotency check.\<close>

definition iv_take ::
  "('g \<Rightarrow> string \<times> 'g) \<Rightarrow> 'g inventory \<Rightarrow> time \<Rightarrow> string \<Rightarrow> (string, int) dict \<Rightarrow> (string, int) dict \<Rightarrow>
   reservation result \<times> 'g inventory" where
  "iv_take next_id iv now order lines expected =
     (if \<exists>sku \<in> set (dict_keys lines). dict_get (iv_stock iv) sku = None then (Inl NotFoundError, iv)
      else if \<exists>sku \<in> set (dict_keys expected). dict_get (iv_stock iv) sku = None then (Inl KeyError, iv)
      else if \<exists>(sku, v) \<in> set expected. map_option si_version (dict_get (iv_stock iv) sku) \<noteq> Some v
      then (Inl ConflictError, iv)
      else if \<exists>(sku, qty) \<in> set lines.
                (case dict_get (iv_stock iv) sku of None \<Rightarrow> False | Some item \<Rightarrow> si_available item < qty)
      then (Inl ConflictError, iv)
      else case next_id (iv_ids iv) of
             (i, ids) \<Rightarrow>
               (case reserve_loop lines (iv_stock iv) [] of
                  (Inl e, stock, versions) \<Rightarrow> (Inl e, iv\<lparr>iv_ids := ids, iv_stock := stock\<rparr>)
                | (Inr _, stock, versions) \<Rightarrow>
                    let r = \<lparr>rv_id = i, rv_order = order, rv_lines = lines, rv_expires_at = now + iv_ttl iv,
                             rv_versions = versions, rv_state = HELD\<rparr>
                    in (Inr r, iv\<lparr>iv_ids := ids, iv_stock := stock,
                         iv_reservations := dict_set i r (iv_reservations iv),
                         iv_by_order := dict_set order i (iv_by_order iv)\<rparr>)))"

definition iv_live_for :: "'g inventory \<Rightarrow> string \<Rightarrow> reservation result option" where
  "iv_live_for iv order =
     (case dict_get (iv_by_order iv) order of
        None \<Rightarrow> None
      | Some i \<Rightarrow> (case dict_get (iv_reservations iv) i of
                    None \<Rightarrow> Some (Inl KeyError)
                  | Some r \<Rightarrow> if rv_is_live r then Some (Inr r) else None))"

definition iv_reserve ::
  "('g \<Rightarrow> string \<times> 'g) \<Rightarrow> 'g inventory \<Rightarrow> time \<Rightarrow> string \<Rightarrow> (string, int) dict \<Rightarrow> (string, int) dict \<Rightarrow>
   reservation result \<times> 'g inventory" where
  "iv_reserve next_id iv now order lines expected =
     (if lines = [] \<or> (\<exists>qty \<in> set (map snd lines). qty \<le> 0) then (Inl ValidationError, iv)
      else case iv_reclaim iv now of
             (Inl e, iv') \<Rightarrow> (Inl e, iv')
           | (Inr _, iv') \<Rightarrow>
               (case iv_live_for iv' order of
                  Some res \<Rightarrow> (res, iv')
                | None \<Rightarrow> iv_take next_id iv' now order lines expected))"

definition iv_get :: "'g inventory \<Rightarrow> string \<Rightarrow> reservation result" where
  "iv_get iv i = (case dict_get (iv_reservations iv) i of None \<Rightarrow> Inl NotFoundError | Some r \<Rightarrow> Inr r)"

definition iv_commit :: "'g inventory \<Rightarrow> string \<Rightarrow> reservation result \<times> 'g inventory" where
  "iv_commit iv i =
     (case iv_get iv i of
        Inl e \<Rightarrow> (Inl e, iv)
      | Inr r \<Rightarrow>
          if rv_state r = COMMITTED then (Inr r, iv)
          else if rv_state r \<noteq> HELD then (Inl InvalidStateError, iv)
          else (case each_line sell_line (rv_lines r) (iv_stock iv) of
                  (Inl e, stock) \<Rightarrow> (Inl e, iv\<lparr>iv_stock := stock\<rparr>)
                | (Inr _, stock) \<Rightarrow>
                    let r' = r\<lparr>rv_state := COMMITTED\<rparr>
                    in (Inr r', iv\<lparr>iv_stock := stock, iv_reservations := dict_set i r' (iv_reservations iv)\<rparr>)))"

definition iv_release :: "'g inventory \<Rightarrow> string \<Rightarrow> unit result \<times> 'g inventory" where
  "iv_release iv i =
     (case iv_get iv i of
        Inl e \<Rightarrow> (Inl e, iv)
      | Inr r \<Rightarrow>
          if rv_state r = COMMITTED then (Inl InvalidStateError, iv)
          else if rv_state r = HELD then iv_give_back iv i r RELEASED
          else (Inr (), iv))"

definition iv_expire :: "'g inventory \<Rightarrow> time \<Rightarrow> int result \<times> 'g inventory" where
  "iv_expire iv now = iv_reclaim iv now"

definition iv_available :: "'g inventory \<Rightarrow> string \<Rightarrow> int result" where
  "iv_available iv sku =
     (case dict_get (iv_stock iv) sku of None \<Rightarrow> Inl NotFoundError | Some item \<Rightarrow> Inr (si_available item))"

definition iv_versions :: "'g inventory \<Rightarrow> string list \<Rightarrow> (string, int) dict" where
  "iv_versions iv skus =
     fold (\<lambda>sku d. case dict_get (iv_stock iv) sku of None \<Rightarrow> d | Some item \<Rightarrow> dict_set sku (si_version item) d) skus []"

definition iv_snapshot :: "'g inventory \<Rightarrow> (string, int \<times> int) dict" where
  "iv_snapshot iv = map (\<lambda>(sku, item). (sku, si_available item, si_reserved item)) (iv_stock iv)"


section \<open>What the service keeps\<close>

definition line_qty :: "reservation \<Rightarrow> string \<Rightarrow> int" where
  "line_qty r sku = (case dict_get (rv_lines r) sku of None \<Rightarrow> 0 | Some q \<Rightarrow> q)"

definition units_in :: "reservation_state \<Rightarrow> string \<Rightarrow> (string, reservation) dict \<Rightarrow> int" where
  "units_in state sku rs = sum_list (map (\<lambda>(i, r). if rv_state r = state then line_qty r sku else 0) rs)"

definition rv_ok :: "(string, stock_item) dict \<Rightarrow> reservation \<Rightarrow> bool" where
  "rv_ok stock r \<longleftrightarrow> dict_ok (rv_lines r) \<and> (\<forall>q \<in> set (map snd (rv_lines r)). 0 < q) \<and>
     (\<forall>sku \<in> set (dict_keys (rv_lines r)). dict_get stock sku \<noteq> None)"

text \<open>
  \<open>received\<close> is what \<^verbatim>\<open>stock_in\<close> has brought in so far. A row's reserved units are those of the
  reservations held, never more than what is on hand; what is on hand and what was sold is what
  came in; and an order has at most the one live reservation its idempotency key names.
\<close>

definition row_ok :: "(string \<Rightarrow> int) \<Rightarrow> (string, reservation) dict \<Rightarrow> string \<Rightarrow> stock_item \<Rightarrow> bool" where
  "row_ok received rs sku item \<longleftrightarrow> si_reserved item = units_in HELD sku rs \<and>
     si_reserved item \<le> si_on_hand item \<and> si_on_hand item + units_in COMMITTED sku rs = received sku"

definition iv_ok :: "('g \<Rightarrow> string \<Rightarrow> bool) \<Rightarrow> (string \<Rightarrow> int) \<Rightarrow> 'g inventory \<Rightarrow> bool" where
  "iv_ok fresh received iv \<longleftrightarrow> dict_ok (iv_stock iv) \<and> dict_ok (iv_reservations iv) \<and>
     (\<forall>sku item. dict_get (iv_stock iv) sku = Some item \<longrightarrow> row_ok received (iv_reservations iv) sku item) \<and>
     (\<forall>sku. dict_get (iv_stock iv) sku = None \<longrightarrow> received sku = 0) \<and>
     (\<forall>i r. dict_get (iv_reservations iv) i = Some r \<longrightarrow> rv_id r = i \<and> rv_ok (iv_stock iv) r \<and>
        \<not> fresh (iv_ids iv) i \<and> (rv_is_live r \<longrightarrow> dict_get (iv_by_order iv) (rv_order r) = Some i)) \<and>
     (\<forall>order i. dict_get (iv_by_order iv) order = Some i \<longrightarrow>
        (\<exists>r. dict_get (iv_reservations iv) i = Some r \<and> rv_order r = order))"

lemma iv_okI:
  assumes "dict_ok (iv_stock iv)" "dict_ok (iv_reservations iv)"
    and "\<And>sku item. dict_get (iv_stock iv) sku = Some item \<Longrightarrow> row_ok received (iv_reservations iv) sku item"
    and "\<And>sku. dict_get (iv_stock iv) sku = None \<Longrightarrow> received sku = 0"
    and "\<And>i r. dict_get (iv_reservations iv) i = Some r \<Longrightarrow> rv_id r = i \<and> rv_ok (iv_stock iv) r \<and>
        \<not> fresh (iv_ids iv) i \<and> (rv_is_live r \<longrightarrow> dict_get (iv_by_order iv) (rv_order r) = Some i)"
    and "\<And>order i. dict_get (iv_by_order iv) order = Some i \<Longrightarrow>
        \<exists>r. dict_get (iv_reservations iv) i = Some r \<and> rv_order r = order"
  shows "iv_ok fresh received iv"
  unfolding iv_ok_def using assms by blast

definition on_lines ::
  "(stock_item \<Rightarrow> int \<Rightarrow> stock_item) \<Rightarrow> (string, int) dict \<Rightarrow> (string, stock_item) dict \<Rightarrow> string \<Rightarrow> stock_item option" where
  "on_lines f lines stock sku = (case dict_get lines sku of None \<Rightarrow> dict_get stock sku
     | Some q \<Rightarrow> map_option (\<lambda>item. f item q) (dict_get stock sku))"

lemma each_line_get:
  assumes "dict_ok lines" "\<forall>sku \<in> set (dict_keys lines). dict_get stock sku \<noteq> None"
  shows "\<exists>stock'. each_line f lines stock = (Inr (), stock') \<and> (dict_ok stock \<longrightarrow> dict_ok stock') \<and>
    dict_get stock' = on_lines f lines stock"
  using assms
proof (induction lines arbitrary: stock)
  case Nil
  then show ?case by (auto simp: on_lines_def)
next
  case (Cons line lines)
  obtain sku q where line: "line = (sku, q)" by fastforce
  from Cons.prems obtain item where item: "dict_get stock sku = Some item" by (auto simp: line)
  have new: "dict_get lines sku = None" and ok: "dict_ok lines"
    using Cons.prems(1) by (auto simp: line dict_ok_def dict_get_None)
  let ?stock = "dict_set sku (f item q) stock"
  have "\<forall>s \<in> set (dict_keys lines). dict_get ?stock s \<noteq> None" using Cons.prems(2) by (auto simp: line)
  from Cons.IH [OF ok this] obtain stock' where run: "each_line f lines ?stock = (Inr (), stock')"
    "dict_ok ?stock \<longrightarrow> dict_ok stock'" "dict_get stock' = on_lines f lines ?stock"
    by blast
  have "on_lines f lines ?stock = on_lines f (line # lines) stock"
    using new item by (intro ext) (auto simp: on_lines_def line split: option.split)
  with run item show ?case by (simp add: line)
qed

lemma reserve_loop_each_line:
  "\<exists>vs. reserve_loop lines stock versions = (fst (each_line hold_line lines stock), snd (each_line hold_line lines stock), vs)"
proof (induction lines arbitrary: stock versions)
  case (Cons line lines)
  then show ?case by (cases line) (auto split: option.split)
qed simp

lemma units_in_set:
  assumes "dict_ok rs" "dict_get rs i = Some r"
  shows "units_in state sku (dict_set i r' rs) = units_in state sku rs -
    (if rv_state r = state then line_qty r sku else 0) + (if rv_state r' = state then line_qty r' sku else 0)"
  unfolding units_in_def
  using sum_dict_set [OF assms, of "\<lambda>(i, r). if rv_state r = state then line_qty r sku else 0"] by simp

lemma units_in_new:
  assumes "dict_get rs i = None"
  shows "units_in state sku (dict_set i r' rs) = units_in state sku rs +
    (if rv_state r' = state then line_qty r' sku else 0)"
  unfolding units_in_def
  using sum_dict_set_new [OF assms, of "\<lambda>(i, r). if rv_state r = state then line_qty r sku else 0"] by simp

lemma line_qty_nonneg: "rv_ok stock r \<Longrightarrow> 0 \<le> line_qty r sku"
  by (fastforce simp: rv_ok_def line_qty_def split: option.split dest: map_of_SomeD)

lemma on_lines_rowE:
  assumes "on_lines f (rv_lines r) stock sku = Some item'"
  obtains item where "dict_get stock sku = Some item"
    "item' = (if dict_get (rv_lines r) sku = None then item else f item (line_qty r sku))"
  using assms by (auto simp: on_lines_def line_qty_def split: option.splits)

lemma on_lines_None [simp]: "on_lines f lines stock sku = None \<longleftrightarrow> dict_get stock sku = None"
  by (auto simp: on_lines_def split: option.split)

lemma line_qty_None: "dict_get (rv_lines r) sku = None \<Longrightarrow> line_qty r sku = 0"
  by (simp add: line_qty_def)

text \<open>Ending a hold: as a sale, a release or an expiry.\<close>

definition ends_with :: "(stock_item \<Rightarrow> int \<Rightarrow> stock_item) \<Rightarrow> reservation_state \<Rightarrow> bool" where
  "ends_with f state \<longleftrightarrow> f = sell_line \<and> state = COMMITTED \<or> f = return_line \<and> state \<in> {RELEASED, EXPIRED}"

lemma iv_ok_end_hold:
  assumes ok: "iv_ok fresh received iv" and r: "dict_get (iv_reservations iv) i = Some r" "rv_state r = HELD"
    and f: "ends_with f state"
  shows "\<exists>stock. each_line f (rv_lines r) (iv_stock iv) = (Inr (), stock) \<and>
    iv_ok fresh received (iv\<lparr>iv_stock := stock,
      iv_reservations := dict_set i (r\<lparr>rv_state := state\<rparr>) (iv_reservations iv)\<rparr>)"
proof -
  have rok: "rv_ok (iv_stock iv) r" using ok r unfolding iv_ok_def by blast
  then obtain stock where run: "each_line f (rv_lines r) (iv_stock iv) = (Inr (), stock)"
    and get: "dict_get stock = on_lines f (rv_lines r) (iv_stock iv)" and sok: "dict_ok stock"
    using each_line_get [of "rv_lines r" "iv_stock iv" f] ok by (auto simp: rv_ok_def iv_ok_def)
  let ?r = "r\<lparr>rv_state := state\<rparr>" and ?rs = "dict_set i (r\<lparr>rv_state := state\<rparr>) (iv_reservations iv)"
  have dok: "dict_ok (iv_reservations iv)" using ok by (simp add: iv_ok_def)
  have q: "line_qty ?r sku = line_qty r sku" for sku by (simp add: line_qty_def)
  have row: "row_ok received ?rs sku item'" if "dict_get stock sku = Some item'" for sku item'
  proof -
    from that get obtain item where item: "dict_get (iv_stock iv) sku = Some item"
      "item' = (if dict_get (rv_lines r) sku = None then item else f item (line_qty r sku))"
      by (metis on_lines_rowE)
    then have "row_ok received (iv_reservations iv) sku item" using ok by (simp add: iv_ok_def)
    with item f r line_qty_nonneg [OF rok, of sku] show ?thesis
      unfolding row_ok_def units_in_set [OF dok r(1)] q ends_with_def
      by (auto simp: sell_line_def return_line_def line_qty_None)
  qed
  have keep: "rv_ok stock s = rv_ok (iv_stock iv) s" for s by (simp add: rv_ok_def get)
  have "rv_ok (iv_stock iv) ?r" using rok by (simp add: rv_ok_def)
  moreover have "rv_is_live ?r \<Longrightarrow> rv_is_live r" using r(2) by (simp add: rv_is_live_def)
  moreover have "\<exists>s. dict_get ?rs j = Some s \<and> rv_order s = order" if "dict_get (iv_by_order iv) order = Some j" for order j
  proof -
    from ok that obtain s where "dict_get (iv_reservations iv) j = Some s" "rv_order s = order"
      unfolding iv_ok_def by blast
    with r(1) show ?thesis by (cases "j = i") auto
  qed
  ultimately have "iv_ok fresh received (iv\<lparr>iv_stock := stock, iv_reservations := ?rs\<rparr>)"
    using ok r sok row unfolding iv_ok_def by (auto simp: keep get)
  with run show ?thesis by blast
qed


lemma iv_ok_give_back:
  assumes "iv_ok fresh received iv" "dict_get (iv_reservations iv) i = Some r" "rv_state r = HELD"
    and "state \<in> {RELEASED, EXPIRED}"
  shows "\<exists>iv'. iv_give_back iv i r state = (Inr (), iv') \<and> iv_ok fresh received iv' \<and> iv_ids iv' = iv_ids iv \<and>
    iv_ttl iv' = iv_ttl iv \<and> iv_by_order iv' = iv_by_order iv \<and>
    iv_reservations iv' = dict_set i (r\<lparr>rv_state := state\<rparr>) (iv_reservations iv)"
  using iv_ok_end_hold [OF assms(1-3), of return_line state] assms(4)
  by (fastforce simp: iv_give_back_def ends_with_def)

text \<open>What the sweep does to the reservations.\<close>

definition swept :: "string list \<Rightarrow> (string, reservation) dict \<Rightarrow> string \<Rightarrow> reservation option" where
  "swept stale rs i = (if i \<in> set stale then map_option (\<lambda>r. r\<lparr>rv_state := EXPIRED\<rparr>) (dict_get rs i) else dict_get rs i)"

lemma reclaim_loop_ok:
  assumes "iv_ok fresh received iv" "distinct (map fst stale)"
    and "\<forall>(i, r) \<in> set stale. dict_get (iv_reservations iv) i = Some r \<and> rv_state r = HELD"
  shows "\<exists>iv'. reclaim_loop stale iv = (Inr (), iv') \<and> iv_ok fresh received iv' \<and> iv_ids iv' = iv_ids iv \<and>
    iv_ttl iv' = iv_ttl iv \<and> iv_by_order iv' = iv_by_order iv \<and>
    dict_get (iv_reservations iv') = swept (map fst stale) (iv_reservations iv)"
  using assms
proof (induction stale arbitrary: iv)
  case Nil
  then show ?case by (auto simp: swept_def)
next
  case (Cons ir stale)
  obtain i r where ir: "ir = (i, r)" by fastforce
  from Cons.prems ir have r: "dict_get (iv_reservations iv) i = Some r" "rv_state r = HELD" by auto
  from iv_ok_give_back [OF Cons.prems(1) r, of EXPIRED] obtain iv1 where
    iv1: "iv_give_back iv i r EXPIRED = (Inr (), iv1)" "iv_ok fresh received iv1" "iv_ids iv1 = iv_ids iv"
      "iv_ttl iv1 = iv_ttl iv" "iv_by_order iv1 = iv_by_order iv"
      "iv_reservations iv1 = dict_set i (r\<lparr>rv_state := EXPIRED\<rparr>) (iv_reservations iv)"
    by auto
  have "\<forall>(j, s) \<in> set stale. dict_get (iv_reservations iv1) j = Some s \<and> rv_state s = HELD"
    using Cons.prems(2,3) ir iv1(6) by (force simp: image_iff)
  from Cons.IH [OF iv1(2) _ this] Cons.prems(2) obtain iv' where
    iv': "reclaim_loop stale iv1 = (Inr (), iv')" "iv_ok fresh received iv'" "iv_ids iv' = iv_ids iv1"
      "iv_ttl iv' = iv_ttl iv1" "iv_by_order iv' = iv_by_order iv1"
      "dict_get (iv_reservations iv') = swept (map fst stale) (iv_reservations iv1)"
    by auto
  have "swept (map fst stale) (iv_reservations iv1) = swept (map fst (ir # stale)) (iv_reservations iv)"
    using r Cons.prems(2) ir by (intro ext) (auto simp: swept_def iv1(6))
  with iv1 iv' ir show ?case by simp
qed

lemma iv_stale_ok:
  assumes "iv_ok fresh received iv"
  shows "distinct (map fst (iv_stale iv now)) \<and>
    (\<forall>(i, r) \<in> set (iv_stale iv now). dict_get (iv_reservations iv) i = Some r \<and> rv_state r = HELD)"
proof -
  have "dict_ok (iv_reservations iv)" using assms by (simp add: iv_ok_def)
  then have "dict_ok (iv_stale iv now)" unfolding iv_stale_def by simp
  with \<open>dict_ok (iv_reservations iv)\<close> show ?thesis
    unfolding dict_ok_def [of "iv_stale iv now"]
    using dict_get_mem [of "iv_reservations iv"] by (auto simp: iv_stale_def)
qed

lemma iv_reclaim_ok:
  assumes "iv_ok fresh received iv"
  obtains n iv' where "iv_reclaim iv now = (Inr n, iv')" "iv_ok fresh received iv'" "iv_ids iv' = iv_ids iv"
    "iv_ttl iv' = iv_ttl iv" "iv_by_order iv' = iv_by_order iv"
    "dict_get (iv_reservations iv') = swept (map fst (iv_stale iv now)) (iv_reservations iv)"
  using iv_stale_ok [OF assms, of now] reclaim_loop_ok [OF assms, of "iv_stale iv now"]
  by (auto simp: iv_reclaim_def)


lemma iv_live_for_ok:
  assumes "iv_ok fresh received iv"
  shows "iv_live_for iv order = (case dict_get (iv_by_order iv) order of None \<Rightarrow> None
    | Some i \<Rightarrow> (let r = the (dict_get (iv_reservations iv) i) in if rv_is_live r then Some (Inr r) else None))"
proof (cases "dict_get (iv_by_order iv) order")
  case (Some i)
  with assms obtain r where "dict_get (iv_reservations iv) i = Some r" unfolding iv_ok_def by blast
  with Some show ?thesis by (simp add: iv_live_for_def Let_def)
qed (simp add: iv_live_for_def)

lemma iv_ok_no_live:
  assumes "iv_ok fresh received iv" "iv_live_for iv order = None" "dict_get (iv_reservations iv) i = Some r"
    and "rv_order r = order"
  shows "\<not> rv_is_live r"
proof
  assume "rv_is_live r"
  with assms have "dict_get (iv_by_order iv) order = Some i" unfolding iv_ok_def by blast
  with assms \<open>rv_is_live r\<close> show False by (simp add: iv_live_for_ok)
qed

text \<open>A new hold on rows that have the units.\<close>

lemma iv_ok_new_hold:
  assumes ok: "iv_ok fresh received iv" and new: "dict_get (iv_reservations iv) i = None"
    and r: "rv_ok (iv_stock iv) r" "rv_id r = i" "rv_state r = HELD"
    and room: "\<And>sku item. dict_get (rv_lines r) sku \<noteq> None \<Longrightarrow> dict_get (iv_stock iv) sku = Some item \<Longrightarrow>
      line_qty r sku \<le> si_available item"
    and stock: "dict_ok stock" "dict_get stock = on_lines hold_line (rv_lines r) (iv_stock iv)"
    and ids: "\<not> fresh ids i" "\<And>j. \<not> fresh (iv_ids iv) j \<Longrightarrow> \<not> fresh ids j"
    and alone: "\<And>j s. dict_get (iv_reservations iv) j = Some s \<Longrightarrow> rv_order s = rv_order r \<Longrightarrow> \<not> rv_is_live s"
  shows "iv_ok fresh received (iv\<lparr>iv_ids := ids, iv_stock := stock,
    iv_reservations := dict_set i r (iv_reservations iv),
    iv_by_order := dict_set (rv_order r) i (iv_by_order iv)\<rparr>)"
proof -
  let ?rs = "dict_set i r (iv_reservations iv)" and ?by = "dict_set (rv_order r) i (iv_by_order iv)"
  have row: "row_ok received ?rs sku item'" if "dict_get stock sku = Some item'" for sku item'
  proof -
    from that stock(2) obtain item where item: "dict_get (iv_stock iv) sku = Some item"
      "item' = (if dict_get (rv_lines r) sku = None then item else hold_line item (line_qty r sku))"
      by (metis on_lines_rowE)
    then have "row_ok received (iv_reservations iv) sku item" using ok by (simp add: iv_ok_def)
    with item r room [of sku item] show ?thesis
      unfolding row_ok_def units_in_new [OF new]
      by (auto simp: hold_line_def line_qty_None si_available_def)
  qed
  have keep: "rv_ok stock s = rv_ok (iv_stock iv) s" for s by (simp add: rv_ok_def stock(2))
  have by_order: "\<exists>s. dict_get ?rs j = Some s \<and> rv_order s = order" if "dict_get ?by order = Some j" for order j
  proof (cases "order = rv_order r")
    case True
    with that show ?thesis by auto
  next
    case False
    with that have "dict_get (iv_by_order iv) order = Some j" by simp
    with ok obtain s where "dict_get (iv_reservations iv) j = Some s" "rv_order s = order"
      unfolding iv_ok_def by blast
    with new show ?thesis by auto
  qed
  have entry: "rv_id s = j \<and> rv_ok stock s \<and> \<not> fresh ids j \<and> (rv_is_live s \<longrightarrow> dict_get ?by (rv_order s) = Some j)"
    if "dict_get ?rs j = Some s" for j s
  proof (cases "j = i")
    case True
    with that r ids keep show ?thesis by simp
  next
    case False
    with that have s: "dict_get (iv_reservations iv) j = Some s" by simp
    with ok have "rv_id s = j" "rv_ok (iv_stock iv) s" "\<not> fresh (iv_ids iv) j"
      "rv_is_live s \<Longrightarrow> dict_get (iv_by_order iv) (rv_order s) = Some j"
      unfolding iv_ok_def by blast+
    with ids keep alone [OF s] show ?thesis by auto
  qed
  have rows: "dict_ok (iv_reservations iv)" "\<forall>sku. dict_get (iv_stock iv) sku = None \<longrightarrow> received sku = 0"
    using ok by (simp_all add: iv_ok_def)
  show ?thesis
    by (rule iv_okI) (use rows stock entry row by_order in \<open>simp_all\<close>)
qed


section \<open>Every transaction keeps it\<close>

text \<open>
  The calls of any number of clients, one transaction at a time, at any readings of the clock;
  \<open>received\<close> is carried along.
\<close>

inductive iv_step ::
  "('g \<Rightarrow> string \<times> 'g) \<Rightarrow> 'g inventory \<times> (string \<Rightarrow> int) \<Rightarrow> 'g inventory \<times> (string \<Rightarrow> int) \<Rightarrow> bool"
  for next_id where
  stock_in: "iv_stock_in iv sku q = (Inr item, iv') \<Longrightarrow>
    iv_step next_id (iv, received) (iv', received(sku := received sku + q))"
| reserve: "dict_ok lines \<Longrightarrow> dict_ok expected \<Longrightarrow> iv_reserve next_id iv now order lines expected = (res, iv') \<Longrightarrow>
    iv_step next_id (iv, received) (iv', received)"
| commit: "iv_commit iv i = (res, iv') \<Longrightarrow> iv_step next_id (iv, received) (iv', received)"
| release: "iv_release iv i = (done, iv') \<Longrightarrow> iv_step next_id (iv, received) (iv', received)"
| expire: "iv_expire iv now = (n, iv') \<Longrightarrow> iv_step next_id (iv, received) (iv', received)"

definition iv_reachable ::
  "('g \<Rightarrow> string \<times> 'g) \<Rightarrow> 'g \<Rightarrow> 'g inventory \<Rightarrow> (string \<Rightarrow> int) \<Rightarrow> bool" where
  "iv_reachable next_id ids iv received \<longleftrightarrow>
     (\<exists>ttl iv0. inventory_new ids ttl = Inr iv0 \<and> (iv_step next_id)\<^sup>*\<^sup>* (iv0, \<lambda>_. 0) (iv, received))"

lemma iv_ok_stock_in:
  assumes ok: "iv_ok fresh received iv" and run: "iv_stock_in iv sku q = (Inr item, iv')"
  shows "iv_ok fresh (received(sku := received sku + q)) iv'"
proof -
  define old where "old = (case dict_get (iv_stock iv) sku of Some item \<Rightarrow> item
    | None \<Rightarrow> \<lparr>si_sku = sku, si_on_hand = 0, si_reserved = 0, si_version = 0\<rparr>)"
  from run have q: "0 < q" and iv': "iv' = iv\<lparr>iv_stock := dict_set sku
      (old\<lparr>si_on_hand := si_on_hand old + q, si_version := si_version old + 1\<rparr>) (iv_stock iv)\<rparr>"
    by (auto simp: iv_stock_in_def old_def Let_def split: if_splits)
  have none: "units_in state sku (iv_reservations iv) = 0" if new: "dict_get (iv_stock iv) sku = None" for state
  proof -
    have "line_qty r sku = 0" if "(i, r) \<in> set (iv_reservations iv)" for i r
    proof -
      from that ok have "dict_get (iv_reservations iv) i = Some r"
        unfolding iv_ok_def using dict_get_mem by fast
      with ok have "rv_ok (iv_stock iv) r" unfolding iv_ok_def by blast
      with new have "dict_get (rv_lines r) sku = None"
        unfolding rv_ok_def by (metis dict_get_None)
      then show ?thesis by (rule line_qty_None)
    qed
    then have "map (\<lambda>(i, r). if rv_state r = state then line_qty r sku else 0) (iv_reservations iv) =
        map (\<lambda>_. 0) (iv_reservations iv)"
      by auto
    then show ?thesis unfolding units_in_def by (simp only: sum_list_0)
  qed
  have "row_ok received (iv_reservations iv) sku old"
  proof (cases "dict_get (iv_stock iv) sku")
    case None
    with ok have "received sku = 0" unfolding iv_ok_def by blast
    with None none show ?thesis by (simp add: old_def row_ok_def)
  next
    case (Some item)
    with ok show ?thesis by (simp add: old_def iv_ok_def)
  qed
  then have row: "row_ok (received(sku := received sku + q)) (iv_reservations iv) sku
      (old\<lparr>si_on_hand := si_on_hand old + q, si_version := si_version old + 1\<rparr>)"
    using q by (auto simp: row_ok_def)
  have "rv_ok (iv_stock iv) r \<Longrightarrow> rv_ok (iv_stock iv') r" for r by (auto simp: rv_ok_def iv')
  moreover have "row_ok (received(sku := received sku + q)) rs s it = row_ok received rs s it" if "s \<noteq> sku" for s it rs
    using that by (simp add: row_ok_def)
  ultimately show ?thesis
    using ok row unfolding iv_ok_def by (auto simp: iv' split: if_splits)
qed

lemma iv_ok_commit:
  assumes ok: "iv_ok fresh received iv" and run: "iv_commit iv i = (res, iv')"
  shows "iv_ok fresh received iv'"
proof (cases "\<exists>r. dict_get (iv_reservations iv) i = Some r \<and> rv_state r = HELD")
  case True
  then obtain r where r: "dict_get (iv_reservations iv) i = Some r" "rv_state r = HELD" by blast
  from iv_ok_end_hold [OF ok r, of sell_line COMMITTED] obtain stock where
    "each_line sell_line (rv_lines r) (iv_stock iv) = (Inr (), stock)"
    "iv_ok fresh received (iv\<lparr>iv_stock := stock,
      iv_reservations := dict_set i (r\<lparr>rv_state := COMMITTED\<rparr>) (iv_reservations iv)\<rparr>)"
    by (auto simp: ends_with_def)
  with run r show ?thesis by (auto simp: iv_commit_def iv_get_def Let_def)
next
  case False
  with run have "iv' = iv" by (auto simp: iv_commit_def iv_get_def split: option.splits if_splits)
  with ok show ?thesis by simp
qed

lemma iv_ok_release:
  assumes ok: "iv_ok fresh received iv" and run: "iv_release iv i = (res, iv')"
  shows "iv_ok fresh received iv'"
proof (cases "\<exists>r. dict_get (iv_reservations iv) i = Some r \<and> rv_state r = HELD")
  case True
  then obtain r where r: "dict_get (iv_reservations iv) i = Some r" "rv_state r = HELD" by blast
  from iv_ok_give_back [OF ok r, of RELEASED] run r show ?thesis
    by (auto simp: iv_release_def iv_get_def)
next
  case False
  with run have "iv' = iv" by (auto simp: iv_release_def iv_get_def split: option.splits if_splits)
  with ok show ?thesis by simp
qed

lemma iv_ok_reclaim:
  assumes "iv_ok fresh received iv" "iv_reclaim iv now = (n, iv')"
  shows "iv_ok fresh received iv'"
  using iv_reclaim_ok [OF assms(1), of now] assms(2) by fastforce

lemma iv_take_unknown:
  "\<exists>sku \<in> set (dict_keys lines). dict_get (iv_stock iv) sku = None \<Longrightarrow>
   iv_take next_id iv now order lines expected = (Inl NotFoundError, iv)"
  by (simp only: iv_take_def if_True)

lemma iv_take_Inr:
  assumes run: "iv_take next_id iv now order lines expected = (Inr r, iv')"
  shows "\<forall>sku \<in> set (dict_keys lines). dict_get (iv_stock iv) sku \<noteq> None"
    and "\<forall>sku q item. (sku, q) \<in> set lines \<longrightarrow> dict_get (iv_stock iv) sku = Some item \<longrightarrow> q \<le> si_available item"
    and "\<forall>(sku, v) \<in> set expected. map_option si_version (dict_get (iv_stock iv) sku) = Some v"
proof -
  let ?unknown = "\<exists>sku \<in> set (dict_keys lines). dict_get (iv_stock iv) sku = None"
    and ?stale = "\<exists>(sku, v) \<in> set expected. map_option si_version (dict_get (iv_stock iv) sku) \<noteq> Some v"
    and ?short = "\<exists>(sku, qty) \<in> set lines.
      (case dict_get (iv_stock iv) sku of None \<Rightarrow> False | Some item \<Rightarrow> si_available item < qty)"
  have u: "?unknown = False" using run iv_take_unknown by fastforce
  then show "\<forall>sku \<in> set (dict_keys lines). dict_get (iv_stock iv) sku \<noteq> None" by metis
  have "\<not> ?stale"
  proof
    assume s: ?stale
    have "\<exists>e. iv_take next_id iv now order lines expected = (Inl e, iv)"
      unfolding iv_take_def by (simp only: u s if_True if_False) simp
    with run show False by simp
  qed
  then show "\<forall>(sku, v) \<in> set expected. map_option si_version (dict_get (iv_stock iv) sku) = Some v" by blast
  have "\<not> ?short"
  proof
    assume s: ?short
    have "\<exists>e. iv_take next_id iv now order lines expected = (Inl e, iv)"
      unfolding iv_take_def by (simp only: u s if_True if_False) simp
    with run show False by simp
  qed
  then show "\<forall>sku q item. (sku, q) \<in> set lines \<longrightarrow> dict_get (iv_stock iv) sku = Some item \<longrightarrow> q \<le> si_available item"
    by fastforce
qed

context id_source
begin

lemma iv_take_ok:
  assumes ok: "iv_ok fresh received iv" and lines: "dict_ok lines" "\<forall>q \<in> set (map snd lines). 0 < q"
    and alone: "iv_live_for iv order = None" and run: "iv_take next_id iv now order lines expected = (res, iv')"
  shows "iv_ok fresh received iv' \<and> (\<forall>e. res = Inl e \<longrightarrow> iv' = iv) \<and>
    (\<forall>r. res = Inr r \<longrightarrow> dict_get (iv_reservations iv) (rv_id r) = None \<and> rv_order r = order \<and> rv_lines r = lines \<and>
       rv_state r = HELD \<and> iv_reservations iv' = dict_set (rv_id r) r (iv_reservations iv) \<and>
       dict_get (iv_stock iv') = on_lines hold_line lines (iv_stock iv) \<and>
       (\<forall>(sku, v) \<in> set expected. map_option si_version (dict_get (iv_stock iv) sku) = Some v))"
proof (cases res)
  case (Inl e)
  have known: "\<forall>sku \<in> set (dict_keys lines). dict_get (iv_stock iv) sku \<noteq> None" if "iv' \<noteq> iv"
    using run that iv_take_unknown by fastforce
  have "iv' = iv"
  proof (rule ccontr)
    assume "iv' \<noteq> iv"
    from each_line_get [OF lines(1) known [OF this], of hold_line]
      reserve_loop_each_line [of lines "iv_stock iv" "[]"] run Inl \<open>iv' \<noteq> iv\<close>
    show False by (auto simp: iv_take_def Let_def split: if_splits prod.splits)
  qed
  with ok Inl show ?thesis by simp
next
  case (Inr r)
  note known = iv_take_Inr(1) [OF run [unfolded Inr]] and room = iv_take_Inr(2) [OF run [unfolded Inr]]
    and fresh_rows = iv_take_Inr(3) [OF run [unfolded Inr]]
  obtain i ids where i: "next_id (iv_ids iv) = (i, ids)" by fastforce
  from each_line_get [OF lines(1) known, of hold_line] ok obtain stock where
    stock: "each_line hold_line lines (iv_stock iv) = (Inr (), stock)" "dict_ok stock"
      "dict_get stock = on_lines hold_line lines (iv_stock iv)"
    by (auto simp: iv_ok_def)
  obtain vs where loop: "reserve_loop lines (iv_stock iv) [] = (Inr (), stock, vs)"
    using reserve_loop_each_line [of lines "iv_stock iv" "[]"] stock(1) by auto
  let ?r = "\<lparr>rv_id = i, rv_order = order, rv_lines = lines, rv_expires_at = now + iv_ttl iv,
     rv_versions = vs, rv_state = HELD\<rparr>"
  have res: "r = ?r" "iv' = iv\<lparr>iv_ids := ids, iv_stock := stock,
      iv_reservations := dict_set i ?r (iv_reservations iv), iv_by_order := dict_set order i (iv_by_order iv)\<rparr>"
    using run Inr i loop by (auto simp: iv_take_def Let_def split: if_splits)
  have new: "dict_get (iv_reservations iv) i = None"
    using ok issued_was_fresh [OF i] unfolding iv_ok_def by (metis option.exhaust)
  have qty: "line_qty ?r sku \<le> si_available item"
    if "dict_get (rv_lines ?r) sku \<noteq> None" "dict_get (iv_stock iv) sku = Some item" for sku item
  proof -
    from that(1) obtain q where "dict_get lines sku = Some q" by auto
    with room that(2) show ?thesis by (auto simp: line_qty_def dest: map_of_SomeD)
  qed
  have "iv_ok fresh received (iv\<lparr>iv_ids := ids, iv_stock := stock,
      iv_reservations := dict_set i ?r (iv_reservations iv), iv_by_order := dict_set (rv_order ?r) i (iv_by_order iv)\<rparr>)"
  proof (rule iv_ok_new_hold [OF ok new _ _ _ qty])
    show "rv_ok (iv_stock iv) ?r" using lines known by (simp add: rv_ok_def)
    show "\<not> fresh ids i" "\<And>j. \<not> fresh (iv_ids iv) j \<Longrightarrow> \<not> fresh ids j"
      using issued_is_spent [OF i] fresh_shrinks [OF i] by blast+
    show "\<not> rv_is_live s" if "dict_get (iv_reservations iv) j = Some s" "rv_order s = rv_order ?r" for j s
      using iv_ok_no_live [OF ok alone that(1)] that(2) by simp
  qed (use stock in simp_all)
  with Inr res new fresh_rows stock(3) show ?thesis by auto
qed

lemma iv_ok_reserve:
  assumes ok: "iv_ok fresh received iv" and lines: "dict_ok lines"
    and run: "iv_reserve next_id iv now order lines expected = (res, iv')"
  shows "iv_ok fresh received iv'"
proof (cases "lines = [] \<or> (\<exists>qty \<in> set (map snd lines). qty \<le> 0)")
  case True
  with run ok show ?thesis by (auto simp: iv_reserve_def)
next
  case False
  obtain n iv1 where iv1: "iv_reclaim iv now = (Inr n, iv1)" "iv_ok fresh received iv1"
    using iv_reclaim_ok [OF ok, of now] by metis
  show ?thesis
  proof (cases "iv_live_for iv1 order")
    case None
    with run False iv1 have "iv_take next_id iv1 now order lines expected = (res, iv')"
      by (simp add: iv_reserve_def)
    from iv_take_ok [OF iv1(2) lines _ None this] False show ?thesis by (simp add: not_le)
  next
    case (Some x)
    with run False iv1 show ?thesis by (simp add: iv_reserve_def)
  qed
qed

lemma iv_step_ok: "iv_step next_id s s' \<Longrightarrow> iv_ok fresh (snd s) (fst s) \<Longrightarrow> iv_ok fresh (snd s') (fst s')"
  by (induction rule: iv_step.induct)
    (auto intro: iv_ok_stock_in iv_ok_reserve iv_ok_commit iv_ok_release iv_ok_reclaim simp: iv_expire_def)

lemma iv_reachable_ok: "iv_reachable next_id ids iv received \<Longrightarrow> iv_ok fresh received iv"
proof -
  assume "iv_reachable next_id ids iv received"
  then obtain ttl iv0 where new: "inventory_new ids ttl = Inr iv0"
    and run: "(iv_step next_id)\<^sup>*\<^sup>* (iv0, \<lambda>_. 0) (iv, received)"
    by (auto simp: iv_reachable_def)
  have init: "iv_ok fresh (\<lambda>_. 0) iv0" using new by (auto simp: inventory_new_def iv_ok_def split: if_splits)
  have "iv_ok fresh (snd s) (fst s)" if "(iv_step next_id)\<^sup>*\<^sup>* (iv0, \<lambda>_. 0) s" for s
    using that by (induction rule: rtranclp_induct) (use init iv_step_ok in auto)
  from this [OF run] show ?thesis by simp
qed

end


section \<open>Versions never come back\<close>

text \<open>A row that changed has a higher version.\<close>

definition rows_le :: "(string, stock_item) dict \<Rightarrow> (string, stock_item) dict \<Rightarrow> bool" where
  "rows_le stock stock' \<longleftrightarrow> (\<forall>sku item. dict_get stock sku = Some item \<longrightarrow>
     (\<exists>item'. dict_get stock' sku = Some item' \<and> (item' = item \<or> si_version item < si_version item')))"

lemma rows_le_refl [simp]: "rows_le s s"
  by (simp add: rows_le_def)

lemma rows_le_trans:
  assumes "rows_le a b" "rows_le b c"
  shows "rows_le a c"
  unfolding rows_le_def
proof (intro allI impI)
  fix sku item assume "dict_get a sku = Some item"
  with assms(1) obtain i1 where 1: "dict_get b sku = Some i1" "i1 = item \<or> si_version item < si_version i1"
    unfolding rows_le_def by blast
  with assms(2) obtain i2 where "dict_get c sku = Some i2" "i2 = i1 \<or> si_version i1 < si_version i2"
    unfolding rows_le_def by blast
  with 1 show "\<exists>i2. dict_get c sku = Some i2 \<and> (i2 = item \<or> si_version item < si_version i2)" by auto
qed

lemma rows_le_set:
  "dict_get s sku = Some item \<Longrightarrow> si_version item < si_version item' \<Longrightarrow> rows_le s (dict_set sku item' s)"
  by (simp add: rows_le_def)

lemma each_line_rows_le:
  assumes "\<And>item q. si_version item < si_version (f item q)"
  shows "rows_le stock (snd (each_line f lines stock))"
proof (induction lines arbitrary: stock)
  case (Cons line lines)
  show ?case
  proof (cases "dict_get stock (fst line)")
    case None
    then show ?thesis by (cases line) simp
  next
    case (Some item)
    have "rows_le stock (dict_set (fst line) (f item (snd line)) stock)"
      by (rule rows_le_set [OF Some assms])
    also note Cons.IH [of "dict_set (fst line) (f item (snd line)) stock"]
    finally (rows_le_trans) show ?thesis using Some by (cases line) simp
  qed
qed simp

lemma give_back_rows_le: "rows_le (iv_stock iv) (iv_stock (snd (iv_give_back iv i r state)))"
  using each_line_rows_le [of return_line "iv_stock iv" "rv_lines r"]
  by (cases "each_line return_line (rv_lines r) (iv_stock iv)")
    (auto simp: iv_give_back_def return_line_def split: sum.split)

lemma reclaim_loop_rows_le: "rows_le (iv_stock iv) (iv_stock (snd (reclaim_loop stale iv)))"
proof (induction stale arbitrary: iv)
  case (Cons ir stale)
  obtain i r where ir: "ir = (i, r)" by fastforce
  obtain res iv1 where g: "iv_give_back iv i r EXPIRED = (res, iv1)" by fastforce
  have "rows_le (iv_stock iv) (iv_stock iv1)" using give_back_rows_le [of iv i r EXPIRED] g by simp
  with Cons.IH [of iv1] show ?case
    using g ir rows_le_trans by (auto split: sum.split)
qed simp

lemma reclaim_rows_le: "iv_reclaim iv now = (n, iv') \<Longrightarrow> rows_le (iv_stock iv) (iv_stock iv')"
  using reclaim_loop_rows_le [of iv "iv_stale iv now"]
  by (auto simp: iv_reclaim_def split: prod.splits sum.splits)

lemma take_rows_le:
  "iv_take next_id iv now order lines expected = (res, iv') \<Longrightarrow> rows_le (iv_stock iv) (iv_stock iv')"
  using each_line_rows_le [of hold_line "iv_stock iv" lines] reserve_loop_each_line [of lines "iv_stock iv" "[]"]
  by (auto simp: iv_take_def hold_line_def Let_def split: prod.splits sum.splits if_splits)

lemma reserve_rows_le:
  assumes run: "iv_reserve next_id iv now order lines expected = (res, iv')"
  shows "rows_le (iv_stock iv) (iv_stock iv')"
proof -
  obtain n iv1 where iv1: "iv_reclaim iv now = (n, iv1)" by fastforce
  from reclaim_rows_le [OF this] have "rows_le (iv_stock iv) (iv_stock iv1)" .
  moreover have "rows_le (iv_stock iv1) (iv_stock iv') \<or> iv' = iv"
    using run iv1 take_rows_le [of next_id iv1 now order lines expected]
    by (auto simp: iv_reserve_def split: sum.splits option.splits if_splits)
  ultimately show ?thesis using rows_le_trans by fastforce
qed

lemma commit_rows_le: "iv_commit iv i = (res, iv') \<Longrightarrow> rows_le (iv_stock iv) (iv_stock iv')"
proof -
  assume run: "iv_commit iv i = (res, iv')"
  have "rows_le (iv_stock iv) (snd (each_line sell_line ls (iv_stock iv)))" for ls
    by (rule each_line_rows_le) (simp add: sell_line_def)
  with run show ?thesis
    by (auto simp: iv_commit_def Let_def split: sum.splits prod.splits if_splits) (metis snd_conv)+
qed

lemma release_rows_le:
  assumes "iv_release iv i = (res, iv')"
  shows "rows_le (iv_stock iv) (iv_stock iv')"
proof -
  have "\<exists>r. iv' = iv \<or> iv' = snd (iv_give_back iv i r RELEASED)"
    using assms by (auto simp: iv_release_def split: sum.splits if_splits) (metis snd_conv)
  then show ?thesis using give_back_rows_le by auto
qed

lemma iv_step_rows_le: "iv_step next_id s s' \<Longrightarrow> rows_le (iv_stock (fst s)) (iv_stock (fst s'))"
proof (induction rule: iv_step.induct)
  case (stock_in iv sku q item iv' received)
  then show ?case
    by (auto simp: iv_stock_in_def Let_def rows_le_def split: if_splits option.splits)
qed (auto intro: reserve_rows_le commit_rows_le release_rows_le reclaim_rows_le simp: iv_expire_def)

lemma iv_steps_rows_le: "(iv_step next_id)\<^sup>*\<^sup>* s s' \<Longrightarrow> rows_le (iv_stock (fst s)) (iv_stock (fst s'))"
  by (induction rule: rtranclp_induct) (auto intro: rows_le_trans iv_step_rows_le)

lemma iv_versions_get:
  "dict_get (iv_versions iv skus) sku =
     (if sku \<in> set skus then map_option si_version (dict_get (iv_stock iv) sku) else None)"
proof -
  have "dict_get (fold (\<lambda>sku d. case dict_get (iv_stock iv) sku of None \<Rightarrow> d
        | Some item \<Rightarrow> dict_set sku (si_version item) d) skus d) sku =
      (if sku \<in> set skus \<and> dict_get (iv_stock iv) sku \<noteq> None
       then map_option si_version (dict_get (iv_stock iv) sku) else dict_get d sku)" for d
    by (induction skus arbitrary: d) (auto split: option.split)
  from this [of "[]"] show ?thesis by (simp add: iv_versions_def)
qed


section \<open>A retried reservation\<close>

context id_source
begin

lemma iv_reserve_live:
  assumes ok: "iv_ok fresh received iv" and lines: "dict_ok lines"
    and run: "iv_reserve next_id iv now order lines expected = (Inr r, iv')"
  shows "dict_get (iv_by_order iv') order = Some (rv_id r) \<and> dict_get (iv_reservations iv') (rv_id r) = Some r \<and>
    rv_is_live r"
proof -
  from run have pos: "\<not> (lines = [] \<or> (\<exists>qty \<in> set (map snd lines). qty \<le> 0))"
    unfolding iv_reserve_def by (metis Inl_Inr_False prod.inject)
  obtain n iv1 where iv1: "iv_reclaim iv now = (Inr n, iv1)" "iv_ok fresh received iv1"
    using iv_reclaim_ok [OF ok, of now] by metis
  show ?thesis
  proof (cases "iv_live_for iv1 order")
    case None
    with run pos iv1 have take: "iv_take next_id iv1 now order lines expected = (Inr r, iv')"
      by (simp add: iv_reserve_def)
    have "\<forall>q \<in> set (map snd lines). 0 < q" using pos by (metis not_le)
    note T = iv_take_ok [OF iv1(2) lines this None take]
    then have "rv_is_live r" "rv_order r = order" "dict_get (iv_reservations iv') (rv_id r) = Some r"
      by (auto simp: rv_is_live_def)
    with T show ?thesis unfolding iv_ok_def by metis
  next
    case (Some x)
    with run pos iv1 have x: "x = Inr r" "iv' = iv1" by (auto simp: iv_reserve_def)
    from Some x obtain i where i: "dict_get (iv_by_order iv1) order = Some i"
      "r = the (dict_get (iv_reservations iv1) i)" "rv_is_live r"
      by (auto simp: iv_live_for_ok [OF iv1(2)] Let_def split: option.splits if_splits)
    with iv1(2) obtain r' where "dict_get (iv_reservations iv1) i = Some r'" unfolding iv_ok_def by blast
    with i iv1(2) x show ?thesis unfolding iv_ok_def by auto
  qed
qed

lemma iv_reserve_again:
  assumes ok: "iv_ok fresh received iv" and lines: "dict_ok lines"
    and run: "iv_reserve next_id iv now order lines expected = (Inr r, iv')"
    and lines': "lines' \<noteq> []" "\<forall>qty \<in> set (map snd lines'). 0 < qty"
    and time: "rv_state r = COMMITTED \<or> later < rv_expires_at r"
  shows "iv_reserve next_id iv' later order lines' expected' = (Inr r, snd (iv_reclaim iv' later))"
proof -
  have ok': "iv_ok fresh received iv'" by (rule iv_ok_reserve [OF ok lines run])
  obtain n iv2 where iv2: "iv_reclaim iv' later = (Inr n, iv2)" "iv_ok fresh received iv2"
    "iv_by_order iv2 = iv_by_order iv'"
    "dict_get (iv_reservations iv2) = swept (map fst (iv_stale iv' later)) (iv_reservations iv')"
    using iv_reclaim_ok [OF ok', of later] by metis
  note live = iv_reserve_live [OF ok lines run]
  have "rv_id r \<notin> set (map fst (iv_stale iv' later))"
  proof
    assume "rv_id r \<in> set (map fst (iv_stale iv' later))"
    then obtain s where s: "(rv_id r, s) \<in> set (iv_stale iv' later)" by auto
    with iv_stale_ok [OF ok', of later] live have "s = r" by fastforce
    with s time show False by (auto simp: iv_stale_def)
  qed
  then have "dict_get (iv_reservations iv2) (rv_id r) = Some r" using live by (simp add: iv2(4) swept_def)
  then have "iv_live_for iv2 order = Some (Inr r)"
    using live iv2(3) by (simp add: iv_live_for_def)
  with iv2(1) lines' show ?thesis by (auto simp: iv_reserve_def)
qed

end

section \<open>The flash-sale counter\<close>

record flash_counter =
  fs_sku :: string
  fs_shards :: "int list"
  fs_cursor :: nat

definition flash_new :: "string \<Rightarrow> int \<Rightarrow> int \<Rightarrow> flash_counter result" where
  "flash_new sku units shards =
     (if units \<le> 0 \<or> shards \<le> 0 then Inl ValidationError
      else Inr \<lparr>fs_sku = sku,
                fs_shards = map (\<lambda>i. units div shards + (if i < units mod shards then 1 else 0)) [0 .. shards - 1],
                fs_cursor = 0\<rparr>)"

definition flash_take :: "flash_counter \<Rightarrow> int \<Rightarrow> nat option result \<times> flash_counter" where
  "flash_take c quantity =
     (if quantity \<le> 0 then (Inl ValidationError, c)
      else let n = length (fs_shards c);
               index = (\<lambda>offset. (fs_cursor c + offset) mod n)
           in case find (\<lambda>offset. quantity \<le> fs_shards c ! index offset) [0 ..< n] of
                None \<Rightarrow> (Inr None, c)
              | Some offset \<Rightarrow>
                  (Inr (Some (index offset)),
                   c\<lparr>fs_shards := (fs_shards c)[index offset := fs_shards c ! index offset - quantity],
                     fs_cursor := (index offset + 1) mod n\<rparr>))"

text \<open>A Python index counts from the end when it is negative.\<close>

definition flash_give_back :: "flash_counter \<Rightarrow> int \<Rightarrow> int \<Rightarrow> unit result \<times> flash_counter" where
  "flash_give_back c i quantity =
     (let n = int (length (fs_shards c)); j = (if i < 0 then i + n else i)
      in if j < 0 \<or> n \<le> j then (Inl IndexError, c)
         else (Inr (), c\<lparr>fs_shards := (fs_shards c)[nat j := fs_shards c ! nat j + quantity]\<rparr>))"

definition flash_remaining :: "flash_counter \<Rightarrow> int" where
  "flash_remaining c = sum_list (fs_shards c)"

definition flash_ok :: "flash_counter \<Rightarrow> bool" where
  "flash_ok c \<longleftrightarrow> fs_shards c \<noteq> [] \<and> (\<forall>x \<in> set (fs_shards c). 0 \<le> x)"

text \<open>Buyers of one unit each.\<close>

fun flash_sell :: "nat \<Rightarrow> flash_counter \<Rightarrow> nat option result list" where
  "flash_sell 0 c = []"
| "flash_sell (Suc n) c = (case flash_take c 1 of (res, c') \<Rightarrow> res # flash_sell n c')"

lemma sum_first_indices: "0 \<le> m \<Longrightarrow> m \<le> int n \<Longrightarrow> (\<Sum>i\<leftarrow>[0 .. int n - 1]. if i < m then 1 else 0) = m"
proof (induction n arbitrary: m)
  case (Suc n)
  have app: "[0 .. int (Suc n) - 1] = [0 .. int n - 1] @ [int n]"
    using upto_rec2 [of 0 "int n"] by simp
  show ?case
  proof (cases "m = int (Suc n)")
    case True
    then have "(\<Sum>i\<leftarrow>[0 .. int n - 1]. if i < m then 1 else 0 :: int) =
        (\<Sum>i\<leftarrow>[0 .. int n - 1]. if i < int n then 1 else 0)"
      by (intro arg_cong [of _ _ sum_list] map_cong) auto
    with True Suc.IH [of "int n"] show ?thesis unfolding app by simp
  next
    case False
    with Suc show ?thesis unfolding app by simp
  qed
qed simp

lemma flash_new_ok:
  assumes "flash_new sku units shards = Inr c"
  shows "flash_ok c \<and> flash_remaining c = units \<and> 0 < units"
proof -
  from assms have pos: "0 < units" "0 < shards"
    and c: "fs_shards c = map (\<lambda>i. units div shards + (if i < units mod shards then 1 else 0)) [0 .. shards - 1]"
    by (auto simp: flash_new_def split: if_splits)
  have "flash_remaining c = (\<Sum>i\<leftarrow>[0 .. shards - 1]. units div shards) +
      (\<Sum>i\<leftarrow>[0 .. shards - 1]. if i < units mod shards then 1 else 0)"
    by (simp add: flash_remaining_def c sum_list_addf)
  also have "(\<Sum>i\<leftarrow>[0 .. shards - 1]. if i < units mod shards then 1 else 0) = units mod shards"
    using sum_first_indices [of "units mod shards" "nat shards"] pos
    by (simp add: pos_mod_sign less_imp_le)
  also have "(\<Sum>i\<leftarrow>[0 .. shards - 1]. units div shards) = shards * (units div shards)"
    using pos by (simp add: sum_list_triv)
  finally have "flash_remaining c = units" by simp
  moreover have "0 \<le> units div shards" using pos by (simp add: pos_imp_zdiv_nonneg_iff)
  then have "flash_ok c" using pos by (auto simp: flash_ok_def c)
  ultimately show ?thesis using pos by simp
qed

lemma flash_take_cases:
  assumes ok: "flash_ok c" and q: "0 < q" and run: "flash_take c q = (res, c')"
  shows "flash_ok c' \<and>
    (case res of
       Inr (Some i) \<Rightarrow> i < length (fs_shards c) \<and> q \<le> fs_shards c ! i \<and> flash_remaining c' = flash_remaining c - q
     | Inr None \<Rightarrow> c' = c \<and> (\<forall>x \<in> set (fs_shards c). x < q)
     | Inl e \<Rightarrow> False)"
proof -
  let ?n = "length (fs_shards c)"
  let ?index = "\<lambda>offset. (fs_cursor c + offset) mod ?n"
  have n: "0 < ?n" using ok by (simp add: flash_ok_def)
  show ?thesis
  proof (cases "find (\<lambda>offset. q \<le> fs_shards c ! ?index offset) [0 ..< ?n]")
    case None
    have "x < q" if "x \<in> set (fs_shards c)" for x
    proof -
      from that obtain i where i: "i < ?n" "x = fs_shards c ! i" by (metis in_set_conv_nth)
      define offset where "offset = (i + ?n - fs_cursor c mod ?n) mod ?n"
      have le: "fs_cursor c mod ?n \<le> i + ?n" using n mod_less_divisor [OF n, of "fs_cursor c"] by linarith
      have "?index offset = (fs_cursor c mod ?n + (i + ?n - fs_cursor c mod ?n)) mod ?n"
        unfolding offset_def by (metis mod_add_left_eq mod_add_right_eq)
      also have "\<dots> = i" using i(1) le by simp
      finally have "?index offset = i" .
      moreover have "offset \<in> set [0 ..< ?n]" using n by (simp add: offset_def)
      ultimately show ?thesis using None i by (auto simp: find_None_iff)
    qed
    with None run q ok show ?thesis by (auto simp: flash_take_def Let_def)
  next
    case (Some offset)
    then have big: "q \<le> fs_shards c ! ?index offset" using find_SomeD by fastforce
    have i: "?index offset < ?n" using n by simp
    from run Some q have res: "res = Inr (Some (?index offset))"
      and c': "c' = c\<lparr>fs_shards := (fs_shards c)[?index offset := fs_shards c ! ?index offset - q],
        fs_cursor := (?index offset + 1) mod ?n\<rparr>"
      by (auto simp: flash_take_def Let_def)
    have "flash_remaining c' = flash_remaining c - q"
      unfolding flash_remaining_def c' using sum_list_list_update [OF i] by simp
    moreover have "flash_ok c'"
      using ok big unfolding flash_ok_def c' by (auto dest: set_update_subset_insert [THEN subsetD])
    ultimately show ?thesis using res i big by simp
  qed
qed

lemma flash_remaining_zero: "flash_ok c \<Longrightarrow> (\<forall>x \<in> set (fs_shards c). x < 1) \<longleftrightarrow> flash_remaining c = 0"
proof -
  assume ok: "flash_ok c"
  have "sum_list xs = 0 \<longleftrightarrow> (\<forall>x \<in> set xs. x < 1)" if "\<forall>x \<in> set xs. 0 \<le> x" for xs :: "int list"
    using that
  proof (induction xs)
    case (Cons x xs)
    have "0 \<le> sum_list xs" using Cons.prems by (intro sum_list_nonneg) auto
    with Cons show ?case by auto
  qed simp
  from this [of "fs_shards c"] ok show ?thesis by (auto simp: flash_ok_def flash_remaining_def)
qed


section \<open>The checkout saga\<close>

datatype order_state =
  ORDER_CREATED | ORDER_RESERVED | ORDER_PAID | ORDER_FULFILLING | ORDER_COMPLETED | ORDER_CANCELLED

datatype payload = PStr string | PUnits "(string, int) dict"

record outbox_event =
  ev_topic :: string
  ev_payload :: "(string, payload) dict"

definition outbox_append :: "outbox_event list \<Rightarrow> string \<Rightarrow> (string, payload) dict \<Rightarrow> outbox_event list" where
  "outbox_append pending topic payload = pending @ [\<lparr>ev_topic = topic, ev_payload = payload\<rparr>]"

definition outbox_relay :: "outbox_event list \<Rightarrow> outbox_event list \<times> outbox_event list" where
  "outbox_relay pending = (pending, [])"

text \<open>
  The services of a checkout: the inventory and its clock, the outbox, and the payment provider,
  whose state and whose operations \<^verbatim>\<open>charge\<close> and \<^verbatim>\<open>refund\<close> are parameters.
\<close>

record ('g, 'p) checkout_world =
  cw_now :: time
  cw_inventory :: "'g inventory"
  cw_outbox :: "outbox_event list"
  cw_payments :: 'p

text \<open>The context dictionary: the keys a step may find missing are optional.\<close>

record checkout_ctx =
  cc_order :: string
  cc_lines :: "(string, int) dict"
  cc_amount :: money
  cc_state :: "order_state option"
  cc_reservation :: "string option"
  cc_payment :: "string option"
  cc_shipment :: "string option"

type_synonym ('g, 'p) checkout_action = "(checkout_ctx, ('g, 'p) checkout_world) action"

definition publish :: "('g, 'p) checkout_world \<Rightarrow> string \<Rightarrow> (string, payload) dict \<Rightarrow> ('g, 'p) checkout_world" where
  "publish w topic payload = w\<lparr>cw_outbox := outbox_append (cw_outbox w) topic payload\<rparr>"

definition reserve_inventory :: "('g \<Rightarrow> string \<times> 'g) \<Rightarrow> ('g, 'p) checkout_action" where
  "reserve_inventory next_id ctx w =
     (case iv_reserve next_id (cw_inventory w) (cw_now w) (cc_order ctx) (cc_lines ctx) [] of
        (Inl e, iv) \<Rightarrow>
          (Inl (if is_conflict_error e \<or> e = NotFoundError then StepFailed else e), ctx, w\<lparr>cw_inventory := iv\<rparr>)
      | (Inr r, iv) \<Rightarrow>
          (Inr (), ctx\<lparr>cc_state := Some ORDER_RESERVED, cc_reservation := Some (rv_id r)\<rparr>,
           publish (w\<lparr>cw_inventory := iv\<rparr>) ''inventory-reserved''
             [(''order_id'', PStr (cc_order ctx)), (''lines'', PUnits (cc_lines ctx)),
              (''versions'', PUnits (rv_versions r))]))"

definition release_inventory :: "('g, 'p) checkout_action" where
  "release_inventory ctx w =
     (case (case cc_reservation ctx of None \<Rightarrow> (Inr (), cw_inventory w)
            | Some i \<Rightarrow> iv_release (cw_inventory w) i) of
        (Inl e, iv) \<Rightarrow> (Inl e, ctx, w\<lparr>cw_inventory := iv\<rparr>)
      | (Inr _, iv) \<Rightarrow>
          (Inr (), ctx\<lparr>cc_state := Some ORDER_CANCELLED\<rparr>,
           publish (w\<lparr>cw_inventory := iv\<rparr>) ''order-cancelled'' [(''order_id'', PStr (cc_order ctx))]))"

definition charge_payment ::
  "(string \<Rightarrow> money \<Rightarrow> 'p \<Rightarrow> string result \<times> 'p) \<Rightarrow> ('g, 'p) checkout_action" where
  "charge_payment charge ctx w =
     (case charge (cc_order ctx) (cc_amount ctx) (cw_payments w) of
        (Inl e, p) \<Rightarrow> (Inl e, ctx, w\<lparr>cw_payments := p\<rparr>)
      | (Inr ref, p) \<Rightarrow>
          (Inr (), ctx\<lparr>cc_state := Some ORDER_PAID, cc_payment := Some ref\<rparr>,
           publish (w\<lparr>cw_payments := p\<rparr>) ''payment-captured''
             [(''order_id'', PStr (cc_order ctx)), (''ref'', PStr ref)]))"

definition refund_payment :: "(string \<Rightarrow> 'p \<Rightarrow> unit result \<times> 'p) \<Rightarrow> ('g, 'p) checkout_action" where
  "refund_payment refund ctx w =
     (case cc_payment ctx of
        None \<Rightarrow> (Inr (), ctx, w)
      | Some ref \<Rightarrow> (case refund ref (cw_payments w) of (res, p) \<Rightarrow> (res, ctx, w\<lparr>cw_payments := p\<rparr>)))"

definition commit_inventory :: "('g, 'p) checkout_action" where
  "commit_inventory ctx w =
     (case cc_reservation ctx of
        None \<Rightarrow> (Inl KeyError, ctx, w)
      | Some i \<Rightarrow>
          (case iv_commit (cw_inventory w) i of
             (Inl e, iv) \<Rightarrow> (Inl e, ctx, w\<lparr>cw_inventory := iv\<rparr>)
           | (Inr r, iv) \<Rightarrow>
               (Inr (), ctx\<lparr>cc_state := Some ORDER_FULFILLING\<rparr>,
                publish (w\<lparr>cw_inventory := iv\<rparr>) ''inventory-committed'' [(''order_id'', PStr (cc_order ctx))])))"

definition create_shipment :: "('g, 'p) checkout_action" where
  "create_shipment ctx w =
     (let shipment = ''shp-'' @ cc_order ctx
      in (Inr (), ctx\<lparr>cc_state := Some ORDER_COMPLETED, cc_shipment := Some shipment\<rparr>,
          publish w ''shipment-created''
            [(''order_id'', PStr (cc_order ctx)), (''shipment'', PStr shipment)]))"

definition checkout_steps ::
  "('g \<Rightarrow> string \<times> 'g) \<Rightarrow> (string \<Rightarrow> money \<Rightarrow> 'p \<Rightarrow> string result \<times> 'p) \<Rightarrow>
   (string \<Rightarrow> 'p \<Rightarrow> unit result \<times> 'p) \<Rightarrow> (checkout_ctx, ('g, 'p) checkout_world) step list" where
  "checkout_steps next_id charge refund =
     [\<lparr>st_name = ''reserve_inventory'', st_action = reserve_inventory next_id,
       st_compensation = Some release_inventory, st_kind = COMPENSATABLE\<rparr>,
      \<lparr>st_name = ''charge_payment'', st_action = charge_payment charge,
       st_compensation = Some (refund_payment refund), st_kind = PIVOT\<rparr>,
      \<lparr>st_name = ''commit_inventory'', st_action = commit_inventory, st_compensation = None, st_kind = RETRIABLE\<rparr>,
      \<lparr>st_name = ''create_shipment'', st_action = create_shipment, st_compensation = None, st_kind = RETRIABLE\<rparr>]"

definition build_checkout_saga ::
  "('g \<Rightarrow> string \<times> 'g) \<Rightarrow> (string \<Rightarrow> money \<Rightarrow> 'p \<Rightarrow> string result \<times> 'p) \<Rightarrow>
   (string \<Rightarrow> 'p \<Rightarrow> unit result \<times> 'p) \<Rightarrow> (checkout_ctx, ('g, 'p) checkout_world) orchestrator result" where
  "build_checkout_saga next_id charge refund = orchestrator_new (checkout_steps next_id charge refund) 3"


section \<open>Properties\<close>

text \<open>C15. No overselling: in every reachable state, for every article, the units reserved are exactly
  those of the reservations held, they never exceed what is on hand, and what is on hand plus what
  was sold is what came in, so sales and holds together never exceed the stock received.\<close>

theorem iv_no_oversell:
  assumes "iv_reachable seq_next_id (id_gen_new pre start) iv received"
    and "dict_get (iv_stock iv) sku = Some item"
  shows "0 \<le> si_available item \<and> si_reserved item = units_in HELD sku (iv_reservations iv) \<and>
    si_on_hand item + units_in COMMITTED sku (iv_reservations iv) = received sku \<and>
    units_in HELD sku (iv_reservations iv) + units_in COMMITTED sku (iv_reservations iv) \<le> received sku"
proof -
  have "row_ok received (iv_reservations iv) sku item"
    using seq_ids.iv_reachable_ok [OF assms(1)] assms(2) by (simp add: iv_ok_def)
  then show ?thesis by (simp add: row_ok_def si_available_def)
qed

text \<open>A retried checkout gets the reservation it already has: reserving again for the same order,
  before the hold expires or after it was sold, returns that reservation and changes nothing but
  sweep the expired holds of others.\<close>

theorem iv_reserve_idempotent:
  assumes "iv_reachable seq_next_id (id_gen_new pre start) iv received" "dict_ok lines"
    and "iv_reserve seq_next_id iv now order lines expected = (Inr r, iv')"
    and "lines' \<noteq> []" "\<forall>qty \<in> set (map snd lines'). 0 < qty"
    and "rv_state r = COMMITTED \<or> later < rv_expires_at r"
  shows "iv_reserve seq_next_id iv' later order lines' expected' = (Inr r, snd (iv_reclaim iv' later))"
  by (rule seq_ids.iv_reserve_again [OF seq_ids.iv_reachable_ok [OF assms(1)] assms(2-6)])

text \<open>The optimistic lock holds: when a reserve that carries versions read earlier makes a new
  hold, then every row those versions were read from is still exactly as it was read, whatever
  happened in between.\<close>

theorem iv_versions_cas:
  assumes "iv_reachable seq_next_id (id_gen_new pre start) iv received"
    and "(iv_step seq_next_id)\<^sup>*\<^sup>* (iv, received) (iv', received')"
    and "dict_ok lines" "iv_reserve seq_next_id iv' now order lines (iv_versions iv skus) = (Inr r, iv'')"
    and "dict_get (iv_reservations iv') (rv_id r) = None"
    and "sku \<in> set skus" "dict_get (iv_stock iv) sku = Some item"
  shows "dict_get (iv_stock iv') sku = Some item"
proof -
  have "iv_reachable seq_next_id (id_gen_new pre start) iv' received'"
    using assms(1,2) unfolding iv_reachable_def by (meson rtranclp_trans)
  then have ok: "iv_ok seq_fresh received' iv'" by (rule seq_ids.iv_reachable_ok)
  obtain n iv1 where iv1: "iv_reclaim iv' now = (Inr n, iv1)" "iv_ok seq_fresh received' iv1"
    "iv_by_order iv1 = iv_by_order iv'"
    "dict_get (iv_reservations iv1) = swept (map fst (iv_stale iv' now)) (iv_reservations iv')"
    using iv_reclaim_ok [OF ok, of now] by metis
  have pos: "\<not> (lines = [] \<or> (\<exists>qty \<in> set (map snd lines). qty \<le> 0))"
    using assms(4) unfolding iv_reserve_def by (metis Inl_Inr_False prod.inject)
  have "iv_live_for iv1 order = None"
  proof (rule ccontr)
    assume "iv_live_for iv1 order \<noteq> None"
    with assms(4) pos iv1 have "iv_live_for iv1 order = Some (Inr r)" by (auto simp: iv_reserve_def)
    then obtain i where "dict_get (iv_by_order iv1) order = Some i" "dict_get (iv_reservations iv1) i = Some r"
      by (auto simp: iv_live_for_def split: option.splits if_splits)
    moreover from this iv1(2) have "rv_id r = i" unfolding iv_ok_def by blast
    ultimately show False using assms(5) iv1(4) by (auto simp: swept_def split: if_splits)
  qed
  with assms(4) pos iv1 have "iv_take seq_next_id iv1 now order lines (iv_versions iv skus) = (Inr r, iv'')"
    by (simp add: iv_reserve_def)
  then have "\<forall>(s, v) \<in> set (iv_versions iv skus). map_option si_version (dict_get (iv_stock iv1) s) = Some v"
    by (rule iv_take_Inr(3))
  moreover have "dict_get (iv_versions iv skus) sku = Some (si_version item)"
    using assms(6,7) by (simp add: iv_versions_get)
  ultimately obtain item1 where 1: "dict_get (iv_stock iv1) sku = Some item1" "si_version item1 = si_version item"
    by (fastforce dest: map_of_SomeD)
  have "rows_le (iv_stock iv) (iv_stock iv')" using iv_steps_rows_le [OF assms(2)] by simp
  with assms(7) obtain item' where 2: "dict_get (iv_stock iv') sku = Some item'"
    "item' = item \<or> si_version item < si_version item'"
    unfolding rows_le_def by blast
  from reclaim_rows_le [OF iv1(1)] 1 2(1) have "si_version item' \<le> si_version item1"
    unfolding rows_le_def by fastforce
  with 1 2 show ?thesis by auto
qed

lemma flash_sell_nth:
  assumes "flash_ok c" "k < n"
  shows "if int k < flash_remaining c then \<exists>i. flash_sell n c ! k = Inr (Some i) else flash_sell n c ! k = Inr None"
  using assms
proof (induction n arbitrary: c k)
  case (Suc n)
  obtain res c' where t: "flash_take c 1 = (res, c')" by fastforce
  note T = flash_take_cases [OF Suc.prems(1) _ t]
  have nonneg: "0 \<le> flash_remaining c" using Suc.prems(1)
    by (auto simp: flash_remaining_def flash_ok_def intro: sum_list_nonneg)
  consider (sold) i where "res = Inr (Some i)" | (out) "res = Inr None" using T by (auto split: sum.splits option.splits)
  then show ?case
  proof cases
    case sold
    with T have ok: "flash_ok c'" and rem: "flash_remaining c' = flash_remaining c - 1" by auto
    have "0 < flash_remaining c"
    proof -
      have "0 \<le> flash_remaining c'" using ok by (auto simp: flash_remaining_def flash_ok_def intro: sum_list_nonneg)
      with rem show ?thesis by simp
    qed
    with sold t rem Suc.IH [OF ok, of "k - 1"] Suc.prems(2) show ?thesis by (cases k) auto
  next
    case out
    with T have c': "c' = c" and "\<forall>x \<in> set (fs_shards c). x < 1" by auto
    with flash_remaining_zero [OF Suc.prems(1)] have "flash_remaining c = 0" by simp
    with out t c' Suc.IH [OF Suc.prems(1), of "k - 1"] Suc.prems(2) show ?thesis by (cases k) auto
  qed
qed simp

text \<open>A drop sells exactly what it has: of buyers who each take one unit, the first \<open>units\<close> get
  one, whatever the number of shards, and every later one is told it is sold out.\<close>

theorem flash_sells_exactly:
  assumes "flash_new sku units shards = Inr c" "k < n"
  shows "if int k < units then \<exists>i. flash_sell n c ! k = Inr (Some i) else flash_sell n c ! k = Inr None"
  using flash_sell_nth [of c k n] flash_new_ok [OF assms(1)] assms(2) by simp

theorem flash_sells_exactly_witness:
  "\<exists>c. flash_new ''sku'' 5 3 = Inr c \<and> flash_sell 7 c ! 4 \<noteq> Inr None \<and> flash_sell 7 c ! 5 = Inr None"
proof -
  obtain c where c: "flash_new ''sku'' 5 3 = Inr c" by (simp add: flash_new_def)
  from flash_sells_exactly [OF c, of 4 7] flash_sells_exactly [OF c, of 5 7] c show ?thesis by auto
qed

section \<open>A concrete shop\<close>

definition demo_iv1 :: "id_gen inventory" where
  "demo_iv1 = snd (iv_stock_in \<lparr>iv_ids = id_gen_new ''rsv'' 1, iv_ttl = 900, iv_stock = [],
     iv_reservations = [], iv_by_order = []\<rparr> ''sku-1'' 10)"

definition demo_iv2 :: "id_gen inventory" where
  "demo_iv2 = snd (iv_reserve seq_next_id demo_iv1 0 ''o-1'' [(''sku-1'', 4)] [])"

definition demo_iv3 :: "id_gen inventory" where
  "demo_iv3 = snd (iv_commit demo_iv2 ''rsv-1'')"

definition demo_iv4 :: "id_gen inventory" where
  "demo_iv4 = snd (iv_reserve seq_next_id demo_iv3 10 ''o-2'' [(''sku-1'', 3)] [])"

abbreviation demo_received :: "string \<Rightarrow> int" where
  "demo_received \<equiv> (\<lambda>_. 0)(''sku-1'' := 0 + 10)"

lemma demo_iv_steps:
  "iv_step seq_next_id (demo_iv1, received) (demo_iv2, received)"
  "iv_step seq_next_id (demo_iv2, received) (demo_iv3, received)"
  "iv_step seq_next_id (demo_iv3, received) (demo_iv4, received)"
  unfolding demo_iv2_def demo_iv3_def demo_iv4_def
  by (rule iv_step.reserve iv_step.commit; (rule prod.collapse [symmetric])?; simp add: dict_ok_def)+

lemma demo_iv1_reachable: "iv_reachable seq_next_id (id_gen_new ''rsv'' 1) demo_iv1 demo_received"
proof -
  let ?iv0 = "\<lparr>iv_ids = id_gen_new ''rsv'' 1, iv_ttl = 900, iv_stock = [], iv_reservations = [], iv_by_order = []\<rparr>"
  have "inventory_new (id_gen_new ''rsv'' 1) 900 = Inr ?iv0" by (simp add: inventory_new_def)
  moreover have "iv_step seq_next_id (?iv0, \<lambda>_. 0) (demo_iv1, demo_received)"
    unfolding demo_iv1_def by (rule iv_step.stock_in) (simp add: iv_stock_in_def Let_def)
  ultimately show ?thesis unfolding iv_reachable_def by blast
qed

lemma iv_reachable_step:
  "iv_reachable next_id ids iv received \<Longrightarrow> iv_step next_id (iv, received) (iv', received') \<Longrightarrow>
   iv_reachable next_id ids iv' received'"
  unfolding iv_reachable_def by (meson rtranclp.rtrancl_into_rtrancl)

lemmas demo_reachable_ivs =
  demo_iv1_reachable
  iv_reachable_step [OF demo_iv1_reachable demo_iv_steps(1)]
  iv_reachable_step [OF iv_reachable_step [OF iv_reachable_step [OF demo_iv1_reachable demo_iv_steps(1)]
    demo_iv_steps(2)] demo_iv_steps(3)]

theorem iv_no_oversell_witness:
  "\<exists>item. dict_get (iv_stock demo_iv4) ''sku-1'' = Some item \<and> si_available item = 3 \<and>
     units_in HELD ''sku-1'' (iv_reservations demo_iv4) = 3 \<and>
     units_in COMMITTED ''sku-1'' (iv_reservations demo_iv4) = 4"
proof -
  let ?item = "the (dict_get (iv_stock demo_iv4) ''sku-1'')"
  have item: "dict_get (iv_stock demo_iv4) ''sku-1'' = Some ?item" by code_simp
  have "si_available ?item = 3" "si_on_hand ?item = 6" "si_reserved ?item = 3" by code_simp+
  with iv_no_oversell [OF demo_reachable_ivs(3) item] item show ?thesis by auto
qed

theorem iv_reserve_idempotent_witness:
  "\<exists>r. fst (iv_reserve seq_next_id demo_iv1 0 ''o-1'' [(''sku-1'', 4)] []) = Inr r \<and> rv_id r = ''rsv-1'' \<and>
     fst (iv_reserve seq_next_id demo_iv2 899 ''o-1'' [(''sku-1'', 7)] []) = Inr r"
proof -
  let ?res = "iv_reserve seq_next_id demo_iv1 0 ''o-1'' [(''sku-1'', 4)] []"
  have "\<exists>r. fst ?res = Inr r \<and> rv_id r = ''rsv-1'' \<and> 899 < rv_expires_at r"
    by (rule exI [of _ "case fst ?res of Inr r \<Rightarrow> r"]) code_simp
  then obtain r where r: "fst ?res = Inr r" "rv_id r = ''rsv-1''" "899 < rv_expires_at r" by blast
  then have run: "?res = (Inr r, demo_iv2)" unfolding demo_iv2_def by (metis prod.collapse)
  have ok: "dict_ok [(''sku-1'', 4 :: int)]" "[(''sku-1'', 7 :: int)] \<noteq> []"
    "\<forall>qty \<in> set (map snd [(''sku-1'', 7 :: int)]). 0 < qty"
    by (simp_all add: dict_ok_def)
  show ?thesis
    using iv_reserve_idempotent [OF demo_iv1_reachable ok(1) run ok(2,3) disjI2 [OF r(3)], of "[]"] r
    by (intro exI [of _ r]) simp
qed

theorem iv_versions_cas_witness:
  "\<exists>item. dict_get (iv_stock demo_iv3) ''sku-1'' = Some item \<and> si_version item = 3 \<and>
     fst (iv_reserve seq_next_id demo_iv3 10 ''o-2'' [(''sku-1'', 3)] (iv_versions demo_iv3 [''sku-1''])) \<noteq> Inl ConflictError \<and>
     fst (iv_reserve seq_next_id demo_iv3 10 ''o-2'' [(''sku-1'', 3)] (iv_versions demo_iv2 [''sku-1''])) = Inl ConflictError"
proof -
  let ?res = "iv_reserve seq_next_id demo_iv3 10 ''o-2'' [(''sku-1'', 3)] (iv_versions demo_iv3 [''sku-1''])"
  let ?item = "the (dict_get (iv_stock demo_iv3) ''sku-1'')"
  have reach: "iv_reachable seq_next_id (id_gen_new ''rsv'' 1) demo_iv3 demo_received"
    using demo_reachable_ivs(2) demo_iv_steps(2) by (rule iv_reachable_step)
  have "\<exists>r. fst ?res = Inr r \<and> dict_get (iv_reservations demo_iv3) (rv_id r) = None"
    by (rule exI [of _ "case fst ?res of Inr r \<Rightarrow> r"]) code_simp
  then obtain r where r: "fst ?res = Inr r" "dict_get (iv_reservations demo_iv3) (rv_id r) = None" by blast
  then have run: "?res = (Inr r, snd ?res)" by (simp add: prod_eq_iff)
  have item: "dict_get (iv_stock demo_iv3) ''sku-1'' = Some ?item" "si_version ?item = 3" by code_simp+
  have ok: "dict_ok [(''sku-1'', 3 :: int)]" by (simp add: dict_ok_def)
  have late: "fst (iv_reserve seq_next_id demo_iv3 10 ''o-2'' [(''sku-1'', 3)] (iv_versions demo_iv2 [''sku-1''])) =
      Inl ConflictError"
    by code_simp
  show ?thesis
    using iv_versions_cas [OF reach rtranclp.rtrancl_refl ok run r(2) _ item(1)] item late r(1)
    by (intro exI [of _ ?item]) simp
qed

section \<open>A sale that can no longer be committed\<close>

text \<open>A payment provider that always captures, once per order.\<close>

definition demo_charge :: "string \<Rightarrow> money \<Rightarrow> string list \<Rightarrow> string result \<times> string list" where
  "demo_charge order amount captured = (Inr (''pay-'' @ order), List.insert order captured)"

definition demo_refund :: "string \<Rightarrow> string list \<Rightarrow> unit result \<times> string list" where
  "demo_refund ref captured = (Inr (), captured)"

type_synonym demo_checkout = "(checkout_ctx, (id_gen, string list) checkout_world) saga_sys"

definition checkout_crashed :: "demo_checkout" where
  "checkout_crashed = snd (saga_start
     \<lparr>sy_orch = \<lparr>so_steps = checkout_steps seq_next_id demo_charge demo_refund, so_max_attempts = 3,
                so_crash_after = Some ''charge_payment''\<rparr>,
      sy_log = [],
      sy_world = \<lparr>cw_now = 0, cw_inventory = demo_iv1, cw_outbox = [], cw_payments = []\<rparr>\<rparr>
     ''s'' \<lparr>cc_order = ''o'', cc_lines = [(''sku-1'', 2)], cc_amount = Money 500 ''USD'', cc_state = None,
            cc_reservation = None, cc_payment = None, cc_shipment = None\<rparr>)"

text \<open>The sweeper runs sixteen minutes later.\<close>

definition checkout_swept :: "demo_checkout" where
  "checkout_swept = checkout_crashed\<lparr>sy_world := (sy_world checkout_crashed)
     \<lparr>cw_now := 960, cw_inventory := snd (iv_expire (cw_inventory (sy_world checkout_crashed)) 960)\<rparr>\<rparr>"

text \<open>Past the pivot a checkout can get stuck for good: when the orchestrator dies after charging
  and the hold expires before it resumes, the commit raises \<^verbatim>\<open>InvalidStateError\<close>, which is neither of
  the errors the orchestrator handles. Every resumption raises it again; the saga stays RUNNING, the
  payment captured and the units back on the shelf.\<close>

theorem checkout_paid_but_expired:
  "\<exists>sys :: demo_checkout. \<exists>r.
     saga_resume checkout_swept ''s'' = (Inl InvalidStateError, sys) \<and>
     fst (saga_resume sys ''s'') = Inl InvalidStateError \<and>
     dict_get (sy_log sys) ''s'' = Some r \<and> sr_state r = RUNNING \<and>
     cc_payment (sr_context r) = Some ''pay-o'' \<and> cw_payments (sy_world sys) = [''o''] \<and>
     iv_available (cw_inventory (sy_world sys)) ''sku-1'' = Inr 10"
proof -
  let ?sys = "snd (saga_resume checkout_swept ''s'')"
  have "fst (saga_resume checkout_swept ''s'') = Inl InvalidStateError"
    and "fst (saga_resume ?sys ''s'') = Inl InvalidStateError"
    and "dict_get (sy_log ?sys) ''s'' = Some (the (dict_get (sy_log ?sys) ''s''))"
    and "sr_state (the (dict_get (sy_log ?sys) ''s'')) = RUNNING"
    and "cc_payment (sr_context (the (dict_get (sy_log ?sys) ''s''))) = Some ''pay-o''"
    and "cw_payments (sy_world ?sys) = [''o'']"
    and "iv_available (cw_inventory (sy_world ?sys)) ''sku-1'' = Inr 10"
    by code_simp+
  then show ?thesis by (metis prod.collapse)
qed

end
