(* ===== verification/Ledger.thy ===== *)
theory Ledger
  imports Common
begin

text \<open>
  The double-entry ledger, \<^verbatim>\<open>code/hld/ledger.py\<close>: accounts, balanced and idempotent postings with
  optimistic versions and an overdraft check, the payment state machine driven by the provider's
  webhooks, and the reconciliation of captured payments against a settlement file. A posting holds
  the ledger's lock for its whole body and is one step; the clock's reading is an argument and the
  id source a parameter.
\<close>

section \<open>Accounts and entries\<close>

datatype account_type = ASSET | LIABILITY | REVENUE | EXPENSE

definition normal_is_debit :: "account_type \<Rightarrow> bool" where
  "normal_is_debit t \<longleftrightarrow> t \<in> {ASSET, EXPENSE}"

record account =
  ac_id :: string
  ac_type :: account_type
  ac_currency :: string
  ac_allow_negative :: bool
  ac_version :: int
  ac_signed :: int

definition natural_cents :: "account_type \<Rightarrow> int \<Rightarrow> int" where
  "natural_cents t signed = (if normal_is_debit t then signed else - signed)"

definition account_balance :: "account \<Rightarrow> money" where
  "account_balance a = Money (natural_cents (ac_type a) (ac_signed a)) (ac_currency a)"

record entry =
  en_account :: string
  en_amount :: money

definition entry_debit :: "string \<Rightarrow> money \<Rightarrow> entry result" where
  "entry_debit i amount =
     (if cents amount \<le> 0 then Inl ValidationError else Inr \<lparr>en_account = i, en_amount = amount\<rparr>)"

definition entry_credit :: "string \<Rightarrow> money \<Rightarrow> entry result" where
  "entry_credit i amount =
     (if cents amount \<le> 0 then Inl ValidationError
      else Inr \<lparr>en_account = i, en_amount = money_neg amount\<rparr>)"

record ledger_txn =
  lt_id :: string
  lt_key :: string
  lt_entries :: "entry list"
  lt_memo :: string
  lt_posted_at :: time

section \<open>The ledger\<close>

record 'g ledger =
  lg_ids :: 'g
  lg_accounts :: "(string, account) dict"
  lg_txns :: "ledger_txn list"
  lg_by_key :: "(string, ledger_txn) dict"

definition ledger_new :: "'g \<Rightarrow> 'g ledger" where
  "ledger_new ids = \<lparr>lg_ids = ids, lg_accounts = [], lg_txns = [], lg_by_key = []\<rparr>"

definition open_account :: "'g ledger \<Rightarrow> string \<Rightarrow> account_type \<Rightarrow> string \<Rightarrow> bool \<Rightarrow> account result \<times> 'g ledger" where
  "open_account l i t cur allow =
     (if dict_get (lg_accounts l) i \<noteq> None then (Inl ConflictError, l)
      else let a = \<lparr>ac_id = i, ac_type = t, ac_currency = cur, ac_allow_negative = allow,
                    ac_version = 0, ac_signed = 0\<rparr>
           in (Inr a, l\<lparr>lg_accounts := dict_set i a (lg_accounts l)\<rparr>))"

definition entry_cents :: "entry \<Rightarrow> int" where
  "entry_cents e = cents (en_amount e)"

text \<open>The accounts touched, in the order of their first entry.\<close>

fun resolve_entries :: "(string, account) dict \<Rightarrow> string \<Rightarrow> entry list \<Rightarrow> string list \<Rightarrow> string list result" where
  "resolve_entries accounts cur [] touched = Inr touched"
| "resolve_entries accounts cur (e # es) touched =
     (case dict_get accounts (en_account e) of
        None \<Rightarrow> Inl NotFoundError
      | Some a \<Rightarrow>
          if ac_currency a \<noteq> cur then Inl ValidationError
          else resolve_entries accounts cur es
                 (if ac_id a \<in> set touched then touched else touched @ [ac_id a]))"

definition check_versions ::
  "(string, account) dict \<Rightarrow> string list \<Rightarrow> (string, int) dict option \<Rightarrow> unit result" where
  "check_versions accounts touched expected =
     (case expected of
        None \<Rightarrow> Inr ()
      | Some ex \<Rightarrow>
          if \<exists>(i, v) \<in> set ex. i \<in> set touched \<and> map_option ac_version (dict_get accounts i) \<noteq> Some v
          then Inl ConflictError else Inr ())"

definition funds_after :: "entry list \<Rightarrow> (string, int) dict" where
  "funds_after entries =
     fold (\<lambda>e after. dict_set (en_account e)
             ((case dict_get after (en_account e) of None \<Rightarrow> 0 | Some c \<Rightarrow> c) + entry_cents e) after) entries []"

definition overdrawn :: "account \<Rightarrow> int \<Rightarrow> bool" where
  "overdrawn a delta \<longleftrightarrow> \<not> ac_allow_negative a \<and> natural_cents (ac_type a) (ac_signed a + delta) < 0"

definition check_funds :: "(string, account) dict \<Rightarrow> entry list \<Rightarrow> unit result" where
  "check_funds accounts entries =
     (if \<exists>(i, delta) \<in> set (funds_after entries).
           (case dict_get accounts i of None \<Rightarrow> False | Some a \<Rightarrow> overdrawn a delta)
      then Inl ConflictError else Inr ())"

definition add_entry :: "entry \<Rightarrow> (string, account) dict \<Rightarrow> (string, account) dict" where
  "add_entry e accounts =
     (case dict_get accounts (en_account e) of
        None \<Rightarrow> accounts
      | Some a \<Rightarrow> dict_set (en_account e) (a\<lparr>ac_signed := ac_signed a + entry_cents e\<rparr>) accounts)"

definition bump_version :: "string \<Rightarrow> (string, account) dict \<Rightarrow> (string, account) dict" where
  "bump_version i accounts =
     (case dict_get accounts i of
        None \<Rightarrow> accounts
      | Some a \<Rightarrow> dict_set i (a\<lparr>ac_version := ac_version a + 1\<rparr>) accounts)"

definition post_locked ::
  "('g \<Rightarrow> string \<times> 'g) \<Rightarrow> 'g ledger \<Rightarrow> time \<Rightarrow> string \<Rightarrow> entry list \<Rightarrow> string \<Rightarrow> (string, int) dict option \<Rightarrow>
   ledger_txn result \<times> 'g ledger" where
  "post_locked next_id l now key entries memo expected =
     (case dict_get (lg_by_key l) key of
        Some txn \<Rightarrow> (Inr txn, l)
      | None \<Rightarrow>
          (case resolve_entries (lg_accounts l) (currency (en_amount (hd entries))) entries [] of
             Inl e \<Rightarrow> (Inl e, l)
           | Inr touched \<Rightarrow>
               (case check_versions (lg_accounts l) touched expected of
                  Inl e \<Rightarrow> (Inl e, l)
                | Inr _ \<Rightarrow>
                    (case check_funds (lg_accounts l) entries of
                       Inl e \<Rightarrow> (Inl e, l)
                     | Inr _ \<Rightarrow>
                         (case next_id (lg_ids l) of
                            (i, ids) \<Rightarrow>
                              let txn = \<lparr>lt_id = i, lt_key = key, lt_entries = entries, lt_memo = memo,
                                        lt_posted_at = now\<rparr>
                              in (Inr txn,
                                  l\<lparr>lg_ids := ids,
                                    lg_accounts := fold bump_version touched (fold add_entry entries (lg_accounts l)),
                                    lg_txns := lg_txns l @ [txn],
                                    lg_by_key := dict_set key txn (lg_by_key l)\<rparr>))))))"

definition ledger_post ::
  "('g \<Rightarrow> string \<times> 'g) \<Rightarrow> 'g ledger \<Rightarrow> time \<Rightarrow> string \<Rightarrow> entry list \<Rightarrow> string \<Rightarrow> (string, int) dict option \<Rightarrow>
   ledger_txn result \<times> 'g ledger" where
  "ledger_post next_id l now key entries memo expected =
     (if length entries < 2 then (Inl ValidationError, l)
      else if card (set (map (\<lambda>e. currency (en_amount e)) entries)) \<noteq> 1 then (Inl ValidationError, l)
      else if sum_list (map entry_cents entries) \<noteq> 0 then (Inl ValidationError, l)
      else post_locked next_id l now key entries memo expected)"

definition ledger_balance :: "'g ledger \<Rightarrow> string \<Rightarrow> money result" where
  "ledger_balance l i =
     (case dict_get (lg_accounts l) i of None \<Rightarrow> Inl NotFoundError | Some a \<Rightarrow> Inr (account_balance a))"

definition ledger_version :: "'g ledger \<Rightarrow> string \<Rightarrow> int result" where
  "ledger_version l i =
     (case dict_get (lg_accounts l) i of None \<Rightarrow> Inl NotFoundError | Some a \<Rightarrow> Inr (ac_version a))"

definition trial_balance :: "'g ledger \<Rightarrow> int" where
  "trial_balance l = sum_list (map (\<lambda>(i, a). ac_signed a) (lg_accounts l))"

definition ledger_statement :: "'g ledger \<Rightarrow> string \<Rightarrow> (string \<times> money) list" where
  "ledger_statement l i =
     concat (map (\<lambda>txn. map (\<lambda>e. (lt_id txn, en_amount e)) (filter (\<lambda>e. en_account e = i) (lt_entries txn)))
       (lg_txns l))"

section \<open>Payments\<close>

datatype payment_state =
  PAY_CREATED | PAY_AUTHORIZED | PAY_CAPTURED | PAY_SETTLED | PAY_FAILED | PAY_REFUNDED

fun pay_rank :: "payment_state \<Rightarrow> int" where
  "pay_rank PAY_CREATED = 0"
| "pay_rank PAY_AUTHORIZED = 1"
| "pay_rank PAY_CAPTURED = 2"
| "pay_rank PAY_FAILED = 2"
| "pay_rank PAY_SETTLED = 3"
| "pay_rank PAY_REFUNDED = 4"

fun pay_allowed :: "payment_state \<Rightarrow> payment_state set" where
  "pay_allowed PAY_CREATED = {PAY_AUTHORIZED, PAY_FAILED}"
| "pay_allowed PAY_AUTHORIZED = {PAY_CAPTURED, PAY_FAILED}"
| "pay_allowed PAY_CAPTURED = {PAY_SETTLED, PAY_REFUNDED}"
| "pay_allowed PAY_SETTLED = {PAY_REFUNDED}"
| "pay_allowed PAY_FAILED = {}"
| "pay_allowed PAY_REFUNDED = {}"

record payment =
  py_id :: string
  py_amount :: money
  py_state :: payment_state
  py_applied :: "string set"

definition payment_new :: "string \<Rightarrow> money \<Rightarrow> payment" where
  "payment_new i amount = \<lparr>py_id = i, py_amount = amount, py_state = PAY_CREATED, py_applied = {}\<rparr>"

definition pay_apply :: "payment \<Rightarrow> string \<Rightarrow> payment_state \<Rightarrow> bool result \<times> payment" where
  "pay_apply p event target =
     (if event \<in> py_applied p then (Inr False, p)
      else if pay_rank target \<le> pay_rank (py_state p)
      then (Inr False, p\<lparr>py_applied := insert event (py_applied p)\<rparr>)
      else if target \<notin> pay_allowed (py_state p) then (Inl InvalidStateError, p)
      else (Inr True, p\<lparr>py_applied := insert event (py_applied p), py_state := target\<rparr>))"

section \<open>Reconciliation\<close>

record settlement_row =
  sw_payment :: string
  sw_amount :: money

record recon_report =
  rr_matched :: "string list"
  rr_missing_in_ledger :: "string list"
  rr_missing_at_provider :: "string list"
  rr_mismatch :: "(string \<times> money \<times> money) list"

definition rr_is_clean :: "recon_report \<Rightarrow> bool" where
  "rr_is_clean r \<longleftrightarrow> rr_missing_in_ledger r = [] \<and> rr_missing_at_provider r = [] \<and> rr_mismatch r = []"

definition settlement_by_id :: "settlement_row list \<Rightarrow> (string, money) dict" where
  "settlement_by_id rows = fold (\<lambda>row. dict_set (sw_payment row) (sw_amount row)) rows []"

text \<open>One turn of the loop over \<^verbatim>\<open>sorted(ours.items())\<close>, which is the order of the ids.\<close>

definition recon_step ::
  "(string, money) dict \<Rightarrow> string \<times> money \<Rightarrow> string list \<times> (string \<times> money \<times> money) list \<Rightarrow>
   string list \<times> (string \<times> money \<times> money) list" where
  "recon_step theirs our acc =
     (case dict_get theirs (fst our) of
        None \<Rightarrow> acc
      | Some other \<Rightarrow>
          if other = snd our then (fst acc @ [fst our], snd acc)
          else (fst acc, snd acc @ [(fst our, snd our, other)]))"

definition reconcile :: "(string, money) dict \<Rightarrow> settlement_row list \<Rightarrow> recon_report" where
  "reconcile ours rows =
     (let theirs = settlement_by_id rows;
          (matched, mismatch) = fold (recon_step theirs) (sort_key fst ours) ([], [])
      in \<lparr>rr_matched = matched,
          rr_missing_in_ledger = sort (filter (\<lambda>i. dict_get ours i = None) (dict_keys theirs)),
          rr_missing_at_provider = sort (filter (\<lambda>i. dict_get theirs i = None) (dict_keys ours)),
          rr_mismatch = mismatch\<rparr>)"


section \<open>What a posting does\<close>

definition entry_sum :: "string \<Rightarrow> entry list \<Rightarrow> int" where
  "entry_sum i es = sum_list (map entry_cents (filter (\<lambda>e. en_account e = i) es))"

lemma entry_sum_simps [simp]:
  "entry_sum i [] = 0"
  "entry_sum i (e # es) = (if en_account e = i then entry_cents e else 0) + entry_sum i es"
  "entry_sum i (es @ fs) = entry_sum i es + entry_sum i fs"
  by (simp_all add: entry_sum_def)

lemma entry_sum_absent: "i \<notin> en_account ` set es \<Longrightarrow> entry_sum i es = 0"
  by (induction es) auto

lemma add_entries_get:
  "dict_get (fold add_entry es accounts) i =
     map_option (\<lambda>a. a\<lparr>ac_signed := ac_signed a + entry_sum i es\<rparr>) (dict_get accounts i)"
proof (induction es arbitrary: accounts)
  case Nil
  show ?case by (cases "dict_get accounts i") simp_all
next
  case (Cons e es)
  show ?case
    unfolding fold_Cons comp_apply Cons.IH
    by (cases "dict_get accounts (en_account e)"; cases "dict_get accounts i") (auto simp: add_entry_def)
qed

lemma bump_versions_get:
  "distinct touched \<Longrightarrow> dict_get (fold bump_version touched accounts) i =
     map_option (\<lambda>a. if i \<in> set touched then a\<lparr>ac_version := ac_version a + 1\<rparr> else a) (dict_get accounts i)"
proof (induction touched arbitrary: accounts)
  case Nil
  show ?case by (cases "dict_get accounts i") simp_all
next
  case (Cons j touched)
  then show ?case
    by (cases "dict_get accounts j"; cases "dict_get accounts i") (auto simp: bump_version_def)
qed

lemma dict_ok_add_entry [simp]: "dict_ok a \<Longrightarrow> dict_ok (add_entry e a)"
  by (simp add: add_entry_def split: option.split)

lemma dict_ok_bump_version [simp]: "dict_ok a \<Longrightarrow> dict_ok (bump_version i a)"
  by (simp add: bump_version_def split: option.split)

lemma dict_ok_fold: "(\<And>x d. dict_ok d \<Longrightarrow> dict_ok (f x d)) \<Longrightarrow> dict_ok d \<Longrightarrow> dict_ok (fold f xs d)"
  by (induction xs arbitrary: d) auto

lemma dict_ok_postings:
  "dict_ok accounts \<Longrightarrow> dict_ok (fold add_entry es accounts)"
  "dict_ok accounts \<Longrightarrow> dict_ok (fold bump_version touched accounts)"
  by (simp_all add: dict_ok_fold)

definition signed_total :: "(string, account) dict \<Rightarrow> int" where
  "signed_total accounts = sum_list (map (\<lambda>(i, a). ac_signed a) accounts)"

lemma signed_total_add:
  "dict_ok accounts \<Longrightarrow> (\<forall>e \<in> set es. dict_get accounts (en_account e) \<noteq> None) \<Longrightarrow>
   signed_total (fold add_entry es accounts) = signed_total accounts + sum_list (map entry_cents es)"
proof (induction es arbitrary: accounts)
  case (Cons e es)
  then obtain a where a: "dict_get accounts (en_account e) = Some a" by auto
  let ?a = "a\<lparr>ac_signed := ac_signed a + entry_cents e\<rparr>"
  have "signed_total (dict_set (en_account e) ?a accounts) = signed_total accounts + entry_cents e"
    unfolding signed_total_def using sum_dict_set [OF Cons.prems(1) a, of "\<lambda>(i, a). ac_signed a"] by simp
  moreover have "\<forall>f \<in> set es. dict_get (dict_set (en_account e) ?a accounts) (en_account f) \<noteq> None"
    using Cons.prems(2) by auto
  ultimately show ?case
    using Cons.IH [of "dict_set (en_account e) ?a accounts"] Cons.prems(1) a by (simp add: add_entry_def)
qed simp

lemma signed_total_bump:
  "dict_ok accounts \<Longrightarrow> signed_total (fold bump_version touched accounts) = signed_total accounts"
proof (induction touched arbitrary: accounts)
  case (Cons i touched)
  have "signed_total (bump_version i accounts) = signed_total accounts \<and> dict_ok (bump_version i accounts)"
    using Cons.prems sum_dict_set [OF Cons.prems, of i _ "\<lambda>(i, a). ac_signed a"]
    by (auto simp: bump_version_def signed_total_def split: option.split)
  with Cons.IH show ?case by simp
qed simp

lemma resolve_entries_ok:
  assumes "resolve_entries accounts cur es touched = Inr touched'" "distinct touched"
    and "\<And>i a. dict_get accounts i = Some a \<Longrightarrow> ac_id a = i"
  shows "distinct touched' \<and> set touched' = set touched \<union> en_account ` set es \<and>
    (\<forall>e \<in> set es. \<exists>a. dict_get accounts (en_account e) = Some a \<and> ac_currency a = cur)"
  using assms(1,2)
proof (induction es arbitrary: touched)
  case (Cons e es)
  then obtain a where a: "dict_get accounts (en_account e) = Some a" "ac_currency a = cur"
    and rest: "resolve_entries accounts cur es (if ac_id a \<in> set touched then touched else touched @ [ac_id a]) = Inr touched'"
    by (auto split: option.splits if_splits)
  have "ac_id a = en_account e" using assms(3) a(1) by blast
  with Cons.IH [OF rest] Cons.prems(2) a show ?case by (auto split: if_splits)
qed simp

lemma funds_after_get:
  "dict_get (funds_after es) i = (if i \<in> en_account ` set es then Some (entry_sum i es) else None)"
proof -
  have "dict_get (fold (\<lambda>e after. dict_set (en_account e)
        ((case dict_get after (en_account e) of None \<Rightarrow> 0 | Some c \<Rightarrow> c) + entry_cents e) after) es after) i =
      (if i \<in> en_account ` set es
       then Some ((case dict_get after i of None \<Rightarrow> 0 | Some c \<Rightarrow> c) + entry_sum i es) else dict_get after i)" for after
  proof (induction es arbitrary: after)
    case (Cons e es)
    show ?case unfolding fold_Cons comp_apply Cons.IH by (auto simp: entry_sum_absent)
  qed simp
  from this [of "[]"] show ?thesis by (simp add: funds_after_def)
qed

lemma check_funds_ok:
  assumes "check_funds accounts es = Inr ()" "e \<in> set es" "dict_get accounts (en_account e) = Some a"
  shows "\<not> overdrawn a (entry_sum (en_account e) es)"
proof
  assume "overdrawn a (entry_sum (en_account e) es)"
  moreover have "(en_account e, entry_sum (en_account e) es) \<in> set (funds_after es)"
    using assms(2) by (intro map_of_SomeD) (simp add: funds_after_get)
  ultimately have "\<exists>(i, delta) \<in> set (funds_after es).
      (case dict_get accounts i of None \<Rightarrow> False | Some a \<Rightarrow> overdrawn a delta)"
    using assms(3) by force
  then show False using assms(1) unfolding check_funds_def by (simp only: if_True) simp
qed

section \<open>The books\<close>

definition touches :: "string \<Rightarrow> ledger_txn \<Rightarrow> bool" where
  "touches i txn \<longleftrightarrow> i \<in> en_account ` set (lt_entries txn)"

definition booked :: "string \<Rightarrow> ledger_txn list \<Rightarrow> int" where
  "booked i txns = entry_sum i (concat (map lt_entries txns))"

definition account_ok :: "ledger_txn list \<Rightarrow> string \<Rightarrow> account \<Rightarrow> bool" where
  "account_ok txns i a \<longleftrightarrow> ac_id a = i \<and> ac_signed a = booked i txns \<and>
     ac_version a = int (length (filter (touches i) txns)) \<and>
     (\<not> ac_allow_negative a \<longrightarrow> 0 \<le> natural_cents (ac_type a) (ac_signed a))"

definition txn_ok :: "(string, account) dict \<Rightarrow> ledger_txn \<Rightarrow> bool" where
  "txn_ok accounts txn \<longleftrightarrow> sum_list (map entry_cents (lt_entries txn)) = 0 \<and>
     (\<forall>e \<in> set (lt_entries txn). dict_get accounts (en_account e) \<noteq> None)"

definition ledger_ok :: "('g \<Rightarrow> string \<Rightarrow> bool) \<Rightarrow> 'g ledger \<Rightarrow> bool" where
  "ledger_ok fresh l \<longleftrightarrow> dict_ok (lg_accounts l) \<and> signed_total (lg_accounts l) = 0 \<and>
     (\<forall>i a. dict_get (lg_accounts l) i = Some a \<longrightarrow> account_ok (lg_txns l) i a) \<and>
     (\<forall>txn \<in> set (lg_txns l). txn_ok (lg_accounts l) txn \<and> \<not> fresh (lg_ids l) (lt_id txn) \<and>
        dict_get (lg_by_key l) (lt_key txn) = Some txn) \<and>
     (\<forall>key txn. dict_get (lg_by_key l) key = Some txn \<longrightarrow> txn \<in> set (lg_txns l) \<and> lt_key txn = key) \<and>
     distinct (map lt_id (lg_txns l)) \<and> distinct (map lt_key (lg_txns l))"

lemma ledger_okI:
  assumes "dict_ok (lg_accounts l)" "signed_total (lg_accounts l) = 0"
    and "\<And>i a. dict_get (lg_accounts l) i = Some a \<Longrightarrow> account_ok (lg_txns l) i a"
    and "\<And>txn. txn \<in> set (lg_txns l) \<Longrightarrow> txn_ok (lg_accounts l) txn \<and> \<not> fresh (lg_ids l) (lt_id txn) \<and>
        dict_get (lg_by_key l) (lt_key txn) = Some txn"
    and "\<And>key txn. dict_get (lg_by_key l) key = Some txn \<Longrightarrow> txn \<in> set (lg_txns l) \<and> lt_key txn = key"
    and "distinct (map lt_id (lg_txns l))" "distinct (map lt_key (lg_txns l))"
  shows "ledger_ok fresh l"
  unfolding ledger_ok_def using assms by blast

inductive ledger_step :: "('g \<Rightarrow> string \<times> 'g) \<Rightarrow> 'g ledger \<Rightarrow> 'g ledger \<Rightarrow> bool" for next_id where
  open_acc: "open_account l i t cur allow = (res, l') \<Longrightarrow> ledger_step next_id l l'"
| post: "ledger_post next_id l now key entries memo expected = (txn, l') \<Longrightarrow> ledger_step next_id l l'"

definition ledger_reachable :: "('g \<Rightarrow> string \<times> 'g) \<Rightarrow> 'g \<Rightarrow> 'g ledger \<Rightarrow> bool" where
  "ledger_reachable next_id ids l \<longleftrightarrow> (ledger_step next_id)\<^sup>*\<^sup>* (ledger_new ids) l"

text \<open>The shape of a posting that went through.\<close>

lemma ledger_post_cases:
  assumes run: "ledger_post next_id l now key entries memo expected = (res, l')"
  obtains (failed) e where "res = Inl e" "l' = l"
  | (replay) txn where "res = Inr txn" "l' = l" "dict_get (lg_by_key l) key = Some txn"
  | (posted) touched i ids where
      "dict_get (lg_by_key l) key = None" "sum_list (map entry_cents entries) = 0"
      "resolve_entries (lg_accounts l) (currency (en_amount (hd entries))) entries [] = Inr touched"
      "check_versions (lg_accounts l) touched expected = Inr ()"
      "check_funds (lg_accounts l) entries = Inr ()" "next_id (lg_ids l) = (i, ids)"
      "res = Inr \<lparr>lt_id = i, lt_key = key, lt_entries = entries, lt_memo = memo, lt_posted_at = now\<rparr>"
      "l' = l\<lparr>lg_ids := ids,
          lg_accounts := fold bump_version touched (fold add_entry entries (lg_accounts l)),
          lg_txns := lg_txns l @ [\<lparr>lt_id = i, lt_key = key, lt_entries = entries, lt_memo = memo, lt_posted_at = now\<rparr>],
          lg_by_key := dict_set key \<lparr>lt_id = i, lt_key = key, lt_entries = entries, lt_memo = memo, lt_posted_at = now\<rparr> (lg_by_key l)\<rparr>"
proof -
  from run consider (pre) "res = Inl ValidationError" "l' = l"
    | (locked) "sum_list (map entry_cents entries) = 0" "post_locked next_id l now key entries memo expected = (res, l')"
    unfolding ledger_post_def by (metis prod.inject)
  then show thesis
  proof cases
    case pre
    then show ?thesis by (rule failed)
  next
    case locked
    show ?thesis
    proof (cases "dict_get (lg_by_key l) key")
      case (Some txn)
      with locked replay show ?thesis by (auto simp: post_locked_def)
    next
      case None
      obtain i ids where i: "next_id (lg_ids l) = (i, ids)" by fastforce
      from locked(2) None i show ?thesis
        by (auto simp: post_locked_def Let_def split: sum.splits intro: failed posted [OF None locked(1)])
    qed
  qed
qed


context id_source
begin

lemma ledger_ok_open:
  assumes ok: "ledger_ok fresh l" and run: "open_account l i t cur allow = (res, l')"
  shows "ledger_ok fresh l'"
proof (cases "dict_get (lg_accounts l) i")
  case None
  let ?a = "\<lparr>ac_id = i, ac_type = t, ac_currency = cur, ac_allow_negative = allow, ac_version = 0, ac_signed = 0\<rparr>"
  have l': "l' = l\<lparr>lg_accounts := dict_set i ?a (lg_accounts l)\<rparr>"
    using run None by (simp add: open_account_def Let_def)
  have untouched: "\<not> touches i txn" if "txn \<in> set (lg_txns l)" for txn
    using ok that None unfolding ledger_ok_def txn_ok_def touches_def by fastforce
  then have "booked i (lg_txns l) = 0"
    unfolding booked_def touches_def by (intro entry_sum_absent) auto
  moreover have "filter (touches i) (lg_txns l) = []" using untouched by (simp add: filter_empty_conv)
  ultimately have "account_ok (lg_txns l) i ?a" by (simp add: account_ok_def natural_cents_def)
  moreover have "signed_total (dict_set i ?a (lg_accounts l)) = signed_total (lg_accounts l)"
    unfolding signed_total_def using sum_dict_set_new [OF None, of "\<lambda>(i, a). ac_signed a"] by simp
  moreover have "txn_ok (lg_accounts l) txn \<Longrightarrow> txn_ok (dict_set i ?a (lg_accounts l)) txn" for txn
    by (auto simp: txn_ok_def)
  ultimately show ?thesis using ok unfolding ledger_ok_def by (auto simp: l')
next
  case (Some a)
  with run ok show ?thesis by (simp add: open_account_def)
qed

lemma ledger_ok_post:
  assumes ok: "ledger_ok fresh l" and run: "ledger_post next_id l now key entries memo expected = (res, l')"
  shows "ledger_ok fresh l'"
  using run
proof (cases rule: ledger_post_cases)
  case (posted touched i ids)
  let ?txn = "\<lparr>lt_id = i, lt_key = key, lt_entries = entries, lt_memo = memo, lt_posted_at = now\<rparr>"
  let ?mid = "fold add_entry entries (lg_accounts l)"
  let ?acc = "fold bump_version touched ?mid"
  have dok: "dict_ok (lg_accounts l)" and ids_ok: "\<And>j a. dict_get (lg_accounts l) j = Some a \<Longrightarrow> ac_id a = j"
    using ok by (auto simp: ledger_ok_def account_ok_def)
  note R = resolve_entries_ok [OF posted(3) _ ids_ok]
  have touched: "distinct touched" "set touched = en_account ` set entries"
    and known: "\<forall>e \<in> set entries. dict_get (lg_accounts l) (en_account e) \<noteq> None"
    using R by auto
  have get: "dict_get ?acc j = map_option (\<lambda>a. if j \<in> set touched
      then a\<lparr>ac_signed := ac_signed a + entry_sum j entries, ac_version := ac_version a + 1\<rparr> else a)
      (dict_get (lg_accounts l) j)" for j
    unfolding bump_versions_get [OF touched(1)] add_entries_get
    by (cases "dict_get (lg_accounts l) j") (auto simp: touched(2) entry_sum_absent)
  have acc: "account_ok (lg_txns l @ [?txn]) j a'" if a': "dict_get ?acc j = Some a'" for j a'
  proof -
    from a' get obtain a where a: "dict_get (lg_accounts l) j = Some a"
      and eq: "a' = (if j \<in> set touched
        then a\<lparr>ac_signed := ac_signed a + entry_sum j entries, ac_version := ac_version a + 1\<rparr> else a)"
      by auto
    have old: "account_ok (lg_txns l) j a" using ok a by (simp add: ledger_ok_def)
    have "booked j (lg_txns l @ [?txn]) = booked j (lg_txns l) + entry_sum j entries"
      by (simp add: booked_def)
    moreover have "touches j ?txn \<longleftrightarrow> j \<in> set touched" by (simp add: touches_def touched(2))
    moreover have "\<not> overdrawn a (entry_sum j entries)" if "j \<in> set touched"
      using that check_funds_ok [OF posted(5) _] a by (auto simp: touched(2))
    moreover have "j \<notin> set touched \<Longrightarrow> entry_sum j entries = 0" by (simp add: touched(2) entry_sum_absent)
    ultimately show ?thesis
      using old by (auto simp: eq account_ok_def overdrawn_def)
  qed
  have "signed_total ?acc = 0"
    using signed_total_bump [OF dict_ok_postings(1) [OF dok]] signed_total_add [OF dok known] ok posted(2)
    by (simp add: ledger_ok_def)
  have keep: "dict_get ?acc j = None \<longleftrightarrow> dict_get (lg_accounts l) j = None" for j
    by (simp add: get)
  then have txns: "txn_ok ?acc txn = txn_ok (lg_accounts l) txn" for txn by (simp add: txn_ok_def)
  have new: "txn_ok (lg_accounts l) ?txn" using known posted(2) by (simp add: txn_ok_def)
  have ids: "\<not> fresh ids i" "\<And>j. \<not> fresh (lg_ids l) j \<Longrightarrow> \<not> fresh ids j" "fresh (lg_ids l) i"
    using issued_is_spent [OF posted(6)] fresh_shrinks [OF posted(6)] issued_was_fresh [OF posted(6)] by blast+
  have old: "txn_ok (lg_accounts l) txn \<and> \<not> fresh (lg_ids l) (lt_id txn) \<and> dict_get (lg_by_key l) (lt_key txn) = Some txn"
    if "txn \<in> set (lg_txns l)" for txn
    using ok that unfolding ledger_ok_def by blast
  have other: "lt_key txn \<noteq> key \<and> lt_id txn \<noteq> i" if "txn \<in> set (lg_txns l)" for txn
    using old [OF that] posted(1) ids(3) by auto
  have stored: "txn \<in> set (lg_txns l) \<and> lt_key txn = k" if "dict_get (lg_by_key l) k = Some txn" for k txn
    using ok that unfolding ledger_ok_def by blast
  have dist: "distinct (map lt_id (lg_txns l))" "distinct (map lt_key (lg_txns l))"
    using ok unfolding ledger_ok_def by blast+
  have sel: "lg_accounts l' = ?acc" "lg_txns l' = lg_txns l @ [?txn]" "lg_by_key l' = dict_set key ?txn (lg_by_key l)"
    "lg_ids l' = ids"
    by (simp_all add: posted(8))
  show ?thesis
  proof (rule ledger_okI, unfold sel)
    show "dict_ok ?acc" by (intro dict_ok_postings dok)
    show "signed_total ?acc = 0" by fact
    show "account_ok (lg_txns l @ [?txn]) j a" if "dict_get ?acc j = Some a" for j a using that by (rule acc)
    show "txn_ok ?acc txn \<and> \<not> fresh ids (lt_id txn) \<and> dict_get (dict_set key ?txn (lg_by_key l)) (lt_key txn) = Some txn"
      if "txn \<in> set (lg_txns l @ [?txn])" for txn
    proof (cases "txn \<in> set (lg_txns l)")
      case True
      with old other ids txns show ?thesis by auto
    next
      case False
      with that new ids txns show ?thesis by simp
    qed
    show "txn \<in> set (lg_txns l @ [?txn]) \<and> lt_key txn = k" if "dict_get (dict_set key ?txn (lg_by_key l)) k = Some txn" for k txn
      using that stored [of k txn] by (auto split: if_splits)
    show "distinct (map lt_id (lg_txns l @ [?txn]))" "distinct (map lt_key (lg_txns l @ [?txn]))"
      using dist other by auto
  qed
qed (use ok in simp_all)

lemma ledger_step_ok: "ledger_step next_id l l' \<Longrightarrow> ledger_ok fresh l \<Longrightarrow> ledger_ok fresh l'"
  by (induction rule: ledger_step.induct) (auto intro: ledger_ok_open ledger_ok_post)

lemma ledger_reachable_ok: "ledger_reachable next_id ids l \<Longrightarrow> ledger_ok fresh l"
  unfolding ledger_reachable_def
proof (induction rule: rtranclp_induct)
  case base
  show ?case by (simp add: ledger_ok_def ledger_new_def signed_total_def)
next
  case (step l l')
  then show ?case using ledger_step_ok by blast
qed

end

lemma ledger_step_by_key:
  "ledger_step next_id l l' \<Longrightarrow> dict_get (lg_by_key l) key = Some txn \<Longrightarrow> dict_get (lg_by_key l') key = Some txn"
proof (induction rule: ledger_step.induct)
  case (open_acc l i t cur allow res l')
  then show ?case by (auto simp: open_account_def Let_def split: if_splits)
next
  case (post l now key' entries memo expected txn' l')
  from post(1) show ?case by (cases rule: ledger_post_cases) (use post(2) in auto)
qed

lemma ledger_steps_by_key:
  "(ledger_step next_id)\<^sup>*\<^sup>* l l' \<Longrightarrow> dict_get (lg_by_key l) key = Some txn \<Longrightarrow> dict_get (lg_by_key l') key = Some txn"
  by (induction rule: rtranclp_induct) (auto intro: ledger_step_by_key)

lemma ledger_post_key:
  assumes "ledger_post next_id l now key entries memo expected = (Inr txn, l')"
  shows "dict_get (lg_by_key l') key = Some txn \<and> lt_key txn = key \<or> l' = l \<and> dict_get (lg_by_key l) key = Some txn"
  using assms by (cases rule: ledger_post_cases) auto

lemma statement_sum: "sum_list (map (\<lambda>(i, m). cents m) (ledger_statement l i)) = booked i (lg_txns l)"
proof -
  have "sum_list (map (\<lambda>(i, m). cents m)
      (concat (map (\<lambda>txn. map (\<lambda>e. (lt_id txn, en_amount e)) (filter (\<lambda>e. en_account e = i) (lt_entries txn))) txns))) =
      booked i txns" for txns
    by (induction txns) (simp_all add: booked_def entry_sum_def entry_cents_def [abs_def] comp_def)
  then show ?thesis by (simp add: ledger_statement_def)
qed

section \<open>Properties of the ledger\<close>

text \<open>C20. The books always balance: in every reachable ledger the trial balance is zero; every account
  holds exactly the sum of its statement, its version counts the transactions that touched it, and
  an account that may not go negative never does.\<close>

theorem ledger_books_balance:
  assumes "ledger_reachable seq_next_id (id_gen_new pre start) l" "dict_get (lg_accounts l) i = Some a"
  shows "trial_balance l = 0 \<and> ac_signed a = sum_list (map (\<lambda>(t, m). cents m) (ledger_statement l i)) \<and>
    ac_version a = int (length (filter (touches i) (lg_txns l))) \<and>
    (ac_allow_negative a \<or> 0 \<le> cents (account_balance a))"
proof -
  have "ledger_ok seq_fresh l" using seq_ids.ledger_reachable_ok [OF assms(1)] .
  with assms(2) have "signed_total (lg_accounts l) = 0" "account_ok (lg_txns l) i a"
    unfolding ledger_ok_def by blast+
  then show ?thesis
    unfolding trial_balance_def signed_total_def account_ok_def statement_sum account_balance_def by auto
qed

text \<open>A retried request moves the money once: whatever else was posted in between, posting again
  under the same idempotency key returns the transaction the first request made, leaves the ledger as
  it is, and that transaction is in the journal exactly once.\<close>

theorem ledger_post_idempotent:
  assumes "ledger_reachable seq_next_id (id_gen_new pre start) l"
    and "ledger_post seq_next_id l now key entries memo expected = (Inr txn, l1)"
    and "(ledger_step seq_next_id)\<^sup>*\<^sup>* l1 l2"
  shows "ledger_post seq_next_id l2 later key entries memo' expected' = (Inr txn, l2) \<and>
    filter (\<lambda>t. lt_key t = key) (lg_txns l2) = [txn] \<and>
    (\<forall>t \<in> set (lg_txns l2). lt_id t = lt_id txn \<longrightarrow> t = txn)"
proof -
  have "ledger_step seq_next_id l l1" using assms(2) by (rule ledger_step.post)
  then have "ledger_reachable seq_next_id (id_gen_new pre start) l2"
    using assms(1,3) unfolding ledger_reachable_def by (meson rtranclp.rtrancl_into_rtrancl rtranclp_trans)
  then have ok: "ledger_ok seq_fresh l2" by (rule seq_ids.ledger_reachable_ok)
  have "dict_get (lg_by_key l1) key = Some txn" using ledger_post_key [OF assms(2)] by auto
  then have key: "dict_get (lg_by_key l2) key = Some txn" using assms(3) ledger_steps_by_key by blast
  with ok have mem: "txn \<in> set (lg_txns l2)" "lt_key txn = key" unfolding ledger_ok_def by blast+
  have dist: "distinct (map lt_id (lg_txns l2))" "distinct (map lt_key (lg_txns l2))"
    using ok by (simp_all add: ledger_ok_def)
  have "filter (\<lambda>t. lt_key t = key) ts = [txn]"
    if "txn \<in> set ts" "distinct (map lt_key ts)" for ts
    using that mem(2) by (induction ts) (auto simp: filter_empty_conv image_iff)
  moreover have "\<forall>t \<in> set (lg_txns l2). lt_id t = lt_id txn \<longrightarrow> t = txn"
    using dist(1) mem(1) by (auto simp: distinct_map inj_on_def)
  moreover have "ledger_post seq_next_id l2 later key entries memo' expected' = (Inr txn, l2)"
  proof -
    have "\<not> length entries < 2 \<and> \<not> card (set (map (\<lambda>e. currency (en_amount e)) entries)) \<noteq> 1 \<and>
        \<not> sum_list (map entry_cents entries) \<noteq> 0"
      using assms(2) unfolding ledger_post_def by (metis Inl_Inr_False prod.inject)
    with key show ?thesis by (simp add: ledger_post_def post_locked_def)
  qed
  ultimately show ?thesis using mem dist by blast
qed


definition demo_ledger1 :: "id_gen ledger" where
  "demo_ledger1 = snd (open_account (snd (open_account (ledger_new (id_gen_new ''txn'' 1))
     ''cash'' ASSET ''USD'' True)) ''wallet'' LIABILITY ''USD'' False)"

definition demo_deposit :: "entry list" where
  "demo_deposit = [\<lparr>en_account = ''cash'', en_amount = Money 5000 ''USD''\<rparr>,
     \<lparr>en_account = ''wallet'', en_amount = Money (-5000) ''USD''\<rparr>]"

definition demo_ledger2 :: "id_gen ledger" where
  "demo_ledger2 = snd (ledger_post seq_next_id demo_ledger1 0 ''k-1'' demo_deposit ''deposit'' None)"

definition demo_ledger3 :: "id_gen ledger" where
  "demo_ledger3 = snd (open_account demo_ledger2 ''fees'' REVENUE ''USD'' False)"

lemma demo_ledger_steps:
  "ledger_reachable seq_next_id (id_gen_new ''txn'' 1) demo_ledger1"
  "ledger_step seq_next_id demo_ledger1 demo_ledger2" "ledger_step seq_next_id demo_ledger2 demo_ledger3"
proof -
  have open_step: "ledger_step seq_next_id l (snd (open_account l i t cur allow))" for l i t cur allow
    by (rule ledger_step.open_acc) (rule prod.collapse [symmetric])
  show "ledger_reachable seq_next_id (id_gen_new ''txn'' 1) demo_ledger1"
    unfolding ledger_reachable_def demo_ledger1_def
    by (meson open_step rtranclp.rtrancl_into_rtrancl rtranclp.rtrancl_refl)
  show "ledger_step seq_next_id demo_ledger1 demo_ledger2"
    unfolding demo_ledger2_def by (rule ledger_step.post) (rule prod.collapse [symmetric])
  show "ledger_step seq_next_id demo_ledger2 demo_ledger3" unfolding demo_ledger3_def by (rule open_step)
qed

theorem ledger_books_balance_witness:
  "\<exists>a. dict_get (lg_accounts demo_ledger2) ''wallet'' = Some a \<and> cents (account_balance a) = 5000 \<and>
     ac_version a = 1 \<and> trial_balance demo_ledger2 = 0"
proof -
  let ?a = "the (dict_get (lg_accounts demo_ledger2) ''wallet'')"
  have reach: "ledger_reachable seq_next_id (id_gen_new ''txn'' 1) demo_ledger2"
    using demo_ledger_steps(1,2) unfolding ledger_reachable_def by (rule rtranclp.rtrancl_into_rtrancl)
  have a: "dict_get (lg_accounts demo_ledger2) ''wallet'' = Some ?a" by code_simp
  have "cents (account_balance ?a) = 5000" "ac_version ?a = 1" by code_simp+
  with ledger_books_balance [OF reach a] a show ?thesis by (intro exI [of _ ?a]) simp
qed

theorem ledger_post_idempotent_witness:
  "\<exists>txn. lt_id txn = ''txn-1'' \<and>
     ledger_post seq_next_id demo_ledger3 60 ''k-1'' demo_deposit ''deposit'' None = (Inr txn, demo_ledger3)"
proof -
  let ?res = "ledger_post seq_next_id demo_ledger1 0 ''k-1'' demo_deposit ''deposit'' None"
  have "\<exists>txn. fst ?res = Inr txn \<and> lt_id txn = ''txn-1''"
    by (rule exI [of _ "case fst ?res of Inr txn \<Rightarrow> txn"]) code_simp
  then obtain txn where txn: "fst ?res = Inr txn" "lt_id txn = ''txn-1''" by blast
  then have run: "?res = (Inr txn, demo_ledger2)" unfolding demo_ledger2_def by (metis prod.collapse)
  have "(ledger_step seq_next_id)\<^sup>*\<^sup>* demo_ledger2 demo_ledger3" using demo_ledger_steps(3) by blast
  from ledger_post_idempotent [OF demo_ledger_steps(1) run this] txn show ?thesis by blast
qed

section \<open>A payment only moves forward\<close>

lemma pay_apply_moves:
  "pay_apply p event target = (Inr True, p') \<Longrightarrow>
   py_state p' = target \<and> target \<in> pay_allowed (py_state p) \<and> pay_rank (py_state p) < pay_rank target"
  by (auto simp: pay_apply_def split: if_splits)

lemma pay_apply_stays:
  "pay_apply p event target = (res, p') \<Longrightarrow> res \<noteq> Inr True \<Longrightarrow> py_state p' = py_state p"
  by (auto simp: pay_apply_def split: if_splits)

lemma pay_apply_duplicate:
  "pay_apply p event target = (Inr b, p') \<Longrightarrow> pay_apply p' event target' = (Inr False, p')"
  by (auto simp: pay_apply_def split: if_splits)

text \<open>The states a payment takes under a list of webhooks; a refused event is skipped.\<close>

fun pay_run :: "payment \<Rightarrow> (string \<times> payment_state) list \<Rightarrow> payment" where
  "pay_run p [] = p"
| "pay_run p ((event, target) # events) = pay_run (snd (pay_apply p event target)) events"

lemma pay_run_forward:
  "py_state (pay_run p events) = py_state p \<or> pay_rank (py_state p) < pay_rank (py_state (pay_run p events))"
proof (induction p events rule: pay_run.induct)
  case (2 p event target events)
  obtain res p' where a: "pay_apply p event target = (res, p')" by fastforce
  show ?case
  proof (cases "res = Inr True")
    case True
    with pay_apply_moves [of p event target p'] a 2 show ?thesis by auto
  next
    case False
    with pay_apply_stays [OF a] a 2 show ?thesis by simp
  qed
qed simp

text \<open>Money that was captured is never reported as failed, and a failed payment stays failed.\<close>

lemma pay_run_final:
  "py_state p \<in> {PAY_FAILED, PAY_REFUNDED} \<Longrightarrow> py_state (pay_run p events) = py_state p"
proof (induction p events rule: pay_run.induct)
  case (2 p event target events)
  have "py_state (snd (pay_apply p event target)) = py_state p"
    using "2.prems" by (auto simp: pay_apply_def)
  with 2 show ?case by simp
qed simp

lemma pay_run_captured:
  "py_state p \<in> {PAY_CAPTURED, PAY_SETTLED, PAY_REFUNDED} \<Longrightarrow>
   py_state (pay_run p events) \<in> {PAY_CAPTURED, PAY_SETTLED, PAY_REFUNDED}"
proof (induction p events rule: pay_run.induct)
  case (2 p event target events)
  have "py_state (snd (pay_apply p event target)) \<in> {PAY_CAPTURED, PAY_SETTLED, PAY_REFUNDED}"
    using "2.prems" by (cases target) (auto simp: pay_apply_def)
  with 2 show ?case by simp
qed simp

section \<open>Reconciliation is exact\<close>

lemma settlement_by_id_ok: "dict_ok (settlement_by_id rows)"
proof -
  have "dict_ok d \<Longrightarrow> dict_ok (fold (\<lambda>row. dict_set (sw_payment row) (sw_amount row)) rows d)" for d
    by (induction rows arbitrary: d) auto
  then show ?thesis by (simp add: settlement_by_id_def)
qed

lemma recon_fold:
  "fold (recon_step theirs) xs (ms, mm) =
     (ms @ map fst (filter (\<lambda>(i, m). dict_get theirs i = Some m) xs),
      mm @ map (\<lambda>(i, m). (i, m, the (dict_get theirs i)))
        (filter (\<lambda>(i, m). dict_get theirs i \<noteq> None \<and> dict_get theirs i \<noteq> Some m) xs))"
  by (induction xs arbitrary: ms mm) (auto simp: recon_step_def split: option.splits prod.splits)

text \<open>The reconciliation report is exact: every payment id is in exactly the list it belongs to,
  with the amounts of both sides for a mismatch, and the report is clean exactly when both sides
  hold the same payments with the same amounts.\<close>

theorem reconcile_exact:
  assumes "dict_ok ours"
  shows "let r = reconcile ours rows; theirs = settlement_by_id rows in
    (\<forall>i. i \<in> set (rr_matched r) \<longleftrightarrow> dict_get ours i \<noteq> None \<and> dict_get ours i = dict_get theirs i) \<and>
    (\<forall>i. i \<in> set (rr_missing_in_ledger r) \<longleftrightarrow> dict_get ours i = None \<and> dict_get theirs i \<noteq> None) \<and>
    (\<forall>i. i \<in> set (rr_missing_at_provider r) \<longleftrightarrow> dict_get ours i \<noteq> None \<and> dict_get theirs i = None) \<and>
    (\<forall>i a b. (i, a, b) \<in> set (rr_mismatch r) \<longleftrightarrow> dict_get ours i = Some a \<and> dict_get theirs i = Some b \<and> a \<noteq> b) \<and>
    (rr_is_clean r \<longleftrightarrow> dict_get ours = dict_get theirs)"
proof -
  let ?theirs = "settlement_by_id rows" and ?r = "reconcile ours rows"
  have ours: "(i, m) \<in> set ours \<longleftrightarrow> dict_get ours i = Some m" for i m using assms by (rule dict_get_mem)
  have keys: "i \<in> set (dict_keys d) \<longleftrightarrow> dict_get d i \<noteq> None" for i and d :: "(string, money) dict"
    using dict_get_None [of d i] by simp
  have r: "rr_matched ?r = map fst (filter (\<lambda>(i, m). dict_get ?theirs i = Some m) (sort_key fst ours))"
    "rr_mismatch ?r = map (\<lambda>(i, m). (i, m, the (dict_get ?theirs i)))
        (filter (\<lambda>(i, m). dict_get ?theirs i \<noteq> None \<and> dict_get ?theirs i \<noteq> Some m) (sort_key fst ours))"
    by (simp_all add: reconcile_def recon_fold Let_def)
  have 1: "i \<in> set (rr_matched ?r) \<longleftrightarrow> dict_get ours i \<noteq> None \<and> dict_get ours i = dict_get ?theirs i" for i
    unfolding r using ours by (force simp: image_iff)
  have 2: "i \<in> set (rr_missing_in_ledger ?r) \<longleftrightarrow> dict_get ours i = None \<and> dict_get ?theirs i \<noteq> None" for i
    using keys [of i ?theirs] by (auto simp: reconcile_def Let_def split: prod.split)
  have 3: "i \<in> set (rr_missing_at_provider ?r) \<longleftrightarrow> dict_get ours i \<noteq> None \<and> dict_get ?theirs i = None" for i
    using keys [of i ours] by (auto simp: reconcile_def Let_def split: prod.split)
  have 4: "(i, a, b) \<in> set (rr_mismatch ?r) \<longleftrightarrow> dict_get ours i = Some a \<and> dict_get ?theirs i = Some b \<and> a \<noteq> b" for i a b
    unfolding r using ours by (force simp: image_iff)
  have "rr_is_clean ?r \<longleftrightarrow> dict_get ours = dict_get ?theirs"
  proof
    assume clean: "rr_is_clean ?r"
    show "dict_get ours = dict_get ?theirs"
    proof
      fix i
      have "\<not> (dict_get ours i = None \<and> dict_get ?theirs i \<noteq> None)"
        using 2 [of i] clean by (simp add: rr_is_clean_def)
      moreover have "\<not> (dict_get ours i \<noteq> None \<and> dict_get ?theirs i = None)"
        using 3 [of i] clean by (simp add: rr_is_clean_def)
      moreover have "a = b" if "dict_get ours i = Some a" "dict_get ?theirs i = Some b" for a b
        using 4 [of i a b] that clean by (auto simp: rr_is_clean_def)
      ultimately show "dict_get ours i = dict_get ?theirs i"
        by (metis option.exhaust)
    qed
  next
    assume eq: "dict_get ours = dict_get ?theirs"
    have "i \<notin> set (rr_missing_in_ledger ?r)" "i \<notin> set (rr_missing_at_provider ?r)" "(i, a, b) \<notin> set (rr_mismatch ?r)" for i a b
      using 2 [of i] 3 [of i] 4 [of i a b] eq by (simp_all del: not_None_eq)
    then have "rr_missing_in_ledger ?r = []" "rr_missing_at_provider ?r = []" "rr_mismatch ?r = []"
      by (metis list.set_intros(1) list.exhaust prod_cases3)+
    then show "rr_is_clean ?r" by (simp add: rr_is_clean_def)
  qed
  with 1 2 3 4 show ?thesis unfolding Let_def by blast
qed

theorem reconcile_exact_witness:
  "rr_matched (reconcile [(''p-1'', Money 100 ''USD''), (''p-2'', Money 50 ''USD'')]
     [\<lparr>sw_payment = ''p-1'', sw_amount = Money 100 ''USD''\<rparr>, \<lparr>sw_payment = ''p-3'', sw_amount = Money 7 ''USD''\<rparr>]) = [''p-1''] \<and>
   \<not> rr_is_clean (reconcile [(''p-1'', Money 100 ''USD''), (''p-2'', Money 50 ''USD'')]
     [\<lparr>sw_payment = ''p-1'', sw_amount = Money 100 ''USD''\<rparr>, \<lparr>sw_payment = ''p-3'', sw_amount = Money 7 ''USD''\<rparr>])"
proof -
  let ?ours = "[(''p-1'', Money 100 ''USD''), (''p-2'', Money 50 ''USD'')]"
  let ?rows = "[\<lparr>sw_payment = ''p-1'', sw_amount = Money 100 ''USD''\<rparr>, \<lparr>sw_payment = ''p-3'', sw_amount = Money 7 ''USD''\<rparr>]"
  have ok: "dict_ok ?ours" by (simp add: dict_ok_def)
  have m: "rr_matched (reconcile ?ours ?rows) = [''p-1'']" by code_simp
  have "dict_get ?ours ''p-3'' \<noteq> dict_get (settlement_by_id ?rows) ''p-3''" by code_simp
  then have "dict_get ?ours \<noteq> dict_get (settlement_by_id ?rows)" by metis
  moreover have "rr_is_clean (reconcile ?ours ?rows) \<longleftrightarrow> dict_get ?ours = dict_get (settlement_by_id ?rows)"
    using reconcile_exact [OF ok, of ?rows] unfolding Let_def by (elim conjE)
  ultimately show ?thesis using m by simp
qed

end
