(* ===== verification/Fencing_Lock.thy ===== *)
theory Fencing_Lock
  imports Common
begin

text \<open>
  The lease-based lock and the fenced store of \<^verbatim>\<open>code/hld/fencing_lock.py\<close>:
  \<^verbatim>\<open>LeaseLockService\<close> with its single token counter, \<^verbatim>\<open>FencedStore\<close> with and without the
  token check, and the clients between them, who keep the leases they were handed and may act
  on them long after they have lapsed. The injected clock's reading is an argument of each
  operation; the internal mutexes make an operation one step.
\<close>

section \<open>Leases\<close>

record lease =
  ls_resource :: string
  ls_owner :: string
  ls_token :: int
  ls_expires_at :: time

definition lease_remaining :: "lease \<Rightarrow> time \<Rightarrow> time" where
  "lease_remaining l now = ls_expires_at l - now"

record lock_service =
  lk_ttl :: time
  lk_leases :: "(string, lease) dict"
  lk_next_token :: int

definition lock_service_new :: "time \<Rightarrow> lock_service result" where
  "lock_service_new ttl =
     (if ttl \<le> 0 then Inl ValidationError
      else Inr \<lparr>lk_ttl = ttl, lk_leases = [], lk_next_token = 0\<rparr>)"

definition lk_acquire ::
  "lock_service \<Rightarrow> time \<Rightarrow> string \<Rightarrow> string \<Rightarrow> lease option result \<times> lock_service" where
  "lk_acquire s now resource owner =
     (if resource = [] \<or> owner = [] then (Inl ValidationError, s)
      else if (case dict_get (lk_leases s) resource of None \<Rightarrow> False
                 | Some current \<Rightarrow> ls_expires_at current > now)
      then (Inr None, s)
      else let token = lk_next_token s + 1;
               l = \<lparr>ls_resource = resource, ls_owner = owner, ls_token = token, ls_expires_at = now + lk_ttl s\<rparr>
           in (Inr (Some l), s\<lparr>lk_next_token := token, lk_leases := dict_set resource l (lk_leases s)\<rparr>))"

definition lk_renew :: "lock_service \<Rightarrow> time \<Rightarrow> lease \<Rightarrow> lease option \<times> lock_service" where
  "lk_renew s now l =
     (case dict_get (lk_leases s) (ls_resource l) of
        None \<Rightarrow> (None, s)
      | Some current \<Rightarrow>
          if ls_token current \<noteq> ls_token l \<or> ls_expires_at current \<le> now then (None, s)
          else let renewed = \<lparr>ls_resource = ls_resource l, ls_owner = ls_owner l, ls_token = ls_token l,
                              ls_expires_at = now + lk_ttl s\<rparr>
               in (Some renewed, s\<lparr>lk_leases := dict_set (ls_resource l) renewed (lk_leases s)\<rparr>))"

definition lk_release :: "lock_service \<Rightarrow> lease \<Rightarrow> bool \<times> lock_service" where
  "lk_release s l =
     (case dict_get (lk_leases s) (ls_resource l) of
        None \<Rightarrow> (False, s)
      | Some current \<Rightarrow>
          if ls_token current \<noteq> ls_token l then (False, s)
          else (True, s\<lparr>lk_leases := dict_del (ls_resource l) (lk_leases s)\<rparr>))"

definition lk_holder :: "lock_service \<Rightarrow> time \<Rightarrow> string \<Rightarrow> lease option" where
  "lk_holder s now resource =
     (case dict_get (lk_leases s) resource of
        None \<Rightarrow> None
      | Some current \<Rightarrow> if ls_expires_at current \<le> now then None else Some current)"

section \<open>The store that checks tokens\<close>

record fenced_store =
  fs_check_tokens :: bool
  fs_values :: "(string, int \<times> string) dict"
  fs_rejected :: nat

definition fenced_store_new :: "bool \<Rightarrow> fenced_store" where
  "fenced_store_new check_tokens = \<lparr>fs_check_tokens = check_tokens, fs_values = [], fs_rejected = 0\<rparr>"

definition fs_write :: "fenced_store \<Rightarrow> string \<Rightarrow> string \<Rightarrow> int \<Rightarrow> unit result \<times> fenced_store" where
  "fs_write s key v token =
     (if fs_check_tokens s \<and>
         (case dict_get (fs_values s) key of None \<Rightarrow> False | Some current \<Rightarrow> token < fst current)
      then (Inl FencingError, s\<lparr>fs_rejected := fs_rejected s + 1\<rparr>)
      else (Inr (), s\<lparr>fs_values := dict_set key (token, v) (fs_values s)\<rparr>))"

definition fs_read :: "fenced_store \<Rightarrow> string \<Rightarrow> string option" where
  "fs_read s key = (case dict_get (fs_values s) key of None \<Rightarrow> None | Some current \<Rightarrow> Some (snd current))"

definition fs_token_of :: "fenced_store \<Rightarrow> string \<Rightarrow> int option" where
  "fs_token_of s key = (case dict_get (fs_values s) key of None \<Rightarrow> None | Some current \<Rightarrow> Some (fst current))"

section \<open>The contract of a token-checking store\<close>

text \<open>
  What a client of a fenced store relies on: a write is refused exactly when a higher token has
  been accepted for its key, a refused write leaves every key as it was, and an accepted one
  sets its own key only.
\<close>

text \<open>A write \<open>(key, v, token)\<close> of a history that no later one with as high a token follows.\<close>

definition newest_write :: "string \<Rightarrow> (string \<times> string \<times> int) list \<Rightarrow> int \<Rightarrow> string \<Rightarrow> bool" where
  "newest_write k ws t v \<longleftrightarrow> (\<exists>before after. ws = before @ (k, v, t) # after \<and>
     (\<forall>(k', v', t') \<in> set before. k' = k \<longrightarrow> t' \<le> t) \<and> (\<forall>(k', v', t') \<in> set after. k' = k \<longrightarrow> t' < t))"

lemma newest_write_mem: "newest_write k ws t v \<Longrightarrow> (k, v, t) \<in> set ws"
  by (auto simp: newest_write_def)

lemma newest_write_max: "newest_write k ws t v \<Longrightarrow> (k, v', t') \<in> set ws \<Longrightarrow> t' \<le> t"
  by (fastforce simp: newest_write_def)

lemma newest_write_last:
  assumes "\<forall>(k', v', t') \<in> set ws. k' = k \<longrightarrow> t' \<le> t"
  shows "newest_write k (ws @ [(k, v, t)]) t' v' \<longleftrightarrow> t' = t \<and> v' = v"
proof
  assume n: "newest_write k (ws @ [(k, v, t)]) t' v'"
  then obtain before after where *: "ws @ [(k, v, t)] = before @ (k, v', t') # after"
    "\<forall>(k', v', u) \<in> set after. k' = k \<longrightarrow> u < t'" by (auto simp: newest_write_def)
  show "t' = t \<and> v' = v"
  proof (cases after rule: rev_cases)
    case Nil
    with * show ?thesis by simp
  next
    case (snoc as a)
    with * have "a = (k, v, t)" "(k, v', t') \<in> set ws" by auto
    with * snoc assms show ?thesis by fastforce
  qed
next
  assume "t' = t \<and> v' = v"
  with assms show "newest_write k (ws @ [(k, v, t)]) t' v'"
    unfolding newest_write_def by (intro exI [of _ ws] exI [of _ "[]"]) auto
qed

lemma newest_write_skip:
  assumes "k' = k \<Longrightarrow> newest_write k ws h w \<and> u < h"
  shows "newest_write k (ws @ [(k', x, u)]) t v \<longleftrightarrow> newest_write k ws t v"
proof
  assume "newest_write k (ws @ [(k', x, u)]) t v"
  then obtain before after where *: "ws @ [(k', x, u)] = before @ (k, v, t) # after"
    "\<forall>(k', v', t') \<in> set before. k' = k \<longrightarrow> t' \<le> t" "\<forall>(k', v', t') \<in> set after. k' = k \<longrightarrow> t' < t"
    unfolding newest_write_def by blast
  show "newest_write k ws t v"
  proof (cases after rule: rev_cases)
    case Nil
    with * have eq: "k' = k" "u = t" "before = ws" by auto
    then have "h \<le> t" using * assms newest_write_mem [where k = k and ws = ws and t = h and v = w] by fastforce
    with eq assms show ?thesis by simp
  next
    case (snoc as a)
    with * have "ws = before @ (k, v, t) # as" "set as \<subseteq> set after" by auto
    with * show ?thesis unfolding newest_write_def by blast
  qed
next
  assume n: "newest_write k ws t v"
  then obtain before after where *: "ws = before @ (k, v, t) # after"
    "\<forall>(k', v', t') \<in> set before. k' = k \<longrightarrow> t' \<le> t" "\<forall>(k', v', t') \<in> set after. k' = k \<longrightarrow> t' < t"
    unfolding newest_write_def by blast
  have "u < t" if "k' = k"
    using assms [OF that] newest_write_max [OF n] newest_write_mem [where k = k and ws = ws and t = h and v = w] by fastforce
  with * show "newest_write k (ws @ [(k', x, u)]) t v"
    unfolding newest_write_def by (intro exI [of _ before] exI [of _ "after @ [(k', x, u)]"]) auto
qed

lemma newest_write_exists: "(k, v, t) \<in> set ws \<Longrightarrow> \<exists>t' v'. newest_write k ws t' v'"
proof (induction ws arbitrary: v t rule: rev_induct)
  case (snoc x ws)
  obtain k' v' t' where x: "x = (k', v', t')" by (cases x)
  show ?case
  proof (cases "\<exists>h w. newest_write k ws h w \<and> (k' = k \<longrightarrow> t' < h)")
    case True
    then show ?thesis using newest_write_skip [where k' = k' and k = k and ws = ws and u = t' and x = v'] by (metis x)
  next
    case False
    have k: "k' = k"
      using False snoc by (cases "k' = k") (auto simp: x)
    have "\<forall>(k'', u, h) \<in> set ws. k'' = k \<longrightarrow> h \<le> t'"
    proof (clarify)
      fix u h assume "(k, u, h) \<in> set ws"
      with snoc.IH obtain m y where "newest_write k ws m y" by blast
      with \<open>(k, u, h) \<in> set ws\<close> False show "h \<le> t'" using newest_write_max by fastforce
    qed
    then show ?thesis using newest_write_last [where ws = ws and k = k and t = t' and v = v'] by (metis k x)
  qed
qed simp

locale token_store =
  fixes put :: "'s \<Rightarrow> string \<Rightarrow> string \<Rightarrow> int \<Rightarrow> unit result \<times> 's"
    and entry :: "'s \<Rightarrow> string \<Rightarrow> (int \<times> string) option"
    and ok :: "'s \<Rightarrow> bool"
  assumes put_ok: "ok s \<Longrightarrow> ok (snd (put s k v t))"
    and refused: "ok s \<Longrightarrow> entry s k = Some (h, w) \<Longrightarrow> t < h \<Longrightarrow>
          fst (put s k v t) = Inl FencingError \<and> entry (snd (put s k v t)) = entry s"
    and accepted: "ok s \<Longrightarrow> (case entry s k of None \<Rightarrow> True | Some (h, w) \<Rightarrow> h \<le> t) \<Longrightarrow>
          fst (put s k v t) = Inr () \<and> entry (snd (put s k v t)) = (entry s)(k \<mapsto> (t, v))"
begin

text \<open>A history of writes, oldest first; what each key holds after it.\<close>

fun run_writes :: "(string \<times> string \<times> int) list \<Rightarrow> 's \<Rightarrow> 's" where
  "run_writes [] s = s"
| "run_writes ((k, v, t) # ws) s = run_writes ws (snd (put s k v t))"

lemma run_writes_append: "run_writes (ws @ vs) s = run_writes vs (run_writes ws s)"
  by (induction ws s rule: run_writes.induct) auto

lemma run_writes_ok: "ok s \<Longrightarrow> ok (run_writes ws s)"
  by (induction ws s rule: run_writes.induct) (auto simp: put_ok)

lemma put_entry:
  assumes "ok s"
  shows "entry (snd (put s k v t)) =
    (case entry s k of None \<Rightarrow> (entry s)(k \<mapsto> (t, v))
     | Some (h, w) \<Rightarrow> if t < h then entry s else (entry s)(k \<mapsto> (t, v)))"
proof (cases "entry s k")
  case None
  then show ?thesis using accepted [OF assms, where k = k and t = t and v = v] by simp
next
  case (Some p)
  then obtain h w where p: "entry s k = Some (h, w)" by (cases p) auto
  show ?thesis
  proof (cases "t < h")
    case True
    then show ?thesis using refused [OF assms p True, where v = v] p by simp
  next
    case False
    then have "case entry s k of None \<Rightarrow> True | Some (h, w) \<Rightarrow> h \<le> t" using p by simp
    with False show ?thesis using accepted [OF assms, where k = k and t = t and v = v] p by simp
  qed
qed

text \<open>The entry of a key never goes back to a lower token.\<close>

lemma token_monotone:
  assumes "ok s" and "entry s k = Some (h, w)"
  shows "\<exists>h' w'. entry (run_writes ws s) k = Some (h', w') \<and> h \<le> h'"
  using assms
proof (induction ws s arbitrary: h w rule: run_writes.induct)
  case (2 k' v t ws s)
  have "\<exists>h1 w1. entry (snd (put s k' v t)) k = Some (h1, w1) \<and> h \<le> h1"
    using "2.prems" by (auto simp: put_entry split: option.splits prod.splits)
  then obtain h1 w1 where h1: "entry (snd (put s k' v t)) k = Some (h1, w1)" "h \<le> h1" by blast
  from "2.IH" [OF put_ok [OF "2.prems"(1)] h1(1)] h1(2) show ?case by fastforce
qed simp

text \<open>So a holder whose token has been overtaken can never put again.\<close>

lemma overtaken_refused:
  assumes "ok s" and "fst (put s k v t) = Inr ()" and "u < t"
  shows "fst (put (run_writes ws (snd (put s k v t))) k w u) = Inl FencingError"
    and "entry (snd (put (run_writes ws (snd (put s k v t))) k w u)) =
         entry (run_writes ws (snd (put s k v t)))"
proof -
  let ?s = "snd (put s k v t)"
  have "entry ?s k = Some (t, v)"
  proof (cases "entry s k")
    case None
    then show ?thesis using accepted [OF assms(1), where k = k and t = t and v = v] by simp
  next
    case (Some p)
    then obtain h x where p: "entry s k = Some (h, x)" by (cases p) auto
    have "\<not> t < h" using refused [OF assms(1) p, where t = t and v = v] assms(2) by auto
    then show ?thesis using p put_entry [OF assms(1), where k = k and v = v and t = t] by simp
  qed
  then obtain h' w' where h: "entry (run_writes ws ?s) k = Some (h', w')" "t \<le> h'"
    using token_monotone [OF put_ok [OF assms(1)]] by blast
  have "u < h'" using h(2) assms(3) by simp
  note refused [OF run_writes_ok [OF put_ok [OF assms(1)]] h(1) this, where v = w]
  then show "fst (put (run_writes ws ?s) k w u) = Inl FencingError"
    and "entry (snd (put (run_writes ws ?s) k w u)) = entry (run_writes ws ?s)" by simp_all
qed

text \<open>What a key holds after a history: the last of the writes with the greatest token.\<close>

lemma entry_newest:
  assumes "ok s" and "entry s = Map.empty"
  shows "entry (run_writes ws s) k = Some (t, v) \<longleftrightarrow> newest_write k ws t v"
proof (induction ws arbitrary: t v rule: rev_induct)
  case Nil
  then show ?case using assms by (simp add: newest_write_def)
next
  case (snoc x ws)
  obtain k' v' t' where x: "x = (k', v', t')" by (cases x)
  have ok: "ok (run_writes ws s)" by (rule run_writes_ok [OF assms(1)])
  have none: "entry (run_writes ws s) k = None \<longleftrightarrow> (\<forall>v t. (k, v, t) \<notin> set ws)"
    using snoc.IH newest_write_exists [where k = k and ws = ws] newest_write_mem [where k = k and ws = ws]
    by (metis not_Some_eq surj_pair)
  show ?case
  proof (cases "k' = k")
    case False
    then have "entry (run_writes (ws @ [x]) s) k = entry (run_writes ws s) k"
      by (auto simp: x run_writes_append put_entry [OF ok] split: option.splits prod.splits)
    with False snoc.IH show ?thesis by (simp add: x newest_write_skip)
  next
    case True
    show ?thesis
    proof (cases "entry (run_writes ws s) k")
      case None
      have "newest_write k (ws @ [(k, v', t')]) t v \<longleftrightarrow> t = t' \<and> v = v'"
        by (rule newest_write_last) (use None none in auto)
      with None True show ?thesis by (auto simp: x run_writes_append put_entry [OF ok])
    next
      case (Some p)
      obtain h w where p: "p = (h, w)" by (cases p)
      with Some snoc.IH have n: "newest_write k ws h w" by blast
      show ?thesis
      proof (cases "t' < h")
        case True
        with n have "newest_write k (ws @ [x]) t v \<longleftrightarrow> newest_write k ws t v"
          unfolding x by (intro newest_write_skip) simp
        moreover have "entry (run_writes (ws @ [x]) s) k = entry (run_writes ws s) k"
          using True Some p \<open>k' = k\<close> by (simp add: x run_writes_append put_entry [OF ok])
        ultimately show ?thesis using snoc.IH by simp
      next
        case False
        have "newest_write k (ws @ [(k, v', t')]) t v \<longleftrightarrow> t = t' \<and> v = v'"
          by (rule newest_write_last) (use False newest_write_max [OF n] in fastforce)
        with False Some p \<open>k' = k\<close> show ?thesis by (auto simp: x run_writes_append put_entry [OF ok])
      qed
    qed
  qed
qed

end

definition fs_ok :: "fenced_store \<Rightarrow> bool" where
  "fs_ok s \<longleftrightarrow> fs_check_tokens s"

interpretation fenced: token_store fs_write "\<lambda>s. dict_get (fs_values s)" fs_ok
  by unfold_locales (auto simp: fs_ok_def fs_write_def fun_eq_iff split: option.splits)


section \<open>The service, the store and the clients\<close>

text \<open>
  The clients keep every lease they were ever handed (\<open>fn_handed\<close>) and may renew, release or write
  under any of them at any later time, lapsed or not; the two fields \<open>fn_handed\<close> and
  \<open>fn_released\<close> only record what happened. The clock never goes back.
\<close>

record fence_sys =
  fn_now :: time
  fn_lock :: lock_service
  fn_store :: fenced_store
  fn_handed :: "lease list"
  fn_released :: "int list"

inductive fence_step :: "fence_sys \<Rightarrow> fence_sys \<Rightarrow> bool" where
  tick: "0 \<le> d \<Longrightarrow> fence_step s (s\<lparr>fn_now := fn_now s + d\<rparr>)"
| acquire: "lk_acquire (fn_lock s) (fn_now s) r c = (Inr (Some l), lk) \<Longrightarrow>
    fence_step s (s\<lparr>fn_lock := lk, fn_handed := l # fn_handed s\<rparr>)"
| renew: "l \<in> set (fn_handed s) \<Longrightarrow> lk_renew (fn_lock s) (fn_now s) l = (Some l', lk) \<Longrightarrow>
    fence_step s (s\<lparr>fn_lock := lk, fn_handed := l' # fn_handed s\<rparr>)"
| release: "l \<in> set (fn_handed s) \<Longrightarrow> lk_release (fn_lock s) l = (True, lk) \<Longrightarrow>
    fence_step s (s\<lparr>fn_lock := lk, fn_released := ls_token l # fn_released s\<rparr>)"
| store: "l \<in> set (fn_handed s) \<Longrightarrow>
    fence_step s (s\<lparr>fn_store := snd (fs_write (fn_store s) k v (ls_token l))\<rparr>)"

definition fence_init :: "time \<Rightarrow> lock_service \<Rightarrow> bool \<Rightarrow> fence_sys" where
  "fence_init now lk check = \<lparr>fn_now = now, fn_lock = lk, fn_store = fenced_store_new check,
     fn_handed = [], fn_released = []\<rparr>"

abbreviation fence_steps :: "fence_sys \<Rightarrow> fence_sys \<Rightarrow> bool" where
  "fence_steps \<equiv> fence_step\<^sup>*\<^sup>*"

inductive_cases fence_stepE: "fence_step s s'"

text \<open>The store changes by writes only.\<close>

lemma fence_steps_writes:
  "fence_steps s s' \<Longrightarrow> \<exists>ws. fn_store s' = fenced.run_writes ws (fn_store s)"
proof (induction rule: rtranclp_induct)
  case base
  show ?case by (rule exI [of _ "[]"]) simp
next
  case (step t u)
  then obtain ws where ws: "fn_store t = fenced.run_writes ws (fn_store s)" by blast
  from step(2) have "fn_store u = fn_store t \<or> (\<exists>k v n. fn_store u = snd (fs_write (fn_store t) k v n))"
    by (cases rule: fence_step.cases) auto
  then show ?case
  proof (elim disjE exE)
    fix k v n assume "fn_store u = snd (fs_write (fn_store t) k v n)"
    then show ?thesis using ws
      by (intro exI [of _ "ws @ [(k, v, n)]"]) (simp add: fenced.run_writes_append)
  qed (use ws in auto)
qed

section \<open>What the lock service keeps\<close>

definition token_ok :: "fence_sys \<Rightarrow> lease \<Rightarrow> bool" where
  "token_ok s l \<longleftrightarrow> 0 < ls_token l \<and> ls_token l \<le> lk_next_token (fn_lock s) \<and>
     ls_expires_at l \<le> fn_now s + lk_ttl (fn_lock s)"

definition live_lease :: "fence_sys \<Rightarrow> lease \<Rightarrow> bool" where
  "live_lease s l \<longleftrightarrow> fn_now s < ls_expires_at l \<and> ls_token l \<notin> set (fn_released s)"

definition backed :: "fence_sys \<Rightarrow> lease \<Rightarrow> bool" where
  "backed s l \<longleftrightarrow> (\<exists>c. dict_get (lk_leases (fn_lock s)) (ls_resource l) = Some c \<and>
     ls_token c = ls_token l \<and> ls_expires_at l \<le> ls_expires_at c)"

definition fence_ok :: "fence_sys \<Rightarrow> bool" where
  "fence_ok s \<longleftrightarrow> 0 < lk_ttl (fn_lock s) \<and> 0 \<le> lk_next_token (fn_lock s) \<and>
     (\<forall>l \<in> set (fn_handed s). token_ok s l \<and> (live_lease s l \<longrightarrow> backed s l)) \<and>
     (\<forall>l \<in> set (fn_handed s). \<forall>m \<in> set (fn_handed s). ls_token l = ls_token m \<longrightarrow>
        ls_resource l = ls_resource m \<and> ls_owner l = ls_owner m) \<and>
     (\<forall>r c. dict_get (lk_leases (fn_lock s)) r = Some c \<longrightarrow> c \<in> set (fn_handed s) \<and> ls_resource c = r)"

lemma fence_okI:
  assumes "0 < lk_ttl (fn_lock s)" "0 \<le> lk_next_token (fn_lock s)"
    and "\<And>l. l \<in> set (fn_handed s) \<Longrightarrow> token_ok s l"
    and "\<And>l. l \<in> set (fn_handed s) \<Longrightarrow> live_lease s l \<Longrightarrow> backed s l"
    and "\<And>l m. l \<in> set (fn_handed s) \<Longrightarrow> m \<in> set (fn_handed s) \<Longrightarrow> ls_token l = ls_token m \<Longrightarrow>
       ls_resource l = ls_resource m \<and> ls_owner l = ls_owner m"
    and "\<And>r c. dict_get (lk_leases (fn_lock s)) r = Some c \<Longrightarrow> c \<in> set (fn_handed s) \<and> ls_resource c = r"
  shows "fence_ok s"
  using assms unfolding fence_ok_def by blast

lemma fence_okD:
  assumes "fence_ok s"
  shows "0 < lk_ttl (fn_lock s)" "0 \<le> lk_next_token (fn_lock s)"
    and "l \<in> set (fn_handed s) \<Longrightarrow> token_ok s l"
    and "l \<in> set (fn_handed s) \<Longrightarrow> live_lease s l \<Longrightarrow> backed s l"
    and "l \<in> set (fn_handed s) \<Longrightarrow> m \<in> set (fn_handed s) \<Longrightarrow> ls_token l = ls_token m \<Longrightarrow>
       ls_resource l = ls_resource m \<and> ls_owner l = ls_owner m"
    and "dict_get (lk_leases (fn_lock s)) r = Some c \<Longrightarrow> c \<in> set (fn_handed s) \<and> ls_resource c = r"
  using assms unfolding fence_ok_def by blast+

lemma acquireD:
  assumes "lk_acquire lk now r c = (Inr (Some l), lk')"
  shows "l = \<lparr>ls_resource = r, ls_owner = c, ls_token = lk_next_token lk + 1, ls_expires_at = now + lk_ttl lk\<rparr>"
    and "lk' = lk\<lparr>lk_next_token := lk_next_token lk + 1, lk_leases := dict_set r l (lk_leases lk)\<rparr>"
    and "dict_get (lk_leases lk) r = Some cur \<Longrightarrow> ls_expires_at cur \<le> now"
  using assms by (auto simp: lk_acquire_def Let_def split: if_splits option.splits)

lemma renewD:
  assumes "lk_renew lk now l = (Some l', lk')"
  obtains cur where "dict_get (lk_leases lk) (ls_resource l) = Some cur" "ls_token cur = ls_token l"
    "now < ls_expires_at cur"
    "l' = \<lparr>ls_resource = ls_resource l, ls_owner = ls_owner l, ls_token = ls_token l, ls_expires_at = now + lk_ttl lk\<rparr>"
    "lk' = lk\<lparr>lk_leases := dict_set (ls_resource l) l' (lk_leases lk)\<rparr>"
  using assms by (auto simp: lk_renew_def Let_def split: if_splits option.splits)

lemma releaseD:
  assumes "lk_release lk l = (True, lk')"
  obtains cur where "dict_get (lk_leases lk) (ls_resource l) = Some cur" "ls_token cur = ls_token l"
    "lk' = lk\<lparr>lk_leases := dict_del (ls_resource l) (lk_leases lk)\<rparr>"
  using assms by (auto simp: lk_release_def split: if_splits option.splits)

lemma fence_ok_acquire:
  assumes ok: "fence_ok s" and a: "lk_acquire (fn_lock s) (fn_now s) r c = (Inr (Some l), lk)"
  shows "fence_ok (s\<lparr>fn_lock := lk, fn_handed := l # fn_handed s\<rparr>)"
proof -
  note D = fence_okD [OF ok]
  note l = acquireD(1) [OF a] and lk = acquireD(2) [OF a] and free = acquireD(3) [OF a]
  let ?s = "s\<lparr>fn_lock := lk, fn_handed := l # fn_handed s\<rparr>"
  have old: "ls_token m \<noteq> ls_token l" if "m \<in> set (fn_handed s)" for m
    using D(3) [OF that] by (auto simp: token_ok_def l)
  show ?thesis
  proof (rule fence_okI)
    fix m assume m: "m \<in> set (fn_handed ?s)"
    then show "token_ok ?s m" using D(1,2) D(3) [of m] by (auto simp: token_ok_def l lk)
    assume live: "live_lease ?s m"
    show "backed ?s m"
    proof (cases "m = l")
      case True
      then show ?thesis by (simp add: backed_def lk l)
    next
      case False
      with m have m': "m \<in> set (fn_handed s)" by simp
      have "live_lease s m" using live by (simp add: live_lease_def)
      with D(4) [OF m'] obtain cur where cur: "dict_get (lk_leases (fn_lock s)) (ls_resource m) = Some cur"
        "ls_token cur = ls_token m" "ls_expires_at m \<le> ls_expires_at cur" by (auto simp: backed_def)
      have "ls_resource m \<noteq> r"
        using free [of cur] cur live by (auto simp: live_lease_def)
      with cur show ?thesis by (simp add: backed_def lk l)
    qed
  next
    fix m n assume "m \<in> set (fn_handed ?s)" "n \<in> set (fn_handed ?s)" "ls_token m = ls_token n"
    then show "ls_resource m = ls_resource n \<and> ls_owner m = ls_owner n"
      using D(5) [of m n] old [of m] old [of n] by auto
  qed (use D(1,2,6) in \<open>auto simp: lk l split: if_splits\<close>)
qed


lemma fence_ok_renew:
  assumes ok: "fence_ok s" and h: "l \<in> set (fn_handed s)"
    and a: "lk_renew (fn_lock s) (fn_now s) l = (Some l', lk)"
  shows "fence_ok (s\<lparr>fn_lock := lk, fn_handed := l' # fn_handed s\<rparr>)"
proof -
  note D = fence_okD [OF ok]
  let ?s = "s\<lparr>fn_lock := lk, fn_handed := l' # fn_handed s\<rparr>"
  from a obtain cur where cur: "dict_get (lk_leases (fn_lock s)) (ls_resource l) = Some cur"
      "ls_token cur = ls_token l" "fn_now s < ls_expires_at cur"
    and l': "l' = \<lparr>ls_resource = ls_resource l, ls_owner = ls_owner l, ls_token = ls_token l,
                   ls_expires_at = fn_now s + lk_ttl (fn_lock s)\<rparr>"
    and lk: "lk = (fn_lock s)\<lparr>lk_leases := dict_set (ls_resource l) l' (lk_leases (fn_lock s))\<rparr>"
    by (rule renewD)
  show ?thesis
  proof (rule fence_okI)
    fix m assume m: "m \<in> set (fn_handed ?s)"
    show "token_ok ?s m" using m D(3) [OF h] D(3) [of m] by (auto simp: token_ok_def l' lk)
    assume live: "live_lease ?s m"
    show "backed ?s m"
    proof (cases "m = l'")
      case True
      then show ?thesis by (simp add: backed_def lk l')
    next
      case False
      with m have m': "m \<in> set (fn_handed s)" by simp
      have "live_lease s m" using live by (simp add: live_lease_def)
      with D(4) [OF m'] obtain c where c: "dict_get (lk_leases (fn_lock s)) (ls_resource m) = Some c"
        "ls_token c = ls_token m" "ls_expires_at m \<le> ls_expires_at c" by (auto simp: backed_def)
      show ?thesis
      proof (cases "ls_resource m = ls_resource l")
        case True
        with c cur have "c = cur" by simp
        with c(2) cur(2) D(3) [OF m'] True show ?thesis by (simp add: backed_def lk l' token_ok_def)
      qed (use c in \<open>simp add: backed_def lk l'\<close>)
    qed
  next
    fix m n assume "m \<in> set (fn_handed ?s)" "n \<in> set (fn_handed ?s)" "ls_token m = ls_token n"
    moreover have same: "\<exists>x \<in> set (fn_handed s). ls_token x = ls_token y \<and> ls_resource x = ls_resource y \<and>
        ls_owner x = ls_owner y" if "y \<in> set (fn_handed ?s)" for y
      using that h by (cases "y = l'") (auto simp: l')
    ultimately obtain m' n' where "m' \<in> set (fn_handed s)" "n' \<in> set (fn_handed s)" "ls_token m' = ls_token n'"
      and "ls_resource m' = ls_resource m" "ls_owner m' = ls_owner m"
      and "ls_resource n' = ls_resource n" "ls_owner n' = ls_owner n" by metis
    with D(5) [of m' n'] show "ls_resource m = ls_resource n \<and> ls_owner m = ls_owner n" by metis
  next
    fix r c assume "dict_get (lk_leases (fn_lock ?s)) r = Some c"
    then show "c \<in> set (fn_handed ?s) \<and> ls_resource c = r"
      using D(6) [of r c] by (auto simp: lk l' split: if_splits)
  qed (use D(1,2) in \<open>auto simp: lk\<close>)
qed

lemma fence_ok_release:
  assumes ok: "fence_ok s" and h: "l \<in> set (fn_handed s)" and a: "lk_release (fn_lock s) l = (True, lk)"
  shows "fence_ok (s\<lparr>fn_lock := lk, fn_released := ls_token l # fn_released s\<rparr>)"
proof -
  note D = fence_okD [OF ok]
  let ?s = "s\<lparr>fn_lock := lk, fn_released := ls_token l # fn_released s\<rparr>"
  from a obtain cur where cur: "dict_get (lk_leases (fn_lock s)) (ls_resource l) = Some cur"
      "ls_token cur = ls_token l"
    and lk: "lk = (fn_lock s)\<lparr>lk_leases := dict_del (ls_resource l) (lk_leases (fn_lock s))\<rparr>"
    by (rule releaseD)
  show ?thesis
  proof (rule fence_okI)
    fix m assume m: "m \<in> set (fn_handed ?s)"
    then show "token_ok ?s m" using D(3) [of m] by (auto simp: token_ok_def lk)
    assume live: "live_lease ?s m"
    then have "live_lease s m" and ne: "ls_token m \<noteq> ls_token l" by (auto simp: live_lease_def)
    with D(4) [of m] m obtain c where c: "dict_get (lk_leases (fn_lock s)) (ls_resource m) = Some c"
      "ls_token c = ls_token m" "ls_expires_at m \<le> ls_expires_at c" by (auto simp: backed_def)
    then have "ls_resource m \<noteq> ls_resource l" using cur ne by auto
    with c show "backed ?s m" by (simp add: backed_def lk)
  next
    fix m n assume "m \<in> set (fn_handed ?s)" "n \<in> set (fn_handed ?s)" "ls_token m = ls_token n"
    then show "ls_resource m = ls_resource n \<and> ls_owner m = ls_owner n" using D(5) [of m n] by simp
  next
    fix r c assume "dict_get (lk_leases (fn_lock ?s)) r = Some c"
    then show "c \<in> set (fn_handed ?s) \<and> ls_resource c = r"
      using D(6) [of r c] by (auto simp: lk split: if_splits)
  qed (use D(1,2) in \<open>auto simp: lk\<close>)
qed

lemma fence_ok_tick:
  assumes ok: "fence_ok s" and d: "0 \<le> d"
  shows "fence_ok (s\<lparr>fn_now := fn_now s + d\<rparr>)"
proof -
  note D = fence_okD [OF ok]
  let ?s = "s\<lparr>fn_now := fn_now s + d\<rparr>"
  show ?thesis
  proof (rule fence_okI)
    fix m assume m: "m \<in> set (fn_handed ?s)"
    then show "token_ok ?s m" using D(3) [of m] d by (simp add: token_ok_def)
    assume "live_lease ?s m"
    then have "live_lease s m" using d by (simp add: live_lease_def)
    then show "backed ?s m" using D(4) [of m] m by (simp add: backed_def)
  next
    fix m n assume "m \<in> set (fn_handed ?s)" "n \<in> set (fn_handed ?s)" "ls_token m = ls_token n"
    then show "ls_resource m = ls_resource n \<and> ls_owner m = ls_owner n" using D(5) [of m n] by simp
  next
    fix r c assume "dict_get (lk_leases (fn_lock ?s)) r = Some c"
    then show "c \<in> set (fn_handed ?s) \<and> ls_resource c = r" using D(6) [of r c] by simp
  qed (use D(1,2) in simp_all)
qed

lemma fence_ok_store:
  assumes ok: "fence_ok s"
  shows "fence_ok (s\<lparr>fn_store := st\<rparr>)"
proof (rule fence_okI)
  note D = fence_okD [OF ok]
  let ?s = "s\<lparr>fn_store := st\<rparr>"
  fix m assume m: "m \<in> set (fn_handed ?s)"
  then show "token_ok ?s m" using D(3) [of m] by (simp add: token_ok_def)
  show "live_lease ?s m \<Longrightarrow> backed ?s m"
    using D(4) [of m] m by (simp add: backed_def live_lease_def)
  fix n assume "n \<in> set (fn_handed ?s)" "ls_token m = ls_token n"
  then show "ls_resource m = ls_resource n \<and> ls_owner m = ls_owner n" using D(5) [of m n] m by simp
next
  fix r c assume "dict_get (lk_leases (fn_lock (s\<lparr>fn_store := st\<rparr>))) r = Some c"
  then show "c \<in> set (fn_handed (s\<lparr>fn_store := st\<rparr>)) \<and> ls_resource c = r"
    using fence_okD(6) [OF ok, of r c] by simp
qed (use fence_okD(1,2) [OF ok] in simp_all)

lemma fence_ok_step: "fence_step s s' \<Longrightarrow> fence_ok s \<Longrightarrow> fence_ok s'"
proof (induction rule: fence_step.induct)
  case (store l s k v)
  from fence_ok_store [OF store(2)] show ?case .
next
  case (tick d s)
  from fence_ok_tick [OF tick(2,1)] show ?case .
next
  case (acquire s r c l lk)
  from fence_ok_acquire [OF acquire(2,1)] show ?case .
next
  case (renew l s l' lk)
  from fence_ok_renew [OF renew(3,1,2)] show ?case .
next
  case (release l s lk)
  from fence_ok_release [OF release(3,1,2)] show ?case .
qed

lemma fence_ok_steps: "fence_steps s s' \<Longrightarrow> fence_ok s \<Longrightarrow> fence_ok s'"
  by (induction rule: rtranclp_induct) (simp, metis fence_ok_step)

lemma fence_ok_init: "lock_service_new ttl = Inr lk \<Longrightarrow> fence_ok (fence_init now lk check)"
  by (cases "ttl \<le> 0") (auto simp: lock_service_new_def fence_init_def intro: fence_okI)

text \<open>The mode of the store is fixed at construction.\<close>

lemma fence_step_checks: "fence_step s s' \<Longrightarrow> fs_check_tokens (fn_store s') = fs_check_tokens (fn_store s)"
  by (induction rule: fence_step.induct) (simp_all add: fs_write_def)

lemma fence_steps_checks: "fence_steps s s' \<Longrightarrow> fs_check_tokens (fn_store s') = fs_check_tokens (fn_store s)"
  by (induction rule: rtranclp_induct) (auto dest: fence_step_checks)



section \<open>Properties\<close>

text \<open>C29. Mutual exclusion as the clients see it: whatever the schedule of acquisitions, renewals,
  releases, writes and clock ticks, two leases on one resource that their holders may both still
  trust (unexpired by the service's clock, not given back) are the same grant to the same owner.\<close>

theorem lock_mutual_exclusion:
  assumes "lock_service_new ttl = Inr lk" and "fence_steps (fence_init now lk check) s"
    and "l \<in> set (fn_handed s)" "m \<in> set (fn_handed s)" "ls_resource l = ls_resource m"
    and "0 < lease_remaining l (fn_now s)" "0 < lease_remaining m (fn_now s)"
    and "ls_token l \<notin> set (fn_released s)" "ls_token m \<notin> set (fn_released s)"
  shows "ls_token l = ls_token m \<and> ls_owner l = ls_owner m"
proof -
  have ok: "fence_ok s" by (rule fence_ok_steps [OF assms(2) fence_ok_init [OF assms(1)]])
  have "live_lease s l" "live_lease s m" using assms(6-9) by (auto simp: live_lease_def lease_remaining_def)
  then have "backed s l" "backed s m" using fence_okD(4) [OF ok] assms(3,4) by blast+
  then have "ls_token l = ls_token m" using assms(5) by (auto simp: backed_def)
  then show ?thesis using fence_okD(5) [OF ok assms(3,4)] by simp
qed

text \<open>The write a lock alone cannot stop: a client was handed a lease, the resource was granted
  again to someone else, and a write under the new lease was accepted. From then on, whatever
  happens, every write under the old lease to that key is refused with \<^verbatim>\<open>FencingError\<close> and
  leaves the stored values as they are.\<close>

theorem fenced_stale_writer:
  assumes "lock_service_new ttl = Inr lk" and "fence_steps (fence_init now lk True) s"
    and "old \<in> set (fn_handed s)" and "lk_acquire (fn_lock s) (fn_now s) r c = (Inr (Some new), lk')"
    and "fence_steps (s\<lparr>fn_lock := lk', fn_handed := new # fn_handed s\<rparr>) t"
    and "fst (fs_write (fn_store t) k v (ls_token new)) = Inr ()"
    and "fence_steps (t\<lparr>fn_store := snd (fs_write (fn_store t) k v (ls_token new))\<rparr>) u"
  shows "fst (fs_write (fn_store u) k w (ls_token old)) = Inl FencingError \<and>
    fs_read (snd (fs_write (fn_store u) k w (ls_token old))) = fs_read (fn_store u)"
proof -
  have ok: "fence_ok s" by (rule fence_ok_steps [OF assms(2) fence_ok_init [OF assms(1)]])
  have less: "ls_token old < ls_token new"
    using fence_okD(3) [OF ok assms(3)] acquireD(1) [OF assms(4)] by (simp add: token_ok_def)
  have "fs_check_tokens (fn_store (fence_init now lk True))"
    by (simp add: fence_init_def fenced_store_new_def)
  then have checks: "fs_ok (fn_store t)"
    using fence_steps_checks [OF assms(2)] fence_steps_checks [OF assms(5)] by (simp add: fs_ok_def)
  obtain ws where ws: "fn_store u = fenced.run_writes ws (snd (fs_write (fn_store t) k v (ls_token new)))"
    using fence_steps_writes [OF assms(7)] by auto
  note R = fenced.overtaken_refused [OF checks assms(6) less, of ws w]
  have "fst (fs_write (fn_store u) k w (ls_token old)) = Inl FencingError" using R(1) by (simp add: ws)
  moreover have "fs_read (snd (fs_write (fn_store u) k w (ls_token old))) = fs_read (fn_store u)"
    using R(2) by (simp add: ws fs_read_def fun_eq_iff)
  ultimately show ?thesis ..
qed

text \<open>What a token-checking store holds after any history of writes: the last of the writes to
  the key among those with its greatest token, and the token with it.\<close>

theorem fenced_store_newest:
  "(fs_token_of (fenced.run_writes ws (fenced_store_new True)) k = Some t \<and>
    fs_read (fenced.run_writes ws (fenced_store_new True)) k = Some v) \<longleftrightarrow> newest_write k ws t v"
proof -
  have "dict_get (fs_values (fenced.run_writes ws (fenced_store_new True))) k = Some (t, v) \<longleftrightarrow> newest_write k ws t v"
    by (rule fenced.entry_newest) (auto simp: fs_ok_def fenced_store_new_def)
  then show ?thesis by (auto simp: fs_token_of_def fs_read_def split: option.splits)
qed


section \<open>A run\<close>

text \<open>The scenario of \<^verbatim>\<open>main\<close>: A pauses past its lease, B takes over, renews and writes, A wakes up.\<close>

definition demo_lk :: "int \<Rightarrow> (string, lease) dict \<Rightarrow> lock_service" where
  "demo_lk n ls = \<lparr>lk_ttl = 10, lk_leases = ls, lk_next_token = n\<rparr>"

definition demo_lease :: "string \<Rightarrow> int \<Rightarrow> time \<Rightarrow> lease" where
  "demo_lease c n e = \<lparr>ls_resource = ''r'', ls_owner = c, ls_token = n, ls_expires_at = e\<rparr>"

definition demo_fence :: "time \<Rightarrow> lock_service \<Rightarrow> lease list \<Rightarrow> fence_sys" where
  "demo_fence now lk handed = \<lparr>fn_now = now, fn_lock = lk, fn_store = fenced_store_new True,
     fn_handed = handed, fn_released = []\<rparr>"

lemmas demo_fence_defs = demo_lk_def demo_lease_def demo_fence_def fence_init_def

lemma demo_fence_A:
  "fence_steps (fence_init 0 (demo_lk 0 []) True)
     (demo_fence 15 (demo_lk 1 [(''r'', demo_lease ''A'' 1 10)]) [demo_lease ''A'' 1 10])"
proof -
  have "fence_step (fence_init 0 (demo_lk 0 []) True)
     (demo_fence 0 (demo_lk 1 [(''r'', demo_lease ''A'' 1 10)]) [demo_lease ''A'' 1 10])"
    using fence_step.acquire [of "fence_init 0 (demo_lk 0 []) True" "''r''" "''A''" "demo_lease ''A'' 1 10"
      "demo_lk 1 [(''r'', demo_lease ''A'' 1 10)]"]
    by (simp add: demo_fence_defs lk_acquire_def Let_def)
  moreover have "fence_step (demo_fence 0 (demo_lk 1 [(''r'', demo_lease ''A'' 1 10)]) [demo_lease ''A'' 1 10])
     (demo_fence 15 (demo_lk 1 [(''r'', demo_lease ''A'' 1 10)]) [demo_lease ''A'' 1 10])"
    using fence_step.tick [of 15 "demo_fence 0 (demo_lk 1 [(''r'', demo_lease ''A'' 1 10)]) [demo_lease ''A'' 1 10]"]
    by (simp add: demo_fence_defs)
  ultimately show ?thesis by simp
qed

lemma demo_acquire_B:
  "lk_acquire (demo_lk 1 [(''r'', demo_lease ''A'' 1 10)]) 15 ''r'' ''B'' =
     (Inr (Some (demo_lease ''B'' 2 25)), demo_lk 2 [(''r'', demo_lease ''B'' 2 25)])"
  by (simp add: demo_fence_defs lk_acquire_def Let_def)

lemma demo_fence_B:
  "fence_steps (fence_init 0 (demo_lk 0 []) True)
     (demo_fence 18 (demo_lk 2 [(''r'', demo_lease ''B'' 2 28)])
        [demo_lease ''B'' 2 28, demo_lease ''B'' 2 25, demo_lease ''A'' 1 10])"
proof -
  let ?A = "demo_lease ''A'' 1 10" and ?B = "demo_lease ''B'' 2 25" and ?C = "demo_lease ''B'' 2 28"
  have "fence_step (demo_fence 15 (demo_lk 1 [(''r'', ?A)]) [?A]) (demo_fence 15 (demo_lk 2 [(''r'', ?B)]) [?B, ?A])"
    using fence_step.acquire [of "demo_fence 15 (demo_lk 1 [(''r'', ?A)]) [?A]" "''r''" "''B''" ?B "demo_lk 2 [(''r'', ?B)]"]
    by (simp add: demo_fence_defs lk_acquire_def Let_def)
  moreover have "fence_step (demo_fence 15 (demo_lk 2 [(''r'', ?B)]) [?B, ?A]) (demo_fence 18 (demo_lk 2 [(''r'', ?B)]) [?B, ?A])"
    using fence_step.tick [of 3 "demo_fence 15 (demo_lk 2 [(''r'', ?B)]) [?B, ?A]"]
    by (simp add: demo_fence_defs)
  moreover have "fence_step (demo_fence 18 (demo_lk 2 [(''r'', ?B)]) [?B, ?A]) (demo_fence 18 (demo_lk 2 [(''r'', ?C)]) [?C, ?B, ?A])"
    using fence_step.renew [of ?B "demo_fence 18 (demo_lk 2 [(''r'', ?B)]) [?B, ?A]" ?C "demo_lk 2 [(''r'', ?C)]"]
    by (simp add: demo_fence_defs lk_renew_def Let_def)
  ultimately show ?thesis using demo_fence_A by (meson rtranclp.rtrancl_into_rtrancl)
qed

lemma demo_lk_new: "lock_service_new 10 = Inr (demo_lk 0 [])"
  by (simp add: lock_service_new_def demo_lk_def)

theorem lock_mutual_exclusion_witness:
  "ls_token (demo_lease ''B'' 2 25) = ls_token (demo_lease ''B'' 2 28) \<and>
   ls_owner (demo_lease ''B'' 2 25) = ls_owner (demo_lease ''B'' 2 28)"
  by (rule lock_mutual_exclusion [OF demo_lk_new demo_fence_B])
     (simp_all add: demo_fence_def demo_lease_def lease_remaining_def)

theorem fenced_stale_writer_witness:
  "fst (fs_write (snd (fs_write (fenced_store_new True) ''k'' ''from B'' 2)) ''k'' ''from A'' 1) = Inl FencingError"
proof -
  let ?A = "demo_lease ''A'' 1 10" and ?B = "demo_lease ''B'' 2 25"
  let ?s = "demo_fence 15 (demo_lk 1 [(''r'', ?A)]) [?A]"
  let ?t = "?s\<lparr>fn_lock := demo_lk 2 [(''r'', ?B)], fn_handed := ?B # fn_handed ?s\<rparr>"
  have a: "?A \<in> set (fn_handed ?s)" by (simp add: demo_fence_def)
  have b: "lk_acquire (fn_lock ?s) (fn_now ?s) ''r'' ''B'' = (Inr (Some ?B), demo_lk 2 [(''r'', ?B)])"
    using demo_acquire_B by (simp add: demo_fence_def)
  have w: "fst (fs_write (fn_store ?t) ''k'' ''from B'' (ls_token ?B)) = Inr ()"
    by (simp add: demo_fence_defs fs_write_def fenced_store_new_def)
  show ?thesis
    using fenced_stale_writer [OF demo_lk_new demo_fence_A a b rtranclp.rtrancl_refl w rtranclp.rtrancl_refl]
    by (simp add: demo_fence_def demo_lease_def)
qed

end
