(* ===== verification/Idempotency.thy ===== *)
theory Idempotency
  imports Common
begin

text \<open>
  The idempotency-key store of \<^verbatim>\<open>code/hld/idempotency_store.py\<close>: records with a fingerprint, a
  state, a claim token and an expiry, the four outcomes of \<^verbatim>\<open>begin\<close>, completion and release by
  claim token, the sweeper, and \<^verbatim>\<open>IdempotentHandler.execute\<close> around a handler.

  The handler is a parameter: a function of the payload and of the world it has effects on that
  answers a response or raises. So is \<open>fingerprint\<close>, which the code computes with JSON and SHA-256.
  A body is a dict whose values are strings or values of any type.
\<close>

section \<open>Records\<close>

datatype outcome = NEW | REPLAY | OUT_IN_PROGRESS | MISMATCH

datatype record_state = IN_PROGRESS | COMPLETED_REC

datatype 'v any = Str string | Val 'v

record 'v response =
  rs_status :: int
  rs_body :: "(string, 'v any) dict"

record 'v idem_record =
  ir_key :: string
  ir_fingerprint :: string
  ir_state :: record_state
  ir_token :: int
  ir_expires_at :: time
  ir_response :: "'v response option"

record 'v claim =
  cl_outcome :: outcome
  cl_token :: int
  cl_response :: "'v response option"

section \<open>The store\<close>

record 'v idem_store =
  is_ttl :: time
  is_in_progress_ttl :: time
  is_records :: "(string, 'v idem_record) dict"
  is_next_token :: int

definition idem_store_new :: "time \<Rightarrow> time \<Rightarrow> 'v idem_store result" where
  "idem_store_new ttl in_progress_ttl =
     (if ttl \<le> 0 \<or> in_progress_ttl \<le> 0 then Inl ValidationError
      else Inr \<lparr>is_ttl = ttl, is_in_progress_ttl = in_progress_ttl, is_records = [], is_next_token = 1\<rparr>)"

definition idem_len :: "'v idem_store \<Rightarrow> nat" where
  "idem_len s = length (is_records s)"

definition full_key :: "string \<Rightarrow> string \<Rightarrow> string" where
  "full_key scope key = scope @ '':'' @ key"

text \<open>The lookup of \<^verbatim>\<open>begin\<close>, which forgets a record past its expiry.\<close>

definition idem_lookup :: "'v idem_store \<Rightarrow> time \<Rightarrow> string \<Rightarrow> 'v idem_record option \<times> 'v idem_store" where
  "idem_lookup s now fk =
     (case dict_get (is_records s) fk of
        None \<Rightarrow> (None, s)
      | Some r \<Rightarrow> if ir_expires_at r \<le> now then (None, s\<lparr>is_records := dict_del fk (is_records s)\<rparr>)
                  else (Some r, s))"

definition idem_begin ::
  "'v idem_store \<Rightarrow> time \<Rightarrow> string \<Rightarrow> string \<Rightarrow> string \<Rightarrow> 'v claim result \<times> 'v idem_store" where
  "idem_begin s now scope key fp =
     (if key = [] then (Inl ValidationError, s)
      else case idem_lookup s now (full_key scope key) of
             (None, s') \<Rightarrow>
               let token = is_next_token s';
                   r = \<lparr>ir_key = full_key scope key, ir_fingerprint = fp, ir_state = IN_PROGRESS, ir_token = token,
                        ir_expires_at = now + is_in_progress_ttl s', ir_response = None\<rparr>
               in (Inr \<lparr>cl_outcome = NEW, cl_token = token, cl_response = None\<rparr>,
                   s'\<lparr>is_next_token := token + 1, is_records := dict_set (full_key scope key) r (is_records s')\<rparr>)
           | (Some r, s') \<Rightarrow>
               (Inr (if ir_fingerprint r \<noteq> fp then \<lparr>cl_outcome = MISMATCH, cl_token = 0, cl_response = None\<rparr>
                     else if ir_state r = COMPLETED_REC
                     then \<lparr>cl_outcome = REPLAY, cl_token = ir_token r, cl_response = ir_response r\<rparr>
                     else \<lparr>cl_outcome = OUT_IN_PROGRESS, cl_token = 0, cl_response = None\<rparr>), s'))"

definition idem_complete ::
  "'v idem_store \<Rightarrow> time \<Rightarrow> string \<Rightarrow> string \<Rightarrow> int \<Rightarrow> 'v response \<Rightarrow> unit result \<times> 'v idem_store" where
  "idem_complete s now scope key token response =
     (case dict_get (is_records s) (full_key scope key) of
        None \<Rightarrow> (Inl ConflictError, s)
      | Some r \<Rightarrow>
          if ir_token r \<noteq> token then (Inl ConflictError, s)
          else (Inr (), s\<lparr>is_records := dict_set (full_key scope key)
                 (r\<lparr>ir_state := COMPLETED_REC, ir_response := Some response, ir_expires_at := now + is_ttl s\<rparr>)
                 (is_records s)\<rparr>))"

definition idem_release :: "'v idem_store \<Rightarrow> string \<Rightarrow> string \<Rightarrow> int \<Rightarrow> 'v idem_store" where
  "idem_release s scope key token =
     (case dict_get (is_records s) (full_key scope key) of
        None \<Rightarrow> s
      | Some r \<Rightarrow>
          if ir_token r = token \<and> ir_state r = IN_PROGRESS
          then s\<lparr>is_records := dict_del (full_key scope key) (is_records s)\<rparr> else s)"

definition idem_purge_expired :: "'v idem_store \<Rightarrow> time \<Rightarrow> nat \<times> 'v idem_store" where
  "idem_purge_expired s now =
     (let expired = map fst (filter (\<lambda>(k, r). ir_expires_at r \<le> now) (is_records s))
      in (length expired, s\<lparr>is_records := fold dict_del expired (is_records s)\<rparr>))"

section \<open>The handler\<close>

type_synonym ('p, 'v, 'w) handler = "'p \<Rightarrow> 'w \<Rightarrow> (exn \<times> string + 'v response) \<times> 'w"

text \<open>
  \<^verbatim>\<open>execute\<close>; \<open>now\<close> and \<open>later\<close> are the clock readings of its \<^verbatim>\<open>begin\<close> and its \<^verbatim>\<open>complete\<close>. The
  exception of the handler or of the store is the left value.
\<close>

definition idem_execute ::
  "('p \<Rightarrow> string) \<Rightarrow> ('p, 'v, 'w) handler \<Rightarrow> 'v idem_store \<Rightarrow> time \<Rightarrow> time \<Rightarrow> string \<Rightarrow> string \<Rightarrow> 'p \<Rightarrow> 'w \<Rightarrow>
   (outcome \<times> 'v response) result \<times> 'v idem_store \<times> 'w" where
  "idem_execute fingerprint handler s now later scope key payload w =
     (case idem_begin s now scope key (fingerprint payload) of
        (Inl e, s1) \<Rightarrow> (Inl e, s1, w)
      | (Inr claim, s1) \<Rightarrow>
          if cl_outcome claim = REPLAY \<and> cl_response claim \<noteq> None
          then (Inr (REPLAY, the (cl_response claim)), s1, w)
          else if cl_outcome claim = OUT_IN_PROGRESS
          then (Inr (OUT_IN_PROGRESS, \<lparr>rs_status = 409,
                  rs_body = [(''error'', Str ''a request with this key is in progress'')]\<rparr>), s1, w)
          else if cl_outcome claim = MISMATCH
          then (Inr (MISMATCH, \<lparr>rs_status = 422,
                  rs_body = [(''error'', Str ''key reused with a different payload'')]\<rparr>), s1, w)
          else case handler payload w of
                 (answer, w') \<Rightarrow>
                   (case (case answer of
                            Inr response \<Rightarrow> Inr response
                          | Inl (e, msg) \<Rightarrow> if is_handbook_error e
                              then Inr \<lparr>rs_status = 422, rs_body = [(''error'', Str msg)]\<rparr> else Inl e) of
                      Inl e \<Rightarrow> (Inl e, s1, w')
                    | Inr response \<Rightarrow>
                        (case idem_complete s1 later scope key (cl_token claim) response of
                           (Inl e, s2) \<Rightarrow> (Inl e, s2, w')
                         | (Inr _, s2) \<Rightarrow> (Inr (NEW, response), s2, w'))))"

text \<open>
  Scope and key are joined without escaping, so two different pairs may share a record: here the
  key \<open>b:c\<close> of tenant \<open>a\<close> and the key \<open>c\<close> of tenant \<open>a:b\<close>.
\<close>

lemma scope_collision:
  "full_key ''a'' ''b:c'' = full_key ''a:b'' ''c'' \<and> (''a'', ''b:c'') \<noteq> (''a:b'', ''c'')"
  by (simp add: full_key_def)

lemma full_key_inject_same_scope: "full_key scope k = full_key scope k' \<longleftrightarrow> k = k'"
  by (simp add: full_key_def)

lemma full_key_inject:
  assumes "CHR '':'' \<notin> set scope" "CHR '':'' \<notin> set scope'" "full_key scope k = full_key scope' k'"
  shows "scope = scope' \<and> k = k'"
proof -
  have "takeWhile (\<lambda>c. c \<noteq> CHR '':'') (full_key a b) = a" if "CHR '':'' \<notin> set a" for a b
    unfolding full_key_def using that by (subst takeWhile_append2) auto
  with assms have "scope = scope'" by metis
  with assms(3) show ?thesis by (simp add: full_key_def)
qed

section \<open>The store and its workers\<close>

text \<open>
  Workers run concurrently: a claim is taken by one step and completed or given up by a later one.
  \<open>iw_running\<close> lists the claims taken and not yet ended, as (token, scope, key).
\<close>

record 'v idem_sys =
  iw_now :: time
  iw_store :: "'v idem_store"
  iw_running :: "(int \<times> string \<times> string) list"

inductive idem_step :: "'v idem_sys \<Rightarrow> 'v idem_sys \<Rightarrow> bool" where
  tick: "0 \<le> d \<Longrightarrow> idem_step s (s\<lparr>iw_now := iw_now s + d\<rparr>)"
| start: "idem_begin (iw_store s) (iw_now s) scope key fp = (Inr c, st) \<Longrightarrow>
    idem_step s (s\<lparr>iw_store := st, iw_running :=
      (if cl_outcome c = NEW then (cl_token c, scope, key) # iw_running s else iw_running s)\<rparr>)"
| complete: "(token, scope, key) \<in> set (iw_running s) \<Longrightarrow>
    idem_step s (s\<lparr>iw_store := snd (idem_complete (iw_store s) (iw_now s) scope key token response),
      iw_running := filter (\<lambda>(t, _). t \<noteq> token) (iw_running s)\<rparr>)"
| release: "(token, scope, key) \<in> set (iw_running s) \<Longrightarrow>
    idem_step s (s\<lparr>iw_store := idem_release (iw_store s) scope key token,
      iw_running := filter (\<lambda>(t, _). t \<noteq> token) (iw_running s)\<rparr>)"
| purge: "idem_step s (s\<lparr>iw_store := snd (idem_purge_expired (iw_store s) (iw_now s))\<rparr>)"

abbreviation idem_steps :: "'v idem_sys \<Rightarrow> 'v idem_sys \<Rightarrow> bool" where
  "idem_steps \<equiv> idem_step\<^sup>*\<^sup>*"

definition idem_init :: "time \<Rightarrow> 'v idem_store \<Rightarrow> 'v idem_sys" where
  "idem_init now st = \<lparr>iw_now = now, iw_store = st, iw_running = []\<rparr>"


section \<open>What survives a step\<close>

definition idem_ok :: "'v idem_store \<Rightarrow> bool" where
  "idem_ok st \<longleftrightarrow> dict_ok (is_records st) \<and>
     (\<forall>fk r. dict_get (is_records st) fk = Some r \<longrightarrow> ir_token r < is_next_token st \<and>
        (ir_state r = COMPLETED_REC \<longrightarrow> (\<exists>response. ir_response r = Some response)))"

lemma fold_del:
  "dict_get (fold dict_del ks d) k = (if k \<in> set ks then None else dict_get d k)"
  by (induction ks arbitrary: d) auto

lemma dict_ok_fold_del: "dict_ok d \<Longrightarrow> dict_ok (fold dict_del ks d)"
  by (induction ks arbitrary: d) auto

lemma idem_lookup_kept:
  assumes "dict_get (is_records st) fk = Some r" "now < ir_expires_at r"
  shows "dict_get (is_records (snd (idem_lookup st now fk'))) fk = Some r"
  using assms by (auto simp: idem_lookup_def split: option.splits)

lemma idem_lookup_facts:
  "is_next_token (snd (idem_lookup st now fk)) = is_next_token st"
  "is_ttl (snd (idem_lookup st now fk)) = is_ttl st"
  "is_in_progress_ttl (snd (idem_lookup st now fk)) = is_in_progress_ttl st"
  "dict_ok (is_records st) \<Longrightarrow> dict_ok (is_records (snd (idem_lookup st now fk)))"
  "dict_get (is_records (snd (idem_lookup st now fk))) x = Some r \<Longrightarrow> dict_get (is_records st) x = Some r"
  by (auto simp: idem_lookup_def split: option.splits if_splits)

lemma idem_lookup_None:
  "fst (idem_lookup st now fk) = None \<longleftrightarrow>
     (\<forall>r. dict_get (is_records st) fk = Some r \<longrightarrow> ir_expires_at r \<le> now)"
  by (auto simp: idem_lookup_def split: option.splits)

text \<open>\<open>begin\<close> either takes a fresh claim, or reports an unexpired record and changes nothing.\<close>

lemma idem_begin_cases:
  assumes "idem_begin st now scope key fp = (res, st')"
  obtains (invalid) "key = []" "res = Inl ValidationError" "st' = st"
  | (new) "key \<noteq> []" "\<forall>r. dict_get (is_records st) (full_key scope key) = Some r \<longrightarrow> ir_expires_at r \<le> now"
      "res = Inr \<lparr>cl_outcome = NEW, cl_token = is_next_token st, cl_response = None\<rparr>"
      "st' = (snd (idem_lookup st now (full_key scope key)))\<lparr>is_next_token := is_next_token st + 1,
         is_records := dict_set (full_key scope key) \<lparr>ir_key = full_key scope key, ir_fingerprint = fp,
           ir_state = IN_PROGRESS, ir_token = is_next_token st, ir_expires_at = now + is_in_progress_ttl st,
           ir_response = None\<rparr> (is_records (snd (idem_lookup st now (full_key scope key))))\<rparr>"
  | (found) r where "key \<noteq> []" "dict_get (is_records st) (full_key scope key) = Some r" "now < ir_expires_at r"
      "st' = st"
      "res = Inr (if ir_fingerprint r \<noteq> fp then \<lparr>cl_outcome = MISMATCH, cl_token = 0, cl_response = None\<rparr>
         else if ir_state r = COMPLETED_REC
         then \<lparr>cl_outcome = REPLAY, cl_token = ir_token r, cl_response = ir_response r\<rparr>
         else \<lparr>cl_outcome = OUT_IN_PROGRESS, cl_token = 0, cl_response = None\<rparr>)"
proof (cases "key = []")
  case True
  then show ?thesis using assms invalid by (simp add: idem_begin_def)
next
  case key: False
  show ?thesis
  proof (cases "\<forall>r. dict_get (is_records st) (full_key scope key) = Some r \<longrightarrow> ir_expires_at r \<le> now")
    case True
    then have "fst (idem_lookup st now (full_key scope key)) = None" by (simp add: idem_lookup_None)
    then obtain s1 where "idem_lookup st now (full_key scope key) = (None, s1)" by (metis prod.collapse)
    with assms key True show ?thesis
      using idem_lookup_facts(1,3) [of st now "full_key scope key"]
      by (intro new) (auto simp: idem_begin_def Let_def)
  next
    case False
    then obtain r where r: "dict_get (is_records st) (full_key scope key) = Some r" "now < ir_expires_at r" by auto
    then have "idem_lookup st now (full_key scope key) = (Some r, st)" by (simp add: idem_lookup_def)
    with assms key r show ?thesis by (intro found [of r]) (auto simp: idem_begin_def)
  qed
qed

lemma idem_begin_token:
  assumes "idem_begin st now scope key fp = (Inr c, st')"
  shows "is_next_token st \<le> is_next_token st'"
    and "cl_outcome c = NEW \<Longrightarrow> cl_token c = is_next_token st \<and> is_next_token st' = is_next_token st + 1"
  using assms by (cases rule: idem_begin_cases; simp split: if_splits)+

lemma idem_begin_ok:
  assumes "idem_ok st" "idem_begin st now scope key fp = (res, st')"
  shows "idem_ok st'"
  using assms(2)
proof (cases rule: idem_begin_cases)
  case new
  have "dict_ok (is_records (snd (idem_lookup st now (full_key scope key))))"
    using assms(1) idem_lookup_facts(4) by (auto simp: idem_ok_def)
  moreover have "ir_token r < is_next_token st \<and>
      (ir_state r = COMPLETED_REC \<longrightarrow> (\<exists>response. ir_response r = Some response))"
    if "dict_get (is_records (snd (idem_lookup st now (full_key scope key)))) fk = Some r" for fk r
    using assms(1) idem_lookup_facts(5) [OF that] by (auto simp: idem_ok_def)
  ultimately show ?thesis unfolding new(4) by (fastforce simp: idem_ok_def)
qed (use assms(1) in auto)

lemma idem_complete_ok: "idem_ok st \<Longrightarrow> idem_ok (snd (idem_complete st now scope key token response))"
  by (auto simp: idem_complete_def idem_ok_def split: option.splits)

lemma idem_release_ok: "idem_ok st \<Longrightarrow> idem_ok (idem_release st scope key token)"
  by (auto simp: idem_release_def idem_ok_def split: option.splits)

lemma idem_purge_ok: "idem_ok st \<Longrightarrow> idem_ok (snd (idem_purge_expired st now))"
  by (auto simp: idem_purge_expired_def Let_def idem_ok_def dict_ok_fold_del fold_del)

lemma idem_step_ok: "idem_step s s' \<Longrightarrow> idem_ok (iw_store s) \<Longrightarrow> idem_ok (iw_store s')"
proof (induction rule: idem_step.induct)
  case (start s scope key fp c st)
  then show ?case using idem_begin_ok by fastforce
qed (simp_all add: idem_complete_ok idem_release_ok idem_purge_ok)

lemma idem_steps_ok: "idem_steps s s' \<Longrightarrow> idem_ok (iw_store s) \<Longrightarrow> idem_ok (iw_store s')"
  by (induction rule: rtranclp_induct) (simp, metis idem_step_ok)

lemma idem_init_ok: "idem_store_new ttl ittl = Inr st \<Longrightarrow> idem_ok (iw_store (idem_init now st))"
  by (auto simp: idem_store_new_def idem_ok_def idem_init_def split: if_splits)

text \<open>
  A record keeps its place until its expiry, whatever the other workers do, unless the owner of
  its claim ends it.
\<close>

definition idem_kept :: "string \<Rightarrow> 'v idem_record \<Rightarrow> 'v idem_sys \<Rightarrow> bool" where
  "idem_kept fk r s \<longleftrightarrow> dict_get (is_records (iw_store s)) fk = Some r"

abbreviation running_tokens :: "'v idem_sys \<Rightarrow> int set" where
  "running_tokens s \<equiv> fst ` set (iw_running s)"

lemma purge_kept:
  assumes "dict_ok (is_records st)" "dict_get (is_records st) fk = Some r" "now < ir_expires_at r"
  shows "dict_get (is_records (snd (idem_purge_expired st now))) fk = Some r"
proof -
  have "fk \<notin> set (map fst (filter (\<lambda>(k, r). ir_expires_at r \<le> now) (is_records st)))"
  proof
    assume "fk \<in> set (map fst (filter (\<lambda>(k, r). ir_expires_at r \<le> now) (is_records st)))"
    then obtain r' where "(fk, r') \<in> set (is_records st)" "ir_expires_at r' \<le> now" by auto
    with assms dict_get_mem [of "is_records st" fk r'] show False by auto
  qed
  with assms(2) show ?thesis by (simp add: idem_purge_expired_def Let_def fold_del)
qed

lemma idem_step_now: "idem_step s s' \<Longrightarrow> iw_now s \<le> iw_now s'"
  by (induction rule: idem_step.induct) simp_all

lemma idem_step_kept:
  assumes "idem_step s s'" "idem_ok (iw_store s)" "idem_kept fk r s" "iw_now s' < ir_expires_at r"
    and "ir_token r \<in> running_tokens s \<Longrightarrow> ir_token r \<in> running_tokens s'"
  shows "idem_kept fk r s'"
  using assms
proof (induction rule: idem_step.induct)
  case (start s scope key fp c st)
  have "dict_get (is_records st) fk = Some r"
    using start(1)
  proof (cases rule: idem_begin_cases)
    case new
    have "fk \<noteq> full_key scope key" using new(2) start(3,4) by (auto simp: idem_kept_def)
    then show ?thesis
      using idem_lookup_kept [of "iw_store s" fk r "iw_now s" "full_key scope key"] start(3,4)
      by (simp add: new(4) idem_kept_def)
  qed (use start(3) in \<open>auto simp: idem_kept_def\<close>)
  then show ?case by (simp add: idem_kept_def)
next
  case (complete token scope key s response)
  then have "token \<noteq> ir_token r" by force
  with complete(3) show ?case by (auto simp: idem_kept_def idem_complete_def split: option.splits)
next
  case (release token scope key s)
  then have "token \<noteq> ir_token r" by force
  with release(3) show ?case by (auto simp: idem_kept_def idem_release_def split: option.splits)
next
  case (purge s)
  then show ?case using purge_kept [of "iw_store s" fk r "iw_now s"] by (simp add: idem_kept_def idem_ok_def)
qed (simp add: idem_kept_def)

text \<open>A token that is not running and was already given out never runs again.\<close>

lemma idem_step_ended:
  assumes "idem_step s s'" "t < is_next_token (iw_store s)" "t \<notin> running_tokens s"
  shows "t < is_next_token (iw_store s') \<and> t \<notin> running_tokens s'"
  using assms
proof (induction rule: idem_step.induct)
  case (start s scope key fp c st)
  show ?case using idem_begin_token [OF start(1)] start(2,3) by auto
next
  case (complete token scope key s response)
  then show ?case by (auto simp: idem_complete_def split: option.splits)
next
  case (release token scope key s)
  then show ?case by (auto simp: idem_release_def split: option.splits)
qed (auto simp: idem_purge_expired_def Let_def)

lemma idem_steps_settled:
  assumes "idem_steps s u" "idem_ok (iw_store s)" "idem_kept fk r s" "ir_token r \<notin> running_tokens s"
  shows "iw_now u < ir_expires_at r \<Longrightarrow> idem_kept fk r u"
    and "ir_token r \<notin> running_tokens u \<and> ir_token r < is_next_token (iw_store u)"
proof -
  have "(iw_now u < ir_expires_at r \<longrightarrow> idem_kept fk r u) \<and> ir_token r \<notin> running_tokens u \<and>
      ir_token r < is_next_token (iw_store u)"
    using assms(1)
  proof (induction rule: rtranclp_induct)
    case base
    then show ?case using assms(2-4) by (auto simp: idem_ok_def idem_kept_def)
  next
    case (step t v)
    have ok: "idem_ok (iw_store t)" by (rule idem_steps_ok [OF step(1) assms(2)])
    show ?case
      using idem_step_ended [OF step(2)] idem_step_kept [OF step(2) ok] idem_step_now [OF step(2)] step(3)
      by (meson order_le_less_trans)
  qed
  then show "iw_now u < ir_expires_at r \<Longrightarrow> idem_kept fk r u"
    and "ir_token r \<notin> running_tokens u \<and> ir_token r < is_next_token (iw_store u)" by blast+
qed

lemma idem_steps_held:
  assumes "idem_steps s u" "idem_ok (iw_store s)" "idem_kept fk r s"
  shows "ir_token r < is_next_token (iw_store u) \<and>
    (ir_token r \<in> running_tokens u \<and> iw_now u < ir_expires_at r \<longrightarrow> idem_kept fk r u)"
  using assms(1)
proof (induction rule: rtranclp_induct)
  case base
  then show ?case using assms(2,3) by (auto simp: idem_ok_def idem_kept_def)
next
  case (step t v)
  have ok: "idem_ok (iw_store t)" by (rule idem_steps_ok [OF step(1) assms(2)])
  have less: "ir_token r < is_next_token (iw_store v)"
    using step(2) conjunct1 [OF step(3)]
  proof (induction rule: idem_step.induct)
    case (start s scope key fp c st)
    show ?case using idem_begin_token(1) [OF start(1)] start(2) by simp
  next
    case (complete token scope key s response)
    then show ?case by (auto simp: idem_complete_def split: option.splits)
  next
    case (release token scope key s)
    then show ?case by (auto simp: idem_release_def split: option.splits)
  qed (auto simp: idem_purge_expired_def Let_def)
  have "ir_token r \<in> running_tokens t" if "ir_token r \<in> running_tokens v"
    using idem_step_ended [OF step(2)] step(3) that by blast
  then show ?case
    using less idem_step_kept [OF step(2) ok] idem_step_now [OF step(2)] step(3)
    by (meson order_le_less_trans)
qed


lemma idem_begin_kept:
  assumes "dict_get (is_records st) (full_key scope key) = Some r" "now < ir_expires_at r" "key \<noteq> []"
  shows "idem_begin st now scope key fp =
    (Inr (if ir_fingerprint r \<noteq> fp then \<lparr>cl_outcome = MISMATCH, cl_token = 0, cl_response = None\<rparr>
          else if ir_state r = COMPLETED_REC
          then \<lparr>cl_outcome = REPLAY, cl_token = ir_token r, cl_response = ir_response r\<rparr>
          else \<lparr>cl_outcome = OUT_IN_PROGRESS, cl_token = 0, cl_response = None\<rparr>), st)"
  using assms by (simp add: idem_begin_def idem_lookup_def)

lemma idem_begin_NEW:
  assumes "idem_begin st now scope key fp = (Inr c, st')" "cl_outcome c = NEW"
  shows "key \<noteq> []" "is_ttl st' = is_ttl st"
    "map_option ir_fingerprint (dict_get (is_records st') (full_key scope key)) = Some fp"
proof -
  have "key \<noteq> [] \<and> is_ttl st' = is_ttl st \<and>
    map_option ir_fingerprint (dict_get (is_records st') (full_key scope key)) = Some fp"
    using assms(1)
  proof (cases rule: idem_begin_cases)
    case new
    then show ?thesis by (simp add: new(4) idem_lookup_facts(2))
  next
    case (found r)
    then show ?thesis using assms(2) by (simp split: if_splits)
  qed simp
  then show "key \<noteq> []" "is_ttl st' = is_ttl st"
    "map_option ir_fingerprint (dict_get (is_records st') (full_key scope key)) = Some fp" by blast+
qed

lemma idem_completeD:
  assumes "idem_complete st now scope key token response = (Inr (), st')"
  obtains r where "dict_get (is_records st) (full_key scope key) = Some r" "ir_token r = token"
    "st' = st\<lparr>is_records := dict_set (full_key scope key)
       (r\<lparr>ir_state := COMPLETED_REC, ir_response := Some response, ir_expires_at := now + is_ttl st\<rparr>) (is_records st)\<rparr>"
  using assms by (auto simp: idem_complete_def split: option.splits if_splits)

section \<open>Properties\<close>

text \<open>One worker per key: after \<open>begin\<close> has answered \<open>NEW\<close>, and until its owner completes or
  releases the claim or the claim times out, no schedule of other requests, sweeps and ticks gets
  a second \<open>NEW\<close> for the key: a twin with the same fingerprint is told it is in progress, any
  other request that the key is taken.\<close>

theorem idem_single_flight:
  assumes "idem_store_new ttl ittl = Inr st0" "idem_steps (idem_init t0 st0) s"
    and "idem_begin (iw_store s) (iw_now s) scope key fp = (Inr c, st)" "cl_outcome c = NEW"
    and "idem_steps (s\<lparr>iw_store := st, iw_running := (cl_token c, scope, key) # iw_running s\<rparr>) u"
    and "cl_token c \<in> running_tokens u" "iw_now u < iw_now s + is_in_progress_ttl (iw_store s)"
  shows "fst (idem_begin (iw_store u) (iw_now u) scope key fp') =
    Inr \<lparr>cl_outcome = (if fp' = fp then OUT_IN_PROGRESS else MISMATCH), cl_token = 0, cl_response = None\<rparr>"
proof -
  let ?s = "s\<lparr>iw_store := st, iw_running := (cl_token c, scope, key) # iw_running s\<rparr>"
  have ok: "idem_ok st"
    using idem_begin_ok [OF idem_steps_ok [OF assms(2) idem_init_ok [OF assms(1)]] assms(3)] .
  from assms(3) obtain r where r: "dict_get (is_records st) (full_key scope key) = Some r"
    "ir_token r = cl_token c" "ir_fingerprint r = fp" "ir_state r = IN_PROGRESS" "key \<noteq> []"
    "ir_expires_at r = iw_now s + is_in_progress_ttl (iw_store s)"
  proof (cases rule: idem_begin_cases)
    case new
    have "dict_get (is_records st) (full_key scope key) = Some \<lparr>ir_key = full_key scope key, ir_fingerprint = fp,
           ir_state = IN_PROGRESS, ir_token = is_next_token (iw_store s),
           ir_expires_at = iw_now s + is_in_progress_ttl (iw_store s), ir_response = None\<rparr>"
      by (simp add: new(4))
    from that [OF this] new show ?thesis by simp
  next
    case (found q)
    then show ?thesis using assms(4) by (simp split: if_splits)
  qed simp
  have "idem_kept (full_key scope key) r u"
    using idem_steps_held [OF assms(5), of "full_key scope key" r] ok r assms(6,7) by (simp add: idem_kept_def)
  then show ?thesis
    using idem_begin_kept [of "iw_store u" scope key r "iw_now u" fp'] r assms(7) by (auto simp: idem_kept_def)
qed

text \<open>A response, once stored, is what every retry gets: after a worker's \<open>complete\<close> has been
  accepted, and for the whole of the record's lifetime, \<open>begin\<close> answers a retry with the same
  fingerprint with that response and any other payload with a mismatch, whatever late workers,
  twins and sweeps do in between.\<close>

theorem idem_replay_stable:
  assumes "idem_store_new ttl ittl = Inr st0" "idem_steps (idem_init t0 st0) s"
    and "idem_complete (iw_store s) (iw_now s) scope key token response = (Inr (), st)" "key \<noteq> []"
    and "idem_steps (s\<lparr>iw_store := st, iw_running := filter (\<lambda>(t, _). t \<noteq> token) (iw_running s)\<rparr>) u"
    and "iw_now u < iw_now s + is_ttl (iw_store s)"
  shows "\<exists>fp. map_option ir_fingerprint (dict_get (is_records (iw_store s)) (full_key scope key)) = Some fp \<and>
    (\<forall>fp'. fst (idem_begin (iw_store u) (iw_now u) scope key fp') =
       Inr (if fp' = fp then \<lparr>cl_outcome = REPLAY, cl_token = token, cl_response = Some response\<rparr>
            else \<lparr>cl_outcome = MISMATCH, cl_token = 0, cl_response = None\<rparr>))"
proof -
  let ?fk = "full_key scope key"
  have ok: "idem_ok (iw_store s)" by (rule idem_steps_ok [OF assms(2) idem_init_ok [OF assms(1)]])
  from assms(3) obtain r0 where r0: "dict_get (is_records (iw_store s)) ?fk = Some r0" "ir_token r0 = token"
    and st: "st = (iw_store s)\<lparr>is_records := dict_set ?fk (r0\<lparr>ir_state := COMPLETED_REC,
      ir_response := Some response, ir_expires_at := iw_now s + is_ttl (iw_store s)\<rparr>) (is_records (iw_store s))\<rparr>"
    by (rule idem_completeD)
  let ?r = "r0\<lparr>ir_state := COMPLETED_REC, ir_response := Some response,
    ir_expires_at := iw_now s + is_ttl (iw_store s)\<rparr>"
  have "idem_ok st" using idem_complete_ok [OF ok, of "iw_now s" scope key token response] assms(3) by simp
  then have "idem_kept ?fk ?r u"
    using idem_steps_settled(1) [OF assms(5), of ?fk ?r] assms(6) r0(2)
    by (simp add: idem_kept_def st image_iff split: prod.splits)
  then have "fst (idem_begin (iw_store u) (iw_now u) scope key fp') =
       Inr (if fp' = ir_fingerprint r0 then \<lparr>cl_outcome = REPLAY, cl_token = token, cl_response = Some response\<rparr>
            else \<lparr>cl_outcome = MISMATCH, cl_token = 0, cl_response = None\<rparr>)" for fp'
    using idem_begin_kept [of "iw_store u" scope key ?r "iw_now u" fp'] assms(4,6) r0(2)
    by (auto simp: idem_kept_def)
  with r0(1) show ?thesis by auto
qed

text \<open>At-least-once in front, effectively once behind: when \<open>execute\<close> has run the handler for a
  key, a retry of the same payload within the record's lifetime answers the stored response, leaves the
  world of the handler as it is and the store unchanged, also when the handler answered with a
  business error.\<close>

theorem idem_execute_once:
  assumes "idem_store_new ttl ittl = Inr st0" "idem_steps (idem_init t0 st0) sys" "iw_store sys = s"
    and "idem_execute fingerprint handler s now later scope key payload w = (Inr (NEW, response), s', w')"
    and "retry < later + is_ttl s"
  shows "idem_execute fingerprint handler s' retry later' scope key payload w2 = (Inr (REPLAY, response), s', w2)"
proof -
  have ok: "idem_ok s" using idem_steps_ok [OF assms(2) idem_init_ok [OF assms(1)]] assms(3) by simp
  obtain cres s1 where b: "idem_begin s now scope key (fingerprint payload) = (cres, s1)" by (metis surj_pair)
  then obtain c where c: "cres = Inr c" using assms(4) by (cases cres) (auto simp: idem_execute_def)
  have out: "cl_outcome c = NEW"
    using b
  proof (cases rule: idem_begin_cases)
    case (found r)
    then have "ir_state r = COMPLETED_REC \<Longrightarrow> ir_response r \<noteq> None" using ok by (auto simp: idem_ok_def)
    then show ?thesis
      using assms(4) b c found by (auto simp: idem_execute_def split: if_splits)
  qed (use c in auto)
  obtain ans w1 where h: "handler payload w = (ans, w1)" by (metis surj_pair)
  obtain s2 where k: "idem_complete s1 later scope key (cl_token c) response = (Inr (), s2)" "s2 = s'"
    using assms(4) b c out h
    by (auto simp: idem_execute_def split: if_splits prod.splits sum.splits)
  from b c out have r: "key \<noteq> []" "is_ttl s1 = is_ttl s"
     "map_option ir_fingerprint (dict_get (is_records s1) (full_key scope key)) = Some (fingerprint payload)"
    using idem_begin_NEW [of s now scope key "fingerprint payload" c s1] by simp_all
  from k(1) obtain r0 where r0: "dict_get (is_records s1) (full_key scope key) = Some r0"
    "s2 = s1\<lparr>is_records := dict_set (full_key scope key) (r0\<lparr>ir_state := COMPLETED_REC,
        ir_response := Some response, ir_expires_at := later + is_ttl s1\<rparr>) (is_records s1)\<rparr>"
    by (rule idem_completeD)
  have "idem_begin s' retry scope key (fingerprint payload) =
      (Inr \<lparr>cl_outcome = REPLAY, cl_token = ir_token r0, cl_response = Some response\<rparr>, s')"
    using idem_begin_kept [of s' scope key "r0\<lparr>ir_state := COMPLETED_REC,
        ir_response := Some response, ir_expires_at := later + is_ttl s1\<rparr>" retry "fingerprint payload"]
      r r0 k(2) assms(5) by simp
  then show ?thesis by (simp add: idem_execute_def)
qed


section \<open>Concrete runs\<close>

definition demo_idem :: "int idem_store" where
  "demo_idem = \<lparr>is_ttl = 100, is_in_progress_ttl = 30, is_records = [], is_next_token = 1\<rparr>"

definition demo_claimed :: "int idem_store" where
  "demo_claimed = snd (idem_begin demo_idem 0 ''tenant'' ''k-1'' ''f'')"

definition demo_response :: "int response" where
  "demo_response = \<lparr>rs_status = 201, rs_body = [(''amount'', Val 250)]\<rparr>"

lemma demo_idem_new: "idem_store_new 100 30 = Inr demo_idem"
  by (simp add: idem_store_new_def demo_idem_def)

lemma demo_begin:
  "idem_begin demo_idem 0 ''tenant'' ''k-1'' ''f'' =
     (Inr \<lparr>cl_outcome = NEW, cl_token = 1, cl_response = None\<rparr>, demo_claimed)"
  by (simp add: demo_claimed_def demo_idem_def idem_begin_def idem_lookup_def Let_def)

theorem idem_single_flight_witness:
  "fst (idem_begin demo_claimed 20 ''tenant'' ''k-1'' ''f'') =
     Inr \<lparr>cl_outcome = OUT_IN_PROGRESS, cl_token = 0, cl_response = None\<rparr>"
proof -
  let ?s = "idem_init 0 demo_idem"
  let ?t = "?s\<lparr>iw_store := demo_claimed, iw_running := [(1, ''tenant'', ''k-1'')]\<rparr>"
  have b: "idem_begin (iw_store ?s) (iw_now ?s) ''tenant'' ''k-1'' ''f'' =
     (Inr \<lparr>cl_outcome = NEW, cl_token = 1, cl_response = None\<rparr>, demo_claimed)"
    using demo_begin by (simp add: idem_init_def)
  have run: "idem_steps ?t (?t\<lparr>iw_now := iw_now ?t + 20\<rparr>)"
    by (rule r_into_rtranclp, rule idem_step.tick) simp
  show ?thesis
    using idem_single_flight [OF demo_idem_new rtranclp.rtrancl_refl b, of "?t\<lparr>iw_now := iw_now ?t + 20\<rparr>" "''f''"] run
    by (simp add: idem_init_def demo_idem_def)
qed

theorem idem_replay_stable_witness:
  "\<exists>fp. fst (idem_begin (snd (idem_complete demo_claimed 0 ''tenant'' ''k-1'' 1 demo_response)) 50
     ''tenant'' ''k-1'' fp) = Inr \<lparr>cl_outcome = REPLAY, cl_token = 1, cl_response = Some demo_response\<rparr>"
proof -
  let ?s = "idem_init 0 demo_idem"
  let ?t = "?s\<lparr>iw_store := demo_claimed, iw_running := [(1, ''tenant'', ''k-1'')]\<rparr>"
  let ?st = "snd (idem_complete demo_claimed 0 ''tenant'' ''k-1'' 1 demo_response)"
  let ?u = "?t\<lparr>iw_store := ?st, iw_running := filter (\<lambda>(t, _). t \<noteq> 1) (iw_running ?t)\<rparr>"
  have b: "idem_begin (iw_store ?s) (iw_now ?s) ''tenant'' ''k-1'' ''f'' =
     (Inr \<lparr>cl_outcome = NEW, cl_token = 1, cl_response = None\<rparr>, demo_claimed)"
    using demo_begin by (simp add: idem_init_def)
  have st: "idem_steps ?s ?t" using idem_step.start [OF b] by (simp add: idem_init_def r_into_rtranclp)
  have c: "idem_complete (iw_store ?t) (iw_now ?t) ''tenant'' ''k-1'' 1 demo_response = (Inr (), ?st)"
    by (simp add: demo_claimed_def demo_idem_def idem_begin_def idem_lookup_def idem_complete_def
        idem_init_def full_key_def Let_def)
  have run: "idem_steps ?u (?u\<lparr>iw_now := iw_now ?u + 50\<rparr>)"
    by (rule r_into_rtranclp, rule idem_step.tick) simp
  have ttl: "is_ttl demo_claimed = 100"
    by (simp add: demo_claimed_def demo_idem_def idem_begin_def idem_lookup_def Let_def)
  have "\<exists>fp. map_option ir_fingerprint (dict_get (is_records (iw_store ?t)) (full_key ''tenant'' ''k-1'')) = Some fp \<and>
    (\<forall>fp'. fst (idem_begin (iw_store (?u\<lparr>iw_now := iw_now ?u + 50\<rparr>)) (iw_now (?u\<lparr>iw_now := iw_now ?u + 50\<rparr>))
          ''tenant'' ''k-1'' fp') =
       Inr (if fp' = fp then \<lparr>cl_outcome = REPLAY, cl_token = 1, cl_response = Some demo_response\<rparr>
            else \<lparr>cl_outcome = MISMATCH, cl_token = 0, cl_response = None\<rparr>))"
    by (rule idem_replay_stable [OF demo_idem_new st c _ run]) (simp_all add: idem_init_def ttl)
  then show ?thesis by (auto simp: idem_init_def)
qed

text \<open>A handler that appends a charge, and declines amounts above 500.\<close>

definition demo_charge :: "(int, int, int list) handler" where
  "demo_charge amount ledger =
     (if amount > 500 then (Inl (ValidationError, ''card declined''), ledger)
      else (Inr \<lparr>rs_status = 201, rs_body = [(''amount'', Val amount)]\<rparr>, ledger @ [amount]))"

theorem idem_execute_once_witness:
  "fst (idem_execute (\<lambda>_. ''f'') demo_charge
     (fst (snd (idem_execute (\<lambda>_. ''f'') demo_charge demo_idem 0 1 ''tenant'' ''k-1'' 250 []))) 50 51
     ''tenant'' ''k-1'' 250 [250]) = Inr (REPLAY, \<lparr>rs_status = 201, rs_body = [(''amount'', Val 250)]\<rparr>) \<and>
   snd (snd (idem_execute (\<lambda>_. ''f'') demo_charge
     (fst (snd (idem_execute (\<lambda>_. ''f'') demo_charge demo_idem 0 1 ''tenant'' ''k-1'' 250 []))) 50 51
     ''tenant'' ''k-1'' 250 [250])) = [250]"
proof -
  let ?r = "idem_execute (\<lambda>_. ''f'') demo_charge demo_idem 0 1 ''tenant'' ''k-1'' 250 []"
  have run: "?r = (Inr (NEW, \<lparr>rs_status = 201, rs_body = [(''amount'', Val 250)]\<rparr>), fst (snd ?r), [250])"
    by (simp add: idem_execute_def demo_charge_def demo_begin)
      (simp add: demo_claimed_def demo_idem_def idem_begin_def idem_lookup_def idem_complete_def full_key_def Let_def)
  show ?thesis
    using idem_execute_once [OF demo_idem_new rtranclp.rtrancl_refl, of 0 demo_idem "\<lambda>_. ''f''" demo_charge 0 1
        "''tenant''" "''k-1''" 250 "[]" "\<lparr>rs_status = 201, rs_body = [(''amount'', Val 250)]\<rparr>" "fst (snd ?r)" "[250]" 50 51 "[250]"] run
    by (simp add: idem_init_def demo_idem_def)
qed

end
