(* ===== verification/Logical_Clocks.thy ===== *)
theory Logical_Clocks
  imports Common "HOL-Library.Product_Lexorder"
begin

text \<open>
  The clocks of \<^verbatim>\<open>code/hld/logical_clocks.py\<close>: \<^verbatim>\<open>LamportClock\<close>, \<^verbatim>\<open>VectorClock\<close>, \<^verbatim>\<open>HybridLogicalClock\<close>,
  and the two registers over them, \<^verbatim>\<open>VersionedStore\<close> with siblings and \<^verbatim>\<open>LastWriterWinsStore\<close>.
  A system of nodes that tick, send and receive with both a Lamport and a vector clock ties the
  clocks to causality.
\<close>

section \<open>Lamport clocks\<close>

record lamport =
  lp_node :: string
  lp_time :: int

definition lamport_new :: "string \<Rightarrow> int \<Rightarrow> lamport result" where
  "lamport_new node start =
     (if node = [] then Inl ValidationError
      else if start < 0 then Inl ValidationError
      else Inr \<lparr>lp_node = node, lp_time = start\<rparr>)"

definition lamport_tick :: "lamport \<Rightarrow> int \<times> lamport" where
  "lamport_tick c = (lp_time c + 1, c\<lparr>lp_time := lp_time c + 1\<rparr>)"

definition lamport_send :: "lamport \<Rightarrow> int \<times> lamport" where
  "lamport_send c = lamport_tick c"

definition lamport_receive :: "lamport \<Rightarrow> int \<Rightarrow> int result \<times> lamport" where
  "lamport_receive c stamp =
     (if stamp < 0 then (Inl ValidationError, c)
      else (let t = max (lp_time c) stamp + 1 in (Inr t, c\<lparr>lp_time := t\<rparr>)))"

definition lamport_stamp :: "lamport \<Rightarrow> int \<times> string" where
  "lamport_stamp c = (lp_time c, lp_node c)"

definition lamport_total_order :: "(int \<times> string) list \<Rightarrow> (int \<times> string) list" where
  "lamport_total_order stamps = sort stamps"

section \<open>Vector clocks\<close>

datatype ordering = BEFORE | AFTER | EQUAL | CONCURRENT

datatype vector_clock = VectorClock (counters: "(string \<times> int) list")

definition vc_empty :: vector_clock where
  "vc_empty = VectorClock []"

definition vc_of :: "(string, int) dict \<Rightarrow> vector_clock result" where
  "vc_of counts =
     (if \<exists>(node, n) \<in> set counts. node = [] \<or> n < 0 then Inl ValidationError
      else Inr (VectorClock (sort (filter (\<lambda>(node, n). n > 0) counts))))"

definition vc_as_dict :: "vector_clock \<Rightarrow> (string, int) dict" where
  "vc_as_dict v = fold (\<lambda>(node, n) d. dict_set node n d) (counters v) []"

text \<open>\<^verbatim>\<open>counts.get(node, 0)\<close>\<close>

definition count_of :: "(string, int) dict \<Rightarrow> string \<Rightarrow> int" where
  "count_of d node = (case dict_get d node of None \<Rightarrow> 0 | Some n \<Rightarrow> n)"

definition vc_get :: "vector_clock \<Rightarrow> string \<Rightarrow> int" where
  "vc_get v node = count_of (vc_as_dict v) node"

definition vc_tick :: "vector_clock \<Rightarrow> string \<Rightarrow> vector_clock result" where
  "vc_tick v node = (let d = vc_as_dict v in vc_of (dict_set node (count_of d node + 1) d))"

definition vc_merge :: "vector_clock \<Rightarrow> vector_clock \<Rightarrow> vector_clock result" where
  "vc_merge v w =
     vc_of (fold (\<lambda>(node, n) d. dict_set node (max (count_of d node) n) d) (counters w) (vc_as_dict v))"

definition vc_compare :: "vector_clock \<Rightarrow> vector_clock \<Rightarrow> ordering" where
  "vc_compare v w =
     (let mine = vc_as_dict v; theirs = vc_as_dict w;
          nodes = map fst mine @ map fst theirs;
          less = list_ex (\<lambda>n. count_of mine n < count_of theirs n) nodes;
          greater = list_ex (\<lambda>n. count_of mine n > count_of theirs n) nodes
      in if less \<and> greater then CONCURRENT else if less then BEFORE
         else if greater then AFTER else EQUAL)"

definition vc_happens_before :: "vector_clock \<Rightarrow> vector_clock \<Rightarrow> bool" where
  "vc_happens_before v w \<longleftrightarrow> vc_compare v w = BEFORE"

definition vc_concurrent :: "vector_clock \<Rightarrow> vector_clock \<Rightarrow> bool" where
  "vc_concurrent v w \<longleftrightarrow> vc_compare v w = CONCURRENT"

definition vc_dominates :: "vector_clock \<Rightarrow> vector_clock \<Rightarrow> bool" where
  "vc_dominates v w \<longleftrightarrow> vc_compare v w = AFTER \<or> vc_compare v w = EQUAL"

section \<open>Registers\<close>

record version =
  vn_value :: string
  vn_clock :: vector_clock

type_synonym versioned_store = "(string, version list) dict"

definition vs_get :: "versioned_store \<Rightarrow> string \<Rightarrow> version list" where
  "vs_get s key = (case dict_get s key of None \<Rightarrow> [] | Some vs \<Rightarrow> vs)"

definition vs_put ::
  "versioned_store \<Rightarrow> string \<Rightarrow> string \<Rightarrow> string \<Rightarrow> vector_clock option \<Rightarrow> version result \<times> versioned_store" where
  "vs_put s key v node context =
     (if key = [] \<or> node = [] then (Inl ValidationError, s)
      else case vc_tick (case context of None \<Rightarrow> vc_empty | Some c \<Rightarrow> c) node of
             Inl e \<Rightarrow> (Inl e, s)
           | Inr clock \<Rightarrow>
               let kept = filter (\<lambda>w. \<not> vc_dominates clock (vn_clock w)) (vs_get s key);
                   version = \<lparr>vn_value = v, vn_clock = clock\<rparr>
               in (Inr version, dict_set key (kept @ [version]) s))"

fun merge_all :: "vector_clock \<Rightarrow> version list \<Rightarrow> vector_clock result" where
  "merge_all m [] = Inr m"
| "merge_all m (w # ws) = (case vc_merge m (vn_clock w) of Inl e \<Rightarrow> Inl e | Inr m' \<Rightarrow> merge_all m' ws)"

definition vs_resolve ::
  "versioned_store \<Rightarrow> string \<Rightarrow> string \<Rightarrow> string \<Rightarrow> version result \<times> versioned_store" where
  "vs_resolve s key v node =
     (case merge_all vc_empty (vs_get s key) of
        Inl e \<Rightarrow> (Inl e, s)
      | Inr merged \<Rightarrow>
          (case vc_tick merged node of
             Inl e \<Rightarrow> (Inl e, s)
           | Inr clock \<Rightarrow>
               let version = \<lparr>vn_value = v, vn_clock = clock\<rparr> in (Inr version, dict_set key [version] s)))"

record lww_store =
  lw_values :: "(string, rat \<times> string) dict"
  lw_discarded :: nat

definition lww_new :: lww_store where
  "lww_new = \<lparr>lw_values = [], lw_discarded = 0\<rparr>"

definition lww_put :: "lww_store \<Rightarrow> string \<Rightarrow> string \<Rightarrow> rat \<Rightarrow> bool \<times> lww_store" where
  "lww_put s key v timestamp =
     (if (case dict_get (lw_values s) key of None \<Rightarrow> False | Some current \<Rightarrow> timestamp \<le> fst current)
      then (False, s\<lparr>lw_discarded := lw_discarded s + 1\<rparr>)
      else (True, s\<lparr>lw_values := dict_set key (timestamp, v) (lw_values s)\<rparr>))"

definition lww_get :: "lww_store \<Rightarrow> string \<Rightarrow> string option" where
  "lww_get s key = (case dict_get (lw_values s) key of None \<Rightarrow> None | Some current \<Rightarrow> Some (snd current))"

section \<open>Hybrid logical clocks\<close>

datatype hybrid_timestamp = HybridTimestamp (physical_ms: int) (logical: int)

instantiation hybrid_timestamp :: linorder
begin

definition less_eq_hybrid_timestamp :: "hybrid_timestamp \<Rightarrow> hybrid_timestamp \<Rightarrow> bool" where
  "less_eq_hybrid_timestamp a b \<longleftrightarrow>
     physical_ms a < physical_ms b \<or> physical_ms a = physical_ms b \<and> logical a \<le> logical b"

definition less_hybrid_timestamp :: "hybrid_timestamp \<Rightarrow> hybrid_timestamp \<Rightarrow> bool" where
  "less_hybrid_timestamp a b \<longleftrightarrow>
     physical_ms a < physical_ms b \<or> physical_ms a = physical_ms b \<and> logical a < logical b"

instance
  by standard (auto simp: less_eq_hybrid_timestamp_def less_hybrid_timestamp_def intro: hybrid_timestamp.expand)

end

record hlc =
  hl_max_drift_ms :: int
  hl_last :: hybrid_timestamp

definition hlc_new :: "int \<Rightarrow> hlc result" where
  "hlc_new max_drift_ms =
     (if max_drift_ms \<le> 0 then Inl ValidationError
      else Inr \<lparr>hl_max_drift_ms = max_drift_ms, hl_last = HybridTimestamp 0 0\<rparr>)"

text \<open>The argument \<open>now\<close> is the reading of the injected clock, in seconds.\<close>

definition hlc_physical_ms :: "time \<Rightarrow> int" where
  "hlc_physical_ms now = py_round (now * 1000)"

definition hlc_now :: "hlc \<Rightarrow> time \<Rightarrow> hybrid_timestamp \<times> hlc" where
  "hlc_now c now =
     (let physical = hlc_physical_ms now; last = hl_last c;
          t = (if physical > physical_ms last then HybridTimestamp physical 0
               else HybridTimestamp (physical_ms last) (logical last + 1))
      in (t, c\<lparr>hl_last := t\<rparr>))"

definition hlc_update :: "hlc \<Rightarrow> time \<Rightarrow> hybrid_timestamp \<Rightarrow> hybrid_timestamp result \<times> hlc" where
  "hlc_update c now remote =
     (let physical = hlc_physical_ms now; last = hl_last c in
      if physical_ms remote - physical > hl_max_drift_ms c then (Inl ValidationError, c)
      else
        let newest = max (max (physical_ms last) (physical_ms remote)) physical;
            l = (if newest = physical_ms last \<and> physical_ms last = physical_ms remote
                 then max (logical last) (logical remote) + 1
                 else if newest = physical_ms last then logical last + 1
                 else if newest = physical_ms remote then logical remote + 1
                 else 0);
            t = HybridTimestamp newest l
        in (Inr t, c\<lparr>hl_last := t\<rparr>))"

section \<open>Vector clocks as functions\<close>

text \<open>The clocks that the operations build: sorted, one positive counter per node.\<close>

definition vc_ok :: "vector_clock \<Rightarrow> bool" where
  "vc_ok v \<longleftrightarrow> sorted (counters v) \<and> distinct (map fst (counters v)) \<and>
     (\<forall>(node, n) \<in> set (counters v). node \<noteq> [] \<and> 0 < n)"

lemma fold_dict_set_get:
  assumes "distinct (map fst xs)"
  shows "dict_get (fold (\<lambda>(k, v) d. dict_set k v d) xs d) k =
    (case map_of xs k of None \<Rightarrow> dict_get d k | Some v \<Rightarrow> Some v)"
  using assms
proof (induction xs arbitrary: d)
  case (Cons x xs)
  obtain a b where x: "x = (a, b)" by (cases x)
  have "map_of xs a = None" using Cons.prems by (simp add: x map_of_eq_None_iff)
  with Cons show ?case by (auto simp: x split: option.splits)
qed simp

lemma fold_dict_set_keys:
  "set (map fst (fold (\<lambda>(k, v) d. dict_set k (f k v d) d) xs d)) = set (map fst d) \<union> set (map fst xs)"
  by (induction xs arbitrary: d) (auto simp del: set_map simp: dict_keys_set)

lemma fold_dict_set_ok: "dict_ok d \<Longrightarrow> dict_ok (fold (\<lambda>(k, v) d. dict_set k (f k v d) d) xs d)"
  by (induction xs arbitrary: d) auto

lemma vc_as_dict_ok: "dict_ok (vc_as_dict v)"
  using fold_dict_set_ok [of "[]" "\<lambda>k v d. v" "counters v"] by (simp add: vc_as_dict_def)

lemma vc_get_map_of:
  "vc_ok v \<Longrightarrow> vc_get v node = (case map_of (counters v) node of None \<Rightarrow> 0 | Some n \<Rightarrow> n)"
  by (simp add: vc_get_def count_of_def vc_as_dict_def vc_ok_def fold_dict_set_get split: option.splits)

lemma vc_get_nonneg: "vc_ok v \<Longrightarrow> 0 \<le> vc_get v node"
  by (auto simp: vc_get_map_of vc_ok_def split: option.splits dest!: map_of_SomeD)

lemma vc_keys_nonempty: "vc_ok v \<Longrightarrow> (node, n) \<in> set (vc_as_dict v) \<Longrightarrow> node \<noteq> [] \<and> 0 < n"
  using dict_get_mem [OF vc_as_dict_ok, of node n v]
  by (fastforce simp: vc_as_dict_def vc_ok_def fold_dict_set_get dest: map_of_SomeD split: option.splits)

lemma vc_of_ok:
  assumes "dict_ok d" "vc_of d = Inr v"
  shows "vc_ok v"
proof -
  have "distinct (map fst (sort ys))" if "dict_ok ys" for ys :: "(string, int) dict"
    using that by (simp add: dict_ok_def distinct_map)
  then show ?thesis using assms by (auto simp: vc_of_def vc_ok_def split: if_splits)
qed

lemma vc_of_get:
  assumes "dict_ok d" "vc_of d = Inr v"
  shows "vc_get v node = count_of d node"
proof -
  have neg: "\<forall>(k, n) \<in> set d. k \<noteq> [] \<and> 0 \<le> n" and v: "v = VectorClock (sort (filter (\<lambda>(k, n). n > 0) d))"
    using assms(2) by (auto simp: vc_of_def split: if_splits)
  have ok: "vc_ok v" by (rule vc_of_ok [OF assms])
  have iff: "map_of (counters v) node = Some n \<longleftrightarrow> dict_get d node = Some n \<and> 0 < n" for n
  proof -
    have "map_of (counters v) node = Some n \<longleftrightarrow> (node, n) \<in> set (counters v)"
      using ok by (auto simp: vc_ok_def intro: map_of_is_SomeI dest: map_of_SomeD)
    also have "\<dots> \<longleftrightarrow> (node, n) \<in> set d \<and> 0 < n" by (auto simp: v)
    finally show ?thesis using dict_get_mem [OF assms(1)] by simp
  qed
  have "(case map_of (counters v) node of None \<Rightarrow> 0 | Some n \<Rightarrow> n) = count_of d node"
  proof (cases "map_of (counters v) node")
    case None
    have "n = 0" if "dict_get d node = Some n" for n
      using neg map_of_SomeD [OF that] iff [of n] that None by auto
    then show ?thesis by (cases "dict_get d node") (auto simp: None count_of_def)
  next
    case (Some n)
    then show ?thesis using iff [of n] by (simp add: count_of_def)
  qed
  then show ?thesis by (simp add: vc_get_map_of [OF ok])
qed


lemma count_of_set: "count_of (dict_set k n d) x = (if x = k then n else count_of d x)"
  by (simp add: count_of_def)

lemma count_of_notin: "x \<notin> set (dict_keys d) \<Longrightarrow> count_of d x = 0"
  using dict_get_None [of d x] by (simp add: count_of_def)

lemma vc_ofI: "\<forall>(k, n) \<in> set d. k \<noteq> [] \<and> 0 \<le> n \<Longrightarrow> \<exists>v. vc_of d = Inr v"
  by (auto simp: vc_of_def split: prod.splits)

lemma vc_tickE:
  assumes "vc_ok v" "node \<noteq> []"
  obtains w where "vc_tick v node = Inr w" "vc_ok w" "\<And>x. vc_get w x = vc_get v x + (if x = node then 1 else 0)"
proof -
  let ?d = "dict_set node (count_of (vc_as_dict v) node + 1) (vc_as_dict v)"
  have ok: "dict_ok ?d" by (simp add: vc_as_dict_ok)
  have "\<forall>(k, n) \<in> set ?d. k \<noteq> [] \<and> 0 \<le> n"
    using vc_keys_nonempty [OF assms(1)] vc_get_nonneg [OF assms(1), of node] assms(2)
    by (fastforce simp: vc_get_def dest!: dict_vals_set)
  then obtain w where w: "vc_of ?d = Inr w" using vc_ofI by blast
  show ?thesis
    by (rule that [of w]) (use vc_of_ok [OF ok w] vc_of_get [OF ok w] w in
        \<open>auto simp: vc_tick_def Let_def vc_get_def count_of_set\<close>)
qed

lemma count_of_merge:
  assumes "distinct (map fst xs)" "\<forall>(k, n) \<in> set xs. 0 \<le> n" "\<And>x. 0 \<le> count_of d x"
  shows "count_of (fold (\<lambda>(k, n) d. dict_set k (max (count_of d k) n) d) xs d) x =
    max (count_of d x) (case map_of xs x of None \<Rightarrow> 0 | Some n \<Rightarrow> n)"
  using assms
proof (induction xs arbitrary: d)
  case (Cons p xs)
  obtain a b where p: "p = (a, b)" by (cases p)
  have "map_of xs a = None" using Cons.prems(1) by (simp add: p map_of_eq_None_iff)
  moreover have "count_of (fold (\<lambda>(k, n) d. dict_set k (max (count_of d k) n) d) xs (dict_set a (max (count_of d a) b) d)) x =
    max (count_of (dict_set a (max (count_of d a) b) d) x) (case map_of xs x of None \<Rightarrow> 0 | Some n \<Rightarrow> n)"
    by (rule Cons.IH) (use Cons.prems in \<open>auto simp: p count_of_set le_max_iff_disj\<close>)
  moreover have "0 \<le> count_of d a" by (rule Cons.prems(3))
  ultimately show ?case by (auto simp: p count_of_set)
qed simp

lemma vc_mergeE:
  assumes "vc_ok v" "vc_ok w"
  obtains u where "vc_merge v w = Inr u" "vc_ok u" "\<And>x. vc_get u x = max (vc_get v x) (vc_get w x)"
proof -
  let ?d = "fold (\<lambda>(k, n) d. dict_set k (max (count_of d k) n) d) (counters w) (vc_as_dict v)"
  have ok: "dict_ok ?d" by (rule fold_dict_set_ok) (rule vc_as_dict_ok)
  have w: "distinct (map fst (counters w))" "\<forall>(k, n) \<in> set (counters w). k \<noteq> [] \<and> 0 \<le> n"
    using assms(2) by (auto simp: vc_ok_def)
  have cnt: "count_of ?d x = max (vc_get v x) (vc_get w x)" for x
    using count_of_merge [of "counters w" "vc_as_dict v" x] w vc_get_nonneg [OF assms(1)]
    by (auto simp: vc_get_def [of v] vc_get_map_of [OF assms(2)])
  have "k \<noteq> [] \<and> 0 \<le> n" if "(k, n) \<in> set ?d" for k n
  proof -
    have "dict_get ?d k = Some n" using that dict_get_mem [OF ok] by blast
    then have "0 \<le> n" using cnt [of k] vc_get_nonneg [OF assms(1), of k] by (simp add: count_of_def le_max_iff_disj)
    moreover have "k \<in> set (dict_keys (vc_as_dict v)) \<union> set (dict_keys (counters w))"
      using that fold_dict_set_keys [of "\<lambda>k n d. max (count_of d k) n" "counters w" "vc_as_dict v"] by force
    ultimately show ?thesis using w vc_keys_nonempty [OF assms(1)] by force
  qed
  then obtain u where u: "vc_of ?d = Inr u" using vc_ofI [of ?d] by blast
  show ?thesis
    by (rule that [of u]) (use vc_of_ok [OF ok u] vc_of_get [OF ok u] u cnt in \<open>auto simp: vc_merge_def\<close>)
qed

lemma vc_compare_iff:
  "vc_compare v w =
    (if (\<exists>n. vc_get v n < vc_get w n) \<and> (\<exists>n. vc_get v n > vc_get w n) then CONCURRENT
     else if \<exists>n. vc_get v n < vc_get w n then BEFORE
     else if \<exists>n. vc_get v n > vc_get w n then AFTER else EQUAL)"
proof -
  have any: "list_ex (\<lambda>n. P (count_of a n) (count_of b n)) (map fst a @ map fst b) \<longleftrightarrow> (\<exists>n. P (count_of a n) (count_of b n))"
    if "\<not> P 0 0" for P and a b :: "(string, int) dict"
  proof
    assume "\<exists>n. P (count_of a n) (count_of b n)"
    then obtain n where n: "P (count_of a n) (count_of b n)" by blast
    then have "n \<in> set (map fst a) \<or> n \<in> set (map fst b)" using that by (metis count_of_notin)
    with n show "list_ex (\<lambda>n. P (count_of a n) (count_of b n)) (map fst a @ map fst b)"
      by (simp only: list_ex_iff set_append Un_iff) blast
  qed (auto simp: list_ex_iff)
  show ?thesis
    unfolding vc_compare_def Let_def vc_get_def
    by (simp only: any [of "(<)" "vc_as_dict v" "vc_as_dict w", OF less_irrefl]
        any [of "\<lambda>a b. b < a" "vc_as_dict v" "vc_as_dict w", OF less_irrefl])
qed

lemma vc_before_iff:
  "vc_happens_before v w \<longleftrightarrow> (\<forall>n. vc_get v n \<le> vc_get w n) \<and> (\<exists>n. vc_get v n < vc_get w n)"
  by (simp add: vc_happens_before_def vc_compare_iff) (metis not_less)

lemma vc_dominates_iff: "vc_dominates v w \<longleftrightarrow> (\<forall>n. vc_get w n \<le> vc_get v n)"
  by (simp add: vc_dominates_def vc_compare_iff) (metis not_less)

lemma vc_ext:
  assumes "vc_ok v" "vc_ok w" "\<And>n. vc_get v n = vc_get w n"
  shows "v = w"
proof -
  have "map_of (counters v) = map_of (counters w)"
  proof
    fix n
    have "0 < c" if "map_of (counters u) n = Some c" "vc_ok u" for u c
      using that map_of_SomeD [OF that(1)] by (auto simp: vc_ok_def)
    then show "map_of (counters v) n = map_of (counters w) n"
      using assms(3) [of n] assms(1,2)
      by (cases "map_of (counters v) n"; cases "map_of (counters w) n") (force simp: vc_get_map_of)+
  qed
  then have "set (counters v) = set (counters w)"
    using assms(1,2) by (metis map_of_eqI vc_ok_def map_of_eq_Some_iff subset_antisym subrelI)
  then have "counters v = counters w"
    using assms(1,2) by (metis vc_ok_def distinct_map sorted_distinct_set_unique)
  then show ?thesis by (simp add: vector_clock.expand)
qed


section \<open>Nodes that exchange messages\<close>

text \<open>
  Every node runs both clocks. An event carries its Lamport stamp and its vector stamp, and, for
  the statement only, its causal past: the events that happened before it and itself, each
  named by its node and its number there. A local event or a send adds itself to the past of its
  node; a receive also adds the past that its message carries, which is that of the send.
\<close>

record causal_event =
  ev_node :: string
  ev_index :: int
  ev_lamport :: int
  ev_vector :: vector_clock
  ev_past :: "(string \<times> int) set"

record causal_msg =
  mg_stamp :: int
  mg_vector :: vector_clock
  mg_past :: "(string \<times> int) set"

record causal_sys =
  cs_lamport :: "string \<Rightarrow> lamport"
  cs_vector :: "string \<Rightarrow> vector_clock"
  cs_past :: "string \<Rightarrow> (string \<times> int) set"
  cs_events :: "causal_event list"
  cs_msgs :: "causal_msg list"

definition ev_key :: "causal_event \<Rightarrow> string \<times> int" where
  "ev_key e = (ev_node e, ev_index e)"

definition events_at :: "causal_sys \<Rightarrow> string \<Rightarrow> int" where
  "events_at s n = int (length (filter (\<lambda>e. ev_node e = n) (cs_events s)))"

text \<open>An event of node \<open>n\<close> takes the clocks to \<open>c\<close> and \<open>v\<close>; \<open>past\<close> is what it knows of the past.\<close>

definition causal_record ::
  "causal_sys \<Rightarrow> string \<Rightarrow> lamport \<Rightarrow> vector_clock \<Rightarrow> (string \<times> int) set \<Rightarrow> causal_sys" where
  "causal_record s n c v past =
     (let i = events_at s n + 1; h = insert (n, i) past in
      s\<lparr>cs_lamport := (cs_lamport s)(n := c), cs_vector := (cs_vector s)(n := v), cs_past := (cs_past s)(n := h),
        cs_events := cs_events s @ [\<lparr>ev_node = n, ev_index = i, ev_lamport = lp_time c, ev_vector = v, ev_past = h\<rparr>]\<rparr>)"

inductive causal_step :: "causal_sys \<Rightarrow> causal_sys \<Rightarrow> bool" where
  local_event: "lamport_tick (cs_lamport s n) = (t, c) \<Longrightarrow> vc_tick (cs_vector s n) n = Inr v \<Longrightarrow>
    causal_step s (causal_record s n c v (cs_past s n))"
| send: "lamport_send (cs_lamport s n) = (t, c) \<Longrightarrow> vc_tick (cs_vector s n) n = Inr v \<Longrightarrow>
    s' = causal_record s n c v (cs_past s n) \<Longrightarrow>
    causal_step s (s'\<lparr>cs_msgs := \<lparr>mg_stamp = t, mg_vector = v, mg_past = cs_past s' n\<rparr> # cs_msgs s'\<rparr>)"
| receive: "m \<in> set (cs_msgs s) \<Longrightarrow> lamport_receive (cs_lamport s n) (mg_stamp m) = (Inr t, c) \<Longrightarrow>
    vc_merge (cs_vector s n) (mg_vector m) = Inr u \<Longrightarrow> vc_tick u n = Inr v \<Longrightarrow>
    causal_step s (causal_record s n c v (cs_past s n \<union> mg_past m))"

definition causal_init :: "causal_sys" where
  "causal_init = \<lparr>cs_lamport = (\<lambda>n. \<lparr>lp_node = n, lp_time = 0\<rparr>), cs_vector = (\<lambda>_. vc_empty),
     cs_past = (\<lambda>_. {}), cs_events = [], cs_msgs = []\<rparr>"

section \<open>What every view of the past satisfies\<close>

text \<open>
  A view is a vector clock with the past and the Lamport bound that belong to it: those of a node, of
  a message under way, of an event. The past is read off the vector clock, is closed under the
  pasts of its events, and the bound is above their stamps.
\<close>

definition view_ok :: "causal_sys \<Rightarrow> vector_clock \<Rightarrow> (string \<times> int) set \<Rightarrow> int \<Rightarrow> bool" where
  "view_ok s v h l \<longleftrightarrow> vc_ok v \<and> 0 \<le> l \<and>
     (\<forall>m i. (m, i) \<in> h \<longleftrightarrow> 1 \<le> i \<and> i \<le> vc_get v m) \<and> (\<forall>m. vc_get v m \<le> events_at s m) \<and>
     (\<forall>e \<in> set (cs_events s). ev_key e \<in> h \<longrightarrow> ev_past e \<subseteq> h \<and> ev_lamport e \<le> l)"

lemma view_okD:
  assumes "view_ok s v h l"
  shows "vc_ok v" "0 \<le> l" "(m, i) \<in> h \<longleftrightarrow> 1 \<le> i \<and> i \<le> vc_get v m" "vc_get v m \<le> events_at s m"
    and "e \<in> set (cs_events s) \<Longrightarrow> ev_key e \<in> h \<Longrightarrow> ev_past e \<subseteq> h \<and> ev_lamport e \<le> l"
  using assms unfolding view_ok_def by blast+

definition event_ok :: "causal_sys \<Rightarrow> causal_event \<Rightarrow> bool" where
  "event_ok s e \<longleftrightarrow> view_ok s (ev_vector e) (ev_past e) (ev_lamport e) \<and> 1 \<le> ev_index e \<and>
     vc_get (ev_vector e) (ev_node e) = ev_index e \<and>
     (\<forall>f \<in> set (cs_events s). ev_key f \<in> ev_past e \<longrightarrow> ev_key f \<noteq> ev_key e \<longrightarrow> ev_lamport f < ev_lamport e) \<and>
     (\<forall>f \<in> set (cs_events s). ev_key f = ev_key e \<longrightarrow> f = e)"

definition node_ok :: "causal_sys \<Rightarrow> string \<Rightarrow> bool" where
  "node_ok s n \<longleftrightarrow> view_ok s (cs_vector s n) (cs_past s n) (lp_time (cs_lamport s n)) \<and>
     vc_get (cs_vector s n) n = events_at s n"

definition msg_ok :: "causal_sys \<Rightarrow> causal_msg \<Rightarrow> bool" where
  "msg_ok s m \<longleftrightarrow> view_ok s (mg_vector m) (mg_past m) (mg_stamp m)"

definition causal_ok :: "causal_sys \<Rightarrow> bool" where
  "causal_ok s \<longleftrightarrow> (\<forall>n. node_ok s n) \<and> (\<forall>m \<in> set (cs_msgs s). msg_ok s m) \<and> (\<forall>e \<in> set (cs_events s). event_ok s e)"

lemma view_ok_merge:
  assumes "view_ok s v h l" "view_ok s w k l'" "vc_ok u" "\<And>x. vc_get u x = max (vc_get v x) (vc_get w x)"
  shows "view_ok s u (h \<union> k) (max l l')"
  unfolding view_ok_def
proof (intro conjI allI ballI impI)
  fix e assume e: "e \<in> set (cs_events s)" "ev_key e \<in> h \<union> k"
  then show "ev_past e \<subseteq> h \<union> k" "ev_lamport e \<le> max l l'"
    using view_okD(5) [OF assms(1) e(1)] view_okD(5) [OF assms(2) e(1)] by auto
next
  fix m i show "((m, i) \<in> h \<union> k) = (1 \<le> i \<and> i \<le> vc_get u m)"
    using view_okD(3) [OF assms(1)] view_okD(3) [OF assms(2)] assms(4) by auto
next
  fix m show "vc_get u m \<le> events_at s m"
    using view_okD(4) [OF assms(1)] view_okD(4) [OF assms(2)] assms(4) by auto
qed (use assms(3) view_okD(2) [OF assms(1)] in auto)

text \<open>Older views stay correct when an event is added; the new event is in none of them.\<close>

lemma events_at_add:
  "cs_events s' = cs_events s @ [e] \<Longrightarrow> events_at s' m = events_at s m + (if ev_node e = m then 1 else 0)"
  by (simp add: events_at_def)

lemma view_ok_add:
  assumes "view_ok s v h l" "cs_events s' = cs_events s @ [e]" "ev_index e = events_at s (ev_node e) + 1"
  shows "view_ok s' v h l" and "ev_key e \<notin> h"
proof -
  have "vc_get v (ev_node e) < ev_index e" using view_okD(4) [OF assms(1), of "ev_node e"] assms(3) by simp
  then show new: "ev_key e \<notin> h" using view_okD(3) [OF assms(1)] by (simp add: ev_key_def)
  show "view_ok s' v h l"
    unfolding view_ok_def
  proof (intro conjI allI ballI impI)
    fix f assume f: "f \<in> set (cs_events s')" "ev_key f \<in> h"
    then have "f \<in> set (cs_events s)" using new assms(2) by auto
    then show "ev_past f \<subseteq> h" "ev_lamport f \<le> l" using view_okD(5) [OF assms(1)] f(2) by blast+
  next
    fix m show "vc_get v m \<le> events_at s' m"
      using view_okD(4) [OF assms(1), of m] events_at_add [OF assms(2)] by (smt (verit))
  qed (use view_okD [OF assms(1)] in auto)
qed

lemma view_ok_new:
  assumes "view_ok s v h l" "cs_events s' = cs_events s @ [e]"
    and e: "e = \<lparr>ev_node = n, ev_index = events_at s n + 1, ev_lamport = l', ev_vector = w,
        ev_past = insert (n, events_at s n + 1) h\<rparr>"
    and w: "vc_ok w" "\<And>x. vc_get w x = vc_get v x + (if x = n then 1 else 0)"
    and "vc_get v n = events_at s n" "l < l'"
    and old: "\<And>f. f \<in> set (cs_events s) \<Longrightarrow> ev_index f \<le> events_at s (ev_node f)"
  shows "view_ok s' w (insert (n, events_at s n + 1) h) l'"
  unfolding view_ok_def
proof (intro conjI allI ballI impI)
  let ?h = "insert (n, events_at s n + 1) h"
  fix f assume f: "f \<in> set (cs_events s')" "ev_key f \<in> ?h"
  have *: "f = e \<or> ev_past f \<subseteq> h \<and> ev_lamport f \<le> l"
  proof (rule disjCI)
    assume "\<not> (ev_past f \<subseteq> h \<and> ev_lamport f \<le> l)"
    then have "f = e \<or> f \<in> set (cs_events s) \<and> ev_key f \<notin> h"
      using f(1) assms(2) view_okD(5) [OF assms(1)] by auto
    then show "f = e" using f(2) old [of f] by (auto simp: ev_key_def)
  qed
  then show "ev_past f \<subseteq> ?h" by (auto simp: e)
  show "ev_lamport f \<le> l'" using * assms(7) by (auto simp: e)
next
  fix m i
  show "((m, i) \<in> insert (n, events_at s n + 1) h) = (1 \<le> i \<and> i \<le> vc_get w m)"
    using view_okD(3) [OF assms(1), of m i] w(2) [of m] assms(6) vc_get_nonneg [OF view_okD(1) [OF assms(1)], of n]
    by (auto split: if_splits)
next
  fix m show "vc_get w m \<le> events_at s' m"
    using view_okD(4) [OF assms(1), of m] w(2) [of m] events_at_add [OF assms(2), of m] by (simp add: e)
qed (use w(1) view_okD(2) [OF assms(1)] assms(7) in auto)

lemma event_index_le: "event_ok s e \<Longrightarrow> ev_index e \<le> events_at s (ev_node e)"
  unfolding event_ok_def using view_okD(4) by metis

lemma event_ok_add:
  assumes "event_ok s f" "cs_events s' = cs_events s @ [e]" "ev_index e = events_at s (ev_node e) + 1"
  shows "event_ok s' f"
proof -
  have f: "view_ok s (ev_vector f) (ev_past f) (ev_lamport f)" using assms(1) by (simp add: event_ok_def)
  have "ev_key e \<noteq> ev_key f" using event_index_le [OF assms(1)] assms(3) by (auto simp: ev_key_def)
  then show ?thesis
    using assms(1,2) view_ok_add [OF f assms(2,3)] unfolding event_ok_def by auto
qed

text \<open>The invariant is kept when a node records an event on top of a view it has.\<close>

lemma causal_ok_record:
  assumes ok: "causal_ok s" and base: "view_ok s u past l" "vc_get u n = events_at s n"
    and c: "l < lp_time c" and v: "vc_ok v" "\<And>x. vc_get v x = vc_get u x + (if x = n then 1 else 0)"
  shows "causal_ok (causal_record s n c v past)"
    and "view_ok (causal_record s n c v past) v (cs_past (causal_record s n c v past) n) (lp_time c)"
proof -
  let ?s = "causal_record s n c v past"
  let ?h = "insert (n, events_at s n + 1) past"
  let ?e = "\<lparr>ev_node = n, ev_index = events_at s n + 1, ev_lamport = lp_time c, ev_vector = v, ev_past = ?h\<rparr>"
  have ev: "cs_events ?s = cs_events s @ [?e]" and idx: "ev_index ?e = events_at s (ev_node ?e) + 1"
    by (simp_all add: causal_record_def Let_def)
  have evs: "event_ok s f" if "f \<in> set (cs_events s)" for f using ok that by (simp add: causal_ok_def)
  have new: "view_ok ?s v ?h (lp_time c)"
    by (rule view_ok_new [OF base(1) ev _ v base(2) c]) (simp_all add: evs event_index_le)
  then show "view_ok ?s v (cs_past ?s n) (lp_time c)" by (simp add: causal_record_def Let_def)
  have strict: "ev_lamport f < lp_time c" if "f \<in> set (cs_events s)" "ev_key f \<in> ?h" for f
  proof -
    have "ev_key f \<in> past" using that event_index_le [OF evs [OF that(1)]] by (auto simp: ev_key_def)
    then show ?thesis using view_okD(5) [OF base(1) that(1)] c by auto
  qed
  have other: "f = ?e" if "f \<in> set (cs_events ?s)" "ev_key f = ev_key ?e" for f
    using that event_index_le [OF evs, of f] by (auto simp: ev ev_key_def)
  have cnt: "events_at ?s n = events_at s n + 1" using events_at_add [OF ev, of n] by simp
  have e: "event_ok ?s ?e"
    unfolding event_ok_def
  proof (intro conjI ballI impI)
    fix f assume "f \<in> set (cs_events ?s)" "ev_key f \<in> ev_past ?e" "ev_key f \<noteq> ev_key ?e"
    then show "ev_lamport f < ev_lamport ?e" using strict [of f] by (auto simp: ev)
  next
    show "1 \<le> ev_index ?e" by (simp add: events_at_def)
    show "vc_get (ev_vector ?e) (ev_node ?e) = ev_index ?e" using v(2) [of n] base(2) by simp
  qed (use new other in simp_all)
  show "causal_ok ?s"
    unfolding causal_ok_def
  proof (intro conjI allI ballI)
    fix m
    show "node_ok ?s m"
    proof (cases "m = n")
      case True
      then show ?thesis using new cnt v(2) [of n] base(2) by (simp add: node_ok_def causal_record_def Let_def)
    next
      case False
      have m: "node_ok s m" using ok by (simp add: causal_ok_def)
      with False show ?thesis
        using view_ok_add(1) [OF _ ev idx] events_at_add [OF ev, of m]
        by (simp add: node_ok_def) (simp add: causal_record_def Let_def)
    qed
  next
    fix m assume "m \<in> set (cs_msgs ?s)"
    then have "msg_ok s m" using ok by (simp add: causal_ok_def causal_record_def Let_def)
    then show "msg_ok ?s m" using view_ok_add(1) [OF _ ev idx] by (simp add: msg_ok_def)
  next
    fix f assume "f \<in> set (cs_events ?s)"
    then show "event_ok ?s f" using e event_ok_add [OF evs ev idx] by (auto simp: ev)
  qed
qed


lemma vc_tickD:
  assumes "vc_tick v node = Inr w" "vc_ok v"
  shows "vc_ok w" "vc_get w x = vc_get v x + (if x = node then 1 else 0)"
proof -
  have "node \<noteq> []"
  proof
    assume "node = []"
    then have "([], count_of (vc_as_dict v) node + 1) \<in> set (dict_set node (count_of (vc_as_dict v) node + 1) (vc_as_dict v))"
      using map_of_SomeD [of "dict_set node (count_of (vc_as_dict v) node + 1) (vc_as_dict v)" node] by simp
    with assms(1) show False by (auto simp: vc_tick_def Let_def vc_of_def split: if_splits)
  qed
  with assms(2) obtain w' where "vc_tick v node = Inr w'" "vc_ok w'"
    "\<And>x. vc_get w' x = vc_get v x + (if x = node then 1 else 0)" using vc_tickE [of v node] by blast
  with assms(1) show "vc_ok w" "vc_get w x = vc_get v x + (if x = node then 1 else 0)" by simp_all
qed

lemma vc_mergeD:
  assumes "vc_merge v w = Inr u" "vc_ok v" "vc_ok w"
  shows "vc_ok u" "vc_get u x = max (vc_get v x) (vc_get w x)"
  using vc_mergeE [OF assms(2,3)] assms(1) by (metis sum.inject(2))+

lemma causal_okD:
  assumes "causal_ok s"
  shows "view_ok s (cs_vector s n) (cs_past s n) (lp_time (cs_lamport s n))"
    and "vc_get (cs_vector s n) n = events_at s n"
    and "m \<in> set (cs_msgs s) \<Longrightarrow> view_ok s (mg_vector m) (mg_past m) (mg_stamp m)"
    and "e \<in> set (cs_events s) \<Longrightarrow> event_ok s e"
  using assms unfolding causal_ok_def node_ok_def msg_ok_def by blast+

lemma causal_ok_tick:
  assumes ok: "causal_ok s" and t: "lamport_tick (cs_lamport s n) = (t, c)" and v: "vc_tick (cs_vector s n) n = Inr v"
  shows "causal_ok (causal_record s n c v (cs_past s n))"
    and "view_ok (causal_record s n c v (cs_past s n)) v (cs_past (causal_record s n c v (cs_past s n)) n) t"
proof -
  note N = causal_okD(1,2) [OF ok, of n]
  have c: "lp_time (cs_lamport s n) < lp_time c" "t = lp_time c" using t by (auto simp: lamport_tick_def)
  note R = causal_ok_record [OF ok N c(1) vc_tickD [OF v view_okD(1) [OF N(1)]]]
  show "causal_ok (causal_record s n c v (cs_past s n))" by (rule R(1))
  show "view_ok (causal_record s n c v (cs_past s n)) v (cs_past (causal_record s n c v (cs_past s n)) n) t"
    using R(2) c(2) by simp
qed

lemma view_ok_msgs:
  "view_ok (s\<lparr>cs_msgs := ms\<rparr>) v h l \<longleftrightarrow> view_ok s v h l"
  by (simp add: view_ok_def events_at_def)

lemma causal_ok_step: "causal_step s s' \<Longrightarrow> causal_ok s \<Longrightarrow> causal_ok s'"
proof (induction rule: causal_step.induct)
  case (local_event s n t c v)
  from causal_ok_tick(1) [OF local_event(3,1,2)] show ?case .
next
  case (send s n t c v s')
  note R = causal_ok_tick [OF send(4) send(1) [unfolded lamport_send_def] send(2)]
  have ok: "causal_ok s'" using R(1) send(3) by simp
  have "view_ok s' v (cs_past s' n) t" using R(2) send(3) by simp
  then show ?case
    using ok unfolding causal_ok_def node_ok_def msg_ok_def event_ok_def
    by (auto simp: view_ok_msgs events_at_def)
next
  case (receive m s n t c u v)
  note N = causal_okD(1,2) [OF receive(5), of n] and M = causal_okD(3) [OF receive(5) receive(1)]
  note u = vc_mergeD [OF receive(3) view_okD(1) [OF N(1)] view_okD(1) [OF M]]
  have base: "view_ok s u (cs_past s n \<union> mg_past m) (max (lp_time (cs_lamport s n)) (mg_stamp m))"
    by (rule view_ok_merge [OF N(1) M u])
  have own: "vc_get u n = events_at s n" using u(2) [of n] N(2) view_okD(4) [OF M, of n] by simp
  have "max (lp_time (cs_lamport s n)) (mg_stamp m) < lp_time c"
    using receive(2) by (auto simp: lamport_receive_def Let_def split: if_splits)
  from causal_ok_record(1) [OF receive(5) base own this vc_tickD [OF receive(4) u(1)]] show ?case .
qed

lemma causal_ok_init: "causal_ok causal_init"
  by (auto simp: causal_ok_def causal_init_def node_ok_def view_ok_def events_at_def vc_empty_def vc_ok_def
      vc_get_map_of)

abbreviation causal_reachable :: "causal_sys \<Rightarrow> bool" where
  "causal_reachable \<equiv> causal_step\<^sup>*\<^sup>* causal_init"

lemma causal_reachable_ok: "causal_reachable s \<Longrightarrow> causal_ok s"
  by (induction rule: rtranclp_induct) (simp add: causal_ok_init, metis causal_ok_step)

text \<open>\<open>e\<close> happened before \<open>f\<close>: it is in the causal past of \<open>f\<close> and is another event.\<close>

definition happened_before :: "causal_event \<Rightarrow> causal_event \<Rightarrow> bool" where
  "happened_before e f \<longleftrightarrow> ev_key e \<in> ev_past f \<and> ev_key e \<noteq> ev_key f"

lemma happened_before_lamport:
  assumes "causal_ok s" "e \<in> set (cs_events s)" "f \<in> set (cs_events s)" "happened_before e f"
  shows "ev_lamport e < ev_lamport f"
  using causal_okD(4) [OF assms(1,3)] assms(2,4) by (auto simp: event_ok_def happened_before_def)

lemma happened_before_vector:
  assumes ok: "causal_ok s" and e: "e \<in> set (cs_events s)" and f: "f \<in> set (cs_events s)"
  shows "happened_before e f \<longleftrightarrow> vc_happens_before (ev_vector e) (ev_vector f)"
proof -
  have E: "view_ok s (ev_vector e) (ev_past e) (ev_lamport e)" "vc_get (ev_vector e) (ev_node e) = ev_index e" "1 \<le> ev_index e"
    and F: "view_ok s (ev_vector f) (ev_past f) (ev_lamport f)" "vc_get (ev_vector f) (ev_node f) = ev_index f" "1 \<le> ev_index f"
    and same: "ev_key e = ev_key f \<Longrightarrow> e = f"
    using causal_okD(4) [OF ok e] causal_okD(4) [OF ok f] e f by (auto simp: event_ok_def)
  have past: "ev_key e \<in> ev_past f \<longleftrightarrow> ev_index e \<le> vc_get (ev_vector f) (ev_node e)"
    "ev_key f \<in> ev_past e \<longleftrightarrow> ev_index f \<le> vc_get (ev_vector e) (ev_node f)"
    using view_okD(3) [OF F(1)] view_okD(3) [OF E(1)] E(3) F(3) by (auto simp: ev_key_def)
  show ?thesis
  proof
    assume hb: "happened_before e f"
    then have sub: "ev_past e \<subseteq> ev_past f"
      using view_okD(5) [OF F(1) e] by (simp add: happened_before_def)
    have le: "vc_get (ev_vector e) m \<le> vc_get (ev_vector f) m" for m
    proof (cases "1 \<le> vc_get (ev_vector e) m")
      case True
      then have "(m, vc_get (ev_vector e) m) \<in> ev_past f" using sub view_okD(3) [OF E(1)] by blast
      then show ?thesis using view_okD(3) [OF F(1)] by blast
    next
      case False
      then show ?thesis using vc_get_nonneg [OF view_okD(1) [OF F(1)], of m] by simp
    qed
    have "\<not> happened_before f e"
      using happened_before_lamport [OF ok e f hb] happened_before_lamport [OF ok f e] by auto
    then have "vc_get (ev_vector e) (ev_node f) < vc_get (ev_vector f) (ev_node f)"
      using hb past(2) F(2) by (auto simp: happened_before_def)
    with le show "vc_happens_before (ev_vector e) (ev_vector f)" by (auto simp: vc_before_iff)
  next
    assume b: "vc_happens_before (ev_vector e) (ev_vector f)"
    then have "ev_index e \<le> vc_get (ev_vector f) (ev_node e)" using E(2) by (metis vc_before_iff)
    moreover have "ev_key e \<noteq> ev_key f" using b same by (auto simp: vc_before_iff)
    ultimately show "happened_before e f" using past(1) by (simp add: happened_before_def)
  qed
qed

section \<open>Hybrid clocks\<close>

text \<open>A sequence of stamps: local events and receipts, each with the clock reading of its moment.\<close>

datatype hlc_op = Hlc_now time | Hlc_update time hybrid_timestamp

fun op_time :: "hlc_op \<Rightarrow> time" where
  "op_time (Hlc_now t) = t"
| "op_time (Hlc_update t _) = t"

fun hlc_apply :: "hlc_op \<Rightarrow> hlc \<Rightarrow> hybrid_timestamp option \<times> hlc" where
  "hlc_apply (Hlc_now t) c = (case hlc_now c t of (s, c') \<Rightarrow> (Some s, c'))"
| "hlc_apply (Hlc_update t r) c = (case hlc_update c t r of (Inl e, c') \<Rightarrow> (None, c') | (Inr s, c') \<Rightarrow> (Some s, c'))"

fun hlc_run :: "hlc_op list \<Rightarrow> hlc \<Rightarrow> hybrid_timestamp list \<times> hlc" where
  "hlc_run [] c = ([], c)"
| "hlc_run (op # ops) c =
     (case hlc_apply op c of (s, c') \<Rightarrow> case hlc_run ops c' of (ss, c'') \<Rightarrow>
        ((case s of None \<Rightarrow> ss | Some x \<Rightarrow> x # ss), c''))"

lemma hlc_apply_last:
  assumes "hlc_apply op c = (s, c')"
  shows "hl_max_drift_ms c' = hl_max_drift_ms c"
    and "s = None \<Longrightarrow> c' = c"
    and "s = Some x \<Longrightarrow> hl_last c' = x \<and> hl_last c < x"
    and "physical_ms (hl_last c') \<le>
      max (physical_ms (hl_last c)) (hlc_physical_ms (op_time op) + max 0 (hl_max_drift_ms c))"
  using assms
  by (cases op; auto simp: hlc_now_def hlc_update_def Let_def less_hybrid_timestamp_def split: if_splits)+


lemma hlc_update_after_remote:
  "hlc_update c t r = (Inr x, c') \<Longrightarrow> r < x"
  by (auto simp: hlc_update_def Let_def less_hybrid_timestamp_def split: if_splits)

lemma hlc_run_stamps:
  assumes "hlc_run ops c = (ss, c')" "0 < hl_max_drift_ms c"
    and "\<And>op. op \<in> set ops \<Longrightarrow> hlc_physical_ms (op_time op) \<le> p" "physical_ms (hl_last c) \<le> p + hl_max_drift_ms c"
  shows "sorted_wrt (<) (hl_last c # ss) \<and> (\<forall>x \<in> set ss. physical_ms x \<le> p + hl_max_drift_ms c)"
  using assms
proof (induction ops arbitrary: c ss)
  case (Cons op ops)
  obtain s c1 where a: "hlc_apply op c = (s, c1)" by (metis surj_pair)
  obtain ss1 where r: "hlc_run ops c1 = (ss1, c')"
    and ss: "ss = (case s of None \<Rightarrow> ss1 | Some x \<Rightarrow> x # ss1)"
    using Cons.prems(1) a by (auto split: prod.splits)
  have drift: "hl_max_drift_ms c1 = hl_max_drift_ms c" by (rule hlc_apply_last(1) [OF a])
  have last: "physical_ms (hl_last c1) \<le> p + hl_max_drift_ms c"
    using hlc_apply_last(4) [OF a] Cons.prems(2,4) Cons.prems(3) [of op] by simp
  have IH: "sorted_wrt (<) (hl_last c1 # ss1) \<and> (\<forall>x \<in> set ss1. physical_ms x \<le> p + hl_max_drift_ms c)"
    using Cons.IH [OF r] drift Cons.prems(2,3) last by simp
  show ?case
  proof (cases s)
    case None
    then show ?thesis using IH hlc_apply_last(2) [OF a] ss by simp
  next
    case (Some x)
    then have "hl_last c1 = x" "hl_last c < x" using hlc_apply_last(3) [OF a Some] by simp_all
    then show ?thesis using IH ss Some last by auto
  qed
qed simp

section \<open>Properties\<close>

text \<open>C25. Vector clocks decide causality: in every run of nodes that tick, send and receive, comparing
  the vector stamps of two events answers exactly whether they are the same event, which of them
  happened before the other, or that neither could know of the other.\<close>

theorem vector_clock_causality:
  assumes "causal_reachable s" "e \<in> set (cs_events s)" "f \<in> set (cs_events s)"
  shows "vc_compare (ev_vector e) (ev_vector f) =
    (if e = f then EQUAL else if happened_before e f then BEFORE else if happened_before f e then AFTER else CONCURRENT)"
proof -
  have ok: "causal_ok s" by (rule causal_reachable_ok [OF assms(1)])
  note ef = happened_before_vector [OF ok assms(2,3)] and fe = happened_before_vector [OF ok assms(3,2)]
  have before: "happened_before e f \<longleftrightarrow> vc_compare (ev_vector e) (ev_vector f) = BEFORE"
    using ef by (simp add: vc_happens_before_def)
  have after: "happened_before f e \<longleftrightarrow> vc_compare (ev_vector e) (ev_vector f) = AFTER"
    using fe by (auto simp: vc_happens_before_def vc_compare_iff split: if_splits)
  have eq: "e = f" if "vc_compare (ev_vector e) (ev_vector f) = EQUAL"
  proof -
    have "vc_get (ev_vector e) m = vc_get (ev_vector f) m" for m
      using that by (simp add: vc_compare_iff split: if_splits) (meson antisym not_less)
    then have "vc_get (ev_vector f) (ev_node e) = ev_index e"
      using causal_okD(4) [OF ok assms(2)] by (simp add: event_ok_def)
    then have "ev_key e \<in> ev_past f"
    proof -
      have "view_ok s (ev_vector f) (ev_past f) (ev_lamport f)" "1 \<le> ev_index e"
        using causal_okD(4) [OF ok assms(3)] causal_okD(4) [OF ok assms(2)] by (auto simp: event_ok_def)
      with \<open>vc_get (ev_vector f) (ev_node e) = ev_index e\<close> show ?thesis by (simp add: ev_key_def view_okD(3))
    qed
    moreover have "\<not> happened_before e f" using before that by simp
    ultimately have "ev_key e = ev_key f" by (simp add: happened_before_def)
    then show ?thesis using causal_okD(4) [OF ok assms(3)] assms(2) by (simp add: event_ok_def)
  qed
  show ?thesis
  proof (cases "e = f")
    case True
    then show ?thesis by (simp add: vc_compare_iff)
  next
    case False
    with eq before after show ?thesis by (cases "vc_compare (ev_vector e) (ev_vector f)") auto
  qed
qed

text \<open>Lamport stamps respect causality: an event that happened before another has the smaller
  stamp, so sorting by stamp and node lists it first.\<close>

theorem lamport_respects_causality:
  assumes "causal_reachable s" "e \<in> set (cs_events s)" "f \<in> set (cs_events s)" "happened_before e f"
  shows "ev_lamport e < ev_lamport f \<and>
    lamport_total_order [(ev_lamport f, ev_node f), (ev_lamport e, ev_node e)] =
      [(ev_lamport e, ev_node e), (ev_lamport f, ev_node f)]"
  using happened_before_lamport [OF causal_reachable_ok [OF assms(1)] assms(2-4)]
  by (simp add: lamport_total_order_def less_eq_prod_def)

text \<open>A hybrid clock never stamps twice alike nor backwards, whatever its physical clock and the
  remote stamps do, and is never further ahead of the largest physical reading it had than the
  drift it tolerates; the stamp of a receipt is above the stamp received.\<close>

theorem hlc_monotone_bounded:
  assumes "hlc_new drift = Inr c" "hlc_run ops c = (ss, c')"
    and "\<And>op. op \<in> set ops \<Longrightarrow> hlc_physical_ms (op_time op) \<le> p" "0 \<le> p"
  shows "sorted_wrt (<) ss \<and> (\<forall>x \<in> set ss. physical_ms x \<le> p + drift) \<and>
    (\<forall>t r x c''. hlc_update c' t r = (Inr x, c'') \<longrightarrow> r < x)"
proof -
  have c: "0 < drift" "c = \<lparr>hl_max_drift_ms = drift, hl_last = HybridTimestamp 0 0\<rparr>"
    using assms(1) by (auto simp: hlc_new_def split: if_splits)
  have "sorted_wrt (<) (hl_last c # ss) \<and> (\<forall>x \<in> set ss. physical_ms x \<le> p + hl_max_drift_ms c)"
    by (rule hlc_run_stamps [OF assms(2) _ assms(3)]) (use c assms(4) in auto)
  then show ?thesis using c(2) hlc_update_after_remote by auto
qed

text \<open>
  The versioned register keeps every sibling its new clock does not cover. It says that nothing is
  discarded, but two clients that write blindly through the same node get the same clock, and
  the second value replaces the first.
\<close>

lemma vs_put_keeps:
  assumes "vs_put s key v node context = (Inr w, s')" "x \<in> set (vs_get s key)"
  shows "x \<in> set (vs_get s' key) \<or> (\<forall>n. vc_get (vn_clock x) n \<le> vc_get (vn_clock w) n)"
  using assms by (auto simp: vs_put_def vs_get_def Let_def vc_dominates_iff split: if_splits sum.splits)

lemma vs_put_same_node_discards:
  "let s1 = snd (vs_put [] ''cart'' ''socks'' ''A'' None); s2 = snd (vs_put s1 ''cart'' ''shoes'' ''A'' None)
   in map vn_value (vs_get s1 ''cart'') = [''socks''] \<and> map vn_value (vs_get s2 ''cart'') = [''shoes'']"
  by code_simp

lemma vs_put_two_nodes_siblings:
  "map vn_value (vs_get (snd (vs_put (snd (vs_put [] ''cart'' ''socks'' ''A'' None)) ''cart'' ''shoes'' ''B'' None)) ''cart'')
     = [''socks'', ''shoes'']"
  by code_simp

lemma lww_put_keeps_newest:
  assumes "dict_get (lw_values s) key = Some (t, v)"
  shows "dict_get (lw_values (snd (lww_put s key w t'))) key = Some (if t' \<le> t then (t, v) else (t', w))"
    and "fst (lww_put s key w t') \<longleftrightarrow> t < t'"
  using assms by (auto simp: lww_put_def)


section \<open>A message from A to B\<close>

definition demo_A :: vector_clock where "demo_A = VectorClock [(''A'', 1)]"
definition demo_B :: vector_clock where "demo_B = VectorClock [(''A'', 1), (''B'', 1)]"

definition demo_msg :: causal_msg where
  "demo_msg = \<lparr>mg_stamp = 1, mg_vector = demo_A, mg_past = {(''A'', 1)}\<rparr>"

definition demo_sent :: causal_sys where
  "demo_sent = (let s = causal_record causal_init ''A'' \<lparr>lp_node = ''A'', lp_time = 1\<rparr> demo_A {}
     in s\<lparr>cs_msgs := \<lparr>mg_stamp = 1, mg_vector = demo_A, mg_past = cs_past s ''A''\<rparr> # cs_msgs s\<rparr>)"

definition demo_received :: causal_sys where
  "demo_received = causal_record demo_sent ''B'' \<lparr>lp_node = ''B'', lp_time = 2\<rparr> demo_B {(''A'', 1)}"

definition demo_a1 :: causal_event where
  "demo_a1 = \<lparr>ev_node = ''A'', ev_index = 1, ev_lamport = 1, ev_vector = demo_A, ev_past = {(''A'', 1)}\<rparr>"

definition demo_b1 :: causal_event where
  "demo_b1 = \<lparr>ev_node = ''B'', ev_index = 1, ev_lamport = 2, ev_vector = demo_B, ev_past = {(''B'', 1), (''A'', 1)}\<rparr>"

lemma demo_ticks:
  "vc_tick vc_empty ''A'' = Inr demo_A" "vc_merge vc_empty demo_A = Inr demo_A" "vc_tick demo_A ''B'' = Inr demo_B"
  by code_simp+

lemma demo_sent_fields:
  "cs_events demo_sent = [demo_a1]" "cs_msgs demo_sent = [demo_msg]" "cs_vector demo_sent ''B'' = vc_empty"
  "cs_lamport demo_sent ''B'' = \<lparr>lp_node = ''B'', lp_time = 0\<rparr>" "cs_past demo_sent ''B'' = {}"
  by (simp_all add: demo_sent_def causal_record_def Let_def causal_init_def demo_a1_def demo_msg_def events_at_def)

lemma demo_received_events: "cs_events demo_received = [demo_a1, demo_b1]"
  by (simp add: demo_received_def causal_record_def Let_def demo_sent_fields events_at_def demo_a1_def demo_b1_def)

lemma demo_causal_run: "causal_reachable demo_received"
proof -
  have "causal_step causal_init demo_sent"
    unfolding demo_sent_def Let_def
    by (rule causal_step.send) (simp_all add: causal_init_def lamport_send_def lamport_tick_def demo_ticks)
  moreover have "causal_step demo_sent demo_received"
    using causal_step.receive [of demo_msg demo_sent "''B''" 2 "\<lparr>lp_node = ''B'', lp_time = 2\<rparr>" demo_A demo_B]
    by (simp add: demo_sent_fields demo_received_def demo_msg_def lamport_receive_def demo_ticks)
  ultimately show ?thesis by (meson rtranclp.rtrancl_into_rtrancl rtranclp.rtrancl_refl)
qed

theorem vector_clock_causality_witness: "vc_compare demo_A demo_B = BEFORE"
  using vector_clock_causality [OF demo_causal_run, of demo_a1 demo_b1]
  by (simp add: demo_received_events happened_before_def ev_key_def demo_a1_def demo_b1_def)

theorem lamport_respects_causality_witness:
  "lamport_total_order [(2, ''B''), (1, ''A'')] = [(1, ''A''), (2, ''B'')]"
  using lamport_respects_causality [OF demo_causal_run, of demo_a1 demo_b1]
  by (simp add: demo_received_events happened_before_def ev_key_def demo_a1_def demo_b1_def)

theorem hlc_monotone_bounded_witness:
  "sorted_wrt (<) [HybridTimestamp 500000 0, HybridTimestamp 500100 4, HybridTimestamp 500100 5]"
proof -
  let ?c = "\<lparr>hl_max_drift_ms = 250, hl_last = HybridTimestamp 0 0\<rparr>"
  let ?ops = "[Hlc_now 500, Hlc_update 500 (HybridTimestamp 500100 3), Hlc_now (1000001/2000)]"
  have new: "hlc_new 250 = Inr ?c" by (simp add: hlc_new_def)
  have ms: "hlc_physical_ms 500 = 500000" "hlc_physical_ms (1000001/2000) = 500000" by code_simp+
  have run: "hlc_run ?ops ?c = ([HybridTimestamp 500000 0, HybridTimestamp 500100 4, HybridTimestamp 500100 5],
     \<lparr>hl_max_drift_ms = 250, hl_last = HybridTimestamp 500100 5\<rparr>)"
    by (simp add: ms hlc_now_def hlc_update_def Let_def)
  have "sorted_wrt (<) [HybridTimestamp 500000 0, HybridTimestamp 500100 4, HybridTimestamp 500100 5] \<and>
    (\<forall>x \<in> set [HybridTimestamp 500000 0, HybridTimestamp 500100 4, HybridTimestamp 500100 5]. physical_ms x \<le> 500000 + 250) \<and>
    (\<forall>t r x c''. hlc_update \<lparr>hl_max_drift_ms = 250, hl_last = HybridTimestamp 500100 5\<rparr> t r = (Inr x, c'') \<longrightarrow> r < x)"
    by (rule hlc_monotone_bounded [OF new run]) (auto simp: ms)
  then show ?thesis by blast
qed

end
