(* ===== verification/Matching_Engine.thy ===== *)
theory Matching_Engine
  imports Common "HOL-Library.Product_Lexorder"
begin

text \<open>
  The limit order book of \<^verbatim>\<open>code/hld/matching_engine.py\<close>: \<^verbatim>\<open>OrderBook\<close> with its price levels and
  lazy cancellation, the matching loop, \<^verbatim>\<open>MatchingEngine\<close> with its risk checks and counters,
  \<^verbatim>\<open>Sequencer\<close> and \<^verbatim>\<open>replay\<close>.

  Orders are mutable objects that the book's queues, its index of resting orders and the engine's
  index of all orders share. The model keeps them in an explicit store from addresses to orders,
  and everything else holds addresses. The heap of prices, of which the code reads the minimum and
  pops it, is the sorted list of its elements; bids are negated in it as in the code.
\<close>

section \<open>Models\<close>

datatype side = BUY | SELL

definition opposite :: "side \<Rightarrow> side" where
  "opposite s = (if s = BUY then SELL else BUY)"

datatype time_in_force = GTC | IOC

datatype fill_status = ST_NEW | PARTIALLY_FILLED | FILLED | CANCELLED | REJECTED

record new_order =
  no_id :: string
  no_account :: string
  no_side :: side
  no_quantity :: int
  no_price :: "int option"
  no_tif :: time_in_force

definition new_order_check :: "new_order \<Rightarrow> new_order result" where
  "new_order_check c =
     (if no_quantity c \<le> 0 then Inl ValidationError
      else if (case no_price c of None \<Rightarrow> False | Some p \<Rightarrow> p \<le> 0) then Inl ValidationError
      else Inr c)"

datatype command = NewOrder new_order | CancelOrder string

datatype reject_reason = QuantityCap int int | TooManyOpen | OutsideCollar int int

record order =
  or_id :: string
  or_account :: string
  or_side :: side
  or_quantity :: int
  or_price :: "int option"
  or_tif :: time_in_force
  or_sequence :: int
  or_remaining :: int
  or_status :: fill_status
  or_reject_reason :: "reject_reason option"

definition filled_quantity :: "order \<Rightarrow> int" where
  "filled_quantity r = or_quantity r - or_remaining r"

record trade =
  tr_id :: string
  tr_symbol :: string
  tr_price :: int
  tr_quantity :: int
  tr_buy :: string
  tr_sell :: string
  tr_aggressor :: side
  tr_sequence :: int

definition is_live :: "order \<Rightarrow> bool" where
  "is_live r \<longleftrightarrow> or_remaining r > 0 \<and> or_status r \<noteq> CANCELLED"

section \<open>The book\<close>

type_synonym addr = nat
type_synonym order_store = "addr \<Rightarrow> order"

record book =
  bk_bids :: "int list"
  bk_asks :: "int list"
  bk_levels :: "(side \<times> int, addr list) dict"
  bk_resting :: "(string, addr) dict"

definition book_new :: book where
  "book_new = \<lparr>bk_bids = [], bk_asks = [], bk_levels = [], bk_resting = []\<rparr>"

definition bk_heap :: "book \<Rightarrow> side \<Rightarrow> int list" where
  "bk_heap b s = (if s = BUY then bk_bids b else bk_asks b)"

definition bk_set_heap :: "side \<Rightarrow> int list \<Rightarrow> book \<Rightarrow> book" where
  "bk_set_heap s h b = (if s = BUY then b\<lparr>bk_bids := h\<rparr> else b\<lparr>bk_asks := h\<rparr>)"

definition heap_price :: "side \<Rightarrow> int \<Rightarrow> int" where
  "heap_price s x = (if s = BUY then - x else x)"

definition level_live :: "order_store \<Rightarrow> addr list \<Rightarrow> bool" where
  "level_live os q \<longleftrightarrow> (\<exists>a \<in> set q. is_live (os a))"

text \<open>
  The loop of \<^verbatim>\<open>best\<close>: it looks at the smallest entry and pops it when its level is gone or dead.
  The recursion is on the heap.
\<close>

fun best_loop ::
  "order_store \<Rightarrow> side \<Rightarrow> int list \<Rightarrow> (side \<times> int, addr list) dict \<Rightarrow>
   int option \<times> int list \<times> (side \<times> int, addr list) dict" where
  "best_loop os s [] levels = (None, [], levels)"
| "best_loop os s (x # xs) levels =
     (let price = heap_price s x in
      if (case dict_get levels (s, price) of None \<Rightarrow> False | Some q \<Rightarrow> level_live os q)
      then (Some price, x # xs, levels)
      else best_loop os s xs (dict_del (s, price) levels))"

definition book_best :: "order_store \<Rightarrow> book \<Rightarrow> side \<Rightarrow> int option \<times> book" where
  "book_best os b s =
     (case best_loop os s (bk_heap b s) (bk_levels b) of
        (price, h, levels) \<Rightarrow> (price, (bk_set_heap s h b)\<lparr>bk_levels := levels\<rparr>))"

text \<open>
  \<^verbatim>\<open>depth\<close> sorts the rows by price with a stable sort, descending for bids; \<^verbatim>\<open>reverse=True\<close> keeps
  the order of equal rows, as sorting by the negated price does.
\<close>

definition book_depth :: "order_store \<Rightarrow> book \<Rightarrow> side \<Rightarrow> nat \<Rightarrow> (int \<times> int) list" where
  "book_depth os b s n =
     take n (sort_key (\<lambda>row. if s = BUY then - fst row else fst row)
       (map (\<lambda>((_, price), q). (price, sum_list (map (\<lambda>a. or_remaining (os a)) (filter (\<lambda>a. is_live (os a)) q))))
         (filter (\<lambda>((s', _), q). s' = s \<and> level_live os q) (bk_levels b))))"

definition book_rest :: "order_store \<Rightarrow> book \<Rightarrow> addr \<Rightarrow> book result" where
  "book_rest os b a =
     (case or_price (os a) of
        None \<Rightarrow> Inl InvalidStateError
      | Some price \<Rightarrow>
          let s = or_side (os a); key = (s, price);
              b' = (case dict_get (bk_levels b) key of
                      None \<Rightarrow> bk_set_heap s (insort (heap_price s price) (bk_heap b s))
                                (b\<lparr>bk_levels := dict_set key [a] (bk_levels b)\<rparr>)
                    | Some q \<Rightarrow> b\<lparr>bk_levels := dict_set key (q @ [a]) (bk_levels b)\<rparr>)
          in Inr (b'\<lparr>bk_resting := dict_set (or_id (os a)) a (bk_resting b')\<rparr>))"

definition book_cancel :: "order_store \<Rightarrow> book \<Rightarrow> string \<Rightarrow> addr result \<times> order_store \<times> book" where
  "book_cancel os b i =
     (case dict_get (bk_resting b) i of
        None \<Rightarrow> (Inl NotFoundError, os, b)
      | Some a \<Rightarrow> (Inr a, os(a := (os a)\<lparr>or_status := CANCELLED\<rparr>),
                   b\<lparr>bk_resting := dict_del i (bk_resting b)\<rparr>))"

definition crosses :: "order \<Rightarrow> int \<Rightarrow> bool" where
  "crosses taker best_price =
     (case or_price taker of None \<Rightarrow> True
      | Some p \<Rightarrow> if or_side taker = BUY then p \<ge> best_price else p \<le> best_price)"

section \<open>The matching loop\<close>

definition make_trade :: "string \<Rightarrow> order \<Rightarrow> order \<Rightarrow> int \<Rightarrow> int \<Rightarrow> nat \<Rightarrow> trade" where
  "make_trade symbol taker maker price quantity n =
     \<lparr>tr_id = symbol @ ''-'' @ str_of_int (or_sequence taker) @ ''-'' @ str_of_nat (n + 1), tr_symbol = symbol,
      tr_price = price, tr_quantity = quantity,
      tr_buy = (if or_side taker = BUY then or_id taker else or_id maker),
      tr_sell = (if or_side taker = BUY then or_id maker else or_id taker),
      tr_aggressor = or_side taker, tr_sequence = or_sequence taker\<rparr>"

text \<open>One execution between the taker \<open>t\<close> and the maker \<open>a\<close>.\<close>

definition fill_step ::
  "string \<Rightarrow> int \<Rightarrow> addr \<Rightarrow> addr \<Rightarrow> order_store \<Rightarrow> trade list \<Rightarrow> order_store \<times> trade list" where
  "fill_step symbol price t a os trades =
     (let quantity = min (or_remaining (os t)) (or_remaining (os a));
          taker = (os t)\<lparr>or_remaining := or_remaining (os t) - quantity\<rparr>;
          os1 = os(t := taker);
          maker = (os1 a)\<lparr>or_remaining := or_remaining (os1 a) - quantity\<rparr>;
          status = (if or_remaining maker = 0 then FILLED else PARTIALLY_FILLED)
      in (os1(a := maker\<lparr>or_status := status\<rparr>),
          trades @ [make_trade symbol taker maker price quantity (length trades)]))"

text \<open>
  The inner loop over the queue of one level. It pops dead and exhausted orders; a round either
  shortens the queue or exhausts the taker, so the recursion is on the queue.
\<close>

fun fill_level ::
  "string \<Rightarrow> int \<Rightarrow> addr \<Rightarrow> addr list \<Rightarrow> order_store \<Rightarrow> (string, addr) dict \<Rightarrow> trade list \<Rightarrow>
   addr list \<times> order_store \<times> (string, addr) dict \<times> trade list" where
  "fill_level symbol price t [] os resting trades = ([], os, resting, trades)"
| "fill_level symbol price t (a # q) os resting trades =
     (if or_remaining (os t) \<le> 0 then (a # q, os, resting, trades)
      else if \<not> is_live (os a) then fill_level symbol price t q os resting trades
      else case fill_step symbol price t a os trades of
             (os', trades') \<Rightarrow>
               if or_remaining (os' a) = 0
               then fill_level symbol price t q os' (dict_del (or_id (os' a)) resting) trades'
               else (a # q, os', resting, trades'))"

text \<open>
  The outer loop. \<^verbatim>\<open>match\<close> works on the book in place; the rounds are bounded by \<open>fuel\<close>, and a level
  is left only with the taker or the level exhausted, so the number of levels is enough.
\<close>

fun match_loop ::
  "nat \<Rightarrow> string \<Rightarrow> addr \<Rightarrow> order_store \<Rightarrow> book \<Rightarrow> trade list \<Rightarrow> (order_store \<times> book \<times> trade list) option" where
  "match_loop 0 symbol t os b trades = None"
| "match_loop (Suc fuel) symbol t os b trades =
     (if or_remaining (os t) \<le> 0 then Some (os, b, trades)
      else case book_best os b (opposite (or_side (os t))) of
             (None, b1) \<Rightarrow> Some (os, b1, trades)
           | (Some price, b1) \<Rightarrow>
               if \<not> crosses (os t) price then Some (os, b1, trades)
               else (case dict_get (bk_levels b1) (opposite (or_side (os t)), price) of
                       None \<Rightarrow> None
                     | Some q \<Rightarrow>
                         (case fill_level symbol price t q os (bk_resting b1) trades of
                            (q', os', resting', trades') \<Rightarrow>
                              match_loop fuel symbol t os'
                                (b1\<lparr>bk_levels := dict_set (opposite (or_side (os t)), price) q' (bk_levels b1),
                                    bk_resting := resting'\<rparr>) trades')))"

definition book_match ::
  "string \<Rightarrow> addr \<Rightarrow> order_store \<Rightarrow> book \<Rightarrow> (order_store \<times> book \<times> trade list) option" where
  "book_match symbol t os b =
     match_loop (length (bk_heap b (opposite (or_side (os t)))) + 2) symbol t os b []"


section \<open>The sequencer and the engine\<close>

record risk_limits =
  rk_max_order_quantity :: int
  rk_price_band_bps :: int
  rk_max_open_orders_per_account :: int

definition default_limits :: risk_limits where
  "default_limits = \<lparr>rk_max_order_quantity = 10000, rk_price_band_bps = 1000, rk_max_open_orders_per_account = 100\<rparr>"

type_synonym journal = "(int \<times> command) list"

definition seq_submit :: "journal \<Rightarrow> command \<Rightarrow> int \<times> journal" where
  "seq_submit j c = (let sequence = int (length j) + 1 in (sequence, j @ [(sequence, c)]))"

record engine =
  en_symbol :: string
  en_limits :: risk_limits
  en_store :: order_store
  en_next :: addr
  en_book :: book
  en_trades :: "trade list"
  en_last_price :: "int option"
  en_orders :: "(string, addr) dict"
  en_open :: "(string, int) dict"

definition no_order :: order where
  "no_order = \<lparr>or_id = [], or_account = [], or_side = BUY, or_quantity = 0, or_price = None, or_tif = GTC,
     or_sequence = 0, or_remaining = 0, or_status = REJECTED, or_reject_reason = None\<rparr>"

definition engine_new :: "string \<Rightarrow> risk_limits option \<Rightarrow> engine" where
  "engine_new symbol limits =
     \<lparr>en_symbol = symbol, en_limits = (case limits of None \<Rightarrow> default_limits | Some l \<Rightarrow> l),
      en_store = (\<lambda>_. no_order), en_next = 0, en_book = book_new, en_trades = [], en_last_price = None,
      en_orders = [], en_open = []\<rparr>"

definition open_count :: "engine \<Rightarrow> string \<Rightarrow> int" where
  "open_count e account = (case dict_get (en_open e) account of None \<Rightarrow> 0 | Some n \<Rightarrow> n)"

definition risk_reason :: "engine \<Rightarrow> order \<Rightarrow> reject_reason option" where
  "risk_reason e r =
     (if or_quantity r > rk_max_order_quantity (en_limits e)
      then Some (QuantityCap (or_quantity r) (rk_max_order_quantity (en_limits e)))
      else if open_count e (or_account r) \<ge> rk_max_open_orders_per_account (en_limits e) then Some TooManyOpen
      else case (or_price r, en_last_price e) of
             (Some price, Some prev) \<Rightarrow>
               (let band = prev * rk_price_band_bps (en_limits e) div 10000 in
                if \<not> (prev - band \<le> price \<and> price \<le> prev + band) then Some (OutsideCollar price prev) else None)
           | _ \<Rightarrow> None)"

fun release_filled_makers :: "trade list \<Rightarrow> engine \<Rightarrow> unit result \<times> engine" where
  "release_filled_makers [] e = (Inr (), e)"
| "release_filled_makers (tr # trs) e =
     (case dict_get (en_orders e) (if tr_aggressor tr = BUY then tr_sell tr else tr_buy tr) of
        None \<Rightarrow> (Inl KeyError, e)
      | Some a \<Rightarrow>
          if or_status (en_store e a) = FILLED
          then (case dict_get (en_open e) (or_account (en_store e a)) of
                  None \<Rightarrow> (Inl KeyError, e)
                | Some n \<Rightarrow> release_filled_makers trs (e\<lparr>en_open := dict_set (or_account (en_store e a)) (n - 1) (en_open e)\<rparr>))
          else release_filled_makers trs e)"

definition set_order :: "addr \<Rightarrow> (order \<Rightarrow> order) \<Rightarrow> engine \<Rightarrow> engine" where
  "set_order a f e = e\<lparr>en_store := (en_store e)(a := f (en_store e a))\<rparr>"

text \<open>What happens to the order after matching: filled, dropped, or left to rest.\<close>

definition settle_taker :: "addr \<Rightarrow> trade list \<Rightarrow> engine \<Rightarrow> unit result \<times> engine" where
  "settle_taker t trades e =
     (let r = en_store e t in
      if or_remaining r = 0 then (Inr (), set_order t (\<lambda>r. r\<lparr>or_status := FILLED\<rparr>) e)
      else if or_price r = None \<or> or_tif r = IOC then (Inr (), set_order t (\<lambda>r. r\<lparr>or_status := CANCELLED\<rparr>) e)
      else let e1 = set_order t (\<lambda>r. r\<lparr>or_status := if trades \<noteq> [] then PARTIALLY_FILLED else ST_NEW\<rparr>) e in
           (case book_rest (en_store e1) (en_book e1) t of
              Inl x \<Rightarrow> (Inl x, e1)
            | Inr b \<Rightarrow> (Inr (), e1\<lparr>en_book := b,
                en_open := dict_set (or_account r) (open_count e1 (or_account r) + 1) (en_open e1)\<rparr>)))"

definition engine_cancel :: "engine \<Rightarrow> string \<Rightarrow> trade list result \<times> engine" where
  "engine_cancel e i =
     (case book_cancel (en_store e) (en_book e) i of
        (Inl x, os, b) \<Rightarrow> (Inl x, e)
      | (Inr a, os, b) \<Rightarrow>
          let e' = e\<lparr>en_store := os, en_book := b\<rparr> in
          (case dict_get (en_open e) (or_account (os a)) of
             None \<Rightarrow> (Inl KeyError, e')
           | Some n \<Rightarrow> (Inr [], e'\<lparr>en_open := dict_set (or_account (os a)) (n - 1) (en_open e)\<rparr>)))"

definition accept_order :: "engine \<Rightarrow> int \<Rightarrow> new_order \<Rightarrow> addr \<times> engine" where
  "accept_order e sequence c =
     (let t = en_next e;
          r = \<lparr>or_id = no_id c, or_account = no_account c, or_side = no_side c, or_quantity = no_quantity c,
               or_price = no_price c, or_tif = no_tif c, or_sequence = sequence, or_remaining = no_quantity c,
               or_status = ST_NEW, or_reject_reason = None\<rparr>
      in (t, e\<lparr>en_store := (en_store e)(t := r), en_next := t + 1, en_orders := dict_set (no_id c) t (en_orders e)\<rparr>))"

definition engine_apply :: "engine \<Rightarrow> int \<Rightarrow> command \<Rightarrow> (trade list result \<times> engine) option" where
  "engine_apply e sequence command =
     (case command of
        CancelOrder i \<Rightarrow> Some (engine_cancel e i)
      | NewOrder c \<Rightarrow>
          (case accept_order e sequence c of
             (t, e1) \<Rightarrow>
               (case risk_reason e1 (en_store e1 t) of
                  Some reason \<Rightarrow>
                    Some (Inr [], set_order t (\<lambda>r. r\<lparr>or_status := REJECTED, or_reject_reason := Some reason\<rparr>) e1)
                | None \<Rightarrow>
                    (case book_match (en_symbol e1) t (en_store e1) (en_book e1) of
                       None \<Rightarrow> None
                     | Some (os, b, trades) \<Rightarrow>
                         let e2 = e1\<lparr>en_store := os, en_book := b, en_trades := en_trades e1 @ trades\<rparr> in
                         (case release_filled_makers trades e2 of
                            (Inl x, e3) \<Rightarrow> Some (Inl x, e3)
                          | (Inr _, e3) \<Rightarrow>
                              let e4 = (if trades \<noteq> [] then e3\<lparr>en_last_price := Some (tr_price (last trades))\<rparr> else e3) in
                              (case settle_taker t trades e4 of
                                 (Inl x, e5) \<Rightarrow> Some (Inl x, e5)
                               | (Inr _, e5) \<Rightarrow> Some (Inr trades, e5)))))))"

definition engine_order :: "engine \<Rightarrow> string \<Rightarrow> order result" where
  "engine_order e i = (case dict_get (en_orders e) i of None \<Rightarrow> Inl NotFoundError | Some a \<Rightarrow> Inr (en_store e a))"

text \<open>\<^verbatim>\<open>replay\<close> stops at the first command whose \<^verbatim>\<open>apply\<close> raises.\<close>

fun replay_loop :: "journal \<Rightarrow> engine \<Rightarrow> engine result option" where
  "replay_loop [] e = Some (Inr e)"
| "replay_loop ((sequence, c) # j) e =
     (case engine_apply e sequence c of
        None \<Rightarrow> None
      | Some (Inl x, e') \<Rightarrow> Some (Inl x)
      | Some (Inr _, e') \<Rightarrow> replay_loop j e')"

definition engine_replay :: "string \<Rightarrow> journal \<Rightarrow> risk_limits option \<Rightarrow> engine result option" where
  "engine_replay symbol j limits = replay_loop j (engine_new symbol limits)"

text \<open>\<^verbatim>\<open>_DemoGateway.send\<close>: the command is journalled before it is applied.\<close>

definition gateway_send :: "journal \<Rightarrow> engine \<Rightarrow> command \<Rightarrow> (trade list result \<times> journal \<times> engine) option" where
  "gateway_send j e c =
     (case seq_submit j c of
        (sequence, j') \<Rightarrow> (case engine_apply e sequence c of None \<Rightarrow> None | Some (res, e') \<Rightarrow> Some (res, j', e')))"


section \<open>The reference: a sorted list of open orders\<close>

text \<open>
  Matching as a rule book states it: the open orders of the other side in priority order; the taker
  trades with the first of them while it has units left and their price is acceptable to it.
\<close>

fun greedy :: "string \<Rightarrow> addr \<Rightarrow> addr list \<Rightarrow> order_store \<Rightarrow> trade list \<Rightarrow> order_store \<times> trade list" where
  "greedy symbol t [] os trades = (os, trades)"
| "greedy symbol t (a # makers) os trades =
     (case or_price (os a) of
        None \<Rightarrow> (os, trades)
      | Some price \<Rightarrow>
          if or_remaining (os t) \<le> 0 \<or> \<not> crosses (os t) price then (os, trades)
          else case fill_step symbol price t a os trades of
                 (os', trades') \<Rightarrow> greedy symbol t makers os' trades')"

abbreviation live_at :: "order_store \<Rightarrow> addr \<Rightarrow> bool" where
  "live_at os \<equiv> \<lambda>a. is_live (os a)"

text \<open>The fields matching never touches.\<close>

definition or_static :: "order \<Rightarrow> string \<times> string \<times> side \<times> int \<times> int option \<times> time_in_force \<times> int" where
  "or_static r = (or_id r, or_account r, or_side r, or_quantity r, or_price r, or_tif r, or_sequence r)"

lemma or_staticD:
  assumes "or_static r = or_static r'"
  shows "or_id r = or_id r'" "or_account r = or_account r'" "or_side r = or_side r'"
    "or_quantity r = or_quantity r'" "or_price r = or_price r'" "or_tif r = or_tif r'"
    "or_sequence r = or_sequence r'"
  using assms by (simp_all add: or_static_def)

lemma crosses_static: "or_static r = or_static r' \<Longrightarrow> crosses r p = crosses r' p"
  by (cases "or_price r'") (simp_all add: or_static_def crosses_def)

lemma fill_step_effect:
  assumes "fill_step symbol price t a os trades = (os', trades')" "a \<noteq> t"
    and "0 < or_remaining (os t)" "is_live (os a)"
  obtains q where "0 < q" "q = min (or_remaining (os t)) (or_remaining (os a))"
    "os' t = (os t)\<lparr>or_remaining := or_remaining (os t) - q\<rparr>"
    "os' a = (os a)\<lparr>or_remaining := or_remaining (os a) - q,
       or_status := (if or_remaining (os a) - q = 0 then FILLED else PARTIALLY_FILLED)\<rparr>"
    "\<And>x. x \<noteq> t \<Longrightarrow> x \<noteq> a \<Longrightarrow> os' x = os x"
    "trades' = trades @ [make_trade symbol (os t) (os a) price q (length trades)]"
proof -
  let ?q = "min (or_remaining (os t)) (or_remaining (os a))"
  show ?thesis
    by (rule that [of ?q])
       (use assms in \<open>auto simp: fill_step_def Let_def is_live_def make_trade_def\<close>)
qed

lemma fill_step_remaining:
  assumes "fill_step symbol price t a os trades = (os', trades')" "a \<noteq> t"
    and "0 < or_remaining (os t)" "is_live (os a)"
  shows "or_remaining (os' t) = or_remaining (os t) - min (or_remaining (os t)) (or_remaining (os a))"
    and "or_remaining (os' a) = or_remaining (os a) - min (or_remaining (os t)) (or_remaining (os a))"
    and "x \<noteq> t \<Longrightarrow> x \<noteq> a \<Longrightarrow> os' x = os x"
  using assms by (auto simp: fill_step_def Let_def)

lemma fill_step_static:
  assumes "fill_step symbol price t a os trades = (os', trades')"
  shows "or_static (os' x) = or_static (os x)"
  using assms by (auto simp: fill_step_def Let_def or_static_def)

lemma greedy_static: "greedy symbol t makers os trades = (os', trades') \<Longrightarrow> or_static (os' x) = or_static (os x)"
proof (induction symbol t makers os trades rule: greedy.induct)
  case (2 symbol t a makers os trades)
  then show ?case
    by (auto split: option.splits if_splits prod.splits dest: fill_step_static)
qed simp

lemma greedy_stop: "or_remaining (os t) \<le> 0 \<Longrightarrow> greedy symbol t makers os trades = (os, trades)"
  by (cases makers) (auto split: option.splits)

lemma greedy_append:
  assumes "\<And>a. a \<in> set xs \<Longrightarrow> \<exists>p. or_price (os a) = Some p \<and> crosses (os t) p"
  shows "greedy symbol t (xs @ ys) os trades =
    (case greedy symbol t xs os trades of (os', trades') \<Rightarrow> greedy symbol t ys os' trades')"
  using assms
proof (induction xs arbitrary: os trades)
  case (Cons a xs)
  obtain p where p: "or_price (os a) = Some p" "crosses (os t) p" using Cons.prems [of a] by auto
  show ?case
  proof (cases "or_remaining (os t) \<le> 0")
    case True
    then show ?thesis using p by (simp add: greedy_stop)
  next
    case False
    obtain os1 tr1 where s: "fill_step symbol p t a os trades = (os1, tr1)" by (metis surj_pair)
    have "\<exists>p. or_price (os1 x) = Some p \<and> crosses (os1 t) p" if "x \<in> set xs" for x
      using Cons.prems [of x] that fill_step_static [OF s, of x] crosses_static [OF fill_step_static [OF s, of t]]
      by (auto dest: or_staticD)
    then show ?thesis using Cons.IH [of os1 tr1] p False s by simp
  qed
qed simp

text \<open>
  The inner loop is the reference on the live orders of its level: it leaves a suffix of the queue,
  the orders it passed are dead, and it leaves any at all only when the taker is done.
\<close>

lemma fill_level_greedy:
  assumes "fill_level symbol p t q os resting trades = (q', os', resting', trades')"
    and "\<And>a. a \<in> set q \<Longrightarrow> or_price (os a) = Some p" "crosses (os t) p" "t \<notin> set q" "distinct q"
  shows "greedy symbol t (filter (live_at os) q) os trades = (os', trades') \<and>
    (\<exists>dead. q = dead @ q' \<and> (\<forall>a \<in> set dead. \<not> is_live (os' a))) \<and>
    (0 < or_remaining (os' t) \<longrightarrow> q' = []) \<and> (\<forall>x. x \<notin> set q \<longrightarrow> x \<noteq> t \<longrightarrow> os' x = os x)"
  using assms
proof (induction q arbitrary: os resting trades)
  case (Cons a q)
  have ne: "a \<noteq> t" using Cons.prems(4) by auto
  consider (stop) "or_remaining (os t) \<le> 0" | (dead) "0 < or_remaining (os t)" "\<not> is_live (os a)"
    | (fill) "0 < or_remaining (os t)" "is_live (os a)" by linarith
  then show ?case
  proof cases
    case stop
    then show ?thesis using Cons.prems(1) by (auto simp: greedy_stop)
  next
    case dead
    then have run: "fill_level symbol p t q os resting trades = (q', os', resting', trades')"
      using Cons.prems(1) by simp
    have IH: "greedy symbol t (filter (live_at os) q) os trades = (os', trades') \<and>
      (\<exists>d. q = d @ q' \<and> (\<forall>a \<in> set d. \<not> is_live (os' a))) \<and>
      (0 < or_remaining (os' t) \<longrightarrow> q' = []) \<and> (\<forall>x. x \<notin> set q \<longrightarrow> x \<noteq> t \<longrightarrow> os' x = os x)"
      by (rule Cons.IH [OF run]) (use Cons.prems in auto)
    then obtain d where d: "q = d @ q'" "\<forall>a \<in> set d. \<not> is_live (os' a)" by blast
    have "\<not> is_live (os' a)" using IH dead(2) Cons.prems(5) ne by auto
    with d have "a # q = (a # d) @ q' \<and> (\<forall>a \<in> set (a # d). \<not> is_live (os' a))" by simp
    then show ?thesis using IH dead by fastforce
  next
    case fill
    obtain os1 tr1 where s: "fill_step symbol p t a os trades = (os1, tr1)" by (metis surj_pair)
    note n = fill_step_remaining [OF s ne fill]
    have live: "filter (live_at os1) q = filter (live_at os) q"
    proof (rule filter_cong [OF refl])
      fix x assume "x \<in> set q"
      then have "x \<noteq> t" "x \<noteq> a" using Cons.prems(4,5) by auto
      then show "live_at os1 x \<longleftrightarrow> live_at os x" by (simp add: n(3))
    qed
    have step: "greedy symbol t (filter (live_at os) (a # q)) os trades = greedy symbol t (filter (live_at os1) q) os1 tr1"
      using fill s Cons.prems(2) [of a] Cons.prems(3) by (simp add: live)
    show ?thesis
    proof (cases "or_remaining (os1 a) = 0")
      case True
      then have run: "fill_level symbol p t q os1 (dict_del (or_id (os1 a)) resting) tr1 = (q', os', resting', trades')"
        using Cons.prems(1) fill s by simp
      have IH: "greedy symbol t (filter (live_at os1) q) os1 tr1 = (os', trades') \<and>
        (\<exists>d. q = d @ q' \<and> (\<forall>a \<in> set d. \<not> is_live (os' a))) \<and>
        (0 < or_remaining (os' t) \<longrightarrow> q' = []) \<and> (\<forall>x. x \<notin> set q \<longrightarrow> x \<noteq> t \<longrightarrow> os' x = os1 x)"
      proof (rule Cons.IH [OF run])
        show "crosses (os1 t) p" using Cons.prems(3) crosses_static [OF fill_step_static [OF s, of t]] by simp
        show "or_price (os1 x) = Some p" if "x \<in> set q" for x
          using Cons.prems(2) [of x] that or_staticD(5) [OF fill_step_static [OF s, of x]] by simp
      qed (use Cons.prems in auto)
      then obtain d where d: "q = d @ q'" "\<forall>a \<in> set d. \<not> is_live (os' a)" by blast
      have "os' a = os1 a" using IH Cons.prems(5) ne by auto
      then have "\<not> is_live (os' a)" using True by (simp add: is_live_def)
      with d have "a # q = (a # d) @ q' \<and> (\<forall>a \<in> set (a # d). \<not> is_live (os' a))" by simp
      then have dead: "\<exists>d. a # q = d @ q' \<and> (\<forall>a \<in> set d. \<not> is_live (os' a))" by blast
      have frame: "\<forall>x. x \<notin> set (a # q) \<longrightarrow> x \<noteq> t \<longrightarrow> os' x = os x" using IH n(3) by auto
      have "0 < or_remaining (os' t) \<longrightarrow> q' = []" using IH by blast
      with IH step dead frame show ?thesis by simp
    next
      case False
      then have res: "q' = a # q" "os' = os1" "trades' = tr1" using Cons.prems(1) fill s by auto
      have "or_remaining (os1 t) = 0" using n(1,2) False by auto
      then show ?thesis using step n(3) by (simp add: res greedy_stop)
    qed
  qed
qed simp


text \<open>The index of resting orders loses exactly the orders that were executed to the end.\<close>

lemma fill_level_resting:
  assumes "fill_level symbol p t q os resting trades = (q', os', resting', trades')"
    and "t \<notin> set q" "distinct q"
  shows "dict_get resting' i =
    (if \<exists>a \<in> set q. or_id (os a) = i \<and> is_live (os a) \<and> \<not> is_live (os' a) then None else dict_get resting i)"
  using assms
proof (induction q arbitrary: os resting trades)
  case (Cons a q)
  have ne: "a \<noteq> t" using Cons.prems(2) by auto
  have frame: "os2 x = os1 x"
    if "fill_level symbol p t q os1 r1 tr1 = (q2, os2, r2, tr2)" "x \<notin> set q" "x \<noteq> t" for os1 r1 tr1 q2 os2 r2 tr2 x
    using that
  proof (induction q arbitrary: os1 r1 tr1)
    case (Cons b q)
    then show ?case
      by (auto simp: fill_step_def Let_def split: if_splits)
  qed simp
  consider (stop) "or_remaining (os t) \<le> 0" | (dead) "0 < or_remaining (os t)" "\<not> is_live (os a)"
    | (fill) "0 < or_remaining (os t)" "is_live (os a)" by linarith
  then show ?case
  proof cases
    case stop
    then show ?thesis using Cons.prems(1) by auto
  next
    case dead
    then have "fill_level symbol p t q os resting trades = (q', os', resting', trades')"
      using Cons.prems(1) by simp
    from Cons.IH [OF this] show ?thesis using dead(2) Cons.prems(2,3) by auto
  next
    case fill
    obtain os1 tr1 where s: "fill_step symbol p t a os trades = (os1, tr1)" by (metis surj_pair)
    note n = fill_step_remaining [OF s ne fill]
    have same: "os1 x = os x" if "x \<in> set q" for x
      using n(3) [of x] that Cons.prems(2,3) by auto
    show ?thesis
    proof (cases "or_remaining (os1 a) = 0")
      case True
      then have run: "fill_level symbol p t q os1 (dict_del (or_id (os1 a)) resting) tr1 = (q', os', resting', trades')"
        using Cons.prems(1) fill s by simp
      have "os' a = os1 a" using frame [OF run] Cons.prems(3) ne by simp
      then have dead: "\<not> is_live (os' a)" using True by (simp add: is_live_def)
      have id: "or_id (os1 a) = or_id (os a)" by (rule or_staticD(1) [OF fill_step_static [OF s]])
      have "dict_get resting' i = (if \<exists>x \<in> set q. or_id (os1 x) = i \<and> is_live (os1 x) \<and> \<not> is_live (os' x) then None
         else dict_get (dict_del (or_id (os1 a)) resting) i)"
        using Cons.IH [OF run] Cons.prems(2,3) by simp
      then show ?thesis using same fill(2) dead id by auto
    next
      case False
      then have res: "q' = a # q" "os' = os1" "resting' = resting" using Cons.prems(1) fill s by auto
      have "is_live (os1 a)"
        using False n(2) fill by (auto simp: is_live_def) (use s ne in \<open>auto simp: fill_step_def Let_def split: if_splits\<close>)
      then show ?thesis using same by (simp add: res)
    qed
  qed
qed simp

section \<open>What the book keeps\<close>

definition level_of :: "(side \<times> int, addr list) dict \<Rightarrow> side \<Rightarrow> int \<Rightarrow> addr list" where
  "level_of levels s x = (case dict_get levels (s, heap_price s x) of None \<Rightarrow> [] | Some q \<Rightarrow> q)"

definition live_list :: "order_store \<Rightarrow> side \<Rightarrow> int list \<Rightarrow> (side \<times> int, addr list) dict \<Rightarrow> addr list" where
  "live_list os s h levels = concat (map (\<lambda>x. filter (live_at os) (level_of levels s x)) h)"

definition live_levels :: "order_store \<Rightarrow> side \<Rightarrow> int list \<Rightarrow> (side \<times> int, addr list) dict \<Rightarrow> nat" where
  "live_levels os s h levels = length (filter (\<lambda>x. level_live os (level_of levels s x)) h)"

lemma heap_price_idem [simp]: "heap_price s (heap_price s x) = x"
  by (simp add: heap_price_def)

lemma heap_price_eq: "heap_price s x = p \<longleftrightarrow> x = heap_price s p"
  by (auto simp: heap_price_def)

lemma level_live_filter: "level_live os q \<longleftrightarrow> filter (live_at os) q \<noteq> []"
  by (auto simp: level_live_def filter_empty_conv)

lemma best_loop_spec:
  assumes "best_loop os s h levels = (price, h', levels')" "distinct h"
  shows "live_list os s h' levels' = live_list os s h levels \<and> live_levels os s h' levels' = live_levels os s h levels \<and>
    (\<exists>popped. h = popped @ h' \<and> (\<forall>k. dict_get levels' k =
        (if k \<in> (\<lambda>x. (s, heap_price s x)) ` set popped then None else dict_get levels k))) \<and>
    (case price of None \<Rightarrow> h' = [] \<and> live_list os s h levels = []
     | Some p \<Rightarrow> \<exists>xs q. h' = heap_price s p # xs \<and> dict_get levels' (s, p) = Some q \<and> level_live os q)"
  using assms
proof (induction os s h levels rule: best_loop.induct)
  case (1 os s levels)
  then show ?case by (auto simp: live_list_def live_levels_def)
next
  case (2 os s x xs levels)
  let ?p = "heap_price s x"
  show ?case
  proof (cases "case dict_get levels (s, ?p) of None \<Rightarrow> False | Some q \<Rightarrow> level_live os q")
    case True
    then obtain q where "dict_get levels (s, ?p) = Some q" "level_live os q" by (auto split: option.splits)
    moreover have "price = Some ?p" "h' = x # xs" "levels' = levels" using 2(2) True by (auto simp: Let_def)
    ultimately show ?thesis by simp
  next
    case False
    let ?lv = "dict_del (s, ?p) levels"
    have run: "best_loop os s xs ?lv = (price, h', levels')" using 2(2) False by (simp add: Let_def)
    have dead: "\<not> level_live os (level_of levels s x)"
      using False by (auto simp: level_of_def level_live_def split: option.splits)
    have same: "level_of ?lv s y = level_of levels s y" if "y \<in> set xs" for y
      using that 2(3) by (auto simp: level_of_def heap_price_def)
    have ll: "live_list os s (x # xs) levels = live_list os s xs ?lv"
      using dead same by (simp add: live_list_def level_live_filter cong: map_cong)
    have lc: "live_levels os s (x # xs) levels = live_levels os s xs ?lv"
      using dead same by (simp add: live_levels_def cong: filter_cong)
    from 2(1) [OF refl False run] 2(3) obtain popped where IH:
      "live_list os s h' levels' = live_list os s xs ?lv" "live_levels os s h' levels' = live_levels os s xs ?lv"
      "xs = popped @ h'" "\<forall>k. dict_get levels' k =
        (if k \<in> (\<lambda>x. (s, heap_price s x)) ` set popped then None else dict_get ?lv k)"
      "case price of None \<Rightarrow> h' = [] \<and> live_list os s xs ?lv = []
       | Some p \<Rightarrow> \<exists>xs q. h' = heap_price s p # xs \<and> dict_get levels' (s, p) = Some q \<and> level_live os q"
      by auto
    have "\<exists>popped. x # xs = popped @ h' \<and> (\<forall>k. dict_get levels' k =
        (if k \<in> (\<lambda>x. (s, heap_price s x)) ` set popped then None else dict_get levels k))"
      by (rule exI [of _ "x # popped"]) (use IH(3,4) in auto)
    then show ?thesis using IH(1,2,5) ll lc by (simp only: simp_thms)
  qed
qed


definition side_ok :: "side \<Rightarrow> int list \<Rightarrow> (side \<times> int, addr list) dict \<Rightarrow> bool" where
  "side_ok s h levels \<longleftrightarrow> sorted_wrt (<) h \<and> (\<forall>p. dict_get levels (s, p) \<noteq> None \<longleftrightarrow> heap_price s p \<in> set h)"

definition level_ok :: "order_store \<Rightarrow> side \<Rightarrow> int \<Rightarrow> addr list \<Rightarrow> bool" where
  "level_ok os s p q \<longleftrightarrow> sorted_wrt (\<lambda>a b. or_sequence (os a) < or_sequence (os b)) q \<and>
     (\<forall>a \<in> set q. or_side (os a) = s \<and> or_price (os a) = Some p \<and> 0 \<le> or_remaining (os a))"

definition levels_ok :: "order_store \<Rightarrow> (side \<times> int, addr list) dict \<Rightarrow> bool" where
  "levels_ok os levels \<longleftrightarrow> (\<forall>s p q. dict_get levels (s, p) = Some q \<longrightarrow> level_ok os s p q)"

definition book_ok :: "order_store \<Rightarrow> book \<Rightarrow> bool" where
  "book_ok os b \<longleftrightarrow> (\<forall>s. side_ok s (bk_heap b s) (bk_levels b)) \<and> levels_ok os (bk_levels b)"

definition in_book :: "book \<Rightarrow> addr \<Rightarrow> bool" where
  "in_book b a \<longleftrightarrow> (\<exists>k q. dict_get (bk_levels b) k = Some q \<and> a \<in> set q)"

lemma in_bookI: "dict_get (bk_levels b) k = Some q \<Longrightarrow> a \<in> set q \<Longrightarrow> in_book b a"
  unfolding in_book_def by blast

text \<open>The open orders of a side in the order in which the book would match them.\<close>

definition book_live :: "order_store \<Rightarrow> book \<Rightarrow> side \<Rightarrow> addr list" where
  "book_live os b s = live_list os s (bk_heap b s) (bk_levels b)"

lemma bk_set_heap_simps [simp]:
  "bk_heap (bk_set_heap s h b) s' = (if s' = s then h else bk_heap b s')"
  "bk_levels (bk_set_heap s h b) = bk_levels b" "bk_resting (bk_set_heap s h b) = bk_resting b"
  "bk_heap (b\<lparr>bk_levels := l\<rparr>) s = bk_heap b s" "bk_heap (b\<lparr>bk_resting := r\<rparr>) s = bk_heap b s"
  by (cases s; cases s'; simp add: bk_heap_def bk_set_heap_def)+

lemma level_distinct: "level_ok os s p q \<Longrightarrow> distinct q"
  unfolding level_ok_def by (induction q) auto

lemma level_ok_static:
  assumes "level_ok os s p q" "\<And>a. a \<in> set q \<Longrightarrow> or_static (os' a) = or_static (os a)"
    and "\<And>a. a \<in> set q \<Longrightarrow> 0 \<le> or_remaining (os' a)"
  shows "level_ok os' s p q"
proof -
  have "or_sequence (os' a) = or_sequence (os a)" "or_side (os' a) = or_side (os a)" "or_price (os' a) = or_price (os a)"
    if "a \<in> set q" for a using or_staticD [OF assms(2) [OF that]] by simp_all
  then have "sorted_wrt (\<lambda>a b. or_sequence (os' a) < or_sequence (os' b)) q \<longleftrightarrow>
      sorted_wrt (\<lambda>a b. or_sequence (os a) < or_sequence (os b)) q"
    by (intro iffI; elim sorted_wrt_mono_rel [rotated]; simp)
  then show ?thesis using assms(1,3) \<open>\<And>a. a \<in> set q \<Longrightarrow> or_side (os' a) = or_side (os a)\<close>
      \<open>\<And>a. a \<in> set q \<Longrightarrow> or_price (os' a) = or_price (os a)\<close>
    by (simp add: level_ok_def)
qed

lemma level_ok_suffix: "level_ok os s p (xs @ ys) \<Longrightarrow> level_ok os s p ys"
  by (simp add: level_ok_def sorted_wrt_append)

lemma level_of_mem:
  "a \<in> set (level_of levels s x) \<longleftrightarrow> (\<exists>q. dict_get levels (s, heap_price s x) = Some q \<and> a \<in> set q)"
  by (cases "dict_get levels (s, heap_price s x)") (auto simp: level_of_def)

lemma book_live_mem:
  assumes "book_ok os b"
  shows "a \<in> set (book_live os b s) \<longleftrightarrow> is_live (os a) \<and> in_book b a \<and> or_side (os a) = s"
proof
  assume "a \<in> set (book_live os b s)"
  then show "is_live (os a) \<and> in_book b a \<and> or_side (os a) = s"
    using assms by (fastforce simp: book_live_def live_list_def level_of_mem in_book_def book_ok_def levels_ok_def level_ok_def)
next
  assume *: "is_live (os a) \<and> in_book b a \<and> or_side (os a) = s"
  then obtain s' p q where q: "dict_get (bk_levels b) (s', p) = Some q" "a \<in> set q" by (auto simp: in_book_def)
  then have "s' = s" using assms * by (auto simp: book_ok_def levels_ok_def level_ok_def)
  with q assms have "heap_price s p \<in> set (bk_heap b s)" by (auto simp: book_ok_def side_ok_def)
  with q \<open>s' = s\<close> * show "a \<in> set (book_live os b s)"
    by (auto simp: book_live_def live_list_def level_of_mem intro!: bexI [of _ "heap_price s p"])
qed

text \<open>\<^verbatim>\<open>best\<close> only drops dead levels.\<close>

lemma book_best_spec:
  assumes ok: "book_ok os b" and run: "book_best os b s = (price, b')"
  shows "book_ok os b'" and "book_live os b' s' = book_live os b s'" and "in_book b' a \<Longrightarrow> in_book b a"
    and "bk_resting b' = bk_resting b"
    and "live_levels os s (bk_heap b' s) (bk_levels b') = live_levels os s (bk_heap b s) (bk_levels b)"
    and "case price of None \<Rightarrow> book_live os b s = []
      | Some p \<Rightarrow> \<exists>xs q. bk_heap b' s = heap_price s p # xs \<and> dict_get (bk_levels b') (s, p) = Some q \<and> level_live os q"
    and "in_book b a \<Longrightarrow> is_live (os a) \<Longrightarrow> in_book b' a"
proof -
  obtain h levels where l: "best_loop os s (bk_heap b s) (bk_levels b) = (price, h, levels)"
    and b': "b' = (bk_set_heap s h b)\<lparr>bk_levels := levels\<rparr>"
    using run by (cases "best_loop os s (bk_heap b s) (bk_levels b)") (auto simp: book_best_def)
  have sorted: "sorted_wrt (<) (bk_heap b s)" using ok by (simp add: book_ok_def side_ok_def)
  then have "distinct (bk_heap b s)" by (simp add: strict_sorted_iff)
  from best_loop_spec [OF l this] obtain popped where S:
    "live_list os s h levels = live_list os s (bk_heap b s) (bk_levels b)"
    "live_levels os s h levels = live_levels os s (bk_heap b s) (bk_levels b)"
    "bk_heap b s = popped @ h"
    "\<And>k. dict_get levels k = (if k \<in> (\<lambda>x. (s, heap_price s x)) ` set popped then None else dict_get (bk_levels b) k)"
    "case price of None \<Rightarrow> h = [] \<and> live_list os s (bk_heap b s) (bk_levels b) = []
       | Some p \<Rightarrow> \<exists>xs q. h = heap_price s p # xs \<and> dict_get levels (s, p) = Some q \<and> level_live os q"
    by blast
  have sorted': "sorted_wrt (<) (popped @ h)" using sorted S(3) by simp
  have side: "side_ok s' (bk_heap b' s') (bk_levels b')" for s'
  proof (cases "s' = s")
    case True
    have "heap_price s p \<in> set popped \<Longrightarrow> heap_price s p \<notin> set h" for p
      using sorted' by (force simp: sorted_wrt_append)
    moreover have "dict_get levels (s, p) \<noteq> None \<longleftrightarrow> heap_price s p \<notin> set popped \<and> heap_price s p \<in> set (popped @ h)" for p
      using ok S(3) S(4) [of "(s, p)"] by (auto simp: book_ok_def side_ok_def image_iff heap_price_eq)
    ultimately have "dict_get levels (s, p) \<noteq> None \<longleftrightarrow> heap_price s p \<in> set h" for p
      by (metis Un_iff set_append)
    then show ?thesis using True sorted' by (simp add: side_ok_def b' sorted_wrt_append)
  next
    case False
    then show ?thesis using ok S(4) by (auto simp: book_ok_def side_ok_def b')
  qed
  have sub: "dict_get levels k = Some q \<Longrightarrow> dict_get (bk_levels b) k = Some q" for k q
    using S(4) [of k] by (auto split: if_splits)
  then show ok': "book_ok os b'" using side ok by (simp add: book_ok_def levels_ok_def b')
  have lv: "bk_levels b' = levels" by (simp add: b')
  show "in_book b' a \<Longrightarrow> in_book b a" unfolding in_book_def lv using sub by blast
  show "bk_resting b' = bk_resting b" by (simp add: b')
  show "live_levels os s (bk_heap b' s) (bk_levels b') = live_levels os s (bk_heap b s) (bk_levels b)"
    using S(2) by (simp add: b')
  show live: "book_live os b' s' = book_live os b s'" for s'
  proof (cases "s' = s")
    case True
    then show ?thesis using S(1) by (simp add: book_live_def b')
  next
    case False
    then have "level_of levels s' x = level_of (bk_levels b) s' x" for x
      using S(4) by (auto simp: level_of_def)
    then show ?thesis using False by (simp add: book_live_def live_list_def b')
  qed
  show "case price of None \<Rightarrow> book_live os b s = []
      | Some p \<Rightarrow> \<exists>xs q. bk_heap b' s = heap_price s p # xs \<and> dict_get (bk_levels b') (s, p) = Some q \<and> level_live os q"
    using S(5) by (simp add: book_live_def b' split: option.splits)
  show "in_book b a \<Longrightarrow> is_live (os a) \<Longrightarrow> in_book b' a"
    using book_live_mem [OF ok, of a "or_side (os a)"] book_live_mem [OF ok', of a "or_side (os a)"]
      live [of "or_side (os a)"] by simp
qed


lemma fill_level_remaining:
  assumes "fill_level symbol p t q os resting trades = (q', os', resting', trades')"
    and "t \<notin> set q" "distinct q" "0 \<le> or_remaining (os x)"
  shows "0 \<le> or_remaining (os' x) \<and> (x \<noteq> t \<longrightarrow> is_live (os' x) \<longrightarrow> is_live (os x))"
  using assms
proof (induction q arbitrary: os resting trades)
  case (Cons a q)
  have ne: "a \<noteq> t" using Cons.prems(2) by auto
  consider (stop) "or_remaining (os t) \<le> 0" | (dead) "0 < or_remaining (os t)" "\<not> is_live (os a)"
    | (fill) "0 < or_remaining (os t)" "is_live (os a)" by linarith
  then show ?case
  proof cases
    case fill
    obtain os1 tr1 where s: "fill_step symbol p t a os trades = (os1, tr1)" by (metis surj_pair)
    note n = fill_step_remaining [OF s ne fill]
    have nn: "0 \<le> or_remaining (os1 x)"
      using n(1,2) n(3) [of x] Cons.prems(4) by (cases "x = t"; cases "x = a") auto
    have live: "x \<noteq> t \<longrightarrow> is_live (os1 x) \<longrightarrow> is_live (os x)"
      using fill(2) n(3) [of x] by (cases "x = a") auto
    show ?thesis
    proof (cases "or_remaining (os1 a) = 0")
      case True
      then have "fill_level symbol p t q os1 (dict_del (or_id (os1 a)) resting) tr1 = (q', os', resting', trades')"
        using Cons.prems(1) fill s by simp
      from Cons.IH [OF this] show ?thesis using Cons.prems(2,3) nn live by auto
    next
      case False
      then have "os' = os1" using Cons.prems(1) fill s by auto
      then show ?thesis using nn live by simp
    qed
  qed (use Cons in auto)
qed simp

text \<open>One round of the outer loop: the fills of one level.\<close>

lemma fill_round:
  assumes ok: "book_ok os b" and t: "\<not> in_book b t"
    and heap: "bk_heap b s = heap_price s p # xs" and level: "dict_get (bk_levels b) (s, p) = Some q" "level_live os q"
    and cross: "crosses (os t) p"
    and run: "fill_level symbol p t q os (bk_resting b) trades = (q', os', resting', trades')"
    and b': "b' = b\<lparr>bk_levels := dict_set (s, p) q' (bk_levels b), bk_resting := resting'\<rparr>"
  shows "book_ok os' b'" "in_book b' a \<Longrightarrow> in_book b a" "in_book b a \<Longrightarrow> is_live (os' a) \<Longrightarrow> in_book b' a"
    and "\<not> in_book b a \<Longrightarrow> a \<noteq> t \<Longrightarrow> os' a = os a"
    and "dict_get (bk_resting b') i = (if \<exists>a. in_book b a \<and> or_id (os a) = i \<and> is_live (os a) \<and> \<not> is_live (os' a)
           then None else dict_get (bk_resting b) i)"
    and "greedy symbol t (filter (live_at os) q) os trades = (os', trades')"
    and "\<exists>rest. book_live os b s = filter (live_at os) q @ rest \<and> book_live os' b' s = filter (live_at os') q' @ rest"
    and "0 < or_remaining (os' t) \<Longrightarrow> q' = [] \<and>
      live_levels os' s (bk_heap b' s) (bk_levels b') < live_levels os s (bk_heap b s) (bk_levels b)"
    and "s' \<noteq> s \<Longrightarrow> book_live os' b' s' = book_live os b s'"
    and "a \<noteq> t \<Longrightarrow> is_live (os' a) \<Longrightarrow> is_live (os a)"
proof -
  have lq: "level_ok os s p q" using ok level(1) by (simp add: book_ok_def levels_ok_def)
  have tq: "t \<notin> set q" using t level(1) by (auto simp: in_book_def)
  note dq = level_distinct [OF lq]
  have price: "\<And>a. a \<in> set q \<Longrightarrow> or_price (os a) = Some p" using lq by (simp add: level_ok_def)
  from fill_level_greedy [OF run price cross tq dq]
  obtain dead where G: "greedy symbol t (filter (live_at os) q) os trades = (os', trades')"
    "q = dead @ q'" "\<forall>a \<in> set dead. \<not> is_live (os' a)" "0 < or_remaining (os' t) \<longrightarrow> q' = []"
    "\<And>x. x \<notin> set q \<Longrightarrow> x \<noteq> t \<Longrightarrow> os' x = os x" by blast
  have static: "or_static (os' a) = or_static (os a)" for a by (rule greedy_static [OF G(1)])
  have nonneg: "0 \<le> or_remaining (os' a)" if "0 \<le> or_remaining (os a)" for a
    using fill_level_remaining [OF run tq dq that] by blast
  have frame: "os' a = os a" if "a \<in> set q2" "dict_get (bk_levels b) (s2, p2) = Some q2" "(s2, p2) \<noteq> (s, p)" for a s2 p2 q2
  proof (rule G(5))
    have l2: "or_side (os a) = s2" "or_price (os a) = Some p2"
      using ok that(1,2) by (auto simp: book_ok_def levels_ok_def level_ok_def)
    then show "a \<notin> set q" using lq that(3) by (auto simp: level_ok_def)
    show "a \<noteq> t" using t that(1,2) by (auto simp: in_book_def)
  qed
  have lv: "dict_get (bk_levels b') k = (if k = (s, p) then Some q' else dict_get (bk_levels b) k)" for k
    by (simp add: b')
  have hp: "bk_heap b' s2 = bk_heap b s2" for s2 by (simp add: b')
  show frame_b: "\<not> in_book b a \<Longrightarrow> a \<noteq> t \<Longrightarrow> os' a = os a" for a
    using G(5) level(1) by (auto simp: in_book_def)
  show "a \<noteq> t \<Longrightarrow> is_live (os' a) \<Longrightarrow> is_live (os a)"
  proof (cases "in_book b a")
    case True
    then obtain s2 p2 q2 where "dict_get (bk_levels b) (s2, p2) = Some q2" "a \<in> set q2" by (auto simp: in_book_def)
    then have "0 \<le> or_remaining (os a)" using ok by (auto simp: book_ok_def levels_ok_def level_ok_def)
    then show "a \<noteq> t \<Longrightarrow> is_live (os' a) \<Longrightarrow> is_live (os a)" using fill_level_remaining [OF run tq dq] by blast
  qed (use frame_b in auto)
  have in_b: "in_book b a \<longleftrightarrow> a \<in> set q \<or> (\<exists>k q2. k \<noteq> (s, p) \<and> dict_get (bk_levels b) k = Some q2 \<and> a \<in> set q2)" for a
    unfolding in_book_def using level(1) by (metis option.inject)
  have in_b': "in_book b' a \<longleftrightarrow> a \<in> set q' \<or> (\<exists>k q2. k \<noteq> (s, p) \<and> dict_get (bk_levels b) k = Some q2 \<and> a \<in> set q2)" for a
  proof
    assume "in_book b' a"
    then obtain k q2 where k: "dict_get (bk_levels b') k = Some q2" "a \<in> set q2" unfolding in_book_def by blast
    show "a \<in> set q' \<or> (\<exists>k q2. k \<noteq> (s, p) \<and> dict_get (bk_levels b) k = Some q2 \<and> a \<in> set q2)"
    proof (cases "k = (s, p)")
      case False
      then have "dict_get (bk_levels b) k = Some q2" using k(1) lv [of k] by simp
      with False k(2) show ?thesis by blast
    qed (use k lv in simp)
  next
    assume "a \<in> set q' \<or> (\<exists>k q2. k \<noteq> (s, p) \<and> dict_get (bk_levels b) k = Some q2 \<and> a \<in> set q2)"
    then consider "a \<in> set q'" | k q2 where "k \<noteq> (s, p)" "dict_get (bk_levels b) k = Some q2" "a \<in> set q2" by blast
    then show "in_book b' a"
    proof cases
      case 1
      then show ?thesis using lv [of "(s, p)"] unfolding in_book_def by auto
    next
      case 2
      then have "dict_get (bk_levels b') k = Some q2" using lv [of k] by simp
      then show ?thesis using 2 unfolding in_book_def by blast
    qed
  qed
  have qq: "a \<in> set q \<longleftrightarrow> a \<in> set dead \<or> a \<in> set q'" for a using G(2) by simp
  show "in_book b' a \<Longrightarrow> in_book b a" "in_book b a \<Longrightarrow> is_live (os' a) \<Longrightarrow> in_book b' a"
    unfolding in_b in_b' using qq G(3) by blast+
  have sides: "side_ok s2 (bk_heap b' s2) (bk_levels b')" for s2
  proof -
    have "side_ok s2 (bk_heap b s2) (bk_levels b)" using ok by (simp add: book_ok_def)
    then show ?thesis using lv level(1) hp unfolding side_ok_def by (metis option.distinct(1))
  qed
  have "level_ok os' s2 p2 q2" if "dict_get (bk_levels b') (s2, p2) = Some q2" for s2 p2 q2
  proof (cases "(s2, p2) = (s, p)")
    case True
    have "level_ok os s p q'" using lq G(2) level_ok_suffix by blast
    moreover have "q2 = q'" using that True lv [of "(s, p)"] by simp
    ultimately have l: "level_ok os s2 p2 q2" using True by simp
    then show ?thesis by (rule level_ok_static) (use l static nonneg in \<open>simp_all add: level_ok_def\<close>)
  next
    case False
    have "dict_get (bk_levels b) (s2, p2) = Some q2" using that unfolding lv if_not_P [OF False] .
    then have l: "level_ok os s2 p2 q2" using ok by (simp add: book_ok_def levels_ok_def)
    then show ?thesis by (rule level_ok_static) (use l static nonneg in \<open>simp_all add: level_ok_def\<close>)
  qed
  then show "book_ok os' b'" using sides by (simp add: book_ok_def levels_ok_def)
  show "greedy symbol t (filter (live_at os) q) os trades = (os', trades')" by (rule G(1))
  have others: "filter (live_at os') (level_of (bk_levels b') s2 x) = filter (live_at os) (level_of (bk_levels b) s2 x)"
    if "(s2, heap_price s2 x) \<noteq> (s, p)" for s2 x
  proof -
    have "level_of (bk_levels b') s2 x = level_of (bk_levels b) s2 x"
      unfolding level_of_def lv if_not_P [OF that] ..
    moreover have "os' a = os a" if "a \<in> set (level_of (bk_levels b) s2 x)" for a
      using that frame \<open>(s2, heap_price s2 x) \<noteq> (s, p)\<close> by (auto simp: level_of_mem)
    ultimately show ?thesis by (simp cong: filter_cong)
  qed
  have "sorted_wrt (<) (heap_price s p # xs)" using ok heap by (auto simp: book_ok_def side_ok_def simp flip: heap)
  then have new: "heap_price s x \<noteq> p" if "x \<in> set xs" for x using that by (auto simp: heap_price_eq)
  have rest: "live_list os' s xs (bk_levels b') = live_list os s xs (bk_levels b)"
    using others new by (simp add: live_list_def cong: map_cong)
  show "\<exists>rest. book_live os b s = filter (live_at os) q @ rest \<and> book_live os' b' s = filter (live_at os') q' @ rest"
    using rest lv level(1) by (simp add: book_live_def hp heap live_list_def level_of_def)
  show "s' \<noteq> s \<Longrightarrow> book_live os' b' s' = book_live os b s'"
    using others by (simp add: book_live_def hp live_list_def)
  have cnt: "length (filter (\<lambda>x. level_live os' (level_of (bk_levels b') s x)) xs) =
      length (filter (\<lambda>x. level_live os (level_of (bk_levels b) s x)) xs)"
    using others new by (simp add: level_live_filter cong: filter_cong)
  show "q' = [] \<and> live_levels os' s (bk_heap b' s) (bk_levels b') < live_levels os s (bk_heap b s) (bk_levels b)"
    if "0 < or_remaining (os' t)"
  proof -
    have q': "q' = []" using that G(4) by blast
    have "level_of (bk_levels b') s (heap_price s p) = []" "level_of (bk_levels b) s (heap_price s p) = q"
      using lv level(1) q' by (simp_all add: level_of_def)
    then show ?thesis
      using q' cnt level(2) by (simp add: live_levels_def hp heap level_live_def [of os' "[]"])
  qed
  show "dict_get (bk_resting b') i = (if \<exists>a. in_book b a \<and> or_id (os a) = i \<and> is_live (os a) \<and> \<not> is_live (os' a)
           then None else dict_get (bk_resting b) i)"
  proof -
    have "(\<exists>a \<in> set q. or_id (os a) = i \<and> is_live (os a) \<and> \<not> is_live (os' a)) \<longleftrightarrow>
       (\<exists>a. in_book b a \<and> or_id (os a) = i \<and> is_live (os a) \<and> \<not> is_live (os' a))"
      using level(1) G(5) t unfolding in_book_def by metis
    then show ?thesis using fill_level_resting [OF run tq dq, of i] by (simp add: b')
  qed
qed


lemma None_if_either: "(if n then None else if m then None else x) = (if m \<or> n then None else x)"
  by simp

text \<open>What matching does to a book and the orders in it, apart from the executions.\<close>

definition match_effect :: "addr \<Rightarrow> side \<Rightarrow> order_store \<Rightarrow> book \<Rightarrow> order_store \<Rightarrow> book \<Rightarrow> bool" where
  "match_effect t s os b os' b' \<longleftrightarrow> book_ok os' b' \<and>
    (\<forall>a. in_book b' a \<longrightarrow> in_book b a) \<and> (\<forall>a. in_book b a \<longrightarrow> is_live (os' a) \<longrightarrow> in_book b' a) \<and>
    (\<forall>a. \<not> in_book b a \<longrightarrow> a \<noteq> t \<longrightarrow> os' a = os a) \<and>
    (\<forall>i. dict_get (bk_resting b') i =
       (if \<exists>a. in_book b a \<and> or_id (os a) = i \<and> is_live (os a) \<and> \<not> is_live (os' a)
        then None else dict_get (bk_resting b) i)) \<and>
    (\<forall>s'. s' \<noteq> s \<longrightarrow> book_live os' b' s' = book_live os b s') \<and>
    (\<forall>a. a \<noteq> t \<longrightarrow> is_live (os' a) \<longrightarrow> is_live (os a))"

lemma match_effectD:
  assumes "match_effect t s os b os' b'"
  shows "book_ok os' b'" "in_book b' a \<Longrightarrow> in_book b a" "in_book b a \<Longrightarrow> is_live (os' a) \<Longrightarrow> in_book b' a"
    and "\<not> in_book b a \<Longrightarrow> a \<noteq> t \<Longrightarrow> os' a = os a"
    and "dict_get (bk_resting b') i =
       (if \<exists>a. in_book b a \<and> or_id (os a) = i \<and> is_live (os a) \<and> \<not> is_live (os' a)
        then None else dict_get (bk_resting b) i)"
    and "s' \<noteq> s \<Longrightarrow> book_live os' b' s' = book_live os b s'"
    and "a \<noteq> t \<Longrightarrow> is_live (os' a) \<Longrightarrow> is_live (os a)"
  using assms unfolding match_effect_def by blast+

lemma match_effectI:
  assumes "book_ok os' b'" "\<And>a. in_book b' a \<Longrightarrow> in_book b a" "\<And>a. in_book b a \<Longrightarrow> is_live (os' a) \<Longrightarrow> in_book b' a"
    and "\<And>a. \<not> in_book b a \<Longrightarrow> a \<noteq> t \<Longrightarrow> os' a = os a"
    and "\<And>i. dict_get (bk_resting b') i =
       (if \<exists>a. in_book b a \<and> or_id (os a) = i \<and> is_live (os a) \<and> \<not> is_live (os' a)
        then None else dict_get (bk_resting b) i)"
    and "\<And>s'. s' \<noteq> s \<Longrightarrow> book_live os' b' s' = book_live os b s'"
    and "\<And>a. a \<noteq> t \<Longrightarrow> is_live (os' a) \<Longrightarrow> is_live (os a)"
  shows "match_effect t s os b os' b'"
  using assms unfolding match_effect_def by blast

text \<open>
  The whole loop: it comes to an end, executes the reference on the open orders of the other side,
  and keeps the book well-formed.
\<close>

lemma match_loop_spec:
  assumes "book_ok os b" "\<not> in_book b t" "s = opposite (or_side (os t))"
    and "live_levels os s (bk_heap b s) (bk_levels b) < fuel"
  shows "\<exists>os' b' trades'. match_loop fuel symbol t os b trades = Some (os', b', trades') \<and>
    greedy symbol t (book_live os b s) os trades = (os', trades') \<and> match_effect t s os b os' b'"
  using assms
proof (induction fuel arbitrary: os b trades)
  case (Suc fuel)
  show ?case
  proof (cases "or_remaining (os t) \<le> 0")
    case True
    have "match_effect t s os b os b" by (rule match_effectI) (use Suc.prems(1) in auto)
    then show ?thesis using True by (simp add: greedy_stop)
  next
    case pos: False
    obtain price b1 where best: "book_best os b s = (price, b1)" by (metis surj_pair)
    note B = book_best_spec [OF Suc.prems(1) best]
    have t1: "\<not> in_book b1 t" using B(3) Suc.prems(2) by blast
    have dropped: "match_effect t s os b os b1" by (rule match_effectI) (use B in auto)
    show ?thesis
    proof (cases price)
      case None
      then have "book_live os b s = []" using B(6) by simp
      then show ?thesis
        using None pos best Suc.prems(3) dropped by simp
    next
      case (Some p)
      then obtain xs q where top: "bk_heap b1 s = heap_price s p # xs" "dict_get (bk_levels b1) (s, p) = Some q"
        "level_live os q" using B(6) by auto
      have qprice: "or_price (os a) = Some p" if "a \<in> set q" for a
        using B(1) top(2) that by (auto simp: book_ok_def levels_ok_def level_ok_def)
      have first: "\<exists>a as. book_live os b s = a # as \<and> or_price (os a) = Some p"
      proof -
        obtain a as where "filter (live_at os) q = a # as"
          using top(3) by (auto simp: level_live_filter neq_Nil_conv)
        moreover then have "a \<in> set q" by (metis list.set_intros(1) filter_is_subset subsetD)
        moreover have "book_live os b s = filter (live_at os) q @ live_list os s xs (bk_levels b1)"
          unfolding B(2) [of s, symmetric] using top(1,2) by (simp add: book_live_def live_list_def level_of_def)
        ultimately show ?thesis using qprice by auto
      qed
      show ?thesis
      proof (cases "crosses (os t) p")
        case False
        then have "greedy symbol t (book_live os b s) os trades = (os, trades)" using first by auto
        then show ?thesis
          using Some pos best False Suc.prems(3) dropped by simp
      next
        case True
        obtain q' os1 r1 tr1 where run: "fill_level symbol p t q os (bk_resting b1) trades = (q', os1, r1, tr1)"
          by (metis prod_cases4)
        define b2 where "b2 = b1\<lparr>bk_levels := dict_set (s, p) q' (bk_levels b1), bk_resting := r1\<rparr>"
        note F = fill_round [OF B(1) t1 top(1,2,3) True run b2_def]
        have unfold: "match_loop (Suc fuel) symbol t os b trades = match_loop fuel symbol t os1 b2 tr1"
          using pos best Some True top(2) run by (simp add: b2_def flip: Suc.prems(3))
        obtain rest where rest: "book_live os b1 s = filter (live_at os) q @ rest"
          "book_live os1 b2 s = filter (live_at os1) q' @ rest" using F(7) by blast
        have static: "or_static (os1 a) = or_static (os a)" for a by (rule greedy_static [OF F(6)])
        have app: "greedy symbol t (book_live os b s) os trades = greedy symbol t rest os1 tr1"
        proof -
          have "\<exists>p. or_price (os a) = Some p \<and> crosses (os t) p" if "a \<in> set (filter (live_at os) q)" for a
            using that qprice True by simp
          then have "greedy symbol t (filter (live_at os) q @ rest) os trades =
              (case greedy symbol t (filter (live_at os) q) os trades of (os', trades') \<Rightarrow> greedy symbol t rest os' trades')"
            by (rule greedy_append)
          then show ?thesis using F(6) rest(1) B(2) [of s] by simp
        qed
        have t2: "\<not> in_book b2 t" using F(2) t1 by blast
        have s2: "s = opposite (or_side (os1 t))" using Suc.prems(3) or_staticD(3) [OF static [of t]] by simp
        have "\<exists>os' b' trades'. match_loop fuel symbol t os1 b2 tr1 = Some (os', b', trades') \<and>
          greedy symbol t rest os1 tr1 = (os', trades') \<and> match_effect t s os1 b2 os' b'"
        proof (cases "or_remaining (os1 t) \<le> 0")
          case True
          have "0 < fuel"
          proof -
            have "0 < live_levels os s (bk_heap b1 s) (bk_levels b1)"
              using top by (simp add: live_levels_def level_of_def)
            then show ?thesis using Suc.prems(4) B(5) by simp
          qed
          then obtain n where "fuel = Suc n" by (cases fuel) auto
          then have "match_loop fuel symbol t os1 b2 tr1 = Some (os1, b2, tr1)" using True by simp
          moreover have "match_effect t s os1 b2 os1 b2" by (rule match_effectI) (use F(1) in auto)
          ultimately show ?thesis using greedy_stop [where os = os1 and t = t, OF True] by simp
        next
          case False
          then have q': "q' = []" and less: "live_levels os1 s (bk_heap b2 s) (bk_levels b2) < fuel"
            using F(8) Suc.prems(4) B(5) by auto
          have "book_live os1 b2 s = rest" using rest(2) q' by simp
          with Suc.IH [OF F(1) t2 s2 less, of tr1] show ?thesis by simp
        qed
        then obtain os' b' trades' where M: "match_loop fuel symbol t os1 b2 tr1 = Some (os', b', trades')"
          "greedy symbol t rest os1 tr1 = (os', trades')" "match_effect t s os1 b2 os' b'" by blast
        note R = match_effectD [OF M(3)]
        have sub: "in_book b' a \<Longrightarrow> in_book b a" for a using R(2) F(2) B(3) by blast
        have keep: "in_book b' a" if a: "in_book b a" "is_live (os' a)" for a
        proof -
          have ne: "a \<noteq> t" using a(1) Suc.prems(2) by blast
          have "is_live (os a)" using R(7) [OF ne a(2)] F(10) [OF ne] by blast
          then show ?thesis using B(7) [OF a(1)] F(3) R(7) [OF ne a(2)] R(3) a(2) by blast
        qed
        have frame: "os' a = os a" if "\<not> in_book b a" "a \<noteq> t" for a
          using that R(4) F(4) F(2) B(3) by metis
        have gone: "(\<exists>a. in_book b a \<and> or_id (os a) = i \<and> is_live (os a) \<and> \<not> is_live (os' a)) \<longleftrightarrow>
            (\<exists>a. in_book b1 a \<and> or_id (os a) = i \<and> is_live (os a) \<and> \<not> is_live (os1 a)) \<or>
            (\<exists>a. in_book b2 a \<and> or_id (os1 a) = i \<and> is_live (os1 a) \<and> \<not> is_live (os' a))" (is "?L = (?M \<or> ?N)") for i
        proof
          assume ?L
          then obtain a where a: "in_book b a" "or_id (os a) = i" "is_live (os a)" "\<not> is_live (os' a)" by blast
          then have "in_book b1 a" using B(7) by blast
          moreover have "in_book b2 a" if "is_live (os1 a)" using F(3) \<open>in_book b1 a\<close> that by blast
          ultimately show "?M \<or> ?N" using a or_staticD(1) [OF static [of a]] by metis
        next
          assume "?M \<or> ?N"
          then obtain a where a: "in_book b1 a" "or_id (os a) = i" "is_live (os a)" "\<not> is_live (os' a)"
          proof (elim disjE exE conjE)
            fix a assume a: "in_book b1 a" "or_id (os a) = i" "is_live (os a)" "\<not> is_live (os1 a)"
            then have "a \<noteq> t" using t1 by blast
            then show ?thesis using that a R(7) by blast
          next
            fix a assume a: "in_book b2 a" "or_id (os1 a) = i" "is_live (os1 a)" "\<not> is_live (os' a)"
            then have "in_book b1 a" "a \<noteq> t" using F(2) t2 by blast+
            then show ?thesis using that a F(10) or_staticD(1) [OF static [of a]] by metis
          qed
          then show ?L using B(3) by blast
        qed
        have resting: "dict_get (bk_resting b') i =
            (if \<exists>a. in_book b a \<and> or_id (os a) = i \<and> is_live (os a) \<and> \<not> is_live (os' a)
             then None else dict_get (bk_resting b) i)" for i
          unfolding gone R(5) F(5) B(4) by (rule None_if_either)
        have other: "book_live os' b' s' = book_live os b s'" if "s' \<noteq> s" for s'
          using R(6) [OF that] F(9) [OF that] B(2) [of s'] by simp
        have mono: "is_live (os a)" if "a \<noteq> t" "is_live (os' a)" for a
          using R(7) F(10) that by blast
        have "match_effect t s os b os' b'"
          by (rule match_effectI) (use R(1) sub keep frame resting other mono in blast)+
        then show ?thesis unfolding unfold app using M(1,2) by blast
      qed
    qed
  qed
qed simp


section \<open>Price-time priority\<close>

definition priority :: "order_store \<Rightarrow> side \<Rightarrow> addr \<Rightarrow> int \<times> int" where
  "priority os s a = (heap_price s (the (or_price (os a))), or_sequence (os a))"

lemma sorted_concat_blocks:
  assumes "sorted_wrt (<) h" "\<And>x. x \<in> set h \<Longrightarrow> sorted_wrt (\<lambda>a b. f a < f b) (block x)"
    and "\<And>x a. x \<in> set h \<Longrightarrow> a \<in> set (block x) \<Longrightarrow> fst (f a) = x"
  shows "sorted_wrt (\<lambda>a b. f a < (f b :: int \<times> int)) (concat (map block h))"
  using assms
proof (induction h)
  case (Cons x h)
  have "sorted_wrt (\<lambda>a b. f a < f b) (concat (map block h))" using Cons by simp
  moreover have "f a < f b" if ab: "a \<in> set (block x)" "y \<in> set h" "b \<in> set (block y)" for a b y
  proof -
    have "fst (f a) = x" "fst (f b) = y" "x < y" using Cons.prems ab by auto
    then show ?thesis by (cases "f a"; cases "f b") simp
  qed
  ultimately show ?case using Cons.prems(2) by (auto simp: sorted_wrt_append)
qed simp

lemma book_live_sorted:
  assumes "book_ok os b"
  shows "sorted_wrt (\<lambda>x y. priority os s x < priority os s y) (book_live os b s)"
  unfolding book_live_def live_list_def
proof (rule sorted_concat_blocks)
  show "sorted_wrt (<) (bk_heap b s)" using assms by (simp add: book_ok_def side_ok_def)
next
  fix x assume "x \<in> set (bk_heap b s)"
  show "sorted_wrt (\<lambda>a c. priority os s a < priority os s c) (filter (live_at os) (level_of (bk_levels b) s x))"
  proof (cases "dict_get (bk_levels b) (s, heap_price s x)")
    case None
    then show ?thesis by (simp add: level_of_def)
  next
    case (Some q)
    then have q: "level_ok os s (heap_price s x) q" using assms by (simp add: book_ok_def levels_ok_def)
    then have "sorted_wrt (\<lambda>a c. priority os s a < priority os s c) q"
      unfolding level_ok_def by (elim conjE sorted_wrt_mono_rel [rotated]) (simp add: priority_def)
    then show ?thesis using Some by (simp add: level_of_def sorted_wrt_filter)
  qed
next
  fix x a assume "a \<in> set (filter (live_at os) (level_of (bk_levels b) s x))"
  then show "fst (priority os s a) = x"
    using assms by (auto simp: level_of_mem book_ok_def levels_ok_def level_ok_def priority_def)
qed

lemma sort_key_unique:
  fixes f :: "'a \<Rightarrow> 'b::linorder"
  assumes "sorted_wrt (\<lambda>a b. f a < f b) xs" "set xs = set ys" "distinct ys"
  shows "xs = sort_key f ys"
proof -
  have s: "sorted_wrt (<) (map f xs)" using assms(1) by (simp add: sorted_wrt_map)
  then have d: "distinct (map f xs)" "sorted (map f xs)" by (simp_all add: strict_sorted_iff)
  then have inj: "inj_on f (set xs)" by (simp add: distinct_map)
  have "distinct (map f (sort_key f ys))" using assms(2,3) inj by (simp add: distinct_map)
  moreover have "set (map f (sort_key f ys)) = set (map f xs)" using assms(2) by simp
  ultimately have "map f xs = map f (sort_key f ys)"
    using d by (intro sorted_distinct_set_unique) auto
  then show ?thesis using inj assms(2) by (simp add: map_inj_on inj_on_def)
qed

text \<open>The open orders of a side, sorted: the best price first, then the lowest sequence number.\<close>

definition is_open :: "order \<Rightarrow> bool" where
  "is_open r \<longleftrightarrow> or_status r = ST_NEW \<or> or_status r = PARTIALLY_FILLED"

definition open_orders :: "engine \<Rightarrow> side \<Rightarrow> addr list" where
  "open_orders e s = sort_key (priority (en_store e) s)
     (filter (\<lambda>a. is_open (en_store e a) \<and> or_side (en_store e a) = s) [0..<en_next e])"

text \<open>What the trades of an engine have executed of an order.\<close>

definition executed :: "trade list \<Rightarrow> order \<Rightarrow> int" where
  "executed trs r = sum_list (map tr_quantity
     (filter (\<lambda>x. (if or_side r = BUY then tr_buy x else tr_sell x) = or_id r) trs))"

definition uncrossed :: "order_store \<Rightarrow> book \<Rightarrow> bool" where
  "uncrossed os b \<longleftrightarrow> (\<forall>a \<in> set (book_live os b BUY). \<forall>c \<in> set (book_live os b SELL).
     the (or_price (os a)) < the (or_price (os c)))"

definition order_ok :: "engine \<Rightarrow> addr \<Rightarrow> bool" where
  "order_ok e a \<longleftrightarrow> (let r = en_store e a in
     (is_open r \<longleftrightarrow> in_book (en_book e) a \<and> is_live r) \<and>
     0 \<le> or_remaining r \<and> or_quantity r = or_remaining r + executed (en_trades e) r \<and>
     dict_get (en_orders e) (or_id r) = Some a \<and>
     (in_book (en_book e) a \<longrightarrow> dict_get (en_open e) (or_account r) \<noteq> None))"

definition trades_known :: "engine \<Rightarrow> bool" where
  "trades_known e \<longleftrightarrow> (\<forall>x \<in> set (en_trades e).
     dict_get (en_orders e) (tr_buy x) \<noteq> None \<and> dict_get (en_orders e) (tr_sell x) \<noteq> None)"

definition engine_ok :: "int \<Rightarrow> engine \<Rightarrow> bool" where
  "engine_ok n e \<longleftrightarrow> book_ok (en_store e) (en_book e) \<and>
     (\<forall>a. in_book (en_book e) a \<longrightarrow> a < en_next e) \<and>
     (\<forall>a < en_next e. order_ok e a) \<and>
     (\<forall>a < en_next e. or_sequence (en_store e a) \<le> n) \<and>
     (\<forall>i a. dict_get (en_orders e) i = Some a \<longrightarrow> a < en_next e \<and> or_id (en_store e a) = i) \<and>
     (\<forall>i a. dict_get (bk_resting (en_book e)) i = Some a \<longleftrightarrow>
        in_book (en_book e) a \<and> is_live (en_store e a) \<and> or_id (en_store e a) = i) \<and>
     trades_known e \<and> uncrossed (en_store e) (en_book e)"

lemma engine_okD:
  assumes "engine_ok n e"
  shows "book_ok (en_store e) (en_book e)" "in_book (en_book e) a \<Longrightarrow> a < en_next e"
    and "a < en_next e \<Longrightarrow> order_ok e a" "a < en_next e \<Longrightarrow> or_sequence (en_store e a) \<le> n"
    and "dict_get (en_orders e) i = Some a \<Longrightarrow> a < en_next e \<and> or_id (en_store e a) = i"
    and "dict_get (bk_resting (en_book e)) i = Some a \<longleftrightarrow>
        in_book (en_book e) a \<and> is_live (en_store e a) \<and> or_id (en_store e a) = i"
    and "trades_known e" "uncrossed (en_store e) (en_book e)"
  using assms unfolding engine_ok_def by blast+

lemma open_orders_book:
  assumes "engine_ok n e"
  shows "open_orders e s = book_live (en_store e) (en_book e) s"
proof -
  note D = engine_okD [OF assms]
  have "a \<in> set (book_live (en_store e) (en_book e) s) \<longleftrightarrow>
      a < en_next e \<and> is_open (en_store e a) \<and> or_side (en_store e a) = s" for a
    using D(2) [of a] D(3) [of a] by (auto simp: book_live_mem [OF D(1)] order_ok_def Let_def)
  then have "set (book_live (en_store e) (en_book e) s) =
      set (filter (\<lambda>a. is_open (en_store e a) \<and> or_side (en_store e a) = s) [0..<en_next e])" by auto
  from sort_key_unique [OF book_live_sorted [OF D(1)] this] show ?thesis by (simp add: open_orders_def)
qed


section \<open>What the reference executes\<close>

lemma is_live_pos: "is_live r \<Longrightarrow> 0 < or_remaining r"
  by (simp add: is_live_def)

lemma fill_step_trade:
  assumes "fill_step symbol p t a os trades = (os', trades')"
  shows "trades' = trades @ [make_trade symbol (os t) (os a) p (min (or_remaining (os t)) (or_remaining (os a))) (length trades)] \<or> a = t"
  using assms by (auto simp: fill_step_def Let_def make_trade_def)

lemma executed_append [simp]: "executed (xs @ ys) r = executed xs r + executed ys r"
  by (simp add: executed_def)

lemma executed_Nil [simp]: "executed [] r = 0"
  by (simp add: executed_def)

lemma executed_static: "or_static r = or_static r' \<Longrightarrow> executed trs r = executed trs r'"
  by (simp add: executed_def or_static_def)

lemma executed_make_trade:
  "executed [make_trade symbol taker maker p q n] r =
    (if or_id r = (if or_side r = or_side taker then or_id taker else or_id maker) then q else 0)"
  by (cases "or_side r"; cases "or_side taker") (auto simp: executed_def make_trade_def)

text \<open>A trade between a taker and a maker names both, by their sides, and who was the aggressor.\<close>

definition trade_between :: "order \<Rightarrow> order \<Rightarrow> trade \<Rightarrow> bool" where
  "trade_between taker maker y \<longleftrightarrow> tr_aggressor y = or_side taker \<and>
     (if or_side taker = BUY then tr_buy y = or_id taker \<and> tr_sell y = or_id maker
      else tr_sell y = or_id taker \<and> tr_buy y = or_id maker)"

lemma trade_between_static:
  "or_static r = or_static r' \<Longrightarrow> or_static m = or_static m' \<Longrightarrow> trade_between r m y = trade_between r' m' y"
  by (simp add: trade_between_def or_static_def)

text \<open>Units leave an order exactly as trades record them.\<close>

lemma greedy_executed:
  assumes "greedy symbol t makers os trades = (os', trades')"
    and "insert t (set makers) \<subseteq> A" "inj_on (\<lambda>a. or_id (os a)) A" "t \<notin> set makers" "distinct makers"
    and "\<And>a. a \<in> set makers \<Longrightarrow> is_live (os a) \<and> or_side (os a) \<noteq> or_side (os t)"
  shows "\<exists>new. trades' = trades @ new \<and>
    (\<forall>x \<in> A. or_remaining (os' x) = or_remaining (os x) - executed new (os x)) \<and>
    (\<forall>y \<in> set new. \<exists>a \<in> set makers. trade_between (os t) (os a) y)"
  using assms
proof (induction makers arbitrary: os trades)
  case Nil
  then show ?case by simp
next
  case (Cons a makers)
  show ?case
  proof (cases "case or_price (os a) of None \<Rightarrow> True | Some p \<Rightarrow> or_remaining (os t) \<le> 0 \<or> \<not> crosses (os t) p")
    case True
    then have "os' = os" "trades' = trades" using Cons.prems(1) by (auto split: option.splits)
    then show ?thesis by simp
  next
    case False
    then obtain p where p: "or_price (os a) = Some p" "0 < or_remaining (os t)" "crosses (os t) p"
      by (auto split: option.splits)
    obtain os1 tr1 where s: "fill_step symbol p t a os trades = (os1, tr1)" by (metis surj_pair)
    have run: "greedy symbol t makers os1 tr1 = (os', trades')" using Cons.prems(1) p s by simp
    have ne: "a \<noteq> t" and live: "is_live (os a)" and side: "or_side (os a) \<noteq> or_side (os t)"
      using Cons.prems(4,6) by auto
    note n = fill_step_remaining [OF s ne p(2) live]
    let ?q = "min (or_remaining (os t)) (or_remaining (os a))"
    have static: "or_static (os1 x) = or_static (os x)" for x by (rule fill_step_static [OF s])
    note st = or_staticD [OF static]
    have same: "os1 x = os x" if "x \<in> set makers" for x using n(3) [of x] that Cons.prems(4,5) by auto
    have "\<exists>new. trades' = tr1 @ new \<and> (\<forall>x \<in> A. or_remaining (os' x) = or_remaining (os1 x) - executed new (os1 x)) \<and>
      (\<forall>y \<in> set new. \<exists>a \<in> set makers. trade_between (os1 t) (os1 a) y)"
      by (rule Cons.IH [OF run]) (use Cons.prems same in \<open>auto simp: st\<close>)
    then obtain new where new: "trades' = tr1 @ new"
      "\<And>x. x \<in> A \<Longrightarrow> or_remaining (os' x) = or_remaining (os1 x) - executed new (os1 x)"
      "\<And>y. y \<in> set new \<Longrightarrow> \<exists>a \<in> set makers. trade_between (os t) (os a) y"
      using trade_between_static [OF static static] by metis
    let ?tr = "make_trade symbol (os t) (os a) p ?q (length trades)"
    have tr1: "tr1 = trades @ [?tr]" using fill_step_trade [OF s] ne by blast
    have ex: "or_remaining (os1 x) = or_remaining (os x) - executed [?tr] (os x)" if x: "x \<in> A" for x
    proof -
      have "or_id (os x) = or_id (os t) \<longleftrightarrow> x = t" "or_id (os x) = or_id (os a) \<longleftrightarrow> x = a"
        using Cons.prems(2,3) x by (auto simp: inj_on_def)
      then show ?thesis using n(1,2) n(3) [of x] ne side by (auto simp: executed_make_trade)
    qed
    have "trades' = trades @ (?tr # new)" by (simp add: new(1) tr1)
    moreover have "or_remaining (os' x) = or_remaining (os x) - executed (?tr # new) (os x)" if "x \<in> A" for x
      using new(2) [OF that] ex [OF that] executed_append [of "[?tr]" new "os x"] executed_static [OF static [of x]] by simp
    moreover have "\<exists>x \<in> set (a # makers). trade_between (os t) (os x) y" if "y \<in> set (?tr # new)" for y
      using that new(3) [of y] by (auto simp: trade_between_def make_trade_def)
    ultimately show ?thesis by blast
  qed
qed

text \<open>When the taker is not filled, no acceptable order is left; and statuses tell who is open.\<close>

lemma greedy_outcome:
  assumes "greedy symbol t makers os trades = (os', trades')" "t \<notin> set makers" "distinct makers"
    and "\<And>a. a \<in> set makers \<Longrightarrow> is_live (os a) \<and> or_price (os a) \<noteq> None"
    and "sorted_wrt (\<lambda>a b. crosses (os t) (the (or_price (os b))) \<longrightarrow> crosses (os t) (the (or_price (os a)))) makers"
    and "0 \<le> or_remaining (os t)"
  shows "or_status (os' t) = or_status (os t) \<and> 0 \<le> or_remaining (os' t) \<and>
    (\<forall>x. x \<notin> set makers \<longrightarrow> x \<noteq> t \<longrightarrow> os' x = os x) \<and>
    (\<forall>a \<in> set makers. 0 \<le> or_remaining (os' a) \<and> (os' a = os a \<or> (is_open (os' a) \<longleftrightarrow> is_live (os' a)))) \<and>
    (0 < or_remaining (os' t) \<longrightarrow> (\<forall>a \<in> set makers. is_live (os' a) \<longrightarrow> \<not> crosses (os t) (the (or_price (os a)))))"
  using assms
proof (induction makers arbitrary: os trades)
  case Nil
  then show ?case by simp
next
  case (Cons a makers)
  obtain p where p: "or_price (os a) = Some p" using Cons.prems(4) [of a] by auto
  have ne: "a \<noteq> t" and live: "is_live (os a)" using Cons.prems(2,4) by auto
  have nn: "\<forall>x \<in> set (a # makers). 0 \<le> or_remaining (os x)"
    using Cons.prems(4) is_live_pos less_imp_le by blast
  consider (stop) "or_remaining (os t) \<le> 0" | (apart) "0 < or_remaining (os t)" "\<not> crosses (os t) p"
    | (fill) "0 < or_remaining (os t)" "crosses (os t) p" by linarith
  then show ?case
  proof cases
    case stop
    then have "os' = os" using Cons.prems(1) p by simp
    then show ?thesis using stop Cons.prems(6) nn by auto
  next
    case apart
    then have "os' = os" using Cons.prems(1) p by simp
    moreover have "\<not> crosses (os t) (the (or_price (os x)))" if "x \<in> set (a # makers)" for x
      using that Cons.prems(5) apart(2) p by auto
    ultimately show ?thesis using Cons.prems(6) nn by auto
  next
    case fill
    obtain os1 tr1 where s: "fill_step symbol p t a os trades = (os1, tr1)" by (metis surj_pair)
    have run: "greedy symbol t makers os1 tr1 = (os', trades')" using Cons.prems(1) p fill s by simp
    note n = fill_step_remaining [OF s ne fill(1) live]
    note st = or_staticD [OF fill_step_static [OF s]]
    note cr = crosses_static [OF fill_step_static [OF s, of t]]
    have same: "os1 x = os x" if "x \<in> set makers" for x using n(3) [of x] that Cons.prems(2,3) by auto
    have sorted: "sorted_wrt (\<lambda>a b. crosses (os1 t) (the (or_price (os1 b))) \<longrightarrow>
        crosses (os1 t) (the (or_price (os1 a)))) makers"
      using Cons.prems(5) by (simp add: st cr)
    have IH: "or_status (os' t) = or_status (os1 t) \<and> 0 \<le> or_remaining (os' t) \<and>
      (\<forall>x. x \<notin> set makers \<longrightarrow> x \<noteq> t \<longrightarrow> os' x = os1 x) \<and>
      (\<forall>a \<in> set makers. 0 \<le> or_remaining (os' a) \<and> (os' a = os1 a \<or> (is_open (os' a) \<longleftrightarrow> is_live (os' a)))) \<and>
      (0 < or_remaining (os' t) \<longrightarrow> (\<forall>a \<in> set makers. is_live (os' a) \<longrightarrow> \<not> crosses (os1 t) (the (or_price (os1 a)))))"
      by (rule Cons.IH [OF run _ _ _ sorted]) (use Cons.prems n(1) same in \<open>auto simp: st\<close>)
    have a': "os' a = os1 a" using IH Cons.prems(3) ne by auto
    have "or_status (os1 t) = or_status (os t)"
      "is_open (os1 a) \<longleftrightarrow> is_live (os1 a)" "0 \<le> or_remaining (os1 a)"
      using s ne live fill(1) by (auto simp: fill_step_def Let_def is_open_def is_live_def split: if_splits)
    moreover have "\<not> is_live (os1 a)" if "0 < or_remaining (os' t)"
    proof -
      have "0 < or_remaining (os1 t)"
        using that run greedy_stop [of os1 t symbol makers tr1] by fastforce
      then show ?thesis using n(1,2) by (auto simp: is_live_def)
    qed
    ultimately show ?thesis using IH a' same n(3) by (auto simp: st cr)
  qed
qed


section \<open>The engine between two commands and during one\<close>

text \<open>While a command is processed its order, \<open>t\<close>, is not on the book yet.\<close>

definition taker_ok :: "engine \<Rightarrow> addr \<Rightarrow> bool" where
  "taker_ok e t \<longleftrightarrow> (let r = en_store e t in t < en_next e \<and> \<not> in_book (en_book e) t \<and> 0 \<le> or_remaining r \<and>
     or_quantity r = or_remaining r + executed (en_trades e) r \<and> dict_get (en_orders e) (or_id r) = Some t \<and>
     (\<forall>a < en_next e. a \<noteq> t \<longrightarrow> or_sequence (en_store e a) < or_sequence r))"

definition engine_ok_but :: "addr \<Rightarrow> int \<Rightarrow> engine \<Rightarrow> bool" where
  "engine_ok_but t n e \<longleftrightarrow> book_ok (en_store e) (en_book e) \<and>
     (\<forall>a. in_book (en_book e) a \<longrightarrow> a < en_next e) \<and>
     (\<forall>a < en_next e. a \<noteq> t \<longrightarrow> order_ok e a) \<and> taker_ok e t \<and>
     (\<forall>a < en_next e. or_sequence (en_store e a) \<le> n) \<and>
     (\<forall>i a. dict_get (en_orders e) i = Some a \<longrightarrow> a < en_next e \<and> or_id (en_store e a) = i) \<and>
     (\<forall>i a. dict_get (bk_resting (en_book e)) i = Some a \<longleftrightarrow>
        in_book (en_book e) a \<and> is_live (en_store e a) \<and> or_id (en_store e a) = i) \<and>
     trades_known e \<and> uncrossed (en_store e) (en_book e)"

lemma engine_ok_butD:
  assumes "engine_ok_but t n e"
  shows "book_ok (en_store e) (en_book e)" "in_book (en_book e) a \<Longrightarrow> a < en_next e"
    and "a < en_next e \<Longrightarrow> a \<noteq> t \<Longrightarrow> order_ok e a" "taker_ok e t" "a < en_next e \<Longrightarrow> or_sequence (en_store e a) \<le> n"
    and "dict_get (en_orders e) i = Some a \<Longrightarrow> a < en_next e \<and> or_id (en_store e a) = i"
    and "dict_get (bk_resting (en_book e)) i = Some a \<longleftrightarrow>
        in_book (en_book e) a \<and> is_live (en_store e a) \<and> or_id (en_store e a) = i"
    and "trades_known e" "uncrossed (en_store e) (en_book e)"
  using assms unfolding engine_ok_but_def by blast+

lemma engine_ok_butI:
  assumes "book_ok (en_store e) (en_book e)" "\<And>a. in_book (en_book e) a \<Longrightarrow> a < en_next e"
    and "\<And>a. a < en_next e \<Longrightarrow> a \<noteq> t \<Longrightarrow> order_ok e a" "taker_ok e t" "\<And>a. a < en_next e \<Longrightarrow> or_sequence (en_store e a) \<le> n"
    and "\<And>i a. dict_get (en_orders e) i = Some a \<Longrightarrow> a < en_next e \<and> or_id (en_store e a) = i"
    and "\<And>i a. dict_get (bk_resting (en_book e)) i = Some a \<longleftrightarrow>
        in_book (en_book e) a \<and> is_live (en_store e a) \<and> or_id (en_store e a) = i"
    and "trades_known e" "uncrossed (en_store e) (en_book e)"
  shows "engine_ok_but t n e"
  using assms unfolding engine_ok_but_def by blast

lemma engine_okI:
  assumes "book_ok (en_store e) (en_book e)" "\<And>a. in_book (en_book e) a \<Longrightarrow> a < en_next e"
    and "\<And>a. a < en_next e \<Longrightarrow> order_ok e a" "\<And>a. a < en_next e \<Longrightarrow> or_sequence (en_store e a) \<le> n"
    and "\<And>i a. dict_get (en_orders e) i = Some a \<Longrightarrow> a < en_next e \<and> or_id (en_store e a) = i"
    and "\<And>i a. dict_get (bk_resting (en_book e)) i = Some a \<longleftrightarrow>
        in_book (en_book e) a \<and> is_live (en_store e a) \<and> or_id (en_store e a) = i"
    and "trades_known e" "uncrossed (en_store e) (en_book e)"
  shows "engine_ok n e"
  using assms unfolding engine_ok_def by blast

text \<open>Changing only orders that are not on the book leaves the book's side of the invariant alone.\<close>

lemma book_ok_frame:
  assumes "book_ok os b" "\<And>a. in_book b a \<Longrightarrow> os' a = os a"
  shows "book_ok os' b"
  unfolding book_ok_def
proof
  show "\<forall>s. side_ok s (bk_heap b s) (bk_levels b)" using assms(1) by (simp add: book_ok_def)
  show "levels_ok os' (bk_levels b)"
    unfolding levels_ok_def
  proof (intro allI impI)
    fix s p q assume q: "dict_get (bk_levels b) (s, p) = Some q"
    then have l: "level_ok os s p q" using assms(1) by (simp add: book_ok_def levels_ok_def)
    have "os' a = os a" if "a \<in> set q" for a using assms(2) that q by (auto simp: in_book_def)
    with l show "level_ok os' s p q" by (intro level_ok_static [OF l]) (auto simp: level_ok_def)
  qed
qed

lemma book_live_frame:
  assumes "\<And>a. in_book b a \<Longrightarrow> os' a = os a"
  shows "book_live os' b s = book_live os b s"
proof -
  have "filter (live_at os') (level_of (bk_levels b) s x) = filter (live_at os) (level_of (bk_levels b) s x)" for x
  proof (rule filter_cong [OF refl])
    fix a assume "a \<in> set (level_of (bk_levels b) s x)"
    then have "in_book b a" by (auto simp: level_of_mem in_book_def)
    then show "live_at os' a \<longleftrightarrow> live_at os a" by (simp add: assms)
  qed
  then show ?thesis by (simp add: book_live_def live_list_def)
qed

lemma uncrossed_frame:
  assumes "uncrossed os b" "\<And>a. in_book b a \<Longrightarrow> os' a = os a" "book_ok os b"
  shows "uncrossed os' b"
proof -
  have "os' a = os a" if "a \<in> set (book_live os b s)" for a s
    using that assms(2) book_live_mem [OF assms(3)] by blast
  then show ?thesis using assms(1) by (simp add: uncrossed_def book_live_frame [OF assms(2)])
qed

lemma engine_ok_accept:
  assumes ok: "engine_ok n e" and new: "dict_get (en_orders e) (no_id c) = None" "0 < no_quantity c" "n < sequence"
    and acc: "accept_order e sequence c = (t, e')"
  shows "engine_ok_but t sequence e'"
    and "open_orders e s = book_live (en_store e') (en_book e') s"
    and "en_book e' = en_book e" "en_open e' = en_open e" "en_symbol e' = en_symbol e" "en_trades e' = en_trades e"
proof -
  note D = engine_okD [OF ok]
  define r where "r = \<lparr>or_id = no_id c, or_account = no_account c, or_side = no_side c, or_quantity = no_quantity c,
     or_price = no_price c, or_tif = no_tif c, or_sequence = sequence, or_remaining = no_quantity c,
     or_status = ST_NEW, or_reject_reason = None\<rparr>"
  have t: "t = en_next e" and e': "e' = e\<lparr>en_store := (en_store e)(t := r), en_next := t + 1,
      en_orders := dict_set (no_id c) t (en_orders e)\<rparr>"
    using acc by (auto simp: accept_order_def Let_def r_def)
  have eb: "en_book e' = en_book e" by (simp add: e')
  have tb: "\<not> in_book (en_book e) t" using D(2) [of t] t by blast
  have frame: "en_store e' a = en_store e a" if "in_book (en_book e) a" for a using that tb by (auto simp: e')
  have none: "executed (en_trades e) r = 0"
  proof -
    have "filter (\<lambda>x. (if or_side r = BUY then tr_buy x else tr_sell x) = or_id r) (en_trades e) = []"
      using D(7) new(1) by (auto simp: trades_known_def filter_empty_conv r_def)
    then show ?thesis by (simp add: executed_def)
  qed
  have ids: "or_id (en_store e a) \<noteq> no_id c" if "a < en_next e" for a
    using D(3) [OF that] new(1) by (auto simp: order_ok_def Let_def)
  show "engine_ok_but t sequence e'"
  proof (rule engine_ok_butI)
    show "book_ok (en_store e') (en_book e')" unfolding eb by (rule book_ok_frame [OF D(1) frame])
    show "in_book (en_book e') a \<Longrightarrow> a < en_next e'" for a using D(2) [of a] by (simp add: e' t)
    show "order_ok e' a" if "a < en_next e'" "a \<noteq> t" for a
      using that D(3) [of a] ids [of a] by (auto simp: order_ok_def Let_def e' t)
    show "taker_ok e' t"
      using new(2,3) tb none D(4) by (auto simp: taker_ok_def Let_def e' t less_Suc_eq r_def) (use order_le_less_trans in blast)
    show "or_sequence (en_store e' a) \<le> sequence" if "a < en_next e'" for a
      using that D(4) [of a] new(3) by (auto simp: e' t r_def less_Suc_eq)
    show "a < en_next e' \<and> or_id (en_store e' a) = i" if "dict_get (en_orders e') i = Some a" for i a
      using that D(5) [of i a] by (auto simp: e' t r_def split: if_splits)
    show "dict_get (bk_resting (en_book e')) i = Some a \<longleftrightarrow>
        in_book (en_book e') a \<and> is_live (en_store e' a) \<and> or_id (en_store e' a) = i" for i a
      using D(6) [of i a] tb by (auto simp: e')
    show "trades_known e'" using D(7) by (auto simp: trades_known_def e')
    show "uncrossed (en_store e') (en_book e')" unfolding eb by (rule uncrossed_frame [OF D(8) frame D(1)])
  qed
  show "open_orders e s = book_live (en_store e') (en_book e') s"
    unfolding eb open_orders_book [OF ok] by (rule book_live_frame [OF frame, symmetric])
qed (use acc in \<open>auto simp: accept_order_def Let_def\<close>)


lemma opposite_neq [simp]: "opposite s \<noteq> s" "s \<noteq> opposite s"
  by (cases s; simp add: opposite_def)+

lemma opposite_cases: "s' = s \<or> s' = opposite s"
  by (cases s; cases s') (simp_all add: opposite_def)

lemma book_live_facts:
  assumes "book_ok os b"
  shows "distinct (book_live os b s)"
    and "a \<in> set (book_live os b s) \<Longrightarrow> is_live (os a) \<and> or_side (os a) = s \<and> or_price (os a) \<noteq> None"
proof -
  have "sorted_wrt (<) (map (priority os s) (book_live os b s))"
    using book_live_sorted [OF assms, of s] by (simp add: sorted_wrt_map)
  then show "distinct (book_live os b s)" by (simp add: strict_sorted_iff distinct_map)
  show "is_live (os a) \<and> or_side (os a) = s \<and> or_price (os a) \<noteq> None" if "a \<in> set (book_live os b s)"
  proof -
    have a: "is_live (os a)" "in_book b a" "or_side (os a) = s" using that book_live_mem [OF assms] by auto
    then obtain s' p q where "dict_get (bk_levels b) (s', p) = Some q" "a \<in> set q" by (auto simp: in_book_def)
    then have "or_price (os a) = Some p" using assms by (auto simp: book_ok_def levels_ok_def level_ok_def)
    with a show ?thesis by simp
  qed
qed

lemma crosses_antimono:
  assumes "s = opposite (or_side taker)" "heap_price s p \<le> heap_price s p'"
  shows "crosses taker p' \<longrightarrow> crosses taker p"
proof (cases "or_price taker")
  case (Some limit)
  show ?thesis
  proof (cases "or_side taker")
    case BUY
    then have "p \<le> p'" using assms by (simp add: opposite_def heap_price_def)
    then show ?thesis using Some BUY by (simp add: crosses_def)
  next
    case SELL
    then have "p' \<le> p" using assms by (simp add: opposite_def heap_price_def)
    then show ?thesis using Some SELL by (simp add: crosses_def)
  qed
qed (simp add: crosses_def)

lemma fst_mono_less: "(p :: int \<times> int) < q \<Longrightarrow> fst p \<le> fst q"
  by (cases p; cases q) auto

lemma book_live_crosses:
  assumes "book_ok os b" "s = opposite (or_side taker)"
  shows "sorted_wrt (\<lambda>a c. crosses taker (the (or_price (os c))) \<longrightarrow> crosses taker (the (or_price (os a)))) (book_live os b s)"
  using book_live_sorted [OF assms(1)]
proof (rule sorted_wrt_mono_rel [rotated])
  fix x y assume "priority os s x < priority os s y"
  then have "fst (priority os s x) \<le> fst (priority os s y)" by (rule fst_mono_less)
  then have "heap_price s (the (or_price (os x))) \<le> heap_price s (the (or_price (os y)))"
    by (simp add: priority_def)
  with assms(2) show "crosses taker (the (or_price (os y))) \<longrightarrow> crosses taker (the (or_price (os x)))"
    by (rule crosses_antimono)
qed

lemma engine_ids_inj:
  assumes "engine_ok_but t n e"
  shows "inj_on (\<lambda>a. or_id (en_store e a)) {..<en_next e}"
proof (rule inj_onI)
  have known: "dict_get (en_orders e) (or_id (en_store e a)) = Some a" if "a < en_next e" for a
    using engine_ok_butD(3) [OF assms that] engine_ok_butD(4) [OF assms]
    by (cases "a = t") (auto simp: order_ok_def taker_ok_def Let_def)
  fix a c assume "a \<in> {..<en_next e}" "c \<in> {..<en_next e}" "or_id (en_store e a) = or_id (en_store e c)"
  then show "a = c" using known by (metis lessThan_iff option.inject)
qed

lemma engine_ok_match:
  assumes ok: "engine_ok_but t n e" and s: "s = opposite (or_side (en_store e t))"
  obtains os b trades where "book_match symbol t (en_store e) (en_book e) = Some (os, b, trades)"
    "greedy symbol t (book_live (en_store e) (en_book e) s) (en_store e) [] = (os, trades)"
    "engine_ok_but t n (e\<lparr>en_store := os, en_book := b, en_trades := en_trades e @ trades\<rparr>)"
    "\<And>a. or_static (os a) = or_static (en_store e a)" "or_status (os t) = or_status (en_store e t)"
    "\<And>y. y \<in> set trades \<Longrightarrow> \<exists>a. in_book (en_book e) a \<and> trade_between (os t) (os a) y"
    "0 < or_remaining (os t) \<Longrightarrow> \<forall>a \<in> set (book_live os b s). \<not> crosses (os t) (the (or_price (os a)))"
proof -
  let ?os = "en_store e" and ?b = "en_book e"
  let ?L = "book_live ?os ?b s"
  note D = engine_ok_butD [OF ok]
  have T: "t < en_next e" "\<not> in_book ?b t" "0 \<le> or_remaining (?os t)"
    "or_quantity (?os t) = or_remaining (?os t) + executed (en_trades e) (?os t)"
    "dict_get (en_orders e) (or_id (?os t)) = Some t"
    "\<forall>a < en_next e. a \<noteq> t \<longrightarrow> or_sequence (?os a) < or_sequence (?os t)"
    using D(4) by (simp_all add: taker_ok_def Let_def)
  have "live_levels ?os s (bk_heap ?b s) (bk_levels ?b) \<le> length (bk_heap ?b s)"
    by (simp add: live_levels_def)
  then have "live_levels ?os s (bk_heap ?b s) (bk_levels ?b) < length (bk_heap ?b s) + 2" by simp
  from match_loop_spec [OF D(1) T(2) s this, of symbol "[]"]
  obtain os b trades where M: "book_match symbol t ?os ?b = Some (os, b, trades)"
    "greedy symbol t ?L ?os [] = (os, trades)" "match_effect t s ?os ?b os b"
    unfolding book_match_def s [symmetric] by blast
  note E = match_effectD [OF M(3)]
  note L = book_live_facts [OF D(1), where s = s]
  have static: "or_static (os a) = or_static (?os a)" for a by (rule greedy_static [OF M(2)])
  note st = or_staticD [OF static]
  have tL: "t \<notin> set ?L" using T(2) book_live_mem [OF D(1)] by blast
  have out: "or_status (os t) = or_status (?os t) \<and> 0 \<le> or_remaining (os t) \<and>
    (\<forall>x. x \<notin> set ?L \<longrightarrow> x \<noteq> t \<longrightarrow> os x = ?os x) \<and>
    (\<forall>a \<in> set ?L. 0 \<le> or_remaining (os a) \<and> (os a = ?os a \<or> (is_open (os a) \<longleftrightarrow> is_live (os a)))) \<and>
    (0 < or_remaining (os t) \<longrightarrow> (\<forall>a \<in> set ?L. is_live (os a) \<longrightarrow> \<not> crosses (?os t) (the (or_price (?os a)))))"
    by (rule greedy_outcome [OF M(2) tL L(1) _ book_live_crosses [OF D(1) s] T(3)]) (use L(2) in auto)
  have Lnext: "a < en_next e" if "a \<in> set ?L" for a using that book_live_mem [OF D(1)] D(2) by blast
  have "\<exists>new. trades = [] @ new \<and>
    (\<forall>x \<in> {..<en_next e}. or_remaining (os x) = or_remaining (?os x) - executed new (?os x)) \<and>
    (\<forall>y \<in> set new. \<exists>a \<in> set ?L. trade_between (?os t) (?os a) y)"
    by (rule greedy_executed [OF M(2) _ engine_ids_inj [OF ok] tL L(1)])
      (use T(1) Lnext L(2) s in auto)
  then have ex: "\<And>x. x < en_next e \<Longrightarrow> or_remaining (os x) = or_remaining (?os x) - executed trades (?os x)"
    and between: "\<And>y. y \<in> set trades \<Longrightarrow> \<exists>a \<in> set ?L. trade_between (?os t) (?os a) y" by auto
  let ?e = "e\<lparr>en_store := os, en_book := b, en_trades := en_trades e @ trades\<rparr>"
  have live_sub: "a \<in> set (book_live ?os ?b s')" if "a \<in> set (book_live os b s')" for a s'
  proof -
    have a: "is_live (os a)" "in_book b a" "or_side (os a) = s'" using that book_live_mem [OF E(1)] by auto
    then have "in_book ?b a" using E(2) by blast
    moreover have "a \<noteq> t" using calculation T(2) by blast
    ultimately show ?thesis using a E(7) book_live_mem [OF D(1)] st(3) by metis
  qed
  have known: "dict_get (en_orders e) (or_id (?os a)) = Some a" if "a < en_next e" for a
    using that D(3) [OF that] T(5) by (cases "a = t") (auto simp: order_ok_def Let_def)
  have "engine_ok_but t n ?e"
  proof (rule engine_ok_butI)
    show "book_ok (en_store ?e) (en_book ?e)" using E(1) by simp
    show "in_book (en_book ?e) a \<Longrightarrow> a < en_next ?e" for a using E(2) D(2) by simp
    show "or_sequence (en_store ?e a) \<le> n" if "a < en_next ?e" for a using D(5) [of a] that by (simp add: st)
    show "a < en_next ?e \<and> or_id (en_store ?e a) = i" if "dict_get (en_orders ?e) i = Some a" for i a
      using D(6) [of i a] that by (simp add: st)
    show "taker_ok ?e t"
      using T out E(2) ex [OF T(1)] executed_static [OF static [of t]]
      by (auto simp: taker_ok_def Let_def st)
    show "order_ok ?e a" if a: "a < en_next ?e" "a \<noteq> t" for a
    proof -
      have old: "order_ok e a" using D(3) a by simp
      have "is_open (os a) \<longleftrightarrow> in_book b a \<and> is_live (os a)"
      proof (cases "a \<in> set ?L")
        case True
        then have "in_book ?b a" using book_live_mem [OF D(1)] by blast
        then have "is_live (os a) \<Longrightarrow> in_book b a" using E(3) by blast
        moreover have "is_open (os a) \<longleftrightarrow> is_live (os a)"
        proof (cases "os a = ?os a")
          case True
          then show ?thesis using old L(2) [OF \<open>a \<in> set ?L\<close>] \<open>in_book ?b a\<close> by (simp add: order_ok_def Let_def)
        next
          case False
          then show ?thesis using out \<open>a \<in> set ?L\<close> by blast
        qed
        ultimately show ?thesis by blast
      next
        case False
        then have "os a = ?os a" using out a(2) by blast
        then show ?thesis using old E(2) [of a] E(3) [of a] by (auto simp: order_ok_def Let_def)
      qed
      moreover have "0 \<le> or_remaining (os a)"
        using out old a(2) by (cases "a \<in> set ?L") (auto simp: order_ok_def Let_def)
      ultimately show ?thesis
        using old ex [of a] a E(2) [of a] executed_static [OF static [of a]] by (auto simp: order_ok_def Let_def st)
    qed
    show "dict_get (bk_resting (en_book ?e)) i = Some a \<longleftrightarrow>
        in_book (en_book ?e) a \<and> is_live (en_store ?e a) \<and> or_id (en_store ?e a) = i" for i a
    proof (cases "\<exists>x. in_book ?b x \<and> or_id (?os x) = i \<and> is_live (?os x) \<and> \<not> is_live (os x)")
      case True
      then obtain x where x: "in_book ?b x" "or_id (?os x) = i" "\<not> is_live (os x)" by blast
      have "a = x" if "in_book b a" "or_id (os a) = i"
      proof -
        have "a < en_next e" "x < en_next e" using E(2) D(2) that(1) x(1) by blast+
        then show ?thesis using known [of a] known [of x] x(2) that(2) by (simp add: st)
      qed
      then show ?thesis using E(5) [of i] True x(3) by auto
    next
      case False
      have "in_book b a \<and> is_live (os a) \<and> or_id (os a) = i \<longleftrightarrow>
          in_book ?b a \<and> is_live (?os a) \<and> or_id (?os a) = i"
        using E(2) [of a] E(3) [of a] E(7) [of a] T(2) False by (auto simp: st)
      then show ?thesis using E(5) [of i] False D(7) [of i a] by simp
    qed
    show "trades_known ?e"
    proof -
      have "dict_get (en_orders e) (tr_buy y) \<noteq> None \<and> dict_get (en_orders e) (tr_sell y) \<noteq> None"
        if y: "y \<in> set trades" for y
      proof -
        obtain a where a: "a \<in> set ?L" "trade_between (?os t) (?os a) y" using between [OF y] by blast
        then show ?thesis using T(5) known [OF Lnext [OF a(1)]]
          by (cases "or_side (?os t) = BUY") (simp_all add: trade_between_def)
      qed
      then show ?thesis using D(8) unfolding trades_known_def by auto
    qed
    show "uncrossed (en_store ?e) (en_book ?e)"
      using D(9) live_sub by (auto simp: uncrossed_def st)
  qed
  moreover have "\<exists>a. in_book ?b a \<and> trade_between (os t) (os a) y" if "y \<in> set trades" for y
    using between [OF that] book_live_mem [OF D(1)] trade_between_static [OF static static] by blast
  moreover have "\<forall>a \<in> set (book_live os b s). \<not> crosses (os t) (the (or_price (os a)))" if "0 < or_remaining (os t)"
  proof
    fix a assume a: "a \<in> set (book_live os b s)"
    then have "is_live (os a)" using book_live_mem [OF E(1)] by blast
    then show "\<not> crosses (os t) (the (or_price (os a)))"
      using out that live_sub [OF a] crosses_static [OF static [of t]] by (simp add: st)
  qed
  ultimately show ?thesis using that [OF M(1,2)] static out by blast
qed


lemma engine_ok_closed:
  assumes ok: "engine_ok_but t n e"
    and f: "or_static (f (en_store e t)) = or_static (en_store e t)" "or_remaining (f (en_store e t)) = or_remaining (en_store e t)"
      "\<not> is_open (f (en_store e t))"
  shows "engine_ok n (set_order t f e)"
proof -
  let ?e = "set_order t f e"
  note D = engine_ok_butD [OF ok]
  have T: "t < en_next e" "\<not> in_book (en_book e) t" "0 \<le> or_remaining (en_store e t)"
    "or_quantity (en_store e t) = or_remaining (en_store e t) + executed (en_trades e) (en_store e t)"
    "dict_get (en_orders e) (or_id (en_store e t)) = Some t"
    using D(4) by (simp_all add: taker_ok_def Let_def)
  have same: "en_store ?e a = en_store e a" if "a \<noteq> t" for a using that by (simp add: set_order_def)
  have frame: "en_store ?e a = en_store e a" if "in_book (en_book e) a" for a
  proof -
    have "a \<noteq> t" using that T(2) by blast
    then show ?thesis by (rule same)
  qed
  have fields: "en_book ?e = en_book e" "en_next ?e = en_next e" "en_orders ?e = en_orders e"
    "en_trades ?e = en_trades e" "en_open ?e = en_open e" "en_store ?e t = f (en_store e t)" by (simp_all add: set_order_def)
  have static: "or_static (en_store ?e a) = or_static (en_store e a)" for a
    using f(1) same [of a] fields(6) by (cases "a = t") auto
  note st = or_staticD [OF static]
  show ?thesis
  proof (rule engine_okI)
    show "book_ok (en_store ?e) (en_book ?e)" unfolding fields by (rule book_ok_frame [OF D(1) frame])
    show "uncrossed (en_store ?e) (en_book ?e)" unfolding fields by (rule uncrossed_frame [OF D(9) frame D(1)])
    show "in_book (en_book ?e) a \<Longrightarrow> a < en_next ?e" for a using D(2) by (simp add: fields)
    show "or_sequence (en_store ?e a) \<le> n" if "a < en_next ?e" for a using that D(5) [of a] by (simp add: st fields)
    show "a < en_next ?e \<and> or_id (en_store ?e a) = i" if "dict_get (en_orders ?e) i = Some a" for i a
      using that D(6) [of i a] by (simp add: st fields)
    show "trades_known ?e" using D(8) by (simp add: trades_known_def fields)
    show "dict_get (bk_resting (en_book ?e)) i = Some a \<longleftrightarrow>
        in_book (en_book ?e) a \<and> is_live (en_store ?e a) \<and> or_id (en_store ?e a) = i" for i a
      using D(7) [of i a] frame [of a] by (auto simp: fields)
    show "order_ok ?e a" if "a < en_next ?e" for a
    proof (cases "a = t")
      case True
      then show ?thesis
        using T f executed_static [OF f(1)] or_staticD [OF f(1)] by (simp add: order_ok_def Let_def fields)
    next
      case False
      then show ?thesis using D(3) [of a] that same [of a] by (simp add: order_ok_def Let_def fields)
    qed
  qed
qed

lemma engine_ok_but_open:
  assumes ok: "engine_ok_but t n e" and op: "\<And>k. dict_get (en_open e) k \<noteq> None \<Longrightarrow> dict_get op k \<noteq> None"
  shows "engine_ok_but t n (e\<lparr>en_open := op, en_last_price := lp\<rparr>)"
proof -
  note D = engine_ok_butD [OF ok]
  have "order_ok (e\<lparr>en_open := op, en_last_price := lp\<rparr>) a" if "order_ok e a" for a
    using that op [of "or_account (en_store e a)"] by (auto simp: order_ok_def Let_def)
  then show ?thesis
    using D by (intro engine_ok_butI) (simp_all add: taker_ok_def trades_known_def)
qed

lemma release_filled_makers_ok:
  assumes "\<And>y. y \<in> set trs \<Longrightarrow> \<exists>a. dict_get (en_orders e) (if tr_aggressor y = BUY then tr_sell y else tr_buy y) = Some a \<and>
      dict_get (en_open e) (or_account (en_store e a)) \<noteq> None"
  shows "\<exists>op. release_filled_makers trs e = (Inr (), e\<lparr>en_open := op\<rparr>) \<and>
    (\<forall>k. dict_get op k \<noteq> None \<longleftrightarrow> dict_get (en_open e) k \<noteq> None)"
  using assms
proof (induction trs arbitrary: e)
  case Nil
  show ?case by (rule exI [of _ "en_open e"]) simp
next
  case (Cons y trs)
  obtain a where a: "dict_get (en_orders e) (if tr_aggressor y = BUY then tr_sell y else tr_buy y) = Some a"
    "dict_get (en_open e) (or_account (en_store e a)) \<noteq> None" using Cons.prems [of y] by auto
  then obtain m where m: "dict_get (en_open e) (or_account (en_store e a)) = Some m" by blast
  show ?case
  proof (cases "or_status (en_store e a) = FILLED")
    case False
    then show ?thesis using Cons.IH [of e] Cons.prems a(1) by simp
  next
    case True
    let ?e = "e\<lparr>en_open := dict_set (or_account (en_store e a)) (m - 1) (en_open e)\<rparr>"
    have run: "release_filled_makers (y # trs) e = release_filled_makers trs ?e" using True a(1) m by simp
    have dom: "dict_get (en_open ?e) k \<noteq> None \<longleftrightarrow> dict_get (en_open e) k \<noteq> None" for k using m by simp
    have "\<exists>a. dict_get (en_orders ?e) (if tr_aggressor y = BUY then tr_sell y else tr_buy y) = Some a \<and>
      dict_get (en_open ?e) (or_account (en_store ?e a)) \<noteq> None" if "y \<in> set trs" for y
      using Cons.prems [of y] that dom by (simp del: not_None_eq)
    from Cons.IH [OF this] obtain op where "release_filled_makers trs ?e = (Inr (), ?e\<lparr>en_open := op\<rparr>)"
      "\<forall>k. dict_get op k \<noteq> None \<longleftrightarrow> dict_get (en_open ?e) k \<noteq> None" by blast
    then show ?thesis using run dom by (intro exI [of _ op]) (simp del: not_None_eq)
  qed
qed

text \<open>Putting an order to rest.\<close>

lemma book_rest_spec:
  assumes ok: "book_ok os b" and t: "\<not> in_book b t" "or_price (os t) = Some p" "or_side (os t) = s" "0 < or_remaining (os t)"
    and seq: "\<And>a. in_book b a \<Longrightarrow> or_sequence (os a) < or_sequence (os t)"
  obtains b' where "book_rest os b t = Inr b'" "book_ok os b'" "\<And>a. in_book b' a \<longleftrightarrow> in_book b a \<or> a = t"
    "bk_resting b' = dict_set (or_id (os t)) t (bk_resting b)"
proof -
  let ?k = "(s, p)"
  have side: "side_ok s' (bk_heap b s') (bk_levels b)" for s' using ok by (simp add: book_ok_def)
  have lvl: "level_ok os s' p' q" if "dict_get (bk_levels b) (s', p') = Some q" for s' p' q
    using ok that by (simp add: book_ok_def levels_ok_def)
  show ?thesis
  proof (cases "dict_get (bk_levels b) ?k")
    case None
    let ?b = "bk_set_heap s (insort (heap_price s p) (bk_heap b s)) (b\<lparr>bk_levels := dict_set ?k [t] (bk_levels b)\<rparr>)"
    let ?b' = "?b\<lparr>bk_resting := dict_set (or_id (os t)) t (bk_resting ?b)\<rparr>"
    have new: "heap_price s p \<notin> set (bk_heap b s)" using side [of s] None unfolding side_ok_def by blast
    have "sorted_wrt (<) (insort (heap_price s p) (bk_heap b s))"
      using side [of s] new by (simp add: side_ok_def strict_sorted_iff sorted_insort distinct_insort)
    then have sides: "side_ok s' (bk_heap ?b' s') (bk_levels ?b')" for s'
      using side [of s'] by (auto simp: side_ok_def set_insort_key heap_price_eq)
    have levels: "levels_ok os (bk_levels ?b')"
      using lvl t by (auto simp: levels_ok_def level_ok_def)
    show ?thesis
    proof (rule that [of ?b'])
      show "book_rest os b t = Inr ?b'" using t None by (simp add: book_rest_def Let_def)
      show "book_ok os ?b'" using sides levels by (simp add: book_ok_def)
      show "in_book ?b' a \<longleftrightarrow> in_book b a \<or> a = t" for a
      proof
        assume "in_book ?b' a"
        then obtain k q where "dict_get (bk_levels ?b') k = Some q" "a \<in> set q" unfolding in_book_def by blast
        then show "in_book b a \<or> a = t" by (cases "k = ?k") (auto intro: in_bookI)
      next
        assume a: "in_book b a \<or> a = t"
        then obtain k q where "a = t \<or> k \<noteq> ?k \<and> dict_get (bk_levels b) k = Some q \<and> a \<in> set q"
          unfolding in_book_def using None by (metis option.distinct(1))
        then have "a = t \<or> dict_get (bk_levels ?b') k = Some q \<and> a \<in> set q" by auto
        moreover have "dict_get (bk_levels ?b') ?k = Some [t]" by simp
        ultimately show "in_book ?b' a" unfolding in_book_def by (metis list.set_intros(1))
      qed
    qed simp
  next
    case (Some q)
    let ?b = "b\<lparr>bk_levels := dict_set ?k (q @ [t]) (bk_levels b)\<rparr>"
    let ?b' = "?b\<lparr>bk_resting := dict_set (or_id (os t)) t (bk_resting ?b)\<rparr>"
    have sides: "side_ok s' (bk_heap ?b' s') (bk_levels ?b')" for s'
      using side [of s'] Some by (auto simp: side_ok_def)
    have "in_book b a" if "a \<in> set q" for a using that Some by (auto simp: in_book_def)
    then have "level_ok os s p (q @ [t])" using lvl [OF Some] t seq by (auto simp: level_ok_def sorted_wrt_append)
    then have levels: "levels_ok os (bk_levels ?b')" using lvl by (auto simp: levels_ok_def)
    show ?thesis
    proof (rule that [of ?b'])
      show "book_rest os b t = Inr ?b'" using t Some by (simp add: book_rest_def Let_def)
      show "book_ok os ?b'" using sides levels by (simp add: book_ok_def)
      show "in_book ?b' a \<longleftrightarrow> in_book b a \<or> a = t" for a
      proof
        assume "in_book ?b' a"
        then obtain k q' where "dict_get (bk_levels ?b') k = Some q'" "a \<in> set q'" unfolding in_book_def by blast
        then show "in_book b a \<or> a = t" using Some by (cases "k = ?k") (auto intro: in_bookI)
      next
        have top: "dict_get (bk_levels ?b') ?k = Some (q @ [t])" by simp
        assume "in_book b a \<or> a = t"
        then show "in_book ?b' a"
        proof
          assume "in_book b a"
          then obtain k q' where k: "dict_get (bk_levels b) k = Some q'" "a \<in> set q'" unfolding in_book_def by blast
          show ?thesis
          proof (cases "k = ?k")
            case True
            then have "a \<in> set (q @ [t])" using k Some by simp
            then show ?thesis using top unfolding in_book_def by blast
          next
            case False
            then have "dict_get (bk_levels ?b') k = Some q'" using k by simp
            then show ?thesis using k(2) unfolding in_book_def by blast
          qed
        qed (use top in \<open>auto simp: in_book_def\<close>)
      qed
    qed simp
  qed
qed


lemma engine_ok_rested:
  assumes ok: "engine_ok_but t n e" and p: "or_price (en_store e t) = Some p" "0 < or_remaining (en_store e t)"
    and s: "s = opposite (or_side (en_store e t))"
    and apart: "\<forall>a \<in> set (book_live (en_store e) (en_book e) s). \<not> crosses (en_store e t) (the (or_price (en_store e a)))"
    and st: "st = ST_NEW \<or> st = PARTIALLY_FILLED" and e1: "e1 = set_order t (\<lambda>r. r\<lparr>or_status := st\<rparr>) e"
  obtains b where "book_rest (en_store e1) (en_book e1) t = Inr b"
    "engine_ok n (e1\<lparr>en_book := b, en_open := dict_set (or_account (en_store e t)) m (en_open e1)\<rparr>)"
proof -
  note D = engine_ok_butD [OF ok]
  have T: "t < en_next e" "\<not> in_book (en_book e) t"
    "or_quantity (en_store e t) = or_remaining (en_store e t) + executed (en_trades e) (en_store e t)"
    "dict_get (en_orders e) (or_id (en_store e t)) = Some t"
    "\<And>a. a < en_next e \<Longrightarrow> a \<noteq> t \<Longrightarrow> or_sequence (en_store e a) < or_sequence (en_store e t)"
    using D(4) by (simp_all add: taker_ok_def Let_def)
  have fields: "en_book e1 = en_book e" "en_next e1 = en_next e" "en_orders e1 = en_orders e"
    "en_trades e1 = en_trades e" "en_open e1 = en_open e" "en_store e1 t = (en_store e t)\<lparr>or_status := st\<rparr>"
    "\<And>a. a \<noteq> t \<Longrightarrow> en_store e1 a = en_store e a" by (simp_all add: e1 set_order_def)
  have ne: "a \<noteq> t" if "in_book (en_book e) a" for a using that T(2) by blast
  have frame: "en_store e1 a = en_store e a" if "in_book (en_book e) a" for a using fields(7) [OF ne [OF that]] .
  have static: "or_static (en_store e1 a) = or_static (en_store e a)" for a
    by (cases "a = t") (simp_all add: fields or_static_def)
  note stt = or_staticD [OF static]
  have bok: "book_ok (en_store e1) (en_book e1)" unfolding fields(1) by (rule book_ok_frame [OF D(1) frame])
  obtain b where b: "book_rest (en_store e1) (en_book e1) t = Inr b" "book_ok (en_store e1) b"
    "\<And>a. in_book b a \<longleftrightarrow> in_book (en_book e1) a \<or> a = t"
    "bk_resting b = dict_set (or_id (en_store e1 t)) t (bk_resting (en_book e1))"
  proof (rule book_rest_spec [OF bok])
    show "or_sequence (en_store e1 a) < or_sequence (en_store e1 t)" if "in_book (en_book e1) a" for a
      using that T(5) [of a] D(2) [of a] ne [of a] by (simp add: fields(1) stt)
  qed (use p T(2) in \<open>auto simp: fields stt\<close>)
  let ?e = "e1\<lparr>en_book := b, en_open := dict_set (or_account (en_store e t)) m (en_open e1)\<rparr>"
  have live_t: "is_live (en_store e1 t)" using p(2) st by (auto simp: fields(6) is_live_def)
  have live: "a \<in> set (book_live (en_store e1) b s') \<longleftrightarrow>
      a \<in> set (book_live (en_store e) (en_book e) s') \<or> a = t \<and> or_side (en_store e t) = s'" for a s'
    using b(3) [of a] frame [of a] live_t ne [of a]
    by (auto simp: book_live_mem [OF b(2)] book_live_mem [OF D(1)] fields(1) stt)
  have known: "dict_get (en_orders e) (or_id (en_store e a)) = Some a" if "a < en_next e" for a
    using that D(3) [OF that] T(4) by (cases "a = t") (auto simp: order_ok_def Let_def)
  have "engine_ok n ?e"
  proof (rule engine_okI)
    show "book_ok (en_store ?e) (en_book ?e)" using b(2) by simp
    show "a < en_next ?e" if "in_book (en_book ?e) a" for a using that D(2) [of a] T(1) by (auto simp: b(3) fields)
    show "or_sequence (en_store ?e a) \<le> n" if "a < en_next ?e" for a using that D(5) [of a] by (simp add: stt fields)
    show "a < en_next ?e \<and> or_id (en_store ?e a) = i" if "dict_get (en_orders ?e) i = Some a" for i a
      using that D(6) [of i a] by (simp add: stt fields)
    show "trades_known ?e" using D(8) by (simp add: trades_known_def fields)
    show "dict_get (bk_resting (en_book ?e)) i = Some a \<longleftrightarrow>
        in_book (en_book ?e) a \<and> is_live (en_store ?e a) \<and> or_id (en_store ?e a) = i" for i a
    proof (cases "i = or_id (en_store e t)")
      case True
      have "a = t" if "in_book b a" "or_id (en_store e a) = i"
      proof -
        have "a < en_next e" using that(1) b(3) [of a] D(2) [of a] T(1) by (auto simp: fields)
        then show ?thesis using known T(4) that(2) True by (metis option.inject)
      qed
      then have "in_book b a \<and> is_live (en_store e1 a) \<and> or_id (en_store e a) = i \<longleftrightarrow> a = t"
        using True b(3) [of t] live_t by blast
      then show ?thesis using True by (auto simp: b(4) stt)
    next
      case False
      have "in_book b a \<and> is_live (en_store e1 a) \<and> or_id (en_store e a) = i \<longleftrightarrow>
          in_book (en_book e) a \<and> is_live (en_store e a) \<and> or_id (en_store e a) = i"
        using b(3) [of a] frame [of a] False by (auto simp: fields(1))
      then show ?thesis using False D(7) [of i a] by (simp add: b(4) stt fields(1))
    qed
    show "uncrossed (en_store ?e) (en_book ?e)"
    proof -
      have far: "if or_side (en_store e t) = BUY then p < the (or_price (en_store e a)) else the (or_price (en_store e a)) < p"
        if "a \<in> set (book_live (en_store e) (en_book e) s)" for a
        using apart that p(1) by (auto simp: crosses_def)
      show ?thesis
      proof (cases "or_side (en_store e t)")
        case BUY
        then show ?thesis using D(9) far s p(1) by (auto simp: uncrossed_def live stt opposite_def)
      next
        case SELL
        then show ?thesis using D(9) far s p(1) by (auto simp: uncrossed_def live stt opposite_def)
      qed
    qed
    show "order_ok ?e a" if "a < en_next ?e" for a
    proof (cases "a = t")
      case True
      have "executed (en_trades e) (en_store e1 t) = executed (en_trades e) (en_store e t)" by (rule executed_static [OF static])
      then show ?thesis
        using True T(3,4) p(2) st live_t b(3) [of t] by (auto simp: order_ok_def Let_def fields(3,4,6) is_open_def stt)
    next
      case False
      then show ?thesis using D(3) [of a] that b(3) [of a] fields by (auto simp: order_ok_def Let_def)
    qed
  qed
  with b(1) show ?thesis using that by blast
qed

lemma engine_cancel_ok:
  assumes ok: "engine_ok n e"
  shows "engine_ok n (snd (engine_cancel e i))"
    and "fst (engine_cancel e i) = (if dict_get (bk_resting (en_book e)) i = None then Inl NotFoundError else Inr [])"
    and "dict_get (bk_resting (en_book e)) i = None \<Longrightarrow> snd (engine_cancel e i) = e"
proof -
  note D = engine_okD [OF ok]
  have "engine_ok n (snd (engine_cancel e i)) \<and>
    fst (engine_cancel e i) = (if dict_get (bk_resting (en_book e)) i = None then Inl NotFoundError else Inr []) \<and>
    (dict_get (bk_resting (en_book e)) i = None \<longrightarrow> snd (engine_cancel e i) = e)"
  proof (cases "dict_get (bk_resting (en_book e)) i")
    case None
    then show ?thesis using ok by (simp add: engine_cancel_def book_cancel_def)
  next
    case (Some a)
    then have a: "in_book (en_book e) a" "is_live (en_store e a)" "or_id (en_store e a) = i" using D(6) by blast+
    then have an: "a < en_next e" "order_ok e a" using D(2,3) by blast+
    let ?os = "(en_store e)(a := (en_store e a)\<lparr>or_status := CANCELLED\<rparr>)"
    let ?b = "(en_book e)\<lparr>bk_resting := dict_del i (bk_resting (en_book e))\<rparr>"
    have static: "or_static (?os x) = or_static (en_store e x)" for x by (simp add: or_static_def)
    note st = or_staticD [OF static]
    have rem: "or_remaining (?os x) = or_remaining (en_store e x)" for x by simp
    obtain m where m: "dict_get (en_open e) (or_account (en_store e a)) = Some m"
      using an(2) a(1) by (auto simp: order_ok_def Let_def)
    let ?e = "e\<lparr>en_store := ?os, en_book := ?b, en_open := dict_set (or_account (en_store e a)) (m - 1) (en_open e)\<rparr>"
    have run: "engine_cancel e i = (Inr [], ?e)"
      using Some m by (simp add: engine_cancel_def book_cancel_def Let_def)
    have inb: "in_book ?b x \<longleftrightarrow> in_book (en_book e) x" for x by (simp add: in_book_def)
    have level: "level_ok ?os s p q" if "level_ok (en_store e) s p q" for s p q
      by (rule level_ok_static [OF that static]) (use that in \<open>auto simp: level_ok_def\<close>)
    have bok: "book_ok ?os ?b"
      using D(1) level by (auto simp: book_ok_def levels_ok_def)
    have dead: "\<not> is_live (?os a)" by (simp add: is_live_def)
    have known: "x = a" if "x < en_next e" "or_id (en_store e x) = i" for x
      using D(3) [OF that(1)] D(3) [OF an(1)] that(2) a(3) by (auto simp: order_ok_def Let_def)
    have live: "x \<in> set (book_live (en_store e) (en_book e) s)" if "x \<in> set (book_live ?os ?b s)" for x s
      using that dead by (cases "x = a") (auto simp: book_live_mem [OF bok] book_live_mem [OF D(1)] inb)
    have "engine_ok n ?e"
    proof (rule engine_okI)
      show "uncrossed (en_store ?e) (en_book ?e)"
        unfolding uncrossed_def
      proof (intro ballI)
        fix x y assume "x \<in> set (book_live (en_store ?e) (en_book ?e) BUY)" "y \<in> set (book_live (en_store ?e) (en_book ?e) SELL)"
        then have "x \<in> set (book_live (en_store e) (en_book e) BUY)" "y \<in> set (book_live (en_store e) (en_book e) SELL)"
          using live by simp_all
        then show "the (or_price (en_store ?e x)) < the (or_price (en_store ?e y))"
          using D(8) st(5) [of x] st(5) [of y] by (simp add: uncrossed_def)
      qed
      show "dict_get (bk_resting (en_book ?e)) j = Some x \<longleftrightarrow>
          in_book (en_book ?e) x \<and> is_live (en_store ?e x) \<and> or_id (en_store ?e x) = j" for j x
      proof (cases "j = i")
        case True
        have "x = a" if "in_book (en_book e) x" "or_id (en_store e x) = i" using known that D(2) by blast
        then have "\<not> (in_book ?b x \<and> is_live (?os x) \<and> or_id (?os x) = i)" using dead inb st(1) by metis
        moreover have "dict_get (bk_resting ?b) i = None" by simp
        ultimately show ?thesis using True by simp
      next
        case False
        then show ?thesis using D(6) [of j x] a(3) inb by auto
      qed
      show "order_ok ?e x" if "x < en_next ?e" for x
      proof (cases "x = a")
        case True
        have "executed (en_trades e) (?os a) = executed (en_trades e) (en_store e a)" by (rule executed_static [OF static])
        then show ?thesis using True an(2) dead by (auto simp: order_ok_def Let_def is_open_def inb)
      next
        case False
        then show ?thesis using D(3) [of x] that by (auto simp: order_ok_def Let_def inb)
      qed
      show "book_ok (en_store ?e) (en_book ?e)" using bok by simp
      show "a < en_next ?e" if "in_book (en_book ?e) a" for a using that D(2) [of a] inb by simp
      show "or_sequence (en_store ?e x) \<le> n" if "x < en_next ?e" for x using that D(4) [of x] D(4) [of a] an(1) by auto
      show "x < en_next ?e \<and> or_id (en_store ?e x) = j" if "dict_get (en_orders ?e) j = Some x" for j x
        using that D(5) [of j x] by auto
      show "trades_known ?e" using D(7) by (simp add: trades_known_def)
    qed
    then show ?thesis using run Some by simp
  qed
  then show "engine_ok n (snd (engine_cancel e i))"
    and "fst (engine_cancel e i) = (if dict_get (bk_resting (en_book e)) i = None then Inl NotFoundError else Inr [])"
    and "dict_get (bk_resting (en_book e)) i = None \<Longrightarrow> snd (engine_cancel e i) = e" by blast+
qed


text \<open>A sequenced new order: what \<^verbatim>\<open>apply\<close> answers, and that the invariant holds again afterwards.\<close>

lemma engine_apply_new:
  assumes ok: "engine_ok n e" and new: "dict_get (en_orders e) (no_id c) = None" "0 < no_quantity c" "n < sequence"
    and acc: "accept_order e sequence c = (t, e1)"
  obtains trades e' where "engine_apply e sequence (NewOrder c) = Some (Inr trades, e')" "engine_ok sequence e'"
    and "trades = (if risk_reason e1 (en_store e1 t) = None
           then snd (greedy (en_symbol e) t (open_orders e (opposite (no_side c))) (en_store e1) []) else [])"
    and "en_trades e' = en_trades e @ trades"
proof -
  note A = engine_ok_accept [OF ok new acc]
  have side: "or_side (en_store e1 t) = no_side c" and status: "or_status (en_store e1 t) = ST_NEW"
    using acc by (auto simp: accept_order_def Let_def)
  let ?s = "opposite (no_side c)"
  note goal = that
  show ?thesis
  proof (cases "risk_reason e1 (en_store e1 t)")
    case (Some reason)
    let ?e = "set_order t (\<lambda>r. r\<lparr>or_status := REJECTED, or_reject_reason := Some reason\<rparr>) e1"
    have "engine_ok sequence ?e"
      by (rule engine_ok_closed [OF A(1)]) (simp_all add: or_static_def is_open_def)
    moreover have "engine_apply e sequence (NewOrder c) = Some (Inr [], ?e)"
      by (simp add: engine_apply_def acc Some)
    moreover have "en_trades ?e = en_trades e" by (simp add: set_order_def A(6))
    ultimately show ?thesis using that [of "[]" ?e] Some by simp
  next
    case None
    from engine_ok_match [OF A(1) side [symmetric, THEN arg_cong [where f = opposite]], of "en_symbol e1"]
    obtain os b trades where M: "book_match (en_symbol e1) t (en_store e1) (en_book e1) = Some (os, b, trades)"
      "greedy (en_symbol e1) t (book_live (en_store e1) (en_book e1) ?s) (en_store e1) [] = (os, trades)"
      "engine_ok_but t sequence (e1\<lparr>en_store := os, en_book := b, en_trades := en_trades e1 @ trades\<rparr>)"
      "\<And>a. or_static (os a) = or_static (en_store e1 a)" "or_status (os t) = or_status (en_store e1 t)"
      "\<And>y. y \<in> set trades \<Longrightarrow> \<exists>a. in_book (en_book e1) a \<and> trade_between (os t) (os a) y"
      "0 < or_remaining (os t) \<Longrightarrow> \<forall>a \<in> set (book_live os b ?s). \<not> crosses (os t) (the (or_price (os a)))"
      by metis
    let ?e2 = "e1\<lparr>en_store := os, en_book := b, en_trades := en_trades e1 @ trades\<rparr>"
    note st = or_staticD [OF M(4)]
    have maker: "\<exists>a. dict_get (en_orders ?e2) (if tr_aggressor y = BUY then tr_sell y else tr_buy y) = Some a \<and>
        dict_get (en_open ?e2) (or_account (en_store ?e2 a)) \<noteq> None" if y: "y \<in> set trades" for y
    proof -
      obtain a where a: "in_book (en_book e1) a" "trade_between (os t) (os a) y" using M(6) [OF y] by blast
      have "a < en_next e1" "a \<noteq> t"
        using engine_ok_butD(2,4) [OF A(1)] a(1) by (auto simp: taker_ok_def Let_def)
      then have "order_ok e1 a" using engine_ok_butD(3) [OF A(1)] by blast
      then have "dict_get (en_orders e1) (or_id (en_store e1 a)) = Some a"
        "dict_get (en_open e1) (or_account (en_store e1 a)) \<noteq> None" using a(1) by (auto simp: order_ok_def Let_def)
      moreover have "(if tr_aggressor y = BUY then tr_sell y else tr_buy y) = or_id (os a)"
        using a(2) by (cases "or_side (os t)") (auto simp: trade_between_def)
      ultimately show ?thesis by (auto simp: st)
    qed
    from release_filled_makers_ok [OF maker] obtain op where R:
      "release_filled_makers trades ?e2 = (Inr (), ?e2\<lparr>en_open := op\<rparr>)"
      "\<forall>k. dict_get op k \<noteq> None \<longleftrightarrow> dict_get (en_open ?e2) k \<noteq> None" by blast
    define e4 where "e4 = ?e2\<lparr>en_open := op, en_last_price :=
       (if trades \<noteq> [] then Some (tr_price (last trades)) else en_last_price e1)\<rparr>"
    have e4: "engine_ok_but t sequence e4"
      unfolding e4_def by (rule engine_ok_but_open [OF M(3)]) (use R(2) in blast)
    have unfold: "engine_apply e sequence (NewOrder c) =
        (case settle_taker t trades e4 of (Inl x, e5) \<Rightarrow> Some (Inl x, e5) | (Inr _, e5) \<Rightarrow> Some (Inr trades, e5))"
      using acc None M(1) R(1) by (simp add: engine_apply_def Let_def e4_def)
    have f4: "en_store e4 = os" "en_book e4 = b" "en_trades e4 = en_trades e @ trades"
      by (simp_all add: e4_def A(6))
    have trades: "trades = snd (greedy (en_symbol e) t (open_orders e ?s) (en_store e1) [])"
      using M(2) A(2) A(5) by simp
    have closed: ?thesis if st: "\<not> is_open (r\<lparr>or_status := status\<rparr>)" "settle_taker t trades e4 = (Inr (), set_order t (\<lambda>r. r\<lparr>or_status := status\<rparr>) e4)" for status r
    proof -
      have "engine_ok sequence (set_order t (\<lambda>r. r\<lparr>or_status := status\<rparr>) e4)"
        by (rule engine_ok_closed [OF e4]) (use st(1) in \<open>simp_all add: or_static_def is_open_def\<close>)
      moreover have "en_trades (set_order t (\<lambda>r. r\<lparr>or_status := status\<rparr>) e4) = en_trades e @ trades"
        by (simp add: set_order_def f4)
      ultimately show ?thesis using unfold st(2) trades None by (intro goal) simp_all
    qed
    consider (filled) "or_remaining (os t) = 0" | (dropped) "or_remaining (os t) \<noteq> 0" "or_price (os t) = None \<or> or_tif (os t) = IOC"
      | (rests) "or_remaining (os t) \<noteq> 0" "\<not> (or_price (os t) = None \<or> or_tif (os t) = IOC)" by blast
    then show ?thesis
    proof cases
      case filled
      then show ?thesis by (intro closed [of FILLED no_order]) (simp_all add: is_open_def settle_taker_def Let_def f4)
    next
      case dropped
      then show ?thesis by (intro closed [of CANCELLED no_order]) (auto simp add: is_open_def settle_taker_def Let_def f4)
    next
      case rests
      then obtain p where p: "or_price (os t) = Some p" by auto
      have pos: "0 < or_remaining (os t)"
        using rests(1) engine_ok_butD(4) [OF e4] by (simp add: taker_ok_def Let_def f4)
      let ?st = "if trades \<noteq> [] then PARTIALLY_FILLED else ST_NEW"
      let ?e1 = "set_order t (\<lambda>r. r\<lparr>or_status := ?st\<rparr>) e4"
      have s': "?s = opposite (or_side (en_store e4 t))" by (simp add: f4 st side)
      let ?m = "open_count ?e1 (or_account (en_store e4 t)) + 1"
      obtain b' where b': "book_rest (en_store ?e1) (en_book ?e1) t = Inr b'"
        "engine_ok sequence (?e1\<lparr>en_book := b', en_open := dict_set (or_account (en_store e4 t)) ?m (en_open ?e1)\<rparr>)"
        by (rule engine_ok_rested [OF e4 _ _ s' _ _ refl, where st = ?st]) (use p pos M(7) f4 in auto)
      define e6 where "e6 = ?e1\<lparr>en_book := b', en_open := dict_set (or_account (en_store e4 t)) ?m (en_open ?e1)\<rparr>"
      have "settle_taker t trades e4 = (Inr (), e6)"
        using rests p b'(1) by (simp add: settle_taker_def Let_def f4(1) e6_def)
      then have run: "engine_apply e sequence (NewOrder c) = Some (Inr trades, e6)" using unfold by simp
      have "en_trades e6 = en_trades e @ trades" by (simp add: e6_def set_order_def f4)
      moreover have "engine_ok sequence e6" using b'(2) unfolding e6_def .
      ultimately show ?thesis using goal [OF run] trades None by simp
    qed
  qed
qed


section \<open>Reachable exchanges\<close>

text \<open>
  An exchange runs by \<^verbatim>\<open>gateway_send\<close>: every command is journalled, then applied. New orders are
  valid and carry an id of their own. \<open>ok\<close> records whether every command so far was applied
  without an exception.
\<close>

definition fresh_command :: "engine \<Rightarrow> command \<Rightarrow> bool" where
  "fresh_command e c = (case c of CancelOrder i \<Rightarrow> True
     | NewOrder r \<Rightarrow> new_order_check r = Inr r \<and> dict_get (en_orders e) (no_id r) = None)"

inductive exchange :: "string \<Rightarrow> risk_limits option \<Rightarrow> journal \<Rightarrow> engine \<Rightarrow> bool \<Rightarrow> bool" for symbol limits where
  start: "exchange symbol limits [] (engine_new symbol limits) True"
| send: "exchange symbol limits j e ok \<Longrightarrow> fresh_command e c \<Longrightarrow> gateway_send j e c = Some (res, j', e') \<Longrightarrow>
    exchange symbol limits j' e' (ok \<and> \<not> isl res)"

lemma engine_ok_new: "engine_ok 0 (engine_new symbol limits)"
proof (rule engine_okI)
  show "book_ok (en_store (engine_new symbol limits)) (en_book (engine_new symbol limits))"
    by (simp add: engine_new_def book_new_def book_ok_def side_ok_def levels_ok_def bk_heap_def)
  then show "uncrossed (en_store (engine_new symbol limits)) (en_book (engine_new symbol limits))"
    by (auto simp: uncrossed_def book_live_mem) (auto simp: engine_new_def book_new_def in_book_def)
qed (auto simp: engine_new_def book_new_def in_book_def trades_known_def)

lemma engine_ok_mono: "engine_ok n e \<Longrightarrow> n \<le> m \<Longrightarrow> engine_ok m e"
  unfolding engine_ok_def by (meson order_trans)

lemma new_order_check_pos: "new_order_check r = Inr r \<Longrightarrow> 0 < no_quantity r"
  by (simp add: new_order_check_def split: if_splits)

text \<open>A command is answered: a new order always with its trades, a cancellation possibly refused.\<close>

lemma engine_apply_ok:
  assumes "engine_ok n e" "fresh_command e c" "n < sequence"
  shows "\<exists>res e'. engine_apply e sequence c = Some (res, e') \<and> engine_ok sequence e' \<and>
    (case res of Inr trades \<Rightarrow> True | Inl x \<Rightarrow> x = NotFoundError \<and> e' = e)"
proof (cases c)
  case (CancelOrder i)
  obtain res e' where run: "engine_cancel e i = (res, e')" by (metis surj_pair)
  have "engine_ok sequence e'" "case res of Inr trades \<Rightarrow> True | Inl x \<Rightarrow> x = NotFoundError \<and> e' = e"
    using engine_cancel_ok [OF assms(1), of i] engine_ok_mono [of n e' sequence] assms(3) run
    by (auto split: if_splits)
  then show ?thesis using run by (simp add: CancelOrder engine_apply_def)
next
  case (NewOrder r)
  obtain t e1 where "accept_order e sequence r = (t, e1)" by (metis surj_pair)
  moreover have "dict_get (en_orders e) (no_id r) = None" "0 < no_quantity r"
    using assms(2) new_order_check_pos by (auto simp: fresh_command_def NewOrder)
  ultimately obtain trades e' where "engine_apply e sequence (NewOrder r) = Some (Inr trades, e')" "engine_ok sequence e'"
    using engine_apply_new [OF assms(1) _ _ assms(3)] by metis
  then show ?thesis by (auto simp: NewOrder)
qed

lemma exchange_ok: "exchange symbol limits j e ok \<Longrightarrow> engine_ok (int (length j)) e"
proof (induction rule: exchange.induct)
  case start
  then show ?case using engine_ok_new by simp
next
  case (send j e ok c res j' e')
  obtain res1 e1 where "engine_apply e (int (length j) + 1) c = Some (res1, e1)" "engine_ok (int (length j) + 1) e1"
    using engine_apply_ok [OF send.IH send.hyps(2), of "int (length j) + 1"] by auto
  then show ?case using send.hyps(3) by (auto simp: gateway_send_def seq_submit_def Let_def add.commute)
qed

lemma replay_loop_append:
  "replay_loop (j @ k) e = (case replay_loop j e of None \<Rightarrow> None | Some (Inl x) \<Rightarrow> Some (Inl x) | Some (Inr e') \<Rightarrow> replay_loop k e')"
  by (induction j e rule: replay_loop.induct) (auto split: option.splits sum.splits prod.splits)

lemma exchange_replay:
  "exchange symbol limits j e ok \<Longrightarrow>
    engine_replay symbol j limits = Some (if ok then Inr e else Inl NotFoundError)"
proof (induction rule: exchange.induct)
  case start
  then show ?case by (simp add: engine_replay_def)
next
  case (send j e ok c res j' e')
  let ?n = "int (length j) + 1"
  have j': "j' = j @ [(?n, c)]" and run: "engine_apply e ?n c = Some (res, e')"
    using send.hyps(3) by (auto simp: gateway_send_def seq_submit_def Let_def split: option.splits)
  have "case res of Inr trades \<Rightarrow> True | Inl x \<Rightarrow> x = NotFoundError \<and> e' = e"
    using engine_apply_ok [OF exchange_ok [OF send.hyps(1)] send.hyps(2), of ?n] run by auto
  then show ?case
    using send.IH run by (cases res) (auto simp: engine_replay_def j' replay_loop_append split: if_splits)
qed

section \<open>Properties\<close>

text \<open>C4. Price-time priority: in every reachable exchange, a new order is executed exactly as the rule
  book says. Its trades are those of going through the open orders of the other side sorted by
  price and, inside a price, by sequence number, as long as they are acceptable and it has units
  left; heaps, levels and lazy cancellation never change the outcome, and the matching loop ends.\<close>

theorem matching_price_time:
  assumes "exchange symbol limits j e ok" "fresh_command e (NewOrder c)"
    and "accept_order e (int (length j) + 1) c = (t, e1)" "risk_reason e1 (en_store e1 t) = None"
  shows "\<exists>e'. gateway_send j e (NewOrder c) =
    Some (Inr (snd (greedy (en_symbol e) t (open_orders e (opposite (no_side c))) (en_store e1) [])),
      j @ [(int (length j) + 1, NewOrder c)], e')"
proof -
  have pos: "0 < no_quantity c" "dict_get (en_orders e) (no_id c) = None"
    using assms(2) new_order_check_pos by (auto simp: fresh_command_def)
  obtain trades e' where run: "engine_apply e (int (length j) + 1) (NewOrder c) = Some (Inr trades, e')"
    "trades = (if risk_reason e1 (en_store e1 t) = None
       then snd (greedy (en_symbol e) t (open_orders e (opposite (no_side c))) (en_store e1) []) else [])"
    by (rule engine_apply_new [OF exchange_ok [OF assms(1)] pos(2,1) _ assms(3)]) auto
  then show ?thesis using assms(4) by (simp add: gateway_send_def seq_submit_def Let_def)
qed

text \<open>C19. The book never stands crossed and no unit is lost: in every reachable exchange every open bid
  is below every open ask, every order's quantity is what remains of it plus what its trades
  executed, and what remains is never negative.\<close>

theorem book_uncrossed_conserving:
  assumes "exchange symbol limits j e ok"
  shows "(\<forall>x \<in> set (open_orders e BUY). \<forall>y \<in> set (open_orders e SELL).
      the (or_price (en_store e x)) < the (or_price (en_store e y))) \<and>
    (\<forall>i r. engine_order e i = Inr r \<longrightarrow> 0 \<le> or_remaining r \<and> filled_quantity r = executed (en_trades e) r)"
proof -
  note ok = exchange_ok [OF assms]
  have "\<forall>i r. engine_order e i = Inr r \<longrightarrow> 0 \<le> or_remaining r \<and> filled_quantity r = executed (en_trades e) r"
  proof (intro allI impI)
    fix i r assume "engine_order e i = Inr r"
    then obtain a where "dict_get (en_orders e) i = Some a" "r = en_store e a"
      by (auto simp: engine_order_def split: option.splits)
    then show "0 \<le> or_remaining r \<and> filled_quantity r = executed (en_trades e) r"
      using engine_okD(5) [OF ok, of i a] engine_okD(3) [OF ok, of a]
      by (simp add: order_ok_def Let_def filled_quantity_def)
  qed
  moreover have "uncrossed (en_store e) (en_book e)" by (rule engine_okD(8) [OF ok])
  ultimately show ?thesis by (simp add: uncrossed_def open_orders_book [OF ok])
qed

text \<open>Replaying the journal rebuilds the engine, state for state, as long as no command was
  refused; after a refused cancellation, which the gateway has already journalled, replay raises
  \<^verbatim>\<open>NotFoundError\<close> instead and the standby cannot take over.\<close>

theorem replay_rebuilds:
  assumes "exchange symbol limits j e ok"
  shows "engine_replay symbol j limits = Some (if ok then Inr e else Inl NotFoundError)"
  by (rule exchange_replay [OF assms])


section \<open>A run\<close>

definition demo_s1 :: new_order where
  "demo_s1 = \<lparr>no_id = ''s1'', no_account = ''mm'', no_side = SELL, no_quantity = 50, no_price = Some 1005, no_tif = GTC\<rparr>"

definition demo_b1 :: new_order where
  "demo_b1 = \<lparr>no_id = ''b1'', no_account = ''hedge'', no_side = BUY, no_quantity = 20, no_price = Some 1010, no_tif = GTC\<rparr>"

definition demo_resting :: engine where
  "demo_resting = (case gateway_send [] (engine_new ''ACME'' None) (NewOrder demo_s1) of
     Some (_, _, e) \<Rightarrow> e | None \<Rightarrow> engine_new ''ACME'' None)"

lemmas engine_defs = gateway_send_def seq_submit_def engine_apply_def accept_order_def risk_reason_def
  engine_new_def book_new_def open_count_def default_limits_def book_match_def book_best_def bk_heap_def
  bk_set_heap_def opposite_def settle_taker_def set_order_def book_rest_def heap_price_def numeral_2_eq_2 Let_def

lemma demo_resting_send:
  "gateway_send [] (engine_new ''ACME'' None) (NewOrder demo_s1) = Some (Inr [], [(1, NewOrder demo_s1)], demo_resting)"
  by (simp add: demo_resting_def demo_s1_def engine_defs)


definition demo_order :: order where
  "demo_order = \<lparr>or_id = ''s1'', or_account = ''mm'', or_side = SELL, or_quantity = 50, or_price = Some 1005, or_tif = GTC,
     or_sequence = 1, or_remaining = 50, or_status = ST_NEW, or_reject_reason = None\<rparr>"

lemma demo_resting_eq:
  "demo_resting = \<lparr>en_symbol = ''ACME'', en_limits = default_limits, en_store = (\<lambda>_. no_order)(0 := demo_order), en_next = 1,
     en_book = \<lparr>bk_bids = [], bk_asks = [1005], bk_levels = [((SELL, 1005), [0])], bk_resting = [(''s1'', 0)]\<rparr>,
     en_trades = [], en_last_price = None, en_orders = [(''s1'', 0)], en_open = [(''mm'', 1)]\<rparr>"
  by (simp add: demo_resting_def demo_s1_def demo_order_def engine_defs)

lemma demo_exchange: "exchange ''ACME'' None [(1, NewOrder demo_s1)] demo_resting True"
proof -
  have "fresh_command (engine_new ''ACME'' None) (NewOrder demo_s1)"
    by (simp add: fresh_command_def new_order_check_def demo_s1_def engine_new_def)
  from exchange.send [OF exchange.start this demo_resting_send] show ?thesis by simp
qed

definition demo_taken :: engine where
  "demo_taken = snd (accept_order demo_resting 2 demo_b1)"

definition demo_taker :: order where
  "demo_taker = \<lparr>or_id = ''b1'', or_account = ''hedge'', or_side = BUY, or_quantity = 20, or_price = Some 1010, or_tif = GTC,
     or_sequence = 2, or_remaining = 20, or_status = ST_NEW, or_reject_reason = None\<rparr>"

lemma demo_taken_facts:
  "accept_order demo_resting (int (length [(1::int, NewOrder demo_s1)]) + 1) demo_b1 = (1, demo_taken)"
  "risk_reason demo_taken (en_store demo_taken 1) = None"
  "open_orders demo_resting SELL = [0]"
  "en_store demo_taken = (\<lambda>_. no_order)(0 := demo_order, 1 := demo_taker)"
  by (simp_all add: demo_taker_def demo_taken_def accept_order_def Let_def demo_resting_eq demo_b1_def risk_reason_def open_count_def
      default_limits_def open_orders_def is_open_def demo_order_def)

theorem matching_price_time_witness:
  "\<exists>e'. gateway_send [(1, NewOrder demo_s1)] demo_resting (NewOrder demo_b1) =
    Some (Inr [\<lparr>tr_id = ''ACME-2-1'', tr_symbol = ''ACME'', tr_price = 1005, tr_quantity = 20, tr_buy = ''b1'',
       tr_sell = ''s1'', tr_aggressor = BUY, tr_sequence = 2\<rparr>],
      [(1, NewOrder demo_s1), (2, NewOrder demo_b1)], e')"
proof -
  have fresh: "fresh_command demo_resting (NewOrder demo_b1)"
    by (simp add: fresh_command_def new_order_check_def demo_b1_def demo_resting_eq)
  have side: "opposite (no_side demo_b1) = SELL" by (simp add: demo_b1_def opposite_def)
  have ids: "str_of_int 2 = ''2''" "str_of_nat (Suc 0) = ''1''" by code_simp+
  have "snd (greedy ''ACME'' 1 [0] (en_store demo_taken) []) =
      [\<lparr>tr_id = ''ACME-2-1'', tr_symbol = ''ACME'', tr_price = 1005, tr_quantity = 20, tr_buy = ''b1'',
       tr_sell = ''s1'', tr_aggressor = BUY, tr_sequence = 2\<rparr>]"
    unfolding demo_taken_facts(4)
    by (simp add: demo_order_def demo_taker_def crosses_def fill_step_def make_trade_def Let_def ids)
  then show ?thesis
    using matching_price_time [OF demo_exchange fresh demo_taken_facts(1,2)] demo_taken_facts(3)
    by (simp add: side demo_resting_eq)
qed

theorem book_uncrossed_conserving_witness:
  "filled_quantity demo_order = executed (en_trades demo_resting) demo_order"
  using book_uncrossed_conserving [OF demo_exchange]
  by (auto simp: engine_order_def demo_resting_eq)

text \<open>A cancellation that is refused: the live engine goes on, its journal can no longer be replayed.\<close>

theorem replay_rebuilds_witness:
  "\<exists>j e. gateway_send [(1, NewOrder demo_s1)] demo_resting (CancelOrder ''x'') = Some (Inl NotFoundError, j, e) \<and>
    e = demo_resting \<and> engine_replay ''ACME'' j None = Some (Inl NotFoundError)"
proof -
  let ?j = "[(1, NewOrder demo_s1), (2, CancelOrder ''x'')]"
  have s: "gateway_send [(1, NewOrder demo_s1)] demo_resting (CancelOrder ''x'') = Some (Inl NotFoundError, ?j, demo_resting)"
    by (simp add: gateway_send_def seq_submit_def Let_def engine_apply_def engine_cancel_def book_cancel_def demo_resting_eq)
  have "exchange ''ACME'' None ?j demo_resting False"
    using exchange.send [OF demo_exchange _ s] by (simp add: fresh_command_def)
  from replay_rebuilds [OF this] s show ?thesis by simp
qed

end
