(* ===== verification/Python_Lib.thy ===== *)
theory Python_Lib
  imports Prelude
begin

text \<open>
  What the modules use of Python's library beyond dictionaries: the binary searches of
  \<^verbatim>\<open>bisect\<close>, the running sums of \<^verbatim>\<open>itertools.accumulate\<close>, and dict comprehensions, each as the
  library's documentation defines it, with the facts their callers rely on.
\<close>

section \<open>Bisection\<close>

function bisect_left_loop :: "('a \<Rightarrow> 'b::linorder) \<Rightarrow> 'a list \<Rightarrow> 'b \<Rightarrow> nat \<Rightarrow> nat \<Rightarrow> nat" where
  "bisect_left_loop key xs x lo hi =
     (if lo < hi
      then let mid = (lo + hi) div 2
           in if key (xs ! mid) < x then bisect_left_loop key xs x (mid + 1) hi
              else bisect_left_loop key xs x lo mid
      else lo)"
  by pat_completeness auto
termination by (relation "measure (\<lambda>(key, xs, x, lo, hi). hi - lo)") auto

function bisect_right_loop :: "('a \<Rightarrow> 'b::linorder) \<Rightarrow> 'a list \<Rightarrow> 'b \<Rightarrow> nat \<Rightarrow> nat \<Rightarrow> nat" where
  "bisect_right_loop key xs x lo hi =
     (if lo < hi
      then let mid = (lo + hi) div 2
           in if x < key (xs ! mid) then bisect_right_loop key xs x lo mid
              else bisect_right_loop key xs x (mid + 1) hi
      else lo)"
  by pat_completeness auto
termination by (relation "measure (\<lambda>(key, xs, x, lo, hi). hi - lo)") auto

declare bisect_left_loop.simps [simp del] bisect_right_loop.simps [simp del]

definition bisect_left :: "('a \<Rightarrow> 'b::linorder) \<Rightarrow> 'a list \<Rightarrow> 'b \<Rightarrow> nat" where
  "bisect_left key xs x = bisect_left_loop key xs x 0 (length xs)"

definition bisect_right :: "('a \<Rightarrow> 'b::linorder) \<Rightarrow> 'a list \<Rightarrow> 'b \<Rightarrow> nat" where
  "bisect_right key xs x = bisect_right_loop key xs x 0 (length xs)"

text \<open>On a sorted list the two searches split it at the first key not below, and above, the goal.\<close>

lemma sorted_key_nth_mono:
  "sorted (map key xs) \<Longrightarrow> i \<le> j \<Longrightarrow> j < length xs \<Longrightarrow> key (xs ! i) \<le> key (xs ! j)"
  using sorted_nth_mono [of "map key xs" i j] by simp

lemma bisect_left_loop_spec:
  assumes "sorted (map key xs)" "lo \<le> hi" "hi \<le> length xs"
    and "\<And>i. i < lo \<Longrightarrow> key (xs ! i) < x" "\<And>i. hi \<le> i \<Longrightarrow> i < length xs \<Longrightarrow> x \<le> key (xs ! i)"
  shows "bisect_left_loop key xs x lo hi \<le> length xs \<and>
    (\<forall>i < bisect_left_loop key xs x lo hi. key (xs ! i) < x) \<and>
    (\<forall>i. bisect_left_loop key xs x lo hi \<le> i \<longrightarrow> i < length xs \<longrightarrow> x \<le> key (xs ! i))"
  using assms
proof (induction key xs x lo hi rule: bisect_left_loop.induct)
  case (1 key xs x lo hi)
  let ?mid = "(lo + hi) div 2"
  show ?case
  proof (cases "lo < hi")
    case False
    then have "bisect_left_loop key xs x lo hi = lo" by (simp add: bisect_left_loop.simps)
    then show ?thesis using "1.prems" False by simp
  next
    case lh: True
    then have mid: "lo \<le> ?mid" "?mid < hi" "?mid < length xs" using "1.prems"(3) by auto
    show ?thesis
    proof (cases "key (xs ! ?mid) < x")
      case True
      have below: "key (xs ! i) < x" if "i < ?mid + 1" for i
        using sorted_key_nth_mono [OF "1.prems"(1), of i ?mid] that mid True by simp
      have e: "bisect_left_loop key xs x lo hi = bisect_left_loop key xs x (?mid + 1) hi"
        using lh True by (subst bisect_left_loop.simps) (simp add: Let_def)
      show ?thesis
        unfolding e by (rule "1.IH"(1) [OF lh refl True "1.prems"(1)]) (use "1.prems"(3,5) mid below in auto)
    next
      case False
      have below: "x \<le> key (xs ! i)" if "?mid \<le> i" "i < length xs" for i
        using sorted_key_nth_mono [OF "1.prems"(1), of ?mid i] that False by simp
      have e: "bisect_left_loop key xs x lo hi = bisect_left_loop key xs x lo ?mid"
        using lh False by (subst bisect_left_loop.simps) (simp add: Let_def)
      show ?thesis
        unfolding e by (rule "1.IH"(2) [OF lh refl False "1.prems"(1)]) (use "1.prems"(4) mid below in auto)
    qed
  qed
qed

lemma bisect_right_loop_spec:
  assumes "sorted (map key xs)" "lo \<le> hi" "hi \<le> length xs"
    and "\<And>i. i < lo \<Longrightarrow> key (xs ! i) \<le> x" "\<And>i. hi \<le> i \<Longrightarrow> i < length xs \<Longrightarrow> x < key (xs ! i)"
  shows "bisect_right_loop key xs x lo hi \<le> length xs \<and>
    (\<forall>i < bisect_right_loop key xs x lo hi. key (xs ! i) \<le> x) \<and>
    (\<forall>i. bisect_right_loop key xs x lo hi \<le> i \<longrightarrow> i < length xs \<longrightarrow> x < key (xs ! i))"
  using assms
proof (induction key xs x lo hi rule: bisect_right_loop.induct)
  case (1 key xs x lo hi)
  let ?mid = "(lo + hi) div 2"
  show ?case
  proof (cases "lo < hi")
    case False
    then have "bisect_right_loop key xs x lo hi = lo" by (simp add: bisect_right_loop.simps)
    then show ?thesis using "1.prems" False by simp
  next
    case lh: True
    then have mid: "lo \<le> ?mid" "?mid < hi" "?mid < length xs" using "1.prems"(3) by auto
    show ?thesis
    proof (cases "x < key (xs ! ?mid)")
      case True
      have below: "x < key (xs ! i)" if "?mid \<le> i" "i < length xs" for i
        using sorted_key_nth_mono [OF "1.prems"(1), of ?mid i] that True by simp
      have e: "bisect_right_loop key xs x lo hi = bisect_right_loop key xs x lo ?mid"
        using lh True by (subst bisect_right_loop.simps) (simp add: Let_def)
      show ?thesis
        unfolding e by (rule "1.IH"(1) [OF lh refl True "1.prems"(1)]) (use "1.prems"(4) mid below in auto)
    next
      case False
      have below: "key (xs ! i) \<le> x" if "i < ?mid + 1" for i
        using sorted_key_nth_mono [OF "1.prems"(1), of i ?mid] that mid False by simp
      have e: "bisect_right_loop key xs x lo hi = bisect_right_loop key xs x (?mid + 1) hi"
        using lh False by (subst bisect_right_loop.simps) (simp add: Let_def)
      show ?thesis
        unfolding e by (rule "1.IH"(2) [OF lh refl False "1.prems"(1)]) (use "1.prems"(3,5) mid below in auto)
    qed
  qed
qed

lemma bisect_left_spec:
  assumes "sorted (map key xs)"
  shows "bisect_left key xs x \<le> length xs" "\<And>i. i < bisect_left key xs x \<Longrightarrow> key (xs ! i) < x"
    "\<And>i. bisect_left key xs x \<le> i \<Longrightarrow> i < length xs \<Longrightarrow> x \<le> key (xs ! i)"
  using bisect_left_loop_spec [OF assms, of 0 "length xs" x] by (auto simp: bisect_left_def)

lemma bisect_right_spec:
  assumes "sorted (map key xs)"
  shows "bisect_right key xs x \<le> length xs" "\<And>i. i < bisect_right key xs x \<Longrightarrow> key (xs ! i) \<le> x"
    "\<And>i. bisect_right key xs x \<le> i \<Longrightarrow> i < length xs \<Longrightarrow> x < key (xs ! i)"
  using bisect_right_loop_spec [OF assms, of 0 "length xs" x] by (auto simp: bisect_right_def)

lemma filter_split_at:
  assumes "n \<le> length xs" "\<And>i. i < n \<Longrightarrow> \<not> P (xs ! i)" "\<And>i. n \<le> i \<Longrightarrow> i < length xs \<Longrightarrow> P (xs ! i)"
  shows "drop n xs = filter P xs" "take n xs = filter (\<lambda>a. \<not> P a) xs"
proof -
  have t: "\<forall>a \<in> set (take n xs). \<not> P a" using assms(1,2) by (auto simp: in_set_conv_nth)
  have d: "\<forall>a \<in> set (drop n xs). P a" using assms(1,3) by (auto simp: in_set_conv_nth)
  have "filter P (take n xs) = []" "filter P (drop n xs) = drop n xs"
    "filter (\<lambda>a. \<not> P a) (take n xs) = take n xs" "filter (\<lambda>a. \<not> P a) (drop n xs) = []"
    using t d by (simp_all add: filter_empty_conv filter_id_conv)
  then have "filter P (take n xs @ drop n xs) = drop n xs"
    "filter (\<lambda>a. \<not> P a) (take n xs @ drop n xs) = take n xs"
    by (simp_all only: filter_append append_Nil append_Nil2)
  then show "drop n xs = filter P xs" "take n xs = filter (\<lambda>a. \<not> P a) xs" by simp_all
qed

lemma drop_bisect_left:
  "sorted (map key xs) \<Longrightarrow> drop (bisect_left key xs x) xs = filter (\<lambda>a. x \<le> key a) xs"
  by (rule filter_split_at(1)) (auto dest: bisect_left_spec simp: not_le)

lemma take_bisect_right:
  "sorted (map key xs) \<Longrightarrow> take (bisect_right key xs x) xs = filter (\<lambda>a. key a \<le> x) xs"
  using filter_split_at(2) [of "bisect_right key xs x" xs "\<lambda>a. x < key a"]
  by (auto dest: bisect_right_spec simp: not_less)

section \<open>Running sums\<close>

fun running_sums :: "int \<Rightarrow> int list \<Rightarrow> int list" where
  "running_sums acc [] = []"
| "running_sums acc (x # xs) = (acc + x) # running_sums (acc + x) xs"

definition accumulate :: "int list \<Rightarrow> int list" where
  "accumulate xs = running_sums 0 xs"

lemma length_running_sums [simp]: "length (running_sums acc xs) = length xs"
  by (induction xs arbitrary: acc) auto

lemma running_sums_nth: "i < length xs \<Longrightarrow> running_sums acc xs ! i = acc + sum_list (take (Suc i) xs)"
  by (induction xs arbitrary: acc i) (auto simp: nth_Cons split: nat.splits)

lemma length_accumulate [simp]: "length (accumulate xs) = length xs"
  by (simp add: accumulate_def)

lemma accumulate_nth: "i < length xs \<Longrightarrow> accumulate xs ! i = sum_list (take (Suc i) xs)"
  by (simp add: accumulate_def running_sums_nth)

section \<open>Bytes\<close>

text \<open>\<^verbatim>\<open>int.from_bytes(bytes, "big")\<close>.\<close>

definition from_bytes_big :: "nat list \<Rightarrow> int" where
  "from_bytes_big bytes = foldl (\<lambda>acc byte. acc * 256 + int byte) 0 bytes"

section \<open>Dict comprehensions\<close>

definition dict_of :: "('k \<times> 'v) list \<Rightarrow> ('k, 'v) dict" where
  "dict_of ps = fold (\<lambda>(k, v). dict_set k v) ps []"

lemma dict_of_snoc [simp]: "dict_of (ps @ [(k, v)]) = dict_set k v (dict_of ps)"
  by (simp add: dict_of_def)

lemma dict_of_Nil [simp]: "dict_of [] = []"
  by (simp add: dict_of_def)

lemma dict_ok_dict_of [simp]: "dict_ok (dict_of ps)"
  by (induction ps rule: rev_induct) auto

lemma dict_keys_dict_of: "set (dict_keys (dict_of ps)) = fst ` set ps"
proof (induction ps rule: rev_induct)
  case (snoc p ps)
  then show ?case using dict_keys_set [of "fst p" "snd p" "dict_of ps"] by (cases p) simp
qed simp

lemma dict_of_distinct: "distinct (map fst ps) \<Longrightarrow> dict_of ps = ps"
proof (induction ps rule: rev_induct)
  case (snoc p ps)
  then have "dict_get ps (fst p) = None" by (auto simp: dict_get_None)
  with snoc show ?case by (cases p) (auto simp: dict_set_new)
qed simp

section \<open>Merging sorted streams\<close>

text \<open>
  \<^verbatim>\<open>heapq.merge\<close> yields the smallest head of its streams at every step and prefers the earlier
  stream on a tie, which is what two-way merging from the right does.
\<close>

fun merge_by :: "('a \<Rightarrow> 'b::linorder) \<Rightarrow> 'a list \<Rightarrow> 'a list \<Rightarrow> 'a list" where
  "merge_by key [] ys = ys"
| "merge_by key xs [] = xs"
| "merge_by key (x # xs) (y # ys) =
     (if key x \<le> key y then x # merge_by key xs (y # ys) else y # merge_by key (x # xs) ys)"

definition heapq_merge_by :: "('a \<Rightarrow> 'b::linorder) \<Rightarrow> 'a list list \<Rightarrow> 'a list" where
  "heapq_merge_by key runs = foldr (merge_by key) runs []"

lemma merge_by_Nil [simp]: "merge_by key xs [] = xs"
  by (cases xs) auto

lemma mset_merge_by [simp]: "mset (merge_by key xs ys) = mset xs + mset ys"
  by (induction key xs ys rule: merge_by.induct) auto

lemma set_merge_by [simp]: "set (merge_by key xs ys) = set xs \<union> set ys"
  by (induction key xs ys rule: merge_by.induct) auto

lemma sorted_merge_by:
  "sorted (map key xs) \<Longrightarrow> sorted (map key ys) \<Longrightarrow> sorted (map key (merge_by key xs ys))"
  by (induction key xs ys rule: merge_by.induct) (auto 4 3 simp: not_le intro: less_imp_le order_trans)

lemma sorted_heapq_merge_by:
  "(\<And>r. r \<in> set runs \<Longrightarrow> sorted (map key r)) \<Longrightarrow> sorted (map key (heapq_merge_by key runs))"
  by (induction runs) (auto simp: heapq_merge_by_def sorted_merge_by)

lemma mset_heapq_merge_by: "mset (heapq_merge_by key runs) = mset (concat runs)"
  by (induction runs) (auto simp: heapq_merge_by_def)

end
