(* ===== verification/Mini_Kafka.thy ===== *)
theory Mini_Kafka
  imports Common Python_Lib
begin

text \<open>
  The in-memory Kafka of \<^verbatim>\<open>code/hld/mini_kafka.py\<close>: pt logs with compaction and
  retention, the broker with its committed offsets and producer sequence table, the idempotent
  producer, and consumer groups with the range assignor and an eager rebalance.

  The MD5 digest behind the partitioner is a parameter, a function from the key to its bytes. An
  operation that raises answers the exception beside the state it leaves behind, which is not
  always the state it found: \<^verbatim>\<open>poll\<close>, \<^verbatim>\<open>commit\<close>, \<^verbatim>\<open>join\<close> and \<^verbatim>\<open>send\<close> raise half way.
\<close>

section \<open>The partition log\<close>

definition partition_hash :: "(string \<Rightarrow> nat list) \<Rightarrow> string \<Rightarrow> int" where
  "partition_hash md5 key = foldl (\<lambda>acc byte. acc * 256 + int byte) 0 (take 4 (md5 key))"

record kafka_record =
  kr_topic :: string
  kr_partition :: int
  kr_offset :: int
  kr_key :: "string option"
  kr_value :: "string option"
  kr_time :: time

record kafka_log =
  lg_topic :: string
  lg_index :: int
  lg_records :: "kafka_record list"
  lg_end :: int
  lg_start :: int

definition plog_new :: "string \<Rightarrow> int \<Rightarrow> kafka_log" where
  "plog_new topic index = \<lparr>lg_topic = topic, lg_index = index, lg_records = [], lg_end = 0, lg_start = 0\<rparr>"

definition plog_append ::
  "kafka_log \<Rightarrow> string option \<Rightarrow> string option \<Rightarrow> time \<Rightarrow> kafka_record \<times> kafka_log" where
  "plog_append l key value timestamp =
     (let r = \<lparr>kr_topic = lg_topic l, kr_partition = lg_index l, kr_offset = lg_end l,
               kr_key = key, kr_value = value, kr_time = timestamp\<rparr>
      in (r, l\<lparr>lg_records := lg_records l @ [r], lg_end := lg_end l + 1\<rparr>))"

text \<open>The broker only reads with a positive limit.\<close>

definition plog_read :: "kafka_log \<Rightarrow> int \<Rightarrow> int \<Rightarrow> kafka_record list result" where
  "plog_read l offset limit =
     (if offset < lg_start l then Inl OffsetOutOfRangeError
      else Inr (take (nat limit) (drop (bisect_left kr_offset (lg_records l) offset) (lg_records l))))"

definition plog_compact :: "kafka_log \<Rightarrow> int \<times> kafka_log" where
  "plog_compact l =
     (let newest = dict_of (map (\<lambda>r. (kr_key r, kr_offset r))
                     (filter (\<lambda>r. kr_key r \<noteq> None) (lg_records l)));
          keep = filter (\<lambda>r. kr_key r = None \<or> dict_get newest (kr_key r) = Some (kr_offset r)) (lg_records l)
      in (int (length (lg_records l)) - int (length keep), l\<lparr>lg_records := keep\<rparr>))"

definition plog_expire :: "kafka_log \<Rightarrow> time \<Rightarrow> int \<times> kafka_log" where
  "plog_expire l before =
     (let keep = filter (\<lambda>r. before \<le> kr_time r) (lg_records l)
      in (int (length (lg_records l)) - int (length keep),
          l\<lparr>lg_records := keep, lg_start := (if keep = [] then lg_end l else kr_offset (hd keep))\<rparr>))"

section \<open>The broker\<close>

record kafka_broker =
  kb_topics :: "(string, kafka_log list) dict"
  kb_retention :: "(string, time option) dict"
  kb_committed :: "(string \<times> string \<times> int, int) dict"
  kb_sequences :: "(string \<times> string \<times> int, int \<times> kafka_record) dict"

definition kb_new :: kafka_broker where
  "kb_new = \<lparr>kb_topics = [], kb_retention = [], kb_committed = [], kb_sequences = []\<rparr>"

definition kb_create_topic ::
  "kafka_broker \<Rightarrow> string \<Rightarrow> int \<Rightarrow> time option \<Rightarrow> unit result \<times> kafka_broker" where
  "kb_create_topic b name partitions retention =
     (if partitions \<le> 0 then (Inl ValidationError, b)
      else if (case retention of None \<Rightarrow> False | Some t \<Rightarrow> t \<le> 0) then (Inl ValidationError, b)
      else if dict_get (kb_topics b) name \<noteq> None then (Inl ConflictError, b)
      else (Inr (), b\<lparr>kb_topics := dict_set name (map (plog_new name) [0..partitions - 1]) (kb_topics b),
                      kb_retention := dict_set name retention (kb_retention b)\<rparr>))"

definition kb_logs :: "kafka_broker \<Rightarrow> string \<Rightarrow> kafka_log list result" where
  "kb_logs b topic =
     (case dict_get (kb_topics b) topic of None \<Rightarrow> Inl NotFoundError | Some logs \<Rightarrow> Inr logs)"

definition kb_partition :: "kafka_broker \<Rightarrow> string \<Rightarrow> int \<Rightarrow> kafka_log result" where
  "kb_partition b topic pt =
     (case kb_logs b topic of
        Inl e \<Rightarrow> Inl e
      | Inr logs \<Rightarrow> if \<not> (0 \<le> pt \<and> pt < int (length logs)) then Inl ValidationError
                    else Inr (logs ! nat pt))"

text \<open>A log is updated in place through the reference the topic map holds.\<close>

definition put_log :: "kafka_broker \<Rightarrow> string \<Rightarrow> int \<Rightarrow> kafka_log \<Rightarrow> kafka_broker" where
  "put_log b topic pt l =
     (case dict_get (kb_topics b) topic of
        None \<Rightarrow> b
      | Some logs \<Rightarrow> b\<lparr>kb_topics := dict_set topic (logs[nat pt := l]) (kb_topics b)\<rparr>)"

definition kb_partition_count :: "kafka_broker \<Rightarrow> string \<Rightarrow> int result" where
  "kb_partition_count b topic =
     (case kb_logs b topic of Inl e \<Rightarrow> Inl e | Inr logs \<Rightarrow> Inr (int (length logs)))"

definition kb_append ::
  "kafka_broker \<Rightarrow> time \<Rightarrow> string \<Rightarrow> int \<Rightarrow> string option \<Rightarrow> string option \<Rightarrow> string option \<Rightarrow> int option \<Rightarrow>
   kafka_record result \<times> kafka_broker" where
  "kb_append b now topic pt key value producer_id sequence =
     (case kb_partition b topic pt of
        Inl e \<Rightarrow> (Inl e, b)
      | Inr l \<Rightarrow>
          (case producer_id of
             None \<Rightarrow> (case plog_append l key value now of (r, l') \<Rightarrow> (Inr r, put_log b topic pt l'))
           | Some pid \<Rightarrow>
               (case sequence of
                  None \<Rightarrow> (Inl ValidationError, b)
                | Some n \<Rightarrow>
                    let latest = dict_get (kb_sequences b) (pid, topic, pt);
                        expected = (case latest of None \<Rightarrow> 0 | Some (m, _) \<Rightarrow> m + 1)
                    in if (case latest of None \<Rightarrow> False | Some (m, _) \<Rightarrow> n = m)
                       then (Inr (snd (the latest)), b)
                       else if n \<noteq> expected then (Inl ConflictError, b)
                       else (case plog_append l key value now of
                               (r, l') \<Rightarrow>
                                 let b' = put_log b topic pt l'
                                 in (Inr r, b'\<lparr>kb_sequences :=
                                      dict_set (pid, topic, pt) (n, r) (kb_sequences b')\<rparr>)))))"

definition kb_fetch :: "kafka_broker \<Rightarrow> string \<Rightarrow> int \<Rightarrow> int \<Rightarrow> int \<Rightarrow> kafka_record list result" where
  "kb_fetch b topic pt offset limit =
     (if limit \<le> 0 then Inl ValidationError
      else case kb_partition b topic pt of Inl e \<Rightarrow> Inl e | Inr l \<Rightarrow> plog_read l offset limit)"

definition kb_offsets :: "kafka_broker \<Rightarrow> string \<Rightarrow> int \<Rightarrow> (int \<times> int) result" where
  "kb_offsets b topic pt =
     (case kb_partition b topic pt of Inl e \<Rightarrow> Inl e | Inr l \<Rightarrow> Inr (lg_start l, lg_end l))"

definition kb_commit ::
  "kafka_broker \<Rightarrow> string \<Rightarrow> string \<Rightarrow> int \<Rightarrow> int \<Rightarrow> unit result \<times> kafka_broker" where
  "kb_commit b grp topic pt offset =
     (case kb_partition b topic pt of
        Inl e \<Rightarrow> (Inl e, b)
      | Inr l \<Rightarrow>
          if \<not> (0 \<le> offset \<and> offset \<le> lg_end l) then (Inl ValidationError, b)
          else (Inr (), b\<lparr>kb_committed := dict_set (grp, topic, pt) offset (kb_committed b)\<rparr>))"

definition kb_committed_offset :: "kafka_broker \<Rightarrow> string \<Rightarrow> string \<Rightarrow> int \<Rightarrow> int option" where
  "kb_committed_offset b grp topic pt = dict_get (kb_committed b) (grp, topic, pt)"

definition kb_lag :: "kafka_broker \<Rightarrow> string \<Rightarrow> string \<Rightarrow> (int, int) dict result" where
  "kb_lag b grp topic =
     (case kb_logs b topic of
        Inl e \<Rightarrow> Inl e
      | Inr logs \<Rightarrow> Inr (dict_of (map (\<lambda>l. (lg_index l,
          lg_end l - (case dict_get (kb_committed b) (grp, topic, lg_index l) of
                        None \<Rightarrow> lg_start l | Some offset \<Rightarrow> offset))) logs)))"

definition kb_compact :: "kafka_broker \<Rightarrow> string \<Rightarrow> int result \<times> kafka_broker" where
  "kb_compact b topic =
     (case kb_logs b topic of
        Inl e \<Rightarrow> (Inl e, b)
      | Inr logs \<Rightarrow> (Inr (sum_list (map (fst \<circ> plog_compact) logs)),
          b\<lparr>kb_topics := dict_set topic (map (snd \<circ> plog_compact) logs) (kb_topics b)\<rparr>))"

definition kb_expire :: "kafka_broker \<Rightarrow> time \<Rightarrow> string \<Rightarrow> int result \<times> kafka_broker" where
  "kb_expire b now topic =
     (case kb_logs b topic of
        Inl e \<Rightarrow> (Inl e, b)
      | Inr logs \<Rightarrow>
          (case dict_get (kb_retention b) topic of
             None \<Rightarrow> (Inl KeyError, b)
           | Some None \<Rightarrow> (Inr 0, b)
           | Some (Some retention) \<Rightarrow>
               let before = now - retention
               in (Inr (sum_list (map (\<lambda>l. fst (plog_expire l before)) logs)),
                   b\<lparr>kb_topics := dict_set topic (map (\<lambda>l. snd (plog_expire l before)) logs) (kb_topics b)\<rparr>)))"

section \<open>The idempotent producer\<close>

record kafka_producer =
  kp_id :: string
  kp_sequences :: "(string \<times> int, int) dict"
  kp_round_robin :: int

definition kp_new :: "string \<Rightarrow> kafka_producer" where
  "kp_new producer_id = \<lparr>kp_id = producer_id, kp_sequences = [], kp_round_robin = 0\<rparr>"

definition partition_for ::
  "(string \<Rightarrow> nat list) \<Rightarrow> kafka_broker \<Rightarrow> kafka_producer \<Rightarrow> string \<Rightarrow> string option \<Rightarrow>
   int result \<times> kafka_producer" where
  "partition_for md5 b p topic key =
     (case kb_partition_count b topic of
        Inl e \<Rightarrow> (Inl e, p)
      | Inr n \<Rightarrow>
          (case key of
             None \<Rightarrow> (Inr (kp_round_robin p mod n), p\<lparr>kp_round_robin := kp_round_robin p + 1\<rparr>)
           | Some k \<Rightarrow> (Inr (partition_hash md5 k mod n), p)))"

text \<open>The list comprehension of \<^verbatim>\<open>send\<close>; \<open>clock i\<close> is the reading at the i-th attempt.\<close>

fun send_attempts ::
  "nat \<Rightarrow> kafka_broker \<Rightarrow> time list \<Rightarrow> string \<Rightarrow> int \<Rightarrow> string option \<Rightarrow> string option \<Rightarrow> string \<Rightarrow> int \<Rightarrow>
   kafka_record list result \<times> kafka_broker" where
  "send_attempts 0 b clock topic pt key value pid n = (Inr [], b)"
| "send_attempts (Suc k) b clock topic pt key value pid n =
     (case kb_append b (hd clock) topic pt key value (Some pid) (Some n) of
        (Inl e, b1) \<Rightarrow> (Inl e, b1)
      | (Inr r, b1) \<Rightarrow>
          (case send_attempts k b1 (tl clock) topic pt key value pid n of
             (Inl e, b2) \<Rightarrow> (Inl e, b2)
           | (Inr rs, b2) \<Rightarrow> (Inr (r # rs), b2)))"

definition kp_send ::
  "(string \<Rightarrow> nat list) \<Rightarrow> kafka_broker \<Rightarrow> kafka_producer \<Rightarrow> time list \<Rightarrow> string \<Rightarrow> string option \<Rightarrow>
   string option \<Rightarrow> int \<Rightarrow> kafka_record result \<times> kafka_producer \<times> kafka_broker" where
  "kp_send md5 b p clock topic value key attempts =
     (if attempts \<le> 0 then (Inl ValidationError, p, b)
      else case partition_for md5 b p topic key of
             (Inl e, p1) \<Rightarrow> (Inl e, p1, b)
           | (Inr pt, p1) \<Rightarrow>
               let n = (case dict_get (kp_sequences p1) (topic, pt) of None \<Rightarrow> 0 | Some n \<Rightarrow> n)
               in (case send_attempts (nat attempts) b clock topic pt key value (kp_id p1) n of
                     (Inl e, b1) \<Rightarrow> (Inl e, p1, b1)
                   | (Inr rs, b1) \<Rightarrow>
                       (Inr (hd rs), p1\<lparr>kp_sequences := dict_set (topic, pt) (n + 1) (kp_sequences p1)\<rparr>, b1)))"

section \<open>Consumer groups\<close>

record kafka_group =
  cg_id :: string
  cg_topic :: string
  cg_reset :: string
  cg_members :: "string list"
  cg_assignment :: "(string, int list) dict"
  cg_positions :: "(string \<times> int, int) dict"
  cg_generation :: int

definition cg_new :: "string \<Rightarrow> string \<Rightarrow> string \<Rightarrow> kafka_group result" where
  "cg_new group_id topic auto_offset_reset =
     (if auto_offset_reset \<notin> {''earliest'', ''latest''} then Inl ValidationError
      else Inr \<lparr>cg_id = group_id, cg_topic = topic, cg_reset = auto_offset_reset, cg_members = [],
                cg_assignment = [], cg_positions = [], cg_generation = 0\<rparr>)"

text \<open>The range assignor: member \<open>i\<close> of \<open>n\<close> takes one of the first \<open>extra\<close> bigger shares or a base share.\<close>

definition range_assign :: "int \<Rightarrow> string list \<Rightarrow> (string, int list) dict" where
  "range_assign n members =
     (let k = int (length members);
          d = (if k = 0 then 1 else k);
          base = n div d;
          extra = n mod d;
          sizes = map (\<lambda>i. base + (if i < extra then 1 else 0)) [0..k - 1];
          bounds = accumulate (0 # sizes)
      in dict_of (map (\<lambda>(i, m). (m, [bounds ! i..bounds ! Suc i - 1])) (List.enumerate 0 members)))"

definition cg_rebalance :: "kafka_broker \<Rightarrow> kafka_group \<Rightarrow> unit result \<times> kafka_group" where
  "cg_rebalance b g =
     (case kb_partition_count b (cg_topic g) of
        Inl e \<Rightarrow> (Inl e, g)
      | Inr n \<Rightarrow> (Inr (), g\<lparr>cg_assignment := range_assign n (sort (cg_members g)), cg_positions := [],
                            cg_generation := cg_generation g + 1\<rparr>))"

definition cg_require :: "kafka_group \<Rightarrow> string \<Rightarrow> int list result" where
  "cg_require g member =
     (case dict_get (cg_assignment g) member of None \<Rightarrow> Inl NotFoundError | Some ps \<Rightarrow> Inr ps)"

definition cg_join :: "kafka_broker \<Rightarrow> kafka_group \<Rightarrow> string \<Rightarrow> int list result \<times> kafka_group" where
  "cg_join b g member =
     (if member \<in> set (cg_members g) then (Inl ConflictError, g)
      else case cg_rebalance b (g\<lparr>cg_members := cg_members g @ [member]\<rparr>) of
             (Inl e, g1) \<Rightarrow> (Inl e, g1)
           | (Inr _, g1) \<Rightarrow>
               (case dict_get (cg_assignment g1) member of None \<Rightarrow> (Inl KeyError, g1) | Some ps \<Rightarrow> (Inr ps, g1)))"

definition cg_leave :: "kafka_broker \<Rightarrow> kafka_group \<Rightarrow> string \<Rightarrow> unit result \<times> kafka_group" where
  "cg_leave b g member =
     (case cg_require g member of
        Inl e \<Rightarrow> (Inl e, g)
      | Inr _ \<Rightarrow> if member \<notin> set (cg_members g) then (Inl ValueError, g)
                 else cg_rebalance b (g\<lparr>cg_members := remove1 member (cg_members g)\<rparr>))"

definition cg_member_assignment :: "kafka_group \<Rightarrow> string \<Rightarrow> int list result" where
  "cg_member_assignment g member = cg_require g member"

definition start_offset :: "kafka_broker \<Rightarrow> kafka_group \<Rightarrow> int \<Rightarrow> int result" where
  "start_offset b g pt =
     (case kb_committed_offset b (cg_id g) (cg_topic g) pt of
        Some offset \<Rightarrow> Inr offset
      | None \<Rightarrow>
          (case kb_offsets b (cg_topic g) pt of
             Inl e \<Rightarrow> Inl e
           | Inr (log_start, log_end) \<Rightarrow> Inr (if cg_reset g = ''earliest'' then log_start else log_end)))"

text \<open>The fetch of one partition in \<^verbatim>\<open>poll\<close>, with its one retry; answers position and records.\<close>

definition poll_fetch ::
  "kafka_broker \<Rightarrow> kafka_group \<Rightarrow> string \<Rightarrow> int \<Rightarrow> int \<Rightarrow> (int \<times> kafka_record list) result" where
  "poll_fetch b g member pt limit =
     (case (case dict_get (cg_positions g) (member, pt) of
              Some position \<Rightarrow> Inr position | None \<Rightarrow> start_offset b g pt) of
        Inl e \<Rightarrow> Inl e
      | Inr position \<Rightarrow>
          (case kb_fetch b (cg_topic g) pt position limit of
             Inr records \<Rightarrow> Inr (position, records)
           | Inl e \<Rightarrow>
               if e \<noteq> OffsetOutOfRangeError then Inl e
               else (case start_offset b g pt of
                       Inl e \<Rightarrow> Inl e
                     | Inr position \<Rightarrow>
                         (case kb_fetch b (cg_topic g) pt position limit of
                            Inl e \<Rightarrow> Inl e
                          | Inr records \<Rightarrow> Inr (position, records)))))"

fun poll_loop ::
  "kafka_broker \<Rightarrow> string \<Rightarrow> int \<Rightarrow> int list \<Rightarrow> kafka_record list \<Rightarrow> kafka_group \<Rightarrow>
   kafka_record list result \<times> kafka_group" where
  "poll_loop b member max_records [] out g = (Inr out, g)"
| "poll_loop b member max_records (pt # pts) out g =
     (if max_records \<le> int (length out) then (Inr out, g)
      else case poll_fetch b g member pt (max_records - int (length out)) of
             Inl e \<Rightarrow> (Inl e, g)
           | Inr (position, records) \<Rightarrow>
               let position' = (if records \<noteq> [] then kr_offset (last records) + 1 else position)
               in poll_loop b member max_records pts (out @ records)
                    (g\<lparr>cg_positions := dict_set (member, pt) position' (cg_positions g)\<rparr>))"

definition cg_poll ::
  "kafka_broker \<Rightarrow> kafka_group \<Rightarrow> string \<Rightarrow> int \<Rightarrow> kafka_record list result \<times> kafka_group" where
  "cg_poll b g member max_records =
     (case cg_require g member of Inl e \<Rightarrow> (Inl e, g) | Inr pts \<Rightarrow> poll_loop b member max_records pts [] g)"

fun commit_loop ::
  "kafka_group \<Rightarrow> string \<Rightarrow> int list \<Rightarrow> (int, int) dict \<Rightarrow> kafka_broker \<Rightarrow> (int, int) dict result \<times> kafka_broker" where
  "commit_loop g member [] acc b = (Inr acc, b)"
| "commit_loop g member (pt # pts) acc b =
     (case dict_get (cg_positions g) (member, pt) of
        None \<Rightarrow> commit_loop g member pts acc b
      | Some position \<Rightarrow>
          (case kb_commit b (cg_id g) (cg_topic g) pt position of
             (Inl e, b1) \<Rightarrow> (Inl e, b1)
           | (Inr _, b1) \<Rightarrow> commit_loop g member pts (dict_set pt position acc) b1))"

definition cg_commit :: "kafka_broker \<Rightarrow> kafka_group \<Rightarrow> string \<Rightarrow> (int, int) dict result \<times> kafka_broker" where
  "cg_commit b g member =
     (case cg_require g member of Inl e \<Rightarrow> (Inl e, b) | Inr pts \<Rightarrow> commit_loop g member pts [] b)"

definition cg_lag :: "kafka_broker \<Rightarrow> kafka_group \<Rightarrow> (int, int) dict result" where
  "cg_lag b g = kb_lag b (cg_id g) (cg_topic g)"

section \<open>What the operations do to the logs\<close>

lemma kb_partition_iff:
  "kb_partition b t p = Inr l \<longleftrightarrow>
     (\<exists>logs. dict_get (kb_topics b) t = Some logs \<and> 0 \<le> p \<and> p < int (length logs) \<and> l = logs ! nat p)"
  by (auto simp: kb_partition_def kb_logs_def split: option.splits)

lemma kb_partition_cong:
  "kb_topics b' = kb_topics b \<Longrightarrow> kb_partition b' t p = kb_partition b t p"
  by (simp add: kb_partition_def kb_logs_def)

lemma kb_partition_put_log:
  assumes "kb_partition b t p = Inr l"
  shows "kb_partition (put_log b t p l') t' p' = (if t' = t \<and> p' = p then Inr l' else kb_partition b t' p')"
  using assms
  by (auto simp: kb_partition_def kb_logs_def put_log_def split: option.splits if_splits)

lemma put_log_sequences [simp]:
  "kb_sequences (put_log b t p l) = kb_sequences b" "kb_committed (put_log b t p l) = kb_committed b"
  by (simp_all add: put_log_def split: option.splits)

lemma kb_partition_map:
  assumes "dict_get (kb_topics b) topic = Some logs"
    and "kb_topics b' = dict_set topic (map f logs) (kb_topics b)"
  shows "kb_partition b' t p = Inr l \<longleftrightarrow>
    (\<exists>l0. kb_partition b t p = Inr l0 \<and> l = (if t = topic then f l0 else l0))"
  using assms by (auto simp: kb_partition_iff)

text \<open>The outcomes of \<^verbatim>\<open>append\<close>: a duplicate is acknowledged, a new record goes to the end of its log.\<close>

abbreviation logged :: "kafka_log \<Rightarrow> kafka_record \<Rightarrow> kafka_log" where
  "logged l r \<equiv> l\<lparr>lg_records := lg_records l @ [r], lg_end := lg_end l + 1\<rparr>"

lemma kb_append_cases:
  assumes "kb_append b now t p key value producer_id sequence = (res, b')"
  obtains (failed) e where "res = Inl e" "b' = b"
  | (retry) pid n r where "producer_id = Some pid" "sequence = Some n"
      "dict_get (kb_sequences b) (pid, t, p) = Some (n, r)" "res = Inr r" "b' = b"
  | (plain) l where "producer_id = None" "kb_partition b t p = Inr l"
      "res = Inr (fst (plog_append l key value now))" "b' = put_log b t p (snd (plog_append l key value now))"
  | (fresh) l pid n where "producer_id = Some pid" "sequence = Some n" "kb_partition b t p = Inr l"
      "n = (case dict_get (kb_sequences b) (pid, t, p) of None \<Rightarrow> 0 | Some (m, _) \<Rightarrow> m + 1)"
      "res = Inr (fst (plog_append l key value now))"
      "b' = (put_log b t p (snd (plog_append l key value now)))\<lparr>kb_sequences :=
         dict_set (pid, t, p) (n, fst (plog_append l key value now)) (kb_sequences b)\<rparr>"
proof (cases "kb_partition b t p")
  case (Inl e)
  then show ?thesis using assms failed [of e] by (simp add: kb_append_def)
next
  case log: (Inr l)
  show ?thesis
  proof (cases producer_id)
    case None
    then show ?thesis using assms log plain [of l] by (simp add: kb_append_def split: prod.splits)
  next
    case pid: (Some pid)
    show ?thesis
    proof (cases sequence)
      case None
      then show ?thesis using assms log pid failed [of ValidationError] by (simp add: kb_append_def)
    next
      case seq: (Some n)
      show ?thesis
      proof (cases "dict_get (kb_sequences b) (pid, t, p)")
        case None
        show ?thesis
        proof (cases "n = 0")
          case True
          with assms log pid seq None show ?thesis
            by (intro fresh [of pid n l]) (simp_all add: kb_append_def Let_def split: prod.splits)
        next
          case False
          with assms log pid seq None show ?thesis
            by (intro failed [of ConflictError]) (simp_all add: kb_append_def)
        qed
      next
        case (Some x)
        then obtain m r where latest: "dict_get (kb_sequences b) (pid, t, p) = Some (m, r)" by (cases x) auto
        consider "n = m" | "n = m + 1" | "n \<noteq> m" "n \<noteq> m + 1" by blast
        then show ?thesis
        proof cases
          case 1
          with assms log pid seq latest show ?thesis
            by (intro retry [of pid n r]) (simp_all add: kb_append_def)
        next
          case 2
          with assms log pid seq latest show ?thesis
            by (intro fresh [of pid n l]) (simp_all add: kb_append_def Let_def split: prod.splits)
        next
          case 3
          with assms log pid seq latest show ?thesis
            by (intro failed [of ConflictError]) (simp_all add: kb_append_def)
        qed
      qed
    qed
  qed
qed

lemma plog_append_fields [simp]:
  "kr_topic (fst (plog_append l key value now)) = lg_topic l"
  "kr_partition (fst (plog_append l key value now)) = lg_index l"
  "kr_offset (fst (plog_append l key value now)) = lg_end l"
  "snd (plog_append l key value now) = logged l (fst (plog_append l key value now))"
  by (simp_all add: plog_append_def Let_def)

text \<open>The offsets of a log rise strictly and stay between its start and its end.\<close>

definition plog_ok :: "string \<Rightarrow> int \<Rightarrow> kafka_log \<Rightarrow> bool" where
  "plog_ok t p l \<longleftrightarrow> lg_topic l = t \<and> lg_index l = p \<and> 0 \<le> lg_start l \<and> lg_start l \<le> lg_end l \<and>
     sorted_wrt (<) (map kr_offset (lg_records l)) \<and>
     (\<forall>r \<in> set (lg_records l). kr_topic r = t \<and> kr_partition r = p \<and>
        lg_start l \<le> kr_offset r \<and> kr_offset r < lg_end l)"

lemma plog_ok_new: "plog_ok t p (plog_new t p)"
  by (simp add: plog_ok_def plog_new_def)

lemma plog_ok_append:
  "plog_ok t p l \<Longrightarrow> kr_topic r = t \<Longrightarrow> kr_partition r = p \<Longrightarrow> kr_offset r = lg_end l \<Longrightarrow> plog_ok t p (logged l r)"
  by (fastforce simp: plog_ok_def sorted_wrt_append)

lemma sorted_wrt_map_filter: "sorted_wrt R (map f xs) \<Longrightarrow> sorted_wrt R (map f (filter P xs))"
  by (induction xs) auto

lemma plog_ok_compact: "plog_ok t p l \<Longrightarrow> plog_ok t p (snd (plog_compact l))"
  by (auto simp: plog_ok_def plog_compact_def Let_def intro: sorted_wrt_map_filter)

lemma plog_ok_expire:
  assumes "plog_ok t p l"
  shows "plog_ok t p (snd (plog_expire l before))"
proof -
  let ?keep = "filter (\<lambda>r. before \<le> kr_time r) (lg_records l)"
  have sorted: "sorted_wrt (<) (map kr_offset ?keep)"
    using assms sorted_wrt_map_filter by (auto simp: plog_ok_def)
  show ?thesis
  proof (cases ?keep)
    case Nil
    then show ?thesis using assms by (simp add: plog_ok_def plog_expire_def)
  next
    case (Cons r rs)
    have member: "x \<in> set (lg_records l)" if "x \<in> set (r # rs)" for x
      using that unfolding Cons [symmetric] by simp
    have first: "\<forall>x \<in> set (r # rs). kr_offset r \<le> kr_offset x"
      using sorted unfolding Cons by auto
    have r: "lg_start l \<le> kr_offset r" "kr_offset r \<le> lg_end l"
      using assms member [of r] by (auto simp: plog_ok_def)
    have bounds: "\<forall>x \<in> set (r # rs). kr_topic x = t \<and> kr_partition x = p \<and> kr_offset x < lg_end l"
      using assms unfolding plog_ok_def by (blast dest: member)
    have l: "0 \<le> lg_start l" "lg_topic l = t" "lg_index l = p" using assms by (simp_all add: plog_ok_def)
    have "snd (plog_expire l before) = l\<lparr>lg_records := r # rs, lg_start := kr_offset r\<rparr>"
      by (simp add: plog_expire_def Let_def Cons)
    then show ?thesis using sorted bounds first r l unfolding Cons by (simp add: plog_ok_def)
  qed
qed

text \<open>Neither clean-up moves the end of a log or adds a record; expiry only moves the start forward.\<close>

lemma plog_compact_facts [simp]:
  "lg_end (snd (plog_compact l)) = lg_end l" "lg_start (snd (plog_compact l)) = lg_start l"
  "lg_index (snd (plog_compact l)) = lg_index l"
  by (simp_all add: plog_compact_def Let_def)

lemma plog_expire_end [simp]: "lg_end (snd (plog_expire l before)) = lg_end l"
  by (simp add: plog_expire_def Let_def)

lemma plog_cleaned_subset:
  "set (lg_records (snd (plog_compact l))) \<subseteq> set (lg_records l)"
  "set (lg_records (snd (plog_expire l before))) \<subseteq> set (lg_records l)"
  by (auto simp: plog_compact_def plog_expire_def Let_def)

section \<open>Runs of the broker\<close>

text \<open>
  A run of the broker with the accepted appends: \<open>(Some (producer, sequence), r)\<close> for a numbered
  send that was acknowledged with \<open>r\<close>, \<open>(None, r)\<close> for a plain one.
\<close>

type_synonym ack = "(string \<times> int) option \<times> kafka_record"

definition ack_source :: "string option \<Rightarrow> int option \<Rightarrow> (string \<times> int) option" where
  "ack_source producer_id sequence = (case producer_id of None \<Rightarrow> None | Some pid \<Rightarrow> Some (pid, the sequence))"

inductive kb_run :: "ack set \<Rightarrow> kafka_broker \<Rightarrow> bool" where
  start: "kb_run {} kb_new"
| create: "kb_run H b \<Longrightarrow> kb_create_topic b name n retention = (res, b') \<Longrightarrow> kb_run H b'"
| append: "kb_run H b \<Longrightarrow> kb_append b now t p key value producer_id sequence = (Inr r, b') \<Longrightarrow>
    kb_run (insert (ack_source producer_id sequence, r) H) b'"
| refuse: "kb_run H b \<Longrightarrow> kb_append b now t p key value producer_id sequence = (Inl e, b') \<Longrightarrow> kb_run H b'"
| commit: "kb_run H b \<Longrightarrow> kb_commit b grp t p offset = (res, b') \<Longrightarrow> kb_run H b'"
| compact: "kb_run H b \<Longrightarrow> kb_compact b t = (res, b') \<Longrightarrow> kb_run H b'"
| expire: "kb_run H b \<Longrightarrow> kb_expire b now t = (res, b') \<Longrightarrow> kb_run H b'"

definition logs_ok :: "kafka_broker \<Rightarrow> bool" where
  "logs_ok b \<longleftrightarrow> (\<forall>t p l. kb_partition b t p = Inr l \<longrightarrow> plog_ok t p l)"

definition commits_ok :: "kafka_broker \<Rightarrow> bool" where
  "commits_ok b \<longleftrightarrow> (\<forall>g t p c. dict_get (kb_committed b) (g, t, p) = Some c \<longrightarrow>
     (\<exists>l. kb_partition b t p = Inr l \<and> 0 \<le> c \<and> c \<le> lg_end l))"

text \<open>Every slot of a log below its end belongs to exactly one accepted append.\<close>

definition slots_ok :: "ack set \<Rightarrow> kafka_broker \<Rightarrow> bool" where
  "slots_ok H b \<longleftrightarrow>
     (\<forall>src r. (src, r) \<in> H \<longrightarrow> (\<exists>l. kb_partition b (kr_topic r) (kr_partition r) = Inr l \<and>
        0 \<le> kr_offset r \<and> kr_offset r < lg_end l)) \<and>
     (\<forall>t p l n. kb_partition b t p = Inr l \<longrightarrow> 0 \<le> n \<longrightarrow> n < lg_end l \<longrightarrow>
        (\<exists>!a. a \<in> H \<and> kr_topic (snd a) = t \<and> kr_partition (snd a) = p \<and> kr_offset (snd a) = n)) \<and>
     (\<forall>t p l. kb_partition b t p = Inr l \<longrightarrow> set (lg_records l) \<subseteq> snd ` H)"

text \<open>The accepted sequence numbers of a producer on a log are 0 up to its last one, in the order of the log.\<close>

definition sent :: "ack set \<Rightarrow> string \<Rightarrow> string \<Rightarrow> int \<Rightarrow> int \<Rightarrow> kafka_record \<Rightarrow> bool" where
  "sent H pid t p n r \<longleftrightarrow> (Some (pid, n), r) \<in> H \<and> kr_topic r = t \<and> kr_partition r = p"

definition sequences_ok :: "ack set \<Rightarrow> kafka_broker \<Rightarrow> bool" where
  "sequences_ok H b \<longleftrightarrow>
     (\<forall>pid t p n r. dict_get (kb_sequences b) (pid, t, p) = Some (n, r) \<longrightarrow> 0 \<le> n \<and> sent H pid t p n r) \<and>
     (\<forall>pid t p m r. sent H pid t p m r \<longrightarrow>
        (\<exists>n r'. dict_get (kb_sequences b) (pid, t, p) = Some (n, r') \<and> 0 \<le> m \<and> m \<le> n)) \<and>
     (\<forall>pid t p m m' r'. sent H pid t p m' r' \<longrightarrow> 0 \<le> m \<longrightarrow> m \<le> m' \<longrightarrow> (\<exists>r. sent H pid t p m r)) \<and>
     (\<forall>pid t p m m' r r'. sent H pid t p m r \<longrightarrow> sent H pid t p m' r' \<longrightarrow>
        (m < m' \<longrightarrow> kr_offset r < kr_offset r') \<and> (m = m' \<longrightarrow> r = r'))"

text \<open>An operation that only cleans up moves no end and adds no record.\<close>

definition tidied :: "kafka_broker \<Rightarrow> kafka_broker \<Rightarrow> bool" where
  "tidied b b' \<longleftrightarrow> kb_sequences b' = kb_sequences b \<and> kb_committed b' = kb_committed b \<and>
     (\<forall>t p l'. kb_partition b' t p = Inr l' \<longrightarrow> (\<exists>l. kb_partition b t p = Inr l \<and> lg_end l' = lg_end l \<and>
        set (lg_records l') \<subseteq> set (lg_records l) \<and> (plog_ok t p l \<longrightarrow> plog_ok t p l'))) \<and>
     (\<forall>t p l. kb_partition b t p = Inr l \<longrightarrow> (\<exists>l'. kb_partition b' t p = Inr l' \<and> lg_end l' = lg_end l))"

lemma tidied_refl: "tidied b b"
  by (auto simp: tidied_def)

lemma tidied_map:
  assumes "dict_get (kb_topics b) topic = Some logs"
    and "\<And>t p l. lg_end (f l) = lg_end l \<and> set (lg_records (f l)) \<subseteq> set (lg_records l) \<and> (plog_ok t p l \<longrightarrow> plog_ok t p (f l))"
  shows "tidied b (b\<lparr>kb_topics := dict_set topic (map f logs) (kb_topics b)\<rparr>)"
proof -
  let ?b = "b\<lparr>kb_topics := dict_set topic (map f logs) (kb_topics b)\<rparr>"
  have at: "kb_partition ?b t p = Inr l' \<longleftrightarrow>
     (\<exists>l0. kb_partition b t p = Inr l0 \<and> l' = (if t = topic then f l0 else l0))" for t p l'
    by (rule kb_partition_map [OF assms(1)]) simp
  show ?thesis
    unfolding tidied_def at using assms(2) by fastforce
qed

lemma kb_compact_tidied: "tidied b (snd (kb_compact b t))"
  by (auto simp: kb_compact_def kb_logs_def tidied_refl plog_ok_compact
      split: option.splits intro!: tidied_map dest: subsetD [OF plog_cleaned_subset(1)])

lemma kb_expire_tidied: "tidied b (snd (kb_expire b now t))"
  by (auto simp: kb_expire_def kb_logs_def tidied_refl plog_ok_expire Let_def
      split: option.splits intro!: tidied_map dest: subsetD [OF plog_cleaned_subset(2)])

lemma tidied_logs_ok: "tidied b b' \<Longrightarrow> logs_ok b \<Longrightarrow> logs_ok b'"
  unfolding tidied_def logs_ok_def by meson

lemma tidied_commits_ok: "tidied b b' \<Longrightarrow> commits_ok b \<Longrightarrow> commits_ok b'"
  unfolding tidied_def commits_ok_def by metis

lemma tidied_slots_ok:
  assumes "tidied b b'" "slots_ok H b"
  shows "slots_ok H b'"
  unfolding slots_ok_def
proof (intro conjI allI impI)
  fix src r assume "(src, r) \<in> H"
  with assms show "\<exists>l. kb_partition b' (kr_topic r) (kr_partition r) = Inr l \<and> 0 \<le> kr_offset r \<and> kr_offset r < lg_end l"
    unfolding tidied_def slots_ok_def by metis
next
  fix t p l and n :: int assume l: "kb_partition b' t p = Inr l" "0 \<le> n" "n < lg_end l"
  with assms(1) obtain l0 where "kb_partition b t p = Inr l0" "lg_end l = lg_end l0" unfolding tidied_def by meson
  with assms(2) l show "\<exists>!a. a \<in> H \<and> kr_topic (snd a) = t \<and> kr_partition (snd a) = p \<and> kr_offset (snd a) = n"
    unfolding slots_ok_def by simp
next
  fix t p l assume l: "kb_partition b' t p = Inr l"
  with assms(1) obtain l0 where "kb_partition b t p = Inr l0" "set (lg_records l) \<subseteq> set (lg_records l0)"
    unfolding tidied_def by meson
  with assms(2) show "set (lg_records l) \<subseteq> snd ` H" unfolding slots_ok_def by blast
qed

lemma tidied_sequences_ok: "tidied b b' \<Longrightarrow> sequences_ok H b \<Longrightarrow> sequences_ok H b'"
  by (simp add: tidied_def sequences_ok_def)

text \<open>A new topic only adds empty logs.\<close>

lemma kb_create_topic_cases:
  assumes "kb_create_topic b name n retention = (res, b')"
  obtains (failed) e where "res = Inl e" "b' = b"
  | (created) "res = Inr ()" "0 < n" "dict_get (kb_topics b) name = None"
      "kb_sequences b' = kb_sequences b" "kb_committed b' = kb_committed b"
      "\<And>t p l. kb_partition b' t p = Inr l \<longleftrightarrow>
         (if t = name then 0 \<le> p \<and> p < n \<and> l = plog_new name p else kb_partition b t p = Inr l)"
proof (cases "dict_get (kb_topics b) name = None \<and> 0 < n \<and> (\<forall>t. retention = Some t \<longrightarrow> 0 < t)")
  case True
  then have eq: "res = Inr ()" "b' = b\<lparr>kb_topics := dict_set name (map (plog_new name) [0..n - 1]) (kb_topics b),
      kb_retention := dict_set name retention (kb_retention b)\<rparr>"
    using assms by (auto simp: kb_create_topic_def split: option.splits if_splits)
  have "kb_partition b' t p = Inr l \<longleftrightarrow>
      (if t = name then 0 \<le> p \<and> p < n \<and> l = plog_new name p else kb_partition b t p = Inr l)" for t p l
    by (auto simp: eq kb_partition_iff nth_upto)
  with True eq show ?thesis by (intro created) auto
next
  case False
  then show ?thesis using assms failed
    by (auto simp: kb_create_topic_def split: option.splits if_splits)
qed

lemma kb_commit_cases:
  assumes "kb_commit b grp t p offset = (res, b')"
  obtains (failed) e where "res = Inl e" "b' = b"
  | (committed) l where "kb_partition b t p = Inr l" "0 \<le> offset" "offset \<le> lg_end l" "res = Inr ()"
      "b' = b\<lparr>kb_committed := dict_set (grp, t, p) offset (kb_committed b)\<rparr>"
  using assms by (auto simp: kb_commit_def split: sum.splits if_splits)

text \<open>A write at the end of a log, as plain and numbered appends make it.\<close>

definition written :: "kafka_broker \<Rightarrow> kafka_broker \<Rightarrow> kafka_log \<Rightarrow> kafka_record \<Rightarrow> bool" where
  "written b b' l r \<longleftrightarrow> kb_partition b (kr_topic r) (kr_partition r) = Inr l \<and> kr_offset r = lg_end l \<and>
     (\<forall>t p. kb_partition b' t p =
        (if t = kr_topic r \<and> p = kr_partition r then Inr (logged l r) else kb_partition b t p))"

lemma written_put_log:
  assumes "kb_partition b t p = Inr l" "logs_ok b"
  shows "written b (put_log b t p (snd (plog_append l key value now))) l (fst (plog_append l key value now))"
proof -
  have "lg_topic l = t" "lg_index l = p" using assms by (auto simp: logs_ok_def plog_ok_def)
  then show ?thesis using assms(1) by (simp add: written_def kb_partition_put_log [OF assms(1)])
qed

lemma written_logs_ok: "written b b' l r \<Longrightarrow> logs_ok b \<Longrightarrow> logs_ok b'"
  by (auto simp: logs_ok_def written_def intro!: plog_ok_append)

lemma written_commits_ok:
  assumes "written b b' l r" "kb_committed b' = kb_committed b" "commits_ok b"
  shows "commits_ok b'"
  unfolding commits_ok_def assms(2)
proof (intro allI impI)
  fix g t p c assume "dict_get (kb_committed b) (g, t, p) = Some c"
  with assms(3) obtain l0 where "kb_partition b t p = Inr l0" "0 \<le> c" "c \<le> lg_end l0"
    unfolding commits_ok_def by meson
  then show "\<exists>l. kb_partition b' t p = Inr l \<and> 0 \<le> c \<and> c \<le> lg_end l"
    using assms(1) by (auto simp: written_def)
qed

lemma slot_owner:
  "slots_ok H b \<Longrightarrow> (s, q) \<in> H \<Longrightarrow>
     \<exists>l. kb_partition b (kr_topic q) (kr_partition q) = Inr l \<and> 0 \<le> kr_offset q \<and> kr_offset q < lg_end l"
  unfolding slots_ok_def by meson

lemma written_after:
  assumes "written b b' l r" "slots_ok H b" "(s, q) \<in> H" "kr_topic q = kr_topic r" "kr_partition q = kr_partition r"
  shows "kr_offset q < kr_offset r"
  using slot_owner [OF assms(2,3)] assms(1,4,5) by (auto simp: written_def)

lemma written_slots_ok:
  assumes w: "written b b' l r" and logs: "logs_ok b" and slots: "slots_ok H b"
  shows "slots_ok (insert (src, r) H) b'"
proof -
  let ?t = "kr_topic r" and ?p = "kr_partition r"
  have log: "kb_partition b ?t ?p = Inr l" "kr_offset r = lg_end l"
    and log': "kb_partition b' t p = (if t = ?t \<and> p = ?p then Inr (logged l r) else kb_partition b t p)" for t p
    using w by (simp_all add: written_def)
  have end0: "0 \<le> lg_end l" using logs log by (fastforce simp: logs_ok_def plog_ok_def)
  note owner = slot_owner [OF slots]
  have slot: "\<exists>!a. a \<in> H \<and> kr_topic (snd a) = t' \<and> kr_partition (snd a) = p' \<and> kr_offset (snd a) = n"
    if "kb_partition b t' p' = Inr l'" "0 \<le> n" "n < lg_end l'" for t' p' l' n
    using slots that unfolding slots_ok_def by blast
  have kept: "set (lg_records l') \<subseteq> snd ` H" if "kb_partition b t' p' = Inr l'" for t' p' l'
    using slots that unfolding slots_ok_def by meson
  have old: "\<not> (kr_topic q = ?t \<and> kr_partition q = ?p \<and> kr_offset q = lg_end l)" if "(s, q) \<in> H" for s q
    using owner [OF that] log by auto
  show ?thesis
    unfolding slots_ok_def
  proof (intro conjI allI impI)
    fix s q assume "(s, q) \<in> insert (src, r) H"
    then show "\<exists>l. kb_partition b' (kr_topic q) (kr_partition q) = Inr l \<and> 0 \<le> kr_offset q \<and> kr_offset q < lg_end l"
    proof
      assume "(s, q) = (src, r)"
      then show ?thesis using log end0 by (simp add: log')
    next
      assume "(s, q) \<in> H"
      from owner [OF this] obtain l0 where l0: "kb_partition b (kr_topic q) (kr_partition q) = Inr l0"
        "0 \<le> kr_offset q" "kr_offset q < lg_end l0" by blast
      then show ?thesis using log by (auto simp: log')
    qed
  next
    fix t' p' l' and n :: int
    assume l': "kb_partition b' t' p' = Inr l'" "0 \<le> n" "n < lg_end l'"
    show "\<exists>!a. a \<in> insert (src, r) H \<and> kr_topic (snd a) = t' \<and> kr_partition (snd a) = p' \<and> kr_offset (snd a) = n"
    proof (cases "t' = ?t \<and> p' = ?p \<and> n = lg_end l")
      case True
      then show ?thesis using log old by (intro ex1I [of _ "(src, r)"]) auto
    next
      case False
      have "\<exists>l0. kb_partition b t' p' = Inr l0 \<and> n < lg_end l0"
        using l' log False by (auto simp: log' split: if_splits)
      then obtain l0 where "kb_partition b t' p' = Inr l0" "n < lg_end l0" by blast
      with slot [of t' p' l0 n] l'(2) obtain a where a: "a \<in> H" "kr_topic (snd a) = t'"
        "kr_partition (snd a) = p'" "kr_offset (snd a) = n"
        and uniq: "\<And>c. c \<in> H \<and> kr_topic (snd c) = t' \<and> kr_partition (snd c) = p' \<and> kr_offset (snd c) = n \<Longrightarrow> c = a"
        by (auto elim!: ex1E)
      show ?thesis
      proof (rule ex1I [of _ a])
        fix c assume "c \<in> insert (src, r) H \<and> kr_topic (snd c) = t' \<and> kr_partition (snd c) = p' \<and> kr_offset (snd c) = n"
        moreover from this have "c \<noteq> (src, r)" using log False by auto
        ultimately show "c = a" using uniq by blast
      qed (use a in auto)
    qed
  next
    fix t' p' l' assume "kb_partition b' t' p' = Inr l'"
    then show "set (lg_records l') \<subseteq> snd ` insert (src, r) H"
      using kept [of t' p' l'] kept [OF log(1)] by (auto simp: log' split: if_splits)
  qed
qed

lemma sent_plain: "sent (insert (None, r) H) pid t p n q \<longleftrightarrow> sent H pid t p n q"
  by (simp add: sent_def)

lemma sent_numbered:
  "sent (insert (Some (i, k), r) H) pid t p n q \<longleftrightarrow>
     sent H pid t p n q \<or> pid = i \<and> n = k \<and> q = r \<and> t = kr_topic r \<and> p = kr_partition r"
  by (auto simp: sent_def)

lemma plain_sequences_ok:
  "sequences_ok H b \<Longrightarrow> kb_sequences b' = kb_sequences b \<Longrightarrow> sequences_ok (insert (None, r) H) b'"
  by (simp add: sequences_ok_def sent_plain)

text \<open>The next number of a producer keeps its sends gap-free and in log order.\<close>

lemma numbered_sequences_ok:
  assumes ok: "sequences_ok H b"
    and n: "n = (case dict_get (kb_sequences b) (pid, kr_topic r, kr_partition r) of None \<Rightarrow> 0 | Some (m, _) \<Rightarrow> m + 1)"
    and seqs: "kb_sequences b' = dict_set (pid, kr_topic r, kr_partition r) (n, r) (kb_sequences b)"
    and after: "\<And>m q. sent H pid (kr_topic r) (kr_partition r) m q \<Longrightarrow> kr_offset q < kr_offset r"
  shows "sequences_ok (insert (Some (pid, n), r) H) b'"
proof -
  let ?t = "kr_topic r" and ?p = "kr_partition r"
  have table: "0 \<le> k \<and> sent H i t p k q" if "dict_get (kb_sequences b) (i, t, p) = Some (k, q)" for i t p k q
    using ok that unfolding sequences_ok_def by meson
  have known: "\<exists>k q'. dict_get (kb_sequences b) (i, t, p) = Some (k, q') \<and> 0 \<le> m \<and> m \<le> k"
    if "sent H i t p m q" for i t p m q
    using ok that unfolding sequences_ok_def by meson
  have down: "\<exists>q. sent H i t p m q" if "sent H i t p m' q'" "0 \<le> m" "m \<le> m'" for i t p m m' q'
    using ok that unfolding sequences_ok_def by meson
  have order: "(m < m' \<longrightarrow> kr_offset q < kr_offset q') \<and> (m = m' \<longrightarrow> q = q')"
    if "sent H i t p m q" "sent H i t p m' q'" for i t p m m' q q'
    using ok that unfolding sequences_ok_def by blast
  have n0: "0 \<le> n" using n table by (auto split: option.splits)
  have below: "0 \<le> m \<and> m < n" if "sent H pid ?t ?p m q" for m q
    using known [OF that] n by auto
  show ?thesis
    unfolding sequences_ok_def
  proof (intro conjI(1) [rotated] conjI allI impI)
    fix i t p k q assume "dict_get (kb_sequences b') (i, t, p) = Some (k, q)"
    then show "0 \<le> k" "sent (insert (Some (pid, n), r) H) i t p k q"
      using table n0 by (auto simp: seqs sent_numbered split: if_splits)
  next
    fix i t p m q assume s: "sent (insert (Some (pid, n), r) H) i t p m q"
    show "\<exists>k q'. dict_get (kb_sequences b') (i, t, p) = Some (k, q') \<and> 0 \<le> m \<and> m \<le> k"
    proof (cases "i = pid \<and> t = ?t \<and> p = ?p")
      case True
      then show ?thesis using s below n0 by (fastforce simp: seqs sent_numbered)
    next
      case False
      then show ?thesis using s known [of i t p m q] by (auto simp: seqs sent_numbered)
    qed
  next
    fix i t p m m' q' assume s: "sent (insert (Some (pid, n), r) H) i t p m' q'" "0 \<le> m" "m \<le> m'"
    show "\<exists>q. sent (insert (Some (pid, n), r) H) i t p m q"
    proof (cases "sent H i t p m' q'")
      case True
      then show ?thesis using down [of i t p m' q' m] s by (auto simp: sent_numbered)
    next
      case False
      then have e: "i = pid" "m' = n" "q' = r" "t = ?t" "p = ?p" using s(1) by (auto simp: sent_numbered)
      show ?thesis
      proof (cases "m = n")
        case True
        then show ?thesis using e by (auto simp: sent_numbered)
      next
        case False
        with e s n obtain k q where k: "dict_get (kb_sequences b) (pid, ?t, ?p) = Some (k, q)" "n = k + 1"
          by (auto split: option.splits)
        with e s False have "m \<le> k" by simp
        then show ?thesis using table [OF k(1)] down [of pid ?t ?p k q m] s(2) e by (auto simp: sent_numbered)
      qed
    qed
  next
    fix i t p m m' q q'
    assume s: "sent (insert (Some (pid, n), r) H) i t p m q" "sent (insert (Some (pid, n), r) H) i t p m' q'"
    show "m < m' \<Longrightarrow> kr_offset q < kr_offset q'" "m = m' \<Longrightarrow> q = q'"
      using s order [of i t p m q m' q'] below after by (auto simp: sent_numbered) (use below in fastforce)+
  qed
qed

definition run_ok :: "ack set \<Rightarrow> kafka_broker \<Rightarrow> bool" where
  "run_ok H b \<longleftrightarrow> logs_ok b \<and> commits_ok b \<and> slots_ok H b \<and> sequences_ok H b"

lemma kb_new_ok: "run_ok {} kb_new"
  by (simp add: run_ok_def kb_new_def logs_ok_def commits_ok_def slots_ok_def sequences_ok_def sent_def
      kb_partition_def kb_logs_def)

lemma tidied_run_ok: "tidied b b' \<Longrightarrow> run_ok H b \<Longrightarrow> run_ok H b'"
  unfolding run_ok_def
  using tidied_logs_ok tidied_commits_ok tidied_slots_ok tidied_sequences_ok by blast

lemma kb_create_topic_ok:
  assumes "kb_create_topic b name n retention = (res, b')" "run_ok H b"
  shows "run_ok H b'"
  using assms(1)
proof (cases rule: kb_create_topic_cases)
  case created
  have absent: "kb_partition b name p \<noteq> Inr l" for p l using created(3) by (simp add: kb_partition_iff)
  have "commits_ok b'"
    unfolding commits_ok_def created(5,6)
  proof (intro allI impI)
    fix g t p c assume "dict_get (kb_committed b) (g, t, p) = Some c"
    with assms(2) obtain l where "kb_partition b t p = Inr l" "0 \<le> c" "c \<le> lg_end l"
      unfolding run_ok_def commits_ok_def by meson
    with absent show "\<exists>l. (if t = name then 0 \<le> p \<and> p < n \<and> l = plog_new name p else kb_partition b t p = Inr l) \<and>
        0 \<le> c \<and> c \<le> lg_end l" by auto
  qed
  moreover have "slots_ok H b'"
  proof -
    have slots: "slots_ok H b" using assms(2) by (simp add: run_ok_def)
    have "lg_end (plog_new name p) = 0" "lg_records (plog_new name p) = []" for p by (simp_all add: plog_new_def)
    then show ?thesis
      using slots absent unfolding slots_ok_def created(6) by (smt (verit) empty_set empty_subsetI)
  qed
  moreover have "logs_ok b'" "sequences_ok H b'"
    using assms(2) created(4,6) by (auto simp: run_ok_def logs_ok_def sequences_ok_def plog_ok_new)
  ultimately show ?thesis by (simp add: run_ok_def)
qed (use assms in simp)

lemma kb_commit_ok:
  assumes "kb_commit b grp t p offset = (res, b')" "run_ok H b"
  shows "run_ok H b'"
  using assms(1)
proof (cases rule: kb_commit_cases)
  case (committed l)
  have same: "kb_partition b' t p = kb_partition b t p" for t p
    by (rule kb_partition_cong) (simp add: committed(5))
  have "commits_ok b'"
    using assms(2) committed(1-3) by (auto simp: run_ok_def commits_ok_def same) (simp add: committed(5) split: if_splits)
  then show ?thesis
    using assms(2) by (simp add: run_ok_def logs_ok_def slots_ok_def sequences_ok_def same) (simp add: committed(5))
qed (use assms in simp)

lemma kb_append_ok:
  assumes "kb_append b now t p key value producer_id sequence = (Inr r, b')" "run_ok H b"
  shows "run_ok (insert (ack_source producer_id sequence, r) H) b'"
proof -
  have ok: "logs_ok b" "commits_ok b" "slots_ok H b" "sequences_ok H b" using assms(2) by (simp_all add: run_ok_def)
  show ?thesis
    using assms(1)
  proof (cases rule: kb_append_cases)
    case (retry pid n q)
    then have "sent H pid t p n q" using ok(4) unfolding sequences_ok_def by meson
    then have "(ack_source producer_id sequence, r) \<in> H" using retry by (simp add: ack_source_def sent_def)
    then show ?thesis using assms(2) retry by (simp add: insert_absorb)
  next
    case (plain l)
    then have w: "written b b' l r" using written_put_log [OF plain(2) ok(1)] by simp
    show ?thesis
      unfolding run_ok_def
      using written_logs_ok [OF w ok(1)] written_commits_ok [OF w _ ok(2)] written_slots_ok [OF w ok(1,3)]
        plain_sequences_ok [OF ok(4)] plain by (simp add: ack_source_def)
  next
    case (fresh l pid n)
    have w0: "written b (put_log b t p (snd (plog_append l key value now))) l r"
      using written_put_log [OF fresh(3) ok(1)] fresh(5) by simp
    have "kb_partition b' t' p' = kb_partition (put_log b t p (snd (plog_append l key value now))) t' p'" for t' p'
      by (rule kb_partition_cong) (simp add: fresh(6))
    with w0 have w: "written b b' l r" by (simp add: written_def)
    have tp: "kr_topic r = t" "kr_partition r = p"
      using fresh(3,5) ok(1) by (auto simp: logs_ok_def plog_ok_def)
    have "sequences_ok (insert (Some (pid, n), r) H) b'"
    proof (rule numbered_sequences_ok [OF ok(4)])
      show "n = (case dict_get (kb_sequences b) (pid, kr_topic r, kr_partition r) of None \<Rightarrow> 0 | Some (m, _) \<Rightarrow> m + 1)"
        using fresh(4) tp by simp
      show "kb_sequences b' = dict_set (pid, kr_topic r, kr_partition r) (n, r) (kb_sequences b)"
        using fresh(5,6) tp by simp
      show "kr_offset q < kr_offset r" if "sent H pid (kr_topic r) (kr_partition r) m q" for m q
        using that written_after [OF w ok(3)] by (auto simp: sent_def)
    qed
    then show ?thesis
      unfolding run_ok_def
      using written_logs_ok [OF w ok(1)] written_commits_ok [OF w _ ok(2)] written_slots_ok [OF w ok(1,3)]
        fresh by (simp add: ack_source_def)
  qed (use assms in simp)
qed

lemma kb_append_refused: "kb_append b now t p key value producer_id sequence = (Inl e, b') \<Longrightarrow> b' = b"
  by (cases rule: kb_append_cases) auto

lemma kb_run_ok: "kb_run H b \<Longrightarrow> run_ok H b"
proof (induction rule: kb_run.induct)
  case refuse
  then show ?case using kb_append_refused by metis
next
  case (compact H b t res b')
  then show ?case using tidied_run_ok [OF kb_compact_tidied [of b t]] by simp
next
  case (expire H b now t res b')
  then show ?case using tidied_run_ok [OF kb_expire_tidied [of b now t]] by simp
qed (auto intro: kb_new_ok kb_create_topic_ok kb_append_ok kb_commit_ok)

section \<open>Exactly once per producer, one owner per offset\<close>

text \<open>C17. The log gets neither duplicates nor holes: after any sequence of topic creations, appends of
  any producers, commits, compactions and expiries, every offset below the end of a log was given
  to exactly one accepted append, every record in a log is one of them, and the accepted sequence
  numbers of a producer on a log are gap-free, each acknowledged with one record only however often
  it was retried, in the order of the log.\<close>

theorem kafka_exactly_once:
  assumes "kb_run H b"
  shows "(\<forall>t p l n. kb_partition b t p = Inr l \<longrightarrow> 0 \<le> n \<longrightarrow> n < lg_end l \<longrightarrow>
      (\<exists>!a. a \<in> H \<and> kr_topic (snd a) = t \<and> kr_partition (snd a) = p \<and> kr_offset (snd a) = n)) \<and>
    (\<forall>t p l. kb_partition b t p = Inr l \<longrightarrow> set (lg_records l) \<subseteq> snd ` H) \<and>
    (\<forall>pid t p m n r. sent H pid t p n r \<longrightarrow> 0 \<le> n \<and> (0 \<le> m \<and> m \<le> n \<longrightarrow> (\<exists>q. sent H pid t p m q))) \<and>
    (\<forall>pid t p m n q r. sent H pid t p m q \<longrightarrow> sent H pid t p n r \<longrightarrow>
      (m < n \<longrightarrow> kr_offset q < kr_offset r) \<and> (m = n \<longrightarrow> q = r))"
proof -
  have ok: "slots_ok H b" "sequences_ok H b" using kb_run_ok [OF assms] by (simp_all add: run_ok_def)
  show ?thesis
  proof (intro conjI)
    show "\<forall>t p l n. kb_partition b t p = Inr l \<longrightarrow> 0 \<le> n \<longrightarrow> n < lg_end l \<longrightarrow>
        (\<exists>!a. a \<in> H \<and> kr_topic (snd a) = t \<and> kr_partition (snd a) = p \<and> kr_offset (snd a) = n)"
      "\<forall>t p l. kb_partition b t p = Inr l \<longrightarrow> set (lg_records l) \<subseteq> snd ` H"
      using ok(1) unfolding slots_ok_def by blast+
    show "\<forall>pid t p m n r. sent H pid t p n r \<longrightarrow> 0 \<le> n \<and> (0 \<le> m \<and> m \<le> n \<longrightarrow> (\<exists>q. sent H pid t p m q))"
      using ok(2) unfolding sequences_ok_def by meson
    show "\<forall>pid t p m n q r. sent H pid t p m q \<longrightarrow> sent H pid t p n r \<longrightarrow>
        (m < n \<longrightarrow> kr_offset q < kr_offset r) \<and> (m = n \<longrightarrow> q = r)"
      using ok(2) unfolding sequences_ok_def by blast
  qed
qed

section \<open>Sending through a producer\<close>

text \<open>The number of partitions of a topic is fixed at its creation and positive.\<close>

lemma kb_partition_count_facts:
  "kb_partition_count b t = Inr n \<longleftrightarrow> (\<exists>logs. dict_get (kb_topics b) t = Some logs \<and> n = int (length logs))"
  by (auto simp: kb_partition_count_def kb_logs_def split: option.splits)

definition widths_ok :: "kafka_broker \<Rightarrow> bool" where
  "widths_ok b \<longleftrightarrow> (\<forall>t. dict_get (kb_topics b) t \<noteq> Some [])"

definition grown :: "kafka_broker \<Rightarrow> kafka_broker \<Rightarrow> bool" where
  "grown b b' \<longleftrightarrow> (\<forall>t logs. dict_get (kb_topics b) t = Some logs \<longrightarrow>
     (\<exists>logs'. dict_get (kb_topics b') t = Some logs' \<and> length logs' = length logs))"

lemma grown_refl: "grown b b"
  by (simp add: grown_def)

lemma grown_count: "grown b b' \<Longrightarrow> kb_partition_count b t = Inr n \<Longrightarrow> kb_partition_count b' t = Inr n"
  unfolding grown_def kb_partition_count_facts by metis

lemma put_log_grown: "grown b (put_log b t p l)"
  by (simp add: grown_def put_log_def split: option.splits)

lemma kb_append_grown:
  assumes "kb_append b now t p key v producer_id sequence = (res, b')"
  shows "grown b b'"
  using assms
proof (cases rule: kb_append_cases)
  case (fresh l pid n)
  then show ?thesis using put_log_grown [of b t p "snd (plog_append l key v now)"] by (simp add: grown_def)
qed (simp_all add: grown_refl put_log_grown)

lemma kb_cleanup_grown: "grown b (snd (kb_compact b t))" "grown b (snd (kb_expire b now t))"
  by (auto simp: grown_def kb_compact_def kb_expire_def kb_logs_def Let_def split: option.splits)

lemma kb_create_grown: "kb_create_topic b name n retention = (res, b') \<Longrightarrow> grown b b'"
  by (auto simp: grown_def kb_create_topic_def split: option.splits if_splits)

lemma kb_commit_grown: "kb_commit b grp t p offset = (res, b') \<Longrightarrow> grown b b'"
  by (auto simp: grown_def kb_commit_def split: sum.splits if_splits)

lemma grown_widths_ok:
  assumes "grown b b'" "dom (dict_get (kb_topics b')) = dom (dict_get (kb_topics b))" "widths_ok b"
  shows "widths_ok b'"
  unfolding widths_ok_def
proof (intro allI notI)
  fix t assume l: "dict_get (kb_topics b') t = Some []"
  then obtain logs where "dict_get (kb_topics b) t = Some logs" using assms(2) by blast
  with assms(1,3) l show False unfolding grown_def widths_ok_def by fastforce
qed

lemma kb_run_widths: "kb_run H b \<Longrightarrow> widths_ok b"
proof (induction rule: kb_run.induct)
  case start
  then show ?case by (simp add: widths_ok_def kb_new_def)
next
  case (create H b name n retention res b')
  then show ?case by (auto simp: widths_ok_def kb_create_topic_def split: option.splits if_splits)
next
  case (append H b now t p key v producer_id sequence r b')
  have "dom (dict_get (kb_topics (put_log b t p l))) = dom (dict_get (kb_topics b))" for l
    by (auto simp: put_log_def split: option.splits if_splits)
  with append(2) have "dom (dict_get (kb_topics b')) = dom (dict_get (kb_topics b))"
    by (cases rule: kb_append_cases) simp_all
  then show ?case using grown_widths_ok kb_append_grown append by blast
next
  case refuse
  then show ?case using kb_append_refused by metis
next
  case (commit H b grp t p offset res b')
  then show ?case by (auto simp: widths_ok_def kb_commit_def split: sum.splits if_splits)
next
  case (compact H b t res b')
  then show ?case by (auto simp: widths_ok_def kb_compact_def kb_logs_def split: option.splits if_splits)
next
  case (expire H b now t res b')
  then show ?case by (auto simp: widths_ok_def kb_expire_def kb_logs_def Let_def split: option.splits if_splits)
qed

lemma send_retries:
  assumes "kb_partition b t p = Inr l" "dict_get (kb_sequences b) (pid, t, p) = Some (n, r)"
  shows "send_attempts k b clock t p key v pid n = (Inr (replicate k r), b)"
  using assms by (induction k arbitrary: clock) (simp_all add: kb_append_def)

text \<open>The producer's counter for a log is the number the broker expects next.\<close>

definition next_sequence :: "kafka_broker \<Rightarrow> string \<Rightarrow> string \<Rightarrow> int \<Rightarrow> int" where
  "next_sequence b pid t p = (case dict_get (kb_sequences b) (pid, t, p) of None \<Rightarrow> 0 | Some (m, _) \<Rightarrow> m + 1)"

definition in_step :: "kafka_broker \<Rightarrow> kafka_producer \<Rightarrow> bool" where
  "in_step b k \<longleftrightarrow> (\<forall>t p. (case dict_get (kp_sequences k) (t, p) of None \<Rightarrow> 0 | Some n \<Rightarrow> n) =
     next_sequence b (kp_id k) t p)"

lemma kb_append_next:
  assumes "kb_partition b t p = Inr l"
  shows "kb_append b now t p key v (Some pid) (Some (next_sequence b pid t p)) =
    (Inr (fst (plog_append l key v now)),
     (put_log b t p (snd (plog_append l key v now)))\<lparr>kb_sequences :=
        dict_set (pid, t, p) (next_sequence b pid t p, fst (plog_append l key v now)) (kb_sequences b)\<rparr>)"
  using assms by (simp add: kb_append_def next_sequence_def Let_def case_prod_unfold split: option.splits)

lemma send_attempts_once:
  assumes "kb_partition b t p = Inr l"
  shows "send_attempts (Suc k) b clock t p key v pid (next_sequence b pid t p) =
    (Inr (replicate (Suc k) (fst (plog_append l key v (hd clock)))),
     (put_log b t p (snd (plog_append l key v (hd clock))))\<lparr>kb_sequences :=
        dict_set (pid, t, p) (next_sequence b pid t p, fst (plog_append l key v (hd clock))) (kb_sequences b)\<rparr>)"
proof -
  let ?r = "fst (plog_append l key v (hd clock))"
  let ?b = "(put_log b t p (logged l ?r))\<lparr>kb_sequences :=
        dict_set (pid, t, p) (next_sequence b pid t p, ?r) (kb_sequences b)\<rparr>"
  have "kb_partition ?b t p = kb_partition (put_log b t p (logged l ?r)) t p"
    by (rule kb_partition_cong) simp
  then have "kb_partition ?b t p = Inr (logged l ?r)" by (simp add: kb_partition_put_log [OF assms])
  from send_retries [OF this, of pid "next_sequence b pid t p" ?r k "tl clock" key v]
  show ?thesis by (simp add: kb_append_next [OF assms])
qed

text \<open>A send is one record however often it is repeated: with the producer in step with the
  broker, \<^verbatim>\<open>send\<close> to a known topic with any positive number of attempts succeeds, appends exactly
  one record with the given key and value at the end of one log (for a keyed record the log its
  hash names), leaves every other log alone, and keeps the producer in step.\<close>

theorem kafka_send_once:
  fixes b :: kafka_broker
  assumes "kb_run H b" "in_step b k" "kb_partition_count b t = Inr n" "1 \<le> attempts"
  shows "\<exists>r l k' b'. kp_send md5 b k clock t v key attempts = (Inr r, k', b') \<and>
    kb_partition b t (kr_partition r) = Inr l \<and> kr_key r = key \<and> kr_value r = v \<and> kr_offset r = lg_end l \<and>
    (\<forall>x. key = Some x \<longrightarrow> kr_partition r = partition_hash md5 x mod n) \<and>
    (\<forall>t' p. kb_partition b' t' p =
       (if t' = t \<and> p = kr_partition r then Inr (logged l r) else kb_partition b t' p)) \<and>
    in_step b' k'"
proof -
  have ok: "logs_ok b" "widths_ok b" using kb_run_ok [OF assms(1)] kb_run_widths [OF assms(1)] by (simp_all add: run_ok_def)
  from assms(3) obtain logs where logs: "dict_get (kb_topics b) t = Some logs" "n = int (length logs)"
    by (auto simp: kb_partition_count_facts)
  with ok(2) have "logs \<noteq> []" unfolding widths_ok_def by blast
  with logs have npos: "0 < n" by simp
  obtain p k1 where p: "partition_for md5 b k t key = (Inr p, k1)" "0 \<le> p" "p < n"
    "kp_id k1 = kp_id k" "kp_sequences k1 = kp_sequences k"
    "\<And>x. key = Some x \<Longrightarrow> p = partition_hash md5 x mod n"
    using assms(3) npos by (cases key) (auto simp: partition_for_def)
  from p(2,3) logs have l: "kb_partition b t p = Inr (logs ! nat p)" by (simp add: kb_partition_iff)
  let ?l = "logs ! nat p" and ?n = "next_sequence b (kp_id k) t p"
  let ?r = "fst (plog_append ?l key v (hd clock))"
  let ?b = "(put_log b t p (snd (plog_append ?l key v (hd clock))))\<lparr>kb_sequences :=
      dict_set (kp_id k, t, p) (?n, ?r) (kb_sequences b)\<rparr>"
  let ?k = "k1\<lparr>kp_sequences := dict_set (t, p) (?n + 1) (kp_sequences k1)\<rparr>"
  have idx: "lg_topic ?l = t" "lg_index ?l = p" using ok(1) l by (auto simp: logs_ok_def plog_ok_def)
  obtain a where a: "nat attempts = Suc a" using assms(4) by (cases "nat attempts") auto
  have num: "(case dict_get (kp_sequences k1) (t, p) of None \<Rightarrow> 0 | Some n \<Rightarrow> n) = ?n"
    using assms(2) p(5) by (simp add: in_step_def)
  have "kp_send md5 b k clock t v key attempts = (Inr ?r, ?k, ?b)"
    using assms(4) send_attempts_once [OF l, of a clock key v "kp_id k"]
    by (simp add: kp_send_def p(1,4) num a Let_def del: send_attempts.simps)
  moreover have "in_step ?b ?k"
    using assms(2) p(4,5) by (auto simp: in_step_def next_sequence_def)
  moreover have "kb_partition ?b t' p' = kb_partition (put_log b t p (logged ?l ?r)) t' p'" for t' p'
    by (rule kb_partition_cong) simp
  then have "kb_partition ?b t' p' = (if t' = t \<and> p' = p then Inr (logged ?l ?r) else kb_partition b t' p')" for t' p'
    by (simp add: kb_partition_put_log [OF l])
  moreover have "kr_key ?r = key" "kr_value ?r = v" "kr_partition ?r = p"
    using idx by (simp_all add: plog_append_def Let_def)
  ultimately have "\<exists>r k' b'. kp_send md5 b k clock t v key attempts = (Inr r, k', b') \<and> kr_key r = key \<and>
      kr_value r = v \<and> kr_offset r = lg_end ?l \<and> kr_partition r = p \<and>
      (\<forall>t' p'. kb_partition b' t' p' = (if t' = t \<and> p' = p then Inr (logged ?l r) else kb_partition b t' p')) \<and>
      in_step b' k'"
    using idx by (intro exI [of _ ?r] exI [of _ ?k] exI [of _ ?b]) simp
  then show ?thesis using l p(6) by fastforce
qed

section \<open>The range assignor\<close>

lemma sum_shares:
  assumes "0 \<le> extra"
  shows "sum_list (map (\<lambda>i. base + (if i < extra then 1 else 0)) [0..int i - 1]) = int i * base + min (int i) extra"
proof (induction i)
  case (Suc i)
  have "[0..int (Suc i) - 1] = [0..int i - 1] @ [int i]" using upto_rec2 [of 0 "int i"] by simp
  with Suc assms show ?case by (auto simp: algebra_simps min_def)
qed (use assms in simp)

lemma take_upto_int: "int i \<le> k \<Longrightarrow> take i [0..k - 1] = [0..int i - 1]"
  using upto_split1 [of 0 "int i" "k - 1"] by (cases "int i < k") auto

definition share_bound :: "int \<Rightarrow> nat \<Rightarrow> nat \<Rightarrow> int" where
  "share_bound n k i = int i * (n div int k) + min (int i) (n mod int k)"

lemma share_bounds:
  assumes "0 < k" "i \<le> k"
  shows "accumulate (0 # map (\<lambda>i. n div int k + (if i < n mod int k then 1 else 0)) [0..int k - 1]) ! i = share_bound n k i"
proof -
  have "i < length (0 # map (\<lambda>i. n div int k + (if i < n mod int k then 1 else 0)) [0..int k - 1])"
    using assms by simp
  moreover have "0 \<le> n mod int k" using assms by simp
  ultimately show ?thesis
    using assms take_upto_int [of i "int k"]
    by (simp add: accumulate_nth share_bound_def take_map sum_shares)
qed

lemma share_bound_ends: "0 < k \<Longrightarrow> share_bound n k 0 = 0" "0 < k \<Longrightarrow> share_bound n k k = n"
proof -
  show "0 < k \<Longrightarrow> share_bound n k 0 = 0" by (simp add: share_bound_def)
  show "0 < k \<Longrightarrow> share_bound n k k = n"
    using pos_mod_bound [of "int k" n] by (simp add: share_bound_def)
qed

lemma share_bound_step:
  assumes "0 < k"
  shows "share_bound n k (Suc i) - share_bound n k i = n div int k + (if int i < n mod int k then 1 else 0)"
  using assms by (auto simp: share_bound_def algebra_simps min_def)

lemma range_assign_eq:
  assumes "distinct ms" "ms \<noteq> []"
  shows "range_assign n ms = map (\<lambda>(i, m). (m, [share_bound n (length ms) i..share_bound n (length ms) (Suc i) - 1]))
    (List.enumerate 0 ms)"
proof -
  let ?k = "length ms"
  have k: "0 < ?k" using assms(2) by simp
  have e: "map (\<lambda>(i, m). (m, [accumulate (0 # map (\<lambda>i. n div int ?k + (if i < n mod int ?k then 1 else 0)) [0..int ?k - 1]) ! i
        ..accumulate (0 # map (\<lambda>i. n div int ?k + (if i < n mod int ?k then 1 else 0)) [0..int ?k - 1]) ! Suc i - 1]))
        (List.enumerate 0 ms) =
      map (\<lambda>(i, m). (m, [share_bound n ?k i..share_bound n ?k (Suc i) - 1])) (List.enumerate 0 ms)"
    using share_bounds [OF k, of _ n] by (auto simp: in_set_enumerate_eq)
  have "map fst (map (\<lambda>(i, m). (m, [share_bound n ?k i..share_bound n ?k (Suc i) - 1])) (List.enumerate 0 ms)) = ms"
    by (simp add: case_prod_unfold comp_def)
  then show ?thesis
    using assms k by (simp add: range_assign_def Let_def e dict_of_distinct)
qed

lemma one_step_around:
  fixes B :: "nat \<Rightarrow> int"
  assumes "\<And>i. i < k \<Longrightarrow> B i \<le> B (Suc i)" "B 0 \<le> x" "x < B k"
  shows "\<exists>!i. i < k \<and> B i \<le> x \<and> x < B (Suc i)"
  using assms
proof (induction k)
  case (Suc k)
  show ?case
  proof (cases "x < B k")
    case True
    with Suc obtain i where i: "i < k" "B i \<le> x" "x < B (Suc i)" by auto
    have "j = i" if "j < Suc k" "B j \<le> x" "x < B (Suc j)" for j
    proof -
      have "j < k" using that True by (cases "j = k") auto
      with Suc True i that show ?thesis by auto
    qed
    with i show ?thesis by (intro ex1I [of _ i]) auto
  next
    case False
    have mono: "B (Suc j) \<le> B k" if "j < k" for j
    proof -
      have "j < k \<longrightarrow> i \<le> k \<longrightarrow> Suc j \<le> i \<longrightarrow> B (Suc j) \<le> B i" for i
        using Suc.prems(1) by (induction i) (auto simp: le_Suc_eq intro: order_trans)
      with that show ?thesis by auto
    qed
    have "j = k" if "j < Suc k" "x < B (Suc j)" for j
      using mono [of j] that False by (cases "j < k") auto
    with False Suc.prems show ?thesis by (intro ex1I [of _ k]) auto
  qed
qed simp

lemma range_assign_get:
  assumes "distinct ms" "ms \<noteq> []"
  shows "dict_get (range_assign n ms) m = Some ps \<longleftrightarrow>
    (\<exists>i < length ms. m = ms ! i \<and> ps = [share_bound n (length ms) i..share_bound n (length ms) (Suc i) - 1])"
proof -
  have "map fst (range_assign n ms) = ms"
    by (simp add: range_assign_eq [OF assms] case_prod_unfold comp_def)
  then have "dict_ok (range_assign n ms)" using assms(1) by (simp add: dict_ok_def)
  then have "dict_get (range_assign n ms) m = Some ps \<longleftrightarrow> (m, ps) \<in> set (range_assign n ms)"
    using dict_get_mem by fastforce
  then show ?thesis
    by (auto simp: range_assign_eq [OF assms] in_set_enumerate_eq image_iff Bex_def)
qed

definition fair_assignment :: "int \<Rightarrow> string set \<Rightarrow> (string, int list) dict \<Rightarrow> bool" where
  "fair_assignment n ms d \<longleftrightarrow> set (dict_keys d) = ms \<and>
     (\<forall>x. 0 \<le> x \<and> x < n \<longrightarrow> (\<exists>!m. \<exists>ps. dict_get d m = Some ps \<and> x \<in> set ps)) \<and>
     (\<forall>m ps. dict_get d m = Some ps \<longrightarrow> distinct ps \<and> set ps \<subseteq> {0..<n} \<and>
        n div int (card ms) \<le> int (length ps) \<and> int (length ps) \<le> n div int (card ms) + 1)"

lemma range_assign_fair:
  assumes "distinct ms" "ms \<noteq> []" "0 \<le> n"
  shows "fair_assignment n (set ms) (range_assign n ms)"
  unfolding fair_assignment_def
proof (intro conjI allI impI)
  let ?k = "length ms" and ?B = "share_bound n (length ms)"
  have k: "0 < ?k" using assms(2) by simp
  note get = range_assign_get [OF assms(1,2)]
  have step: "?B i \<le> ?B (Suc i)" for i
    using share_bound_step [OF k, of n i] pos_imp_zdiv_nonneg_iff [of "int ?k" n] assms(3) k
    by (auto split: if_splits)
  have mono: "?B i \<le> ?B j" if "i \<le> j" for i j using lift_Suc_mono_le [of ?B, OF step that] .
  show "set (dict_keys (range_assign n ms)) = set ms"
    by (simp add: range_assign_eq [OF assms(1,2)] case_prod_unfold comp_def flip: set_map)
  show "\<exists>!m. \<exists>ps. dict_get (range_assign n ms) m = Some ps \<and> x \<in> set ps" if "0 \<le> x \<and> x < n" for x
  proof -
    have "\<exists>!i. i < ?k \<and> ?B i \<le> x \<and> x < ?B (Suc i)"
      by (rule one_step_around) (use step that share_bound_ends [OF k, of n] in auto)
    then obtain i where i: "i < ?k" "?B i \<le> x" "x < ?B (Suc i)"
      and uniq: "\<And>j. j < ?k \<and> ?B j \<le> x \<and> x < ?B (Suc j) \<Longrightarrow> j = i" by (auto elim!: ex1E)
    show ?thesis
    proof (rule ex1I [of _ "ms ! i"])
      show "\<exists>ps. dict_get (range_assign n ms) (ms ! i) = Some ps \<and> x \<in> set ps" using i by (auto simp: get)
      fix m assume "\<exists>ps. dict_get (range_assign n ms) m = Some ps \<and> x \<in> set ps"
      then obtain j where "j < ?k" "m = ms ! j" "?B j \<le> x" "x < ?B (Suc j)" by (auto simp: get)
      with uniq [of j] show "m = ms ! i" by simp
    qed
  qed
  fix m ps assume "dict_get (range_assign n ms) m = Some ps"
  then obtain i where i: "i < ?k" "ps = [?B i..?B (Suc i) - 1]" by (auto simp: get)
  have card: "card (set ms) = ?k" using assms(1) by (simp add: distinct_card)
  show "distinct ps" using i by simp
  show "set ps \<subseteq> {0..<n}"
    using i mono [of 0 i] mono [of "Suc i" ?k] share_bound_ends [OF k, of n] by auto
  have "int (length ps) = n div int ?k + (if int i < n mod int ?k then 1 else 0)"
    using share_bound_step [OF k, of n i] step [of i] i by simp
  then show "n div int (card (set ms)) \<le> int (length ps)" "int (length ps) \<le> n div int (card (set ms)) + 1"
    by (auto simp: card)
qed

section \<open>Runs of a consumer group\<close>

text \<open>
  What everyone but the members of group \<open>gid\<close> may do to the broker, and the runs of the group
  with the set of records its polls have returned. A poll that raises is not a step: it returns
  no records, but it may have moved positions.
\<close>

inductive kb_others :: "string \<Rightarrow> kafka_broker \<Rightarrow> kafka_broker \<Rightarrow> bool" for gid where
  create: "kb_create_topic b name n retention = (res, b') \<Longrightarrow> kb_others gid b b'"
| append: "kb_append b now t p key value producer_id sequence = (res, b') \<Longrightarrow> kb_others gid b b'"
| commit: "kb_commit b grp t p offset = (res, b') \<Longrightarrow> grp \<noteq> gid \<Longrightarrow> kb_others gid b b'"
| compact: "kb_compact b t = (res, b') \<Longrightarrow> kb_others gid b b'"
| expire: "kb_expire b now t = (res, b') \<Longrightarrow> kb_others gid b b'"

inductive cg_run :: "kafka_record set \<Rightarrow> kafka_broker \<Rightarrow> kafka_group \<Rightarrow> bool" where
  start: "kb_run H b \<Longrightarrow> cg_new gid topic reset = Inr g \<Longrightarrow>
    (\<And>t p. dict_get (kb_committed b) (gid, t, p) = None) \<Longrightarrow> cg_run {} b g"
| others: "cg_run D b g \<Longrightarrow> kb_others (cg_id g) b b' \<Longrightarrow> cg_run D b' g"
| join: "cg_run D b g \<Longrightarrow> cg_join b g m = (res, g') \<Longrightarrow> cg_run D b g'"
| leave: "cg_run D b g \<Longrightarrow> cg_leave b g m = (res, g') \<Longrightarrow> cg_run D b g'"
| poll: "cg_run D b g \<Longrightarrow> cg_poll b g m max_records = (Inr rs, g') \<Longrightarrow> cg_run (D \<union> set rs) b g'"
| commit: "cg_run D b g \<Longrightarrow> cg_commit b g m = (res, b') \<Longrightarrow> cg_run D b' g"

lemma kb_others_run:
  assumes "kb_others gid b b'" "kb_run H b"
  shows "\<exists>H'. kb_run H' b'"
  using assms
proof (induction rule: kb_others.induct)
  case (append b now t p key v producer_id sequence res b')
  then show ?case by (cases res) (auto intro: kb_run.append kb_run.refuse)
qed (auto intro: kb_run.intros)

lemma kb_others_grown: "kb_others gid b b' \<Longrightarrow> grown b b'"
proof (induction rule: kb_others.induct)
  case (compact b t res b')
  then show ?case using kb_cleanup_grown(1) [of b t] by simp
next
  case (expire b now t res b')
  then show ?case using kb_cleanup_grown(2) [of b now t] by simp
qed (auto intro: kb_create_grown kb_append_grown kb_commit_grown)

text \<open>
  What others do to a log the group reads: its end moves only forward, and a record that is new
  in it lies at or past the old end.
\<close>

definition plog_later :: "kafka_log \<Rightarrow> kafka_log \<Rightarrow> bool" where
  "plog_later l l' \<longleftrightarrow> lg_end l \<le> lg_end l' \<and>
     (\<forall>r \<in> set (lg_records l'). r \<in> set (lg_records l) \<or> lg_end l \<le> kr_offset r)"

lemma plog_later_refl: "plog_later l l"
  by (simp add: plog_later_def)

definition broker_later :: "string \<Rightarrow> kafka_broker \<Rightarrow> kafka_broker \<Rightarrow> bool" where
  "broker_later gid b b' \<longleftrightarrow>
     (\<forall>t p. dict_get (kb_committed b') (gid, t, p) = dict_get (kb_committed b) (gid, t, p)) \<and>
     (\<forall>t p l. kb_partition b t p = Inr l \<longrightarrow> (\<exists>l'. kb_partition b' t p = Inr l' \<and> plog_later l l'))"

lemma broker_later_refl: "broker_later gid b b"
  by (simp add: broker_later_def plog_later_refl)

lemma tidied_later: "tidied b b' \<Longrightarrow> broker_later gid b b'"
  unfolding broker_later_def
proof (intro conjI allI impI)
  assume t: "tidied b b'"
  show "dict_get (kb_committed b') (gid, t, p) = dict_get (kb_committed b) (gid, t, p)" for t p
    using t by (simp add: tidied_def)
  fix t p l assume l: "kb_partition b t p = Inr l"
  with t obtain l' where l': "kb_partition b' t p = Inr l'" unfolding tidied_def by meson
  with t obtain l0 where "kb_partition b t p = Inr l0" "lg_end l' = lg_end l0"
    "set (lg_records l') \<subseteq> set (lg_records l0)" unfolding tidied_def by meson
  with l l' show "\<exists>l'. kb_partition b' t p = Inr l' \<and> plog_later l l'" by (auto simp: plog_later_def)
qed

lemma written_later:
  assumes "written b b' l r" "kb_committed b' = kb_committed b"
  shows "broker_later gid b b'"
  using assms by (auto simp: broker_later_def plog_later_def written_def)

lemma kb_others_later:
  assumes "kb_others gid b b'" "logs_ok b"
  shows "broker_later gid b b'"
  using assms
proof (induction rule: kb_others.induct)
  case (create b name n retention res b')
  from create(1) show ?case
  proof (cases rule: kb_create_topic_cases)
    case created
    have "kb_partition b name p \<noteq> Inr l" for p l using created(3) by (simp add: kb_partition_iff)
    with created(5,6) show ?thesis by (fastforce simp: broker_later_def plog_later_refl)
  qed (simp add: broker_later_refl)
next
  case (append b now t p key v producer_id sequence res b')
  from append(1) show ?case
  proof (cases rule: kb_append_cases)
    case (plain l)
    with append(2) show ?thesis using written_later [OF written_put_log [OF plain(2)]] by simp
  next
    case (fresh l pid n)
    let ?b = "put_log b t p (snd (plog_append l key v now))"
    have "broker_later gid b ?b" using written_later [OF written_put_log [OF fresh(3)]] append(2) by simp
    moreover have "kb_partition b' t' p' = kb_partition ?b t' p'" for t' p'
      by (rule kb_partition_cong) (simp add: fresh(6))
    ultimately show ?thesis by (simp add: broker_later_def fresh(6))
  qed (simp_all add: broker_later_refl)
next
  case (commit b grp t p offset res b')
  from commit(1) show ?case
  proof (cases rule: kb_commit_cases)
    case (committed l)
    have "kb_partition b' t p = kb_partition b t p" for t p
      by (rule kb_partition_cong) (simp add: committed(5))
    then show ?thesis using commit(2) by (simp add: broker_later_def committed(5) plog_later_refl)
  qed (simp add: broker_later_refl)
next
  case (compact b t res b')
  then show ?case using tidied_later [OF kb_compact_tidied [of b t]] by simp
next
  case (expire b now t res b')
  then show ?case using tidied_later [OF kb_expire_tidied [of b now t]] by simp
qed

text \<open>
  At least once: with \<open>earliest\<close>, every record of a log that lies below the committed offset or
  below a member's position has been returned by a poll.
\<close>

definition read_up_to :: "kafka_record set \<Rightarrow> kafka_log \<Rightarrow> int \<Rightarrow> bool" where
  "read_up_to D l q \<longleftrightarrow> q \<le> lg_end l \<and> (\<forall>r \<in> set (lg_records l). kr_offset r < q \<longrightarrow> r \<in> D)"

definition delivered_ok :: "kafka_record set \<Rightarrow> kafka_broker \<Rightarrow> kafka_group \<Rightarrow> bool" where
  "delivered_ok D b g \<longleftrightarrow>
     (\<forall>p c. dict_get (kb_committed b) (cg_id g, cg_topic g, p) = Some c \<longrightarrow>
        (\<exists>l. kb_partition b (cg_topic g) p = Inr l \<and> read_up_to D l c)) \<and>
     (\<forall>m p q. dict_get (cg_positions g) (m, p) = Some q \<longrightarrow>
        (\<exists>l. kb_partition b (cg_topic g) p = Inr l \<and> read_up_to D l q))"

lemma read_up_to_later: "plog_later l l' \<Longrightarrow> read_up_to D l q \<Longrightarrow> read_up_to D l' q"
  unfolding plog_later_def read_up_to_def by (meson le_less_trans linorder_not_le order_trans)

lemma read_up_to_mono: "D \<subseteq> D' \<Longrightarrow> read_up_to D l q \<Longrightarrow> read_up_to D' l q"
  by (auto simp: read_up_to_def)

lemma delivered_ok_later:
  assumes "broker_later (cg_id g) b b'" "delivered_ok D b g"
  shows "delivered_ok D b' g"
  unfolding delivered_ok_def
proof (intro conjI allI impI)
  have carry: "\<exists>l. kb_partition b' (cg_topic g) p = Inr l \<and> read_up_to D l q"
    if "\<exists>l. kb_partition b (cg_topic g) p = Inr l \<and> read_up_to D l q" for p q
    using that assms(1) read_up_to_later unfolding broker_later_def by blast
  fix p c assume "dict_get (kb_committed b') (cg_id g, cg_topic g, p) = Some c"
  then show "\<exists>l. kb_partition b' (cg_topic g) p = Inr l \<and> read_up_to D l c"
    using assms carry by (simp add: broker_later_def delivered_ok_def)
next
  have carry: "\<exists>l. kb_partition b' (cg_topic g) p = Inr l \<and> read_up_to D l q"
    if "\<exists>l. kb_partition b (cg_topic g) p = Inr l \<and> read_up_to D l q" for p q
    using that assms(1) read_up_to_later unfolding broker_later_def by blast
  fix m p q assume "dict_get (cg_positions g) (m, p) = Some q"
  then show "\<exists>l. kb_partition b' (cg_topic g) p = Inr l \<and> read_up_to D l q"
    using assms(2) carry unfolding delivered_ok_def by blast
qed

text \<open>A successful fetch at a position continues exactly where the reading stopped.\<close>

lemma sorted_prefix:
  assumes "sorted_wrt (<) (map f xs)" "take n xs \<noteq> []" "x \<in> set xs" "f x \<le> (f (last (take n xs)) :: int)"
  shows "x \<in> set (take n xs)"
proof -
  let ?j = "min n (length xs) - 1"
  have j: "?j < length xs" "last (take n xs) = xs ! ?j" "?j < length (take n xs)"
    using assms(2) by (cases n; cases xs; auto simp: last_conv_nth min_def)+
  from assms(3) obtain i where i: "i < length xs" "xs ! i = x" by (auto simp: in_set_conv_nth)
  have "i \<le> ?j"
  proof (rule ccontr)
    assume "\<not> i \<le> ?j"
    then have "?j < i" by simp
    with assms(1) i(1) have "f (xs ! ?j) < f (xs ! i)"
      using sorted_wrt_nth_less [of "(<)" "map f xs" ?j i] j(1) by simp
    with assms(4) i j(2) show False by simp
  qed
  then show ?thesis using i j(3) by (auto simp: in_set_conv_nth intro!: exI [of _ i])
qed

definition next_position :: "int \<Rightarrow> kafka_record list \<Rightarrow> int" where
  "next_position position records = (if records \<noteq> [] then kr_offset (last records) + 1 else position)"

lemma fetch_reads_on:
  assumes "kb_fetch b t p q limit = Inr rs" "logs_ok b" "kb_partition b t p = Inr l" "read_up_to D l q"
  shows "read_up_to (D \<union> set rs) l (next_position q rs)"
proof -
  have ok: "plog_ok t p l" using assms(2,3) unfolding logs_ok_def by blast
  then have sorted: "sorted_wrt (<) (map kr_offset (lg_records l))" by (simp add: plog_ok_def)
  then have "sorted (map kr_offset (lg_records l))" by (simp add: strict_sorted_imp_sorted)
  then have rs: "rs = take (nat limit) (filter (\<lambda>r. q \<le> kr_offset r) (lg_records l))"
    using assms(1,3) by (auto simp: kb_fetch_def plog_read_def drop_bisect_left split: if_splits)
  show ?thesis
  proof (cases "rs = []")
    case True
    then show ?thesis using assms(4) by (simp add: next_position_def read_up_to_def)
  next
    case False
    have "last rs \<in> set rs" using False by simp
    then have "last rs \<in> set (lg_records l)" unfolding rs by (auto dest: in_set_takeD)
    then have bound: "kr_offset (last rs) + 1 \<le> lg_end l" using ok by (auto simp: plog_ok_def)
    have "r \<in> D \<union> set rs" if "r \<in> set (lg_records l)" "kr_offset r < kr_offset (last rs) + 1" for r
    proof (cases "kr_offset r < q")
      case True
      then show ?thesis using that(1) assms(4) by (auto simp: read_up_to_def)
    next
      case False
      then have "r \<in> set (filter (\<lambda>r. q \<le> kr_offset r) (lg_records l))" using that(1) by simp
      from sorted_prefix [OF sorted_wrt_map_filter [OF sorted] _ this, of "nat limit"]
      show ?thesis using that(2) \<open>rs \<noteq> []\<close> unfolding rs by simp
    qed
    then show ?thesis using bound False by (simp add: read_up_to_def next_position_def)
  qed
qed

lemma start_offset_read:
  assumes "start_offset b g p = Inr q" "cg_reset g = ''earliest''" "logs_ok b" "delivered_ok D b g"
  shows "\<exists>l. kb_partition b (cg_topic g) p = Inr l \<and> read_up_to D l q"
proof (cases "dict_get (kb_committed b) (cg_id g, cg_topic g, p)")
  case (Some c)
  then have "q = c" using assms(1) by (simp add: start_offset_def kb_committed_offset_def)
  then show ?thesis using Some assms(4) unfolding delivered_ok_def by blast
next
  case None
  then obtain l where l: "kb_partition b (cg_topic g) p = Inr l" "q = lg_start l"
    using assms(1,2) by (auto simp: start_offset_def kb_committed_offset_def kb_offsets_def split: sum.splits)
  with assms(3) have "plog_ok (cg_topic g) p l" unfolding logs_ok_def by blast
  with l show ?thesis by (fastforce simp: plog_ok_def read_up_to_def)
qed

lemma poll_fetch_reads:
  assumes "poll_fetch b g m p limit = Inr (q, rs)" "cg_reset g = ''earliest''" "logs_ok b" "delivered_ok D b g"
  shows "\<exists>l. kb_partition b (cg_topic g) p = Inr l \<and> read_up_to (D \<union> set rs) l (next_position q rs)"
proof -
  have known: "\<exists>l. kb_partition b (cg_topic g) p = Inr l \<and> read_up_to D l position"
    if "(case dict_get (cg_positions g) (m, p) of Some position \<Rightarrow> Inr position | None \<Rightarrow> start_offset b g p) = Inr position"
    for position
  proof (cases "dict_get (cg_positions g) (m, p)")
    case None
    then show ?thesis using that start_offset_read [OF _ assms(2-4)] by simp
  next
    case (Some x)
    then show ?thesis using that assms(4) unfolding delivered_ok_def by auto
  qed
  have "kb_fetch b (cg_topic g) p q limit = Inr rs \<and>
      (start_offset b g p = Inr q \<or>
       (case dict_get (cg_positions g) (m, p) of Some position \<Rightarrow> Inr position | None \<Rightarrow> start_offset b g p) = Inr q)"
    using assms(1) by (auto simp: poll_fetch_def split: sum.splits if_splits)
  moreover from this obtain l where "kb_partition b (cg_topic g) p = Inr l" "read_up_to D l q"
    using known start_offset_read [OF _ assms(2-4)] by blast
  ultimately show ?thesis using fetch_reads_on [OF _ assms(3)] by blast
qed

lemma poll_loop_delivers:
  assumes "poll_loop b m max_records pts out g = (Inr rs, g')" "cg_reset g = ''earliest''" "logs_ok b"
    and "delivered_ok (D \<union> set out) b g"
  shows "delivered_ok (D \<union> set rs) b g'"
  using assms
proof (induction pts arbitrary: out g)
  case (Cons p pts)
  show ?case
  proof (cases "max_records \<le> int (length out)")
    case True
    then show ?thesis using Cons.prems by simp
  next
    case False
    then obtain q rs1 where f: "poll_fetch b g m p (max_records - int (length out)) = Inr (q, rs1)"
      using Cons.prems(1) by (cases "poll_fetch b g m p (max_records - int (length out))") auto
    let ?g = "g\<lparr>cg_positions := dict_set (m, p) (next_position q rs1) (cg_positions g)\<rparr>"
    have r: "\<exists>l. kb_partition b (cg_topic g) p = Inr l \<and> read_up_to (D \<union> set out \<union> set rs1) l (next_position q rs1)"
      by (rule poll_fetch_reads [OF f Cons.prems(2-4)])
    have "delivered_ok (D \<union> set (out @ rs1)) b ?g"
      unfolding delivered_ok_def
    proof (intro conjI allI impI)
      have sub: "D \<union> set out \<subseteq> D \<union> set (out @ rs1)" by auto
      fix p' c assume "dict_get (kb_committed b) (cg_id ?g, cg_topic ?g, p') = Some c"
      then have "dict_get (kb_committed b) (cg_id g, cg_topic g, p') = Some c" by simp
      with Cons.prems(4) obtain l where "kb_partition b (cg_topic g) p' = Inr l" "read_up_to (D \<union> set out) l c"
        unfolding delivered_ok_def by blast
      then show "\<exists>l. kb_partition b (cg_topic ?g) p' = Inr l \<and> read_up_to (D \<union> set (out @ rs1)) l c"
        using read_up_to_mono [OF sub] by auto
    next
      have sub: "D \<union> set out \<subseteq> D \<union> set (out @ rs1)" by auto
      fix m' p' c assume c: "dict_get (cg_positions ?g) (m', p') = Some c"
      show "\<exists>l. kb_partition b (cg_topic ?g) p' = Inr l \<and> read_up_to (D \<union> set (out @ rs1)) l c"
      proof (cases "(m', p') = (m, p)")
        case True
        then show ?thesis using c r by (simp add: Un_assoc)
      next
        case False
        then have "dict_get (cg_positions g) (m', p') = Some c" using c by (auto split: if_splits)
        with Cons.prems(4) obtain l where "kb_partition b (cg_topic g) p' = Inr l" "read_up_to (D \<union> set out) l c"
          unfolding delivered_ok_def by blast
        then show ?thesis using read_up_to_mono [OF sub] by auto
      qed
    qed
    moreover have "poll_loop b m max_records pts (out @ rs1) ?g = (Inr rs, g')"
      using Cons.prems(1) False f by (simp add: next_position_def)
    ultimately show ?thesis using Cons.IH [of "out @ rs1" ?g] Cons.prems(2,3) by simp
  qed
qed simp

lemma poll_loop_same:
  assumes "poll_loop b m max_records pts out g = (res, g')"
  shows "cg_id g' = cg_id g \<and> cg_topic g' = cg_topic g \<and> cg_reset g' = cg_reset g \<and> cg_members g' = cg_members g \<and>
    cg_assignment g' = cg_assignment g \<and> cg_generation g' = cg_generation g"
  using assms
proof (induction pts arbitrary: out g)
  case (Cons p pts)
  then show ?case
    by (fastforce simp: Let_def split: if_splits sum.splits)
qed simp

lemma cg_poll_same:
  "cg_poll b g m max_records = (res, g') \<Longrightarrow> cg_id g' = cg_id g \<and> cg_topic g' = cg_topic g \<and>
     cg_reset g' = cg_reset g \<and> cg_members g' = cg_members g \<and> cg_assignment g' = cg_assignment g \<and>
     cg_generation g' = cg_generation g"
  by (auto simp: cg_poll_def split: sum.splits dest: poll_loop_same)

lemma commit_loop_run:
  assumes "commit_loop g m pts acc b = (res, b')" "kb_run H b"
  shows "kb_run H b' \<and> (delivered_ok D b g \<longrightarrow> delivered_ok D b' g) \<and> grown b b'"
  using assms
proof (induction pts arbitrary: acc b)
  case Nil
  then show ?case by (simp add: grown_refl)
next
  case (Cons p pts)
  show ?case
  proof (cases "dict_get (cg_positions g) (m, p)")
    case None
    then show ?thesis using Cons by simp
  next
    case (Some q)
    obtain res1 b1 where c: "kb_commit b (cg_id g) (cg_topic g) p q = (res1, b1)" by (metis surj_pair)
    have "kb_run H b1" by (rule kb_run.commit [OF Cons.prems(2) c])
    moreover have "grown b b1" by (rule kb_commit_grown [OF c])
    moreover have "delivered_ok D b g \<longrightarrow> delivered_ok D b1 g"
      using c
    proof (cases rule: kb_commit_cases)
      case (committed l)
      have same: "kb_partition b1 t p = kb_partition b t p" for t p
        by (rule kb_partition_cong) (simp add: committed(5))
      have "\<exists>l. kb_partition b (cg_topic g) p = Inr l \<and> read_up_to D l q" if "delivered_ok D b g"
        using Some that unfolding delivered_ok_def by blast
      then show ?thesis
        unfolding delivered_ok_def same by (auto simp: committed(5) split: if_splits)
    qed simp
    moreover have "grown b b'" if "grown b b1" "grown b1 b'" using that unfolding grown_def by metis
    ultimately show ?thesis
      using Cons.prems(1) Cons.IH [of "dict_set p q acc" b1] Some c by (cases res1) auto
  qed
qed

lemma cg_commit_run:
  "cg_commit b g m = (res, b') \<Longrightarrow> kb_run H b \<Longrightarrow>
     kb_run H b' \<and> (delivered_ok D b g \<longrightarrow> delivered_ok D b' g) \<and> grown b b'"
  by (auto simp: cg_commit_def grown_refl split: sum.splits dest: commit_loop_run)

text \<open>Joining and leaving: a rebalance revokes every position and assigns the partitions afresh.\<close>

definition members_ok :: "kafka_broker \<Rightarrow> kafka_group \<Rightarrow> bool" where
  "members_ok b g \<longleftrightarrow> distinct (cg_members g) \<and>
     (cg_assignment g \<noteq> [] \<longrightarrow> cg_members g \<noteq> [] \<and> (\<exists>n. kb_partition_count b (cg_topic g) = Inr n \<and>
        cg_assignment g = range_assign n (sort (cg_members g))))"

lemma cg_rebalance_cases:
  assumes "cg_rebalance b g = (res, g')"
  obtains (failed) e where "res = Inl e" "g' = g" "\<And>n. kb_partition_count b (cg_topic g) \<noteq> Inr n"
  | (assigned) n where "res = Inr ()" "kb_partition_count b (cg_topic g) = Inr n"
      "g' = g\<lparr>cg_assignment := range_assign n (sort (cg_members g)), cg_positions := [],
              cg_generation := cg_generation g + 1\<rparr>"
  using assms by (auto simp: cg_rebalance_def split: sum.splits)

lemma cg_join_cases:
  assumes "cg_join b g m = (res, g')"
  obtains (failed) e where "res = Inl e" "g' = g" "m \<in> set (cg_members g)"
  | (stuck) e where "res = Inl e" "m \<notin> set (cg_members g)" "g' = g\<lparr>cg_members := cg_members g @ [m]\<rparr>"
      "\<And>n. kb_partition_count b (cg_topic g) \<noteq> Inr n"
  | (joined) n where "m \<notin> set (cg_members g)" "kb_partition_count b (cg_topic g) = Inr n"
      "g' = g\<lparr>cg_members := cg_members g @ [m], cg_assignment := range_assign n (sort (cg_members g @ [m])),
              cg_positions := [], cg_generation := cg_generation g + 1\<rparr>"
proof (cases "m \<in> set (cg_members g)")
  case True
  then show ?thesis using assms by (intro failed [of ConflictError]) (simp_all add: cg_join_def)
next
  case False
  let ?g = "g\<lparr>cg_members := cg_members g @ [m]\<rparr>"
  obtain res1 g1 where r: "cg_rebalance b ?g = (res1, g1)" by (metis surj_pair)
  then show ?thesis
  proof (cases rule: cg_rebalance_cases)
    case (failed e)
    then show ?thesis using assms False r stuck [of e] by (simp add: cg_join_def)
  next
    case (assigned n)
    then have "g' = g1" using assms False r by (auto simp: cg_join_def split: option.splits)
    then show ?thesis using joined [of n] False assigned(2,3) by simp
  qed
qed

lemma cg_leave_cases:
  assumes "cg_leave b g m = (res, g')"
  obtains (failed) e where "res = Inl e" "g' = g"
  | (stuck) e where "res = Inl e" "cg_assignment g \<noteq> []" "m \<in> set (cg_members g)"
      "\<And>n. kb_partition_count b (cg_topic g) \<noteq> Inr n"
  | (left) n where "m \<in> set (cg_members g)" "kb_partition_count b (cg_topic g) = Inr n"
      "g' = g\<lparr>cg_members := remove1 m (cg_members g), cg_assignment := range_assign n (sort (remove1 m (cg_members g))),
              cg_positions := [], cg_generation := cg_generation g + 1\<rparr>"
proof (cases "cg_require g m")
  case (Inl e)
  then show ?thesis using assms by (intro failed [of e]) (simp_all add: cg_leave_def)
next
  case q: (Inr ps)
  show ?thesis
  proof (cases "m \<in> set (cg_members g)")
    case False
    then show ?thesis using assms q by (intro failed [of ValueError]) (simp_all add: cg_leave_def)
  next
    case True
    let ?g = "g\<lparr>cg_members := remove1 m (cg_members g)\<rparr>"
    have r: "cg_rebalance b ?g = (res, g')" using assms q True by (simp add: cg_leave_def)
    then show ?thesis
    proof (cases rule: cg_rebalance_cases)
      case failed
      have "cg_assignment g \<noteq> []" using q by (auto simp: cg_require_def)
      with failed True show ?thesis by (intro stuck) simp_all
    next
      case (assigned n)
      then show ?thesis using left [of n] True by simp
    qed
  qed
qed

lemma members_ok_grown:
  "grown b b' \<Longrightarrow> members_ok b g \<Longrightarrow> members_ok b' g"
  using grown_count unfolding members_ok_def by blast

lemma members_ok_same:
  "members_ok b g \<Longrightarrow> cg_members g' = cg_members g \<Longrightarrow> cg_assignment g' = cg_assignment g \<Longrightarrow>
     cg_topic g' = cg_topic g \<Longrightarrow> members_ok b g'"
  by (simp add: members_ok_def)

lemma range_assign_Nil: "range_assign n [] = []"
  by (simp add: range_assign_def Let_def)

lemma cg_join_ok:
  assumes "cg_join b g m = (res, g')" "members_ok b g"
  shows "members_ok b g'"
  using assms(1)
proof (cases rule: cg_join_cases)
  case (stuck e)
  then have "cg_assignment g = []" using assms(2) unfolding members_ok_def by blast
  then show ?thesis using assms(2) stuck by (simp add: members_ok_def)
next
  case (joined n)
  then show ?thesis using assms(2) by (simp add: members_ok_def)
qed (use assms in simp)

lemma cg_leave_ok:
  assumes "cg_leave b g m = (res, g')" "members_ok b g"
  shows "members_ok b g'"
  using assms(1)
proof (cases rule: cg_leave_cases)
  case (stuck e)
  then show ?thesis using assms(2) unfolding members_ok_def by blast
next
  case (left n)
  then show ?thesis
    using assms(2) by (cases "remove1 m (cg_members g) = []") (simp_all add: members_ok_def range_assign_Nil)
qed (use assms in simp)

lemma delivered_ok_revoked:
  "delivered_ok D b g \<Longrightarrow> cg_id g' = cg_id g \<Longrightarrow> cg_topic g' = cg_topic g \<Longrightarrow>
     cg_positions g' = cg_positions g \<or> cg_positions g' = [] \<Longrightarrow> delivered_ok D b g'"
  by (auto simp: delivered_ok_def)

lemma cg_join_same:
  "cg_join b g m = (res, g') \<Longrightarrow> cg_id g' = cg_id g \<and> cg_topic g' = cg_topic g \<and> cg_reset g' = cg_reset g \<and>
     (cg_positions g' = cg_positions g \<or> cg_positions g' = [])"
  by (cases rule: cg_join_cases) auto

lemma cg_leave_same:
  "cg_leave b g m = (res, g') \<Longrightarrow> cg_id g' = cg_id g \<and> cg_topic g' = cg_topic g \<and> cg_reset g' = cg_reset g \<and>
     (cg_positions g' = cg_positions g \<or> cg_positions g' = [])"
  by (auto simp: cg_leave_def cg_rebalance_def split: sum.splits if_splits)

lemma cg_run_ok:
  assumes "cg_run D b g"
  shows "(\<exists>H. kb_run H b) \<and> members_ok b g \<and> (cg_reset g = ''earliest'' \<longrightarrow> delivered_ok D b g)"
  using assms
proof (induction rule: cg_run.induct)
  case (start H b gid topic reset g)
  then show ?case
    by (auto simp: cg_new_def members_ok_def delivered_ok_def split: if_splits)
next
  case (others D b g b')
  then obtain H where H: "kb_run H b" by blast
  then have "logs_ok b" using kb_run_ok by (auto simp: run_ok_def)
  with others H show ?case
    using kb_others_run [OF others(2) H] members_ok_grown [OF kb_others_grown [OF others(2)]]
      delivered_ok_later [OF kb_others_later [OF others(2)]] by blast
next
  case (join D b g m res g')
  then show ?case
    using cg_join_ok [OF join(2)] cg_join_same [OF join(2)] delivered_ok_revoked by metis
next
  case (leave D b g m res g')
  then show ?case
    using cg_leave_ok [OF leave(2)] cg_leave_same [OF leave(2)] delivered_ok_revoked by metis
next
  case (poll D b g m max_records rs g')
  then obtain H where H: "kb_run H b" by blast
  then have logs: "logs_ok b" using kb_run_ok by (auto simp: run_ok_def)
  from poll(2) obtain pts where l: "poll_loop b m max_records pts [] g = (Inr rs, g')"
    by (auto simp: cg_poll_def split: sum.splits)
  have "cg_reset g' = ''earliest'' \<longrightarrow> delivered_ok (D \<union> set rs) b g'"
    using poll_loop_delivers [OF l _ logs, of D] poll(3) cg_poll_same [OF poll(2)] by auto
  then show ?case using H members_ok_same [of b g g'] poll(3) cg_poll_same [OF poll(2)] by auto
next
  case (commit D b g m res b')
  then obtain H where H: "kb_run H b" by blast
  show ?case using cg_commit_run [OF commit(2) H, of D] members_ok_grown commit(3) by blast
qed

section \<open>Properties of consumer groups\<close>

text \<open>One owner per partition: in every run of a group, through joins, leaves, failed calls and
  whatever the brokers and other groups do, an assignment covers each partition of the topic by
  exactly one member of the group, gives every member a duplicate-free share of existing
  partitions, and the sizes of the shares differ by at most one.\<close>

theorem kafka_fair_assignment:
  assumes "cg_run D b g" "cg_assignment g \<noteq> []"
  shows "\<exists>n. kb_partition_count b (cg_topic g) = Inr n \<and> fair_assignment n (set (cg_members g)) (cg_assignment g)"
proof -
  from cg_run_ok [OF assms(1)] assms(2) obtain n where n: "distinct (cg_members g)" "cg_members g \<noteq> []"
    "kb_partition_count b (cg_topic g) = Inr n" "cg_assignment g = range_assign n (sort (cg_members g))"
    unfolding members_ok_def by blast
  then have "0 \<le> n" by (auto simp: kb_partition_count_facts)
  moreover have "sort (cg_members g) \<noteq> []" using n(2) by (metis set_empty set_sort)
  ultimately show ?thesis using n range_assign_fair [of "sort (cg_members g)" n] by simp
qed

text \<open>At least once: a group reading from \<^verbatim>\<open>earliest\<close>, whose polls do not raise, never skips a
  record: whatever joins, leaves, commits, appends, compactions and expiries happen in between,
  every record still in a log below the group's committed offset, or below the position of a
  member, has been returned by one of its polls.\<close>

theorem kafka_at_least_once:
  assumes "cg_run D b g" "cg_reset g = ''earliest''" "kb_partition b (cg_topic g) p = Inr l" "r \<in> set (lg_records l)"
    and "kb_committed_offset b (cg_id g) (cg_topic g) p = Some c \<or> dict_get (cg_positions g) (m, p) = Some c"
    and "kr_offset r < c"
  shows "r \<in> D"
proof -
  have "delivered_ok D b g" using cg_run_ok [OF assms(1)] assms(2) by simp
  then have "\<exists>l. kb_partition b (cg_topic g) p = Inr l \<and> read_up_to D l c"
    using assms(5) unfolding delivered_ok_def kb_committed_offset_def by blast
  then show ?thesis using assms(3,4,6) by (auto simp: read_up_to_def)
qed

text \<open>Retention past the committed offset: once the start of a log has moved beyond what the group
  committed, a member whose position is not past the start either can no longer read the partition:
  the retry of \<^verbatim>\<open>poll\<close> falls back to the same committed offset, so every poll that reaches the
  partition raises, whatever its limit and whatever \<^verbatim>\<open>auto_offset_reset\<close> says.\<close>

theorem kafka_retention_sticks:
  assumes "kb_partition b (cg_topic g) p = Inr l"
    and "kb_committed_offset b (cg_id g) (cg_topic g) p = Some c" "c < lg_start l"
    and "\<And>q. dict_get (cg_positions g) (m, p) = Some q \<Longrightarrow> q < lg_start l"
    and "cg_require g m = Inr (p # ps)" "0 < max_records"
  shows "cg_poll b g m max_records = (Inl OffsetOutOfRangeError, g)"
proof -
  have "poll_fetch b g m p max_records = Inl OffsetOutOfRangeError"
    using assms(1-4,6)
    by (auto simp: poll_fetch_def start_offset_def kb_fetch_def plog_read_def split: option.splits)
  then show ?thesis using assms(5,6) by (simp add: cg_poll_def)
qed

section \<open>Concrete runs\<close>

definition demo_topic :: kafka_broker where
  "demo_topic = snd (kb_create_topic kb_new ''orders'' 2 (Some 100))"

definition demo_record :: kafka_record where
  "demo_record = \<lparr>kr_topic = ''orders'', kr_partition = 1, kr_offset = 0, kr_key = None, kr_value = Some ''a'', kr_time = 0\<rparr>"

definition demo_logged :: kafka_broker where
  "demo_logged = snd (kb_append demo_topic 0 ''orders'' 1 None (Some ''a'') (Some ''p'') (Some 0))"

lemma demo_append:
  "kb_append demo_topic 0 ''orders'' 1 None (Some ''a'') (Some ''p'') (Some 0) = (Inr demo_record, demo_logged)"
  "kb_append demo_logged 0 ''orders'' 1 None (Some ''a'') (Some ''p'') (Some 0) = (Inr demo_record, demo_logged)"
  by code_simp+

lemma demo_kb_run: "kb_run {} demo_topic" "kb_run {(Some (''p'', 0), demo_record)} demo_logged"
proof -
  have "kb_create_topic kb_new ''orders'' 2 (Some 100) = (Inr (), demo_topic)" by code_simp
  then show t: "kb_run {} demo_topic" by (rule kb_run.create [OF kb_run.start])
  show "kb_run {(Some (''p'', 0), demo_record)} demo_logged"
    using kb_run.append [OF kb_run.append [OF t demo_append(1)] demo_append(2)] by (simp add: ack_source_def)
qed

theorem kafka_exactly_once_witness:
  "\<exists>!a. a \<in> {(Some (''p'', 0 :: int), demo_record)} \<and> kr_topic (snd a) = ''orders'' \<and>
     kr_partition (snd a) = 1 \<and> kr_offset (snd a) = 0"
proof -
  obtain l where l: "kb_partition demo_logged ''orders'' 1 = Inr l" "lg_end l = 1"
  proof -
    have "case kb_partition demo_logged ''orders'' 1 of Inr l \<Rightarrow> lg_end l = 1 | Inl _ \<Rightarrow> False" by code_simp
    then show ?thesis using that by (auto split: sum.splits)
  qed
  then show ?thesis using kafka_exactly_once [OF demo_kb_run(2)] by simp
qed

theorem kafka_send_once_witness:
  "\<exists>r l k' b'. kp_send (\<lambda>_. [0, 0, 0, 1]) demo_topic (kp_new ''p'') [5, 6, 7] ''orders'' (Some ''v'') (Some ''k'') 3 =
     (Inr r, k', b') \<and> kr_partition r = 1 \<and> kb_partition demo_topic ''orders'' 1 = Inr l \<and>
     kb_partition b' ''orders'' 1 = Inr (logged l r)"
proof -
  have "in_step demo_topic (kp_new ''p'')"
    by (simp add: in_step_def next_sequence_def demo_topic_def kb_create_topic_def kb_new_def kp_new_def)
  moreover have "kb_partition_count demo_topic ''orders'' = Inr 2" by code_simp
  moreover have "(1 :: int) \<le> 3" by simp
  ultimately obtain r l k' b' where s:
    "kp_send (\<lambda>_. [0, 0, 0, 1]) demo_topic (kp_new ''p'') [5, 6, 7] ''orders'' (Some ''v'') (Some ''k'') 3 = (Inr r, k', b')"
    "kb_partition demo_topic ''orders'' (kr_partition r) = Inr l"
    "\<forall>x. Some ''k'' = Some x \<longrightarrow> kr_partition r = partition_hash (\<lambda>_. [0, 0, 0, 1]) x mod 2"
    "\<forall>t' p. kb_partition b' t' p =
       (if t' = ''orders'' \<and> p = kr_partition r then Inr (logged l r) else kb_partition demo_topic t' p)"
    using kafka_send_once [OF demo_kb_run(1), of "kp_new ''p''" "''orders''" 2 3 "\<lambda>_. [0, 0, 0, 1]" "[5, 6, 7]"
        "Some ''v''" "Some ''k''"] by blast
  moreover have "partition_hash (\<lambda>_. [0, 0, 0, 1]) ''k'' mod 2 = 1" by (simp add: partition_hash_def)
  ultimately have "kr_partition r = 1" by simp
  with s show ?thesis by (intro exI [of _ r] exI [of _ l] exI [of _ k'] exI [of _ b']) simp
qed

text \<open>A group of two members on that topic.\<close>

definition demo_cg0 :: kafka_group where
  "demo_cg0 = projr (cg_new ''billing'' ''orders'' ''earliest'')"

definition demo_cg :: kafka_group where
  "demo_cg = snd (cg_join demo_logged (snd (cg_join demo_logged demo_cg0 ''c2'')) ''c1'')"

definition demo_polled :: kafka_group where
  "demo_polled = snd (cg_poll demo_logged demo_cg ''c2'' 10)"

definition demo_committed :: kafka_broker where
  "demo_committed = snd (cg_commit demo_logged demo_polled ''c2'')"

lemma demo_cg_run: "cg_run {} demo_logged demo_cg" "cg_run {demo_record} demo_committed demo_polled"
proof -
  have n: "cg_new ''billing'' ''orders'' ''earliest'' = Inr demo_cg0" by code_simp
  have e: "kb_committed demo_logged = []" by code_simp
  have s: "cg_run {} demo_logged demo_cg0" by (rule cg_run.start [OF demo_kb_run(2) n]) (simp add: e)
  show j: "cg_run {} demo_logged demo_cg"
    unfolding demo_cg_def by (rule cg_run.join [OF cg_run.join [OF s]]) (rule prod.collapse [symmetric])+
  have p: "cg_poll demo_logged demo_cg ''c2'' 10 = (Inr [demo_record], demo_polled)" by code_simp
  have "cg_run ({} \<union> set [demo_record]) demo_logged demo_polled" by (rule cg_run.poll [OF j p])
  then show "cg_run {demo_record} demo_committed demo_polled"
    unfolding demo_committed_def by (simp add: cg_run.commit [OF _ prod.collapse [symmetric]])
qed

theorem kafka_fair_assignment_witness:
  "\<exists>n. kb_partition_count demo_logged (cg_topic demo_cg) = Inr n \<and>
     fair_assignment n (set (cg_members demo_cg)) (cg_assignment demo_cg)"
proof -
  have "cg_assignment demo_cg \<noteq> []" by code_simp
  from kafka_fair_assignment [OF demo_cg_run(1) this] show ?thesis .
qed

theorem kafka_at_least_once_witness:
  "kb_committed_offset demo_committed ''billing'' ''orders'' 1 = Some 1 \<and> cg_run {demo_record} demo_committed demo_polled \<and>
   demo_record \<in> {demo_record}"
proof -
  obtain l where l: "kb_partition demo_committed ''orders'' 1 = Inr l" "demo_record \<in> set (lg_records l)"
  proof -
    have "case kb_partition demo_committed ''orders'' 1 of Inr l \<Rightarrow> lg_records l = [demo_record] | Inl _ \<Rightarrow> False"
      by code_simp
    then show ?thesis using that by (auto split: sum.splits)
  qed
  have c: "kb_committed_offset demo_committed (cg_id demo_polled) (cg_topic demo_polled) 1 = Some 1"
    "cg_topic demo_polled = ''orders''" "cg_reset demo_polled = ''earliest''" by code_simp+
  have "demo_record \<in> {demo_record}"
    by (rule kafka_at_least_once [OF demo_cg_run(2), of 1 l demo_record 1 "''c2''"])
      (use l c in \<open>simp_all add: demo_record_def\<close>)
  moreover have "cg_id demo_polled = ''billing''" by code_simp
  ultimately show ?thesis using c demo_cg_run(2) by simp
qed

text \<open>
  Retention overtakes the group on partition 1: the member that holds both partitions reads the new
  record of partition 0, then raises on partition 1. Its position on partition 0 has moved, so a
  commit after the failed poll commits a record that no poll ever returned.
\<close>

definition demo_alone :: kafka_group where
  "demo_alone = snd (cg_leave demo_committed demo_polled ''c1'')"

definition demo_expired :: kafka_broker where
  "demo_expired =
     (let b1 = snd (kb_append demo_committed 1 ''orders'' 1 None (Some ''b'') None None);
          b2 = snd (kb_append b1 200 ''orders'' 0 None (Some ''c'') None None)
      in snd (kb_expire b2 200 ''orders''))"

lemma failed_poll_loses_record:
  "fst (cg_poll demo_expired demo_alone ''c2'' 10) = Inl OffsetOutOfRangeError \<and>
   kb_committed_offset (snd (cg_commit demo_expired (snd (cg_poll demo_expired demo_alone ''c2'' 10)) ''c2''))
     ''billing'' ''orders'' 0 = Some 1 \<and>
   map_sum id (map kr_offset) (kb_fetch demo_expired ''orders'' 0 0 10) = Inr [0]"
  by code_simp

text \<open>A join on a topic that does not exist yet raises, but the member stays on the list: it can never join again.\<close>

lemma join_unknown_topic_sticks:
  "fst (cg_join kb_new demo_cg0 ''c1'') = Inl NotFoundError \<and>
   fst (cg_join demo_topic (snd (cg_join kb_new demo_cg0 ''c1'')) ''c1'') = Inl ConflictError \<and>
   cg_member_assignment (snd (cg_join kb_new demo_cg0 ''c1'')) ''c1'' = Inl NotFoundError"
  by code_simp

text \<open>With two members the second one owns nothing but partition 1, and its polls only raise.\<close>

definition demo_stuck :: kafka_group where
  "demo_stuck = snd (cg_join demo_expired demo_alone ''c0'')"

theorem kafka_retention_sticks_witness:
  "cg_poll demo_expired demo_stuck ''c2'' 10 = (Inl OffsetOutOfRangeError, demo_stuck)"
proof -
  obtain l where l: "kb_partition demo_expired ''orders'' 1 = Inr l" "lg_start l = 2"
  proof -
    have "case kb_partition demo_expired ''orders'' 1 of Inr l \<Rightarrow> lg_start l = 2 | Inl _ \<Rightarrow> False" by code_simp
    then show ?thesis using that by (auto split: sum.splits)
  qed
  have c: "kb_committed_offset demo_expired (cg_id demo_stuck) (cg_topic demo_stuck) 1 = Some 1"
    "cg_topic demo_stuck = ''orders''" "cg_positions demo_stuck = []" "cg_require demo_stuck ''c2'' = Inr [1]"
    by code_simp+
  show ?thesis
    by (rule kafka_retention_sticks [of _ _ 1 l 1]) (use l c in simp_all)
qed

end
