(* ===== verification/Lru_Cache.thy ===== *)
theory Lru_Cache
  imports Common
begin

text \<open>
  The O(1) LRU cache of \<^verbatim>\<open>code/hld/lru_cache.py\<close>: a dict of nodes and a circular doubly linked
  list with a sentinel, mutated in place. The nodes live in an explicit heap, a function from
  addresses to nodes, so that the four pointer assignments of \<^verbatim>\<open>insert_after\<close> and the two of
  \<^verbatim>\<open>unlink\<close> are the ones of the code. A cache of plain lists, most recently used entry first, is
  the specification it is proved to implement.

  A value is any value of the code, \<^verbatim>\<open>None\<close> included: the simulation instantiates \<open>'v\<close> with an
  option. An operation takes the reading of the injected clock.
\<close>

section \<open>Nodes\<close>

type_synonym addr = nat

record ('k, 'v) lru_node =
  ln_key :: "'k option"
  ln_value :: "'v option"
  ln_expires_at :: "time option"
  ln_prev :: addr
  ln_next :: addr

type_synonym ('k, 'v) lru_heap = "addr \<Rightarrow> ('k, 'v) lru_node"

text \<open>A new node points to itself.\<close>

definition node_new :: "'k option \<Rightarrow> 'v option \<Rightarrow> time option \<Rightarrow> addr \<Rightarrow> ('k, 'v) lru_node" where
  "node_new key v expires_at self =
     \<lparr>ln_key = key, ln_value = v, ln_expires_at = expires_at, ln_prev = self, ln_next = self\<rparr>"

definition set_prev :: "addr \<Rightarrow> addr \<Rightarrow> ('k, 'v) lru_heap \<Rightarrow> ('k, 'v) lru_heap" where
  "set_prev a p h = h(a := (h a)\<lparr>ln_prev := p\<rparr>)"

definition set_next :: "addr \<Rightarrow> addr \<Rightarrow> ('k, 'v) lru_heap \<Rightarrow> ('k, 'v) lru_heap" where
  "set_next a n h = h(a := (h a)\<lparr>ln_next := n\<rparr>)"

definition node_unlink :: "addr \<Rightarrow> ('k, 'v) lru_heap \<Rightarrow> ('k, 'v) lru_heap" where
  "node_unlink self h =
     (let h1 = set_next (ln_prev (h self)) (ln_next (h self)) h
      in set_prev (ln_next (h1 self)) (ln_prev (h1 self)) h1)"

definition node_insert_after :: "addr \<Rightarrow> addr \<Rightarrow> ('k, 'v) lru_heap \<Rightarrow> ('k, 'v) lru_heap" where
  "node_insert_after self anchor h =
     (let h1 = set_prev self anchor h;
          h2 = set_next self (ln_next (h1 anchor)) h1;
          h3 = set_prev (ln_next (h2 anchor)) self h2
      in set_next anchor self h3)"

section \<open>The cache\<close>

record cache_stats =
  cs_hits :: int
  cs_misses :: int
  cs_evictions :: int
  cs_expirations :: int

definition cs_hit_ratio :: "cache_stats \<Rightarrow> rat" where
  "cs_hit_ratio s =
     (let total = cs_hits s + cs_misses s in if total \<noteq> 0 then of_int (cs_hits s) / of_int total else 0)"

text \<open>The sentinel is node 0; \<open>lc_fresh\<close> is the address the next node gets.\<close>

record ('k, 'v) lru_cache =
  lc_capacity :: int
  lc_map :: "('k, addr) dict"
  lc_heap :: "('k, 'v) lru_heap"
  lc_fresh :: addr
  lc_stats :: cache_stats

definition lru_new :: "int \<Rightarrow> ('k, 'v) lru_cache result" where
  "lru_new capacity =
     (if capacity \<le> 0 then Inl ValidationError
      else Inr \<lparr>lc_capacity = capacity, lc_map = [], lc_heap = (\<lambda>a. node_new None None None a), lc_fresh = 1,
                lc_stats = \<lparr>cs_hits = 0, cs_misses = 0, cs_evictions = 0, cs_expirations = 0\<rparr>\<rparr>)"

definition node_expired :: "time \<Rightarrow> ('k, 'v) lru_node \<Rightarrow> bool" where
  "node_expired now node = (case ln_expires_at node of None \<Rightarrow> False | Some t \<Rightarrow> t \<le> now)"

definition lru_drop :: "addr \<Rightarrow> ('k, 'v) lru_cache \<Rightarrow> ('k, 'v) lru_cache" where
  "lru_drop node c =
     c\<lparr>lc_map := (case ln_key (lc_heap c node) of None \<Rightarrow> lc_map c | Some k \<Rightarrow> dict_del k (lc_map c)),
       lc_heap := node_unlink node (lc_heap c)\<rparr>"

definition lru_len :: "('k, 'v) lru_cache \<Rightarrow> int" where
  "lru_len c = int (length (lc_map c))"

definition lru_contains :: "('k, 'v) lru_cache \<Rightarrow> time \<Rightarrow> 'k \<Rightarrow> bool" where
  "lru_contains c now key =
     (case dict_get (lc_map c) key of None \<Rightarrow> False | Some node \<Rightarrow> \<not> node_expired now (lc_heap c node))"

definition move_front :: "addr \<Rightarrow> ('k, 'v) lru_heap \<Rightarrow> ('k, 'v) lru_heap" where
  "move_front node h = node_insert_after node 0 (node_unlink node h)"

definition lru_get :: "('k, 'v) lru_cache \<Rightarrow> time \<Rightarrow> 'k \<Rightarrow> 'v \<Rightarrow> 'v \<times> ('k, 'v) lru_cache" where
  "lru_get c now key missing =
     (case dict_get (lc_map c) key of
        None \<Rightarrow> (missing, c\<lparr>lc_stats := (lc_stats c)\<lparr>cs_misses := cs_misses (lc_stats c) + 1\<rparr>\<rparr>)
      | Some node \<Rightarrow>
          if node_expired now (lc_heap c node)
          then let c' = lru_drop node c
               in (missing, c'\<lparr>lc_stats := (lc_stats c')\<lparr>cs_expirations := cs_expirations (lc_stats c') + 1,
                                                     cs_misses := cs_misses (lc_stats c') + 1\<rparr>\<rparr>)
          else let c' = c\<lparr>lc_heap := move_front node (lc_heap c),
                          lc_stats := (lc_stats c)\<lparr>cs_hits := cs_hits (lc_stats c) + 1\<rparr>\<rparr>
               in (the (ln_value (lc_heap c' node)), c'))"

definition lru_put ::
  "('k, 'v) lru_cache \<Rightarrow> time \<Rightarrow> 'k \<Rightarrow> 'v \<Rightarrow> time option \<Rightarrow> unit result \<times> ('k, 'v) lru_cache" where
  "lru_put c now key v ttl =
     (if (case ttl of None \<Rightarrow> False | Some t \<Rightarrow> t \<le> 0) then (Inl ValidationError, c)
      else let expires_at = (case ttl of None \<Rightarrow> None | Some t \<Rightarrow> Some (now + t))
           in (case dict_get (lc_map c) key of
                 Some node \<Rightarrow>
                   let h = (lc_heap c)(node := (lc_heap c node)\<lparr>ln_value := Some v, ln_expires_at := expires_at\<rparr>)
                   in (Inr (), c\<lparr>lc_heap := move_front node h\<rparr>)
               | None \<Rightarrow>
                   let c1 = (if lc_capacity c \<le> int (length (lc_map c))
                             then let victim = ln_prev (lc_heap c 0); c' = lru_drop victim c
                                  in if node_expired now (lc_heap c' victim)
                                     then c'\<lparr>lc_stats := (lc_stats c')\<lparr>cs_expirations := cs_expirations (lc_stats c') + 1\<rparr>\<rparr>
                                     else c'\<lparr>lc_stats := (lc_stats c')\<lparr>cs_evictions := cs_evictions (lc_stats c') + 1\<rparr>\<rparr>
                             else c);
                       node = lc_fresh c1
                   in (Inr (), c1\<lparr>lc_map := dict_set key node (lc_map c1),
                                  lc_heap := node_insert_after node 0
                                    ((lc_heap c1)(node := node_new (Some key) (Some v) expires_at node)),
                                  lc_fresh := node + 1\<rparr>)))"

definition lru_delete :: "('k, 'v) lru_cache \<Rightarrow> 'k \<Rightarrow> bool \<times> ('k, 'v) lru_cache" where
  "lru_delete c key =
     (case dict_get (lc_map c) key of
        None \<Rightarrow> (False, c)
      | Some node \<Rightarrow> (True, c\<lparr>lc_map := dict_del key (lc_map c), lc_heap := node_unlink node (lc_heap c)\<rparr>))"

text \<open>
  The walk of \<^verbatim>\<open>keys\<close> from the sentinel; the fuel bounds it by the number of entries, which the
  walk of a well-formed cache never needs to exceed.
\<close>

fun keys_walk :: "('k, 'v) lru_heap \<Rightarrow> time \<Rightarrow> nat \<Rightarrow> addr \<Rightarrow> 'k list option" where
  "keys_walk h now fuel node =
     (if node = 0 then Some []
      else case fuel of
             0 \<Rightarrow> None
           | Suc fuel \<Rightarrow>
               map_option (\<lambda>ks. if node_expired now (h node) then ks else the (ln_key (h node)) # ks)
                 (keys_walk h now fuel (ln_next (h node))))"

declare keys_walk.simps [simp del]

definition lru_keys :: "('k, 'v) lru_cache \<Rightarrow> time \<Rightarrow> 'k list option" where
  "lru_keys c now = keys_walk (lc_heap c) now (length (lc_map c)) (ln_next (lc_heap c 0))"

section \<open>The simulation\<close>

text \<open>The cache-aside loop; \<open>clock\<close> is the sequence of readings of the system clock.\<close>

fun simulate_loop ::
  "(nat \<Rightarrow> time) \<Rightarrow> nat \<Rightarrow> 'k list \<Rightarrow> ('k, int option) lru_cache \<Rightarrow> ('k, int option) lru_cache" where
  "simulate_loop clock i [] c = c"
| "simulate_loop clock i (key # keys) c =
     (let (v, c1) = lru_get c (clock i) key None;
          c2 = (if v = None then snd (lru_put c1 (clock (i + 1)) key (Some 1) None) else c1)
      in simulate_loop clock (i + 2) keys c2)"

definition simulate_hit_ratio :: "(nat \<Rightarrow> time) \<Rightarrow> 'k list \<Rightarrow> int \<Rightarrow> rat result" where
  "simulate_hit_ratio clock keys capacity =
     (case lru_new capacity of
        Inl e \<Rightarrow> Inl e
      | Inr c \<Rightarrow> Inr (cs_hit_ratio (lc_stats (simulate_loop clock 0 keys c))))"

section \<open>Paths through the heap\<close>

text \<open>
  \<open>fpath f a xs b\<close>: following the pointers \<open>f\<close> from \<open>a\<close> leads through \<open>xs\<close> to \<open>b\<close>. A circular
  list is one such path for the next pointers and the reversed one for the previous pointers.
\<close>

fun fpath :: "(addr \<Rightarrow> addr) \<Rightarrow> addr \<Rightarrow> addr list \<Rightarrow> addr \<Rightarrow> bool" where
  "fpath f a [] b \<longleftrightarrow> f a = b"
| "fpath f a (x # xs) b \<longleftrightarrow> f a = x \<and> fpath f x xs b"

lemma fpath_append: "fpath f a (xs @ y # ys) b \<longleftrightarrow> fpath f a xs y \<and> fpath f y ys b"
  by (induction xs arbitrary: a) auto

lemma fpath_frame: "c \<notin> set (a # xs) \<Longrightarrow> fpath (f(c := d)) a xs b \<longleftrightarrow> fpath f a xs b"
  by (induction xs arbitrary: a) auto

lemma fpath_remove:
  assumes "fpath f a (xs @ n # ys) b" "distinct (a # xs @ n # ys)"
  shows "fpath (f(last (a # xs) := f n)) a (xs @ ys) b"
  using assms
proof (induction xs arbitrary: a)
  case Nil
  then have n: "fpath f n ys b" "a \<notin> set (n # ys)" by auto
  then have "fpath (f(a := f n)) n ys b" using fpath_frame [of a n ys f "f n" b] by blast
  with n(1) show ?case by (cases ys) (simp_all del: fun_upd_apply add: fun_upd_same)
next
  case (Cons x xs)
  have "last (x # xs) \<in> set (x # xs)" by (rule last_in_set) simp
  then have "last (x # xs) \<noteq> a" using Cons.prems(2) by (metis Un_iff distinct.simps(2) set_append append_Cons)
  moreover have "last (a # x # xs) = last (x # xs)" by simp
  ultimately show ?case using Cons.IH [of x] Cons.prems by auto
qed

lemma fpath_push:
  "fpath f a xs b \<Longrightarrow> n \<notin> set (a # xs) \<Longrightarrow> a \<notin> set xs \<Longrightarrow> fpath (f(n := f a, a := n)) a (n # xs) b"
  by (cases xs) (auto simp: fpath_frame fun_upd_twist)

lemma fpath_snoc:
  assumes "fpath f b ys a" "distinct (b # ys)" "n \<notin> set (b # ys)"
  shows "fpath (f(last (b # ys) := n, n := a)) b (ys @ [n]) a"
  using assms
proof (induction ys arbitrary: b)
  case (Cons y ys)
  have "last (y # ys) \<in> set (y # ys)" by (rule last_in_set) simp
  then have "b \<noteq> last (y # ys)" using Cons.prems(2) by auto
  with Cons show ?case by auto
qed auto

lemma fpath_pred: "fpath f a (xs @ n # ys) b \<Longrightarrow> f (last (a # xs)) = n"
  by (induction xs arbitrary: a) auto

lemma fpath_first: "fpath f a xs b \<Longrightarrow> f a = hd (xs @ [b])"
  by (cases xs) auto

definition circular :: "('k, 'v) lru_heap \<Rightarrow> addr list \<Rightarrow> bool" where
  "circular h xs \<longleftrightarrow> distinct (0 # xs) \<and> fpath (\<lambda>x. ln_next (h x)) 0 xs 0 \<and>
     fpath (\<lambda>x. ln_prev (h x)) 0 (rev xs) 0"

text \<open>What the pointer assignments do to the two pointer functions and to the payload of a node.\<close>

lemma set_pointers [simp]:
  "(\<lambda>x. ln_next (set_next a n h x)) = (\<lambda>x. ln_next (h x))(a := n)"
  "(\<lambda>x. ln_prev (set_next a n h x)) = (\<lambda>x. ln_prev (h x))"
  "(\<lambda>x. ln_prev (set_prev a p h x)) = (\<lambda>x. ln_prev (h x))(a := p)"
  "(\<lambda>x. ln_next (set_prev a p h x)) = (\<lambda>x. ln_next (h x))"
  by (auto simp: set_next_def set_prev_def fun_eq_iff)

lemma set_pointer_at:
  "ln_next (set_next a n h x) = (if x = a then n else ln_next (h x))"
  "ln_prev (set_next a n h x) = ln_prev (h x)"
  "ln_prev (set_prev a p h x) = (if x = a then p else ln_prev (h x))"
  "ln_next (set_prev a p h x) = ln_next (h x)"
  by (auto simp: set_next_def set_prev_def)

lemma set_payload [simp]:
  "ln_key (set_next a n h x) = ln_key (h x)" "ln_key (set_prev a n h x) = ln_key (h x)"
  "ln_value (set_next a n h x) = ln_value (h x)" "ln_value (set_prev a n h x) = ln_value (h x)"
  "ln_expires_at (set_next a n h x) = ln_expires_at (h x)" "ln_expires_at (set_prev a n h x) = ln_expires_at (h x)"
  by (simp_all add: set_next_def set_prev_def)

lemma node_payload [simp]:
  "ln_key (node_unlink n h x) = ln_key (h x)" "ln_value (node_unlink n h x) = ln_value (h x)"
  "ln_expires_at (node_unlink n h x) = ln_expires_at (h x)"
  "ln_key (node_insert_after n a h x) = ln_key (h x)" "ln_value (node_insert_after n a h x) = ln_value (h x)"
  "ln_expires_at (node_insert_after n a h x) = ln_expires_at (h x)"
  by (simp_all add: node_unlink_def node_insert_after_def Let_def)

lemma circular_unlink:
  assumes "circular h (xs @ n # ys)"
  shows "circular (node_unlink n h) (xs @ ys)"
proof -
  let ?next = "\<lambda>x. ln_next (h x)" and ?prev = "\<lambda>x. ln_prev (h x)"
  have d: "distinct (0 # xs @ n # ys)" and f: "fpath ?next 0 (xs @ n # ys) 0"
    and b: "fpath ?prev 0 (rev ys @ n # rev xs) 0"
    using assms by (simp_all add: circular_def)
  have p: "?prev n = last (0 # xs)" using b by (auto simp: fpath_append hd_rev last_rev dest!: fpath_first)
  have q: "?next n = last (0 # rev ys)" using f by (auto simp: fpath_append last_rev hd_append dest!: fpath_first)
  have "last (0 # xs) \<in> set (0 # xs)" by (rule last_in_set) simp
  then have np: "n \<noteq> ?prev n" using d unfolding p by auto
  have un: "(\<lambda>x. ln_next (node_unlink n h x)) = ?next(?prev n := ?next n)"
    "(\<lambda>x. ln_prev (node_unlink n h x)) = ?prev(?next n := ?prev n)"
    using np by (auto simp: node_unlink_def Let_def set_pointer_at fun_eq_iff)
  have "fpath (?next(last (0 # xs) := ?next n)) 0 (xs @ ys) 0" by (rule fpath_remove [OF f d])
  moreover have "fpath (?prev(last (0 # rev ys) := ?prev n)) 0 (rev ys @ rev xs) 0"
    by (rule fpath_remove [OF b]) (use d in auto)
  ultimately show ?thesis using d p q by (simp add: circular_def un)
qed

lemma circular_insert:
  assumes "circular h xs" "n \<notin> set (0 # xs)"
  shows "circular (node_insert_after n 0 h) (n # xs)"
proof -
  let ?next = "\<lambda>x. ln_next (h x)" and ?prev = "\<lambda>x. ln_prev (h x)"
  have d: "distinct (0 # xs)" and f: "fpath ?next 0 xs 0" and b: "fpath ?prev 0 (rev xs) 0"
    using assms(1) by (simp_all add: circular_def)
  have q: "?next 0 = last (0 # rev xs)" using fpath_first [OF f] by (cases xs) (auto simp: last_rev)
  have n0: "n \<noteq> 0" using assms(2) by simp
  have "last (0 # rev xs) \<in> set (0 # rev xs)" by (rule last_in_set) simp
  then have nq: "?next 0 \<noteq> n" using assms(2) unfolding q by auto
  have ins: "(\<lambda>x. ln_next (node_insert_after n 0 h x)) = ?next(n := ?next 0, 0 := n)"
    "(\<lambda>x. ln_prev (node_insert_after n 0 h x)) = ?prev(?next 0 := n, n := 0)"
    using n0 nq by (auto simp: node_insert_after_def Let_def set_pointer_at fun_eq_iff)
  have "fpath (?next(n := ?next 0, 0 := n)) 0 (n # xs) 0"
    by (rule fpath_push [OF f assms(2)]) (use d in simp)
  moreover have "fpath (?prev(last (0 # rev xs) := n, n := 0)) 0 (rev xs @ [n]) 0"
    by (rule fpath_snoc [OF b]) (use d assms(2) in auto)
  ultimately show ?thesis using d assms(2) q by (simp add: circular_def ins)
qed

text \<open>Pointers are all that \<open>circular\<close> looks at.\<close>

lemma circular_cong:
  "(\<And>x. ln_next (h' x) = ln_next (h x)) \<Longrightarrow> (\<And>x. ln_prev (h' x) = ln_prev (h x)) \<Longrightarrow> circular h' xs = circular h xs"
  by (simp add: circular_def)

lemma circular_fresh: "circular h xs \<Longrightarrow> a \<notin> set (0 # xs) \<Longrightarrow> circular (h(a := node)) xs"
proof -
  assume c: "circular h xs" and a: "a \<notin> set (0 # xs)"
  have "(\<lambda>x. ln_next ((h(a := node)) x)) = (\<lambda>x. ln_next (h x))(a := ln_next node)"
    "(\<lambda>x. ln_prev ((h(a := node)) x)) = (\<lambda>x. ln_prev (h x))(a := ln_prev node)" by auto
  with c a show ?thesis by (simp add: circular_def fpath_frame)
qed

lemma circular_last: "circular h xs \<Longrightarrow> xs \<noteq> [] \<Longrightarrow> ln_prev (h 0) = last xs"
  unfolding circular_def by (auto simp: hd_rev dest!: fpath_first)

section \<open>The specification\<close>

text \<open>A cache is a dict listed most recently used entry first.\<close>

record ('k, 'v) lru_spec =
  sp_capacity :: int
  sp_entries :: "('k, 'v \<times> time option) dict"
  sp_stats :: cache_stats

definition spec_expired :: "time \<Rightarrow> 'v \<times> time option \<Rightarrow> bool" where
  "spec_expired now e = (case snd e of None \<Rightarrow> False | Some t \<Rightarrow> t \<le> now)"

definition spec_get :: "('k, 'v) lru_spec \<Rightarrow> time \<Rightarrow> 'k \<Rightarrow> 'v \<Rightarrow> 'v \<times> ('k, 'v) lru_spec" where
  "spec_get s now key missing =
     (case dict_get (sp_entries s) key of
        None \<Rightarrow> (missing, s\<lparr>sp_stats := (sp_stats s)\<lparr>cs_misses := cs_misses (sp_stats s) + 1\<rparr>\<rparr>)
      | Some e \<Rightarrow>
          if spec_expired now e
          then (missing, s\<lparr>sp_entries := dict_del key (sp_entries s),
                 sp_stats := (sp_stats s)\<lparr>cs_expirations := cs_expirations (sp_stats s) + 1,
                                         cs_misses := cs_misses (sp_stats s) + 1\<rparr>\<rparr>)
          else (fst e, s\<lparr>sp_entries := (key, e) # dict_del key (sp_entries s),
                 sp_stats := (sp_stats s)\<lparr>cs_hits := cs_hits (sp_stats s) + 1\<rparr>\<rparr>))"

definition spec_evict :: "('k, 'v) lru_spec \<Rightarrow> time \<Rightarrow> ('k, 'v) lru_spec" where
  "spec_evict s now =
     (if sp_capacity s \<le> int (length (sp_entries s))
      then s\<lparr>sp_entries := butlast (sp_entries s),
             sp_stats := (if spec_expired now (snd (last (sp_entries s)))
                          then (sp_stats s)\<lparr>cs_expirations := cs_expirations (sp_stats s) + 1\<rparr>
                          else (sp_stats s)\<lparr>cs_evictions := cs_evictions (sp_stats s) + 1\<rparr>)\<rparr>
      else s)"

definition spec_put ::
  "('k, 'v) lru_spec \<Rightarrow> time \<Rightarrow> 'k \<Rightarrow> 'v \<Rightarrow> time option \<Rightarrow> unit result \<times> ('k, 'v) lru_spec" where
  "spec_put s now key v ttl =
     (if (case ttl of None \<Rightarrow> False | Some t \<Rightarrow> t \<le> 0) then (Inl ValidationError, s)
      else let e = (v, case ttl of None \<Rightarrow> None | Some t \<Rightarrow> Some (now + t));
               s' = (if dict_get (sp_entries s) key = None then spec_evict s now else s)
           in (Inr (), s'\<lparr>sp_entries := (key, e) # dict_del key (sp_entries s')\<rparr>))"

definition spec_delete :: "('k, 'v) lru_spec \<Rightarrow> 'k \<Rightarrow> bool \<times> ('k, 'v) lru_spec" where
  "spec_delete s key =
     (dict_get (sp_entries s) key \<noteq> None, s\<lparr>sp_entries := dict_del key (sp_entries s)\<rparr>)"

definition spec_keys :: "('k, 'v) lru_spec \<Rightarrow> time \<Rightarrow> 'k list" where
  "spec_keys s now = map fst (filter (\<lambda>(k, e). \<not> spec_expired now e) (sp_entries s))"

text \<open>A heap cache represents a specification cache along the addresses \<open>xs\<close>.\<close>

definition entry :: "('k, 'v) lru_heap \<Rightarrow> addr \<Rightarrow> 'k \<times> 'v \<times> time option" where
  "entry h a = (the (ln_key (h a)), the (ln_value (h a)), ln_expires_at (h a))"

definition lru_rep :: "('k, 'v) lru_cache \<Rightarrow> ('k, 'v) lru_spec \<Rightarrow> addr list \<Rightarrow> bool" where
  "lru_rep c s xs \<longleftrightarrow> circular (lc_heap c) xs \<and> sp_entries s = map (entry (lc_heap c)) xs \<and>
     (\<forall>a \<in> set (0 # xs). a < lc_fresh c) \<and>
     (\<forall>a \<in> set xs. ln_key (lc_heap c a) \<noteq> None \<and> ln_value (lc_heap c a) \<noteq> None) \<and>
     (\<forall>k a. dict_get (lc_map c) k = Some a \<longleftrightarrow> a \<in> set xs \<and> ln_key (lc_heap c a) = Some k) \<and>
     dict_ok (lc_map c) \<and> length (lc_map c) = length xs \<and>
     sp_capacity s = lc_capacity c \<and> sp_stats s = lc_stats c \<and> 1 \<le> lc_capacity c"

lemma lru_repD:
  assumes "lru_rep c s xs"
  shows "circular (lc_heap c) xs" "sp_entries s = map (entry (lc_heap c)) xs" "a \<in> set (0 # xs) \<Longrightarrow> a < lc_fresh c"
    "a \<in> set xs \<Longrightarrow> ln_key (lc_heap c a) \<noteq> None" "a \<in> set xs \<Longrightarrow> ln_value (lc_heap c a) \<noteq> None"
    "dict_get (lc_map c) k = Some a \<longleftrightarrow> a \<in> set xs \<and> ln_key (lc_heap c a) = Some k"
    "dict_ok (lc_map c)" "length (lc_map c) = length xs" "sp_capacity s = lc_capacity c" "sp_stats s = lc_stats c"
    "1 \<le> lc_capacity c"
  using assms unfolding lru_rep_def by (simp_all del: not_None_eq) blast+

lemma lru_rep_keys:
  assumes "lru_rep c s xs"
  shows "inj_on (\<lambda>a. ln_key (lc_heap c a)) (set xs)" "distinct xs" "0 \<notin> set xs" "dict_ok (sp_entries s)"
proof -
  show inj: "inj_on (\<lambda>a. ln_key (lc_heap c a)) (set xs)"
  proof (rule inj_onI)
    fix a b assume ab: "a \<in> set xs" "b \<in> set xs" "ln_key (lc_heap c a) = ln_key (lc_heap c b)"
    then obtain k where "ln_key (lc_heap c a) = Some k" using lru_repD(4) [OF assms ab(1)] by auto
    with ab have "dict_get (lc_map c) k = Some a" "dict_get (lc_map c) k = Some b"
      by (simp_all add: lru_repD(6) [OF assms])
    then show "a = b" by simp
  qed
  show d: "distinct xs" "0 \<notin> set xs" using lru_repD(1) [OF assms] by (simp_all add: circular_def)
  have "inj_on (\<lambda>a. the (ln_key (lc_heap c a))) (set xs)"
    using inj lru_repD(4) [OF assms] unfolding inj_on_def by (metis option.expand)
  then show "dict_ok (sp_entries s)"
    using d by (simp add: lru_repD(2) [OF assms] dict_ok_def distinct_map entry_def comp_def)
qed

lemma dict_del_length: "dict_ok d \<Longrightarrow> dict_get d k = Some v \<Longrightarrow> length (dict_del k d) = length d - 1"
proof (induction d)
  case (Cons p d)
  show ?case
  proof (cases "fst p = k")
    case True
    then have "k \<notin> set (map fst d)" using Cons.prems(1) by (auto simp: dict_ok_def)
    then have "dict_del k d = d" by (metis delete_id dict_get_None dom_map_of_conv_image_fst list.set_map)
    with True show ?thesis by (cases p) simp
  next
    case False
    then have "length (dict_del k d) = length d - 1" using Cons by (cases p) (simp add: dict_ok_def)
    moreover have "d \<noteq> []" using Cons.prems(2) False by (cases p) auto
    ultimately show ?thesis using False by (cases p; cases d) simp_all
  qed
qed simp

lemma lru_rep_lookup:
  assumes "lru_rep c s xs"
  shows "dict_get (lc_map c) k = None \<Longrightarrow> dict_get (sp_entries s) k = None"
    and "dict_get (lc_map c) k = Some a \<Longrightarrow> dict_get (sp_entries s) k = Some (snd (entry (lc_heap c) a))"
proof -
  assume n: "dict_get (lc_map c) k = None"
  have "the (ln_key (lc_heap c a)) \<noteq> k" if "a \<in> set xs" for a
  proof
    assume "the (ln_key (lc_heap c a)) = k"
    then have "ln_key (lc_heap c a) = Some k" using lru_repD(4) [OF assms that] by auto
    with that have "dict_get (lc_map c) k = Some a" by (simp add: lru_repD(6) [OF assms])
    with n show False by simp
  qed
  then show "dict_get (sp_entries s) k = None"
    by (auto simp: lru_repD(2) [OF assms] dict_get_None entry_def)
next
  assume "dict_get (lc_map c) k = Some a"
  then have "a \<in> set xs" "ln_key (lc_heap c a) = Some k" by (simp_all add: lru_repD(6) [OF assms])
  then have "(k, snd (entry (lc_heap c) a)) \<in> set (sp_entries s)"
    by (auto simp: lru_repD(2) [OF assms] entry_def intro!: image_eqI [of _ _ a])
  then show "dict_get (sp_entries s) k = Some (snd (entry (lc_heap c) a))"
    using dict_get_mem [OF lru_rep_keys(4) [OF assms]] by blast
qed

lemma lru_rep_split:
  assumes "lru_rep c s xs" "dict_get (lc_map c) k = Some a"
  obtains ys zs where "xs = ys @ a # zs" "ln_key (lc_heap c a) = Some k"
    "dict_del k (sp_entries s) = map (entry (lc_heap c)) (ys @ zs)"
proof -
  from assms have a: "a \<in> set xs" "ln_key (lc_heap c a) = Some k" by (simp_all add: lru_repD(6))
  then obtain ys zs where xs: "xs = ys @ a # zs" by (meson split_list)
  have "the (ln_key (lc_heap c b)) \<noteq> k" if "b \<in> set (ys @ zs)" for b
  proof
    assume "the (ln_key (lc_heap c b)) = k"
    moreover have "b \<in> set xs" using that xs by auto
    ultimately have "ln_key (lc_heap c b) = ln_key (lc_heap c a)" using lru_repD(4) [OF assms(1)] a(2) by auto
    then have "b = a" using lru_rep_keys(1) [OF assms(1)] \<open>b \<in> set xs\<close> a(1) by (simp add: inj_on_def)
    with that lru_rep_keys(2) [OF assms(1)] xs show False by auto
  qed
  then have "filter (\<lambda>(k', _). k \<noteq> k') (map (entry (lc_heap c)) (ys @ zs)) = map (entry (lc_heap c)) (ys @ zs)"
    by (subst filter_id_conv) (auto simp: entry_def)
  then have "dict_del k (sp_entries s) = map (entry (lc_heap c)) (ys @ zs)"
    using a(2) by (simp add: lru_repD(2) [OF assms(1)] xs AList.delete_eq entry_def)
  with xs a(2) that show ?thesis by blast
qed

text \<open>Taking a node out, putting a new one in front, and overwriting the payload of one.\<close>

lemma entry_same [simp]:
  "entry (node_unlink n h) = entry h" "entry (node_insert_after n a h) = entry h"
  by (auto simp: entry_def fun_eq_iff)

lemma lru_rep_remove:
  assumes "lru_rep c s (ys @ a # zs)" "ln_key (lc_heap c a) = Some k"
  shows "lru_rep (c\<lparr>lc_map := dict_del k (lc_map c), lc_heap := node_unlink a (lc_heap c)\<rparr>)
    (s\<lparr>sp_entries := map (entry (lc_heap c)) (ys @ zs)\<rparr>) (ys @ zs)"
proof -
  note rep = lru_repD [OF assms(1)]
  have a: "dict_get (lc_map c) k = Some a" using rep(6) assms(2) by simp
  have uniq: "ln_key (lc_heap c b) \<noteq> Some k" if "b \<in> set (ys @ zs)" for b
  proof
    assume "ln_key (lc_heap c b) = Some k"
    with that rep(6) [of k b] a have "b = a" by auto
    with that lru_rep_keys(2) [OF assms(1)] show False by auto
  qed
  have "dict_get (dict_del k (lc_map c)) k' = Some b \<longleftrightarrow> b \<in> set (ys @ zs) \<and> ln_key (lc_heap c b) = Some k'" for k' b
    using rep(6) [of k' b] uniq [of b] assms(2) by auto
  moreover have "length (dict_del k (lc_map c)) = length (ys @ zs)"
    using dict_del_length [OF rep(7) a] rep(8) by simp
  ultimately show ?thesis
    using rep circular_unlink [OF rep(1)] by (simp add: lru_rep_def del: delete_conv' dict_get_del)
qed

lemma lru_rep_drop:
  assumes "lru_rep c s (ys @ a # zs)"
  shows "lru_rep (lru_drop a c) (s\<lparr>sp_entries := map (entry (lc_heap c)) (ys @ zs)\<rparr>) (ys @ zs)"
proof -
  obtain k where "ln_key (lc_heap c a) = Some k" using lru_repD(4) [OF assms, of a] by auto
  with lru_rep_remove [OF assms this] show ?thesis by (simp add: lru_drop_def)
qed

lemma lru_rep_move:
  assumes "lru_rep c s (ys @ a # zs)"
  shows "lru_rep (c\<lparr>lc_heap := move_front a (lc_heap c)\<rparr>)
    (s\<lparr>sp_entries := map (entry (lc_heap c)) (a # ys @ zs)\<rparr>) (a # ys @ zs)"
proof -
  note rep = lru_repD [OF assms(1)]
  have "distinct (0 # ys @ a # zs)" using rep(1) by (simp add: circular_def)
  then have "circular (move_front a (lc_heap c)) (a # ys @ zs)"
    unfolding move_front_def by (intro circular_insert circular_unlink rep(1)) auto
  then show ?thesis using rep by (auto simp: lru_rep_def move_front_def)
qed

lemma lru_rep_write:
  assumes "lru_rep c s (ys @ a # zs)" "ln_key (lc_heap c a) = Some k"
    and "h = (lc_heap c)(a := (lc_heap c a)\<lparr>ln_value := Some v, ln_expires_at := t\<rparr>)"
  shows "lru_rep (c\<lparr>lc_heap := h\<rparr>) (s\<lparr>sp_entries := map (entry h) (ys @ a # zs)\<rparr>) (ys @ a # zs)"
    "map (entry h) (ys @ zs) = map (entry (lc_heap c)) (ys @ zs)" "entry h a = (k, v, t)"
proof -
  note rep = lru_repD [OF assms(1)]
  have "circular h (ys @ a # zs) = circular (lc_heap c) (ys @ a # zs)"
    by (rule circular_cong) (simp_all add: assms(3))
  moreover have "ln_key (h b) = ln_key (lc_heap c b)" for b by (simp add: assms(3))
  moreover have "b \<in> set (ys @ a # zs) \<Longrightarrow> ln_value (h b) \<noteq> None" for b using rep(5) [of b] by (simp add: assms(3))
  ultimately show "lru_rep (c\<lparr>lc_heap := h\<rparr>) (s\<lparr>sp_entries := map (entry h) (ys @ a # zs)\<rparr>) (ys @ a # zs)"
    using assms(1) by (simp add: lru_rep_def del: not_None_eq)
  show "map (entry h) (ys @ zs) = map (entry (lc_heap c)) (ys @ zs)"
    using lru_rep_keys(2) [OF assms(1)] by (auto simp: assms(3) entry_def)
  show "entry h a = (k, v, t)" by (simp add: assms(2,3) entry_def)
qed

lemma lru_rep_add:
  assumes "lru_rep c s xs" "dict_get (lc_map c) k = None"
    and "n = lc_fresh c" "h = (lc_heap c)(n := node_new (Some k) (Some v) t n)"
  shows "lru_rep (c\<lparr>lc_map := dict_set k n (lc_map c), lc_heap := node_insert_after n 0 h, lc_fresh := n + 1\<rparr>)
    (s\<lparr>sp_entries := (k, v, t) # sp_entries s\<rparr>) (n # xs)"
proof -
  note rep = lru_repD [OF assms(1)]
  have n: "n \<notin> set (0 # xs)" using rep(3) [of n] rep(3) [of 0] assms(3) by auto
  have ent: "map (entry h) xs = sp_entries s" "entry h n = (k, v, t)"
    using n rep(2) by (auto simp: assms(4) entry_def node_new_def)
  have "circular (node_insert_after n 0 h) (n # xs)"
    unfolding assms(4) by (intro circular_insert circular_fresh rep(1) n)
  moreover have "dict_get (dict_set k n (lc_map c)) k' = Some b \<longleftrightarrow> b \<in> set (n # xs) \<and> ln_key (h b) = Some k'" for k' b
    using rep(6) [of k' b] rep(6) [of k b] assms(2) n by (auto simp: assms(4) node_new_def)
  moreover have "length (dict_set k n (lc_map c)) = Suc (length xs)"
    using rep(8) by (simp add: dict_set_new [OF assms(2)])
  moreover have "ln_key (h b) \<noteq> None \<and> ln_value (h b) \<noteq> None" if "b \<in> set (n # xs)" for b
    using that rep(4) [of b] rep(5) [of b] by (auto simp: assms(4) node_new_def)
  moreover have "b < n + 1" if "b \<in> set (0 # n # xs)" for b
    using that rep(3) [of b] rep(3) [of 0] assms(3) by auto
  ultimately show ?thesis
    using rep ent by (simp add: lru_rep_def del: not_None_eq dict_get_set update_conv')
qed

section \<open>The heap cache implements the specification\<close>

definition represents :: "('k, 'v) lru_cache \<Rightarrow> ('k, 'v) lru_spec \<Rightarrow> bool" where
  "represents c s \<longleftrightarrow> (\<exists>xs. lru_rep c s xs)"

lemma representsI: "lru_rep c s xs \<Longrightarrow> represents c s"
  by (auto simp: represents_def)

lemma lru_rep_stats:
  "lru_rep c s xs \<Longrightarrow> lru_rep (c\<lparr>lc_stats := st\<rparr>) (s\<lparr>sp_stats := st\<rparr>) xs"
  by (simp add: lru_rep_def)

lemma expired_entry [simp]: "spec_expired now (snd (entry h a)) = node_expired now (h a)"
  by (simp add: spec_expired_def entry_def node_expired_def)

lemma lru_get_refines:
  assumes "represents c s"
  shows "fst (lru_get c now k d) = fst (spec_get s now k d)"
    and "represents (snd (lru_get c now k d)) (snd (spec_get s now k d))"
proof -
  obtain xs where r: "lru_rep c s xs" using assms by (auto simp: represents_def)
  note stats = lru_repD(10) [OF r]
  have "fst (lru_get c now k d) = fst (spec_get s now k d) \<and>
    represents (snd (lru_get c now k d)) (snd (spec_get s now k d))"
  proof (cases "dict_get (lc_map c) k")
    case None
    then show ?thesis
      using lru_rep_lookup(1) [OF r None] stats representsI [OF lru_rep_stats [OF r]]
      by (simp add: lru_get_def spec_get_def)
  next
    case (Some a)
    note e = lru_rep_lookup(2) [OF r Some]
    from r Some obtain ys zs where xs: "xs = ys @ a # zs" "ln_key (lc_heap c a) = Some k"
      "dict_del k (sp_entries s) = map (entry (lc_heap c)) (ys @ zs)" by (rule lru_rep_split)
    show ?thesis
    proof (cases "node_expired now (lc_heap c a)")
      case True
      have "lc_stats (lru_drop a c) = lc_stats c" by (simp add: lru_drop_def)
      then show ?thesis
        using Some e True xs(3) stats representsI [OF lru_rep_stats [OF lru_rep_drop [OF r [unfolded xs(1)]]]]
        by (simp add: lru_get_def spec_get_def Let_def)
    next
      case False
      have "entry (lc_heap c) a = (k, snd (entry (lc_heap c) a))" using xs(2) by (simp add: entry_def)
      moreover have "fst (snd (entry (lc_heap c) a)) = the (ln_value (lc_heap c a))" by (simp add: entry_def)
      ultimately show ?thesis
        using Some e False xs(3) stats representsI [OF lru_rep_stats [OF lru_rep_move [OF r [unfolded xs(1)]]]]
        by (simp add: lru_get_def spec_get_def Let_def move_front_def)
    qed
  qed
  then show "fst (lru_get c now k d) = fst (spec_get s now k d)"
    "represents (snd (lru_get c now k d)) (snd (spec_get s now k d))" by blast+
qed

text \<open>The eviction of \<^verbatim>\<open>put\<close> drops the back entry, and leaves room.\<close>

definition lru_evict :: "('k, 'v) lru_cache \<Rightarrow> time \<Rightarrow> ('k, 'v) lru_cache" where
  "lru_evict c now =
     (if lc_capacity c \<le> int (length (lc_map c))
      then let victim = ln_prev (lc_heap c 0); c' = lru_drop victim c
           in if node_expired now (lc_heap c' victim)
              then c'\<lparr>lc_stats := (lc_stats c')\<lparr>cs_expirations := cs_expirations (lc_stats c') + 1\<rparr>\<rparr>
              else c'\<lparr>lc_stats := (lc_stats c')\<lparr>cs_evictions := cs_evictions (lc_stats c') + 1\<rparr>\<rparr>
      else c)"

lemma lru_evict_refines:
  assumes "lru_rep c s xs" "dict_get (lc_map c) k = None"
  obtains ys where "lru_rep (lru_evict c now) (spec_evict s now) ys" "dict_get (lc_map (lru_evict c now)) k = None"
proof (cases "lc_capacity c \<le> int (length (lc_map c))")
  case False
  then have "lru_evict c now = c" "spec_evict s now = s"
    using lru_repD(2,8,9) [OF assms(1)] by (simp_all add: lru_evict_def spec_evict_def)
  with assms that [of xs] show ?thesis by simp
next
  case True
  then have "xs \<noteq> []" using lru_repD(8,11) [OF assms(1)] by auto
  then obtain ys a where xs: "xs = ys @ [a]" by (metis rev_exhaust)
  have prev: "ln_prev (lc_heap c 0) = a" using circular_last [OF lru_repD(1) [OF assms(1)] \<open>xs \<noteq> []\<close>] xs by simp
  have ent: "butlast (sp_entries s) = map (entry (lc_heap c)) ys" "last (sp_entries s) = entry (lc_heap c) a"
    by (simp_all add: lru_repD(2) [OF assms(1)] xs)
  have drop: "lru_rep (lru_drop a c) (s\<lparr>sp_entries := map (entry (lc_heap c)) ys\<rparr>) ys"
    using lru_rep_drop [of c s ys a "[]"] assms(1) xs by simp
  have same: "lc_stats (lru_drop a c) = lc_stats c" "node_expired now (lc_heap (lru_drop a c) a) = node_expired now (lc_heap c a)"
    by (simp_all add: lru_drop_def node_expired_def)
  have full: "sp_capacity s \<le> int (length (sp_entries s))"
    using True lru_repD(2,8,9) [OF assms(1)] by simp
  have "lru_rep (lru_evict c now) (spec_evict s now) ys"
    using True full lru_rep_stats [OF drop] lru_repD(10) [OF assms(1)]
    by (simp add: lru_evict_def spec_evict_def Let_def prev ent same)
  moreover have "dict_get (lc_map (lru_evict c now)) k = None"
    using True assms(2) by (simp add: lru_evict_def Let_def lru_drop_def split: option.splits)
  ultimately show ?thesis using that by blast
qed

lemma lru_put_refines:
  assumes "represents c s"
  shows "fst (lru_put c now k v ttl) = fst (spec_put s now k v ttl)"
    and "represents (snd (lru_put c now k v ttl)) (snd (spec_put s now k v ttl))"
proof -
  obtain xs where r: "lru_rep c s xs" using assms by (auto simp: represents_def)
  let ?t = "case ttl of None \<Rightarrow> None | Some t \<Rightarrow> Some (now + t)"
  have "fst (lru_put c now k v ttl) = fst (spec_put s now k v ttl) \<and>
    represents (snd (lru_put c now k v ttl)) (snd (spec_put s now k v ttl))"
  proof (cases "case ttl of None \<Rightarrow> False | Some t \<Rightarrow> t \<le> 0")
    case True
    then show ?thesis using assms by (simp add: lru_put_def spec_put_def)
  next
    case ok: False
    show ?thesis
    proof (cases "dict_get (lc_map c) k")
      case None
      then obtain ys where ev: "lru_rep (lru_evict c now) (spec_evict s now) ys"
        "dict_get (lc_map (lru_evict c now)) k = None" by (rule lru_evict_refines [OF r])
      have "dict_get (sp_entries (spec_evict s now)) k = None" by (rule lru_rep_lookup(1) [OF ev])
      then have "dict_del k (sp_entries (spec_evict s now)) = sp_entries (spec_evict s now)"
        by (metis delete_id dict_get_None dom_map_of_conv_image_fst list.set_map)
      then show ?thesis
        using ok None lru_rep_lookup(1) [OF r None] representsI [OF lru_rep_add [OF ev refl refl]]
        by (simp add: lru_put_def spec_put_def Let_def lru_evict_def cong: if_cong)
    next
      case (Some a)
      from r Some obtain ys zs where xs: "xs = ys @ a # zs" "ln_key (lc_heap c a) = Some k"
        "dict_del k (sp_entries s) = map (entry (lc_heap c)) (ys @ zs)" by (rule lru_rep_split)
      define h where "h = (lc_heap c)(a := (lc_heap c a)\<lparr>ln_value := Some v, ln_expires_at := ?t\<rparr>)"
      note w = lru_rep_write [OF r [unfolded xs(1)] xs(2) h_def]
      have "map (entry h) (a # ys @ zs) = (k, v, ?t) # dict_del k (sp_entries s)"
        unfolding list.map w(2) w(3) xs(3) by (rule refl)
      then have "represents (c\<lparr>lc_heap := move_front a h\<rparr>) (s\<lparr>sp_entries := (k, v, ?t) # dict_del k (sp_entries s)\<rparr>)"
        using representsI [OF lru_rep_move [OF w(1)]] by (simp del: list.map map_append)
      then show ?thesis
        using ok Some lru_rep_lookup(2) [OF r Some]
        by (simp add: lru_put_def spec_put_def Let_def flip: h_def)
    qed
  qed
  then show "fst (lru_put c now k v ttl) = fst (spec_put s now k v ttl)"
    "represents (snd (lru_put c now k v ttl)) (snd (spec_put s now k v ttl))" by blast+
qed

lemma lru_delete_refines:
  assumes "represents c s"
  shows "fst (lru_delete c k) = fst (spec_delete s k)"
    and "represents (snd (lru_delete c k)) (snd (spec_delete s k))"
proof -
  obtain xs where r: "lru_rep c s xs" using assms by (auto simp: represents_def)
  have "fst (lru_delete c k) = fst (spec_delete s k) \<and> represents (snd (lru_delete c k)) (snd (spec_delete s k))"
  proof (cases "dict_get (lc_map c) k")
    case None
    from lru_rep_lookup(1) [OF r None] have "dict_get (sp_entries s) k = None" .
    moreover from this have "dict_del k (sp_entries s) = sp_entries s"
      by (metis delete_id dict_get_None dom_map_of_conv_image_fst list.set_map)
    ultimately show ?thesis using None assms by (simp add: lru_delete_def spec_delete_def)
  next
    case (Some a)
    from r Some obtain ys zs where xs: "xs = ys @ a # zs" "ln_key (lc_heap c a) = Some k"
      "dict_del k (sp_entries s) = map (entry (lc_heap c)) (ys @ zs)" by (rule lru_rep_split)
    show ?thesis
      using Some lru_rep_lookup(2) [OF r Some] representsI [OF lru_rep_remove [OF r [unfolded xs(1)] xs(2)]] xs(3)
      by (simp add: lru_delete_def spec_delete_def)
  qed
  then show "fst (lru_delete c k) = fst (spec_delete s k)"
    "represents (snd (lru_delete c k)) (snd (spec_delete s k))" by blast+
qed

lemma keys_walk_path:
  assumes "fpath (\<lambda>x. ln_next (h x)) a xs 0" "0 \<notin> set xs" "length xs \<le> fuel"
  shows "keys_walk h now fuel (ln_next (h a)) =
    Some (map (\<lambda>x. the (ln_key (h x))) (filter (\<lambda>x. \<not> node_expired now (h x)) xs))"
  using assms
proof (induction xs arbitrary: a fuel)
  case (Cons x xs)
  then obtain n where "fuel = Suc n" by (cases fuel) auto
  with Cons show ?case by (subst keys_walk.simps) auto
qed (simp add: keys_walk.simps)

lemma lru_keys_refines:
  assumes "represents c s"
  shows "lru_keys c now = Some (spec_keys s now)"
proof -
  obtain xs where r: "lru_rep c s xs" using assms by (auto simp: represents_def)
  have "fpath (\<lambda>x. ln_next (lc_heap c x)) 0 xs 0" "0 \<notin> set xs"
    using lru_repD(1) [OF r] by (simp_all add: circular_def)
  then have "lru_keys c now =
      Some (map (\<lambda>x. the (ln_key (lc_heap c x))) (filter (\<lambda>x. \<not> node_expired now (lc_heap c x)) xs))"
    unfolding lru_keys_def by (rule keys_walk_path) (simp add: lru_repD(8) [OF r])
  also have "map (\<lambda>x. the (ln_key (lc_heap c x))) (filter (\<lambda>x. \<not> node_expired now (lc_heap c x)) xs) = spec_keys s now"
    unfolding spec_keys_def lru_repD(2) [OF r]
    by (induction xs) (simp_all add: case_prod_unfold, simp add: entry_def)
  finally show ?thesis .
qed

lemma lru_len_refines: "represents c s \<Longrightarrow> lru_len c = int (length (sp_entries s))"
  by (auto simp: represents_def lru_len_def lru_repD(2,8))

lemma lru_contains_refines:
  assumes "represents c s"
  shows "lru_contains c now k \<longleftrightarrow> k \<in> set (spec_keys s now)"
proof -
  obtain xs where r: "lru_rep c s xs" using assms by (auto simp: represents_def)
  have "k \<in> set (spec_keys s now) \<longleftrightarrow> (\<exists>e. dict_get (sp_entries s) k = Some e \<and> \<not> spec_expired now e)"
    unfolding spec_keys_def dict_get_mem [OF lru_rep_keys(4) [OF r], symmetric] by force
  then show ?thesis
    using lru_rep_lookup [OF r, of k] by (cases "dict_get (lc_map c) k") (auto simp: lru_contains_def)
qed

text \<open>Programs over a cache, with the answers of every call.\<close>

datatype ('k, 'v) lru_op =
    Get 'k 'v | Put 'k 'v "time option" | Delete 'k | Keys | Size | Contains 'k | Stats

datatype ('k, 'v) lru_answer =
    Found 'v | Stored "unit result" | Deleted bool | Listing "'k list option" | Count int | Member bool
  | Counters cache_stats

fun lru_call :: "time \<Rightarrow> ('k, 'v) lru_op \<Rightarrow> ('k, 'v) lru_cache \<Rightarrow> ('k, 'v) lru_answer \<times> ('k, 'v) lru_cache" where
  "lru_call now (Get k d) c = map_prod Found id (lru_get c now k d)"
| "lru_call now (Put k v ttl) c = map_prod Stored id (lru_put c now k v ttl)"
| "lru_call now (Delete k) c = map_prod Deleted id (lru_delete c k)"
| "lru_call now Keys c = (Listing (lru_keys c now), c)"
| "lru_call now Size c = (Count (lru_len c), c)"
| "lru_call now (Contains k) c = (Member (lru_contains c now k), c)"
| "lru_call now Stats c = (Counters (lc_stats c), c)"

fun spec_call :: "time \<Rightarrow> ('k, 'v) lru_op \<Rightarrow> ('k, 'v) lru_spec \<Rightarrow> ('k, 'v) lru_answer \<times> ('k, 'v) lru_spec" where
  "spec_call now (Get k d) s = map_prod Found id (spec_get s now k d)"
| "spec_call now (Put k v ttl) s = map_prod Stored id (spec_put s now k v ttl)"
| "spec_call now (Delete k) s = map_prod Deleted id (spec_delete s k)"
| "spec_call now Keys s = (Listing (Some (spec_keys s now)), s)"
| "spec_call now Size s = (Count (int (length (sp_entries s))), s)"
| "spec_call now (Contains k) s = (Member (k \<in> set (spec_keys s now)), s)"
| "spec_call now Stats s = (Counters (sp_stats s), s)"

fun answers :: "(time \<Rightarrow> 'o \<Rightarrow> 's \<Rightarrow> 'a \<times> 's) \<Rightarrow> (time \<times> 'o) list \<Rightarrow> 's \<Rightarrow> 'a list" where
  "answers call [] s = []"
| "answers call ((now, oper) # opers) s = (case call now oper s of (a, s') \<Rightarrow> a # answers call opers s')"

definition spec_new :: "int \<Rightarrow> ('k, 'v) lru_spec" where
  "spec_new capacity = \<lparr>sp_capacity = capacity, sp_entries = [],
     sp_stats = \<lparr>cs_hits = 0, cs_misses = 0, cs_evictions = 0, cs_expirations = 0\<rparr>\<rparr>"

lemma lru_new_represents: "lru_new capacity = Inr c \<Longrightarrow> represents c (spec_new capacity)"
  by (intro representsI [where xs = "[]"])
    (auto simp: lru_new_def lru_rep_def spec_new_def circular_def node_new_def split: if_splits)

lemma represents_stats: "represents c s \<Longrightarrow> sp_stats s = lc_stats c"
  by (auto simp: represents_def lru_repD(10))

lemma lru_call_refines:
  assumes "represents c s"
  shows "fst (lru_call now oper c) = fst (spec_call now oper s)"
    and "represents (snd (lru_call now oper c)) (snd (spec_call now oper s))"
  using lru_get_refines [OF assms] lru_put_refines [OF assms] lru_delete_refines [OF assms]
    lru_keys_refines [OF assms] lru_len_refines [OF assms] lru_contains_refines [OF assms]
    represents_stats [OF assms] assms
  by (cases oper; simp)+

text \<open>C14. The pointer structure is a cache: for every program of gets, puts with and without time to
  live, deletes, listings and queries at any clock readings, the doubly linked list with its dict
  answers exactly what the specification answers, a dict listed most recently used first that drops
  its last entry when full.\<close>

theorem lru_refines_spec:
  assumes "lru_new capacity = Inr c"
  shows "answers lru_call opers c = answers spec_call opers (spec_new capacity)"
proof -
  have "answers lru_call opers c = answers spec_call opers s" if "represents c s"
    for c :: "('a, 'b) lru_cache" and s
    using that
  proof (induction opers arbitrary: c s)
    case (Cons p opers)
    obtain now oper where p: "p = (now, oper)" by (cases p)
    show ?case
      using lru_call_refines [OF Cons.prems, of now oper] Cons.IH
      by (simp add: p case_prod_unfold)
  qed simp
  with lru_new_represents [OF assms] show ?thesis by blast
qed

section \<open>A bigger cache never hits less\<close>

text \<open>
  The keys requested so far, most recent first. Under the cache-aside loop a cache of capacity
  \<open>n\<close> holds exactly the first \<open>n\<close> of them, whatever \<open>n\<close> is; so the caches of different
  capacities are prefixes of each other, and a hit in a smaller one is a hit in a bigger one.
\<close>

definition touch :: "'k \<Rightarrow> 'k list \<Rightarrow> 'k list" where
  "touch k ks = k # removeAll k ks"

fun stack_hits :: "nat \<Rightarrow> 'k list \<Rightarrow> 'k list \<Rightarrow> nat" where
  "stack_hits n recent [] = 0"
| "stack_hits n recent (k # ks) = (if k \<in> set (take n recent) then 1 else 0) + stack_hits n (touch k recent) ks"

lemma stack_hits_mono: "m \<le> n \<Longrightarrow> stack_hits m recent ks \<le> stack_hits n recent ks"
proof (induction ks arbitrary: recent)
  case (Cons k ks)
  then have "set (take m recent) \<subseteq> set (take n recent)" by (simp add: set_take_subset_set_take)
  with Cons.IH [OF Cons.prems, of "touch k recent"] show ?case by auto
qed simp

lemma removeAll_take:
  assumes "distinct ks"
  shows "k \<in> set (take n ks) \<Longrightarrow> k # removeAll k (take n ks) = take n (touch k ks)"
    and "k \<notin> set (take n ks) \<Longrightarrow> take m (removeAll k ks) = take m ks \<or> n < m"
proof -
  assume k: "k \<in> set (take n ks)"
  then obtain xs ys where t: "take n ks = xs @ k # ys" by (meson split_list)
  define zs where "zs = drop n ks"
  have ks: "ks = xs @ k # ys @ zs" using append_take_drop_id [of n ks] t by (simp add: zs_def)
  with assms have d: "k \<notin> set xs" "k \<notin> set ys" "k \<notin> set zs" by auto
  have len: "n = length (xs @ k # ys) \<or> zs = []"
  proof (cases "n \<le> length ks")
    case True
    then have "length (take n ks) = n" by simp
    then show ?thesis unfolding t by simp
  qed (simp add: zs_def)
  then show "k # removeAll k (take n ks) = take n (touch k ks)"
  proof
    assume "n = length (xs @ k # ys)"
    then show ?thesis using d by (simp add: touch_def ks)
  next
    assume z: "zs = []"
    then have "length ks \<le> n" using t ks by (metis append_Nil2 length_take min.cobounded2 min_def nle_le append_Cons append_assoc)
    then show ?thesis using d z by (simp add: touch_def ks)
  qed
next
  assume k: "k \<notin> set (take n ks)"
  show "take m (removeAll k ks) = take m ks \<or> n < m"
  proof (cases "m \<le> n")
    case True
    have "removeAll k ks = take n ks @ removeAll k (drop n ks)"
      using k by (metis append_take_drop_id removeAll_append removeAll_id)
    moreover have "length (take n ks) = n \<or> drop n ks = []" by auto
    ultimately show ?thesis using True
      by (metis append_take_drop_id removeAll.simps(1) take_all_iff take_append append_Nil2 diff_is_0_eq take_0)
  qed simp
qed

definition all_ones :: "'k list \<Rightarrow> ('k, int option \<times> time option) dict" where
  "all_ones ks = map (\<lambda>k. (k, (Some 1, None))) ks"

lemma all_ones_get: "dict_get (all_ones ks) k = (if k \<in> set ks then Some (Some 1, None) else None)"
  by (induction ks) (auto simp: all_ones_def)

lemma all_ones_del: "dict_del k (all_ones ks) = all_ones (removeAll k ks)"
  by (induction ks) (auto simp: all_ones_def)

lemma all_ones_Cons: "(k, (Some 1, None)) # all_ones ks = all_ones (k # ks)"
  by (simp add: all_ones_def)

fun spec_simulate ::
  "(nat \<Rightarrow> time) \<Rightarrow> nat \<Rightarrow> 'k list \<Rightarrow> ('k, int option) lru_spec \<Rightarrow> ('k, int option) lru_spec" where
  "spec_simulate clock i [] s = s"
| "spec_simulate clock i (k # ks) s =
     (let (v, s1) = spec_get s (clock i) k None;
          s2 = (if v = None then snd (spec_put s1 (clock (i + 1)) k (Some 1) None) else s1)
      in spec_simulate clock (i + 2) ks s2)"

lemma simulate_refines: "represents c s \<Longrightarrow> represents (simulate_loop clock i ks c) (spec_simulate clock i ks s)"
proof (induction ks arbitrary: i c s)
  case (Cons k ks)
  note g = lru_get_refines [OF Cons.prems, of "clock i" k None]
  note p = lru_put_refines [OF g(2), of "clock (i + 1)" k "Some 1" None]
  show ?case using g p Cons.IH by (simp add: Let_def case_prod_unfold)
qed simp

lemma spec_request:
  assumes "sp_entries s = all_ones (take n recent)" "sp_capacity s = int n" "distinct recent" "1 \<le> n"
    and "spec_get s now k None = (v, s1)"
    and "s2 = (if v = None then snd (spec_put s1 later k (Some 1) None) else s1)"
  shows "sp_entries s2 = all_ones (take n (touch k recent)) \<and> sp_capacity s2 = int n \<and>
    cs_hits (sp_stats s2) = cs_hits (sp_stats s) + (if k \<in> set (take n recent) then 1 else 0) \<and>
    cs_misses (sp_stats s2) = cs_misses (sp_stats s) + (if k \<in> set (take n recent) then 0 else 1)"
proof (cases "k \<in> set (take n recent)")
  case True
  then have get: "dict_get (sp_entries s) k = Some (Some 1, None)" by (simp add: assms(1) all_ones_get)
  then have "v = Some 1" "s1 = s\<lparr>sp_entries := (k, (Some 1, None)) # dict_del k (sp_entries s),
      sp_stats := (sp_stats s)\<lparr>cs_hits := cs_hits (sp_stats s) + 1\<rparr>\<rparr>"
    using assms(5) by (auto simp: spec_get_def spec_expired_def)
  then show ?thesis
    using True assms(6) removeAll_take(1) [OF assms(3) True]
    by (simp add: assms(1,2) all_ones_del all_ones_Cons)
next
  case False
  then have get: "dict_get (sp_entries s) k = None" by (simp add: assms(1) all_ones_get)
  then have v: "v = None" "s1 = s\<lparr>sp_stats := (sp_stats s)\<lparr>cs_misses := cs_misses (sp_stats s) + 1\<rparr>\<rparr>"
    using assms(5) by (auto simp: spec_get_def)
  have room: "sp_entries (spec_evict s1 later) = all_ones (take (n - 1) recent)"
  proof (cases "n \<le> length recent")
    case True
    then show ?thesis using assms(1,2) v(2)
      by (simp add: spec_evict_def all_ones_def map_butlast [symmetric] butlast_take)
  next
    case False
    then show ?thesis using assms(1,2) v(2) by (simp add: spec_evict_def all_ones_def)
  qed
  have "k \<notin> set (take (n - 1) recent)" using False set_take_subset_set_take [of "n - 1" n recent] by auto
  then have del: "removeAll k (take (n - 1) recent) = take (n - 1) recent" by simp
  have "take (n - 1) (removeAll k recent) = take (n - 1) recent"
    using removeAll_take(2) [OF assms(3) False, of "n - 1"] by auto
  then have "k # take (n - 1) recent = take n (touch k recent)"
    using assms(4) by (cases n) (simp_all add: touch_def)
  moreover have "sp_entries s1 = sp_entries s" by (simp add: v(2))
  then have "sp_entries s2 = (k, (Some 1, None)) # dict_del k (sp_entries (spec_evict s1 later))"
    using get v(1) assms(6) by (simp add: spec_put_def Let_def)
  then have "sp_entries s2 = all_ones (k # take (n - 1) recent)"
    unfolding room all_ones_del del by (simp only: all_ones_Cons)
  ultimately have "sp_entries s2 = all_ones (take n (touch k recent))" by simp
  moreover have "sp_capacity s2 = int n" "cs_hits (sp_stats s2) = cs_hits (sp_stats s)"
    "cs_misses (sp_stats s2) = cs_misses (sp_stats s) + 1"
    using get v assms(2,6) by (simp_all add: spec_put_def spec_evict_def Let_def)
  ultimately show ?thesis using False by simp
qed

lemma touch_distinct: "distinct recent \<Longrightarrow> distinct (touch k recent)"
  by (simp add: touch_def distinct_removeAll)

lemma spec_simulate_stack:
  assumes "sp_entries s = all_ones (take n recent)" "sp_capacity s = int n" "distinct recent" "1 \<le> n"
  shows "sp_entries (spec_simulate clock i ks s) = all_ones (take n (fold touch ks recent)) \<and>
    cs_hits (sp_stats (spec_simulate clock i ks s)) = cs_hits (sp_stats s) + int (stack_hits n recent ks) \<and>
    cs_hits (sp_stats (spec_simulate clock i ks s)) + cs_misses (sp_stats (spec_simulate clock i ks s)) =
      cs_hits (sp_stats s) + cs_misses (sp_stats s) + int (length ks)"
  using assms
proof (induction ks arbitrary: i s recent)
  case (Cons k ks)
  obtain v s1 where g: "spec_get s (clock i) k None = (v, s1)" by (metis surj_pair)
  define s2 where "s2 = (if v = None then snd (spec_put s1 (clock (i + 1)) k (Some 1) None) else s1)"
  note r = spec_request [OF Cons.prems g s2_def]
  have "spec_simulate clock i (k # ks) s = spec_simulate clock (i + 2) ks s2"
    using g by (simp add: s2_def)
  with Cons.IH [of s2 "touch k recent" "i + 2"] r Cons.prems(4) touch_distinct [OF Cons.prems(3)]
  show ?case by (cases "k \<in> set (take n recent)") simp_all
qed simp

lemma simulate_stats:
  assumes "lru_new capacity = Inr c"
  shows "cs_hits (lc_stats (simulate_loop clock 0 ks c)) = int (stack_hits (nat capacity) [] ks)"
    and "cs_hits (lc_stats (simulate_loop clock 0 ks c)) + cs_misses (lc_stats (simulate_loop clock 0 ks c)) = int (length ks)"
    and "lru_keys (simulate_loop clock 0 ks c) now = Some (take (nat capacity) (fold touch ks []))"
proof -
  have cap: "1 \<le> nat capacity" "int (nat capacity) = capacity"
    using assms by (auto simp: lru_new_def split: if_splits)
  note rep = simulate_refines [OF lru_new_represents [OF assms], of clock 0 ks]
  have s: "sp_entries (spec_simulate clock 0 ks (spec_new capacity)) = all_ones (take (nat capacity) (fold touch ks [])) \<and>
    cs_hits (sp_stats (spec_simulate clock 0 ks (spec_new capacity))) = int (stack_hits (nat capacity) [] ks) \<and>
    cs_hits (sp_stats (spec_simulate clock 0 ks (spec_new capacity))) +
      cs_misses (sp_stats (spec_simulate clock 0 ks (spec_new capacity))) = int (length ks)"
    using spec_simulate_stack [of "spec_new capacity" "nat capacity" "[]" clock 0 ks] cap
    by (simp add: spec_new_def all_ones_def)
  with represents_stats [OF rep]
  show "cs_hits (lc_stats (simulate_loop clock 0 ks c)) = int (stack_hits (nat capacity) [] ks)"
    "cs_hits (lc_stats (simulate_loop clock 0 ks c)) + cs_misses (lc_stats (simulate_loop clock 0 ks c)) = int (length ks)"
    by simp_all
  show "lru_keys (simulate_loop clock 0 ks c) now = Some (take (nat capacity) (fold touch ks []))"
    using s by (simp add: lru_keys_refines [OF rep] spec_keys_def all_ones_def spec_expired_def filter_map comp_def)
qed

text \<open>The stack property: after any stream of keys through the cache-aside loop a cache holds
  exactly the \<open>capacity\<close> most recently requested distinct keys, in that order, and its measured hit
  ratio is the share of requests that named one of those keys; so a bigger cache never measures a
  smaller hit ratio on the same stream, whatever the clock reads.\<close>

theorem lru_stack_property:
  fixes h :: rat
  assumes "lru_new small = Inr c" "small \<le> big"
    and "simulate_hit_ratio clock ks small = Inr h" "simulate_hit_ratio clock' ks big = Inr h'"
  shows "lru_keys (simulate_loop clock 0 ks c) now = Some (take (nat small) (fold touch ks [])) \<and>
    h = (if ks = [] then 0 else of_nat (stack_hits (nat small) [] ks) / of_nat (length ks)) \<and> h \<le> h'"
proof -
  have ratio: "r = (if ks = [] then 0 else of_nat (stack_hits (nat n) [] ks) / of_nat (length ks))"
    if sim: "simulate_hit_ratio k ks n = Inr r" for k n and r :: rat
  proof -
    obtain c where c: "lru_new n = Inr c" "r = cs_hit_ratio (lc_stats (simulate_loop k 0 ks c))"
      using sim by (auto simp: simulate_hit_ratio_def split: sum.splits)
    show ?thesis
      unfolding c(2) cs_hit_ratio_def Let_def simulate_stats(2) [OF c(1)]
      unfolding simulate_stats(1) [OF c(1)] by (cases ks) simp_all
  qed
  have "nat small \<le> nat big" using assms(2) by simp
  then have "stack_hits (nat small) [] ks \<le> stack_hits (nat big) [] ks" by (rule stack_hits_mono)
  then have "h \<le> h'" unfolding ratio [OF assms(3)] ratio [OF assms(4)] by (auto intro: divide_right_mono)
  with ratio [OF assms(3)] simulate_stats(3) [OF assms(1)] show ?thesis by simp
qed

section \<open>Concrete runs\<close>

lemma demo_lru_new: "lru_new 2 = Inr (projr (lru_new 2))"
  by (simp add: lru_new_def)

theorem lru_refines_spec_witness:
  "answers lru_call [(0, Put ''a'' 1 None), (0, Put ''b'' 2 (Some 5)), (1, Get ''a'' 0), (2, Put ''c'' 3 None),
       (3, Get ''b'' 0), (4, Keys)] (projr (lru_new 2)) =
   [Stored (Inr ()), Stored (Inr ()), Found (1 :: int), Stored (Inr ()), Found 0, Listing (Some [''c'', ''a''])]"
proof -
  have "answers spec_call [(0, Put ''a'' 1 None), (0, Put ''b'' 2 (Some 5)), (1, Get ''a'' 0), (2, Put ''c'' 3 None),
       (3, Get ''b'' 0), (4, Keys)] (spec_new 2) =
   [Stored (Inr ()), Stored (Inr ()), Found (1 :: int), Stored (Inr ()), Found 0, Listing (Some [''c'', ''a''])]"
    by code_simp
  then show ?thesis by (simp only: lru_refines_spec [OF demo_lru_new])
qed

theorem lru_stack_property_witness:
  "\<exists>h h'. simulate_hit_ratio (\<lambda>_. 0) [1 :: int, 2, 1, 3, 2, 1] 2 = Inr h \<and>
     simulate_hit_ratio (\<lambda>_. 0) [1 :: int, 2, 1, 3, 2, 1] 3 = Inr h' \<and> h \<le> h'"
proof -
  obtain c c' :: "(int, int option) lru_cache" where c: "lru_new 2 = Inr c" "lru_new 3 = Inr c'" by (simp add: lru_new_def)
  define h where "h = cs_hit_ratio (lc_stats (simulate_loop (\<lambda>_. 0) 0 [1, 2, 1, 3, 2, 1] c))"
  define h' where "h' = cs_hit_ratio (lc_stats (simulate_loop (\<lambda>_. 0) 0 [1, 2, 1, 3, 2, 1] c'))"
  have s: "simulate_hit_ratio (\<lambda>_. 0) [1 :: int, 2, 1, 3, 2, 1] 2 = Inr h"
    "simulate_hit_ratio (\<lambda>_. 0) [1 :: int, 2, 1, 3, 2, 1] 3 = Inr h'"
    using c by (simp_all add: simulate_hit_ratio_def h_def h'_def del: simulate_loop.simps)
  have le: "(2 :: int) \<le> 3" by simp
  show ?thesis using s lru_stack_property [OF c(1) le s, THEN conjunct2, THEN conjunct2] by blast
qed

end
