(* ===== verification/Raft_Election.thy ===== *)
theory Raft_Election
  imports Common "HOL-Library.Product_Lexorder"
begin

text \<open>
  Raft leader election and log replication of \<^verbatim>\<open>code/hld/raft_election.py\<close>: the messages, the
  node with its handlers, and the cluster that drives the nodes one simulated millisecond at a
  time over a network with latency, partitions and crashes.

  A node calls back into its cluster (it sends, draws timeouts, logs and records elections), so
  its methods take and answer the cluster that holds it. The pseudo-random generator is a
  parameter: \<open>draw i a b\<close> is the answer of its \<open>i\<close>-th call \<^verbatim>\<open>randint(a, b)\<close>.
\<close>

section \<open>Messages\<close>

datatype raft_role = FOLLOWER | CANDIDATE | LEADER

record raft_entry =
  le_term :: int
  le_command :: string

datatype raft_msg =
    RequestVote (msg_term: int) (candidate: string) (last_index: int) (last_term: int)
  | VoteReply (msg_term: int) (granted: bool)
  | AppendEntries (msg_term: int) (msg_leader: string) (prev_index: int) (prev_term: int)
      (msg_entries: "raft_entry list") (leader_commit: int)
  | AppendReply (msg_term: int) (success: bool) (match_index: int)

fun msg_name :: "raft_msg \<Rightarrow> string" where
  "msg_name (RequestVote _ _ _ _) = ''RequestVote''"
| "msg_name (VoteReply _ _) = ''VoteReply''"
| "msg_name (AppendEntries _ _ _ _ _ _) = ''AppendEntries''"
| "msg_name (AppendReply _ _ _) = ''AppendReply''"

section \<open>State\<close>

record raft_node =
  rn_id :: string
  rn_peers :: "string list"
  rn_term :: int
  rn_voted_for :: "string option"
  rn_log :: "raft_entry list"
  rn_role :: raft_role
  rn_leader_id :: "string option"
  rn_commit_index :: int
  rn_alive :: bool
  rn_votes :: "string list"
  rn_next_index :: "(string, int) dict"
  rn_match_index :: "(string, int) dict"
  rn_heartbeat_due :: int
  rn_election_deadline :: int

record envelope =
  ev_deliver_at :: int
  ev_seq :: int
  ev_src :: string
  ev_dst :: string
  ev_payload :: raft_msg

record raft_cluster =
  rc_draws :: nat
  rc_clock :: time
  rc_timeout :: "int \<times> int"
  rc_latency :: "int \<times> int"
  rc_heartbeat_ms :: int
  rc_now_ms :: int
  rc_seq :: int
  rc_inflight :: "envelope list"
  rc_groups :: "string set list"
  rc_events :: "string list"
  rc_sent :: "(string, int) dict"
  rc_dropped :: int
  rc_leaders_by_term :: "(int, string list) dict"
  rc_nodes :: "(string, raft_node) dict"

type_synonym draws = "nat \<Rightarrow> int \<Rightarrow> int \<Rightarrow> int"

definition the_node :: "string \<Rightarrow> raft_cluster \<Rightarrow> raft_node" where
  "the_node i rc = the (dict_get (rc_nodes rc) i)"

definition set_node :: "string \<Rightarrow> raft_node \<Rightarrow> raft_cluster \<Rightarrow> raft_cluster" where
  "set_node i n rc = rc\<lparr>rc_nodes := dict_set i n (rc_nodes rc)\<rparr>"

section \<open>Services of the cluster\<close>

definition random_election_timeout :: "draws \<Rightarrow> raft_cluster \<Rightarrow> int \<times> raft_cluster" where
  "random_election_timeout draw rc =
     (draw (rc_draws rc) (fst (rc_timeout rc)) (snd (rc_timeout rc)), rc\<lparr>rc_draws := rc_draws rc + 1\<rparr>)"

text \<open>The heap of envelopes is kept as the list of its pops: by delivery time, then by sequence number.\<close>

fun push_envelope :: "envelope \<Rightarrow> envelope list \<Rightarrow> envelope list" where
  "push_envelope e [] = [e]"
| "push_envelope e (d # ds) =
     (if (ev_deliver_at e, ev_seq e) < (ev_deliver_at d, ev_seq d) then e # d # ds else d # push_envelope e ds)"

definition rc_send :: "draws \<Rightarrow> string \<Rightarrow> string \<Rightarrow> raft_msg \<Rightarrow> raft_cluster \<Rightarrow> raft_cluster" where
  "rc_send draw src dst msg rc =
     (let name = msg_name msg;
          deliver_at = rc_now_ms rc + draw (rc_draws rc) (fst (rc_latency rc)) (snd (rc_latency rc));
          e = \<lparr>ev_deliver_at = deliver_at, ev_seq = rc_seq rc, ev_src = src, ev_dst = dst, ev_payload = msg\<rparr>
      in rc\<lparr>rc_sent := dict_set name ((case dict_get (rc_sent rc) name of None \<Rightarrow> 0 | Some n \<Rightarrow> n) + 1) (rc_sent rc),
            rc_draws := rc_draws rc + 1, rc_seq := rc_seq rc + 1,
            rc_inflight := push_envelope e (rc_inflight rc)\<rparr>)"

definition rjust :: "nat \<Rightarrow> string \<Rightarrow> string" where
  "rjust n s = replicate (n - length s) CHR '' '' @ s"

definition rc_log_event :: "string \<Rightarrow> raft_cluster \<Rightarrow> raft_cluster" where
  "rc_log_event line rc =
     rc\<lparr>rc_events := rc_events rc @ [''t='' @ rjust 5 (str_of_int (rc_now_ms rc)) @ '' ms  '' @ line]\<rparr>"

fun str_join :: "string \<Rightarrow> string list \<Rightarrow> string" where
  "str_join sep [] = []"
| "str_join sep [x] = x"
| "str_join sep (x # y # xs) = x @ sep @ str_join sep (y # xs)"

definition rc_record_leader :: "int \<Rightarrow> string \<Rightarrow> string list \<Rightarrow> raft_cluster \<Rightarrow> raft_cluster" where
  "rc_record_leader t i voters rc =
     rc_log_event (i @ '' wins term '' @ str_of_int t @ '' with votes from '' @ str_join '', '' voters)
       (rc\<lparr>rc_leaders_by_term :=
          dict_set t ((case dict_get (rc_leaders_by_term rc) t of None \<Rightarrow> [] | Some ls \<Rightarrow> ls) @ [i])
            (rc_leaders_by_term rc)\<rparr>)"

section \<open>The node: election\<close>

definition majority :: "raft_node \<Rightarrow> int" where
  "majority n = (int (length (rn_peers n)) + 1) div 2 + 1"

definition last_log_index :: "raft_node \<Rightarrow> int" where
  "last_log_index n = int (length (rn_log n))"

definition last_log_term :: "raft_node \<Rightarrow> int" where
  "last_log_term n = (if rn_log n = [] then 0 else le_term (last (rn_log n)))"

definition raft_committed :: "raft_node \<Rightarrow> string list" where
  "raft_committed n = map le_command (take (nat (rn_commit_index n)) (rn_log n))"

definition reset_election_timer :: "draws \<Rightarrow> string \<Rightarrow> raft_cluster \<Rightarrow> raft_cluster" where
  "reset_election_timer draw i rc =
     (case random_election_timeout draw rc of
        (t, rc1) \<Rightarrow> set_node i ((the_node i rc1)\<lparr>rn_election_deadline := rc_now_ms rc1 + t\<rparr>) rc1)"

text \<open>\<open>log[i - 1]\<close> is entry \<open>i\<close>.\<close>

definition send_append :: "draws \<Rightarrow> string \<Rightarrow> string \<Rightarrow> raft_cluster \<Rightarrow> raft_cluster" where
  "send_append draw i peer rc =
     (let n = the_node i rc;
          prev = the (dict_get (rn_next_index n) peer) - 1;
          prev_t = (if 0 < prev then le_term (rn_log n ! nat (prev - 1)) else 0);
          entries = drop (nat prev) (rn_log n)
      in rc_send draw i peer (AppendEntries (rn_term n) i prev prev_t entries (rn_commit_index n)) rc)"

definition broadcast_append :: "draws \<Rightarrow> string \<Rightarrow> raft_cluster \<Rightarrow> raft_cluster" where
  "broadcast_append draw i rc =
     (let rc1 = set_node i ((the_node i rc)\<lparr>rn_heartbeat_due := rc_now_ms rc + rc_heartbeat_ms rc\<rparr>) rc
      in fold (send_append draw i) (rn_peers (the_node i rc1)) rc1)"

definition maybe_become_leader :: "draws \<Rightarrow> string \<Rightarrow> raft_cluster \<Rightarrow> raft_cluster" where
  "maybe_become_leader draw i rc =
     (let n = the_node i rc
      in if int (length (rn_votes n)) < majority n then rc
         else let rc1 = set_node i (n\<lparr>rn_role := LEADER, rn_leader_id := Some i,
                          rn_next_index := map (\<lambda>p. (p, last_log_index n + 1)) (rn_peers n),
                          rn_match_index := map (\<lambda>p. (p, 0)) (rn_peers n)\<rparr>) rc;
                  rc2 = rc_record_leader (rn_term n) i (sort (rn_votes n)) rc1
              in broadcast_append draw i rc2)"

definition start_election :: "draws \<Rightarrow> string \<Rightarrow> raft_cluster \<Rightarrow> raft_cluster" where
  "start_election draw i rc =
     (let n = the_node i rc;
          rc1 = set_node i (n\<lparr>rn_term := rn_term n + 1, rn_role := CANDIDATE, rn_voted_for := Some i,
                              rn_leader_id := None, rn_votes := [i]\<rparr>) rc;
          rc2 = reset_election_timer draw i rc1;
          n2 = the_node i rc2;
          rc3 = rc_log_event (i @ '' election timeout, candidate in term '' @ str_of_int (rn_term n2)) rc2;
          request = RequestVote (rn_term n2) i (last_log_index n2) (last_log_term n2);
          rc4 = fold (\<lambda>peer. rc_send draw i peer request) (rn_peers n2) rc3
      in maybe_become_leader draw i rc4)"

definition become_follower :: "string \<Rightarrow> int \<Rightarrow> raft_cluster \<Rightarrow> raft_cluster" where
  "become_follower i t rc =
     (let n = the_node i rc;
          n1 = (if rn_term n < t then n\<lparr>rn_term := t, rn_voted_for := None\<rparr> else n);
          rc1 = (if rn_role n \<noteq> FOLLOWER
                 then rc_log_event (i @ '' steps down, follower in term '' @ str_of_int t) rc else rc)
      in set_node i (n1\<lparr>rn_role := FOLLOWER, rn_leader_id := None\<rparr>) rc1)"

definition raft_tick :: "draws \<Rightarrow> string \<Rightarrow> raft_cluster \<Rightarrow> raft_cluster" where
  "raft_tick draw i rc =
     (let n = the_node i rc
      in if \<not> rn_alive n then rc
         else if rn_role n = LEADER
         then (if rn_heartbeat_due n \<le> rc_now_ms rc then broadcast_append draw i rc else rc)
         else if rn_election_deadline n \<le> rc_now_ms rc then start_election draw i rc else rc)"

definition handle_request_vote ::
  "draws \<Rightarrow> string \<Rightarrow> int \<Rightarrow> string \<Rightarrow> int \<Rightarrow> int \<Rightarrow> raft_cluster \<Rightarrow> raft_msg \<times> raft_cluster" where
  "handle_request_vote draw i t cand l_index l_term rc =
     (let n = the_node i rc;
          up_to_date = ((last_log_term n, last_log_index n) \<le> (l_term, l_index));
          grant = (t = rn_term n \<and> rn_voted_for n \<in> {None, Some cand} \<and> up_to_date);
          rc1 = (if grant then reset_election_timer draw i (set_node i (n\<lparr>rn_voted_for := Some cand\<rparr>) rc) else rc)
      in (VoteReply (rn_term n) grant, rc1))"

definition handle_vote_reply :: "draws \<Rightarrow> string \<Rightarrow> string \<Rightarrow> int \<Rightarrow> bool \<Rightarrow> raft_cluster \<Rightarrow> raft_cluster" where
  "handle_vote_reply draw i src t grant rc =
     (let n = the_node i rc
      in if rn_role n = CANDIDATE \<and> t = rn_term n \<and> grant
         then maybe_become_leader draw i (set_node i (n\<lparr>rn_votes := List.insert src (rn_votes n)\<rparr>) rc)
         else rc)"

section \<open>The node: replication\<close>

fun merge_entries :: "nat \<Rightarrow> raft_entry list \<Rightarrow> raft_entry list \<Rightarrow> raft_entry list" where
  "merge_entries position [] lg = lg"
| "merge_entries position (e # es) lg =
     (let log1 = (if position < length lg \<and> le_term (lg ! position) \<noteq> le_term e then take position lg else lg);
          log2 = (if length log1 \<le> position then log1 @ [e] else log1)
      in merge_entries (position + 1) es log2)"

definition handle_append_entries ::
  "draws \<Rightarrow> string \<Rightarrow> int \<Rightarrow> string \<Rightarrow> int \<Rightarrow> int \<Rightarrow> raft_entry list \<Rightarrow> int \<Rightarrow> raft_cluster \<Rightarrow>
   raft_msg \<times> raft_cluster" where
  "handle_append_entries draw i t ldr prev prev_t entries commit rc =
     (if t < rn_term (the_node i rc) then (AppendReply (rn_term (the_node i rc)) False 0, rc)
      else let rc1 = become_follower i t rc;
               rc2 = set_node i ((the_node i rc1)\<lparr>rn_leader_id := Some ldr\<rparr>) rc1;
               rc3 = reset_election_timer draw i rc2;
               n = the_node i rc3
           in if last_log_index n < prev \<or> (0 < prev \<and> le_term (rn_log n ! nat (prev - 1)) \<noteq> prev_t)
              then (AppendReply (rn_term n) False 0, rc3)
              else let lg = merge_entries (nat prev) entries (rn_log n);
                       last_new = prev + int (length entries);
                       commit' = (if rn_commit_index n < commit
                                  then max (rn_commit_index n) (min commit last_new) else rn_commit_index n)
                   in (AppendReply (rn_term n) True last_new,
                       set_node i (n\<lparr>rn_log := lg, rn_commit_index := commit'\<rparr>) rc3))"

text \<open>The downward scan of \<^verbatim>\<open>_advance_commit_index\<close>, from \<open>n\<close> above the commit index.\<close>

fun commit_scan :: "raft_node \<Rightarrow> nat \<Rightarrow> int option" where
  "commit_scan node 0 = None"
| "commit_scan node (Suc n) =
     (let index = rn_commit_index node + int (Suc n)
      in if le_term (rn_log node ! nat (index - 1)) \<noteq> rn_term node then None
         else if majority node \<le>
                 1 + int (length (filter (\<lambda>p. index \<le> the (dict_get (rn_match_index node) p)) (rn_peers node)))
         then Some index
         else commit_scan node n)"

definition advance_commit_index :: "raft_node \<Rightarrow> raft_node" where
  "advance_commit_index node =
     (case commit_scan node (nat (last_log_index node - rn_commit_index node)) of
        None \<Rightarrow> node | Some index \<Rightarrow> node\<lparr>rn_commit_index := index\<rparr>)"

definition handle_append_reply ::
  "draws \<Rightarrow> string \<Rightarrow> string \<Rightarrow> int \<Rightarrow> bool \<Rightarrow> int \<Rightarrow> raft_cluster \<Rightarrow> raft_cluster" where
  "handle_append_reply draw i src t ok matched rc =
     (let n = the_node i rc
      in if rn_role n \<noteq> LEADER \<or> t \<noteq> rn_term n then rc
         else if ok
         then let m = max (the (dict_get (rn_match_index n) src)) matched
              in set_node i (advance_commit_index (n\<lparr>rn_match_index := dict_set src m (rn_match_index n),
                                                    rn_next_index := dict_set src (m + 1) (rn_next_index n)\<rparr>)) rc
         else send_append draw i src
                (set_node i (n\<lparr>rn_next_index :=
                   dict_set src (max 1 (the (dict_get (rn_next_index n) src) - 1)) (rn_next_index n)\<rparr>) rc))"

definition node_submit :: "draws \<Rightarrow> string \<Rightarrow> string \<Rightarrow> raft_cluster \<Rightarrow> int result \<times> raft_cluster" where
  "node_submit draw i command rc =
     (let n = the_node i rc
      in if rn_role n \<noteq> LEADER then (Inl InvalidStateError, rc)
         else let rc1 = set_node i (n\<lparr>rn_log := rn_log n @ [\<lparr>le_term = rn_term n, le_command = command\<rparr>]\<rparr>) rc;
                  rc2 = broadcast_append draw i rc1
              in (Inr (last_log_index (the_node i rc2)), rc2))"

definition on_message :: "draws \<Rightarrow> string \<Rightarrow> string \<Rightarrow> raft_msg \<Rightarrow> raft_cluster \<Rightarrow> raft_msg option \<times> raft_cluster" where
  "on_message draw i src msg rc =
     (if \<not> rn_alive (the_node i rc) then (None, rc)
      else let rc1 = (if rn_term (the_node i rc) < msg_term msg then become_follower i (msg_term msg) rc else rc);
               (reply, rc2) =
                 (case msg of
                    RequestVote t cand l_index l_term \<Rightarrow>
                      map_prod Some id (handle_request_vote draw i t cand l_index l_term rc1)
                  | VoteReply t grant \<Rightarrow> (None, handle_vote_reply draw i src t grant rc1)
                  | AppendEntries t ldr prev prev_t entries commit \<Rightarrow>
                      map_prod Some id (handle_append_entries draw i t ldr prev prev_t entries commit rc1)
                  | AppendReply t ok matched \<Rightarrow> (None, handle_append_reply draw i src t ok matched rc1))
           in (reply, case reply of None \<Rightarrow> rc2 | Some m \<Rightarrow> rc_send draw i src m rc2))"

section \<open>The cluster\<close>

definition raft_node_new :: "string \<Rightarrow> string list \<Rightarrow> int \<Rightarrow> raft_node" where
  "raft_node_new i peers deadline =
     \<lparr>rn_id = i, rn_peers = peers, rn_term = 0, rn_voted_for = None, rn_log = [], rn_role = FOLLOWER,
      rn_leader_id = None, rn_commit_index = 0, rn_alive = True, rn_votes = [], rn_next_index = [],
      rn_match_index = [], rn_heartbeat_due = 0, rn_election_deadline = deadline\<rparr>"

text \<open>The constructor of a node draws its first election timeout from the cluster under construction.\<close>

definition add_node :: "draws \<Rightarrow> string list \<Rightarrow> string \<Rightarrow> raft_cluster \<Rightarrow> raft_cluster" where
  "add_node draw node_ids i rc =
     (case random_election_timeout draw rc of
        (t, rc1) \<Rightarrow> set_node i (raft_node_new i (filter (\<lambda>p. p \<noteq> i) node_ids) (rc_now_ms rc1 + t)) rc1)"

definition raft_new ::
  "draws \<Rightarrow> string list \<Rightarrow> int \<times> int \<Rightarrow> int \<Rightarrow> int \<times> int \<Rightarrow> raft_cluster result" where
  "raft_new draw node_ids election_timeout_ms heartbeat_ms latency_ms =
     (if node_ids = [] \<or> \<not> distinct node_ids then Inl ValidationError
      else if \<not> (0 < fst election_timeout_ms \<and> fst election_timeout_ms \<le> snd election_timeout_ms) then Inl ValidationError
      else if \<not> (0 < heartbeat_ms \<and> heartbeat_ms < fst election_timeout_ms) then Inl ValidationError
      else if \<not> (0 \<le> fst latency_ms \<and> fst latency_ms \<le> snd latency_ms) then Inl ValidationError
      else Inr (fold (add_node draw node_ids) node_ids
             \<lparr>rc_draws = 0, rc_clock = 0, rc_timeout = election_timeout_ms, rc_latency = latency_ms,
              rc_heartbeat_ms = heartbeat_ms, rc_now_ms = 0, rc_seq = 0, rc_inflight = [], rc_groups = [],
              rc_events = [], rc_sent = [], rc_dropped = 0, rc_leaders_by_term = [], rc_nodes = []\<rparr>))"

definition reachable :: "raft_cluster \<Rightarrow> string \<Rightarrow> string \<Rightarrow> bool" where
  "reachable rc a b \<longleftrightarrow> rc_groups rc = [] \<or> (\<exists>g \<in> set (rc_groups rc). a \<in> g \<and> b \<in> g)"

definition deliver_one :: "draws \<Rightarrow> envelope \<Rightarrow> raft_cluster \<Rightarrow> raft_cluster" where
  "deliver_one draw e rc =
     (if rn_alive (the_node (ev_dst e) rc) \<and> reachable rc (ev_src e) (ev_dst e)
      then snd (on_message draw (ev_dst e) (ev_src e) (ev_payload e) rc)
      else rc\<lparr>rc_dropped := rc_dropped rc + 1\<rparr>)"

text \<open>The delivery loop of \<^verbatim>\<open>step\<close>; it answers nothing when it runs forever.\<close>

partial_function (option) deliver_due :: "draws \<Rightarrow> raft_cluster \<Rightarrow> raft_cluster option" where
  "deliver_due draw rc =
     (case rc_inflight rc of
        [] \<Rightarrow> Some rc
      | e # es \<Rightarrow> if ev_deliver_at e \<le> rc_now_ms rc
                 then deliver_due draw (deliver_one draw e (rc\<lparr>rc_inflight := es\<rparr>))
                 else Some rc)"

declare deliver_due.simps [code]

definition raft_step :: "draws \<Rightarrow> raft_cluster \<Rightarrow> raft_cluster option" where
  "raft_step draw rc =
     (let clock = rc_clock rc + 1 / 1000
      in map_option (\<lambda>rc1. fold (raft_tick draw) (dict_keys (rc_nodes rc1)) rc1)
           (deliver_due draw (rc\<lparr>rc_clock := clock, rc_now_ms := py_round (clock * 1000)\<rparr>)))"

fun raft_run :: "draws \<Rightarrow> nat \<Rightarrow> raft_cluster \<Rightarrow> raft_cluster option" where
  "raft_run draw 0 rc = Some rc"
| "raft_run draw (Suc ms) rc = Option.bind (raft_step draw rc) (raft_run draw ms)"

fun run_until_from ::
  "draws \<Rightarrow> (raft_cluster \<Rightarrow> bool) \<Rightarrow> int \<Rightarrow> nat \<Rightarrow> raft_cluster \<Rightarrow> (int result \<times> raft_cluster) option" where
  "run_until_from draw condition elapsed 0 rc = Some (Inl SimulationTimeout, rc)"
| "run_until_from draw condition elapsed (Suc budget) rc =
     Option.bind (raft_step draw rc)
       (\<lambda>rc1. if condition rc1 then Some (Inr elapsed, rc1)
              else run_until_from draw condition (elapsed + 1) budget rc1)"

definition run_until ::
  "draws \<Rightarrow> (raft_cluster \<Rightarrow> bool) \<Rightarrow> int \<Rightarrow> raft_cluster \<Rightarrow> (int result \<times> raft_cluster) option" where
  "run_until draw condition max_ms rc = run_until_from draw condition 1 (nat max_ms) rc"

text \<open>\<^verbatim>\<open>max\<close> with a key answers the first of the greatest elements.\<close>

fun first_max :: "('a \<Rightarrow> int) \<Rightarrow> 'a \<Rightarrow> 'a list \<Rightarrow> 'a" where
  "first_max key best [] = best"
| "first_max key best (x # xs) = first_max key (if key best < key x then x else best) xs"

definition raft_leader :: "raft_cluster \<Rightarrow> string option" where
  "raft_leader rc =
     (case filter (\<lambda>n. rn_alive n \<and> rn_role n = LEADER) (map snd (rc_nodes rc)) of
        [] \<Rightarrow> None | n # ns \<Rightarrow> Some (rn_id (first_max rn_term n ns)))"

definition run_until_leader :: "draws \<Rightarrow> int \<Rightarrow> raft_cluster \<Rightarrow> (string result \<times> raft_cluster) option" where
  "run_until_leader draw max_ms rc =
     map_option (\<lambda>(res, rc1). (case res of Inl e \<Rightarrow> Inl e | Inr _ \<Rightarrow> Inr (the (raft_leader rc1)), rc1))
       (run_until draw (\<lambda>rc. raft_leader rc \<noteq> None) max_ms rc)"

section \<open>Fault injection and clients\<close>

definition show_group :: "string set \<Rightarrow> string" where
  "show_group g = ''{'' @ str_join '', '' (sorted_list_of_set g) @ ''}''"

definition raft_partition :: "string set list \<Rightarrow> raft_cluster \<Rightarrow> unit result \<times> raft_cluster" where
  "raft_partition groups rc =
     (let ids = set (dict_keys (rc_nodes rc));
          named = \<Union> (set groups);
          rest = ids - named
      in if \<not> named \<subseteq> ids then (Inl ValidationError, rc)
         else let gs = groups @ (if rest \<noteq> {} then [rest] else [])
              in (Inr (), rc_log_event (''partition '' @ str_join '' | '' (map show_group gs)) (rc\<lparr>rc_groups := gs\<rparr>)))"

definition raft_heal :: "raft_cluster \<Rightarrow> raft_cluster" where
  "raft_heal rc = rc_log_event ''partition healed'' (rc\<lparr>rc_groups := []\<rparr>)"

definition find_node :: "raft_cluster \<Rightarrow> string \<Rightarrow> raft_node result" where
  "find_node rc i = (case dict_get (rc_nodes rc) i of None \<Rightarrow> Inl NotFoundError | Some n \<Rightarrow> Inr n)"

definition raft_crash :: "string \<Rightarrow> raft_cluster \<Rightarrow> unit result \<times> raft_cluster" where
  "raft_crash i rc =
     (case find_node rc i of
        Inl e \<Rightarrow> (Inl e, rc)
      | Inr n \<Rightarrow> (Inr (), rc_log_event (i @ '' crashes'') (set_node i (n\<lparr>rn_alive := False\<rparr>) rc)))"

definition raft_restart :: "draws \<Rightarrow> string \<Rightarrow> raft_cluster \<Rightarrow> unit result \<times> raft_cluster" where
  "raft_restart draw i rc =
     (case find_node rc i of
        Inl e \<Rightarrow> (Inl e, rc)
      | Inr n \<Rightarrow>
          (Inr (), rc_log_event (i @ '' restarts as follower in term '' @ str_of_int (rn_term n))
             (reset_election_timer draw i
                (set_node i (n\<lparr>rn_alive := True, rn_role := FOLLOWER, rn_leader_id := None, rn_commit_index := 0\<rparr>) rc))))"

definition raft_submit :: "draws \<Rightarrow> string \<Rightarrow> string option \<Rightarrow> raft_cluster \<Rightarrow> int result \<times> raft_cluster" where
  "raft_submit draw command node_id rc =
     (case (case node_id of Some i \<Rightarrow> Some i | None \<Rightarrow> raft_leader rc) of
        None \<Rightarrow> (Inl InvalidStateError, rc)
      | Some i \<Rightarrow> (case find_node rc i of Inl e \<Rightarrow> (Inl e, rc) | Inr _ \<Rightarrow> node_submit draw i command rc))"

definition election_safety_holds :: "raft_cluster \<Rightarrow> bool" where
  "election_safety_holds rc \<longleftrightarrow>
     (\<forall>t \<in> set (dict_keys (rc_leaders_by_term rc)). card (set (the (dict_get (rc_leaders_by_term rc) t))) \<le> 1)"

section \<open>Bookkeeping of the services\<close>

named_theorems raft_simps

definition leaders_of :: "raft_cluster \<Rightarrow> int \<Rightarrow> string list" where
  "leaders_of rc t = (case dict_get (rc_leaders_by_term rc) t of None \<Rightarrow> [] | Some ls \<Rightarrow> ls)"

lemma set_push_envelope [simp]: "set (push_envelope e es) = insert e (set es)"
  by (induction es) auto

lemma set_node_facts [raft_simps]:
  "rc_nodes (set_node i n rc) = dict_set i n (rc_nodes rc)" "rc_inflight (set_node i n rc) = rc_inflight rc"
  "leaders_of (set_node i n rc) = leaders_of rc"
  "the_node j (set_node i n rc) = (if j = i then n else the_node j rc)"
  by (auto simp: set_node_def leaders_of_def the_node_def fun_eq_iff)

lemma log_event_facts [raft_simps]:
  "rc_nodes (rc_log_event s rc) = rc_nodes rc" "rc_inflight (rc_log_event s rc) = rc_inflight rc"
  "leaders_of (rc_log_event s rc) = leaders_of rc" "the_node j (rc_log_event s rc) = the_node j rc"
  "rc_leaders_by_term (rc_log_event s rc) = rc_leaders_by_term rc"
  by (auto simp: rc_log_event_def leaders_of_def the_node_def fun_eq_iff)

lemma send_facts [raft_simps]:
  "rc_nodes (rc_send draw src dst m rc) = rc_nodes rc" "leaders_of (rc_send draw src dst m rc) = leaders_of rc"
  "the_node j (rc_send draw src dst m rc) = the_node j rc"
  by (auto simp: rc_send_def leaders_of_def the_node_def fun_eq_iff Let_def)

lemma sent_envelope:
  "e \<in> set (rc_inflight (rc_send draw src dst m rc)) \<Longrightarrow>
     e \<in> set (rc_inflight rc) \<or> ev_src e = src \<and> ev_dst e = dst \<and> ev_payload e = m"
  by (auto simp: rc_send_def Let_def)

lemma record_leader_facts [raft_simps]:
  "rc_nodes (rc_record_leader t i vs rc) = rc_nodes rc" "rc_inflight (rc_record_leader t i vs rc) = rc_inflight rc"
  "leaders_of (rc_record_leader t i vs rc) = (leaders_of rc)(t := leaders_of rc t @ [i])"
  "the_node j (rc_record_leader t i vs rc) = the_node j rc"
  by (auto simp: rc_record_leader_def log_event_facts leaders_of_def the_node_def fun_eq_iff)

lemma timeout_facts [raft_simps]:
  "rc_nodes (snd (random_election_timeout draw rc)) = rc_nodes rc"
  "rc_inflight (snd (random_election_timeout draw rc)) = rc_inflight rc"
  "leaders_of (snd (random_election_timeout draw rc)) = leaders_of rc"
  "the_node j (snd (random_election_timeout draw rc)) = the_node j rc"
  by (auto simp: random_election_timeout_def leaders_of_def the_node_def fun_eq_iff)

section \<open>The invariant\<close>

text \<open>
  Two histories are kept beside the state: \<open>B v t\<close> is the candidate that \<open>v\<close> voted for in term
  \<open>t\<close>, and \<open>G t\<close> the log of the leader elected in term \<open>t\<close> when it last held that role. Every
  log is made of leaders' logs: an entry of term \<open>t\<close> stands where it stands in \<open>G t\<close>, below the
  same entries.
\<close>

definition log_fits :: "(int \<Rightarrow> raft_entry list) \<Rightarrow> raft_entry list \<Rightarrow> bool" where
  "log_fits G lg \<longleftrightarrow> (\<forall>k < length lg. k < length (G (le_term (lg ! k))) \<and>
     take (Suc k) lg = take (Suc k) (G (le_term (lg ! k))))"

definition indices_ok :: "raft_node \<Rightarrow> bool" where
  "indices_ok n \<longleftrightarrow> (\<forall>p \<in> set (rn_peers n). \<exists>nx mt. dict_get (rn_next_index n) p = Some nx \<and>
     dict_get (rn_match_index n) p = Some mt \<and> 1 \<le> nx \<and> nx \<le> last_log_index n + 1 \<and>
     0 \<le> mt \<and> mt \<le> last_log_index n)"

type_synonym ballots = "string \<Rightarrow> int \<Rightarrow> string option"
type_synonym leader_logs = "int \<Rightarrow> raft_entry list"

definition node_inv ::
  "string set \<Rightarrow> (int \<Rightarrow> string list) \<Rightarrow> ballots \<Rightarrow> leader_logs \<Rightarrow> string \<Rightarrow> raft_node \<Rightarrow> bool" where
  "node_inv ids L B G i n \<longleftrightarrow> rn_id n = i \<and> distinct (rn_peers n) \<and> set (rn_peers n) = ids - {i} \<and>
     (\<forall>t c. B i t = Some c \<longrightarrow> t \<le> rn_term n) \<and> B i (rn_term n) = rn_voted_for n \<and>
     (rn_role n \<noteq> FOLLOWER \<longrightarrow> distinct (rn_votes n) \<and> set (rn_votes n) \<subseteq> ids \<and>
        (\<forall>v \<in> set (rn_votes n). B v (rn_term n) = Some i)) \<and>
     log_fits G (rn_log n) \<and>
     (rn_role n = LEADER \<longrightarrow> rn_log n = G (rn_term n) \<and> i \<in> set (L (rn_term n)) \<and> indices_ok n) \<and>
     (rn_role n = CANDIDATE \<longrightarrow> i \<notin> set (L (rn_term n))) \<and>
     (\<forall>t. i \<in> set (L t) \<longrightarrow> t \<le> rn_term n)"

fun msg_inv :: "ballots \<Rightarrow> leader_logs \<Rightarrow> string \<Rightarrow> string \<Rightarrow> raft_msg \<Rightarrow> bool" where
  "msg_inv B G src dst (RequestVote t c li lt) \<longleftrightarrow> c = src"
| "msg_inv B G src dst (VoteReply t ok) \<longleftrightarrow> (ok \<longrightarrow> B src t = Some dst)"
| "msg_inv B G src dst (AppendEntries t l prev prev_t es commit) \<longleftrightarrow>
     0 \<le> prev \<and> nat prev + length es \<le> length (G t) \<and> es = take (length es) (drop (nat prev) (G t)) \<and>
     (0 < prev \<longrightarrow> prev_t = le_term (G t ! (nat (prev - 1))))"
| "msg_inv B G src dst (AppendReply t ok m) \<longleftrightarrow> (ok \<longrightarrow> 0 \<le> m \<and> m \<le> int (length (G t)))"

definition history_inv :: "string set \<Rightarrow> (int \<Rightarrow> string list) \<Rightarrow> ballots \<Rightarrow> leader_logs \<Rightarrow> bool" where
  "history_inv ids L B G \<longleftrightarrow> finite ids \<and> (\<forall>t. log_fits G (G t)) \<and> (\<forall>t. L t = [] \<longrightarrow> G t = []) \<and>
     (\<forall>t. length (L t) \<le> 1) \<and>
     (\<forall>t. \<forall>c \<in> set (L t). \<exists>Q. Q \<subseteq> ids \<and> card ids < 2 * card Q \<and> (\<forall>v \<in> Q. B v t = Some c))"

definition raft_inv :: "string set \<Rightarrow> ballots \<Rightarrow> leader_logs \<Rightarrow> raft_cluster \<Rightarrow> bool" where
  "raft_inv ids B G rc \<longleftrightarrow> set (dict_keys (rc_nodes rc)) = ids \<and>
     (\<forall>i \<in> ids. node_inv ids (leaders_of rc) B G i (the_node i rc)) \<and>
     (\<forall>e \<in> set (rc_inflight rc). ev_src e \<in> ids \<and> ev_dst e \<in> ids \<and> ev_src e \<noteq> ev_dst e \<and>
        msg_inv B G (ev_src e) (ev_dst e) (ev_payload e)) \<and>
     history_inv ids (leaders_of rc) B G"

text \<open>Histories only grow.\<close>

definition votes_grow :: "ballots \<Rightarrow> ballots \<Rightarrow> bool" where
  "votes_grow B B' \<longleftrightarrow> (\<forall>v t c. B v t = Some c \<longrightarrow> B' v t = Some c)"

definition logs_grow :: "leader_logs \<Rightarrow> leader_logs \<Rightarrow> bool" where
  "logs_grow G G' \<longleftrightarrow> (\<forall>t. \<exists>xs. G' t = G t @ xs)"

lemma grow_refl [simp]: "votes_grow B B" "logs_grow G G"
  by (simp_all add: votes_grow_def logs_grow_def)

lemma log_fits_grow: "log_fits G lg \<Longrightarrow> logs_grow G G' \<Longrightarrow> log_fits G' lg"
  unfolding log_fits_def
proof (intro allI impI)
  fix k assume fits: "\<forall>k < length lg. k < length (G (le_term (lg ! k))) \<and>
      take (Suc k) lg = take (Suc k) (G (le_term (lg ! k)))"
    and g: "logs_grow G G'" and k: "k < length lg"
  obtain xs where "G' (le_term (lg ! k)) = G (le_term (lg ! k)) @ xs" using g unfolding logs_grow_def by blast
  then show "k < length (G' (le_term (lg ! k))) \<and> take (Suc k) lg = take (Suc k) (G' (le_term (lg ! k)))"
    using fits [rule_format, OF k] by auto
qed

lemma msg_inv_grow:
  assumes "msg_inv B G src dst m" "votes_grow B B'" "logs_grow G G'"
  shows "msg_inv B' G' src dst m"
proof (cases m)
  case (AppendEntries t l prev prev_t es commit)
  obtain xs where "G' t = G t @ xs" using assms(3) unfolding logs_grow_def by blast
  then show ?thesis using assms(1) AppendEntries by (auto simp: nth_append)
next
  case (AppendReply t ok m)
  obtain xs where "G' t = G t @ xs" using assms(3) unfolding logs_grow_def by blast
  then show ?thesis using assms(1) AppendReply by auto
qed (use assms in \<open>auto simp: votes_grow_def\<close>)

lemma node_inv_grow:
  assumes "node_inv ids L B G j n" "votes_grow B B'" "logs_grow G G'" "B' j = B j"
    and "rn_role n = LEADER \<Longrightarrow> G' (rn_term n) = G (rn_term n)"
    and "\<And>t. j \<in> set (L' t) \<longleftrightarrow> j \<in> set (L t)"
  shows "node_inv ids L' B' G' j n"
proof -
  have "log_fits G (rn_log n)" using assms(1) by (simp add: node_inv_def)
  then have "log_fits G' (rn_log n)" by (rule log_fits_grow [OF _ assms(3)])
  moreover have "\<forall>v \<in> set (rn_votes n). B' v (rn_term n) = Some j"
    if "\<forall>v \<in> set (rn_votes n). B v (rn_term n) = Some j"
    using that assms(2) unfolding votes_grow_def by blast
  ultimately show ?thesis using assms(1,4-6) by (simp add: node_inv_def)
qed

text \<open>One node changes, the histories may grow with it.\<close>

lemma raft_inv_update:
  assumes inv: "raft_inv ids B G rc" and i: "i \<in> ids"
    and grow: "votes_grow B B'" "logs_grow G G'" "\<And>v. v \<noteq> i \<Longrightarrow> B' v = B v"
    and leaders: "\<And>j. j \<in> ids \<Longrightarrow> j \<noteq> i \<Longrightarrow> rn_role (the_node j rc) = LEADER \<Longrightarrow>
        G' (rn_term (the_node j rc)) = G (rn_term (the_node j rc))"
      "\<And>t j. j \<noteq> i \<Longrightarrow> j \<in> set (leaders_of rc' t) \<longleftrightarrow> j \<in> set (leaders_of rc t)"
    and rc': "rc_nodes rc' = dict_set i n (rc_nodes rc)" "rc_inflight rc' = rc_inflight rc"
    and n: "node_inv ids (leaders_of rc') B' G' i n" and hist: "history_inv ids (leaders_of rc') B' G'"
  shows "raft_inv ids B' G' rc'"
proof -
  have keys: "set (dict_keys (rc_nodes rc')) = ids"
    using inv i unfolding raft_inv_def rc' dict_keys_set by blast
  have "node_inv ids (leaders_of rc') B' G' j (the_node j rc')" if j: "j \<in> ids" for j
  proof (cases "j = i")
    case True
    then show ?thesis using n by (simp add: the_node_def rc')
  next
    case False
    have "node_inv ids (leaders_of rc) B G j (the_node j rc)" using inv j by (simp add: raft_inv_def)
    from node_inv_grow [OF this grow(1,2) grow(3) [OF False] leaders(1) [OF j False] leaders(2) [OF False]]
    show ?thesis using False by (simp add: the_node_def rc')
  qed
  moreover have "\<forall>e \<in> set (rc_inflight rc'). ev_src e \<in> ids \<and> ev_dst e \<in> ids \<and> ev_src e \<noteq> ev_dst e \<and>
        msg_inv B' G' (ev_src e) (ev_dst e) (ev_payload e)"
    using inv msg_inv_grow [OF _ grow(1,2)] by (simp add: raft_inv_def rc'(2))
  ultimately show ?thesis using keys hist by (simp add: raft_inv_def)
qed

lemma raft_inv_cong:
  "rc_nodes rc' = rc_nodes rc \<Longrightarrow> set (rc_inflight rc') \<subseteq> set (rc_inflight rc) \<Longrightarrow> leaders_of rc' = leaders_of rc \<Longrightarrow>
     raft_inv ids B G rc \<Longrightarrow> raft_inv ids B G rc'"
  by (auto simp: raft_inv_def the_node_def)

lemma raft_inv_send:
  assumes "raft_inv ids B G rc" "src \<in> ids" "dst \<in> ids" "src \<noteq> dst" "msg_inv B G src dst m"
  shows "raft_inv ids B G (rc_send draw src dst m rc)"
proof -
  have "\<forall>e \<in> set (rc_inflight (rc_send draw src dst m rc)). ev_src e \<in> ids \<and> ev_dst e \<in> ids \<and> ev_src e \<noteq> ev_dst e \<and>
      msg_inv B G (ev_src e) (ev_dst e) (ev_payload e)"
  proof
    fix e assume "e \<in> set (rc_inflight (rc_send draw src dst m rc))"
    from sent_envelope [OF this] show "ev_src e \<in> ids \<and> ev_dst e \<in> ids \<and> ev_src e \<noteq> ev_dst e \<and>
      msg_inv B G (ev_src e) (ev_dst e) (ev_payload e)"
      using assms by (auto simp: raft_inv_def)
  qed
  then show ?thesis using assms(1) by (simp add: raft_inv_def raft_simps)
qed

lemma raft_inv_log_event: "raft_inv ids B G rc \<Longrightarrow> raft_inv ids B G (rc_log_event s rc)"
  by (rule raft_inv_cong) (simp_all add: raft_simps)

text \<open>A change of the timers, the leader hint, the commit index or the power of a node.\<close>

definition same_state :: "raft_node \<Rightarrow> raft_node \<Rightarrow> bool" where
  "same_state n n' \<longleftrightarrow> rn_id n' = rn_id n \<and> rn_peers n' = rn_peers n \<and> rn_term n' = rn_term n \<and>
     rn_voted_for n' = rn_voted_for n \<and> rn_log n' = rn_log n \<and> rn_role n' = rn_role n \<and> rn_votes n' = rn_votes n \<and>
     rn_next_index n' = rn_next_index n \<and> rn_match_index n' = rn_match_index n"

lemma raft_inv_node: "raft_inv ids B G rc \<Longrightarrow> i \<in> ids \<Longrightarrow> node_inv ids (leaders_of rc) B G i (the_node i rc)"
  by (simp add: raft_inv_def)

lemma raft_inv_set_node:
  assumes "raft_inv ids B G rc" "i \<in> ids" "node_inv ids (leaders_of rc) B G i n"
  shows "raft_inv ids B G (set_node i n rc)"
  by (rule raft_inv_update [OF assms(1,2), where n = n])
    (use assms in \<open>simp_all add: raft_simps raft_inv_def\<close>)

lemma node_inv_same:
  assumes "node_inv ids L B G i n" "same_state n n'"
  shows "node_inv ids L B G i n'"
proof -
  have "indices_ok n' = indices_ok n" using assms(2) by (simp add: same_state_def indices_ok_def last_log_index_def)
  with assms show ?thesis by (simp add: node_inv_def same_state_def)
qed

lemma raft_inv_touch:
  assumes "raft_inv ids B G rc" "i \<in> ids" "same_state (the_node i rc) n"
  shows "raft_inv ids B G (set_node i n rc)"
  by (rule raft_inv_set_node [OF assms(1,2) node_inv_same [OF raft_inv_node [OF assms(1,2)] assms(3)]])

lemma reset_timer_node:
  "\<exists>x. the_node i (reset_election_timer draw i rc) = (the_node i rc)\<lparr>rn_election_deadline := x\<rparr>"
  by (simp add: reset_election_timer_def case_prod_unfold raft_simps) blast

lemma raft_inv_reset_timer:
  assumes "raft_inv ids B G rc" "i \<in> ids"
  shows "raft_inv ids B G (reset_election_timer draw i rc)"
proof -
  have "raft_inv ids B G (snd (random_election_timeout draw rc))"
    by (rule raft_inv_cong [OF _ _ _ assms(1)]) (simp_all add: raft_simps)
  then show ?thesis
    unfolding reset_election_timer_def case_prod_unfold
    by (intro raft_inv_touch assms(2)) (simp_all add: same_state_def)
qed

section \<open>Sending the log\<close>

definition leading :: "string set \<Rightarrow> ballots \<Rightarrow> leader_logs \<Rightarrow> string \<Rightarrow> raft_node \<Rightarrow> raft_cluster \<Rightarrow> bool" where
  "leading ids B G i n rc \<longleftrightarrow> raft_inv ids B G rc \<and> the_node i rc = n \<and> i \<in> ids \<and> rn_role n = LEADER"

lemma leading_node: "leading ids B G i n rc \<Longrightarrow> node_inv ids (leaders_of rc) B G i n"
  using raft_inv_node by (auto simp: leading_def)

lemma send_append_leading:
  assumes "leading ids B G i n rc" "p \<in> set (rn_peers n)"
  shows "leading ids B G i n (send_append draw i p rc)"
proof -
  have n: "rn_log n = G (rn_term n)" "indices_ok n" "set (rn_peers n) = ids - {i}"
    using leading_node [OF assms(1)] assms(1) by (simp_all add: node_inv_def leading_def)
  from n(2) assms(2) obtain nx where nx: "dict_get (rn_next_index n) p = Some nx" "1 \<le> nx"
    "nx \<le> int (length (rn_log n)) + 1" unfolding indices_ok_def last_log_index_def by blast
  define m where "m = AppendEntries (rn_term n) i (nx - 1)
      (if 0 < nx - 1 then le_term (rn_log n ! nat (nx - 1 - 1)) else 0) (drop (nat (nx - 1)) (rn_log n)) (rn_commit_index n)"
  have m: "msg_inv B G i p m" using nx(2,3) by (simp add: m_def n(1))
  have rc: "the_node i rc = n" "raft_inv ids B G rc" "i \<in> ids" "rn_role n = LEADER" using assms(1) by (simp_all add: leading_def)
  have eq: "send_append draw i p rc = rc_send draw i p m rc"
    by (simp add: send_append_def Let_def rc(1) nx(1) m_def)
  have "p \<in> ids" "i \<noteq> p" using assms(2) n(3) by auto
  then have "raft_inv ids B G (rc_send draw i p m rc)" by (intro raft_inv_send rc(2,3) m)
  then show ?thesis using rc by (simp add: leading_def eq raft_simps)
qed

lemma broadcast_leading:
  assumes "leading ids B G i n rc"
  shows "leading ids B G i (n\<lparr>rn_heartbeat_due := rc_now_ms rc + rc_heartbeat_ms rc\<rparr>) (broadcast_append draw i rc)"
proof -
  let ?n = "n\<lparr>rn_heartbeat_due := rc_now_ms rc + rc_heartbeat_ms rc\<rparr>"
  have rc: "the_node i rc = n" "raft_inv ids B G rc" "i \<in> ids" "rn_role n = LEADER"
    using assms by (simp_all add: leading_def)
  have start: "leading ids B G i ?n (set_node i ?n rc)"
    using rc raft_inv_touch [OF rc(2,3), of ?n] by (simp add: leading_def raft_simps same_state_def)
  have "leading ids B G i ?n (fold (send_append draw i) ps rc')"
    if "leading ids B G i ?n rc'" "set ps \<subseteq> set (rn_peers ?n)" for ps rc'
    using that
  proof (induction ps arbitrary: rc')
    case (Cons p ps)
    have "leading ids B G i ?n (send_append draw i p rc')"
      by (rule send_append_leading [OF Cons.prems(1)]) (use Cons.prems(2) in simp)
    then show ?case using Cons.IH Cons.prems(2) by simp
  qed simp
  from this [OF start order_refl] show ?thesis
    by (simp add: broadcast_append_def Let_def rc(1) raft_simps)
qed

lemma broadcast_inv:
  "raft_inv ids B G rc \<Longrightarrow> i \<in> ids \<Longrightarrow> rn_role (the_node i rc) = LEADER \<Longrightarrow> raft_inv ids B G (broadcast_append draw i rc)"
  using broadcast_leading [of ids B G i "the_node i rc" rc draw] by (simp add: leading_def)

section \<open>Elections\<close>

lemma become_follower_node:
  "the_node i (become_follower i t rc) =
     (let n = the_node i rc in (if rn_term n < t then n\<lparr>rn_term := t, rn_voted_for := None\<rparr> else n)\<lparr>rn_role := FOLLOWER, rn_leader_id := None\<rparr>)"
  by (simp add: become_follower_def Let_def raft_simps)

lemma become_follower_inv:
  assumes "raft_inv ids B G rc" "i \<in> ids"
  shows "raft_inv ids B G (become_follower i t rc)"
proof -
  let ?n = "the_node i rc"
  have n: "node_inv ids (leaders_of rc) B G i ?n" by (rule raft_inv_node [OF assms])
  have "B i t = None" if "rn_term ?n < t"
    using n that unfolding node_inv_def by (metis linorder_not_le not_None_eq)
  moreover have "t' \<le> t" if "rn_term ?n < t" "t' \<le> rn_term ?n" for t' using that by simp
  ultimately have n': "node_inv ids (leaders_of rc) B G i
      ((if rn_term ?n < t then ?n\<lparr>rn_term := t, rn_voted_for := None\<rparr> else ?n)\<lparr>rn_role := FOLLOWER, rn_leader_id := None\<rparr>)"
    using n by (auto simp: node_inv_def intro: order_trans less_imp_le)
  show ?thesis
    unfolding become_follower_def Let_def
    by (intro raft_inv_set_node assms(2)) (use n' assms raft_inv_log_event in \<open>simp_all add: raft_simps\<close>)
qed

lemma handle_request_vote_inv:
  assumes "raft_inv ids B G rc" "i \<in> ids" "c \<in> ids" "c \<noteq> i"
    and "handle_request_vote draw i t c li lt rc = (reply, rc')"
  shows "\<exists>B'. raft_inv ids B' G rc' \<and> votes_grow B B' \<and> msg_inv B' G i c reply"
proof -
  let ?n = "the_node i rc"
  have n: "node_inv ids (leaders_of rc) B G i ?n" by (rule raft_inv_node [OF assms(1,2)])
  define grant where "grant \<longleftrightarrow> t = rn_term ?n \<and> rn_voted_for ?n \<in> {None, Some c} \<and>
    (last_log_term ?n, last_log_index ?n) \<le> (lt, li)"
  have res: "reply = VoteReply (rn_term ?n) grant"
    "rc' = (if grant then reset_election_timer draw i (set_node i (?n\<lparr>rn_voted_for := Some c\<rparr>) rc) else rc)"
    using assms(5) by (simp_all add: handle_request_vote_def Let_def grant_def)
  show ?thesis
  proof (cases grant)
    case False
    then show ?thesis using assms(1) res by (intro exI [of _ B]) simp
  next
    case True
    then have old: "B i (rn_term ?n) \<in> {None, Some c}" using n by (simp add: grant_def node_inv_def)
    define B' where "B' = B(i := (B i)(rn_term ?n := Some c))"
    have grow: "votes_grow B B'" using old by (auto simp: votes_grow_def B'_def)
    have own: "\<forall>v \<in> set (rn_votes ?n). B' v (rn_term ?n) = Some i"
      if "\<forall>v \<in> set (rn_votes ?n). B v (rn_term ?n) = Some i"
      using that grow unfolding votes_grow_def by blast
    have n': "node_inv ids (leaders_of rc) B' G i (?n\<lparr>rn_voted_for := Some c\<rparr>)"
    proof -
      have "\<forall>t c. B' i t = Some c \<longrightarrow> t \<le> rn_term ?n" using n by (auto simp: node_inv_def B'_def)
      moreover have "B' i (rn_term ?n) = Some c" by (simp add: B'_def)
      moreover have "indices_ok (?n\<lparr>rn_voted_for := Some c\<rparr>) = indices_ok ?n"
        by (simp add: indices_ok_def last_log_index_def)
      ultimately show ?thesis using n own by (simp add: node_inv_def)
    qed
    have hist: "history_inv ids (leaders_of rc) B' G"
    proof -
      have "\<exists>Q. Q \<subseteq> ids \<and> card ids < 2 * card Q \<and> (\<forall>v \<in> Q. B' v t = Some l)" if "l \<in> set (leaders_of rc t)" for t l
      proof -
        from assms(1) that obtain Q where "Q \<subseteq> ids" "card ids < 2 * card Q" "\<forall>v \<in> Q. B v t = Some l"
          unfolding raft_inv_def history_inv_def by blast
        then show ?thesis using grow unfolding votes_grow_def by blast
      qed
      then show ?thesis using assms(1) unfolding raft_inv_def history_inv_def by blast
    qed
    have "raft_inv ids B' G (set_node i (?n\<lparr>rn_voted_for := Some c\<rparr>) rc)"
      by (rule raft_inv_update [OF assms(1,2) grow])
        (use n' hist in \<open>simp_all add: raft_simps B'_def\<close>)
    then have "raft_inv ids B' G rc'" using res True by (simp add: raft_inv_reset_timer [OF _ assms(2)])
    moreover have "msg_inv B' G i c reply" by (simp add: res B'_def)
    ultimately show ?thesis using grow by blast
  qed
qed

lemma majorities_meet:
  assumes "finite ids" "P \<subseteq> ids" "Q \<subseteq> ids" "card ids < 2 * card P" "card ids < 2 * card Q"
  shows "\<exists>v. v \<in> P \<and> v \<in> Q"
proof (rule ccontr)
  assume "\<not> (\<exists>v. v \<in> P \<and> v \<in> Q)"
  then have "P \<inter> Q = {}" by blast
  then have "card P + card Q = card (P \<union> Q)"
    using assms(1-3) by (metis card_Un_disjoint finite_subset)
  also have "\<dots> \<le> card ids" using assms(1-3) by (intro card_mono) auto
  finally show False using assms(4,5) by simp
qed

text \<open>A candidate with a majority is the first and only leader of its term.\<close>

lemma maybe_become_leader_inv:
  assumes inv: "raft_inv ids B G rc" and i: "i \<in> ids" and cand: "rn_role (the_node i rc) = CANDIDATE"
  shows "\<exists>G'. raft_inv ids B G' (maybe_become_leader draw i rc) \<and> logs_grow G G'"
proof -
  let ?n = "the_node i rc"
  let ?t = "rn_term ?n"
  have n: "node_inv ids (leaders_of rc) B G i ?n" by (rule raft_inv_node [OF inv i])
  have h: "finite ids" "\<forall>t. log_fits G (G t)" "\<forall>t. leaders_of rc t = [] \<longrightarrow> G t = []"
    "\<forall>t. length (leaders_of rc t) \<le> 1"
    "\<forall>t. \<forall>c \<in> set (leaders_of rc t). \<exists>Q. Q \<subseteq> ids \<and> card ids < 2 * card Q \<and> (\<forall>v \<in> Q. B v t = Some c)"
    using inv by (simp_all add: raft_inv_def history_inv_def)
  show ?thesis
  proof (cases "int (length (rn_votes ?n)) < majority ?n")
    case True
    then show ?thesis using inv by (intro exI [of _ G]) (simp add: maybe_become_leader_def)
  next
    case False
    have votes: "distinct (rn_votes ?n)" "set (rn_votes ?n) \<subseteq> ids" "\<forall>v \<in> set (rn_votes ?n). B v ?t = Some i"
      "i \<notin> set (leaders_of rc ?t)"
      using n cand by (simp_all add: node_inv_def)
    have "length (rn_peers ?n) + 1 = card ids"
    proof -
      have "distinct (rn_peers ?n)" "set (rn_peers ?n) = ids - {i}" using n by (simp_all add: node_inv_def)
      then have "length (rn_peers ?n) = card (ids - {i})" by (metis distinct_card)
      then show ?thesis using card_Suc_Diff1 [OF h(1) i] by simp
    qed
    then have most: "card ids < 2 * card (set (rn_votes ?n))"
      using False by (simp add: majority_def distinct_card [OF votes(1)])
    have none: "leaders_of rc ?t = []"
    proof (rule ccontr)
      assume "leaders_of rc ?t \<noteq> []"
      then obtain c where c: "c \<in> set (leaders_of rc ?t)" by (cases "leaders_of rc ?t") auto
      with h(5) obtain Q where Q: "Q \<subseteq> ids" "card ids < 2 * card Q" "\<forall>v \<in> Q. B v ?t = Some c" by blast
      obtain v where "v \<in> Q" "v \<in> set (rn_votes ?n)" using majorities_meet [OF h(1) Q(1) votes(2) Q(2) most] by blast
      then have "c = i" using Q(3) votes(3) by force
      then show False using c votes(4) by simp
    qed
    then have empty: "G ?t = []" using h(3) by blast
    define G' where "G' = G(?t := rn_log ?n)"
    have grow: "logs_grow G G'" using empty by (simp add: logs_grow_def G'_def)
    define m where "m = ?n\<lparr>rn_role := LEADER, rn_leader_id := Some i,
       rn_next_index := map (\<lambda>p. (p, last_log_index ?n + 1)) (rn_peers ?n), rn_match_index := map (\<lambda>p. (p, 0)) (rn_peers ?n)\<rparr>"
    define rc2 where "rc2 = rc_record_leader ?t i (sort (rn_votes ?n)) (set_node i m rc)"
    have L: "leaders_of rc2 = (leaders_of rc)(?t := [i])" by (simp add: rc2_def raft_simps none)
    have key: "dict_get (map (\<lambda>p. (p, x)) ps) p = Some x" if "p \<in> set ps" for p ps and x :: int
      using that by (induction ps) auto
    have "log_fits G' (rn_log ?n)" using n log_fits_grow [OF _ grow] by (simp add: node_inv_def)
    moreover have "indices_ok m" by (simp add: indices_ok_def m_def key last_log_index_def)
    ultimately have m: "node_inv ids (leaders_of rc2) B G' i m"
      using n votes(1-3) by (auto simp: node_inv_def L m_def G'_def split: if_splits)
    have hist: "history_inv ids (leaders_of rc2) B G'"
    proof -
      have "log_fits G' (G' t)" for t
        using h(2) log_fits_grow [OF _ grow] \<open>log_fits G' (rn_log ?n)\<close> by (simp add: G'_def)
      moreover have "\<exists>Q. Q \<subseteq> ids \<and> card ids < 2 * card Q \<and> (\<forall>v \<in> Q. B v t = Some c)" if "c \<in> set (leaders_of rc2 t)" for t c
      proof (cases "t = ?t")
        case True
        then have "c = i" using that by (simp add: L)
        then show ?thesis using most votes(2,3) True by (intro exI [of _ "set (rn_votes ?n)"]) simp
      next
        case False
        then show ?thesis using h(5) that by (simp add: L)
      qed
      ultimately show ?thesis using h by (simp add: history_inv_def L G'_def)
    qed
    have others: "G' (rn_term (the_node j rc)) = G (rn_term (the_node j rc))"
      if "j \<in> ids" "rn_role (the_node j rc) = LEADER" for j
    proof -
      have "j \<in> set (leaders_of rc (rn_term (the_node j rc)))"
        using raft_inv_node [OF inv that(1)] that(2) by (simp add: node_inv_def)
      then have "rn_term (the_node j rc) \<noteq> ?t" using none by auto
      then show ?thesis by (simp add: G'_def)
    qed
    have "raft_inv ids B G' rc2"
      by (rule raft_inv_update [OF inv i _ grow, where n = m])
        (use m hist others in \<open>simp_all add: L\<close>, auto simp: rc2_def raft_simps none)
    moreover have "rn_role (the_node i rc2) = LEADER" by (simp add: rc2_def raft_simps m_def)
    ultimately have "raft_inv ids B G' (broadcast_append draw i rc2)" by (rule broadcast_inv [OF _ i])
    moreover have "maybe_become_leader draw i rc = broadcast_append draw i rc2"
      using False by (simp add: maybe_become_leader_def Let_def rc2_def m_def)
    ultimately show ?thesis using grow by auto
  qed
qed

lemma fold_send_request:
  assumes "raft_inv ids B G rc" "i \<in> ids" "set ps \<subseteq> ids - {i}"
  shows "raft_inv ids B G (fold (\<lambda>p. rc_send draw i p (RequestVote t i li lt)) ps rc) \<and>
    the_node i (fold (\<lambda>p. rc_send draw i p (RequestVote t i li lt)) ps rc) = the_node i rc"
  using assms
proof (induction ps arbitrary: rc)
  case (Cons p ps)
  have "raft_inv ids B G (rc_send draw i p (RequestVote t i li lt) rc)"
    by (rule raft_inv_send) (use Cons.prems in auto)
  with Cons.IH [OF this] Cons.prems show ?case by (simp add: raft_simps)
qed simp

lemma start_election_inv:
  assumes inv: "raft_inv ids B G rc" and i: "i \<in> ids"
  shows "\<exists>B' G'. raft_inv ids B' G' (start_election draw i rc) \<and> votes_grow B B' \<and> logs_grow G G'"
proof -
  let ?n = "the_node i rc"
  define n1 where "n1 = ?n\<lparr>rn_term := rn_term ?n + 1, rn_role := CANDIDATE, rn_voted_for := Some i,
                              rn_leader_id := None, rn_votes := [i]\<rparr>"
  have n: "node_inv ids (leaders_of rc) B G i ?n" by (rule raft_inv_node [OF inv i])
  have unused: "B i (rn_term ?n + 1) = None"
  proof (rule ccontr)
    assume "B i (rn_term ?n + 1) \<noteq> None"
    then obtain c where "B i (rn_term ?n + 1) = Some c" by auto
    with n have "rn_term ?n + 1 \<le> rn_term ?n" unfolding node_inv_def by blast
    then show False by simp
  qed
  define B' where "B' = B(i := (B i)(rn_term ?n + 1 := Some i))"
  have grow: "votes_grow B B'" using unused by (auto simp: votes_grow_def B'_def)
  have past: "t \<le> rn_term ?n" if "B i t = Some c" for t c using n that unfolding node_inv_def by blast
  have bound: "t \<le> rn_term ?n + 1" if "B' i t = Some c" for t c
    using that past [of t c] by (cases "t = rn_term ?n + 1") (simp_all add: B'_def)
  have "t \<le> rn_term ?n" if "i \<in> set (leaders_of rc t)" for t using n that unfolding node_inv_def by blast
  then have mine: "t \<le> rn_term ?n + 1" "t \<noteq> rn_term ?n + 1" if "i \<in> set (leaders_of rc t)" for t
    using that by fastforce+
  have n1: "node_inv ids (leaders_of rc) B' G i n1"
    using n bound mine i by (auto simp: node_inv_def n1_def B'_def)
  have hist: "history_inv ids (leaders_of rc) B' G"
  proof -
    have "\<exists>Q. Q \<subseteq> ids \<and> card ids < 2 * card Q \<and> (\<forall>v \<in> Q. B' v t = Some l)" if "l \<in> set (leaders_of rc t)" for t l
    proof -
      from inv that obtain Q where "Q \<subseteq> ids" "card ids < 2 * card Q" "\<forall>v \<in> Q. B v t = Some l"
        unfolding raft_inv_def history_inv_def by blast
      then show ?thesis using grow unfolding votes_grow_def by blast
    qed
    then show ?thesis using inv unfolding raft_inv_def history_inv_def by blast
  qed
  define rc2 where "rc2 = reset_election_timer draw i (set_node i n1 rc)"
  have "raft_inv ids B' G (set_node i n1 rc)"
    by (rule raft_inv_update [OF inv i grow]) (use n1 hist in \<open>simp_all add: raft_simps B'_def\<close>)
  then have rc2: "raft_inv ids B' G rc2" unfolding rc2_def by (rule raft_inv_reset_timer [OF _ i])
  obtain x where "the_node i rc2 = (the_node i (set_node i n1 rc))\<lparr>rn_election_deadline := x\<rparr>"
    unfolding rc2_def using reset_timer_node by blast
  then have n2: "rn_role (the_node i rc2) = CANDIDATE" by (simp add: raft_simps n1_def)
  have n2': "set (rn_peers (the_node i rc2)) = ids - {i}"
    using raft_inv_node [OF rc2 i] by (simp add: node_inv_def)
  define rc3 where "rc3 = rc_log_event (i @ '' election timeout, candidate in term '' @ str_of_int (rn_term (the_node i rc2))) rc2"
  define rc4 where "rc4 = fold (\<lambda>p. rc_send draw i p (RequestVote (rn_term (the_node i rc2)) i
      (last_log_index (the_node i rc2)) (last_log_term (the_node i rc2)))) (rn_peers (the_node i rc2)) rc3"
  have "raft_inv ids B' G rc3" unfolding rc3_def by (rule raft_inv_log_event [OF rc2])
  then have "raft_inv ids B' G rc4 \<and> the_node i rc4 = the_node i rc3"
    unfolding rc4_def by (rule fold_send_request [OF _ i]) (simp add: n2')
  moreover have "the_node i rc3 = the_node i rc2" by (simp add: rc3_def raft_simps)
  ultimately obtain G' where "raft_inv ids B' G' (maybe_become_leader draw i rc4)" "logs_grow G G'"
    using maybe_become_leader_inv [of ids B' G rc4 i draw] i n2 by auto
  moreover have "start_election draw i rc = maybe_become_leader draw i rc4"
    by (simp add: start_election_def Let_def rc4_def rc3_def rc2_def n1_def)
  ultimately show ?thesis using grow by auto
qed

lemma handle_vote_reply_inv:
  assumes inv: "raft_inv ids B G rc" and i: "i \<in> ids" and src: "src \<in> ids" "msg_inv B G src i (VoteReply t ok)"
  shows "\<exists>G'. raft_inv ids B G' (handle_vote_reply draw i src t ok rc) \<and> logs_grow G G'"
proof -
  let ?n = "the_node i rc"
  show ?thesis
  proof (cases "rn_role ?n = CANDIDATE \<and> t = rn_term ?n \<and> ok")
    case False
    then show ?thesis using inv by (intro exI [of _ G]) (auto simp: handle_vote_reply_def Let_def)
  next
    case True
    let ?m = "?n\<lparr>rn_votes := List.insert src (rn_votes ?n)\<rparr>"
    have "node_inv ids (leaders_of rc) B G i ?n" by (rule raft_inv_node [OF inv i])
    then have "node_inv ids (leaders_of rc) B G i ?m" using True src by (auto simp: node_inv_def)
    then have "raft_inv ids B G (set_node i ?m rc)" by (rule raft_inv_set_node [OF inv i])
    moreover have "rn_role (the_node i (set_node i ?m rc)) = CANDIDATE" using True by (simp add: raft_simps)
    ultimately have "\<exists>G'. raft_inv ids B G' (maybe_become_leader draw i (set_node i ?m rc)) \<and> logs_grow G G'"
      by (rule maybe_become_leader_inv [OF _ i])
    then show ?thesis using True by (simp add: handle_vote_reply_def Let_def)
  qed
qed

section \<open>Replication\<close>

lemma log_fits_take: "log_fits G lg \<Longrightarrow> log_fits G (take m lg)"
  by (auto simp: log_fits_def min_def)

lemma same_term_same_prefix:
  assumes "log_fits G l1" "log_fits G l2" "k < length l1" "k < length l2" "le_term (l1 ! k) = le_term (l2 ! k)"
  shows "take (Suc k) l1 = take (Suc k) l2"
  using assms unfolding log_fits_def by metis

lemma merge_entries_fits:
  assumes "log_fits G lg" "log_fits G ldr" "take p lg = take p ldr" "p \<le> length lg" "p + length es \<le> length ldr"
    and "es = take (length es) (drop p ldr)"
  shows "log_fits G (merge_entries p es lg)"
  using assms
proof (induction es arbitrary: p lg)
  case (Cons e es)
  have p: "p < length ldr" using Cons.prems(5) by simp
  have drop_p: "drop p ldr = ldr ! p # drop (Suc p) ldr" using p by (simp add: Cons_nth_drop_Suc)
  then have e: "e = ldr ! p" "es = take (length es) (drop (Suc p) ldr)" using Cons.prems(6) by simp_all
  have next_prefix: "take (Suc p) ldr = take p ldr @ [e]" using p e by (simp add: take_Suc_conv_app_nth)
  define lg' where "lg' = (let log1 = (if p < length lg \<and> le_term (lg ! p) \<noteq> le_term e then take p lg else lg)
      in if length log1 \<le> p then log1 @ [e] else log1)"
  have lg': "log_fits G lg'" "take (Suc p) lg' = take (Suc p) ldr" "Suc p \<le> length lg'"
  proof -
    consider "p < length lg" "le_term (lg ! p) = le_term e" | "p < length lg" "le_term (lg ! p) \<noteq> le_term e" | "length lg = p"
      using Cons.prems(4) by linarith
    then have "log_fits G lg' \<and> take (Suc p) lg' = take (Suc p) ldr \<and> Suc p \<le> length lg'"
    proof cases
      case 1
      then have "lg' = lg" by (simp add: lg'_def)
      then show ?thesis using 1 Cons.prems(1) same_term_same_prefix [OF Cons.prems(1,2) 1(1) p] e by simp
    next
      case 2
      then have "lg' = take (Suc p) ldr" using next_prefix Cons.prems(3) by (simp add: lg'_def)
      then show ?thesis using log_fits_take [OF Cons.prems(2)] p by simp
    next
      case 3
      then have "lg' = take (Suc p) ldr" using next_prefix Cons.prems(3) by (simp add: lg'_def)
      then show ?thesis using log_fits_take [OF Cons.prems(2)] p by simp
    qed
    then show "log_fits G lg'" "take (Suc p) lg' = take (Suc p) ldr" "Suc p \<le> length lg'" by blast+
  qed
  have "log_fits G (merge_entries (Suc p) es lg')"
    by (rule Cons.IH [OF lg'(1) Cons.prems(2) lg'(2,3) _ e(2)]) (use Cons.prems(5) in simp)
  then show ?case by (simp add: lg'_def Let_def)
qed simp

lemma handle_append_entries_inv:
  assumes inv: "raft_inv ids B G rc" and i: "i \<in> ids" and src: "src \<in> ids"
    and msg: "msg_inv B G src i (AppendEntries t l prev prev_t es commit)" and t: "t \<le> rn_term (the_node i rc)"
    and res: "handle_append_entries draw i t l prev prev_t es commit rc = (reply, rc')"
  shows "raft_inv ids B G rc' \<and> msg_inv B G i src reply"
proof (cases "t < rn_term (the_node i rc)")
  case True
  then show ?thesis using inv res by (auto simp: handle_append_entries_def)
next
  case False
  define rc2 where "rc2 = set_node i ((the_node i (become_follower i t rc))\<lparr>rn_leader_id := Some l\<rparr>) (become_follower i t rc)"
  define rc3 where "rc3 = reset_election_timer draw i rc2"
  define n where "n = the_node i rc3"
  have "raft_inv ids B G rc2"
    unfolding rc2_def by (intro raft_inv_touch become_follower_inv inv i) (simp add: same_state_def)
  then have inv3: "raft_inv ids B G rc3" unfolding rc3_def by (rule raft_inv_reset_timer [OF _ i])
  obtain x where "n = (the_node i rc2)\<lparr>rn_election_deadline := x\<rparr>"
    unfolding n_def rc3_def using reset_timer_node by blast
  then have role: "rn_role n = FOLLOWER" "rn_term n = t"
    using False t by (simp_all add: rc2_def raft_simps become_follower_node Let_def)
  have n: "node_inv ids (leaders_of rc3) B G i n" using raft_inv_node [OF inv3 i] by (simp add: n_def)
  define bad where "bad \<longleftrightarrow> last_log_index n < prev \<or> (0 < prev \<and> le_term (rn_log n ! nat (prev - 1)) \<noteq> prev_t)"
  define m where "m = n\<lparr>rn_log := merge_entries (nat prev) es (rn_log n), rn_commit_index :=
     (if rn_commit_index n < commit then max (rn_commit_index n) (min commit (prev + int (length es))) else rn_commit_index n)\<rparr>"
  have res': "(if bad then (AppendReply (rn_term n) False 0, rc3)
      else (AppendReply (rn_term n) True (prev + int (length es)), set_node i m rc3)) = (reply, rc')"
    using res unfolding handle_append_entries_def Let_def bad_def m_def n_def rc3_def rc2_def
    by (simp only: False if_False)
  show ?thesis
  proof (cases bad)
    case True
    then show ?thesis using res' inv3 by auto
  next
    case False
    have fits: "log_fits G (rn_log n)" "log_fits G (G t)"
      using n inv unfolding node_inv_def raft_inv_def history_inv_def by blast+
    have prev: "0 \<le> prev" "nat prev \<le> length (rn_log n)" "nat prev + length es \<le> length (G t)"
      "es = take (length es) (drop (nat prev) (G t))"
      using msg False by (simp_all add: bad_def last_log_index_def nat_le_iff)
    have "take (nat prev) (rn_log n) = take (nat prev) (G t)"
    proof (cases "0 < prev")
      case True
      have "take (Suc (nat (prev - 1))) (rn_log n) = take (Suc (nat (prev - 1))) (G t)"
        by (rule same_term_same_prefix [OF fits]) (use True False msg prev in \<open>auto simp: bad_def\<close>)
      moreover have "Suc (nat (prev - 1)) = nat prev" using True by simp
      ultimately show ?thesis by simp
    next
      case False
      then show ?thesis using prev(1) by simp
    qed
    then have "log_fits G (rn_log m)"
      unfolding m_def using merge_entries_fits [OF fits _ prev(2,3,4)] by simp
    then have "node_inv ids (leaders_of rc3) B G i m" using n role by (simp add: node_inv_def m_def)
    then have "raft_inv ids B G (set_node i m rc3)" by (rule raft_inv_set_node [OF inv3 i])
    moreover have "msg_inv B G i src (AppendReply (rn_term n) True (prev + int (length es)))"
      using prev role by simp
    ultimately show ?thesis using res' False by auto
  qed
qed

lemma advance_commit_same: "same_state n (advance_commit_index n)"
  by (simp add: advance_commit_index_def same_state_def split: option.splits)

lemma handle_append_reply_inv:
  assumes inv: "raft_inv ids B G rc" and i: "i \<in> ids" and src: "src \<in> ids" "src \<noteq> i"
    and msg: "msg_inv B G src i (AppendReply t ok m)"
  shows "raft_inv ids B G (handle_append_reply draw i src t ok m rc)"
proof -
  let ?n = "the_node i rc"
  have n: "node_inv ids (leaders_of rc) B G i ?n" by (rule raft_inv_node [OF inv i])
  show ?thesis
  proof (cases "rn_role ?n \<noteq> LEADER \<or> t \<noteq> rn_term ?n")
    case True
    then show ?thesis using inv by (auto simp: handle_append_reply_def Let_def)
  next
    case False
    then have lead: "rn_role ?n = LEADER" "t = rn_term ?n" "rn_log ?n = G t" "indices_ok ?n"
      "src \<in> set (rn_peers ?n)" using n src by (auto simp: node_inv_def)
    then obtain nx mt where src_at: "dict_get (rn_next_index ?n) src = Some nx" "dict_get (rn_match_index ?n) src = Some mt"
      "1 \<le> nx" "nx \<le> last_log_index ?n + 1" "0 \<le> mt" "mt \<le> last_log_index ?n" unfolding indices_ok_def by blast
    show ?thesis
    proof (cases ok)
      case True
      let ?k = "max mt m"
      let ?m = "?n\<lparr>rn_match_index := dict_set src ?k (rn_match_index ?n), rn_next_index := dict_set src (?k + 1) (rn_next_index ?n)\<rparr>"
      have "m \<le> last_log_index ?n" using msg True lead by (simp add: last_log_index_def)
      then have "indices_ok ?m" using lead(4) src_at by (auto simp: indices_ok_def last_log_index_def)
      then have "node_inv ids (leaders_of rc) B G i ?m" using n by (simp add: node_inv_def)
      from node_inv_same [OF this advance_commit_same] show ?thesis
        using False True src_at(2) raft_inv_set_node [OF inv i] by (simp add: handle_append_reply_def Let_def)
    next
      case no: False
      let ?m = "?n\<lparr>rn_next_index := dict_set src (max 1 (nx - 1)) (rn_next_index ?n)\<rparr>"
      have "indices_ok ?m" using lead(4) src_at by (auto simp: indices_ok_def last_log_index_def)
      then have "node_inv ids (leaders_of rc) B G i ?m" using n by (simp add: node_inv_def)
      then have "raft_inv ids B G (set_node i ?m rc)" by (rule raft_inv_set_node [OF inv i])
      then have "leading ids B G i ?m (set_node i ?m rc)" using i lead(1) by (simp add: leading_def raft_simps)
      then have "leading ids B G i ?m (send_append draw i src (set_node i ?m rc))"
        by (rule send_append_leading) (use lead(5) in simp)
      then show ?thesis using False no src_at(1) by (simp add: handle_append_reply_def Let_def leading_def)
    qed
  qed
qed

lemma node_submit_inv:
  assumes inv: "raft_inv ids B G rc" and i: "i \<in> ids" and res: "node_submit draw i command rc = (res, rc')"
  shows "\<exists>G'. raft_inv ids B G' rc' \<and> logs_grow G G'"
proof (cases "rn_role (the_node i rc) = LEADER")
  case False
  then show ?thesis using inv res by (intro exI [of _ G]) (auto simp: node_submit_def Let_def)
next
  case True
  let ?n = "the_node i rc"
  let ?t = "rn_term ?n" and ?e = "\<lparr>le_term = rn_term ?n, le_command = command\<rparr>"
  let ?m = "?n\<lparr>rn_log := rn_log ?n @ [?e]\<rparr>"
  have n: "node_inv ids (leaders_of rc) B G i ?n" by (rule raft_inv_node [OF inv i])
  with True have lead: "rn_log ?n = G ?t" "i \<in> set (leaders_of rc ?t)" "indices_ok ?n" by (simp_all add: node_inv_def)
  define G' where "G' = G(?t := rn_log ?n @ [?e])"
  have grow: "logs_grow G G'" using lead(1) by (simp add: logs_grow_def G'_def)
  have h: "history_inv ids (leaders_of rc) B G" using inv by (simp add: raft_inv_def)
  have fits: "log_fits G' (G' t)" for t
  proof (cases "t = ?t")
    case False
    then show ?thesis using h log_fits_grow [OF _ grow, of "G t"] by (simp add: history_inv_def G'_def)
  next
    case True
    have old: "log_fits G' (rn_log ?n)" using n log_fits_grow [OF _ grow] by (simp add: node_inv_def)
    show ?thesis
      unfolding log_fits_def
    proof (intro allI impI)
      fix k assume k: "k < length (G' t)"
      show "k < length (G' (le_term (G' t ! k))) \<and> take (Suc k) (G' t) = take (Suc k) (G' (le_term (G' t ! k)))"
      proof (cases "k < length (rn_log ?n)")
        case True
        then show ?thesis using old \<open>t = ?t\<close> unfolding log_fits_def by (simp add: G'_def nth_append)
      next
        case False
        then have "k = length (rn_log ?n)" using k \<open>t = ?t\<close> by (simp add: G'_def)
        then show ?thesis using \<open>t = ?t\<close> by (simp add: G'_def)
      qed
    qed
  qed
  have only: "leaders_of rc ?t = [i]"
    using h lead(2) unfolding history_inv_def
    by (cases "leaders_of rc ?t") (auto simp: le_Suc_eq dest: spec [of _ ?t])
  have others: "G' (rn_term (the_node j rc)) = G (rn_term (the_node j rc))"
    if "j \<in> ids" "j \<noteq> i" "rn_role (the_node j rc) = LEADER" for j
  proof -
    have "j \<in> set (leaders_of rc (rn_term (the_node j rc)))"
      using raft_inv_node [OF inv that(1)] that(3) by (simp add: node_inv_def)
    then have "rn_term (the_node j rc) \<noteq> ?t" using only that(2) by auto
    then show ?thesis by (simp add: G'_def)
  qed
  have "indices_ok ?m" using lead(3) by (fastforce simp: indices_ok_def last_log_index_def)
  moreover have "log_fits G' (rn_log ?n @ [?e])" using fits [of ?t] by (simp add: G'_def)
  ultimately have m: "node_inv ids (leaders_of rc) B G' i ?m" using n True by (simp add: node_inv_def G'_def)
  have hist: "history_inv ids (leaders_of rc) B G'"
    using h fits only unfolding history_inv_def by (auto simp: G'_def)
  have "raft_inv ids B G' (set_node i ?m rc)"
    by (rule raft_inv_update [OF inv i _ grow, where n = ?m]) (use m hist others in \<open>simp_all add: raft_simps\<close>)
  moreover have "rn_role (the_node i (set_node i ?m rc)) = LEADER" using True by (simp add: raft_simps)
  ultimately have "raft_inv ids B G' (broadcast_append draw i (set_node i ?m rc))" by (rule broadcast_inv [OF _ i])
  moreover have "rc' = broadcast_append draw i (set_node i ?m rc)"
    using res True by (simp add: node_submit_def Let_def)
  ultimately show ?thesis using grow by blast
qed

section \<open>Every operation keeps the invariant\<close>

definition raft_safe :: "string set \<Rightarrow> raft_cluster \<Rightarrow> bool" where
  "raft_safe ids rc \<longleftrightarrow> (\<exists>B G. raft_inv ids B G rc)"

lemma raft_safeI: "raft_inv ids B G rc \<Longrightarrow> raft_safe ids rc"
  unfolding raft_safe_def by blast

lemma on_message_inv:
  assumes inv: "raft_inv ids B G rc" and i: "i \<in> ids" and src: "src \<in> ids" "src \<noteq> i"
    and msg: "msg_inv B G src i m"
  shows "raft_safe ids (snd (on_message draw i src m rc))"
proof (cases "rn_alive (the_node i rc)")
  case False
  then show ?thesis using inv by (auto simp: on_message_def raft_safe_def)
next
  case alive: True
  define rc1 where "rc1 = (if rn_term (the_node i rc) < msg_term m then become_follower i (msg_term m) rc else rc)"
  have inv1: "raft_inv ids B G rc1" using inv become_follower_inv [OF inv i] by (simp add: rc1_def)
  have t1: "msg_term m \<le> rn_term (the_node i rc1)"
    by (simp add: rc1_def become_follower_node Let_def)
  show ?thesis
  proof (cases m)
    case (RequestVote t c li lt)
    then have c: "c = src" using msg by simp
    obtain reply rc2 where h: "handle_request_vote draw i t c li lt rc1 = (reply, rc2)" by (metis surj_pair)
    from handle_request_vote_inv [OF inv1 i _ _ h] c src obtain B' where
      "raft_inv ids B' G rc2" "msg_inv B' G i src reply" by auto
    then have "raft_inv ids B' G (rc_send draw i src reply rc2)" using i src by (intro raft_inv_send) auto
    moreover have "rc1 = (if rn_term (the_node i rc) < t then become_follower i t rc else rc)"
      by (simp add: rc1_def RequestVote)
    then have "snd (on_message draw i src m rc) = rc_send draw i src reply rc2"
      using alive RequestVote h by (cases "rn_term (the_node i rc) < t") (simp_all add: on_message_def Let_def)
    ultimately show ?thesis by (auto intro: raft_safeI)
  next
    case (VoteReply t ok)
    from handle_vote_reply_inv [OF inv1 i src(1)] msg VoteReply obtain G' where
      "raft_inv ids B G' (handle_vote_reply draw i src t ok rc1)" by blast
    moreover have "snd (on_message draw i src m rc) = handle_vote_reply draw i src t ok rc1"
      using alive VoteReply by (simp add: on_message_def Let_def rc1_def)
    ultimately show ?thesis by (auto intro: raft_safeI)
  next
    case (AppendEntries t l prev prev_t es commit)
    obtain reply rc2 where h: "handle_append_entries draw i t l prev prev_t es commit rc1 = (reply, rc2)" by (metis surj_pair)
    have "raft_inv ids B G rc2 \<and> msg_inv B G i src reply"
      by (rule handle_append_entries_inv [OF inv1 i src(1) _ _ h]) (use msg AppendEntries t1 in simp_all)
    then have "raft_inv ids B G (rc_send draw i src reply rc2)" using i src by (intro raft_inv_send) auto
    moreover have "rc1 = (if rn_term (the_node i rc) < t then become_follower i t rc else rc)"
      by (simp add: rc1_def AppendEntries)
    then have "snd (on_message draw i src m rc) = rc_send draw i src reply rc2"
      using alive AppendEntries h by (cases "rn_term (the_node i rc) < t") (simp_all add: on_message_def Let_def)
    ultimately show ?thesis by (auto intro: raft_safeI)
  next
    case (AppendReply t ok k)
    have "raft_inv ids B G (handle_append_reply draw i src t ok k rc1)"
      by (rule handle_append_reply_inv [OF inv1 i src]) (use msg AppendReply in simp)
    moreover have "snd (on_message draw i src m rc) = handle_append_reply draw i src t ok k rc1"
      using alive AppendReply by (simp add: on_message_def Let_def rc1_def)
    ultimately show ?thesis by (auto intro: raft_safeI)
  qed
qed

lemma raft_safe_cong:
  "raft_safe ids rc \<Longrightarrow> rc_nodes rc' = rc_nodes rc \<Longrightarrow> set (rc_inflight rc') \<subseteq> set (rc_inflight rc) \<Longrightarrow>
     leaders_of rc' = leaders_of rc \<Longrightarrow> raft_safe ids rc'"
  unfolding raft_safe_def using raft_inv_cong by blast

lemma deliver_one_safe:
  assumes "raft_safe ids rc" "e \<in> set (rc_inflight rc)" "set es \<subseteq> set (rc_inflight rc)"
  shows "raft_safe ids (deliver_one draw e (rc\<lparr>rc_inflight := es\<rparr>))"
proof -
  obtain B G where inv: "raft_inv ids B G rc" using assms(1) by (auto simp: raft_safe_def)
  then have e: "ev_src e \<in> ids" "ev_dst e \<in> ids" "ev_src e \<noteq> ev_dst e" "msg_inv B G (ev_src e) (ev_dst e) (ev_payload e)"
    using assms(2) unfolding raft_inv_def by blast+
  have popped: "raft_inv ids B G (rc\<lparr>rc_inflight := es\<rparr>)"
    by (rule raft_inv_cong [OF _ _ _ inv]) (use assms(3) in \<open>simp_all add: leaders_of_def fun_eq_iff\<close>)
  have dropped: "raft_inv ids B G (rc\<lparr>rc_inflight := es, rc_dropped := x\<rparr>)" for x
    by (rule raft_inv_cong [OF _ _ _ popped]) (simp_all add: leaders_of_def fun_eq_iff)
  show ?thesis
    using on_message_inv [OF popped e(2,1,3,4)] by (simp add: deliver_one_def raft_safeI [OF dropped])
qed

lemma deliver_due_safe:
  assumes "deliver_due draw rc = Some rc'" "raft_safe ids rc"
  shows "raft_safe ids rc'"
proof -
  have "raft_safe ids rc \<longrightarrow> raft_safe ids rc'"
  proof (rule deliver_due.raw_induct [where P = "\<lambda>draw rc y. raft_safe ids rc \<longrightarrow> raft_safe ids y", OF _ assms(1)], rule impI)
    fix deliver draw rc y
    assume hyp: "\<And>rc d y. deliver rc d = Some y \<Longrightarrow> raft_safe ids d \<longrightarrow> raft_safe ids y"
      and res: "(case rc_inflight rc of [] \<Rightarrow> Some rc
        | e # es \<Rightarrow> if ev_deliver_at e \<le> rc_now_ms rc then deliver draw (deliver_one draw e (rc\<lparr>rc_inflight := es\<rparr>))
                   else Some rc) = Some y"
      and safe: "raft_safe ids rc"
    show "raft_safe ids y"
    proof (cases "rc_inflight rc")
      case Nil
      then show ?thesis using res safe by simp
    next
      case (Cons e es)
      have "raft_safe ids (deliver_one draw e (rc\<lparr>rc_inflight := es\<rparr>))"
        by (rule deliver_one_safe [OF safe]) (use Cons in auto)
      then show ?thesis using res safe Cons hyp by (auto split: if_splits)
    qed
  qed
  with assms(2) show ?thesis by blast
qed

lemma raft_tick_safe:
  assumes "raft_safe ids rc" "i \<in> ids"
  shows "raft_safe ids (raft_tick draw i rc)"
proof -
  obtain B G where inv: "raft_inv ids B G rc" using assms(1) by (auto simp: raft_safe_def)
  have "raft_safe ids (broadcast_append draw i rc)" if "rn_role (the_node i rc) = LEADER"
    using raft_safeI [OF broadcast_inv [OF inv assms(2) that]] .
  moreover have "raft_safe ids (start_election draw i rc)"
    using start_election_inv [OF inv assms(2)] raft_safeI by blast
  ultimately show ?thesis using assms(1) by (simp add: raft_tick_def Let_def)
qed

lemma fold_tick_safe: "raft_safe ids rc \<Longrightarrow> set is \<subseteq> ids \<Longrightarrow> raft_safe ids (fold (raft_tick draw) is rc)"
  by (induction "is" arbitrary: rc) (auto intro: raft_tick_safe)

lemma raft_safe_keys: "raft_safe ids rc \<Longrightarrow> set (dict_keys (rc_nodes rc)) = ids"
  by (auto simp: raft_safe_def raft_inv_def)

lemma raft_step_safe:
  assumes "raft_step draw rc = Some rc'" "raft_safe ids rc"
  shows "raft_safe ids rc'"
proof -
  let ?clock = "rc_clock rc + 1 / 1000"
  let ?rc = "rc\<lparr>rc_clock := ?clock, rc_now_ms := py_round (?clock * 1000)\<rparr>"
  obtain rc1 where rc1: "deliver_due draw ?rc = Some rc1" "rc' = fold (raft_tick draw) (dict_keys (rc_nodes rc1)) rc1"
    using assms(1) by (auto simp: raft_step_def Let_def)
  have "raft_safe ids ?rc" by (rule raft_safe_cong [OF assms(2)]) (simp_all add: leaders_of_def fun_eq_iff)
  then have "raft_safe ids rc1" by (rule deliver_due_safe [OF rc1(1)])
  then show ?thesis using fold_tick_safe raft_safe_keys unfolding rc1(2) by blast
qed

section \<open>Runs of the cluster\<close>

datatype raft_op = Step | Partition "string set list" | Heal | Crash string | Restart string | Submit string "string option"

fun raft_do :: "draws \<Rightarrow> raft_op \<Rightarrow> raft_cluster \<Rightarrow> raft_cluster option" where
  "raft_do draw Step rc = raft_step draw rc"
| "raft_do draw (Partition groups) rc = Some (snd (raft_partition groups rc))"
| "raft_do draw Heal rc = Some (raft_heal rc)"
| "raft_do draw (Crash i) rc = Some (snd (raft_crash i rc))"
| "raft_do draw (Restart i) rc = Some (snd (raft_restart draw i rc))"
| "raft_do draw (Submit command i) rc = Some (snd (raft_submit draw command i rc))"

fun raft_ops :: "draws \<Rightarrow> raft_op list \<Rightarrow> raft_cluster \<Rightarrow> raft_cluster option" where
  "raft_ops draw [] rc = Some rc"
| "raft_ops draw (x # xs) rc = Option.bind (raft_do draw x rc) (raft_ops draw xs)"

lemma find_node_ids: "find_node rc i = Inr n \<Longrightarrow> raft_safe ids rc \<Longrightarrow> i \<in> ids \<and> the_node i rc = n"
  using raft_safe_keys by (fastforce simp: find_node_def the_node_def split: option.splits dest: dict_get_keys)

lemma groups_safe: "raft_safe ids rc \<Longrightarrow> raft_safe ids (rc_log_event s (rc\<lparr>rc_groups := gs\<rparr>))"
  by (rule raft_safe_cong, assumption) (simp_all add: raft_simps, simp_all add: leaders_of_def fun_eq_iff)

lemma raft_crash_safe: "raft_safe ids rc \<Longrightarrow> raft_safe ids (snd (raft_crash i rc))"
proof (cases "find_node rc i")
  case (Inr n)
  assume safe: "raft_safe ids rc"
  then obtain B G where inv: "raft_inv ids B G rc" by (auto simp: raft_safe_def)
  have "raft_inv ids B G (set_node i (n\<lparr>rn_alive := False\<rparr>) rc)"
    by (rule raft_inv_touch [OF inv]) (use find_node_ids [OF Inr safe] in \<open>simp_all add: same_state_def\<close>)
  then show ?thesis using Inr raft_safeI raft_inv_log_event by (simp add: raft_crash_def) blast
qed (simp add: raft_crash_def)

lemma raft_restart_safe: "raft_safe ids rc \<Longrightarrow> raft_safe ids (snd (raft_restart draw i rc))"
proof (cases "find_node rc i")
  case (Inr n)
  assume safe: "raft_safe ids rc"
  then obtain B G where inv: "raft_inv ids B G rc" by (auto simp: raft_safe_def)
  note i = find_node_ids [OF Inr safe]
  let ?n = "n\<lparr>rn_alive := True, rn_role := FOLLOWER, rn_leader_id := None, rn_commit_index := 0\<rparr>"
  have "node_inv ids (leaders_of rc) B G i n" using raft_inv_node [OF inv, of i] i by simp
  then have "node_inv ids (leaders_of rc) B G i ?n" by (simp add: node_inv_def)
  then have "raft_inv ids B G (set_node i ?n rc)" using i by (intro raft_inv_set_node inv) simp_all
  then have "raft_inv ids B G (reset_election_timer draw i (set_node i ?n rc))"
    by (rule raft_inv_reset_timer) (use i in simp)
  then show ?thesis using Inr raft_safeI raft_inv_log_event by (simp add: raft_restart_def) blast
qed (simp add: raft_restart_def)

lemma raft_submit_safe: "raft_safe ids rc \<Longrightarrow> raft_safe ids (snd (raft_submit draw command target rc))"
proof -
  assume safe: "raft_safe ids rc"
  then obtain B G where inv: "raft_inv ids B G rc" by (auto simp: raft_safe_def)
  have "raft_safe ids (snd (node_submit draw i command rc))" if "find_node rc i = Inr n" for i n
  proof -
    have "i \<in> ids" using find_node_ids [OF that safe] by simp
    from node_submit_inv [OF inv this, of draw command] show ?thesis by (metis raft_safeI prod.collapse)
  qed
  with safe show ?thesis
    by (auto simp: raft_submit_def split: option.splits sum.splits)
qed

lemma raft_do_safe: "raft_do draw x rc = Some rc' \<Longrightarrow> raft_safe ids rc \<Longrightarrow> raft_safe ids rc'"
  by (cases x)
    (auto simp: raft_partition_def raft_heal_def Let_def intro: raft_step_safe groups_safe raft_crash_safe
      raft_restart_safe raft_submit_safe)

lemma raft_ops_safe: "raft_ops draw xs rc = Some rc' \<Longrightarrow> raft_safe ids rc \<Longrightarrow> raft_safe ids rc'"
  by (induction xs arbitrary: rc) (auto simp: bind_eq_Some_conv intro: raft_do_safe)


text \<open>\<^verbatim>\<open>run\<close> and \<^verbatim>\<open>run_until\<close> are runs of steps.\<close>

lemma raft_run_steps: "raft_run draw ms rc = raft_ops draw (replicate ms Step) rc"
  by (induction ms arbitrary: rc) (simp_all cong: Option.bind_cong)

lemma run_until_steps:
  "run_until_from draw condition e budget rc = Some (res, rc') \<Longrightarrow> \<exists>n. raft_ops draw (replicate n Step) rc = Some rc'"
proof (induction budget arbitrary: e rc)
  case 0
  then show ?case by (auto intro: exI [of _ 0])
next
  case (Suc budget)
  then obtain rc1 where s: "raft_step draw rc = Some rc1"
    "(if condition rc1 then Some (Inr e, rc1) else run_until_from draw condition (e + 1) budget rc1) = Some (res, rc')"
    by (auto simp: bind_eq_Some_conv)
  show ?case
  proof (cases "condition rc1")
    case True
    then show ?thesis using s by (intro exI [of _ 1]) simp
  next
    case False
    then obtain n where "raft_ops draw (replicate n Step) rc1 = Some rc'" using s Suc.IH by auto
    then show ?thesis using s(1) by (intro exI [of _ "Suc n"]) simp
  qed
qed

text \<open>A new cluster.\<close>

lemma fold_add_node:
  "rc_inflight (fold (add_node draw ids) js rc) = rc_inflight rc \<and>
   rc_leaders_by_term (fold (add_node draw ids) js rc) = rc_leaders_by_term rc \<and>
   set (dict_keys (rc_nodes (fold (add_node draw ids) js rc))) = set js \<union> set (dict_keys (rc_nodes rc)) \<and>
   (\<forall>i \<in> set js. \<exists>d. the_node i (fold (add_node draw ids) js rc) = raft_node_new i (filter (\<lambda>p. p \<noteq> i) ids) d)"
proof (induction js rule: rev_induct)
  case (snoc j js)
  let ?rc = "fold (add_node draw ids) js rc"
  have keys: "set (dict_keys (dict_set j n (rc_nodes ?rc))) = insert j (set (dict_keys (rc_nodes ?rc)))" for n
    by (rule dict_keys_set)
  have "\<exists>d. add_node draw ids j ?rc = set_node j (raft_node_new j (filter (\<lambda>p. p \<noteq> j) ids) d) (?rc\<lparr>rc_draws := rc_draws ?rc + 1\<rparr>)"
    by (auto simp: add_node_def random_election_timeout_def)
  then obtain d where d: "add_node draw ids j ?rc = set_node j (raft_node_new j (filter (\<lambda>p. p \<noteq> j) ids) d) (?rc\<lparr>rc_draws := rc_draws ?rc + 1\<rparr>)"
    by blast
  show ?case using snoc keys by (auto simp: d set_node_def the_node_def)
qed simp

lemma raft_new_safe:
  assumes "raft_new draw ids timeout hb latency = Inr rc"
  shows "raft_safe (set ids) rc"
proof -
  obtain rc0 where rc: "rc = fold (add_node draw ids) ids rc0" "rc_inflight rc0 = []" "rc_leaders_by_term rc0 = []"
    "rc_nodes rc0 = []" and ids: "distinct ids"
    using assms by (auto simp: raft_new_def split: if_splits)
  note new = fold_add_node [of draw ids ids rc0, folded rc(1), unfolded rc(2-4)]
  have "raft_inv (set ids) (\<lambda>_ _. None) (\<lambda>_. []) rc"
    unfolding raft_inv_def
  proof (intro conjI ballI)
    show "set (dict_keys (rc_nodes rc)) = set ids" using new by simp
    show "history_inv (set ids) (leaders_of rc) (\<lambda>_ _. None) (\<lambda>_. [])"
      using new by (simp add: history_inv_def leaders_of_def log_fits_def)
    fix i assume "i \<in> set ids"
    with new obtain d where "the_node i rc = raft_node_new i (filter (\<lambda>p. p \<noteq> i) ids) d" by blast
    then show "node_inv (set ids) (leaders_of rc) (\<lambda>_ _. None) (\<lambda>_. []) i (the_node i rc)"
      using new ids by (auto simp: node_inv_def raft_node_new_def leaders_of_def log_fits_def)
  qed (use new in auto)
  then show ?thesis by (rule raft_safeI)
qed

section \<open>Properties\<close>

text \<open>C2. Election safety: in every run of the cluster, through any partitions, crashes, restarts, client
  writes, message latencies and election timeouts, at most one node is ever elected in a term, no
  node is elected twice in it, and two nodes that both hold the role of leader in the same term
  are the same node.\<close>

theorem raft_election_safety:
  assumes "raft_new draw ids timeout hb latency = Inr rc0" "raft_ops draw ops rc0 = Some rc"
  shows "election_safety_holds rc \<and> (\<forall>t. length (leaders_of rc t) \<le> 1) \<and>
    (\<forall>i \<in> set ids. \<forall>j \<in> set ids. rn_role (the_node i rc) = LEADER \<longrightarrow> rn_role (the_node j rc) = LEADER \<longrightarrow>
       rn_term (the_node i rc) = rn_term (the_node j rc) \<longrightarrow> i = j)"
proof -
  from raft_ops_safe [OF assms(2) raft_new_safe [OF assms(1)]] obtain B G where inv: "raft_inv (set ids) B G rc"
    by (auto simp: raft_safe_def)
  then have one: "length (leaders_of rc t) \<le> 1" for t by (simp add: raft_inv_def history_inv_def)
  have "election_safety_holds rc"
    unfolding election_safety_holds_def
  proof
    fix t assume "t \<in> set (dict_keys (rc_leaders_by_term rc))"
    then obtain ls where ls: "dict_get (rc_leaders_by_term rc) t = Some ls"
      by (metis dict_get_None not_None_eq)
    then have "length ls \<le> 1" using one [of t] by (simp add: leaders_of_def)
    then show "card (set (the (dict_get (rc_leaders_by_term rc) t))) \<le> 1"
      using card_length [of ls] ls by simp
  qed
  moreover have "i = j" if "i \<in> set ids" "j \<in> set ids" "rn_role (the_node i rc) = LEADER"
    "rn_role (the_node j rc) = LEADER" "rn_term (the_node i rc) = rn_term (the_node j rc)" for i j
  proof -
    have "i \<in> set (leaders_of rc (rn_term (the_node i rc)))" "j \<in> set (leaders_of rc (rn_term (the_node i rc)))"
      using raft_inv_node [OF inv] that by (fastforce simp: node_inv_def)+
    then show ?thesis using one [of "rn_term (the_node i rc)"]
      by (cases "leaders_of rc (rn_term (the_node i rc))") auto
  qed
  ultimately show ?thesis using one by blast
qed

text \<open>C3. Log matching: in every run, if the logs of two nodes have an entry of the same term at the same
  index, they agree on that entry and on everything below it, however often leaders changed and
  conflicting tails were overwritten.\<close>

theorem raft_log_matching:
  assumes "raft_new draw ids timeout hb latency = Inr rc0" "raft_ops draw ops rc0 = Some rc"
    and "i \<in> set ids" "j \<in> set ids" "k < length (rn_log (the_node i rc))" "k < length (rn_log (the_node j rc))"
    and "le_term (rn_log (the_node i rc) ! k) = le_term (rn_log (the_node j rc) ! k)"
  shows "take (Suc k) (rn_log (the_node i rc)) = take (Suc k) (rn_log (the_node j rc))"
proof -
  from raft_ops_safe [OF assms(2) raft_new_safe [OF assms(1)]] obtain B G where inv: "raft_inv (set ids) B G rc"
    by (auto simp: raft_safe_def)
  have "log_fits G (rn_log (the_node x rc))" if "x \<in> set ids" for x
    using raft_inv_node [OF inv that] by (simp add: node_inv_def)
  with assms(3,4) show ?thesis by (intro same_term_same_prefix assms(5-7)) blast+
qed

section \<open>A step returns\<close>

text \<open>
  The delivery loop pops messages that are due while the handlers push new ones. With a latency of
  at least one millisecond every new message is due later than now, so the loop delivers each
  message that was due once and ends. \<open>quiet\<close>: nothing that is due has been added.
\<close>

definition due :: "raft_cluster \<Rightarrow> envelope list" where
  "due rc = filter (\<lambda>e. ev_deliver_at e \<le> rc_now_ms rc) (rc_inflight rc)"

definition in_range :: "draws \<Rightarrow> bool" where
  "in_range draw \<longleftrightarrow> (\<forall>i a b. a \<le> b \<longrightarrow> a \<le> draw i a b \<and> draw i a b \<le> b)"

definition lagging :: "raft_cluster \<Rightarrow> bool" where
  "lagging rc \<longleftrightarrow> 1 \<le> fst (rc_latency rc) \<and> fst (rc_latency rc) \<le> snd (rc_latency rc)"

definition quiet :: "raft_cluster \<Rightarrow> raft_cluster \<Rightarrow> bool" where
  "quiet rc rc' \<longleftrightarrow> (lagging rc \<longrightarrow> lagging rc' \<and> rc_now_ms rc' = rc_now_ms rc \<and> due rc' = due rc)"

lemma quiet_refl [simp]: "quiet rc rc"
  by (simp add: quiet_def)

lemma quiet_trans: "quiet a b \<Longrightarrow> quiet b c \<Longrightarrow> quiet a c"
  by (simp add: quiet_def)

lemma quiet_fold: "(\<And>x rc. quiet rc (f x rc)) \<Longrightarrow> quiet rc (fold f xs rc)"
  by (induction xs arbitrary: rc) (auto intro: quiet_trans)

lemma quiet_same:
  "rc_latency rc' = rc_latency rc \<Longrightarrow> rc_now_ms rc' = rc_now_ms rc \<Longrightarrow> rc_inflight rc' = rc_inflight rc \<Longrightarrow> quiet rc rc'"
  by (simp add: quiet_def lagging_def due_def)

lemma quiet_set_node: "quiet rc (set_node i n rc)"
  by (rule quiet_same) (simp_all add: set_node_def)

lemma quiet_log_event: "quiet rc (rc_log_event s rc)"
  by (rule quiet_same) (simp_all add: rc_log_event_def)

lemma quiet_record_leader: "quiet rc (rc_record_leader t i vs rc)"
  by (rule quiet_same) (simp_all add: rc_record_leader_def rc_log_event_def)

lemma quiet_reset_timer: "quiet rc (reset_election_timer draw i rc)"
  by (rule quiet_same) (simp_all add: reset_election_timer_def random_election_timeout_def set_node_def)

lemma filter_push_late: "now < ev_deliver_at e \<Longrightarrow>
    filter (\<lambda>e. ev_deliver_at e \<le> now) (push_envelope e es) = filter (\<lambda>e. ev_deliver_at e \<le> now) es"
  by (induction es) auto

lemma quiet_send:
  assumes "in_range draw"
  shows "quiet rc (rc_send draw src dst m rc)"
proof -
  have "rc_now_ms rc < rc_now_ms rc + draw (rc_draws rc) (fst (rc_latency rc)) (snd (rc_latency rc))" if "lagging rc"
  proof -
    have "fst (rc_latency rc) \<le> draw (rc_draws rc) (fst (rc_latency rc)) (snd (rc_latency rc))"
      using assms that unfolding in_range_def lagging_def by blast
    then show ?thesis using that by (simp add: lagging_def)
  qed
  then show ?thesis
    by (auto simp: quiet_def rc_send_def Let_def due_def lagging_def filter_push_late)
qed

lemma quiet_send_append: "in_range draw \<Longrightarrow> quiet rc (send_append draw i p rc)"
  by (simp add: send_append_def Let_def quiet_send)

lemma quiet_broadcast: "in_range draw \<Longrightarrow> quiet rc (broadcast_append draw i rc)"
  unfolding broadcast_append_def Let_def
  by (rule quiet_trans [OF quiet_set_node quiet_fold]) (rule quiet_send_append)

lemma quiet_maybe_become_leader: "in_range draw \<Longrightarrow> quiet rc (maybe_become_leader draw i rc)"
  by (auto simp: maybe_become_leader_def Let_def
      intro: quiet_trans [OF quiet_trans [OF quiet_set_node quiet_record_leader] quiet_broadcast])

lemma quiet_become_follower: "quiet rc (become_follower i t rc)"
  by (auto simp: become_follower_def Let_def intro: quiet_set_node quiet_trans [OF quiet_log_event quiet_set_node])

lemma quiet_request_vote: "quiet rc (snd (handle_request_vote draw i t c li lt rc))"
  by (auto simp: handle_request_vote_def Let_def intro: quiet_trans [OF quiet_set_node quiet_reset_timer])

lemma quiet_vote_reply: "in_range draw \<Longrightarrow> quiet rc (handle_vote_reply draw i src t ok rc)"
  by (auto simp: handle_vote_reply_def Let_def intro: quiet_trans [OF quiet_set_node quiet_maybe_become_leader])

lemma quiet_append_entries: "quiet rc (snd (handle_append_entries draw i t l prev prev_t es commit rc))"
proof -
  let ?rc2 = "set_node i ((the_node i (become_follower i t rc))\<lparr>rn_leader_id := Some l\<rparr>) (become_follower i t rc)"
  have q: "quiet rc (reset_election_timer draw i ?rc2)"
    by (rule quiet_trans [OF quiet_trans [OF quiet_become_follower quiet_set_node] quiet_reset_timer])
  then show ?thesis
    by (simp add: handle_append_entries_def Let_def quiet_trans [OF q quiet_set_node])
qed

lemma quiet_append_reply: "in_range draw \<Longrightarrow> quiet rc (handle_append_reply draw i src t ok m rc)"
  by (auto simp: handle_append_reply_def Let_def intro: quiet_set_node quiet_trans [OF quiet_set_node quiet_send_append])

lemma quiet_on_message:
  assumes "in_range draw"
  shows "quiet rc (snd (on_message draw i src m rc))"
proof -
  define rc1 where "rc1 = (if rn_term (the_node i rc) < msg_term m then become_follower i (msg_term m) rc else rc)"
  have q1: "quiet rc rc1" by (simp add: rc1_def quiet_become_follower)
  define res where "res = (case m of
       RequestVote t cand l_index l_term \<Rightarrow> map_prod Some id (handle_request_vote draw i t cand l_index l_term rc1)
     | VoteReply t grant \<Rightarrow> (None, handle_vote_reply draw i src t grant rc1)
     | AppendEntries t ldr prev prev_t entries commit \<Rightarrow>
         map_prod Some id (handle_append_entries draw i t ldr prev prev_t entries commit rc1)
     | AppendReply t ok matched \<Rightarrow> (None, handle_append_reply draw i src t ok matched rc1))"
  have q2: "quiet rc1 (snd res)"
    using assms by (cases m)
      (simp_all add: res_def quiet_request_vote quiet_vote_reply quiet_append_entries quiet_append_reply)
  have "quiet (snd res) (case fst res of None \<Rightarrow> snd res | Some r \<Rightarrow> rc_send draw i src r (snd res))"
    using quiet_send [OF assms] by (simp split: option.split)
  then have "quiet rc (case fst res of None \<Rightarrow> snd res | Some r \<Rightarrow> rc_send draw i src r (snd res))"
    using quiet_trans [OF quiet_trans [OF q1 q2]] by blast
  moreover have "snd (on_message draw i src m rc) = (if \<not> rn_alive (the_node i rc) then rc
      else case fst res of None \<Rightarrow> snd res | Some r \<Rightarrow> rc_send draw i src r (snd res))"
    unfolding on_message_def Let_def res_def rc1_def by (simp add: case_prod_unfold)
  ultimately show ?thesis by simp
qed

lemma quiet_deliver_one: "in_range draw \<Longrightarrow> quiet rc (deliver_one draw e rc)"
  by (auto simp: deliver_one_def quiet_on_message intro: quiet_same)

lemma deliver_due_returns:
  assumes "in_range draw" "lagging rc"
  shows "\<exists>rc'. deliver_due draw rc = Some rc' \<and> lagging rc' \<and> rc_now_ms rc' = rc_now_ms rc"
  using assms(2)
proof (induction "length (due rc)" arbitrary: rc rule: less_induct)
  case less
  show ?case
  proof (cases "rc_inflight rc")
    case Nil
    then show ?thesis using less.prems by (subst deliver_due.simps) simp
  next
    case (Cons e es)
    show ?thesis
    proof (cases "ev_deliver_at e \<le> rc_now_ms rc")
      case False
      then show ?thesis using Cons less.prems by (subst deliver_due.simps) simp
    next
      case True
      let ?rc = "rc\<lparr>rc_inflight := es\<rparr>"
      let ?rc1 = "deliver_one draw e ?rc"
      have "lagging ?rc" using less.prems by (simp add: lagging_def)
      then have q: "lagging ?rc1" "rc_now_ms ?rc1 = rc_now_ms rc" "due ?rc1 = due ?rc"
        using quiet_deliver_one [OF assms(1), of ?rc e] by (simp_all add: quiet_def)
      have "length (due ?rc) < length (due rc)" using True Cons by (simp add: due_def)
      then obtain rc' where "deliver_due draw ?rc1 = Some rc'" "lagging rc'" "rc_now_ms rc' = rc_now_ms ?rc1"
        using less.hyps [of ?rc1] q by auto
      then show ?thesis using True Cons q(2) by (subst deliver_due.simps) simp
    qed
  qed
qed

lemma lagging_quiet: "quiet rc rc' \<Longrightarrow> lagging rc \<Longrightarrow> lagging rc'"
  by (simp add: quiet_def)

lemma quiet_start_election:
  assumes "in_range draw"
  shows "quiet rc (start_election draw i rc)"
proof -
  have requests: "quiet a (fold (\<lambda>p. rc_send draw i p (RequestVote t i li lt)) ps a)" for a ps t li lt
    by (rule quiet_fold) (rule quiet_send [OF assms])
  show ?thesis
    unfolding start_election_def Let_def
    by (rule quiet_trans [OF quiet_trans [OF quiet_trans [OF quiet_trans [OF quiet_set_node quiet_reset_timer]
        quiet_log_event] requests] quiet_maybe_become_leader [OF assms]])
qed

lemma quiet_tick: "in_range draw \<Longrightarrow> quiet rc (raft_tick draw i rc)"
  by (simp add: raft_tick_def Let_def quiet_broadcast quiet_start_election)

lemma raft_step_some:
  assumes "in_range draw" "lagging rc"
  shows "\<exists>rc'. raft_step draw rc = Some rc' \<and> lagging rc'"
proof -
  let ?clock = "rc_clock rc + 1 / 1000"
  let ?rc = "rc\<lparr>rc_clock := ?clock, rc_now_ms := py_round (?clock * 1000)\<rparr>"
  have "lagging ?rc" using assms(2) by (simp add: lagging_def)
  then obtain rc1 where rc1: "deliver_due draw ?rc = Some rc1" "lagging rc1"
    using deliver_due_returns [OF assms(1)] by blast
  have "quiet rc1 (fold (raft_tick draw) (dict_keys (rc_nodes rc1)) rc1)"
    by (rule quiet_fold) (rule quiet_tick [OF assms(1)])
  then have "lagging (fold (raft_tick draw) (dict_keys (rc_nodes rc1)) rc1)" using rc1(2) by (rule lagging_quiet)
  then show ?thesis using rc1(1) by (simp add: raft_step_def Let_def)
qed

lemma raft_do_some:
  assumes "in_range draw" "lagging rc"
  shows "\<exists>rc'. raft_do draw x rc = Some rc' \<and> lagging rc'"
proof (cases x)
  case Step
  then show ?thesis using raft_step_some [OF assms] by simp
next
  case (Submit command target)
  have "quiet rc (snd (node_submit draw i command rc))" for i
    by (auto simp: node_submit_def Let_def intro: quiet_trans [OF quiet_set_node quiet_broadcast [OF assms(1)]])
  then have "lagging (snd (node_submit draw i command rc))" for i using assms(2) lagging_quiet by blast
  then show ?thesis using Submit assms(2) by (simp add: raft_submit_def split: option.split sum.split)
next
  case (Restart i)
  have "quiet rc (rc_log_event s (reset_election_timer draw i (set_node i n rc)))" for s n
    by (rule quiet_trans [OF quiet_trans [OF quiet_set_node quiet_reset_timer] quiet_log_event])
  then have "lagging (rc_log_event s (reset_election_timer draw i (set_node i n rc)))" for s n
    using assms(2) lagging_quiet by blast
  then show ?thesis using Restart assms(2) by (simp add: raft_restart_def split: sum.split)
qed (use assms(2) in \<open>auto simp: raft_partition_def raft_heal_def raft_crash_def rc_log_event_def set_node_def
    lagging_def Let_def split: sum.split\<close>)

lemma lagging_new:
  assumes "raft_new draw ids timeout hb latency = Inr rc" "1 \<le> fst latency"
  shows "lagging rc"
proof -
  have "lagging (fold (add_node draw ids) js rc0)" if "lagging rc0" for js rc0
    using that by (induction js arbitrary: rc0)
      (auto simp: add_node_def random_election_timeout_def set_node_def lagging_def)
  then show ?thesis using assms by (auto simp: raft_new_def lagging_def split: if_splits)
qed

text \<open>C38. The simulation never hangs: with a latency of at least one millisecond and a generator that
  respects its bounds, every program of steps, partitions, crashes, restarts and client writes on a
  new cluster runs to its end, although handlers send messages while the delivery loop drains the
  network.\<close>

theorem raft_ops_return:
  assumes "raft_new draw ids timeout hb latency = Inr rc0" "1 \<le> fst latency" "in_range draw"
  shows "\<exists>rc. raft_ops draw ops rc0 = Some rc"
proof -
  have "\<exists>rc'. raft_ops draw ops rc = Some rc'" if "lagging rc" for rc
    using that
  proof (induction ops arbitrary: rc)
    case (Cons x xs)
    obtain rc1 where "raft_do draw x rc = Some rc1" "lagging rc1" using raft_do_some [OF assms(3) Cons.prems] by blast
    with Cons.IH [of rc1] show ?case by simp
  qed simp
  with lagging_new [OF assms(1,2)] show ?thesis by blast
qed

section \<open>Concrete runs\<close>

definition demo_draw :: draws where
  "demo_draw i a b = (if a \<le> b then min b (a + int i) else a)"

definition demo_cluster :: raft_cluster where
  "demo_cluster = projr (raft_new demo_draw [''n1'', ''n2'', ''n3''] (4, 20) 3 (1, 1))"

definition demo_ops :: "raft_op list" where
  "demo_ops = [Step, Step, Step, Step, Step, Step, Submit ''x'' None, Step, Step, Step]"

definition demo_raft :: raft_cluster where
  "demo_raft = the (raft_ops demo_draw demo_ops demo_cluster)"

lemma demo_cluster_new: "raft_new demo_draw [''n1'', ''n2'', ''n3''] (4, 20) 3 (1, 1) = Inr demo_cluster"
  by (simp add: demo_cluster_def raft_new_def)

lemma demo_in_range: "in_range demo_draw"
  by (auto simp: in_range_def demo_draw_def)

lemma demo_run: "raft_ops demo_draw demo_ops demo_cluster = Some demo_raft"
  using raft_ops_return [OF demo_cluster_new _ demo_in_range, of demo_ops] by (auto simp: demo_raft_def)

lemma demo_raft_state:
  "map (\<lambda>(i, n). (rn_role n = LEADER, rn_term n, map le_command (rn_log n))) (rc_nodes demo_raft) =
     [(True, 1, [''x'']), (False, 1, [''x'']), (False, 1, [''x''])] \<and>
   rc_leaders_by_term demo_raft = [(1, [''n1''])]"
  by code_simp

theorem raft_election_safety_witness:
  "election_safety_holds demo_raft \<and> rc_leaders_by_term demo_raft = [(1, [''n1''])]"
  using raft_election_safety [OF demo_cluster_new demo_run] demo_raft_state by blast

lemma demo_raft_logs:
  "map (\<lambda>i. map (\<lambda>e. (le_term e, le_command e)) (rn_log (the_node i demo_raft))) [''n1'', ''n2''] =
     [[(1, ''x'')], [(1, ''x'')]]"
  by code_simp

theorem raft_log_matching_witness:
  "take 1 (rn_log (the_node ''n1'' demo_raft)) = take 1 (rn_log (the_node ''n2'' demo_raft)) \<and>
   length (rn_log (the_node ''n1'' demo_raft)) = 1"
proof -
  have logs: "map (\<lambda>e. (le_term e, le_command e)) (rn_log (the_node i demo_raft)) = [(1, ''x'')]"
    if "i = ''n1'' \<or> i = ''n2''" for i
    using demo_raft_logs that by auto
  have len: "length (rn_log (the_node i demo_raft)) = 1" and "le_term (rn_log (the_node i demo_raft) ! 0) = 1"
    if "i = ''n1'' \<or> i = ''n2''" for i
    using logs [OF that] by (cases "rn_log (the_node i demo_raft)"; simp)+
  then have "take (Suc 0) (rn_log (the_node ''n1'' demo_raft)) = take (Suc 0) (rn_log (the_node ''n2'' demo_raft))"
    by (intro raft_log_matching [OF demo_cluster_new demo_run]) simp_all
  with len show ?thesis by simp
qed

theorem raft_ops_return_witness:
  "\<exists>rc. raft_ops demo_draw [Step, Crash ''n1'', Step, Restart ''n1'', Step] demo_cluster = Some rc"
  by (rule raft_ops_return [OF demo_cluster_new _ demo_in_range]) simp

text \<open>
  A crash leaves the role of a node as it is, and \<^verbatim>\<open>submit\<close> looks at the role only: a crashed
  leader still accepts a client's write, and sends it out.
\<close>

lemma crashed_leader_accepts_write:
  "(case raft_ops demo_draw (demo_ops @ [Crash ''n1'']) demo_cluster of
      None \<Rightarrow> False
    | Some rc \<Rightarrow> \<not> rn_alive (the_node ''n1'' rc) \<and>
        fst (raft_submit demo_draw ''y'' (Some ''n1'') rc) = Inr 2 \<and>
        length (rc_inflight (snd (raft_submit demo_draw ''y'' (Some ''n1'') rc))) > length (rc_inflight rc))"
  by code_simp

end
