(* ===== verification/Lsm_Tree.thy ===== *)
theory Lsm_Tree
  imports Python_Lib "HOL-Library.Product_Lexorder"
begin

text \<open>
  The log-structured merge tree of \<^verbatim>\<open>code/hld/lsm_tree.py\<close>: Bloom filters, the write-ahead
  log, the memtable, sorted tables with a sparse index, flush, major compaction, range scan,
  statistics and recovery.

  The SHA-256 digest behind the Bloom filter is a parameter, a function from the key to its
  bytes; nothing is assumed of it. An operation answers its result beside the tree it leaves:
  a write into a tree with a bad block size raises after the entry went in.
\<close>

unbundle bit_operations_syntax

section \<open>The Bloom filter\<close>

record bloom_filter =
  bf_bits_count :: int
  bf_hashes :: int
  bf_bits :: int

text \<open>The double nearest to \<open>ln 2\<close>, as \<^verbatim>\<open>math.log(2)\<close> returns it; its multiple is kept exact.\<close>

definition log_of_2 :: rat where
  "log_of_2 = 6243314768165359 / 9007199254740992"

definition bloom_new :: "int \<Rightarrow> int \<Rightarrow> bloom_filter result" where
  "bloom_new expected_keys bits_per_key =
     (if expected_keys \<le> 0 \<or> bits_per_key \<le> 0 then Inl ValidationError
      else Inr \<lparr>bf_bits_count = expected_keys * bits_per_key,
                bf_hashes = max 1 (py_round (of_int bits_per_key * log_of_2)), bf_bits = 0\<rparr>)"

definition bloom_positions :: "(string \<Rightarrow> nat list) \<Rightarrow> bloom_filter \<Rightarrow> string \<Rightarrow> nat list" where
  "bloom_positions sha256 f key =
     (let digest = sha256 key;
          h1 = from_bytes_big (take 8 digest);
          h2 = from_bytes_big (take 8 (drop 8 digest)) OR 1
      in map (\<lambda>i. nat ((h1 + int i * h2) mod bf_bits_count f)) [0..<nat (bf_hashes f)])"

definition bloom_set_bit :: "nat \<Rightarrow> bloom_filter \<Rightarrow> bloom_filter" where
  "bloom_set_bit position f = f\<lparr>bf_bits := bf_bits f OR push_bit position 1\<rparr>"

definition bloom_add :: "(string \<Rightarrow> nat list) \<Rightarrow> string \<Rightarrow> bloom_filter \<Rightarrow> bloom_filter" where
  "bloom_add sha256 key f = fold bloom_set_bit (bloom_positions sha256 f key) f"

definition bloom_test_bit :: "bloom_filter \<Rightarrow> nat \<Rightarrow> bool" where
  "bloom_test_bit f position \<longleftrightarrow> drop_bit position (bf_bits f) AND 1 \<noteq> 0"

definition bloom_might_contain :: "(string \<Rightarrow> nat list) \<Rightarrow> bloom_filter \<Rightarrow> string \<Rightarrow> bool" where
  "bloom_might_contain sha256 f key = list_all (bloom_test_bit f) (bloom_positions sha256 f key)"

lemma bloom_test_bit_iff: "bloom_test_bit f p \<longleftrightarrow> bit (bf_bits f) p"
  by (simp add: bloom_test_bit_def and_one_eq bit_iff_odd_drop_bit mod_2_eq_odd)

lemma bloom_test_set: "bloom_test_bit (bloom_set_bit p f) n \<longleftrightarrow> n = p \<or> bloom_test_bit f n"
  unfolding bloom_test_bit_iff bloom_set_bit_def
  by (auto simp: bit_or_iff bit_exp_iff)

lemma bloom_test_fold:
  "bloom_test_bit (fold bloom_set_bit ps f) n \<longleftrightarrow> n \<in> set ps \<or> bloom_test_bit f n"
  by (induction ps arbitrary: f) (auto simp: bloom_test_set)

lemma bloom_fold_shape:
  "bf_bits_count (fold bloom_set_bit ps f) = bf_bits_count f"
  "bf_hashes (fold bloom_set_bit ps f) = bf_hashes f"
  by (induction ps arbitrary: f) (auto simp: bloom_set_bit_def)

lemma bloom_positions_add [simp]: "bloom_positions sha (bloom_add sha k f) x = bloom_positions sha f x"
  unfolding bloom_positions_def bloom_add_def bloom_fold_shape by (rule refl)

lemma bloom_added: "bloom_might_contain sha (bloom_add sha k f) k"
  unfolding bloom_might_contain_def bloom_positions_add
  by (simp add: list_all_iff bloom_add_def bloom_test_fold)

lemma bloom_keeps: "bloom_might_contain sha f x \<Longrightarrow> bloom_might_contain sha (bloom_add sha k f) x"
  unfolding bloom_might_contain_def bloom_positions_add
  by (simp add: list_all_iff bloom_add_def bloom_test_fold)

text \<open>No false negatives, whatever the digest: a key that was added is always reported.\<close>

lemma bloom_no_false_negative:
  "k \<in> set ks \<Longrightarrow> bloom_might_contain sha (fold (bloom_add sha) ks f) k"
proof (induction ks rule: rev_induct)
  case (snoc x ks)
  then show ?case by (auto intro: bloom_added bloom_keeps)
qed simp

section \<open>Entries, log and memtable\<close>

record lsm_entry =
  en_key :: string
  en_value :: "string option"

definition en_tombstone :: "lsm_entry \<Rightarrow> bool" where
  "en_tombstone e \<longleftrightarrow> en_value e = None"

definition en_size :: "lsm_entry \<Rightarrow> int" where
  "en_size e = int (length (en_key e)) + int (length (case en_value e of None \<Rightarrow> '''' | Some v \<Rightarrow> v))"

record wal =
  wl_entries :: "lsm_entry list"
  wl_bytes :: int

definition wal_new :: wal where
  "wal_new = \<lparr>wl_entries = [], wl_bytes = 0\<rparr>"

definition wal_append :: "wal \<Rightarrow> lsm_entry \<Rightarrow> wal" where
  "wal_append w e = w\<lparr>wl_entries := wl_entries w @ [e], wl_bytes := wl_bytes w + en_size e\<rparr>"

definition wal_replay :: "wal \<Rightarrow> lsm_entry list" where
  "wal_replay w = wl_entries w"

definition wal_truncate :: "wal \<Rightarrow> int \<times> wal" where
  "wal_truncate w = (int (length (wl_entries w)), w\<lparr>wl_entries := []\<rparr>)"

type_synonym memtable = "(string, lsm_entry) dict"

definition mt_put :: "lsm_entry \<Rightarrow> memtable \<Rightarrow> memtable" where
  "mt_put e m = dict_set (en_key e) e m"

definition mt_get :: "memtable \<Rightarrow> string \<Rightarrow> lsm_entry option" where
  "mt_get m key = dict_get m key"

definition mt_sorted_entries :: "memtable \<Rightarrow> lsm_entry list" where
  "mt_sorted_entries m = map (\<lambda>key. the (dict_get m key)) (sort (dict_keys m))"

section \<open>Sorted tables\<close>

text \<open>The slice \<^verbatim>\<open>xs[::n]\<close>, for a positive step.\<close>

fun every_nth :: "nat \<Rightarrow> 'a list \<Rightarrow> 'a list" where
  "every_nth n [] = []"
| "every_nth n (x # xs) = x # every_nth n (drop (n - 1) xs)"

record sstable =
  st_id :: int
  st_entries :: "lsm_entry list"
  st_block_size :: int
  st_first_keys :: "string list"
  st_bloom :: bloom_filter

definition sstable_new :: "(string \<Rightarrow> nat list) \<Rightarrow> lsm_entry list \<Rightarrow> int \<Rightarrow> int \<Rightarrow> sstable result" where
  "sstable_new sha256 entries table_id block_size =
     (if entries = [] then Inl ValidationError
      else if block_size \<le> 0 then Inl ValidationError
      else let keys = map en_key entries
           in if keys \<noteq> sort keys \<or> card (set keys) \<noteq> length keys then Inl ValidationError
              else case bloom_new (int (length entries)) 10 of
                Inl e \<Rightarrow> Inl e
              | Inr f \<Rightarrow> Inr \<lparr>st_id = table_id, st_entries = entries, st_block_size = block_size,
                   st_first_keys = every_nth (nat block_size) keys,
                   st_bloom = fold (bloom_add sha256) keys f\<rparr>)"

definition st_size :: "sstable \<Rightarrow> int" where
  "st_size t = sum_list (map en_size (st_entries t))"

definition st_key_range :: "sstable \<Rightarrow> string \<times> string" where
  "st_key_range t = (en_key (hd (st_entries t)), en_key (last (st_entries t)))"

definition st_might_contain :: "(string \<Rightarrow> nat list) \<Rightarrow> sstable \<Rightarrow> string \<Rightarrow> bool" where
  "st_might_contain sha256 t key = bloom_might_contain sha256 (st_bloom t) key"

definition st_get :: "sstable \<Rightarrow> string \<Rightarrow> lsm_entry option" where
  "st_get t key =
     (let block = int (bisect_right id (st_first_keys t) key) - 1
      in if block < 0 then None
         else let start = block * st_block_size t
              in find (\<lambda>e. en_key e = key) (take (nat (st_block_size t)) (drop (nat start) (st_entries t))))"


section \<open>The tree\<close>

record read_trace =
  rt_value :: "string option"
  rt_source :: string
  rt_block_reads :: int
  rt_bloom_skips :: int

record lsm_stats =
  ls_tables :: int
  ls_table_entries :: int
  ls_live_entries :: int
  ls_user_bytes :: int
  ls_disk_bytes_written :: int
  ls_table_bytes :: int
  ls_live_bytes :: int

definition ls_write_amplification :: "lsm_stats \<Rightarrow> rat" where
  "ls_write_amplification s =
     (if ls_user_bytes s \<noteq> 0 then of_int (ls_disk_bytes_written s) / of_int (ls_user_bytes s) else 0)"

definition ls_space_amplification :: "lsm_stats \<Rightarrow> rat" where
  "ls_space_amplification s =
     (if ls_live_bytes s \<noteq> 0 then of_int (ls_table_bytes s) / of_int (ls_live_bytes s) else 0)"

record lsm_tree =
  lt_memtable_limit :: int
  lt_block_size :: int
  lt_wal :: wal
  lt_memtable :: memtable
  lt_tables :: "sstable list"
  lt_next_id :: int
  lt_user_bytes :: int
  lt_table_bytes :: int

definition lsm_new :: "int \<Rightarrow> int \<Rightarrow> wal option \<Rightarrow> lsm_tree result" where
  "lsm_new memtable_limit block_size w =
     (if memtable_limit \<le> 0 then Inl ValidationError
      else Inr \<lparr>lt_memtable_limit = memtable_limit, lt_block_size = block_size,
                lt_wal = (case w of Some v \<Rightarrow> v | None \<Rightarrow> wal_new), lt_memtable = [], lt_tables = [],
                lt_next_id = 1, lt_user_bytes = 0, lt_table_bytes = 0\<rparr>)"

definition lsm_recover :: "wal \<Rightarrow> sstable list \<Rightarrow> int \<Rightarrow> int \<Rightarrow> lsm_tree result" where
  "lsm_recover w tables memtable_limit block_size =
     (case lsm_new memtable_limit block_size (Some w) of
        Inl e \<Rightarrow> Inl e
      | Inr t \<Rightarrow>
          let ts = sort_key st_id tables
          in Inr (t\<lparr>lt_tables := ts,
                    lt_next_id := (if ts = [] then 0 else Max (st_id ` set ts)) + 1,
                    lt_memtable := fold mt_put (wal_replay w) (lt_memtable t)\<rparr>))"

definition lsm_new_table ::
  "(string \<Rightarrow> nat list) \<Rightarrow> lsm_entry list \<Rightarrow> lsm_tree \<Rightarrow> sstable result \<times> lsm_tree" where
  "lsm_new_table sha256 entries t =
     (case sstable_new sha256 entries (lt_next_id t) (lt_block_size t) of
        Inl e \<Rightarrow> (Inl e, t)
      | Inr s \<Rightarrow> (Inr s, t\<lparr>lt_next_id := lt_next_id t + 1, lt_table_bytes := lt_table_bytes t + st_size s\<rparr>))"

definition lsm_flush :: "(string \<Rightarrow> nat list) \<Rightarrow> lsm_tree \<Rightarrow> sstable option result \<times> lsm_tree" where
  "lsm_flush sha256 t =
     (if lt_memtable t = [] then (Inr None, t)
      else case lsm_new_table sha256 (mt_sorted_entries (lt_memtable t)) t of
        (Inl e, t1) \<Rightarrow> (Inl e, t1)
      | (Inr s, t1) \<Rightarrow>
          (Inr (Some s), t1\<lparr>lt_tables := lt_tables t1 @ [s], lt_memtable := [],
                            lt_wal := snd (wal_truncate (lt_wal t1))\<rparr>))"

definition lsm_write :: "(string \<Rightarrow> nat list) \<Rightarrow> lsm_entry \<Rightarrow> lsm_tree \<Rightarrow> unit result \<times> lsm_tree" where
  "lsm_write sha256 e t =
     (if en_key e = [] then (Inl ValidationError, t)
      else let t1 = t\<lparr>lt_wal := wal_append (lt_wal t) e, lt_memtable := mt_put e (lt_memtable t),
                      lt_user_bytes := lt_user_bytes t + en_size e\<rparr>
           in if lt_memtable_limit t1 \<le> int (length (lt_memtable t1))
              then case lsm_flush sha256 t1 of (Inl x, t2) \<Rightarrow> (Inl x, t2) | (Inr _, t2) \<Rightarrow> (Inr (), t2)
              else (Inr (), t1))"

definition lsm_put :: "(string \<Rightarrow> nat list) \<Rightarrow> string \<Rightarrow> string \<Rightarrow> lsm_tree \<Rightarrow> unit result \<times> lsm_tree" where
  "lsm_put sha256 key v t = lsm_write sha256 \<lparr>en_key = key, en_value = Some v\<rparr> t"

definition lsm_delete :: "(string \<Rightarrow> nat list) \<Rightarrow> string \<Rightarrow> lsm_tree \<Rightarrow> unit result \<times> lsm_tree" where
  "lsm_delete sha256 key t = lsm_write sha256 \<lparr>en_key = key, en_value = None\<rparr> t"

text \<open>The loop of \<^verbatim>\<open>lookup\<close> over the tables, newest first.\<close>

fun lookup_loop ::
  "(string \<Rightarrow> nat list) \<Rightarrow> string \<Rightarrow> sstable list \<Rightarrow> int \<Rightarrow> int \<Rightarrow> read_trace" where
  "lookup_loop sha256 key [] reads skips =
     \<lparr>rt_value = None, rt_source = ''absent'', rt_block_reads = reads, rt_bloom_skips = skips\<rparr>"
| "lookup_loop sha256 key (s # ss) reads skips =
     (if \<not> st_might_contain sha256 s key then lookup_loop sha256 key ss reads (skips + 1)
      else case st_get s key of
        Some e \<Rightarrow> \<lparr>rt_value = en_value e, rt_source = ''sstable '' @ str_of_int (st_id s),
                   rt_block_reads = reads + 1, rt_bloom_skips = skips\<rparr>
      | None \<Rightarrow> lookup_loop sha256 key ss (reads + 1) skips)"

definition lsm_lookup :: "(string \<Rightarrow> nat list) \<Rightarrow> lsm_tree \<Rightarrow> string \<Rightarrow> read_trace" where
  "lsm_lookup sha256 t key =
     (case mt_get (lt_memtable t) key of
        Some e \<Rightarrow> \<lparr>rt_value = en_value e, rt_source = ''memtable'', rt_block_reads = 0, rt_bloom_skips = 0\<rparr>
      | None \<Rightarrow> lookup_loop sha256 key (rev (lt_tables t)) 0 0)"

definition lsm_get :: "(string \<Rightarrow> nat list) \<Rightarrow> lsm_tree \<Rightarrow> string \<Rightarrow> string option" where
  "lsm_get sha256 t key = rt_value (lsm_lookup sha256 t key)"

definition heapq_merge :: "lsm_entry list list \<Rightarrow> lsm_entry list" where
  "heapq_merge runs = heapq_merge_by en_key runs"

fun compact_loop :: "string option \<Rightarrow> lsm_entry list \<Rightarrow> lsm_entry list" where
  "compact_loop last_key [] = []"
| "compact_loop last_key (e # es) =
     (if Some (en_key e) = last_key then compact_loop last_key es
      else if en_tombstone e then compact_loop (Some (en_key e)) es
      else e # compact_loop (Some (en_key e)) es)"

definition lsm_compact :: "(string \<Rightarrow> nat list) \<Rightarrow> lsm_tree \<Rightarrow> sstable option result \<times> lsm_tree" where
  "lsm_compact sha256 t =
     (if length (lt_tables t) < 2 then (Inr None, t)
      else let survivors = compact_loop None (heapq_merge (map st_entries (rev (lt_tables t))))
           in if survivors = [] then (Inr None, t\<lparr>lt_tables := []\<rparr>)
              else case lsm_new_table sha256 survivors t of
                (Inl e, t1) \<Rightarrow> (Inl e, t1)
              | (Inr s, t1) \<Rightarrow> (Inr (Some s), t1\<lparr>lt_tables := [s]\<rparr>))"

text \<open>The sources of a scan, newest first, and the versions it keeps of the keys in range.\<close>

definition scan_step :: "string \<Rightarrow> string \<Rightarrow> lsm_entry \<Rightarrow> (string, lsm_entry) dict \<Rightarrow> (string, lsm_entry) dict" where
  "scan_step lo hi e newest =
     (if lo \<le> en_key e \<and> en_key e < hi \<and> dict_get newest (en_key e) = None
      then dict_set (en_key e) e newest else newest)"

definition lsm_scan :: "lsm_tree \<Rightarrow> string \<Rightarrow> string \<Rightarrow> (string \<times> string) list" where
  "lsm_scan t lo hi =
     (let sources = mt_sorted_entries (lt_memtable t) # map st_entries (rev (lt_tables t));
          newest = fold (fold (scan_step lo hi)) sources []
      in sort (map (\<lambda>(key, e). (key, the (en_value e))) (filter (\<lambda>(key, e). en_value e \<noteq> None) newest)))"

definition stats_step :: "lsm_entry \<Rightarrow> (string, lsm_entry) dict \<Rightarrow> (string, lsm_entry) dict" where
  "stats_step e newest =
     (case dict_get newest (en_key e) of Some _ \<Rightarrow> newest | None \<Rightarrow> dict_set (en_key e) e newest)"

definition lsm_stats_of :: "lsm_tree \<Rightarrow> lsm_stats" where
  "lsm_stats_of t =
     (let newest = fold (fold stats_step) (map st_entries (rev (lt_tables t))) [];
          live = filter (\<lambda>e. \<not> en_tombstone e) (map snd newest)
      in \<lparr>ls_tables = int (length (lt_tables t)),
          ls_table_entries = sum_list (map (\<lambda>s. int (length (st_entries s))) (lt_tables t)),
          ls_live_entries = int (length live),
          ls_user_bytes = lt_user_bytes t,
          ls_disk_bytes_written = wl_bytes (lt_wal t) + lt_table_bytes t,
          ls_table_bytes = sum_list (map st_size (lt_tables t)),
          ls_live_bytes = sum_list (map en_size live)\<rparr>)"


section \<open>Reading a table\<close>

definition version_of :: "string \<Rightarrow> lsm_entry list \<Rightarrow> lsm_entry option" where
  "version_of k es = find (\<lambda>e. en_key e = k) es"

named_theorems version_simps

lemma version_of_Nil [version_simps]: "version_of k [] = None"
  by (simp add: version_of_def)

lemma version_of_Cons [version_simps]:
  "version_of k (e # es) = (if en_key e = k then Some e else version_of k es)"
  by (simp add: version_of_def)

lemma version_of_append [version_simps]:
  "version_of k (xs @ ys) = (case version_of k xs of None \<Rightarrow> version_of k ys | Some e \<Rightarrow> Some e)"
  by (induction xs) (auto simp: version_simps)

lemma version_of_None: "version_of k es = None \<longleftrightarrow> k \<notin> en_key ` set es"
  by (auto simp: version_of_def find_None_iff)

lemma version_of_SomeD: "version_of k es = Some e \<Longrightarrow> e \<in> set es \<and> en_key e = k"
  by (induction es) (auto simp: version_simps split: if_splits)

lemma version_of_nth:
  "distinct (map en_key es) \<Longrightarrow> i < length es \<Longrightarrow> version_of (en_key (es ! i)) es = Some (es ! i)"
proof (induction es arbitrary: i)
  case (Cons e es)
  show ?case
  proof (cases i)
    case (Suc j)
    then have "en_key (es ! j) \<in> en_key ` set es" using Cons.prems by simp
    then show ?thesis using Cons Suc by (auto simp: version_simps)
  qed (simp add: version_simps)
qed simp

lemma every_nth_length:
  "0 < n \<Longrightarrow> i < length (every_nth n xs) \<longleftrightarrow> i * n < length xs"
proof (induction n xs arbitrary: i rule: every_nth.induct)
  case (2 n x xs)
  show ?case
  proof (cases i)
    case (Suc j)
    have "j < length (every_nth n (drop (n - 1) xs)) \<longleftrightarrow> j * n < length xs - (n - 1)"
      using 2 by simp
    also have "\<dots> \<longleftrightarrow> Suc j * n < Suc (length xs)" using 2(2) by auto
    finally show ?thesis using Suc by simp
  qed simp
qed simp

lemma every_nth_nth:
  "0 < n \<Longrightarrow> i * n < length xs \<Longrightarrow> every_nth n xs ! i = xs ! (i * n)"
proof (induction n xs arbitrary: i rule: every_nth.induct)
  case (2 n x xs)
  show ?case
  proof (cases i)
    case (Suc j)
    have "j * n < length (drop (n - 1) xs)" using 2(2,3) Suc by auto
    then have "every_nth n (drop (n - 1) xs) ! j = drop (n - 1) xs ! (j * n)" using 2 by simp
    also have "\<dots> = xs ! (n - 1 + j * n)" using 2(2,3) Suc by (simp add: nth_drop)
    also have "\<dots> = (x # xs) ! (i * n)" using 2(2) Suc by (cases n) (auto simp: algebra_simps)
    finally show ?thesis using Suc by simp
  qed simp
qed simp

definition table_ok :: "(string \<Rightarrow> nat list) \<Rightarrow> sstable \<Rightarrow> bool" where
  "table_ok sha s \<longleftrightarrow> sstable_new sha (st_entries s) (st_id s) (st_block_size s) = Inr s"

lemma sstable_newD:
  assumes "sstable_new sha es i b = Inr s"
  shows "st_entries s = es" "st_id s = i" "st_block_size s = b" "es \<noteq> []" "0 < b"
    "sorted (map en_key es)" "distinct (map en_key es)"
    "st_first_keys s = every_nth (nat b) (map en_key es)"
    "\<exists>f. st_bloom s = fold (bloom_add sha) (map en_key es) f"
proof -
  have srt: "sort (map en_key es) = map en_key es" and "card (set (map en_key es)) = length (map en_key es)"
    and rest: "st_entries s = es" "st_id s = i" "st_block_size s = b" "es \<noteq> []" "0 < b"
    "st_first_keys s = every_nth (nat b) (map en_key es)"
    "\<exists>f. st_bloom s = fold (bloom_add sha) (map en_key es) f"
    using assms by (auto simp: sstable_new_def Let_def split: if_splits sum.splits)
  then show "distinct (map en_key es)" by (metis card_distinct)
  show "sorted (map en_key es)" using srt by (metis sorted_sort)
qed (use assms in \<open>auto simp: sstable_new_def Let_def split: if_splits sum.splits\<close>)

lemma sstable_new_ok: "sstable_new sha es i b = Inr s \<Longrightarrow> table_ok sha s"
  using sstable_newD(1-3) [of sha es i b s] by (simp add: table_ok_def)

lemma sstable_new_exists:
  assumes "es \<noteq> []" "0 < b" "sorted (map en_key es)" "distinct (map en_key es)"
  shows "\<exists>s. sstable_new sha es i b = Inr s"
proof -
  have "sort (map en_key es) = map en_key es" using assms(3) by (simp add: sorted_sort_id)
  moreover have "card (set (map en_key es)) = length (map en_key es)" using assms(4) by (rule distinct_card)
  ultimately show ?thesis using assms(1,2) by (simp add: sstable_new_def Let_def bloom_new_def)
qed

text \<open>The sparse index sends a key that is there to the block it is in.\<close>

lemma sparse_index_block:
  assumes n: "0 < n" and srt: "sorted (map en_key es)" and dst: "distinct (map en_key es)"
    and j: "j < length es"
  shows "bisect_right id (every_nth n (map en_key es)) (en_key (es ! j)) = Suc (j div n)"
proof (rule antisym)
  let ?fk = "every_nth n (map en_key es)" and ?k = "en_key (es ! j)"
  have len: "i < length ?fk \<longleftrightarrow> i * n < length es" for i
    using every_nth_length [OF n, of i "map en_key es"] by simp
  have fn: "?fk ! i = en_key (es ! (i * n))" if "i * n < length es" for i
    using every_nth_nth [OF n, of i "map en_key es"] that by simp
  have mono: "en_key (es ! i) \<le> en_key (es ! l)" if "i \<le> l" "l < length es" for i l
    using sorted_nth_mono [OF srt that(1)] that by simp
  have fmono: "?fk ! i \<le> ?fk ! l" if "i \<le> l" "l < length ?fk" for i l
  proof -
    have l: "l * n < length es" "i * n \<le> l * n" using that len by simp_all
    then have "i * n < length es" by linarith
    then show ?thesis using fn l mono by metis
  qed
  have "sorted (map id ?fk)" using fmono by (simp add: sorted_iff_nth_mono)
  note bis = bisect_right_spec [OF this, where x = ?k]
  show "Suc (j div n) \<le> bisect_right id ?fk ?k"
  proof -
    have le: "j div n * n \<le> j" by (simp add: div_times_less_eq_dividend)
    then have at: "j div n * n < length es" using j by linarith
    then have "\<not> ?k < ?fk ! (j div n)" using j mono [OF le] fn by (simp add: not_less)
    then show ?thesis using bis(3) [of "j div n"] at len by (metis id_apply not_less_eq_eq)
  qed
  show "bisect_right id ?fk ?k \<le> Suc (j div n)"
  proof (rule ccontr)
    let ?l = "Suc (j div n) * n"
    assume "\<not> bisect_right id ?fk ?k \<le> Suc (j div n)"
    then have lt: "Suc (j div n) < bisect_right id ?fk ?k" by simp
    then have at: "?l < length es" using bis(1) len by (metis less_le_trans)
    have "j < ?l" using dividend_less_div_times [OF n, of j] by (simp add: add.commute)
    then have "?k < en_key (es ! ?l)"
      using mono [of j ?l] at nth_eq_iff_index_eq [OF dst, of j ?l] by (simp add: order.strict_iff_order)
    then show False using bis(2) [OF lt] fn [OF at] by simp
  qed
qed

text \<open>One block read finds what a scan of the whole table would find.\<close>

lemma st_get_scan:
  assumes "table_ok sha s"
  shows "st_get s k = version_of k (st_entries s)"
proof (cases "version_of k (st_entries s)")
  case None
  then have "\<forall>e \<in> set (st_entries s). en_key e \<noteq> k" by (auto simp: version_of_None)
  then have "find (\<lambda>e. en_key e = k) (take m (drop l (st_entries s))) = None" for m l
    by (auto simp: find_None_iff dest: in_set_takeD in_set_dropD)
  then show ?thesis using None by (simp add: st_get_def Let_def)
next
  case (Some e)
  let ?es = "st_entries s" and ?n = "nat (st_block_size s)"
  note new = sstable_newD [OF assms [unfolded table_ok_def]]
  obtain j where j: "j < length ?es" "?es ! j = e" "en_key e = k"
    using Some by (metis in_set_conv_nth version_of_SomeD)
  have n: "0 < ?n" using new(5) by simp
  have b: "bisect_right id (st_first_keys s) k = Suc (j div ?n)"
    using sparse_index_block [OF n new(6,7) j(1)] j new(8) by simp
  have st: "nat (int (j div ?n) * st_block_size s) = j div ?n * ?n"
    using new(5) by (simp add: nat_mult_distrib)
  define blk where "blk = take ?n (drop (j div ?n * ?n) ?es)"
  have at: "j div ?n * ?n + j mod ?n = j" by (rule div_mult_mod_eq)
  have "j mod ?n < ?n" using n by simp
  moreover have "j mod ?n < length ?es - j div ?n * ?n" using at j(1) by linarith
  ultimately have "j mod ?n < length blk" "blk ! (j mod ?n) = e"
    using at j(1,2) by (simp_all add: blk_def)
  moreover have "distinct (map en_key blk)"
    using new(7) by (simp add: blk_def take_map [symmetric] drop_map [symmetric])
  ultimately have "version_of k blk = Some e" using version_of_nth [of blk "j mod ?n"] j by simp
  moreover have "st_get s k = version_of k blk"
    using new(5) st unfolding st_get_def b by (simp add: Let_def blk_def version_of_def)
  ultimately show ?thesis using Some by simp
qed

lemma st_bloom_sound:
  assumes "table_ok sha s" "\<not> st_might_contain sha s k"
  shows "version_of k (st_entries s) = None"
proof -
  obtain f where "st_bloom s = fold (bloom_add sha) (map en_key (st_entries s)) f"
    using sstable_newD(9) assms(1) unfolding table_ok_def by blast
  then show ?thesis
    using assms(2) bloom_no_false_negative [of k "map en_key (st_entries s)" sha f]
    by (auto simp: st_might_contain_def version_of_None)
qed


section \<open>Merging\<close>

text \<open>On sorted runs the merge keeps, for every key, the version of the earlier run in front.\<close>

lemma version_of_merge_by:
  "sorted (map en_key xs) \<Longrightarrow> sorted (map en_key ys) \<Longrightarrow>
    version_of k (merge_by en_key xs ys) = version_of k (xs @ ys)"
proof (induction "en_key :: lsm_entry \<Rightarrow> string" xs ys rule: merge_by.induct)
  case (3 x xs y ys)
  show ?case
  proof (cases "en_key x \<le> en_key y")
    case True
    then show ?thesis using 3 by (simp add: version_simps)
  next
    case False
    show ?thesis
    proof (cases "en_key y = k")
      case True
      then have "k \<notin> en_key ` set (x # xs)" using False "3.prems"(1) by (auto simp: not_le)
      then have "version_of k (x # xs) = None" by (simp add: version_of_None)
      then show ?thesis
        using True False by (simp add: version_of_append) (auto simp: version_simps split: if_splits option.splits)
    next
      case ne: False
      then show ?thesis using False 3 by (auto simp: version_simps split: option.splits)
    qed
  qed
qed (auto simp: version_simps split: option.splits)

lemma heapq_merge_sorted:
  "(\<And>r. r \<in> set runs \<Longrightarrow> sorted (map en_key r)) \<Longrightarrow> sorted (map en_key (heapq_merge runs))"
  unfolding heapq_merge_def by (rule sorted_heapq_merge_by)

lemma version_of_heapq_merge:
  "(\<And>r. r \<in> set runs \<Longrightarrow> sorted (map en_key r)) \<Longrightarrow>
    version_of k (heapq_merge runs) = version_of k (concat runs)"
proof (induction runs)
  case (Cons r runs)
  have "version_of k (heapq_merge (r # runs)) = version_of k (r @ heapq_merge runs)"
    using version_of_merge_by [of r "heapq_merge runs" k] heapq_merge_sorted [of runs] Cons.prems
    by (simp add: heapq_merge_def heapq_merge_by_def)
  then show ?case using Cons by (simp add: version_of_append split: option.splits)
qed (simp add: heapq_merge_def heapq_merge_by_def)

lemma set_compact_loop: "set (compact_loop l es) \<subseteq> {e \<in> set es. \<not> en_tombstone e}"
  by (induction l es rule: compact_loop.induct) auto

lemma compact_loop_skips: "l = Some k \<Longrightarrow> sorted (map en_key es) \<Longrightarrow> \<forall>e \<in> set es. k \<le> en_key e \<Longrightarrow>
    k \<notin> en_key ` set (compact_loop l es)"
proof (induction l es rule: compact_loop.induct)
  case (2 l e es)
  show ?case
  proof (cases "en_key e = k")
    case True
    then show ?thesis using 2 by simp
  next
    case False
    then have "k < en_key e" using "2.prems"(3) by force
    then have "\<forall>x \<in> set (e # es). k < en_key x" using "2.prems"(2) by auto
    then have "k \<notin> en_key ` set (compact_loop (Some (en_key e)) es)"
      using set_compact_loop [of "Some (en_key e)" es] by fastforce
    then show ?thesis using False "2.prems"(1) by auto
  qed
qed simp

lemma compact_loop_sorted:
  "sorted (map en_key es) \<Longrightarrow>
    sorted (map en_key (compact_loop l es)) \<and> distinct (map en_key (compact_loop l es))"
proof (induction l es rule: compact_loop.induct)
  case (2 l e es)
  have "en_key e \<notin> en_key ` set (compact_loop (Some (en_key e)) es)"
    using compact_loop_skips [OF refl, of es "en_key e"] "2.prems" by simp
  moreover have "\<forall>x \<in> set (compact_loop (Some (en_key e)) es). en_key e \<le> en_key x"
    using set_compact_loop [of "Some (en_key e)" es] "2.prems" by auto
  ultimately show ?case using 2 by auto
qed simp

text \<open>Compaction keeps the newest version of each key and drops it if it is a tombstone.\<close>

lemma version_of_compact_loop:
  "sorted (map en_key es) \<Longrightarrow> l \<noteq> Some k \<Longrightarrow>
    version_of k (compact_loop l es) =
      (case version_of k es of Some e \<Rightarrow> if en_tombstone e then None else Some e | None \<Rightarrow> None)"
proof (induction l es rule: compact_loop.induct)
  case (2 l e es)
  show ?case
  proof (cases "en_key e = k")
    case True
    then have "version_of k (compact_loop (Some k) es) = None"
      using compact_loop_skips [OF refl, of es k] "2.prems"(1) by (auto simp: version_of_None)
    then show ?thesis using True "2.prems"(2) by (auto simp: version_simps)
  next
    case False
    then show ?thesis using 2 by (simp add: version_simps)
  qed
qed (simp add: version_simps)

section \<open>The invariant and the dictionary it represents\<close>

definition memtable_ok :: "memtable \<Rightarrow> bool" where
  "memtable_ok m \<longleftrightarrow> dict_ok m \<and> (\<forall>(k, e) \<in> set m. en_key e = k)"

definition lsm_inv :: "(string \<Rightarrow> nat list) \<Rightarrow> lsm_tree \<Rightarrow> bool" where
  "lsm_inv sha t \<longleftrightarrow> 0 < lt_block_size t \<and> int (length (lt_memtable t)) < lt_memtable_limit t \<and>
     lt_memtable t = fold mt_put (wl_entries (lt_wal t)) [] \<and>
     (\<forall>s \<in> set (lt_tables t). table_ok sha s) \<and> sorted (map st_id (lt_tables t)) \<and>
     (\<forall>s \<in> set (lt_tables t). st_id s < lt_next_id t)"

definition lsm_versions :: "lsm_tree \<Rightarrow> lsm_entry list" where
  "lsm_versions t = mt_sorted_entries (lt_memtable t) @ concat (map st_entries (rev (lt_tables t)))"

definition live_value :: "lsm_entry option \<Rightarrow> string option" where
  "live_value v = (case v of Some e \<Rightarrow> en_value e | None \<Rightarrow> None)"

definition lsm_abs :: "lsm_tree \<Rightarrow> string \<Rightarrow> string option" where
  "lsm_abs t k = live_value (version_of k (lsm_versions t))"

lemma memtable_ok_put: "memtable_ok m \<Longrightarrow> memtable_ok (mt_put e m)"
  by (auto simp: memtable_ok_def mt_put_def dest!: dict_vals_set)

lemma memtable_ok_replay: "memtable_ok (fold mt_put es [])"
proof (induction es rule: rev_induct)
  case (snoc e es)
  then show ?case by (simp add: memtable_ok_put)
qed (simp add: memtable_ok_def)

lemma version_of_memtable:
  assumes "memtable_ok m"
  shows "version_of k (mt_sorted_entries m) = dict_get m k"
proof -
  have v: "version_of k (map (\<lambda>key. the (dict_get m key)) ks) = (if k \<in> set ks then dict_get m k else None)"
    if "set ks \<subseteq> fst ` set m" for ks
    using that
  proof (induction ks)
    case (Cons x ks)
    then obtain e where e: "(x, e) \<in> set m" by auto
    then have "dict_get m x = Some e" "en_key e = x"
      using assms by (auto simp: memtable_ok_def dict_ok_def map_of_eq_Some_iff)
    then show ?case using Cons by (auto simp: version_simps)
  qed (simp add: version_simps)
  show ?thesis
    using v [of "sort (dict_keys m)"] dict_get_None [of m k] by (auto simp: mt_sorted_entries_def)
qed

lemma memtable_sorted_entries:
  assumes "memtable_ok m"
  shows "map en_key (mt_sorted_entries m) = sort (dict_keys m)"
proof -
  have "en_key (the (dict_get m k)) = k" if "k \<in> set (dict_keys m)" for k
  proof -
    obtain e where e: "(k, e) \<in> set m" using \<open>k \<in> set (dict_keys m)\<close> by auto
    then have "dict_get m k = Some e" "en_key e = k"
      using assms by (auto simp: memtable_ok_def dict_ok_def map_of_eq_Some_iff)
    then show ?thesis by simp
  qed
  then have "map (\<lambda>k. en_key (the (dict_get m k))) (sort (dict_keys m)) = map id (sort (dict_keys m))"
    by (intro map_cong) auto
  then show ?thesis by (simp add: mt_sorted_entries_def comp_def)
qed

lemma lookup_loop_value:
  "(\<And>s. s \<in> set ss \<Longrightarrow> table_ok sha s) \<Longrightarrow>
    rt_value (lookup_loop sha k ss r b) = live_value (version_of k (concat (map st_entries ss)))"
proof (induction ss arbitrary: r b)
  case (Cons s ss)
  have ok: "table_ok sha s" using Cons.prems by simp
  note g = st_get_scan [OF ok, of k]
  have "\<not> st_might_contain sha s k \<Longrightarrow> version_of k (st_entries s) = None"
    using st_bloom_sound [OF ok] .
  then show ?case
    using Cons g by (auto simp: version_of_append live_value_def split: option.splits)
qed (simp add: version_simps live_value_def)

lemma lookup_loop_cost:
  "rt_block_reads (lookup_loop sha k ss r b) + rt_bloom_skips (lookup_loop sha k ss r b) \<le> r + b + int (length ss)"
proof (induction ss arbitrary: r b)
  case (Cons s ss)
  show ?case using Cons [of r "b + 1"] Cons [of "r + 1" b] by (auto split: option.splits)
qed simp

lemma lsm_inv_memtable: "lsm_inv sha t \<Longrightarrow> memtable_ok (lt_memtable t)"
  by (simp add: lsm_inv_def memtable_ok_replay)

lemma lsm_get_abs:
  assumes "lsm_inv sha t"
  shows "lsm_get sha t k = lsm_abs t k"
proof -
  have m: "version_of k (mt_sorted_entries (lt_memtable t)) = dict_get (lt_memtable t) k"
    using version_of_memtable [OF lsm_inv_memtable [OF assms]] .
  have "rt_value (lookup_loop sha k (rev (lt_tables t)) 0 0) =
      live_value (version_of k (concat (map st_entries (rev (lt_tables t)))))"
    using assms by (intro lookup_loop_value) (auto simp: lsm_inv_def)
  then show ?thesis
    by (auto simp: lsm_get_def lsm_lookup_def lsm_abs_def lsm_versions_def version_of_append m
        mt_get_def live_value_def split: option.splits)
qed


lemma flush_table:
  assumes "lsm_inv sha t \<or> 0 < lt_block_size t \<and> memtable_ok (lt_memtable t)" "lt_memtable t \<noteq> []"
  shows "\<exists>s. sstable_new sha (mt_sorted_entries (lt_memtable t)) (lt_next_id t) (lt_block_size t) = Inr s"
proof (rule sstable_new_exists)
  have m: "memtable_ok (lt_memtable t)" using assms(1) lsm_inv_memtable by blast
  show "0 < lt_block_size t" using assms(1) by (auto simp: lsm_inv_def)
  show "sorted (map en_key (mt_sorted_entries (lt_memtable t)))"
    "distinct (map en_key (mt_sorted_entries (lt_memtable t)))"
    using m by (simp_all add: memtable_sorted_entries memtable_ok_def dict_ok_def)
  show "mt_sorted_entries (lt_memtable t) \<noteq> []"
    using assms(2) memtable_sorted_entries [OF m]
    by (metis length_0_conv length_map length_sort)
qed

definition lsm_tables_ok :: "(string \<Rightarrow> nat list) \<Rightarrow> lsm_tree \<Rightarrow> bool" where
  "lsm_tables_ok sha t \<longleftrightarrow> 0 < lt_block_size t \<and> 0 < lt_memtable_limit t \<and>
     lt_memtable t = fold mt_put (wl_entries (lt_wal t)) [] \<and>
     (\<forall>s \<in> set (lt_tables t). table_ok sha s) \<and> sorted (map st_id (lt_tables t)) \<and>
     (\<forall>s \<in> set (lt_tables t). st_id s < lt_next_id t)"

lemma lsm_inv_tables:
  "lsm_inv sha t \<longleftrightarrow> lsm_tables_ok sha t \<and> int (length (lt_memtable t)) < lt_memtable_limit t"
  by (auto simp: lsm_inv_def lsm_tables_ok_def)

lemma lsm_flush_ok:
  assumes ok: "lsm_tables_ok sha t"
  obtains r t' where "lsm_flush sha t = (Inr r, t')" "lsm_inv sha t'" "lsm_versions t' = lsm_versions t"
    "lt_memtable t' = []" "lt_wal t' = (lt_wal t)\<lparr>wl_entries := []\<rparr> \<or> t' = t"
    "lt_memtable_limit t' = lt_memtable_limit t" "lt_block_size t' = lt_block_size t"
proof (cases "lt_memtable t = []")
  case True
  then have "lsm_flush sha t = (Inr None, t)" by (simp add: lsm_flush_def)
  moreover have "lsm_inv sha t" using True ok by (simp add: lsm_inv_tables lsm_tables_ok_def)
  ultimately show ?thesis using True that by blast
next
  case False
  have m: "memtable_ok (lt_memtable t)" using ok by (simp add: lsm_tables_ok_def memtable_ok_replay)
  obtain s where s: "sstable_new sha (mt_sorted_entries (lt_memtable t)) (lt_next_id t) (lt_block_size t) = Inr s"
    using flush_table [of sha t] False ok m by (auto simp: lsm_tables_ok_def)
  define t' where "t' = t\<lparr>lt_tables := lt_tables t @ [s], lt_memtable := [],
      lt_wal := (lt_wal t)\<lparr>wl_entries := []\<rparr>, lt_next_id := lt_next_id t + 1,
      lt_table_bytes := lt_table_bytes t + st_size s\<rparr>"
  have new: "st_entries s = mt_sorted_entries (lt_memtable t)" "st_id s = lt_next_id t"
    using sstable_newD [OF s] by simp_all
  have run: "lsm_flush sha t = (Inr (Some s), t')"
    using False s by (simp add: lsm_flush_def lsm_new_table_def wal_truncate_def t'_def)
  have inv: "lsm_inv sha t'"
    using ok sstable_new_ok [OF s] new(2)
    by (auto simp: lsm_inv_def lsm_tables_ok_def t'_def sorted_append less_imp_le)
  have vers: "lsm_versions t' = lsm_versions t"
    using new(1) by (simp add: lsm_versions_def t'_def mt_sorted_entries_def)
  show ?thesis by (rule that [OF run inv vers]) (simp_all add: t'_def)
qed

lemma lsm_write_ok:
  assumes inv: "lsm_inv sha t" and key: "en_key e \<noteq> []"
  shows "\<exists>t'. lsm_write sha e t = (Inr (), t') \<and> lsm_inv sha t' \<and>
    lsm_abs t' = (lsm_abs t)(en_key e := en_value e) \<and>
    lt_memtable_limit t' = lt_memtable_limit t \<and> lt_block_size t' = lt_block_size t"
proof -
  define t1 where "t1 = t\<lparr>lt_wal := wal_append (lt_wal t) e, lt_memtable := mt_put e (lt_memtable t),
      lt_user_bytes := lt_user_bytes t + en_size e\<rparr>"
  have ok: "lsm_tables_ok sha t1"
    using inv unfolding lsm_inv_tables by (auto simp: lsm_tables_ok_def t1_def wal_append_def)
  have m: "memtable_ok (lt_memtable t)" by (rule lsm_inv_memtable [OF inv])
  have "version_of k (lsm_versions t1) = (if k = en_key e then Some e else version_of k (lsm_versions t))" for k
    using version_of_memtable [OF m, of k] version_of_memtable [OF memtable_ok_put [OF m], of k e]
    by (auto simp: lsm_versions_def version_of_append t1_def mt_put_def)
  then have abs: "lsm_abs t1 = (lsm_abs t)(en_key e := en_value e)"
    by (auto simp: lsm_abs_def live_value_def)
  show ?thesis
  proof (cases "lt_memtable_limit t1 \<le> int (length (lt_memtable t1))")
    case True
    obtain r t' where f: "lsm_flush sha t1 = (Inr r, t')" "lsm_inv sha t'" "lsm_versions t' = lsm_versions t1"
      "lt_memtable_limit t' = lt_memtable_limit t1" "lt_block_size t' = lt_block_size t1"
      by (rule lsm_flush_ok [OF ok]) blast
    have "lsm_write sha e t = (Inr (), t')"
      using key f(1) True by (simp add: lsm_write_def t1_def [symmetric])
    moreover have "lsm_abs t' = lsm_abs t1" by (rule ext) (simp add: lsm_abs_def f(3))
    ultimately show ?thesis using f abs by (simp add: t1_def)
  next
    case False
    have "lsm_write sha e t = (Inr (), t1)" using key False by (simp add: lsm_write_def t1_def [symmetric])
    moreover have "lsm_inv sha t1" using ok False by (simp add: lsm_inv_tables)
    ultimately show ?thesis using abs by (simp add: t1_def)
  qed
qed

text \<open>A major compaction: at most one table is left, the live values are the same ones.\<close>

lemma lsm_compact_ok:
  assumes inv: "lsm_inv sha t"
  obtains r t' where "lsm_compact sha t = (Inr r, t')" "lsm_inv sha t'" "lsm_abs t' = lsm_abs t"
    "length (lt_tables t') \<le> 1" "2 \<le> length (lt_tables t) \<longrightarrow>
       (\<forall>s \<in> set (lt_tables t'). \<forall>e \<in> set (st_entries s). en_value e \<noteq> None)"
    "lt_memtable_limit t' = lt_memtable_limit t" "lt_block_size t' = lt_block_size t"
proof (cases "length (lt_tables t) < 2")
  case True
  then have "lsm_compact sha t = (Inr None, t)" by (simp add: lsm_compact_def)
  with inv True show ?thesis by (intro that [of None t]) auto
next
  case False
  define merged where "merged = heapq_merge (map st_entries (rev (lt_tables t)))"
  define left where "left = compact_loop None merged"
  have runs: "sorted (map en_key r)" if "r \<in> set (map st_entries (rev (lt_tables t)))" for r
    using that inv sstable_newD(6) by (fastforce simp: lsm_inv_def table_ok_def)
  have srt: "sorted (map en_key merged)" unfolding merged_def by (rule heapq_merge_sorted) (rule runs)
  have ver: "version_of k merged = version_of k (concat (map st_entries (rev (lt_tables t))))" for k
    unfolding merged_def by (rule version_of_heapq_merge) (rule runs)
  have live: "live_value (version_of k left) = live_value (version_of k merged)" for k
    using version_of_compact_loop [OF srt, of None k]
    by (auto simp: left_def live_value_def en_tombstone_def split: option.splits)
  have notomb: "en_value e \<noteq> None" if "e \<in> set left" for e
    using that set_compact_loop [of None merged] by (auto simp: left_def en_tombstone_def)
  have abs: "lsm_abs t' = lsm_abs t"
    if "lt_memtable t' = lt_memtable t" "concat (map st_entries (rev (lt_tables t'))) = left" for t'
  proof
    fix k show "lsm_abs t' k = lsm_abs t k"
      using that live [of k] ver [of k]
      by (auto simp: lsm_abs_def lsm_versions_def version_of_append live_value_def split: option.splits)
  qed
  show ?thesis
  proof (cases "left = []")
    case True
    then have run: "lsm_compact sha t = (Inr None, t\<lparr>lt_tables := []\<rparr>)"
      using False by (simp add: lsm_compact_def merged_def left_def)
    show ?thesis
      by (rule that [OF run]) (use inv abs [of "t\<lparr>lt_tables := []\<rparr>"] True in \<open>auto simp: lsm_inv_def\<close>)
  next
    case ne: False
    have d: "sorted (map en_key left)" "distinct (map en_key left)"
      using compact_loop_sorted [OF srt] by (simp_all add: left_def)
    have "0 < lt_block_size t" using inv by (simp add: lsm_inv_def)
    then obtain s where s: "sstable_new sha left (lt_next_id t) (lt_block_size t) = Inr s"
      using sstable_new_exists [OF ne _ d] by blast
    define t' where "t' = t\<lparr>lt_tables := [s], lt_next_id := lt_next_id t + 1,
      lt_table_bytes := lt_table_bytes t + st_size s\<rparr>"
    have e: "st_entries s = left" "st_id s = lt_next_id t" using sstable_newD [OF s] by simp_all
    have run: "lsm_compact sha t = (Inr (Some s), t')"
      using False ne s by (simp add: lsm_compact_def merged_def [symmetric] left_def [symmetric]
          lsm_new_table_def t'_def)
    have "lsm_inv sha t'" using inv sstable_new_ok [OF s] e by (auto simp: lsm_inv_def t'_def)
    then show ?thesis
      by (rule that [OF run]) (use abs [of t'] e notomb in \<open>auto simp: t'_def\<close>)
  qed
qed

lemma lsm_recover_ok:
  assumes inv: "lsm_inv sha t"
  obtains t' where "lsm_recover (lt_wal t) (lt_tables t) (lt_memtable_limit t) (lt_block_size t) = Inr t'"
    "lsm_inv sha t'" "lsm_versions t' = lsm_versions t"
    "lt_memtable_limit t' = lt_memtable_limit t" "lt_block_size t' = lt_block_size t"
proof -
  have lim: "0 < lt_memtable_limit t" using inv by (simp add: lsm_inv_tables lsm_tables_ok_def)
  have srt: "sort_key st_id (lt_tables t) = lt_tables t"
    using inv by (simp add: lsm_inv_def sorted_sort_id sort_key_id_if_sorted)
  define t' where "t' = \<lparr>lt_memtable_limit = lt_memtable_limit t, lt_block_size = lt_block_size t,
      lt_wal = lt_wal t, lt_memtable = fold mt_put (wl_entries (lt_wal t)) [], lt_tables = lt_tables t,
      lt_next_id = (if lt_tables t = [] then 0 else Max (st_id ` set (lt_tables t))) + 1,
      lt_user_bytes = 0, lt_table_bytes = 0\<rparr>"
  have run: "lsm_recover (lt_wal t) (lt_tables t) (lt_memtable_limit t) (lt_block_size t) = Inr t'"
    using lim by (simp add: lsm_recover_def lsm_new_def srt wal_replay_def t'_def Let_def)
  have "st_id s < Max (st_id ` set (lt_tables t)) + 1" if "s \<in> set (lt_tables t)" for s
    using that by (simp add: less_add_one le_less_trans Max_ge)
  then have "lsm_inv sha t'" using inv by (auto simp: lsm_inv_def t'_def)
  moreover have "lsm_versions t' = lsm_versions t" using inv by (simp add: lsm_versions_def t'_def lsm_inv_def)
  ultimately show ?thesis using that run by (simp add: t'_def)
qed


section \<open>Range scans\<close>

lemma scan_fold_get:
  "dict_get (fold (scan_step lo hi) es d) k =
    (case dict_get d k of Some e \<Rightarrow> Some e
     | None \<Rightarrow> if lo \<le> k \<and> k < hi then version_of k es else None)"
proof (induction es arbitrary: d)
  case (Cons e es)
  show ?case
    unfolding fold.simps comp_apply Cons.IH
    by (auto simp: scan_step_def version_simps split: option.splits)
qed (auto simp: version_simps split: option.splits)

lemma scan_fold_ok: "dict_ok d \<Longrightarrow> dict_ok (fold (scan_step lo hi) es d)"
  by (induction es arbitrary: d) (auto simp: scan_step_def)

lemma fold_fold_concat: "fold (fold f) xss s = fold f (concat xss) s"
  by (induction xss arbitrary: s) auto

lemma lsm_scan_sorted_rows:
  assumes d: "dict_ok d" and same: "\<And>k. lsm_abs t k = dict_get d k"
  shows "lsm_scan t lo hi = sort (filter (\<lambda>(k, v). lo \<le> k \<and> k < hi) d)"
proof -
  define newest where "newest = fold (scan_step lo hi) (lsm_versions t) []"
  define rows where "rows = map (\<lambda>(k, e). (k, the (en_value e))) (filter (\<lambda>(k, e). en_value e \<noteq> None) newest)"
  have ok: "dict_ok newest" by (simp add: newest_def scan_fold_ok)
  have get: "dict_get newest k = (if lo \<le> k \<and> k < hi then version_of k (lsm_versions t) else None)" for k
    by (simp add: newest_def scan_fold_get)
  have mem: "(k, v) \<in> set rows \<longleftrightarrow> lo \<le> k \<and> k < hi \<and> dict_get d k = Some v" for k v
  proof -
    have "(k, v) \<in> set rows \<longleftrightarrow> (\<exists>e. (k, e) \<in> set newest \<and> en_value e = Some v)"
      by (force simp: rows_def)
    also have "\<dots> \<longleftrightarrow> (\<exists>e. dict_get newest k = Some e \<and> en_value e = Some v)"
      using dict_get_mem [OF ok] by blast
    also have "\<dots> \<longleftrightarrow> lo \<le> k \<and> k < hi \<and> lsm_abs t k = Some v"
      by (auto simp: get lsm_abs_def live_value_def split: option.splits)
    finally show ?thesis using same by simp
  qed
  have "map fst rows = map fst (filter (\<lambda>(k, e). en_value e \<noteq> None) newest)"
    by (simp add: rows_def case_prod_beta comp_def)
  moreover have "distinct (map fst (filter (\<lambda>(k, e). en_value e \<noteq> None) newest))"
    using dict_ok_filter [OF ok] by (simp add: dict_ok_def)
  ultimately have "distinct rows" by (metis distinct_map)
  moreover have "distinct (filter (\<lambda>(k, v). lo \<le> k \<and> k < hi) d)"
    using d by (simp add: dict_ok_def distinct_map)
  moreover have "set rows = set (filter (\<lambda>(k, v). lo \<le> k \<and> k < hi) d)"
    using mem dict_get_mem [OF d] by auto
  ultimately have "mset rows = mset (filter (\<lambda>(k, v). lo \<le> k \<and> k < hi) d)"
    by (metis set_eq_iff_mset_eq_distinct)
  then have "sort rows = sort (filter (\<lambda>(k, v). lo \<le> k \<and> k < hi) d)"
    by (intro properties_for_sort) simp_all
  moreover have "lsm_scan t lo hi = sort rows"
    by (simp add: lsm_scan_def rows_def newest_def lsm_versions_def fold_fold_concat)
  ultimately show ?thesis by simp
qed

section \<open>Programs of calls\<close>

text \<open>
  A crash loses the memtable and every counter: the tree that goes on is the one \<^verbatim>\<open>recover\<close>
  builds from the log and the tables.
\<close>

datatype lsm_call =
    LsmPut string string | LsmDelete string | LsmGet string | LsmScan string string
  | LsmFlush | LsmCompact | LsmCrash

datatype lsm_answer =
    LsmOk | LsmRaised exn | LsmValue "string option" | LsmRows "(string \<times> string) list"

definition answer_of :: "'a result \<Rightarrow> lsm_answer" where
  "answer_of r = (case r of Inl e \<Rightarrow> LsmRaised e | Inr _ \<Rightarrow> LsmOk)"

fun lsm_do :: "(string \<Rightarrow> nat list) \<Rightarrow> lsm_call \<Rightarrow> lsm_tree \<Rightarrow> lsm_answer \<times> lsm_tree" where
  "lsm_do sha (LsmPut k v) t = (case lsm_put sha k v t of (r, t') \<Rightarrow> (answer_of r, t'))"
| "lsm_do sha (LsmDelete k) t = (case lsm_delete sha k t of (r, t') \<Rightarrow> (answer_of r, t'))"
| "lsm_do sha (LsmGet k) t = (LsmValue (lsm_get sha t k), t)"
| "lsm_do sha (LsmScan lo hi) t = (LsmRows (lsm_scan t lo hi), t)"
| "lsm_do sha LsmFlush t = (case lsm_flush sha t of (r, t') \<Rightarrow> (answer_of r, t'))"
| "lsm_do sha LsmCompact t = (case lsm_compact sha t of (r, t') \<Rightarrow> (answer_of r, t'))"
| "lsm_do sha LsmCrash t =
     (case lsm_recover (lt_wal t) (lt_tables t) (lt_memtable_limit t) (lt_block_size t) of
        Inl e \<Rightarrow> (LsmRaised e, t) | Inr t' \<Rightarrow> (LsmOk, t'))"

fun lsm_answers :: "(string \<Rightarrow> nat list) \<Rightarrow> lsm_call list \<Rightarrow> lsm_tree \<Rightarrow> lsm_answer list" where
  "lsm_answers sha [] t = []"
| "lsm_answers sha (c # cs) t = (case lsm_do sha c t of (a, t') \<Rightarrow> a # lsm_answers sha cs t')"

fun lsm_after :: "(string \<Rightarrow> nat list) \<Rightarrow> lsm_call list \<Rightarrow> lsm_tree \<Rightarrow> lsm_tree" where
  "lsm_after sha [] t = t"
| "lsm_after sha (c # cs) t = lsm_after sha cs (snd (lsm_do sha c t))"

text \<open>The specification: a dict that refuses the empty key and that nothing else can change.\<close>

fun dict_do :: "lsm_call \<Rightarrow> (string, string) dict \<Rightarrow> lsm_answer \<times> (string, string) dict" where
  "dict_do (LsmPut k v) d = (if k = [] then (LsmRaised ValidationError, d) else (LsmOk, dict_set k v d))"
| "dict_do (LsmDelete k) d = (if k = [] then (LsmRaised ValidationError, d) else (LsmOk, dict_del k d))"
| "dict_do (LsmGet k) d = (LsmValue (dict_get d k), d)"
| "dict_do (LsmScan lo hi) d = (LsmRows (sort (filter (\<lambda>(k, v). lo \<le> k \<and> k < hi) d)), d)"
| "dict_do _ d = (LsmOk, d)"

fun dict_answers :: "lsm_call list \<Rightarrow> (string, string) dict \<Rightarrow> lsm_answer list" where
  "dict_answers [] d = []"
| "dict_answers (c # cs) d = (case dict_do c d of (a, d') \<Rightarrow> a # dict_answers cs d')"

definition lsm_like :: "(string \<Rightarrow> nat list) \<Rightarrow> lsm_tree \<Rightarrow> (string, string) dict \<Rightarrow> bool" where
  "lsm_like sha t d \<longleftrightarrow> lsm_inv sha t \<and> dict_ok d \<and> lsm_abs t = dict_get d"

lemma lsm_new_like:
  assumes "lsm_new limit bs None = Inr t" "0 < bs"
  shows "lsm_like sha t []"
  using assms by (auto simp: lsm_new_def lsm_like_def lsm_inv_def wal_new_def lsm_abs_def lsm_versions_def
      mt_sorted_entries_def version_simps live_value_def split: if_splits)

lemma lsm_write_like:
  assumes like: "lsm_like sha t d" and key: "k \<noteq> []"
  shows "\<exists>t'. lsm_write sha \<lparr>en_key = k, en_value = v\<rparr> t = (Inr (), t') \<and>
    lsm_like sha t' (case v of Some x \<Rightarrow> dict_set k x d | None \<Rightarrow> dict_del k d)"
proof -
  obtain t' where t': "lsm_write sha \<lparr>en_key = k, en_value = v\<rparr> t = (Inr (), t')" "lsm_inv sha t'"
    "lsm_abs t' = (lsm_abs t)(k := v)"
    using lsm_write_ok [of sha t "\<lparr>en_key = k, en_value = v\<rparr>"] like key by (auto simp: lsm_like_def)
  have "lsm_like sha t' (case v of Some x \<Rightarrow> dict_set k x d | None \<Rightarrow> dict_del k d)"
    using like t'(2,3) by (auto simp: lsm_like_def fun_eq_iff split: option.splits)
  with t'(1) show ?thesis by blast
qed

lemma lsm_do_like:
  assumes like: "lsm_like sha t d"
  shows "fst (lsm_do sha c t) = fst (dict_do c d) \<and> lsm_like sha (snd (lsm_do sha c t)) (snd (dict_do c d))"
proof (cases c)
  case (LsmPut k v)
  show ?thesis
  proof (cases "k = []")
    case True
    then show ?thesis using LsmPut like by (simp add: lsm_put_def lsm_write_def answer_of_def)
  next
    case False
    then show ?thesis
      using LsmPut lsm_write_like [OF like False, of "Some v"] by (auto simp: lsm_put_def answer_of_def)
  qed
next
  case (LsmDelete k)
  show ?thesis
  proof (cases "k = []")
    case True
    then show ?thesis using LsmDelete like by (simp add: lsm_delete_def lsm_write_def answer_of_def)
  next
    case False
    then show ?thesis
      using LsmDelete lsm_write_like [OF like False, of None] by (auto simp: lsm_delete_def answer_of_def)
  qed
next
  case (LsmGet k)
  then show ?thesis using like lsm_get_abs [of sha t k] by (simp add: lsm_like_def)
next
  case (LsmScan lo hi)
  then show ?thesis using like lsm_scan_sorted_rows [of d t lo hi] by (simp add: lsm_like_def)
next
  case LsmFlush
  have "lsm_tables_ok sha t" using like by (simp add: lsm_like_def lsm_inv_tables)
  then obtain r t' where "lsm_flush sha t = (Inr r, t')" "lsm_inv sha t'" "lsm_versions t' = lsm_versions t"
    by (rule lsm_flush_ok) blast
  then show ?thesis using LsmFlush like by (simp add: answer_of_def lsm_like_def lsm_abs_def fun_eq_iff)
next
  case LsmCompact
  obtain r t' where "lsm_compact sha t = (Inr r, t')" "lsm_inv sha t'" "lsm_abs t' = lsm_abs t"
    by (rule lsm_compact_ok [of sha t]) (use like in \<open>auto simp: lsm_like_def\<close>)
  then show ?thesis using LsmCompact like by (simp add: answer_of_def lsm_like_def)
next
  case LsmCrash
  obtain t' where "lsm_recover (lt_wal t) (lt_tables t) (lt_memtable_limit t) (lt_block_size t) = Inr t'"
    "lsm_inv sha t'" "lsm_versions t' = lsm_versions t"
    by (rule lsm_recover_ok [of sha t]) (use like in \<open>auto simp: lsm_like_def\<close>)
  then show ?thesis using LsmCrash like by (simp add: lsm_like_def lsm_abs_def fun_eq_iff)
qed

lemma lsm_answers_like: "lsm_like sha t d \<Longrightarrow> lsm_answers sha cs t = dict_answers cs d"
proof (induction cs arbitrary: t d)
  case (Cons c cs)
  then show ?case using lsm_do_like [OF Cons.prems, of c] by (auto simp: case_prod_beta)
qed simp

lemma lsm_after_inv: "lsm_inv sha t \<Longrightarrow> dict_ok d \<Longrightarrow> lsm_abs t = dict_get d \<Longrightarrow> lsm_inv sha (lsm_after sha cs t)"
proof (induction cs arbitrary: t d)
  case (Cons c cs)
  have "lsm_like sha (snd (lsm_do sha c t)) (snd (dict_do c d))"
    using lsm_do_like [of sha t d c] Cons.prems by (simp add: lsm_like_def)
  then show ?case using Cons.IH by (auto simp: lsm_like_def)
qed simp

text \<open>C10. The tree is a dictionary: for every program of puts, deletes, gets, scans, flushes, major
  compactions and crashes followed by a recovery, whatever the memtable limit, the block size
  and the digest, every answer is the one a plain dict gives. Empty keys are refused, and no
  other call ever raises.
\<close>

theorem lsm_refines_dict:
  assumes "lsm_new memtable_limit block_size None = Inr t" and "0 < block_size"
  shows "lsm_answers sha256 calls t = dict_answers calls []"
  by (rule lsm_answers_like) (rule lsm_new_like [OF assms])

definition demo_sha :: "string \<Rightarrow> nat list" where
  "demo_sha k = replicate 16 (length k)"

definition demo_lsm :: lsm_tree where
  "demo_lsm = \<lparr>lt_memtable_limit = 2, lt_block_size = 2, lt_wal = wal_new, lt_memtable = [], lt_tables = [],
     lt_next_id = 1, lt_user_bytes = 0, lt_table_bytes = 0\<rparr>"

definition demo_calls :: "lsm_call list" where
  "demo_calls = [LsmPut ''b'' ''1'', LsmPut ''a'' ''2'', LsmDelete ''b'', LsmCrash, LsmPut ''c'' ''3'',
     LsmCompact, LsmPut '''' ''x'', LsmGet ''b'', LsmScan ''a'' ''z'']"

lemma lsm_refines_dict_witness:
  "lsm_answers demo_sha demo_calls demo_lsm =
    [LsmOk, LsmOk, LsmOk, LsmOk, LsmOk, LsmOk, LsmRaised ValidationError, LsmValue None,
     LsmRows [(''a'', ''2''), (''c'', ''3'')]]"
proof -
  have new: "lsm_new 2 2 None = Inr demo_lsm" by (simp add: lsm_new_def demo_lsm_def)
  show ?thesis
    unfolding lsm_refines_dict [OF new, of demo_sha demo_calls, simplified] by code_simp
qed


section \<open>What reads and compactions cost\<close>

lemma stats_fold_distinct:
  assumes "distinct (map en_key es)" "\<And>e. e \<in> set es \<Longrightarrow> dict_get d (en_key e) = None"
  shows "fold stats_step es d = d @ map (\<lambda>e. (en_key e, e)) es"
  using assms
proof (induction es arbitrary: d)
  case (Cons e es)
  have "stats_step e d = d @ [(en_key e, e)]"
    using Cons.prems(2) [of e] by (simp add: stats_step_def dict_set_new)
  moreover have "dict_get (d @ [(en_key e, e)]) (en_key x) = None" if "x \<in> set es" for x
  proof -
    have "en_key x \<in> en_key ` set es" using that by blast
    moreover have "en_key e \<notin> en_key ` set es" using Cons.prems(1) by simp
    ultimately have "en_key x \<noteq> en_key e" by metis
    moreover have "dict_get d (en_key x) = None" using Cons.prems(2) that by simp
    ultimately show ?thesis by (simp add: map_add_def)
  qed
  ultimately show ?case using Cons.IH [of "d @ [(en_key e, e)]"] Cons.prems by simp
qed simp

lemma stats_tight:
  assumes ok: "\<forall>s \<in> set (lt_tables t). table_ok sha s" and one: "length (lt_tables t) \<le> 1"
    and live: "\<forall>s \<in> set (lt_tables t). \<forall>e \<in> set (st_entries s). en_value e \<noteq> None"
  shows "ls_table_entries (lsm_stats_of t) = ls_live_entries (lsm_stats_of t)"
    "ls_table_bytes (lsm_stats_of t) = ls_live_bytes (lsm_stats_of t)"
proof -
  have "ls_table_entries (lsm_stats_of t) = ls_live_entries (lsm_stats_of t) \<and>
    ls_table_bytes (lsm_stats_of t) = ls_live_bytes (lsm_stats_of t)"
  proof (cases "lt_tables t")
    case Nil
    then show ?thesis by (simp add: lsm_stats_of_def)
  next
    case (Cons s ss)
    then have t: "lt_tables t = [s]" using one by simp
    have "distinct (map en_key (st_entries s))"
      using ok t sstable_newD(7) by (fastforce simp: table_ok_def)
    then have "fold stats_step (st_entries s) [] = map (\<lambda>e. (en_key e, e)) (st_entries s)"
      using stats_fold_distinct [of "st_entries s" "[]"] by simp
    moreover have "filter (\<lambda>e. \<not> en_tombstone e) (st_entries s) = st_entries s"
      using live t by (simp add: filter_id_conv en_tombstone_def)
    ultimately show ?thesis by (simp add: lsm_stats_of_def t comp_def st_size_def)
  qed
  then show "ls_table_entries (lsm_stats_of t) = ls_live_entries (lsm_stats_of t)"
    "ls_table_bytes (lsm_stats_of t) = ls_live_bytes (lsm_stats_of t)" by simp_all
qed

definition read_cost :: "(string \<Rightarrow> nat list) \<Rightarrow> lsm_tree \<Rightarrow> string \<Rightarrow> int" where
  "read_cost sha t k = rt_block_reads (lsm_lookup sha t k) + rt_bloom_skips (lsm_lookup sha t k)"

lemma read_cost_tables: "read_cost sha t k \<le> int (length (lt_tables t))"
  using lookup_loop_cost [of sha k "rev (lt_tables t)" 0 0]
  by (auto simp: read_cost_def lsm_lookup_def split: option.splits)

lemma lsm_flush_limit [simp]: "lt_memtable_limit (snd (lsm_flush sha t)) = lt_memtable_limit t"
  by (auto simp: lsm_flush_def lsm_new_table_def split: sum.splits)

lemma lsm_write_limit [simp]: "lt_memtable_limit (snd (lsm_write sha e t)) = lt_memtable_limit t"
proof -
  have "lt_memtable_limit (snd (case lsm_flush sha u of (Inl x, t2) \<Rightarrow> (Inl x, t2) | (Inr _, t2) \<Rightarrow> (Inr (), t2)))
      = lt_memtable_limit u" for u
    using lsm_flush_limit [of sha u] by (cases "lsm_flush sha u") (auto split: sum.splits)
  then show ?thesis by (simp add: lsm_write_def Let_def)
qed

lemma lsm_compact_limit [simp]: "lt_memtable_limit (snd (lsm_compact sha t)) = lt_memtable_limit t"
  by (auto simp: lsm_compact_def lsm_new_table_def Let_def split: sum.splits)

lemma lsm_do_limit [simp]: "lt_memtable_limit (snd (lsm_do sha c t)) = lt_memtable_limit t"
  by (cases c)
    (auto simp: lsm_put_def lsm_delete_def case_prod_beta lsm_recover_def lsm_new_def Let_def split: sum.splits)

lemma lsm_after_limit [simp]: "lt_memtable_limit (lsm_after sha cs t) = lt_memtable_limit t"
  by (induction cs arbitrary: t) auto

lemma compaction_tight:
  assumes inv: "lsm_inv sha t" and run: "lsm_compact sha t = (r, t')" and two: "2 \<le> length (lt_tables t)"
  shows "ls_table_entries (lsm_stats_of t') = ls_live_entries (lsm_stats_of t') \<and>
    ls_table_bytes (lsm_stats_of t') = ls_live_bytes (lsm_stats_of t') \<and> read_cost sha t' key \<le> 1"
proof -
  obtain "lsm_inv sha t'" "length (lt_tables t') \<le> 1"
    "\<forall>s \<in> set (lt_tables t'). \<forall>e \<in> set (st_entries s). en_value e \<noteq> None"
    by (rule lsm_compact_ok [OF inv]) (use run two in auto)
  moreover from this have "\<forall>s \<in> set (lt_tables t'). table_ok sha s" by (simp add: lsm_inv_def)
  ultimately show ?thesis using stats_tight [of t' sha] read_cost_tables [of sha t' key] by simp
qed

text \<open>After any program of calls the memtable is below its limit and a point read touches each
  table at most once, in a block or in its filter. A major compaction of two or more tables then
  leaves one table at most, with no tombstone and no second version: the entries and the bytes
  of the tables are those of the live data, so nothing is amplified any more, and a read costs
  one block at most.
\<close>

theorem lsm_costs_bounded:
  assumes "lsm_new memtable_limit block_size None = Inr t0" and "0 < block_size"
    and "t = lsm_after sha256 calls t0" and "lsm_compact sha256 t = (r, t')"
  shows "int (length (lt_memtable t)) < memtable_limit \<and>
    read_cost sha256 t key \<le> int (length (lt_tables t)) \<and>
    (2 \<le> length (lt_tables t) \<longrightarrow>
      ls_table_entries (lsm_stats_of t') = ls_live_entries (lsm_stats_of t') \<and>
      ls_table_bytes (lsm_stats_of t') = ls_live_bytes (lsm_stats_of t') \<and>
      read_cost sha256 t' key \<le> 1)"
proof -
  have like: "lsm_like sha256 t0 []" by (rule lsm_new_like [OF assms(1,2)])
  have inv: "lsm_inv sha256 t"
    unfolding assms(3) by (rule lsm_after_inv [where d = "[]"]) (use like in \<open>auto simp: lsm_like_def\<close>)
  have "lt_memtable_limit t = memtable_limit"
    using assms(1) by (auto simp: assms(3) lsm_new_def split: if_splits)
  then have "int (length (lt_memtable t)) < memtable_limit" using inv unfolding lsm_inv_tables by metis
  then show ?thesis using compaction_tight [OF inv assms(4)] read_cost_tables by blast
qed

definition demo_writes :: "lsm_call list" where
  "demo_writes = [LsmPut ''b'' ''1'', LsmPut ''a'' ''2'', LsmDelete ''b'', LsmPut ''c'' ''3'']"

lemma lsm_costs_bounded_witness:
  "ls_table_entries (lsm_stats_of (lsm_after demo_sha demo_writes demo_lsm)) = 4 \<and>
   ls_table_entries (lsm_stats_of (snd (lsm_compact demo_sha (lsm_after demo_sha demo_writes demo_lsm)))) = 2 \<and>
   ls_live_entries (lsm_stats_of (snd (lsm_compact demo_sha (lsm_after demo_sha demo_writes demo_lsm)))) = 2 \<and>
   read_cost demo_sha (snd (lsm_compact demo_sha (lsm_after demo_sha demo_writes demo_lsm))) ''b'' \<le> 1"
proof -
  let ?t = "lsm_after demo_sha demo_writes demo_lsm"
  have new: "lsm_new 2 2 None = Inr demo_lsm" by (simp add: lsm_new_def demo_lsm_def)

  have vals: "2 \<le> length (lt_tables ?t)" "ls_table_entries (lsm_stats_of ?t) = 4"
    "ls_table_entries (lsm_stats_of (snd (lsm_compact demo_sha ?t))) = 2" by code_simp+
  have bs: "0 < (2 :: int)" by simp
  have run: "lsm_compact demo_sha ?t = (fst (lsm_compact demo_sha ?t), snd (lsm_compact demo_sha ?t))"
    by (rule prod.collapse [symmetric])
  show ?thesis using lsm_costs_bounded [OF new bs refl run, of "''b''"] vals by argo
qed

text \<open>
  The constructor checks \<^verbatim>\<open>memtable_limit\<close> but not \<^verbatim>\<open>block_size\<close>, which only the first flush
  looks at: a write into such a tree raises \<^verbatim>\<open>ValidationError\<close> once the memtable is full, after
  the entry has been logged and made visible, and so does every write that follows.
\<close>

lemma bad_block_size_write_sticks:
  assumes "block_size \<le> 0" and "key \<noteq> []"
  shows "\<exists>t t'. lsm_new 1 block_size None = Inr t \<and>
    lsm_put sha256 key v t = (Inl ValidationError, t') \<and> lsm_get sha256 t' key = Some v"
proof -
  define t where "t = \<lparr>lt_memtable_limit = 1, lt_block_size = block_size, lt_wal = wal_new, lt_memtable = [],
     lt_tables = [], lt_next_id = 1, lt_user_bytes = 0, lt_table_bytes = 0\<rparr>"
  have "lsm_new 1 block_size None = Inr t" by (simp add: lsm_new_def t_def)
  moreover have "\<exists>t'. lsm_put sha256 key v t = (Inl ValidationError, t') \<and> lsm_get sha256 t' key = Some v"
    using assms by (simp add: lsm_put_def lsm_write_def t_def lsm_flush_def lsm_new_table_def sstable_new_def
        mt_sorted_entries_def mt_put_def lsm_get_def lsm_lookup_def mt_get_def Let_def)
  ultimately show ?thesis by blast
qed

end
