(* ===== verification/Consistent_Hashing.thy ===== *)
theory Consistent_Hashing
  imports Python_Lib "HOL-Library.Product_Lexorder"
begin

text \<open>
  The consistent-hash ring of \<^verbatim>\<open>code/hld/consistent_hashing.py\<close>: virtual nodes with weights,
  membership changes, clockwise routing by bisection, preference lists, and the statistics on
  keys moved and on load.

  The MD5 digest behind \<^verbatim>\<open>ring_hash\<close> is a parameter, a function from the key to its bytes;
  nothing is assumed of it. Ratios are exact rationals.
\<close>

section \<open>The ring\<close>

type_synonym ring_point = "int \<times> string"

definition ring_hash :: "(string \<Rightarrow> nat list) \<Rightarrow> string \<Rightarrow> int" where
  "ring_hash md5 key = from_bytes_big (take 4 (md5 key))"

record hash_ring =
  hr_vnodes :: int
  hr_ring :: "ring_point list"
  hr_weights :: "(string, int) dict"

definition ring_points :: "(string \<Rightarrow> nat list) \<Rightarrow> string \<Rightarrow> int \<Rightarrow> ring_point list" where
  "ring_points md5 node how_many =
     map (\<lambda>i. (ring_hash md5 (node @ ''#'' @ str_of_nat i), node)) [0..<nat how_many]"

definition ring_add_node :: "(string \<Rightarrow> nat list) \<Rightarrow> string \<Rightarrow> int \<Rightarrow> hash_ring \<Rightarrow> hash_ring result" where
  "ring_add_node md5 node weight r =
     (if node = [] then Inl ValidationError
      else if weight \<le> 0 then Inl ValidationError
      else if dict_get (hr_weights r) node \<noteq> None then Inl ConflictError
      else let points = ring_points md5 node (hr_vnodes r * weight)
           in Inr (r\<lparr>hr_ring := sort (hr_ring r @ points), hr_weights := dict_set node weight (hr_weights r)\<rparr>))"

fun ring_add_all :: "(string \<Rightarrow> nat list) \<Rightarrow> string list \<Rightarrow> hash_ring \<Rightarrow> hash_ring result" where
  "ring_add_all md5 [] r = Inr r"
| "ring_add_all md5 (node # nodes) r =
     (case ring_add_node md5 node 1 r of Inl e \<Rightarrow> Inl e | Inr r' \<Rightarrow> ring_add_all md5 nodes r')"

definition ring_new :: "(string \<Rightarrow> nat list) \<Rightarrow> string list \<Rightarrow> int \<Rightarrow> hash_ring result" where
  "ring_new md5 nodes vnodes =
     (if vnodes \<le> 0 then Inl ValidationError
      else ring_add_all md5 nodes \<lparr>hr_vnodes = vnodes, hr_ring = [], hr_weights = []\<rparr>)"

definition ring_remove_node :: "string \<Rightarrow> hash_ring \<Rightarrow> hash_ring result" where
  "ring_remove_node node r =
     (if dict_get (hr_weights r) node = None then Inl NotFoundError
      else Inr (r\<lparr>hr_ring := filter (\<lambda>p. snd p \<noteq> node) (hr_ring r),
                  hr_weights := dict_del node (hr_weights r)\<rparr>))"

definition ring_len :: "hash_ring \<Rightarrow> int" where
  "ring_len r = int (length (hr_ring r))"

definition ring_nodes :: "hash_ring \<Rightarrow> string list" where
  "ring_nodes r = sort (dict_keys (hr_weights r))"

definition ring_start :: "(string \<Rightarrow> nat list) \<Rightarrow> hash_ring \<Rightarrow> string \<Rightarrow> nat" where
  "ring_start md5 r key = bisect_left id (hr_ring r) (ring_hash md5 key, '''')"

definition get_node :: "(string \<Rightarrow> nat list) \<Rightarrow> hash_ring \<Rightarrow> string \<Rightarrow> string result" where
  "get_node md5 r key =
     (if hr_ring r = [] then Inl InvalidStateError
      else Inr (snd (hr_ring r ! (ring_start md5 r key mod length (hr_ring r)))))"

text \<open>The loop of \<^verbatim>\<open>preference_list\<close>, over the nodes at the offsets still to come.\<close>

fun owners_loop :: "int \<Rightarrow> string list \<Rightarrow> string list \<Rightarrow> string list result" where
  "owners_loop replicas [] owners = Inl ValidationError"
| "owners_loop replicas (node # nodes) owners =
     (if node \<in> set owners then owners_loop replicas nodes owners
      else if int (length (owners @ [node])) = replicas then Inr (owners @ [node])
      else owners_loop replicas nodes (owners @ [node]))"

definition preference_list :: "(string \<Rightarrow> nat list) \<Rightarrow> hash_ring \<Rightarrow> string \<Rightarrow> int \<Rightarrow> string list result" where
  "preference_list md5 r key replicas =
     (if replicas \<le> 0 then Inl ValidationError
      else if hr_ring r = [] then Inl InvalidStateError
      else let start = ring_start md5 r key;
               ring = hr_ring r
           in owners_loop replicas
                (map (\<lambda>offset. snd (ring ! ((start + offset) mod length ring))) [0..<length ring]) [])"

section \<open>Statistics\<close>

record move_stats =
  mv_total :: int
  mv_moved :: int

definition mv_fraction :: "move_stats \<Rightarrow> rat" where
  "mv_fraction m = (if mv_total m \<noteq> 0 then of_int (mv_moved m) / of_int (mv_total m) else 0)"

record load_stats =
  ld_per_node :: "(string, int) dict"
  ld_peak_to_mean :: rat

fun assignments_loop ::
  "(string \<Rightarrow> nat list) \<Rightarrow> hash_ring \<Rightarrow> string list \<Rightarrow> (string, string) dict \<Rightarrow> (string, string) dict result" where
  "assignments_loop md5 r [] acc = Inr acc"
| "assignments_loop md5 r (key # keys) acc =
     (case get_node md5 r key of Inl e \<Rightarrow> Inl e
      | Inr node \<Rightarrow> assignments_loop md5 r keys (dict_set key node acc))"

definition assignments :: "(string \<Rightarrow> nat list) \<Rightarrow> hash_ring \<Rightarrow> string list \<Rightarrow> (string, string) dict result" where
  "assignments md5 r keys = assignments_loop md5 r keys []"

definition mod_assignments ::
  "(string \<Rightarrow> nat list) \<Rightarrow> string list \<Rightarrow> string list \<Rightarrow> (string, string) dict result" where
  "mod_assignments md5 nodes keys =
     (if keys = [] then Inr []
      else if nodes = [] then Inl ZeroDivisionError
      else Inr (dict_of (map (\<lambda>key. (key, nodes ! nat (ring_hash md5 key mod int (length nodes)))) keys)))"

definition keys_moved :: "(string, string) dict \<Rightarrow> (string, string) dict \<Rightarrow> move_stats" where
  "keys_moved before after =
     \<lparr>mv_total = int (length before),
      mv_moved = int (length (filter (\<lambda>(key, node). dict_get after key \<noteq> Some node) before))\<rparr>"

definition load_of :: "(string, string) dict \<Rightarrow> string \<Rightarrow> int" where
  "load_of assignment node = int (length (filter (\<lambda>(_, owner). owner = node) assignment))"

definition load_stats_of :: "(string, string) dict \<Rightarrow> string list \<Rightarrow> load_stats result" where
  "load_stats_of assignment nodes =
     (let per_node = dict_of (map (\<lambda>node. (node, load_of assignment node)) nodes)
      in if per_node = [] then Inl ValidationError
         else let mean = of_int (int (length assignment)) / of_int (int (length per_node)) :: rat;
                  peak = Max (set (map snd per_node))
              in Inr \<lparr>ld_per_node = per_node,
                      ld_peak_to_mean = (if mean \<noteq> 0 then of_int peak / mean else 0)\<rparr>)"

section \<open>The walk around the ring\<close>

text \<open>The points in clockwise order from a key, and the distinct nodes in that order.\<close>

definition ring_walk :: "ring_point list \<Rightarrow> int \<Rightarrow> ring_point list" where
  "ring_walk ring h = filter (\<lambda>p. (h, '''') \<le> p) ring @ filter (\<lambda>p. \<not> (h, '''') \<le> p) ring"

fun first_seen :: "'a list \<Rightarrow> 'a list" where
  "first_seen [] = []"
| "first_seen (x # xs) = x # filter (\<lambda>y. y \<noteq> x) (first_seen xs)"

definition ring_order :: "(string \<Rightarrow> nat list) \<Rightarrow> hash_ring \<Rightarrow> string \<Rightarrow> string list" where
  "ring_order md5 r key = first_seen (map snd (ring_walk (hr_ring r) (ring_hash md5 key)))"

lemma set_first_seen [simp]: "set (first_seen xs) = set xs"
  by (induction xs) auto

lemma distinct_first_seen [simp]: "distinct (first_seen xs)"
  by (induction xs) auto

lemma first_seen_filter: "first_seen (filter P xs) = filter P (first_seen xs)"
proof (induction xs)
  case (Cons x xs)
  show ?case
  proof (cases "P x")
    case False
    then have "filter P (filter (\<lambda>y. y \<noteq> x) (first_seen xs)) = filter P (first_seen xs)"
      unfolding filter_filter by (intro filter_cong) auto
    then show ?thesis using False Cons by simp
  next
    case True
    then show ?thesis using Cons by (simp add: conj_commute)
  qed
qed simp

lemma ring_walk_filter: "ring_walk (filter P ring) h = filter P (ring_walk ring h)"
  by (simp add: ring_walk_def conj_commute)

lemma set_ring_walk [simp]: "set (ring_walk ring h) = set ring"
  by (auto simp: ring_walk_def)

lemma rotated_nth:
  assumes "s \<le> length xs" "xs \<noteq> []"
  shows "map (\<lambda>i. xs ! ((s + i) mod length xs)) [0..<length xs] = drop s xs @ take s xs"
proof (rule nth_equalityI)
  fix i assume "i < length (map (\<lambda>i. xs ! ((s + i) mod length xs)) [0..<length xs])"
  then have i: "i < length xs" by simp
  show "map (\<lambda>i. xs ! ((s + i) mod length xs)) [0..<length xs] ! i = (drop s xs @ take s xs) ! i"
  proof (cases "s + i < length xs")
    case True
    then have "i < length xs - s" by linarith
    then show ?thesis using True i by (simp add: nth_append)
  next
    case False
    then have "(s + i) mod length xs = s + i - length xs"
      using i assms(1) by (simp add: le_mod_geq)
    moreover have "\<not> i < length xs - s" using False by linarith
    ultimately show ?thesis using i assms(1) by (simp add: nth_append add.commute)
  qed
qed (use assms in simp)

lemma ring_start_walk:
  assumes "sorted (hr_ring r)"
  shows "ring_start md5 r key \<le> length (hr_ring r)"
    "drop (ring_start md5 r key) (hr_ring r) @ take (ring_start md5 r key) (hr_ring r) =
      ring_walk (hr_ring r) (ring_hash md5 key)"
proof -
  let ?x = "(ring_hash md5 key, '''')" and ?s = "ring_start md5 r key"
  have srt: "sorted (map id (hr_ring r))" using assms by simp
  note bis = bisect_left_spec [OF srt, where x = ?x, folded ring_start_def]
  show le: "?s \<le> length (hr_ring r)" by (rule bis(1))
  have "drop ?s (hr_ring r) = filter (\<lambda>p. ?x \<le> p) (hr_ring r)"
    using drop_bisect_left [OF srt, of ?x] by (simp add: ring_start_def)
  moreover have "take ?s (hr_ring r) = filter (\<lambda>p. \<not> ?x \<le> p) (hr_ring r)"
    by (rule filter_split_at(2) [OF le]) (use bis(2,3) in \<open>auto simp: not_le\<close>)
  ultimately show "drop ?s (hr_ring r) @ take ?s (hr_ring r) = ring_walk (hr_ring r) (ring_hash md5 key)"
    by (simp add: ring_walk_def)
qed


lemma ring_walk_by_offset:
  assumes "sorted (hr_ring r)" "hr_ring r \<noteq> []"
  shows "map (\<lambda>i. hr_ring r ! ((ring_start md5 r key + i) mod length (hr_ring r))) [0..<length (hr_ring r)] =
    ring_walk (hr_ring r) (ring_hash md5 key)"
  using rotated_nth [OF ring_start_walk(1) [OF assms(1)] assms(2)] ring_start_walk(2) [OF assms(1)] by simp

lemma first_seen_empty [simp]: "first_seen xs = [] \<longleftrightarrow> xs = []"
  by (cases xs) auto

lemma hd_first_seen: "xs \<noteq> [] \<Longrightarrow> hd (first_seen xs) = hd xs"
  by (cases xs) auto

lemma ring_walk_empty [simp]: "ring_walk ring h = [] \<longleftrightarrow> ring = []"
  using set_ring_walk [of ring h] by (metis set_empty)

lemma ring_order_empty [simp]: "ring_order md5 r key = [] \<longleftrightarrow> hr_ring r = []"
  by (simp add: ring_order_def)

lemma set_ring_order [simp]: "set (ring_order md5 r key) = snd ` set (hr_ring r)"
  by (simp add: ring_order_def)

lemma distinct_ring_order [simp]: "distinct (ring_order md5 r key)"
  by (simp add: ring_order_def)

lemma get_node_order:
  assumes "sorted (hr_ring r)"
  shows "get_node md5 r key =
    (if hr_ring r = [] then Inl InvalidStateError else Inr (hd (ring_order md5 r key)))"
proof (cases "hr_ring r = []")
  case False
  let ?f = "\<lambda>i. hr_ring r ! ((ring_start md5 r key + i) mod length (hr_ring r))"
  have n: "0 < length (hr_ring r)" using False by simp
  have "hd (map ?f [0..<length (hr_ring r)]) = ?f 0"
    using n by (simp add: hd_map)
  then have "?f 0 = hd (ring_walk (hr_ring r) (ring_hash md5 key))"
    unfolding ring_walk_by_offset [OF assms False] by simp
  then have "snd (?f 0) = hd (ring_order md5 r key)"
    using False by (simp add: ring_order_def hd_first_seen hd_map)
  then show ?thesis using False by (simp add: get_node_def)
qed (simp add: get_node_def)

lemma owners_loop_take:
  assumes "int (length owners) < k"
  shows "owners_loop k nodes owners =
    (let every = owners @ filter (\<lambda>n. n \<notin> set owners) (first_seen nodes)
     in if k \<le> int (length every) then Inr (take (nat k) every) else Inl ValidationError)"
  using assms
proof (induction nodes arbitrary: owners)
  case (Cons node nodes)
  show ?case
  proof (cases "node \<in> set owners")
    case True
    have "filter (\<lambda>n. n \<notin> set owners) (filter (\<lambda>y. y \<noteq> node) (first_seen nodes)) =
        filter (\<lambda>n. n \<notin> set owners) (first_seen nodes)"
      using True unfolding filter_filter by (intro filter_cong) auto
    then show ?thesis using True Cons by simp
  next
    case False
    have f: "filter (\<lambda>n. n \<notin> set owners) (filter (\<lambda>y. y \<noteq> node) (first_seen nodes)) =
        filter (\<lambda>n. n \<notin> set (owners @ [node])) (first_seen nodes)"
      unfolding filter_filter by (intro filter_cong) auto
    show ?thesis
    proof (cases "int (length (owners @ [node])) = k")
      case True
      then have "nat k = length (owners @ [node])" by simp
      then show ?thesis using False True by (simp add: Let_def)
    next
      case ne: False
      then have "int (length (owners @ [node])) < k" using Cons.prems by simp
      then show ?thesis using Cons.IH [of "owners @ [node]"] False ne f by (simp add: Let_def)
    qed
  qed
qed (simp add: Let_def)

lemma preference_list_order:
  assumes "sorted (hr_ring r)"
  shows "preference_list md5 r key k =
    (if k \<le> 0 then Inl ValidationError
     else if hr_ring r = [] then Inl InvalidStateError
     else if k \<le> int (length (ring_order md5 r key)) then Inr (take (nat k) (ring_order md5 r key))
     else Inl ValidationError)"
proof (cases "k \<le> 0 \<or> hr_ring r = []")
  case False
  have "map snd (map (\<lambda>i. hr_ring r ! ((ring_start md5 r key + i) mod length (hr_ring r))) [0..<length (hr_ring r)])
      = map snd (ring_walk (hr_ring r) (ring_hash md5 key))"
    using ring_walk_by_offset [OF assms] False by simp
  then have "map (\<lambda>i. snd (hr_ring r ! ((ring_start md5 r key + i) mod length (hr_ring r)))) [0..<length (hr_ring r)]
      = map snd (ring_walk (hr_ring r) (ring_hash md5 key))" by (simp add: comp_def)
  then show ?thesis
    using False owners_loop_take [of "[]" k] by (simp add: preference_list_def Let_def ring_order_def)
qed (auto simp: preference_list_def)

section \<open>The ring is a function of its members\<close>

definition ring_of :: "(string \<Rightarrow> nat list) \<Rightarrow> int \<Rightarrow> (string, int) dict \<Rightarrow> ring_point list" where
  "ring_of md5 vnodes weights = sort (concat (map (\<lambda>(node, w). ring_points md5 node (vnodes * w)) weights))"

definition ring_ok :: "(string \<Rightarrow> nat list) \<Rightarrow> hash_ring \<Rightarrow> bool" where
  "ring_ok md5 r \<longleftrightarrow> 0 < hr_vnodes r \<and> dict_ok (hr_weights r) \<and> (\<forall>(node, w) \<in> set (hr_weights r). 0 < w) \<and>
     hr_ring r = ring_of md5 (hr_vnodes r) (hr_weights r)"

lemma ring_points_node [simp]: "p \<in> set (ring_points md5 node n) \<Longrightarrow> snd p = node"
  by (auto simp: ring_points_def)

lemma filter_ring_points:
  "filter (\<lambda>p. snd p \<noteq> n) (ring_points md5 node k) = (if node = n then [] else ring_points md5 node k)"
  by (auto simp: filter_empty_conv filter_id_conv)

lemma ring_of_del:
  "filter (\<lambda>p. snd p \<noteq> n) (ring_of md5 v ws) = ring_of md5 v (dict_del n ws)"
proof -
  have "filter (\<lambda>p. snd p \<noteq> n) (concat (map (\<lambda>(node, w). ring_points md5 node (v * w)) ws)) =
      concat (map (\<lambda>(node, w). ring_points md5 node (v * w)) (dict_del n ws))"
    by (induction ws) (auto simp: filter_ring_points)
  then show ?thesis by (simp add: ring_of_def filter_sort)
qed

lemma sort_eq_mset: "mset xs = mset ys \<Longrightarrow> sort xs = sort (ys :: 'a::linorder list)"
  by (intro properties_for_sort) simp_all

lemma ring_of_add:
  "dict_get ws n = None \<Longrightarrow>
    sort (ring_of md5 v ws @ ring_points md5 n (v * w)) = ring_of md5 v (dict_set n w ws)"
  unfolding ring_of_def by (rule sort_eq_mset) (simp add: dict_set_new)

lemma ring_of_members:
  assumes "dict_ok ws" "dict_ok ws'" "dict_get ws = dict_get ws'"
  shows "ring_of md5 v ws = ring_of md5 v ws'"
proof -
  have "set ws = set ws'" using assms by (auto simp: dict_get_mem)
  moreover have "distinct ws" "distinct ws'" using assms by (auto simp: dict_ok_def distinct_map)
  ultimately have "mset ws = mset ws'" by (metis set_eq_iff_mset_eq_distinct)
  moreover have "mset (concat (map f us)) = (\<Sum>p\<in>#mset us. mset (f p))"
    for f :: "string \<times> int \<Rightarrow> ring_point list" and us
    by (induction us) auto
  ultimately have "mset (concat (map (\<lambda>(node, w). ring_points md5 node (v * w)) ws)) =
      mset (concat (map (\<lambda>(node, w). ring_points md5 node (v * w)) ws'))" by metis
  then show ?thesis unfolding ring_of_def by (rule sort_eq_mset)
qed

lemma ring_ok_sorted: "ring_ok md5 r \<Longrightarrow> sorted (hr_ring r)"
  by (simp add: ring_ok_def ring_of_def)

lemma ring_ok_nodes: "ring_ok md5 r \<Longrightarrow> snd ` set (hr_ring r) = set (dict_keys (hr_weights r))"
proof -
  assume ok: "ring_ok md5 r"
  have "snd ` set (ring_points md5 node (hr_vnodes r * w)) = {node}" if "(node, w) \<in> set (hr_weights r)" for node w
  proof -
    have "0 < hr_vnodes r * w" using ok that by (auto simp: ring_ok_def)
    then have "0 < nat (hr_vnodes r * w)" by linarith
    then show ?thesis by (simp add: ring_points_def image_image image_constant_conv)
  qed
  then have "(\<Union>p \<in> set (hr_weights r). snd ` set (ring_points md5 (fst p) (hr_vnodes r * snd p))) =
      (\<Union>p \<in> set (hr_weights r). {fst p})" by (intro SUP_cong) auto
  then show ?thesis
    using ok by (auto simp: ring_ok_def ring_of_def image_UN case_prod_beta)
qed

lemma ring_ok_order_length:
  assumes "ring_ok md5 r"
  shows "length (ring_order md5 r key) = length (hr_weights r)"
proof -
  have "length (ring_order md5 r key) = card (set (ring_order md5 r key))"
    by (rule distinct_card [symmetric]) simp
  also have "\<dots> = card (set (dict_keys (hr_weights r)))" using ring_ok_nodes [OF assms] by simp
  also have "\<dots> = length (dict_keys (hr_weights r))"
    using assms by (intro distinct_card) (simp add: ring_ok_def dict_ok_def)
  finally show ?thesis by simp
qed

lemma ring_add_ok: "ring_ok md5 r \<Longrightarrow> ring_add_node md5 n w r = Inr r' \<Longrightarrow> ring_ok md5 r'"
  by (auto simp: ring_ok_def ring_add_node_def ring_of_add Let_def split: if_splits dest!: dict_vals_set)

lemma ring_remove_ok: "ring_ok md5 r \<Longrightarrow> ring_remove_node n r = Inr r' \<Longrightarrow> ring_ok md5 r'"
  by (auto simp: ring_ok_def ring_remove_node_def ring_of_del set_dict_del split: if_splits)

lemma ring_add_all_ok: "ring_ok md5 r \<Longrightarrow> ring_add_all md5 ns r = Inr r' \<Longrightarrow> ring_ok md5 r' \<and> hr_vnodes r' = hr_vnodes r"
proof (induction ns arbitrary: r)
  case (Cons n ns)
  then obtain r1 where r1: "ring_add_node md5 n 1 r = Inr r1" "ring_add_all md5 ns r1 = Inr r'"
    by (auto split: sum.splits)
  moreover have "hr_vnodes r1 = hr_vnodes r" using r1(1) by (auto simp: ring_add_node_def Let_def split: if_splits)
  ultimately show ?case using Cons ring_add_ok by metis
qed simp

lemma ring_new_ok: "ring_new md5 ns v = Inr r \<Longrightarrow> ring_ok md5 r \<and> hr_vnodes r = v"
  using ring_add_all_ok [of md5 "\<lparr>hr_vnodes = v, hr_ring = [], hr_weights = []\<rparr>" ns r]
  by (auto simp: ring_new_def ring_ok_def ring_of_def split: if_splits)


section \<open>Membership changes\<close>

datatype ring_call = RingAdd string int | RingRemove string

definition ring_do :: "(string \<Rightarrow> nat list) \<Rightarrow> ring_call \<Rightarrow> hash_ring \<Rightarrow> hash_ring" where
  "ring_do md5 c r =
     (case (case c of RingAdd n w \<Rightarrow> ring_add_node md5 n w r | RingRemove n \<Rightarrow> ring_remove_node n r) of
        Inl _ \<Rightarrow> r | Inr r' \<Rightarrow> r')"

definition ring_after :: "(string \<Rightarrow> nat list) \<Rightarrow> ring_call list \<Rightarrow> hash_ring \<Rightarrow> hash_ring" where
  "ring_after md5 cs r = fold (ring_do md5) cs r"

lemma ring_add_vnodes: "ring_add_node md5 n w r = Inr r' \<Longrightarrow> hr_vnodes r' = hr_vnodes r"
  by (auto simp: ring_add_node_def Let_def split: if_splits)

lemma ring_remove_vnodes: "ring_remove_node n r = Inr r' \<Longrightarrow> hr_vnodes r' = hr_vnodes r"
  by (auto simp: ring_remove_node_def split: if_splits)

lemma ring_do_ok:
  assumes "ring_ok md5 r"
  shows "ring_ok md5 (ring_do md5 c r) \<and> hr_vnodes (ring_do md5 c r) = hr_vnodes r"
proof (cases c)
  case c: (RingAdd n w)
  show ?thesis
  proof (cases "ring_add_node md5 n w r")
    case (Inr r')
    then have "ring_do md5 c r = r'" by (simp add: c ring_do_def)
    then show ?thesis using ring_add_ok [OF assms Inr] ring_add_vnodes [OF Inr] by metis
  qed (use assms in \<open>simp add: c ring_do_def\<close>)
next
  case c: (RingRemove n)
  show ?thesis
  proof (cases "ring_remove_node n r")
    case (Inr r')
    then have "ring_do md5 c r = r'" by (simp add: c ring_do_def)
    then show ?thesis using ring_remove_ok [OF assms Inr] ring_remove_vnodes [OF Inr] by metis
  qed (use assms in \<open>simp add: c ring_do_def\<close>)
qed

lemma ring_after_ok:
  "ring_ok md5 r \<Longrightarrow> ring_ok md5 (ring_after md5 cs r) \<and> hr_vnodes (ring_after md5 cs r) = hr_vnodes r"
  unfolding ring_after_def
proof (induction cs arbitrary: r)
  case (Cons c cs)
  then show ?case using ring_do_ok [OF Cons.prems, of c] Cons.IH [of "ring_do md5 c r"] by simp
qed simp

text \<open>Every client computes the same ring: whatever the order in which nodes were learned,
  added, removed and added again, two rings with the same members at the same weights have the
  same points, so they route every key to the same owner and to the same replicas.
\<close>

theorem ring_function_of_members:
  assumes "ring_new md5 nodes vnodes = Inr r1" and "ring_new md5 nodes' vnodes = Inr r2"
    and "a = ring_after md5 calls r1" and "b = ring_after md5 calls' r2"
    and "\<forall>node. dict_get (hr_weights a) node = dict_get (hr_weights b) node"
  shows "hr_ring a = hr_ring b \<and> get_node md5 a key = get_node md5 b key \<and>
    preference_list md5 a key replicas = preference_list md5 b key replicas"
proof -
  have a: "ring_ok md5 a" "hr_vnodes a = vnodes" using ring_new_ok ring_after_ok assms(1,3) by metis+
  have b: "ring_ok md5 b" "hr_vnodes b = vnodes" using ring_new_ok ring_after_ok assms(2,4) by metis+
  have "dict_get (hr_weights a) = dict_get (hr_weights b)" using assms(5) by blast
  then have "hr_ring a = hr_ring b"
    using a b ring_of_members [of "hr_weights a" "hr_weights b" md5 vnodes] by (simp add: ring_ok_def)
  then show ?thesis by (simp add: get_node_def preference_list_def ring_start_def)
qed

definition demo_md5 :: "string \<Rightarrow> nat list" where
  "demo_md5 k = [if take 1 k = ''A'' then 9 else if take 1 k = ''B'' then 5 else 3]"

lemma ring_function_of_members_witness:
  "\<exists>a b. hr_ring a = hr_ring b \<and> dict_keys (hr_weights a) = [''A'', ''B''] \<and>
    dict_keys (hr_weights b) = [''B'', ''A''] \<and> get_node demo_md5 a ''k'' = get_node demo_md5 b ''k''"
proof -
  obtain r1 where r1: "ring_new demo_md5 [''A'', ''B''] 2 = Inr r1" "dict_keys (hr_weights r1) = [''A'', ''B'']"
    "hr_weights r1 = [(''A'', 1), (''B'', 1)]"
    by (simp add: ring_new_def ring_add_node_def Let_def)
  obtain r2 where r2: "ring_new demo_md5 [''A'', ''B''] 2 = Inr r2" by (simp add: r1(1))
  let ?b = "ring_after demo_md5 [RingRemove ''A'', RingAdd ''A'' 1] r2"
  have b: "hr_weights ?b = [(''B'', 1), (''A'', 1)]"
    using r1 r2 by (simp add: ring_after_def ring_do_def ring_remove_node_def ring_add_node_def Let_def)
  have "\<forall>node. dict_get (hr_weights (ring_after demo_md5 [] r1)) node = dict_get (hr_weights ?b) node"
    unfolding b by (simp add: ring_after_def r1(3))
  from ring_function_of_members [OF r1(1) r2 refl refl this]
  show ?thesis using r1(2) b by (intro exI [of _ r1] exI [of _ ?b]) (simp add: ring_after_def)
qed

section \<open>How many keys a change moves\<close>

lemma ring_order_removed:
  "ring_remove_node n r = Inr r' \<Longrightarrow> ring_order md5 r' key = filter (\<lambda>x. x \<noteq> n) (ring_order md5 r key)"
  by (auto simp: ring_remove_node_def ring_order_def ring_walk_filter first_seen_filter [symmetric]
      filter_map comp_def split: if_splits)

lemma assignments_loop_value:
  "sorted (hr_ring r) \<Longrightarrow> hr_ring r \<noteq> [] \<Longrightarrow>
    assignments_loop md5 r keys acc =
      Inr (fold (\<lambda>(k, v). dict_set k v) (map (\<lambda>k. (k, hd (ring_order md5 r k))) keys) acc)"
  by (induction keys arbitrary: acc) (auto simp: get_node_order)

lemma assignments_value:
  "sorted (hr_ring r) \<Longrightarrow> hr_ring r \<noteq> [] \<Longrightarrow>
    assignments md5 r keys = Inr (dict_of (map (\<lambda>k. (k, hd (ring_order md5 r k))) keys))"
  by (simp add: assignments_def assignments_loop_value dict_of_def)

lemma dict_of_fun_get:
  "dict_get (dict_of (map (\<lambda>k. (k, f k)) keys)) k = (if k \<in> set keys then Some (f k) else None)"
  by (induction keys rule: rev_induct) auto

lemma dict_of_fun_mem: "(k, v) \<in> set (dict_of (map (\<lambda>k. (k, f k)) keys)) \<longleftrightarrow> k \<in> set keys \<and> v = f k"
  by (auto simp: dict_get_mem dict_of_fun_get)

lemma keys_moved_fun:
  "keys_moved (dict_of (map (\<lambda>k. (k, f k)) keys)) (dict_of (map (\<lambda>k. (k, g k)) keys)) =
    \<lparr>mv_total = int (length (dict_of (map (\<lambda>k. (k, f k)) keys))),
     mv_moved = int (length (filter (\<lambda>(k, _). f k \<noteq> g k) (dict_of (map (\<lambda>k. (k, f k)) keys))))\<rparr>"
proof -
  have "filter (\<lambda>(k, v). dict_get (dict_of (map (\<lambda>k. (k, g k)) keys)) k \<noteq> Some v) (dict_of (map (\<lambda>k. (k, f k)) keys)) =
      filter (\<lambda>(k, _). f k \<noteq> g k) (dict_of (map (\<lambda>k. (k, f k)) keys))"
    by (intro filter_cong refl) (auto simp: dict_of_fun_mem dict_of_fun_get)
  then show ?thesis by (simp add: keys_moved_def)
qed

lemma take_filter_removed:
  assumes "distinct xs" "n \<notin> set (take k xs)"
  shows "take k (filter (\<lambda>x. x \<noteq> n) xs) = take k xs"
proof -
  have "filter (\<lambda>x. x \<noteq> n) (take k xs) = take k xs" using assms(2) by (auto simp: filter_id_conv)
  moreover have "filter (\<lambda>x. x \<noteq> n) xs = filter (\<lambda>x. x \<noteq> n) (take k xs) @ filter (\<lambda>x. x \<noteq> n) (drop k xs)"
    by (metis append_take_drop_id filter_append)
  ultimately have split: "filter (\<lambda>x. x \<noteq> n) xs = take k xs @ filter (\<lambda>x. x \<noteq> n) (drop k xs)" by metis
  show ?thesis
  proof (cases "k \<le> length xs")
    case True
    then show ?thesis by (subst split) simp
  next
    case False
    then show ?thesis using split by simp
  qed
qed

lemma take_filter_replaced:
  assumes "distinct xs" "n \<in> set (take (Suc k) xs)" "Suc k \<le> length xs"
  shows "take k (filter (\<lambda>x. x \<noteq> n) xs) = filter (\<lambda>x. x \<noteq> n) (take (Suc k) xs)"
    "k \<le> length (filter (\<lambda>x. x \<noteq> n) xs)"
proof -
  have split: "filter (\<lambda>x. x \<noteq> n) xs = filter (\<lambda>x. x \<noteq> n) (take (Suc k) xs) @ filter (\<lambda>x. x \<noteq> n) (drop (Suc k) xs)"
    by (metis append_take_drop_id filter_append)
  have "filter (\<lambda>x. x \<noteq> n) (take (Suc k) xs) = remove1 n (take (Suc k) xs)"
    using distinct_remove1_removeAll [of "take (Suc k) xs" n] assms(1)
    by (simp add: removeAll_filter_not_eq eq_commute [of n])
  then have len: "length (filter (\<lambda>x. x \<noteq> n) (take (Suc k) xs)) = k"
    using assms(2,3) by (simp add: length_remove1)
  show "take k (filter (\<lambda>x. x \<noteq> n) xs) = filter (\<lambda>x. x \<noteq> n) (take (Suc k) xs)"
    by (subst split) (use len in simp)
  show "k \<le> length (filter (\<lambda>x. x \<noteq> n) xs)" by (subst split) (use len in simp)
qed

lemma owner_removed:
  assumes "ring_remove_node n r = Inr r'" "hr_ring r' \<noteq> []"
  shows "hd (ring_order md5 r' k) \<noteq> hd (ring_order md5 r k) \<longleftrightarrow> hd (ring_order md5 r k) = n"
proof (cases "ring_order md5 r k")
  case Nil
  then have "hr_ring r = []" by simp
  then show ?thesis using assms by (auto simp: ring_remove_node_def split: if_splits)
next
  case (Cons x xs)
  have ne: "ring_order md5 r' k \<noteq> []" using assms(2) by simp
  show ?thesis
  proof (cases "x = n")
    case True
    have "hd (ring_order md5 r' k) \<in> set (ring_order md5 r' k)" by (rule hd_in_set [OF ne])
    then have "hd (ring_order md5 r' k) \<noteq> n" unfolding ring_order_removed [OF assms(1)] by auto
    then show ?thesis using Cons True by simp
  next
    case False
    then show ?thesis using Cons ring_order_removed [OF assms(1), of md5 k] by simp
  qed
qed

lemma ring_removed_sorted:
  "sorted (hr_ring r) \<Longrightarrow> ring_remove_node n r = Inr r' \<Longrightarrow> sorted (hr_ring r')"
  by (auto simp: ring_remove_node_def sorted_wrt_filter split: if_splits)

lemma removal_keeps_owner:
  assumes "sorted (hr_ring r)" "ring_remove_node n r = Inr r'" "hr_ring r' \<noteq> []"
    and "get_node md5 r key = Inr owner" "owner \<noteq> n"
  shows "get_node md5 r' key = Inr owner"
proof -
  have "sorted (hr_ring r')" by (rule ring_removed_sorted [OF assms(1,2)])
  then show ?thesis
    using assms owner_removed [OF assms(2,3), of md5 key] by (auto simp: get_node_order split: if_splits)
qed

lemma removal_keeps_replicas:
  assumes srt: "sorted (hr_ring r)" and rem: "ring_remove_node n r = Inr r'" and ne: "hr_ring r' \<noteq> []"
    and pl: "preference_list md5 r key k = Inr ps" and out: "n \<notin> set ps"
  shows "preference_list md5 r' key k = Inr ps"
proof -
  have srt': "sorted (hr_ring r')" by (rule ring_removed_sorted [OF srt rem])
  have k: "0 < k" "k \<le> int (length (ring_order md5 r key))" "ps = take (nat k) (ring_order md5 r key)"
    using pl unfolding preference_list_order [OF srt] by (auto split: if_splits)
  have ps: "take (nat k) (ring_order md5 r' key) = ps"
    unfolding ring_order_removed [OF rem] using take_filter_removed [of "ring_order md5 r key" n "nat k"] k(3) out
    by simp
  have "nat k \<le> length (ring_order md5 r' key)"
    using ps k by (metis length_take min.absorb2 min.cobounded1 nat_le_iff)
  then show ?thesis using ps k(1) ne by (auto simp: preference_list_order [OF srt'])
qed

lemma removal_replaces_replica:
  assumes srt: "sorted (hr_ring r)" and rem: "ring_remove_node n r = Inr r'" and ne: "hr_ring r' \<noteq> []"
    and pl: "preference_list md5 r key (k + 1) = Inr ps" and at: "n \<in> set ps" and pos: "0 < k"
  shows "preference_list md5 r' key k = Inr (filter (\<lambda>x. x \<noteq> n) ps)"
proof -
  have srt': "sorted (hr_ring r')" by (rule ring_removed_sorted [OF srt rem])
  have k: "k + 1 \<le> int (length (ring_order md5 r key))" "ps = take (Suc (nat k)) (ring_order md5 r key)"
    using pl pos unfolding preference_list_order [OF srt] by (auto split: if_splits simp: nat_add_distrib)
  note t = take_filter_replaced [OF distinct_ring_order [of md5 r key], of n "nat k"]
  have len: "Suc (nat k) \<le> length (ring_order md5 r key)" using k(1) pos by linarith
  have "take (nat k) (ring_order md5 r' key) = filter (\<lambda>x. x \<noteq> n) ps" "nat k \<le> length (ring_order md5 r' key)"
    unfolding ring_order_removed [OF rem] k(2) using t at [unfolded k(2)] len by blast+
  then show ?thesis using pos ne by (auto simp: preference_list_order [OF srt'])
qed

lemma removal_moves_load:
  assumes srt: "sorted (hr_ring r)" and rem: "ring_remove_node n r = Inr r'" and ne: "hr_ring r' \<noteq> []"
    and before: "assignments md5 r keys = Inr before" and after: "assignments md5 r' keys = Inr after"
  shows "mv_moved (keys_moved before after) = load_of before n"
proof -
  let ?f = "\<lambda>k. hd (ring_order md5 r k)" and ?g = "\<lambda>k. hd (ring_order md5 r' k)"
  have srt': "sorted (hr_ring r')" by (rule ring_removed_sorted [OF srt rem])
  have "hr_ring r \<noteq> []" using ne rem by (auto simp: ring_remove_node_def split: if_splits)
  then have b: "before = dict_of (map (\<lambda>k. (k, ?f k)) keys)" and a: "after = dict_of (map (\<lambda>k. (k, ?g k)) keys)"
    using before after assignments_value [OF srt] assignments_value [OF srt' ne] by auto
  have "filter (\<lambda>(k, _). ?f k \<noteq> ?g k) before = filter (\<lambda>(_, owner). owner = n) before"
  proof (intro filter_cong refl)
    fix p assume "p \<in> set before"
    then have "snd p = ?f (fst p)" unfolding b using dict_of_fun_mem [of "fst p" "snd p" ?f keys] by simp
    then obtain k where p: "p = (k, ?f k)" by (metis prod.collapse)
    show "(case p of (k, _) \<Rightarrow> ?f k \<noteq> ?g k) = (case p of (_, owner) \<Rightarrow> owner = n)"
      unfolding p prod.case using owner_removed [OF rem ne, of md5 k] by metis
  qed
  then show ?thesis by (simp add: a b keys_moved_fun load_of_def)
qed

text \<open>Removing a node moves its own keys and no other: a key owned by another node keeps its
  owner, a preference list without the node stays as it is, a list that named the node keeps its
  other entries in order and takes the next node of the walk at its end, and the number of keys
  that move is the load the node had.
\<close>

theorem ring_removal_minimal:
  assumes "ring_new md5 nodes vnodes = Inr r0" and "r = ring_after md5 calls r0"
    and "ring_remove_node n r = Inr r'" and "hr_ring r' \<noteq> []"
  shows "(\<forall>key owner. get_node md5 r key = Inr owner \<longrightarrow> owner \<noteq> n \<longrightarrow> get_node md5 r' key = Inr owner) \<and>
    (\<forall>key k ps. preference_list md5 r key k = Inr ps \<longrightarrow> n \<notin> set ps \<longrightarrow> preference_list md5 r' key k = Inr ps) \<and>
    (\<forall>key k ps. preference_list md5 r key (k + 1) = Inr ps \<longrightarrow> n \<in> set ps \<longrightarrow> 0 < k \<longrightarrow>
        preference_list md5 r' key k = Inr (filter (\<lambda>x. x \<noteq> n) ps)) \<and>
    (\<forall>keys before after. assignments md5 r keys = Inr before \<longrightarrow> assignments md5 r' keys = Inr after \<longrightarrow>
        mv_moved (keys_moved before after) = load_of before n)"
proof -
  have "ring_ok md5 r" using ring_new_ok [OF assms(1)] ring_after_ok assms(2) by blast
  then have srt: "sorted (hr_ring r)" by (rule ring_ok_sorted)
  show ?thesis
    by (intro conjI allI impI)
      (rule removal_keeps_owner removal_keeps_replicas removal_replaces_replica removal_moves_load;
       (rule srt assms(3,4) | assumption))+
qed

definition demo_ring :: hash_ring where
  "demo_ring = (case ring_new demo_md5 [''A'', ''B'', ''C''] 2 of Inr r \<Rightarrow> r
     | Inl _ \<Rightarrow> \<lparr>hr_vnodes = 2, hr_ring = [], hr_weights = []\<rparr>)"

definition demo_ring_left :: hash_ring where
  "demo_ring_left = (case ring_remove_node ''B'' demo_ring of Inr r \<Rightarrow> r | Inl _ \<Rightarrow> demo_ring)"

lemma ring_removal_minimal_witness:
  "preference_list demo_md5 demo_ring ''k'' 3 = Inr [''C'', ''B'', ''A''] \<and>
   preference_list demo_md5 demo_ring_left ''k'' 2 = Inr [''C'', ''A'']"
proof -
  have new: "ring_new demo_md5 [''A'', ''B'', ''C''] 2 = Inr demo_ring" by code_simp
  have rem: "ring_remove_node ''B'' demo_ring = Inr demo_ring_left" by code_simp
  have ne: "hr_ring demo_ring_left \<noteq> []" by code_simp
  have after: "demo_ring = ring_after demo_md5 [] demo_ring" by (simp add: ring_after_def)
  have pl: "preference_list demo_md5 demo_ring ''k'' (2 + 1) = Inr [''C'', ''B'', ''A'']" by code_simp
  have "''B'' \<in> set [''C'', ''B'', ''A'']" "0 < (2 :: int)" by simp_all
  with ring_removal_minimal [OF new after rem ne] pl
  have "preference_list demo_md5 demo_ring_left ''k'' 2 = Inr (filter (\<lambda>x. x \<noteq> ''B'') [''C'', ''B'', ''A''])"
    by blast
  with pl show ?thesis by simp
qed

text \<open>A preference list is the owner followed by the other replicas: \<open>k\<close> distinct members of the
  ring, a longer list extends a shorter one, and asking for more replicas than there are
  members, and nothing else about a positive number on a non-empty ring, raises.
\<close>

theorem preference_list_exact:
  assumes "ring_new md5 nodes vnodes = Inr r0" and "r = ring_after md5 calls r0"
    and "0 < replicas" and "hr_weights r \<noteq> []"
  shows "if int (length (hr_weights r)) < replicas
    then preference_list md5 r key replicas = Inl ValidationError
    else \<exists>ps. preference_list md5 r key replicas = Inr ps \<and> distinct ps \<and> int (length ps) = replicas \<and>
      set ps \<subseteq> set (ring_nodes r) \<and> get_node md5 r key = Inr (hd ps) \<and>
      (\<forall>k. 0 < k \<and> k \<le> replicas \<longrightarrow> preference_list md5 r key k = Inr (take (nat k) ps))"
proof -
  have ok: "ring_ok md5 r" using ring_new_ok [OF assms(1)] ring_after_ok assms(2) by blast
  note srt = ring_ok_sorted [OF ok] and len = ring_ok_order_length [OF ok]
  have ne: "hr_ring r \<noteq> []" using len [of key] assms(4) ring_order_empty [of md5 r key] by fastforce
  show ?thesis
  proof (cases "int (length (hr_weights r)) < replicas")
    case True
    then show ?thesis using ne len assms(3) by (simp add: preference_list_order [OF srt])
  next
    case False
    let ?ps = "take (nat replicas) (ring_order md5 r key)"
    have nodes: "set (ring_order md5 r key) = set (ring_nodes r)"
      using ring_ok_nodes [OF ok] by (simp add: ring_nodes_def)
    have "preference_list md5 r key replicas = Inr ?ps" "int (length ?ps) = replicas"
      using False ne len assms(3) by (simp_all add: preference_list_order [OF srt])
    moreover have "set ?ps \<subseteq> set (ring_nodes r)" using nodes by (metis set_take_subset)
    moreover have "get_node md5 r key = Inr (hd ?ps)"
      using ne assms(3) by (simp add: get_node_order [OF srt])
    moreover have "\<forall>k. 0 < k \<and> k \<le> replicas \<longrightarrow> preference_list md5 r key k = Inr (take (nat k) ?ps)"
      using False ne len by (auto simp: preference_list_order [OF srt] min_def nat_le_eq_zle)
    moreover have "distinct ?ps" by simp
    ultimately show ?thesis using False by auto
  qed
qed

lemma preference_list_exact_witness:
  "preference_list demo_md5 demo_ring ''k'' 4 = Inl ValidationError \<and>
   (\<exists>ps. preference_list demo_md5 demo_ring ''k'' 3 = Inr ps \<and> distinct ps)"
proof -
  have new: "ring_new demo_md5 [''A'', ''B'', ''C''] 2 = Inr demo_ring" by code_simp
  have after: "demo_ring = ring_after demo_md5 [] demo_ring" by (simp add: ring_after_def)
  have ws: "hr_weights demo_ring = [(''A'', 1), (''B'', 1), (''C'', 1)]" by code_simp
  then have ne: "hr_weights demo_ring \<noteq> []" by simp
  show ?thesis
    using preference_list_exact [OF new after _ ne, of 4 "''k''"]
      preference_list_exact [OF new after _ ne, of 3 "''k''"] by (simp add: ws) blast
qed

end
