(* ===== verification/Quorum.thy ===== *)
theory Quorum
  imports Common Python_Lib
begin

text \<open>
  Quorum reads and writes of \<^verbatim>\<open>code/hld/quorum.py\<close>: versioned values on N home replicas, strict
  and sloppy quorums, hinted handoff, read repair, failures and recovery.

  Replica objects are reached by their position in the node list, so that the preference list,
  the stand-ins and the answering replicas are the shared objects of the code. The MD5 digest is
  a parameter. An operation answers its result beside the cluster it leaves: a write that misses
  its quorum raises after it has reached some replicas.
\<close>

section \<open>Replicas\<close>

record versioned =
  vd_value :: string
  vd_version :: int

record replica =
  rp_name :: string
  rp_up :: bool
  rp_delay :: rat
  rp_data :: "(string, versioned) dict"
  rp_hints :: "(string \<times> string, versioned) dict"

definition replica_new :: "string \<Rightarrow> replica" where
  "replica_new name = \<lparr>rp_name = name, rp_up = True, rp_delay = 1, rp_data = [], rp_hints = []\<rparr>"

definition rp_version_of :: "replica \<Rightarrow> string \<Rightarrow> int option" where
  "rp_version_of p key = map_option vd_version (dict_get (rp_data p) key)"

record read_result =
  rr_value :: "versioned option"
  rr_answered_by :: "string list"
  rr_repaired :: "string list"

definition quorum_overlaps :: "int \<Rightarrow> int \<Rightarrow> int \<Rightarrow> bool result" where
  "quorum_overlaps n w r =
     (if \<not> (1 \<le> w \<and> w \<le> n) \<or> \<not> (1 \<le> r \<and> r \<le> n) then Inl ValidationError else Inr (n < w + r))"

section \<open>The cluster\<close>

record quorum_cluster =
  qc_nodes :: "replica list"
  qc_n :: int
  qc_w :: int
  qc_r :: int
  qc_sloppy :: bool
  qc_next :: int

definition qc_new :: "string list \<Rightarrow> int \<Rightarrow> int \<Rightarrow> int \<Rightarrow> bool \<Rightarrow> quorum_cluster result" where
  "qc_new names n w r sloppy =
     (if length names \<noteq> card (set names) \<or> names = [] then Inl ValidationError
      else if \<not> (1 \<le> n \<and> n \<le> int (length names)) then Inl ValidationError
      else case quorum_overlaps n w r of
        Inl e \<Rightarrow> Inl e
      | Inr _ \<Rightarrow> Inr \<lparr>qc_nodes = map replica_new names, qc_n = n, qc_w = w, qc_r = r,
                       qc_sloppy = sloppy, qc_next = 0\<rparr>)"

fun replica_index :: "string \<Rightarrow> replica list \<Rightarrow> nat result" where
  "replica_index name [] = Inl NotFoundError"
| "replica_index name (p # ps) =
     (if rp_name p = name then Inr 0
      else case replica_index name ps of Inl e \<Rightarrow> Inl e | Inr i \<Rightarrow> Inr (Suc i))"

definition qc_update :: "nat \<Rightarrow> (replica \<Rightarrow> replica) \<Rightarrow> quorum_cluster \<Rightarrow> quorum_cluster" where
  "qc_update i f c = c\<lparr>qc_nodes := (qc_nodes c)[i := f (qc_nodes c ! i)]\<rparr>"

text \<open>The positions \<open>(start + i) mod N\<close> the code walks, for \<open>i\<close> below a bound.\<close>

definition clockwise :: "int \<Rightarrow> nat \<Rightarrow> nat \<Rightarrow> nat list" where
  "clockwise start total_nodes how_many = map (\<lambda>i. nat ((start + int i) mod int total_nodes)) [0..<how_many]"

definition home_replicas :: "(string \<Rightarrow> nat list) \<Rightarrow> quorum_cluster \<Rightarrow> string \<Rightarrow> nat list" where
  "home_replicas md5 c key =
     clockwise (from_bytes_big (take 4 (md5 key))) (length (qc_nodes c)) (nat (qc_n c))"

definition qc_substitute :: "(string \<Rightarrow> nat list) \<Rightarrow> quorum_cluster \<Rightarrow> string \<Rightarrow> string set \<Rightarrow> nat option" where
  "qc_substitute md5 c key taken =
     (let start = int (last (home_replicas md5 c key)) + 1
      in find (\<lambda>i. rp_up (qc_nodes c ! i) \<and> rp_name (qc_nodes c ! i) \<notin> taken)
           (clockwise start (length (qc_nodes c)) (length (qc_nodes c))))"

definition store :: "string \<Rightarrow> versioned \<Rightarrow> replica \<Rightarrow> replica" where
  "store key item p = p\<lparr>rp_data := dict_set key item (rp_data p)\<rparr>"

definition store_hint :: "string \<Rightarrow> string \<Rightarrow> versioned \<Rightarrow> replica \<Rightarrow> replica" where
  "store_hint home key item p = (store key item p)\<lparr>rp_hints := dict_set (home, key) item (rp_hints p)\<rparr>"

fun put_loop ::
  "(string \<Rightarrow> nat list) \<Rightarrow> string \<Rightarrow> versioned \<Rightarrow> nat list \<Rightarrow> string set \<Rightarrow> quorum_cluster \<Rightarrow> string set \<times> quorum_cluster" where
  "put_loop md5 key item [] acks c = (acks, c)"
| "put_loop md5 key item (h # hs) acks c =
     (let home = qc_nodes c ! h
      in if rp_up home
         then put_loop md5 key item hs (insert (rp_name home) acks) (qc_update h (store key item) c)
         else if qc_sloppy c
              then case qc_substitute md5 c key acks of
                Some j \<Rightarrow> put_loop md5 key item hs (insert (rp_name (qc_nodes c ! j)) acks)
                            (qc_update j (store_hint (rp_name home) key item) c)
              | None \<Rightarrow> put_loop md5 key item hs acks c
              else put_loop md5 key item hs acks c)"

definition effective :: "int option \<Rightarrow> int \<Rightarrow> int" where
  "effective x dflt = (case x of None \<Rightarrow> dflt | Some v \<Rightarrow> v)"

definition qc_put ::
  "(string \<Rightarrow> nat list) \<Rightarrow> string \<Rightarrow> string \<Rightarrow> int option \<Rightarrow> quorum_cluster \<Rightarrow> int result \<times> quorum_cluster" where
  "qc_put md5 key val w_opt c =
     (let w = effective w_opt (qc_w c)
      in case quorum_overlaps (qc_n c) w (qc_r c) of
           Inl e \<Rightarrow> (Inl e, c)
         | Inr _ \<Rightarrow>
             let c1 = c\<lparr>qc_next := qc_next c + 1\<rparr>;
                 item = \<lparr>vd_value = val, vd_version = qc_next c1\<rparr>
             in case put_loop md5 key item (home_replicas md5 c1 key) {} c1 of
                  (acks, c2) \<Rightarrow> if int (card acks) < w then (Inl QuorumError, c2) else (Inr (vd_version item), c2))"

text \<open>The first of the answers with the greatest version, as \<^verbatim>\<open>max\<close> with a key picks it.\<close>

fun newest_of :: "versioned list \<Rightarrow> versioned option" where
  "newest_of [] = None"
| "newest_of (x # xs) =
     (case newest_of xs of None \<Rightarrow> Some x
      | Some y \<Rightarrow> if vd_version y \<le> vd_version x then Some x else Some y)"

text \<open>The \<^verbatim>\<open>while\<close> loop that fills up a sloppy read: it wants \<open>k\<close> more replicas.\<close>

fun widen_loop ::
  "(string \<Rightarrow> nat list) \<Rightarrow> string \<Rightarrow> quorum_cluster \<Rightarrow> nat \<Rightarrow> nat list \<Rightarrow> string set \<Rightarrow> nat list" where
  "widen_loop md5 key c 0 healthy taken = healthy"
| "widen_loop md5 key c (Suc k) healthy taken =
     (case qc_substitute md5 c key taken of
        None \<Rightarrow> healthy
      | Some j \<Rightarrow> widen_loop md5 key c k (healthy @ [j]) (insert (rp_name (qc_nodes c ! j)) taken))"

fun repair_loop :: "string \<Rightarrow> versioned option \<Rightarrow> nat list \<Rightarrow> quorum_cluster \<Rightarrow> string list \<times> quorum_cluster" where
  "repair_loop key newest [] c = ([], c)"
| "repair_loop key newest (i # js) c =
     (case newest of
        None \<Rightarrow> ([], c)
      | Some item \<Rightarrow>
          if dict_get (rp_data (qc_nodes c ! i)) key \<noteq> Some item
          then case repair_loop key newest js (qc_update i (store key item) c) of
            (names, c') \<Rightarrow> (rp_name (qc_nodes c ! i) # names, c')
          else repair_loop key newest js c)"

definition answering_replicas :: "(string \<Rightarrow> nat list) \<Rightarrow> string \<Rightarrow> int \<Rightarrow> quorum_cluster \<Rightarrow> nat list" where
  "answering_replicas md5 key r c =
     (let healthy = filter (\<lambda>i. rp_up (qc_nodes c ! i)) (home_replicas md5 c key);
          healthy' = (if qc_sloppy c \<and> int (length healthy) < qc_n c
            then widen_loop md5 key c (nat (qc_n c) - length healthy) healthy
                   ((\<lambda>i. rp_name (qc_nodes c ! i)) ` set healthy)
            else healthy)
      in take (nat r) (sort_key (\<lambda>i. rp_delay (qc_nodes c ! i)) healthy'))"

definition qc_get ::
  "(string \<Rightarrow> nat list) \<Rightarrow> string \<Rightarrow> int option \<Rightarrow> quorum_cluster \<Rightarrow> read_result result \<times> quorum_cluster" where
  "qc_get md5 key r_opt c =
     (let r = effective r_opt (qc_r c)
      in case quorum_overlaps (qc_n c) (qc_w c) r of
           Inl e \<Rightarrow> (Inl e, c)
         | Inr _ \<Rightarrow>
             let answering = answering_replicas md5 key r c
             in if int (length answering) < r then (Inl QuorumError, c)
                else let found = List.map_filter (\<lambda>i. dict_get (rp_data (qc_nodes c ! i)) key) answering;
                         newest = newest_of found
                     in case repair_loop key newest answering c of
                          (repaired, c') \<Rightarrow>
                            (Inr \<lparr>rr_value = newest,
                                  rr_answered_by = map (\<lambda>i. rp_name (qc_nodes c ! i)) answering,
                                  rr_repaired = repaired\<rparr>, c'))"

definition qc_fail :: "string \<Rightarrow> quorum_cluster \<Rightarrow> unit result \<times> quorum_cluster" where
  "qc_fail name c =
     (case replica_index name (qc_nodes c) of
        Inl e \<Rightarrow> (Inl e, c)
      | Inr i \<Rightarrow> (Inr (), qc_update i (\<lambda>p. p\<lparr>rp_up := False\<rparr>) c))"

definition hand_over :: "string \<Rightarrow> versioned \<Rightarrow> replica \<Rightarrow> replica" where
  "hand_over key item p =
     (case dict_get (rp_data p) key of
        None \<Rightarrow> store key item p
      | Some current \<Rightarrow> if vd_version current < vd_version item then store key item p else p)"

definition drop_hint :: "string \<Rightarrow> string \<Rightarrow> replica \<Rightarrow> replica" where
  "drop_hint home key p = p\<lparr>rp_hints := dict_del (home, key) (rp_hints p)\<rparr>"

fun hints_loop ::
  "string \<Rightarrow> nat \<Rightarrow> nat \<Rightarrow> ((string \<times> string) \<times> versioned) list \<Rightarrow> int \<Rightarrow> quorum_cluster \<Rightarrow> int \<times> quorum_cluster" where
  "hints_loop name i j [] delivered c = (delivered, c)"
| "hints_loop name i j (((home, key), item) # hs) delivered c =
     (if home = name
      then hints_loop name i j hs (delivered + 1) (qc_update j (drop_hint home key) (qc_update i (hand_over key item) c))
      else hints_loop name i j hs delivered c)"

fun recover_loop :: "string \<Rightarrow> nat \<Rightarrow> nat list \<Rightarrow> int \<Rightarrow> quorum_cluster \<Rightarrow> int \<times> quorum_cluster" where
  "recover_loop name i [] delivered c = (delivered, c)"
| "recover_loop name i (j # js) delivered c =
     (case hints_loop name i j (rp_hints (qc_nodes c ! j)) delivered c of
        (delivered', c') \<Rightarrow> recover_loop name i js delivered' c')"

definition qc_recover :: "string \<Rightarrow> quorum_cluster \<Rightarrow> int result \<times> quorum_cluster" where
  "qc_recover name c =
     (case replica_index name (qc_nodes c) of
        Inl e \<Rightarrow> (Inl e, c)
      | Inr i \<Rightarrow>
          case recover_loop name i [0..<length (qc_nodes c)] 0 (qc_update i (\<lambda>p. p\<lparr>rp_up := True\<rparr>) c) of
            (delivered, c') \<Rightarrow> (Inr delivered, c'))"

text \<open>The delay of a replica is a public field that the demo and the tests assign.\<close>

definition qc_set_delay :: "string \<Rightarrow> rat \<Rightarrow> quorum_cluster \<Rightarrow> unit result \<times> quorum_cluster" where
  "qc_set_delay name d c =
     (case replica_index name (qc_nodes c) of
        Inl e \<Rightarrow> (Inl e, c)
      | Inr i \<Rightarrow> (Inr (), qc_update i (\<lambda>p. p\<lparr>rp_delay := d\<rparr>) c))"

definition qc_versions :: "(string \<Rightarrow> nat list) \<Rightarrow> quorum_cluster \<Rightarrow> string \<Rightarrow> (string, int option) dict" where
  "qc_versions md5 c key =
     dict_of (map (\<lambda>i. (rp_name (qc_nodes c ! i), rp_version_of (qc_nodes c ! i) key)) (home_replicas md5 c key))"

definition qc_holders :: "quorum_cluster \<Rightarrow> string \<Rightarrow> string list" where
  "qc_holders c key = map rp_name (filter (\<lambda>p. dict_get (rp_data p) key \<noteq> None) (qc_nodes c))"


section \<open>What only grows\<close>

text \<open>Node \<open>i\<close> holds version \<open>v\<close> of the key, or a newer one.\<close>

definition holds :: "quorum_cluster \<Rightarrow> string \<Rightarrow> int \<Rightarrow> nat \<Rightarrow> bool" where
  "holds c key v i \<longleftrightarrow>
     i < length (qc_nodes c) \<and> (\<exists>item. dict_get (rp_data (qc_nodes c ! i)) key = Some item \<and> v \<le> vd_version item)"

text \<open>Every stored item, hinted ones included.\<close>

definition items_of :: "replica \<Rightarrow> versioned set" where
  "items_of p = snd ` set (rp_data p) \<union> snd ` set (rp_hints p)"

definition all_items :: "quorum_cluster \<Rightarrow> versioned set" where
  "all_items c = (\<Union>p \<in> set (qc_nodes c). items_of p)"

definition same_shape :: "quorum_cluster \<Rightarrow> quorum_cluster \<Rightarrow> bool" where
  "same_shape c c' \<longleftrightarrow> map rp_name (qc_nodes c') = map rp_name (qc_nodes c) \<and>
     qc_n c' = qc_n c \<and> qc_w c' = qc_w c \<and> qc_r c' = qc_r c \<and> qc_sloppy c' = qc_sloppy c"

definition grows :: "quorum_cluster \<Rightarrow> quorum_cluster \<Rightarrow> bool" where
  "grows c c' \<longleftrightarrow> same_shape c c' \<and> (\<forall>key v i. holds c key v i \<longrightarrow> holds c' key v i)"

definition stamped :: "(int \<Rightarrow> bool) \<Rightarrow> (versioned \<Rightarrow> bool) \<Rightarrow> quorum_cluster \<Rightarrow> bool" where
  "stamped V P c \<longleftrightarrow> (\<forall>item \<in> all_items c. V (vd_version item) \<longrightarrow> P item)"

lemma same_shape_refl [simp]: "same_shape c c"
  by (simp add: same_shape_def)

lemma same_shape_trans: "same_shape a b \<Longrightarrow> same_shape b c \<Longrightarrow> same_shape a c"
  by (simp add: same_shape_def)

lemma grows_refl [simp]: "grows c c"
  by (simp add: grows_def)

lemma grows_trans: "grows a b \<Longrightarrow> grows b c \<Longrightarrow> grows a c"
  unfolding grows_def using same_shape_trans by blast

lemma same_shape_length: "same_shape c c' \<Longrightarrow> length (qc_nodes c') = length (qc_nodes c)"
  unfolding same_shape_def by (metis length_map)

lemma same_shape_homes: "same_shape c c' \<Longrightarrow> home_replicas md5 c' key = home_replicas md5 c key"
  using same_shape_length [of c c'] by (simp add: home_replicas_def same_shape_def)

text \<open>What an update of one replica may do: keep the name, raise the versions.\<close>

definition raises :: "replica \<Rightarrow> replica \<Rightarrow> bool" where
  "raises p q \<longleftrightarrow> rp_name q = rp_name p \<and>
     (\<forall>key item. dict_get (rp_data p) key = Some item \<longrightarrow>
        (\<exists>item'. dict_get (rp_data q) key = Some item' \<and> vd_version item \<le> vd_version item'))"

lemma raises_data: "rp_name q = rp_name p \<Longrightarrow> rp_data q = rp_data p \<Longrightarrow> raises p q"
  by (simp add: raises_def)

lemma qc_update_nodes [simp]: "qc_nodes (qc_update i f c) = (qc_nodes c)[i := f (qc_nodes c ! i)]"
  by (simp add: qc_update_def)

lemma qc_update_fields [simp]: "qc_n (qc_update i f c) = qc_n c" "qc_w (qc_update i f c) = qc_w c"
  "qc_r (qc_update i f c) = qc_r c" "qc_sloppy (qc_update i f c) = qc_sloppy c"
  "qc_next (qc_update i f c) = qc_next c"
  by (simp_all add: qc_update_def)

lemma grows_update:
  assumes "raises (qc_nodes c ! i) (f (qc_nodes c ! i))"
  shows "grows c (qc_update i f c)"
proof -
  have "map rp_name ((qc_nodes c)[i := f (qc_nodes c ! i)]) = map rp_name (qc_nodes c)"
  proof (cases "i < length (qc_nodes c)")
    case True
    then have "rp_name (f (qc_nodes c ! i)) = map rp_name (qc_nodes c) ! i"
      using assms by (simp add: raises_def)
    then show ?thesis by (simp add: map_update list_update_id)
  qed (simp add: list_update_beyond)
  then have "same_shape c (qc_update i f c)" by (simp add: same_shape_def)
  moreover have "holds (qc_update i f c) key v j" if "holds c key v j" for key v j
  proof (cases "j = i")
    case True
    then show ?thesis using that assms unfolding holds_def raises_def by (auto, meson order_trans)
  qed (use that in \<open>simp add: holds_def\<close>)
  ultimately show ?thesis by (simp add: grows_def)
qed

lemma all_items_update:
  "all_items (qc_update i f c) \<subseteq> all_items c \<union> items_of (f (qc_nodes c ! i))"
  using set_update_subset_insert [of "qc_nodes c" i] by (fastforce simp: all_items_def)

lemma items_of_nth: "i < length (qc_nodes c) \<Longrightarrow> items_of (qc_nodes c ! i) \<subseteq> all_items c"
  unfolding all_items_def by (rule UN_upper) simp

lemma dict_set_snd: "snd ` set (dict_set k v d) \<subseteq> insert v (snd ` set d)"
  by (auto dest!: dict_vals_set)

lemma items_of_store: "items_of (store key item p) \<subseteq> insert item (items_of p)"
  using dict_set_snd [of key item "rp_data p"] by (auto simp: items_of_def store_def)

lemma items_of_store_hint: "items_of (store_hint home key item p) \<subseteq> insert item (items_of p)"
  using dict_set_snd [of key item "rp_data p"] dict_set_snd [of "(home, key)" item "rp_hints p"]
  by (auto simp: items_of_def store_def store_hint_def)

lemma raises_store:
  "(\<And>old. dict_get (rp_data p) key = Some old \<Longrightarrow> vd_version old \<le> vd_version item) \<Longrightarrow> raises p (store key item p)"
  by (simp add: raises_def store_def)

lemma raises_store_hint:
  "(\<And>old. dict_get (rp_data p) key = Some old \<Longrightarrow> vd_version old \<le> vd_version item) \<Longrightarrow> raises p (store_hint home key item p)"
  by (simp add: raises_def store_def store_hint_def)

lemma raises_hand_over: "raises p (hand_over key item p)"
  by (auto simp: raises_def hand_over_def store_def split: option.splits)

text \<open>An update with an item of the cluster, or a new one, adds no other item.\<close>

lemma all_items_put:
  assumes "items_of (f (qc_nodes c ! i)) \<subseteq> insert item (items_of (qc_nodes c ! i))"
  shows "all_items (qc_update i f c) \<subseteq> insert item (all_items c)"
proof (cases "i < length (qc_nodes c)")
  case True
  then show ?thesis using all_items_update [of i f c] assms items_of_nth [OF True] by blast
qed (auto simp: all_items_def list_update_beyond)

section \<open>Every operation raises versions and invents no item\<close>

lemma clockwise_less: "0 < m \<Longrightarrow> i \<in> set (clockwise s m k) \<Longrightarrow> i < m"
  by (auto simp: clockwise_def nat_less_iff)

lemma distinct_clockwise:
  assumes "k \<le> m" "0 < m"
  shows "distinct (clockwise s m k)"
proof -
  have "inj_on (\<lambda>i. nat ((s + int i) mod int m)) {0..<k}"
  proof (rule inj_onI)
    fix i j assume ij: "i \<in> {0..<k}" "j \<in> {0..<k}"
      "nat ((s + int i) mod int m) = nat ((s + int j) mod int m)"
    then have "(s + int i) mod int m = (s + int j) mod int m"
      using assms(2) by (metis eq_nat_nat_iff of_nat_0_less_iff pos_mod_sign)
    then have "(int i - int j) mod int m = 0"
      by (metis add_diff_cancel_left mod_diff_cong mod_self diff_self mod_0)
    then have "int m dvd int i - int j" by auto
    moreover have "\<bar>int i - int j\<bar> < int m" using ij(1,2) assms(1) by auto
    ultimately show "i = j" using zdvd_not_zless [of "\<bar>int i - int j\<bar>" "int m"] by (cases "i = j") auto
  qed
  then show ?thesis by (simp add: clockwise_def distinct_map)
qed

definition qc_ok :: "quorum_cluster \<Rightarrow> bool" where
  "qc_ok c \<longleftrightarrow> distinct (map rp_name (qc_nodes c)) \<and> 1 \<le> qc_n c \<and> qc_n c \<le> int (length (qc_nodes c)) \<and>
     (\<forall>item \<in> all_items c. vd_version item \<le> qc_next c)"

lemma qc_ok_nonempty: "qc_ok c \<Longrightarrow> 0 < length (qc_nodes c)"
  by (auto simp: qc_ok_def)

lemma homes_ok:
  assumes "qc_ok c"
  shows "distinct (home_replicas md5 c key)" "length (home_replicas md5 c key) = nat (qc_n c)"
    "\<And>i. i \<in> set (home_replicas md5 c key) \<Longrightarrow> i < length (qc_nodes c)"
proof -
  have n: "nat (qc_n c) \<le> length (qc_nodes c)" using assms by (auto simp: qc_ok_def)
  show "distinct (home_replicas md5 c key)"
    unfolding home_replicas_def by (rule distinct_clockwise [OF n qc_ok_nonempty [OF assms]])
  show "length (home_replicas md5 c key) = nat (qc_n c)" by (simp add: home_replicas_def clockwise_def)
  show "\<And>i. i \<in> set (home_replicas md5 c key) \<Longrightarrow> i < length (qc_nodes c)"
    unfolding home_replicas_def by (rule clockwise_less [OF qc_ok_nonempty [OF assms]])
qed

lemma substitute_less:
  assumes "qc_ok c" "qc_substitute md5 c key taken = Some j"
  shows "j < length (qc_nodes c)" "rp_up (qc_nodes c ! j)" "rp_name (qc_nodes c ! j) \<notin> taken"
proof -
  note f = find_SomeD [OF assms(2) [unfolded qc_substitute_def Let_def]]
  show "j < length (qc_nodes c)"
    by (rule clockwise_less [OF qc_ok_nonempty [OF assms(1)] conjunct1 [OF f]])
  show "rp_up (qc_nodes c ! j)" "rp_name (qc_nodes c ! j) \<notin> taken" using conjunct2 [OF f] by blast+
qed

lemma all_items_old:
  "i < length (qc_nodes c) \<Longrightarrow> dict_get (rp_data (qc_nodes c ! i)) key = Some old \<Longrightarrow> old \<in> all_items c"
proof -
  assume i: "i < length (qc_nodes c)" and "dict_get (rp_data (qc_nodes c ! i)) key = Some old"
  then have "(key, old) \<in> set (rp_data (qc_nodes c ! i))" by (intro map_of_SomeD)
  then have "old \<in> items_of (qc_nodes c ! i)" unfolding items_of_def by (metis UnI1 image_eqI snd_conv)
  then show "old \<in> all_items c" using items_of_nth [OF i] by blast
qed

text \<open>What holds of a step that may add one item.\<close>

definition step_adds :: "versioned set \<Rightarrow> quorum_cluster \<Rightarrow> quorum_cluster \<Rightarrow> bool" where
  "step_adds N c c' \<longleftrightarrow> grows c c' \<and> all_items c' \<subseteq> N \<union> all_items c \<and> qc_next c' = qc_next c"

lemma step_adds_refl [simp]: "step_adds N c c"
  by (auto simp: step_adds_def)

lemma step_adds_trans: "step_adds N a b \<Longrightarrow> step_adds N b c \<Longrightarrow> step_adds N a c"
  using grows_trans [of a b c] by (auto simp: step_adds_def)

lemma step_adds_length: "step_adds N c c' \<Longrightarrow> length (qc_nodes c') = length (qc_nodes c)"
  by (simp add: step_adds_def grows_def same_shape_length)

lemma step_adds_ok: "step_adds N c c' \<Longrightarrow> qc_ok c \<Longrightarrow> (\<And>i. i \<in> N \<Longrightarrow> vd_version i \<le> qc_next c) \<Longrightarrow> qc_ok c'"
  using step_adds_length [of N c c'] by (auto simp: qc_ok_def step_adds_def grows_def same_shape_def)


lemma grows_length: "grows c c' \<Longrightarrow> length (qc_nodes c') = length (qc_nodes c)"
  by (simp add: grows_def same_shape_length)

lemma step_adds_update:
  assumes "raises (qc_nodes c ! i) (f (qc_nodes c ! i))"
    and "items_of (f (qc_nodes c ! i)) \<subseteq> insert item (items_of (qc_nodes c ! i))" and "item \<in> N"
  shows "step_adds N c (qc_update i f c)"
  using grows_update [of c i f] all_items_put [of f c i item] assms by (auto simp: step_adds_def)

lemma step_adds_flag:
  assumes "rp_name (f (qc_nodes c ! i)) = rp_name (qc_nodes c ! i)"
    and "rp_data (f (qc_nodes c ! i)) = rp_data (qc_nodes c ! i)"
    and "set (rp_hints (f (qc_nodes c ! i))) \<subseteq> set (rp_hints (qc_nodes c ! i))"
  shows "step_adds N c (qc_update i f c)"
proof -
  have sub: "items_of (f (qc_nodes c ! i)) \<subseteq> items_of (qc_nodes c ! i)"
    using assms(2,3) by (auto simp: items_of_def)
  have "all_items (qc_update i f c) \<subseteq> all_items c"
  proof (cases "i < length (qc_nodes c)")
    case True
    then show ?thesis using all_items_update [of i f c] sub items_of_nth [OF True] by blast
  qed (auto simp: all_items_def list_update_beyond)
  then show ?thesis
    using grows_update [of c i f] raises_data [OF assms(1,2)] by (auto simp: step_adds_def)
qed

text \<open>
  The write loop: the new item is the only one added, and every acknowledgement is the name of a
  replica that holds it, a home replica unless the quorum is sloppy.
\<close>

definition acked_by :: "quorum_cluster \<Rightarrow> string \<Rightarrow> int \<Rightarrow> nat set \<Rightarrow> string set \<Rightarrow> bool" where
  "acked_by c key v H A \<longleftrightarrow>
     (\<forall>a \<in> A. \<exists>i. rp_name (qc_nodes c ! i) = a \<and> holds c key v i \<and> (\<not> qc_sloppy c \<longrightarrow> i \<in> H))"

lemma same_name:
  "same_shape c c' \<Longrightarrow> i < length (qc_nodes c) \<Longrightarrow> rp_name (qc_nodes c' ! i) = rp_name (qc_nodes c ! i)"
  using same_shape_length [of c c'] unfolding same_shape_def by (metis nth_map)

lemma acked_by_grows:
  assumes "grows c c'" "acked_by c key v H A"
  shows "acked_by c' key v H A"
  unfolding acked_by_def
proof
  fix a assume "a \<in> A"
  then obtain i where i: "rp_name (qc_nodes c ! i) = a" "holds c key v i" "\<not> qc_sloppy c \<longrightarrow> i \<in> H"
    using assms(2) by (auto simp: acked_by_def)
  have sh: "same_shape c c'" and hold: "holds c' key v i" using assms(1) i(2) by (auto simp: grows_def)
  then have "rp_name (qc_nodes c' ! i) = a" using i(1,2) same_name [OF sh, of i] by (simp add: holds_def)
  moreover have "qc_sloppy c' = qc_sloppy c" using sh by (simp add: same_shape_def)
  ultimately show "\<exists>i. rp_name (qc_nodes c' ! i) = a \<and> holds c' key v i \<and> (\<not> qc_sloppy c' \<longrightarrow> i \<in> H)"
    using hold i(3) by blast
qed

lemma put_step:
  assumes items: "\<And>old. old \<in> all_items c \<Longrightarrow> vd_version old \<le> vd_version item"
    and i: "i < length (qc_nodes c)" and f: "f = store key item \<or> f = store_hint home key item"
    and home: "\<not> qc_sloppy c \<longrightarrow> i \<in> H" and acked: "acked_by c key (vd_version item) H A"
  shows "step_adds {item} c (qc_update i f c)"
    "acked_by (qc_update i f c) key (vd_version item) H (insert (rp_name (qc_nodes c ! i)) A)"
proof -
  have "raises (qc_nodes c ! i) (f (qc_nodes c ! i))"
    using f raises_store raises_store_hint all_items_old [OF i] items by metis
  moreover have "items_of (f (qc_nodes c ! i)) \<subseteq> insert item (items_of (qc_nodes c ! i))"
    using f items_of_store items_of_store_hint by metis
  ultimately show st: "step_adds {item} c (qc_update i f c)" by (rule step_adds_update) simp
  then have gr: "grows c (qc_update i f c)" by (simp add: step_adds_def)
  have "holds (qc_update i f c) key (vd_version item) i"
    using i f by (auto simp: holds_def store_def store_hint_def)
  moreover have "rp_name (qc_nodes (qc_update i f c) ! i) = rp_name (qc_nodes c ! i)"
    using gr i by (intro same_name) (simp_all add: grows_def)
  ultimately show "acked_by (qc_update i f c) key (vd_version item) H (insert (rp_name (qc_nodes c ! i)) A)"
    using acked_by_grows [OF gr acked] home unfolding acked_by_def by (metis insertE qc_update_fields(4))
qed

lemma put_loop_adds:
  assumes "qc_ok c" "\<And>old. old \<in> all_items c \<Longrightarrow> vd_version old \<le> vd_version item"
    and "vd_version item \<le> qc_next c" and "\<And>h. h \<in> set hs \<Longrightarrow> h < length (qc_nodes c) \<and> h \<in> H"
    and "acked_by c key (vd_version item) H acks" and "put_loop md5 key item hs acks c = (acks', c')"
  shows "step_adds {item} c c' \<and> acked_by c' key (vd_version item) H acks'"
  using assms
proof (induction hs arbitrary: acks c)
  case (Cons h hs)
  have go: "step_adds {item} c c' \<and> acked_by c' key (vd_version item) H acks'"
    if i: "i < length (qc_nodes c)" and home: "\<not> qc_sloppy c \<longrightarrow> i \<in> H"
      and f: "f = store key item \<or> f = store_hint (rp_name (qc_nodes c ! h)) key item"
      and run: "put_loop md5 key item hs (insert (rp_name (qc_nodes c ! i)) acks) (qc_update i f c) = (acks', c')"
    for i f
  proof -
    note st = put_step [OF Cons.prems(2) i f home Cons.prems(5)]
    have ok: "qc_ok (qc_update i f c)" using step_adds_ok [OF st(1) Cons.prems(1)] Cons.prems(3) by simp
    have items: "\<And>old. old \<in> all_items (qc_update i f c) \<Longrightarrow> vd_version old \<le> vd_version item"
      using st(1) Cons.prems(2) by (auto simp: step_adds_def)
    have "step_adds {item} (qc_update i f c) c' \<and> acked_by c' key (vd_version item) H acks'"
      by (rule Cons.IH [OF ok items _ _ st(2) run]) (use Cons.prems(3,4) in simp_all)
    then show ?thesis using step_adds_trans [OF st(1)] by blast
  qed
  have h: "h < length (qc_nodes c)" "h \<in> H" using Cons.prems(4) by simp_all
  show ?case
  proof (cases "rp_up (qc_nodes c ! h)")
    case True
    then show ?thesis using go [of h "store key item"] h Cons.prems(6) by (simp add: Let_def)
  next
    case down: False
    show ?thesis
    proof (cases "qc_sloppy c \<and> qc_substitute md5 c key acks \<noteq> None")
      case True
      then obtain j where j: "qc_substitute md5 c key acks = Some j" by blast
      have "put_loop md5 key item hs (insert (rp_name (qc_nodes c ! j)) acks)
          (qc_update j (store_hint (rp_name (qc_nodes c ! h)) key item) c) = (acks', c')"
        using Cons.prems(6) True down j by (simp add: Let_def)
      then show ?thesis
        using go [OF substitute_less(1) [OF Cons.prems(1) j]] True by blast
    next
      case False
      then have "put_loop md5 key item hs acks c = (acks', c')"
        using Cons.prems(6) down by (auto simp: Let_def split: if_splits)
      then show ?thesis using Cons.IH [OF Cons.prems(1,2,3) _ Cons.prems(5)] Cons.prems(4) by simp
    qed
  qed
qed simp


text \<open>From one state to a later one: versions rise, and items that are new carry new versions.\<close>

definition later :: "quorum_cluster \<Rightarrow> quorum_cluster \<Rightarrow> bool" where
  "later c c' \<longleftrightarrow> qc_ok c' \<and> grows c c' \<and> qc_next c \<le> qc_next c' \<and>
     (\<forall>item \<in> all_items c'. item \<in> all_items c \<or> qc_next c < vd_version item)"

lemma later_refl [simp]: "later c c \<longleftrightarrow> qc_ok c"
  by (auto simp: later_def)

lemma later_trans: "later a b \<Longrightarrow> later b c \<Longrightarrow> later a c"
  unfolding later_def using grows_trans [of a b c] by (meson order_trans order_le_less_trans)

lemma later_step: "qc_ok c \<Longrightarrow> step_adds {} c c' \<Longrightarrow> later c c'"
  using step_adds_ok [of "{}" c c'] by (auto simp: later_def step_adds_def)

lemma qc_put_later:
  assumes ok: "qc_ok c" and run: "qc_put md5 key val w_opt c = (res, c')"
  shows "later c c' \<and> (\<forall>v. res = Inr v \<longrightarrow> v = qc_next c' \<and> v = qc_next c + 1 \<and>
    stamped (\<lambda>n. n = v) (\<lambda>item. vd_value item = val) c' \<and>
    (\<exists>A. effective w_opt (qc_w c) \<le> int (card A) \<and> acked_by c' key v (set (home_replicas md5 c key)) A))"
proof (cases "quorum_overlaps (qc_n c) (effective w_opt (qc_w c)) (qc_r c)")
  case (Inl e)
  then show ?thesis using run ok by (auto simp: qc_put_def)
next
  case (Inr b)
  define c1 where "c1 = c\<lparr>qc_next := qc_next c + 1\<rparr>"
  define item where "item = \<lparr>vd_value = val, vd_version = qc_next c1\<rparr>"
  obtain acks c2 where loop: "put_loop md5 key item (home_replicas md5 c1 key) {} c1 = (acks, c2)" by fastforce
  have items: "all_items c1 = all_items c" by (simp add: all_items_def c1_def)
  have ok1: "qc_ok c1" using ok by (auto simp: qc_ok_def c1_def items [unfolded c1_def])
  have homes: "home_replicas md5 c1 key = home_replicas md5 c key" by (simp add: home_replicas_def c1_def)
  have old: "vd_version x \<le> qc_next c" if "x \<in> all_items c" for x using ok that by (simp add: qc_ok_def)
  have res: "step_adds {item} c1 c2 \<and> acked_by c2 key (vd_version item) (set (home_replicas md5 c key)) acks"
  proof (rule put_loop_adds [OF ok1 _ _ _ _ loop])
    show "\<And>x. x \<in> all_items c1 \<Longrightarrow> vd_version x \<le> vd_version item"
      unfolding items using old by (simp add: item_def c1_def add_increasing2)
    show "\<And>h. h \<in> set (home_replicas md5 c1 key) \<Longrightarrow> h < length (qc_nodes c1) \<and> h \<in> set (home_replicas md5 c key)"
      using homes_ok(3) [OF ok1] homes by metis
  qed (simp_all add: item_def acked_by_def)
  have c': "c' = c2" "res = (if int (card acks) < effective w_opt (qc_w c) then Inl QuorumError else Inr (vd_version item))"
    using run Inr loop by (auto simp: qc_put_def c1_def item_def Let_def split: if_splits)
  have "qc_ok c2" using step_adds_ok [OF conjunct1 [OF res] ok1] by (simp add: item_def)
  moreover have "grows c c2"
    using res by (auto simp: step_adds_def grows_def same_shape_def holds_def c1_def)
  moreover have next2: "qc_next c2 = qc_next c + 1" using res by (simp add: step_adds_def c1_def)
  moreover have all2: "all_items c2 \<subseteq> insert item (all_items c)" using res by (simp add: step_adds_def items)
  ultimately have "later c c2" by (auto simp: later_def item_def c1_def)
  moreover have "stamped (\<lambda>n. n = vd_version item) (\<lambda>x. vd_value x = val) c2"
    using all2 old by (fastforce simp: stamped_def item_def c1_def)
  moreover have "vd_version item = qc_next c2" by (simp add: item_def next2 c1_def)
  moreover have "\<exists>A. effective w_opt (qc_w c) \<le> int (card A) \<and> acked_by c2 key (vd_version item) (set (home_replicas md5 c key)) A"
    if "res = Inr v" for v
    using that c'(2) res by (intro exI [of _ acks]) (auto split: if_splits)
  ultimately show ?thesis using c' next2 by (auto split: if_splits)
qed

section \<open>Reads\<close>

lemma newest_of_max:
  "newest_of xs = Some m \<Longrightarrow> m \<in> set xs \<and> (\<forall>x \<in> set xs. vd_version x \<le> vd_version m)"
proof (induction xs arbitrary: m)
  case (Cons x xs)
  show ?case
  proof (cases "newest_of xs")
    case None
    then have "xs = []" by (cases xs) (auto split: option.splits if_splits)
    then show ?thesis using Cons.prems by simp
  next
    case (Some y)
    then show ?thesis using Cons.prems Cons.IH [OF Some] by (auto split: if_splits)
  qed
qed simp

lemma newest_of_None: "newest_of xs = None \<longleftrightarrow> xs = []"
  by (cases xs) (auto split: option.splits if_splits)

lemma set_map_filter: "set (List.map_filter f xs) = {y. \<exists>x \<in> set xs. f x = Some y}"
  by (auto simp: map_filter_def image_iff) (metis option.sel option.distinct(1))

lemma repair_loop_adds:
  assumes "\<And>i. i \<in> set js \<Longrightarrow> i < length (qc_nodes c)"
    and "\<And>i old. i \<in> set js \<Longrightarrow> dict_get (rp_data (qc_nodes c ! i)) key = Some old \<Longrightarrow> vd_version old \<le> vd_version item"
    and "repair_loop key (Some item) js c = (names, c')"
  shows "step_adds {item} c c'"
  using assms
proof (induction js arbitrary: c names)
  case (Cons i js)
  show ?case
  proof (cases "dict_get (rp_data (qc_nodes c ! i)) key = Some item")
    case True
    then have "repair_loop key (Some item) js c = (names, c')" using Cons.prems(3) by simp
    with Cons.prems(1,2) show ?thesis by (intro Cons.IH [of c names]) auto
  next
    case False
    let ?c = "qc_update i (store key item) c"
    have st: "step_adds {item} c ?c"
    proof (rule step_adds_update)
      show "raises (qc_nodes c ! i) (store key item (qc_nodes c ! i))"
        by (rule raises_store) (rule Cons.prems(2) [of i], simp)
    qed (simp_all add: items_of_store)
    have nth: "dict_get (rp_data (qc_nodes ?c ! j)) key = Some old \<Longrightarrow>
        dict_get (rp_data (qc_nodes c ! j)) key = Some old \<or> old = item" if "j \<in> set js" for j old
      using Cons.prems(1) [of i] that by (cases "j = i") (auto simp: store_def)
    have "step_adds {item} ?c c'"
    proof (rule Cons.IH)
      show "repair_loop key (Some item) js ?c = (tl names, c')"
        using Cons.prems(3) False by (auto split: prod.splits)
      show "\<And>j old. j \<in> set js \<Longrightarrow> dict_get (rp_data (qc_nodes ?c ! j)) key = Some old \<Longrightarrow>
          vd_version old \<le> vd_version item"
        using nth Cons.prems(2) by (metis list.set_intros(2) order_refl)
    qed (use Cons.prems(1) in simp)
    then show ?thesis by (rule step_adds_trans [OF st])
  qed
qed simp

lemma repair_loop_None: "repair_loop key None js c = ([], c)"
  by (cases js) auto

lemma widen_loop_less:
  "qc_ok c \<Longrightarrow> (\<And>i. i \<in> set healthy \<Longrightarrow> i < length (qc_nodes c)) \<Longrightarrow>
    i \<in> set (widen_loop md5 key c k healthy taken) \<Longrightarrow> i < length (qc_nodes c)"
proof (induction k arbitrary: healthy taken)
  case (Suc k)
  show ?case
  proof (cases "qc_substitute md5 c key taken")
    case (Some j)
    have "\<And>l. l \<in> set (healthy @ [j]) \<Longrightarrow> l < length (qc_nodes c)"
      using Suc.prems(2) substitute_less(1) [OF Suc.prems(1) Some] by auto
    moreover have "i \<in> set (widen_loop md5 key c k (healthy @ [j]) (insert (rp_name (qc_nodes c ! j)) taken))"
      using Suc.prems(3) Some by simp
    ultimately show ?thesis by (rule Suc.IH [OF Suc.prems(1)])
  qed (use Suc.prems in simp)
qed simp

lemma answering_less:
  assumes "qc_ok c" "i \<in> set (answering_replicas md5 key r c)"
  shows "i < length (qc_nodes c)"
proof -
  let ?healthy = "filter (\<lambda>i. rp_up (qc_nodes c ! i)) (home_replicas md5 c key)"
  let ?k = "nat (qc_n c) - length ?healthy" and ?taken = "(\<lambda>i. rp_name (qc_nodes c ! i)) ` set ?healthy"
  have h: "\<And>l. l \<in> set ?healthy \<Longrightarrow> l < length (qc_nodes c)" using homes_ok(3) [OF assms(1), of _ md5 key] by auto
  have "i \<in> set (widen_loop md5 key c ?k ?healthy ?taken) \<or> i \<in> set ?healthy"
    using in_set_takeD [OF assms(2) [unfolded answering_replicas_def Let_def]]
    unfolding set_sort by (simp split: if_splits)
  then show ?thesis using widen_loop_less [OF assms(1) h] h by blast
qed

lemma answering_strict:
  assumes "qc_ok c" "\<not> qc_sloppy c"
  shows "distinct (answering_replicas md5 key r c)" "set (answering_replicas md5 key r c) \<subseteq> set (home_replicas md5 c key)"
  using assms homes_ok(1) [OF assms(1)]
  by (auto simp: answering_replicas_def Let_def distinct_take dest!: in_set_takeD)

lemma qc_get_later:
  assumes ok: "qc_ok c" and run: "qc_get md5 key r_opt c = (res, c')"
  shows "later c c' \<and> (\<forall>result. res = Inr result \<longrightarrow>
    effective r_opt (qc_r c) = int (length (answering_replicas md5 key (effective r_opt (qc_r c)) c)) \<and>
    (\<forall>v. \<forall>i \<in> set (answering_replicas md5 key (effective r_opt (qc_r c)) c). holds c key v i \<longrightarrow>
      (\<exists>item. rr_value result = Some item \<and> item \<in> all_items c \<and> v \<le> vd_version item)))"
proof (cases "quorum_overlaps (qc_n c) (qc_w c) (effective r_opt (qc_r c))")
  case (Inl e)
  then show ?thesis using run ok by (auto simp: qc_get_def Let_def)
next
  case (Inr b)
  let ?r = "effective r_opt (qc_r c)"
  define js where "js = answering_replicas md5 key ?r c"
  define found where "found = List.map_filter (\<lambda>i. dict_get (rp_data (qc_nodes c ! i)) key) js"
  have less: "i < length (qc_nodes c)" if "i \<in> set js" for i
    using that answering_less [OF ok] by (simp add: js_def)
  have mem: "x \<in> set found \<longleftrightarrow> (\<exists>i \<in> set js. dict_get (rp_data (qc_nodes c ! i)) key = Some x)" for x
    by (simp add: found_def set_map_filter)
  show ?thesis
  proof (cases "int (length js) < ?r")
    case True
    then show ?thesis using run ok Inr by (auto simp: qc_get_def Let_def js_def)
  next
    case False
    obtain names c2 where rep: "repair_loop key (newest_of found) js c = (names, c2)" by fastforce
    have c': "c' = c2" and val: "\<And>result. res = Inr result \<Longrightarrow> rr_value result = newest_of found"
      using run Inr False rep by (auto simp: qc_get_def Let_def js_def found_def)
    have "step_adds {} c c2"
    proof (cases "newest_of found")
      case None
      then show ?thesis using rep by (simp add: repair_loop_None)
    next
      case (Some item)
      note mx = newest_of_max [OF Some]
      have "step_adds {item} c c2"
        by (rule repair_loop_adds [OF less _ rep [unfolded Some]]) (use mx mem in blast)+
      moreover have "item \<in> all_items c" using mx mem less all_items_old by blast
      ultimately show ?thesis by (auto simp: step_adds_def)
    qed
    then have "later c c'" using later_step [OF ok] c' by blast
    moreover have "\<exists>item. newest_of found = Some item \<and> item \<in> all_items c \<and> v \<le> vd_version item"
      if i: "i \<in> set js" and h: "holds c key v i" for v i
    proof -
      obtain x where x: "dict_get (rp_data (qc_nodes c ! i)) key = Some x" "v \<le> vd_version x"
        using h by (auto simp: holds_def)
      then have "x \<in> set found" using mem i by blast
      then obtain m where m: "newest_of found = Some m" using newest_of_None [of found] by fastforce
      note mx = newest_of_max [OF m]
      then have "v \<le> vd_version m" using \<open>x \<in> set found\<close> x(2) by fastforce
      moreover have "m \<in> all_items c" using mx mem less all_items_old by blast
      ultimately show ?thesis using m by blast
    qed
    moreover have "?r = int (length js)" if "res = Inr result" for result
    proof -
      have "int (length js) \<le> ?r"
        using Inr by (auto simp: js_def answering_replicas_def Let_def quorum_overlaps_def min_def split: if_splits)
      then show ?thesis using False by simp
    qed
    ultimately show ?thesis using val js_def by metis
  qed
qed


section \<open>Failures and recovery\<close>

lemma qc_flag_later:
  "qc_ok c \<Longrightarrow> (\<And>p. rp_name (f p) = rp_name p \<and> rp_data (f p) = rp_data p \<and> rp_hints (f p) = rp_hints p) \<Longrightarrow>
    later c (qc_update i f c)"
  by (rule later_step) (auto intro!: step_adds_flag)

lemma qc_fail_later: "qc_ok c \<Longrightarrow> qc_fail name c = (res, c') \<Longrightarrow> later c c'"
  using qc_flag_later [of c "\<lambda>p. p\<lparr>rp_up := False\<rparr>"] by (auto simp: qc_fail_def split: sum.splits)

lemma qc_set_delay_later: "qc_ok c \<Longrightarrow> qc_set_delay name d c = (res, c') \<Longrightarrow> later c c'"
  using qc_flag_later [of c "\<lambda>p. p\<lparr>rp_delay := d\<rparr>"] by (auto simp: qc_set_delay_def split: sum.splits)

text \<open>The hints of one node: what is delivered, and which hints are left.\<close>

definition hints_for :: "string \<Rightarrow> ((string \<times> string) \<times> versioned) list \<Rightarrow> ((string \<times> string) \<times> versioned) list" where
  "hints_for name hs = filter (\<lambda>h. fst (fst h) = name) hs"

lemma hand_over_hints [simp]: "rp_hints (hand_over key item p) = rp_hints p"
  by (simp add: hand_over_def store_def split: option.splits)

lemma hand_over_holds:
  "i < length (qc_nodes c) \<Longrightarrow> holds (qc_update i (hand_over key item) c) key (vd_version item) i"
  by (auto simp: holds_def hand_over_def store_def split: option.splits)

lemma hand_over_step: "step_adds {item} c (qc_update i (hand_over key item) c)"
proof (rule step_adds_update)
  show "items_of (hand_over key item (qc_nodes c ! i)) \<subseteq> insert item (items_of (qc_nodes c ! i))"
    using items_of_store [of key item "qc_nodes c ! i"] by (auto simp: hand_over_def split: option.splits)
qed (simp_all add: raises_hand_over)

lemma drop_hint_step: "step_adds N c (qc_update j (drop_hint home key) c)"
  by (rule step_adds_flag) (auto simp: drop_hint_def set_dict_del)

lemma hints_loop_hints:
  assumes "j < length (qc_nodes c)" "hints_loop name i j hs d c = (d', c')"
  shows "rp_hints (qc_nodes c' ! l) =
    (if l = j then filter (\<lambda>h. fst h \<notin> fst ` set (hints_for name hs)) (rp_hints (qc_nodes c ! l))
     else rp_hints (qc_nodes c ! l))"
  using assms
proof (induction name i j hs d c arbitrary: d' c' rule: hints_loop.induct)
  case (2 name i j home key item hs d c)
  show ?case
  proof (cases "home = name")
    case True
    let ?c1 = "qc_update i (hand_over key item) c" and ?f = "drop_hint home key"
    have h1: "rp_hints (qc_nodes ?c1 ! l) = rp_hints (qc_nodes c ! l)" for l
      by (cases "l = i"; cases "i < length (qc_nodes c)") (simp_all add: list_update_beyond)
    have h2: "rp_hints (qc_nodes (qc_update j ?f ?c1) ! l) =
        (if l = j then dict_del (home, key) (rp_hints (qc_nodes c ! l)) else rp_hints (qc_nodes c ! l))" for l
      using "2.prems"(1) h1 by (auto simp: drop_hint_def nth_list_update)
    have run: "hints_loop name i j hs (d + 1) (qc_update j ?f ?c1) = (d', c')"
      using "2.prems"(2) True by simp
    have "j < length (qc_nodes (qc_update j ?f ?c1))" using "2.prems"(1) by simp
    note ih = "2.IH"(1) [OF True this run, unfolded h2]
    have "filter (\<lambda>h. fst h \<notin> fst ` set (hints_for name hs)) (dict_del (home, key) H) =
        filter (\<lambda>h. fst h \<notin> fst ` set (hints_for name (((home, key), item) # hs))) H" for H :: "((string \<times> string) \<times> versioned) list"
      unfolding AList.delete_eq filter_filter by (intro filter_cong) (auto simp: hints_for_def True)
    then show ?thesis using ih by simp
  next
    case False
    then show ?thesis using "2.IH"(2) "2.prems" by (simp add: hints_for_def)
  qed
qed (simp add: hints_for_def)

lemma hints_loop_delivers:
  assumes "i < length (qc_nodes c)" "hints_loop name i j hs d c = (d', c')"
  shows "d' = d + int (length (hints_for name hs)) \<and> step_adds (snd ` set hs) c c' \<and>
    (\<forall>key item. ((name, key), item) \<in> set hs \<longrightarrow> holds c' key (vd_version item) i)"
  using assms
proof (induction name i j hs d c arbitrary: d' c' rule: hints_loop.induct)
  case (2 name i j home key item hs d c)
  show ?case
  proof (cases "home = name")
    case True
    let ?c1 = "qc_update i (hand_over key item) c"
    let ?c2 = "qc_update j (drop_hint home key) ?c1"
    have run: "hints_loop name i j hs (d + 1) ?c2 = (d', c')" using "2.prems"(2) True by simp
    have ih: "d' = d + 1 + int (length (hints_for name hs)) \<and> step_adds (snd ` set hs) ?c2 c' \<and>
        (\<forall>key item. ((name, key), item) \<in> set hs \<longrightarrow> holds c' key (vd_version item) i)"
      by (rule "2.IH"(1) [OF True _ run]) (use "2.prems"(1) in simp)
    have st: "step_adds {item} c ?c2"
      using step_adds_trans [OF hand_over_step drop_hint_step] .
    have "grows ?c1 c'"
      using drop_hint_step [of "{}" ?c1 j home key] ih grows_trans unfolding step_adds_def by blast
    then have "holds c' key (vd_version item) i"
      using hand_over_holds [OF "2.prems"(1)] by (simp add: grows_def)
    moreover have "step_adds (insert item (snd ` set hs)) c c'"
      using st ih grows_trans [of c ?c2 c'] by (auto simp: step_adds_def)
    ultimately show ?thesis using ih by (auto simp: hints_for_def True)
  next
    case False
    then have "hints_loop name i j hs d c = (d', c')" using "2.prems"(2) by simp
    then have "d' = d + int (length (hints_for name hs)) \<and> step_adds (snd ` set hs) c c' \<and>
        (\<forall>key item. ((name, key), item) \<in> set hs \<longrightarrow> holds c' key (vd_version item) i)"
      by (rule "2.IH"(2) [OF False "2.prems"(1)])
    then show ?thesis using False by (auto simp: hints_for_def step_adds_def)
  qed
qed (simp add: hints_for_def)

lemma recover_loop_delivers:
  assumes "i < length (qc_nodes c)" "\<And>j. j \<in> set js \<Longrightarrow> j < length (qc_nodes c)" "distinct js"
    and "recover_loop name i js d c = (d', c')"
  shows "d' = d + (\<Sum>j \<leftarrow> js. int (length (hints_for name (rp_hints (qc_nodes c ! j))))) \<and>
    step_adds {} c c' \<and>
    (\<forall>j \<in> set js. \<forall>key item. ((name, key), item) \<in> set (rp_hints (qc_nodes c ! j)) \<longrightarrow> holds c' key (vd_version item) i) \<and>
    (\<forall>l. set (rp_hints (qc_nodes c' ! l)) \<subseteq> set (rp_hints (qc_nodes c ! l))) \<and>
    (\<forall>j \<in> set js. hints_for name (rp_hints (qc_nodes c' ! j)) = [])"
  using assms
proof (induction name i js d c arbitrary: d' c' rule: recover_loop.induct)
  case (2 name i j js d c)
  let ?hs = "rp_hints (qc_nodes c ! j)"
  obtain d1 c1 where one: "hints_loop name i j ?hs d c = (d1, c1)" by fastforce
  have run: "recover_loop name i js d1 c1 = (d', c')" using "2.prems"(4) one by simp
  have j: "j < length (qc_nodes c)" using "2.prems"(2) by simp
  note del = hints_loop_delivers [OF "2.prems"(1) one]
  note hin = hints_loop_hints [OF j one]
  have "snd ` set ?hs \<subseteq> all_items c" using items_of_nth [OF j] by (auto simp: items_of_def)
  then have st: "step_adds {} c c1" using del unfolding step_adds_def by blast
  have ih: "d' = d1 + (\<Sum>j \<leftarrow> js. int (length (hints_for name (rp_hints (qc_nodes c1 ! j))))) \<and>
    step_adds {} c1 c' \<and>
    (\<forall>j \<in> set js. \<forall>key item. ((name, key), item) \<in> set (rp_hints (qc_nodes c1 ! j)) \<longrightarrow> holds c' key (vd_version item) i) \<and>
    (\<forall>l. set (rp_hints (qc_nodes c' ! l)) \<subseteq> set (rp_hints (qc_nodes c1 ! l))) \<and>
    (\<forall>j \<in> set js. hints_for name (rp_hints (qc_nodes c' ! j)) = [])"
    by (rule "2.IH" [OF one [symmetric] _ _ _ run])
      (use "2.prems" step_adds_length [OF st] in auto)
  have same: "rp_hints (qc_nodes c1 ! l) = rp_hints (qc_nodes c ! l)" if "l \<in> set js" for l
    using hin [of l] that "2.prems"(3) by auto
  have "(\<Sum>l \<leftarrow> js. int (length (hints_for name (rp_hints (qc_nodes c1 ! l))))) =
      (\<Sum>l \<leftarrow> js. int (length (hints_for name (rp_hints (qc_nodes c ! l)))))"
    by (intro arg_cong [where f = sum_list] map_cong) (simp_all add: same)
  note sums = this
  have "hints_for name (rp_hints (qc_nodes c1 ! j)) = []"
    using hin [of j] by (auto simp: hints_for_def filter_empty_conv image_iff)
  moreover have "set (rp_hints (qc_nodes c' ! j)) \<subseteq> set (rp_hints (qc_nodes c1 ! j))" using ih by blast
  ultimately have "hints_for name (rp_hints (qc_nodes c' ! j)) = []"
    unfolding hints_for_def filter_empty_conv by blast
  moreover have "set (rp_hints (qc_nodes c1 ! l)) \<subseteq> set (rp_hints (qc_nodes c ! l))" for l
    using hin [of l] by auto
  moreover have "holds c' key (vd_version item) i" if "((name, key), item) \<in> set ?hs" for key item
    using del ih that by (auto simp: step_adds_def grows_def)
  ultimately show ?case using sums ih del same step_adds_trans [OF st] by (auto; blast)
qed simp


lemma replica_index_ok:
  "replica_index name ps = Inr i \<Longrightarrow> i < length ps \<and> rp_name (ps ! i) = name"
  by (induction ps arbitrary: i) (auto split: if_splits sum.splits)

lemma qc_recover_delivers:
  assumes ok: "qc_ok c" and run: "qc_recover name c = (Inr d, c')"
  obtains i where "replica_index name (qc_nodes c) = Inr i" "later c c'"
    "d = (\<Sum>j \<leftarrow> [0..<length (qc_nodes c)]. int (length (hints_for name (rp_hints (qc_nodes c ! j)))))"
    "\<And>j key item. j < length (qc_nodes c) \<Longrightarrow> ((name, key), item) \<in> set (rp_hints (qc_nodes c ! j)) \<Longrightarrow>
       holds c' key (vd_version item) i"
    "\<And>j. j < length (qc_nodes c) \<Longrightarrow> hints_for name (rp_hints (qc_nodes c' ! j)) = []"
proof -
  obtain i where i: "replica_index name (qc_nodes c) = Inr i"
    using run by (auto simp: qc_recover_def split: sum.splits)
  let ?c1 = "qc_update i (\<lambda>p. p\<lparr>rp_up := True\<rparr>) c"
  have hints: "rp_hints (qc_nodes ?c1 ! j) = rp_hints (qc_nodes c ! j)" for j
    using replica_index_ok [OF i] by (auto simp: nth_list_update)
  have loop: "recover_loop name i [0..<length (qc_nodes c)] 0 ?c1 = (d, c')"
    using run i by (auto simp: qc_recover_def split: prod.splits)
  have c1: "later c ?c1" by (rule qc_flag_later [OF ok]) simp
  then have ok1: "qc_ok ?c1" by (simp add: later_def)
  have del: "d = 0 + (\<Sum>j \<leftarrow> [0..<length (qc_nodes c)]. int (length (hints_for name (rp_hints (qc_nodes ?c1 ! j))))) \<and>
    step_adds {} ?c1 c' \<and>
    (\<forall>j \<in> set [0..<length (qc_nodes c)]. \<forall>key item. ((name, key), item) \<in> set (rp_hints (qc_nodes ?c1 ! j)) \<longrightarrow> holds c' key (vd_version item) i) \<and>
    (\<forall>l. set (rp_hints (qc_nodes c' ! l)) \<subseteq> set (rp_hints (qc_nodes ?c1 ! l))) \<and>
    (\<forall>j \<in> set [0..<length (qc_nodes c)]. hints_for name (rp_hints (qc_nodes c' ! j)) = [])"
    by (rule recover_loop_delivers [OF _ _ _ loop]) (use replica_index_ok [OF i] in simp_all)
  have "later ?c1 c'" using later_step [OF ok1] del by blast
  then have "later c c'" by (rule later_trans [OF c1])
  then show ?thesis by (rule that [OF i]) (use del in \<open>simp_all only: hints add_0 set_upt atLeast0LessThan lessThan_iff\<close>)
qed

section \<open>Programs\<close>

datatype quorum_call =
    QPut string string "int option" | QGet string "int option" | QFail string | QRecover string | QDelay string rat

fun quorum_do :: "(string \<Rightarrow> nat list) \<Rightarrow> quorum_call \<Rightarrow> quorum_cluster \<Rightarrow> quorum_cluster" where
  "quorum_do md5 (QPut key val w) c = snd (qc_put md5 key val w c)"
| "quorum_do md5 (QGet key r) c = snd (qc_get md5 key r c)"
| "quorum_do md5 (QFail name) c = snd (qc_fail name c)"
| "quorum_do md5 (QRecover name) c = snd (qc_recover name c)"
| "quorum_do md5 (QDelay name d) c = snd (qc_set_delay name d c)"

definition quorum_after :: "(string \<Rightarrow> nat list) \<Rightarrow> quorum_call list \<Rightarrow> quorum_cluster \<Rightarrow> quorum_cluster" where
  "quorum_after md5 calls c = fold (quorum_do md5) calls c"

lemma quorum_do_later:
  assumes "qc_ok c"
  shows "later c (quorum_do md5 call c)"
proof (cases call)
  case (QRecover name)
  show ?thesis
  proof (cases "fst (qc_recover name c)")
    case (Inl e)
    then have "snd (qc_recover name c) = c" by (auto simp: qc_recover_def split: sum.splits prod.splits)
    then show ?thesis using QRecover assms by simp
  next
    case (Inr d)
    then have "qc_recover name c = (Inr d, snd (qc_recover name c))" by (metis prod.collapse)
    then show ?thesis using QRecover by (metis qc_recover_delivers [OF assms] quorum_do.simps(4))
  qed
next
  case (QPut key val w)
  then show ?thesis using qc_put_later [OF assms prod.collapse [symmetric]] by simp
next
  case (QGet key r)
  then show ?thesis using qc_get_later [OF assms prod.collapse [symmetric]] by simp
next
  case (QFail name)
  then show ?thesis using qc_fail_later [OF assms prod.collapse [symmetric]] by simp
next
  case (QDelay name d)
  then show ?thesis using qc_set_delay_later [OF assms prod.collapse [symmetric]] by simp
qed

lemma quorum_after_later: "qc_ok c \<Longrightarrow> later c (quorum_after md5 calls c)"
  unfolding quorum_after_def
proof (induction calls arbitrary: c)
  case (Cons call calls)
  have st: "later c (quorum_do md5 call c)" by (rule quorum_do_later [OF Cons.prems])
  then have "qc_ok (quorum_do md5 call c)" by (simp add: later_def)
  from later_trans [OF st Cons.IH [OF this]] show ?case by simp
qed simp

lemma qc_new_ok:
  assumes "qc_new names n w r sloppy = Inr c"
  shows "qc_ok c" "qc_sloppy c = sloppy"
proof -
  have c: "c = \<lparr>qc_nodes = map replica_new names, qc_n = n, qc_w = w, qc_r = r, qc_sloppy = sloppy, qc_next = 0\<rparr>"
    and "distinct names" "1 \<le> n" "n \<le> int (length names)"
    using assms card_distinct [of names] by (auto simp: qc_new_def split: if_splits sum.splits)
  moreover have "rp_name \<circ> replica_new = id" by (auto simp: replica_new_def)
  moreover have "all_items c = {}" by (auto simp: all_items_def items_of_def c replica_new_def)
  ultimately show "qc_ok c" "qc_sloppy c = sloppy" by (simp_all add: qc_ok_def)
qed

lemma later_shape: "later c c' \<Longrightarrow> same_shape c c'"
  by (simp add: later_def grows_def)

lemma later_sloppy: "later c c' \<Longrightarrow> qc_sloppy c' = qc_sloppy c"
  by (simp add: later_def grows_def same_shape_def)

lemma later_stamped:
  assumes "later c c'" "v \<le> qc_next c" "stamped (\<lambda>n. n = v) P c"
  shows "stamped (\<lambda>n. n = v) P c'"
  using assms by (fastforce simp: later_def stamped_def)

text \<open>Two sets of positions that are together larger than the homes meet.\<close>

lemma quorums_meet:
  assumes "finite H" "A \<subseteq> H" "B \<subseteq> H" "card H < card A + card B"
  shows "A \<inter> B \<noteq> {}"
proof
  assume "A \<inter> B = {}"
  then have "card (A \<union> B) = card A + card B" using assms finite_subset by (metis card_Un_disjoint)
  moreover have "card (A \<union> B) \<le> card H" using assms by (intro card_mono) auto
  ultimately show False using assms(4) by simp
qed

lemma acked_by_card:
  assumes "acked_by c key v H A" "\<not> qc_sloppy c"
  shows "card A \<le> card {i \<in> H. holds c key v i}"
proof -
  have sub: "A \<subseteq> (\<lambda>i. rp_name (qc_nodes c ! i)) ` {i \<in> H. holds c key v i}"
  proof
    fix a assume "a \<in> A"
    then obtain i where "rp_name (qc_nodes c ! i) = a" "holds c key v i" "i \<in> H"
      using assms unfolding acked_by_def by blast
    then show "a \<in> (\<lambda>i. rp_name (qc_nodes c ! i)) ` {i \<in> H. holds c key v i}" by blast
  qed
  have fin: "finite {i \<in> H. holds c key v i}"
    by (rule finite_subset [of _ "{..<length (qc_nodes c)}"]) (auto simp: holds_def)
  show ?thesis using surj_card_le [OF fin sub] .
qed

lemma overlapping_read:
  assumes ok: "qc_ok c" and strict: "\<not> qc_sloppy c" and run: "qc_get md5 key r_opt c = (Inr result, c')"
    and overlap: "qc_n c < int (card {i \<in> set (home_replicas md5 c key). holds c key v i}) + effective r_opt (qc_r c)"
  shows "\<exists>item. rr_value result = Some item \<and> item \<in> all_items c \<and> v \<le> vd_version item"
proof -
  note get = qc_get_later [OF ok run]
  let ?H = "set (home_replicas md5 c key)"
  let ?A = "{i \<in> ?H. holds c key v i}" and ?B = "set (answering_replicas md5 key (effective r_opt (qc_r c)) c)"
  have "int (card ?B) = effective r_opt (qc_r c)"
    using get distinct_card [OF answering_strict(1) [OF ok strict]] by simp
  moreover have "int (card ?H) = qc_n c"
    using distinct_card [OF homes_ok(1) [OF ok]] homes_ok(2) [OF ok] ok by (simp add: qc_ok_def)
  ultimately have "card ?H < card ?A + card ?B" using overlap by linarith
  moreover have "?B \<subseteq> ?H" by (rule answering_strict(2) [OF ok strict])
  moreover have "?A \<subseteq> ?H" "finite ?H" by auto
  ultimately have "?A \<inter> ?B \<noteq> {}" using quorums_meet [of ?H ?A ?B] by blast
  then show ?thesis using get by blast
qed

text \<open>C7. Quorum consistency. Strict quorums: a write that was acknowledged with its W is seen by
  every later read whose R overlaps it, whatever writes, reads, failures, recoveries and changes
  of speed happen in between and whatever the read repairs: the read returns that version or a
  newer one, and if it is that version, the value that was written.
\<close>

theorem quorum_reads_newest:
  assumes "qc_new names n w r False = Inr c0"
    and "c1 = quorum_after md5 before c0" and "qc_put md5 key val w_opt c1 = (Inr v, c2)"
    and "c3 = quorum_after md5 between c2" and "qc_get md5 key r_opt c3 = (Inr result, c4)"
    and "n < effective w_opt w + effective r_opt r"
  shows "\<exists>item. rr_value result = Some item \<and> v \<le> vd_version item \<and>
    (vd_version item = v \<longrightarrow> vd_value item = val)"
proof -
  have ok0: "qc_ok c0" "\<not> qc_sloppy c0" "qc_n c0 = n" "qc_w c0 = w" "qc_r c0 = r"
    using qc_new_ok [OF assms(1)] assms(1) by (auto simp: qc_new_def split: if_splits sum.splits)
  have l1: "later c0 c1" unfolding assms(2) by (rule quorum_after_later [OF ok0(1)])
  then have ok1: "qc_ok c1" by (simp add: later_def)
  note put = qc_put_later [OF ok1 assms(3)]
  then have l2: "later c1 c2" and ok2: "qc_ok c2" by (auto simp: later_def)
  have l3: "later c2 c3" unfolding assms(4) by (rule quorum_after_later [OF ok2])
  then have ok3: "qc_ok c3" by (simp add: later_def)
  have fields: "qc_w c1 = w" "qc_n c3 = n" "qc_r c3 = r" "\<not> qc_sloppy c3"
    "home_replicas md5 c1 key = home_replicas md5 c3 key"
    using ok0 later_shape [OF l1] later_shape [OF l2] later_shape [OF l3]
      same_shape_homes [OF later_shape [OF later_trans [OF l2 l3]]] by (auto simp: same_shape_def)
  obtain acks where acks: "effective w_opt w \<le> int (card acks)"
    "acked_by c2 key v (set (home_replicas md5 c3 key)) acks" using put fields by metis
  have "grows c2 c3" using l3 by (simp add: later_def)
  then have "effective w_opt w \<le> int (card {i \<in> set (home_replicas md5 c3 key). holds c3 key v i})"
    using acked_by_card [OF acked_by_grows [OF _ acks(2)] fields(4)] acks(1) by fastforce
  then have "qc_n c3 < int (card {i \<in> set (home_replicas md5 c3 key). holds c3 key v i}) + effective r_opt (qc_r c3)"
    using assms(6) fields by simp
  then obtain item where item: "rr_value result = Some item" "item \<in> all_items c3" "v \<le> vd_version item"
    using overlapping_read [OF ok3 fields(4) assms(5)] by blast
  have "stamped (\<lambda>n. n = v) (\<lambda>x. vd_value x = val) c2" "v \<le> qc_next c2" using put by auto
  then have "stamped (\<lambda>n. n = v) (\<lambda>x. vd_value x = val) c3" using later_stamped [OF l3] by blast
  then show ?thesis using item by (auto simp: stamped_def)
qed

definition demo_quorum :: "bool \<Rightarrow> quorum_cluster" where
  "demo_quorum sloppy = (case qc_new [''A'', ''B'', ''C'', ''D'', ''E''] 3 2 2 sloppy of Inr c \<Rightarrow> c
     | Inl _ \<Rightarrow> \<lparr>qc_nodes = [], qc_n = 0, qc_w = 0, qc_r = 0, qc_sloppy = sloppy, qc_next = 0\<rparr>)"

definition demo_hash :: "string \<Rightarrow> nat list" where
  "demo_hash key = [0, 0, 0, length key]"

text \<open>The demo of the module: the third home misses the second write and is the fastest to answer.\<close>

lemma quorum_reads_newest_witness:
  "\<exists>result. fst (qc_get demo_hash ''k'' None
      (quorum_after demo_hash [QRecover ''D'', QDelay ''D'' (1 / 10)]
        (snd (qc_put demo_hash ''k'' ''bread'' None
          (quorum_after demo_hash [QPut ''k'' ''apple'' None, QFail ''D''] (demo_quorum False)))))) = Inr result \<and>
    rr_answered_by result = [''D'', ''B''] \<and> rr_repaired result = [''D''] \<and>
    rr_value result = Some \<lparr>vd_value = ''bread'', vd_version = 2\<rparr>"
proof -
  define c1 where "c1 = quorum_after demo_hash [QPut ''k'' ''apple'' None, QFail ''D''] (demo_quorum False)"
  define c2 where "c2 = snd (qc_put demo_hash ''k'' ''bread'' None c1)"
  define c3 where "c3 = quorum_after demo_hash [QRecover ''D'', QDelay ''D'' (1 / 10)] c2"
  let ?result = "\<lparr>rr_value = Some \<lparr>vd_value = ''bread'', vd_version = 2\<rparr>,
    rr_answered_by = [''D'', ''B''], rr_repaired = [''D'']\<rparr>"
  have new: "qc_new [''A'', ''B'', ''C'', ''D'', ''E''] 3 2 2 False = Inr (demo_quorum False)" by code_simp
  have put: "qc_put demo_hash ''k'' ''bread'' None c1 = (Inr 2, c2)"
    unfolding c2_def c1_def by code_simp
  have get: "qc_get demo_hash ''k'' None c3 = (Inr ?result, snd (qc_get demo_hash ''k'' None c3))"
    unfolding c3_def c2_def c1_def by code_simp
  have "(3 :: int) < effective None 2 + effective None 2" by (simp add: effective_def)
  from quorum_reads_newest [OF new c1_def put c3_def get this]
  have "\<exists>item. rr_value ?result = Some item \<and> 2 \<le> vd_version item" by blast
  moreover have "fst (qc_get demo_hash ''k'' None c3) = Inr ?result" using get by (metis fst_conv)
  ultimately show ?thesis unfolding c3_def c2_def c1_def by (intro exI [of _ ?result]) simp
qed

text \<open>Nothing acknowledged is lost, sloppy quorums included: after a write acknowledged with W,
  at least W replicas hold that version of the key or a newer one for ever, and no recovery,
  hand-off, repair or later write takes it from any of them.
\<close>

theorem acknowledged_write_kept:
  assumes "qc_new names n w r sloppy = Inr c0"
    and "c1 = quorum_after md5 before c0" and "qc_put md5 key val w_opt c1 = (Inr v, c2)"
  shows "effective w_opt w \<le> int (card {i. holds (quorum_after md5 after c2) key v i})"
proof -
  have ok0: "qc_ok c0" "qc_w c0 = w"
    using qc_new_ok [OF assms(1)] assms(1) by (auto simp: qc_new_def split: if_splits sum.splits)
  have l1: "later c0 c1" unfolding assms(2) by (rule quorum_after_later [OF ok0(1)])
  then have ok1: "qc_ok c1" by (simp add: later_def)
  note put = qc_put_later [OF ok1 assms(3)]
  have "qc_ok c2" using put by (auto simp: later_def)
  then have gr: "grows c2 (quorum_after md5 after c2)"
    using quorum_after_later [of c2 md5 after] by (simp add: later_def)
  have "qc_w c1 = w" using ok0 later_shape [OF l1] by (simp add: same_shape_def)
  then obtain acks where acks: "effective w_opt w \<le> int (card acks)"
    "acked_by c2 key v (set (home_replicas md5 c1 key)) acks" using put by metis
  let ?c = "quorum_after md5 after c2"
  have sub: "acks \<subseteq> (\<lambda>i. rp_name (qc_nodes ?c ! i)) ` {i. holds ?c key v i}"
    using acked_by_grows [OF gr acks(2)] unfolding acked_by_def by (metis (mono_tags, lifting) image_eqI mem_Collect_eq subsetI)
  have "finite {i. holds ?c key v i}"
    by (rule finite_subset [of _ "{..<length (qc_nodes ?c)}"]) (auto simp: holds_def)
  then have "card acks \<le> card {i. holds ?c key v i}" by (rule surj_card_le [OF _ sub])
  then show ?thesis using acks(1) by simp
qed

lemma acknowledged_write_kept_witness:
  "fst (qc_put demo_hash ''k'' ''x'' None (quorum_after demo_hash [QFail ''B'', QFail ''C''] (demo_quorum True))) = Inr 1 \<and>
   2 \<le> int (card {i. holds (quorum_after demo_hash [QRecover ''B'', QFail ''D'']
     (snd (qc_put demo_hash ''k'' ''x'' None
       (quorum_after demo_hash [QFail ''B'', QFail ''C''] (demo_quorum True))))) ''k'' 1 i})"
proof -
  define c1 where "c1 = quorum_after demo_hash [QFail ''B'', QFail ''C''] (demo_quorum True)"
  define c2 where "c2 = snd (qc_put demo_hash ''k'' ''x'' None c1)"
  have new: "qc_new [''A'', ''B'', ''C'', ''D'', ''E''] 3 2 2 True = Inr (demo_quorum True)" by code_simp
  have put: "qc_put demo_hash ''k'' ''x'' None c1 = (Inr 1, c2)"
    unfolding c2_def c1_def by code_simp
  have "fst (qc_put demo_hash ''k'' ''x'' None c1) = Inr 1" using put by (metis fst_conv)
  with acknowledged_write_kept [OF new c1_def put, of "[QRecover ''B'', QFail ''D'']"]
  show ?thesis by (simp add: effective_def c1_def c2_def)
qed

text \<open>Hinted handoff: recovering a node delivers every hint any node keeps for it, answers how
  many there were, leaves none behind, and never replaces a newer version by a hinted one.
\<close>

theorem hints_all_delivered:
  assumes "qc_new names n w r sloppy = Inr c0" and "c = quorum_after md5 calls c0"
    and "qc_recover name c = (Inr delivered, c')"
  shows "\<exists>i. replica_index name (qc_nodes c) = Inr i \<and>
    delivered = (\<Sum>j \<leftarrow> [0..<length (qc_nodes c)]. int (length (hints_for name (rp_hints (qc_nodes c ! j))))) \<and>
    (\<forall>p \<in> set (qc_nodes c). \<forall>key item. ((name, key), item) \<in> set (rp_hints p) \<longrightarrow> holds c' key (vd_version item) i) \<and>
    (\<forall>p \<in> set (qc_nodes c'). hints_for name (rp_hints p) = []) \<and>
    (\<forall>key v j. holds c key v j \<longrightarrow> holds c' key v j)"
proof -
  have "qc_ok c" using quorum_after_later [OF qc_new_ok(1) [OF assms(1)]] assms(2) by (simp add: later_def)
  then obtain i where i: "replica_index name (qc_nodes c) = Inr i" "later c c'"
    "delivered = (\<Sum>j \<leftarrow> [0..<length (qc_nodes c)]. int (length (hints_for name (rp_hints (qc_nodes c ! j)))))"
    "\<And>j key item. j < length (qc_nodes c) \<Longrightarrow> ((name, key), item) \<in> set (rp_hints (qc_nodes c ! j)) \<Longrightarrow>
       holds c' key (vd_version item) i"
    "\<And>j. j < length (qc_nodes c) \<Longrightarrow> hints_for name (rp_hints (qc_nodes c' ! j)) = []"
    by (rule qc_recover_delivers [OF _ assms(3)]) blast
  have len: "length (qc_nodes c') = length (qc_nodes c)" by (rule same_shape_length [OF later_shape [OF i(2)]])
  have "\<forall>p \<in> set (qc_nodes c). \<forall>key item. ((name, key), item) \<in> set (rp_hints p) \<longrightarrow> holds c' key (vd_version item) i"
    using i(4) by (metis in_set_conv_nth)
  moreover have "\<forall>p \<in> set (qc_nodes c'). hints_for name (rp_hints p) = []"
    using i(5) len by (metis in_set_conv_nth)
  moreover have "\<forall>key v j. holds c key v j \<longrightarrow> holds c' key v j" using i(2) by (simp add: later_def grows_def)
  ultimately show ?thesis using i(1,3) by blast
qed

lemma hints_all_delivered_witness:
  "\<exists>c'. qc_recover ''B'' (quorum_after demo_hash [QFail ''B'', QPut ''k'' ''x'' None] (demo_quorum True)) = (Inr 1, c') \<and>
    (\<forall>p \<in> set (qc_nodes c'). hints_for ''B'' (rp_hints p) = [])"
proof -
  define c where "c = quorum_after demo_hash [QFail ''B'', QPut ''k'' ''x'' None] (demo_quorum True)"
  have new: "qc_new [''A'', ''B'', ''C'', ''D'', ''E''] 3 2 2 True = Inr (demo_quorum True)" by code_simp
  have rec: "qc_recover ''B'' c = (Inr 1, snd (qc_recover ''B'' c))" unfolding c_def by code_simp
  from hints_all_delivered [OF new c_def rec]
  have "\<forall>p \<in> set (qc_nodes (snd (qc_recover ''B'' c))). hints_for ''B'' (rp_hints p) = []" by blast
  with rec show ?thesis unfolding c_def by blast
qed

text \<open>
  \<^verbatim>\<open>recover\<close> walks over every node, also those that are down: the stand-in below crashes with
  the hint, and the recovering home still receives it.
\<close>

lemma hint_from_a_dead_node:
  "\<exists>c c'. c = quorum_after demo_hash [QFail ''B'', QPut ''k'' ''x'' None, QFail ''E''] (demo_quorum True) \<and>
    (\<forall>p \<in> set (qc_nodes c). rp_hints p \<noteq> [] \<longrightarrow> \<not> rp_up p) \<and> qc_recover ''B'' c = (Inr 1, c')"
proof -
  let ?c = "quorum_after demo_hash [QFail ''B'', QPut ''k'' ''x'' None, QFail ''E''] (demo_quorum True)"
  have "list_all (\<lambda>p. rp_hints p \<noteq> [] \<longrightarrow> \<not> rp_up p) (qc_nodes ?c)" by code_simp
  moreover have "qc_recover ''B'' ?c = (Inr 1, snd (qc_recover ''B'' ?c))" by code_simp
  ultimately show ?thesis unfolding list_all_iff by blast
qed

end
