(* ===== verification/Rate_Limiters.thy ===== *)
theory Rate_Limiters
  imports Common
begin

text \<open>
  The five rate limiters of \<^verbatim>\<open>code/hld/rate_limiters.py\<close> behind one protocol: token bucket,
  leaky bucket, fixed window, sliding window log and sliding window counter.

  The clock reading of a request is an argument of \<^verbatim>\<open>allow\<close>; readings, levels and weights are
  exact rationals where the code has floats. A request answers a decision or the exception of
  the cost check, beside the limiter it leaves.
\<close>

section \<open>Decisions\<close>

record rl_decision =
  dc_allowed :: bool
  dc_limit :: int
  dc_remaining :: int
  dc_retry_after :: rat
  dc_delay :: rat

definition allow_it :: "int \<Rightarrow> int \<Rightarrow> rat \<Rightarrow> rl_decision" where
  "allow_it limit remaining delay =
     \<lparr>dc_allowed = True, dc_limit = limit, dc_remaining = remaining, dc_retry_after = 0, dc_delay = delay\<rparr>"

definition deny_it :: "int \<Rightarrow> int \<Rightarrow> rat \<Rightarrow> rl_decision" where
  "deny_it limit remaining retry_after =
     \<lparr>dc_allowed = False, dc_limit = limit, dc_remaining = remaining, dc_retry_after = retry_after, dc_delay = 0\<rparr>"

definition dc_headers :: "rl_decision \<Rightarrow> (string, string) dict" where
  "dc_headers d =
     [(''X-RateLimit-Limit'', str_of_int (dc_limit d)), (''X-RateLimit-Remaining'', str_of_int (dc_remaining d))] @
     (if dc_allowed d then [] else [(''Retry-After'', str_of_int (max 1 \<lceil>dc_retry_after d\<rceil>))])"

definition check_cost :: "int \<Rightarrow> int \<Rightarrow> unit result" where
  "check_cost cost most =
     (if cost \<le> 0 then Inl ValidationError else if cost > most then Inl ValidationError else Inr ())"

section \<open>Token bucket and leaky bucket\<close>

record rl_bucket =
  rb_level :: rat
  rb_updated :: time

record bucket_limiter =
  bl_rate :: rat
  bl_capacity :: int
  bl_buckets :: "(string, rl_bucket) dict"

definition bucket_new :: "rat \<Rightarrow> int \<Rightarrow> bucket_limiter result" where
  "bucket_new rate capacity =
     (if rate \<le> 0 \<or> capacity \<le> 0 then Inl ValidationError
      else Inr \<lparr>bl_rate = rate, bl_capacity = capacity, bl_buckets = []\<rparr>)"

definition bl_store :: "string \<Rightarrow> rat \<Rightarrow> time \<Rightarrow> bucket_limiter \<Rightarrow> bucket_limiter" where
  "bl_store key level now s = s\<lparr>bl_buckets := dict_set key \<lparr>rb_level = level, rb_updated = now\<rparr> (bl_buckets s)\<rparr>"

definition token_allow :: "string \<Rightarrow> int \<Rightarrow> time \<Rightarrow> bucket_limiter \<Rightarrow> rl_decision result \<times> bucket_limiter" where
  "token_allow key cost now s =
     (case check_cost cost (bl_capacity s) of
        Inl e \<Rightarrow> (Inl e, s)
      | Inr _ \<Rightarrow>
          let b = (case dict_get (bl_buckets s) key of
                     None \<Rightarrow> \<lparr>rb_level = of_int (bl_capacity s), rb_updated = now\<rparr> | Some b \<Rightarrow> b);
              level = min (of_int (bl_capacity s)) (rb_level b + (now - rb_updated b) * bl_rate s)
          in if level \<ge> of_int cost
             then (Inr (allow_it (bl_capacity s) \<lfloor>level - of_int cost\<rfloor> 0), bl_store key (level - of_int cost) now s)
             else (Inr (deny_it (bl_capacity s) \<lfloor>level\<rfloor> ((of_int cost - level) / bl_rate s)), bl_store key level now s))"

definition leaky_allow :: "string \<Rightarrow> int \<Rightarrow> time \<Rightarrow> bucket_limiter \<Rightarrow> rl_decision result \<times> bucket_limiter" where
  "leaky_allow key cost now s =
     (case check_cost cost (bl_capacity s) of
        Inl e \<Rightarrow> (Inl e, s)
      | Inr _ \<Rightarrow>
          let b = (case dict_get (bl_buckets s) key of
                     None \<Rightarrow> \<lparr>rb_level = 0, rb_updated = now\<rparr> | Some b \<Rightarrow> b);
              level = max 0 (rb_level b - (now - rb_updated b) * bl_rate s)
          in if level + of_int cost \<le> of_int (bl_capacity s)
             then (Inr (allow_it (bl_capacity s) \<lfloor>of_int (bl_capacity s) - (level + of_int cost)\<rfloor> (level / bl_rate s)),
                   bl_store key (level + of_int cost) now s)
             else (Inr (deny_it (bl_capacity s) \<lfloor>of_int (bl_capacity s) - level\<rfloor>
                          ((level + of_int cost - of_int (bl_capacity s)) / bl_rate s)),
                   bl_store key level now s))"

section \<open>Window limiters\<close>

record rl_window =
  rw_start :: time
  rw_count :: int
  rw_previous :: int

record window_limiter =
  wl_limit :: int
  wl_window :: rat
  wl_windows :: "(string, rl_window) dict"

definition window_new :: "int \<Rightarrow> rat \<Rightarrow> window_limiter result" where
  "window_new limit window =
     (if limit \<le> 0 \<or> window \<le> 0 then Inl ValidationError
      else Inr \<lparr>wl_limit = limit, wl_window = window, wl_windows = []\<rparr>)"

definition aligned_start :: "rat \<Rightarrow> time \<Rightarrow> time" where
  "aligned_start window now = of_int \<lfloor>now / window\<rfloor> * window"

definition fixed_allow :: "string \<Rightarrow> int \<Rightarrow> time \<Rightarrow> window_limiter \<Rightarrow> rl_decision result \<times> window_limiter" where
  "fixed_allow key cost now s =
     (case check_cost cost (wl_limit s) of
        Inl e \<Rightarrow> (Inl e, s)
      | Inr _ \<Rightarrow>
          let start = aligned_start (wl_window s) now;
              fresh = \<lparr>rw_start = start, rw_count = 0, rw_previous = 0\<rparr>;
              st = (case dict_get (wl_windows s) key of None \<Rightarrow> fresh | Some st \<Rightarrow> if rw_start st \<noteq> start then fresh else st)
          in if rw_count st + cost \<le> wl_limit s
             then (Inr (allow_it (wl_limit s) (wl_limit s - (rw_count st + cost)) 0),
                   s\<lparr>wl_windows := dict_set key (st\<lparr>rw_count := rw_count st + cost\<rparr>) (wl_windows s)\<rparr>)
             else (Inr (deny_it (wl_limit s) (wl_limit s - rw_count st) (start + wl_window s - now)),
                   s\<lparr>wl_windows := dict_set key st (wl_windows s)\<rparr>))"

record log_limiter =
  ll_limit :: int
  ll_window :: rat
  ll_logs :: "(string, time list) dict"

definition log_new :: "int \<Rightarrow> rat \<Rightarrow> log_limiter result" where
  "log_new limit window =
     (if limit \<le> 0 \<or> window \<le> 0 then Inl ValidationError
      else Inr \<lparr>ll_limit = limit, ll_window = window, ll_logs = []\<rparr>)"

definition log_allow :: "string \<Rightarrow> int \<Rightarrow> time \<Rightarrow> log_limiter \<Rightarrow> rl_decision result \<times> log_limiter" where
  "log_allow key cost now s =
     (case check_cost cost (ll_limit s) of
        Inl e \<Rightarrow> (Inl e, s)
      | Inr _ \<Rightarrow>
          let log0 = (case dict_get (ll_logs s) key of None \<Rightarrow> [] | Some l \<Rightarrow> l);
              log1 = dropWhile (\<lambda>t. t \<le> now - ll_window s) log0
          in if int (length log1) + cost \<le> ll_limit s
             then let log2 = log1 @ replicate (nat cost) now
                  in (Inr (allow_it (ll_limit s) (ll_limit s - int (length log2)) 0),
                      s\<lparr>ll_logs := dict_set key log2 (ll_logs s)\<rparr>)
             else let oldest_needed = log1 ! nat (int (length log1) + cost - ll_limit s - 1)
                  in (Inr (deny_it (ll_limit s) (ll_limit s - int (length log1)) (oldest_needed + ll_window s - now)),
                      s\<lparr>ll_logs := dict_set key log1 (ll_logs s)\<rparr>))"

definition roll_window :: "rat \<Rightarrow> time \<Rightarrow> rl_window option \<Rightarrow> rl_window" where
  "roll_window window start st =
     (case st of
        None \<Rightarrow> \<lparr>rw_start = start, rw_count = 0, rw_previous = 0\<rparr>
      | Some w \<Rightarrow>
          if rw_start w \<noteq> start
          then \<lparr>rw_start = start, rw_count = 0,
                rw_previous = (if rw_start w = start - window then rw_count w else 0)\<rparr>
          else w)"

definition counter_allow :: "string \<Rightarrow> int \<Rightarrow> time \<Rightarrow> window_limiter \<Rightarrow> rl_decision result \<times> window_limiter" where
  "counter_allow key cost now s =
     (case check_cost cost (wl_limit s) of
        Inl e \<Rightarrow> (Inl e, s)
      | Inr _ \<Rightarrow>
          let start = aligned_start (wl_window s) now;
              st = roll_window (wl_window s) start (dict_get (wl_windows s) key);
              weight = 1 - (now - start) / wl_window s;
              estimate = of_int (rw_previous st) * weight + of_int (rw_count st);
              limit = of_int (wl_limit s)
          in if estimate + of_int cost \<le> limit
             then (Inr (allow_it (wl_limit s) \<lfloor>limit - estimate - of_int cost\<rfloor> 0),
                   s\<lparr>wl_windows := dict_set key (st\<lparr>rw_count := rw_count st + cost\<rparr>) (wl_windows s)\<rparr>)
             else let remaining = max 0 \<lfloor>limit - estimate\<rfloor>;
                      room = wl_limit s - rw_count st - cost;
                      retry_after = (if rw_previous st \<le> 0 \<or> room < 0 then start + wl_window s - now
                        else max 0 (start + wl_window s * (1 - of_int room / of_int (rw_previous st)) - now))
                  in (Inr (deny_it (wl_limit s) remaining retry_after),
                      s\<lparr>wl_windows := dict_set key st (wl_windows s)\<rparr>))"

section \<open>Traffic\<close>

text \<open>A request is its clock reading, its key and its cost.\<close>

type_synonym request = "time \<times> string \<times> int"

fun limiter_run ::
  "(string \<Rightarrow> int \<Rightarrow> time \<Rightarrow> 's \<Rightarrow> rl_decision result \<times> 's) \<Rightarrow> request list \<Rightarrow> 's \<Rightarrow> rl_decision result list \<times> 's" where
  "limiter_run allow [] s = ([], s)"
| "limiter_run allow ((now, key, cost) # rs) s =
     (case allow key cost now s of (a, s1) \<Rightarrow>
        case limiter_run allow rs s1 of (as, s2) \<Rightarrow> (a # as, s2))"

definition passed :: "rl_decision result \<Rightarrow> bool" where
  "passed a = (case a of Inl _ \<Rightarrow> False | Inr d \<Rightarrow> dc_allowed d)"

text \<open>What a key got: the readings and costs of its accepted requests, in order.\<close>

fun accepted :: "string \<Rightarrow> request list \<Rightarrow> rl_decision result list \<Rightarrow> (time \<times> int) list" where
  "accepted k ((now, key, cost) # rs) (a # as) =
     (if key = k \<and> passed a then (now, cost) # accepted k rs as else accepted k rs as)"
| "accepted k _ _ = []"

definition spent :: "(time \<times> int) list \<Rightarrow> int" where
  "spent xs = sum_list (map snd xs)"

definition in_order :: "request list \<Rightarrow> bool" where
  "in_order rs \<longleftrightarrow> sorted (map fst rs)"


section \<open>Limiters with a budget\<close>

text \<open>
  What the two buckets have in common: units are available, they grow at a rate up to a
  capacity, and an accepted request takes its cost from those of its key and of no other.
\<close>

locale budgeted_limiter =
  fixes allow :: "string \<Rightarrow> int \<Rightarrow> time \<Rightarrow> 's \<Rightarrow> rl_decision result \<times> 's"
    and avail :: "'s \<Rightarrow> string \<Rightarrow> time \<Rightarrow> rat"
    and rate :: "'s \<Rightarrow> rat"
    and ok :: "'s \<Rightarrow> time \<Rightarrow> bool"
  assumes ok_step: "ok s t \<Longrightarrow> t \<le> now \<Longrightarrow> allow key cost now s = (a, s') \<Longrightarrow> ok s' now"
    and rate_kept: "allow key cost now s = (a, s') \<Longrightarrow> rate s' = rate s"
    and avail_nonneg: "ok s t \<Longrightarrow> t \<le> t' \<Longrightarrow> 0 \<le> avail s k t'"
    and rate_nonneg: "ok s t \<Longrightarrow> 0 \<le> rate s"
    and avail_grows: "ok s t \<Longrightarrow> t \<le> t' \<Longrightarrow> avail s k t' \<le> avail s k t + rate s * (t' - t)"
    and avail_spent: "ok s t \<Longrightarrow> t \<le> now \<Longrightarrow> allow key cost now s = (a, s') \<Longrightarrow>
      avail s' k now = avail s k now - (if key = k \<and> passed a then of_int cost else 0)"
begin

lemma run_ok:
  "ok s t \<Longrightarrow> in_order rs \<Longrightarrow> (\<And>r. r \<in> set rs \<Longrightarrow> t \<le> fst r) \<Longrightarrow> limiter_run allow rs s = (as, s') \<Longrightarrow>
    (\<And>r. r \<in> set rs \<Longrightarrow> fst r \<le> t') \<Longrightarrow> t \<le> t' \<Longrightarrow> \<exists>u \<le> t'. ok s' u \<and> rate s' = rate s"
proof (induction rs arbitrary: s t as)
  case (Cons r rs)
  obtain now key cost where r: "r = (now, key, cost)" by (cases r) auto
  obtain a s1 where one: "allow key cost now s = (a, s1)" by fastforce
  obtain as1 where rest: "limiter_run allow rs s1 = (as1, s')"
    using Cons.prems(4) by (auto simp: r one split: prod.splits)
  have now: "t \<le> now" "now \<le> t'" using Cons.prems(3,5) [of r] by (simp_all add: r)
  have ord: "in_order rs" "\<And>x. x \<in> set rs \<Longrightarrow> now \<le> fst x"
    using Cons.prems(2) by (auto simp: in_order_def r)
  have "\<exists>u \<le> t'. ok s' u \<and> rate s' = rate s1"
    by (rule Cons.IH [OF ok_step [OF Cons.prems(1) now(1) one] ord rest]) (use Cons.prems(5) now in auto)
  then show ?case using rate_kept [OF one] by simp
qed (auto simp: intro: exI [of _ t])

text \<open>Over any stretch of time a key gets no more than what it had and what came in.\<close>

lemma spent_le_avail:
  assumes "ok s t0" "in_order rs" "\<And>r. r \<in> set rs \<Longrightarrow> t0 \<le> fst r \<and> fst r \<le> t1" "t0 \<le> t1"
    and "limiter_run allow rs s = (as, s')"
  shows "of_int (spent (accepted k rs as)) \<le> avail s k t0 + rate s * (t1 - t0)"
  using assms
proof (induction rs arbitrary: s t0 as)
  case Nil
  have "0 \<le> avail s k t0" "0 \<le> rate s * (t1 - t0)"
    using Nil avail_nonneg rate_nonneg by (auto intro!: mult_nonneg_nonneg)
  then show ?case using Nil by (simp add: spent_def)
next
  case (Cons r rs)
  obtain now key cost where r: "r = (now, key, cost)" by (cases r) auto
  obtain a s1 where one: "allow key cost now s = (a, s1)" by fastforce
  obtain as1 where rest: "limiter_run allow rs s1 = (as1, s')" and as: "as = a # as1"
    using Cons.prems(5) by (auto simp: r one split: prod.splits)
  have now: "t0 \<le> now" "now \<le> t1" using Cons.prems(3) [of r] by (simp_all add: r)
  have ord: "in_order rs" "\<And>x. x \<in> set rs \<Longrightarrow> now \<le> fst x \<and> fst x \<le> t1"
    using Cons.prems(2,3) by (auto simp: in_order_def r)
  have "of_int (spent (accepted k rs as1)) \<le> avail s1 k now + rate s1 * (t1 - now)"
    by (rule Cons.IH [OF ok_step [OF Cons.prems(1) now(1) one] ord now(2) rest])
  moreover have "avail s k now + rate s * (t1 - now) \<le> avail s k t0 + rate s * (t1 - t0)"
    using avail_grows [OF Cons.prems(1) now(1), of k] by (simp add: algebra_simps)
  ultimately show ?case
    using avail_spent [OF Cons.prems(1) now(1) one, of k] rate_kept [OF one]
    by (cases "key = k"; cases "passed a") (simp_all add: r as spent_def)
qed

end

lemma check_cost_ok: "check_cost cost c = Inr u \<longleftrightarrow> 0 < cost \<and> cost \<le> c"
  by (auto simp: check_cost_def)

definition token_avail :: "bucket_limiter \<Rightarrow> string \<Rightarrow> time \<Rightarrow> rat" where
  "token_avail s key t = (case dict_get (bl_buckets s) key of None \<Rightarrow> of_int (bl_capacity s)
     | Some b \<Rightarrow> min (of_int (bl_capacity s)) (rb_level b + (t - rb_updated b) * bl_rate s))"

definition token_ok :: "bucket_limiter \<Rightarrow> time \<Rightarrow> bool" where
  "token_ok s t \<longleftrightarrow> 0 < bl_rate s \<and> 0 < bl_capacity s \<and>
     (\<forall>k b. dict_get (bl_buckets s) k = Some b \<longrightarrow> 0 \<le> rb_level b \<and> rb_updated b \<le> t)"

definition leaky_avail :: "bucket_limiter \<Rightarrow> string \<Rightarrow> time \<Rightarrow> rat" where
  "leaky_avail s key t = (case dict_get (bl_buckets s) key of None \<Rightarrow> of_int (bl_capacity s)
     | Some b \<Rightarrow> of_int (bl_capacity s) - max 0 (rb_level b - (t - rb_updated b) * bl_rate s))"

definition leaky_ok :: "bucket_limiter \<Rightarrow> time \<Rightarrow> bool" where
  "leaky_ok s t \<longleftrightarrow> 0 < bl_rate s \<and> 0 < bl_capacity s \<and>
     (\<forall>k b. dict_get (bl_buckets s) k = Some b \<longrightarrow> rb_level b \<le> of_int (bl_capacity s) \<and> rb_updated b \<le> t)"

text \<open>One request at a bucket, in terms of what is available.\<close>

lemma token_allow_avail:
  assumes "0 < bl_rate s" "0 < bl_capacity s"
  shows "token_allow key cost now s =
    (case check_cost cost (bl_capacity s) of Inl e \<Rightarrow> (Inl e, s)
     | Inr _ \<Rightarrow>
         if of_int cost \<le> token_avail s key now
         then (Inr (allow_it (bl_capacity s) \<lfloor>token_avail s key now - of_int cost\<rfloor> 0),
               bl_store key (token_avail s key now - of_int cost) now s)
         else (Inr (deny_it (bl_capacity s) \<lfloor>token_avail s key now\<rfloor> ((of_int cost - token_avail s key now) / bl_rate s)),
               bl_store key (token_avail s key now) now s))"
  by (simp add: token_allow_def token_avail_def Let_def split: option.splits sum.splits)

lemma leaky_allow_avail:
  assumes "0 < bl_rate s" "0 < bl_capacity s"
  shows "leaky_allow key cost now s =
    (case check_cost cost (bl_capacity s) of Inl e \<Rightarrow> (Inl e, s)
     | Inr _ \<Rightarrow>
         if of_int cost \<le> leaky_avail s key now
         then (Inr (allow_it (bl_capacity s) \<lfloor>leaky_avail s key now - of_int cost\<rfloor>
                      ((of_int (bl_capacity s) - leaky_avail s key now) / bl_rate s)),
               bl_store key (of_int (bl_capacity s) - (leaky_avail s key now - of_int cost)) now s)
         else (Inr (deny_it (bl_capacity s) \<lfloor>leaky_avail s key now\<rfloor> ((of_int cost - leaky_avail s key now) / bl_rate s)),
               bl_store key (of_int (bl_capacity s) - leaky_avail s key now) now s))"
  by (simp add: leaky_allow_def leaky_avail_def Let_def algebra_simps split: option.splits sum.splits)

lemma bl_store_fields [simp]: "bl_rate (bl_store k l t s) = bl_rate s" "bl_capacity (bl_store k l t s) = bl_capacity s"
  "dict_get (bl_buckets (bl_store k l t s)) x = (if x = k then Some \<lparr>rb_level = l, rb_updated = t\<rparr> else dict_get (bl_buckets s) x)"
  by (simp_all add: bl_store_def)

lemma token_avail_store:
  "0 < bl_rate s \<Longrightarrow> l \<le> of_int (bl_capacity s) \<Longrightarrow> token_avail (bl_store key l now s) k now = (if k = key then l else token_avail s k now)"
  by (simp add: token_avail_def split: option.splits)

lemma leaky_avail_store:
  "0 < bl_rate s \<Longrightarrow> l \<le> of_int (bl_capacity s) \<Longrightarrow>
    leaky_avail (bl_store key (of_int (bl_capacity s) - l) now s) k now = (if k = key then l else leaky_avail s k now)"
  by (simp add: leaky_avail_def split: option.splits)

lemma token_avail_le: "token_avail s k t \<le> of_int (bl_capacity s)"
  by (simp add: token_avail_def split: option.splits)

lemma leaky_avail_le: "leaky_avail s k t \<le> of_int (bl_capacity s)"
  by (simp add: leaky_avail_def split: option.splits)

lemma token_avail_nonneg:
  assumes "token_ok s t" "t \<le> t'"
  shows "0 \<le> token_avail s k t'"
proof (cases "dict_get (bl_buckets s) k")
  case (Some b)
  then have "0 \<le> rb_level b" "rb_updated b \<le> t" "0 < bl_rate s" using assms(1) by (auto simp: token_ok_def)
  then have "0 \<le> rb_level b" "0 \<le> (t' - rb_updated b) * bl_rate s" using assms(2) by simp_all
  then show ?thesis using Some assms(1) by (simp add: token_avail_def token_ok_def)
qed (use assms in \<open>simp add: token_avail_def token_ok_def\<close>)

lemma leaky_avail_nonneg:
  assumes "leaky_ok s t" "t \<le> t'"
  shows "0 \<le> leaky_avail s k t'"
proof (cases "dict_get (bl_buckets s) k")
  case (Some b)
  then have "rb_level b \<le> of_int (bl_capacity s)" "rb_updated b \<le> t" "0 < bl_rate s" using assms(1) by (auto simp: leaky_ok_def)
  moreover from this have "0 \<le> (t' - rb_updated b) * bl_rate s" using assms(2) by simp
  ultimately have "rb_level b - (t' - rb_updated b) * bl_rate s \<le> of_int (bl_capacity s)" by linarith
  then show ?thesis using Some assms(1) by (simp add: leaky_avail_def leaky_ok_def)
qed (use assms in \<open>simp add: leaky_avail_def leaky_ok_def\<close>)

lemma token_avail_grows:
  assumes "token_ok s t" "t \<le> t'"
  shows "token_avail s k t' \<le> token_avail s k t + bl_rate s * (t' - t)"
proof (cases "dict_get (bl_buckets s) k")
  case None
  then show ?thesis using assms by (auto simp: token_avail_def token_ok_def intro!: mult_nonneg_nonneg)
next
  case (Some b)
  have "0 \<le> bl_rate s * (t' - t)" using assms by (auto simp: token_ok_def intro!: mult_nonneg_nonneg)
  moreover have "rb_level b + (t' - rb_updated b) * bl_rate s =
      rb_level b + (t - rb_updated b) * bl_rate s + bl_rate s * (t' - t)" by (simp add: algebra_simps)
  ultimately show ?thesis using Some unfolding token_avail_def by (simp add: min_def)
qed

lemma leaky_avail_grows:
  assumes "leaky_ok s t" "t \<le> t'"
  shows "leaky_avail s k t' \<le> leaky_avail s k t + bl_rate s * (t' - t)"
proof (cases "dict_get (bl_buckets s) k")
  case None
  then show ?thesis using assms by (auto simp: leaky_avail_def leaky_ok_def intro!: mult_nonneg_nonneg)
next
  case (Some b)
  have "0 \<le> bl_rate s * (t' - t)" using assms by (auto simp: leaky_ok_def intro!: mult_nonneg_nonneg)
  moreover have "rb_level b - (t' - rb_updated b) * bl_rate s =
      rb_level b - (t - rb_updated b) * bl_rate s - bl_rate s * (t' - t)" by (simp add: algebra_simps)
  ultimately show ?thesis using Some unfolding leaky_avail_def by (simp add: max_def)
qed

lemma token_step:
  assumes ok: "token_ok s t" and now: "t \<le> now" and run: "token_allow key cost now s = (a, s')"
  shows "token_ok s' now"
    "token_avail s' k now = token_avail s k now - (if key = k \<and> passed a then of_int cost else 0)"
proof -
  have pos: "0 < bl_rate s" "0 < bl_capacity s" using ok by (simp_all add: token_ok_def)
  note run' = run [unfolded token_allow_avail [OF pos]]
  have upd: "rb_updated b \<le> now" if "dict_get (bl_buckets s) k = Some b" for k b
    using that ok now by (force simp: token_ok_def)
  have lev: "0 \<le> rb_level b" if "dict_get (bl_buckets s) k = Some b" for k b
    using that ok by (auto simp: token_ok_def)
  show "token_ok s' now"
    using run' pos upd lev token_avail_nonneg [OF ok now, of key]
    by (auto simp: token_ok_def split: sum.splits if_splits)
  have le: "token_avail s key now - of_int cost \<le> of_int (bl_capacity s)" if "check_cost cost (bl_capacity s) = Inr u" for u
    using that token_avail_le [of s key now] by (auto simp: check_cost_ok)
  show "token_avail s' k now = token_avail s k now - (if key = k \<and> passed a then of_int cost else 0)"
    using run' le token_avail_store [OF pos(1)] token_avail_le [of s key now]
    by (auto simp: passed_def allow_it_def deny_it_def split: sum.splits if_splits)
qed

lemma leaky_step:
  assumes ok: "leaky_ok s t" and now: "t \<le> now" and run: "leaky_allow key cost now s = (a, s')"
  shows "leaky_ok s' now"
    "leaky_avail s' k now = leaky_avail s k now - (if key = k \<and> passed a then of_int cost else 0)"
proof -
  have pos: "0 < bl_rate s" "0 < bl_capacity s" using ok by (simp_all add: leaky_ok_def)
  note run' = run [unfolded leaky_allow_avail [OF pos]]
  have upd: "rb_updated b \<le> now" if "dict_get (bl_buckets s) k = Some b" for k b
    using that ok now by (force simp: leaky_ok_def)
  have lev: "rb_level b \<le> of_int (bl_capacity s)" if "dict_get (bl_buckets s) k = Some b" for k b
    using that ok by (auto simp: leaky_ok_def)
  show "leaky_ok s' now"
    using run' pos upd lev leaky_avail_nonneg [OF ok now, of key]
    by (auto simp: leaky_ok_def split: sum.splits if_splits)
  have le: "leaky_avail s key now - of_int cost \<le> of_int (bl_capacity s)" if "check_cost cost (bl_capacity s) = Inr u" for u
    using that leaky_avail_le [of s key now] by (auto simp: check_cost_ok)
  show "leaky_avail s' k now = leaky_avail s k now - (if key = k \<and> passed a then of_int cost else 0)"
    using run' le leaky_avail_store [OF pos(1)] leaky_avail_le [of s key now]
    by (auto simp: passed_def allow_it_def deny_it_def split: sum.splits if_splits)
qed

lemma bucket_rate_kept:
  "token_allow key cost now s = (a, s') \<Longrightarrow> bl_rate s' = bl_rate s \<and> bl_capacity s' = bl_capacity s"
  "leaky_allow key cost now s = (a, s') \<Longrightarrow> bl_rate s' = bl_rate s \<and> bl_capacity s' = bl_capacity s"
  by (auto simp: token_allow_def leaky_allow_def Let_def split: sum.splits if_splits)

interpretation token: budgeted_limiter token_allow token_avail bl_rate token_ok
proof
  show "token_ok s t \<Longrightarrow> 0 \<le> bl_rate s" for s t by (simp add: token_ok_def)
  show "token_allow key cost now s = (a, s') \<Longrightarrow> bl_rate s' = bl_rate s" for key cost now s a s'
    using bucket_rate_kept by blast
qed (rule token_step token_avail_nonneg token_avail_grows; assumption)+

interpretation leaky: budgeted_limiter leaky_allow leaky_avail bl_rate leaky_ok
proof
  show "leaky_ok s t \<Longrightarrow> 0 \<le> bl_rate s" for s t by (simp add: leaky_ok_def)
  show "leaky_allow key cost now s = (a, s') \<Longrightarrow> bl_rate s' = bl_rate s" for key cost now s a s'
    using bucket_rate_kept by blast
qed (rule leaky_step leaky_avail_nonneg leaky_avail_grows; assumption)+


section \<open>What the buckets promise\<close>

lemma bucket_new_ok:
  "bucket_new rate capacity = Inr s \<Longrightarrow> token_ok s t \<and> leaky_ok s t \<and> bl_rate s = rate \<and> bl_capacity s = capacity"
  by (auto simp: bucket_new_def token_ok_def leaky_ok_def split: if_splits)

lemma bucket_run_capacity:
  "limiter_run token_allow rs s = (as, s') \<Longrightarrow> bl_capacity s' = bl_capacity s"
  "limiter_run leaky_allow rs s = (as, s') \<Longrightarrow> bl_capacity s' = bl_capacity s"
  by (induction rs arbitrary: s as) (fastforce split: prod.splits dest: bucket_rate_kept)+

text \<open>C34. Whatever traffic went before, and whatever other keys do, a key gets at most the capacity
  plus the rate times the length of the stretch in any stretch of time, from a token bucket and
  from a leaky bucket alike.
\<close>

theorem bucket_rate_bound:
  assumes "bucket_new rate capacity = Inr s0"
    and "allow = token_allow \<or> allow = leaky_allow"
    and "limiter_run allow before s0 = (as0, s)" and "limiter_run allow during s = (as, s')"
    and "in_order (before @ during)" and "\<forall>r \<in> set during. t0 \<le> fst r \<and> fst r \<le> t1"
    and "\<forall>r \<in> set before. fst r \<le> t0" and "t0 \<le> t1"
  shows "of_int (spent (accepted key during as)) \<le> of_int capacity + rate * (t1 - t0)"
proof -
  have new: "token_ok s0 t" "leaky_ok s0 t" "bl_rate s0 = rate" "bl_capacity s0 = capacity" for t
    using bucket_new_ok [OF assms(1)] by auto
  have ord: "in_order before" "in_order during" using assms(5) by (auto simp: in_order_def sorted_append)
  define t where "t = (if before = [] then t0 else fst (hd before))"
  have low: "t \<le> t0" "\<And>r. r \<in> set before \<Longrightarrow> t \<le> fst r"
    using assms(7) ord(1) by (cases before; auto simp: t_def in_order_def)+
  show ?thesis
  proof (cases "allow = token_allow")
    case True
    obtain u where u: "u \<le> t0" "token_ok s u" "bl_rate s = rate"
      using token.run_ok [OF new(1) ord(1) low(2) assms(3) [unfolded True] _ low(1)] assms(7) new(3) by auto
    have "token_ok s t0" using u by (fastforce simp: token_ok_def)
    from token.spent_le_avail [OF this ord(2) _ assms(8) assms(4) [unfolded True], of key]
    have "of_int (spent (accepted key during as)) \<le> token_avail s key t0 + rate * (t1 - t0)"
      using assms(6) u(3) by simp
    moreover have "bl_capacity s = capacity" using bucket_run_capacity assms(3) True new(4) by metis
    ultimately show ?thesis using token_avail_le [of s key t0] by linarith
  next
    case False
    then have leaky: "allow = leaky_allow" using assms(2) by blast
    obtain u where u: "u \<le> t0" "leaky_ok s u" "bl_rate s = rate"
      using leaky.run_ok [OF new(2) ord(1) low(2) assms(3) [unfolded leaky] _ low(1)] assms(7) new(3) by auto
    have "leaky_ok s t0" using u by (fastforce simp: leaky_ok_def)
    from leaky.spent_le_avail [OF this ord(2) _ assms(8) assms(4) [unfolded leaky], of key]
    have "of_int (spent (accepted key during as)) \<le> leaky_avail s key t0 + rate * (t1 - t0)"
      using assms(6) u(3) by simp
    moreover have "bl_capacity s = capacity" using bucket_run_capacity assms(3) leaky new(4) by metis
    ultimately show ?thesis using leaky_avail_le [of s key t0] by linarith
  qed
qed

definition demo_bucket :: bucket_limiter where
  "demo_bucket = \<lparr>bl_rate = 5, bl_capacity = 5, bl_buckets = []\<rparr>"

definition demo_burst :: "request list" where
  "demo_burst = replicate 7 (0, ''alice'', 1) @ [(1 / 2, ''alice'', 1), (1 / 2, ''alice'', 2), (1, ''bob'', 5)]"

lemma bucket_rate_bound_witness:
  "spent (accepted ''alice'' demo_burst (fst (limiter_run token_allow demo_burst demo_bucket))) = 6 \<and>
   of_int (spent (accepted ''alice'' demo_burst (fst (limiter_run token_allow demo_burst demo_bucket))))
     \<le> of_int 5 + 5 * (1 - 0 :: rat)"
proof -
  have new: "bucket_new 5 5 = Inr demo_bucket" by (simp add: bucket_new_def demo_bucket_def)
  have none: "limiter_run token_allow [] demo_bucket = ([], demo_bucket)" by simp
  have ord: "in_order ([] @ demo_burst)" by (simp add: in_order_def demo_burst_def numeral_eq_Suc)
  have times: "\<forall>r \<in> set demo_burst. (0 :: rat) \<le> fst r \<and> fst r \<le> 1" "(0 :: rat) \<le> 1"
    "\<forall>r \<in> set []. fst r \<le> (0 :: rat)"
    by (simp_all add: demo_burst_def)
  have "spent (accepted ''alice'' demo_burst (fst (limiter_run token_allow demo_burst demo_bucket))) = 6" by code_simp
  then show ?thesis
    using bucket_rate_bound [OF new disjI1 [OF refl] none prod.collapse [symmetric] ord times(1,3,2), of "''alice''"] by simp
qed

text \<open>Both buckets after the same traffic: the queue holds what the tokens lack.\<close>

definition mirrored :: "bucket_limiter \<Rightarrow> bucket_limiter \<Rightarrow> bool" where
  "mirrored tk lk \<longleftrightarrow> bl_rate lk = bl_rate tk \<and> bl_capacity lk = bl_capacity tk \<and>
     (\<forall>k. dict_get (bl_buckets lk) k = map_option (\<lambda>b. \<lparr>rb_level = of_int (bl_capacity tk) - rb_level b,
        rb_updated = rb_updated b\<rparr>) (dict_get (bl_buckets tk) k))"

definition without_delay :: "rl_decision result \<Rightarrow> rl_decision result" where
  "without_delay a = map_sum id (\<lambda>d. d\<lparr>dc_delay := 0\<rparr>) a"

lemma mirrored_avail: "mirrored tk lk \<Longrightarrow> leaky_avail lk k t = token_avail tk k t"
  by (auto simp: mirrored_def leaky_avail_def token_avail_def min_def max_def split: option.splits)

lemma mirrored_store:
  "mirrored tk lk \<Longrightarrow> mirrored (bl_store k l t tk) (bl_store k (of_int (bl_capacity tk) - l) t lk)"
  by (simp add: mirrored_def)

lemma mirrored_step:
  assumes m: "mirrored tk lk" and pos: "0 < bl_rate tk" "0 < bl_capacity tk"
  shows "without_delay (fst (leaky_allow key cost now lk)) = fst (token_allow key cost now tk) \<and>
    mirrored (snd (token_allow key cost now tk)) (snd (leaky_allow key cost now lk))"
proof -
  have lk: "bl_rate lk = bl_rate tk" "bl_capacity lk = bl_capacity tk" using m by (simp_all add: mirrored_def)
  then have pos': "0 < bl_rate lk" "0 < bl_capacity lk" using pos by simp_all
  show ?thesis
    unfolding token_allow_avail [OF pos] leaky_allow_avail [OF pos'] lk mirrored_avail [OF m]
    using m mirrored_store [OF m]
    by (auto simp: without_delay_def allow_it_def deny_it_def split: sum.splits)
qed

text \<open>A leaky bucket admits exactly the requests a token bucket of the same rate and capacity
  admits, with the same remaining permits and the same time to retry, whatever the clock does;
  it only adds the delay of the admitted ones, which is the work in the queue over the rate.
\<close>

theorem leaky_admits_as_token:
  assumes "bucket_new rate capacity = Inr s"
  shows "map without_delay (fst (limiter_run leaky_allow rs s)) = fst (limiter_run token_allow rs s)"
proof -
  have "map without_delay (fst (limiter_run leaky_allow rs lk)) = fst (limiter_run token_allow rs tk)"
    if "mirrored tk lk" "0 < bl_rate tk" "0 < bl_capacity tk" for tk lk
    using that
  proof (induction rs arbitrary: tk lk)
    case (Cons r rs)
    obtain now key cost where r: "r = (now, key, cost)" by (cases r) auto
    note st = mirrored_step [OF Cons.prems, of key cost now]
    have kept: "bl_rate (snd (token_allow key cost now tk)) = bl_rate tk"
      "bl_capacity (snd (token_allow key cost now tk)) = bl_capacity tk"
      using bucket_rate_kept(1) by (metis prod.collapse)+
    have "map without_delay (fst (limiter_run leaky_allow rs (snd (leaky_allow key cost now lk)))) =
        fst (limiter_run token_allow rs (snd (token_allow key cost now tk)))"
      by (rule Cons.IH) (use st kept Cons.prems in simp_all)
    then show ?case using st by (simp add: r case_prod_beta)
  qed simp
  moreover have "mirrored s s" "0 < bl_rate s" "0 < bl_capacity s"
    using assms by (auto simp: bucket_new_def mirrored_def split: if_splits)
  ultimately show ?thesis by blast
qed

lemma leaky_admits_as_token_witness:
  "map without_delay (fst (limiter_run leaky_allow demo_burst demo_bucket)) =
     fst (limiter_run token_allow demo_burst demo_bucket) \<and>
   map passed (fst (limiter_run token_allow demo_burst demo_bucket)) =
     [True, True, True, True, True, False, False, True, False, True]"
proof -
  have new: "bucket_new 5 5 = Inr demo_bucket" by (simp add: bucket_new_def demo_bucket_def)
  have "map passed (fst (limiter_run token_allow demo_burst demo_bucket)) =
     [True, True, True, True, True, False, False, True, False, True]" by code_simp
  with leaky_admits_as_token [OF new, of demo_burst] show ?thesis by blast
qed


section \<open>Histories\<close>

lemma limiter_run_length: "length (fst (limiter_run allow rs s)) = length rs"
  by (induction rs arbitrary: s) (auto simp: case_prod_beta)

lemma limiter_run_snoc:
  "limiter_run allow (rs @ [(now, key, cost)]) s =
    (fst (limiter_run allow rs s) @ [fst (allow key cost now (snd (limiter_run allow rs s)))],
     snd (allow key cost now (snd (limiter_run allow rs s))))"
  by (induction rs arbitrary: s) (auto simp: case_prod_beta)

lemma accepted_append:
  "length rs = length as \<Longrightarrow> accepted k (rs @ rs') (as @ as') = accepted k rs as @ accepted k rs' as'"
proof (induction rs arbitrary: as)
  case (Cons r rs)
  obtain a as1 where "as = a # as1" using Cons.prems by (cases as) auto
  then show ?case using Cons by (cases r) auto
qed simp

lemma accepted_mem: "(t, c) \<in> set (accepted k rs as) \<Longrightarrow> (t, k, c) \<in> set rs"
  by (induction k rs as rule: accepted.induct) (auto split: if_splits)

lemma accepted_sorted: "in_order rs \<Longrightarrow> sorted (map fst (accepted k rs as))"
proof (induction k rs as rule: accepted.induct)
  case (1 k now key cost rs a as)
  have "\<forall>x \<in> set (accepted k rs as). now \<le> fst x"
    using "1.prems" accepted_mem [of _ _ k rs as] by (fastforce simp: in_order_def)
  then show ?case using 1 by (auto simp: in_order_def)
qed auto

text \<open>What one key was granted by a limiter after some traffic.\<close>

definition granted ::
  "(string \<Rightarrow> int \<Rightarrow> time \<Rightarrow> 's \<Rightarrow> rl_decision result \<times> 's) \<Rightarrow> request list \<Rightarrow> 's \<Rightarrow> string \<Rightarrow> (time \<times> int) list" where
  "granted allow rs s k = accepted k rs (fst (limiter_run allow rs s))"

definition after_traffic ::
  "(string \<Rightarrow> int \<Rightarrow> time \<Rightarrow> 's \<Rightarrow> rl_decision result \<times> 's) \<Rightarrow> request list \<Rightarrow> 's \<Rightarrow> 's" where
  "after_traffic allow rs s = snd (limiter_run allow rs s)"

lemma granted_Nil [simp]: "granted allow [] s k = []"
  by (simp add: granted_def)

lemma after_traffic_Nil [simp]: "after_traffic allow [] s = s"
  by (simp add: after_traffic_def)

lemma granted_snoc [simp]:
  "granted allow (rs @ [(now, key, cost)]) s k = granted allow rs s k @
    (if key = k \<and> passed (fst (allow key cost now (after_traffic allow rs s))) then [(now, cost)] else [])"
  by (auto simp: granted_def limiter_run_snoc accepted_append limiter_run_length after_traffic_def)

lemma after_traffic_snoc [simp]:
  "after_traffic allow (rs @ [(now, key, cost)]) s = snd (allow key cost now (after_traffic allow rs s))"
  by (simp add: after_traffic_def limiter_run_snoc)

lemma granted_sorted: "in_order rs \<Longrightarrow> sorted (map fst (granted allow rs s k))"
  by (simp add: granted_def accepted_sorted)

lemma granted_mem: "(t, c) \<in> set (granted allow rs s k) \<Longrightarrow> (t, k, c) \<in> set rs"
  by (simp add: granted_def accepted_mem)

lemma in_order_snoc: "in_order (rs @ [(now, key, cost)]) \<longleftrightarrow> in_order rs \<and> (\<forall>r \<in> set rs. fst r \<le> now)"
  by (auto simp: in_order_def sorted_append)

lemma spent_append [simp]: "spent (xs @ ys) = spent xs + spent ys"
  by (simp add: spent_def)

lemma spent_Nil [simp]: "spent [] = 0"
  by (simp add: spent_def)

section \<open>The fixed window\<close>

definition window_index :: "rat \<Rightarrow> time \<Rightarrow> int" where
  "window_index w t = \<lfloor>t / w\<rfloor>"

definition used_in :: "rat \<Rightarrow> int \<Rightarrow> (time \<times> int) list \<Rightarrow> int" where
  "used_in w i xs = spent (filter (\<lambda>(t, _). window_index w t = i) xs)"

lemma used_in_Nil [simp]: "used_in w i [] = 0"
  by (simp add: used_in_def)

lemma used_in_append [simp]: "used_in w i (xs @ ys) = used_in w i xs + used_in w i ys"
  by (simp add: used_in_def)

lemma used_in_one [simp]: "used_in w i [(t, c)] = (if window_index w t = i then c else 0)"
  by (simp add: used_in_def spent_def)

lemma window_index_mono: "0 < w \<Longrightarrow> t \<le> t' \<Longrightarrow> window_index w t \<le> window_index w t'"
  by (simp add: window_index_def floor_mono divide_right_mono)

lemma aligned_start_index: "aligned_start w t = of_int (window_index w t) * w"
  by (simp add: aligned_start_def window_index_def)

lemma used_in_later: "(\<And>t c. (t, c) \<in> set xs \<Longrightarrow> window_index w t < i) \<Longrightarrow> used_in w i xs = 0"
proof -
  assume "\<And>t c. (t, c) \<in> set xs \<Longrightarrow> window_index w t < i"
  then have "filter (\<lambda>(t, _). window_index w t = i) xs = []" by (fastforce simp: filter_empty_conv)
  then show ?thesis by (simp add: used_in_def)
qed

text \<open>The counter of a key is what it was granted in the aligned window it is in.\<close>

definition fixed_key :: "rat \<Rightarrow> int \<Rightarrow> time \<Rightarrow> rl_window option \<Rightarrow> (time \<times> int) list \<Rightarrow> bool" where
  "fixed_key w limit t st xs \<longleftrightarrow>
     (\<forall>x \<in> set xs. 0 < snd x) \<and> (\<forall>i. used_in w i xs \<le> limit) \<and>
     (case st of None \<Rightarrow> xs = []
      | Some v \<Rightarrow> \<exists>m \<le> window_index w t. rw_start v = of_int m * w \<and> rw_count v = used_in w m xs \<and>
          (\<forall>x \<in> set xs. window_index w (fst x) \<le> m))"

lemma fixed_key_later:
  assumes "fixed_key w limit t st xs" "t \<le> t'" "0 < w"
  shows "fixed_key w limit t' st xs"
  using assms window_index_mono [OF assms(3,2)] by (fastforce simp: fixed_key_def split: option.splits)

definition fixed_fresh :: "rat \<Rightarrow> time \<Rightarrow> rl_window option \<Rightarrow> rl_window" where
  "fixed_fresh w now st =
     (let fresh = \<lparr>rw_start = aligned_start w now, rw_count = 0, rw_previous = 0\<rparr>
      in case st of None \<Rightarrow> fresh | Some v \<Rightarrow> if rw_start v \<noteq> aligned_start w now then fresh else v)"

lemma fixed_fresh_count:
  assumes key: "fixed_key w limit now st xs" and w: "0 < w"
  shows "rw_start (fixed_fresh w now st) = of_int (window_index w now) * w"
    "rw_count (fixed_fresh w now st) = used_in w (window_index w now) xs"
    "\<forall>x \<in> set xs. window_index w (fst x) \<le> window_index w now"
proof -
  let ?j = "window_index w now"
  have "rw_start (fixed_fresh w now st) = of_int ?j * w \<and> rw_count (fixed_fresh w now st) = used_in w ?j xs \<and>
    (\<forall>x \<in> set xs. window_index w (fst x) \<le> ?j)"
  proof (cases st)
    case None
    then show ?thesis using key by (simp add: fixed_key_def fixed_fresh_def aligned_start_index)
  next
    case (Some v)
    then obtain m where m: "m \<le> ?j" "rw_start v = of_int m * w" "rw_count v = used_in w m xs"
      "\<forall>x \<in> set xs. window_index w (fst x) \<le> m"
      using key by (auto simp: fixed_key_def)
    have idx: "\<forall>x \<in> set xs. window_index w (fst x) \<le> ?j" using m(1,4) by force
    show ?thesis
    proof (cases "m = ?j")
      case True
      then show ?thesis using m idx Some by (simp add: fixed_fresh_def aligned_start_index)
    next
      case False
      then have "used_in w ?j xs = 0" using m(1,4) by (intro used_in_later) force
      then show ?thesis using m(2) False w idx Some by (simp add: fixed_fresh_def aligned_start_index)
    qed
  qed
  then show "rw_start (fixed_fresh w now st) = of_int ?j * w"
    "rw_count (fixed_fresh w now st) = used_in w ?j xs" "\<forall>x \<in> set xs. window_index w (fst x) \<le> ?j" by blast+
qed

lemma fixed_allow_alt:
  "fixed_allow key cost now s =
     (case check_cost cost (wl_limit s) of
        Inl e \<Rightarrow> (Inl e, s)
      | Inr _ \<Rightarrow>
          let st = fixed_fresh (wl_window s) now (dict_get (wl_windows s) key)
          in if rw_count st + cost \<le> wl_limit s
             then (Inr (allow_it (wl_limit s) (wl_limit s - (rw_count st + cost)) 0),
                   s\<lparr>wl_windows := dict_set key (st\<lparr>rw_count := rw_count st + cost\<rparr>) (wl_windows s)\<rparr>)
             else (Inr (deny_it (wl_limit s) (wl_limit s - rw_count st)
                          (aligned_start (wl_window s) now + wl_window s - now)),
                   s\<lparr>wl_windows := dict_set key st (wl_windows s)\<rparr>))"
  unfolding fixed_allow_def fixed_fresh_def Let_def by (rule refl)

lemma fixed_step:
  assumes key: "fixed_key (wl_window s) (wl_limit s) now (dict_get (wl_windows s) k) xs" and w: "0 < wl_window s"
    and run: "fixed_allow key cost now s = (a, s')"
  shows "fixed_key (wl_window s) (wl_limit s) now (dict_get (wl_windows s') k)
    (xs @ (if key = k \<and> passed a then [(now, cost)] else []))"
proof (cases "key = k")
  case False
  then have "dict_get (wl_windows s') k = dict_get (wl_windows s) k"
    using run by (auto simp: fixed_allow_alt Let_def split: sum.splits if_splits)
  then show ?thesis using key False by simp
next
  case True
  let ?w = "wl_window s" and ?j = "window_index (wl_window s) now"
  define st where "st = fixed_fresh ?w now (dict_get (wl_windows s) k)"
  note fresh = fixed_fresh_count [OF key w, folded st_def]
  have lim: "\<forall>i. used_in ?w i xs \<le> wl_limit s" "\<forall>x \<in> set xs. 0 < snd x" using key by (simp_all add: fixed_key_def)
  show ?thesis
  proof (cases "check_cost cost (wl_limit s)")
    case (Inl e)
    then show ?thesis using run key by (auto simp: fixed_allow_alt passed_def)
  next
    case (Inr u)
    then have "0 < cost" by (simp add: check_cost_ok)
    then show ?thesis
      using run Inr True fresh lim
      by (auto simp: fixed_allow_alt Let_def st_def [symmetric] fixed_key_def passed_def allow_it_def deny_it_def
          split: if_splits intro!: exI [of _ ?j])
  qed
qed

lemma fixed_fields: "wl_window (snd (fixed_allow key cost now s)) = wl_window s"
  "wl_limit (snd (fixed_allow key cost now s)) = wl_limit s"
  by (simp_all add: fixed_allow_alt Let_def split: sum.splits)

lemma fixed_run_fields:
  "wl_window (after_traffic fixed_allow rs s) = wl_window s \<and> wl_limit (after_traffic fixed_allow rs s) = wl_limit s"
proof (induction rs rule: rev_induct)
  case (snoc r rs)
  then show ?case by (cases r) (simp add: fixed_fields)
qed simp

lemma fixed_run_inv:
  assumes new: "window_new limit w = Inr s"
  shows "in_order rs \<Longrightarrow> \<forall>r \<in> set rs. fst r \<le> t \<Longrightarrow>
    fixed_key w limit t (dict_get (wl_windows (after_traffic fixed_allow rs s)) k) (granted fixed_allow rs s k)"
proof (induction rs arbitrary: t rule: rev_induct)
  case Nil
  then show ?case using new by (auto simp: fixed_key_def window_new_def split: if_splits)
next
  case (snoc r rs)
  obtain now key cost where r: "r = (now, key, cost)" by (cases r) auto
  let ?s = "after_traffic fixed_allow rs s"
  have s: "wl_window s = w" "wl_limit s = limit" "0 < w" using new by (auto simp: window_new_def split: if_splits)
  have fields: "wl_window ?s = w" "wl_limit ?s = limit" using fixed_run_fields s by simp_all
  have "fixed_key w limit now (dict_get (wl_windows ?s) k) (granted fixed_allow rs s k)"
    by (rule snoc.IH) (use snoc.prems in \<open>auto simp: r in_order_snoc\<close>)
  then have "fixed_key w limit now (dict_get (wl_windows (snd (fixed_allow key cost now ?s))) k)
      (granted fixed_allow rs s k @ (if key = k \<and> passed (fst (fixed_allow key cost now ?s)) then [(now, cost)] else []))"
    using fixed_step [of ?s now k _ key cost] fields s(3) by (metis prod.collapse)
  moreover have "now \<le> t" using snoc.prems(2) by (simp add: r)
  ultimately show ?case using fixed_key_later s(3) by (simp add: r)
qed

lemma spent_filter_mono:
  "\<forall>x \<in> set xs. 0 < snd x \<Longrightarrow> (\<And>x. x \<in> set xs \<Longrightarrow> P x \<Longrightarrow> Q x) \<Longrightarrow> spent (filter P xs) \<le> spent (filter Q xs)"
  by (induction xs) (auto simp: spent_def intro: add_increasing)

lemma spent_filter_or:
  "\<forall>x \<in> set xs. 0 < snd x \<Longrightarrow> spent (filter (\<lambda>x. P x \<or> Q x) xs) \<le> spent (filter P xs) + spent (filter Q xs)"
  by (induction xs) (auto simp: spent_def)

text \<open>A fixed window grants a key at most its limit in every aligned window, and therefore at
  most twice the limit, the burst at the boundary, in any stretch as long as a window.
\<close>

theorem fixed_window_bound:
  assumes "window_new limit w = Inr s" and "in_order rs"
  shows "used_in w i (granted fixed_allow rs s key) \<le> limit \<and>
    spent (filter (\<lambda>(t, _). a \<le> t \<and> t < a + w) (granted fixed_allow rs s key)) \<le> 2 * limit"
proof -
  let ?xs = "granted fixed_allow rs s key"
  obtain t where "\<forall>r \<in> set rs. fst r \<le> t"
    using assms(2) by (cases rs rule: rev_cases) (auto simp: in_order_def sorted_append)
  from fixed_run_inv [OF assms this, of key]
  have key: "\<forall>x \<in> set ?xs. 0 < snd x" "\<forall>i. used_in w i ?xs \<le> limit" by (simp_all add: fixed_key_def)
  have w: "0 < w" using assms(1) by (auto simp: window_new_def split: if_splits)
  let ?i = "window_index w a"
  have two: "window_index w t = ?i \<or> window_index w t = ?i + 1" if "a \<le> t" "t < a + w" for t
  proof -
    have "a / w \<le> t / w" "t / w < a / w + 1" using that w by (simp_all add: field_simps)
    then show ?thesis unfolding window_index_def by linarith
  qed
  have "spent (filter (\<lambda>(t, _). a \<le> t \<and> t < a + w) ?xs) \<le>
      spent (filter (\<lambda>x. (case x of (t, _) \<Rightarrow> window_index w t = ?i) \<or> (case x of (t, _) \<Rightarrow> window_index w t = ?i + 1)) ?xs)"
    by (rule spent_filter_mono [OF key(1)]) (use two in auto)
  also have "\<dots> \<le> used_in w ?i ?xs + used_in w (?i + 1) ?xs"
    unfolding used_in_def by (rule spent_filter_or [OF key(1)])
  also have "\<dots> \<le> 2 * limit" using key(2) [rule_format, of ?i] key(2) [rule_format, of "?i + 1"] by simp
  finally show ?thesis using key(2) by simp
qed

text \<open>The burst at the boundary reaches the bound.\<close>

definition demo_boundary :: "request list" where
  "demo_boundary = replicate 6 (9 / 10, ''bob'', 1) @ replicate 6 (1, ''bob'', 1)"

lemma fixed_window_bound_witness:
  "spent (filter (\<lambda>(t, _). 1 / 2 \<le> t \<and> t < 1 / 2 + 1)
     (granted fixed_allow demo_boundary \<lparr>wl_limit = 5, wl_window = 1, wl_windows = []\<rparr> ''bob'')) = 10 \<and>
   spent (filter (\<lambda>(t, _). 1 / 2 \<le> t \<and> t < 1 / 2 + 1)
     (granted fixed_allow demo_boundary \<lparr>wl_limit = 5, wl_window = 1, wl_windows = []\<rparr> ''bob'')) \<le> 2 * 5"
proof -
  let ?s = "\<lparr>wl_limit = 5, wl_window = 1, wl_windows = []\<rparr>"
  have new: "window_new 5 1 = Inr ?s" by (simp add: window_new_def)
  have ord: "in_order demo_boundary" by (simp add: in_order_def demo_boundary_def numeral_eq_Suc)
  have "spent (filter (\<lambda>(t, _). 1 / 2 \<le> t \<and> t < 1 / 2 + 1) (granted fixed_allow demo_boundary ?s ''bob'')) = 10"
    by code_simp
  with fixed_window_bound [OF new ord, of 0 "''bob''" "1 / 2"] show ?thesis by blast
qed


section \<open>The sliding window log\<close>

text \<open>Accepted units one by one: a request of cost \<open>n\<close> is \<open>n\<close> times its reading.\<close>

definition units :: "(time \<times> int) list \<Rightarrow> time list" where
  "units xs = concat (map (\<lambda>(t, c). replicate (nat c) t) xs)"

lemma units_append [simp]: "units (xs @ ys) = units xs @ units ys"
  by (simp add: units_def)

lemma units_simps [simp]: "units [] = []" "units [(t, c)] = replicate (nat c) t"
  by (simp_all add: units_def)

lemma set_units: "t \<in> set (units xs) \<Longrightarrow> t \<in> fst ` set xs"
  by (force simp: units_def split: if_splits)

lemma sorted_units: "sorted (map fst xs) \<Longrightarrow> sorted (units xs)"
proof (induction xs)
  case (Cons x xs)
  obtain t c where x: "x = (t, c)" by (cases x)
  have "\<forall>y \<in> set (units xs). t \<le> y" using Cons.prems set_units [of _ xs] by (fastforce simp: x)
  moreover have "sorted (replicate (nat c) t)" by (simp add: sorted_replicate)
  ultimately show ?case using Cons by (auto simp: x units_def sorted_append)
qed simp

lemma length_units_filter:
  "\<forall>x \<in> set xs. 0 < snd x \<Longrightarrow>
    int (length (filter P (units xs))) = spent (filter (\<lambda>(t, _). P t) xs)"
proof (induction xs)
  case (Cons x xs)
  obtain t c where x: "x = (t, c)" by (cases x)
  have "filter P (replicate n t) = (if P t then replicate n t else [])" for n by (induction n) auto
  then show ?case using Cons by (simp add: x units_def spent_def)
qed simp

lemma dropWhile_sorted: "sorted (l :: time list) \<Longrightarrow> dropWhile (\<lambda>t. t \<le> d) l = filter (\<lambda>t. d < t) l"
proof (induction l)
  case (Cons x l)
  show ?case
  proof (cases "x \<le> d")
    case False
    then have "\<forall>y \<in> set (x # l). d < y" using Cons.prems by auto
    then have "filter (\<lambda>t. d < t) (x # l) = x # l" by (simp only: filter_id_conv)
    then show ?thesis using False by simp
  qed (use Cons in auto)
qed simp

definition log_key :: "rat \<Rightarrow> time \<Rightarrow> time list option \<Rightarrow> (time \<times> int) list \<Rightarrow> bool" where
  "log_key w t l xs \<longleftrightarrow> (\<forall>x \<in> set xs. 0 < snd x) \<and> sorted (map fst xs) \<and>
     (case l of None \<Rightarrow> xs = [] | Some ts \<Rightarrow> \<exists>c \<le> t - w. ts = filter (\<lambda>t. c < t) (units xs))"

definition log_now :: "rat \<Rightarrow> time \<Rightarrow> time list option \<Rightarrow> time list" where
  "log_now w now l = dropWhile (\<lambda>t. t \<le> now - w) (case l of None \<Rightarrow> [] | Some ts \<Rightarrow> ts)"

lemma log_now_trailing:
  assumes "log_key w now l xs"
  shows "log_now w now l = filter (\<lambda>t. now - w < t) (units xs)"
    "int (length (log_now w now l)) = spent (filter (\<lambda>(t, _). now - w < t) xs)"
proof -
  have pos: "\<forall>x \<in> set xs. 0 < snd x" and srt: "sorted (units xs)"
    using assms by (auto simp: log_key_def sorted_units)
  show eq: "log_now w now l = filter (\<lambda>t. now - w < t) (units xs)"
  proof (cases l)
    case None
    then show ?thesis using assms by (simp add: log_key_def log_now_def)
  next
    case (Some ts)
    then obtain c where c: "c \<le> now - w" "ts = filter (\<lambda>t. c < t) (units xs)"
      using assms by (auto simp: log_key_def)
    have "sorted ts" using srt c(2) by (simp add: sorted_wrt_filter)
    then have "log_now w now l = filter (\<lambda>t. now - w < t) ts" by (simp add: log_now_def Some dropWhile_sorted)
    also have "\<dots> = filter (\<lambda>t. now - w < t) (units xs)"
      unfolding c(2) filter_filter using c(1) by (intro filter_cong) auto
    finally show ?thesis .
  qed
  show "int (length (log_now w now l)) = spent (filter (\<lambda>(t, _). now - w < t) xs)"
    unfolding eq by (rule length_units_filter [OF pos])
qed

lemma log_allow_alt:
  "log_allow key cost now s =
     (case check_cost cost (ll_limit s) of
        Inl e \<Rightarrow> (Inl e, s)
      | Inr _ \<Rightarrow>
          let log1 = log_now (ll_window s) now (dict_get (ll_logs s) key)
          in if int (length log1) + cost \<le> ll_limit s
             then let log2 = log1 @ replicate (nat cost) now
                  in (Inr (allow_it (ll_limit s) (ll_limit s - int (length log2)) 0),
                      s\<lparr>ll_logs := dict_set key log2 (ll_logs s)\<rparr>)
             else (Inr (deny_it (ll_limit s) (ll_limit s - int (length log1))
                     (log1 ! nat (int (length log1) + cost - ll_limit s - 1) + ll_window s - now)),
                   s\<lparr>ll_logs := dict_set key log1 (ll_logs s)\<rparr>))"
  unfolding log_allow_def log_now_def Let_def by (rule refl)

lemma log_step:
  assumes key: "log_key (ll_window s) now (dict_get (ll_logs s) k) xs" and w: "0 < ll_window s"
    and later: "\<forall>x \<in> set xs. fst x \<le> now" and run: "log_allow key cost now s = (a, s')"
  shows "log_key (ll_window s) now (dict_get (ll_logs s') k)
    (xs @ (if key = k \<and> passed a then [(now, cost)] else []))"
proof (cases "key = k")
  case False
  then have "dict_get (ll_logs s') k = dict_get (ll_logs s) k"
    using run by (auto simp: log_allow_alt Let_def split: sum.splits if_splits)
  then show ?thesis using key False by simp
next
  case True
  note log = log_now_trailing [OF key]
  show ?thesis
  proof (cases "check_cost cost (ll_limit s)")
    case (Inl e)
    then show ?thesis using run key by (auto simp: log_allow_alt passed_def)
  next
    case (Inr u)
    then have "0 < cost" by (simp add: check_cost_ok)
    then show ?thesis
      using run Inr True log(1) key later w
      by (auto simp: log_allow_alt Let_def log_key_def passed_def allow_it_def deny_it_def sorted_append
          split: if_splits intro!: exI [of _ "now - ll_window s"])
  qed
qed

lemma log_fields: "ll_window (snd (log_allow key cost now s)) = ll_window s"
  "ll_limit (snd (log_allow key cost now s)) = ll_limit s"
  by (simp_all add: log_allow_alt Let_def split: sum.splits)

lemma log_run_fields:
  "ll_window (after_traffic log_allow rs s) = ll_window s \<and> ll_limit (after_traffic log_allow rs s) = ll_limit s"
proof (induction rs rule: rev_induct)
  case (snoc r rs)
  then show ?case by (cases r) (simp add: log_fields)
qed simp

lemma log_key_later:
  assumes "log_key w t l xs" "t \<le> t'"
  shows "log_key w t' l xs"
proof (cases l)
  case (Some ts)
  then obtain c where "c \<le> t - w" "ts = filter (\<lambda>t. c < t) (units xs)" using assms(1) by (auto simp: log_key_def)
  moreover from this have "c \<le> t' - w" using assms(2) by linarith
  ultimately show ?thesis using assms(1) Some by (auto simp: log_key_def)
qed (use assms(1) in \<open>simp add: log_key_def\<close>)

lemma log_run_inv:
  assumes new: "log_new limit w = Inr s"
  shows "in_order rs \<Longrightarrow> \<forall>r \<in> set rs. fst r \<le> t \<Longrightarrow>
    log_key w t (dict_get (ll_logs (after_traffic log_allow rs s)) k) (granted log_allow rs s k)"
proof (induction rs arbitrary: t rule: rev_induct)
  case Nil
  then show ?case using new by (auto simp: log_key_def log_new_def split: if_splits)
next
  case (snoc r rs)
  obtain now key cost where r: "r = (now, key, cost)" by (cases r) auto
  let ?s = "after_traffic log_allow rs s"
  have s: "ll_window s = w" "0 < w" using new by (auto simp: log_new_def split: if_splits)
  have fields: "ll_window ?s = w" using log_run_fields s by simp
  have prev: "in_order rs" "\<forall>r \<in> set rs. fst r \<le> now" using snoc.prems by (auto simp: r in_order_snoc)
  have later: "\<forall>x \<in> set (granted log_allow rs s k). fst x \<le> now"
    using prev(2) granted_mem [of _ _ log_allow rs s k] by fastforce
  have "log_key w now (dict_get (ll_logs (snd (log_allow key cost now ?s))) k)
      (granted log_allow rs s k @ (if key = k \<and> passed (fst (log_allow key cost now ?s)) then [(now, cost)] else []))"
    using log_step [of ?s now k _ key cost] snoc.IH [OF prev] later fields s(2) by (metis prod.collapse)
  moreover have "now \<le> t" using snoc.prems(2) by (simp add: r)
  ultimately show ?case using log_key_later by (simp add: r)
qed

text \<open>The sliding log is exact: after any traffic in the order of the clock, a request passes if
  and only if what its key was granted in the trailing window, plus its cost, is within the
  limit, so no trailing window ever holds more than the limit.
\<close>

theorem sliding_log_exact:
  assumes "log_new limit w = Inr s" and "in_order (rs @ [(now, key, cost)])" and "0 < cost" and "cost \<le> limit"
  shows "passed (fst (log_allow key cost now (after_traffic log_allow rs s))) \<longleftrightarrow>
    spent (filter (\<lambda>(t, _). now - w < t) (granted log_allow rs s key)) + cost \<le> limit"
proof -
  let ?s = "after_traffic log_allow rs s"
  have s: "ll_window ?s = w" "ll_limit ?s = limit"
    using log_run_fields [of rs s] assms(1) by (auto simp: log_new_def split: if_splits)
  have "log_key w now (dict_get (ll_logs ?s) key) (granted log_allow rs s key)"
    by (rule log_run_inv [OF assms(1)]) (use assms(2) in \<open>auto simp: in_order_snoc\<close>)
  note log = log_now_trailing(2) [OF this]
  have "check_cost cost (ll_limit ?s) = Inr ()" using assms(3,4) s by (simp add: check_cost_ok)
  then show ?thesis
    using log s by (simp add: log_allow_alt Let_def passed_def allow_it_def deny_it_def)
qed

definition demo_log :: log_limiter where
  "demo_log = \<lparr>ll_limit = 5, ll_window = 1, ll_logs = []\<rparr>"

definition demo_five :: "request list" where
  "demo_five = replicate 5 (9 / 10, ''bob'', 1)"

lemma sliding_log_exact_witness:
  "\<not> passed (fst (log_allow ''bob'' 1 (3 / 2) (after_traffic log_allow demo_five demo_log))) \<and>
   passed (fst (log_allow ''bob'' 1 (19 / 10) (after_traffic log_allow demo_five demo_log)))"
proof -
  have new: "log_new 5 1 = Inr demo_log" by (simp add: log_new_def demo_log_def)
  have ord: "in_order (demo_five @ [(3 / 2, ''bob'', 1)])" "in_order (demo_five @ [(19 / 10, ''bob'', 1)])"
    by (simp_all add: in_order_def demo_five_def numeral_eq_Suc)
  have v: "spent (filter (\<lambda>(t, _). 3 / 2 - 1 < t) (granted log_allow demo_five demo_log ''bob'')) = 5"
    "spent (filter (\<lambda>(t, _). 19 / 10 - 1 < t) (granted log_allow demo_five demo_log ''bob'')) = 0" by code_simp+
  have one: "(0 :: int) < 1" "(1 :: int) \<le> 5" by simp_all
  show ?thesis
    unfolding sliding_log_exact [OF new ord(1) one] sliding_log_exact [OF new ord(2) one] v by simp
qed


section \<open>The sliding window counter\<close>

definition counter_key :: "rat \<Rightarrow> time \<Rightarrow> rl_window option \<Rightarrow> (time \<times> int) list \<Rightarrow> bool" where
  "counter_key w t st xs \<longleftrightarrow>
     (case st of None \<Rightarrow> xs = []
      | Some v \<Rightarrow> \<exists>m \<le> window_index w t. rw_start v = of_int m * w \<and> rw_count v = used_in w m xs \<and>
          rw_previous v = used_in w (m - 1) xs \<and> (\<forall>x \<in> set xs. window_index w (fst x) \<le> m))"

lemma counter_key_later:
  assumes "counter_key w t st xs" "t \<le> t'" "0 < w"
  shows "counter_key w t' st xs"
  using assms window_index_mono [OF assms(3,2)] by (fastforce simp: counter_key_def split: option.splits)

lemma roll_window_counts:
  assumes key: "counter_key w now st xs" and w: "0 < w"
  shows "rw_start (roll_window w (aligned_start w now) st) = of_int (window_index w now) * w"
    "rw_count (roll_window w (aligned_start w now) st) = used_in w (window_index w now) xs"
    "rw_previous (roll_window w (aligned_start w now) st) = used_in w (window_index w now - 1) xs"
    "\<forall>x \<in> set xs. window_index w (fst x) \<le> window_index w now"
proof -
  let ?j = "window_index w now" and ?v = "roll_window w (aligned_start w now) st"
  have "rw_start ?v = of_int ?j * w \<and> rw_count ?v = used_in w ?j xs \<and> rw_previous ?v = used_in w (?j - 1) xs \<and>
    (\<forall>x \<in> set xs. window_index w (fst x) \<le> ?j)"
  proof (cases st)
    case None
    then show ?thesis using key by (simp add: counter_key_def roll_window_def aligned_start_index)
  next
    case (Some v)
    then obtain m where m: "m \<le> ?j" "rw_start v = of_int m * w" "rw_count v = used_in w m xs"
      "rw_previous v = used_in w (m - 1) xs" "\<forall>x \<in> set xs. window_index w (fst x) \<le> m"
      using key by (auto simp: counter_key_def)
    have idx: "\<forall>x \<in> set xs. window_index w (fst x) \<le> ?j" using m(1,5) by force
    show ?thesis
    proof (cases "m = ?j")
      case True
      then show ?thesis using m idx Some by (simp add: roll_window_def aligned_start_index)
    next
      case False
      then have zero: "used_in w ?j xs = 0" using m(1,5) by (intro used_in_later) force
      have start: "of_int m * w = of_int ?j * w - w \<longleftrightarrow> m = ?j - 1"
      proof -
        have "of_int ?j * w - w = of_int (?j - 1) * w" by (simp add: algebra_simps)
        then show ?thesis using w by (metis mult_right_cancel of_int_eq_iff less_irrefl)
      qed
      have "used_in w (?j - 1) xs = (if m = ?j - 1 then rw_count v else 0)"
        using m(1,3,5) False by (auto intro!: used_in_later)
      then show ?thesis
        using zero start m(2) False w idx Some by (simp add: roll_window_def aligned_start_index)
    qed
  qed
  then show "rw_start ?v = of_int ?j * w" "rw_count ?v = used_in w ?j xs"
    "rw_previous ?v = used_in w (?j - 1) xs" "\<forall>x \<in> set xs. window_index w (fst x) \<le> ?j" by blast+
qed

text \<open>What the counter takes the trailing window to hold.\<close>

definition trailing_estimate :: "rat \<Rightarrow> time \<Rightarrow> (time \<times> int) list \<Rightarrow> rat" where
  "trailing_estimate w now xs =
     of_int (used_in w (window_index w now - 1) xs) * (1 - (now - of_int (window_index w now) * w) / w) +
     of_int (used_in w (window_index w now) xs)"

lemma counter_step:
  assumes key: "counter_key (wl_window s) now (dict_get (wl_windows s) k) xs" and w: "0 < wl_window s"
    and run: "counter_allow key cost now s = (a, s')"
  shows "counter_key (wl_window s) now (dict_get (wl_windows s') k)
    (xs @ (if key = k \<and> passed a then [(now, cost)] else []))"
proof (cases "key = k")
  case False
  then have "dict_get (wl_windows s') k = dict_get (wl_windows s) k"
    using run by (auto simp: counter_allow_def Let_def split: sum.splits if_splits)
  then show ?thesis using key False by simp
next
  case True
  note roll = roll_window_counts [OF key w]
  define v where "v = roll_window (wl_window s) (aligned_start (wl_window s) now) (dict_get (wl_windows s) k)"
  show ?thesis
  proof (cases "check_cost cost (wl_limit s)")
    case (Inl e)
    then show ?thesis using run key by (auto simp: counter_allow_def passed_def)
  next
    case (Inr u)
    have cases: "(passed a \<and> dict_get (wl_windows s') k = Some (v\<lparr>rw_count := rw_count v + cost\<rparr>)) \<or>
        (\<not> passed a \<and> dict_get (wl_windows s') k = Some v)"
      using run Inr True by (auto simp: counter_allow_def Let_def v_def passed_def allow_it_def deny_it_def split: if_splits)
    show ?thesis
      using cases roll [folded v_def] True
      by (auto simp: counter_key_def intro!: exI [of _ "window_index (wl_window s) now"])
  qed
qed

lemma counter_fields: "wl_window (snd (counter_allow key cost now s)) = wl_window s"
  "wl_limit (snd (counter_allow key cost now s)) = wl_limit s"
  by (simp_all add: counter_allow_def Let_def split: sum.splits)

lemma counter_run_fields:
  "wl_window (after_traffic counter_allow rs s) = wl_window s \<and> wl_limit (after_traffic counter_allow rs s) = wl_limit s"
proof (induction rs rule: rev_induct)
  case (snoc r rs)
  then show ?case by (cases r) (simp add: counter_fields)
qed simp

lemma counter_run_inv:
  assumes new: "window_new limit w = Inr s"
  shows "in_order rs \<Longrightarrow> \<forall>r \<in> set rs. fst r \<le> t \<Longrightarrow>
    counter_key w t (dict_get (wl_windows (after_traffic counter_allow rs s)) k) (granted counter_allow rs s k)"
proof (induction rs arbitrary: t rule: rev_induct)
  case Nil
  then show ?case using new by (auto simp: counter_key_def window_new_def split: if_splits)
next
  case (snoc r rs)
  obtain now key cost where r: "r = (now, key, cost)" by (cases r) auto
  let ?s = "after_traffic counter_allow rs s"
  have s: "wl_window s = w" "0 < w" using new by (auto simp: window_new_def split: if_splits)
  have fields: "wl_window ?s = w" using counter_run_fields s by simp
  have "counter_key w now (dict_get (wl_windows ?s) k) (granted counter_allow rs s k)"
    by (rule snoc.IH) (use snoc.prems in \<open>auto simp: r in_order_snoc\<close>)
  then have "counter_key w now (dict_get (wl_windows (snd (counter_allow key cost now ?s))) k)
      (granted counter_allow rs s k @ (if key = k \<and> passed (fst (counter_allow key cost now ?s)) then [(now, cost)] else []))"
    using counter_step [of ?s now k _ key cost] fields s(2) by (metis prod.collapse)
  moreover have "now \<le> t" using snoc.prems(2) by (simp add: r)
  ultimately show ?case using counter_key_later s(2) by (simp add: r)
qed

text \<open>The sliding counter decides by its estimate of the true history: after any traffic in the
  order of the clock a request passes if and only if what its key was granted in the current
  aligned window, plus what it was granted in the one before weighted by its overlap with the
  trailing window, plus the cost, is within the limit.
\<close>

theorem sliding_counter_estimate:
  assumes "window_new limit w = Inr s" and "in_order (rs @ [(now, key, cost)])" and "0 < cost" and "cost \<le> limit"
  shows "passed (fst (counter_allow key cost now (after_traffic counter_allow rs s))) \<longleftrightarrow>
    trailing_estimate w now (granted counter_allow rs s key) + of_int cost \<le> of_int limit"
proof -
  let ?s = "after_traffic counter_allow rs s"
  have s: "wl_window ?s = w" "wl_limit ?s = limit" "0 < w"
    using counter_run_fields [of rs s] assms(1) by (auto simp: window_new_def split: if_splits)
  have "counter_key w now (dict_get (wl_windows ?s) key) (granted counter_allow rs s key)"
    by (rule counter_run_inv [OF assms(1)]) (use assms(2) in \<open>auto simp: in_order_snoc\<close>)
  note roll = roll_window_counts [OF this s(3)]
  have "check_cost cost (wl_limit ?s) = Inr ()" using assms(3,4) s by (simp add: check_cost_ok)
  then show ?thesis
    using roll s
    by (simp add: counter_allow_def Let_def passed_def allow_it_def deny_it_def trailing_estimate_def aligned_start_index)
qed

definition demo_counter :: window_limiter where
  "demo_counter = \<lparr>wl_limit = 5, wl_window = 1, wl_windows = []\<rparr>"

lemma sliding_counter_estimate_witness:
  "\<not> passed (fst (counter_allow ''bob'' 1 1 (after_traffic counter_allow demo_five demo_counter))) \<and>
   passed (fst (counter_allow ''bob'' 1 (3 / 2) (after_traffic counter_allow demo_five demo_counter)))"
proof -
  have new: "window_new 5 1 = Inr demo_counter" by (simp add: window_new_def demo_counter_def)
  have ord: "in_order (demo_five @ [(1, ''bob'', 1)])" "in_order (demo_five @ [(3 / 2, ''bob'', 1)])"
    by (simp_all add: in_order_def demo_five_def numeral_eq_Suc)
  have v: "trailing_estimate 1 1 (granted counter_allow demo_five demo_counter ''bob'') = 5"
    "trailing_estimate 1 (3 / 2) (granted counter_allow demo_five demo_counter ''bob'') = 5 / 2" by code_simp+
  have one: "(0 :: int) < 1" "(1 :: int) \<le> 5" by simp_all
  show ?thesis
    unfolding sliding_counter_estimate [OF new ord(1) one] sliding_counter_estimate [OF new ord(2) one] v by simp
qed


section \<open>When to try again\<close>

text \<open>
  The promise of \<^verbatim>\<open>retry_after\<close>: after a denial, and with no other request of the key in between,
  the same request passes from that moment on and not before.
\<close>

definition retry_exact ::
  "(string \<Rightarrow> int \<Rightarrow> time \<Rightarrow> 's \<Rightarrow> rl_decision result \<times> 's) \<Rightarrow> 's \<Rightarrow> string \<Rightarrow> int \<Rightarrow> time \<Rightarrow> bool" where
  "retry_exact allow s key cost now \<longleftrightarrow>
     (\<forall>d s'. allow key cost now s = (Inr d, s') \<longrightarrow> \<not> dc_allowed d \<longrightarrow>
        (\<forall>t \<ge> now. passed (fst (allow key cost t s')) \<longleftrightarrow> now + dc_retry_after d \<le> t))"

lemma retry_in_time:
  assumes "0 < (r :: rat)"
  shows "c \<le> l + (t - now) * r \<longleftrightarrow> now + (c - l) / r \<le> t"
  using assms by (simp add: field_simps)

lemma token_passed:
  assumes "0 < bl_rate s" "0 < bl_capacity s" "check_cost cost (bl_capacity s) = Inr ()"
  shows "passed (fst (token_allow key cost t s)) \<longleftrightarrow> of_int cost \<le> token_avail s key t"
  using assms(3) by (simp add: token_allow_avail [OF assms(1,2)] passed_def allow_it_def deny_it_def)

lemma token_retry:
  assumes pos: "0 < bl_rate s" "0 < bl_capacity s"
  shows "retry_exact token_allow s key cost now"
  unfolding retry_exact_def
proof (intro allI impI)
  fix d s' t
  assume run: "token_allow key cost now s = (Inr d, s')" and no: "\<not> dc_allowed d" and t: "now \<le> t"
  let ?l = "token_avail s key now"
  have cost: "check_cost cost (bl_capacity s) = Inr ()" "0 < cost" "cost \<le> bl_capacity s"
    using run by (auto simp: token_allow_avail [OF pos] check_cost_def split: if_splits)
  have d: "dc_retry_after d = (of_int cost - ?l) / bl_rate s" and s': "s' = bl_store key ?l now s"
    using run no cost by (auto simp: token_allow_avail [OF pos] allow_it_def deny_it_def split: if_splits)
  have pos': "0 < bl_rate s'" "0 < bl_capacity s'" using pos by (simp_all add: s')
  have "token_avail s' key t = min (of_int (bl_capacity s)) (?l + (t - now) * bl_rate s)"
    by (simp add: s' token_avail_def [of "bl_store key ?l now s"])
  then have "passed (fst (token_allow key cost t s')) \<longleftrightarrow> of_int cost \<le> ?l + (t - now) * bl_rate s"
    using token_passed [OF pos', of cost key t] cost by (simp add: s')
  then show "passed (fst (token_allow key cost t s')) \<longleftrightarrow> now + dc_retry_after d \<le> t"
    unfolding d retry_in_time [OF pos(1)] .
qed

lemma leaky_passed:
  assumes "0 < bl_rate s" "0 < bl_capacity s" "check_cost cost (bl_capacity s) = Inr ()"
  shows "passed (fst (leaky_allow key cost t s)) \<longleftrightarrow> of_int cost \<le> leaky_avail s key t"
  using assms(3) by (simp add: leaky_allow_avail [OF assms(1,2)] passed_def allow_it_def deny_it_def)

lemma leaky_retry:
  assumes pos: "0 < bl_rate s" "0 < bl_capacity s"
  shows "retry_exact leaky_allow s key cost now"
  unfolding retry_exact_def
proof (intro allI impI)
  fix d s' t
  assume run: "leaky_allow key cost now s = (Inr d, s')" and no: "\<not> dc_allowed d" and t: "now \<le> t"
  let ?l = "leaky_avail s key now"
  have cost: "check_cost cost (bl_capacity s) = Inr ()" "0 < cost" "cost \<le> bl_capacity s"
    using run by (auto simp: leaky_allow_avail [OF pos] check_cost_def split: if_splits)
  have d: "dc_retry_after d = (of_int cost - ?l) / bl_rate s"
    and s': "s' = bl_store key (of_int (bl_capacity s) - ?l) now s"
    using run no cost by (auto simp: leaky_allow_avail [OF pos] allow_it_def deny_it_def split: if_splits)
  have pos': "0 < bl_rate s'" "0 < bl_capacity s'" using pos by (simp_all add: s')
  have "leaky_avail s' key t = min (of_int (bl_capacity s)) (?l + (t - now) * bl_rate s)"
    by (simp add: s' leaky_avail_def [of "bl_store key (of_int (bl_capacity s) - ?l) now s"] min_def max_def)
  then have "passed (fst (leaky_allow key cost t s')) \<longleftrightarrow> of_int cost \<le> ?l + (t - now) * bl_rate s"
    using leaky_passed [OF pos', of cost key t] cost by (simp add: s')
  then show "passed (fst (leaky_allow key cost t s')) \<longleftrightarrow> now + dc_retry_after d \<le> t"
    unfolding d retry_in_time [OF pos(1)] .
qed

lemma aligned_start_same:
  assumes "0 < w" "now \<le> t"
  shows "aligned_start w t = aligned_start w now \<longleftrightarrow> t < aligned_start w now + w"
proof -
  have "window_index w now \<le> window_index w t" by (rule window_index_mono [OF assms])
  moreover have "t < of_int (window_index w now) * w + w \<longleftrightarrow> t / w < of_int (window_index w now) + 1"
    using assms(1) by (simp add: field_simps)
  moreover have "t / w < of_int (window_index w now) + 1 \<longleftrightarrow> window_index w t < window_index w now + 1"
    unfolding window_index_def using floor_less_iff [of "t / w" "\<lfloor>now / w\<rfloor> + 1"] by simp
  ultimately show ?thesis using assms(1) by (auto simp: aligned_start_index)
qed

lemma fixed_fresh_start: "rw_start (fixed_fresh w now st) = aligned_start w now"
  by (simp add: fixed_fresh_def Let_def split: option.splits)

lemma fixed_retry:
  assumes w: "0 < wl_window s"
  shows "retry_exact fixed_allow s key cost now"
  unfolding retry_exact_def
proof (intro allI impI)
  fix d s' t
  assume run: "fixed_allow key cost now s = (Inr d, s')" and no: "\<not> dc_allowed d" and t: "now \<le> t"
  let ?st = "fixed_fresh (wl_window s) now (dict_get (wl_windows s) key)"
  have cost: "check_cost cost (wl_limit s) = Inr ()" "cost \<le> wl_limit s"
    using run by (auto simp: fixed_allow_alt Let_def check_cost_def split: if_splits)
  have d: "now + dc_retry_after d = aligned_start (wl_window s) now + wl_window s"
    and s': "s' = s\<lparr>wl_windows := dict_set key ?st (wl_windows s)\<rparr>" and full: "\<not> rw_count ?st + cost \<le> wl_limit s"
    using run no cost by (auto simp: fixed_allow_alt Let_def allow_it_def deny_it_def split: if_splits)
  have "passed (fst (fixed_allow key cost t s')) \<longleftrightarrow> aligned_start (wl_window s) t \<noteq> aligned_start (wl_window s) now"
    using cost full fixed_fresh_start [of "wl_window s" now "dict_get (wl_windows s) key"]
    by (simp add: fixed_allow_alt s' Let_def fixed_fresh_def [of _ t] passed_def allow_it_def deny_it_def)
  then show "passed (fst (fixed_allow key cost t s')) \<longleftrightarrow> now + dc_retry_after d \<le> t"
    unfolding d aligned_start_same [OF w t] by auto
qed

lemma sorted_count_above:
  assumes "sorted (l :: time list)" "0 < n" "n \<le> length l"
  shows "length (filter (\<lambda>x. d < x) l) + n \<le> length l \<longleftrightarrow> l ! (n - 1) \<le> d"
proof
  let ?m = "length (filter (\<lambda>x. d < x) l)"
  have split: "l = takeWhile (\<lambda>x. x \<le> d) l @ filter (\<lambda>x. d < x) l"
    using dropWhile_sorted [OF assms(1), of d] takeWhile_dropWhile_id [of "\<lambda>x. x \<le> d" l] by simp
  then have len: "length (takeWhile (\<lambda>x. x \<le> d) l) + ?m = length l" by (metis length_append)
  have low: "i < length (takeWhile (\<lambda>x. x \<le> d) l) \<longleftrightarrow> i < length l \<and> l ! i \<le> d" for i
  proof
    assume i: "i < length (takeWhile (\<lambda>x. x \<le> d) l)"
    then have "l ! i = takeWhile (\<lambda>x. x \<le> d) l ! i" by (simp add: takeWhile_nth)
    moreover have "takeWhile (\<lambda>x. x \<le> d) l ! i \<le> d" using i set_takeWhileD nth_mem by fastforce
    ultimately show "i < length l \<and> l ! i \<le> d" using i len by simp
  next
    assume i: "i < length l \<and> l ! i \<le> d"
    show "i < length (takeWhile (\<lambda>x. x \<le> d) l)"
    proof (rule ccontr)
      assume "\<not> i < length (takeWhile (\<lambda>x. x \<le> d) l)"
      then have "l ! i = filter (\<lambda>x. d < x) l ! (i - length (takeWhile (\<lambda>x. x \<le> d) l))"
        by (subst split) (simp add: nth_append)
      moreover have "i - length (takeWhile (\<lambda>x. x \<le> d) l) < ?m"
        using i len \<open>\<not> i < length (takeWhile (\<lambda>x. x \<le> d) l)\<close> by linarith
      ultimately have "d < l ! i" using nth_mem [of _ "filter (\<lambda>x. d < x) l"] by fastforce
      then show False using i by simp
    qed
  qed
  show "?m + n \<le> length l \<Longrightarrow> l ! (n - 1) \<le> d" using low [of "n - 1"] len assms(2) by linarith
  show "l ! (n - 1) \<le> d \<Longrightarrow> ?m + n \<le> length l" using low [of "n - 1"] len assms(2,3) by linarith
qed

lemma log_retry:
  assumes key: "log_key (ll_window s) now (dict_get (ll_logs s) key) xs" and w: "0 < ll_window s"
  shows "retry_exact log_allow s key cost now"
  unfolding retry_exact_def
proof (intro allI impI)
  fix d s' t
  assume run: "log_allow key cost now s = (Inr d, s')" and no: "\<not> dc_allowed d" and t: "now \<le> t"
  define l where "l = log_now (ll_window s) now (dict_get (ll_logs s) key)"
  define n where "n = nat (int (length l) + cost - ll_limit s)"
  have cost: "check_cost cost (ll_limit s) = Inr ()" "0 < cost" "cost \<le> ll_limit s"
    using run by (auto simp: log_allow_alt Let_def check_cost_def split: if_splits)
  have full: "\<not> int (length l) + cost \<le> ll_limit s"
    and d: "now + dc_retry_after d = l ! (n - 1) + ll_window s"
    and s': "s' = s\<lparr>ll_logs := dict_set key l (ll_logs s)\<rparr>"
    using run no cost
    by (auto simp: log_allow_alt Let_def allow_it_def deny_it_def l_def [symmetric] n_def nat_diff_distrib split: if_splits)
  have n: "0 < n" "n \<le> length l" "int n = int (length l) + cost - ll_limit s"
    using full cost by (auto simp: n_def)
  have srt: "sorted l"
    using log_now_trailing(1) [OF key] key by (simp add: l_def log_key_def sorted_units sorted_wrt_filter)
  have "log_now (ll_window s) t (Some l) = filter (\<lambda>x. t - ll_window s < x) l"
    by (simp add: log_now_def dropWhile_sorted [OF srt])
  then have "passed (fst (log_allow key cost t s')) \<longleftrightarrow>
      int (length (filter (\<lambda>x. t - ll_window s < x) l)) + cost \<le> ll_limit s"
    using cost by (simp add: log_allow_alt s' Let_def passed_def allow_it_def deny_it_def)
  also have "\<dots> \<longleftrightarrow> length (filter (\<lambda>x. t - ll_window s < x) l) + n \<le> length l" using n(3) by linarith
  also have "\<dots> \<longleftrightarrow> l ! (n - 1) \<le> t - ll_window s" by (rule sorted_count_above [OF srt n(1,2)])
  finally show "passed (fst (log_allow key cost t s')) \<longleftrightarrow> now + dc_retry_after d \<le> t"
    unfolding d by (simp add: algebra_simps)
qed



text \<open>
  The sliding counter is the exception: with nothing in the previous window it answers the start
  of the next one, where the full current window has become the previous window at weight one,
  so the same request is denied again.
\<close>

lemma counter_retry_too_soon:
  "\<exists>s d s'. s = after_traffic counter_allow (replicate 5 (0, ''bob'', 1)) demo_counter \<and>
     counter_allow ''bob'' 1 0 s = (Inr d, s') \<and> \<not> dc_allowed d \<and> dc_retry_after d = 1 \<and>
     \<not> passed (fst (counter_allow ''bob'' 1 (0 + dc_retry_after d) s'))"
proof -
  let ?s = "after_traffic counter_allow (replicate 5 (0, ''bob'', 1)) demo_counter"
  let ?r = "counter_allow ''bob'' 1 0 ?s"
  have "map_sum id (\<lambda>d. (dc_retry_after d, dc_allowed d)) (fst ?r) = Inr (1, False)" by code_simp
  then obtain d where "fst ?r = Inr d" "dc_retry_after d = 1" "\<not> dc_allowed d" by (cases "fst ?r") auto
  moreover have "\<not> passed (fst (counter_allow ''bob'' 1 (0 + 1) (snd ?r)))" by code_simp
  ultimately show ?thesis by (metis prod.collapse)
qed

end
