(* ===== verification/Circuit_Breaker.thy ===== *)
theory Circuit_Breaker
  imports Common
begin

text \<open>
  The circuit breaker of \<^verbatim>\<open>code/hld/circuit_breaker.py\<close>: the closed, open and half-open machine
  with its sliding window, permits tied to a state episode, trial calls, and the guarded call.

  Every method is one atomic step under the lock, with the clock readings it takes as arguments;
  the dependency runs between \<^verbatim>\<open>acquire\<close> and the settlement, so a call is two steps and other
  threads move in between. A transition a listener would be told of is part of the result.
\<close>

section \<open>Policy and values\<close>

datatype cb_state = Closed_State | Open_State | Half_Open_State

record breaker_policy =
  po_threshold :: rat
  po_min_calls :: int
  po_window_seconds :: rat
  po_open_seconds :: rat
  po_max_trials :: int
  po_success_threshold :: int
  po_slow_seconds :: "rat option"

definition policy_check :: "breaker_policy \<Rightarrow> unit result" where
  "policy_check p =
     (if \<not> (0 < po_threshold p \<and> po_threshold p \<le> 1) then Inl ValidationError
      else if min (po_min_calls p) (min (po_max_trials p) (po_success_threshold p)) < 1 then Inl ValidationError
      else if po_window_seconds p \<le> 0 \<or> po_open_seconds p \<le> 0 then Inl ValidationError
      else if (case po_slow_seconds p of None \<Rightarrow> False | Some s \<Rightarrow> s \<le> 0) then Inl ValidationError
      else Inr ())"

record permit =
  pm_generation :: int
  pm_trial :: bool
  pm_issued :: time

text \<open>What \<^verbatim>\<open>_admit_locked\<close> answers: a permit, or the state and \<^verbatim>\<open>retry_after\<close> of the error.\<close>

datatype admission = Admitted permit | Rejected cb_state rat

record breaker_stats =
  sn_state :: cb_state
  sn_calls :: int
  sn_failures :: int
  sn_rejected :: int
  sn_retry_after :: rat

definition sn_failure_rate :: "breaker_stats \<Rightarrow> rat" where
  "sn_failure_rate s = (if sn_calls s \<noteq> 0 then of_int (sn_failures s) / of_int (sn_calls s) else 0)"

record breaker =
  cb_name :: string
  cb_policy :: breaker_policy
  cb_mode :: cb_state
  cb_generation :: int
  cb_window :: "(time \<times> bool) list"
  cb_failures :: int
  cb_opened_at :: time
  cb_in_flight :: int
  cb_successes :: int
  cb_rejected :: int

definition breaker_new :: "string \<Rightarrow> breaker_policy \<Rightarrow> breaker result" where
  "breaker_new name p =
     (if name = [] then Inl ValidationError
      else Inr \<lparr>cb_name = name, cb_policy = p, cb_mode = Closed_State, cb_generation = 0, cb_window = [],
                cb_failures = 0, cb_opened_at = 0, cb_in_flight = 0, cb_successes = 0, cb_rejected = 0\<rparr>)"

section \<open>The machine\<close>

type_synonym cb_change = "(cb_state \<times> cb_state) option"

definition cb_transition :: "cb_state \<Rightarrow> time \<Rightarrow> breaker \<Rightarrow> cb_change \<times> breaker" where
  "cb_transition new_state now b =
     (let b1 = b\<lparr>cb_mode := new_state, cb_generation := cb_generation b + 1, cb_in_flight := 0, cb_successes := 0\<rparr>
      in (Some (cb_mode b, new_state),
          case new_state of
            Open_State \<Rightarrow> b1\<lparr>cb_opened_at := now\<rparr>
          | Closed_State \<Rightarrow> b1\<lparr>cb_window := [], cb_failures := 0\<rparr>
          | Half_Open_State \<Rightarrow> b1))"

text \<open>Listeners hear of a change of state only.\<close>

definition cb_emit :: "cb_change \<Rightarrow> (cb_state \<times> cb_state) list" where
  "cb_emit event = (case event of None \<Rightarrow> [] | Some (old, new_state) \<Rightarrow> if old \<noteq> new_state then [(old, new_state)] else [])"

definition cb_tick :: "time \<Rightarrow> breaker \<Rightarrow> cb_change \<times> breaker" where
  "cb_tick now b =
     (if cb_mode b = Open_State \<and> cb_opened_at b + po_open_seconds (cb_policy b) \<le> now
      then cb_transition Half_Open_State now b else (None, b))"

fun prune_loop :: "rat \<Rightarrow> (time \<times> bool) list \<Rightarrow> int \<Rightarrow> (time \<times> bool) list \<times> int" where
  "prune_loop horizon [] failures = ([], failures)"
| "prune_loop horizon ((t, ok) # xs) failures =
     (if t \<le> horizon then prune_loop horizon xs (if ok then failures else failures - 1)
      else ((t, ok) # xs, failures))"

definition cb_prune :: "time \<Rightarrow> breaker \<Rightarrow> breaker" where
  "cb_prune now b =
     (case prune_loop (now - po_window_seconds (cb_policy b)) (cb_window b) (cb_failures b) of
        (window, failures) \<Rightarrow> b\<lparr>cb_window := window, cb_failures := failures\<rparr>)"

definition cb_admit :: "time \<Rightarrow> breaker \<Rightarrow> admission \<times> breaker" where
  "cb_admit now b =
     (case cb_mode b of
        Open_State \<Rightarrow> (Rejected Open_State (cb_opened_at b + po_open_seconds (cb_policy b) - now),
                        b\<lparr>cb_rejected := cb_rejected b + 1\<rparr>)
      | Half_Open_State \<Rightarrow>
          if po_max_trials (cb_policy b) \<le> cb_in_flight b
          then (Rejected Half_Open_State 0, b\<lparr>cb_rejected := cb_rejected b + 1\<rparr>)
          else (Admitted \<lparr>pm_generation = cb_generation b, pm_trial = True, pm_issued = now\<rparr>,
                b\<lparr>cb_in_flight := cb_in_flight b + 1\<rparr>)
      | Closed_State \<Rightarrow> (Admitted \<lparr>pm_generation = cb_generation b, pm_trial = False, pm_issued = now\<rparr>, b))"

definition cb_acquire :: "time \<Rightarrow> breaker \<Rightarrow> admission \<times> (cb_state \<times> cb_state) list \<times> breaker" where
  "cb_acquire now b =
     (case cb_tick now b of (event, b1) \<Rightarrow>
        case cb_admit now b1 of (outcome, b2) \<Rightarrow> (outcome, cb_emit event, b2))"

text \<open>\<^verbatim>\<open>_settle_locked\<close>, with no verdict for a release.\<close>

definition cb_settle_locked :: "permit \<Rightarrow> bool option \<Rightarrow> time \<Rightarrow> breaker \<Rightarrow> cb_change \<times> breaker" where
  "cb_settle_locked pm verdict now b =
     (if pm_generation pm \<noteq> cb_generation b then (None, b)
      else let b1 = (if pm_trial pm then b\<lparr>cb_in_flight := cb_in_flight b - 1\<rparr> else b)
           in case verdict of
                None \<Rightarrow> (None, b1)
              | Some ok \<Rightarrow>
                  if cb_mode b1 = Closed_State
                  then let b2 = cb_prune now (b1\<lparr>cb_window := cb_window b1 @ [(now, ok)],
                                  cb_failures := (if ok then cb_failures b1 else cb_failures b1 + 1)\<rparr>);
                           calls = int (length (cb_window b2))
                       in if po_min_calls (cb_policy b2) \<le> calls \<and>
                             po_threshold (cb_policy b2) \<le> of_int (cb_failures b2) / of_int calls
                          then cb_transition Open_State now b2 else (None, b2)
                  else if \<not> ok then cb_transition Open_State now b1
                  else let b2 = b1\<lparr>cb_successes := cb_successes b1 + 1\<rparr>
                       in if po_success_threshold (cb_policy b2) \<le> cb_successes b2
                          then cb_transition Closed_State now b2 else (None, b2))"

definition cb_settle :: "permit \<Rightarrow> bool option \<Rightarrow> time \<Rightarrow> breaker \<Rightarrow> (cb_state \<times> cb_state) list \<times> breaker" where
  "cb_settle pm verdict now b = (case cb_settle_locked pm verdict now b of (event, b') \<Rightarrow> (cb_emit event, b'))"

definition cb_record :: "permit \<Rightarrow> bool \<Rightarrow> time \<Rightarrow> breaker \<Rightarrow> (cb_state \<times> cb_state) list \<times> breaker" where
  "cb_record pm ok now b = cb_settle pm (Some ok) now b"

definition cb_release :: "permit \<Rightarrow> time \<Rightarrow> breaker \<Rightarrow> (cb_state \<times> cb_state) list \<times> breaker" where
  "cb_release pm now b = cb_settle pm None now b"

definition cb_reset :: "time \<Rightarrow> breaker \<Rightarrow> (cb_state \<times> cb_state) list \<times> breaker" where
  "cb_reset now b = (case cb_transition Closed_State now b of (event, b') \<Rightarrow> (cb_emit event, b'))"

definition cb_read_state :: "time \<Rightarrow> breaker \<Rightarrow> cb_state \<times> (cb_state \<times> cb_state) list \<times> breaker" where
  "cb_read_state now b = (case cb_tick now b of (event, b') \<Rightarrow> (cb_mode b', cb_emit event, b'))"

definition cb_snapshot :: "time \<Rightarrow> breaker \<Rightarrow> breaker_stats \<times> (cb_state \<times> cb_state) list \<times> breaker" where
  "cb_snapshot now b =
     (case cb_tick now b of (event, b1) \<Rightarrow>
        let b2 = cb_prune now b1;
            retry_after = (if cb_mode b2 = Open_State
              then max 0 (cb_opened_at b2 + po_open_seconds (cb_policy b2) - now) else 0)
        in (\<lparr>sn_state = cb_mode b2, sn_calls = int (length (cb_window b2)), sn_failures = cb_failures b2,
             sn_rejected = cb_rejected b2, sn_retry_after = retry_after\<rparr>, cb_emit event, b2))"

text \<open>
  How the guarded function ends: it returns, raises an ignored exception, another \<^verbatim>\<open>Exception\<close>, or
  a \<^verbatim>\<open>BaseException\<close> (\<^verbatim>\<open>KeyboardInterrupt\<close>, \<^verbatim>\<open>SystemExit\<close>, \<^verbatim>\<open>GeneratorExit\<close>) that no clause of \<^verbatim>\<open>call\<close> catches.
\<close>

datatype call_end = Returned | Raised_Ignored | Raised_Exception | Raised_Base

definition cb_finish ::
  "permit \<Rightarrow> call_end \<Rightarrow> time \<Rightarrow> time \<Rightarrow> breaker \<Rightarrow> (cb_state \<times> cb_state) list \<times> breaker" where
  "cb_finish pm outcome returned_at now b =
     (case outcome of
        Raised_Ignored \<Rightarrow> cb_release pm now b
      | Raised_Exception \<Rightarrow> cb_record pm False now b
      | Raised_Base \<Rightarrow> ([], b)
      | Returned \<Rightarrow>
          cb_record pm (case po_slow_seconds (cb_policy b) of None \<Rightarrow> True
                        | Some slow \<Rightarrow> returned_at - pm_issued pm < slow) now b)"

text \<open>
  \<^verbatim>\<open>call\<close> with no other thread in between: the readings of \<^verbatim>\<open>acquire\<close>, of the return and of the
  settlement. \<open>Inl\<close> is the rejection that \<^verbatim>\<open>call\<close> raises.
\<close>

definition cb_call ::
  "call_end \<Rightarrow> time \<Rightarrow> time \<Rightarrow> time \<Rightarrow> breaker \<Rightarrow>
     (cb_state \<times> rat + call_end) \<times> (cb_state \<times> cb_state) list \<times> breaker" where
  "cb_call outcome started returned_at now b =
     (case cb_acquire started b of
        (Rejected st retry_after, events, b1) \<Rightarrow> (Inl (st, retry_after), events, b1)
      | (Admitted pm, events, b1) \<Rightarrow>
          (case cb_finish pm outcome returned_at now b1 of (events', b2) \<Rightarrow> (Inr outcome, events @ events', b2)))"

section \<open>Callers\<close>

text \<open>
  Any number of threads: the permits of the calls in progress, and those of the calls that ended
  in a \<^verbatim>\<open>BaseException\<close> and never came back.
\<close>

record breaker_sys =
  bs_breaker :: breaker
  bs_running :: "permit list"
  bs_lost :: "permit list"

datatype breaker_event =
    Ev_Call time | Ev_End nat call_end time time | Ev_Reset time | Ev_State time | Ev_Snapshot time

definition bs_do :: "breaker_event \<Rightarrow> breaker_sys \<Rightarrow> breaker_sys" where
  "bs_do ev s =
     (case ev of
        Ev_Call now \<Rightarrow>
          (case cb_acquire now (bs_breaker s) of
             (Admitted pm, _, b) \<Rightarrow> s\<lparr>bs_breaker := b, bs_running := bs_running s @ [pm]\<rparr>
           | (Rejected _ _, _, b) \<Rightarrow> s\<lparr>bs_breaker := b\<rparr>)
      | Ev_End i outcome returned_at now \<Rightarrow>
          if i < length (bs_running s)
          then let pm = bs_running s ! i
               in \<lparr>bs_breaker = snd (cb_finish pm outcome returned_at now (bs_breaker s)),
                   bs_running = take i (bs_running s) @ drop (Suc i) (bs_running s),
                   bs_lost = (if outcome = Raised_Base then pm # bs_lost s else bs_lost s)\<rparr>
          else s
      | Ev_Reset now \<Rightarrow> s\<lparr>bs_breaker := snd (cb_reset now (bs_breaker s))\<rparr>
      | Ev_State now \<Rightarrow> s\<lparr>bs_breaker := snd (snd (cb_read_state now (bs_breaker s)))\<rparr>
      | Ev_Snapshot now \<Rightarrow> s\<lparr>bs_breaker := snd (snd (cb_snapshot now (bs_breaker s)))\<rparr>)"

definition bs_run :: "breaker_event list \<Rightarrow> breaker_sys \<Rightarrow> breaker_sys" where
  "bs_run evs s = fold bs_do evs s"

definition bs_init :: "breaker \<Rightarrow> breaker_sys" where
  "bs_init b = \<lparr>bs_breaker = b, bs_running = [], bs_lost = []\<rparr>"


section \<open>The invariant\<close>

definition fail_count :: "(time \<times> bool) list \<Rightarrow> int" where
  "fail_count xs = int (length (filter (\<lambda>(_, ok). \<not> ok) xs))"

definition cb_ok :: "breaker \<Rightarrow> int \<Rightarrow> bool" where
  "cb_ok b n \<longleftrightarrow> policy_check (cb_policy b) = Inr () \<and> cb_failures b = fail_count (cb_window b) \<and>
     (if cb_mode b = Half_Open_State
      then cb_in_flight b = n \<and> n \<le> po_max_trials (cb_policy b) \<and>
           0 \<le> cb_successes b \<and> cb_successes b < po_success_threshold (cb_policy b)
      else cb_in_flight b = 0 \<and> cb_successes b = 0)"

definition permit_ok :: "breaker \<Rightarrow> permit \<Rightarrow> bool" where
  "permit_ok b pm \<longleftrightarrow> pm_generation pm \<le> cb_generation b \<and>
     (pm_generation pm = cb_generation b \<longrightarrow>
        cb_mode b \<noteq> Open_State \<and> pm_trial pm = (cb_mode b = Half_Open_State))"

text \<open>How many of some permits belong to the current episode.\<close>

definition live_permits :: "breaker \<Rightarrow> permit list \<Rightarrow> int" where
  "live_permits b pms = int (length (filter (\<lambda>pm. pm_generation pm = cb_generation b) pms))"

definition bs_ok :: "breaker_sys \<Rightarrow> bool" where
  "bs_ok s \<longleftrightarrow> cb_ok (bs_breaker s) (live_permits (bs_breaker s) (bs_running s @ bs_lost s)) \<and>
     (\<forall>pm \<in> set (bs_running s @ bs_lost s). permit_ok (bs_breaker s) pm)"

lemma policy_positive:
  "policy_check p = Inr () \<Longrightarrow> 1 \<le> po_max_trials p \<and> 1 \<le> po_success_threshold p \<and> 1 \<le> po_min_calls p \<and>
    0 < po_open_seconds p \<and> 0 < po_window_seconds p \<and> 0 < po_threshold p"
  by (auto simp: policy_check_def split: if_splits)

lemma prune_loop_count:
  "prune_loop h xs f = (ys, g) \<Longrightarrow> g = f - (fail_count xs - fail_count ys)"
  by (induction h xs f rule: prune_loop.induct) (auto simp: fail_count_def split: if_splits)

lemma cb_prune_fields [simp]: "cb_policy (cb_prune now b) = cb_policy b" "cb_mode (cb_prune now b) = cb_mode b"
  "cb_generation (cb_prune now b) = cb_generation b" "cb_in_flight (cb_prune now b) = cb_in_flight b"
  "cb_successes (cb_prune now b) = cb_successes b" "cb_opened_at (cb_prune now b) = cb_opened_at b"
  by (simp_all add: cb_prune_def split: prod.splits)

lemma cb_prune_count:
  "cb_failures b = fail_count (cb_window b) \<Longrightarrow> cb_failures (cb_prune now b) = fail_count (cb_window (cb_prune now b))"
  using prune_loop_count [of "now - po_window_seconds (cb_policy b)" "cb_window b" "cb_failures b"]
  by (auto simp: cb_prune_def split: prod.splits)

lemma cb_ok_prune: "cb_ok b n \<Longrightarrow> cb_ok (cb_prune now b) n"
  using cb_prune_count [of b now] by (simp add: cb_ok_def)

lemma transition_mode [simp]: "cb_mode (snd (cb_transition m now b)) = m"
  "cb_generation (snd (cb_transition m now b)) = cb_generation b + 1"
  "cb_policy (snd (cb_transition m now b)) = cb_policy b"
  by (cases m; simp add: cb_transition_def)+

text \<open>A transition starts an episode with no permits, trials or successes of its own.\<close>

lemma transition_ok:
  assumes "policy_check (cb_policy b) = Inr ()" "cb_failures b = fail_count (cb_window b)"
  shows "cb_ok (snd (cb_transition m now b)) 0"
  using assms policy_positive [OF assms(1)]
  by (cases m) (auto simp: cb_transition_def cb_ok_def fail_count_def)

lemma transition_permits:
  assumes "\<forall>pm \<in> set pms. pm_generation pm \<le> cb_generation b"
  shows "live_permits (snd (cb_transition m now b)) pms = 0"
    "\<forall>pm \<in> set pms. permit_ok (snd (cb_transition m now b)) pm"
  using assms by (fastforce simp: live_permits_def filter_empty_conv permit_ok_def)+

lemma bs_ok_transition:
  assumes "policy_check (cb_policy b) = Inr ()" "cb_failures b = fail_count (cb_window b)"
    and "\<forall>pm \<in> set (running @ lost). pm_generation pm \<le> cb_generation b"
  shows "bs_ok \<lparr>bs_breaker = snd (cb_transition m now b), bs_running = running, bs_lost = lost\<rparr>"
  using transition_ok [OF assms(1,2), of m now] transition_permits [OF assms(3), of m now]
  by (simp add: bs_ok_def)

lemma bs_ok_parts:
  assumes "bs_ok s"
  shows "policy_check (cb_policy (bs_breaker s)) = Inr ()"
    "cb_failures (bs_breaker s) = fail_count (cb_window (bs_breaker s))"
    "\<forall>pm \<in> set (bs_running s @ bs_lost s). pm_generation pm \<le> cb_generation (bs_breaker s)"
  using assms by (auto simp: bs_ok_def cb_ok_def permit_ok_def)

lemma bs_ok_moved: "bs_ok s \<Longrightarrow> bs_ok (s\<lparr>bs_breaker := snd (cb_transition m now (bs_breaker s))\<rparr>)"
  using bs_ok_transition [OF bs_ok_parts, of s m now] by (cases s) simp

lemma bs_ok_tick: "bs_ok s \<Longrightarrow> bs_ok (s\<lparr>bs_breaker := snd (cb_tick now (bs_breaker s))\<rparr>)"
  using bs_ok_moved [of s Half_Open_State now] by (simp add: cb_tick_def)

lemma bs_ok_prune: "bs_ok s \<Longrightarrow> bs_ok (s\<lparr>bs_breaker := cb_prune now (bs_breaker s)\<rparr>)"
  by (auto simp: bs_ok_def live_permits_def permit_ok_def intro: cb_ok_prune)

lemma bs_ok_reset: "bs_ok s \<Longrightarrow> bs_ok (s\<lparr>bs_breaker := snd (cb_reset now (bs_breaker s))\<rparr>)"
  using bs_ok_moved [of s Closed_State now] by (simp add: cb_reset_def case_prod_beta)

lemma bs_ok_admit:
  assumes "bs_ok s"
  shows "case cb_admit now (bs_breaker s) of
      (Admitted pm, b) \<Rightarrow> bs_ok (s\<lparr>bs_breaker := b, bs_running := bs_running s @ [pm]\<rparr>)
    | (Rejected _ _, b) \<Rightarrow> bs_ok (s\<lparr>bs_breaker := b\<rparr>)"
  using assms
  by (cases "cb_mode (bs_breaker s)") (auto simp: cb_admit_def bs_ok_def cb_ok_def permit_ok_def live_permits_def)

lemma bs_ok_call: "bs_ok s \<Longrightarrow> bs_ok (bs_do (Ev_Call now) s)"
  using bs_ok_admit [OF bs_ok_tick, of s now now]
  by (auto simp: bs_do_def cb_acquire_def case_prod_beta split: admission.splits)

text \<open>Settling one permit of the current episode.\<close>

lemma settle_stale: "pm_generation pm \<noteq> cb_generation b \<Longrightarrow> cb_settle_locked pm v now b = (None, b)"
  by (simp add: cb_settle_locked_def)

lemma settle_ok:
  assumes ok: "bs_ok \<lparr>bs_breaker = b, bs_running = xs @ pm # ys, bs_lost = lost\<rparr>"
  shows "bs_ok \<lparr>bs_breaker = snd (cb_settle_locked pm v now b), bs_running = xs @ ys, bs_lost = lost\<rparr>"
proof (cases "pm_generation pm = cb_generation b")
  case False
  then show ?thesis using ok by (auto simp: settle_stale bs_ok_def live_permits_def)
next
  case True
  note parts = bs_ok_parts [OF ok, simplified]
  have pms: "\<forall>p \<in> set ((xs @ ys) @ lost). pm_generation p \<le> cb_generation b" using parts(3) by auto
  have trial: "cb_mode b \<noteq> Open_State" "pm_trial pm = (cb_mode b = Half_Open_State)"
    using ok True by (auto simp: bs_ok_def permit_ok_def)
  show ?thesis
  proof (cases "cb_mode b = Closed_State")
    case closed: True
    have base: "bs_ok \<lparr>bs_breaker = b, bs_running = xs @ ys, bs_lost = lost\<rparr>"
      using ok closed by (auto simp: bs_ok_def cb_ok_def)
    show ?thesis
    proof (cases v)
      case None
      then show ?thesis using True trial closed base by (simp add: cb_settle_locked_def)
    next
      case (Some k)
      define b1 where "b1 = b\<lparr>cb_window := cb_window b @ [(now, k)],
          cb_failures := (if k then cb_failures b else cb_failures b + 1)\<rparr>"
      have "bs_ok \<lparr>bs_breaker = b1, bs_running = xs @ ys, bs_lost = lost\<rparr>"
        using base by (auto simp: b1_def bs_ok_def cb_ok_def fail_count_def permit_ok_def live_permits_def)
      from bs_ok_prune [OF this, of now]
      have b2: "bs_ok \<lparr>bs_breaker = cb_prune now b1, bs_running = xs @ ys, bs_lost = lost\<rparr>" by simp

      have "\<forall>p \<in> set ((xs @ ys) @ lost). pm_generation p \<le> cb_generation (cb_prune now b1)"
        using pms by (simp add: b1_def)
      then have "bs_ok \<lparr>bs_breaker = snd (cb_transition Open_State now (cb_prune now b1)),
          bs_running = xs @ ys, bs_lost = lost\<rparr>"
        using bs_ok_parts [OF b2] by (intro bs_ok_transition) simp_all
      then show ?thesis
        using True trial closed Some b2
        by (simp add: cb_settle_locked_def Let_def b1_def [symmetric])
    qed
  next
    case False
    then have half: "cb_mode b = Half_Open_State" using trial(1) by (cases "cb_mode b") auto
    define b1 where "b1 = b\<lparr>cb_in_flight := cb_in_flight b - 1\<rparr>"
    have base: "bs_ok \<lparr>bs_breaker = b1, bs_running = xs @ ys, bs_lost = lost\<rparr>"
      using ok half True by (auto simp: bs_ok_def cb_ok_def b1_def permit_ok_def live_permits_def)
    have tr: "bs_ok \<lparr>bs_breaker = snd (cb_transition m now c), bs_running = xs @ ys, bs_lost = lost\<rparr>"
      if "c = b1 \<or> c = b1\<lparr>cb_successes := cb_successes b1 + 1\<rparr>" for m c
      using that bs_ok_parts [OF base] by (intro bs_ok_transition) auto
    have more: "bs_ok \<lparr>bs_breaker = b1\<lparr>cb_successes := cb_successes b1 + 1\<rparr>, bs_running = xs @ ys, bs_lost = lost\<rparr>"
      if "\<not> po_success_threshold (cb_policy b) \<le> cb_successes b + 1"
      using base that half by (auto simp: bs_ok_def cb_ok_def b1_def permit_ok_def live_permits_def)
    have trial': "pm_trial pm" using trial(2) half by simp
    have m1: "cb_mode b1 = Half_Open_State" using half by (simp add: b1_def)
    show ?thesis
    proof (cases v)
      case None
      then show ?thesis using True trial' base by (simp add: cb_settle_locked_def b1_def)
    next
      case (Some k)
      have "cb_settle_locked pm v now b =
          (if \<not> k then cb_transition Open_State now b1
           else if po_success_threshold (cb_policy b) \<le> cb_successes b + 1
                then cb_transition Closed_State now (b1\<lparr>cb_successes := cb_successes b1 + 1\<rparr>)
                else (None, b1\<lparr>cb_successes := cb_successes b1 + 1\<rparr>))"
        using True trial' m1 Some by (simp add: cb_settle_locked_def Let_def b1_def)
      then show ?thesis using tr more by simp
    qed
  qed
qed

lemma bs_ok_lost:
  "bs_ok \<lparr>bs_breaker = b, bs_running = xs @ pm # ys, bs_lost = lost\<rparr> \<Longrightarrow>
    bs_ok \<lparr>bs_breaker = b, bs_running = xs @ ys, bs_lost = pm # lost\<rparr>"
  by (auto simp: bs_ok_def live_permits_def add.left_commute)

lemma cb_finish_settles:
  "outcome \<noteq> Raised_Base \<Longrightarrow> \<exists>v. snd (cb_finish pm outcome r now b) = snd (cb_settle_locked pm v now b)"
  by (cases outcome) (auto simp: cb_finish_def cb_release_def cb_record_def cb_settle_def case_prod_beta)

lemma bs_ok_end:
  assumes "bs_ok s"
  shows "bs_ok (bs_do (Ev_End i outcome r now) s)"
proof (cases "i < length (bs_running s)")
  case True
  let ?xs = "take i (bs_running s)" and ?ys = "drop (Suc i) (bs_running s)" and ?pm = "bs_running s ! i"
  have "bs_running s = ?xs @ ?pm # ?ys" by (rule id_take_nth_drop [OF True])
  then have ok: "bs_ok \<lparr>bs_breaker = bs_breaker s, bs_running = ?xs @ ?pm # ?ys, bs_lost = bs_lost s\<rparr>"
    using assms by (cases s) simp
  show ?thesis
  proof (cases "outcome = Raised_Base")
    case base: True
    then show ?thesis using True bs_ok_lost [OF ok] by (simp add: bs_do_def Let_def cb_finish_def)
  next
    case False
    then obtain v where "snd (cb_finish ?pm outcome r now (bs_breaker s)) = snd (cb_settle_locked ?pm v now (bs_breaker s))"
      using cb_finish_settles by blast
    then show ?thesis using True False settle_ok [OF ok, of v now] by (simp add: bs_do_def Let_def)
  qed
qed (use assms in \<open>simp add: bs_do_def\<close>)

lemma bs_do_ok: "bs_ok s \<Longrightarrow> bs_ok (bs_do ev s)"
proof (cases ev)
  case (Ev_State now)
  then show "bs_ok s \<Longrightarrow> bs_ok (bs_do ev s)"
    using bs_ok_tick by (simp add: bs_do_def cb_read_state_def case_prod_beta)
next
  case (Ev_Snapshot now)
  then show "bs_ok s \<Longrightarrow> bs_ok (bs_do ev s)"
    using bs_ok_prune [OF bs_ok_tick, of s now now]
    by (simp add: bs_do_def cb_snapshot_def case_prod_beta Let_def)
next
  case (Ev_Reset now)
  then show "bs_ok s \<Longrightarrow> bs_ok (bs_do ev s)" using bs_ok_reset by (simp add: bs_do_def)
qed (simp_all add: bs_ok_call bs_ok_end)

lemma bs_run_ok: "bs_ok s \<Longrightarrow> bs_ok (bs_run evs s)"
  unfolding bs_run_def by (induction evs arbitrary: s) (simp_all add: bs_do_ok)

lemma breaker_new_ok:
  "breaker_new name p = Inr b \<Longrightarrow> policy_check p = Inr () \<Longrightarrow> bs_ok (bs_init b)"
  by (auto simp: breaker_new_def bs_init_def bs_ok_def cb_ok_def fail_count_def live_permits_def split: if_splits)


section \<open>What the breaker promises\<close>

text \<open>C36. Trials are bounded and outcomes are tied to their episode: in every run of concurrent
  calls, ends, resets and reads, at any clock, a half-open breaker has at most
  \<^verbatim>\<open>half_open_max_calls\<close> unsettled trial calls and counts them exactly; while it is open no call of
  the current episode is unsettled; the failures it counts are those in its window; and a
  permit of an earlier episode changes nothing whatever its call comes to.
\<close>

theorem breaker_trials_bounded:
  assumes "breaker_new name p = Inr b0" and "policy_check p = Inr ()"
    and "s = bs_run evs (bs_init b0)" and "b = bs_breaker s"
  shows "(cb_mode b = Half_Open_State \<longrightarrow>
      cb_in_flight b = live_permits b (bs_running s @ bs_lost s) \<and> cb_in_flight b \<le> po_max_trials (cb_policy b)) \<and>
    (cb_mode b = Open_State \<longrightarrow> live_permits b (bs_running s @ bs_lost s) = 0) \<and>
    cb_failures b = int (length (filter (\<lambda>(_, ok). \<not> ok) (cb_window b))) \<and>
    (\<forall>pm \<in> set (bs_running s). pm_generation pm \<noteq> cb_generation b \<longrightarrow>
      (\<forall>outcome returned_at now. cb_finish pm outcome returned_at now b = ([], b)))"
proof -
  have ok: "bs_ok s" unfolding assms(3) by (rule bs_run_ok [OF breaker_new_ok [OF assms(1,2)]])
  have "live_permits b (bs_running s @ bs_lost s) = 0" if "cb_mode b = Open_State"
    using ok that by (fastforce simp: bs_ok_def assms(4) live_permits_def permit_ok_def filter_empty_conv)
  moreover have "cb_finish pm outcome r now b = ([], b)" if "pm_generation pm \<noteq> cb_generation b" for pm outcome r now
    using that by (cases outcome)
      (simp_all add: cb_finish_def cb_release_def cb_record_def cb_settle_def settle_stale cb_emit_def)
  ultimately show ?thesis using ok by (simp add: bs_ok_def cb_ok_def fail_count_def assms(4))
qed

definition demo_policy :: breaker_policy where
  "demo_policy = \<lparr>po_threshold = 1 / 2, po_min_calls = 2, po_window_seconds = 10, po_open_seconds = 5,
     po_max_trials = 1, po_success_threshold = 2, po_slow_seconds = Some 1\<rparr>"

definition demo_breaker :: breaker where
  "demo_breaker = \<lparr>cb_name = ''payments'', cb_policy = demo_policy, cb_mode = Closed_State, cb_generation = 0,
     cb_window = [], cb_failures = 0, cb_opened_at = 0, cb_in_flight = 0, cb_successes = 0, cb_rejected = 0\<rparr>"

text \<open>Two timeouts open it, a call that started before is still out, and a trial runs after the wait.\<close>

definition demo_breaker_run :: "breaker_event list" where
  "demo_breaker_run = [Ev_Call 0, Ev_Call 0, Ev_Call 0, Ev_End 0 Raised_Exception 0 0,
     Ev_End 0 Raised_Exception 0 0, Ev_Call 1, Ev_Call 5, Ev_Call 5]"

lemma breaker_trials_bounded_witness:
  "cb_mode (bs_breaker (bs_run demo_breaker_run (bs_init demo_breaker))) = Half_Open_State \<and>
   length (bs_running (bs_run demo_breaker_run (bs_init demo_breaker))) = 2 \<and>
   cb_in_flight (bs_breaker (bs_run demo_breaker_run (bs_init demo_breaker))) \<le> 1"
proof -
  have new: "breaker_new ''payments'' demo_policy = Inr demo_breaker" "policy_check demo_policy = Inr ()"
    by (simp_all add: breaker_new_def demo_breaker_def policy_check_def demo_policy_def)
  let ?s = "bs_run demo_breaker_run (bs_init demo_breaker)"
  have v: "cb_mode (bs_breaker ?s) = Half_Open_State" "length (bs_running ?s) = 2"
    "po_max_trials (cb_policy (bs_breaker ?s)) = 1" by code_simp+
  then show ?thesis using breaker_trials_bounded [OF new refl refl, of demo_breaker_run] by simp
qed

text \<open>The edges of the machine a step of some thread may take; \<open>True\<close> marks an operator's reset.\<close>

definition breaker_edge :: "bool \<Rightarrow> cb_state \<Rightarrow> cb_state \<Rightarrow> bool" where
  "breaker_edge by_reset old new_state \<longleftrightarrow>
     old = new_state \<or>
     (old = Closed_State \<and> new_state = Open_State) \<or> (old = Open_State \<and> new_state = Half_Open_State) \<or>
     (old = Half_Open_State \<and> (new_state = Closed_State \<or> new_state = Open_State)) \<or>
     (by_reset \<and> new_state = Closed_State)"

definition tripped :: "breaker_policy \<Rightarrow> (time \<times> bool) list \<Rightarrow> bool" where
  "tripped p window \<longleftrightarrow> po_min_calls p \<le> int (length window) \<and>
     po_threshold p \<le> of_int (fail_count window) / of_int (int (length window))"

lemma settle_closed:
  assumes "cb_ok b n" "cb_mode b = Closed_State" "pm_generation pm = cb_generation b" "\<not> pm_trial pm"
  shows "cb_mode (snd (cb_settle_locked pm (Some ok) now b)) =
    (if tripped (cb_policy b) (fst (prune_loop (now - po_window_seconds (cb_policy b)) (cb_window b @ [(now, ok)])
       (fail_count (cb_window b @ [(now, ok)])))) then Open_State else Closed_State)"
proof -
  let ?xs = "cb_window b @ [(now, ok)]" and ?h = "now - po_window_seconds (cb_policy b)"
  have f: "(if ok then cb_failures b else cb_failures b + 1) = fail_count ?xs"
    using assms(1) by (auto simp: cb_ok_def fail_count_def)
  obtain ys g where pr: "prune_loop ?h ?xs (fail_count ?xs) = (ys, g)" by fastforce
  then have "g = fail_count ys" using prune_loop_count by fastforce
  then show ?thesis
    using assms(2,3,4) pr f by (simp add: cb_settle_locked_def Let_def cb_prune_def tripped_def)
qed

lemma breaker_new_fields: "breaker_new name p = Inr b \<Longrightarrow> cb_policy b = p \<and> cb_mode b = Closed_State"
  by (auto simp: breaker_new_def split: if_splits)

lemma cb_settle_locked_edge:
  assumes "bs_ok s" "pm \<in> set (bs_running s)"
  shows "breaker_edge False (cb_mode (bs_breaker s)) (cb_mode (snd (cb_settle_locked pm v now (bs_breaker s))))"
  using assms
  by (cases "cb_mode (bs_breaker s)")
    (auto simp: cb_settle_locked_def Let_def breaker_edge_def bs_ok_def permit_ok_def split: option.splits)

lemma bs_do_edge:
  assumes "bs_ok s"
  shows "breaker_edge (\<exists>now. ev = Ev_Reset now) (cb_mode (bs_breaker s)) (cb_mode (bs_breaker (bs_do ev s)))"
proof (cases ev)
  case (Ev_Call now)
  have "cb_mode (snd (cb_admit now b)) = cb_mode b" for b
    by (cases "cb_mode b") (auto simp: cb_admit_def)
  moreover have "cb_mode (bs_breaker (bs_do ev s)) = cb_mode (snd (cb_admit now (snd (cb_tick now (bs_breaker s)))))"
    by (auto simp: Ev_Call bs_do_def cb_acquire_def case_prod_beta split: admission.splits)
  ultimately show ?thesis by (auto simp: cb_tick_def breaker_edge_def)
next
  case (Ev_End i outcome r now)
  show ?thesis
  proof (cases "i < length (bs_running s) \<and> outcome \<noteq> Raised_Base")
    case True
    then obtain v where "snd (cb_finish (bs_running s ! i) outcome r now (bs_breaker s)) =
        snd (cb_settle_locked (bs_running s ! i) v now (bs_breaker s))"
      using cb_finish_settles by blast
    moreover have "bs_running s ! i \<in> set (bs_running s)" using True by simp
    ultimately show ?thesis
      using cb_settle_locked_edge [OF assms, of "bs_running s ! i" v now] True
      by (simp add: Ev_End bs_do_def Let_def)
  next
    case False
    then show ?thesis by (auto simp: Ev_End bs_do_def Let_def cb_finish_def breaker_edge_def)
  qed
qed (auto simp: bs_do_def breaker_edge_def cb_reset_def cb_read_state_def cb_snapshot_def cb_tick_def case_prod_beta Let_def)

text \<open>C40. The machine takes only its documented edges, and each at its moment: closed to open when,
  and only when, a reported outcome leaves at least \<^verbatim>\<open>min_calls\<close> outcomes in the pruned window and
  their failure rate at the threshold; open to half-open at the first look once
  \<^verbatim>\<open>open_seconds\<close> have passed, every call before that being rejected with the time that is left.
\<close>

theorem breaker_transitions_exact:
  assumes "breaker_new name p = Inr b0" and "policy_check p = Inr ()"
    and "s = bs_run evs (bs_init b0)" and "b = bs_breaker s"
  shows "breaker_edge (\<exists>now. ev = Ev_Reset now) (cb_mode b) (cb_mode (bs_breaker (bs_do ev s))) \<and>
    (\<forall>pm \<in> set (bs_running s). \<forall>ok now. pm_generation pm = cb_generation b \<longrightarrow> cb_mode b = Closed_State \<longrightarrow>
      (cb_mode (snd (cb_record pm ok now b)) = Open_State \<longleftrightarrow>
         tripped (cb_policy b) (fst (prune_loop (now - po_window_seconds (cb_policy b)) (cb_window b @ [(now, ok)])
           (fail_count (cb_window b @ [(now, ok)])))))) \<and>
    (\<forall>now. cb_mode b = Open_State \<longrightarrow>
      (if now < cb_opened_at b + po_open_seconds (cb_policy b)
       then fst (cb_acquire now b) = Rejected Open_State (cb_opened_at b + po_open_seconds (cb_policy b) - now)
       else fst (cb_acquire now b) =
         Admitted \<lparr>pm_generation = cb_generation b + 1, pm_trial = True, pm_issued = now\<rparr>))"
proof (intro conjI ballI allI impI)
  have ok: "bs_ok s" unfolding assms(3) by (rule bs_run_ok [OF breaker_new_ok [OF assms(1,2)]])
  show "breaker_edge (\<exists>now. ev = Ev_Reset now) (cb_mode b) (cb_mode (bs_breaker (bs_do ev s)))"
    unfolding assms(4) by (rule bs_do_edge [OF ok])
  fix pm :: permit and k and now :: rat
  show "cb_mode (snd (cb_record pm k now b)) = Open_State \<longleftrightarrow>
      tripped (cb_policy b) (fst (prune_loop (now - po_window_seconds (cb_policy b)) (cb_window b @ [(now, k)])
        (fail_count (cb_window b @ [(now, k)]))))"
    if "pm \<in> set (bs_running s)" "pm_generation pm = cb_generation b" "cb_mode b = Closed_State"
  proof -
    have "cb_ok b (live_permits b (bs_running s @ bs_lost s))" "\<not> pm_trial pm"
      using ok that by (auto simp: bs_ok_def permit_ok_def assms(4))
    from settle_closed [OF this(1) that(3,2) this(2), of k now] show ?thesis
      by (simp add: cb_record_def cb_settle_def case_prod_beta)
  qed
  show "if now < cb_opened_at b + po_open_seconds (cb_policy b)
      then fst (cb_acquire now b) = Rejected Open_State (cb_opened_at b + po_open_seconds (cb_policy b) - now)
      else fst (cb_acquire now b) = Admitted \<lparr>pm_generation = cb_generation b + 1, pm_trial = True, pm_issued = now\<rparr>"
    if "cb_mode b = Open_State" for now
  proof -
    have "1 \<le> po_max_trials (cb_policy b)" using policy_positive bs_ok_parts(1) [OF ok] assms(4) by blast
    then show ?thesis using that by (auto simp: cb_acquire_def cb_tick_def cb_admit_def cb_transition_def Let_def)
  qed
qed

lemma breaker_transitions_exact_witness:
  "cb_mode (bs_breaker (bs_run (take 5 demo_breaker_run) (bs_init demo_breaker))) = Open_State \<and>
   fst (cb_acquire 2 (bs_breaker (bs_run (take 5 demo_breaker_run) (bs_init demo_breaker)))) = Rejected Open_State 3"
proof -
  have new: "breaker_new ''payments'' demo_policy = Inr demo_breaker" "policy_check demo_policy = Inr ()"
    by (simp_all add: breaker_new_def demo_breaker_def policy_check_def demo_policy_def)
  let ?b = "bs_breaker (bs_run (take 5 demo_breaker_run) (bs_init demo_breaker))"
  have v: "cb_mode ?b = Open_State" "cb_opened_at ?b = 0" "po_open_seconds (cb_policy ?b) = 5" by code_simp+
  have "if 2 < cb_opened_at ?b + po_open_seconds (cb_policy ?b)
      then fst (cb_acquire 2 ?b) = Rejected Open_State (cb_opened_at ?b + po_open_seconds (cb_policy ?b) - 2)
      else fst (cb_acquire 2 ?b) = Admitted \<lparr>pm_generation = cb_generation ?b + 1, pm_trial = True, pm_issued = 2\<rparr>"
    using breaker_transitions_exact [OF new refl refl, of "Ev_State 0" "take 5 demo_breaker_run"] v(1) by blast
  then show ?thesis using v by simp
qed

section \<open>Recovery\<close>

definition fast_enough :: "breaker_policy \<Rightarrow> time \<Rightarrow> time \<Rightarrow> bool" where
  "fast_enough p started returned_at = (case po_slow_seconds p of None \<Rightarrow> True | Some slow \<Rightarrow> returned_at - started < slow)"

text \<open>Calls one after the other that all return, with the readings of each.\<close>

primrec healthy_calls :: "(time \<times> time \<times> time) list \<Rightarrow> breaker \<Rightarrow> (cb_state \<times> cb_state) list \<times> breaker" where
  "healthy_calls [] b = ([], b)"
| "healthy_calls (t # ts) b =
     (case cb_call Returned (fst t) (fst (snd t)) (snd (snd t)) b of
        (_, events, b1) \<Rightarrow> (case healthy_calls ts b1 of (events', b2) \<Rightarrow> (events @ events', b2)))"

text \<open>A trial call of a half-open breaker with a free slot, whatever its end.\<close>

lemma trial_call:
  assumes "cb_mode b = Half_Open_State" "cb_in_flight b < po_max_trials (cb_policy b)"
  shows "cb_call Returned t0 t1 t2 b =
      (if \<not> fast_enough (cb_policy b) t0 t1
       then (Inr Returned, [(Half_Open_State, Open_State)], snd (cb_transition Open_State t2 b))
       else if po_success_threshold (cb_policy b) \<le> cb_successes b + 1
       then (Inr Returned, [(Half_Open_State, Closed_State)], snd (cb_transition Closed_State t2 b))
       else (Inr Returned, [], b\<lparr>cb_successes := cb_successes b + 1\<rparr>))"
    "cb_call Raised_Exception t0 t1 t2 b =
      (Inr Raised_Exception, [(Half_Open_State, Open_State)], snd (cb_transition Open_State t2 b))"
  using assms
  by (cases b; auto simp: cb_call_def cb_acquire_def cb_tick_def cb_admit_def cb_finish_def cb_record_def cb_settle_def
      cb_settle_locked_def cb_transition_def cb_emit_def Let_def fast_enough_def split: option.splits)+

lemma call_after_tick:
  "cb_mode b = Open_State \<Longrightarrow> cb_opened_at b + po_open_seconds (cb_policy b) \<le> t0 \<Longrightarrow>
    cb_call outcome t0 t1 t2 b =
      (case cb_call outcome t0 t1 t2 (snd (cb_transition Half_Open_State t0 b)) of
         (r, events, b') \<Rightarrow> (r, (Open_State, Half_Open_State) # events, b'))"
  by (simp add: cb_call_def cb_acquire_def cb_tick_def cb_transition_def cb_emit_def split: admission.splits prod.splits)

lemma healthy_trials:
  assumes "cb_mode b = Half_Open_State" "cb_in_flight b < po_max_trials (cb_policy b)" "ts \<noteq> []"
    and "\<forall>t \<in> set ts. fast_enough (cb_policy b) (fst t) (fst (snd t))"
    and "cb_successes b + int (length ts) = po_success_threshold (cb_policy b)"
  shows "healthy_calls ts b = ([(Half_Open_State, Closed_State)], snd (cb_transition Closed_State (snd (snd (last ts))) b))"
  using assms
proof (induction ts arbitrary: b)
  case (Cons t ts)
  show ?case
  proof (cases "ts = []")
    case True
    then show ?thesis using Cons.prems by (simp add: trial_call)
  next
    case False
    then have "1 \<le> length ts" by (simp add: Suc_leI)
    then have "\<not> po_success_threshold (cb_policy b) \<le> cb_successes b + 1" using Cons.prems(5) by simp
    moreover have "healthy_calls ts (b\<lparr>cb_successes := cb_successes b + 1\<rparr>) =
        ([(Half_Open_State, Closed_State)], snd (cb_transition Closed_State (snd (snd (last ts))) (b\<lparr>cb_successes := cb_successes b + 1\<rparr>)))"
      using Cons.prems False by (intro Cons.IH) simp_all
    ultimately show ?thesis
      using Cons.prems False by (simp add: trial_call cb_transition_def Let_def)
  qed
qed simp

text \<open>Recovery: once \<^verbatim>\<open>open_seconds\<close> have passed, \<^verbatim>\<open>success_threshold\<close> calls in a row that return
  in time take an open breaker through half-open to closed with an empty window, listeners
  hearing of exactly these two changes; and a first trial that raises, or returns too late,
  opens it again for a full \<^verbatim>\<open>open_seconds\<close> counted from its end.
\<close>

theorem breaker_recovers:
  assumes "policy_check (cb_policy b) = Inr ()" and "cb_mode b = Open_State"
    and "int (length ts) = po_success_threshold (cb_policy b)"
    and "cb_opened_at b + po_open_seconds (cb_policy b) \<le> fst (hd ts)"
  shows "((\<forall>t \<in> set ts. fast_enough (cb_policy b) (fst t) (fst (snd t))) \<longrightarrow>
      fst (healthy_calls ts b) = [(Open_State, Half_Open_State), (Half_Open_State, Closed_State)] \<and>
      cb_mode (snd (healthy_calls ts b)) = Closed_State \<and>
      cb_window (snd (healthy_calls ts b)) = [] \<and> cb_failures (snd (healthy_calls ts b)) = 0) \<and>
    (\<forall>outcome returned_at now. outcome = Raised_Exception \<or>
        outcome = Returned \<and> \<not> fast_enough (cb_policy b) (fst (hd ts)) returned_at \<longrightarrow>
      (case cb_call outcome (fst (hd ts)) returned_at now b of (_, events, b') \<Rightarrow>
         events = [(Open_State, Half_Open_State), (Half_Open_State, Open_State)] \<and>
         cb_mode b' = Open_State \<and> cb_opened_at b' = now))"
proof -
  let ?h = "\<lambda>t. snd (cb_transition Half_Open_State t b)"
  have pos: "1 \<le> po_max_trials (cb_policy b)" "1 \<le> po_success_threshold (cb_policy b)"
    using policy_positive [OF assms(1)] by simp_all
  have half: "cb_mode (?h t) = Half_Open_State" "cb_in_flight (?h t) < po_max_trials (cb_policy (?h t))"
    "cb_successes (?h t) = 0" "cb_policy (?h t) = cb_policy b" for t
    using pos by (simp_all add: cb_transition_def)
  obtain t ts' where ts: "ts = t # ts'" using assms(3) pos by (cases ts) auto
  have "healthy_calls ts b = (case healthy_calls ts (?h (fst t)) of (events, b') \<Rightarrow> ((Open_State, Half_Open_State) # events, b'))"
    using assms(2,4) ts by (simp add: call_after_tick split: prod.splits)
  moreover have "healthy_calls ts (?h (fst t)) =
      ([(Half_Open_State, Closed_State)], snd (cb_transition Closed_State (snd (snd (last ts))) (?h (fst t))))"
    if "\<forall>t \<in> set ts. fast_enough (cb_policy b) (fst t) (fst (snd t))"
    using half that assms(3) ts by (intro healthy_trials) simp_all
  ultimately have "(\<forall>t \<in> set ts. fast_enough (cb_policy b) (fst t) (fst (snd t))) \<longrightarrow>
      healthy_calls ts b = ([(Open_State, Half_Open_State), (Half_Open_State, Closed_State)],
        snd (cb_transition Closed_State (snd (snd (last ts))) (?h (fst t))))"
    by simp
  moreover have "case cb_call outcome (fst (hd ts)) r now b of (_, events, b') \<Rightarrow>
      events = [(Open_State, Half_Open_State), (Half_Open_State, Open_State)] \<and> cb_mode b' = Open_State \<and> cb_opened_at b' = now"
    if "outcome = Raised_Exception \<or> outcome = Returned \<and> \<not> fast_enough (cb_policy b) (fst (hd ts)) r" for outcome r now
    using that assms(2,4) half by (auto simp: call_after_tick trial_call) (simp_all add: cb_transition_def)
  ultimately show ?thesis by (auto simp: cb_transition_def)
qed

definition demo_open :: breaker where
  "demo_open = bs_breaker (bs_run (take 5 demo_breaker_run) (bs_init demo_breaker))"

lemma breaker_recovers_witness:
  "cb_mode (snd (healthy_calls [(5, 5, 5), (6, 6, 6)] demo_open)) = Closed_State \<and>
   cb_mode (snd (snd (cb_call Raised_Exception 5 7 7 demo_open))) = Open_State"
proof -
  have v: "policy_check (cb_policy demo_open) = Inr ()" "cb_mode demo_open = Open_State"
    "int (length [(5, 5, 5), (6, 6, 6 :: rat)]) = po_success_threshold (cb_policy demo_open)"
    "cb_opened_at demo_open + po_open_seconds (cb_policy demo_open) \<le> 5"
    "\<forall>t \<in> set [(5, 5, 5), (6, 6, 6)]. fast_enough (cb_policy demo_open) (fst t) (fst (snd t))"
    by code_simp+
  show ?thesis
    using breaker_recovers [OF v(1-3)] v(4,5) by (simp add: case_prod_beta)
qed

section \<open>A leaked trial slot\<close>

text \<open>
  \<^verbatim>\<open>call\<close> settles its permit on return, on an ignored exception and on an \<^verbatim>\<open>Exception\<close>; a
  \<^verbatim>\<open>BaseException\<close> outside \<^verbatim>\<open>ignored_exceptions\<close> passes it by. During a trial call the slot it held is
  then never given back: once the lost permits fill \<^verbatim>\<open>half_open_max_calls\<close> the breaker rejects
  every call, at any time, until an operator resets it.
\<close>

definition wedged :: "breaker_sys \<Rightarrow> bool" where
  "wedged s \<longleftrightarrow> cb_mode (bs_breaker s) = Half_Open_State \<and>
     po_max_trials (cb_policy (bs_breaker s)) \<le> cb_in_flight (bs_breaker s) \<and>
     (\<forall>pm \<in> set (bs_running s). pm_generation pm \<noteq> cb_generation (bs_breaker s))"

lemma wedged_call: "wedged s \<Longrightarrow> fst (cb_acquire now (bs_breaker s)) = Rejected Half_Open_State 0"
  by (simp add: wedged_def cb_acquire_def cb_tick_def cb_admit_def)

lemma wedged_end:
  assumes "wedged s"
  shows "wedged (bs_do (Ev_End i outcome r now) s)"
proof (cases "i < length (bs_running s)")
  case True
  then have "pm_generation (bs_running s ! i) \<noteq> cb_generation (bs_breaker s)" using assms by (simp add: wedged_def)
  then have "snd (cb_finish (bs_running s ! i) outcome r now (bs_breaker s)) = bs_breaker s"
    by (cases outcome) (simp_all add: cb_finish_def cb_release_def cb_record_def cb_settle_def settle_stale)
  then show ?thesis
    using assms True by (auto simp: wedged_def bs_do_def Let_def dest: in_set_takeD in_set_dropD)
qed (use assms in \<open>simp add: bs_do_def\<close>)

lemma wedged_look:
  "wedged s \<Longrightarrow> wedged (bs_do (Ev_Call now) s)" "wedged s \<Longrightarrow> wedged (bs_do (Ev_State now) s)"
  "wedged s \<Longrightarrow> wedged (bs_do (Ev_Snapshot now) s)"
  by (simp_all add: wedged_def bs_do_def cb_acquire_def cb_tick_def cb_admit_def cb_read_state_def cb_snapshot_def Let_def)

lemma wedged_step: "wedged s \<Longrightarrow> \<forall>now. ev \<noteq> Ev_Reset now \<Longrightarrow> wedged (bs_do ev s)"
  by (cases ev) (simp_all add: wedged_end wedged_look)

theorem lost_trial_wedges:
  assumes "wedged s" and "\<forall>now. Ev_Reset now \<notin> set evs"
  shows "fst (cb_acquire now (bs_breaker (bs_run evs s))) = Rejected Half_Open_State 0"
proof -
  have "wedged (bs_run evs s)"
    using assms unfolding bs_run_def
    by (induction evs arbitrary: s) (simp, metis fold_simps(2) list.set_intros wedged_step)
  then show ?thesis by (rule wedged_call)
qed

text \<open>A trial call after the wait that ends in \<^verbatim>\<open>SystemExit\<close>, and a call a thousand seconds later.\<close>

lemma lost_trial_wedges_witness:
  "fst (cb_acquire 1000 (bs_breaker (bs_run (take 5 demo_breaker_run @ [Ev_Call 5, Ev_End 1 Raised_Base 6 6, Ev_State 500])
     (bs_init demo_breaker)))) = Rejected Half_Open_State 0"
proof -
  let ?s = "bs_run (take 5 demo_breaker_run @ [Ev_Call 5, Ev_End 1 Raised_Base 6 6]) (bs_init demo_breaker)"
  have "wedged ?s" by code_simp
  moreover have "bs_run (take 5 demo_breaker_run @ [Ev_Call 5, Ev_End 1 Raised_Base 6 6, Ev_State 500]) (bs_init demo_breaker) =
      bs_run [Ev_State 500] ?s" by (simp add: bs_run_def)
  ultimately show ?thesis using lost_trial_wedges [of ?s "[Ev_State 500]" 1000] by simp
qed

end
