(* ===== verification/Event_Sourcing.thy ===== *)
theory Event_Sourcing
  imports Common "HOL-Library.Product_Lexorder"
begin

text \<open>
  Event sourcing and CQRS of \<^verbatim>\<open>code/hld/event_sourcing.py\<close>: the bank account whose commands raise
  events and whose state is a fold over them, the append-only store with optimistic
  concurrency and snapshots, the repository that loads from a snapshot and the events after
  it, and the read models fed by the global log.

  A command answers the changed aggregate or the exception, the aggregate being unchanged then.
  Each method of the store is one atomic step under its lock; a save is its two calls to the
  store, and other threads may move between them.
\<close>

section \<open>Events and aggregate\<close>

datatype domain_event =
    AccountOpened string | MoneyDeposited money | MoneyWithdrawn money | AccountClosed string

record stored_event =
  se_stream :: string
  se_version :: int
  se_position :: int
  se_timestamp :: time
  se_event :: domain_event

record account_snapshot =
  as_account_id :: string
  as_version :: int
  as_owner :: string
  as_balance :: money
  as_closed :: bool

record bank_account =
  ba_account_id :: string
  ba_owner :: string
  ba_balance :: money
  ba_closed :: bool
  ba_version :: int
  ba_pending :: "domain_event list"

text \<open>\<^verbatim>\<open>BankAccount(account_id)\<close>: every other field at its default.\<close>

definition ba_blank :: "string \<Rightarrow> bank_account" where
  "ba_blank account_id = \<lparr>ba_account_id = account_id, ba_owner = [], ba_balance = Money 0 ''USD'',
     ba_closed = False, ba_version = 0, ba_pending = []\<rparr>"

definition ba_apply :: "domain_event \<Rightarrow> bank_account \<Rightarrow> bank_account result" where
  "ba_apply event a =
     (case (case event of
              AccountOpened owner \<Rightarrow> Inr (a\<lparr>ba_owner := owner\<rparr>)
            | MoneyDeposited amount \<Rightarrow>
                (case money_add (ba_balance a) amount of Inl e \<Rightarrow> Inl e | Inr m \<Rightarrow> Inr (a\<lparr>ba_balance := m\<rparr>))
            | MoneyWithdrawn amount \<Rightarrow>
                (case money_sub (ba_balance a) amount of Inl e \<Rightarrow> Inl e | Inr m \<Rightarrow> Inr (a\<lparr>ba_balance := m\<rparr>))
            | AccountClosed _ \<Rightarrow> Inr (a\<lparr>ba_closed := True\<rparr>)) of
        Inl e \<Rightarrow> Inl e
      | Inr a' \<Rightarrow> Inr (a'\<lparr>ba_version := ba_version a' + 1\<rparr>))"

definition ba_raise :: "domain_event \<Rightarrow> bank_account \<Rightarrow> bank_account result" where
  "ba_raise event a =
     (case ba_apply event a of Inl e \<Rightarrow> Inl e | Inr a' \<Rightarrow> Inr (a'\<lparr>ba_pending := ba_pending a' @ [event]\<rparr>))"

definition require_open :: "bank_account \<Rightarrow> unit result" where
  "require_open a =
     (if ba_version a = 0 then Inl InvalidStateError
      else if ba_closed a then Inl InvalidStateError else Inr ())"

definition require_positive :: "money \<Rightarrow> unit result" where
  "require_positive amount = (if cents amount \<le> 0 then Inl ValidationError else Inr ())"

definition ba_open :: "string \<Rightarrow> string \<Rightarrow> bank_account result" where
  "ba_open account_id owner =
     (if account_id = [] \<or> owner = [] then Inl ValidationError
      else ba_raise (AccountOpened owner) (ba_blank account_id))"

definition ba_deposit :: "money \<Rightarrow> bank_account \<Rightarrow> bank_account result" where
  "ba_deposit amount a =
     (case require_open a of Inl e \<Rightarrow> Inl e | Inr _ \<Rightarrow>
      case require_positive amount of Inl e \<Rightarrow> Inl e | Inr _ \<Rightarrow> ba_raise (MoneyDeposited amount) a)"

definition ba_withdraw :: "money \<Rightarrow> bank_account \<Rightarrow> bank_account result" where
  "ba_withdraw amount a =
     (case require_open a of Inl e \<Rightarrow> Inl e | Inr _ \<Rightarrow>
      case require_positive amount of Inl e \<Rightarrow> Inl e | Inr _ \<Rightarrow>
      if ba_balance a < amount then Inl InvalidStateError else ba_raise (MoneyWithdrawn amount) a)"

definition ba_close :: "string \<Rightarrow> bank_account \<Rightarrow> bank_account result" where
  "ba_close reason a =
     (case require_open a of Inl e \<Rightarrow> Inl e | Inr _ \<Rightarrow>
      if \<not> money_is_zero (ba_balance a) then Inl InvalidStateError else ba_raise (AccountClosed reason) a)"

fun apply_all :: "domain_event list \<Rightarrow> bank_account \<Rightarrow> bank_account result" where
  "apply_all [] a = Inr a"
| "apply_all (event # events) a =
     (case ba_apply event a of Inl e \<Rightarrow> Inl e | Inr a' \<Rightarrow> apply_all events a')"

definition ba_replay :: "string \<Rightarrow> domain_event list \<Rightarrow> account_snapshot option \<Rightarrow> bank_account result" where
  "ba_replay account_id events snapshot =
     (case snapshot of
        None \<Rightarrow> apply_all events (ba_blank account_id)
      | Some sn \<Rightarrow>
          if as_account_id sn \<noteq> account_id then Inl ValidationError
          else apply_all events ((ba_blank account_id)\<lparr>ba_owner := as_owner sn, ba_balance := as_balance sn,
                 ba_closed := as_closed sn, ba_version := as_version sn\<rparr>))"

definition mark_committed :: "bank_account \<Rightarrow> bank_account" where
  "mark_committed a = a\<lparr>ba_pending := []\<rparr>"

definition ba_snapshot :: "bank_account \<Rightarrow> account_snapshot" where
  "ba_snapshot a = \<lparr>as_account_id = ba_account_id a, as_version = ba_version a, as_owner = ba_owner a,
     as_balance = ba_balance a, as_closed = ba_closed a\<rparr>"

section \<open>Store\<close>

record event_store =
  es_streams :: "(string, stored_event list) dict"
  es_log :: "stored_event list"
  es_snapshots :: "(string, account_snapshot) dict"

definition event_store_new :: event_store where
  "event_store_new = \<lparr>es_streams = [], es_log = [], es_snapshots = []\<rparr>"

text \<open>\<^verbatim>\<open>self._streams.get(stream_id, [])\<close>, and the slice \<^verbatim>\<open>xs[i:]\<close>, which counts from the end below zero.\<close>

definition es_stream :: "event_store \<Rightarrow> string \<Rightarrow> stored_event list" where
  "es_stream s stream_id = (case dict_get (es_streams s) stream_id of None \<Rightarrow> [] | Some xs \<Rightarrow> xs)"

definition py_from :: "int \<Rightarrow> 'a list \<Rightarrow> 'a list" where
  "py_from i xs = drop (nat (if i < 0 then max 0 (int (length xs) + i) else i)) xs"

fun append_loop ::
  "string \<Rightarrow> int \<Rightarrow> time \<Rightarrow> int \<Rightarrow> domain_event list \<Rightarrow> event_store \<Rightarrow> stored_event list \<times> event_store" where
  "append_loop stream_id expected now offset [] s = ([], s)"
| "append_loop stream_id expected now offset (event # events) s =
     (let r = \<lparr>se_stream = stream_id, se_version = expected + offset, se_position = int (length (es_log s)) + 1,
                se_timestamp = now, se_event = event\<rparr>;
          s1 = s\<lparr>es_streams := dict_set stream_id (es_stream s stream_id @ [r]) (es_streams s),
                 es_log := es_log s @ [r]\<rparr>
      in case append_loop stream_id expected now (offset + 1) events s1 of (rs, s2) \<Rightarrow> (r # rs, s2))"

definition es_append ::
  "string \<Rightarrow> domain_event list \<Rightarrow> int \<Rightarrow> time \<Rightarrow> event_store \<Rightarrow> stored_event list result \<times> event_store" where
  "es_append stream_id events expected now s =
     (if events = [] then (Inl ValidationError, s)
      else if expected < 0 then (Inl ValidationError, s)
      else let s1 = s\<lparr>es_streams := dict_set stream_id (es_stream s stream_id) (es_streams s)\<rparr>
           in if int (length (es_stream s1 stream_id)) \<noteq> expected then (Inl ConflictError, s1)
              else case append_loop stream_id expected now 1 events s1 of (rs, s2) \<Rightarrow> (Inr rs, s2))"

definition es_load :: "string \<Rightarrow> int \<Rightarrow> event_store \<Rightarrow> stored_event list" where
  "es_load stream_id after_version s = py_from after_version (es_stream s stream_id)"

definition es_version :: "string \<Rightarrow> event_store \<Rightarrow> int" where
  "es_version stream_id s = int (length (es_stream s stream_id))"

definition es_read_all :: "int \<Rightarrow> event_store \<Rightarrow> stored_event list" where
  "es_read_all after_position s = py_from after_position (es_log s)"

definition es_save_snapshot :: "account_snapshot \<Rightarrow> event_store \<Rightarrow> event_store" where
  "es_save_snapshot sn s =
     (if (case dict_get (es_snapshots s) (as_account_id sn) of None \<Rightarrow> True
          | Some current \<Rightarrow> as_version current < as_version sn)
      then s\<lparr>es_snapshots := dict_set (as_account_id sn) sn (es_snapshots s)\<rparr> else s)"

definition es_snapshot :: "string \<Rightarrow> event_store \<Rightarrow> account_snapshot option" where
  "es_snapshot stream_id s = dict_get (es_snapshots s) stream_id"

section \<open>Repository\<close>

record repository =
  rp_snapshot_every :: int

definition repository_new :: "int \<Rightarrow> repository result" where
  "repository_new snapshot_every =
     (if snapshot_every \<le> 0 then Inl ValidationError else Inr \<lparr>rp_snapshot_every = snapshot_every\<rparr>)"

definition repo_load :: "string \<Rightarrow> event_store \<Rightarrow> bank_account result" where
  "repo_load account_id s =
     (let snapshot = es_snapshot account_id s;
          after = (case snapshot of None \<Rightarrow> 0 | Some sn \<Rightarrow> as_version sn);
          events = es_load account_id after s
      in if snapshot = None \<and> events = [] then Inl NotFoundError
         else ba_replay account_id (map se_event events) snapshot)"

text \<open>The two halves of \<^verbatim>\<open>save\<close>: up to \<^verbatim>\<open>mark_committed\<close>, and the snapshot after it.\<close>

definition save_append ::
  "bank_account \<Rightarrow> time \<Rightarrow> event_store \<Rightarrow> stored_event list result \<times> bank_account \<times> event_store" where
  "save_append a now s =
     (case es_append (ba_account_id a) (ba_pending a) (ba_version a - int (length (ba_pending a))) now s of
        (Inl e, s') \<Rightarrow> (Inl e, a, s')
      | (Inr stored, s') \<Rightarrow> (Inr stored, mark_committed a, s'))"

definition save_offer_snapshot :: "repository \<Rightarrow> bank_account \<Rightarrow> event_store \<Rightarrow> event_store" where
  "save_offer_snapshot r a s =
     (if rp_snapshot_every r \<le> ba_version a - (case es_snapshot (ba_account_id a) s of None \<Rightarrow> 0 | Some sn \<Rightarrow> as_version sn)
      then es_save_snapshot (ba_snapshot a) s else s)"

definition repo_save ::
  "repository \<Rightarrow> bank_account \<Rightarrow> time \<Rightarrow> event_store \<Rightarrow> stored_event list result \<times> bank_account \<times> event_store" where
  "repo_save r a now s =
     (if ba_pending a = [] then (Inr [], a, s)
      else case save_append a now s of
             (Inl e, a', s') \<Rightarrow> (Inl e, a', s')
           | (Inr stored, a', s') \<Rightarrow> (Inr stored, a', save_offer_snapshot r a' s'))"

section \<open>Read models\<close>

text \<open>
  \<^verbatim>\<open>Projection\<close> with its checkpoint; what the subclass keeps is \<open>'r\<close>, its \<^verbatim>\<open>_handle\<close> an argument and
  its empty state, which \<^verbatim>\<open>_reset\<close> restores, another.
\<close>

record 'r projection =
  pj_checkpoint :: int
  pj_model :: 'r

type_synonym 'r handler = "stored_event \<Rightarrow> 'r \<Rightarrow> 'r result"

definition pj_new :: "'r \<Rightarrow> 'r projection" where
  "pj_new start = \<lparr>pj_checkpoint = 0, pj_model = start\<rparr>"

definition pj_apply :: "'r handler \<Rightarrow> stored_event \<Rightarrow> 'r projection \<Rightarrow> bool result \<times> 'r projection" where
  "pj_apply handle stored p =
     (if se_position stored \<le> pj_checkpoint p then (Inr False, p)
      else case handle stored (pj_model p) of
             Inl e \<Rightarrow> (Inl e, p)
           | Inr m \<Rightarrow> (Inr True, p\<lparr>pj_model := m, pj_checkpoint := se_position stored\<rparr>))"

fun pj_consume :: "'r handler \<Rightarrow> stored_event list \<Rightarrow> int \<Rightarrow> 'r projection \<Rightarrow> int result \<times> 'r projection" where
  "pj_consume handle [] acc p = (Inr acc, p)"
| "pj_consume handle (stored # events) acc p =
     (case pj_apply handle stored p of
        (Inl e, p') \<Rightarrow> (Inl e, p')
      | (Inr applied, p') \<Rightarrow> pj_consume handle events (acc + (if applied then 1 else 0)) p')"

definition pj_catch_up :: "'r handler \<Rightarrow> event_store \<Rightarrow> 'r projection \<Rightarrow> int result \<times> 'r projection" where
  "pj_catch_up handle s p = pj_consume handle (es_read_all (pj_checkpoint p) s) 0 p"

definition pj_rebuild :: "'r handler \<Rightarrow> 'r \<Rightarrow> event_store \<Rightarrow> 'r projection \<Rightarrow> int result \<times> 'r projection" where
  "pj_rebuild handle start s p = pj_catch_up handle s (p\<lparr>pj_model := start, pj_checkpoint := 0\<rparr>)"

record account_summary =
  sm_owner :: string
  sm_balance :: money
  sm_deposits :: int
  sm_withdrawals :: int
  sm_closed :: bool

definition summary_handle :: "(string, account_summary) dict handler" where
  "summary_handle stored rows =
     (case se_event stored of
        AccountOpened owner \<Rightarrow>
          Inr (dict_set (se_stream stored) \<lparr>sm_owner = owner, sm_balance = Money 0 ''USD'', sm_deposits = 0,
                 sm_withdrawals = 0, sm_closed = False\<rparr> rows)
      | MoneyDeposited amount \<Rightarrow>
          (case dict_get rows (se_stream stored) of None \<Rightarrow> Inl KeyError | Some row \<Rightarrow>
           case money_add (sm_balance row) amount of Inl e \<Rightarrow> Inl e | Inr m \<Rightarrow>
             Inr (dict_set (se_stream stored) (row\<lparr>sm_balance := m, sm_deposits := sm_deposits row + 1\<rparr>) rows))
      | MoneyWithdrawn amount \<Rightarrow>
          (case dict_get rows (se_stream stored) of None \<Rightarrow> Inl KeyError | Some row \<Rightarrow>
           case money_sub (sm_balance row) amount of Inl e \<Rightarrow> Inl e | Inr m \<Rightarrow>
             Inr (dict_set (se_stream stored) (row\<lparr>sm_balance := m, sm_withdrawals := sm_withdrawals row + 1\<rparr>) rows))
      | AccountClosed _ \<Rightarrow>
          (case dict_get rows (se_stream stored) of None \<Rightarrow> Inl KeyError | Some row \<Rightarrow>
             Inr (dict_set (se_stream stored) (row\<lparr>sm_closed := True\<rparr>) rows)))"

definition top_balances :: "int \<Rightarrow> (string, account_summary) dict \<Rightarrow> (string \<times> money) list" where
  "top_balances limit rows =
     (let ranked = sort_key fst (map (\<lambda>(k, row). ((- cents (sm_balance row), k), row)) rows)
      in map (\<lambda>((_, k), row). (k, sm_balance row))
           (if limit < 0 then take (nat (int (length ranked) + limit)) ranked else take (nat limit) ranked))"

datatype movement_kind = Deposit_Kind | Withdrawal_Kind

definition movement_handle :: "money \<Rightarrow> (string \<times> movement_kind \<times> money) list handler" where
  "movement_handle threshold stored movements =
     (case se_event stored of
        MoneyDeposited amount \<Rightarrow>
          Inr (if threshold \<le> amount then movements @ [(se_stream stored, Deposit_Kind, amount)] else movements)
      | MoneyWithdrawn amount \<Rightarrow>
          Inr (if threshold \<le> amount then movements @ [(se_stream stored, Withdrawal_Kind, amount)] else movements)
      | _ \<Rightarrow> Inr movements)"

section \<open>Clients\<close>

text \<open>
  The store with the aggregates that clients hold, each in memory, several of them perhaps of
  one account. A save is \<open>Ev_Append\<close> and then \<open>Ev_Offer\<close>, which needs no event pending.
\<close>

record es_sys =
  sy_store :: event_store
  sy_held :: "bank_account list"

datatype es_event =
    Ev_Open string string | Ev_Load string
  | Ev_Deposit nat money | Ev_Withdraw nat money | Ev_Close nat string
  | Ev_Append nat time | Ev_Offer nat repository

definition hold :: "bank_account result \<Rightarrow> es_sys \<Rightarrow> es_sys" where
  "hold r y = (case r of Inl _ \<Rightarrow> y | Inr a \<Rightarrow> y\<lparr>sy_held := sy_held y @ [a]\<rparr>)"

definition command :: "nat \<Rightarrow> (bank_account \<Rightarrow> bank_account result) \<Rightarrow> es_sys \<Rightarrow> es_sys" where
  "command i f y =
     (if i < length (sy_held y)
      then case f (sy_held y ! i) of Inl _ \<Rightarrow> y | Inr a \<Rightarrow> y\<lparr>sy_held := (sy_held y)[i := a]\<rparr>
      else y)"

definition es_do :: "es_event \<Rightarrow> es_sys \<Rightarrow> es_sys" where
  "es_do ev y =
     (case ev of
        Ev_Open account_id owner \<Rightarrow> hold (ba_open account_id owner) y
      | Ev_Load account_id \<Rightarrow> hold (repo_load account_id (sy_store y)) y
      | Ev_Deposit i amount \<Rightarrow> command i (ba_deposit amount) y
      | Ev_Withdraw i amount \<Rightarrow> command i (ba_withdraw amount) y
      | Ev_Close i reason \<Rightarrow> command i (ba_close reason) y
      | Ev_Append i now \<Rightarrow>
          if i < length (sy_held y) \<and> ba_pending (sy_held y ! i) \<noteq> []
          then case save_append (sy_held y ! i) now (sy_store y) of
                 (_, a, s) \<Rightarrow> \<lparr>sy_store = s, sy_held = (sy_held y)[i := a]\<rparr>
          else y
      | Ev_Offer i r \<Rightarrow>
          if i < length (sy_held y) \<and> ba_pending (sy_held y ! i) = []
          then y\<lparr>sy_store := save_offer_snapshot r (sy_held y ! i) (sy_store y)\<rparr>
          else y)"

definition es_run :: "es_event list \<Rightarrow> es_sys \<Rightarrow> es_sys" where
  "es_run evs y = fold es_do evs y"

definition es_start :: es_sys where
  "es_start = \<lparr>sy_store = event_store_new, sy_held = []\<rparr>"

section \<open>Legal histories\<close>

definition legal_next :: "bank_account \<Rightarrow> domain_event \<Rightarrow> bool" where
  "legal_next a event \<longleftrightarrow>
     (case event of
        AccountOpened owner \<Rightarrow> ba_version a = 0 \<and> owner \<noteq> []
      | MoneyDeposited m \<Rightarrow>
          ba_version a \<noteq> 0 \<and> \<not> ba_closed a \<and> 0 < cents m \<and> currency m = currency (ba_balance a)
      | MoneyWithdrawn m \<Rightarrow>
          ba_version a \<noteq> 0 \<and> \<not> ba_closed a \<and> 0 < cents m \<and> currency m = currency (ba_balance a) \<and>
          cents m \<le> cents (ba_balance a)
      | AccountClosed _ \<Rightarrow> ba_version a \<noteq> 0 \<and> \<not> ba_closed a \<and> cents (ba_balance a) = 0)"

fun legal_history :: "bank_account \<Rightarrow> domain_event list \<Rightarrow> bool" where
  "legal_history a [] \<longleftrightarrow> True"
| "legal_history a (event # events) \<longleftrightarrow>
     legal_next a event \<and> (case ba_apply event a of Inl _ \<Rightarrow> False | Inr a' \<Rightarrow> legal_history a' events)"

definition net_of :: "domain_event list \<Rightarrow> int" where
  "net_of events = sum_list (map (\<lambda>e. case e of MoneyDeposited m \<Rightarrow> cents m | MoneyWithdrawn m \<Rightarrow> - cents m | _ \<Rightarrow> 0) events)"

lemma net_of_simps [simp]:
  "net_of [] = 0" "net_of (AccountOpened x # es) = net_of es" "net_of (AccountClosed y # es) = net_of es"
  "net_of (MoneyDeposited m # es) = cents m + net_of es" "net_of (MoneyWithdrawn m # es) = net_of es - cents m"
  by (simp_all add: net_of_def)

lemma net_of_append: "net_of (xs @ ys) = net_of xs + net_of ys"
  by (simp add: net_of_def)

lemma ba_blank_fields [simp]:
  "ba_account_id (ba_blank x) = x" "ba_version (ba_blank x) = 0" "ba_closed (ba_blank x) = False"
  "ba_balance (ba_blank x) = Money 0 ''USD''" "ba_pending (ba_blank x) = []"
  by (simp_all add: ba_blank_def)

lemmas money_ops = money_add_def money_sub_def money_check_def

lemma ba_apply_fields:
  assumes "ba_apply e a = Inr b"
  shows "ba_account_id b = ba_account_id a" "ba_version b = ba_version a + 1" "ba_pending b = ba_pending a"
    "currency (ba_balance b) = currency (ba_balance a)" "cents (ba_balance b) = cents (ba_balance a) + net_of [e]"
    "ba_closed b \<longleftrightarrow> ba_closed a \<or> (\<exists>r. e = AccountClosed r)"
  using assms by (auto simp: ba_apply_def money_ops split: domain_event.splits if_splits)

lemma ba_apply_pending:
  "ba_apply e (a\<lparr>ba_pending := p\<rparr>) = map_sum id (\<lambda>b. b\<lparr>ba_pending := p\<rparr>) (ba_apply e a)"
  by (auto simp: ba_apply_def money_ops split: domain_event.splits)

lemma legal_next_applies: "legal_next a e \<Longrightarrow> \<exists>b. ba_apply e a = Inr b"
  by (auto simp: ba_apply_def legal_next_def money_ops split: domain_event.splits)

lemma legal_next_pending [simp]: "legal_next (a\<lparr>ba_pending := p\<rparr>) e = legal_next a e"
  by (simp add: legal_next_def split: domain_event.splits)

lemma apply_all_append:
  "apply_all (xs @ ys) a = (case apply_all xs a of Inl e \<Rightarrow> Inl e | Inr b \<Rightarrow> apply_all ys b)"
  by (induction xs arbitrary: a) (auto split: sum.splits)

lemma apply_all_fields:
  "apply_all es a = Inr b \<Longrightarrow> ba_account_id b = ba_account_id a \<and> ba_version b = ba_version a + int (length es) \<and>
     ba_pending b = ba_pending a \<and> cents (ba_balance b) = cents (ba_balance a) + net_of es \<and>
     (ba_closed b \<longleftrightarrow> ba_closed a \<or> (\<exists>r. AccountClosed r \<in> set es))"
proof (induction es arbitrary: a)
  case (Cons e es)
  obtain a' where a': "ba_apply e a = Inr a'" "apply_all es a' = Inr b"
    using Cons.prems by (cases "ba_apply e a") auto
  have "net_of (e # es) = net_of [e] + net_of es" by (simp add: net_of_def)
  then show ?case using Cons.IH [OF a'(2)] ba_apply_fields [OF a'(1)] by auto
qed simp

lemma legal_history_append:
  "legal_history a (xs @ ys) \<longleftrightarrow>
     legal_history a xs \<and> (case apply_all xs a of Inl _ \<Rightarrow> False | Inr b \<Rightarrow> legal_history b ys)"
  by (induction xs arbitrary: a) (auto split: sum.splits)

lemma legal_history_applies: "legal_history a es \<Longrightarrow> \<exists>b. apply_all es a = Inr b"
  by (induction es arbitrary: a) (auto split: sum.splits)

lemma legal_history_take: "legal_history a es \<Longrightarrow> legal_history a (take n es)"
  using legal_history_append [of a "take n es" "drop n es"] by simp

lemma legal_history_balance:
  "legal_history a es \<Longrightarrow> 0 \<le> cents (ba_balance a) \<Longrightarrow> 0 \<le> cents (ba_balance a) + net_of es"
proof (induction es arbitrary: a)
  case (Cons e es)
  then obtain b where b: "ba_apply e a = Inr b" "legal_history b es" "legal_next a e"
    by (auto split: sum.splits)
  then have "0 \<le> cents (ba_balance b)"
    using ba_apply_fields(5) [OF b(1)] Cons.prems(2) by (auto simp: legal_next_def split: domain_event.splits)
  moreover have "net_of (e # es) = net_of [e] + net_of es" by (simp add: net_of_def)
  ultimately show ?case using Cons.IH [OF b(2)] ba_apply_fields(5) [OF b(1)] by simp
qed simp

text \<open>One opening event, at the head; a closing event only at the end and at balance zero.\<close>

lemma legal_history_no_reopen:
  "legal_history a es \<Longrightarrow> 0 < ba_version a \<Longrightarrow> AccountOpened x \<notin> set es"
proof (induction es arbitrary: a)
  case (Cons e es)
  then obtain b where "ba_apply e a = Inr b" "legal_history b es" "legal_next a e"
    by (auto split: sum.splits)
  then show ?case using Cons.IH [of b] ba_apply_fields(2) [of e a b] Cons.prems(2) by (auto simp: legal_next_def)
qed simp

lemma legal_history_head:
  assumes "legal_history (ba_blank sid) (e # es)"
  shows "(\<exists>x. x \<noteq> [] \<and> e = AccountOpened x) \<and> (\<forall>x. AccountOpened x \<notin> set es)"
proof -
  obtain b where b: "ba_apply e (ba_blank sid) = Inr b" "legal_history b es" "legal_next (ba_blank sid) e"
    using assms by (auto split: sum.splits)
  then show ?thesis using legal_history_no_reopen [OF b(2)] ba_apply_fields(2) [OF b(1)]
    by (auto simp: legal_next_def split: domain_event.splits)
qed

lemma legal_history_closed: "legal_history a es \<Longrightarrow> ba_closed a \<Longrightarrow> 0 < ba_version a \<Longrightarrow> es = []"
  by (cases es) (auto simp: legal_next_def split: domain_event.splits)

section \<open>The invariant of the store\<close>

definition events_of :: "event_store \<Rightarrow> string \<Rightarrow> domain_event list" where
  "events_of s sid = map se_event (es_stream s sid)"

definition ba_of_snapshot :: "account_snapshot \<Rightarrow> bank_account" where
  "ba_of_snapshot sn = \<lparr>ba_account_id = as_account_id sn, ba_owner = as_owner sn, ba_balance = as_balance sn,
     ba_closed = as_closed sn, ba_version = as_version sn, ba_pending = []\<rparr>"

definition snapshot_ok :: "event_store \<Rightarrow> string \<Rightarrow> account_snapshot \<Rightarrow> bool" where
  "snapshot_ok s sid sn \<longleftrightarrow> as_account_id sn = sid \<and> 1 \<le> as_version sn \<and>
     as_version sn \<le> int (length (events_of s sid)) \<and>
     apply_all (take (nat (as_version sn)) (events_of s sid)) (ba_blank sid) = Inr (ba_of_snapshot sn)"

definition positions_ok :: "stored_event list \<Rightarrow> bool" where
  "positions_ok xs \<longleftrightarrow> (\<forall>i < length xs. se_position (xs ! i) = int i + 1)"

definition versions_ok :: "stored_event list \<Rightarrow> bool" where
  "versions_ok xs \<longleftrightarrow> (\<forall>i < length xs. se_version (xs ! i) = int i + 1)"

abbreviation of_stream :: "string \<Rightarrow> stored_event list \<Rightarrow> stored_event list" where
  "of_stream sid \<equiv> filter (\<lambda>r. se_stream r = sid)"

definition store_ok :: "event_store \<Rightarrow> bool" where
  "store_ok s \<longleftrightarrow> positions_ok (es_log s) \<and>
     (\<forall>sid. es_stream s sid = of_stream sid (es_log s) \<and> versions_ok (es_stream s sid) \<and>
        legal_history (ba_blank sid) (events_of s sid)) \<and>
     (\<forall>sid sn. dict_get (es_snapshots s) sid = Some sn \<longrightarrow> snapshot_ok s sid sn)"

definition saved_at :: "bank_account \<Rightarrow> int" where
  "saved_at a = ba_version a - int (length (ba_pending a))"

text \<open>An aggregate in memory: a prefix of its stream, then its pending events.\<close>

definition account_ok :: "event_store \<Rightarrow> bank_account \<Rightarrow> bool" where
  "account_ok s a \<longleftrightarrow> 0 \<le> saved_at a \<and> saved_at a \<le> int (length (events_of s (ba_account_id a))) \<and>
     0 < ba_version a \<and>
     (let h = take (nat (saved_at a)) (events_of s (ba_account_id a)) @ ba_pending a
      in legal_history (ba_blank (ba_account_id a)) h \<and>
         apply_all h (ba_blank (ba_account_id a)) = Inr (a\<lparr>ba_pending := []\<rparr>))"

definition sys_ok :: "es_sys \<Rightarrow> bool" where
  "sys_ok y \<longleftrightarrow> store_ok (sy_store y) \<and> (\<forall>a \<in> set (sy_held y). account_ok (sy_store y) a)"

definition es_grown :: "event_store \<Rightarrow> event_store \<Rightarrow> bool" where
  "es_grown s s' \<longleftrightarrow> (\<exists>xs. es_log s' = es_log s @ xs) \<and> (\<forall>sid. \<exists>ys. es_stream s' sid = es_stream s sid @ ys)"

lemma es_grown_refl [simp]: "es_grown s s"
  by (simp add: es_grown_def)

lemma es_grown_trans: "es_grown s s' \<Longrightarrow> es_grown s' s'' \<Longrightarrow> es_grown s s''"
  unfolding es_grown_def by (metis append_assoc)

lemma es_grown_events: "es_grown s s' \<Longrightarrow> \<exists>ys. events_of s' sid = events_of s sid @ ys"
  unfolding es_grown_def events_of_def by (metis map_append)

lemma account_ok_grown: "account_ok s a \<Longrightarrow> es_grown s s' \<Longrightarrow> account_ok s' a"
  using es_grown_events [of s s' "ba_account_id a"] by (auto simp: account_ok_def Let_def)

lemma snapshot_ok_grown: "snapshot_ok s sid sn \<Longrightarrow> es_grown s s' \<Longrightarrow> snapshot_ok s' sid sn"
  using es_grown_events [of s s' sid] by (auto simp: snapshot_ok_def)

section \<open>Commands keep an aggregate a legal history\<close>

lemma account_ok_raise:
  assumes "account_ok s a" "legal_next a e" "ba_raise e a = Inr b"
  shows "account_ok s b"
proof -
  obtain c where c: "ba_apply e a = Inr c" "b = c\<lparr>ba_pending := ba_pending a @ [e]\<rparr>"
    using assms(3) by (auto simp: ba_raise_def split: sum.splits dest: ba_apply_fields)
  note f = ba_apply_fields [OF c(1)]
  let ?h = "take (nat (saved_at a)) (events_of s (ba_account_id a)) @ ba_pending a" and ?z = "ba_blank (ba_account_id a)"
  have h: "legal_history ?z ?h" "apply_all ?h ?z = Inr (a\<lparr>ba_pending := []\<rparr>)"
    using assms(1) by (simp_all add: account_ok_def Let_def)
  have "apply_all [e] (a\<lparr>ba_pending := []\<rparr>) = Inr (b\<lparr>ba_pending := []\<rparr>)"
    "legal_history (a\<lparr>ba_pending := []\<rparr>) [e]"
    using assms(2) c by (simp_all add: ba_apply_pending)
  then have "legal_history ?z (?h @ [e])" "apply_all (?h @ [e]) ?z = Inr (b\<lparr>ba_pending := []\<rparr>)"
    unfolding legal_history_append [of ?z ?h] apply_all_append [of ?h] h(2) using h(1) by simp_all
  moreover have "saved_at b = saved_at a" "ba_account_id b = ba_account_id a" "0 < ba_version b"
    using f c(2) assms(1) by (auto simp: saved_at_def account_ok_def)
  ultimately show ?thesis using assms(1) c(2) by (simp add: account_ok_def Let_def)
qed

lemma ba_open_ok: "ba_open sid owner = Inr a \<Longrightarrow> account_ok s a"
  by (auto simp: ba_open_def ba_raise_def ba_apply_def account_ok_def Let_def saved_at_def legal_next_def ba_blank_def
      split: if_splits)

lemma ba_deposit_raises: "ba_deposit m a = Inr b \<Longrightarrow> ba_raise (MoneyDeposited m) a = Inr b \<and> legal_next a (MoneyDeposited m)"
  by (auto simp: ba_deposit_def require_open_def require_positive_def legal_next_def ba_raise_def ba_apply_def money_ops
      split: sum.splits if_splits)

lemma ba_withdraw_raises:
  "ba_withdraw m a = Inr b \<Longrightarrow> ba_raise (MoneyWithdrawn m) a = Inr b \<and> legal_next a (MoneyWithdrawn m)"
  by (auto simp: ba_withdraw_def require_open_def require_positive_def legal_next_def ba_raise_def ba_apply_def money_ops
      less_money_def split: sum.splits if_splits)

lemma ba_close_raises: "ba_close r a = Inr b \<Longrightarrow> ba_raise (AccountClosed r) a = Inr b \<and> legal_next a (AccountClosed r)"
  by (auto simp: ba_close_def require_open_def legal_next_def ba_raise_def ba_apply_def money_is_zero_def
      split: sum.splits if_splits)

lemma commands_ok:
  assumes "account_ok s a"
  shows "ba_deposit m a = Inr b \<Longrightarrow> account_ok s b" "ba_withdraw m a = Inr b \<Longrightarrow> account_ok s b"
    "ba_close r a = Inr b \<Longrightarrow> account_ok s b"
  using account_ok_raise [OF assms] ba_deposit_raises ba_withdraw_raises ba_close_raises by blast+

section \<open>Store and repository\<close>

lemma append_loop_result:
  "append_loop sid expected now off es s = (rs, s') \<Longrightarrow>
     es_log s' = es_log s @ rs \<and> (\<forall>x. es_stream s' x = es_stream s x @ (if x = sid then rs else [])) \<and>
     es_snapshots s' = es_snapshots s \<and> map se_event rs = es \<and>
     (\<forall>i < length rs. se_stream (rs ! i) = sid \<and> se_version (rs ! i) = expected + off + int i \<and>
        se_position (rs ! i) = int (length (es_log s)) + 1 + int i)"
proof (induction es arbitrary: off s rs s')
  case (Cons e es)
  define r where "r = \<lparr>se_stream = sid, se_version = expected + off, se_position = int (length (es_log s)) + 1,
    se_timestamp = now, se_event = e\<rparr>"
  define s1 where "s1 = s\<lparr>es_streams := dict_set sid (es_stream s sid @ [r]) (es_streams s), es_log := es_log s @ [r]\<rparr>"
  obtain rs' where rs': "append_loop sid expected now (off + 1) es s1 = (rs', s')" "rs = r # rs'"
    using Cons.prems by (auto simp: Let_def r_def s1_def split: prod.splits)
  have "es_stream s1 x = es_stream s x @ (if x = sid then [r] else [])" for x
    by (auto simp: s1_def es_stream_def)
  then show ?case
    using Cons.IH [OF rs'(1)] rs'(2) by (auto simp: s1_def r_def nth_Cons split: nat.splits)
qed simp

lemma es_append_cases:
  assumes "es_append sid es expected now s = (r, s')"
  obtains (rejected) e where "r = Inl e" "es_log s' = es_log s" "es_stream s' = es_stream s" "es_snapshots s' = es_snapshots s"
  | (stored) rs where "r = Inr rs" "expected = int (length (es_stream s sid))" "es_log s' = es_log s @ rs"
      "\<And>x. es_stream s' x = es_stream s x @ (if x = sid then rs else [])" "es_snapshots s' = es_snapshots s"
      "map se_event rs = es"
      "\<And>i. i < length rs \<Longrightarrow> se_stream (rs ! i) = sid \<and> se_version (rs ! i) = expected + 1 + int i \<and>
        se_position (rs ! i) = int (length (es_log s)) + 1 + int i"
proof -
  define s1 where "s1 = s\<lparr>es_streams := dict_set sid (es_stream s sid) (es_streams s)\<rparr>"
  have s1: "es_stream s1 = es_stream s" "es_log s1 = es_log s" "es_snapshots s1 = es_snapshots s"
    by (auto simp: s1_def es_stream_def)
  show thesis
  proof (cases "es = [] \<or> expected < 0 \<or> int (length (es_stream s sid)) \<noteq> expected")
    case True
    then show ?thesis
      using assms s1 by (intro rejected [of "projl r"]) (auto simp: es_append_def Let_def s1_def [symmetric] split: if_splits)
  next
    case False
    then obtain rs where "append_loop sid expected now 1 es s1 = (rs, s')" "r = Inr rs"
      using assms s1 by (auto simp: es_append_def Let_def s1_def [symmetric] split: prod.splits)
    then show ?thesis using append_loop_result [of sid expected now 1 es s1 rs s'] s1 False
      by (intro stored [of rs]) auto
  qed
qed

lemma store_ok_same:
  "store_ok s \<Longrightarrow> es_log s' = es_log s \<Longrightarrow> es_stream s' = es_stream s \<Longrightarrow> es_snapshots s' = es_snapshots s \<Longrightarrow> store_ok s'"
  unfolding store_ok_def events_of_def snapshot_ok_def by metis

lemma store_okD:
  assumes "store_ok s"
  shows "positions_ok (es_log s)" "es_stream s sid = of_stream sid (es_log s)" "versions_ok (es_stream s sid)"
    "legal_history (ba_blank sid) (events_of s sid)"
    "dict_get (es_snapshots s) sid = Some sn \<Longrightarrow> snapshot_ok s sid sn"
  using assms unfolding store_ok_def by blast+

lemma es_grown_same: "es_log s' = es_log s \<Longrightarrow> es_stream s' = es_stream s \<Longrightarrow> es_grown s s'"
  by (simp add: es_grown_def)

lemma store_ok_stored:
  assumes ok: "store_ok s" and "legal_history (ba_blank sid) (events_of s sid @ map se_event rs)"
    and s': "es_log s' = es_log s @ rs" "\<And>x. es_stream s' x = es_stream s x @ (if x = sid then rs else [])"
      "es_snapshots s' = es_snapshots s"
    and rs: "\<And>i. i < length rs \<Longrightarrow> se_stream (rs ! i) = sid \<and> se_version (rs ! i) = int (length (es_stream s sid)) + 1 + int i \<and>
        se_position (rs ! i) = int (length (es_log s)) + 1 + int i"
  shows "store_ok s'" "es_grown s s'"
proof -
  show g: "es_grown s s'" using s' by (auto simp: es_grown_def)
  have "\<forall>r \<in> set rs. se_stream r = sid" using rs by (metis in_set_conv_nth)
  then have "of_stream x rs = (if x = sid then rs else [])" for x by (auto simp: filter_id_conv filter_empty_conv)
  moreover have "positions_ok (es_log s @ rs)"
    using store_okD(1) [OF ok] rs by (auto simp: positions_ok_def nth_append)
  moreover have "versions_ok (es_stream s' x)" for x
    using store_okD(3) [OF ok, of x] rs by (auto simp: versions_ok_def s'(2) nth_append)
  moreover have "legal_history (ba_blank x) (events_of s' x)" for x
    using store_okD(4) [OF ok, of x] assms(2) by (auto simp: events_of_def s'(2))
  moreover have "es_stream s' x = of_stream x (es_log s')" for x
    using calculation(1) store_okD(2) [OF ok, of x] by (simp add: s')
  moreover have "snapshot_ok s' x sn" if "dict_get (es_snapshots s') x = Some sn" for x sn
    using that store_okD(5) [OF ok, of x sn] snapshot_ok_grown [OF _ g] by (simp add: s'(3))
  ultimately show "store_ok s'" unfolding store_ok_def s'(1) by blast
qed

lemma save_append_ok:
  assumes ok: "store_ok s" "account_ok s a" and save: "save_append a now s = (r, b, s')"
  shows "store_ok s'" "es_grown s s'" "account_ok s' b" "ba_account_id b = ba_account_id a"
proof -
  let ?sid = "ba_account_id a"
  obtain r' where r': "es_append ?sid (ba_pending a) (saved_at a) now s = (r', s')"
    using save by (auto simp: save_append_def saved_at_def split: prod.splits sum.splits)
  have "store_ok s' \<and> es_grown s s' \<and> account_ok s' b \<and> ba_account_id b = ba_account_id a"
  proof (cases rule: es_append_cases [OF r'])
    case (1 e)
    then have "b = a" using save r' by (simp add: save_append_def saved_at_def)
    then show ?thesis
      using store_ok_same [OF ok(1) 1(2-4)] es_grown_same [OF 1(2,3)] account_ok_grown [OF ok(2)] by blast
  next
    case (2 rs)
    then have b: "b = mark_committed a" using save r' by (simp add: save_append_def saved_at_def)
    have all: "take (nat (saved_at a)) (events_of s ?sid) = events_of s ?sid"
      using 2(2) by (simp add: events_of_def)
    have "legal_history (ba_blank ?sid) (events_of s ?sid @ map se_event rs)"
      using ok(2) 2(6) all by (simp add: account_ok_def Let_def)
    from store_ok_stored [OF ok(1) this 2(3,4,5)] 2(2,7) have st: "store_ok s'" "es_grown s s'" by simp_all
    have ev: "events_of s' ?sid = events_of s ?sid @ ba_pending a" using 2(4,6) by (simp add: events_of_def)
    have "int (length (events_of s ?sid)) = saved_at a" using 2(2) by (simp add: events_of_def)
    then have "account_ok s' b"
      using ok(2) all ev by (simp add: b account_ok_def Let_def mark_committed_def saved_at_def)
    then show ?thesis using st b by (simp add: mark_committed_def)
  qed
  then show "store_ok s'" "es_grown s s'" "account_ok s' b" "ba_account_id b = ba_account_id a" by simp_all
qed

lemma save_offer_ok:
  assumes ok: "store_ok s" "account_ok s a" and "ba_pending a = []"
  shows "store_ok (save_offer_snapshot r a s)" "es_grown s (save_offer_snapshot r a s)"
proof -
  let ?s' = "save_offer_snapshot r a s"
  have same: "es_log ?s' = es_log s" "es_stream ?s' = es_stream s"
    by (auto simp: save_offer_snapshot_def es_save_snapshot_def es_stream_def)
  then show "es_grown s ?s'" by (rule es_grown_same)
  have "ba_of_snapshot (ba_snapshot a) = a\<lparr>ba_pending := []\<rparr>"
    by (cases a) (simp add: ba_of_snapshot_def ba_snapshot_def)
  then have "snapshot_ok s (ba_account_id a) (ba_snapshot a)"
    using ok(2) assms(3) by (simp add: snapshot_ok_def account_ok_def Let_def saved_at_def ba_snapshot_def)
  then have "snapshot_ok ?s' sid sn" if "dict_get (es_snapshots ?s') sid = Some sn" for sid sn
    using that ok(1) same
    by (auto simp: save_offer_snapshot_def es_save_snapshot_def store_ok_def snapshot_ok_def events_of_def ba_snapshot_def
        split: if_splits)
  then show "store_ok ?s'" using ok(1) unfolding store_ok_def events_of_def same by blast
qed

text \<open>Loading through the snapshot is replaying the whole stream.\<close>

lemma repo_load_replays:
  assumes "store_ok s"
  shows "repo_load sid s =
    (if events_of s sid = [] then Inl NotFoundError else apply_all (events_of s sid) (ba_blank sid))"
proof (cases "es_snapshot sid s")
  case None
  then show ?thesis by (auto simp: repo_load_def Let_def ba_replay_def es_load_def py_from_def events_of_def)
next
  case (Some sn)
  then have sn: "snapshot_ok s sid sn" using assms by (simp add: store_ok_def es_snapshot_def)
  let ?v = "nat (as_version sn)"
  have "map se_event (es_load sid (as_version sn) s) = drop ?v (events_of s sid)"
    using sn by (simp add: es_load_def py_from_def events_of_def drop_map snapshot_ok_def)
  moreover have "(ba_blank sid)\<lparr>ba_owner := as_owner sn, ba_balance := as_balance sn,
      ba_closed := as_closed sn, ba_version := as_version sn\<rparr> = ba_of_snapshot sn"
    using sn by (simp add: ba_blank_def ba_of_snapshot_def snapshot_ok_def)
  ultimately have "repo_load sid s = apply_all (drop ?v (events_of s sid)) (ba_of_snapshot sn)"
    using Some sn by (simp add: repo_load_def Let_def ba_replay_def snapshot_ok_def)
  moreover have "apply_all (take ?v (events_of s sid) @ drop ?v (events_of s sid)) (ba_blank sid) =
      apply_all (drop ?v (events_of s sid)) (ba_of_snapshot sn)"
    using sn by (simp only: apply_all_append snapshot_ok_def sum.case)
  moreover have "events_of s sid \<noteq> []" using sn by (auto simp: snapshot_ok_def)
  ultimately show ?thesis by simp
qed

lemma repo_load_ok:
  assumes "store_ok s" "repo_load sid s = Inr a"
  shows "account_ok s a"
proof -
  have ne: "events_of s sid \<noteq> []" and a: "apply_all (events_of s sid) (ba_blank sid) = Inr a"
    using assms repo_load_replays [OF assms(1), of sid] by (auto split: if_splits)
  have "legal_history (ba_blank sid) (events_of s sid)" using assms(1) by (simp add: store_ok_def)
  moreover have "a\<lparr>ba_pending := []\<rparr> = a" using apply_all_fields [OF a] by (cases a) simp
  ultimately show ?thesis using apply_all_fields [OF a] a ne by (simp add: account_ok_def Let_def saved_at_def)
qed

section \<open>Every run\<close>

lemma sys_ok_held: "sys_ok y \<Longrightarrow> i < length (sy_held y) \<Longrightarrow> account_ok (sy_store y) (sy_held y ! i)"
  by (simp add: sys_ok_def)

lemma sys_ok_hold: "sys_ok y \<Longrightarrow> (\<And>a. r = Inr a \<Longrightarrow> account_ok (sy_store y) a) \<Longrightarrow> sys_ok (hold r y)"
  by (auto simp: hold_def sys_ok_def split: sum.splits)

lemma sys_ok_command:
  assumes "sys_ok y" "\<And>a b. account_ok (sy_store y) a \<Longrightarrow> f a = Inr b \<Longrightarrow> account_ok (sy_store y) b"
  shows "sys_ok (command i f y)"
  using assms(1) assms(2) [OF sys_ok_held [OF assms(1)]]
  by (auto simp: command_def sys_ok_def split: sum.splits dest!: set_update_subset_insert [THEN subsetD])

lemma sys_ok_append:
  assumes "sys_ok y"
  shows "sys_ok (es_do (Ev_Append i now) y)" "es_grown (sy_store y) (sy_store (es_do (Ev_Append i now) y))"
proof -
  have "sys_ok (es_do (Ev_Append i now) y) \<and> es_grown (sy_store y) (sy_store (es_do (Ev_Append i now) y))"
  proof (cases "i < length (sy_held y) \<and> ba_pending (sy_held y ! i) \<noteq> []")
    case True
    obtain r b s' where save: "save_append (sy_held y ! i) now (sy_store y) = (r, b, s')"
      by (cases "save_append (sy_held y ! i) now (sy_store y)") auto
    note ok = save_append_ok [OF _ sys_ok_held [OF assms] save]
    show ?thesis
      using ok assms True save
      by (auto simp: es_do_def sys_ok_def intro: account_ok_grown dest!: set_update_subset_insert [THEN subsetD])
  qed (use assms in \<open>auto simp: es_do_def\<close>)
  then show "sys_ok (es_do (Ev_Append i now) y)" "es_grown (sy_store y) (sy_store (es_do (Ev_Append i now) y))" by simp_all
qed

lemma sys_ok_offer:
  assumes "sys_ok y"
  shows "sys_ok (es_do (Ev_Offer i r) y)" "es_grown (sy_store y) (sy_store (es_do (Ev_Offer i r) y))"
  using assms save_offer_ok [OF _ sys_ok_held [OF assms], of i r]
  by (auto simp: es_do_def sys_ok_def intro: account_ok_grown)

lemma es_do_store:
  "\<not> (\<exists>i now. ev = Ev_Append i now) \<Longrightarrow> \<not> (\<exists>i r. ev = Ev_Offer i r) \<Longrightarrow> sy_store (es_do ev y) = sy_store y"
  by (cases ev) (auto simp: es_do_def hold_def command_def split: sum.splits)

lemma es_do_ok:
  assumes "sys_ok y"
  shows "sys_ok (es_do ev y) \<and> es_grown (sy_store y) (sy_store (es_do ev y))"
proof (cases ev)
  case (Ev_Open sid owner)
  then show ?thesis using sys_ok_hold [OF assms ba_open_ok] by (simp add: es_do_store) (simp add: es_do_def)
next
  case (Ev_Load sid)
  have "store_ok (sy_store y)" using assms by (simp add: sys_ok_def)
  then show ?thesis using Ev_Load sys_ok_hold [OF assms repo_load_ok] by (simp add: es_do_store) (simp add: es_do_def)
qed (use assms sys_ok_append sys_ok_offer in
    \<open>simp_all add: es_do_store, simp_all add: es_do_def sys_ok_command [OF assms commands_ok(1)]
      sys_ok_command [OF assms commands_ok(2)] sys_ok_command [OF assms commands_ok(3)]\<close>)

lemma es_run_ok: "sys_ok y \<Longrightarrow> sys_ok (es_run evs y) \<and> es_grown (sy_store y) (sy_store (es_run evs y))"
  unfolding es_run_def
proof (induction evs arbitrary: y)
  case (Cons ev evs)
  then show ?case using es_do_ok [OF Cons.prems, of ev] es_grown_trans by (auto; blast)
qed simp

lemma es_start_ok: "sys_ok es_start"
  by (simp add: es_start_def sys_ok_def store_ok_def event_store_new_def es_stream_def events_of_def positions_ok_def versions_ok_def)

lemma es_run_append: "es_run (xs @ ys) y = es_run ys (es_run xs y)"
  by (simp add: es_run_def)

section \<open>What the store promises\<close>

text \<open>C21. Load is replay: in every run of any number of clients, whatever snapshots were taken and
  when, loading an account gives what replaying its whole stream from the first event gives, a
  \<^verbatim>\<open>NotFoundError\<close> exactly for an empty stream; the loaded version is the stream's, and every
  aggregate a client holds is its own prefix of the stream with its pending events applied.
\<close>

theorem load_is_replay:
  assumes "y = es_run evs es_start"
  shows "repo_load sid (sy_store y) =
      (if es_stream (sy_store y) sid = [] then Inl NotFoundError
       else ba_replay sid (map se_event (es_stream (sy_store y) sid)) None) \<and>
    (\<forall>a. repo_load sid (sy_store y) = Inr a \<longrightarrow> ba_version a = es_version sid (sy_store y) \<and> ba_pending a = []) \<and>
    (\<forall>a \<in> set (sy_held y). \<exists>n. n \<le> length (es_stream (sy_store y) (ba_account_id a)) \<and>
      ba_replay (ba_account_id a) (map se_event (take n (es_stream (sy_store y) (ba_account_id a))) @ ba_pending a) None
        = Inr (mark_committed a))"
proof (intro conjI allI impI ballI)
  have ok: "sys_ok y" using es_run_ok [OF es_start_ok] assms by simp
  then have st: "store_ok (sy_store y)" by (simp add: sys_ok_def)
  show load: "repo_load sid (sy_store y) =
      (if es_stream (sy_store y) sid = [] then Inl NotFoundError
       else ba_replay sid (map se_event (es_stream (sy_store y) sid)) None)"
    using repo_load_replays [OF st, of sid] by (simp add: events_of_def ba_replay_def)
  show "ba_version a = es_version sid (sy_store y)" "ba_pending a = []" if "repo_load sid (sy_store y) = Inr a" for a
    using that load apply_all_fields [of "map se_event (es_stream (sy_store y) sid)" "ba_blank sid" a]
    by (auto simp: ba_replay_def es_version_def split: if_splits)
  show "\<exists>n. n \<le> length (es_stream (sy_store y) (ba_account_id a)) \<and>
      ba_replay (ba_account_id a) (map se_event (take n (es_stream (sy_store y) (ba_account_id a))) @ ba_pending a) None
        = Inr (mark_committed a)" if "a \<in> set (sy_held y)" for a
    using ok that
    by (intro exI [of _ "nat (saved_at a)"]) (auto simp: sys_ok_def account_ok_def Let_def events_of_def take_map ba_replay_def mark_committed_def)
qed

definition usd :: "int \<Rightarrow> money" where
  "usd c = Money c ''USD''"

text \<open>Two clients of one account: the second save conflicts; a snapshot is taken at version 2.\<close>

definition demo_es_events :: "es_event list" where
  "demo_es_events = [Ev_Open ''acc-1'' ''ann'', Ev_Deposit 0 (usd 100), Ev_Append 0 0, Ev_Offer 0 \<lparr>rp_snapshot_every = 2\<rparr>,
     Ev_Load ''acc-1'', Ev_Load ''acc-1'', Ev_Withdraw 1 (usd 30), Ev_Deposit 2 (usd 5), Ev_Append 1 1, Ev_Append 2 1]"

definition demo_es :: es_sys where
  "demo_es = es_run demo_es_events es_start"

lemma load_is_replay_witness:
  "es_snapshot ''acc-1'' (sy_store demo_es) \<noteq> None \<and>
   (\<exists>a. repo_load ''acc-1'' (sy_store demo_es) = Inr a \<and> ba_balance a = usd 70 \<and> ba_version a = 3 \<and>
     ba_replay ''acc-1'' (map se_event (es_stream (sy_store demo_es) ''acc-1'')) None = Inr a)"
proof -
  have v: "es_snapshot ''acc-1'' (sy_store demo_es) \<noteq> None" "es_stream (sy_store demo_es) ''acc-1'' \<noteq> []"
    "map_sum id (\<lambda>a. (ba_balance a, ba_version a)) (repo_load ''acc-1'' (sy_store demo_es)) = Inr (usd 70, 3)"
    by code_simp+
  obtain a where a: "repo_load ''acc-1'' (sy_store demo_es) = Inr a" "ba_balance a = usd 70" "ba_version a = 3"
    using v(3) by (cases "repo_load ''acc-1'' (sy_store demo_es)") auto
  then show ?thesis
    using load_is_replay [OF demo_es_def, of "''acc-1''"] v by auto
qed

text \<open>C31. No lost update: what a save was answered with stays in the stream for good, at the versions
  right after the one the writer loaded, and at the same positions of the global log; the log
  only grows, its positions are 1, 2, 3 and so on, and each stream is its part of it with
  versions 1, 2, 3 and so on. Every other writer that loaded the same or an earlier version
  gets \<^verbatim>\<open>ConflictError\<close> at any later time, and nothing is stored for it.
\<close>

theorem event_store_no_lost_update:
  assumes "y = es_run evs es_start" and "i < length (sy_held y)" and "a = sy_held y ! i"
    and "save_append a now (sy_store y) = (Inr stored, a', s)" and "ba_pending a \<noteq> []"
    and "s2 = sy_store (es_run evs2 (es_do (Ev_Append i now) y))"
  shows "map se_event stored = ba_pending a \<and>
    (\<forall>j < length stored. es_stream s2 (ba_account_id a) ! (nat (saved_at a) + j) = stored ! j \<and>
       es_log s2 ! (length (es_log (sy_store y)) + j) = stored ! j) \<and>
    (\<forall>k < length (es_log s2). se_position (es_log s2 ! k) = int k + 1) \<and>
    (\<forall>sid. es_stream s2 sid = filter (\<lambda>r. se_stream r = sid) (es_log s2) \<and>
       (\<forall>k < length (es_stream s2 sid). se_version (es_stream s2 sid ! k) = int k + 1)) \<and>
    (\<forall>b now'. ba_account_id b = ba_account_id a \<longrightarrow> ba_pending b \<noteq> [] \<longrightarrow> 0 \<le> saved_at b \<longrightarrow> saved_at b \<le> saved_at a \<longrightarrow>
       fst (save_append b now' s2) = Inl ConflictError \<and> es_log (snd (snd (save_append b now' s2))) = es_log s2)"
proof -
  let ?sid = "ba_account_id a"
  have ok: "sys_ok y" using es_run_ok [OF es_start_ok] assms(1) by simp
  have s: "sy_store (es_do (Ev_Append i now) y) = s" using assms(2-5) by (simp add: es_do_def)
  have ok2: "store_ok s2" "es_grown s s2"
    using es_run_ok [OF sys_ok_append(1) [OF ok], of evs2 i now] s by (simp_all add: assms(6) sys_ok_def)
  obtain r' where r': "es_append ?sid (ba_pending a) (saved_at a) now (sy_store y) = (r', s)"
    using assms(4) by (auto simp: save_append_def saved_at_def split: prod.splits sum.splits)
  then have rs: "r' = Inr stored" using assms(4) by (auto simp: save_append_def saved_at_def split: sum.splits)
  have st: "saved_at a = int (length (es_stream (sy_store y) ?sid))" "es_log s = es_log (sy_store y) @ stored"
    "es_stream s ?sid = es_stream (sy_store y) ?sid @ stored" "map se_event stored = ba_pending a"
    using es_append_cases [OF r'] rs by fastforce+
  obtain xs where log2: "es_log s2 = (es_log (sy_store y) @ stored) @ xs" using ok2(2) st(2) by (auto simp: es_grown_def)
  obtain ys where stream2: "es_stream s2 ?sid = (es_stream (sy_store y) ?sid @ stored) @ ys"
    using ok2(2) st(3) unfolding es_grown_def by metis
  have "0 < length stored" using st(4) assms(5) by (cases stored) auto
  then have late: "saved_at a < int (length (es_stream s2 ?sid))" using st(1) by (simp only: stream2 length_append)
  have "fst (save_append b now' s2) = Inl ConflictError \<and> es_log (snd (snd (save_append b now' s2))) = es_log s2"
    if "ba_account_id b = ?sid" "ba_pending b \<noteq> []" "0 \<le> saved_at b" "saved_at b \<le> saved_at a" for b now'
    using that late by (simp add: save_append_def es_append_def Let_def saved_at_def es_stream_def)
  moreover have "es_stream s2 ?sid ! (nat (saved_at a) + j) = stored ! j" if "j < length stored" for j
    using that st(1) stream2 by (simp add: nth_append)
  moreover have "es_log s2 ! (length (es_log (sy_store y)) + j) = stored ! j" if "j < length stored" for j
    using that log2 by (simp add: nth_append)
  ultimately show ?thesis
    using st(4) store_okD(1-3) [OF ok2(1)] unfolding positions_ok_def versions_ok_def by blast
qed

text \<open>The two clients of the example before either has saved.\<close>

definition demo_race :: es_sys where
  "demo_race = es_run (take 8 demo_es_events) es_start"

lemma event_store_no_lost_update_witness:
  "fst (save_append (sy_held demo_race ! 2) 9 (sy_store (es_run [] (es_do (Ev_Append 1 1) demo_race)))) = Inl ConflictError"
proof -
  let ?a = "sy_held demo_race ! 1" and ?b = "sy_held demo_race ! 2"
  have v: "1 < length (sy_held demo_race)" "ba_pending ?a \<noteq> []" "ba_account_id ?b = ba_account_id ?a" "ba_pending ?b \<noteq> []"
    "0 \<le> saved_at ?b" "saved_at ?b \<le> saved_at ?a"
    "case save_append ?a 1 (sy_store demo_race) of (Inr _, _) \<Rightarrow> True | _ \<Rightarrow> False"
    by code_simp+
  obtain stored a' s where save: "save_append ?a 1 (sy_store demo_race) = (Inr stored, a', s)"
    using v(7) by (auto split: sum.splits prod.splits)
  show ?thesis
    using event_store_no_lost_update [OF demo_race_def v(1) refl save v(2) refl, of "[]"] v by blast
qed

text \<open>The account rules hold in the history itself: in every run each stream is a history in
  which the money withdrawn never exceeds the money deposited before it, the opening event
  comes first and only there, and a closing event comes last and at balance zero.
\<close>

theorem streams_are_legal:
  assumes "y = es_run evs es_start" and "es = map se_event (es_stream (sy_store y) sid)"
  shows "(\<forall>n. 0 \<le> net_of (take n es)) \<and>
    (\<forall>k < length es. (\<exists>x. es ! k = AccountOpened x) \<longleftrightarrow> k = 0) \<and>
    (\<forall>k < length es. (\<exists>r. es ! k = AccountClosed r) \<longrightarrow> k = length es - 1 \<and>
      net_of es = 0)"
proof -
  let ?z = "ba_blank sid"
  have "store_ok (sy_store y)" using es_run_ok [OF es_start_ok] assms(1) by (simp add: sys_ok_def)
  then have legal: "legal_history ?z es" using store_okD(4) by (simp add: assms(2) events_of_def)
  have "0 \<le> net_of (take n es)" for n
    using legal_history_balance [OF legal_history_take [OF legal, of n]] by simp
  moreover have "(\<exists>x. es ! k = AccountOpened x) \<longleftrightarrow> k = 0" if k: "k < length es" for k
  proof (cases es)
    case (Cons e rest)
    then show ?thesis using legal_history_head [of sid e rest] legal k by (cases k) (auto simp: in_set_conv_nth)
  qed (use k in simp)
  moreover have "k = length es - 1 \<and> net_of es = 0" if k: "k < length es" and r: "es ! k = AccountClosed r" for k r
  proof -
    let ?rest = "drop (Suc k) es"
    have split: "es = (take k es @ [AccountClosed r]) @ ?rest" using id_take_nth_drop [OF k] r by simp
    have "legal_history ?z ((take k es @ [AccountClosed r]) @ ?rest)" using legal split by simp
    then obtain b c where b: "apply_all (take k es) ?z = Inr b" "legal_history b [AccountClosed r]"
        "apply_all [AccountClosed r] b = Inr c" "legal_history c ?rest"
      unfolding legal_history_append apply_all_append by (auto split: sum.splits)
    have "ba_closed c" "0 < ba_version c" using apply_all_fields [OF b(1)] apply_all_fields [OF b(3)] by auto
    then have "?rest = []" using legal_history_closed [OF b(4)] by simp
    moreover from this have "es = take k es @ [AccountClosed r]" using split by simp
    then have "net_of es = net_of (take k es) + net_of [AccountClosed r]" by (metis net_of_append)
    moreover have "net_of (take k es) = 0" using b(2) apply_all_fields [OF b(1)] by (auto simp: legal_next_def split: sum.splits)
    ultimately show ?thesis using k by simp
  qed
  ultimately show ?thesis by blast
qed

lemma streams_are_legal_witness:
  "0 \<le> net_of (take 3 (map se_event (es_stream (sy_store demo_es) ''acc-1'')))
   \<and> map se_event (es_stream (sy_store demo_es) ''acc-1'') =
       [AccountOpened ''ann'', MoneyDeposited (usd 100), MoneyWithdrawn (usd 30)]"
proof -
  have "map se_event (es_stream (sy_store demo_es) ''acc-1'') =
      [AccountOpened ''ann'', MoneyDeposited (usd 100), MoneyWithdrawn (usd 30)]" by code_simp
  then show ?thesis using streams_are_legal [OF demo_es_def refl, of "''acc-1''"] by blast
qed

section \<open>Read models\<close>

definition log_legal :: "stored_event list \<Rightarrow> bool" where
  "log_legal xs \<longleftrightarrow> (\<forall>sid. legal_history (ba_blank sid) (map se_event (of_stream sid xs)))"

lemma log_legal_prefix: "log_legal (xs @ ys) \<Longrightarrow> log_legal xs"
  by (simp add: log_legal_def legal_history_append)

text \<open>
  What a read model owes: its handler never fails on the log of legal histories, and its state
  then shows the log consumed so far.
\<close>

locale read_model =
  fixes handle :: "stored_event \<Rightarrow> 'r \<Rightarrow> 'r result" and start :: 'r
    and shows_log :: "stored_event list \<Rightarrow> 'r \<Rightarrow> bool"
  assumes start_shows: "shows_log [] start"
    and handle_shows: "shows_log xs m \<Longrightarrow> log_legal (xs @ [e]) \<Longrightarrow> \<exists>m'. handle e m = Inr m' \<and> shows_log (xs @ [e]) m'"
begin

lemma consume_shows:
  "log_legal (xs @ ys) \<Longrightarrow> positions_ok (xs @ ys) \<Longrightarrow> pj_checkpoint p = int (length xs) \<Longrightarrow> shows_log xs (pj_model p) \<Longrightarrow>
    \<exists>m. pj_consume handle ys acc p =
      (Inr (acc + int (length ys)), \<lparr>pj_checkpoint = int (length (xs @ ys)), pj_model = m\<rparr>) \<and> shows_log (xs @ ys) m"
proof (induction ys arbitrary: xs p acc)
  case Nil
  then show ?case by (intro exI [of _ "pj_model p"]) (cases p, simp)
next
  case (Cons e ys)
  have "(xs @ e # ys) ! length xs = e" "length xs < length (xs @ e # ys)" by simp_all
  then have pos: "se_position e = int (length xs) + 1" using Cons.prems(2) unfolding positions_ok_def by metis
  have "log_legal (xs @ [e])" using log_legal_prefix [of "xs @ [e]" ys] Cons.prems(1) by simp
  then obtain m where m: "handle e (pj_model p) = Inr m" "shows_log (xs @ [e]) m"
    using handle_shows Cons.prems(4) by blast
  define p' where "p' = \<lparr>pj_checkpoint = int (length xs) + 1, pj_model = m\<rparr>"
  have "pj_apply handle e p = (Inr True, p')"
    using m pos Cons.prems(3) by (cases p) (simp add: pj_apply_def p'_def)
  then show ?case
    using Cons.IH [of "xs @ [e]" p' "acc + 1"] Cons.prems(1,2) m(2) by (simp add: p'_def algebra_simps)
qed

lemma catch_up_shows:
  assumes "store_ok s" "es_log s = xs @ ys" "pj_checkpoint p = int (length xs)" "shows_log xs (pj_model p)"
  shows "\<exists>m. pj_catch_up handle s p = (Inr (int (length ys)), \<lparr>pj_checkpoint = int (length (es_log s)), pj_model = m\<rparr>) \<and>
    shows_log (es_log s) m"
proof -
  have "log_legal (xs @ ys)" using store_okD [OF assms(1)] assms(2) by (simp add: log_legal_def events_of_def)
  then show ?thesis
    using consume_shows [of xs ys p 0] store_okD(1) [OF assms(1)] assms(2-4)
    by (simp add: pj_catch_up_def es_read_all_def py_from_def)
qed

end

lemma pj_consume_append:
  "pj_consume handle (xs @ ys) acc p =
     (case pj_consume handle xs acc p of (Inl e, p') \<Rightarrow> (Inl e, p') | (Inr n, p') \<Rightarrow> pj_consume handle ys n p')"
  by (induction xs arbitrary: acc p) (auto split: prod.splits sum.splits)

lemma pj_consume_acc:
  "pj_consume handle xs (acc + k) p =
     (case pj_consume handle xs acc p of (Inl e, p') \<Rightarrow> (Inl e, p') | (Inr n, p') \<Rightarrow> (Inr (n + k), p'))"
proof (induction xs arbitrary: acc p)
  case (Cons x xs)
  show ?case
  proof (cases "pj_apply handle x p")
    case (Pair r p')
    then show ?thesis using Cons.IH [of "acc + (if projr r then 1 else 0)" p'] by (cases r) (auto simp: algebra_simps)
  qed
qed simp

text \<open>A projector that catches up from time to time while the clients go on.\<close>

fun follow :: "'r handler \<Rightarrow> es_event list list \<Rightarrow> es_sys \<Rightarrow> 'r projection \<Rightarrow> es_sys \<times> 'r projection" where
  "follow handle [] y p = (y, p)"
| "follow handle (evs # evss) y p =
     (let y' = es_run evs y in follow handle evss y' (snd (pj_catch_up handle (sy_store y') p)))"

context read_model
begin

text \<open>The state of a follower is that of one pass over the log.\<close>

definition caught_up :: "event_store \<Rightarrow> 'r projection \<Rightarrow> bool" where
  "caught_up s p \<longleftrightarrow> pj_consume handle (es_log s) 0 (pj_new start) = (Inr (int (length (es_log s))), p) \<and>
     pj_checkpoint p = int (length (es_log s)) \<and> shows_log (es_log s) (pj_model p)"

lemma caught_up_start: "es_log s = [] \<Longrightarrow> caught_up s (pj_new start)"
  by (simp add: caught_up_def start_shows) (simp add: pj_new_def start_shows)

lemma caught_up_step:
  assumes "caught_up s p" "es_grown s s'" "store_ok s'"
  shows "caught_up s' (snd (pj_catch_up handle s' p))"
proof -
  obtain ys where ys: "es_log s' = es_log s @ ys" using assms(2) by (auto simp: es_grown_def)
  obtain m where m: "pj_catch_up handle s' p = (Inr (int (length ys)), \<lparr>pj_checkpoint = int (length (es_log s')), pj_model = m\<rparr>)"
      "shows_log (es_log s') m"
    using catch_up_shows [OF assms(3) ys] assms(1) by (auto simp: caught_up_def)
  have "pj_consume handle ys 0 p = (Inr (int (length ys)), \<lparr>pj_checkpoint = int (length (es_log s')), pj_model = m\<rparr>)"
    using m(1) assms(1) ys by (simp add: pj_catch_up_def es_read_all_def py_from_def caught_up_def)
  then have "pj_consume handle ys (int (length (es_log s))) p =
      (Inr (int (length (es_log s'))), \<lparr>pj_checkpoint = int (length (es_log s')), pj_model = m\<rparr>)"
    using pj_consume_acc [of handle ys 0 "int (length (es_log s))" p] ys by simp
  then show ?thesis using assms(1) m ys by (simp add: caught_up_def pj_consume_append)
qed

lemma follow_caught_up:
  "sys_ok y \<Longrightarrow> caught_up (sy_store y) p \<Longrightarrow> follow handle evss y p = (y', p') \<Longrightarrow>
    sys_ok y' \<and> caught_up (sy_store y') p'"
proof (induction evss arbitrary: y p)
  case (Cons evs evss)
  have y1: "sys_ok (es_run evs y)" "es_grown (sy_store y) (sy_store (es_run evs y))" using es_run_ok [OF Cons.prems(1)] by simp_all
  then have "store_ok (sy_store (es_run evs y))" by (simp add: sys_ok_def)
  from Cons.IH [OF y1(1) caught_up_step [OF Cons.prems(2) y1(2) this]] show ?case
    using Cons.prems(3) by (simp add: Let_def)
qed simp

lemma follow_start:
  assumes "follow handle evss es_start (pj_new start) = (y, p)"
  shows "sys_ok y" "caught_up (sy_store y) p"
  using follow_caught_up [OF es_start_ok _ assms] caught_up_start by (auto simp: es_start_def event_store_new_def)

lemma caught_up_rebuild:
  "caught_up s p \<Longrightarrow> pj_rebuild handle start s q = (Inr (int (length (es_log s))), p)"
  by (cases q) (simp add: caught_up_def pj_rebuild_def pj_catch_up_def es_read_all_def py_from_def pj_new_def)

lemma caught_up_redelivery:
  assumes "caught_up s p" "store_ok s" "e \<in> set (es_log s)"
  shows "pj_apply handle e p = (Inr False, p)"
proof -
  obtain k where "k < length (es_log s)" "e = es_log s ! k" using assms(3) by (metis in_set_conv_nth)
  then show ?thesis using store_okD(1) [OF assms(2)] assms(1) by (simp add: positions_ok_def pj_apply_def caught_up_def)
qed

end

subsection \<open>The account summary and the audit of large movements\<close>

definition count_events :: "(domain_event \<Rightarrow> bool) \<Rightarrow> domain_event list \<Rightarrow> int" where
  "count_events P es = int (length (filter P es))"

definition is_deposit :: "domain_event \<Rightarrow> bool" where
  "is_deposit e \<longleftrightarrow> (\<exists>m. e = MoneyDeposited m)"

definition is_withdrawal :: "domain_event \<Rightarrow> bool" where
  "is_withdrawal e \<longleftrightarrow> (\<exists>m. e = MoneyWithdrawn m)"

text \<open>A row of the summary against the aggregate that a replay of the stream gives.\<close>

definition row_of :: "domain_event list \<Rightarrow> bank_account \<Rightarrow> account_summary" where
  "row_of es a = \<lparr>sm_owner = ba_owner a, sm_balance = ba_balance a, sm_deposits = count_events is_deposit es,
     sm_withdrawals = count_events is_withdrawal es, sm_closed = ba_closed a\<rparr>"

definition summary_shows :: "stored_event list \<Rightarrow> (string, account_summary) dict \<Rightarrow> bool" where
  "summary_shows xs rows \<longleftrightarrow> (\<forall>sid. let es = map se_event (of_stream sid xs) in
     dict_get rows sid = (if es = [] then None else Some (row_of es (projr (apply_all es (ba_blank sid))))))"

lemma summary_row_step:
  assumes "legal_history (ba_blank sid) (es @ [e])" and "se_event stored = e" "se_stream stored = sid"
    and "dict_get rows sid = (if es = [] then None else Some (row_of es (projr (apply_all es (ba_blank sid)))))"
  shows "summary_handle stored rows =
    Inr (dict_set sid (row_of (es @ [e]) (projr (apply_all (es @ [e]) (ba_blank sid)))) rows)"
proof -
  obtain a b where a: "apply_all es (ba_blank sid) = Inr a" "legal_next a e" "ba_apply e a = Inr b"
    using assms(1) by (auto simp: legal_history_append split: sum.splits)
  then have b: "apply_all (es @ [e]) (ba_blank sid) = Inr b" by (simp add: apply_all_append)
  have v: "ba_version a = 0 \<longleftrightarrow> es = []" using apply_all_fields [OF a(1)] by simp
  have z: "a = ba_blank sid" if "es = []" using a(1) that by simp
  show ?thesis
    using a(2,3) b v z assms(2-4)
    by (cases e) (auto simp: summary_handle_def a(1) row_of_def ba_apply_def legal_next_def money_ops count_events_def
        is_deposit_def is_withdrawal_def add.commute split: if_splits)
qed

lemma summary_start: "summary_shows [] []"
  by (simp add: summary_shows_def)

lemma summary_step:
  assumes "summary_shows xs rows" "log_legal (xs @ [e])"
  shows "\<exists>rows'. summary_handle e rows = Inr rows' \<and> summary_shows (xs @ [e]) rows'"
proof -
  let ?sid = "se_stream e" and ?es = "map se_event (of_stream (se_stream e) xs)"
  have "legal_history (ba_blank ?sid) (?es @ [se_event e])" using assms(2) unfolding log_legal_def by (auto dest: spec [of _ ?sid])
  from summary_row_step [OF this refl refl] assms(1)
  have "summary_handle e rows =
      Inr (dict_set ?sid (row_of (?es @ [se_event e]) (projr (apply_all (?es @ [se_event e]) (ba_blank ?sid)))) rows)"
    by (simp add: summary_shows_def Let_def)
  then show ?thesis using assms(1) by (auto simp: summary_shows_def Let_def)
qed

definition movements_of :: "money \<Rightarrow> stored_event list \<Rightarrow> (string \<times> movement_kind \<times> money) list" where
  "movements_of threshold xs = concat (map (\<lambda>r. case se_event r of
       MoneyDeposited m \<Rightarrow> if threshold \<le> m then [(se_stream r, Deposit_Kind, m)] else []
     | MoneyWithdrawn m \<Rightarrow> if threshold \<le> m then [(se_stream r, Withdrawal_Kind, m)] else []
     | _ \<Rightarrow> []) xs)"

interpretation summary: read_model summary_handle "[]" summary_shows
  by unfold_locales (simp_all add: summary_start summary_step)

interpretation movements: read_model "movement_handle t" "[]" "\<lambda>xs m. m = movements_of t xs" for t
  by unfold_locales (auto simp: movement_handle_def movements_of_def split: domain_event.splits)

text \<open>The query side shows the command side: a summary projection that catches up from time to time
  while clients go on holds, after its last catch-up, one row for every account that loads,
  with the owner, the balance and the closed flag of the loaded aggregate and the exact numbers of
  its deposits and withdrawals, and no other row. It never raises, a redelivered event
  changes nothing, and throwing it away and rebuilding it from the full log gives the same
  model; the audit model built from the same log lists exactly the large movements in order.
\<close>

theorem projections_show_log:
  assumes "follow summary_handle evss es_start (pj_new []) = (y, p)" and "s = sy_store y"
    and "follow (movement_handle t) evss es_start (pj_new []) = (y', q)"
  shows "(\<forall>sid. case repo_load sid s of
        Inl _ \<Rightarrow> dict_get (pj_model p) sid = None
      | Inr a \<Rightarrow> dict_get (pj_model p) sid = Some \<lparr>sm_owner = ba_owner a, sm_balance = ba_balance a,
          sm_deposits = int (length (filter is_deposit (map se_event (es_stream s sid)))),
          sm_withdrawals = int (length (filter is_withdrawal (map se_event (es_stream s sid)))), sm_closed = ba_closed a\<rparr>) \<and>
    (\<forall>e \<in> set (es_log s). pj_apply summary_handle e p = (Inr False, p)) \<and>
    (\<forall>p0. pj_rebuild summary_handle [] s p0 = (Inr (int (length (es_log s))), p)) \<and>
    pj_model q = movements_of t (es_log (sy_store y')) \<and>
    (\<forall>q0. pj_rebuild (movement_handle t) [] (sy_store y') q0 = (Inr (int (length (es_log (sy_store y')))), q))"
proof -
  note p = summary.follow_start [OF assms(1)] and q = movements.follow_start [OF assms(3)]
  have st: "store_ok s" using p(1) by (simp add: sys_ok_def assms(2))
  have row: "case repo_load sid s of
        Inl _ \<Rightarrow> dict_get (pj_model p) sid = None
      | Inr a \<Rightarrow> dict_get (pj_model p) sid = Some (row_of (map se_event (es_stream s sid)) a)" for sid
  proof -
    have "dict_get (pj_model p) sid = (if events_of s sid = [] then None
        else Some (row_of (events_of s sid) (projr (apply_all (events_of s sid) (ba_blank sid)))))"
      using p(2) store_okD(2) [OF st, of sid] by (simp add: summary.caught_up_def summary_shows_def Let_def events_of_def assms(2))
    moreover obtain a where "apply_all (events_of s sid) (ba_blank sid) = Inr a"
      using legal_history_applies [OF store_okD(4) [OF st, of sid]] by blast
    ultimately show ?thesis by (simp add: repo_load_replays [OF st] events_of_def)
  qed
  then have rows: "\<forall>sid. case repo_load sid s of
        Inl _ \<Rightarrow> dict_get (pj_model p) sid = None
      | Inr a \<Rightarrow> dict_get (pj_model p) sid = Some \<lparr>sm_owner = ba_owner a, sm_balance = ba_balance a,
          sm_deposits = int (length (filter is_deposit (map se_event (es_stream s sid)))),
          sm_withdrawals = int (length (filter is_withdrawal (map se_event (es_stream s sid)))), sm_closed = ba_closed a\<rparr>"
    by (simp only: row_of_def count_events_def) simp
  show ?thesis
    using rows summary.caught_up_redelivery [OF p(2)] summary.caught_up_rebuild [OF p(2)] movements.caught_up_rebuild [OF q(2)]
      st q(2) by (simp add: assms(2) movements.caught_up_def)
qed

text \<open>The example, followed in two batches.\<close>

lemma projections_show_log_witness:
  "dict_get (pj_model (snd (follow summary_handle [take 3 demo_es_events, drop 3 demo_es_events] es_start (pj_new [])))) ''acc-1'' =
     Some \<lparr>sm_owner = ''ann'', sm_balance = usd 70, sm_deposits = 1, sm_withdrawals = 1, sm_closed = False\<rparr> \<and>
   pj_model (snd (follow (movement_handle (usd 50)) [take 3 demo_es_events, drop 3 demo_es_events] es_start (pj_new []))) =
     [(''acc-1'', Deposit_Kind, usd 100)]"
proof -
  let ?evss = "[take 3 demo_es_events, drop 3 demo_es_events]"
  obtain y p where p: "follow summary_handle ?evss es_start (pj_new []) = (y, p)" by fastforce
  obtain y' q where q: "follow (movement_handle (usd 50)) ?evss es_start (pj_new []) = (y', q)" by fastforce
  have y: "y = demo_es" "y' = demo_es"
    using p q es_run_append [of "take 3 demo_es_events" "drop 3 demo_es_events" es_start] by (auto simp: demo_es_def Let_def)
  note th = projections_show_log [OF p refl q]
  have v: "map_sum id (\<lambda>a. (ba_owner a, ba_balance a, ba_closed a)) (repo_load ''acc-1'' (sy_store demo_es)) =
      Inr (''ann'', usd 70, False)"
    "map se_event (es_stream (sy_store demo_es) ''acc-1'') = [AccountOpened ''ann'', MoneyDeposited (usd 100), MoneyWithdrawn (usd 30)]"
    "movements_of (usd 50) (es_log (sy_store demo_es)) = [(''acc-1'', Deposit_Kind, usd 100)]"
    by code_simp+
  have "pj_model q = [(''acc-1'', Deposit_Kind, usd 100)]" using th v(3) by (simp only: y)
  moreover have "dict_get (pj_model p) ''acc-1'' =
      Some \<lparr>sm_owner = ''ann'', sm_balance = usd 70, sm_deposits = 1, sm_withdrawals = 1, sm_closed = False\<rparr>"
    using conjunct1 [OF th] v(1,2) spec [OF conjunct1 [OF th], of "''acc-1''"]
    by (cases "repo_load ''acc-1'' (sy_store demo_es)") (auto simp: y is_deposit_def is_withdrawal_def)
  ultimately show ?thesis by (simp only: p q snd_conv)
qed
end
