(* ===== verification/Sorted_Set.thy ===== *)
theory Sorted_Set
  imports Common Python_Lib "HOL-Library.Product_Lexorder"
begin

text \<open>
  The sorted set of \<^verbatim>\<open>code/hld/leaderboard_sorted_set.py\<close>: a skip list with span counters next to a
  dict from member to score.

  The nodes live in a heap from addresses to nodes and are shared and mutated as the code shares
  and mutates them; node 0 is \<^verbatim>\<open>_head\<close>. The walks follow pointers, so whether they end is part of
  what is proved: an operation that does not return is \<open>None\<close>. Scores are exact rationals; the
  draws of the random generator are an argument of \<^verbatim>\<open>add\<close>.
\<close>

section \<open>Nodes\<close>

type_synonym sk_addr = nat

record sk_node =
  nd_member :: string
  nd_score :: rat
  nd_forward :: "sk_addr option list"
  nd_span :: "int list"

type_synonym sk_heap = "sk_addr \<Rightarrow> sk_node"

type_synonym board_entry = "string \<times> rat"

definition order_key :: "rat \<Rightarrow> string \<Rightarrow> rat \<times> string" where
  "order_key score member = (- score, member)"

definition node_key :: "sk_node \<Rightarrow> rat \<times> string" where
  "node_key n = order_key (nd_score n) (nd_member n)"

definition set_forward :: "sk_addr \<Rightarrow> nat \<Rightarrow> sk_addr option \<Rightarrow> sk_heap \<Rightarrow> sk_heap" where
  "set_forward a i v h = h(a := (h a)\<lparr>nd_forward := (nd_forward (h a))[i := v]\<rparr>)"

definition set_span :: "sk_addr \<Rightarrow> nat \<Rightarrow> int \<Rightarrow> sk_heap \<Rightarrow> sk_heap" where
  "set_span a i v h = h(a := (h a)\<lparr>nd_span := (nd_span (h a))[i := v]\<rparr>)"

definition fwd :: "sk_heap \<Rightarrow> sk_addr \<Rightarrow> nat \<Rightarrow> sk_addr option" where
  "fwd h a i = nd_forward (h a) ! i"

definition spn :: "sk_heap \<Rightarrow> sk_addr \<Rightarrow> nat \<Rightarrow> int" where
  "spn h a i = nd_span (h a) ! i"

section \<open>The sorted set\<close>

record sorted_set =
  ss_heap :: sk_heap
  ss_fresh :: sk_addr
  ss_level :: nat
  ss_length :: int
  ss_scores :: "(string, rat) dict"

definition sk_max_level :: nat where
  "sk_max_level = 16"

definition sorted_set_new :: sorted_set where
  "sorted_set_new = \<lparr>ss_heap = (\<lambda>_. \<lparr>nd_member = [], nd_score = 0, nd_forward = replicate sk_max_level None,
       nd_span = replicate sk_max_level 0\<rparr>),
     ss_fresh = 1, ss_level = 1, ss_length = 0, ss_scores = []\<rparr>"

text \<open>
  The inner loop of every search, at level \<open>i\<close> from a node, with the level-0 steps taken so far:
  \<open>go\<close> is its condition on these, the span of the pointer and the node it leads to.
\<close>

partial_function (option) walk ::
  "sk_heap \<Rightarrow> nat \<Rightarrow> (int \<Rightarrow> int \<Rightarrow> sk_node \<Rightarrow> bool) \<Rightarrow> sk_addr \<Rightarrow> int \<Rightarrow> (sk_addr \<times> int) option" where
  "walk h i go node traversed =
     (case fwd h node i of
        None \<Rightarrow> Some (node, traversed)
      | Some nxt \<Rightarrow> if go traversed (spn h node i) (h nxt)
                   then walk h i go nxt (traversed + spn h node i)
                   else Some (node, traversed))"

declare walk.simps [code]

text \<open>
  The outer loop, from level \<open>n - 1\<close> down to 0. Item \<open>i\<close> of the answer is where the walk at level \<open>i\<close>
  ended: \<^verbatim>\<open>update[i]\<close> with \<^verbatim>\<open>rank_at[i]\<close>.
\<close>

fun descend ::
  "sk_heap \<Rightarrow> (int \<Rightarrow> int \<Rightarrow> sk_node \<Rightarrow> bool) \<Rightarrow> nat \<Rightarrow> sk_addr \<Rightarrow> int \<Rightarrow> (sk_addr \<times> int) list option" where
  "descend h go 0 node traversed = Some []"
| "descend h go (Suc i) node traversed =
     (case walk h i go node traversed of
        None \<Rightarrow> None
      | Some (node', traversed') \<Rightarrow>
          (case descend h go i node' traversed' of None \<Rightarrow> None | Some ends \<Rightarrow> Some (ends @ [(node', traversed')])))"

definition before_key :: "rat \<times> string \<Rightarrow> int \<Rightarrow> int \<Rightarrow> sk_node \<Rightarrow> bool" where
  "before_key key traversed width nxt \<longleftrightarrow> node_key nxt < key"

definition score_of :: "string \<Rightarrow> sorted_set \<Rightarrow> rat option" where
  "score_of member s = dict_get (ss_scores s) member"

definition count_above :: "rat \<Rightarrow> string \<Rightarrow> sorted_set \<Rightarrow> int option" where
  "count_above score member s =
     map_option (\<lambda>ends. snd (ends ! 0)) (descend (ss_heap s) (before_key (order_key score member)) (ss_level s) 0 0)"

definition ss_rank :: "string \<Rightarrow> sorted_set \<Rightarrow> int result option" where
  "ss_rank member s =
     (case dict_get (ss_scores s) member of
        None \<Rightarrow> Some (Inl NotFoundError)
      | Some score \<Rightarrow> map_option Inr (count_above score member s))"

text \<open>The level-0 list from a node, as long as \<open>k\<close> more entries are wanted.\<close>

fun take_entries :: "sk_heap \<Rightarrow> nat \<Rightarrow> sk_addr option \<Rightarrow> board_entry list" where
  "take_entries h 0 node = []"
| "take_entries h (Suc k) node =
     (case node of None \<Rightarrow> []
      | Some a \<Rightarrow> (nd_member (h a), nd_score (h a)) # take_entries h k (fwd h a 0))"

definition ss_top :: "int \<Rightarrow> sorted_set \<Rightarrow> board_entry list result" where
  "ss_top limit s =
     (if limit \<le> 0 then Inl ValidationError
      else Inr (take_entries (ss_heap s) (nat limit) (fwd (ss_heap s) 0 0)))"

definition up_to :: "int \<Rightarrow> int \<Rightarrow> int \<Rightarrow> sk_node \<Rightarrow> bool" where
  "up_to target traversed width nxt \<longleftrightarrow> traversed + width \<le> target"

definition ss_page :: "int \<Rightarrow> int \<Rightarrow> sorted_set \<Rightarrow> board_entry list result option" where
  "ss_page start k s =
     (if start < 0 \<or> k \<le> 0 then Some (Inl ValidationError)
      else let target = start + 1
           in map_option (\<lambda>ends. let (node, traversed) = ends ! 0
                in Inr (if traversed \<noteq> target then [] else take_entries (ss_heap s) (nat k) (Some node)))
              (descend (ss_heap s) (up_to target) (ss_level s) 0 0))"

text \<open>\<^verbatim>\<open>_random_level\<close>, drawing at most 15 times.\<close>

function random_level_loop :: "(nat \<Rightarrow> rat) \<Rightarrow> nat \<Rightarrow> nat" where
  "random_level_loop draw level =
     (if level < sk_max_level \<and> draw level < 1 / 4 then random_level_loop draw (level + 1) else level)"
  by pat_completeness auto
termination by (relation "measure (\<lambda>(draw, level). sk_max_level - level)") auto

declare random_level_loop.simps [simp del]

definition random_level :: "(nat \<Rightarrow> rat) \<Rightarrow> nat" where
  "random_level draw = random_level_loop draw 1"

text \<open>One turn of the loop that splices a node in, at a level it has.\<close>

definition link_level :: "(sk_addr \<times> int) list \<Rightarrow> sk_addr \<Rightarrow> nat \<Rightarrow> sk_heap \<Rightarrow> sk_heap" where
  "link_level ends fresh i h =
     (let u = fst (ends ! i); gap = snd (ends ! 0) - snd (ends ! i);
          h1 = set_forward fresh i (fwd h u i) h;
          h2 = set_forward u i (Some fresh) h1;
          h3 = set_span fresh i (spn h2 u i - gap) h2
      in set_span u i (gap + 1) h3)"

definition stretch_level :: "(sk_addr \<times> int) list \<Rightarrow> nat \<Rightarrow> sk_heap \<Rightarrow> sk_heap" where
  "stretch_level ends i h = set_span (fst (ends ! i)) i (spn h (fst (ends ! i)) i + 1) h"

definition ss_link :: "(nat \<Rightarrow> rat) \<Rightarrow> string \<Rightarrow> rat \<Rightarrow> sorted_set \<Rightarrow> sorted_set option" where
  "ss_link draw member score s =
     map_option (\<lambda>ends0.
         let levels = random_level draw; old = ss_level s;
             ends = ends0 @ replicate (levels - old) (0, 0);
             h1 = fold (\<lambda>i. set_span 0 i (ss_length s)) [old ..< levels] (ss_heap s);
             level = max old levels;
             fresh = ss_fresh s;
             h2 = h1(fresh := \<lparr>nd_member = member, nd_score = score, nd_forward = replicate levels None,
                               nd_span = replicate levels 0\<rparr>);
             h3 = fold (link_level ends fresh) [0 ..< levels] h2;
             h4 = fold (stretch_level ends) [levels ..< level] h3
         in s\<lparr>ss_heap := h4, ss_fresh := fresh + 1, ss_level := level, ss_length := ss_length s + 1\<rparr>)
       (descend (ss_heap s) (before_key (order_key score member)) (ss_level s) 0 0)"

definition unlink_level :: "(sk_addr \<times> int) list \<Rightarrow> sk_addr \<Rightarrow> nat \<Rightarrow> sk_heap \<Rightarrow> sk_heap" where
  "unlink_level ends target i h =
     (let u = fst (ends ! i)
      in if fwd h u i = Some target
         then set_forward u i (fwd h target i) (set_span u i (spn h u i + (spn h target i - 1)) h)
         else set_span u i (spn h u i - 1) h)"

fun shrink_level :: "sk_heap \<Rightarrow> nat \<Rightarrow> nat" where
  "shrink_level h 0 = 0"
| "shrink_level h (Suc n) = (if 0 < n \<and> fwd h 0 n = None then shrink_level h n else Suc n)"

definition ss_unlink :: "string \<Rightarrow> rat \<Rightarrow> sorted_set \<Rightarrow> sorted_set option" where
  "ss_unlink member score s =
     map_option (\<lambda>ends.
         case fwd (ss_heap s) (fst (ends ! 0)) 0 of
           None \<Rightarrow> s
         | Some target \<Rightarrow>
             if nd_member (ss_heap s target) \<noteq> member then s
             else let h = fold (unlink_level ends target) [0 ..< ss_level s] (ss_heap s)
                  in s\<lparr>ss_heap := h, ss_level := shrink_level h (ss_level s), ss_length := ss_length s - 1\<rparr>)
       (descend (ss_heap s) (before_key (order_key score member)) (ss_level s) 0 0)"

definition ss_add :: "(nat \<Rightarrow> rat) \<Rightarrow> string \<Rightarrow> rat \<Rightarrow> sorted_set \<Rightarrow> sorted_set option" where
  "ss_add draw member score s =
     (let insert_it = (\<lambda>s1. map_option (\<lambda>s2. s2\<lparr>ss_scores := dict_set member score (ss_scores s2)\<rparr>) (ss_link draw member score s1))
      in case dict_get (ss_scores s) member of
           None \<Rightarrow> insert_it s
         | Some current \<Rightarrow>
             if current = score then Some s
             else (case ss_unlink member current s of None \<Rightarrow> None | Some s1 \<Rightarrow> insert_it s1))"

definition ss_remove :: "string \<Rightarrow> sorted_set \<Rightarrow> (bool \<times> sorted_set) option" where
  "ss_remove member s =
     (case dict_get (ss_scores s) member of
        None \<Rightarrow> Some (False, s)
      | Some current \<Rightarrow>
          map_option (Pair True) (ss_unlink member current (s\<lparr>ss_scores := dict_del member (ss_scores s)\<rparr>)))"

section \<open>Lanes\<close>

text \<open>
  The board order is a list of addresses. Lane \<open>i\<close> links the head and the nodes that are tall enough,
  each span counting the board steps to the next such node, or to the end. \<open>lane_ok h i a d xs\<close>
  says so for the board \<open>xs\<close> that follows, when \<open>a\<close> is the last node of the lane before it and \<open>d\<close>
  nodes have been passed since.
\<close>

definition tall :: "sk_heap \<Rightarrow> nat \<Rightarrow> sk_addr \<Rightarrow> bool" where
  "tall h i a \<longleftrightarrow> i < length (nd_forward (h a))"

fun lane_ok :: "sk_heap \<Rightarrow> nat \<Rightarrow> sk_addr \<Rightarrow> int \<Rightarrow> sk_addr list \<Rightarrow> bool" where
  "lane_ok h i a d [] \<longleftrightarrow> fwd h a i = None \<and> spn h a i = d"
| "lane_ok h i a d (b # bs) \<longleftrightarrow>
     (if tall h i b then fwd h a i = Some b \<and> spn h a i = d + 1 \<and> lane_ok h i b 0 bs
      else lane_ok h i a (d + 1) bs)"

fun lane_seg :: "sk_heap \<Rightarrow> nat \<Rightarrow> sk_addr \<Rightarrow> int \<Rightarrow> sk_addr list \<Rightarrow> bool" where
  "lane_seg h i a d [] \<longleftrightarrow> True"
| "lane_seg h i a d (b # bs) \<longleftrightarrow>
     (if tall h i b then fwd h a i = Some b \<and> spn h a i = d + 1 \<and> lane_seg h i b 0 bs
      else lane_seg h i a (d + 1) bs)"

fun lane_last :: "sk_heap \<Rightarrow> nat \<Rightarrow> sk_addr \<Rightarrow> int \<Rightarrow> sk_addr list \<Rightarrow> sk_addr \<times> int" where
  "lane_last h i a d [] = (a, d)"
| "lane_last h i a d (b # bs) = (if tall h i b then lane_last h i b 0 bs else lane_last h i a (d + 1) bs)"

lemma lane_ok_append:
  "lane_ok h i a d (xs @ ys) \<longleftrightarrow>
     lane_seg h i a d xs \<and> lane_ok h i (fst (lane_last h i a d xs)) (snd (lane_last h i a d xs)) ys"
  by (induction xs arbitrary: a d) auto

lemma lane_last_append:
  "lane_last h i a d (xs @ ys) = lane_last h i (fst (lane_last h i a d xs)) (snd (lane_last h i a d xs)) ys"
  by (induction xs arbitrary: a d) auto

lemma lane_last_none: "\<forall>b \<in> set ys. \<not> tall h i b \<Longrightarrow> lane_last h i a d ys = (a, d + int (length ys))"
  by (induction ys arbitrary: d) auto

lemma lane_last_all: "\<forall>b \<in> set ys. tall h i b \<Longrightarrow> ys \<noteq> [] \<Longrightarrow> lane_last h i a d ys = (last ys, 0)"
  by (induction ys arbitrary: a d) auto

lemma lane_last_mem: "fst (lane_last h i a d ys) \<in> insert a (set ys)"
  by (induction ys arbitrary: a d) auto

lemma lane_last_tall: "fst (lane_last h i a d ys) = a \<or> tall h i (fst (lane_last h i a d ys))"
proof (induction ys arbitrary: a d)
  case (Cons b ys)
  show ?case using Cons.IH [of b 0] Cons.IH [of a "d + 1"] by (cases "tall h i b") auto
qed simp

lemma lane_ok_next:
  "lane_ok h i a d zs \<Longrightarrow>
     fwd h a i = None \<or> (\<exists>k < length zs. fwd h a i = Some (zs ! k) \<and> spn h a i = d + int k + 1)"
proof (induction zs arbitrary: d)
  case (Cons b bs)
  show ?case
  proof (cases "tall h i b")
    case True
    then show ?thesis using Cons.prems by auto
  next
    case False
    then have "lane_ok h i a (d + 1) bs" using Cons.prems by simp
    from Cons.IH [OF this] show ?thesis
      by (elim disjE exE conjE) (simp, rule disjI2, rule_tac x = "Suc k" in exI, simp)
  qed
qed simp

section \<open>Searches return\<close>

lemma walk_lane:
  assumes "lane_ok h i a d (ys @ zs)" and "t + d = base"
    and "\<And>t w k. k < length (ys @ zs) \<Longrightarrow> t + w = base + int k + 1 \<Longrightarrow> go t w (h ((ys @ zs) ! k)) \<longleftrightarrow> k < length ys"
  shows "walk h i go a t =
    Some (fst (lane_last h i a d ys), base + int (length ys) - snd (lane_last h i a d ys))"
  using assms
proof (induction ys arbitrary: a d t base)
  case Nil
  from lane_ok_next [of h i a d zs] Nil.prems(1)
  have "fwd h a i = None \<or> (\<exists>k < length zs. fwd h a i = Some (zs ! k) \<and> spn h a i = d + int k + 1)" by simp
  then show ?case
  proof (elim disjE exE conjE)
    fix k assume k: "k < length zs" "fwd h a i = Some (zs ! k)" "spn h a i = d + int k + 1"
    then have "\<not> go t (spn h a i) (h (zs ! k))" using Nil.prems(2) Nil.prems(3) [of k t "spn h a i"] by simp
    then show ?thesis using k Nil.prems(2) by (subst walk.simps) simp
  qed (use Nil.prems(2) in \<open>subst walk.simps, simp\<close>)
next
  case (Cons y ys)
  have shift: "go t w (h ((ys @ zs) ! k)) \<longleftrightarrow> k < length ys"
    if "k < length (ys @ zs)" "t + w = (base + 1) + int k + 1" for t w k
    using Cons.prems(3) [of "Suc k" t w] that by simp
  show ?case
  proof (cases "tall h i y")
    case True
    then have f: "fwd h a i = Some y" "spn h a i = d + 1" "lane_ok h i y 0 (ys @ zs)" using Cons.prems(1) by simp_all
    have "go t (d + 1) (h y)" using Cons.prems(2) Cons.prems(3) [of 0 t "d + 1"] by simp
    moreover have "walk h i go y (t + (d + 1)) =
        Some (fst (lane_last h i y 0 ys), base + 1 + int (length ys) - snd (lane_last h i y 0 ys))"
      by (rule Cons.IH [OF f(3)]) (use Cons.prems(2) shift in auto)
    ultimately show ?thesis using f(1,2) True by (subst walk.simps) simp
  next
    case False
    then have "lane_ok h i a (d + 1) (ys @ zs)" using Cons.prems(1) by simp
    from Cons.IH [OF this, of t "base + 1"] show ?thesis using False Cons.prems(2) shift by simp
  qed
qed

definition end_at :: "sk_heap \<Rightarrow> sk_addr list \<Rightarrow> nat \<Rightarrow> sk_addr \<times> int" where
  "end_at h ys j = (fst (lane_last h j 0 0 ys), int (length ys) - snd (lane_last h j 0 0 ys))"

lemma tall_less: "tall h i b \<Longrightarrow> j \<le> i \<Longrightarrow> tall h j b"
  by (simp add: tall_def)

text \<open>Where a walk at some level ended, the walks below go on.\<close>

lemma end_at_split:
  assumes "(node, t) = (0, 0) \<or> (\<exists>i \<ge> n. (node, t) = end_at h ys i)"
  obtains ys1 ys2 where "ys = ys1 @ ys2" "t = int (length ys1)"
    "\<And>j. j < n \<Longrightarrow> lane_last h j 0 0 ys = lane_last h j node 0 ys2"
    "\<And>j. j < n \<Longrightarrow> lane_ok h j 0 0 (ys @ zs) \<Longrightarrow> lane_ok h j node 0 (ys2 @ zs)"
proof (cases "(node, t) = (0, 0)")
  case True
  then show ?thesis using that [of "[]" ys] by simp
next
  case False
  then obtain i where i: "n \<le> i" "(node, t) = end_at h ys i" using assms by blast
  show ?thesis
  proof (cases "\<exists>b \<in> set ys. tall h i b")
    case False
    then have "lane_last h i 0 0 ys = (0, int (length ys))" using lane_last_none [of ys h i 0 0] by simp
    then show ?thesis using i(2) that [of "[]" ys] by (simp add: end_at_def)
  next
    case True
    obtain ys1 b ys2 where ys: "ys = ys1 @ b # ys2" "tall h i b" "\<forall>z \<in> set ys2. \<not> tall h i z"
      using split_list_last_prop [OF True] by blast
    then have "lane_last h i 0 0 ys = (b, int (length ys2))" by (simp add: lane_last_append lane_last_none)
    then have nt: "node = b" "t = int (length (ys1 @ [b]))" using i(2) ys(1) by (simp_all add: end_at_def)
    have "tall h j b" if "j < n" for j using tall_less [OF ys(2)] that i(1) by simp
    then show ?thesis
      using nt ys(1) that [of "ys1 @ [b]" ys2] by (simp add: lane_last_append lane_ok_append)
  qed
qed

lemma descend_ends:
  assumes "\<And>j. j < n \<Longrightarrow> lane_ok h j 0 0 (ys @ zs)"
    and "(node, t) = (0, 0) \<or> (\<exists>i \<ge> n. (node, t) = end_at h ys i)"
    and go: "\<And>t w k. k < length (ys @ zs) \<Longrightarrow> t + w = int k + 1 \<Longrightarrow> go t w (h ((ys @ zs) ! k)) \<longleftrightarrow> k < length ys"
  shows "descend h go n node t = Some (map (end_at h ys) [0 ..< n])"
  using assms(1,2)
proof (induction n arbitrary: node t)
  case (Suc n)
  obtain ys1 ys2 where s: "ys = ys1 @ ys2" "t = int (length ys1)"
      "lane_last h n 0 0 ys = lane_last h n node 0 ys2" "lane_ok h n node 0 (ys2 @ zs)"
    using end_at_split [OF Suc.prems(2), of zs] Suc.prems(1) by (metis lessI)
  have "go u w (h ((ys2 @ zs) ! k)) \<longleftrightarrow> k < length ys2"
    if "k < length (ys2 @ zs)" "u + w = int (length ys1) + int k + 1" for u w k
    using go [of "length ys1 + k" u w] that s(1) by (simp add: nth_append)
  then have w0: "walk h n go node t = Some (fst (lane_last h n node 0 ys2),
      int (length ys1) + int (length ys2) - snd (lane_last h n node 0 ys2))"
    by (intro walk_lane [OF s(4)]) (simp_all add: s(2))
  have "int (length ys) = int (length ys1) + int (length ys2)" using s(1) by simp
  then have w: "walk h n go node t = Some (end_at h ys n)"
    using w0 by (simp add: end_at_def s(3))
  have "(fst (end_at h ys n), snd (end_at h ys n)) = (0, 0) \<or> (\<exists>i \<ge> n. (fst (end_at h ys n), snd (end_at h ys n)) = end_at h ys i)"
    by auto
  from Suc.IH [OF _ this] Suc.prems(1)
  have "descend h go n (fst (end_at h ys n)) (snd (end_at h ys n)) = Some (map (end_at h ys) [0 ..< n])" by simp
  then show ?case using w by (cases "end_at h ys n") simp
qed simp

section \<open>Splicing a node in and out of a lane\<close>

lemma lane_seg_frame:
  assumes "distinct (a # ys)" "lane_seg h i a d ys" "\<forall>b \<in> set ys. tall h' i b = tall h i b"
    and "\<forall>b \<in> insert a (set ys). b \<noteq> fst (lane_last h i a d ys) \<longrightarrow> fwd h' b i = fwd h b i \<and> spn h' b i = spn h b i"
  shows "lane_seg h' i a d ys" "lane_last h' i a d ys = lane_last h i a d ys"
proof -
  have "lane_seg h' i a d ys \<and> lane_last h' i a d ys = lane_last h i a d ys"
    using assms
  proof (induction ys arbitrary: a d)
    case (Cons b ys)
    show ?case
    proof (cases "tall h i b")
      case True
      have "a \<noteq> fst (lane_last h i b 0 ys)" using lane_last_mem [of h i b 0 ys] Cons.prems(1) by auto
      then show ?thesis using Cons.IH [of b 0] Cons.prems True by auto
    next
      case False
      then show ?thesis using Cons.IH [of a "d + 1"] Cons.prems by auto
    qed
  qed simp
  then show "lane_seg h' i a d ys" "lane_last h' i a d ys = lane_last h i a d ys" by simp_all
qed

lemma lane_ok_transfer:
  assumes "lane_ok h i a d zs" "fwd h' b i = fwd h a i" "spn h' b i = spn h a i - d + d'"
    and "\<forall>c \<in> set zs. tall h' i c = tall h i c \<and> fwd h' c i = fwd h c i \<and> spn h' c i = spn h c i"
  shows "lane_ok h' i b d' zs"
  using assms
proof (induction zs arbitrary: a b d d')
  case (Cons c zs)
  show ?case
  proof (cases "tall h i c")
    case True
    then show ?thesis using Cons.IH [of c 0 c 0] Cons.prems by simp
  next
    case False
    then show ?thesis using Cons.IH [of a "d + 1" b "d' + 1"] Cons.prems by simp
  qed
qed simp

lemma lane_ok_empty:
  "\<forall>b \<in> set xs. \<not> tall h i b \<Longrightarrow> lane_ok h i a d xs \<longleftrightarrow> fwd h a i = None \<and> spn h a i = d + int (length xs)"
  by (induction xs arbitrary: d) auto

abbreviation "lane_node h i ys \<equiv> fst (lane_last h i 0 0 ys)"
abbreviation "lane_gap h i ys \<equiv> snd (lane_last h i 0 0 ys)"

text \<open>Another heap that has the same nodes but for lane \<open>i\<close> of the last lane node of \<open>ys\<close>.\<close>

definition lane_frame :: "sk_heap \<Rightarrow> sk_heap \<Rightarrow> nat \<Rightarrow> sk_addr list \<Rightarrow> sk_addr list \<Rightarrow> bool" where
  "lane_frame h h' i ys zs \<longleftrightarrow> distinct (0 # ys @ zs) \<and> (\<forall>b \<in> set (0 # ys @ zs). tall h' i b = tall h i b) \<and>
     (\<forall>b \<in> set (0 # ys @ zs). b \<noteq> lane_node h i ys \<longrightarrow> fwd h' b i = fwd h b i \<and> spn h' b i = spn h b i)"

lemma lane_frame_parts:
  assumes "lane_frame h h' i ys zs" "lane_ok h i 0 0 (ys @ zs')"
  shows "lane_seg h' i 0 0 ys" "lane_last h' i 0 0 ys = lane_last h i 0 0 ys"
    "\<forall>c \<in> set zs. tall h' i c = tall h i c \<and> fwd h' c i = fwd h c i \<and> spn h' c i = spn h c i"
proof -
  show "lane_seg h' i 0 0 ys" "lane_last h' i 0 0 ys = lane_last h i 0 0 ys"
    using lane_seg_frame [of 0 ys h i 0 h'] assms by (auto simp: lane_frame_def lane_ok_append)
  have "lane_node h i ys \<notin> set zs" using lane_last_mem [of h i 0 0 ys] assms(1) by (auto simp: lane_frame_def)
  then have "c \<noteq> lane_node h i ys \<and> c \<in> set (0 # ys @ zs)" if "c \<in> set zs" for c using that by auto
  then show "\<forall>c \<in> set zs. tall h' i c = tall h i c \<and> fwd h' c i = fwd h c i \<and> spn h' c i = spn h c i"
    using assms(1) unfolding lane_frame_def by blast
qed

lemma lane_insert:
  assumes "lane_frame h h' i ys zs" "lane_ok h i 0 0 (ys @ zs)"
  shows "tall h' i f \<Longrightarrow> fwd h' (lane_node h i ys) i = Some f \<Longrightarrow> spn h' (lane_node h i ys) i = lane_gap h i ys + 1 \<Longrightarrow>
      fwd h' f i = fwd h (lane_node h i ys) i \<Longrightarrow> spn h' f i = spn h (lane_node h i ys) i - lane_gap h i ys \<Longrightarrow>
      lane_ok h' i 0 0 (ys @ f # zs)"
    "\<not> tall h' i f \<Longrightarrow> fwd h' (lane_node h i ys) i = fwd h (lane_node h i ys) i \<Longrightarrow>
      spn h' (lane_node h i ys) i = spn h (lane_node h i ys) i + 1 \<Longrightarrow> lane_ok h' i 0 0 (ys @ f # zs)"
  using lane_frame_parts [OF assms] assms(2) lane_ok_transfer [of h i "lane_node h i ys" "lane_gap h i ys" zs h']
  by (simp_all add: lane_ok_append)

lemma lane_delete:
  assumes "lane_frame h h' i ys zs" "lane_ok h i 0 0 (ys @ f # zs)"
  shows "tall h i f \<Longrightarrow> fwd h' (lane_node h i ys) i = fwd h f i \<Longrightarrow>
      spn h' (lane_node h i ys) i = spn h (lane_node h i ys) i + (spn h f i - 1) \<Longrightarrow> lane_ok h' i 0 0 (ys @ zs)"
    "\<not> tall h i f \<Longrightarrow> fwd h' (lane_node h i ys) i = fwd h (lane_node h i ys) i \<Longrightarrow>
      spn h' (lane_node h i ys) i = spn h (lane_node h i ys) i - 1 \<Longrightarrow> lane_ok h' i 0 0 (ys @ zs)"
  using lane_frame_parts [OF assms] assms(2) lane_ok_transfer [of h i f 0 zs h' "lane_node h i ys" "lane_gap h i ys"]
    lane_ok_transfer [of h i "lane_node h i ys" "lane_gap h i ys + 1" zs h' "lane_node h i ys" "lane_gap h i ys"]
  by (simp_all add: lane_ok_append)

section \<open>What the pointer loops write\<close>

lemma fwd_set [simp]:
  "fwd (set_forward a i v h) b j = (if a = b \<and> i = j \<and> i < length (nd_forward (h a)) then v else fwd h b j)"
  "fwd (set_span a i w h) b j = fwd h b j"
  by (cases "i = j"; cases "i < length (nd_forward (h a))";
      auto simp: fwd_def set_forward_def set_span_def list_update_beyond)+

lemma spn_set [simp]:
  "spn (set_span a i w h) b j = (if a = b \<and> i = j \<and> i < length (nd_span (h a)) then w else spn h b j)"
  "spn (set_forward a i v h) b j = spn h b j"
  by (cases "i = j"; cases "i < length (nd_span (h a))";
      auto simp: spn_def set_forward_def set_span_def list_update_beyond)+

definition shape :: "sk_heap \<Rightarrow> sk_addr \<Rightarrow> string \<times> rat \<times> nat \<times> nat" where
  "shape h a = (nd_member (h a), nd_score (h a), length (nd_forward (h a)), length (nd_span (h a)))"

lemma shape_set [simp]: "shape (set_forward a i v h) = shape h" "shape (set_span a i w h) = shape h"
  by (auto simp: shape_def set_forward_def set_span_def)

lemma shape_eq:
  assumes "shape h' a = shape h a"
  shows "nd_member (h' a) = nd_member (h a)" "nd_score (h' a) = nd_score (h a)" "tall h' i a = tall h i a"
    "length (nd_forward (h' a)) = length (nd_forward (h a))" "length (nd_span (h' a)) = length (nd_span (h a))"
    "node_key (h' a) = node_key (h a)"
  using assms by (simp_all add: shape_def tall_def node_key_def)

lemma shape_fold [simp]:
  "shape (fold (\<lambda>i. set_span a i w) is h) = shape h" "shape (fold (link_level ends f) is h) = shape h"
  "shape (fold (stretch_level ends) is h) = shape h" "shape (fold (unlink_level ends f) is h) = shape h"
  by (induction "is" arbitrary: h) (simp_all add: link_level_def stretch_level_def unlink_level_def Let_def)

lemma lengths_fold:
  "length (nd_forward (fold (link_level ends f) is h a)) = length (nd_forward (h a))"
  "length (nd_span (fold (link_level ends f) is h a)) = length (nd_span (h a))"
  "length (nd_span (fold (stretch_level ends) is h a)) = length (nd_span (h a))"
  "length (nd_span (fold (\<lambda>i. set_span b i w) is h a)) = length (nd_span (h a))"
  "length (nd_forward (fold (unlink_level ends f) is h a)) = length (nd_forward (h a))"
  "length (nd_span (fold (unlink_level ends f) is h a)) = length (nd_span (h a))"
  using shape_eq(4,5) shape_fold by metis+

lemma stretch_level_step:
  "fwd (stretch_level ends i h) b j = fwd h b j"
  "i < length (nd_span (h (fst (ends ! i)))) \<Longrightarrow>
    spn (stretch_level ends i h) b j = (if b = fst (ends ! i) \<and> j = i then spn h b j + 1 else spn h b j)"
  by (auto simp: stretch_level_def)

lemma link_level_step:
  assumes "fst (ends ! i) \<noteq> f" "i < length (nd_forward (h (fst (ends ! i))))" "i < length (nd_span (h (fst (ends ! i))))"
    "i < length (nd_forward (h f))" "i < length (nd_span (h f))"
  shows "fwd (link_level ends f i h) b j =
      (if j = i then if b = f then fwd h (fst (ends ! i)) i else if b = fst (ends ! i) then Some f else fwd h b j else fwd h b j)"
    "spn (link_level ends f i h) b j =
      (if j = i then if b = f then spn h (fst (ends ! i)) i - (snd (ends ! 0) - snd (ends ! i))
         else if b = fst (ends ! i) then snd (ends ! 0) - snd (ends ! i) + 1 else spn h b j else spn h b j)"
proof -
  have l: "length (nd_forward (set_forward a i v k c)) = length (nd_forward (k c))"
    "length (nd_span (set_forward a i v k c)) = length (nd_span (k c))"
    "length (nd_span (set_span a i w k c)) = length (nd_span (k c))" for a i v w k c
    by (simp_all add: set_forward_def set_span_def)
  show "fwd (link_level ends f i h) b j =
      (if j = i then if b = f then fwd h (fst (ends ! i)) i else if b = fst (ends ! i) then Some f else fwd h b j else fwd h b j)"
    "spn (link_level ends f i h) b j =
      (if j = i then if b = f then spn h (fst (ends ! i)) i - (snd (ends ! 0) - snd (ends ! i))
         else if b = fst (ends ! i) then snd (ends ! 0) - snd (ends ! i) + 1 else spn h b j else spn h b j)"
    using assms by (auto simp: link_level_def Let_def l)
qed

lemma unlink_level_step:
  assumes "fst (ends ! i) \<noteq> f" "i < length (nd_forward (h (fst (ends ! i))))" "i < length (nd_span (h (fst (ends ! i))))"
  shows "fwd (unlink_level ends f i h) b j =
      (if j = i \<and> b = fst (ends ! i) \<and> fwd h b j = Some f then fwd h f j else fwd h b j)"
    "spn (unlink_level ends f i h) b j =
      (if j = i \<and> b = fst (ends ! i) then if fwd h b j = Some f then spn h b j + (spn h f j - 1) else spn h b j - 1
       else spn h b j)"
  using assms by (auto simp: unlink_level_def Let_def set_span_def [of _ _ _ h])
    (auto simp: fwd_def spn_def set_forward_def)

lemma fold_set_span:
  "n \<le> length (nd_span (h a)) \<Longrightarrow>
     fwd (fold (\<lambda>i. set_span a i w) [m ..< n] h) b j = fwd h b j \<and>
     spn (fold (\<lambda>i. set_span a i w) [m ..< n] h) b j = (if b = a \<and> m \<le> j \<and> j < n then w else spn h b j)"
proof (induction n)
  case (Suc n)
  then show ?case by (cases "m \<le> n") (auto simp: lengths_fold less_Suc_eq)
qed simp

lemma fold_stretch:
  assumes "\<forall>i. m \<le> i \<longrightarrow> i < n \<longrightarrow> i < length (nd_span (h (fst (ends ! i))))"
  shows "fwd (fold (stretch_level ends) [m ..< n] h) b j = fwd h b j \<and>
    spn (fold (stretch_level ends) [m ..< n] h) b j =
      (if m \<le> j \<and> j < n \<and> b = fst (ends ! j) then spn h b j + 1 else spn h b j)"
  using assms
proof (induction n)
  case (Suc n)
  then have "n < length (nd_span (h (fst (ends ! n))))" if "m \<le> n" using that by auto
  with Suc show ?case by (cases "m \<le> n") (auto simp: stretch_level_step lengths_fold less_Suc_eq)
qed simp

lemma fold_link:
  assumes "\<forall>i < n. fst (ends ! i) \<noteq> f \<and> i < length (nd_forward (h (fst (ends ! i)))) \<and> i < length (nd_span (h (fst (ends ! i))))"
    and "n \<le> length (nd_forward (h f))" "n \<le> length (nd_span (h f))"
  shows "fwd (fold (link_level ends f) [0 ..< n] h) b j =
      (if j < n then if b = f then fwd h (fst (ends ! j)) j else if b = fst (ends ! j) then Some f else fwd h b j else fwd h b j) \<and>
    spn (fold (link_level ends f) [0 ..< n] h) b j =
      (if j < n then if b = f then spn h (fst (ends ! j)) j - (snd (ends ! 0) - snd (ends ! j))
         else if b = fst (ends ! j) then snd (ends ! 0) - snd (ends ! j) + 1 else spn h b j else spn h b j)"
  using assms
proof (induction n arbitrary: b j)
  case (Suc n)
  have u: "fst (ends ! n) \<noteq> f" "n < length (nd_forward (h (fst (ends ! n))))" "n < length (nd_span (h (fst (ends ! n))))"
    using Suc.prems(1) by auto
  have f: "n < length (nd_forward (h f))" "n < length (nd_span (h f))" using Suc.prems(2,3) by auto
  let ?h = "fold (link_level ends f) [0 ..< n] h"
  have IH: "fwd ?h b j = (if j < n then if b = f then fwd h (fst (ends ! j)) j else if b = fst (ends ! j) then Some f else fwd h b j else fwd h b j)"
    "spn ?h b j = (if j < n then if b = f then spn h (fst (ends ! j)) j - (snd (ends ! 0) - snd (ends ! j))
         else if b = fst (ends ! j) then snd (ends ! 0) - snd (ends ! j) + 1 else spn h b j else spn h b j)" for b j
    using Suc.IH Suc.prems by simp_all
  show ?case
    using u f by (simp add: link_level_step lengths_fold) (auto simp: IH less_Suc_eq)
qed simp

lemma fold_unlink:
  assumes "\<forall>i < n. fst (ends ! i) \<noteq> f \<and> i < length (nd_forward (h (fst (ends ! i)))) \<and> i < length (nd_span (h (fst (ends ! i))))"
  shows "fwd (fold (unlink_level ends f) [0 ..< n] h) b j =
      (if j < n \<and> b = fst (ends ! j) \<and> fwd h b j = Some f then fwd h f j else fwd h b j) \<and>
    spn (fold (unlink_level ends f) [0 ..< n] h) b j =
      (if j < n \<and> b = fst (ends ! j) then if fwd h b j = Some f then spn h b j + (spn h f j - 1) else spn h b j - 1
       else spn h b j)"
  using assms
proof (induction n arbitrary: b j)
  case (Suc n)
  have u: "fst (ends ! n) \<noteq> f" "n < length (nd_forward (h (fst (ends ! n))))" "n < length (nd_span (h (fst (ends ! n))))"
    using Suc.prems(1) by auto
  let ?h = "fold (unlink_level ends f) [0 ..< n] h"
  have IH: "fwd ?h b j = (if j < n \<and> b = fst (ends ! j) \<and> fwd h b j = Some f then fwd h f j else fwd h b j)"
    "spn ?h b j = (if j < n \<and> b = fst (ends ! j) then if fwd h b j = Some f then spn h b j + (spn h f j - 1) else spn h b j - 1
       else spn h b j)" for b j
    using Suc.IH Suc.prems by simp_all
  show ?case
    using u by (simp add: unlink_level_step lengths_fold) (auto simp: IH less_Suc_eq)
qed simp

section \<open>Well-formed heaps\<close>

definition heap_ok :: "sk_heap \<Rightarrow> sk_addr \<Rightarrow> nat \<Rightarrow> sk_addr list \<Rightarrow> bool" where
  "heap_ok h fresh level xs \<longleftrightarrow> distinct (0 # xs) \<and> (\<forall>a \<in> set (0 # xs). a < fresh) \<and>
     1 \<le> level \<and> level \<le> sk_max_level \<and>
     length (nd_forward (h 0)) = sk_max_level \<and> length (nd_span (h 0)) = sk_max_level \<and>
     (\<forall>a \<in> set xs. 1 \<le> length (nd_forward (h a)) \<and> length (nd_forward (h a)) \<le> level \<and>
        length (nd_span (h a)) = length (nd_forward (h a))) \<and>
     (\<forall>i < level. lane_ok h i 0 0 xs) \<and> (\<forall>i. level \<le> i \<longrightarrow> i < sk_max_level \<longrightarrow> fwd h 0 i = None)"

lemma lane_last_cong: "\<forall>b \<in> set ys. tall h' i b = tall h i b \<Longrightarrow> lane_last h' i a d ys = lane_last h i a d ys"
  by (induction ys arbitrary: a d) auto

lemma lane_ok_cong:
  assumes "\<forall>b \<in> set (a # xs). tall h' i b = tall h i b \<and> fwd h' b i = fwd h b i \<and> spn h' b i = spn h b i"
  shows "lane_ok h' i a d xs = lane_ok h i a d xs"
  using assms by (induction xs arbitrary: a d) auto

lemma heap_okD:
  assumes "heap_ok h f level (ys @ zs)"
  shows "distinct (0 # ys @ zs)" "a \<in> set (0 # ys @ zs) \<Longrightarrow> a < f" "i < level \<Longrightarrow> lane_ok h i 0 0 (ys @ zs)"
    "level \<le> i \<Longrightarrow> a \<in> set (ys @ zs) \<Longrightarrow> \<not> tall h i a" "a \<in> set (ys @ zs) \<Longrightarrow> tall h 0 a"
proof -
  show "distinct (0 # ys @ zs)" "a \<in> set (0 # ys @ zs) \<Longrightarrow> a < f" "i < level \<Longrightarrow> lane_ok h i 0 0 (ys @ zs)"
    using assms by (auto simp: heap_ok_def)
  have l: "1 \<le> length (nd_forward (h a)) \<and> length (nd_forward (h a)) \<le> level" if "a \<in> set (ys @ zs)"
    using assms that by (simp add: heap_ok_def)
  then show "level \<le> i \<Longrightarrow> a \<in> set (ys @ zs) \<Longrightarrow> \<not> tall h i a" "a \<in> set (ys @ zs) \<Longrightarrow> tall h 0 a"
    by (fastforce simp: tall_def)+
qed

lemma lane_node_room:
  assumes "heap_ok h f level (ys @ zs)" "i < sk_max_level"
  shows "i < length (nd_forward (h (lane_node h i ys)))" "i < length (nd_span (h (lane_node h i ys)))"
    "lane_node h i ys \<in> set (0 # ys @ zs)" "lane_node h i ys < f"
proof -
  have mem: "lane_node h i ys \<in> insert 0 (set ys)" by (rule lane_last_mem)
  then show "lane_node h i ys \<in> set (0 # ys @ zs)" by auto
  then show "lane_node h i ys < f" using heap_okD(2) [OF assms(1)] by blast
  show "i < length (nd_forward (h (lane_node h i ys)))" "i < length (nd_span (h (lane_node h i ys)))"
    using mem lane_last_tall [of h i 0 0 ys] assms by (auto simp: heap_ok_def tall_def)
qed

lemma lane_gap_0: "heap_ok h f level (ys @ zs) \<Longrightarrow> lane_last h 0 0 0 ys = (if ys = [] then 0 else last ys, 0)"
  using heap_okD(5) lane_last_all [of ys h 0 0 0] by auto

lemma end_at_0: "heap_ok h f level (ys @ zs) \<Longrightarrow> end_at h ys 0 = (if ys = [] then 0 else last ys, int (length ys))"
  by (simp add: end_at_def lane_gap_0)

lemma insert_ends:
  assumes "heap_ok h f old (ys @ zs)" and "ends = map (end_at h ys) [0 ..< old] @ replicate (levels - old) (0, 0)"
    and "i < max old levels"
  shows "ends ! i = (lane_node h i ys, int (length ys) - lane_gap h i ys)" "snd (ends ! 0) - snd (ends ! i) = lane_gap h i ys"
proof -
  have "old \<le> i \<Longrightarrow> lane_last h i 0 0 ys = (0, int (length ys))"
    using heap_okD(4) [OF assms(1), of i] lane_last_none [of ys h i 0 0] by auto
  then show e: "ends ! i = (lane_node h i ys, int (length ys) - lane_gap h i ys)"
    using assms(2,3) by (auto simp: nth_append end_at_def)
  have "0 < old" using assms(1) by (simp add: heap_ok_def)
  then have "ends ! 0 = end_at h ys 0" using assms(2) by (simp add: nth_append)
  then show "snd (ends ! 0) - snd (ends ! i) = lane_gap h i ys" by (simp add: e end_at_0 [OF assms(1)])
qed

lemma stretched_head:
  assumes "heap_ok h f old (ys @ zs)" and "levels \<le> sk_max_level"
    and "h1 = fold (\<lambda>i. set_span 0 i (int (length (ys @ zs)))) [old ..< levels] h" and "i < max old levels"
  shows "lane_ok h1 i 0 0 (ys @ zs)" "shape h1 = shape h"
proof -
  show sh: "shape h1 = shape h" unfolding assms(3) by simp
  have "levels \<le> length (nd_span (h 0))" using assms(1,2) by (simp add: heap_ok_def)
  then have w: "fwd h1 b j = fwd h b j"
    "spn h1 b j = (if b = 0 \<and> old \<le> j \<and> j < levels then int (length (ys @ zs)) else spn h b j)" for b j
    unfolding assms(3) using fold_set_span [of levels h 0 "int (length (ys @ zs))" old] by simp_all
  have t: "tall h1 i b = tall h i b" for b using shape_eq(3) [of h1 b h] sh by simp
  show "lane_ok h1 i 0 0 (ys @ zs)"
  proof (cases "i < old")
    case True
    then have "lane_ok h1 i 0 0 (ys @ zs) = lane_ok h i 0 0 (ys @ zs)"
      by (intro lane_ok_cong) (auto simp: w t)
    then show ?thesis using heap_okD(3) [OF assms(1) True] by simp
  next
    case False
    then have "\<forall>b \<in> set (ys @ zs). \<not> tall h1 i b" using heap_okD(4) [OF assms(1)] by (simp add: t)
    moreover have "fwd h 0 i = None" using assms(1,2,4) False by (auto simp: heap_ok_def)
    ultimately show ?thesis using w [of 0 i] False assms(4) by (subst lane_ok_empty) auto
  qed
qed

lemma insert_heap:
  assumes ok: "heap_ok h f old (ys @ zs)" and lv: "1 \<le> levels" "levels \<le> sk_max_level"
    and ends: "ends = map (end_at h ys) [0 ..< old] @ replicate (levels - old) (0, 0)"
    and h1: "h1 = fold (\<lambda>i. set_span 0 i (int (length (ys @ zs)))) [old ..< levels] h"
    and h2: "h2 = h1(f := \<lparr>nd_member = m, nd_score = sc, nd_forward = replicate levels None, nd_span = replicate levels 0\<rparr>)"
    and h4: "h4 = fold (stretch_level ends) [levels ..< max old levels] (fold (link_level ends f) [0 ..< levels] h2)"
  shows "heap_ok h4 (f + 1) (max old levels) (ys @ f # zs)" "\<forall>b \<in> set (0 # ys @ zs). shape h4 b = shape h b"
    "shape h4 f = (m, sc, levels, levels)"
proof -
  let ?L = "max old levels"
  have L: "?L \<le> sk_max_level" using ok lv by (simp add: heap_ok_def)
  note dis = heap_okD(1) [OF ok] and less = heap_okD(2) [OF ok]
  have nf: "b \<noteq> f" if "b \<in> set (0 # ys @ zs)" for b using less [OF that] by simp
  have sh1: "shape h1 = shape h" unfolding h1 by simp
  have sh2: "shape h4 = shape h2" unfolding h4 by simp
  have old: "shape h2 b = shape h b" if "b \<noteq> f" for b
    using sh1 that by (simp add: h2 shape_def fun_eq_iff)
  then show sh: "\<forall>b \<in> set (0 # ys @ zs). shape h4 b = shape h b" using nf sh2 by simp
  show shf: "shape h4 f = (m, sc, levels, levels)" unfolding sh2 by (simp add: h2 shape_def)
  have t4: "tall h4 i b = tall h i b" if "b \<in> set (0 # ys @ zs)" for i b using shape_eq(3) sh that by metis
  have t1: "tall h1 i b = tall h i b" for i b using shape_eq(3) sh1 by metis
  have tf: "tall h4 i f \<longleftrightarrow> i < levels" for i using shf by (simp add: shape_def tall_def)
  have l1: "lane_last h1 i 0 0 ys = lane_last h i 0 0 ys" for i by (rule lane_last_cong) (simp add: t1)
  have room: "lane_node h i ys \<noteq> f \<and> i < length (nd_forward (h2 (lane_node h i ys))) \<and> i < length (nd_span (h2 (lane_node h i ys)))"
    if "i < ?L" for i
    using lane_node_room [OF ok, of i] L that nf old shape_eq(4,5) [of h2 "lane_node h i ys" h] by simp
  note E = insert_ends [OF ok ends]
  have er: "\<forall>i < levels. fst (ends ! i) \<noteq> f \<and> i < length (nd_forward (h2 (fst (ends ! i)))) \<and> i < length (nd_span (h2 (fst (ends ! i))))"
    using E(1) room by simp
  have rf: "levels \<le> length (nd_forward (h2 f))" "levels \<le> length (nd_span (h2 f))" by (simp_all add: h2)
  note P = fold_link [OF er rf]
  have "\<forall>i. levels \<le> i \<longrightarrow> i < ?L \<longrightarrow> i < length (nd_span (fold (link_level ends f) [0 ..< levels] h2 (fst (ends ! i))))"
    using E(1) room by (simp add: lengths_fold)
  note Q = fold_stretch [OF this, folded h4]
  have f2: "fwd h2 b i = fwd h1 b i" "spn h2 b i = spn h1 b i" if "b \<noteq> f" for b i
    using that by (simp_all add: h2 fwd_def spn_def)
  have low: "fwd h4 f i = fwd h1 (lane_node h i ys) i" "spn h4 f i = spn h1 (lane_node h i ys) i - lane_gap h i ys"
    "fwd h4 (lane_node h i ys) i = Some f" "spn h4 (lane_node h i ys) i = lane_gap h i ys + 1" if "i < levels" for i
    using that room [of i] E [of i] f2 by (simp_all add: Q P)
  have high: "fwd h4 (lane_node h i ys) i = fwd h1 (lane_node h i ys) i"
    "spn h4 (lane_node h i ys) i = spn h1 (lane_node h i ys) i + 1" if "\<not> i < levels" "i < ?L" for i
    using that room [of i] E [of i] f2 by (simp_all add: Q P)
  have rest: "fwd h4 b i = fwd h1 b i \<and> spn h4 b i = spn h1 b i"
    if "i < ?L" "b \<in> set (0 # ys @ zs)" "b \<noteq> lane_node h i ys" for b i
    using that nf [OF that(2)] E [of i] f2 by (simp add: Q P)
  have lane: "lane_ok h4 i 0 0 (ys @ f # zs)" if i: "i < ?L" for i
  proof -
    have fr: "lane_frame h1 h4 i ys zs"
      using dis rest [OF i] t4 t1 by (simp add: lane_frame_def l1)
    note ins = lane_insert [OF fr stretched_head(1) [OF ok lv(2) h1 i], of f, unfolded l1]
    show ?thesis
    proof (cases "i < levels")
      case True
      then show ?thesis using ins(1) low [OF True] by (simp add: tf)
    next
      case False
      then show ?thesis using ins(2) high [OF False i] by (simp add: tf)
    qed
  qed
  have "fwd h4 0 i = None" if "?L \<le> i" "i < sk_max_level" for i
  proof -
    have "levels \<le> length (nd_span (h 0))" using ok lv by (simp add: heap_ok_def)
    then have "fwd h1 0 i = fwd h 0 i" unfolding h1 using fold_set_span by simp
    moreover have "fwd h 0 i = None" using ok that by (simp add: heap_ok_def)
    ultimately show ?thesis using that nf [of 0] f2 by (simp add: Q P)
  qed
  moreover have "1 \<le> length (nd_forward (h4 a)) \<and> length (nd_forward (h4 a)) \<le> ?L \<and>
      length (nd_span (h4 a)) = length (nd_forward (h4 a))" if "a \<in> set (ys @ f # zs)" for a
  proof (cases "a = f")
    case True
    then show ?thesis using shf lv by (simp add: shape_def)
  next
    case False
    then have a: "a \<in> set (ys @ zs)" using that by auto
    then have "shape h4 a = shape h a" using sh by simp
    moreover have "1 \<le> length (nd_forward (h a)) \<and> length (nd_forward (h a)) \<le> old \<and> length (nd_span (h a)) = length (nd_forward (h a))"
      using ok a by (simp add: heap_ok_def)
    ultimately show ?thesis using shape_eq(4,5) [of h4 a h] by (simp add: max.coboundedI1)
  qed
  moreover have "length (nd_forward (h4 0)) = sk_max_level" "length (nd_span (h4 0)) = sk_max_level"
    using sh ok shape_eq(4,5) [of h4 0 h] by (auto simp: heap_ok_def)
  moreover have "distinct (0 # ys @ f # zs)" using dis nf by auto
  moreover have "\<forall>a \<in> set (0 # ys @ f # zs). a < f + 1" using less by (auto intro: less_SucI)
  ultimately show "heap_ok h4 (f + 1) ?L (ys @ f # zs)"
    using lane L lv(1) by (simp add: heap_ok_def)
qed

lemma lane_ok_head: "lane_ok h i a d xs \<Longrightarrow> fwd h a i = None \<Longrightarrow> \<forall>b \<in> set xs. \<not> tall h i b"
  by (induction xs arbitrary: d) (auto split: if_splits)

lemma shrink_level_spec:
  "1 \<le> n \<Longrightarrow> 1 \<le> shrink_level h n \<and> shrink_level h n \<le> n \<and> (\<forall>i. shrink_level h n \<le> i \<longrightarrow> i < n \<longrightarrow> fwd h 0 i = None)"
  by (induction n) (auto simp: less_Suc_eq)

lemma target_found:
  assumes "heap_ok h fr level (ys @ f # zs)" "i < level"
  shows "fwd h (lane_node h i ys) i = Some f \<longleftrightarrow> tall h i f"
proof (cases "tall h i f")
  case True
  then show ?thesis using heap_okD(3) [OF assms(1,2)] by (simp add: lane_ok_append)
next
  case False
  then have "lane_ok h i (lane_node h i ys) (lane_gap h i ys + 1) zs"
    using heap_okD(3) [OF assms(1,2)] by (simp add: lane_ok_append)
  moreover have "f \<notin> set zs" using heap_okD(1) [OF assms(1)] by simp
  ultimately show ?thesis using False lane_ok_next by (metis nth_mem option.distinct(1) option.inject)
qed

lemma delete_heap:
  assumes ok: "heap_ok h fr level (ys @ f # zs)" and ends: "ends = map (end_at h ys) [0 ..< level]"
    and h': "h' = fold (unlink_level ends f) [0 ..< level] h"
  shows "heap_ok h' fr (shrink_level h' level) (ys @ zs)" "shape h' = shape h"
proof -
  have L: "level \<le> sk_max_level" "1 \<le> level" using ok by (simp_all add: heap_ok_def)
  note dis = heap_okD(1) [OF ok]
  show sh: "shape h' = shape h" unfolding h' by simp
  have t: "tall h' i b = tall h i b" for i b using shape_eq(3) sh by metis
  have e: "fst (ends ! i) = lane_node h i ys" if "i < level" for i using that by (simp add: ends end_at_def)
  have nf: "lane_node h i ys \<noteq> f" for i using lane_last_mem [of h i 0 0 ys] dis by auto
  have er: "\<forall>i < level. fst (ends ! i) \<noteq> f \<and> i < length (nd_forward (h (fst (ends ! i)))) \<and> i < length (nd_span (h (fst (ends ! i))))"
    using e nf lane_node_room(1,2) [OF ok] L by simp
  note P = fold_unlink [OF er, folded h']
  have lane: "lane_ok h' i 0 0 (ys @ zs)" if i: "i < level" for i
  proof -
    have "lane_frame h h' i ys zs" using dis by (auto simp: lane_frame_def t P e [OF i])
    note del = lane_delete [OF this heap_okD(3) [OF ok i]]
    show ?thesis
      using del target_found [OF ok i] i by (cases "tall h i f") (auto simp: P e [OF i])
  qed
  note shr = shrink_level_spec [OF L(2), of h']
  have short: "length (nd_forward (h' a)) \<le> shrink_level h' level" if "a \<in> set (ys @ zs)" for a
  proof (rule ccontr)
    let ?i = "shrink_level h' level"
    assume n: "\<not> length (nd_forward (h' a)) \<le> ?i"
    then have "tall h' ?i a" by (simp add: tall_def)
    moreover have "length (nd_forward (h' a)) \<le> level" using shape_eq(4) [of h' a h] sh ok that by (auto simp: heap_ok_def)
    ultimately have "?i < level" using n by simp
    then show False using lane_ok_head [OF lane] shr \<open>tall h' ?i a\<close> that by blast
  qed
  have "1 \<le> length (nd_forward (h' a)) \<and> length (nd_span (h' a)) = length (nd_forward (h' a))" if "a \<in> set (ys @ zs)" for a
    using shape_eq(4,5) [of h' a h] sh ok that by (auto simp: heap_ok_def)
  moreover have "length (nd_forward (h' 0)) = sk_max_level" "length (nd_span (h' 0)) = sk_max_level"
    using sh ok shape_eq(4,5) [of h' 0 h] by (auto simp: heap_ok_def)
  moreover have "fwd h' 0 i = None" if "shrink_level h' level \<le> i" "i < sk_max_level" for i
  proof (cases "i < level")
    case False
    then have "fwd h 0 i = None" using ok that by (simp add: heap_ok_def)
    then show ?thesis using False by (simp add: P)
  qed (use shr that in blast)
  ultimately show "heap_ok h' fr (shrink_level h' level) (ys @ zs)"
    using dis shr short lane L heap_okD(2) [OF ok] by (simp add: heap_ok_def)
qed

section \<open>The operations on the board\<close>

definition entry_key :: "board_entry \<Rightarrow> rat \<times> string" where
  "entry_key e = order_key (snd e) (fst e)"

definition listing :: "sk_heap \<Rightarrow> sk_addr list \<Rightarrow> board_entry list" where
  "listing h xs = map (\<lambda>a. (nd_member (h a), nd_score (h a))) xs"

lemma listing_simps [simp]:
  "listing h [] = []" "listing h (a # xs) = (nd_member (h a), nd_score (h a)) # listing h xs"
  "listing h (xs @ ys) = listing h xs @ listing h ys" "length (listing h xs) = length xs"
  by (simp_all add: listing_def)

lemma listing_take_drop: "take k (listing h xs) = listing h (take k xs)" "drop k (listing h xs) = listing h (drop k xs)"
  by (simp_all add: listing_def take_map drop_map)

lemma entry_key_node: "entry_key (nd_member (h a), nd_score (h a)) = node_key (h a)"
  by (simp add: entry_key_def node_key_def)

lemma entry_key_inject: "entry_key x = entry_key y \<longleftrightarrow> x = y"
  by (cases x; cases y) (auto simp: entry_key_def order_key_def)

definition sk_rep :: "sorted_set \<Rightarrow> sk_addr list \<Rightarrow> bool" where
  "sk_rep s xs \<longleftrightarrow> heap_ok (ss_heap s) (ss_fresh s) (ss_level s) xs \<and>
     sorted_wrt (\<lambda>x y. entry_key x < entry_key y) (listing (ss_heap s) xs) \<and> ss_length s = int (length xs)"

lemma listing_shape: "\<forall>a \<in> set xs. shape h' a = shape h a \<Longrightarrow> listing h' xs = listing h xs"
  by (auto simp: listing_def shape_def)

lemma split_at_key:
  assumes "sorted_wrt (\<lambda>x y. entry_key x < entry_key y) (listing h xs)"
  obtains ys zs where "xs = ys @ zs" "\<forall>a \<in> set ys. node_key (h a) < k" "\<forall>a \<in> set zs. \<not> node_key (h a) < k"
proof -
  let ?P = "\<lambda>a. node_key (h a) < k"
  have "\<not> ?P b" if b: "b \<in> set (dropWhile ?P xs)" for b
  proof -
    obtain c cs where c: "dropWhile ?P xs = c # cs" using b by (cases "dropWhile ?P xs") auto
    then have "\<not> ?P c" by (metis dropWhile_eq_Cons_conv)
    have "sorted_wrt (\<lambda>x y. entry_key x < entry_key y) (listing h (takeWhile ?P xs @ c # cs))"
      using assms by (simp add: c [symmetric])
    then have "\<forall>d \<in> set cs. node_key (h c) < node_key (h d)"
      by (auto simp: sorted_wrt_append listing_def entry_key_node)
    then show ?thesis using b c \<open>\<not> ?P c\<close> by auto
  qed
  then have dw: "\<forall>a \<in> set (dropWhile ?P xs). \<not> ?P a" by blast
  have tw: "\<forall>a \<in> set (takeWhile ?P xs). ?P a" using set_takeWhileD [of _ ?P xs] by blast
  show ?thesis by (rule that [OF _ tw dw]) (rule takeWhile_dropWhile_id [symmetric])
qed

lemma search_key:
  assumes "heap_ok h f level (ys @ zs)" "\<forall>a \<in> set ys. node_key (h a) < key" "\<forall>a \<in> set zs. \<not> node_key (h a) < key"
  shows "descend h (before_key key) level 0 0 = Some (map (end_at h ys) [0 ..< level])"
proof (rule descend_ends)
  show "before_key key t w (h ((ys @ zs) ! k)) \<longleftrightarrow> k < length ys" if "k < length (ys @ zs)" for t w :: int and k
    using that assms(2,3) nth_mem [of "k - length ys" zs] by (auto simp: before_key_def nth_append)
qed (use heap_okD(3) [OF assms(1)] in auto)

lemma search_position:
  assumes "heap_ok h f level xs" "n \<le> length xs"
  shows "descend h (up_to (int n)) level 0 0 = Some (map (end_at h (take n xs)) [0 ..< level])"
proof (rule descend_ends)
  show "up_to (int n) t w (h ((take n xs @ drop n xs) ! k)) \<longleftrightarrow> k < length (take n xs)"
    if "k < length (take n xs @ drop n xs)" "t + w = int k + 1" for t w :: int and k
    using that assms(2) by (auto simp: up_to_def)
  show "lane_ok h j 0 0 (take n xs @ drop n xs)" if "j < level" for j
    using assms(1) that by (simp add: heap_ok_def)
qed simp

lemma ends_first: "heap_ok h f level (ys @ zs) \<Longrightarrow> map (end_at h ys) [0 ..< level] ! 0 = (if ys = [] then 0 else last ys, int (length ys))"
  using end_at_0 [of h f level ys zs] by (simp add: heap_ok_def)

lemma count_above_rep:
  assumes "sk_rep s xs"
  shows "count_above score member s =
    Some (int (length (filter (\<lambda>e. entry_key e < order_key score member) (listing (ss_heap s) xs))))"
proof -
  obtain ys zs where s: "xs = ys @ zs" "\<forall>a \<in> set ys. node_key (ss_heap s a) < order_key score member"
      "\<forall>a \<in> set zs. \<not> node_key (ss_heap s a) < order_key score member"
    using split_at_key assms unfolding sk_rep_def by blast
  have ok: "heap_ok (ss_heap s) (ss_fresh s) (ss_level s) (ys @ zs)" using assms s(1) by (simp add: sk_rep_def)
  have "filter (\<lambda>e. entry_key e < order_key score member) (listing (ss_heap s) xs) = listing (ss_heap s) ys"
    using s by (auto simp: listing_def filter_map o_def entry_key_node filter_empty_conv filter_id_conv)
  then show ?thesis using search_key [OF ok s(2,3)] ends_first [OF ok] by (simp add: count_above_def)
qed

lemma take_entries_lane:
  "lane_ok h 0 a 0 zs \<Longrightarrow> \<forall>b \<in> set zs. tall h 0 b \<Longrightarrow> take_entries h k (fwd h a 0) = listing h (take k zs)"
proof (induction k arbitrary: a zs)
  case (Suc k)
  show ?case
  proof (cases zs)
    case (Cons b bs)
    then show ?thesis using Suc.prems Suc.IH [of b bs] by simp
  qed (use Suc.prems in simp)
qed simp

lemma heap_ok_level0:
  assumes "heap_ok h f level (ys @ zs)"
  shows "lane_ok h 0 (if ys = [] then 0 else last ys) 0 zs" "\<forall>b \<in> set (ys @ zs). tall h 0 b"
proof -
  have "0 < level" using assms by (simp add: heap_ok_def)
  from heap_okD(3) [OF assms this] show "lane_ok h 0 (if ys = [] then 0 else last ys) 0 zs"
    using lane_gap_0 [OF assms] by (auto simp: lane_ok_append split: if_splits)
  show "\<forall>b \<in> set (ys @ zs). tall h 0 b" using heap_okD(5) [OF assms] by blast
qed

lemma ss_top_rep:
  assumes "sk_rep s xs"
  shows "ss_top n s = (if n \<le> 0 then Inl ValidationError else Inr (take (nat n) (listing (ss_heap s) xs)))"
  using heap_ok_level0 [of "ss_heap s" "ss_fresh s" "ss_level s" "[]" xs] assms take_entries_lane [of "ss_heap s" 0 xs "nat n"]
  by (simp add: ss_top_def sk_rep_def listing_take_drop)

lemma ss_page_rep:
  assumes "sk_rep s xs"
  shows "ss_page start k s =
    Some (if start < 0 \<or> k \<le> 0 then Inl ValidationError else Inr (take (nat k) (drop (nat start) (listing (ss_heap s) xs))))"
proof (cases "start < 0 \<or> k \<le> 0")
  case False
  let ?h = "ss_heap s" and ?n = "min (nat start + 1) (length xs)"
  have ok: "heap_ok ?h (ss_fresh s) (ss_level s) (take ?n xs @ drop ?n xs)" using assms by (simp add: sk_rep_def)
  have "descend ?h (up_to (start + 1)) (ss_level s) 0 0 = Some (map (end_at ?h (take ?n xs)) [0 ..< ss_level s])"
  proof (rule descend_ends)
    show "up_to (start + 1) t w (?h ((take ?n xs @ drop ?n xs) ! j)) \<longleftrightarrow> j < length (take ?n xs)"
      if "j < length (take ?n xs @ drop ?n xs)" "t + w = int j + 1" for t w :: int and j
      using that False by (auto simp: up_to_def)
    show "lane_ok ?h j 0 0 (take ?n xs @ drop ?n xs)" if "j < ss_level s" for j using heap_okD(3) [OF ok that] .
  qed simp
  note d = this ends_first [OF ok]
  show ?thesis
  proof (cases "nat start < length xs")
    case True
    then have n: "?n = Suc (nat start)" by simp
    have t: "take ?n xs = take (nat start) xs @ [xs ! nat start]" using True by (simp add: n take_Suc_conv_app_nth)
    have dr: "drop (nat start) xs = xs ! nat start # drop ?n xs" using True by (simp add: n Cons_nth_drop_Suc)
    obtain k' where k': "nat k = Suc k'" using False by (cases "nat k") auto
    have "lane_ok ?h 0 (xs ! nat start) 0 (drop ?n xs)" using heap_ok_level0(1) [OF ok] unfolding t by simp
    moreover have "\<forall>b \<in> set (drop ?n xs). tall ?h 0 b" using heap_ok_level0(2) [OF ok] by (metis Un_iff set_append)
    ultimately have "take_entries ?h k' (fwd ?h (xs ! nat start) 0) = listing ?h (take k' (drop ?n xs))"
      by (rule take_entries_lane)
    moreover have "(if take ?n xs = [] then 0 else last (take ?n xs)) = xs ! nat start" by (simp only: t) simp
    then have "map (end_at ?h (take ?n xs)) [0 ..< ss_level s] ! 0 = (xs ! nat start, start + 1)"
      using ends_first [OF ok] False True by simp
    ultimately show ?thesis
      using d(1) False by (simp add: ss_page_def listing_take_drop dr k')
  next
    case False2: False
    then have "length (take ?n xs) = length xs" "drop (nat start) xs = []" by simp_all
    moreover have "int (length xs) \<noteq> start + 1" using False False2 by linarith
    ultimately show ?thesis using d False False2 by (simp add: ss_page_def Let_def listing_take_drop)
  qed
qed (auto simp: ss_page_def)

lemma random_level_range: "1 \<le> random_level draw \<and> random_level draw \<le> sk_max_level"
proof -
  have "m \<le> sk_max_level \<Longrightarrow> m \<le> random_level_loop draw m \<and> random_level_loop draw m \<le> sk_max_level" for m
  proof (induction draw m rule: random_level_loop.induct)
    case (1 draw m)
    show ?case
    proof (cases "m < sk_max_level \<and> draw m < 1 / 4")
      case True
      then show ?thesis using "1.IH" by (subst (1 2) random_level_loop.simps) (auto simp: Suc_leI)
    next
      case False
      then show ?thesis using "1.prems" by (subst (1 2) random_level_loop.simps) auto
    qed
  qed
  from this [of 1] show ?thesis by (simp add: random_level_def sk_max_level_def)
qed

lemma ss_link_rep:
  assumes "sk_rep s xs" and new: "\<forall>e \<in> set (listing (ss_heap s) xs). fst e \<noteq> member"
  shows "\<exists>s' xs'. ss_link draw member score s = Some s' \<and> sk_rep s' xs' \<and> ss_scores s' = ss_scores s \<and>
    set (listing (ss_heap s') xs') = insert (member, score) (set (listing (ss_heap s) xs))"
proof -
  let ?h = "ss_heap s" and ?lv = "random_level draw" and ?f = "ss_fresh s" and ?old = "ss_level s"
  obtain ys zs where s: "xs = ys @ zs" "\<forall>a \<in> set ys. node_key (?h a) < order_key score member"
      "\<forall>a \<in> set zs. \<not> node_key (?h a) < order_key score member"
    using split_at_key assms unfolding sk_rep_def by blast
  have ok: "heap_ok ?h ?f ?old (ys @ zs)" and srt: "sorted_wrt (\<lambda>x y. entry_key x < entry_key y) (listing ?h (ys @ zs))"
    and len: "ss_length s = int (length (ys @ zs))"
    using assms s(1) by (simp_all add: sk_rep_def)
  define ends where "ends = map (end_at ?h ys) [0 ..< ?old] @ replicate (?lv - ?old) (0, 0 :: int)"
  define h1 where "h1 = fold (\<lambda>i. set_span 0 i (int (length (ys @ zs)))) [?old ..< ?lv] ?h"
  define h2 where "h2 = h1(?f := \<lparr>nd_member = member, nd_score = score, nd_forward = replicate ?lv None, nd_span = replicate ?lv 0\<rparr>)"
  define h4 where "h4 = fold (stretch_level ends) [?lv ..< max ?old ?lv] (fold (link_level ends ?f) [0 ..< ?lv] h2)"
  note ins = insert_heap [OF ok _ _ ends_def h1_def h2_def h4_def]
  have lv: "1 \<le> ?lv" "?lv \<le> sk_max_level" using random_level_range by simp_all
  define s' where "s' = s\<lparr>ss_heap := h4, ss_fresh := ?f + 1, ss_level := max ?old ?lv, ss_length := ss_length s + 1\<rparr>"
  have "ss_link draw member score s = Some s'"
    using search_key [OF ok s(2,3)] len
    by (simp add: ss_link_def Let_def s'_def h4_def h2_def h1_def ends_def)
  moreover have "listing h4 ys = listing ?h ys" "listing h4 zs = listing ?h zs"
    using ins(2) [OF lv] by (auto intro!: listing_shape)
  moreover have "(nd_member (h4 ?f), nd_score (h4 ?f)) = (member, score)"
    using ins(3) [OF lv] by (simp add: shape_def)
  ultimately have l: "ss_link draw member score s = Some s'" "listing h4 (ys @ ?f # zs) = listing ?h ys @ (member, score) # listing ?h zs"
    by simp_all
  have "\<forall>x \<in> set (listing ?h ys). entry_key x < entry_key (member, score)"
    using s(2) by (auto simp: listing_def entry_key_node) (simp add: entry_key_def)
  moreover have "entry_key (member, score) < entry_key x" if x: "x \<in> set (listing ?h zs)" for x
  proof -
    obtain a where a: "a \<in> set zs" "x = (nd_member (?h a), nd_score (?h a))" using x by (auto simp: listing_def)
    then have "\<not> entry_key x < entry_key (member, score)" using s(3) by (simp add: entry_key_node) (simp add: entry_key_def)
    moreover have "fst x \<noteq> member" using new x s(1) by simp
    then have "entry_key x \<noteq> entry_key (member, score)" using entry_key_inject [of x "(member, score)"] by auto
    ultimately show ?thesis by simp
  qed
  ultimately have "sorted_wrt (\<lambda>x y. entry_key x < entry_key y) (listing h4 (ys @ ?f # zs))"
    using srt unfolding l(2) by (auto simp: sorted_wrt_append)
  then have "sk_rep s' (ys @ ?f # zs)" using ins(1) [OF lv] len by (simp add: sk_rep_def s'_def)
  moreover have "set (listing (ss_heap s') (ys @ ?f # zs)) = insert (member, score) (set (listing ?h xs))"
    unfolding s'_def s(1) by (simp add: l(2) del: listing_simps(2,3)) (simp add: insert_commute)
  ultimately show ?thesis using l(1) by (intro exI [of _ s'] exI [of _ "ys @ ?f # zs"]) (simp add: s'_def)
qed

lemma ss_unlink_rep:
  assumes "sk_rep s xs" and here: "(member, score) \<in> set (listing (ss_heap s) xs)"
  shows "\<exists>s' xs'. ss_unlink member score s = Some s' \<and> sk_rep s' xs' \<and> ss_scores s' = ss_scores s \<and>
    set (listing (ss_heap s') xs') = set (listing (ss_heap s) xs) - {(member, score)}"
proof -
  let ?h = "ss_heap s"
  obtain f where f: "f \<in> set xs" "nd_member (?h f) = member" "nd_score (?h f) = score"
    using here by (auto simp: listing_def)
  obtain ys zs where s: "xs = ys @ f # zs" using split_list [OF f(1)] by blast
  have ok: "heap_ok ?h (ss_fresh s) (ss_level s) (ys @ f # zs)"
    and srt: "sorted_wrt (\<lambda>x y. entry_key x < entry_key y) (listing ?h (ys @ f # zs))"
    and len: "ss_length s = int (length (ys @ f # zs))"
    using assms(1) s by (simp_all add: sk_rep_def)
  have key: "node_key (?h f) = order_key score member" by (simp add: node_key_def f)
  have l: "\<forall>a \<in> set ys. node_key (?h a) < order_key score member"
    and g: "\<forall>a \<in> set (f # zs). \<not> node_key (?h a) < order_key score member"
    using srt by (auto simp: sorted_wrt_append listing_def entry_key_node key [symmetric])
  define h' where "h' = fold (unlink_level (map (end_at ?h ys) [0 ..< ss_level s]) f) [0 ..< ss_level s] ?h"
  define s' where "s' = s\<lparr>ss_heap := h', ss_level := shrink_level h' (ss_level s), ss_length := ss_length s - 1\<rparr>"
  note del = delete_heap [OF ok refl h'_def]
  have "fwd ?h (if ys = [] then 0 else last ys) 0 = Some f"
    using heap_ok_level0 [OF ok] by (simp split: if_splits)
  then have un: "ss_unlink member score s = Some s'"
    using search_key [OF ok l g] ends_first [OF ok] f(2)
    by (simp add: ss_unlink_def s'_def h'_def Let_def split: option.splits)
  have lst: "listing h' (ys @ zs) = listing ?h ys @ listing ?h zs"
    using listing_shape [of "ys @ zs" h' ?h] del(2) by simp
  have "sk_rep s' (ys @ zs)"
    using del(1) srt len by (simp add: sk_rep_def s'_def lst del: listing_simps(3)) (auto simp: sorted_wrt_append)
  moreover have "(member, score) \<notin> set (listing ?h ys @ listing ?h zs)"
    using srt f(2,3) by (auto simp: sorted_wrt_append)
  then have "set (listing (ss_heap s') (ys @ zs)) = set (listing ?h xs) - {(member, score)}"
    by (auto simp: s'_def lst s f(2,3) simp del: listing_simps(3)) (auto simp: f(2,3))
  ultimately show ?thesis using un by (intro exI [of _ s'] exI [of _ "ys @ zs"]) (simp add: s'_def)
qed

section \<open>Refinement of a dict\<close>

text \<open>What a board is: the items of the dict from member to score in the order of \<^verbatim>\<open>order_key\<close>.\<close>

definition board_of :: "(string, rat) dict \<Rightarrow> board_entry list" where
  "board_of d = sort_key entry_key d"

definition sk_inv :: "sorted_set \<Rightarrow> sk_addr list \<Rightarrow> bool" where
  "sk_inv s xs \<longleftrightarrow> sk_rep s xs \<and> dict_ok (ss_scores s) \<and> set (listing (ss_heap s) xs) = set (ss_scores s)"

lemma sorted_entries_distinct: "sorted_wrt (\<lambda>x y. entry_key x < entry_key y) l \<Longrightarrow> distinct l"
  by (induction l) auto

lemma sorted_entries_board:
  assumes "sorted_wrt (\<lambda>x y. entry_key x < entry_key y) l" "dict_ok d" "set l = set d"
  shows "l = board_of d"
proof -
  have "distinct d" using assms(2) by (simp add: dict_ok_def distinct_map)
  then have "mset d = mset l"
    using set_eq_iff_mset_eq_distinct [OF _ sorted_entries_distinct [OF assms(1)], of d] assms(3) by simp
  moreover have "inj_on entry_key (set d)" by (simp add: inj_on_def entry_key_inject)
  moreover have "sorted (map entry_key l)"
    using assms(1) by (simp add: sorted_map) (rule sorted_wrt_mono_rel, auto)
  ultimately show ?thesis unfolding board_of_def using sort_key_inj_key_eq by metis
qed

lemma sk_inv_board: "sk_inv s xs \<Longrightarrow> listing (ss_heap s) xs = board_of (ss_scores s)"
  by (intro sorted_entries_board) (simp_all add: sk_inv_def sk_rep_def)

lemma board_facts:
  "dict_ok d \<Longrightarrow> sorted_wrt (\<lambda>x y. entry_key x < entry_key y) (board_of d)" "set (board_of d) = set d"
  "length (board_of d) = length d"
proof -
  show "set (board_of d) = set d" "length (board_of d) = length d" by (simp_all add: board_of_def)
  assume "dict_ok d"
  then have "distinct (map entry_key (board_of d))"
    by (auto simp: board_of_def distinct_map dict_ok_def inj_on_def entry_key_inject)
  moreover have "sorted (map entry_key (board_of d))" by (simp add: board_of_def)
  ultimately have "sorted_wrt (<) (map entry_key (board_of d))" by (simp add: strict_sorted_iff)
  then show "sorted_wrt (\<lambda>x y. entry_key x < entry_key y) (board_of d)" by (simp add: sorted_wrt_map)
qed

lemma sk_inv_new: "sk_inv sorted_set_new []"
  by (auto simp: sk_inv_def sk_rep_def heap_ok_def sorted_set_new_def sk_max_level_def fwd_def spn_def dict_ok_def)

lemma dict_set_same: "dict_get d k = Some v \<Longrightarrow> dict_set k v d = d"
  by (induction d) (auto split: if_splits)

lemma sk_inv_members:
  assumes "sk_inv s xs"
  shows "(m, sc) \<in> set (listing (ss_heap s) xs) \<longleftrightarrow> dict_get (ss_scores s) m = Some sc"
  using assms dict_get_mem [of "ss_scores s" m sc] by (simp add: sk_inv_def)

lemma sk_rep_scores: "sk_rep (s\<lparr>ss_scores := d\<rparr>) xs = sk_rep s xs"
  by (simp add: sk_rep_def)

lemma ss_add_inv:
  assumes "sk_inv s xs"
  shows "\<exists>s' xs'. ss_add draw m sc s = Some s' \<and> sk_inv s' xs' \<and> ss_scores s' = dict_set m sc (ss_scores s)"
proof -
  have insert_it: "\<exists>s' xs'. map_option (\<lambda>s2. s2\<lparr>ss_scores := dict_set m sc (ss_scores s2)\<rparr>) (ss_link draw m sc s1) = Some s' \<and>
      sk_inv s' xs' \<and> ss_scores s' = dict_set m sc (ss_scores s)"
    if r: "sk_rep s1 xs1" "ss_scores s1 = ss_scores s"
      "set (listing (ss_heap s1) xs1) = {e \<in> set (ss_scores s). fst e \<noteq> m}" for s1 xs1
  proof -
    have "\<forall>e \<in> set (listing (ss_heap s1) xs1). fst e \<noteq> m" using r(3) by simp
    from ss_link_rep [OF r(1) this, of draw sc] obtain s2 xs2
      where s2: "ss_link draw m sc s1 = Some s2" "sk_rep s2 xs2" "ss_scores s2 = ss_scores s1"
        "set (listing (ss_heap s2) xs2) = insert (m, sc) (set (listing (ss_heap s1) xs1))" by blast
    have "set (dict_set m sc (ss_scores s)) = insert (m, sc) {e \<in> set (ss_scores s). fst e \<noteq> m}"
      using assms set_dict_set by (fastforce simp: sk_inv_def)
    then have "sk_inv (s2\<lparr>ss_scores := dict_set m sc (ss_scores s)\<rparr>) xs2"
      using s2 r(2,3) assms by (simp add: sk_inv_def sk_rep_scores)
    then show ?thesis using s2(1,3) r(2) by auto
  qed
  show ?thesis
  proof (cases "dict_get (ss_scores s) m")
    case None
    then have "set (listing (ss_heap s) xs) = {e \<in> set (ss_scores s). fst e \<noteq> m}"
      using assms by (auto simp: sk_inv_def dict_get_None image_iff)
    then show ?thesis using insert_it [of s xs] assms None by (simp add: ss_add_def Let_def sk_inv_def)
  next
    case (Some cur)
    show ?thesis
    proof (cases "cur = sc")
      case True
      then show ?thesis using assms Some dict_set_same by (fastforce simp: ss_add_def Let_def)
    next
      case False
      have "(m, cur) \<in> set (listing (ss_heap s) xs)" using sk_inv_members [OF assms] Some by blast
      then obtain s1 xs1 where s1: "ss_unlink m cur s = Some s1" "sk_rep s1 xs1" "ss_scores s1 = ss_scores s"
          "set (listing (ss_heap s1) xs1) = set (listing (ss_heap s) xs) - {(m, cur)}"
        using ss_unlink_rep [of s xs m cur] assms by (auto simp: sk_inv_def)
      have "set (listing (ss_heap s1) xs1) = {e \<in> set (ss_scores s). fst e \<noteq> m}"
        using s1(4) assms Some dict_get_mem [of "ss_scores s" m] by (auto simp: sk_inv_def)
      then show ?thesis using insert_it [OF s1(2,3)] s1(1) Some False by (simp add: ss_add_def Let_def)
    qed
  qed
qed

lemma ss_remove_inv:
  assumes "sk_inv s xs"
  shows "\<exists>s' xs'. ss_remove m s = Some (dict_get (ss_scores s) m \<noteq> None, s') \<and> sk_inv s' xs' \<and>
    ss_scores s' = dict_del m (ss_scores s)"
proof (cases "dict_get (ss_scores s) m")
  case None
  then have "dict_del m (ss_scores s) = ss_scores s" by (simp add: dict_get_None delete_id)
  then show ?thesis using assms None by (auto simp: ss_remove_def)
next
  case (Some cur)
  let ?s = "s\<lparr>ss_scores := dict_del m (ss_scores s)\<rparr>"
  have "(m, cur) \<in> set (listing (ss_heap ?s) xs)" "sk_rep ?s xs"
    using sk_inv_members [OF assms] Some assms by (simp_all add: sk_inv_def sk_rep_scores)
  then obtain s1 xs1 where s1: "ss_unlink m cur ?s = Some s1" "sk_rep s1 xs1" "ss_scores s1 = dict_del m (ss_scores s)"
      "set (listing (ss_heap s1) xs1) = set (listing (ss_heap s) xs) - {(m, cur)}"
    using ss_unlink_rep [of ?s xs m cur] by auto
  have "set (dict_del m (ss_scores s)) = set (listing (ss_heap s) xs) - {(m, cur)}"
    using assms Some dict_get_mem [of "ss_scores s" m] by (auto simp: sk_inv_def set_dict_del)
  then have "sk_inv s1 xs1" using s1 assms by (simp add: sk_inv_def)
  then show ?thesis using s1 Some by (auto simp: ss_remove_def)
qed

section \<open>What the sorted set promises\<close>

datatype sk_op = Sk_Add "nat \<Rightarrow> rat" string rat | Sk_Remove string

fun sk_run :: "sk_op list \<Rightarrow> sorted_set \<Rightarrow> sorted_set option" where
  "sk_run [] s = Some s"
| "sk_run (Sk_Add draw m sc # ops) s = (case ss_add draw m sc s of None \<Rightarrow> None | Some s' \<Rightarrow> sk_run ops s')"
| "sk_run (Sk_Remove m # ops) s = (case ss_remove m s of None \<Rightarrow> None | Some (_, s') \<Rightarrow> sk_run ops s')"

fun dict_run :: "sk_op list \<Rightarrow> (string, rat) dict \<Rightarrow> (string, rat) dict" where
  "dict_run [] d = d"
| "dict_run (Sk_Add draw m sc # ops) d = dict_run ops (dict_set m sc d)"
| "dict_run (Sk_Remove m # ops) d = dict_run ops (dict_del m d)"

lemma sk_run_inv:
  "sk_inv s xs \<Longrightarrow> \<exists>s' xs'. sk_run ops s = Some s' \<and> sk_inv s' xs' \<and> ss_scores s' = dict_run ops (ss_scores s)"
proof (induction ops arbitrary: s xs)
  case (Cons op ops)
  show ?case
  proof (cases op)
    case (Sk_Add draw m sc)
    from ss_add_inv [OF Cons.prems, of draw m sc] obtain s1 xs1
      where "ss_add draw m sc s = Some s1" "sk_inv s1 xs1" "ss_scores s1 = dict_set m sc (ss_scores s)" by blast
    then show ?thesis using Cons.IH [of s1 xs1] Sk_Add by simp
  next
    case (Sk_Remove m)
    from ss_remove_inv [OF Cons.prems, of m] obtain b s1 xs1
      where "ss_remove m s = Some (b, s1)" "sk_inv s1 xs1" "ss_scores s1 = dict_del m (ss_scores s)" by blast
    then show ?thesis using Cons.IH [of s1 xs1] Sk_Remove by simp
  qed
qed auto

text \<open>The position of an entry of a strictly sorted list is the number of entries before it.\<close>

lemma sorted_position:
  "sorted_wrt (\<lambda>x y. entry_key x < entry_key y) l \<Longrightarrow> e \<in> set l \<Longrightarrow>
     (let r = length (filter (\<lambda>x. entry_key x < entry_key e) l) in r < length l \<and> l ! r = e)"
proof (induction l)
  case (Cons x l)
  show ?case
  proof (cases "e = x")
    case True
    then have "filter (\<lambda>y. entry_key y < entry_key e) (x # l) = []"
      using Cons.prems(1) by (auto simp: filter_empty_conv)
    then show ?thesis using True by (simp only: Let_def) simp
  next
    case False
    then have "entry_key x < entry_key e" using Cons.prems by auto
    then show ?thesis using Cons False by (simp add: Let_def)
  qed
qed simp

text \<open>C12. The skip list implements a sorted dict: after any sequence of adds and removes, with any
  random draws, every operation has returned and answers as the dict of the same updates does,
  listed from the highest score down with ties in member order. The length and the scores are
  those of the dict, \<^verbatim>\<open>count_above\<close> is the number of entries sorted before the given one, a member's
  \<^verbatim>\<open>rank\<close> is its position, and \<^verbatim>\<open>top\<close> and \<^verbatim>\<open>page\<close> are slices of the listing.
\<close>

theorem sorted_set_refines:
  "\<exists>s. sk_run ops sorted_set_new = Some s \<and>
    (let d = dict_run ops []; board = board_of d in
     ss_length s = int (length d) \<and> (\<forall>m. score_of m s = dict_get d m) \<and>
     (\<forall>sc m. count_above sc m s = Some (int (length (filter (\<lambda>e. entry_key e < order_key sc m) board)))) \<and>
     (\<forall>m. case dict_get d m of
          None \<Rightarrow> ss_rank m s = Some (Inl NotFoundError)
        | Some sc \<Rightarrow> (\<exists>r < length board. ss_rank m s = Some (Inr (int r)) \<and> board ! r = (m, sc))) \<and>
     (\<forall>n. ss_top n s = (if n \<le> 0 then Inl ValidationError else Inr (take (nat n) board))) \<and>
     (\<forall>start k. ss_page start k s =
        Some (if start < 0 \<or> k \<le> 0 then Inl ValidationError else Inr (take (nat k) (drop (nat start) board)))))"
proof -
  obtain s xs where s: "sk_run ops sorted_set_new = Some s" "sk_inv s xs" "ss_scores s = dict_run ops []"
    using sk_run_inv [OF sk_inv_new, of ops] by (auto simp: sorted_set_new_def)
  let ?d = "dict_run ops []"
  have rep: "sk_rep s xs" and ok: "dict_ok ?d" using s(2,3) by (simp_all add: sk_inv_def)
  have l: "listing (ss_heap s) xs = board_of ?d" using sk_inv_board [OF s(2)] s(3) by simp
  have "case dict_get ?d m of
          None \<Rightarrow> ss_rank m s = Some (Inl NotFoundError)
        | Some sc \<Rightarrow> (\<exists>r < length (board_of ?d). ss_rank m s = Some (Inr (int r)) \<and> board_of ?d ! r = (m, sc))" for m
  proof (cases "dict_get ?d m")
    case (Some sc)
    then have "(m, sc) \<in> set (board_of ?d)" using board_facts(2) dict_get_mem [OF ok] by blast
    from sorted_position [OF board_facts(1) [OF ok] this] show ?thesis
      using Some s(3) count_above_rep [OF rep, of sc m] by (auto simp: ss_rank_def l entry_key_def Let_def)
  qed (simp add: ss_rank_def s(3))
  moreover have "ss_length s = int (length ?d)"
    using rep l board_facts(3) [of ?d] by (metis listing_simps(4) sk_rep_def)
  ultimately show ?thesis
    using s(1,3) count_above_rep [OF rep] ss_top_rep [OF rep] ss_page_rep [OF rep]
    by (intro exI [of _ s]) (simp add: Let_def l score_of_def)
qed

end
