(* ===== verification/Leaderboard.thy ===== *)
theory Leaderboard
  imports Sorted_Set "HOL-Library.Word"
begin

unbundle bit_operations_syntax

text \<open>
  The two upper layers of \<^verbatim>\<open>code/hld/leaderboard_sorted_set.py\<close>: the board sharded over sorted sets
  by a checksum of the member, whose global reads gather from every shard, and the periodic
  boards keyed by time bucket and retired by their expiry.

  A submitted score is a float, which may be infinite or not a number; the stored ones are finite.
  An operation that needs a walk of a sorted set is \<open>None\<close> when the walk does not return.
\<close>

section \<open>Sharding\<close>

text \<open>\<^verbatim>\<open>zlib.crc32\<close> over the bytes of a member id.\<close>

definition crc32_bit :: "32 word \<Rightarrow> 32 word" where
  "crc32_bit c = (if bit c 0 then drop_bit 1 c XOR 0xEDB88320 else drop_bit 1 c)"

definition crc32_byte :: "char \<Rightarrow> 32 word \<Rightarrow> 32 word" where
  "crc32_byte b c = (crc32_bit ^^ 8) (c XOR of_char b)"

definition crc32 :: "string \<Rightarrow> 32 word" where
  "crc32 bytes = fold crc32_byte bytes 0xFFFFFFFF XOR 0xFFFFFFFF"

datatype py_float = Finite rat | Infinite | Negative_Infinite | Not_A_Number

record sharded_board =
  sb_max_score :: rat
  sb_sets :: "sorted_set list"

record ranked_entry =
  re_rank :: int
  re_member :: string
  re_score :: rat

definition sharded_new :: "int \<Rightarrow> rat \<Rightarrow> sharded_board result" where
  "sharded_new shards max_score =
     (if shards \<le> 0 then Inl ValidationError
      else Inr \<lparr>sb_max_score = max_score, sb_sets = replicate (nat shards) sorted_set_new\<rparr>)"

definition sb_length :: "sharded_board \<Rightarrow> int" where
  "sb_length b = sum_list (map ss_length (sb_sets b))"

definition shard_for :: "string \<Rightarrow> sharded_board \<Rightarrow> nat" where
  "shard_for member b = unat (crc32 member) mod length (sb_sets b)"

definition sb_submit ::
  "(nat \<Rightarrow> rat) \<Rightarrow> bool \<Rightarrow> string \<Rightarrow> py_float \<Rightarrow> sharded_board \<Rightarrow> (rat result \<times> sharded_board) option" where
  "sb_submit draw best_only member score b =
     (if member = [] then Some (Inl ValidationError, b)
      else case score of
             Finite sc \<Rightarrow>
               if sc < 0 then Some (Inl ValidationError, b)
               else if sb_max_score b < sc then Some (Inl ValidationError, b)
               else (let index = shard_for member b; s = sb_sets b ! index;
                         keep = (case score_of member s of None \<Rightarrow> None | Some current \<Rightarrow>
                                   if best_only \<and> sc \<le> current then Some current else None)
                     in case keep of
                          Some current \<Rightarrow> Some (Inr current, b)
                        | None \<Rightarrow> map_option (\<lambda>s'. (Inr sc, b\<lparr>sb_sets := (sb_sets b)[index := s']\<rparr>)) (ss_add draw member sc s))
           | _ \<Rightarrow> Some (Inl ValidationError, b))"

definition sb_score_of :: "string \<Rightarrow> sharded_board \<Rightarrow> rat result" where
  "sb_score_of member b =
     (case score_of member (sb_sets b ! shard_for member b) of None \<Rightarrow> Inl NotFoundError | Some sc \<Rightarrow> Inr sc)"

text \<open>\<^verbatim>\<open>enumerate\<close> into rows, from a first rank on.\<close>

fun rank_rows :: "int \<Rightarrow> board_entry list \<Rightarrow> ranked_entry list" where
  "rank_rows r [] = []"
| "rank_rows r (e # es) = \<lparr>re_rank = r, re_member = fst e, re_score = snd e\<rparr> # rank_rows (r + 1) es"

fun gather_tops :: "int \<Rightarrow> sorted_set list \<Rightarrow> board_entry list list result" where
  "gather_tops limit [] = Inr []"
| "gather_tops limit (s # sets) =
     (case ss_top limit s of Inl e \<Rightarrow> Inl e | Inr page \<Rightarrow>
      (case gather_tops limit sets of Inl e \<Rightarrow> Inl e | Inr pages \<Rightarrow> Inr (page # pages)))"

definition sb_top :: "int \<Rightarrow> sharded_board \<Rightarrow> ranked_entry list result" where
  "sb_top limit b =
     (if limit \<le> 0 then Inl ValidationError
      else case gather_tops limit (sb_sets b) of
             Inl e \<Rightarrow> Inl e
           | Inr pages \<Rightarrow> Inr (rank_rows 0 (take (nat limit) (heapq_merge_by entry_key pages))))"

fun count_loop :: "rat \<Rightarrow> string \<Rightarrow> sorted_set list \<Rightarrow> int \<Rightarrow> int option" where
  "count_loop score member [] acc = Some acc"
| "count_loop score member (s # sets) acc =
     (case count_above score member s of None \<Rightarrow> None | Some n \<Rightarrow> count_loop score member sets (acc + n))"

definition sb_rank :: "string \<Rightarrow> sharded_board \<Rightarrow> int result option" where
  "sb_rank member b =
     (case sb_score_of member b of
        Inl e \<Rightarrow> Some (Inl e)
      | Inr score \<Rightarrow> map_option Inr (count_loop score member (sb_sets b) 0))"

text \<open>The windows of \<^verbatim>\<open>neighbours\<close>, one per shard.\<close>

fun window_loop :: "rat \<Rightarrow> string \<Rightarrow> int \<Rightarrow> sorted_set list \<Rightarrow> board_entry list \<Rightarrow> board_entry list result option" where
  "window_loop score member radius [] window = Some (Inr window)"
| "window_loop score member radius (s # sets) window =
     (case count_above score member s of
        None \<Rightarrow> None
      | Some local \<Rightarrow>
          (case ss_page (max 0 (local - radius)) (2 * radius + 1) s of
             None \<Rightarrow> None
           | Some (Inl e) \<Rightarrow> Some (Inl e)
           | Some (Inr page) \<Rightarrow> window_loop score member radius sets (window @ page)))"

fun find_member :: "nat \<Rightarrow> string \<Rightarrow> board_entry list \<Rightarrow> nat option" where
  "find_member i member [] = None"
| "find_member i member (e # es) = (if fst e = member then Some i else find_member (Suc i) member es)"

definition sb_neighbours :: "string \<Rightarrow> int \<Rightarrow> sharded_board \<Rightarrow> ranked_entry list result option" where
  "sb_neighbours member radius b =
     (if radius < 0 then Some (Inl ValidationError)
      else case sb_score_of member b of
             Inl e \<Rightarrow> Some (Inl e)
           | Inr score \<Rightarrow>
               (case window_loop score member radius (sb_sets b) [] of
                  None \<Rightarrow> None
                | Some (Inl e) \<Rightarrow> Some (Inl e)
                | Some (Inr entries) \<Rightarrow>
                    (let window = sort_key entry_key entries
                     in case find_member 0 member window of
                          None \<Rightarrow> Some (Inl StopIteration)
                        | Some centre \<Rightarrow>
                            (let low = max 0 (int centre - radius)
                             in case sb_rank member b of
                                  None \<Rightarrow> None
                                | Some (Inl e) \<Rightarrow> Some (Inl e)
                                | Some (Inr r) \<Rightarrow>
                                    Some (Inr (rank_rows (r - (int centre - low))
                                      (take (nat (int centre + radius + 1 - low)) (drop (nat low) window))))))))"

section \<open>Periodic boards\<close>

record period =
  pe_name :: string
  pe_bucket :: int
  pe_ttl :: int

definition pe_key :: "period \<Rightarrow> time \<Rightarrow> string" where
  "pe_key p now =
     (if pe_bucket p = 0 then pe_name p else pe_name p @ '':'' @ str_of_int \<lfloor>now / of_int (pe_bucket p)\<rfloor>)"

definition pe_expires_at :: "period \<Rightarrow> time \<Rightarrow> rat option" where
  "pe_expires_at p now =
     (if pe_bucket p = 0 then None
      else Some (of_int ((\<lfloor>now / of_int (pe_bucket p)\<rfloor> + 1) * pe_bucket p + pe_ttl p)))"

record periodic_boards =
  pb_periods :: "period list"
  pb_shards :: int
  pb_boards :: "(string, sharded_board) dict"
  pb_expiry :: "(string, rat) dict"

definition periodic_new :: "period list \<Rightarrow> int \<Rightarrow> periodic_boards result" where
  "periodic_new periods shards =
     (if periods = [] then Inl ValidationError
      else Inr \<lparr>pb_periods = periods, pb_shards = shards, pb_boards = [], pb_expiry = []\<rparr>)"

text \<open>\<^verbatim>\<open>_board\<close>: the board of a key, made with the default ceiling \<open>10\<^sup>9\<close> when it is new.\<close>

definition pb_board :: "string \<Rightarrow> period \<Rightarrow> time \<Rightarrow> periodic_boards \<Rightarrow> sharded_board result \<times> periodic_boards" where
  "pb_board key p now pb =
     (case dict_get (pb_boards pb) key of
        Some b \<Rightarrow> (Inr b, pb)
      | None \<Rightarrow>
          (case sharded_new (pb_shards pb) 1000000000 of
             Inl e \<Rightarrow> (Inl e, pb)
           | Inr b \<Rightarrow>
               (Inr b, pb\<lparr>pb_boards := dict_set key b (pb_boards pb),
                          pb_expiry := (case pe_expires_at p now of None \<Rightarrow> pb_expiry pb
                                        | Some expiry \<Rightarrow> dict_set key expiry (pb_expiry pb))\<rparr>)))"

text \<open>
  \<^verbatim>\<open>submit\<close> over the periods still to be written; the board written is the one the dict refers to, and
  \<open>draws i\<close> are the random draws of the board of period \<open>i\<close>.
\<close>

fun pb_submit_loop ::
  "(nat \<Rightarrow> nat \<Rightarrow> rat) \<Rightarrow> string \<Rightarrow> py_float \<Rightarrow> time \<Rightarrow> period list \<Rightarrow> string list \<Rightarrow> periodic_boards \<Rightarrow>
     (string list result \<times> periodic_boards) option" where
  "pb_submit_loop draws member score now [] keys pb = Some (Inr keys, pb)"
| "pb_submit_loop draws member score now (p # ps) keys pb =
     (let key = pe_key p now
      in case pb_board key p now pb of
           (Inl e, pb1) \<Rightarrow> Some (Inl e, pb1)
         | (Inr b, pb1) \<Rightarrow>
             (case sb_submit (draws (length keys)) True member score b of
                None \<Rightarrow> None
              | Some (Inl e, _) \<Rightarrow> Some (Inl e, pb1)
              | Some (Inr _, b') \<Rightarrow>
                  pb_submit_loop draws member score now ps (keys @ [key])
                    (pb1\<lparr>pb_boards := dict_set key b' (pb_boards pb1)\<rparr>)))"

definition pb_submit ::
  "(nat \<Rightarrow> nat \<Rightarrow> rat) \<Rightarrow> string \<Rightarrow> py_float \<Rightarrow> time \<Rightarrow> periodic_boards \<Rightarrow> (string list result \<times> periodic_boards) option" where
  "pb_submit draws member score now pb = pb_submit_loop draws member score now (pb_periods pb) [] pb"

definition pb_named_board :: "string \<Rightarrow> time \<Rightarrow> periodic_boards \<Rightarrow> sharded_board result" where
  "pb_named_board name now pb =
     (case find (\<lambda>p. pe_name p = name) (pb_periods pb) of
        None \<Rightarrow> Inl StopIteration
      | Some p \<Rightarrow> (case dict_get (pb_boards pb) (pe_key p now) of None \<Rightarrow> Inl NotFoundError | Some b \<Rightarrow> Inr b))"

definition pb_keys :: "periodic_boards \<Rightarrow> string list" where
  "pb_keys pb = sort (dict_keys (pb_boards pb))"

definition pb_expire :: "time \<Rightarrow> periodic_boards \<Rightarrow> string list \<times> periodic_boards" where
  "pb_expire now pb =
     (let dead = sort (dict_keys (filter (\<lambda>(_, expiry). expiry \<le> now) (pb_expiry pb)))
      in (dead, pb\<lparr>pb_boards := fold dict_del dead (pb_boards pb), pb_expiry := fold dict_del dead (pb_expiry pb)\<rparr>))"

section \<open>Shards of one sorted list\<close>

abbreviation ranked :: "board_entry list \<Rightarrow> bool" where
  "ranked \<equiv> sorted_wrt (\<lambda>x y. entry_key x < entry_key y)"

lemma ranked_unique:
  assumes "ranked xs" "ranked ys" "set xs = set ys"
  shows "xs = ys"
proof -
  have "map entry_key xs = map entry_key ys"
    using assms by (intro strict_sorted_equal) (simp_all add: sorted_wrt_map)
  then show ?thesis by (rule map_injective) (simp add: inj_on_def entry_key_inject)
qed

lemma ranked_filter: "ranked xs \<Longrightarrow> ranked (filter P xs)"
  by (rule sorted_wrt_filter)

lemma ranked_sorted: "distinct xs \<Longrightarrow> sorted (map entry_key xs) \<Longrightarrow> ranked xs"
  using strict_sorted_iff [of "map entry_key xs"]
  by (simp add: sorted_wrt_map distinct_map inj_on_def entry_key_inject)

lemma sum_of_shards:
  "\<forall>e \<in> set xs. f e < n \<Longrightarrow> (\<Sum>i \<leftarrow> [0 ..< n]. int (length (filter P (filter (\<lambda>e. f e = i) xs)))) = int (length (filter P xs))"
proof (induction xs)
  case (Cons e xs)
  have one: "(\<Sum>i \<leftarrow> [0 ..< m]. if f e = i then c else 0) = (if f e < m then c else 0)" for m and c :: int
    by (induction m) auto
  have "(\<Sum>i \<leftarrow> [0 ..< n]. int (length (filter P (filter (\<lambda>e. f e = i) (e # xs))))) =
      (\<Sum>i \<leftarrow> [0 ..< n]. (if f e = i then if P e then 1 else 0 else 0) + int (length (filter P (filter (\<lambda>e. f e = i) xs))))"
    by (intro arg_cong [where f = sum_list] map_cong) auto
  also have "\<dots> = (if P e then 1 else 0) + int (length (filter P xs))"
    using Cons one [of "if P e then 1 else 0" n] by (simp add: sum_list_addf)
  finally show ?case by simp
qed simp

lemma distinct_shards:
  "(\<And>i. i < n \<Longrightarrow> distinct (g i) \<and> (\<forall>e \<in> set (g i). f e = i)) \<Longrightarrow> distinct (concat (map g [0 ..< n]))"
proof (induction n)
  case (Suc n)
  have "f e < n" if e: "e \<in> set (concat (map g [0 ..< n]))" for e
  proof -
    obtain i where i: "i < n" "e \<in> set (g i)" using e by auto
    then have "f e = i" using Suc.prems [of i] by simp
    then show ?thesis using i(1) by simp
  qed
  moreover have "f e = n" if "e \<in> set (g n)" for e using that Suc.prems by blast
  ultimately have "set (concat (map g [0 ..< n])) \<inter> set (g n) = {}" by fastforce
  then show ?case using Suc by simp
qed simp

text \<open>The first and the last \<open>k\<close> of a list are among the first and the last \<open>k\<close> of each of their shards.\<close>

lemma take_in_shard: "e \<in> set (take k xs) \<Longrightarrow> P e \<Longrightarrow> e \<in> set (take k (filter P xs))"
proof -
  assume e: "e \<in> set (take k xs)" "P e"
  obtain ys zs where s: "take k xs = ys @ e # zs" using split_list [OF e(1)] by blast
  have "length (take k xs) = length ys + Suc (length zs)" using s by simp
  then have k: "length ys < k" by simp
  have "xs = ys @ e # zs @ drop k xs" using s by (metis append.assoc append_Cons append_take_drop_id)
  then have f: "filter P xs = filter P ys @ e # filter P (zs @ drop k xs)" using e(2) by (metis filter.simps(2) filter_append)
  have "length (filter P ys) < k" using k length_filter_le le_less_trans by blast
  then obtain j where "k - length (filter P ys) = Suc j" by (metis Suc_diff_Suc)
  then show ?thesis unfolding f by simp
qed

lemma drop_in_shard: "e \<in> set (drop (length xs - k) xs) \<Longrightarrow> P e \<Longrightarrow> e \<in> set (drop (length (filter P xs) - k) (filter P xs))"
  using take_in_shard [of e k "rev xs" P] by (simp add: take_rev rev_filter [symmetric])

text \<open>
  The first \<open>k\<close> of every shard, merged: their first \<open>k\<close> are the first \<open>k\<close> of the whole.
\<close>

lemma merged_tops:
  assumes "ranked B" "ranked M" "set M \<subseteq> set B" "\<And>e. e \<in> set B \<Longrightarrow> e \<in> set (take k (filter (\<lambda>x. f x = f e) B)) \<Longrightarrow> e \<in> set M"
  shows "take k M = take k B"
proof -
  have M: "M = filter (\<lambda>e. e \<in> set M) B"
    by (rule ranked_unique) (use assms in \<open>auto intro: ranked_filter\<close>)
  have all: "\<forall>e \<in> set (take k B). e \<in> set M"
    using assms(4) take_in_shard [where xs = B and k = k] by (metis (mono_tags, lifting) in_set_takeD)
  have "M = filter (\<lambda>e. e \<in> set M) (take k B @ drop k B)" using M by simp
  also have "\<dots> = take k B @ filter (\<lambda>e. e \<in> set M) (drop k B)" using all by (simp only: filter_append filter_True)
  finally have "M = take k B @ filter (\<lambda>e. e \<in> set M) (drop k B)" .
  then show ?thesis by (cases "k \<le> length B") (metis append_eq_conv_conj length_take min.absorb2, simp)
qed

text \<open>
  Windows of \<open>k\<close> entries before and \<open>k + 1\<close> from the split point of every shard, sorted together: the \<open>k\<close>
  entries on either side of the split entry are those of the whole.
\<close>

lemma merged_windows:
  assumes B: "B = A @ x # C" "ranked B" and f: "\<forall>e \<in> set B. f e < n"
    and W: "W = concat (map (\<lambda>i. take (2 * k + 1) (drop (length (filter (\<lambda>e. f e = i) A) - k) (filter (\<lambda>e. f e = i) B))) [0 ..< n])"
  obtains U V where "sort_key entry_key W = U @ x # V" "drop (length U - k) U = drop (length A - k) A" "take k V = take k C"
    "k \<le> length U \<or> U = A" "length U \<le> length A" "set U \<subseteq> set A"
proof -
  let ?w = "\<lambda>i. take (2 * k + 1) (drop (length (filter (\<lambda>e. f e = i) A) - k) (filter (\<lambda>e. f e = i) B))"
  have dB: "distinct B" by (rule sorted_entries_distinct [OF B(2)])
  have sub: "set (?w i) \<subseteq> {e \<in> set B. f e = i}" for i by (auto dest!: in_set_takeD in_set_dropD)
  have dW: "distinct W" unfolding W
    by (rule distinct_shards [where f = f]) (use dB sub in \<open>auto dest!: in_set_takeD in_set_dropD\<close>)
  have inW: "e \<in> set W" if "e \<in> set (?w (f e))" "e \<in> set B" for e
    using that f by (auto simp: W)
  have subW: "set W \<subseteq> set B" using sub by (fastforce simp: W)
  have "ranked (sort_key entry_key W)" by (rule ranked_sorted) (use dW in simp_all)
  then have srt: "sort_key entry_key W = filter (\<lambda>e. e \<in> set W) B"
    by (intro ranked_unique) (use B(2) subW in \<open>auto intro: ranked_filter\<close>)
  have split: "?w i = drop (length (filter (\<lambda>e. f e = i) A) - k) (filter (\<lambda>e. f e = i) A) @
      take (2 * k + 1 - min k (length (filter (\<lambda>e. f e = i) A))) (filter (\<lambda>e. f e = i) (x # C))" for i
    unfolding B(1) by (simp add: min_def)
  have below: "\<forall>e \<in> set (drop (length A - k) A). e \<in> set W"
  proof
    fix e assume e: "e \<in> set (drop (length A - k) A)"
    then have "e \<in> set (drop (length (filter (\<lambda>a. f a = f e) A) - k) (filter (\<lambda>a. f a = f e) A))"
      by (rule drop_in_shard) simp
    then have "e \<in> set (?w (f e))" unfolding split set_append by blast
    moreover have "e \<in> set B" using in_set_dropD [OF e] unfolding B(1) by simp
    ultimately show "e \<in> set W" by (rule inW)
  qed
  have above: "\<forall>e \<in> set (take (Suc k) (x # C)). e \<in> set W"
  proof
    fix e assume e: "e \<in> set (take (Suc k) (x # C))"
    then have "e \<in> set (take (Suc k) (filter (\<lambda>a. f a = f e) (x # C)))" by (rule take_in_shard) simp
    moreover have "Suc k \<le> 2 * k + 1 - min k (length (filter (\<lambda>a. f a = f e) A))" by simp
    ultimately have "e \<in> set (take (2 * k + 1 - min k (length (filter (\<lambda>a. f a = f e) A))) (filter (\<lambda>a. f a = f e) (x # C)))"
      by (rule subsetD [OF set_take_subset_set_take, rotated])
    then have "e \<in> set (?w (f e))" unfolding split set_append by (rule UnI2)
    moreover have "e \<in> set B" using in_set_takeD [OF e] unfolding B(1) by auto
    ultimately show "e \<in> set W" by (rule inW)
  qed
  define U where "U = filter (\<lambda>e. e \<in> set W) A"
  define V where "V = filter (\<lambda>e. e \<in> set W) C"
  have x: "x \<in> set W" using above by simp
  have U: "U = filter (\<lambda>e. e \<in> set W) (take (length A - k) A) @ drop (length A - k) A"
    using below by (metis (no_types, lifting) U_def append_take_drop_id filter_True filter_append)
  have "\<forall>e \<in> set (take k C). e \<in> set W" using above by simp
  then have V: "V = take k C @ filter (\<lambda>e. e \<in> set W) (drop k C)"
    by (metis (no_types, lifting) V_def append_take_drop_id filter_True filter_append)
  show thesis
  proof (rule that [of U V])
    show "sort_key entry_key W = U @ x # V" using x by (simp add: srt B(1) U_def V_def)
    show "drop (length U - k) U = drop (length A - k) A"
    proof (cases "k \<le> length A")
      case True
      then have "length (drop (length A - k) A) = k" by simp
      then show ?thesis using U by (metis add_diff_cancel_right' append_eq_conv_conj length_append)
    next
      case False
      then have "U = A" using U by simp
      then show ?thesis by simp
    qed
    show "take k V = take k C"
      using V by (cases "k \<le> length C") (metis append_eq_conv_conj length_take min.absorb2, simp)
    show "k \<le> length U \<or> U = A"
    proof (cases "k \<le> length A")
      case True
      then have "length (drop (length A - k) A) = k" by simp
      then show ?thesis using U by (metis le_add2 length_append)
    next
      case False
      then have "U = A" using U by simp
      then show ?thesis by simp
    qed
    show "length U \<le> length A" "set U \<subseteq> set A" by (auto simp: U_def)
  qed
qed

section \<open>The sharded board is one board\<close>

abbreviation in_shard :: "sharded_board \<Rightarrow> nat \<Rightarrow> board_entry \<Rightarrow> bool" where
  "in_shard b i \<equiv> \<lambda>e. shard_for (fst e) b = i"

definition sb_inv :: "sharded_board \<Rightarrow> (string, rat) dict \<Rightarrow> bool" where
  "sb_inv b d \<longleftrightarrow> sb_sets b \<noteq> [] \<and> dict_ok d \<and>
     (\<forall>i < length (sb_sets b). \<exists>xs. sk_inv (sb_sets b ! i) xs \<and>
        set (ss_scores (sb_sets b ! i)) = {e \<in> set d. in_shard b i e})"

lemma shard_for_less: "sb_sets b \<noteq> [] \<Longrightarrow> shard_for m b < length (sb_sets b)"
  by (simp add: shard_for_def)

lemma shard_for_cong: "length (sb_sets b') = length (sb_sets b) \<Longrightarrow> shard_for m b' = shard_for m b"
  by (simp add: shard_for_def)

lemma shard_listing:
  assumes "sb_inv b d" "i < length (sb_sets b)" "sk_inv (sb_sets b ! i) xs"
  shows "listing (ss_heap (sb_sets b ! i)) xs = filter (in_shard b i) (board_of d)"
proof (rule ranked_unique)
  show "ranked (listing (ss_heap (sb_sets b ! i)) xs)" using assms(3) by (simp add: sk_inv_def sk_rep_def)
  show "ranked (filter (in_shard b i) (board_of d))"
    using assms(1) by (intro ranked_filter board_facts(1)) (simp add: sb_inv_def)
  have "set (ss_scores (sb_sets b ! i)) = {e \<in> set d. in_shard b i e}" using assms(1,2) by (auto simp: sb_inv_def)
  then show "set (listing (ss_heap (sb_sets b ! i)) xs) = set (filter (in_shard b i) (board_of d))"
    using assms(3) by (simp add: sk_inv_def board_facts(2))
qed

lemma shard_reads:
  assumes "sb_inv b d" "i < length (sb_sets b)"
  shows "count_above sc m (sb_sets b ! i) =
      Some (int (length (filter (\<lambda>e. entry_key e < order_key sc m) (filter (in_shard b i) (board_of d)))))"
    "ss_top n (sb_sets b ! i) = (if n \<le> 0 then Inl ValidationError else Inr (take (nat n) (filter (in_shard b i) (board_of d))))"
    "ss_page start k (sb_sets b ! i) = Some (if start < 0 \<or> k \<le> 0 then Inl ValidationError
      else Inr (take (nat k) (drop (nat start) (filter (in_shard b i) (board_of d)))))"
    "ss_length (sb_sets b ! i) = int (length (filter (in_shard b i) (board_of d)))"
    "shard_for m b = i \<Longrightarrow> score_of m (sb_sets b ! i) = dict_get d m"
proof -
  obtain xs where xs: "sk_inv (sb_sets b ! i) xs" "set (ss_scores (sb_sets b ! i)) = {e \<in> set d. in_shard b i e}"
    using assms by (auto simp: sb_inv_def)
  then have rep: "sk_rep (sb_sets b ! i) xs" by (simp add: sk_inv_def)
  note l = shard_listing [OF assms xs(1)]
  show "count_above sc m (sb_sets b ! i) =
      Some (int (length (filter (\<lambda>e. entry_key e < order_key sc m) (filter (in_shard b i) (board_of d)))))"
    "ss_top n (sb_sets b ! i) = (if n \<le> 0 then Inl ValidationError else Inr (take (nat n) (filter (in_shard b i) (board_of d))))"
    "ss_page start k (sb_sets b ! i) = Some (if start < 0 \<or> k \<le> 0 then Inl ValidationError
      else Inr (take (nat k) (drop (nat start) (filter (in_shard b i) (board_of d)))))"
    using count_above_rep [OF rep] ss_top_rep [OF rep] ss_page_rep [OF rep] by (simp_all only: l)
  show "ss_length (sb_sets b ! i) = int (length (filter (in_shard b i) (board_of d)))"
    using rep l by (metis listing_simps(4) sk_rep_def)
  assume m: "shard_for m b = i"
  have "dict_ok d" "dict_ok (ss_scores (sb_sets b ! i))" using assms(1) xs(1) by (simp_all add: sb_inv_def sk_inv_def)
  then have "dict_get (ss_scores (sb_sets b ! i)) m = Some v \<longleftrightarrow> dict_get d m = Some v" for v
    using dict_get_mem [of _ m v] xs(2) m by (metis (mono_tags, lifting) fst_conv mem_Collect_eq)
  then show "score_of m (sb_sets b ! i) = dict_get d m"
    unfolding score_of_def by (metis option.exhaust)
qed

text \<open>What a submission does to the dict of all scores.\<close>

definition submit_spec ::
  "rat \<Rightarrow> bool \<Rightarrow> string \<Rightarrow> py_float \<Rightarrow> (string, rat) dict \<Rightarrow> rat result \<times> (string, rat) dict" where
  "submit_spec top_score best_only m score d =
     (case score of
        Finite sc \<Rightarrow>
          if m = [] \<or> sc < 0 \<or> top_score < sc then (Inl ValidationError, d)
          else (case dict_get d m of
                  Some cur \<Rightarrow> if best_only \<and> sc \<le> cur then (Inr cur, d) else (Inr sc, dict_set m sc d)
                | None \<Rightarrow> (Inr sc, dict_set m sc d))
      | _ \<Rightarrow> (Inl ValidationError, d))"

lemma sb_submit_inv:
  assumes "sb_inv b d"
  shows "\<exists>b'. sb_submit draw best m score b = Some (fst (submit_spec (sb_max_score b) best m score d), b') \<and>
    sb_inv b' (snd (submit_spec (sb_max_score b) best m score d)) \<and> sb_max_score b' = sb_max_score b \<and>
    length (sb_sets b') = length (sb_sets b)"
proof (cases "\<exists>sc. score = Finite sc \<and> m \<noteq> [] \<and> 0 \<le> sc \<and> sc \<le> sb_max_score b")
  case False
  then show ?thesis using assms by (cases score) (auto simp: sb_submit_def submit_spec_def not_le not_less)
next
  case True
  then obtain sc where sc: "score = Finite sc" "m \<noteq> []" "0 \<le> sc" "sc \<le> sb_max_score b" by blast
  let ?i = "shard_for m b" and ?s = "sb_sets b ! shard_for m b"
  have i: "?i < length (sb_sets b)" using assms by (simp add: sb_inv_def shard_for_less)
  have get: "score_of m ?s = dict_get d m" using shard_reads(5) [OF assms i refl] .
  show ?thesis
  proof (cases "\<exists>cur. dict_get d m = Some cur \<and> best \<and> sc \<le> cur")
    case True
    then show ?thesis using assms sc get by (auto simp: sb_submit_def submit_spec_def Let_def)
  next
    case False
    obtain xs where xs: "sk_inv ?s xs" "set (ss_scores ?s) = {e \<in> set d. in_shard b ?i e}"
      using assms i by (auto simp: sb_inv_def)
    obtain s' xs' where s': "ss_add draw m sc ?s = Some s'" "sk_inv s' xs'" "ss_scores s' = dict_set m sc (ss_scores ?s)"
      using ss_add_inv [OF xs(1)] by blast
    let ?b' = "b\<lparr>sb_sets := (sb_sets b)[?i := s']\<rparr>"
    have sub: "sb_submit draw best m score b = Some (Inr sc, ?b')"
      using False sc get s'(1) by (auto simp: sb_submit_def Let_def split: option.splits)
    have spec: "submit_spec (sb_max_score b) best m score d = (Inr sc, dict_set m sc d)"
      using False sc by (auto simp: submit_spec_def split: option.splits)
    have len: "length (sb_sets ?b') = length (sb_sets b)" by simp
    have ok: "dict_ok d" "dict_ok (ss_scores ?s)" using assms xs(1) by (simp_all add: sb_inv_def sk_inv_def)
    have "\<exists>ys. sk_inv (sb_sets ?b' ! j) ys \<and> set (ss_scores (sb_sets ?b' ! j)) = {e \<in> set (dict_set m sc d). in_shard ?b' j e}"
      if j: "j < length (sb_sets b)" for j
    proof (cases "j = ?i")
      case True
      have "set (ss_scores s') = {e \<in> set (dict_set m sc d). in_shard b ?i e}"
        unfolding s'(3) set_dict_set [OF ok(2)] set_dict_set [OF ok(1)] xs(2) by auto
      then show ?thesis using s'(2) True i shard_for_cong [OF len] by auto
    next
      case False
      obtain ys where "sk_inv (sb_sets b ! j) ys" "set (ss_scores (sb_sets b ! j)) = {e \<in> set d. in_shard b j e}"
        using assms j by (auto simp: sb_inv_def)
      moreover have "{e \<in> set (dict_set m sc d). in_shard b j e} = {e \<in> set d. in_shard b j e}"
        unfolding set_dict_set [OF ok(1)] using False by auto
      ultimately show ?thesis using False shard_for_cong [OF len] by auto
    qed
    then have "sb_inv ?b' (dict_set m sc d)" using assms ok(1) by (simp add: sb_inv_def)
    then show ?thesis using sub spec len by (intro exI [of _ ?b']) simp
  qed
qed

lemma sets_as_map: "map f xs = map (\<lambda>i. f (xs ! i)) [0 ..< length xs]"
  by (metis (no_types, lifting) atLeastLessThan_iff map_nth map_map map_cong comp_apply)

lemma count_loop_value:
  "(\<And>s. s \<in> set sets \<Longrightarrow> count_above sc m s = Some (N s)) \<Longrightarrow>
    count_loop sc m sets acc = Some (acc + sum_list (map N sets))"
  by (induction sets arbitrary: acc) (auto simp: add.assoc)

lemma gather_tops_value:
  "(\<And>s. s \<in> set sets \<Longrightarrow> ss_top n s = Inr (T s)) \<Longrightarrow> gather_tops n sets = Inr (map T sets)"
  by (induction sets) auto

lemma window_loop_value:
  "(\<And>s. s \<in> set sets \<Longrightarrow> count_above sc m s = Some (N s) \<and> ss_page (max 0 (N s - k)) (2 * k + 1) s = Some (Inr (P s))) \<Longrightarrow>
    window_loop sc m k sets acc = Some (Inr (acc @ concat (map P sets)))"
  by (induction sets arbitrary: acc) auto

lemma sb_inv_shards:
  assumes "sb_inv b d"
  shows "\<forall>e \<in> set (board_of d). shard_for (fst e) b < length (sb_sets b)" "ranked (board_of d)"
  using assms shard_for_less [of b] board_facts(1) [of d] by (auto simp: sb_inv_def)

lemma sb_length_value:
  assumes "sb_inv b d"
  shows "sb_length b = int (length d)"
proof -
  have "sb_length b = (\<Sum>i \<leftarrow> [0 ..< length (sb_sets b)]. int (length (filter (in_shard b i) (board_of d))))"
    unfolding sb_length_def sets_as_map [of ss_length]
    by (intro arg_cong [where f = sum_list] map_cong) (auto simp: shard_reads(4) [OF assms])
  then show ?thesis
    using sum_of_shards [OF sb_inv_shards(1) [OF assms], of "\<lambda>_. True"] board_facts(3) [of d] by simp
qed

lemma count_loop_board:
  assumes "sb_inv b d"
  shows "count_loop sc m (sb_sets b) 0 = Some (int (length (filter (\<lambda>e. entry_key e < order_key sc m) (board_of d))))"
proof -
  let ?N = "\<lambda>s. the (count_above sc m s)"
  have "count_above sc m s = Some (?N s)" if "s \<in> set (sb_sets b)" for s
  proof -
    obtain i where "i < length (sb_sets b)" "s = sb_sets b ! i" using \<open>s \<in> set (sb_sets b)\<close> by (metis in_set_conv_nth)
    then show ?thesis using shard_reads(1) [OF assms] by simp
  qed
  from count_loop_value [OF this] have "count_loop sc m (sb_sets b) 0 = Some (sum_list (map ?N (sb_sets b)))" by simp
  also have "sum_list (map ?N (sb_sets b)) =
      (\<Sum>i \<leftarrow> [0 ..< length (sb_sets b)]. int (length (filter (\<lambda>e. entry_key e < order_key sc m) (filter (in_shard b i) (board_of d)))))"
    unfolding sets_as_map [of ?N] by (intro arg_cong [where f = sum_list] map_cong) (auto simp: shard_reads(1) [OF assms])
  finally show ?thesis using sum_of_shards [OF sb_inv_shards(1) [OF assms]] by simp
qed

lemma sb_top_board:
  assumes "sb_inv b d"
  shows "sb_top n b = (if n \<le> 0 then Inl ValidationError else Inr (rank_rows 0 (take (nat n) (board_of d))))"
proof (cases "n \<le> 0")
  case False
  let ?B = "board_of d" and ?n = "length (sb_sets b)"
  let ?T = "\<lambda>i. take (nat n) (filter (in_shard b i) ?B)"
  have "gather_tops n (sb_sets b) = Inr (map (\<lambda>s. projr (ss_top n s)) (sb_sets b))"
  proof (rule gather_tops_value)
    fix s assume "s \<in> set (sb_sets b)"
    then obtain i where "i < ?n" "s = sb_sets b ! i" by (metis in_set_conv_nth)
    then show "ss_top n s = Inr (projr (ss_top n s))" using shard_reads(2) [OF assms] False by simp
  qed
  also have "map (\<lambda>s. projr (ss_top n s)) (sb_sets b) = map ?T [0 ..< ?n]"
    unfolding sets_as_map [of "\<lambda>s. projr (ss_top n s)"] using False by (auto simp: shard_reads(2) [OF assms])
  finally have g: "gather_tops n (sb_sets b) = Inr (map ?T [0 ..< ?n])" .
  define M where "M = heapq_merge_by entry_key (map ?T [0 ..< ?n])"
  note B = sb_inv_shards [OF assms]
  have rT: "ranked (?T i)" for i by (intro sorted_wrt_take ranked_filter B(2))
  have mM: "mset M = mset (concat (map ?T [0 ..< ?n]))" unfolding M_def by (rule mset_heapq_merge_by)
  have "distinct (concat (map ?T [0 ..< ?n]))"
    by (rule distinct_shards [where f = "\<lambda>e. shard_for (fst e) b"]) (use sorted_entries_distinct [OF rT] in \<open>auto dest!: in_set_takeD\<close>)
  then have "distinct M" using mM by (metis mset_eq_imp_distinct_iff)
  moreover have "sorted (map entry_key M)" unfolding M_def
  proof (rule sorted_heapq_merge_by)
    fix r assume "r \<in> set (map ?T [0 ..< ?n])"
    then have "ranked r" using rT by auto
    then show "sorted (map entry_key r)" by (simp add: sorted_map) (rule sorted_wrt_mono_rel, auto)
  qed
  ultimately have "ranked M" by (rule ranked_sorted)
  moreover have sM: "set M = (\<Union>i < ?n. set (?T i))" using mM [THEN mset_eq_setD] by auto
  then have "set M \<subseteq> set ?B" by (auto dest!: in_set_takeD)
  ultimately have "take (nat n) M = take (nat n) ?B"
    by (rule merged_tops [OF B(2), where f = "\<lambda>e. shard_for (fst e) b"]) (use sM B(1) in auto)
  then show ?thesis using False g by (simp add: sb_top_def M_def)
qed (simp add: sb_top_def)

lemma find_member_first:
  "\<forall>e \<in> set U. fst e \<noteq> m \<Longrightarrow> find_member i m (U @ (m, sc) # V) = Some (i + length U)"
  by (induction U arbitrary: i) auto

lemma board_split:
  assumes "ranked B" "x \<in> set B"
  obtains A C where "B = A @ x # C" "filter (\<lambda>e. entry_key e < entry_key x) B = A" "B ! length A = x"
proof -
  obtain A C where s: "B = A @ x # C" using split_list [OF assms(2)] by blast
  then have "\<forall>e \<in> set A. entry_key e < entry_key x" "\<forall>e \<in> set C. entry_key x < entry_key e"
    using assms(1) by (auto simp: sorted_wrt_append)
  then have "filter (\<lambda>e. entry_key e < entry_key x) B = A"
    using s by (simp add: filter_empty_conv less_imp_not_less)
  then show ?thesis using that s by simp
qed

lemma sb_score_of_value: "sb_inv b d \<Longrightarrow> sb_score_of m b = (case dict_get d m of None \<Rightarrow> Inl NotFoundError | Some sc \<Rightarrow> Inr sc)"
  using shard_reads(5) [of b d "shard_for m b" m] shard_for_less [of b m] by (simp add: sb_score_of_def sb_inv_def)

lemma sb_rank_board:
  assumes "sb_inv b d" "dict_get d m = Some sc" "filter (\<lambda>e. entry_key e < order_key sc m) (board_of d) = A"
  shows "sb_rank m b = Some (Inr (int (length A)))"
  using assms by (simp add: sb_rank_def sb_score_of_value count_loop_board)

lemma window_loop_board:
  assumes inv: "sb_inv b d" and A: "filter (\<lambda>e. entry_key e < order_key sc m) (board_of d) = A" and k: "0 \<le> k"
  shows "window_loop sc m k (sb_sets b) [] = Some (Inr (concat (map (\<lambda>i.
    take (2 * nat k + 1) (drop (length (filter (in_shard b i) A) - nat k) (filter (in_shard b i) (board_of d))))
      [0 ..< length (sb_sets b)])))"
proof -
  let ?N = "\<lambda>s. the (count_above sc m s)"
  let ?P = "\<lambda>s. projr (the (ss_page (max 0 (?N s - k)) (2 * k + 1) s))"
  have N: "count_above sc m (sb_sets b ! i) = Some (int (length (filter (in_shard b i) A)))" if "i < length (sb_sets b)" for i
  proof -
    have "filter (\<lambda>e. entry_key e < order_key sc m) (filter (in_shard b i) (board_of d)) = filter (in_shard b i) A"
      unfolding A [symmetric] by (simp add: conj_commute)
    then show ?thesis using shard_reads(1) [OF inv that, of sc m] by simp
  qed
  have n: "nat (max 0 (int l - k)) = l - nat k" "nat (2 * k + 1) = 2 * nat k + 1" for l using k by auto
  have P: "ss_page (max 0 (?N (sb_sets b ! i) - k)) (2 * k + 1) (sb_sets b ! i) = Some (Inr
      (take (2 * nat k + 1) (drop (length (filter (in_shard b i) A) - nat k) (filter (in_shard b i) (board_of d)))))"
    if "i < length (sb_sets b)" for i
    using shard_reads(3) [OF inv that, of "max 0 (int (length (filter (in_shard b i) A)) - k)" "2 * k + 1"] k
    by (simp add: N [OF that] n)
  have "count_above sc m s = Some (?N s) \<and> ss_page (max 0 (?N s - k)) (2 * k + 1) s = Some (Inr (?P s))"
    if s: "s \<in> set (sb_sets b)" for s
  proof -
    obtain i where "i < length (sb_sets b)" "s = sb_sets b ! i" using s by (metis in_set_conv_nth)
    then show ?thesis using N P by simp
  qed
  from window_loop_value [OF this] have "window_loop sc m k (sb_sets b) [] = Some (Inr (concat (map ?P (sb_sets b))))" by simp
  also have "map ?P (sb_sets b) = map (\<lambda>i. take (2 * nat k + 1) (drop (length (filter (in_shard b i) A) - nat k)
      (filter (in_shard b i) (board_of d)))) [0 ..< length (sb_sets b)]"
    unfolding sets_as_map [of ?P] by (intro map_cong refl) (simp add: P)
  finally show ?thesis .
qed

lemma take_past_front: "take (length xs + Suc n) (xs @ y # ys) = xs @ y # take n ys"
  by simp

lemma sb_neighbours_board:
  assumes inv: "sb_inv b d" and m: "dict_get d m = Some sc" and k: "0 \<le> k"
    and r: "board_of d ! r = (m, sc)" "r < length (board_of d)"
  shows "sb_neighbours m k b = Some (Inr (rank_rows (int (r - nat k))
    (take (r + nat k + 1 - (r - nat k)) (drop (r - nat k) (board_of d)))))"
proof -
  let ?B = "board_of d" and ?x = "(m, sc)"
  note B = sb_inv_shards [OF inv]
  have ok: "dict_ok d" using inv by (simp add: sb_inv_def)
  have key: "entry_key ?x = order_key sc m" by (simp add: entry_key_def)
  obtain A C where s: "?B = A @ ?x # C" "filter (\<lambda>e. entry_key e < order_key sc m) ?B = A" "?B ! length A = ?x"
    using board_split [OF B(2) nth_mem [OF r(2), unfolded r(1)], unfolded key] by blast
  have "distinct ?B" by (rule sorted_entries_distinct [OF B(2)])
  moreover have "length A < length ?B" by (simp add: s(1))
  ultimately have rA: "r = length A" using r s(3) nth_eq_iff_index_eq [of ?B r "length A"] by simp
  define W where "W = concat (map (\<lambda>i. take (2 * nat k + 1) (drop (length (filter (in_shard b i) A) - nat k)
      (filter (in_shard b i) ?B))) [0 ..< length (sb_sets b)])"
  obtain U V where w: "sort_key entry_key W = U @ ?x # V" "drop (length U - nat k) U = drop (length A - nat k) A"
      "take (nat k) V = take (nat k) C" "nat k \<le> length U \<or> U = A" "length U \<le> length A" "set U \<subseteq> set A"
    using merged_windows [OF s(1) B(2) B(1) W_def] by metis
  have "fst e \<noteq> m" if e: "e \<in> set U" for e
  proof
    assume "fst e = m"
    moreover have "e \<in> set ?B" using e w(6) s(1) by auto
    ultimately have "e = ?x" using m dict_get_mem [OF ok, of m "snd e"] by (cases e) (auto simp: board_facts(2))
    then show False using e w(6) s(1) \<open>distinct ?B\<close> by auto
  qed
  then have f: "find_member 0 m (sort_key entry_key W) = Some (length U)" using find_member_first [of U m 0 sc V] by (simp add: w(1))
  have low: "max 0 (int (length U) - k) = int (length U - nat k)" using k by auto
  have "int (length A) - (int (length U) - int (length U - nat k)) = int (length A - nat k)"
    using w(4,5) by (cases "nat k \<le> length U") auto
  moreover have "take (nat (int (length U) + k + 1 - int (length U - nat k))) (drop (nat (int (length U - nat k))) (sort_key entry_key W)) =
      drop (length A - nat k) A @ ?x # take (nat k) C"
  proof -
    have n: "nat (int (length U) + k + 1 - int (length U - nat k)) = length (drop (length U - nat k) U) + Suc (nat k)" using k by auto
    have "drop (length U - nat k) (U @ ?x # V) = drop (length U - nat k) U @ ?x # V" by simp
    then show ?thesis unfolding n nat_int w(1) by (simp only: take_past_front w(2,3))
  qed
  moreover have "take (r + nat k + 1 - (r - nat k)) (drop (r - nat k) ?B) = drop (length A - nat k) A @ ?x # take (nat k) C"
  proof -
    have n: "r + nat k + 1 - (r - nat k) = length (drop (length A - nat k) A) + Suc (nat k)" using rA by auto
    have "drop (r - nat k) ?B = drop (length A - nat k) A @ ?x # C" using s(1) rA by simp
    then show ?thesis unfolding n by (simp only: take_past_front)
  qed
  moreover have "window_loop sc m k (sb_sets b) [] = Some (Inr W)"
    unfolding W_def by (rule window_loop_board [OF inv s(2) k])
  moreover have "sb_score_of m b = Inr sc" using m by (simp add: sb_score_of_value [OF inv])
  moreover have "\<not> k < 0" using k by simp
  ultimately show ?thesis
    by (simp only: sb_neighbours_def sum.case option.case if_False f low Let_def sb_rank_board [OF inv m s(2)] rA)
qed

section \<open>What the sharded board promises\<close>

type_synonym submission = "(nat \<Rightarrow> rat) \<times> bool \<times> string \<times> py_float"

fun sb_run :: "submission list \<Rightarrow> sharded_board \<Rightarrow> (rat result list \<times> sharded_board) option" where
  "sb_run [] b = Some ([], b)"
| "sb_run ((draw, best_only, m, score) # subs) b =
     (case sb_submit draw best_only m score b of
        None \<Rightarrow> None
      | Some (r, b1) \<Rightarrow> (case sb_run subs b1 of None \<Rightarrow> None | Some (rs, b2) \<Rightarrow> Some (r # rs, b2)))"

fun spec_run :: "rat \<Rightarrow> submission list \<Rightarrow> (string, rat) dict \<Rightarrow> rat result list \<times> (string, rat) dict" where
  "spec_run top_score [] d = ([], d)"
| "spec_run top_score ((draw, best_only, m, score) # subs) d =
     (case submit_spec top_score best_only m score d of (r, d1) \<Rightarrow>
        case spec_run top_score subs d1 of (rs, d2) \<Rightarrow> (r # rs, d2))"

lemma sb_run_inv:
  "sb_inv b d \<Longrightarrow> \<exists>b'. sb_run subs b = Some (fst (spec_run (sb_max_score b) subs d), b') \<and>
     sb_inv b' (snd (spec_run (sb_max_score b) subs d))"
proof (induction subs arbitrary: b d)
  case (Cons sub subs)
  obtain draw best m score where sub: "sub = (draw, best, m, score)" by (cases sub) auto
  obtain r d1 where spec: "submit_spec (sb_max_score b) best m score d = (r, d1)" by fastforce
  from sb_submit_inv [OF Cons.prems, of draw best m score] obtain b1
    where b1: "sb_submit draw best m score b = Some (r, b1)" "sb_inv b1 d1" "sb_max_score b1 = sb_max_score b"
    by (auto simp: spec)
  from Cons.IH [OF b1(2)] show ?case using b1 spec by (auto simp: sub split: prod.splits)
qed simp

lemma sharded_new_inv: "sharded_new shards top_score = Inr b \<Longrightarrow> sb_inv b [] \<and> sb_max_score b = top_score"
  using sk_inv_new by (auto simp: sharded_new_def sb_inv_def sorted_set_new_def split: if_splits)

text \<open>C33. A sharded board is one board: after any submissions to any number of shards every answer
  is that of a single board of all members. Each submission has answered as the specification
  does; the length and the scores are those of all members together; \<^verbatim>\<open>top\<close> lists the first rows of
  the whole board with their ranks; a member's \<^verbatim>\<open>rank\<close> is its position in the whole board; and
  \<^verbatim>\<open>neighbours\<close> are exactly the rows within the radius around it, each with its global rank.
\<close>

theorem sharded_board_is_one_board:
  assumes "sharded_new shards top_score = Inr b0" and "spec_run top_score subs [] = (answers, d)" and "board = board_of d"
  shows "\<exists>b. sb_run subs b0 = Some (answers, b) \<and> sb_length b = int (length d) \<and>
    (\<forall>m. sb_score_of m b = (case dict_get d m of None \<Rightarrow> Inl NotFoundError | Some sc \<Rightarrow> Inr sc)) \<and>
    (\<forall>n. sb_top n b = (if n \<le> 0 then Inl ValidationError else Inr (rank_rows 0 (take (nat n) board)))) \<and>
    (\<forall>m. case dict_get d m of
        None \<Rightarrow> sb_rank m b = Some (Inl NotFoundError)
      | Some sc \<Rightarrow> (\<exists>r < length board. board ! r = (m, sc) \<and> sb_rank m b = Some (Inr (int r)) \<and>
          (\<forall>k \<ge> 0. sb_neighbours m k b = Some (Inr (rank_rows (int (r - nat k))
             (take (r + nat k + 1 - (r - nat k)) (drop (r - nat k) board)))))))"
proof -
  obtain b where b: "sb_run subs b0 = Some (answers, b)" "sb_inv b d"
    using sb_run_inv [of b0 "[]" subs] sharded_new_inv [OF assms(1)] assms(2) by auto
  have ok: "dict_ok d" using b(2) by (simp add: sb_inv_def)
  have "case dict_get d m of
        None \<Rightarrow> sb_rank m b = Some (Inl NotFoundError)
      | Some sc \<Rightarrow> (\<exists>r < length board. board ! r = (m, sc) \<and> sb_rank m b = Some (Inr (int r)) \<and>
          (\<forall>k \<ge> 0. sb_neighbours m k b = Some (Inr (rank_rows (int (r - nat k))
             (take (r + nat k + 1 - (r - nat k)) (drop (r - nat k) board))))))" for m
  proof (cases "dict_get d m")
    case (Some sc)
    then have "(m, sc) \<in> set board" using assms(3) board_facts(2) dict_get_mem [OF ok] by blast
    then obtain A C where s: "board = A @ (m, sc) # C" "filter (\<lambda>e. entry_key e < order_key sc m) board = A"
        "board ! length A = (m, sc)"
      using board_split [of board "(m, sc)"] sb_inv_shards(2) [OF b(2)] assms(3) by (auto simp: entry_key_def)
    then have r: "board ! length A = (m, sc)" "length A < length board" "sb_rank m b = Some (Inr (int (length A)))"
      using sb_rank_board [OF b(2) Some] assms(3) by simp_all
    then have "\<forall>k \<ge> 0. sb_neighbours m k b = Some (Inr (rank_rows (int (length A - nat k))
        (take (length A + nat k + 1 - (length A - nat k)) (drop (length A - nat k) board))))"
      using sb_neighbours_board [OF b(2) Some] assms(3) by blast
    then show ?thesis using Some r by (simp only: option.case) blast
  qed (simp add: sb_rank_def sb_score_of_value [OF b(2)])
  then show ?thesis
    using b(1) sb_length_value [OF b(2)] sb_score_of_value [OF b(2)] sb_top_board [OF b(2)] assms(3) by (intro exI [of _ b]) simp
qed

text \<open>Three players on four shards; a lower score for the first is not taken.\<close>

definition demo_submissions :: "submission list" where
  "demo_submissions = [(\<lambda>_. 1, True, ''ana'', Finite 9800), (\<lambda>_. 0, True, ''bo'', Finite 7400),
     (\<lambda>_. 1, True, ''cy'', Finite 9800), (\<lambda>_. 1, True, ''ana'', Finite 100), (\<lambda>_. 1, True, ''cy'', Infinite)]"

lemma sharded_board_is_one_board_witness:
  "\<exists>b0 b. sharded_new 4 10000 = Inr b0 \<and>
    sb_run demo_submissions b0 = Some ([Inr 9800, Inr 7400, Inr 9800, Inr 9800, Inl ValidationError], b) \<and>
    sb_rank ''cy'' b = Some (Inr 1)"
proof -
  obtain b0 where b0: "sharded_new 4 10000 = Inr b0" by (auto simp: sharded_new_def)
  let ?d = "[(''ana'', 9800), (''bo'', 7400), (''cy'', 9800 :: rat)]"
  have run: "spec_run 10000 demo_submissions [] = ([Inr 9800, Inr 7400, Inr 9800, Inr 9800, Inl ValidationError], ?d)"
    by (simp add: demo_submissions_def submit_spec_def)
  have bo: "board_of ?d = [(''ana'', 9800), (''cy'', 9800), (''bo'', 7400)]" by code_simp
  let ?B = "[(''ana'', 9800), (''cy'', 9800), (''bo'', 7400 :: rat)]"
  from sharded_board_is_one_board [OF b0 run bo [symmetric]] obtain b
    where b: "sb_run demo_submissions b0 = Some ([Inr 9800, Inr 7400, Inr 9800, Inr 9800, Inl ValidationError], b)"
      "\<forall>m. case dict_get ?d m of
        None \<Rightarrow> sb_rank m b = Some (Inl NotFoundError)
      | Some sc \<Rightarrow> (\<exists>r < length ?B. ?B ! r = (m, sc) \<and> sb_rank m b = Some (Inr (int r)) \<and>
          (\<forall>k \<ge> 0. sb_neighbours m k b = Some (Inr (rank_rows (int (r - nat k))
             (take (r + nat k + 1 - (r - nat k)) (drop (r - nat k) ?B))))))"
    by blast
  have "dict_get ?d ''cy'' = Some 9800" by simp
  then obtain r where "r < length ?B" "?B ! r = (''cy'', 9800)" "sb_rank ''cy'' b = Some (Inr (int r))"
    using b(2) [THEN spec, of "''cy''"] by (simp only: option.case) blast
  then have "sb_rank ''cy'' b = Some (Inr 1)" by (auto simp: less_Suc_eq)
  then show ?thesis using b0 b(1) by blast
qed


section \<open>What the periodic boards promise\<close>

text \<open>Every state the boards of some periods can be in, by submissions and expiries at any times.\<close>

inductive pb_reach :: "period list \<Rightarrow> periodic_boards \<Rightarrow> bool" for ps where
  start: "periodic_new ps shards = Inr pb \<Longrightarrow> pb_reach ps pb"
| submit: "pb_reach ps pb \<Longrightarrow> pb_submit draws member score now pb = Some (r, pb') \<Longrightarrow> pb_reach ps pb'"
| expire: "pb_reach ps pb \<Longrightarrow> pb_reach ps (snd (pb_expire now pb))"

text \<open>A board is kept under the key of some bucket, with the expiry of that bucket.\<close>

definition pb_inv :: "period list \<Rightarrow> periodic_boards \<Rightarrow> bool" where
  "pb_inv ps pb \<longleftrightarrow> dict_ok (pb_boards pb) \<and> dict_ok (pb_expiry pb) \<and>
     set (dict_keys (pb_expiry pb)) \<subseteq> set (dict_keys (pb_boards pb)) \<and>
     (\<forall>k b. dict_get (pb_boards pb) k = Some b \<longrightarrow> 0 < pb_shards pb \<and> (\<exists>d. sb_inv b d) \<and> sb_max_score b = 1000000000 \<and>
        (\<exists>p \<in> set ps. \<exists>now. k = pe_key p now \<and> dict_get (pb_expiry pb) k = pe_expires_at p now))"

text \<open>What a step keeps: the boards there are and the expiries they have.\<close>

definition pb_kept :: "periodic_boards \<Rightarrow> periodic_boards \<Rightarrow> bool" where
  "pb_kept pb pb' \<longleftrightarrow> pb_periods pb' = pb_periods pb \<and> pb_shards pb' = pb_shards pb \<and> (\<forall>k \<in> set (dict_keys (pb_boards pb)).
     k \<in> set (dict_keys (pb_boards pb')) \<and> dict_get (pb_expiry pb') k = dict_get (pb_expiry pb) k)"

lemma pb_kept_refl: "pb_kept pb pb"
  by (simp add: pb_kept_def)

lemma pb_kept_trans: "pb_kept a b \<Longrightarrow> pb_kept b c \<Longrightarrow> pb_kept a c"
  unfolding pb_kept_def by metis

text \<open>The submissions that are taken.\<close>

definition pb_accepts :: "string \<Rightarrow> py_float \<Rightarrow> periodic_boards \<Rightarrow> bool" where
  "pb_accepts m score pb \<longleftrightarrow> 0 < pb_shards pb \<and> m \<noteq> [] \<and>
     (case score of Finite sc \<Rightarrow> 0 \<le> sc \<and> sc \<le> 1000000000 | _ \<Rightarrow> False)"

lemma submit_spec_answer:
  "0 < pb_shards pb \<Longrightarrow> if pb_accepts m score pb then \<exists>sc. fst (submit_spec 1000000000 best m score d) = Inr sc
   else fst (submit_spec 1000000000 best m score d) = Inl ValidationError"
  by (auto simp: pb_accepts_def submit_spec_def split: py_float.splits option.splits)

lemma pb_board_inv:
  assumes "pb_inv ps pb" "p \<in> set ps" "pb_board (pe_key p now) p now pb = (r, pb1)"
  shows "pb_inv ps pb1 \<and> pb_kept pb pb1 \<and>
    (if 0 < pb_shards pb then \<exists>b. r = Inr b \<and> dict_get (pb_boards pb1) (pe_key p now) = Some b else r = Inl ValidationError)"
proof (cases "\<exists>b. dict_get (pb_boards pb) (pe_key p now) = None \<and> sharded_new (pb_shards pb) 1000000000 = Inr b")
  case False
  then show ?thesis using assms
    by (fastforce simp: pb_board_def pb_kept_refl sharded_new_def pb_inv_def split: option.splits sum.splits if_splits)
next
  case True
  then obtain b where b: "dict_get (pb_boards pb) (pe_key p now) = None" "sharded_new (pb_shards pb) 1000000000 = Inr b" by blast
  let ?k = "pe_key p now"
  let ?e = "case pe_expires_at p now of None \<Rightarrow> pb_expiry pb | Some expiry \<Rightarrow> dict_set ?k expiry (pb_expiry pb)"
  have r: "r = Inr b" "pb1 = pb\<lparr>pb_boards := dict_set ?k b (pb_boards pb), pb_expiry := ?e\<rparr>"
    using assms(3) b by (simp_all add: pb_board_def)
  have new: "?k \<notin> set (dict_keys (pb_boards pb))" by (rule dict_get_None [THEN iffD1, OF b(1)])
  then have no: "dict_get (pb_expiry pb) ?k = None" using assms(1) unfolding dict_get_None pb_inv_def by blast
  have e: "dict_get ?e k = (if k = ?k then pe_expires_at p now else dict_get (pb_expiry pb) k)" for k
    using no by (simp split: option.splits)
  have ok: "dict_ok ?e" "set (dict_keys ?e) \<subseteq> insert ?k (set (dict_keys (pb_expiry pb)))"
    using assms(1) unfolding pb_inv_def by (auto simp: dict_keys_set simp del: set_map split: option.splits)
  have n: "0 < pb_shards pb" using b(2) by (simp add: sharded_new_def split: if_splits)
  have "pb_inv ps pb1"
    using assms(1,2) sharded_new_inv [OF b(2)] ok n unfolding pb_inv_def r(2)
    by (auto simp: e dict_keys_set simp del: set_map)
  moreover have "pb_kept pb pb1" using new unfolding pb_kept_def r(2) by (auto simp: e dict_keys_set simp del: set_map)
  ultimately show ?thesis using r n by simp
qed

lemma pb_submit_loop_inv:
  assumes "pb_inv ps pb" "set todo \<subseteq> set ps"
  shows "\<exists>r pb'. pb_submit_loop draws m score now todo keys pb = Some (r, pb') \<and> pb_inv ps pb' \<and> pb_kept pb pb' \<and>
    r = (if todo = [] \<or> pb_accepts m score pb then Inr (keys @ map (\<lambda>p. pe_key p now) todo) else Inl ValidationError)"
  using assms
proof (induction todo arbitrary: keys pb)
  case Nil
  then show ?case by (simp add: pb_kept_refl)
next
  case (Cons p todo)
  let ?k = "pe_key p now"
  obtain r1 pb1 where b: "pb_board ?k p now pb = (r1, pb1)" by fastforce
  have inv: "pb_inv ps pb1" "pb_kept pb pb1" "if 0 < pb_shards pb then \<exists>b. r1 = Inr b \<and> dict_get (pb_boards pb1) ?k = Some b
      else r1 = Inl ValidationError"
    using pb_board_inv [OF Cons.prems(1) _ b] Cons.prems(2) by simp_all
  show ?case
  proof (cases r1)
    case (Inl e)
    then have "r1 = Inl ValidationError \<and> \<not> pb_accepts m score pb" using inv(3) by (simp add: pb_accepts_def split: if_splits)
    then show ?thesis using b inv(1,2) by simp
  next
    case (Inr board)
    have got: "dict_get (pb_boards pb1) ?k = Some board" using inv(3) Inr by (simp split: if_splits)
    then obtain d where d: "sb_inv board d" and top: "sb_max_score board = 1000000000" "0 < pb_shards pb"
      using inv(1,2) unfolding pb_inv_def pb_kept_def by metis
    have acc: "pb_accepts m score pb1 = pb_accepts m score pb" using inv(2) by (simp add: pb_accepts_def pb_kept_def)
    from sb_submit_inv [OF d, of "draws (length keys)" True m score] obtain res board'
      where s: "sb_submit (draws (length keys)) True m score board = Some (res, board')" "\<exists>d'. sb_inv board' d'" "sb_max_score board' = 1000000000"
        "res = fst (submit_spec 1000000000 True m score d)" unfolding top by blast
    have ans: "if pb_accepts m score pb then \<exists>sc. res = Inr sc else res = Inl ValidationError"
      unfolding s(4) by (rule submit_spec_answer [OF top(2)])
    let ?pb2 = "pb1\<lparr>pb_boards := dict_set ?k board' (pb_boards pb1)\<rparr>"
    show ?thesis
    proof (cases res)
      case (Inl e)
      then have "res = Inl ValidationError \<and> \<not> pb_accepts m score pb" using ans by (simp split: if_splits)
      then show ?thesis using b s(1) inv(1,2) Inr by simp
    next
      case ok: (Inr sc)
      have keys: "set (dict_keys (pb_boards ?pb2)) = set (dict_keys (pb_boards pb1))"
        using dict_get_keys [OF got] by (simp add: dict_keys_set insert_absorb del: set_map)
      have at: "\<exists>p \<in> set ps. \<exists>t. ?k = pe_key p t \<and> dict_get (pb_expiry pb1) ?k = pe_expires_at p t"
        using inv(1) got unfolding pb_inv_def by blast
      have inv2: "pb_inv ps ?pb2"
        using inv(1,2) s(2,3) at keys top(2) unfolding pb_inv_def pb_kept_def by (simp del: set_map)
      have k2: "pb_kept pb ?pb2"
        by (rule pb_kept_trans [OF inv(2)]) (use keys in \<open>simp add: pb_kept_def del: set_map\<close>)
      have a: "pb_accepts m score pb" "pb_accepts m score ?pb2"
        using ans ok inv(2) by (auto simp: pb_accepts_def pb_kept_def split: if_splits)
      have sub: "set todo \<subseteq> set ps" using Cons.prems(2) by simp
      from Cons.IH [OF inv2 sub, of "keys @ [?k]"] a(2) obtain pb'
        where l: "pb_submit_loop draws m score now todo (keys @ [?k]) ?pb2 = Some (Inr (keys @ map (\<lambda>p. pe_key p now) (p # todo)), pb')"
          "pb_inv ps pb'" "pb_kept ?pb2 pb'" by auto
      have "pb_submit_loop draws m score now (p # todo) keys pb = pb_submit_loop draws m score now todo (keys @ [?k]) ?pb2"
        by (simp add: b Inr s(1) ok Let_def)
      then show ?thesis using l a(1) pb_kept_trans [OF k2 l(3)] by auto
    qed
  qed
qed

lemma pb_expire_dead:
  assumes "dict_ok (pb_expiry pb)"
  shows "k \<in> set (fst (pb_expire now pb)) \<longleftrightarrow> (\<exists>t \<le> now. dict_get (pb_expiry pb) k = Some t)"
proof -
  have "k \<in> set (fst (pb_expire now pb)) \<longleftrightarrow> (\<exists>t. (k, t) \<in> set (pb_expiry pb) \<and> t \<le> now)"
    by (force simp: pb_expire_def Let_def)
  then show ?thesis using dict_get_mem [OF assms, of k] by blast
qed

lemma pb_expire_inv:
  assumes "pb_inv ps pb"
  shows "pb_inv ps (snd (pb_expire now pb)) \<and> pb_periods (snd (pb_expire now pb)) = pb_periods pb \<and>
    pb_shards (snd (pb_expire now pb)) = pb_shards pb"
proof -
  let ?pb' = "snd (pb_expire now pb)" and ?dead = "fst (pb_expire now pb)"
  have f: "pb_boards ?pb' = fold dict_del ?dead (pb_boards pb)" "pb_expiry ?pb' = fold dict_del ?dead (pb_expiry pb)"
      "pb_periods ?pb' = pb_periods pb" "pb_shards ?pb' = pb_shards pb"
    by (simp_all add: pb_expire_def Let_def)
  have "set (dict_keys (pb_expiry ?pb')) \<subseteq> set (dict_keys (pb_boards ?pb'))"
  proof
    fix k
    assume "k \<in> set (dict_keys (pb_expiry ?pb'))"
    then have "dict_get (pb_expiry ?pb') k \<noteq> None" by (simp only: dict_get_None not_not)
    then have "k \<notin> set ?dead" "dict_get (pb_expiry pb) k \<noteq> None"
      unfolding f fold_dict_del_get by (simp_all split: if_splits)
    moreover from this(2) have "dict_get (pb_boards pb) k \<noteq> None"
      using assms unfolding dict_get_None pb_inv_def by blast
    ultimately have "dict_get (pb_boards ?pb') k \<noteq> None" unfolding f fold_dict_del_get by simp
    then show "k \<in> set (dict_keys (pb_boards ?pb'))" by (simp only: dict_get_None not_not)
  qed
  then show ?thesis
    using assms unfolding pb_inv_def f(1,2) by (auto simp: f(3,4) fold_dict_del_ok fold_dict_del_get simp del: set_map)
qed

lemma pb_reach_inv: "pb_reach ps pb \<Longrightarrow> pb_inv ps pb \<and> pb_periods pb = ps \<and> ps \<noteq> []"
proof (induction rule: pb_reach.induct)
  case (start shards pb)
  then show ?case by (auto simp: periodic_new_def pb_inv_def split: if_splits)
next
  case (submit pb draws member score now r pb')
  then show ?case
    using pb_submit_loop_inv [of ps pb "pb_periods pb" draws member score now "[]"]
    by (auto simp: pb_submit_def pb_kept_def)
next
  case (expire pb now)
  then show ?case using pb_expire_inv [of ps pb now] by simp
qed

text \<open>A periodic board is retired by its bucket. In every reachable state each board is kept under
  the key of a bucket of one of the periods with the expiry of that bucket; a submission at any
  time returns, writes the key of every period when the score is taken, loses no board and moves no
  expiry; and \<^verbatim>\<open>expire\<close> removes exactly the boards whose expiry has come, in key order.
\<close>

theorem periodic_boards_retired_by_bucket:
  assumes "pb_reach ps pb"
  shows "(\<forall>k \<in> set (dict_keys (pb_boards pb)). \<exists>p \<in> set ps. \<exists>t. k = pe_key p t \<and> dict_get (pb_expiry pb) k = pe_expires_at p t) \<and>
    (\<exists>pb'. pb_submit draws m score now pb =
         Some (if pb_accepts m score pb then Inr (map (\<lambda>p. pe_key p now) ps) else Inl ValidationError, pb') \<and>
       (\<forall>k \<in> set (dict_keys (pb_boards pb)).
          k \<in> set (dict_keys (pb_boards pb')) \<and> dict_get (pb_expiry pb') k = dict_get (pb_expiry pb) k)) \<and>
    (\<exists>dead pb'. pb_expire now pb = (dead, pb') \<and> sorted dead \<and>
       set dead = {k. \<exists>t \<le> now. dict_get (pb_expiry pb) k = Some t} \<and>
       (\<forall>k. dict_get (pb_boards pb') k = (if k \<in> set dead then None else dict_get (pb_boards pb) k)))"
proof (intro conjI)
  have inv: "pb_inv ps pb" "pb_periods pb = ps" "ps \<noteq> []" using pb_reach_inv [OF assms] by simp_all
  show "\<forall>k \<in> set (dict_keys (pb_boards pb)). \<exists>p \<in> set ps. \<exists>t. k = pe_key p t \<and> dict_get (pb_expiry pb) k = pe_expires_at p t"
  proof
    fix k
    assume "k \<in> set (dict_keys (pb_boards pb))"
    then obtain b where "dict_get (pb_boards pb) k = Some b" by (metis dict_get_None not_None_eq)
    then show "\<exists>p \<in> set ps. \<exists>t. k = pe_key p t \<and> dict_get (pb_expiry pb) k = pe_expires_at p t"
      using inv(1) unfolding pb_inv_def by blast
  qed
  show "\<exists>pb'. pb_submit draws m score now pb =
         Some (if pb_accepts m score pb then Inr (map (\<lambda>p. pe_key p now) ps) else Inl ValidationError, pb') \<and>
       (\<forall>k \<in> set (dict_keys (pb_boards pb)).
          k \<in> set (dict_keys (pb_boards pb')) \<and> dict_get (pb_expiry pb') k = dict_get (pb_expiry pb) k)"
    using pb_submit_loop_inv [OF inv(1) subset_refl, of draws m score now "[]"] inv(3)
    unfolding pb_submit_def pb_kept_def inv(2) append_Nil by (elim exE conjE) (intro exI conjI, simp, assumption)
  have "sorted (fst (pb_expire now pb))" by (simp add: pb_expire_def Let_def)
  moreover have "set (fst (pb_expire now pb)) = {k. \<exists>t \<le> now. dict_get (pb_expiry pb) k = Some t}"
    using pb_expire_dead inv(1) unfolding pb_inv_def by blast
  moreover have "pb_boards (snd (pb_expire now pb)) = fold dict_del (fst (pb_expire now pb)) (pb_boards pb)"
    by (simp add: pb_expire_def Let_def)
  ultimately show "\<exists>dead pb'. pb_expire now pb = (dead, pb') \<and> sorted dead \<and>
       set dead = {k. \<exists>t \<le> now. dict_get (pb_expiry pb) k = Some t} \<and>
       (\<forall>k. dict_get (pb_boards pb') k = (if k \<in> set dead then None else dict_get (pb_boards pb) k))"
    using fold_dict_del_get [of "fst (pb_expire now pb)" "pb_boards pb"]
    by (intro exI [of _ "fst (pb_expire now pb)"] exI [of _ "snd (pb_expire now pb)"]) simp
qed

text \<open>A daily and an all-time board: the day's board goes a day after it closed, the other stays.\<close>

lemma periodic_boards_retired_by_bucket_witness:
  "\<exists>pb pb'. pb_reach [\<lparr>pe_name = ''daily'', pe_bucket = 86400, pe_ttl = 86400\<rparr>, \<lparr>pe_name = ''all'', pe_bucket = 0, pe_ttl = 0\<rparr>] pb \<and>
    pb_submit (\<lambda>_ _. 1) ''ana'' (Finite 10) 100 pb = Some (Inr [''daily:0'', ''all''], pb') \<and> pb_keys pb = []"
proof -
  let ?ps = "[\<lparr>pe_name = ''daily'', pe_bucket = 86400, pe_ttl = 86400\<rparr>, \<lparr>pe_name = ''all'', pe_bucket = 0, pe_ttl = 0\<rparr>]"
  obtain pb where pb: "periodic_new ?ps 1 = Inr pb" "pb_keys pb = []" "pb_shards pb = 1" by (simp add: periodic_new_def pb_keys_def)
  have reach: "pb_reach ?ps pb" by (rule pb_reach.start [OF pb(1)])
  moreover have "pb_accepts ''ana'' (Finite 10) pb" using pb(3) by (simp add: pb_accepts_def)
  ultimately obtain pb' where s: "pb_submit (\<lambda>_ _. 1) ''ana'' (Finite 10) 100 pb = Some (Inr (map (\<lambda>p. pe_key p 100) ?ps), pb')"
    using periodic_boards_retired_by_bucket [of ?ps pb "\<lambda>_ _. 1" "''ana''" "Finite 10" 100] by auto
  have k: "map (\<lambda>p. pe_key p 100) ?ps = [''daily:0'', ''all'']" by (simp add: pe_key_def str_of_int_def str_of_nat.simps) code_simp
  then show ?thesis using s reach pb(2) by (simp only:) blast
qed

text \<open>
  A board is made before its first score is checked: after a refused submission the named board is
  there, empty, where \<^verbatim>\<open>board\<close> is to answer that it has no scores yet.
\<close>

lemma refused_submission_makes_board:
  "\<exists>pb pb' b. periodic_new [\<lparr>pe_name = ''all'', pe_bucket = 0, pe_ttl = 0\<rparr>] 1 = Inr pb \<and>
    pb_submit (\<lambda>_ _. 1) ''ana'' Infinite 100 pb = Some (Inl ValidationError, pb') \<and>
    pb_named_board ''all'' 100 pb = Inl NotFoundError \<and> pb_named_board ''all'' 100 pb' = Inr b \<and> sb_length b = 0"
  by (simp add: periodic_new_def pb_submit_def pb_board_def pe_key_def pe_expires_at_def sharded_new_def
      sb_submit_def pb_named_board_def sb_length_def sorted_set_new_def)

end
