(* ===== verification/Chunk_Sync.thy ===== *)
theory Chunk_Sync
  imports Python_Lib
begin

unbundle bit_operations_syntax

text \<open>
  \<^verbatim>\<open>code/hld/chunker_delta_sync.py\<close>: content-defined chunking with a rolling hash, the
  content-addressed chunk store with its reference counts, the delta a client sends, and the
  versioned manifests with compare-and-set commits.

  A byte is an integer, a file a list of them; offsets and lengths are natural numbers. The digest of
  a chunk, 16 hexadecimal digits of its SHA-256, is the parameter \<open>digest\<close>; what rests on different
  chunks having different digests says so.
\<close>

section \<open>The rolling hash\<close>

record rolling_hash =
  rh_window :: int
  rh_power :: int
  rh_buffer :: "int list"
  rh_value :: int

definition rh_base :: int where
  "rh_base = 257"

definition rh_mod :: int where
  "rh_mod = push_bit 61 1 - 1"

definition rolling_hash_new :: "int \<Rightarrow> rolling_hash result" where
  "rolling_hash_new window =
     (if window \<le> 0 then Inl ValidationError
      else Inr \<lparr>rh_window = window, rh_power = rh_base ^ nat (window - 1) mod rh_mod, rh_buffer = [], rh_value = 0\<rparr>)"

definition rh_push :: "int \<Rightarrow> rolling_hash \<Rightarrow> int \<times> rolling_hash" where
  "rh_push byte h =
     (let h1 = (if int (length (rh_buffer h)) = rh_window h
                then (case rh_buffer h of
                        [] \<Rightarrow> h
                      | leaving # rest \<Rightarrow>
                          h\<lparr>rh_buffer := rest, rh_value := (rh_value h - leaving * rh_power h) mod rh_mod\<rparr>)
                else h);
          value = (rh_value h1 * rh_base + byte) mod rh_mod
      in (value, h1\<lparr>rh_buffer := rh_buffer h1 @ [byte], rh_value := value\<rparr>))"

section \<open>Chunking\<close>

record chunk =
  ck_hash :: string
  ck_offset :: nat
  ck_length :: nat

text \<open>\<^verbatim>\<open>data[a:b]\<close>, for \<open>a \<le> b\<close>.\<close>

definition slice :: "nat \<Rightarrow> nat \<Rightarrow> 'a list \<Rightarrow> 'a list" where
  "slice a b xs = take (b - a) (drop a xs)"

record cutter =
  cu_hasher :: rolling_hash
  cu_index :: nat
  cu_start :: nat
  cu_chunks :: "chunk list"

text \<open>The body of the loop over \<^verbatim>\<open>enumerate(data)\<close>.\<close>

definition cdc_step :: "(int list \<Rightarrow> string) \<Rightarrow> int list \<Rightarrow> int \<Rightarrow> int \<Rightarrow> int \<Rightarrow> int \<Rightarrow> cutter \<Rightarrow> cutter" where
  "cdc_step digest data min_size max_size bits byte c =
     (let (value, hasher) = rh_push byte (cu_hasher c);
          start = cu_start c; index = cu_index c; len = index - start + 1;
          c1 = c\<lparr>cu_hasher := hasher, cu_index := index + 1\<rparr>
      in if int len < min_size then c1
         else if value AND bits = 0 \<or> max_size \<le> int len
         then c1\<lparr>cu_chunks := cu_chunks c @ [\<lparr>ck_hash = digest (slice start (index + 1) data), ck_offset = start, ck_length = len\<rparr>],
                 cu_start := index + 1\<rparr>
         else c1)"

definition content_defined_chunks ::
  "(int list \<Rightarrow> string) \<Rightarrow> int list \<Rightarrow> int \<Rightarrow> int \<Rightarrow> int \<Rightarrow> int \<Rightarrow> chunk list result" where
  "content_defined_chunks digest data min_size avg_size max_size window =
     (if avg_size AND (avg_size - 1) \<noteq> 0 then Inl ValidationError
      else if \<not> (0 < min_size \<and> min_size \<le> avg_size \<and> avg_size \<le> max_size) then Inl ValidationError
      else case rolling_hash_new window of
             Inl e \<Rightarrow> Inl e
           | Inr hasher \<Rightarrow>
               (let c = fold (cdc_step digest data min_size max_size (avg_size - 1)) data
                          \<lparr>cu_hasher = hasher, cu_index = 0, cu_start = 0, cu_chunks = []\<rparr>;
                    start = cu_start c
                in Inr (if start < length data
                        then cu_chunks c @ [\<lparr>ck_hash = digest (drop start data), ck_offset = start, ck_length = length data - start\<rparr>]
                        else cu_chunks c)))"

text \<open>\<^verbatim>\<open>range(0, len(data), size)\<close>, from an offset on.\<close>

function offsets_from :: "nat \<Rightarrow> nat \<Rightarrow> nat \<Rightarrow> nat list" where
  "offsets_from step stop offset =
     (if offset < stop \<and> 0 < step then offset # offsets_from step stop (offset + step) else [])"
  by pat_completeness auto
termination by (relation "measure (\<lambda>(step, stop, offset). stop - offset)") auto

declare offsets_from.simps [simp del]

definition fixed_chunks :: "(int list \<Rightarrow> string) \<Rightarrow> int list \<Rightarrow> int \<Rightarrow> chunk list result" where
  "fixed_chunks digest data width =
     (if width \<le> 0 then Inl ValidationError
      else Inr (map (\<lambda>offset. \<lparr>ck_hash = digest (slice offset (offset + nat width) data), ck_offset = offset,
                               ck_length = length (slice offset (offset + nat width) data)\<rparr>)
                 (offsets_from (nat width) (length data) 0)))"

section \<open>The chunk store\<close>

record chunk_store =
  cs_blocks :: "(string, int list) dict"
  cs_refs :: "(string, int) dict"
  cs_duplicate_puts :: int

definition chunk_store_new :: chunk_store where
  "chunk_store_new = \<lparr>cs_blocks = [], cs_refs = [], cs_duplicate_puts = 0\<rparr>"

definition cs_put :: "(int list \<Rightarrow> string) \<Rightarrow> int list \<Rightarrow> chunk_store \<Rightarrow> (string \<times> bool) \<times> chunk_store" where
  "cs_put digest payload st =
     (let d = digest payload; is_new = (dict_get (cs_blocks st) d = None);
          st1 = (if is_new then st\<lparr>cs_blocks := dict_set d payload (cs_blocks st)\<rparr>
                 else st\<lparr>cs_duplicate_puts := cs_duplicate_puts st + 1\<rparr>);
          refs = (case dict_get (cs_refs st1) d of None \<Rightarrow> 0 | Some n \<Rightarrow> n)
      in ((d, is_new), st1\<lparr>cs_refs := dict_set d (refs + 1) (cs_refs st1)\<rparr>))"

definition cs_get :: "string \<Rightarrow> chunk_store \<Rightarrow> int list result" where
  "cs_get d st = (case dict_get (cs_blocks st) d of None \<Rightarrow> Inl NotFoundError | Some payload \<Rightarrow> Inr payload)"

definition cs_release :: "string \<Rightarrow> chunk_store \<Rightarrow> chunk_store" where
  "cs_release d st =
     (let remaining = (case dict_get (cs_refs st) d of None \<Rightarrow> 0 | Some n \<Rightarrow> n) - 1
      in if 0 < remaining then st\<lparr>cs_refs := dict_set d remaining (cs_refs st)\<rparr>
         else st\<lparr>cs_refs := dict_del d (cs_refs st), cs_blocks := dict_del d (cs_blocks st)\<rparr>)"

definition cs_stats :: "chunk_store \<Rightarrow> int \<times> int \<times> int" where
  "cs_stats st = (int (length (cs_blocks st)), cs_duplicate_puts st, sum_list (map (\<lambda>(_, payload). int (length payload)) (cs_blocks st)))"

section \<open>Deltas\<close>

record delta =
  dl_upload :: "string list"
  dl_reuse :: "string list"
  dl_bytes_upload :: int
  dl_bytes_total :: int

definition dl_savings :: "delta \<Rightarrow> rat" where
  "dl_savings d =
     (if dl_bytes_total d \<noteq> 0 then 1 - of_int (dl_bytes_upload d) / of_int (dl_bytes_total d) else 0)"

text \<open>\<^verbatim>\<open>by_hash\<close> has the length of the last chunk of each hash; every hash of the file is a key of it.\<close>

definition compute_delta :: "chunk list \<Rightarrow> string set \<Rightarrow> delta" where
  "compute_delta new_chunks known =
     (let upload = map ck_hash (filter (\<lambda>c. ck_hash c \<notin> known) new_chunks);
          reuse = map ck_hash (filter (\<lambda>c. ck_hash c \<in> known) new_chunks);
          by_hash = dict_of (map (\<lambda>c. (ck_hash c, int (ck_length c))) new_chunks)
      in \<lparr>dl_upload = upload, dl_reuse = reuse,
          dl_bytes_upload = sum_list (map (\<lambda>h. the (dict_get by_hash h)) upload),
          dl_bytes_total = sum_list (map (\<lambda>c. int (ck_length c)) new_chunks)\<rparr>)"

section \<open>Manifests\<close>

record file_version =
  fv_file_id :: string
  fv_version :: int
  fv_chunks :: "string list"
  fv_actor :: string
  fv_size :: int

type_synonym metadata = "(string, file_version list) dict"

definition md_head :: "string \<Rightarrow> metadata \<Rightarrow> file_version option" where
  "md_head file_id md =
     (case dict_get md file_id of
        None \<Rightarrow> None
      | Some history \<Rightarrow> if history = [] then None else Some (List.last history))"

definition md_commit :: "string \<Rightarrow> int \<Rightarrow> chunk list \<Rightarrow> string \<Rightarrow> metadata \<Rightarrow> file_version result \<times> metadata" where
  "md_commit file_id base_version chunks actor md =
     (let history = (case dict_get md file_id of None \<Rightarrow> [] | Some h \<Rightarrow> h);
          md1 = dict_set file_id history md;
          current = (if history = [] then 0 else fv_version (List.last history))
      in if base_version \<noteq> current then (Inl ConflictError, md1)
         else let v = \<lparr>fv_file_id = file_id, fv_version = current + 1, fv_chunks = map ck_hash chunks,
                       fv_actor = actor, fv_size = sum_list (map (\<lambda>c. int (ck_length c)) chunks)\<rparr>
              in (Inr v, dict_set file_id (history @ [v]) md1))"

definition copy_name :: "string \<Rightarrow> string \<Rightarrow> string" where
  "copy_name file_id actor = file_id @ '' ('' @ actor @ CHR 0x27 # ''s conflicted copy)''"

definition md_conflicted_copy :: "string \<Rightarrow> chunk list \<Rightarrow> string \<Rightarrow> metadata \<Rightarrow> file_version result \<times> metadata" where
  "md_conflicted_copy file_id chunks actor md = md_commit (copy_name file_id actor) 0 chunks actor md"

definition md_known_hashes :: "metadata \<Rightarrow> string set" where
  "md_known_hashes md = set (concat (map fv_chunks (concat (map snd md))))"

section \<open>The rolling hash is the hash of the window\<close>

definition last_n :: "nat \<Rightarrow> 'a list \<Rightarrow> 'a list" where
  "last_n n xs = drop (length xs - n) xs"

definition window_hash :: "int list \<Rightarrow> int" where
  "window_hash bytes = foldl (\<lambda>acc byte. acc * rh_base + byte) 0 bytes"

definition rh_feed :: "int list \<Rightarrow> rolling_hash \<Rightarrow> rolling_hash" where
  "rh_feed bytes h = fold (\<lambda>byte h. snd (rh_push byte h)) bytes h"

lemma length_last_n [simp]: "length (last_n n xs) = min n (length xs)"
  by (simp add: last_n_def)

lemma last_n_snoc:
  "0 < n \<Longrightarrow> last_n n (xs @ [x]) = (if length xs < n then last_n n xs @ [x] else tl (last_n n xs) @ [x])"
  by (cases "length xs < n") (simp_all add: last_n_def tl_drop drop_Suc Suc_diff_le not_less)

lemma last_n_append: "n \<le> length ys \<Longrightarrow> last_n n (xs @ ys) = last_n n ys"
  by (simp add: last_n_def)

lemma window_hash_snoc [simp]: "window_hash (bs @ [b]) = window_hash bs * rh_base + b"
  by (simp add: window_hash_def)

lemma window_hash_Cons: "window_hash (b # bs) = b * rh_base ^ length bs + window_hash bs"
proof (induction bs rule: rev_induct)
  case (snoc c bs)
  have "window_hash (b # bs @ [c]) = window_hash (b # bs) * rh_base + c" using window_hash_snoc [of "b # bs" c] by simp
  with snoc show ?case by (simp add: algebra_simps)
qed (simp add: window_hash_def)

lemma pushed_value: "(v mod rh_mod * rh_base + b) mod rh_mod = (v * rh_base + b) mod rh_mod"
  by (metis mod_add_left_eq mod_mult_left_eq)

lemma rolled_value:
  assumes "buf = x # rest"
  shows "(((window_hash buf mod rh_mod - x * (rh_base ^ length rest mod rh_mod)) mod rh_mod) * rh_base + b) mod rh_mod =
    window_hash (rest @ [b]) mod rh_mod"
proof -
  let ?P = "rh_base ^ length rest"
  have "(window_hash buf mod rh_mod - x * (?P mod rh_mod)) mod rh_mod = (window_hash buf - x * ?P) mod rh_mod"
    using mod_diff_cong [OF mod_mod_trivial mod_mult_right_eq] by blast
  then show ?thesis by (simp add: assms window_hash_Cons pushed_value)
qed

lemma rh_feed_state:
  assumes "rolling_hash_new w = Inr h0"
  shows "rh_feed bytes h0 = \<lparr>rh_window = w, rh_power = rh_base ^ nat (w - 1) mod rh_mod,
    rh_buffer = last_n (nat w) bytes, rh_value = window_hash (last_n (nat w) bytes) mod rh_mod\<rparr>"
proof (induction bytes rule: rev_induct)
  case Nil
  then show ?case using assms by (auto simp: rh_feed_def rolling_hash_new_def last_n_def window_hash_def split: if_splits)
next
  case (snoc b bytes)
  have w: "0 < w" using assms by (simp add: rolling_hash_new_def split: if_splits)
  let ?buf = "last_n (nat w) bytes"
  have feed: "rh_feed (bytes @ [b]) h0 = snd (rh_push b (rh_feed bytes h0))" by (simp add: rh_feed_def)
  show ?case
  proof (cases "length bytes < nat w")
    case True
    then have "int (length ?buf) \<noteq> w" by simp
    then show ?thesis
      using w True by (simp only: feed snoc rh_push_def rolling_hash.simps if_False Let_def snd_conv last_n_snoc if_True pushed_value window_hash_snoc)
  next
    case False
    then have len: "length ?buf = nat w" by simp
    then obtain x rest where buf: "?buf = x # rest" using w by (cases ?buf) auto
    then have r: "nat (w - 1) = length rest" using len w by simp
    have "last_n (nat w) (bytes @ [b]) = rest @ [b]" using False w buf by (simp add: last_n_snoc)
    then show ?thesis
      using len w rolled_value [OF buf, of b] by (simp add: feed snoc rh_push_def Let_def buf r)
  qed
qed

section \<open>Chunks tile the file\<close>

text \<open>\<open>tiles digest data a cs b\<close>: the chunks cover \<^verbatim>\<open>data[a:b]\<close> in order, without gap or overlap.\<close>

fun tiles :: "(int list \<Rightarrow> string) \<Rightarrow> int list \<Rightarrow> nat \<Rightarrow> chunk list \<Rightarrow> nat \<Rightarrow> bool" where
  "tiles digest data a [] b \<longleftrightarrow> a = b"
| "tiles digest data a (c # cs) b \<longleftrightarrow> ck_offset c = a \<and> 0 < ck_length c \<and> a + ck_length c \<le> length data \<and>
     ck_hash c = digest (slice a (a + ck_length c) data) \<and> tiles digest data (a + ck_length c) cs b"

definition payload :: "int list \<Rightarrow> chunk \<Rightarrow> int list" where
  "payload data c = slice (ck_offset c) (ck_offset c + ck_length c) data"

lemma slice_append: "a \<le> b \<Longrightarrow> b \<le> c \<Longrightarrow> slice a b xs @ slice b c xs = slice a c xs"
proof -
  assume "a \<le> b" "b \<le> c"
  then obtain i j where ij: "b = a + i" "c = b + j" using le_Suc_ex by metis
  then show ?thesis by (simp add: slice_def take_add add.assoc) (simp add: add.commute)
qed

lemma tiles_append: "tiles dg data a (xs @ ys) c \<longleftrightarrow> (\<exists>b. tiles dg data a xs b \<and> tiles dg data b ys c)"
  by (induction xs arbitrary: a) auto

lemma tiles_le: "tiles dg data a cs b \<Longrightarrow> a \<le> length data \<Longrightarrow> a \<le> b \<and> b \<le> length data"
  by (induction cs arbitrary: a) fastforce+

lemma tiles_offsets: "tiles dg data a cs b \<Longrightarrow> c \<in> set cs \<Longrightarrow> a \<le> ck_offset c \<and> ck_offset c < b"
proof (induction cs arbitrary: a)
  case (Cons d cs)
  have "a + ck_length d \<le> b" using tiles_le [of dg data "a + ck_length d" cs b] Cons.prems(1) by simp
  then show ?case using Cons by fastforce
qed simp

lemma tiles_payloads:
  "tiles dg data a cs b \<Longrightarrow> a \<le> length data \<Longrightarrow> concat (map (payload data) cs) = slice a b data"
proof (induction cs arbitrary: a)
  case (Cons c cs)
  then have "tiles dg data (a + ck_length c) cs b" "a + ck_length c \<le> length data" by simp_all
  with tiles_le [OF this] Cons show ?case by (simp add: payload_def slice_append)
qed (simp add: slice_def)

lemma tiles_hash: "tiles dg data a cs b \<Longrightarrow> c \<in> set cs \<Longrightarrow> ck_hash c = dg (payload data c) \<and> length (payload data c) = ck_length c"
  by (induction cs arbitrary: a) (auto simp: payload_def slice_def)

definition cut_inv :: "(int list \<Rightarrow> string) \<Rightarrow> int list \<Rightarrow> int \<Rightarrow> int \<Rightarrow> nat \<Rightarrow> cutter \<Rightarrow> bool" where
  "cut_inv dg data mn mx n c \<longleftrightarrow> cu_index c = n \<and> cu_start c \<le> n \<and> tiles dg data 0 (cu_chunks c) (cu_start c) \<and>
     int (n - cu_start c) < mx \<and> (\<forall>k \<in> set (cu_chunks c). mn \<le> int (ck_length k) \<and> int (ck_length k) \<le> mx)"

lemma cdc_step_inv:
  assumes "cut_inv dg data mn mx n c" "n < length data" "0 < mn" "mn \<le> mx"
  shows "cut_inv dg data mn mx (Suc n) (cdc_step dg data mn mx bits byte c)"
proof -
  have i: "cu_index c = n" "cu_start c \<le> n" "int (n - cu_start c) < mx" "tiles dg data 0 (cu_chunks c) (cu_start c)"
    using assms(1) unfolding cut_inv_def by blast+
  have len: "Suc (cu_start c + (n - cu_start c)) = Suc n" "int (Suc (n - cu_start c)) \<le> mx" using i by simp_all
  show ?thesis
    using assms i len by (auto simp: cdc_step_def cut_inv_def Let_def tiles_append Suc_diff_le split: prod.splits)
qed

lemma cdc_fold_inv:
  assumes "cut_inv dg data mn mx n c" "n + length bs \<le> length data" "0 < mn" "mn \<le> mx"
  shows "cut_inv dg data mn mx (n + length bs) (fold (cdc_step dg data mn mx bits) bs c)"
  using assms
proof (induction bs arbitrary: n c)
  case (Cons b bs)
  from cdc_step_inv [OF Cons.prems(1) _ Cons.prems(3,4)] Cons.prems(2)
  have "cut_inv dg data mn mx (Suc n) (cdc_step dg data mn mx bits b c)" by simp
  from Cons.IH [OF this] Cons.prems show ?case by simp
qed simp

text \<open>The run of the loop over the first bytes of a file, and what the whole function makes of it.\<close>

definition cdc_run :: "(int list \<Rightarrow> string) \<Rightarrow> int list \<Rightarrow> int \<Rightarrow> int \<Rightarrow> int \<Rightarrow> int \<Rightarrow> int list \<Rightarrow> cutter" where
  "cdc_run dg data mn mx bits w bs = fold (cdc_step dg data mn mx bits) bs
     \<lparr>cu_hasher = (case rolling_hash_new w of Inr h \<Rightarrow> h), cu_index = 0, cu_start = 0, cu_chunks = []\<rparr>"

lemma cdc_valid:
  assumes "content_defined_chunks dg data mn av mx w = Inr cs"
  shows "0 < w" "0 < mn" "mn \<le> mx" "rolling_hash_new w = Inr (case rolling_hash_new w of Inr h \<Rightarrow> h)"
    "cs = (let c = cdc_run dg data mn mx (av - 1) w data in
       if cu_start c < length data
       then cu_chunks c @ [\<lparr>ck_hash = dg (drop (cu_start c) data), ck_offset = cu_start c, ck_length = length data - cu_start c\<rparr>]
       else cu_chunks c)"
  using assms by (auto simp: content_defined_chunks_def cdc_run_def rolling_hash_new_def Let_def split: if_splits sum.splits)

lemma cdc_run_inv:
  assumes "content_defined_chunks dg data mn av mx w = Inr cs" "length bs \<le> length data"
  shows "cut_inv dg data mn mx (length bs) (cdc_run dg data mn mx bits w bs)"
proof -
  note v = cdc_valid [OF assms(1)]
  have "cut_inv dg data mn mx 0 \<lparr>cu_hasher = h, cu_index = 0, cu_start = 0, cu_chunks = []\<rparr>" for h
    using v(2,3) by (simp add: cut_inv_def)
  from cdc_fold_inv [OF this _ v(2,3), of bs] assms(2) show ?thesis by (simp add: cdc_run_def)
qed

lemma cdc_run_snoc: "cdc_run dg data mn mx bits w (bs @ bs') = fold (cdc_step dg data mn mx bits) bs' (cdc_run dg data mn mx bits w bs)"
  by (simp add: cdc_run_def)

lemma cdc_hasher: "cu_hasher (fold (cdc_step dg data mn mx bits) bs c) = rh_feed bs (cu_hasher c)"
proof (induction bs arbitrary: c)
  case (Cons b bs)
  have "cu_hasher (cdc_step dg data mn mx bits b c) = snd (rh_push b (cu_hasher c))"
    by (auto simp: cdc_step_def Let_def split: prod.splits)
  with Cons show ?case by (simp add: rh_feed_def)
qed (simp add: rh_feed_def)

lemma cdc_chunks_tile:
  assumes "content_defined_chunks dg data mn av mx w = Inr cs"
  shows "tiles dg data 0 cs (length data)" "\<forall>c \<in> set cs. int (ck_length c) \<le> mx" "\<forall>c \<in> set (butlast cs). mn \<le> int (ck_length c)"
proof -
  note v = cdc_valid [OF assms]
  define c where "c = cdc_run dg data mn mx (av - 1) w data"
  have i: "cut_inv dg data mn mx (length data) c" unfolding c_def by (rule cdc_run_inv [OF assms]) simp
  have cs: "cs = (if cu_start c < length data
       then cu_chunks c @ [\<lparr>ck_hash = dg (drop (cu_start c) data), ck_offset = cu_start c, ck_length = length data - cu_start c\<rparr>]
       else cu_chunks c)"
    using v(5) by (simp add: c_def Let_def)
  show "tiles dg data 0 cs (length data)" "\<forall>c \<in> set cs. int (ck_length c) \<le> mx" "\<forall>c \<in> set (butlast cs). mn \<le> int (ck_length c)"
    using i by (auto simp: cs cut_inv_def tiles_append slice_def dest: in_set_butlastD)
qed

section \<open>Cutting again after an edit\<close>

definition shift :: "nat \<Rightarrow> chunk \<Rightarrow> chunk" where
  "shift n c = c\<lparr>ck_offset := ck_offset c + n\<rparr>"

text \<open>Two runs from a cut over the same rest of two files keep the same distance.\<close>

lemma slice_shift: "drop o1 d1 = drop o2 d2 \<Longrightarrow> slice (a + o1) (b + o1) d1 = slice (a + o2) (b + o2) d2"
  by (simp add: slice_def drop_drop [symmetric] del: drop_drop)

lemma cdc_shift:
  assumes "drop o1 d1 = drop o2 d2" "t \<le> i"
  shows "\<exists>news t' h'. t \<le> t' \<and> (\<forall>c \<in> set news. t \<le> ck_offset c) \<and>
    fold (cdc_step dg d1 mn mx bits) bs \<lparr>cu_hasher = h, cu_index = i + o1, cu_start = t + o1, cu_chunks = cs1\<rparr> =
      \<lparr>cu_hasher = h', cu_index = i + length bs + o1, cu_start = t' + o1, cu_chunks = cs1 @ map (shift o1) news\<rparr> \<and>
    fold (cdc_step dg d2 mn mx bits) bs \<lparr>cu_hasher = h, cu_index = i + o2, cu_start = t + o2, cu_chunks = cs2\<rparr> =
      \<lparr>cu_hasher = h', cu_index = i + length bs + o2, cu_start = t' + o2, cu_chunks = cs2 @ map (shift o2) news\<rparr>"
  using assms(2)
proof (induction bs arbitrary: h i t cs1 cs2)
  case Nil
  show ?case by (intro exI [of _ "[]"] exI [of _ t] exI [of _ h]) simp
next
  case (Cons b bs)
  obtain v h1 where push: "rh_push b h = (v, h1)" by fastforce
  let ?cut = "mn \<le> int (Suc (i - t)) \<and> (v AND bits = 0 \<or> mx \<le> int (Suc (i - t)))"
  let ?new = "\<lparr>ck_hash = dg (slice (t + o1) (Suc i + o1) d1), ck_offset = t, ck_length = Suc (i - t)\<rparr>"
  have same: "slice (t + o2) (Suc (i + o2)) d2 = slice (t + o1) (Suc (i + o1)) d1"
    using slice_shift [OF assms(1), of t "Suc i"] by simp
  have s1: "cdc_step dg d1 mn mx bits b \<lparr>cu_hasher = h, cu_index = i + o1, cu_start = t + o1, cu_chunks = cs1\<rparr> =
      \<lparr>cu_hasher = h1, cu_index = Suc i + o1, cu_start = (if ?cut then Suc i else t) + o1,
       cu_chunks = cs1 @ map (shift o1) (if ?cut then [?new] else [])\<rparr>"
    using Cons.prems by (simp add: cdc_step_def push Let_def shift_def not_less)
  have s2: "cdc_step dg d2 mn mx bits b \<lparr>cu_hasher = h, cu_index = i + o2, cu_start = t + o2, cu_chunks = cs2\<rparr> =
      \<lparr>cu_hasher = h1, cu_index = Suc i + o2, cu_start = (if ?cut then Suc i else t) + o2,
       cu_chunks = cs2 @ map (shift o2) (if ?cut then [?new] else [])\<rparr>"
    using Cons.prems by (simp add: cdc_step_def push Let_def shift_def not_less same)
  have le: "(if ?cut then Suc i else t) \<le> Suc i" "t \<le> (if ?cut then Suc i else t)" using Cons.prems by simp_all
  from Cons.IH [OF le(1), of h1 "cs1 @ map (shift o1) (if ?cut then [?new] else [])" "cs2 @ map (shift o2) (if ?cut then [?new] else [])"]
  obtain news t' h' where n: "(if ?cut then Suc i else t) \<le> t'" "\<forall>c \<in> set news. (if ?cut then Suc i else t) \<le> ck_offset c"
    "fold (cdc_step dg d1 mn mx bits) (b # bs) \<lparr>cu_hasher = h, cu_index = i + o1, cu_start = t + o1, cu_chunks = cs1\<rparr> =
      \<lparr>cu_hasher = h', cu_index = Suc i + length bs + o1, cu_start = t' + o1,
       cu_chunks = (cs1 @ map (shift o1) (if ?cut then [?new] else [])) @ map (shift o1) news\<rparr>"
    "fold (cdc_step dg d2 mn mx bits) (b # bs) \<lparr>cu_hasher = h, cu_index = i + o2, cu_start = t + o2, cu_chunks = cs2\<rparr> =
      \<lparr>cu_hasher = h', cu_index = Suc i + length bs + o2, cu_start = t' + o2,
       cu_chunks = (cs2 @ map (shift o2) (if ?cut then [?new] else [])) @ map (shift o2) news\<rparr>"
    unfolding fold_simps(2) comp_def s1 s2 by blast
  have "\<forall>c \<in> set ((if ?cut then [?new] else []) @ news). t \<le> ck_offset c" using n(2) le(2) by fastforce
  moreover have "t \<le> t'" using n(1) le(2) by simp
  ultimately show ?case
    using n(3,4) by (intro exI [of _ "(if ?cut then [?new] else []) @ news"] exI [of _ t'] exI [of _ h']) simp
qed

text \<open>A chunk that starts at \<open>n\<close> started when the loop had read \<open>n\<close> bytes.\<close>

lemma cdc_step_cases:
  "cu_index (cdc_step dg data mn mx bits b c) = Suc (cu_index c)"
  "cu_start (cdc_step dg data mn mx bits b c) = cu_start c \<and> cu_chunks (cdc_step dg data mn mx bits b c) = cu_chunks c \<or>
   cu_start (cdc_step dg data mn mx bits b c) = Suc (cu_index c) \<and>
     (\<exists>k. cu_chunks (cdc_step dg data mn mx bits b c) = cu_chunks c @ [k] \<and> ck_offset k = cu_start c)"
  by (auto simp: cdc_step_def Let_def split: prod.splits)

lemma cdc_fold_index: "cu_index (fold (cdc_step dg data mn mx bits) bs c) = cu_index c + length bs"
  by (induction bs arbitrary: c) (simp_all add: cdc_step_cases(1))

lemma cdc_later_offsets:
  assumes "cu_start c \<le> n" "n \<le> cu_index c"
  shows "(\<forall>k \<in> set (cu_chunks (fold (cdc_step dg data mn mx bits) bs c)) - set (cu_chunks c). ck_offset k = cu_start c \<or> cu_index c < ck_offset k) \<and>
    (cu_start (fold (cdc_step dg data mn mx bits) bs c) = cu_start c \<or> cu_index c < cu_start (fold (cdc_step dg data mn mx bits) bs c))"
proof (induction bs rule: rev_induct)
  case (snoc b bs)
  let ?c = "fold (cdc_step dg data mn mx bits) bs c"
  have idx: "cu_index c \<le> cu_index ?c" by (simp add: cdc_fold_index)
  from cdc_step_cases(2) [of dg data mn mx bits b ?c] show ?case
  proof (elim disjE conjE exE)
    fix k
    assume "cu_start (cdc_step dg data mn mx bits b ?c) = Suc (cu_index ?c)"
      and "cu_chunks (cdc_step dg data mn mx bits b ?c) = cu_chunks ?c @ [k]" and "ck_offset k = cu_start ?c"
    then show ?thesis using snoc idx by auto
  qed (use snoc in simp)
qed simp

lemma cdc_cut_at:
  assumes "content_defined_chunks dg data mn av mx w = Inr cs" "n \<in> ck_offset ` set cs" "data = bs @ rest" "length bs = n"
  shows "cu_start (cdc_run dg data mn mx (av - 1) w bs) = n"
proof (rule ccontr)
  let ?c = "cdc_run dg data mn mx (av - 1) w bs"
  let ?f = "cdc_run dg data mn mx (av - 1) w data"
  assume ne: "cu_start ?c \<noteq> n"
  have i: "cut_inv dg data mn mx n ?c" using cdc_run_inv [OF assms(1), of bs "av - 1"] assms(3,4) by simp
  then have lt: "cu_start ?c < n" "cu_index ?c = n" using ne by (auto simp: cut_inv_def)
  have old: "ck_offset k < n" if "k \<in> set (cu_chunks ?c)" for k
    using tiles_offsets [OF _ that] i lt(1) unfolding cut_inv_def by (meson less_trans)
  have f: "?f = fold (cdc_step dg data mn mx (av - 1)) rest ?c"
    using cdc_run_snoc [of dg data mn mx "av - 1" w bs rest] assms(3) by simp
  have L: "(\<forall>k \<in> set (cu_chunks ?f) - set (cu_chunks ?c). ck_offset k = cu_start ?c \<or> n < ck_offset k) \<and>
      (cu_start ?f = cu_start ?c \<or> n < cu_start ?f)"
    using cdc_later_offsets [of ?c n dg data mn mx "av - 1" rest] lt unfolding f by simp
  have later: "\<forall>k \<in> set (cu_chunks ?f) - set (cu_chunks ?c). ck_offset k \<noteq> n" "cu_start ?f \<noteq> n"
    using L lt(1) by (metis less_irrefl)+
  then have "\<forall>k \<in> set (cu_chunks ?f). ck_offset k \<noteq> n" using old by (metis Diff_iff less_irrefl)
  then have "n \<notin> ck_offset ` set cs" using later(2) cdc_valid(5) [OF assms(1)] by (auto simp: Let_def)
  then show False using assms(2) by blast
qed

lemma cdc_from_cut:
  assumes "content_defined_chunks dg data mn av mx w = Inr cs" "n \<in> ck_offset ` set cs" "data = bs @ rest" "length bs = n" "w \<le> int (length x)" "bs = y @ x"
  shows "cdc_run dg data mn mx (av - 1) w bs =
    \<lparr>cu_hasher = rh_feed x (case rolling_hash_new w of Inr h \<Rightarrow> h), cu_index = 0 + n, cu_start = 0 + n,
     cu_chunks = cu_chunks (cdc_run dg data mn mx (av - 1) w bs)\<rparr>"
proof -
  let ?c = "cdc_run dg data mn mx (av - 1) w bs" and ?h = "case rolling_hash_new w of Inr h \<Rightarrow> h"
  note v = cdc_valid [OF assms(1)]
  have "cu_index ?c = n" using cdc_run_inv [OF assms(1), of bs "av - 1"] assms(3,4) by (simp add: cut_inv_def)
  moreover have "cu_start ?c = n" by (rule cdc_cut_at [OF assms(1-4)])
  moreover have "cu_hasher ?c = rh_feed bs ?h" by (simp add: cdc_run_def cdc_hasher)
  moreover have "rh_feed bs ?h = rh_feed x ?h"
    using v(1) assms(5,6) by (simp add: rh_feed_state [OF v(4)] last_n_append nat_le_iff)
  ultimately show ?thesis by (simp add: cutter.equality)
qed

text \<open>What is cut from the bytes after a cut, by a hasher in some state.\<close>

definition cut_rest :: "(int list \<Rightarrow> string) \<Rightarrow> int \<Rightarrow> int \<Rightarrow> int \<Rightarrow> rolling_hash \<Rightarrow> int list \<Rightarrow> chunk list" where
  "cut_rest dg mn mx bits h rest =
     (let c = fold (cdc_step dg rest mn mx bits) rest \<lparr>cu_hasher = h, cu_index = 0, cu_start = 0, cu_chunks = []\<rparr>
      in cu_chunks c @ (if cu_start c < length rest
           then [\<lparr>ck_hash = dg (drop (cu_start c) rest), ck_offset = cu_start c, ck_length = length rest - cu_start c\<rparr>] else []))"

lemma cdc_after_cut:
  assumes "content_defined_chunks dg data mn av mx w = Inr cs" "n \<in> ck_offset ` set cs" "data = (y @ x) @ rest" "length (y @ x) = n"
    "w \<le> int (length x)"
  shows "filter (\<lambda>c. n \<le> ck_offset c) cs =
    map (shift n) (cut_rest dg mn mx (av - 1) (rh_feed x (case rolling_hash_new w of Inr h \<Rightarrow> h)) rest)"
proof -
  let ?h = "rh_feed x (case rolling_hash_new w of Inr h \<Rightarrow> h)"
  let ?old = "cu_chunks (cdc_run dg data mn mx (av - 1) w (y @ x))"
  note at = cdc_from_cut [OF assms(1-5) refl]
  have "drop n data = drop 0 rest" using assms(3,4) by simp
  from cdc_shift [OF this le_refl, of 0 dg mn mx "av - 1" rest ?h ?old "[]"] obtain news t' h'
    where n: "\<forall>c \<in> set news. 0 \<le> ck_offset c"
      "fold (cdc_step dg data mn mx (av - 1)) rest \<lparr>cu_hasher = ?h, cu_index = 0 + n, cu_start = 0 + n, cu_chunks = ?old\<rparr> =
        \<lparr>cu_hasher = h', cu_index = 0 + length rest + n, cu_start = t' + n, cu_chunks = ?old @ map (shift n) news\<rparr>"
      "fold (cdc_step dg rest mn mx (av - 1)) rest \<lparr>cu_hasher = ?h, cu_index = 0 + 0, cu_start = 0 + 0, cu_chunks = []\<rparr> =
        \<lparr>cu_hasher = h', cu_index = 0 + length rest + 0, cu_start = t' + 0, cu_chunks = [] @ map (shift 0) news\<rparr>"
    by blast
  have z: "map (shift 0) news = news" by (simp add: shift_def map_idI)
  have run: "cdc_run dg data mn mx (av - 1) w data =
      \<lparr>cu_hasher = h', cu_index = 0 + length rest + n, cu_start = t' + n, cu_chunks = ?old @ map (shift n) news\<rparr>"
    using cdc_run_snoc [of dg data mn mx "av - 1" w "y @ x" rest] n(2) at assms(3) by metis
  have old: "ck_offset c < n" if "c \<in> set ?old" for c
  proof -
    have "cut_inv dg data mn mx n (cdc_run dg data mn mx (av - 1) w (y @ x))"
      using cdc_run_inv [OF assms(1), of "y @ x" "av - 1"] assms(3,4) by simp
    then show ?thesis using tiles_offsets [OF _ that] unfolding cut_inv_def by (meson less_le_trans)
  qed
  have rest: "cut_rest dg mn mx (av - 1) ?h rest = news @ (if t' < length rest
      then [\<lparr>ck_hash = dg (drop t' rest), ck_offset = t', ck_length = length rest - t'\<rparr>] else [])"
    using n(3) z by (simp add: cut_rest_def Let_def)
  have "cs = ?old @ map (shift n) (cut_rest dg mn mx (av - 1) ?h rest)"
  proof -
    have l: "length data = length rest + n" using assms(3,4) by simp
    have "drop (t' + n) data = drop t' rest" using assms(3,4) by simp
    then show ?thesis
      using cdc_valid(5) [OF assms(1)] unfolding run rest by (simp add: Let_def l shift_def)
  qed
  moreover have "filter (\<lambda>c. n \<le> ck_offset c) ?old = []" using old by (auto simp: filter_empty_conv not_le)
  moreover have "filter (\<lambda>c. n \<le> ck_offset c) (map (shift n) zs) = map (shift n) zs" for zs
    by (simp add: filter_id_conv shift_def)
  ultimately show ?thesis by (metis append_Nil filter_append)
qed

text \<open>Chunking resynchronises after an edit. When two files end in the same bytes and both are cut at
  the same place of that common end, at least a window into it, then from there on they have the same
  chunks: same hashes, same lengths, same places. Nothing before the cut matters any more.
\<close>

theorem chunks_resynchronise:
  assumes "content_defined_chunks digest (p1 @ s) min_size avg max_size w = Inr cs1"
    and "content_defined_chunks digest (p2 @ s) min_size avg max_size w = Inr cs2"
    and "w \<le> int k" and "length p1 + k \<in> ck_offset ` set cs1" and "length p2 + k \<in> ck_offset ` set cs2"
  shows "map (\<lambda>c. (ck_hash c, ck_offset c - length p1, ck_length c)) (filter (\<lambda>c. length p1 + k \<le> ck_offset c) cs1) =
    map (\<lambda>c. (ck_hash c, ck_offset c - length p2, ck_length c)) (filter (\<lambda>c. length p2 + k \<le> ck_offset c) cs2)"
proof -
  obtain c where "c \<in> set cs1" "ck_offset c = length p1 + k" using assms(4) by force
  then have k: "k < length s" using tiles_offsets [OF cdc_chunks_tile(1) [OF assms(1)]] by fastforce
  have "filter (\<lambda>c. length p1 + k \<le> ck_offset c) cs1 = map (shift (length p1 + k))
      (cut_rest digest min_size max_size (avg - 1) (rh_feed (take k s) (case rolling_hash_new w of Inr h \<Rightarrow> h)) (drop k s))"
    using k assms(3) by (intro cdc_after_cut [OF assms(1,4), where y = p1]) simp_all
  moreover have "filter (\<lambda>c. length p2 + k \<le> ck_offset c) cs2 = map (shift (length p2 + k))
      (cut_rest digest min_size max_size (avg - 1) (rh_feed (take k s) (case rolling_hash_new w of Inr h \<Rightarrow> h)) (drop k s))"
    using k assms(3) by (intro cdc_after_cut [OF assms(2,5), where y = p2]) simp_all
  ultimately show ?thesis by (simp add: shift_def comp_def)
qed

text \<open>A byte put in front: every byte is a chunk here, and the old ones come out again.\<close>

definition demo_digest :: "int list \<Rightarrow> string" where
  "demo_digest bytes = map (\<lambda>b. char_of (nat b)) bytes"

lemma chunks_resynchronise_witness:
  "\<exists>cs1 cs2. content_defined_chunks demo_digest ([] @ [65, 66, 67]) 1 1 2 1 = Inr cs1 \<and>
    content_defined_chunks demo_digest ([90] @ [65, 66, 67]) 1 1 2 1 = Inr cs2 \<and>
    map (\<lambda>c. (ck_hash c, ck_offset c - 0, ck_length c)) (filter (\<lambda>c. 1 \<le> ck_offset c) cs1) =
      map (\<lambda>c. (ck_hash c, ck_offset c - 1, ck_length c)) (filter (\<lambda>c. 2 \<le> ck_offset c) cs2)"
proof -
  have 1: "content_defined_chunks demo_digest ([] @ [65, 66, 67]) 1 1 2 1 = Inr [\<lparr>ck_hash = ''A'', ck_offset = 0, ck_length = 1\<rparr>,
      \<lparr>ck_hash = ''B'', ck_offset = 1, ck_length = 1\<rparr>, \<lparr>ck_hash = ''C'', ck_offset = 2, ck_length = 1\<rparr>]" by code_simp
  have 2: "content_defined_chunks demo_digest ([90] @ [65, 66, 67]) 1 1 2 1 = Inr [\<lparr>ck_hash = ''Z'', ck_offset = 0, ck_length = 1\<rparr>,
      \<lparr>ck_hash = ''A'', ck_offset = 1, ck_length = 1\<rparr>, \<lparr>ck_hash = ''B'', ck_offset = 2, ck_length = 1\<rparr>,
      \<lparr>ck_hash = ''C'', ck_offset = 3, ck_length = 1\<rparr>]" by code_simp
  show ?thesis using chunks_resynchronise [OF 1 2, of 1] 1 2 by simp
qed

section \<open>Fixed chunks\<close>

lemma fixed_chunks_tile:
  assumes "fixed_chunks dg data width = Inr cs"
  shows "tiles dg data 0 cs (length data)"
proof -
  have w: "0 < nat width" using assms by (simp add: fixed_chunks_def split: if_splits)
  define f where "f = (\<lambda>offset. \<lparr>ck_hash = dg (slice offset (offset + nat width) data), ck_offset = offset,
      ck_length = length (slice offset (offset + nat width) data)\<rparr>)"
  have t: "tiles dg data a (map f (offsets_from (nat width) (length data) a)) (max a (length data))" for a
  proof (induction "length data - a" arbitrary: a rule: less_induct)
    case less
    show ?case
    proof (cases "a < length data")
      case False
      then show ?thesis by (subst offsets_from.simps) simp
    next
      case True
      let ?l = "length (slice a (a + nat width) data)"
      have l: "?l = min (nat width) (length data - a)" by (simp add: slice_def min.commute)
      have h: "slice a (a + ?l) data = slice a (a + nat width) data"
        by (cases "nat width \<le> length data - a") (simp_all add: slice_def min_def)
      have "offsets_from (nat width) (length data) a = a # offsets_from (nat width) (length data) (a + nat width)"
        using True w by (subst offsets_from.simps) simp
      moreover have "tiles dg data (a + ?l) (map f (offsets_from (nat width) (length data) (a + nat width))) (length data)"
      proof (cases "a + nat width < length data")
        case True
        then have "a + ?l = a + nat width" "max (a + nat width) (length data) = length data" using l by simp_all
        with less [of "a + nat width"] w True show ?thesis by simp
      next
        case False
        then have "a + ?l = length data" using l True by simp
        with False show ?thesis by (subst offsets_from.simps) simp
      qed
      ultimately show ?thesis using True w l h by (simp add: f_def max_def)
    qed
  qed
  have "cs = map f (offsets_from (nat width) (length data) 0)"
    using assms by (simp add: fixed_chunks_def f_def split: if_splits)
  then show ?thesis using t [of 0] by simp
qed

section \<open>The store counts references\<close>

datatype store_op = Store_Put "int list" | Store_Release string

fun store_run :: "(int list \<Rightarrow> string) \<Rightarrow> store_op list \<Rightarrow> chunk_store \<Rightarrow> chunk_store" where
  "store_run dg [] st = st"
| "store_run dg (Store_Put p # ops) st = store_run dg ops (snd (cs_put dg p st))"
| "store_run dg (Store_Release d # ops) st = store_run dg ops (cs_release d st)"

text \<open>The references a digest has after some operations, and the payload its block was made from.\<close>

fun ref_count :: "(int list \<Rightarrow> string) \<Rightarrow> store_op list \<Rightarrow> string \<Rightarrow> nat \<Rightarrow> nat" where
  "ref_count dg [] d n = n"
| "ref_count dg (Store_Put p # ops) d n = ref_count dg ops d (if dg p = d then n + 1 else n)"
| "ref_count dg (Store_Release e # ops) d n = ref_count dg ops d (if e = d then n - 1 else n)"

text \<open>What is kept of a store: one block per digest with references, with a payload of that digest.\<close>

definition store_inv :: "(int list \<Rightarrow> string) \<Rightarrow> chunk_store \<Rightarrow> (string \<Rightarrow> nat) \<Rightarrow> bool" where
  "store_inv dg st n \<longleftrightarrow> dict_ok (cs_blocks st) \<and> dict_ok (cs_refs st) \<and>
     (\<forall>d. dict_get (cs_refs st) d = (if n d = 0 then None else Some (int (n d)))) \<and>
     (\<forall>d. dict_get (cs_blocks st) d = None \<longleftrightarrow> n d = 0) \<and>
     (\<forall>d p. dict_get (cs_blocks st) d = Some p \<longrightarrow> dg p = d)"

lemma store_inv_new: "store_inv dg chunk_store_new (\<lambda>_. 0)"
  by (simp add: store_inv_def chunk_store_new_def)

lemma store_inv_put:
  assumes "store_inv dg st n"
  shows "store_inv dg (snd (cs_put dg p st)) (\<lambda>d. if dg p = d then n d + 1 else n d)"
    "fst (cs_put dg p st) = (dg p, n (dg p) = 0)"
  using assms by (auto simp: store_inv_def cs_put_def Let_def)

lemma store_inv_release:
  assumes "store_inv dg st n"
  shows "store_inv dg (cs_release e st) (\<lambda>d. if e = d then n d - 1 else n d)"
  using assms by (auto simp: store_inv_def cs_release_def Let_def)

lemma store_run_inv: "store_inv dg st n \<Longrightarrow> store_inv dg (store_run dg ops st) (\<lambda>d. ref_count dg ops d (n d))"
proof (induction ops arbitrary: st n)
  case (Cons op ops)
  show ?case
  proof (cases op)
    case (Store_Put p)
    show ?thesis using Cons.IH [OF store_inv_put(1) [OF Cons.prems, of p]] by (simp add: Store_Put if_distrib cong: if_cong)
  next
    case (Store_Release e)
    show ?thesis using Cons.IH [OF store_inv_release [OF Cons.prems, of e]] by (simp add: Store_Release if_distrib cong: if_cong)
  qed
qed simp

text \<open>Payloads only come from puts.\<close>

fun put_payloads :: "store_op list \<Rightarrow> int list set" where
  "put_payloads [] = {}"
| "put_payloads (Store_Put p # ops) = insert p (put_payloads ops)"
| "put_payloads (Store_Release d # ops) = put_payloads ops"

lemma store_run_payloads: "snd ` set (cs_blocks (store_run dg ops st)) \<subseteq> snd ` set (cs_blocks st) \<union> put_payloads ops"
proof (induction ops arbitrary: st)
  case (Cons op ops)
  show ?case
  proof (cases op)
    case (Store_Put p)
    have "snd ` set (cs_blocks (snd (cs_put dg p st))) \<subseteq> insert p (snd ` set (cs_blocks st))"
      by (auto simp: cs_put_def Let_def dict_set_new)
    with Cons.IH [of "snd (cs_put dg p st)"] show ?thesis by (auto simp: Store_Put)
  next
    case (Store_Release e)
    have "snd ` set (cs_blocks (cs_release e st)) \<subseteq> snd ` set (cs_blocks st)"
      by (auto simp: cs_release_def Let_def set_dict_del)
    with Cons.IH [of "cs_release e st"] show ?thesis by (auto simp: Store_Release)
  qed
qed simp

lemma store_run_append: "store_run dg (xs @ ys) st = store_run dg ys (store_run dg xs st)"
  by (induction dg xs st rule: store_run.induct) auto

lemma ref_count_append: "ref_count dg (xs @ ys) d n = ref_count dg ys d (ref_count dg xs d n)"
  by (induction dg xs d n rule: ref_count.induct) auto

text \<open>The store holds a block exactly while it has references. After any puts and releases, for every
  digest the count is the puts less the releases (a release of nothing counts for nothing); the block
  is found if and only if the count is positive, and is then a payload that was put under this very
  digest; a put reports a new block exactly when the count was zero; and the statistics count one
  block per digest in use.
\<close>

theorem chunk_store_counts_references:
  assumes "st = store_run digest ops chunk_store_new" and "n = (\<lambda>d. ref_count digest ops d 0)"
  shows "(\<forall>d. cs_get d st = Inl NotFoundError \<longleftrightarrow> n d = 0) \<and>
    (\<forall>d p. cs_get d st = Inr p \<longrightarrow> digest p = d \<and> p \<in> put_payloads ops) \<and>
    (\<forall>p. fst (cs_put digest p st) = (digest p, n (digest p) = 0)) \<and>
    (\<forall>d. dict_get (cs_refs st) d = (if n d = 0 then None else Some (int (n d)))) \<and>
    fst (cs_stats st) = int (card {d. n d \<noteq> 0})"
proof -
  have inv: "store_inv digest st n" unfolding assms by (rule store_run_inv [OF store_inv_new])
  then have ok: "dict_ok (cs_blocks st)" by (simp add: store_inv_def)
  have "p \<in> put_payloads ops" if "cs_get d st = Inr p" for d p
  proof -
    have "(d, p) \<in> set (cs_blocks st)" using that ok by (simp add: cs_get_def dict_get_mem split: option.splits)
    then have "p \<in> snd ` set (cs_blocks st)" by force
    then show ?thesis using store_run_payloads [of digest ops chunk_store_new] by (auto simp: assms chunk_store_new_def)
  qed
  note p = this
  have none: "dict_get (cs_blocks st) d = None \<longleftrightarrow> n d = 0" for d using inv unfolding store_inv_def by metis
  then have "d \<in> set (dict_keys (cs_blocks st)) \<longleftrightarrow> n d \<noteq> 0" for d unfolding dict_get_None by metis
  then have "{d. n d \<noteq> 0} = set (dict_keys (cs_blocks st))" by (metis (mono_tags, lifting) Collect_cong Collect_mem_eq)
  then have card: "fst (cs_stats st) = int (card {d. n d \<noteq> 0})"
    using ok distinct_card [of "dict_keys (cs_blocks st)"] by (simp add: cs_stats_def dict_ok_def del: set_map)
  have "cs_get d st = Inl NotFoundError \<longleftrightarrow> dict_get (cs_blocks st) d = None" for d
    by (simp add: cs_get_def split: option.split)
  then have get: "cs_get d st = Inl NotFoundError \<longleftrightarrow> n d = 0" for d by (simp only: none)
  have dig: "digest p = d" if "cs_get d st = Inr p" for d p
    using that inv by (simp add: store_inv_def cs_get_def split: option.splits)
  have refs: "dict_get (cs_refs st) d = (if n d = 0 then None else Some (int (n d)))" for d
    using inv by (simp add: store_inv_def)
  show ?thesis
    by (intro conjI allI impI) (rule get, erule dig, erule p, rule store_inv_put(2) [OF inv], rule refs, rule card)
qed

lemma chunk_store_counts_references_witness:
  "cs_get ''AB'' (store_run demo_digest [Store_Put [65, 66], Store_Put [65, 66], Store_Release ''AB''] chunk_store_new) \<noteq> Inl NotFoundError"
proof -
  let ?ops = "[Store_Put [65, 66], Store_Put [65, 66], Store_Release ''AB'']"
  have "ref_count demo_digest ?ops ''AB'' 0 \<noteq> 0" by code_simp
  moreover have "cs_get d (store_run demo_digest ?ops chunk_store_new) = Inl NotFoundError \<longleftrightarrow> ref_count demo_digest ?ops d 0 = 0" for d
    using chunk_store_counts_references [OF refl refl, of demo_digest ?ops] by (elim conjE) (erule spec)
  ultimately show ?thesis by metis
qed

section \<open>A file goes up by its delta and comes down whole\<close>

text \<open>
  What the client does with a delta, a \<^verbatim>\<open>put\<close> of the slice of every chunk it sends, as \<^verbatim>\<open>main\<close> does, and
  reading a manifest back block by block.
\<close>

definition upload_chunks :: "(int list \<Rightarrow> string) \<Rightarrow> int list \<Rightarrow> chunk list \<Rightarrow> chunk_store \<Rightarrow> chunk_store" where
  "upload_chunks digest data cs st =
     fold (\<lambda>c st. snd (cs_put digest (slice (ck_offset c) (ck_offset c + ck_length c) data) st)) cs st"

fun read_blocks :: "string list \<Rightarrow> chunk_store \<Rightarrow> int list result" where
  "read_blocks [] st = Inr []"
| "read_blocks (d # ds) st =
     (case cs_get d st of Inl e \<Rightarrow> Inl e | Inr p \<Rightarrow> (case read_blocks ds st of Inl e \<Rightarrow> Inl e | Inr bytes \<Rightarrow> Inr (p @ bytes)))"

lemma upload_chunks_run: "upload_chunks dg data cs st = store_run dg (map (Store_Put \<circ> payload data) cs) st"
  by (induction cs arbitrary: st) (simp_all add: upload_chunks_def payload_def)

lemma ref_count_puts: "ref_count dg (map Store_Put ps) d n = n + length (filter (\<lambda>p. dg p = d) ps)"
  by (induction ps arbitrary: n) auto

lemma read_blocks_value:
  "(\<And>c. c \<in> set cs \<Longrightarrow> cs_get (ck_hash c) st = Inr (f c)) \<Longrightarrow> read_blocks (map ck_hash cs) st = Inr (concat (map f cs))"
  by (induction cs) auto

lemma mset_map_split: "mset (map f (filter (\<lambda>x. \<not> P x) xs)) + mset (map f (filter P xs)) = mset (map f xs)"
  by (induction xs) auto

lemma put_payloads_puts: "put_payloads (map (Store_Put \<circ> f) cs) = f ` set cs"
  by (induction cs) auto

text \<open>The bytes of a delta: what is known is not sent.\<close>

definition one_length :: "chunk list \<Rightarrow> bool" where
  "one_length cs \<longleftrightarrow> (\<forall>c \<in> set cs. \<forall>c' \<in> set cs. ck_hash c = ck_hash c' \<longrightarrow> ck_length c = ck_length c')"

lemma one_lengthD: "one_length cs \<Longrightarrow> c \<in> set cs \<Longrightarrow> c' \<in> set cs \<Longrightarrow> ck_hash c = ck_hash c' \<Longrightarrow> ck_length c = ck_length c'"
  unfolding one_length_def by blast

lemma one_length_prefix: "one_length (cs @ ds) \<Longrightarrow> one_length cs"
  unfolding one_length_def set_append by (intro ballI impI) (drule bspec, erule UnI1, drule bspec, erule UnI1, erule mp)

lemma by_hash_length:
  assumes "one_length cs" "c \<in> set cs"
  shows "dict_get (dict_of (map (\<lambda>c. (ck_hash c, int (ck_length c))) cs)) (ck_hash c) = Some (int (ck_length c))"
  using assms
proof (induction cs rule: rev_induct)
  case (snoc d cs)
  show ?case
  proof (cases "ck_hash c = ck_hash d")
    case True
    then have "ck_length c = ck_length d" using snoc.prems by (intro one_lengthD [OF snoc.prems]) simp_all
    with True show ?thesis by simp
  next
    case False
    then have "c \<in> set cs" using snoc.prems(2) by auto
    moreover have "one_length cs" by (rule one_length_prefix [OF snoc.prems(1)])
    ultimately show ?thesis using snoc.IH False by simp
  qed
qed simp

lemma delta_bytes:
  assumes "one_length cs"
  shows "dl_bytes_upload (compute_delta cs known) = sum_list (map (\<lambda>c. int (ck_length c)) (filter (\<lambda>c. ck_hash c \<notin> known) cs))"
proof -
  have "map (\<lambda>h. the (dict_get (dict_of (map (\<lambda>c. (ck_hash c, int (ck_length c))) cs)) h)) (map ck_hash (filter (\<lambda>c. ck_hash c \<notin> known) cs)) =
      map (\<lambda>c. int (ck_length c)) (filter (\<lambda>c. ck_hash c \<notin> known) cs)"
    using by_hash_length [OF assms] by simp
  then show ?thesis by (simp add: compute_delta_def Let_def del: map_map)
qed

lemma dl_savings_bounds:
  assumes "one_length cs"
  shows "0 \<le> dl_savings (compute_delta cs known) \<and> dl_savings (compute_delta cs known) \<le> 1"
proof -
  let ?d = "compute_delta cs known"
  have "dl_bytes_total ?d = sum_list (map (\<lambda>c. int (ck_length c)) cs)" by (simp add: compute_delta_def Let_def)
  then have "0 \<le> dl_bytes_upload ?d" "dl_bytes_upload ?d \<le> dl_bytes_total ?d"
    unfolding delta_bytes [OF assms] by (auto intro!: sum_list_nonneg sum_list_map_filter_le)
  then show ?thesis by (auto simp: dl_savings_def divide_le_eq)
qed



section \<open>One winner per version\<close>

type_synonym commit = "string \<times> int \<times> chunk list \<times> string"

fun md_run :: "commit list \<Rightarrow> metadata \<Rightarrow> file_version result list \<times> metadata" where
  "md_run [] md = ([], md)"
| "md_run ((f, base, cs, actor) # commits) md =
     (case md_commit f base cs actor md of (r, md1) \<Rightarrow>
        case md_run commits md1 of (rs, md2) \<Rightarrow> (r # rs, md2))"

definition history_of :: "string \<Rightarrow> metadata \<Rightarrow> file_version list" where
  "history_of f md = (case dict_get md f of None \<Rightarrow> [] | Some h \<Rightarrow> h)"

text \<open>The versions the commits of a file have made, with their bases.\<close>

fun accepted :: "string \<Rightarrow> commit list \<Rightarrow> file_version result list \<Rightarrow> (int \<times> file_version) list" where
  "accepted f ((g, base, cs, actor) # commits) (Inr v # rs) = (if g = f then [(base, v)] else []) @ accepted f commits rs"
| "accepted f (c # commits) (Inl e # rs) = accepted f commits rs"
| "accepted f _ _ = []"

definition versions_ok :: "string \<Rightarrow> file_version list \<Rightarrow> bool" where
  "versions_ok f h \<longleftrightarrow> map fv_version h = map int [1 ..< Suc (length h)] \<and> (\<forall>v \<in> set h. fv_file_id v = f)"

lemma versions_ok_last: "versions_ok f h \<Longrightarrow> (if h = [] then 0 else fv_version (List.last h)) = int (length h)"
proof (cases h rule: rev_cases)
  case (snoc ys y)
  assume "versions_ok f h"
  then show ?thesis by (simp add: versions_ok_def snoc)
qed simp

lemma versions_ok_snoc:
  "versions_ok f h \<Longrightarrow> fv_version v = int (length h) + 1 \<Longrightarrow> fv_file_id v = f \<Longrightarrow> versions_ok f (h @ [v])"
  by (simp add: versions_ok_def)

lemma md_commit_step:
  assumes "\<forall>f. versions_ok f (history_of f md)" "md_commit f base cs actor md = (r, md1)"
  shows "\<forall>f. versions_ok f (history_of f md1)"
    "if base = int (length (history_of f md))
     then \<exists>v. r = Inr v \<and> fv_version v = base + 1 \<and> fv_chunks v = map ck_hash cs \<and> fv_actor v = actor \<and> history_of f md1 = history_of f md @ [v]
     else r = Inl ConflictError \<and> history_of f md1 = history_of f md"
    "g \<noteq> f \<Longrightarrow> history_of g md1 = history_of g md"
proof -
  let ?h = "history_of f md"
  have cur: "(if ?h = [] then 0 else fv_version (List.last ?h)) = int (length ?h)" using versions_ok_last assms(1) by blast
  have c: "md_commit f base cs actor md = (if base \<noteq> int (length ?h) then (Inl ConflictError, dict_set f ?h md)
      else let v = \<lparr>fv_file_id = f, fv_version = int (length ?h) + 1, fv_chunks = map ck_hash cs,
                    fv_actor = actor, fv_size = sum_list (map (\<lambda>c. int (ck_length c)) cs)\<rparr>
           in (Inr v, dict_set f (?h @ [v]) (dict_set f ?h md)))"
  proof -
    have "md_commit f base cs actor md = (let current = (if ?h = [] then 0 else fv_version (List.last ?h)); md1 = dict_set f ?h md
      in if base \<noteq> current then (Inl ConflictError, md1)
         else let v = \<lparr>fv_file_id = f, fv_version = current + 1, fv_chunks = map ck_hash cs,
                       fv_actor = actor, fv_size = sum_list (map (\<lambda>c. int (ck_length c)) cs)\<rparr>
              in (Inr v, dict_set f (?h @ [v]) md1))"
      by (simp only: md_commit_def history_of_def Let_def)
    then show ?thesis unfolding cur Let_def .
  qed
  show other: "g \<noteq> f \<Longrightarrow> history_of g md1 = history_of g md" for g
    using assms(2) unfolding c by (auto simp: history_of_def Let_def split: if_splits)
  show step: "if base = int (length ?h)
     then \<exists>v. r = Inr v \<and> fv_version v = base + 1 \<and> fv_chunks v = map ck_hash cs \<and> fv_actor v = actor \<and> history_of f md1 = ?h @ [v]
     else r = Inl ConflictError \<and> history_of f md1 = ?h"
    using assms(2) unfolding c by (auto simp: history_of_def Let_def)
  have "versions_ok f (history_of f md1)"
  proof (cases "base = int (length ?h)")
    case True
    let ?v = "\<lparr>fv_file_id = f, fv_version = int (length ?h) + 1, fv_chunks = map ck_hash cs,
                    fv_actor = actor, fv_size = sum_list (map (\<lambda>c. int (ck_length c)) cs)\<rparr>"
    have "history_of f md1 = ?h @ [?v]" using assms(2) True unfolding c by (auto simp: history_of_def Let_def)
    then show ?thesis using versions_ok_snoc [of f ?h ?v] assms(1) by simp
  next
    case False
    then show ?thesis using step assms(1) by simp
  qed
  then show "\<forall>f. versions_ok f (history_of f md1)" using other assms(1) by metis
qed

lemma md_run_histories:
  assumes "\<forall>f. versions_ok f (history_of f md)" "md_run commits md = (rs, md')"
  shows "(\<forall>f. versions_ok f (history_of f md')) \<and> length rs = length commits \<and> (\<forall>r \<in> set rs. \<forall>e. r = Inl e \<longrightarrow> e = ConflictError) \<and>
    (\<forall>f. history_of f md' = history_of f md @ map snd (accepted f commits rs)) \<and>
    (\<forall>f. map (\<lambda>(base, v). fv_version v) (accepted f commits rs) = map (\<lambda>(base, v). base + 1) (accepted f commits rs))"
  using assms
proof (induction commits arbitrary: md rs)
  case Nil
  then show ?case by simp
next
  case (Cons c commits)
  obtain f base cs actor where c: "c = (f, base, cs, actor)" by (cases c) auto
  obtain r md1 where r: "md_commit f base cs actor md = (r, md1)" by fastforce
  obtain rs1 where rs1: "md_run commits md1 = (rs1, md')" "rs = r # rs1" using Cons.prems(2) r by (auto simp: c split: prod.splits)
  note s = md_commit_step [OF Cons.prems(1) r]
  note IH = Cons.IH [OF s(1) rs1(1)]
  show ?case
  proof (cases "base = int (length (history_of f md))")
    case True
    then obtain v where v: "r = Inr v" "fv_version v = base + 1" "history_of f md1 = history_of f md @ [v]" using s(2) by auto
    have "history_of g md' = history_of g md @ map snd (accepted g (c # commits) rs)" for g
      using IH s(3) [of g] v by (cases "g = f") (auto simp: c rs1(2))
    moreover have "map (\<lambda>(base, v). fv_version v) (accepted g (c # commits) rs) = map (\<lambda>(base, v). base + 1) (accepted g (c # commits) rs)" for g
      using IH v by (simp add: c rs1(2))
    moreover have "\<forall>r' \<in> set rs. \<forall>e. r' = Inl e \<longrightarrow> e = ConflictError" using IH v by (simp add: rs1(2))
    ultimately show ?thesis using IH rs1(2) by (intro conjI) (blast, simp, blast+)
  next
    case False
    then have v: "r = Inl ConflictError" "history_of f md1 = history_of f md" using s(2) by auto
    have "history_of g md' = history_of g md @ map snd (accepted g (c # commits) rs)" for g
      using IH s(3) [of g] v by (cases "g = f") (auto simp: c rs1(2))
    moreover have "map (\<lambda>(base, v). fv_version v) (accepted g (c # commits) rs) = map (\<lambda>(base, v). base + 1) (accepted g (c # commits) rs)" for g
      using IH v by (simp add: c rs1(2))
    moreover have "\<forall>r' \<in> set rs. \<forall>e. r' = Inl e \<longrightarrow> e = ConflictError" using IH v by (simp add: rs1(2))
    ultimately show ?thesis using IH rs1(2) by (intro conjI) (blast, simp, blast+)
  qed
qed

text \<open>A version of a file has one winner. Whatever commits many clients make to many files, in any
  order: each answers with a version or with a conflict; the history of every file is exactly the
  accepted commits to it in order, numbered 1, 2, 3 and so on; each accepted commit was based on the
  version before it, so of the commits with the same base at most one is accepted; and the head is
  the last accepted commit.
\<close>

theorem metadata_single_winner:
  assumes "md_run commits [] = (answers, md)"
  shows "length answers = length commits \<and> (\<forall>r \<in> set answers. \<forall>e. r = Inl e \<longrightarrow> e = ConflictError) \<and>
    (\<forall>f. map fst (accepted f commits answers) = map int [0 ..< length (accepted f commits answers)] \<and>
         map (fv_version \<circ> snd) (accepted f commits answers) = map int [1 ..< Suc (length (accepted f commits answers))] \<and>
         distinct (map fst (accepted f commits answers)) \<and>
         history_of f md = map snd (accepted f commits answers) \<and>
         md_head f md = (if accepted f commits answers = [] then None else Some (snd (List.last (accepted f commits answers)))))"
proof -
  have "\<forall>f. versions_ok f (history_of f [])" by (simp add: history_of_def versions_ok_def)
  note R = md_run_histories [OF this assms]
  have "map fst (accepted f commits answers) = map int [0 ..< length (accepted f commits answers)] \<and>
      map (fv_version \<circ> snd) (accepted f commits answers) = map int [1 ..< Suc (length (accepted f commits answers))] \<and>
      history_of f md = map snd (accepted f commits answers)" for f
  proof -
    let ?a = "accepted f commits answers"
    have h: "history_of f md = map snd ?a" using R by (simp add: history_of_def)
    then have "versions_ok f (map snd ?a)" using R by metis
    then have v: "map (fv_version \<circ> snd) ?a = map int [1 ..< Suc (length ?a)]" unfolding versions_ok_def map_map length_map by blast
    have "map (\<lambda>(base, v). fv_version v) ?a = map (\<lambda>(base, v). base + 1) ?a" using R by blast
    then have "map (\<lambda>x. fst x + 1) ?a = map (fv_version \<circ> snd) ?a" by (simp add: comp_def case_prod_beta')
    then have "map (\<lambda>x. fst x + 1) ?a = map int [1 ..< Suc (length ?a)]" unfolding v .
    then have "map (\<lambda>x. x - 1) (map (\<lambda>x. fst x + 1) ?a) = map (\<lambda>x. x - 1) (map int (map Suc [0 ..< length ?a]))"
      unfolding map_Suc_upt by simp
    then have "map fst ?a = map int [0 ..< length ?a]" by (simp add: comp_def)
    then show ?thesis using h v by blast
  qed
  moreover have "md_head f md = (if history_of f md = [] then None else Some (List.last (history_of f md)))" for f
    by (simp add: md_head_def history_of_def split: option.split)
  ultimately show ?thesis using R by (simp add: distinct_map last_map)
qed

text \<open>Two clients edit the first version; the second to commit is told so.\<close>

lemma metadata_single_winner_witness:
  "\<exists>v1 v2 md. md_run [(''f'', 0, [], ''ann''), (''f'', 1, [], ''bob''), (''f'', 1, [], ''ann'')] [] = ([Inr v1, Inr v2, Inl ConflictError], md) \<and>
    md_head ''f'' md = Some v2"
proof -
  let ?v = "\<lambda>n a. \<lparr>fv_file_id = ''f'', fv_version = n, fv_chunks = [], fv_actor = a, fv_size = 0\<rparr>"
  have r: "md_run [(''f'', 0, [], ''ann''), (''f'', 1, [], ''bob''), (''f'', 1, [], ''ann'')] [] =
      ([Inr (?v 1 ''ann''), Inr (?v 2 ''bob''), Inl ConflictError], [(''f'', [?v 1 ''ann'', ?v 2 ''bob''])])"
    by code_simp
  have "md_head ''f'' [(''f'', [?v 1 ''ann'', ?v 2 ''bob''])] = Some (?v 2 ''bob'')"
    using metadata_single_winner [OF r] by (elim conjE) (drule spec [of _ "''f''"], simp)
  then show ?thesis using r by blast
qed

text \<open>
  The conflicted copy of a client goes under one name per file and client and is based on version 0:
  the second time the same client loses on the same file its copy is refused and its work not kept.
\<close>

lemma second_conflicted_copy_refused:
  "\<exists>v md. md_conflicted_copy ''f'' cs ''bob'' [] = (Inr v, md) \<and> fst (md_conflicted_copy ''f'' cs' ''bob'' md) = Inl ConflictError"
  by (simp add: md_conflicted_copy_def md_commit_def Let_def)

text \<open>A chunk that occurs twice in a file is in its delta, and counted, twice, though one block is enough.\<close>

lemma delta_counts_repeats:
  assumes "content_defined_chunks demo_digest [65, 65] 1 1 2 1 = Inr cs"
  shows "dl_upload (compute_delta cs {}) = [''A'', ''A''] \<and> dl_bytes_upload (compute_delta cs {}) = 2 \<and>
    fst (cs_stats (upload_chunks demo_digest [65, 65] cs chunk_store_new)) = 1"
proof -
  have "content_defined_chunks demo_digest [65, 65] 1 1 2 1 =
      Inr [\<lparr>ck_hash = ''A'', ck_offset = 0, ck_length = 1\<rparr>, \<lparr>ck_hash = ''A'', ck_offset = 1, ck_length = 1\<rparr>]" by code_simp
  then have cs: "cs = [\<lparr>ck_hash = ''A'', ck_offset = 0, ck_length = 1\<rparr>, \<lparr>ck_hash = ''A'', ck_offset = 1, ck_length = 1\<rparr>]"
    using assms by simp
  show ?thesis unfolding cs by code_simp
qed

end
