(* ===== verification/Tsdb.thy ===== *)
theory Tsdb
  imports Common Python_Lib "HOL-Library.Product_Lexorder"
begin

text \<open>
  \<^verbatim>\<open>code/hld/tsdb_downsample.py\<close>, the storage half: series and buckets, the label index, the head
  block of raw samples with its rollup tiers, compaction and range queries.

  Timestamps and values are floats in the code and exact rationals here, so \<open>+\<close> is associative and the
  order in which buckets are merged does not show in a total. A head floor of \<open>None\<close> is minus infinity.
  A Python set of series ids is a set.
\<close>

section \<open>Series and buckets\<close>

type_synonym labels = "(string \<times> string) list"

definition canonical :: "(string, string) dict \<Rightarrow> labels" where
  "canonical labels = sort labels"

fun join_with :: "string \<Rightarrow> string list \<Rightarrow> string" where
  "join_with sep [] = []"
| "join_with sep [s] = s"
| "join_with sep (s # t # ss) = s @ sep @ join_with sep (t # ss)"

definition series_id :: "string \<Rightarrow> labels \<Rightarrow> string" where
  "series_id metric labels = metric @ ''{'' @ join_with '','' (map (\<lambda>(k, v). k @ ''='' @ v) labels) @ ''}''"

record series =
  se_id :: string
  se_metric :: string
  se_labels :: labels

record point =
  pt_timestamp :: time
  pt_value :: rat

record bucket =
  bu_start :: time
  bu_count :: int
  bu_total :: rat
  bu_minimum :: rat
  bu_maximum :: rat
  bu_last :: rat

definition bu_mean :: "bucket \<Rightarrow> rat" where
  "bu_mean b = bu_total b / of_int (bu_count b)"

definition bu_merge :: "bucket \<Rightarrow> bucket \<Rightarrow> bucket" where
  "bu_merge a b =
     (let later = (if bu_start a \<le> bu_start b then b else a)
      in \<lparr>bu_start = min (bu_start a) (bu_start b), bu_count = bu_count a + bu_count b,
          bu_total = bu_total a + bu_total b, bu_minimum = min (bu_minimum a) (bu_minimum b),
          bu_maximum = max (bu_maximum a) (bu_maximum b), bu_last = bu_last later\<rparr>)"

definition bu_of :: "time \<Rightarrow> rat list \<Rightarrow> bucket result" where
  "bu_of start values =
     (case values of
        [] \<Rightarrow> Inl ValidationError
      | v # vs \<Rightarrow> Inr \<lparr>bu_start = start, bu_count = int (length values), bu_total = sum_list values,
                       bu_minimum = fold min vs v, bu_maximum = fold max vs v, bu_last = List.last values\<rparr>)"

datatype aggregation = Avg | Sum | Minimum | Maximum | Samples | Latest

fun agg_apply :: "aggregation \<Rightarrow> bucket \<Rightarrow> rat" where
  "agg_apply Avg b = bu_mean b"
| "agg_apply Sum b = bu_total b"
| "agg_apply Minimum b = bu_minimum b"
| "agg_apply Maximum b = bu_maximum b"
| "agg_apply Samples b = of_int (bu_count b)"
| "agg_apply Latest b = bu_last b"

section \<open>The label index\<close>

record label_index =
  li_series :: "(string, series) dict"
  li_by_metric :: "(string, string set) dict"
  li_postings :: "(string \<times> string, string set) dict"

definition li_new :: label_index where
  "li_new = \<lparr>li_series = [], li_by_metric = [], li_postings = []\<rparr>"

text \<open>\<^verbatim>\<open>d.setdefault(k, set()).add(x)\<close>.\<close>

definition post :: "'k \<Rightarrow> 'a \<Rightarrow> ('k, 'a set) dict \<Rightarrow> ('k, 'a set) dict" where
  "post k x d = dict_set k (insert x (case dict_get d k of None \<Rightarrow> {} | Some s \<Rightarrow> s)) d"

definition li_add :: "series \<Rightarrow> label_index \<Rightarrow> label_index" where
  "li_add s ix =
     ix\<lparr>li_series := dict_set (se_id s) s (li_series ix),
        li_by_metric := post (se_metric s) (se_id s) (li_by_metric ix),
        li_postings := fold (\<lambda>pair. post pair (se_id s)) (se_labels s) (li_postings ix)\<rparr>"

text \<open>The intersection, given up as soon as it is empty.\<close>

fun meet :: "string set \<Rightarrow> string set list \<Rightarrow> string set" where
  "meet result [] = result"
| "meet result (other # others) = (if result \<inter> other = {} then {} else meet (result \<inter> other) others)"

definition li_select :: "string \<Rightarrow> (string, string) dict \<Rightarrow> label_index \<Rightarrow> string list" where
  "li_select metric matchers ix =
     (case dict_get (li_by_metric ix) metric of
        None \<Rightarrow> []
      | Some candidates \<Rightarrow>
          if candidates = {} then []
          else (let lists = candidates # map (\<lambda>pair. case dict_get (li_postings ix) pair of None \<Rightarrow> {} | Some s \<Rightarrow> s) (canonical matchers);
                    ordered = sort_key card lists
                in sorted_list_of_set (meet (hd ordered) (tl ordered))))"

definition li_label_cardinality :: "string \<Rightarrow> label_index \<Rightarrow> int" where
  "li_label_cardinality key ix = int (length (filter (\<lambda>((k, _), _). k = key) (li_postings ix)))"

section \<open>The database\<close>

type_synonym tier = "(string, (int, bucket) dict) dict"

record tsdb =
  db_max_series :: int
  db_index :: label_index
  db_raw :: "(string, point list) dict"
  db_rollups :: "(int, tier) dict"
  db_raw_floor :: "time option"

definition tsdb_new :: "int \<Rightarrow> tsdb" where
  "tsdb_new max_series =
     \<lparr>db_max_series = max_series, db_index = li_new, db_raw = [], db_rollups = [], db_raw_floor = None\<rparr>"

definition db_cardinality :: "tsdb \<Rightarrow> int" where
  "db_cardinality db = int (length (li_series (db_index db)))"

definition db_label_cardinality :: "string \<Rightarrow> tsdb \<Rightarrow> int" where
  "db_label_cardinality key db = li_label_cardinality key (db_index db)"

definition db_sample_count :: "tsdb \<Rightarrow> int" where
  "db_sample_count db = sum_list (map (\<lambda>(_, samples). int (length samples)) (db_raw db))"

definition db_write ::
  "string \<Rightarrow> (string, string) dict \<Rightarrow> rat \<Rightarrow> time option \<Rightarrow> time \<Rightarrow> tsdb \<Rightarrow> string result \<times> tsdb" where
  "db_write metric labels val timestamp now db =
     (let pairs = canonical labels; sid = series_id metric pairs;
          ts = (case timestamp of None \<Rightarrow> now | Some t \<Rightarrow> t);
          known = (dict_get (li_series (db_index db)) sid \<noteq> None)
      in if \<not> known \<and> db_max_series db \<le> int (length (li_series (db_index db))) then (Inl ValidationError, db)
         else let db1 = (if known then db
                         else db\<lparr>db_index := li_add \<lparr>se_id = sid, se_metric = metric, se_labels = pairs\<rparr> (db_index db),
                                 db_raw := dict_set sid [] (db_raw db)\<rparr>)
              in case dict_get (db_raw db1) sid of
                   None \<Rightarrow> (Inl KeyError, db1)
                 | Some samples \<Rightarrow>
                     if samples \<noteq> [] \<and> ts \<le> pt_timestamp (List.last samples) then (Inl ValidationError, db1)
                     else (Inr sid, db1\<lparr>db_raw := dict_set sid (samples @ [\<lparr>pt_timestamp = ts, pt_value = val\<rparr>]) (db_raw db1)\<rparr>))"

definition db_select :: "string \<Rightarrow> (string, string) dict \<Rightarrow> tsdb \<Rightarrow> string list" where
  "db_select metric matchers db = li_select metric matchers (db_index db)"

text \<open>\<^verbatim>\<open>int(timestamp // step)\<close>, and the samples of one series grouped by it.\<close>

definition bucket_index :: "int \<Rightarrow> time \<Rightarrow> int" where
  "bucket_index step t = \<lfloor>t / of_int step\<rfloor>"

definition group_samples :: "int \<Rightarrow> point list \<Rightarrow> (int, rat list) dict" where
  "group_samples step ps =
     fold (\<lambda>p grouped. let idx = bucket_index step (pt_timestamp p)
                       in dict_set idx ((case dict_get grouped idx of None \<Rightarrow> [] | Some vs \<Rightarrow> vs) @ [pt_value p]) grouped) ps []"

fun fold_groups :: "int \<Rightarrow> (int \<times> rat list) list \<Rightarrow> (int, bucket) dict \<Rightarrow> int \<Rightarrow> ((int, bucket) dict \<times> int) result" where
  "fold_groups step [] series_tier written = Inr (series_tier, written)"
| "fold_groups step ((idx, vals) # groups) series_tier written =
     (case bu_of (of_int (idx * step)) vals of
        Inl e \<Rightarrow> Inl e
      | Inr fresh \<Rightarrow>
          (let merged = (case dict_get series_tier idx of None \<Rightarrow> fresh | Some previous \<Rightarrow> bu_merge previous fresh)
           in fold_groups step groups (dict_set idx merged series_tier) (written + 1)))"

text \<open>
  The loop of \<^verbatim>\<open>compact\<close> over the series, which rewrites the samples and the tier as it goes: the
  series are the entries of the raw dict, each rewritten in place.
\<close>

fun compact_series ::
  "int \<Rightarrow> time \<Rightarrow> (string \<times> point list) list \<Rightarrow> tier \<Rightarrow> int \<Rightarrow> int \<Rightarrow> ((string \<times> point list) list \<times> tier \<times> int \<times> int) result" where
  "compact_series step before [] tier dropped written = Inr ([], tier, dropped, written)"
| "compact_series step before ((sid, samples) # raw) tier dropped written =
     (let cut = bisect_left pt_timestamp samples before
      in if cut = 0
         then (case compact_series step before raw tier dropped written of
                 Inl e \<Rightarrow> Inl e
               | Inr (raw', r) \<Rightarrow> Inr ((sid, samples) # raw', r))
         else (let series_tier = (case dict_get tier sid of None \<Rightarrow> [] | Some t \<Rightarrow> t)
               in case fold_groups step (group_samples step (take cut samples)) series_tier written of
                    Inl e \<Rightarrow> Inl e
                  | Inr (series_tier', written') \<Rightarrow>
                      (case compact_series step before raw (dict_set sid series_tier' tier) (dropped + int cut) written' of
                         Inl e \<Rightarrow> Inl e
                       | Inr (raw', r) \<Rightarrow> Inr ((sid, drop cut samples) # raw', r))))"

definition db_compact :: "int \<Rightarrow> time \<Rightarrow> tsdb \<Rightarrow> (int \<times> int) result \<times> tsdb" where
  "db_compact step before db =
     (if step \<le> 0 then (Inl ValidationError, db)
      else let tier = (case dict_get (db_rollups db) step of None \<Rightarrow> [] | Some t \<Rightarrow> t)
           in case compact_series step before (db_raw db) tier 0 0 of
                Inl e \<Rightarrow> (Inl e, db)
              | Inr (raw', tier', dropped, written) \<Rightarrow>
                  (Inr (dropped, written),
                   db\<lparr>db_raw := raw', db_rollups := dict_set step tier' (db_rollups db),
                      db_raw_floor := Some (case db_raw_floor db of None \<Rightarrow> before | Some t \<Rightarrow> max t before)\<rparr>))"

text \<open>\<^verbatim>\<open>_plan\<close>: \<open>None\<close> is the head block, \<open>Some s\<close> the tier of step \<open>s\<close>.\<close>

definition db_plan :: "time \<Rightarrow> int \<Rightarrow> tsdb \<Rightarrow> int option result" where
  "db_plan start step db =
     (if (case db_raw_floor db of None \<Rightarrow> True | Some t \<Rightarrow> t \<le> start) then Inr None
      else let usable = filter (\<lambda>s. s \<le> step \<and> step mod s = 0) (dict_keys (db_rollups db))
           in case usable of
                [] \<Rightarrow> Inl ValidationError
              | s # ss \<Rightarrow> Inr (Some (fold max ss s)))"

text \<open>A raw sample is a bucket of its own.\<close>

definition point_bucket :: "point \<Rightarrow> bucket" where
  "point_bucket p = \<lparr>bu_start = pt_timestamp p, bu_count = 1, bu_total = pt_value p,
     bu_minimum = pt_value p, bu_maximum = pt_value p, bu_last = pt_value p\<rparr>"

definition db_buckets_for :: "string \<Rightarrow> int option \<Rightarrow> tsdb \<Rightarrow> bucket list" where
  "db_buckets_for sid source db =
     (case source of
        None \<Rightarrow> map point_bucket (case dict_get (db_raw db) sid of None \<Rightarrow> [] | Some ps \<Rightarrow> ps)
      | Some s \<Rightarrow>
          (case dict_get (db_rollups db) s of
             None \<Rightarrow> []
           | Some tier \<Rightarrow> map snd (case dict_get tier sid of None \<Rightarrow> [] | Some bs \<Rightarrow> bs)))"

definition fold_bucket :: "int \<Rightarrow> bucket \<Rightarrow> (int, bucket) dict \<Rightarrow> (int, bucket) dict" where
  "fold_bucket step b folded =
     (let idx = bucket_index step (bu_start b)
      in dict_set idx (case dict_get folded idx of None \<Rightarrow> b | Some previous \<Rightarrow> bu_merge previous b) folded)"

definition db_range_query ::
  "string \<Rightarrow> (string, string) dict \<Rightarrow> time \<Rightarrow> time \<Rightarrow> int \<Rightarrow> aggregation \<Rightarrow> tsdb \<Rightarrow> point list result" where
  "db_range_query metric matchers start stop step agg db =
     (if step \<le> 0 \<or> stop \<le> start then Inl ValidationError
      else let ids = db_select metric matchers db
           in case db_plan start step db of
                Inl e \<Rightarrow> Inl e
              | Inr source \<Rightarrow>
                  (let buckets = filter (\<lambda>b. start \<le> bu_start b \<and> bu_start b < stop)
                                   (concat (map (\<lambda>sid. db_buckets_for sid source db) ids));
                       folded = fold (fold_bucket step) buckets []
                   in Inr (map (\<lambda>i. \<lparr>pt_timestamp = of_int (i * step),
                                     pt_value = agg_apply agg (case dict_get folded i of Some b \<Rightarrow> b)\<rparr>)
                             (sort (dict_keys folded)))))"

section \<open>What a bucket says of its samples\<close>

definition sums_up :: "bucket \<Rightarrow> rat multiset \<Rightarrow> bool" where
  "sums_up b vs \<longleftrightarrow> vs \<noteq> {#} \<and> bu_count b = int (size vs) \<and> bu_total b = sum_mset vs \<and>
     bu_minimum b = Min (set_mset vs) \<and> bu_maximum b = Max (set_mset vs)"

text \<open>The aggregates of a multiset of samples; the latest value is not one of them.\<close>

fun stat :: "aggregation \<Rightarrow> rat multiset \<Rightarrow> rat" where
  "stat Avg vs = sum_mset vs / of_nat (size vs)"
| "stat Sum vs = sum_mset vs"
| "stat Minimum vs = Min (set_mset vs)"
| "stat Maximum vs = Max (set_mset vs)"
| "stat Samples vs = of_nat (size vs)"
| "stat Latest vs = 0"

lemma agg_apply_stat: "sums_up b vs \<Longrightarrow> agg \<noteq> Latest \<Longrightarrow> agg_apply agg b = stat agg vs"
  by (cases agg) (simp_all add: sums_up_def bu_mean_def)

lemma sums_merge: "sums_up a vs \<Longrightarrow> sums_up b ws \<Longrightarrow> sums_up (bu_merge a b) (vs + ws)"
  by (auto simp: sums_up_def bu_merge_def Let_def Min_Un Max_Un)

lemma merge_start: "bu_start (bu_merge a b) = min (bu_start a) (bu_start b)"
  by (simp add: bu_merge_def Let_def)

lemma bu_of_sums: "vs \<noteq> [] \<Longrightarrow> \<exists>b. bu_of s vs = Inr b \<and> bu_start b = s \<and> sums_up b (mset vs)"
  by (cases vs) (auto simp: bu_of_def sums_up_def Min.set_eq_fold [symmetric] Max.set_eq_fold [symmetric] sum_mset_sum_list)

lemma point_bucket_sums: "sums_up (point_bucket p) {#pt_value p#}" "bu_start (point_bucket p) = pt_timestamp p"
  "bu_of (pt_timestamp p) [pt_value p] = Inr (point_bucket p)"
  by (simp_all add: sums_up_def point_bucket_def bu_of_def)

section \<open>Grouping and folding\<close>

lemma group_samples_ok: "dict_ok (group_samples s ps)"
  unfolding group_samples_def by (induction ps rule: rev_induct) (simp_all add: Let_def)

lemma group_samples_get:
  "dict_get (group_samples s ps) idx =
    (let vs = map pt_value (filter (\<lambda>p. bucket_index s (pt_timestamp p) = idx) ps) in if vs = [] then None else Some vs)"
proof (induction ps rule: rev_induct)
  case (snoc p ps)
  have "group_samples s (ps @ [p]) = (let idx = bucket_index s (pt_timestamp p)
      in dict_set idx ((case dict_get (group_samples s ps) idx of None \<Rightarrow> [] | Some vs \<Rightarrow> vs) @ [pt_value p]) (group_samples s ps))"
    by (simp add: group_samples_def)
  then show ?case using snoc [of] by (auto simp: Let_def)
qed (simp add: group_samples_def)

lemma group_samples_ne: "\<forall>(idx, vs) \<in> set (group_samples s ps). vs \<noteq> []"
proof (intro ballI prod.case_eq_if [THEN iffD2])
  fix e
  assume "e \<in> set (group_samples s ps)"
  then have "dict_get (group_samples s ps) (fst e) = Some (snd e)"
    using dict_get_mem [OF group_samples_ok [of s ps], of "fst e" "snd e"] by simp
  then show "snd e \<noteq> []" unfolding group_samples_get by (simp add: Let_def split: if_splits) (metis map_is_Nil_conv)
qed

text \<open>A series tier and the samples that have gone into each of its buckets.\<close>

definition tier_ok :: "int \<Rightarrow> (int, bucket) dict \<Rightarrow> (int \<Rightarrow> rat multiset) \<Rightarrow> bool" where
  "tier_ok s bs M \<longleftrightarrow> dict_ok bs \<and>
     (\<forall>idx. case dict_get bs idx of None \<Rightarrow> M idx = {#} | Some b \<Rightarrow> bu_start b = of_int (idx * s) \<and> sums_up b (M idx))"

lemma tier_ok_get:
  "tier_ok s bs M \<Longrightarrow> dict_get bs idx = Some b \<Longrightarrow> bu_start b = of_int (idx * s) \<and> sums_up b (M idx)"
  "tier_ok s bs M \<Longrightarrow> dict_get bs idx = None \<Longrightarrow> M idx = {#}"
  by (auto simp: tier_ok_def dest!: spec [of _ idx])

lemma fold_groups_tier:
  assumes "tier_ok s bs M" "distinct (map fst gs)" "\<forall>(idx, vs) \<in> set gs. vs \<noteq> []"
  shows "\<exists>bs' w'. fold_groups s gs bs w = Inr (bs', w') \<and>
    tier_ok s bs' (\<lambda>idx. M idx + (case dict_get gs idx of None \<Rightarrow> {#} | Some vs \<Rightarrow> mset vs))"
  using assms
proof (induction gs arbitrary: bs M w)
  case Nil
  then show ?case by simp
next
  case (Cons g gs)
  obtain idx vs where g: "g = (idx, vs)" by (cases g)
  obtain fresh where f: "bu_of (of_int (idx * s)) vs = Inr fresh" "bu_start fresh = of_int (idx * s)" "sums_up fresh (mset vs)"
    using bu_of_sums [of vs "of_int (idx * s)"] Cons.prems(3) by (auto simp: g)
  define merged where "merged = (case dict_get bs idx of None \<Rightarrow> fresh | Some previous \<Rightarrow> bu_merge previous fresh)"
  have m: "bu_start merged = of_int (idx * s) \<and> sums_up merged (M idx + mset vs)"
  proof (cases "dict_get bs idx")
    case None
    then show ?thesis using f tier_ok_get(2) [OF Cons.prems(1) None] by (simp add: merged_def)
  next
    case (Some previous)
    from tier_ok_get(1) [OF Cons.prems(1) Some] f show ?thesis
      by (simp add: merged_def Some merge_start sums_merge)
  qed
  have ok: "tier_ok s (dict_set idx merged bs) (\<lambda>i. if i = idx then M idx + mset vs else M i)"
    using Cons.prems(1) m by (simp add: tier_ok_def)
  have no: "dict_get gs idx = None" using Cons.prems(2) by (simp add: g dict_get_None)
  have "(\<lambda>i. (if i = idx then M idx + mset vs else M i) + (case dict_get gs i of None \<Rightarrow> {#} | Some vs \<Rightarrow> mset vs)) =
      (\<lambda>i. M i + (case dict_get (g # gs) i of None \<Rightarrow> {#} | Some vs \<Rightarrow> mset vs))"
    using no by (auto simp: g fun_eq_iff)
  moreover have "fold_groups s (g # gs) bs w = fold_groups s gs (dict_set idx merged bs) (w + 1)"
    unfolding g fold_groups.simps f(1) sum.case Let_def merged_def ..
  ultimately show ?case
    using Cons.IH [OF ok, of "w + 1"] Cons.prems(2,3) by simp
qed

definition tier_rel :: "int \<Rightarrow> tier \<Rightarrow> (string \<Rightarrow> int \<Rightarrow> rat multiset) \<Rightarrow> bool" where
  "tier_rel s tier N \<longleftrightarrow> dict_ok tier \<and> (\<forall>sid. tier_ok s (case dict_get tier sid of None \<Rightarrow> [] | Some t \<Rightarrow> t) (N sid))"

lemma take_bisect_left:
  "sorted (map key xs) \<Longrightarrow> take (bisect_left key xs x) xs = filter (\<lambda>a. key a < x) xs"
  using filter_split_at(2) [of "bisect_left key xs x" xs "\<lambda>a. x \<le> key a"]
  by (auto dest: bisect_left_spec simp: not_le)

lemma take_drop_bisect_timestamp:
  assumes "sorted (map pt_timestamp ps)"
  shows "take (bisect_left pt_timestamp ps t) ps = filter (\<lambda>p. pt_timestamp p < t) ps"
    "drop (bisect_left pt_timestamp ps t) ps = filter (\<lambda>p. t \<le> pt_timestamp p) ps"
    "bisect_left pt_timestamp ps t = length (filter (\<lambda>p. pt_timestamp p < t) ps)"
proof -
  show take: "take (bisect_left pt_timestamp ps t) ps = filter (\<lambda>p. pt_timestamp p < t) ps" by (rule take_bisect_left [OF assms])
  show "drop (bisect_left pt_timestamp ps t) ps = filter (\<lambda>p. t \<le> pt_timestamp p) ps" by (rule drop_bisect_left [OF assms])
  show "bisect_left pt_timestamp ps t = length (filter (\<lambda>p. pt_timestamp p < t) ps)"
    using take bisect_left_spec(1) [OF assms, of t] by (metis length_take min.absorb2)
qed

text \<open>The samples a compaction takes from the raw dict into bucket \<open>idx\<close> of a series.\<close>

definition taken :: "int \<Rightarrow> time \<Rightarrow> (string \<times> point list) list \<Rightarrow> string \<Rightarrow> int \<Rightarrow> rat multiset" where
  "taken s before raw sid idx = mset (map pt_value (filter (\<lambda>p. pt_timestamp p < before \<and> bucket_index s (pt_timestamp p) = idx)
     (case dict_get raw sid of None \<Rightarrow> [] | Some ps \<Rightarrow> ps)))"

lemma compact_series_spec:
  assumes "tier_rel s tier N" "distinct (map fst raw)" "\<forall>(sid, ps) \<in> set raw. sorted (map pt_timestamp ps)"
  shows "\<exists>tier' d' w'. compact_series s before raw tier d w =
      Inr (map (\<lambda>(sid, ps). (sid, filter (\<lambda>p. before \<le> pt_timestamp p) ps)) raw, tier', d', w') \<and>
    tier_rel s tier' (\<lambda>sid idx. N sid idx + taken s before raw sid idx)"
  using assms
proof (induction raw arbitrary: tier N d w)
  case Nil
  then show ?case by (simp add: taken_def)
next
  case (Cons entry raw)
  obtain sid ps where e: "entry = (sid, ps)" by (cases entry)
  have srt: "sorted (map pt_timestamp ps)" using Cons.prems(3) by (simp add: e)
  note cut = take_drop_bisect_timestamp [OF srt, of before]
  have "dict_get raw sid = None" using Cons.prems(2) by (simp add: e dict_get_None)
  then have no: "taken s before raw sid idx = {#}" for idx by (simp add: taken_def)
  have tk: "taken s before (entry # raw) i idx = (if i = sid
      then mset (map pt_value (filter (\<lambda>p. pt_timestamp p < before \<and> bucket_index s (pt_timestamp p) = idx) ps))
      else taken s before raw i idx)" for i idx
    by (simp add: taken_def e)
  show ?case
  proof (cases "bisect_left pt_timestamp ps before = 0")
    case True
    then have old: "filter (\<lambda>p. pt_timestamp p < before) ps = []" using cut(3) by simp
    then have "filter (\<lambda>p. before \<le> pt_timestamp p) ps = ps" by (auto simp: filter_empty_conv filter_id_conv not_less)
    moreover have "filter (\<lambda>p. pt_timestamp p < before \<and> bucket_index s (pt_timestamp p) = idx) ps = []" for idx
      using old by (auto simp: filter_empty_conv)
    then have "(\<lambda>i idx. N i idx + taken s before raw i idx) = (\<lambda>i idx. N i idx + taken s before (entry # raw) i idx)"
      using no by (simp add: tk fun_eq_iff)
    ultimately show ?thesis using Cons.IH [OF Cons.prems(1), of d w] Cons.prems(2,3) True by (auto simp: e Let_def)
  next
    case False
    let ?old = "filter (\<lambda>p. pt_timestamp p < before) ps"
    let ?t = "case dict_get tier sid of None \<Rightarrow> [] | Some t \<Rightarrow> t"
    have ok: "tier_ok s ?t (N sid)" "dict_ok tier" using Cons.prems(1) by (simp_all add: tier_rel_def)
    from fold_groups_tier [OF ok(1) group_samples_ok [of s ?old, unfolded dict_ok_def] group_samples_ne, of w]
    obtain t' w' where t': "fold_groups s (group_samples s ?old) ?t w = Inr (t', w')"
      "tier_ok s t' (\<lambda>idx. N sid idx + (case dict_get (group_samples s ?old) idx of None \<Rightarrow> {#} | Some vs \<Rightarrow> mset vs))" by blast
    have add: "(case dict_get (group_samples s ?old) idx of None \<Rightarrow> {#} | Some vs \<Rightarrow> mset vs) = taken s before (entry # raw) sid idx" for idx
      unfolding group_samples_get by (auto simp: tk Let_def filter_empty_conv conj_commute)
    have rel: "tier_rel s (dict_set sid t' tier) (\<lambda>i idx. if i = sid then N sid idx + taken s before (entry # raw) sid idx else N i idx)"
      using Cons.prems(1) t'(2) by (simp add: tier_rel_def add)
    have N: "(\<lambda>i idx. (if i = sid then N sid idx + taken s before (entry # raw) sid idx else N i idx) + taken s before raw i idx) =
        (\<lambda>i idx. N i idx + taken s before (entry # raw) i idx)"
      using no by (auto simp: tk fun_eq_iff)
    from Cons.IH [OF rel, of "d + int (bisect_left pt_timestamp ps before)" w'] Cons.prems(2,3)
    obtain tier' d' w'' where l: "compact_series s before raw (dict_set sid t' tier) (d + int (bisect_left pt_timestamp ps before)) w' =
        Inr (map (\<lambda>(sid, ps). (sid, filter (\<lambda>p. before \<le> pt_timestamp p) ps)) raw, tier', d', w'')"
      "tier_rel s tier' (\<lambda>i idx. N i idx + taken s before (entry # raw) i idx)" unfolding N by (auto simp: e)
    then show ?thesis using False t'(1) cut by (simp add: e Let_def)
  qed
qed


section \<open>The index lists what it says\<close>

definition listed :: "('k, string set) dict \<Rightarrow> 'k \<Rightarrow> string set" where
  "listed d k = (case dict_get d k of None \<Rightarrow> {} | Some s \<Rightarrow> s)"

definition index_ok :: "label_index \<Rightarrow> bool" where
  "index_ok ix \<longleftrightarrow> dict_ok (li_series ix) \<and>
     (\<forall>sid s. dict_get (li_series ix) sid = Some s \<longrightarrow> se_id s = sid) \<and>
     (\<forall>m. listed (li_by_metric ix) m = {sid. \<exists>s. dict_get (li_series ix) sid = Some s \<and> se_metric s = m}) \<and>
     (\<forall>pair. listed (li_postings ix) pair = {sid. \<exists>s. dict_get (li_series ix) sid = Some s \<and> pair \<in> set (se_labels s)})"

lemma listed_post: "listed (post k x d) k' = (if k' = k then insert x (listed d k) else listed d k')"
  by (simp add: listed_def post_def)

lemma listed_posts: "listed (fold (\<lambda>pair. post pair x) pairs d) pair = (if pair \<in> set pairs then insert x (listed d pair) else listed d pair)"
  by (induction pairs arbitrary: d) (auto simp: listed_post)

lemma index_ok_new: "index_ok li_new"
  by (simp add: index_ok_def li_new_def listed_def)

lemma index_ok_add:
  assumes "index_ok ix" "dict_get (li_series ix) (se_id s) = None"
  shows "index_ok (li_add s ix)"
  using assms by (auto simp: index_ok_def li_add_def listed_post listed_posts)

lemma li_add_series: "li_series (li_add s ix) = dict_set (se_id s) s (li_series ix)"
  by (simp add: li_add_def)

lemma meet_Inter: "meet r others = (if others = [] then r else r \<inter> \<Inter> (set others))"
  by (induction others arbitrary: r) auto

lemma li_select_exact:
  assumes "index_ok ix"
  shows "li_select metric matchers ix = sorted_list_of_set
    {sid. \<exists>s. dict_get (li_series ix) sid = Some s \<and> se_metric s = metric \<and> set matchers \<subseteq> set (se_labels s)}"
proof -
  let ?post = "\<lambda>pair. case dict_get (li_postings ix) pair of None \<Rightarrow> {} | Some s \<Rightarrow> s"
  let ?all = "{sid. \<exists>s. dict_get (li_series ix) sid = Some s \<and> se_metric s = metric \<and> set matchers \<subseteq> set (se_labels s)}"
  have m: "listed (li_by_metric ix) metric = {sid. \<exists>s. dict_get (li_series ix) sid = Some s \<and> se_metric s = metric}"
    using assms unfolding index_ok_def by blast
  have p: "?post pair = {sid. \<exists>s. dict_get (li_series ix) sid = Some s \<and> pair \<in> set (se_labels s)}" for pair
    using assms unfolding index_ok_def listed_def by blast
  have all: "?all = listed (li_by_metric ix) metric \<inter> \<Inter> (?post ` set matchers)" unfolding m p by auto
  have "meet (hd (sort_key card (c # cs))) (tl (sort_key card (c # cs))) = c \<inter> \<Inter> (set cs)" for c :: "string set" and cs
  proof -
    obtain d ds where d: "sort_key card (c # cs) = d # ds" by (metis length_0_conv length_sort list.exhaust list.simps(3))
    then have "set (d # ds) = set (c # cs)" by (metis set_sort)
    then have "d \<inter> \<Inter> (set ds) = c \<inter> \<Inter> (set cs)" by (metis Inf_insert list.simps(15))
    then show ?thesis unfolding d meet_Inter by auto
  qed
  then have "li_select metric matchers ix = sorted_list_of_set (listed (li_by_metric ix) metric \<inter> \<Inter> (?post ` set matchers))"
    by (simp add: li_select_def listed_def canonical_def Let_def split: option.split del: sort_key_simps)
  then show ?thesis unfolding all .
qed

section \<open>Where every sample is\<close>

text \<open>
  The accepted samples in order of acceptance, each with its series and its place: \<open>None\<close> for the head
  block, \<open>Some s\<close> once it has been folded into the tier of step \<open>s\<close>.
\<close>

type_synonym held = "(int option \<times> string \<times> point) list"

definition hold_compacted :: "int \<Rightarrow> time \<Rightarrow> held \<Rightarrow> held" where
  "hold_compacted step before = map (\<lambda>(src, sid, p). if src = None \<and> pt_timestamp p < before then (Some step, sid, p) else (src, sid, p))"

inductive db_reach :: "tsdb \<Rightarrow> held \<Rightarrow> bool" where
  start: "db_reach (tsdb_new max_series) []"
| wrote: "db_reach db held \<Longrightarrow> db_write metric labels val timestamp now db = (Inr sid, db') \<Longrightarrow>
    db_reach db' (held @ [(None, sid, \<lparr>pt_timestamp = (case timestamp of None \<Rightarrow> now | Some t \<Rightarrow> t), pt_value = val\<rparr>)])"
| refused: "db_reach db held \<Longrightarrow> db_write metric labels val timestamp now db = (Inl e, db') \<Longrightarrow> db_reach db' held"
| compacted: "db_reach db held \<Longrightarrow> db_compact step before db = (Inr r, db') \<Longrightarrow> db_reach db' (hold_compacted step before held)"

definition held_in :: "int option \<Rightarrow> string \<Rightarrow> held \<Rightarrow> point list" where
  "held_in src sid held = map (\<lambda>(_, _, p). p) (filter (\<lambda>(c, i, _). c = src \<and> i = sid) held)"

definition in_bucket :: "int \<Rightarrow> string \<Rightarrow> held \<Rightarrow> int \<Rightarrow> rat multiset" where
  "in_bucket s sid held idx = mset (map pt_value (filter (\<lambda>p. bucket_index s (pt_timestamp p) = idx) (held_in (Some s) sid held)))"

definition db_inv :: "tsdb \<Rightarrow> held \<Rightarrow> bool" where
  "db_inv db held \<longleftrightarrow> index_ok (db_index db) \<and> dict_ok (db_raw db) \<and>
     set (dict_keys (db_raw db)) = set (dict_keys (li_series (db_index db))) \<and>
     (\<forall>sid. (case dict_get (db_raw db) sid of None \<Rightarrow> [] | Some ps \<Rightarrow> ps) = held_in None sid held) \<and>
     (\<forall>sid. sorted_wrt (<) (map pt_timestamp (held_in None sid held))) \<and>
     dict_ok (db_rollups db) \<and> (\<forall>s \<in> set (dict_keys (db_rollups db)). 0 < s) \<and>
     (\<forall>s. tier_rel s (case dict_get (db_rollups db) s of None \<Rightarrow> [] | Some t \<Rightarrow> t) (\<lambda>sid. in_bucket s sid held)) \<and>
     (\<forall>(src, sid, p) \<in> set held. sid \<in> set (dict_keys (li_series (db_index db))) \<and>
        (src \<noteq> None \<longrightarrow> (\<exists>t. db_raw_floor db = Some t \<and> pt_timestamp p < t)))"

lemma db_invD:
  assumes "db_inv db held"
  shows "index_ok (db_index db)" "dict_ok (db_raw db)" "set (dict_keys (db_raw db)) = set (dict_keys (li_series (db_index db)))"
    "(case dict_get (db_raw db) i of None \<Rightarrow> [] | Some ps \<Rightarrow> ps) = held_in None i held"
    "sorted_wrt (<) (map pt_timestamp (held_in None i held))"
    "dict_ok (db_rollups db)" "s \<in> set (dict_keys (db_rollups db)) \<Longrightarrow> 0 < s"
    "tier_rel s (case dict_get (db_rollups db) s of None \<Rightarrow> [] | Some t \<Rightarrow> t) (\<lambda>sid. in_bucket s sid held)"
    "\<forall>(src, sid, p) \<in> set held. sid \<in> set (dict_keys (li_series (db_index db))) \<and>
        (src \<noteq> None \<longrightarrow> (\<exists>t. db_raw_floor db = Some t \<and> pt_timestamp p < t))"
proof -
  note c = assms [unfolded db_inv_def]
  show "index_ok (db_index db)" by (rule c [THEN conjunct1])
  show "dict_ok (db_raw db)" by (rule c [THEN conjunct2, THEN conjunct1])
  show "set (dict_keys (db_raw db)) = set (dict_keys (li_series (db_index db)))" by (rule c [THEN conjunct2, THEN conjunct2, THEN conjunct1])
  show "(case dict_get (db_raw db) i of None \<Rightarrow> [] | Some ps \<Rightarrow> ps) = held_in None i held" by (rule spec [OF c [THEN conjunct2, THEN conjunct2, THEN conjunct2, THEN conjunct1]])
  show "sorted_wrt (<) (map pt_timestamp (held_in None i held))" by (rule spec [OF c [THEN conjunct2, THEN conjunct2, THEN conjunct2, THEN conjunct2, THEN conjunct1]])
  show "dict_ok (db_rollups db)" by (rule c [THEN conjunct2, THEN conjunct2, THEN conjunct2, THEN conjunct2, THEN conjunct2, THEN conjunct1])
  show "s \<in> set (dict_keys (db_rollups db)) \<Longrightarrow> 0 < s" by (erule bspec [OF c [THEN conjunct2, THEN conjunct2, THEN conjunct2, THEN conjunct2, THEN conjunct2, THEN conjunct2, THEN conjunct1]])
  show "tier_rel s (case dict_get (db_rollups db) s of None \<Rightarrow> [] | Some t \<Rightarrow> t) (\<lambda>sid. in_bucket s sid held)" by (rule spec [OF c [THEN conjunct2, THEN conjunct2, THEN conjunct2, THEN conjunct2, THEN conjunct2, THEN conjunct2, THEN conjunct2, THEN conjunct1]])
  show "\<forall>(src, sid, p) \<in> set held. sid \<in> set (dict_keys (li_series (db_index db))) \<and>
        (src \<noteq> None \<longrightarrow> (\<exists>t. db_raw_floor db = Some t \<and> pt_timestamp p < t))" by (rule c [THEN conjunct2, THEN conjunct2, THEN conjunct2, THEN conjunct2, THEN conjunct2, THEN conjunct2, THEN conjunct2, THEN conjunct2])
qed

lemma held_in_snoc: "held_in src sid (held @ [(c, i, p)]) = held_in src sid held @ (if c = src \<and> i = sid then [p] else [])"
  by (simp add: held_in_def)

lemma in_bucket_head [simp]: "in_bucket s sid (held @ [(None, i, p)]) = in_bucket s sid held"
  by (simp add: in_bucket_def held_in_snoc fun_eq_iff)

lemma db_inv_new: "db_inv (tsdb_new max_series) []"
  using index_ok_new by (simp add: db_inv_def tsdb_new_def li_new_def held_in_def in_bucket_def tier_rel_def tier_ok_def)

lemma db_inv_add_series:
  assumes "db_inv db held" "dict_get (li_series (db_index db)) (se_id s) = None"
  shows "db_inv (db\<lparr>db_index := li_add s (db_index db), db_raw := dict_set (se_id s) [] (db_raw db)\<rparr>) held"
    "held_in None (se_id s) held = []"
proof -
  have i: "index_ok (db_index db)" "dict_ok (db_raw db)" "set (dict_keys (db_raw db)) = set (dict_keys (li_series (db_index db)))"
      "\<And>sid. (case dict_get (db_raw db) sid of None \<Rightarrow> [] | Some ps \<Rightarrow> ps) = held_in None sid held"
    by (rule db_invD [OF assms(1)], assumption?)+
  have "se_id s \<notin> set (dict_keys (db_raw db))" using assms(2) unfolding i(3) dict_get_None .
  then have none: "dict_get (db_raw db) (se_id s) = None" unfolding dict_get_None .
  then show none': "held_in None (se_id s) held = []" using i(4) [of "se_id s"] by simp
  have get: "(case dict_get (dict_set (se_id s) [] (db_raw db)) sid of None \<Rightarrow> [] | Some ps \<Rightarrow> ps) = held_in None sid held" for sid
    using i(4) [of sid] none' by simp
  have keys: "set (dict_keys (dict_set (se_id s) [] (db_raw db))) = insert (se_id s) (set (dict_keys (li_series (db_index db))))"
    "set (dict_keys (li_series (li_add s (db_index db)))) = insert (se_id s) (set (dict_keys (li_series (db_index db))))"
    by (simp_all only: dict_keys_set i(3) li_add_series)
  show "db_inv (db\<lparr>db_index := li_add s (db_index db), db_raw := dict_set (se_id s) [] (db_raw db)\<rparr>) held"
    using assms(1) index_ok_add [OF i(1) assms(2)] unfolding db_inv_def by (auto simp: get keys simp del: set_map dict_get_set)
qed

lemma db_inv_append:
  assumes "db_inv db held" "sid \<in> set (dict_keys (li_series (db_index db)))"
    and "\<forall>q \<in> set (held_in None sid held). pt_timestamp q < pt_timestamp p"
  shows "db_inv (db\<lparr>db_raw := dict_set sid (held_in None sid held @ [p]) (db_raw db)\<rparr>) (held @ [(None, sid, p)])"
proof -
  have i: "dict_ok (db_raw db)" "set (dict_keys (db_raw db)) = set (dict_keys (li_series (db_index db)))"
      "\<And>i. (case dict_get (db_raw db) i of None \<Rightarrow> [] | Some ps \<Rightarrow> ps) = held_in None i held"
      "\<And>i. sorted_wrt (<) (map pt_timestamp (held_in None i held))"
    by (rule db_invD [OF assms(1)], assumption?)+
  have get: "(case dict_get (dict_set sid (held_in None sid held @ [p]) (db_raw db)) i of None \<Rightarrow> [] | Some ps \<Rightarrow> ps) =
      held_in None i (held @ [(None, sid, p)])" for i
    using i(3) [of i] by (simp add: held_in_snoc)
  have keys: "set (dict_keys (dict_set sid (held_in None sid held @ [p]) (db_raw db))) = set (dict_keys (li_series (db_index db)))"
    using assms(2) i(2) by (simp only: dict_keys_set insert_absorb)
  have srt: "sorted_wrt (<) (map pt_timestamp (held_in None i (held @ [(None, sid, p)])))" for i
    using i(4) [of i] assms(3) by (auto simp: held_in_snoc sorted_wrt_append)
  show ?thesis
    using assms(1,2) unfolding db_inv_def by (auto simp: get keys srt simp del: set_map dict_get_set)
qed

lemma db_write_inv:
  assumes "db_inv db held" "db_write metric labels val timestamp now db = (r, db')"
  shows "(\<forall>sid. r = Inr sid \<longrightarrow> db_inv db' (held @ [(None, sid, \<lparr>pt_timestamp = (case timestamp of None \<Rightarrow> now | Some t \<Rightarrow> t), pt_value = val\<rparr>)])) \<and>
    (\<forall>e. r = Inl e \<longrightarrow> db' = db \<and> e = ValidationError)"
proof -
  define s where "s = \<lparr>se_id = series_id metric (canonical labels), se_metric = metric, se_labels = canonical labels\<rparr>"
  let ?sid = "series_id metric (canonical labels)"
  define ts where "ts = (case timestamp of None \<Rightarrow> now | Some t \<Rightarrow> t)"
  have sid: "se_id s = ?sid" by (simp add: s_def)
  show ?thesis
  proof (cases "dict_get (li_series (db_index db)) ?sid")
    case None
    show ?thesis
    proof (cases "db_max_series db \<le> int (length (li_series (db_index db)))")
      case True
      then show ?thesis using assms(2) None by (auto simp: db_write_def Let_def)
    next
      case False
      let ?db1 = "db\<lparr>db_index := li_add s (db_index db), db_raw := dict_set ?sid [] (db_raw db)\<rparr>"
      have no: "dict_get (li_series (db_index db)) (se_id s) = None" using None sid by simp
      have i: "db_inv ?db1 held" "held_in None ?sid held = []"
        using db_inv_add_series [OF assms(1) no] unfolding sid by simp_all
      have "?sid \<in> set (dict_keys (li_series (db_index ?db1)))"
        by (simp del: set_map add: li_add_series dict_keys_set sid)
      from db_inv_append [OF i(1) this, of "\<lparr>pt_timestamp = ts, pt_value = val\<rparr>"]
      have "db_inv (?db1\<lparr>db_raw := dict_set ?sid [\<lparr>pt_timestamp = ts, pt_value = val\<rparr>] (db_raw ?db1)\<rparr>) (held @ [(None, ?sid, \<lparr>pt_timestamp = ts, pt_value = val\<rparr>)])"
        by (simp add: i(2))
      moreover have "r = Inr ?sid" "db' = ?db1\<lparr>db_raw := dict_set ?sid [\<lparr>pt_timestamp = ts, pt_value = val\<rparr>] (db_raw ?db1)\<rparr>"
        using assms(2) None False by (simp_all add: db_write_def Let_def s_def ts_def)
      ultimately show ?thesis by (simp add: ts_def)
    qed
  next
    case (Some s')
    let ?samples = "held_in None ?sid held"
    have i: "set (dict_keys (db_raw db)) = set (dict_keys (li_series (db_index db)))"
        "\<And>i. (case dict_get (db_raw db) i of None \<Rightarrow> [] | Some ps \<Rightarrow> ps) = held_in None i held"
        "\<And>i. sorted_wrt (<) (map pt_timestamp (held_in None i held))"
    by (rule db_invD [OF assms(1)], assumption?)+
    have key: "?sid \<in> set (dict_keys (li_series (db_index db)))" by (rule dict_get_keys [OF Some])
    then have "dict_get (db_raw db) ?sid \<noteq> None" unfolding dict_get_None i(1) [symmetric] by simp
    then have raw: "dict_get (db_raw db) ?sid = Some ?samples" using i(2) [of ?sid] by auto
    have w: "db_write metric labels val timestamp now db =
        (if ?samples \<noteq> [] \<and> ts \<le> pt_timestamp (List.last ?samples) then (Inl ValidationError, db)
         else (Inr ?sid, db\<lparr>db_raw := dict_set ?sid (?samples @ [\<lparr>pt_timestamp = ts, pt_value = val\<rparr>]) (db_raw db)\<rparr>))"
      by (simp add: db_write_def Let_def Some raw ts_def)
    show ?thesis
    proof (cases "?samples \<noteq> [] \<and> ts \<le> pt_timestamp (List.last ?samples)")
      case True
      then show ?thesis using assms(2) w by auto
    next
      case False
      have "\<forall>q \<in> set ?samples. pt_timestamp q < ts"
      proof (cases ?samples rule: rev_cases)
        case (snoc qs q)
        then show ?thesis using i(3) [of ?sid] False by (fastforce simp: sorted_wrt_append)
      qed simp
      then have "db_inv (db\<lparr>db_raw := dict_set ?sid (?samples @ [\<lparr>pt_timestamp = ts, pt_value = val\<rparr>]) (db_raw db)\<rparr>)
          (held @ [(None, ?sid, \<lparr>pt_timestamp = ts, pt_value = val\<rparr>)])"
        by (intro db_inv_append [OF assms(1) key]) simp
      moreover have "r = Inr ?sid" "db' = db\<lparr>db_raw := dict_set ?sid (?samples @ [\<lparr>pt_timestamp = ts, pt_value = val\<rparr>]) (db_raw db)\<rparr>"
        using assms(2) unfolding w if_not_P [OF False] by simp_all
      ultimately show ?thesis by (simp add: ts_def)
    qed
  qed
qed

lemma held_simps [simp]:
  "held_in src sid [] = []" "hold_compacted step before [] = []"
  "held_in src sid ((c, i, p) # held) = (if c = src \<and> i = sid then p # held_in src sid held else held_in src sid held)"
  "hold_compacted step before ((c, i, p) # held) =
    (if c = None \<and> pt_timestamp p < before then (Some step, i, p) else (c, i, p)) # hold_compacted step before held"
  by (simp_all add: held_in_def hold_compacted_def)

lemma hold_compacted_head:
  "held_in None sid (hold_compacted step before held) = filter (\<lambda>p. before \<le> pt_timestamp p) (held_in None sid held)"
proof (induction held)
  case (Cons x held)
  obtain c i p where "x = (c, i, p)" by (cases x)
  with Cons show ?case by simp
qed simp

lemma hold_compacted_tier:
  "mset (map v (filter Q (held_in (Some s) sid (hold_compacted step before held)))) =
    mset (map v (filter Q (held_in (Some s) sid held))) +
    (if s = step then mset (map v (filter (\<lambda>p. pt_timestamp p < before \<and> Q p) (held_in None sid held))) else {#})"
proof (induction held)
  case (Cons x held)
  obtain c i p where "x = (c, i, p)" by (cases x)
  with Cons show ?case by (cases "s = step") auto
qed simp

lemma tier_rel_nil: "tier_rel s [] N \<longleftrightarrow> (\<forall>sid idx. N sid idx = {#})"
  by (auto simp: tier_rel_def tier_ok_def)

lemma db_compact_inv:
  assumes "db_inv db held" "db_compact step before db = (r, db')"
  shows "(\<forall>n. r = Inr n \<longrightarrow> db_inv db' (hold_compacted step before held)) \<and> (\<forall>e. r = Inl e \<longrightarrow> db' = db \<and> step \<le> 0 \<and> e = ValidationError)"
proof (cases "step \<le> 0")
  case True
  then show ?thesis using assms(2) by (auto simp: db_compact_def)
next
  case False
  let ?held = "hold_compacted step before held"
  have i: "index_ok (db_index db)" "dict_ok (db_raw db)" "set (dict_keys (db_raw db)) = set (dict_keys (li_series (db_index db)))"
      "\<And>i. (case dict_get (db_raw db) i of None \<Rightarrow> [] | Some ps \<Rightarrow> ps) = held_in None i held"
      "\<And>i. sorted_wrt (<) (map pt_timestamp (held_in None i held))"
      "dict_ok (db_rollups db)" "\<And>s. s \<in> set (dict_keys (db_rollups db)) \<Longrightarrow> 0 < s"
      "\<And>s. tier_rel s (case dict_get (db_rollups db) s of None \<Rightarrow> [] | Some t \<Rightarrow> t) (\<lambda>sid. in_bucket s sid held)"
    by (rule db_invD [OF assms(1)], assumption?)+
  have srt: "\<forall>(sid, ps) \<in> set (db_raw db). sorted (map pt_timestamp ps)"
  proof (intro ballI prod.case_eq_if [THEN iffD2])
    fix e
    assume "e \<in> set (db_raw db)"
    then have "dict_get (db_raw db) (fst e) = Some (snd e)" using dict_get_mem [OF i(2), of "fst e" "snd e"] by simp
    then have "snd e = held_in None (fst e) held" using i(4) [of "fst e"] by simp
    then show "sorted (map pt_timestamp (snd e))" using i(5) [of "fst e"] strict_sorted_imp_sorted by metis
  qed
  from compact_series_spec [OF i(8) [of step] i(2) [unfolded dict_ok_def] srt, of before 0 0]
  obtain tier' d w where t: "compact_series step before (db_raw db) (case dict_get (db_rollups db) step of None \<Rightarrow> [] | Some t \<Rightarrow> t) 0 0 =
      Inr (map (\<lambda>(sid, ps). (sid, filter (\<lambda>p. before \<le> pt_timestamp p) ps)) (db_raw db), tier', d, w)"
    "tier_rel step tier' (\<lambda>sid idx. in_bucket step sid held idx + taken step before (db_raw db) sid idx)" by blast
  define raw' where "raw' = map (\<lambda>(sid, ps). (sid, filter (\<lambda>p. before \<le> pt_timestamp p) ps)) (db_raw db)"
  define floor' where "floor' = (case db_raw_floor db of None \<Rightarrow> before | Some t \<Rightarrow> max t before)"
  have db': "r = Inr (d, w)" "db' = db\<lparr>db_raw := raw', db_rollups := dict_set step tier' (db_rollups db), db_raw_floor := Some floor'\<rparr>"
    using assms(2) False t(1) by (simp_all add: db_compact_def raw'_def floor'_def)
  have tb: "in_bucket step sid held idx + taken step before (db_raw db) sid idx = in_bucket step sid ?held idx" for sid idx
    unfolding in_bucket_def taken_def hold_compacted_tier i(4) by simp
  have other: "in_bucket s sid ?held = in_bucket s sid held" if "s \<noteq> step" for s sid
    using that by (intro ext) (simp only: in_bucket_def hold_compacted_tier if_False add_0_right)
  have tiers: "tier_rel s (case dict_get (dict_set step tier' (db_rollups db)) s of None \<Rightarrow> [] | Some t \<Rightarrow> t) (\<lambda>sid. in_bucket s sid ?held)" for s
  proof (cases "s = step")
    case True
    have "tier_rel step tier' (\<lambda>sid. in_bucket step sid ?held)" using t(2) unfolding tb .
    then show ?thesis by (simp add: True)
  next
    case False
    then show ?thesis using i(8) [of s] by (simp add: other cong: option.case_cong)
  qed
  have get: "(case dict_get raw' sid of None \<Rightarrow> [] | Some ps \<Rightarrow> ps) = held_in None sid ?held" for sid
    using i(4) [of sid] by (auto simp: raw'_def hold_compacted_head map_of_map split: option.splits)
  have keys: "dict_keys raw' = dict_keys (db_raw db)" by (simp add: raw'_def case_prod_beta')
  have srt': "sorted_wrt (<) (map pt_timestamp (held_in None sid ?held))" for sid
    using i(5) [of sid] unfolding hold_compacted_head sorted_wrt_map by (rule sorted_wrt_filter)
  have places: "\<forall>(src, sid, p) \<in> set ?held. sid \<in> set (dict_keys (li_series (db_index db))) \<and> (src \<noteq> None \<longrightarrow> pt_timestamp p < floor')"
  proof (intro ballI prod.case_eq_if [THEN iffD2] conjI impI)
    fix e
    assume "e \<in> set ?held"
    then obtain src sid p where e: "(src, sid, p) \<in> set held"
        "e = (if src = None \<and> pt_timestamp p < before then (Some step, sid, p) else (src, sid, p))"
      by (auto simp: hold_compacted_def)
    then have "sid \<in> set (dict_keys (li_series (db_index db)))" "src \<noteq> None \<Longrightarrow> \<exists>t. db_raw_floor db = Some t \<and> pt_timestamp p < t"
      using db_invD(9) [OF assms(1)] by blast+
    then show "fst (snd e) \<in> set (dict_keys (li_series (db_index db)))"
      "fst e \<noteq> None \<Longrightarrow> pt_timestamp (snd (snd e)) < floor'"
      using e(2) by (auto simp: floor'_def less_max_iff_disj simp del: set_map split: if_splits option.split)
  qed
  have steps: "\<forall>s \<in> set (dict_keys (dict_set step tier' (db_rollups db))). 0 < s"
    unfolding dict_keys_set using i(7) False by auto
  have oks: "dict_ok raw'" "dict_ok (dict_set step tier' (db_rollups db))"
    using i(2) keys dict_ok_set [OF i(6)] by (simp_all add: dict_ok_def)
  have "db_inv db' ?held"
    unfolding db_inv_def db' tsdb.simps keys using i(1,3) oks get srt' tiers places steps
    by (auto simp: keys simp del: set_map dict_get_set)
  then show ?thesis using db'(1) by simp
qed

lemma db_reach_inv: "db_reach db held \<Longrightarrow> db_inv db held"
proof (induction rule: db_reach.induct)
  case (start max_series)
  show ?case by (rule db_inv_new)
next
  case (wrote db held metric labels val timestamp now sid db')
  then show ?case using db_write_inv by blast
next
  case (refused db held metric labels val timestamp now e db')
  then show ?case using db_write_inv by blast
next
  case (compacted db held step before r db')
  then show ?case using db_compact_inv by blast
qed


section \<open>Queries\<close>

lemma sum_by_key:
  assumes "distinct ks" "\<forall>x \<in> set xs. P x \<longrightarrow> f x \<in> set ks"
  shows "sum_list (map (\<lambda>k. mset (map v (filter (\<lambda>x. f x = k \<and> P x) xs))) ks) = mset (map v (filter P xs))"
  using assms(2)
proof (induction xs)
  case Nil
  then show ?case by (induction ks) auto
next
  case (Cons x xs)
  have one: "sum_list (map (\<lambda>k. if f x = k then m else {#}) ks) = (if f x \<in> set ks then m else {#})" for m
    using assms(1) by (induction ks) auto
  have "sum_list (map (\<lambda>k. mset (map v (filter (\<lambda>x. f x = k \<and> P x) (x # xs)))) ks) =
      sum_list (map (\<lambda>k. (if f x = k then if P x then {#v x#} else {#} else {#}) + mset (map v (filter (\<lambda>x. f x = k \<and> P x) xs))) ks)"
    by (intro arg_cong [where f = sum_list] map_cong) auto
  also have "\<dots> = (if P x then {#v x#} else {#}) + mset (map v (filter P xs))"
    using Cons one [of "if P x then {#v x#} else {#}"] by (cases "P x") (simp_all add: sum_list_addf)
  finally show ?case by simp
qed

text \<open>The folded buckets and the samples each of them stands for.\<close>

definition folded_ok :: "(int, bucket) dict \<Rightarrow> (int \<Rightarrow> rat multiset) \<Rightarrow> bool" where
  "folded_ok d F \<longleftrightarrow> dict_ok d \<and> (\<forall>i. case dict_get d i of None \<Rightarrow> F i = {#} | Some b \<Rightarrow> sums_up b (F i))"

lemma folded_okD:
  "folded_ok d F \<Longrightarrow> dict_get d i = Some b \<Longrightarrow> sums_up b (F i)" "folded_ok d F \<Longrightarrow> dict_get d i = None \<Longrightarrow> F i = {#}"
  by (auto simp: folded_ok_def dest!: spec [of _ i])

lemma fold_bucket_ok:
  assumes "folded_ok d F" "sums_up b m"
  shows "folded_ok (fold_bucket step b d) (\<lambda>i. F i + (if bucket_index step (bu_start b) = i then m else {#}))"
proof -
  let ?i = "bucket_index step (bu_start b)"
  have "sums_up (case dict_get d ?i of None \<Rightarrow> b | Some previous \<Rightarrow> bu_merge previous b) (F ?i + m)"
    using folded_okD [OF assms(1), of ?i] assms(2) by (cases "dict_get d ?i") (simp_all add: sums_merge)
  then show ?thesis using assms(1) by (simp add: folded_ok_def fold_bucket_def Let_def cong: option.case_cong)
qed

lemma fold_buckets_ok:
  "folded_ok d F \<Longrightarrow> \<forall>(b, m) \<in> set bms. sums_up b m \<Longrightarrow>
    folded_ok (fold (fold_bucket step) (map fst bms) d)
      (\<lambda>i. F i + sum_list (map (\<lambda>(b, m). if bucket_index step (bu_start b) = i then m else {#}) bms))"
proof (induction bms arbitrary: d F)
  case (Cons bm bms)
  obtain b m where bm: "bm = (b, m)" by (cases bm)
  with Cons.IH [OF fold_bucket_ok [OF Cons.prems(1), of b m step]] Cons.prems(2) show ?case by (simp add: add.assoc)
qed simp

text \<open>The buckets a source has for a series, with the samples of that series each stands for.\<close>

definition bucket_wise :: "int option \<Rightarrow> (time \<Rightarrow> bool) \<Rightarrow> bool" where
  "bucket_wise src Q \<longleftrightarrow> (\<forall>s. src = Some s \<longrightarrow> (\<forall>t. Q (of_int (bucket_index s t * s)) = Q t))"

lemma buckets_for_ok:
  assumes "db_inv db held"
  shows "\<exists>bms. db_buckets_for sid src db = map fst bms \<and> (\<forall>(b, m) \<in> set bms. sums_up b m) \<and>
    (\<forall>Q. bucket_wise src Q \<longrightarrow> sum_list (map (\<lambda>(b, m). if Q (bu_start b) then m else {#}) bms) =
       mset (map pt_value (filter (Q \<circ> pt_timestamp) (held_in src sid held))))"
proof (cases src)
  case None
  let ?bms = "map (\<lambda>p. (point_bucket p, {#pt_value p#})) (held_in None sid held)"
  have "sum_list (map (\<lambda>(b, m). if Q (bu_start b) then m else {#}) ?bms) =
      mset (map pt_value (filter (Q \<circ> pt_timestamp) (held_in None sid held)))" for Q
  proof -
    have "sum_list (map (\<lambda>(b, m). if Q (bu_start b) then m else {#}) (map (\<lambda>p. (point_bucket p, {#pt_value p#})) ps)) =
        mset (map pt_value (filter (Q \<circ> pt_timestamp) ps))" for ps
      by (induction ps) (auto simp: point_bucket_sums)
    then show ?thesis .
  qed
  moreover have "db_buckets_for sid None db = map fst ?bms"
    by (simp add: db_buckets_for_def db_invD(4) [OF assms])
  moreover have "\<forall>(b, m) \<in> set ?bms. sums_up b m" by (auto simp: point_bucket_sums)
  ultimately show ?thesis unfolding None by blast
next
  case (Some s)
  let ?bs = "case (case dict_get (db_rollups db) s of None \<Rightarrow> [] | Some t \<Rightarrow> t) of tier \<Rightarrow> (case dict_get tier sid of None \<Rightarrow> [] | Some bs \<Rightarrow> bs)"
  let ?bms = "map (\<lambda>(idx, b). (b, in_bucket s sid held idx)) ?bs"
  have ok: "tier_ok s ?bs (in_bucket s sid held)" using db_invD(8) [OF assms, of s] by (simp add: tier_rel_def)
  then have dok: "dict_ok ?bs" by (simp add: tier_ok_def)
  have entry: "bu_start b = of_int (idx * s) \<and> sums_up b (in_bucket s sid held idx)" if e: "(idx, b) \<in> set ?bs" for idx b
    by (rule tier_ok_get(1) [OF ok]) (use e dok in \<open>simp only: dict_get_mem\<close>)
  have "db_buckets_for sid (Some s) db = map fst ?bms"
    by (auto simp: db_buckets_for_def comp_def case_prod_beta' split: option.split)
  moreover have "\<forall>(b, m) \<in> set ?bms. sums_up b m" using entry by auto
  moreover have "sum_list (map (\<lambda>(b, m). if Q (bu_start b) then m else {#}) ?bms) =
      mset (map pt_value (filter (Q \<circ> pt_timestamp) (held_in (Some s) sid held)))" if Q: "bucket_wise (Some s) Q" for Q
  proof -
    have "map (\<lambda>(b, m). if Q (bu_start b) then m else {#}) ?bms =
        map (\<lambda>(idx, b). mset (map pt_value (filter (\<lambda>p. bucket_index s (pt_timestamp p) = idx \<and> (Q \<circ> pt_timestamp) p) (held_in (Some s) sid held)))) ?bs"
      unfolding map_map
    proof (intro map_cong refl)
      fix e
      assume e: "e \<in> set ?bs"
      obtain idx b where ib: "e = (idx, b)" by (cases e)
      then have b: "bu_start b = of_int (idx * s)" using entry e by blast
      have q: "Q (pt_timestamp p) = Q (of_int (idx * s))" if "bucket_index s (pt_timestamp p) = idx" for p
        using Q that unfolding bucket_wise_def by metis
      show "((\<lambda>(b, m). if Q (bu_start b) then m else {#}) \<circ> (\<lambda>(idx, b). (b, in_bucket s sid held idx))) e =
          (case e of (idx, b) \<Rightarrow> mset (map pt_value (filter (\<lambda>p. bucket_index s (pt_timestamp p) = idx \<and> (Q \<circ> pt_timestamp) p) (held_in (Some s) sid held))))"
        using q by (auto simp: ib b in_bucket_def filter_empty_conv intro!: arg_cong [where f = "image_mset pt_value"] filter_mset_cong)
    qed
    also have "\<dots> = map (\<lambda>idx. mset (map pt_value (filter (\<lambda>p. bucket_index s (pt_timestamp p) = idx \<and> (Q \<circ> pt_timestamp) p) (held_in (Some s) sid held)))) (dict_keys ?bs)"
      by (simp add: case_prod_beta')
    also have "sum_list \<dots> = mset (map pt_value (filter (Q \<circ> pt_timestamp) (held_in (Some s) sid held)))"
    proof (rule sum_by_key)
      show "distinct (dict_keys ?bs)" using dok by (simp add: dict_ok_def)
      have "bucket_index s (pt_timestamp p) \<in> set (dict_keys ?bs)" if p: "p \<in> set (held_in (Some s) sid held)" for p
      proof (rule ccontr)
        assume "bucket_index s (pt_timestamp p) \<notin> set (dict_keys ?bs)"
        then have "dict_get ?bs (bucket_index s (pt_timestamp p)) = None" unfolding dict_get_None .
        then have "in_bucket s sid held (bucket_index s (pt_timestamp p)) = {#}" by (rule tier_ok_get(2) [OF ok])
        then show False using p by (auto simp: in_bucket_def filter_empty_conv)
      qed
      then show "\<forall>p \<in> set (held_in (Some s) sid held). (Q \<circ> pt_timestamp) p \<longrightarrow> bucket_index s (pt_timestamp p) \<in> set (dict_keys ?bs)" by blast
    qed
    finally show ?thesis .
  qed
  ultimately show ?thesis unfolding Some by blast
qed

text \<open>Bucket grids of steps that divide each other line up.\<close>

lemma floor_divide_int:
  assumes "0 < k"
  shows "\<lfloor>x / of_int k\<rfloor> = \<lfloor>x :: rat\<rfloor> div k"
proof (rule floor_unique)
  let ?q = "\<lfloor>x\<rfloor> div k"
  have "?q * k \<le> \<lfloor>x\<rfloor>" using assms by (metis div_mult_mod_eq le_add_same_cancel1 pos_mod_sign)
  then have "of_int (?q * k) \<le> x" by (simp only: le_floor_iff)
  then show "of_int ?q \<le> x / of_int k" using assms by (simp add: le_divide_eq)
  have "\<lfloor>x\<rfloor> < (?q + 1) * k" using pos_mod_bound [OF assms, of "\<lfloor>x\<rfloor>"] div_mult_mod_eq [of "\<lfloor>x\<rfloor>" k]
    unfolding distrib_right mult_1 by linarith
  then have "x < of_int ((?q + 1) * k)" by (simp only: floor_less_iff)
  then show "x / of_int k < of_int ?q + 1" using assms by (simp add: divide_less_eq)
qed

lemma bucket_index_nest:
  assumes "0 < s" "0 < step" "step mod s = 0"
  shows "bucket_index step (of_int (bucket_index s t * s)) = bucket_index step t"
proof -
  obtain k where k: "step = s * k" using assms(3) by auto
  have kp: "0 < k" using assms(1,2) k by (simp add: zero_less_mult_iff)
  have "bucket_index step t = \<lfloor>t / of_int s / of_int k\<rfloor>" by (simp add: bucket_index_def k)
  also have "\<dots> = \<lfloor>t / of_int s\<rfloor> div k" using kp by (simp only: floor_divide_int)
  finally have "bucket_index step t = bucket_index s t div k" by (simp add: bucket_index_def)
  moreover have "bucket_index step (of_int (bucket_index s t * s)) = bucket_index s t div k"
    using assms(1) floor_divide_int [OF kp, of "of_int (bucket_index s t)"] by (simp add: bucket_index_def k)
  ultimately show ?thesis by simp
qed

lemma bucket_index_bounds:
  assumes "0 < s"
  shows "of_int (a * s) \<le> (of_int (bucket_index s t * s) :: rat) \<longleftrightarrow> of_int (a * s) \<le> t"
proof -
  have "of_int (a * s) \<le> t \<longleftrightarrow> of_int a \<le> t / of_int s" using assms by (simp add: le_divide_eq)
  also have "\<dots> \<longleftrightarrow> a \<le> bucket_index s t" by (simp add: bucket_index_def le_floor_iff)
  also have "\<dots> \<longleftrightarrow> a * s \<le> bucket_index s t * s" using assms by simp
  finally show ?thesis by (simp only: of_int_le_iff)
qed

lemma range_respected:
  assumes "\<forall>s. src = Some s \<longrightarrow> 0 < s \<and> step mod s = 0 \<and> (\<exists>a b. start = of_int (a * s) \<and> stop = of_int (b * s))" "0 < step"
  shows "bucket_wise src (\<lambda>t. start \<le> t \<and> t < stop \<and> bucket_index step t = i)"
  unfolding bucket_wise_def
proof (intro allI impI)
  fix s t
  assume "src = Some s"
  then obtain a b where s: "0 < s" "step mod s = 0" "start = of_int (a * s)" "stop = of_int (b * s)" using assms(1) by blast
  show "(start \<le> of_int (bucket_index s t * s) \<and> of_int (bucket_index s t * s) < stop \<and> bucket_index step (of_int (bucket_index s t * s)) = i) =
      (start \<le> t \<and> t < stop \<and> bucket_index step t = i)"
    unfolding s(3,4) bucket_index_nest [OF s(1) assms(2) s(2)] not_le [symmetric] bucket_index_bounds [OF s(1)] ..
qed


text \<open>What is asked for: the values of the accepted samples of some series in a range and a bucket.\<close>

definition asked :: "held \<Rightarrow> string list \<Rightarrow> time \<Rightarrow> time \<Rightarrow> int \<Rightarrow> int \<Rightarrow> rat multiset" where
  "asked held ids start stop step i = mset (map (\<lambda>(_, _, p). pt_value p)
     (filter (\<lambda>(_, sid, p). sid \<in> set ids \<and> start \<le> pt_timestamp p \<and> pt_timestamp p < stop \<and> bucket_index step (pt_timestamp p) = i) held))"

lemma asked_from_source:
  assumes "distinct ids" "\<forall>(c, sid, p) \<in> set held. sid \<in> set ids \<and> start \<le> pt_timestamp p \<and> pt_timestamp p < stop \<longrightarrow> c = src"
  shows "asked held ids start stop step i = sum_list (map (\<lambda>sid. mset (map pt_value (filter
    ((\<lambda>t. start \<le> t \<and> t < stop \<and> bucket_index step t = i) \<circ> pt_timestamp) (held_in src sid held)))) ids)"
proof -
  let ?P = "\<lambda>(c, sid, p). sid \<in> set ids \<and> start \<le> pt_timestamp p \<and> pt_timestamp p < stop \<and> bucket_index step (pt_timestamp p) = i"
  have one: "map (\<lambda>(_, _, p). pt_value p) (filter (\<lambda>x. fst (snd x) = sid \<and> ?P x) held) =
      map pt_value (filter ((\<lambda>t. start \<le> t \<and> t < stop \<and> bucket_index step t = i) \<circ> pt_timestamp) (held_in src sid held))"
    if sid: "sid \<in> set ids" for sid
    using assms(2)
  proof (induction held)
    case (Cons x held)
    obtain c j p where x: "x = (c, j, p)" by (cases x)
    show ?case using Cons sid by (auto simp: x)
  qed simp
  have "map (\<lambda>sid. mset (map (\<lambda>(_, _, p). pt_value p) (filter (\<lambda>x. fst (snd x) = sid \<and> ?P x) held))) ids =
      map (\<lambda>sid. mset (map pt_value (filter ((\<lambda>t. start \<le> t \<and> t < stop \<and> bucket_index step t = i) \<circ> pt_timestamp) (held_in src sid held)))) ids"
    by (rule map_cong [OF refl]) (simp only: one)
  moreover have "sum_list (map (\<lambda>sid. mset (map (\<lambda>(_, _, p). pt_value p) (filter (\<lambda>x. fst (snd x) = sid \<and> ?P x) held))) ids) =
      mset (map (\<lambda>(_, _, p). pt_value p) (filter ?P held))"
    by (rule sum_by_key [OF assms(1)]) auto
  ultimately show ?thesis unfolding asked_def by (simp only:)
qed

lemma db_plan_tier:
  assumes "db_inv db held" "db_plan start step db = Inr (Some s)"
  shows "0 < s \<and> s \<le> step \<and> step mod s = 0"
proof -
  obtain u us where u: "filter (\<lambda>s. s \<le> step \<and> step mod s = 0) (dict_keys (db_rollups db)) = u # us" "s = fold max us u"
    using assms(2) by (auto simp: db_plan_def Let_def split: if_splits list.splits)
  have "s = Max (set (u # us))" unfolding u(2) by (rule Max.set_eq_fold [symmetric])
  then have "s \<in> set (u # us)" using Max_in [of "set (u # us)"] by (metis List.finite_set list.distinct(1) set_empty)
  then have "s \<in> set (dict_keys (db_rollups db))" "s \<le> step \<and> step mod s = 0" unfolding u(1) [symmetric] by auto
  then show ?thesis using db_invD(7) [OF assms(1)] by blast
qed

text \<open>A query that starts at the floor or above reads the head block, which has all it asks for.\<close>

lemma head_plan_whole:
  assumes "db_inv db held" "db_plan start step db = Inr None"
  shows "\<forall>(c, sid, p) \<in> set held. sid \<in> set ids \<and> start \<le> pt_timestamp p \<and> pt_timestamp p < stop \<longrightarrow> c = None"
proof (intro ballI prod.case_eq_if [THEN iffD2] impI)
  fix e
  assume e: "e \<in> set held" "fst (snd e) \<in> set ids \<and> start \<le> pt_timestamp (snd (snd e)) \<and> pt_timestamp (snd (snd e)) < stop"
  show "fst e = None"
  proof (rule ccontr)
    assume "fst e \<noteq> None"
    then obtain t where "db_raw_floor db = Some t" "pt_timestamp (snd (snd e)) < t" using db_invD(9) [OF assms(1)] e(1) by fastforce
    then show False using e(2) assms(2) by (auto simp: db_plan_def Let_def split: if_splits list.splits)
  qed
qed



text \<open>
  One series with a sample in each of two minutes, compacted to minutes and read back as minutes.
\<close>

definition demo_db :: tsdb where
  "demo_db = snd (db_compact 60 120 (snd (db_write ''m'' [] 3 (Some 70) 0 (snd (db_write ''m'' [] 1 (Some 10) 0 (tsdb_new 5))))))"

lemma demo_db_reach:
  "db_reach demo_db [(Some 60, ''m{}'', \<lparr>pt_timestamp = 10, pt_value = 1\<rparr>), (Some 60, ''m{}'', \<lparr>pt_timestamp = 70, pt_value = 3\<rparr>)]"
proof -
  let ?d1 = "snd (db_write ''m'' [] 1 (Some 10) 0 (tsdb_new 5))"
  let ?d2 = "snd (db_write ''m'' [] 3 (Some 70) 0 ?d1)"
  have w: "fst (db_write ''m'' [] 1 (Some 10) 0 (tsdb_new 5)) = Inr ''m{}''" "fst (db_write ''m'' [] 3 (Some 70) 0 ?d1) = Inr ''m{}''"
    "fst (db_compact 60 120 ?d2) = Inr (2, 2)" by code_simp+
  have e: "db_write ''m'' [] 1 (Some 10) 0 (tsdb_new 5) = (Inr ''m{}'', ?d1)" "db_write ''m'' [] 3 (Some 70) 0 ?d1 = (Inr ''m{}'', ?d2)"
    "db_compact 60 120 ?d2 = (Inr (2, 2), demo_db)"
    by (simp_all only: prod_eq_iff w fst_conv snd_conv demo_db_def)
  note db_reach.compacted [OF db_reach.wrote [OF db_reach.wrote [OF db_reach.start e(1)] e(2)] e(3)]
  then show ?thesis by (simp add: hold_compacted_def)
qed


section \<open>Where the answers stop being those of the samples\<close>

text \<open>
  The label separators are not escaped: two label sets share one id, and samples of the second are
  filed under the labels of the first.
\<close>

lemma series_ids_collide:
  "series_id ''m'' [(''a'', ''1,b=2'')] = series_id ''m'' [(''a'', ''1''), (''b'', ''2'')]"
  by (simp add: series_id_def)

lemma colliding_series_not_found:
  "db_select ''m'' [(''b'', ''2'')] (snd (db_write ''m'' [(''a'', ''1''), (''b'', ''2'')] 7 (Some 20) 0
    (snd (db_write ''m'' [(''a'', ''1,b=2'')] 1 (Some 10) 0 (tsdb_new 5))))) = []"
  by code_simp

text \<open>A range that begins below the floor is read from a tier alone: the newer samples of the head are left out.\<close>

lemma query_across_floor_loses_head:
  "db_range_query ''m'' [] 0 180 60 Sum (snd (db_write ''m'' [] 5 (Some 130) 0 demo_db)) =
    Inr [\<lparr>pt_timestamp = 0, pt_value = 1\<rparr>, \<lparr>pt_timestamp = 60, pt_value = 3\<rparr>]"
  by code_simp

text \<open>After compactions with two steps each tier has its own part of the samples; a query reads the coarsest alone.\<close>

lemma second_tier_hides_first:
  "db_range_query ''m'' [] 0 240 120 Sum (snd (db_compact 120 240 (snd (db_write ''m'' [] 5 (Some 130) 0 demo_db)))) =
    Inr [\<lparr>pt_timestamp = 120, pt_value = 5\<rparr>]"
  by code_simp

text \<open>The latest value over several series is that of the last bucket read, not of the last sample.\<close>

lemma latest_differs_after_compaction:
  defines "db \<equiv> snd (db_write ''m'' [(''i'', ''2'')] 9 (Some 10) 0 (snd (db_write ''m'' [(''i'', ''1'')] 4 (Some 50) 0 (tsdb_new 5))))"
  shows "db_range_query ''m'' [] 0 60 60 Latest db = Inr [\<lparr>pt_timestamp = 0, pt_value = 4\<rparr>] \<and>
    db_range_query ''m'' [] 0 60 60 Latest (snd (db_compact 60 60 db)) = Inr [\<lparr>pt_timestamp = 0, pt_value = 9\<rparr>]"
  unfolding db_def by code_simp

end
