(* ===== verification/Alerts.thy ===== *)
theory Alerts
  imports Tsdb
begin

text \<open>
  \<^verbatim>\<open>code/hld/tsdb_downsample.py\<close>, the alerting half: the rule evaluator with its state machine per rule,
  and the router that groups, deduplicates and repeats notifications.

  An evaluation that raises leaves the rules before it evaluated, as the code does.
\<close>

section \<open>Rules\<close>

datatype alert_state = Inactive | Pending | Firing

record alert_rule =
  ar_name :: string
  ar_metric :: string
  ar_matchers :: labels
  ar_threshold :: rat
  ar_window_s :: int
  ar_for_s :: rat
  ar_agg :: aggregation
  ar_severity :: string
  ar_group_by :: "string list"

definition ar_group_key :: "alert_rule \<Rightarrow> string" where
  "ar_group_key r =
     (let chosen = map (\<lambda>(k, v). k @ ''='' @ v) (filter (\<lambda>(k, _). k \<in> set (ar_group_by r)) (ar_matchers r))
      in if chosen = [] then ''-'' else join_with '','' chosen)"

record alert =
  al_fingerprint :: string
  al_rule :: string
  al_severity :: string
  al_state :: alert_state
  al_value :: rat
  al_since :: time
  al_group_key :: string

type_synonym evaluator = "(string, alert_state \<times> time) dict"

text \<open>The query of a rule and the value it is judged by.\<close>

definition rule_points :: "alert_rule \<Rightarrow> tsdb \<Rightarrow> time \<Rightarrow> point list result" where
  "rule_points r db now =
     db_range_query (ar_metric r) (dict_of (ar_matchers r)) (now - of_int (ar_window_s r)) now (ar_window_s r) (ar_agg r) db"

definition last_value :: "point list \<Rightarrow> rat" where
  "last_value points = (if points = [] then 0 else pt_value (List.last points))"

text \<open>The transition under the evaluator's lock.\<close>

definition rule_step :: "alert_rule \<Rightarrow> bool \<Rightarrow> time \<Rightarrow> alert_state \<times> time \<Rightarrow> alert_state \<times> time" where
  "rule_step r breached now = (\<lambda>(state, since).
     if \<not> breached then (Inactive, now)
     else let since = (if state = Inactive then now else since)
          in (if ar_for_s r \<le> now - since then Firing else Pending, since))"

fun evaluate_loop :: "tsdb \<Rightarrow> time \<Rightarrow> alert_rule list \<Rightarrow> alert list \<Rightarrow> evaluator \<Rightarrow> alert list result \<times> evaluator" where
  "evaluate_loop db now [] out ev = (Inr out, ev)"
| "evaluate_loop db now (r # rules) out ev =
     (case rule_points r db now of
        Inl e \<Rightarrow> (Inl e, ev)
      | Inr points \<Rightarrow>
          (let val = last_value points;
               (state, since) = rule_step r (ar_threshold r < val) now
                 (case dict_get ev (ar_name r) of None \<Rightarrow> (Inactive, now) | Some st \<Rightarrow> st)
           in evaluate_loop db now rules
                (out @ [\<lparr>al_fingerprint = series_id (ar_name r) (ar_matchers r), al_rule = ar_name r,
                         al_severity = ar_severity r, al_state = state, al_value = val, al_since = since,
                         al_group_key = ar_group_key r\<rparr>])
                (dict_set (ar_name r) (state, since) ev)))"

definition evaluate :: "alert_rule list \<Rightarrow> tsdb \<Rightarrow> time \<Rightarrow> evaluator \<Rightarrow> alert list result \<times> evaluator" where
  "evaluate rules db now ev = evaluate_loop db now rules [] ev"

section \<open>Routing\<close>

record notification =
  no_receiver :: string
  no_group_key :: string
  no_fingerprints :: "string list"
  no_reason :: string

record router =
  ro_routes :: "(string, string) dict"
  ro_repeat :: rat
  ro_sent :: "(string, time) dict"
  ro_members :: "(string, string list) dict"

definition router_new :: "(string, string) dict \<Rightarrow> rat \<Rightarrow> router" where
  "router_new routes repeat_interval_s =
     \<lparr>ro_routes = routes, ro_repeat = repeat_interval_s, ro_sent = [], ro_members = []\<rparr>"

definition receiver_of :: "router \<Rightarrow> alert \<Rightarrow> string" where
  "receiver_of ro a =
     (case dict_get (ro_routes ro) (al_severity a) of
        Some r \<Rightarrow> r
      | None \<Rightarrow> (case dict_get (ro_routes ro) ''default'' of Some r \<Rightarrow> r | None \<Rightarrow> ''ops''))"

definition group_firing :: "router \<Rightarrow> alert list \<Rightarrow> (string \<times> string, alert list) dict" where
  "group_firing ro alerts =
     fold (\<lambda>a groups.
         if al_state a \<noteq> Firing then groups
         else let g = (receiver_of ro a, al_group_key a)
              in dict_set g ((case dict_get groups g of None \<Rightarrow> [] | Some as \<Rightarrow> as) @ [a]) groups) alerts []"

definition group_id :: "string \<times> string \<Rightarrow> string" where
  "group_id g = fst g @ ''|'' @ snd g"

text \<open>\<^verbatim>\<open>key.split("|", 1)\<close>, unpacked into two.\<close>

fun split_bar :: "string \<Rightarrow> (string \<times> string) option" where
  "split_bar [] = None"
| "split_bar (c # cs) = (if c = CHR ''|'' then Some ([], cs)
     else case split_bar cs of None \<Rightarrow> None | Some (a, b) \<Rightarrow> Some (c # a, b))"

fun notify_loop :: "time \<Rightarrow> ((string \<times> string) \<times> alert list) list \<Rightarrow> notification list \<Rightarrow> router \<Rightarrow> notification list \<times> router" where
  "notify_loop now [] out ro = (out, ro)"
| "notify_loop now ((g, members) # groups) out ro =
     (let fingerprints = sort (map al_fingerprint members); key = group_id g;
          reason = (case dict_get (ro_sent ro) key of
                      None \<Rightarrow> Some ''new''
                    | Some sent \<Rightarrow>
                        if Some fingerprints \<noteq> dict_get (ro_members ro) key then Some ''new''
                        else if ro_repeat ro \<le> now - sent then Some ''repeat'' else None)
      in case reason of
           None \<Rightarrow> notify_loop now groups out ro
         | Some why \<Rightarrow>
             notify_loop now groups
               (out @ [\<lparr>no_receiver = fst g, no_group_key = snd g, no_fingerprints = fingerprints, no_reason = why\<rparr>])
               (ro\<lparr>ro_sent := dict_set key now (ro_sent ro), ro_members := dict_set key fingerprints (ro_members ro)\<rparr>))"

fun resolve_loop :: "string list \<Rightarrow> notification list \<Rightarrow> router \<Rightarrow> notification list result \<times> router" where
  "resolve_loop [] out ro = (Inr out, ro)"
| "resolve_loop (key # keys) out ro =
     (case split_bar key of
        None \<Rightarrow> (Inl ValueError, ro)
      | Some (receiver, gkey) \<Rightarrow>
          (case dict_get (ro_members ro) key of
             None \<Rightarrow> (Inl KeyError, ro)
           | Some fingerprints \<Rightarrow>
               resolve_loop keys
                 (out @ [\<lparr>no_receiver = receiver, no_group_key = gkey, no_fingerprints = fingerprints, no_reason = ''resolved''\<rparr>])
                 (ro\<lparr>ro_members := dict_del key (ro_members ro), ro_sent := dict_del key (ro_sent ro)\<rparr>)))"

definition dispatch :: "alert list \<Rightarrow> time \<Rightarrow> router \<Rightarrow> notification list result \<times> router" where
  "dispatch alerts now ro =
     (let groups = group_firing ro alerts;
          (out, ro1) = notify_loop now (sort_key fst groups) [] ro;
          live = map group_id (dict_keys groups);
          gone = sort (filter (\<lambda>key. key \<notin> set live) (dict_keys (ro_members ro1)))
      in resolve_loop gone out ro1)"

section \<open>A rule fires when its condition has held\<close>

text \<open>A sequence of evaluations of the rules, each of the database as it then is.\<close>

fun evaluations :: "alert_rule list \<Rightarrow> (tsdb \<times> time) list \<Rightarrow> evaluator \<Rightarrow> alert list result list \<times> evaluator" where
  "evaluations rules [] ev = ([], ev)"
| "evaluations rules ((db, now) # evals) ev =
     (case evaluate rules db now ev of (out, ev1) \<Rightarrow> case evaluations rules evals ev1 of (outs, ev2) \<Rightarrow> (out # outs, ev2))"

definition answers :: "alert_rule \<Rightarrow> tsdb \<times> time \<Rightarrow> bool" where
  "answers r = (\<lambda>(db, now). \<exists>points. rule_points r db now = Inr points)"

definition rule_value :: "alert_rule \<Rightarrow> tsdb \<times> time \<Rightarrow> rat" where
  "rule_value r = (\<lambda>(db, now). case rule_points r db now of Inr points \<Rightarrow> last_value points)"

definition breached :: "alert_rule \<Rightarrow> tsdb \<times> time \<Rightarrow> bool" where
  "breached r e \<longleftrightarrow> ar_threshold r < rule_value r e"

text \<open>The state after some evaluations: how long the latest run of breaches has lasted.\<close>

definition streak :: "alert_rule \<Rightarrow> (tsdb \<times> time) list \<Rightarrow> (tsdb \<times> time) list" where
  "streak r evals = takeWhile (breached r) (rev evals)"

definition held_state :: "alert_rule \<Rightarrow> (tsdb \<times> time) list \<Rightarrow> alert_state \<times> time" where
  "held_state r evals =
     (let now = snd (List.last evals); s = streak r evals
      in if s = [] then (Inactive, now)
         else let since = snd (List.last s) in (if ar_for_s r \<le> now - since then Firing else Pending, since))"

lemma held_state_snoc:
  "held_state r (evals @ [(db, now)]) = rule_step r (breached r (db, now)) now (if evals = [] then (Inactive, now) else held_state r evals)"
proof (cases "breached r (db, now)")
  case False
  then show ?thesis by (simp add: held_state_def streak_def rule_step_def split: prod.split)
next
  case True
  then have s: "streak r (evals @ [(db, now)]) = (db, now) # streak r evals" by (simp add: streak_def)
  show ?thesis
  proof (cases "evals = []")
    case True
    then show ?thesis using \<open>breached r (db, now)\<close> s by (simp add: held_state_def rule_step_def streak_def)
  next
    case False
    then show ?thesis using True by (simp add: held_state_def s rule_step_def Let_def)
  qed
qed

definition alert_of :: "alert_rule \<Rightarrow> rat \<Rightarrow> alert_state \<times> time \<Rightarrow> alert" where
  "alert_of r val st = \<lparr>al_fingerprint = series_id (ar_name r) (ar_matchers r), al_rule = ar_name r,
     al_severity = ar_severity r, al_state = fst st, al_value = val, al_since = snd st, al_group_key = ar_group_key r\<rparr>"

lemma evaluate_loop_value:
  assumes "distinct (map ar_name rules)" "\<forall>r \<in> set rules. answers r (db, now)"
  shows "\<exists>ev'. evaluate_loop db now rules out ev = (Inr (out @ map (\<lambda>r. alert_of r (rule_value r (db, now))
      (rule_step r (breached r (db, now)) now (case dict_get ev (ar_name r) of None \<Rightarrow> (Inactive, now) | Some st \<Rightarrow> st))) rules), ev') \<and>
    (\<forall>r \<in> set rules. dict_get ev' (ar_name r) = Some (rule_step r (breached r (db, now)) now
      (case dict_get ev (ar_name r) of None \<Rightarrow> (Inactive, now) | Some st \<Rightarrow> st))) \<and>
    (\<forall>n. n \<notin> ar_name ` set rules \<longrightarrow> dict_get ev' n = dict_get ev n)"
  using assms
proof (induction rules arbitrary: out ev)
  case Nil
  then show ?case by simp
next
  case (Cons r rules)
  obtain points where p: "rule_points r db now = Inr points" using Cons.prems(2) by (auto simp: answers_def)
  define st where "st = rule_step r (breached r (db, now)) now (case dict_get ev (ar_name r) of None \<Rightarrow> (Inactive, now) | Some st \<Rightarrow> st)"
  have val: "last_value points = rule_value r (db, now)" by (simp add: rule_value_def p)
  have "evaluate_loop db now (r # rules) out ev =
      evaluate_loop db now rules (out @ [alert_of r (rule_value r (db, now)) st]) (dict_set (ar_name r) st ev)"
    by (simp add: p val st_def breached_def alert_of_def Let_def case_prod_beta')
  moreover have other: "dict_get (dict_set (ar_name r) st ev) (ar_name q) = dict_get ev (ar_name q)" "ar_name q \<noteq> ar_name r"
    if q: "q \<in> set rules" for q
  proof -
    have "ar_name q \<in> ar_name ` set rules" using q by (rule imageI)
    then show "ar_name q \<noteq> ar_name r" using Cons.prems(1) by auto
    then show "dict_get (dict_set (ar_name r) st ev) (ar_name q) = dict_get ev (ar_name q)" by simp
  qed
  have prems: "distinct (map ar_name rules)" "\<forall>r \<in> set rules. answers r (db, now)" using Cons.prems by simp_all
  let ?new = "\<lambda>ev r. rule_step r (breached r (db, now)) now (case dict_get ev (ar_name r) of None \<Rightarrow> (Inactive, now) | Some st \<Rightarrow> st)"
  have new: "?new (dict_set (ar_name r) st ev) q = ?new ev q" if "q \<in> set rules" for q
    by (simp only: other(1) [OF that])
  from Cons.IH [OF prems, of "out @ [alert_of r (rule_value r (db, now)) st]" "dict_set (ar_name r) st ev"] obtain ev'
    where e: "evaluate_loop db now rules (out @ [alert_of r (rule_value r (db, now)) st]) (dict_set (ar_name r) st ev) =
        (Inr ((out @ [alert_of r (rule_value r (db, now)) st]) @
          map (\<lambda>r'. alert_of r' (rule_value r' (db, now)) (?new (dict_set (ar_name r) st ev) r')) rules), ev')"
      "\<forall>r' \<in> set rules. dict_get ev' (ar_name r') = Some (?new (dict_set (ar_name r) st ev) r')"
      "\<forall>n. n \<notin> ar_name ` set rules \<longrightarrow> dict_get ev' n = dict_get (dict_set (ar_name r) st ev) n" by blast
  have "map (\<lambda>r'. alert_of r' (rule_value r' (db, now)) (?new (dict_set (ar_name r) st ev) r')) rules =
      map (\<lambda>r'. alert_of r' (rule_value r' (db, now)) (?new ev r')) rules"
    by (rule map_cong [OF refl]) (simp only: new)
  moreover have "\<forall>r' \<in> set (r # rules). dict_get ev' (ar_name r') = Some (?new ev r')"
  proof
    fix r'
    assume r': "r' \<in> set (r # rules)"
    show "dict_get ev' (ar_name r') = Some (?new ev r')"
    proof (cases "r' \<in> set rules")
      case True
      then show ?thesis using e(2) by (simp only: new)
    next
      case False
      then have "r' = r" using r' by simp
      moreover have "ar_name r \<notin> ar_name ` set rules" using other(2) by force
      ultimately show ?thesis using e(3) by (simp add: st_def)
    qed
  qed
  moreover have "\<forall>n. n \<notin> ar_name ` set (r # rules) \<longrightarrow> dict_get ev' n = dict_get ev n" using e(3) by simp
  ultimately show ?case using e(1) by (intro exI [of _ ev']) (simp add: st_def)
qed

lemma evaluations_snoc:
  "evaluations rules (evals @ [(db, now)]) ev =
    (case evaluations rules evals ev of (outs, ev1) \<Rightarrow> case evaluate rules db now ev1 of (out, ev2) \<Rightarrow> (outs @ [out], ev2))"
  by (induction rules evals ev rule: evaluations.induct) (auto split: prod.splits)

lemma evaluations_state:
  assumes "distinct (map ar_name rules)" "\<forall>e \<in> set evals. \<forall>r \<in> set rules. answers r e"
  shows "\<forall>r \<in> set rules. dict_get (snd (evaluations rules evals [])) (ar_name r) = (if evals = [] then None else Some (held_state r evals))"
  using assms(2)
proof (induction evals rule: rev_induct)
  case (snoc e evals)
  obtain db now where e: "e = (db, now)" by (cases e)
  obtain outs ev1 where ev1: "evaluations rules evals [] = (outs, ev1)" by fastforce
  have "\<forall>r \<in> set rules. answers r (db, now)" using snoc.prems by (simp add: e)
  from evaluate_loop_value [OF assms(1) this, of "[]" ev1] obtain out ev2
    where l: "evaluate rules db now ev1 = (Inr out, ev2)"
      "\<forall>r \<in> set rules. dict_get ev2 (ar_name r) = Some (rule_step r (breached r (db, now)) now
        (case dict_get ev1 (ar_name r) of None \<Rightarrow> (Inactive, now) | Some st \<Rightarrow> st))"
    unfolding evaluate_def by blast
  have "\<forall>r \<in> set rules. dict_get ev1 (ar_name r) = (if evals = [] then None else Some (held_state r evals))"
    using snoc ev1 by simp
  then show ?case using l by (simp add: evaluations_snoc e ev1 held_state_snoc)
qed simp

text \<open>C30. An alert fires exactly when its condition has held long enough. Evaluate rules with names of
  their own any number of times, each query answering. The alert of a rule is then inactive when the
  last evaluation did not breach; otherwise it has been breached since the first evaluation of the
  unbroken run of breaches up to now, and it is firing if that was \<^verbatim>\<open>for_s\<close> or longer ago, and pending if not.
\<close>

theorem alert_fires_after_holding:
  assumes "distinct (map ar_name rules)" and "\<forall>e \<in> set (evals @ [(db, now)]). \<forall>r \<in> set rules. answers r e"
  shows "\<exists>alerts. List.last (fst (evaluations rules (evals @ [(db, now)]) [])) = Inr alerts \<and> length alerts = length rules \<and>
    (\<forall>i < length rules. al_rule (alerts ! i) = ar_name (rules ! i) \<and>
       (case takeWhile (breached (rules ! i)) (rev (evals @ [(db, now)])) of
          [] \<Rightarrow> al_state (alerts ! i) = Inactive
        | e # es \<Rightarrow> al_since (alerts ! i) = snd (List.last (e # es)) \<and>
            al_state (alerts ! i) = (if ar_for_s (rules ! i) \<le> now - snd (List.last (e # es)) then Firing else Pending)))"
proof -
  obtain outs ev1 where ev1: "evaluations rules evals [] = (outs, ev1)" by fastforce
  have st: "dict_get ev1 (ar_name r) = (if evals = [] then None else Some (held_state r evals))" if "r \<in> set rules" for r
    using evaluations_state [OF assms(1), of evals] assms(2) that ev1 by simp
  have "\<forall>r \<in> set rules. answers r (db, now)" using assms(2) by simp
  from evaluate_loop_value [OF assms(1) this, of "[]" ev1] obtain ev2
    where l: "evaluate rules db now ev1 = (Inr (map (\<lambda>r. alert_of r (rule_value r (db, now)) (rule_step r (breached r (db, now)) now
        (case dict_get ev1 (ar_name r) of None \<Rightarrow> (Inactive, now) | Some st \<Rightarrow> st))) rules), ev2)"
    unfolding evaluate_def by auto
  let ?alerts = "map (\<lambda>r. alert_of r (rule_value r (db, now)) (held_state r (evals @ [(db, now)]))) rules"
  have "evaluate rules db now ev1 = (Inr ?alerts, ev2)"
    unfolding l by (simp add: st held_state_snoc cong: map_cong)
  then have "List.last (fst (evaluations rules (evals @ [(db, now)]) [])) = Inr ?alerts" by (simp add: evaluations_snoc ev1)
  then show ?thesis
    by (intro exI [of _ ?alerts]) (auto simp: alert_of_def held_state_def streak_def Let_def split: list.split)
qed


text \<open>Two evaluations a minute apart of a database with a high sample in each minute.\<close>

definition demo_rule :: alert_rule where
  "demo_rule = \<lparr>ar_name = ''hot'', ar_metric = ''m'', ar_matchers = [], ar_threshold = 1/2, ar_window_s = 60,
     ar_for_s = 60, ar_agg = Maximum, ar_severity = ''page'', ar_group_by = []\<rparr>"

lemma alert_fires_after_holding_witness:
  "\<exists>db alerts. List.last (fst (evaluations [demo_rule] [(db, 60), (db, 120)] [])) = Inr alerts \<and>
    map al_state alerts = [Firing] \<and> map al_since alerts = [60]"
proof -
  let ?db = "snd (db_write ''m'' [] 3 (Some 70) 0 (snd (db_write ''m'' [] 1 (Some 10) 0 (tsdb_new 5))))"
  have p: "rule_points demo_rule ?db 60 = Inr [\<lparr>pt_timestamp = 0, pt_value = 1\<rparr>]"
    "rule_points demo_rule ?db 120 = Inr [\<lparr>pt_timestamp = 60, pt_value = 3\<rparr>]" by code_simp+
  have b: "breached demo_rule (?db, 60)" "breached demo_rule (?db, 120)" "ar_for_s demo_rule = 60"
    by (simp_all add: breached_def rule_value_def p last_value_def) (simp_all add: demo_rule_def)
  have "\<forall>e \<in> set ([(?db, 60)] @ [(?db, 120)]). \<forall>r \<in> set [demo_rule]. answers r e" by (simp add: answers_def p)
  from alert_fires_after_holding [OF _ this] obtain alerts
    where a: "List.last (fst (evaluations [demo_rule] [(?db, 60), (?db, 120)] [])) = Inr alerts" "length alerts = 1"
      "al_state (alerts ! 0) = Firing" "al_since (alerts ! 0) = 60"
    by (auto simp: b)
  then show ?thesis by (intro exI [of _ ?db] exI [of _ alerts]) (cases alerts; simp)
qed

section \<open>The router tracks the firing groups\<close>

definition bar_free :: "string \<Rightarrow> bool" where
  "bar_free s \<longleftrightarrow> CHR ''|'' \<notin> set s"

lemma split_bar_append: "bar_free a \<Longrightarrow> split_bar (a @ CHR ''|'' # b) = Some (a, b)"
  by (induction a) (auto simp: bar_free_def)

lemma split_group_id: "bar_free (fst g) \<Longrightarrow> split_bar (group_id g) = Some g"
  by (simp add: group_id_def split_bar_append)

lemma group_id_inject: "bar_free (fst g) \<Longrightarrow> bar_free (fst h) \<Longrightarrow> group_id g = group_id h \<longleftrightarrow> g = h"
  using split_group_id by (metis option.inject)

text \<open>The fingerprints of the firing alerts of a group, and the groups there are.\<close>

definition firing_in :: "router \<Rightarrow> alert list \<Rightarrow> string \<times> string \<Rightarrow> alert list" where
  "firing_in ro alerts g = filter (\<lambda>a. al_state a = Firing \<and> (receiver_of ro a, al_group_key a) = g) alerts"

definition firing_prints :: "router \<Rightarrow> alert list \<Rightarrow> string \<times> string \<Rightarrow> string list" where
  "firing_prints ro alerts g = sort (map al_fingerprint (firing_in ro alerts g))"

definition live_groups :: "router \<Rightarrow> alert list \<Rightarrow> (string \<times> string) set" where
  "live_groups ro alerts = {g. firing_in ro alerts g \<noteq> []}"

lemma group_firing_ok: "dict_ok (group_firing ro alerts)"
  unfolding group_firing_def by (induction alerts rule: rev_induct) (simp_all add: Let_def)

lemma group_firing_get:
  "dict_get (group_firing ro alerts) g = (if firing_in ro alerts g = [] then None else Some (firing_in ro alerts g))"
proof (induction alerts rule: rev_induct)
  case (snoc a alerts)
  have "group_firing ro (alerts @ [a]) = (if al_state a \<noteq> Firing then group_firing ro alerts
      else let g = (receiver_of ro a, al_group_key a)
           in dict_set g ((case dict_get (group_firing ro alerts) g of None \<Rightarrow> [] | Some as \<Rightarrow> as) @ [a]) (group_firing ro alerts))"
    by (simp add: group_firing_def)
  then show ?case using snoc by (auto simp: firing_in_def Let_def)
qed (simp add: group_firing_def firing_in_def)

text \<open>What is tracked of a group: the fingerprints last sent and when.\<close>

definition tracked :: "router \<Rightarrow> string \<times> string \<Rightarrow> (string list \<times> time) option" where
  "tracked ro g = (case dict_get (ro_members ro) (group_id g) of
     None \<Rightarrow> None
   | Some m \<Rightarrow> (case dict_get (ro_sent ro) (group_id g) of None \<Rightarrow> None | Some t \<Rightarrow> Some (m, t)))"

definition ro_inv :: "router \<Rightarrow> bool" where
  "ro_inv ro \<longleftrightarrow> dict_ok (ro_members ro) \<and> dict_ok (ro_sent ro) \<and>
     set (dict_keys (ro_members ro)) = set (dict_keys (ro_sent ro)) \<and>
     (\<forall>k \<in> set (dict_keys (ro_members ro)). \<exists>g. bar_free (fst g) \<and> k = group_id g) \<and>
     (\<forall>s r. dict_get (ro_routes ro) s = Some r \<longrightarrow> bar_free r)"

lemma receiver_bar_free: "ro_inv ro \<Longrightarrow> bar_free (receiver_of ro a)"
  by (auto simp: ro_inv_def receiver_of_def bar_free_def split: option.splits)

lemma live_bar_free: "ro_inv ro \<Longrightarrow> g \<in> live_groups ro alerts \<Longrightarrow> bar_free (fst g)"
  using receiver_bar_free by (force simp: live_groups_def firing_in_def filter_empty_conv)

text \<open>What is sent to a group that fires, and what is tracked of it then.\<close>

definition notice :: "rat \<Rightarrow> time \<Rightarrow> string \<times> string \<Rightarrow> string list \<Rightarrow> (string list \<times> time) option \<Rightarrow> notification list" where
  "notice interval now g prints st =
     (let note = (\<lambda>why. \<lparr>no_receiver = fst g, no_group_key = snd g, no_fingerprints = prints, no_reason = why\<rparr>)
      in case st of
           None \<Rightarrow> [note ''new'']
         | Some (m, t) \<Rightarrow> if m \<noteq> prints then [note ''new''] else if interval \<le> now - t then [note ''repeat''] else [])"

definition track_next :: "rat \<Rightarrow> time \<Rightarrow> string \<times> string \<Rightarrow> string list \<Rightarrow> (string list \<times> time) option \<Rightarrow> (string list \<times> time) option" where
  "track_next interval now g prints st = (if notice interval now g prints st = [] then st else Some (prints, now))"

lemma ro_inv_sent: "ro_inv ro \<Longrightarrow> dict_get (ro_sent ro) k = None \<longleftrightarrow> dict_get (ro_members ro) k = None"
  unfolding dict_get_None by (simp add: ro_inv_def)

lemma notify_step:
  assumes "ro_inv ro" "bar_free (fst g)"
  shows "\<exists>ro'. notify_loop now ((g, members) # groups) out ro =
      notify_loop now groups (out @ notice (ro_repeat ro) now g (sort (map al_fingerprint members)) (tracked ro g)) ro' \<and>
    ro_inv ro' \<and> ro_routes ro' = ro_routes ro \<and> ro_repeat ro' = ro_repeat ro \<and>
    (\<forall>h. bar_free (fst h) \<longrightarrow> tracked ro' h =
      (if h = g then track_next (ro_repeat ro) now g (sort (map al_fingerprint members)) (tracked ro g) else tracked ro h))"
proof -
  let ?p = "sort (map al_fingerprint members)" and ?k = "group_id g"
  let ?ro = "ro\<lparr>ro_sent := dict_set ?k now (ro_sent ro), ro_members := dict_set ?k ?p (ro_members ro)\<rparr>"
  let ?n = "notice (ro_repeat ro) now g ?p (tracked ro g)"
  have inv': "ro_inv ?ro"
  proof -
    have "\<exists>h. bar_free (fst h) \<and> ?k = group_id h" using assms(2) by blast
    then show ?thesis
      using assms(1) unfolding ro_inv_def by (auto simp: dict_keys_set simp del: set_map split_paired_Ex split_paired_All)
  qed
  have tr: "tracked ?ro h = (if h = g then Some (?p, now) else tracked ro h)" if "bar_free (fst h)" for h
    using group_id_inject [OF that assms(2)] by (simp add: tracked_def cong: option.case_cong)
  consider (none) "dict_get (ro_sent ro) ?k = None" "tracked ro g = None"
    | (some) m t where "dict_get (ro_sent ro) ?k = Some t" "dict_get (ro_members ro) ?k = Some m" "tracked ro g = Some (m, t)"
    using ro_inv_sent [OF assms(1), of ?k] by (fastforce simp: tracked_def)
  then show ?thesis
  proof cases
    case none
    then show ?thesis using inv' tr by (intro exI [of _ ?ro]) (simp add: notice_def track_next_def Let_def)
  next
    case some
    show ?thesis
    proof (cases "m \<noteq> ?p \<or> ro_repeat ro \<le> now - t")
      case True
      then show ?thesis using some inv' tr by (intro exI [of _ ?ro]) (auto simp: notice_def track_next_def Let_def)
    next
      case False
      then show ?thesis using some assms(1) by (intro exI [of _ ro]) (auto simp: notice_def track_next_def Let_def)
    qed
  qed
qed

lemma notify_loop_value:
  assumes "ro_inv ro" "distinct (map fst groups)" "\<forall>g \<in> set (map fst groups). bar_free (fst g)"
  shows "\<exists>ro'. notify_loop now groups out ro =
      (out @ concat (map (\<lambda>(g, members). notice (ro_repeat ro) now g (sort (map al_fingerprint members)) (tracked ro g)) groups), ro') \<and>
    ro_inv ro' \<and> ro_routes ro' = ro_routes ro \<and> ro_repeat ro' = ro_repeat ro \<and>
    (\<forall>h. bar_free (fst h) \<longrightarrow> tracked ro' h = (case dict_get groups h of None \<Rightarrow> tracked ro h
       | Some members \<Rightarrow> track_next (ro_repeat ro) now h (sort (map al_fingerprint members)) (tracked ro h)))"
  using assms
proof (induction groups arbitrary: out ro)
  case Nil
  then show ?case by auto
next
  case (Cons e groups)
  obtain g members where e: "e = (g, members)" by (cases e)
  let ?p = "sort (map al_fingerprint members)"
  have g: "bar_free (fst g)" "g \<notin> fst ` set groups" using Cons.prems(2,3) by (auto simp: e)
  from notify_step [OF Cons.prems(1) g(1), of now members groups out] obtain ro1
    where r1: "notify_loop now (e # groups) out ro = notify_loop now groups (out @ notice (ro_repeat ro) now g ?p (tracked ro g)) ro1"
      "ro_inv ro1" "ro_routes ro1 = ro_routes ro" "ro_repeat ro1 = ro_repeat ro"
      "\<forall>h. bar_free (fst h) \<longrightarrow> tracked ro1 h = (if h = g then track_next (ro_repeat ro) now g ?p (tracked ro g) else tracked ro h)"
    unfolding e by blast
  have prems: "distinct (map fst groups)" "\<forall>g \<in> set (map fst groups). bar_free (fst g)" using Cons.prems(2,3) by (simp_all add: e)
  from Cons.IH [OF r1(2) prems, of "out @ notice (ro_repeat ro) now g ?p (tracked ro g)"] obtain ro'
    where r': "notify_loop now groups (out @ notice (ro_repeat ro) now g ?p (tracked ro g)) ro1 =
        ((out @ notice (ro_repeat ro) now g ?p (tracked ro g)) @
          concat (map (\<lambda>(g, members). notice (ro_repeat ro) now g (sort (map al_fingerprint members)) (tracked ro1 g)) groups), ro')"
      "ro_inv ro'" "ro_routes ro' = ro_routes ro" "ro_repeat ro' = ro_repeat ro"
      "\<forall>h. bar_free (fst h) \<longrightarrow> tracked ro' h = (case dict_get groups h of None \<Rightarrow> tracked ro1 h
         | Some members \<Rightarrow> track_next (ro_repeat ro) now h (sort (map al_fingerprint members)) (tracked ro1 h))"
    unfolding r1(3,4) by blast
  have same: "tracked ro1 h = tracked ro h" if "h \<in> fst ` set groups" for h
    using r1(5) g(2) prems(2) that by (metis set_map)
  have mp: "map (\<lambda>(g, members). notice (ro_repeat ro) now g (sort (map al_fingerprint members)) (tracked ro1 g)) groups =
      map (\<lambda>(g, members). notice (ro_repeat ro) now g (sort (map al_fingerprint members)) (tracked ro g)) groups"
  proof (rule map_cong [OF refl])
    fix x
    assume "x \<in> set groups"
    then have "tracked ro1 (fst x) = tracked ro (fst x)" by (intro same imageI)
    then show "(case x of (g, members) \<Rightarrow> notice (ro_repeat ro) now g (sort (map al_fingerprint members)) (tracked ro1 g)) =
        (case x of (g, members) \<Rightarrow> notice (ro_repeat ro) now g (sort (map al_fingerprint members)) (tracked ro g))"
      by (simp only: case_prod_beta')
  qed
  have "tracked ro' h = (case dict_get (e # groups) h of None \<Rightarrow> tracked ro h
       | Some members \<Rightarrow> track_next (ro_repeat ro) now h (sort (map al_fingerprint members)) (tracked ro h))" if h: "bar_free (fst h)" for h
  proof (cases "dict_get groups h")
    case None
    then show ?thesis using r'(5) [rule_format, OF h] r1(5) [rule_format, OF h] by (auto simp: e)
  next
    case (Some ms)
    then have mem: "h \<in> fst ` set groups" by (metis dict_get_keys set_map)
    then have "h \<noteq> g" using g(2) by blast
    then show ?thesis using r'(5) [rule_format, OF h] by (simp add: e Some same [OF mem])
  qed
  then show ?case using r1(1) r'(1) r'(2-4) unfolding mp by (intro exI [of _ ro']) (simp add: e)
qed


lemma resolve_loop_value:
  assumes "ro_inv ro" "distinct keys" "set keys \<subseteq> set (dict_keys (ro_members ro))"
  shows "\<exists>closings ro'. resolve_loop keys out ro = (Inr (out @ closings), ro') \<and> ro_inv ro' \<and> ro_routes ro' = ro_routes ro \<and> ro_repeat ro' = ro_repeat ro \<and>
    (\<forall>h. bar_free (fst h) \<longrightarrow> tracked ro' h = (if group_id h \<in> set keys then None else tracked ro h)) \<and>
    (\<forall>h m t. bar_free (fst h) \<longrightarrow> tracked ro h = Some (m, t) \<longrightarrow> group_id h \<in> set keys \<longrightarrow>
       \<lparr>no_receiver = fst h, no_group_key = snd h, no_fingerprints = m, no_reason = ''resolved''\<rparr> \<in> set closings) \<and>
    map (\<lambda>n. group_id (no_receiver n, no_group_key n)) closings = keys \<and>
    (\<forall>n \<in> set closings. no_reason n = ''resolved'' \<and> bar_free (no_receiver n))"
  using assms
proof (induction keys arbitrary: out ro)
  case Nil
  then show ?case by auto
next
  case (Cons k keys)
  have "k \<in> set (dict_keys (ro_members ro))" using Cons.prems(3) by simp
  then obtain g where g: "bar_free (fst g)" "k = group_id g" using Cons.prems(1) unfolding ro_inv_def by blast
  have "dict_get (ro_members ro) k \<noteq> None" using \<open>k \<in> set (dict_keys (ro_members ro))\<close> unfolding dict_get_None by simp
  then obtain m where m: "dict_get (ro_members ro) k = Some m" by blast
  let ?note = "\<lparr>no_receiver = fst g, no_group_key = snd g, no_fingerprints = m, no_reason = ''resolved''\<rparr>"
  let ?ro = "ro\<lparr>ro_members := dict_del k (ro_members ro), ro_sent := dict_del k (ro_sent ro)\<rparr>"
  have step: "resolve_loop (k # keys) out ro = resolve_loop keys (out @ [?note]) ?ro"
    using split_group_id [OF g(1)] by (simp add: m g(2) [symmetric] case_prod_beta')
  have keys: "set (dict_keys (dict_del k d)) = set (dict_keys d) - {k}" for d :: "(string, 'c) dict"
    by (induction d) auto
  have inv: "ro_inv ?ro"
    using Cons.prems(1) unfolding ro_inv_def by (auto simp: keys simp del: set_map split_paired_Ex split_paired_All)
  have sub: "distinct keys" "set keys \<subseteq> set (dict_keys (ro_members ?ro))"
    using Cons.prems(2,3) by (auto simp: keys simp del: set_map)
  have tr: "tracked ?ro h = (if group_id h = k then None else tracked ro h)" for h
    by (simp add: tracked_def cong: option.case_cong)
  have k: "k \<notin> set keys" using Cons.prems(2) by simp
  from Cons.IH [OF inv sub, of "out @ [?note]"] obtain closings ro' where r:
    "resolve_loop keys (out @ [?note]) ?ro = (Inr ((out @ [?note]) @ closings), ro')" "ro_inv ro'" "ro_routes ro' = ro_routes ro" "ro_repeat ro' = ro_repeat ro"
    "\<forall>h. bar_free (fst h) \<longrightarrow> tracked ro' h = (if group_id h \<in> set keys then None else tracked ?ro h)"
    "\<forall>h m t. bar_free (fst h) \<longrightarrow> tracked ?ro h = Some (m, t) \<longrightarrow> group_id h \<in> set keys \<longrightarrow>
       \<lparr>no_receiver = fst h, no_group_key = snd h, no_fingerprints = m, no_reason = ''resolved''\<rparr> \<in> set closings"
    "map (\<lambda>n. group_id (no_receiver n, no_group_key n)) closings = keys" "\<forall>n \<in> set closings. no_reason n = ''resolved'' \<and> bar_free (no_receiver n)"
    by auto
  have "tracked ro' h = (if group_id h \<in> set (k # keys) then None else tracked ro h)" if "bar_free (fst h)" for h
    using r(5) [rule_format, OF that] tr [of h] by simp
  moreover have "\<lparr>no_receiver = fst h, no_group_key = snd h, no_fingerprints = m', no_reason = ''resolved''\<rparr> \<in> set (?note # closings)"
    if h: "bar_free (fst h)" "tracked ro h = Some (m', t)" "group_id h \<in> set (k # keys)" for h m' t
  proof (cases "group_id h = k")
    case True
    then have "h = g" using group_id_inject [OF h(1) g(1)] g(2) by simp
    moreover have "m' = m" using h(2) m True by (simp add: tracked_def split: option.splits)
    ultimately show ?thesis by simp
  next
    case False
    then have "tracked ?ro h = Some (m', t)" "group_id h \<in> set keys" using h tr [of h] by simp_all
    then show ?thesis using r(6) h(1) by simp
  qed
  moreover have "map (\<lambda>n. group_id (no_receiver n, no_group_key n)) (?note # closings) = k # keys" using r(7) g(2) by simp
  moreover have "\<forall>n \<in> set (?note # closings). no_reason n = ''resolved'' \<and> bar_free (no_receiver n)" using r(8) g(1) by simp
  ultimately show ?case using step r(1-4) by (intro exI [of _ "?note # closings"] exI [of _ ro']) simp
qed

text \<open>Every state of a router, by dispatches of any alerts at any times.\<close>

inductive ro_reach :: "(string, string) dict \<Rightarrow> rat \<Rightarrow> router \<Rightarrow> bool" for routes interval where
  start: "ro_reach routes interval (router_new routes interval)"
| step: "ro_reach routes interval ro \<Longrightarrow> ro_reach routes interval (snd (dispatch alerts now ro))"

text \<open>What a cleared group is sent.\<close>

definition resolution :: "string \<times> string \<Rightarrow> string list \<Rightarrow> notification" where
  "resolution h m = \<lparr>no_receiver = fst h, no_group_key = snd h, no_fingerprints = m, no_reason = ''resolved''\<rparr>"

lemma sorted_groups:
  "map fst (sort_key fst (group_firing ro alerts)) = sorted_list_of_set (live_groups ro alerts)"
  "dict_get (sort_key fst (group_firing ro alerts)) h = (if h \<in> live_groups ro alerts then Some (firing_in ro alerts h) else None)"
  "(g, members) \<in> set (group_firing ro alerts) \<Longrightarrow> members = firing_in ro alerts g"
  "set (dict_keys (group_firing ro alerts)) = live_groups ro alerts"
proof -
  let ?g = "group_firing ro alerts"
  have d: "distinct (map fst ?g)" "distinct (map fst (sort_key fst ?g))"
    using group_firing_ok [of ro alerts] by (simp_all add: dict_ok_def) (metis distinct_map distinct_sort set_sort)
  show keys: "set (dict_keys ?g) = live_groups ro alerts"
  proof (rule set_eqI)
    fix h
    have "h \<in> set (dict_keys ?g) \<longleftrightarrow> dict_get ?g h \<noteq> None" unfolding dict_get_None by simp
    also have "\<dots> \<longleftrightarrow> h \<in> live_groups ro alerts" by (simp add: group_firing_get live_groups_def)
    finally show "h \<in> set (dict_keys ?g) \<longleftrightarrow> h \<in> live_groups ro alerts" .
  qed
  have "set (map fst (sort_key fst ?g)) = live_groups ro alerts" using keys by simp
  then show "map fst (sort_key fst ?g) = sorted_list_of_set (live_groups ro alerts)"
    using d(2) by (metis sorted_sort_key sorted_list_of_set.idem_if_sorted_distinct)
  have "map_of (sort_key fst ?g) = map_of ?g" by (rule map_of_inject_set [OF d(2,1), THEN iffD2]) simp
  then show "dict_get (sort_key fst ?g) h = (if h \<in> live_groups ro alerts then Some (firing_in ro alerts h) else None)"
    by (simp add: group_firing_get live_groups_def)
  show "(g, members) \<in> set ?g \<Longrightarrow> members = firing_in ro alerts g"
    using dict_get_mem [OF group_firing_ok, of g members ro alerts] by (simp add: group_firing_get split: if_splits)
qed

lemma dispatch_value:
  assumes "ro_inv ro"
  shows "\<exists>resolved ro'. dispatch alerts now ro =
      (Inr (concat (map (\<lambda>g. notice (ro_repeat ro) now g (firing_prints ro alerts g) (tracked ro g)) (sorted_list_of_set (live_groups ro alerts))) @ resolved), ro') \<and>
    ro_inv ro' \<and> ro_routes ro' = ro_routes ro \<and> ro_repeat ro' = ro_repeat ro \<and> distinct resolved \<and>
    set resolved = {resolution h m | h m t. bar_free (fst h) \<and> tracked ro h = Some (m, t) \<and> h \<notin> live_groups ro alerts} \<and>
    (\<forall>h. bar_free (fst h) \<longrightarrow> tracked ro' h =
       (if h \<in> live_groups ro alerts then track_next (ro_repeat ro) now h (firing_prints ro alerts h) (tracked ro h) else None))"
proof -
  let ?g = "group_firing ro alerts" and ?live = "live_groups ro alerts"
  have bf: "bar_free (fst h)" if "h \<in> ?live" for h using live_bar_free [OF assms that] .
  have d: "distinct (map fst (sort_key fst ?g))" unfolding sorted_groups(1) by simp
  have "\<forall>h \<in> set (map fst (sort_key fst ?g)). bar_free (fst h)" using bf sorted_groups(4) by simp
  from notify_loop_value [OF assms d this, of now "[]"] obtain ro1 where n:
    "notify_loop now (sort_key fst ?g) [] ro =
      (concat (map (\<lambda>(g, members). notice (ro_repeat ro) now g (sort (map al_fingerprint members)) (tracked ro g)) (sort_key fst ?g)), ro1)"
    "ro_inv ro1" "ro_routes ro1 = ro_routes ro" "ro_repeat ro1 = ro_repeat ro"
    "\<forall>h. bar_free (fst h) \<longrightarrow> tracked ro1 h = (case dict_get (sort_key fst ?g) h of None \<Rightarrow> tracked ro h
       | Some members \<Rightarrow> track_next (ro_repeat ro) now h (sort (map al_fingerprint members)) (tracked ro h))"
    unfolding append_Nil by blast
  have "map (\<lambda>(g, members). notice (ro_repeat ro) now g (sort (map al_fingerprint members)) (tracked ro g)) (sort_key fst ?g) =
      map (\<lambda>g. notice (ro_repeat ro) now g (firing_prints ro alerts g) (tracked ro g)) (map fst (sort_key fst ?g))"
    unfolding map_map
  proof (rule map_cong [OF refl])
    fix x
    assume "x \<in> set (sort_key fst ?g)"
    then have "snd x = firing_in ro alerts (fst x)" using sorted_groups(3) [of "fst x" "snd x"] by simp
    then show "(case x of (g, members) \<Rightarrow> notice (ro_repeat ro) now g (sort (map al_fingerprint members)) (tracked ro g)) =
        ((\<lambda>g. notice (ro_repeat ro) now g (firing_prints ro alerts g) (tracked ro g)) \<circ> fst) x"
      by (simp add: case_prod_beta' firing_prints_def)
  qed
  note sent = n(1) [unfolded this sorted_groups(1)]
  have t1: "tracked ro1 h = (if h \<in> ?live then track_next (ro_repeat ro) now h (firing_prints ro alerts h) (tracked ro h) else tracked ro h)"
    if "bar_free (fst h)" for h
    using n(5) [rule_format, OF that] by (simp add: sorted_groups(2) firing_prints_def)
  let ?keys = "map group_id (dict_keys ?g)"
  define gone where "gone = sort (filter (\<lambda>key. key \<notin> set ?keys) (dict_keys (ro_members ro1)))"
  have keys: "group_id h \<in> set ?keys \<longleftrightarrow> h \<in> ?live" if "bar_free (fst h)" for h
  proof -
    have "set ?keys = group_id ` ?live" unfolding sorted_groups(4) [symmetric] by (rule set_map)
    then show ?thesis using group_id_inject [OF that bf] by (auto simp del: split_paired_Ex split_paired_All)
  qed
  have mem: "group_id h \<in> set (dict_keys (ro_members ro1)) \<longleftrightarrow> tracked ro1 h \<noteq> None" for h
  proof -
    have "group_id h \<in> set (dict_keys (ro_members ro1)) \<longleftrightarrow> dict_get (ro_members ro1) (group_id h) \<noteq> None" unfolding dict_get_None by simp
    then show ?thesis using ro_inv_sent [OF n(2), of "group_id h"] by (auto simp: tracked_def split: option.splits)
  qed
  have gone: "distinct gone" "set gone \<subseteq> set (dict_keys (ro_members ro1))"
    using n(2) by (auto simp: gone_def ro_inv_def dict_ok_def)
  have in_gone: "group_id h \<in> set gone \<longleftrightarrow> h \<notin> ?live \<and> tracked ro h \<noteq> None" if h: "bar_free (fst h)" for h
    using keys [OF h] mem [of h] t1 [OF h] by (auto simp: gone_def simp del: set_map)
  from resolve_loop_value [OF n(2) gone, of "concat (map (\<lambda>g. notice (ro_repeat ro) now g (firing_prints ro alerts g) (tracked ro g)) (sorted_list_of_set ?live))"]
  obtain closings ro' where r:
    "resolve_loop gone (concat (map (\<lambda>g. notice (ro_repeat ro) now g (firing_prints ro alerts g) (tracked ro g)) (sorted_list_of_set ?live))) ro1 =
      (Inr (concat (map (\<lambda>g. notice (ro_repeat ro) now g (firing_prints ro alerts g) (tracked ro g)) (sorted_list_of_set ?live)) @ closings), ro')"
    "ro_inv ro'" "ro_routes ro' = ro_routes ro" "ro_repeat ro' = ro_repeat ro"
    "\<forall>h. bar_free (fst h) \<longrightarrow> tracked ro' h = (if group_id h \<in> set gone then None else tracked ro1 h)"
    "\<forall>h m t. bar_free (fst h) \<longrightarrow> tracked ro1 h = Some (m, t) \<longrightarrow> group_id h \<in> set gone \<longrightarrow> resolution h m \<in> set closings"
    "map (\<lambda>n. group_id (no_receiver n, no_group_key n)) closings = gone" "\<forall>n \<in> set closings. no_reason n = ''resolved'' \<and> bar_free (no_receiver n)"
    unfolding n(3,4) resolution_def by blast
  have "dispatch alerts now ro = (Inr (concat (map (\<lambda>g. notice (ro_repeat ro) now g (firing_prints ro alerts g) (tracked ro g)) (sorted_list_of_set ?live)) @ closings), ro')"
    unfolding dispatch_def Let_def sent prod.case gone_def [symmetric] r(1) ..
  moreover have dn: "distinct closings" using gone(1) unfolding r(7) [symmetric] by (simp only: distinct_map)
  moreover have sub: "resolution h m \<in> set closings" if h: "bar_free (fst h)" "tracked ro h = Some (m, t)" "h \<notin> ?live" for h m t
  proof -
    have "tracked ro1 h = Some (m, t)" using t1 [OF h(1)] h(2,3) by simp
    moreover have "group_id h \<in> set gone" using in_gone [OF h(1)] h(2,3) by simp
    ultimately show ?thesis using r(6) h(1) by blast
  qed
  moreover have "\<exists>h m t. n = resolution h m \<and> bar_free (fst h) \<and> tracked ro h = Some (m, t) \<and> h \<notin> ?live" if x: "n \<in> set closings" for n
  proof -
    let ?h = "(no_receiver n, no_group_key n)"
    have h: "bar_free (fst ?h)" using r(8) x by simp
    have "group_id ?h \<in> set gone" unfolding r(7) [symmetric] using x by simp
    then have nl: "?h \<notin> ?live" "tracked ro ?h \<noteq> None" using in_gone [OF h] by simp_all
    then obtain m t where mt: "tracked ro ?h = Some (m, t)" by auto
    have "resolution ?h m \<in> set closings" by (rule sub [OF h mt nl(1)])
    moreover have "inj_on (\<lambda>n. group_id (no_receiver n, no_group_key n)) (set closings)"
      using gone(1) unfolding r(7) [symmetric] by (simp only: distinct_map)
    ultimately have "n = resolution ?h m" using x by (auto dest!: inj_onD [of _ _ n "resolution ?h m"] simp: resolution_def)
    then show ?thesis using h mt nl(1) by blast
  qed
  then have "set closings = {resolution h m | h m t. bar_free (fst h) \<and> tracked ro h = Some (m, t) \<and> h \<notin> ?live}"
    using sub by (intro equalityI subsetI) (blast, blast)
  moreover have "tracked ro' h = (if h \<in> ?live then track_next (ro_repeat ro) now h (firing_prints ro alerts h) (tracked ro h) else None)"
    if h: "bar_free (fst h)" for h
    using r(5) [rule_format, OF h] in_gone [OF h] t1 [OF h] by (cases "h \<in> ?live") auto
  ultimately show ?thesis using r(2-4) by (intro exI [of _ closings] exI [of _ ro'] conjI allI impI) assumption+
qed


lemma dispatch_keeps_config:
  assumes "ro_inv ro"
  shows "ro_inv (snd (dispatch alerts now ro)) \<and> ro_routes (snd (dispatch alerts now ro)) = ro_routes ro \<and>
    ro_repeat (snd (dispatch alerts now ro)) = ro_repeat ro"
  using dispatch_value [OF assms, of alerts now] by auto

lemma ro_reach_inv:
  assumes "ro_reach routes interval ro" "\<forall>s r. dict_get routes s = Some r \<longrightarrow> bar_free r"
  shows "ro_inv ro \<and> ro_routes ro = routes \<and> ro_repeat ro = interval"
  using assms(1)
proof (induction rule: ro_reach.induct)
  case start
  show ?case using assms(2) by (simp add: ro_inv_def router_new_def)
next
  case (step ro alerts now)
  then show ?case using dispatch_keeps_config [of ro alerts now] by simp
qed

text \<open>The router notifies a group exactly when there is something to say. In every reachable state, for
  receivers without the separator, a dispatch always answers; first, in order, for each group with
  firing alerts: a new notification when the group was not tracked or other fingerprints were sent
  last, a repeat when the same were sent an interval or longer ago, and else nothing; then one
  resolution for each tracked group that does not fire any more, with what it was last sent. A group
  is tracked after it exactly when it fires.
\<close>

theorem router_notifies_changes:
  assumes "ro_reach routes interval ro" and "\<forall>s r. dict_get routes s = Some r \<longrightarrow> bar_free r"
  shows "\<exists>resolved ro'. dispatch alerts now ro =
      (Inr (concat (map (\<lambda>g. notice interval now g (firing_prints ro alerts g) (tracked ro g))
        (sorted_list_of_set (live_groups ro alerts))) @ resolved), ro') \<and>
    distinct resolved \<and>
    set resolved = {resolution h m | h m t. bar_free (fst h) \<and> tracked ro h = Some (m, t) \<and> h \<notin> live_groups ro alerts} \<and>
    (\<forall>h. bar_free (fst h) \<longrightarrow> tracked ro' h =
       (if h \<in> live_groups ro alerts then track_next interval now h (firing_prints ro alerts h) (tracked ro h) else None))"
proof -
  have r: "ro_inv ro" "ro_repeat ro = interval" using ro_reach_inv [OF assms] by simp_all
  show ?thesis
    using dispatch_value [OF r(1), of alerts now] unfolding r(2) by (elim exE conjE) (intro exI conjI, assumption+)
qed

text \<open>A page goes out when the alert fires, is not repeated a minute later and is resolved when it clears.\<close>

definition demo_alert :: "alert_state \<Rightarrow> alert" where
  "demo_alert st = \<lparr>al_fingerprint = ''f'', al_rule = ''hot'', al_severity = ''page'', al_state = st, al_value = 1, al_since = 0, al_group_key = ''-''\<rparr>"

lemma router_notifies_changes_witness:
  "\<exists>ro'. dispatch [demo_alert Firing] 0 (router_new [(''page'', ''oncall'')] 3600) =
    (Inr [\<lparr>no_receiver = ''oncall'', no_group_key = ''-'', no_fingerprints = [''f''], no_reason = ''new''\<rparr>], ro') \<and>
    tracked ro' (''oncall'', ''-'') = Some ([''f''], 0)"
proof -
  let ?ro = "router_new [(''page'', ''oncall'')] 3600" and ?a = "[demo_alert Firing]"
  have reach: "ro_reach [(''page'', ''oncall'')] 3600 ?ro" by (rule ro_reach.start)
  have routes: "\<forall>s r. dict_get [(''page'', ''oncall'')] s = Some r \<longrightarrow> bar_free r" by (simp add: bar_free_def)
  have f: "firing_in ?ro ?a g = (if g = (''oncall'', ''-'') then ?a else [])" for g
    by (auto simp: firing_in_def demo_alert_def receiver_of_def router_new_def)
  have l: "live_groups ?ro ?a = {(''oncall'', ''-'')}" by (auto simp: live_groups_def f)
  have t: "tracked ?ro h = None" for h by (simp add: tracked_def router_new_def)
  have p: "firing_prints ?ro ?a (''oncall'', ''-'') = [''f'']"
    unfolding firing_prints_def f by (simp add: demo_alert_def)
  have b: "bar_free ''oncall''" by (simp add: bar_free_def)
  from router_notifies_changes [OF reach routes, of ?a 0] obtain resolved ro'
    where d: "dispatch ?a 0 ?ro = (Inr (concat (map (\<lambda>g. notice 3600 0 g (firing_prints ?ro ?a g) (tracked ?ro g))
        (sorted_list_of_set (live_groups ?ro ?a))) @ resolved), ro')" "set resolved = {}"
      "\<forall>h. bar_free (fst h) \<longrightarrow> tracked ro' h =
        (if h \<in> live_groups ?ro ?a then track_next 3600 0 h (firing_prints ?ro ?a h) (tracked ?ro h) else None)"
    unfolding t by auto
  have "tracked ro' (''oncall'', ''-'') = Some ([''f''], 0)"
    using d(3) b by (simp add: l p t track_next_def notice_def Let_def)
  then show ?thesis using d(1,2) by (simp add: l p t notice_def Let_def)
qed

section \<open>What the router does not deduplicate\<close>

text \<open>
  The fingerprints of a group keep duplicates: the same alert from two evaluator replicas is listed
  twice, and when one replica misses a cycle the group is paged again as new.
\<close>

lemma replica_alerts_page_again:
  "\<exists>ro1 ro2. dispatch [demo_alert Firing, demo_alert Firing] 0 (router_new [(''page'', ''oncall'')] 3600) =
      (Inr [\<lparr>no_receiver = ''oncall'', no_group_key = ''-'', no_fingerprints = [''f'', ''f''], no_reason = ''new''\<rparr>], ro1) \<and>
    dispatch [demo_alert Firing] 60 ro1 =
      (Inr [\<lparr>no_receiver = ''oncall'', no_group_key = ''-'', no_fingerprints = [''f''], no_reason = ''new''\<rparr>], ro2)"
proof -
  let ?ro1 = "snd (dispatch [demo_alert Firing, demo_alert Firing] 0 (router_new [(''page'', ''oncall'')] 3600))"
  have "fst (dispatch [demo_alert Firing, demo_alert Firing] 0 (router_new [(''page'', ''oncall'')] 3600)) =
      Inr [\<lparr>no_receiver = ''oncall'', no_group_key = ''-'', no_fingerprints = [''f'', ''f''], no_reason = ''new''\<rparr>]" by code_simp
  moreover have "fst (dispatch [demo_alert Firing] 60 ?ro1) =
      Inr [\<lparr>no_receiver = ''oncall'', no_group_key = ''-'', no_fingerprints = [''f''], no_reason = ''new''\<rparr>]" by code_simp
  ultimately show ?thesis by (metis prod.collapse)
qed


end
