(* ===== verification/Kv_Transactions.thy ===== *)
theory Kv_Transactions
  imports Common Python_Lib "HOL-Library.Product_Lexorder"
begin

text \<open>
  \<^verbatim>\<open>code/lld/kv_store_transactions\<close>: the committed storage with its versions and lazy expiry, the write-ahead
  log, the savepoints of a session and the isolation policies, and the store that binds them.

  A session is a thread of the code, by its number; its savepoints are a list, outermost first, and
  \<open>None\<close> in a write set is a tombstone. Every operation takes one reading of the clock. The locks are
  left out: the store's lock is held around every access to what sessions share.
\<close>

section \<open>Values, cells and records\<close>

datatype kv_value = Int_Value int | Str_Value string

record kv_entry =
  ke_value :: kv_value
  ke_expires_at :: "time option"

definition ke_is_expired :: "time \<Rightarrow> kv_entry \<Rightarrow> bool" where
  "ke_is_expired now e = (case ke_expires_at e of None \<Rightarrow> False | Some t \<Rightarrow> t \<le> now)"

datatype kv_record = Log_Delete string | Log_Set string kv_value "time option"

definition log_entry_of :: "string \<Rightarrow> kv_entry option \<Rightarrow> kv_record" where
  "log_entry_of key entry = (case entry of None \<Rightarrow> Log_Delete key | Some e \<Rightarrow> Log_Set key (ke_value e) (ke_expires_at e))"

section \<open>Committed storage and the log\<close>

record kv_storage =
  sto_entries :: "(string, kv_entry) dict"
  sto_versions :: "(string, int) dict"

definition sto_new :: kv_storage where
  "sto_new = \<lparr>sto_entries = [], sto_versions = []\<rparr>"

definition sto_get :: "string \<Rightarrow> time \<Rightarrow> kv_storage \<Rightarrow> kv_entry option" where
  "sto_get key now sto =
     (case dict_get (sto_entries sto) key of None \<Rightarrow> None | Some e \<Rightarrow> if ke_is_expired now e then None else Some e)"

definition sto_version :: "string \<Rightarrow> kv_storage \<Rightarrow> int" where
  "sto_version key sto = (case dict_get (sto_versions sto) key of None \<Rightarrow> 0 | Some v \<Rightarrow> v)"

definition sto_set :: "string \<Rightarrow> kv_entry \<Rightarrow> kv_storage \<Rightarrow> kv_storage" where
  "sto_set key e sto =
     sto\<lparr>sto_entries := dict_set key e (sto_entries sto),
         sto_versions := dict_set key (sto_version key sto + 1) (sto_versions sto)\<rparr>"

definition sto_delete :: "string \<Rightarrow> kv_storage \<Rightarrow> bool \<times> kv_storage" where
  "sto_delete key sto =
     (case dict_get (sto_entries sto) key of
        None \<Rightarrow> (False, sto)
      | Some _ \<Rightarrow> (True, sto\<lparr>sto_entries := dict_del key (sto_entries sto),
                              sto_versions := dict_set key (sto_version key sto + 1) (sto_versions sto)\<rparr>))"

definition sto_snapshot :: "time \<Rightarrow> kv_storage \<Rightarrow> (string, kv_entry) dict" where
  "sto_snapshot now sto = filter (\<lambda>(_, e). \<not> ke_is_expired now e) (sto_entries sto)"

definition sto_len :: "kv_storage \<Rightarrow> int" where
  "sto_len sto = int (length (sto_entries sto))"

definition sto_purge :: "time \<Rightarrow> kv_storage \<Rightarrow> int \<times> kv_storage" where
  "sto_purge now sto =
     (let dead = map fst (filter (\<lambda>(_, e). ke_is_expired now e) (sto_entries sto))
      in (int (length dead), fold (\<lambda>key sto. snd (sto_delete key sto)) dead sto))"

text \<open>\<^verbatim>\<open>NullLog\<close> keeps nothing; \<^verbatim>\<open>InMemoryLog\<close> its records and the number of batches.\<close>

datatype kv_log = Null_Log | In_Memory_Log "kv_record list" int

fun write_log_append :: "kv_record list \<Rightarrow> kv_log \<Rightarrow> kv_log" where
  "write_log_append records Null_Log = Null_Log"
| "write_log_append records (In_Memory_Log kept batches) =
     (if records = [] then In_Memory_Log kept batches else In_Memory_Log (kept @ records) (batches + 1))"

fun write_log_batches :: "kv_log \<Rightarrow> int" where
  "write_log_batches Null_Log = 0"
| "write_log_batches (In_Memory_Log kept batches) = batches"

fun write_log_replay :: "kv_log \<Rightarrow> kv_record list" where
  "write_log_replay Null_Log = []"
| "write_log_replay (In_Memory_Log kept batches) = kept"

section \<open>Savepoints\<close>

record kv_transaction =
  tx_id :: string
  tx_writes :: "(string, kv_entry option) dict"
  tx_reads :: "(string, int) dict"

definition tx_new :: "string \<Rightarrow> kv_transaction" where
  "tx_new i = \<lparr>tx_id = i, tx_writes = [], tx_reads = []\<rparr>"

definition tx_stage :: "string \<Rightarrow> kv_entry option \<Rightarrow> kv_transaction \<Rightarrow> kv_transaction" where
  "tx_stage key entry t = t\<lparr>tx_writes := dict_set key entry (tx_writes t)\<rparr>"

text \<open>\<open>None\<close> is \<^verbatim>\<open>MISSING\<close>, \<open>Some None\<close> a tombstone.\<close>

definition tx_lookup :: "string \<Rightarrow> kv_transaction \<Rightarrow> kv_entry option option" where
  "tx_lookup key t = dict_get (tx_writes t) key"

definition tx_observe :: "string \<Rightarrow> int \<Rightarrow> kv_transaction \<Rightarrow> kv_transaction" where
  "tx_observe key version t =
     (case dict_get (tx_reads t) key of
        None \<Rightarrow> t\<lparr>tx_reads := dict_set key version (tx_reads t)\<rparr>
      | Some _ \<Rightarrow> t)"

definition tx_merge_into :: "kv_transaction \<Rightarrow> kv_transaction \<Rightarrow> kv_transaction" where
  "tx_merge_into t parent =
     fold (\<lambda>(key, version). tx_observe key version) (tx_reads t)
       (parent\<lparr>tx_writes := fold (\<lambda>(key, entry). dict_set key entry) (tx_writes t) (tx_writes parent)\<rparr>)"

text \<open>From the innermost savepoint outward.\<close>

fun lookup_inward :: "string \<Rightarrow> kv_transaction list \<Rightarrow> kv_entry option option" where
  "lookup_inward key [] = None"
| "lookup_inward key (t # ts) = (case tx_lookup key t of Some e \<Rightarrow> Some e | None \<Rightarrow> lookup_inward key ts)"

definition stack_lookup :: "string \<Rightarrow> kv_transaction list \<Rightarrow> kv_entry option option" where
  "stack_lookup key levels = lookup_inward key (rev levels)"

definition staged_keys :: "kv_transaction list \<Rightarrow> string set" where
  "staged_keys levels = set (concat (map (\<lambda>t. dict_keys (tx_writes t)) levels))"

section \<open>Isolation policies\<close>

datatype isolation_policy = Last_Write_Wins | Optimistic_Isolation

fun validate :: "isolation_policy \<Rightarrow> kv_transaction \<Rightarrow> kv_storage \<Rightarrow> unit result" where
  "validate Last_Write_Wins t sto = Inr ()"
| "validate Optimistic_Isolation t sto =
     (if \<forall>(key, seen) \<in> set (tx_reads t). sto_version key sto = seen then Inr () else Inl ConflictError)"

section \<open>The store\<close>

record kv_store =
  kv_storage :: kv_storage
  kv_isolation :: isolation_policy
  kv_log :: kv_log
  kv_ids :: id_gen
  kv_sessions :: "(nat, kv_transaction list) dict"

definition kv_new :: "isolation_policy \<Rightarrow> kv_log \<Rightarrow> kv_store" where
  "kv_new policy l =
     \<lparr>kv_storage = sto_new, kv_isolation = policy, kv_log = l, kv_ids = id_gen_new ''tx'' 1, kv_sessions = []\<rparr>"

definition kv_stack :: "nat \<Rightarrow> kv_store \<Rightarrow> kv_transaction list" where
  "kv_stack s kv = (case dict_get (kv_sessions kv) s of None \<Rightarrow> [] | Some levels \<Rightarrow> levels)"

definition set_stack :: "nat \<Rightarrow> kv_transaction list \<Rightarrow> kv_store \<Rightarrow> kv_store" where
  "set_stack s levels kv = kv\<lparr>kv_sessions := dict_set s levels (kv_sessions kv)\<rparr>"

definition kv_depth :: "nat \<Rightarrow> kv_store \<Rightarrow> int" where
  "kv_depth s kv = int (length (kv_stack s kv))"

definition apply_write :: "string \<times> kv_entry option \<Rightarrow> kv_storage \<Rightarrow> kv_storage" where
  "apply_write = (\<lambda>(key, entry) sto. case entry of None \<Rightarrow> snd (sto_delete key sto) | Some e \<Rightarrow> sto_set key e sto)"

text \<open>\<^verbatim>\<open>_apply\<close> and the append to the log that always follows it.\<close>

definition kv_apply :: "(string \<times> kv_entry option) list \<Rightarrow> kv_store \<Rightarrow> kv_store" where
  "kv_apply writes kv =
     kv\<lparr>kv_storage := fold apply_write writes (kv_storage kv),
        kv_log := write_log_append (map (\<lambda>(key, entry). log_entry_of key entry) writes) (kv_log kv)\<rparr>"

definition kv_read :: "nat \<Rightarrow> string \<Rightarrow> time \<Rightarrow> kv_store \<Rightarrow> kv_entry option \<times> kv_store" where
  "kv_read s key now kv =
     (let levels = kv_stack s kv
      in case stack_lookup key levels of
           Some staged \<Rightarrow>
             ((case staged of None \<Rightarrow> None | Some e \<Rightarrow> if ke_is_expired now e then None else Some e), kv)
         | None \<Rightarrow>
             (sto_get key now (kv_storage kv),
              if levels = [] then kv
              else set_stack s (butlast levels @ [tx_observe key (sto_version key (kv_storage kv)) (List.last levels)]) kv))"

definition kv_write :: "nat \<Rightarrow> string \<Rightarrow> kv_entry option \<Rightarrow> kv_store \<Rightarrow> kv_store" where
  "kv_write s key entry kv =
     (let levels = kv_stack s kv
      in if levels \<noteq> [] then set_stack s (butlast levels @ [tx_stage key entry (List.last levels)]) kv
         else kv_apply [(key, entry)] kv)"

definition kv_begin :: "nat \<Rightarrow> kv_store \<Rightarrow> string \<times> kv_store" where
  "kv_begin s kv =
     (let (i, ids) = seq_next_id (kv_ids kv)
      in (i, set_stack s (kv_stack s kv @ [tx_new i]) (kv\<lparr>kv_ids := ids\<rparr>)))"

definition kv_rollback :: "nat \<Rightarrow> kv_store \<Rightarrow> string result \<times> kv_store" where
  "kv_rollback s kv =
     (let levels = kv_stack s kv
      in if levels = [] then (Inl InvalidStateError, kv)
         else (Inr (tx_id (List.last levels)), set_stack s (butlast levels) kv))"

definition kv_commit :: "nat \<Rightarrow> kv_store \<Rightarrow> string result \<times> kv_store" where
  "kv_commit s kv =
     (let levels = kv_stack s kv
      in if levels = [] then (Inl InvalidStateError, kv)
         else (let t = List.last levels; below = butlast levels; kv1 = set_stack s below kv
               in if below \<noteq> [] then (Inr (tx_id t), set_stack s (butlast below @ [tx_merge_into t (List.last below)]) kv1)
                  else case validate (kv_isolation kv) t (kv_storage kv) of
                         Inl e \<Rightarrow> (Inl e, kv1)
                       | Inr _ \<Rightarrow> (Inr (tx_id t), kv_apply (tx_writes t) kv1)))"

definition kv_get :: "nat \<Rightarrow> string \<Rightarrow> kv_value option \<Rightarrow> time \<Rightarrow> kv_store \<Rightarrow> kv_value option \<times> kv_store" where
  "kv_get s key dflt now kv =
     (case kv_read s key now kv of (entry, kv1) \<Rightarrow> ((case entry of None \<Rightarrow> dflt | Some e \<Rightarrow> Some (ke_value e)), kv1))"

definition kv_getitem :: "nat \<Rightarrow> string \<Rightarrow> time \<Rightarrow> kv_store \<Rightarrow> kv_value result \<times> kv_store" where
  "kv_getitem s key now kv =
     (case kv_read s key now kv of (entry, kv1) \<Rightarrow>
        ((case entry of None \<Rightarrow> Inl NotFoundError | Some e \<Rightarrow> Inr (ke_value e)), kv1))"

definition kv_exists :: "nat \<Rightarrow> string \<Rightarrow> time \<Rightarrow> kv_store \<Rightarrow> bool \<times> kv_store" where
  "kv_exists s key now kv = (case kv_read s key now kv of (entry, kv1) \<Rightarrow> (entry \<noteq> None, kv1))"

definition kv_set :: "nat \<Rightarrow> string \<Rightarrow> kv_value \<Rightarrow> rat option \<Rightarrow> time \<Rightarrow> kv_store \<Rightarrow> unit result \<times> kv_store" where
  "kv_set s key val ttl now kv =
     (if key = [] then (Inl ValidationError, kv)
      else if (case ttl of None \<Rightarrow> False | Some t \<Rightarrow> t \<le> 0) then (Inl ValidationError, kv)
      else (Inr (), kv_write s key (Some \<lparr>ke_value = val, ke_expires_at = map_option (\<lambda>t. now + t) ttl\<rparr>) kv))"

definition kv_delete :: "nat \<Rightarrow> string \<Rightarrow> time \<Rightarrow> kv_store \<Rightarrow> bool \<times> kv_store" where
  "kv_delete s key now kv = (case kv_read s key now kv of (entry, kv1) \<Rightarrow> (entry \<noteq> None, kv_write s key None kv1))"

definition as_int :: "kv_entry option \<Rightarrow> int result" where
  "as_int entry =
     (case entry of
        None \<Rightarrow> Inr 0
      | Some e \<Rightarrow> (case ke_value e of Int_Value i \<Rightarrow> Inr i | Str_Value _ \<Rightarrow> Inl ValidationError))"

definition kv_incr :: "nat \<Rightarrow> string \<Rightarrow> int \<Rightarrow> time \<Rightarrow> kv_store \<Rightarrow> int result \<times> kv_store" where
  "kv_incr s key by_int now kv =
     (let new_entry = (\<lambda>entry i. \<lparr>ke_value = Int_Value (i + by_int), ke_expires_at = (case entry of None \<Rightarrow> None | Some e \<Rightarrow> ke_expires_at e)\<rparr>)
      in if kv_stack s kv = []
         then (let entry = sto_get key now (kv_storage kv)
               in case as_int entry of
                    Inl e \<Rightarrow> (Inl e, kv)
                  | Inr i \<Rightarrow> (Inr (i + by_int), kv_apply [(key, Some (new_entry entry i))] kv))
         else (case kv_read s key now kv of (entry, kv1) \<Rightarrow>
                 (case as_int entry of
                    Inl e \<Rightarrow> (Inl e, kv1)
                  | Inr i \<Rightarrow> (Inr (i + by_int), kv_write s key (Some (new_entry entry i)) kv1))))"

definition kv_decr :: "nat \<Rightarrow> string \<Rightarrow> int \<Rightarrow> time \<Rightarrow> kv_store \<Rightarrow> int result \<times> kv_store" where
  "kv_decr s key by_int now kv = kv_incr s key (- by_int) now kv"

definition starts_with :: "string \<Rightarrow> string \<Rightarrow> bool" where
  "starts_with p key \<longleftrightarrow> take (length p) key = p"

text \<open>One level laid over the visible entries.\<close>

definition layer_write :: "string \<Rightarrow> time \<Rightarrow> string \<times> kv_entry option \<Rightarrow> (string, kv_entry) dict \<Rightarrow> (string, kv_entry) dict" where
  "layer_write p now = (\<lambda>(key, entry) visible.
     if \<not> starts_with p key then visible
     else case entry of
            None \<Rightarrow> dict_del key visible
          | Some e \<Rightarrow> if ke_is_expired now e then dict_del key visible else dict_set key e visible)"

definition kv_visible :: "nat \<Rightarrow> string \<Rightarrow> time \<Rightarrow> kv_store \<Rightarrow> (string, kv_entry) dict" where
  "kv_visible s p now kv =
     fold (\<lambda>t. fold (layer_write p now) (tx_writes t)) (kv_stack s kv)
       (filter (\<lambda>(key, _). starts_with p key) (sto_snapshot now (kv_storage kv)))"

definition kv_scan :: "nat \<Rightarrow> string \<Rightarrow> time \<Rightarrow> kv_store \<Rightarrow> (string \<times> kv_value) list" where
  "kv_scan s p now kv = map (\<lambda>(key, e). (key, ke_value e)) (sort_key fst (kv_visible s p now kv))"

definition kv_count :: "nat \<Rightarrow> kv_value \<Rightarrow> time \<Rightarrow> kv_store \<Rightarrow> int" where
  "kv_count s val now kv = int (length (filter (\<lambda>(_, held). held = val) (kv_scan s [] now kv)))"

definition kv_len :: "nat \<Rightarrow> time \<Rightarrow> kv_store \<Rightarrow> int" where
  "kv_len s now kv = int (length (kv_scan s [] now kv))"

definition kv_purge_expired :: "time \<Rightarrow> kv_store \<Rightarrow> int \<times> kv_store" where
  "kv_purge_expired now kv = (case sto_purge now (kv_storage kv) of (n, sto) \<Rightarrow> (n, kv\<lparr>kv_storage := sto\<rparr>))"

definition apply_record :: "kv_record \<Rightarrow> kv_storage \<Rightarrow> kv_storage" where
  "apply_record r sto =
     (case r of
        Log_Delete key \<Rightarrow> snd (sto_delete key sto)
      | Log_Set key val expires \<Rightarrow> sto_set key \<lparr>ke_value = val, ke_expires_at = expires\<rparr> sto)"

definition kv_restore :: "isolation_policy \<Rightarrow> kv_log \<Rightarrow> kv_store" where
  "kv_restore policy l =
     (kv_new policy Null_Log)\<lparr>kv_storage := fold apply_record (write_log_replay l) sto_new, kv_log := l\<rparr>"

section \<open>Sessions at work\<close>

text \<open>
  The operations of a session as data, with their answers. The ids that \<^verbatim>\<open>begin\<close>, \<^verbatim>\<open>commit\<close> and
  \<^verbatim>\<open>rollback\<close> return are names only and are left out of the answers.
\<close>

datatype kv_op =
    Op_Get string | Op_Exists string | Op_Set string kv_value "rat option" | Op_Delete string | Op_Incr string int
  | Op_Scan string | Op_Begin | Op_Commit | Op_Rollback

datatype kv_answer =
    Ans_Value "kv_value option" | Ans_Bool bool | Ans_Int int | Ans_Entries "(string \<times> kv_value) list"
  | Ans_Done | Ans_Failed exn

definition answer :: "('a \<Rightarrow> kv_answer) \<Rightarrow> 'a result \<times> kv_store \<Rightarrow> kv_answer \<times> kv_store" where
  "answer f r = ((case fst r of Inl e \<Rightarrow> Ans_Failed e | Inr x \<Rightarrow> f x), snd r)"

fun kv_do :: "nat \<Rightarrow> time \<Rightarrow> kv_op \<Rightarrow> kv_store \<Rightarrow> kv_answer \<times> kv_store" where
  "kv_do s now (Op_Get key) kv = apfst Ans_Value (kv_get s key None now kv)"
| "kv_do s now (Op_Exists key) kv = apfst Ans_Bool (kv_exists s key now kv)"
| "kv_do s now (Op_Set key val ttl) kv = answer (\<lambda>_. Ans_Done) (kv_set s key val ttl now kv)"
| "kv_do s now (Op_Delete key) kv = apfst Ans_Bool (kv_delete s key now kv)"
| "kv_do s now (Op_Incr key i) kv = answer Ans_Int (kv_incr s key i now kv)"
| "kv_do s now (Op_Scan p) kv = (Ans_Entries (kv_scan s p now kv), kv)"
| "kv_do s now Op_Begin kv = apfst (\<lambda>_. Ans_Done) (kv_begin s kv)"
| "kv_do s now Op_Commit kv = answer (\<lambda>_. Ans_Done) (kv_commit s kv)"
| "kv_do s now Op_Rollback kv = answer (\<lambda>_. Ans_Done) (kv_rollback s kv)"

text \<open>A run of the store: operations of sessions and purges, in the order the lock lets them in.\<close>

datatype kv_event = Kv_Do nat time kv_op | Kv_Purge time

fun kv_run :: "kv_event list \<Rightarrow> kv_store \<Rightarrow> (nat \<times> kv_answer) list \<times> kv_store" where
  "kv_run [] kv = ([], kv)"
| "kv_run (Kv_Do s now op # evs) kv =
     (case kv_do s now op kv of (a, kv1) \<Rightarrow> apfst (\<lambda>answers. (s, a) # answers) (kv_run evs kv1))"
| "kv_run (Kv_Purge now # evs) kv = kv_run evs (snd (kv_purge_expired now kv))"

section \<open>A stack of whole maps\<close>

text \<open>The contract of a session alone: \<^verbatim>\<open>BEGIN\<close> copies the map, \<^verbatim>\<open>COMMIT\<close> keeps the copy in place of the one below.\<close>

type_synonym kv_view = "string \<Rightarrow> kv_entry option"

definition live :: "time \<Rightarrow> kv_entry option \<Rightarrow> kv_entry option" where
  "live now entry = (case entry of None \<Rightarrow> None | Some e \<Rightarrow> if ke_is_expired now e then None else Some e)"

definition view_scan :: "string \<Rightarrow> time \<Rightarrow> kv_view \<Rightarrow> (string \<times> kv_value) list" where
  "view_scan p now m =
     map (\<lambda>key. (key, ke_value (the (m key))))
       (sorted_list_of_set {key. starts_with p key \<and> live now (m key) \<noteq> None})"

fun view_do :: "time \<Rightarrow> kv_op \<Rightarrow> kv_view list \<Rightarrow> kv_answer \<times> kv_view list" where
  "view_do now (Op_Get key) (m # below) = (Ans_Value (map_option ke_value (live now (m key))), m # below)"
| "view_do now (Op_Exists key) (m # below) = (Ans_Bool (live now (m key) \<noteq> None), m # below)"
| "view_do now (Op_Set key val ttl) (m # below) =
     (if key = [] \<or> (\<exists>t. ttl = Some t \<and> t \<le> 0) then (Ans_Failed ValidationError, m # below)
      else (Ans_Done, m(key \<mapsto> \<lparr>ke_value = val, ke_expires_at = map_option (\<lambda>t. now + t) ttl\<rparr>) # below))"
| "view_do now (Op_Delete key) (m # below) = (Ans_Bool (live now (m key) \<noteq> None), m(key := None) # below)"
| "view_do now (Op_Incr key i) (m # below) =
     (case live now (m key) of
        None \<Rightarrow> (Ans_Int i, m(key \<mapsto> \<lparr>ke_value = Int_Value i, ke_expires_at = None\<rparr>) # below)
      | Some e \<Rightarrow>
          (case ke_value e of
             Str_Value _ \<Rightarrow> (Ans_Failed ValidationError, m # below)
           | Int_Value n \<Rightarrow>
               (Ans_Int (n + i), m(key \<mapsto> \<lparr>ke_value = Int_Value (n + i), ke_expires_at = ke_expires_at e\<rparr>) # below)))"
| "view_do now (Op_Scan p) (m # below) = (Ans_Entries (view_scan p now m), m # below)"
| "view_do now Op_Begin (m # below) = (Ans_Done, m # m # below)"
| "view_do now Op_Commit (m # below) =
     (case below of [] \<Rightarrow> (Ans_Failed InvalidStateError, [m]) | _ # below' \<Rightarrow> (Ans_Done, m # below'))"
| "view_do now Op_Rollback (m # below) =
     (case below of [] \<Rightarrow> (Ans_Failed InvalidStateError, [m]) | b # below' \<Rightarrow> (Ans_Done, b # below'))"
| "view_do now op [] = (Ans_Done, [])"

fun view_run :: "(time \<times> kv_op) list \<Rightarrow> kv_view list \<Rightarrow> kv_answer list \<times> kv_view list" where
  "view_run [] ms = ([], ms)"
| "view_run ((now, op) # ops) ms = (case view_do now op ms of (a, ms1) \<Rightarrow> apfst (\<lambda>answers. a # answers) (view_run ops ms1))"

text \<open>The maps a session sees: the committed one with the write sets laid over it, innermost first.\<close>

definition overlay :: "(string, kv_entry option) dict \<Rightarrow> kv_view \<Rightarrow> kv_view" where
  "overlay writes m key = (case dict_get writes key of None \<Rightarrow> m key | Some entry \<Rightarrow> entry)"

definition views :: "kv_view \<Rightarrow> kv_transaction list \<Rightarrow> kv_view list" where
  "views m levels = fold (\<lambda>t ms. overlay (tx_writes t) (hd ms) # ms) levels [m]"

definition committed :: "kv_store \<Rightarrow> kv_view" where
  "committed kv = dict_get (sto_entries (kv_storage kv))"

definition own_ops :: "nat \<Rightarrow> kv_event list \<Rightarrow> (time \<times> kv_op) list" where
  "own_ops s evs = concat (map (\<lambda>ev. case ev of Kv_Do x now op \<Rightarrow> if x = s then [(now, op)] else [] | Kv_Purge _ \<Rightarrow> []) evs)"

definition own_answers :: "nat \<Rightarrow> (nat \<times> kv_answer) list \<Rightarrow> kv_answer list" where
  "own_answers s answers = map snd (filter (\<lambda>(x, _). x = s) answers)"

definition alone :: "nat \<Rightarrow> (time \<times> kv_op) list \<Rightarrow> kv_event list" where
  "alone s ops = map (\<lambda>(now, op). Kv_Do s now op) ops"

section \<open>What the parts of the state say of each other\<close>

lemma kv_stack_set [simp]: "kv_stack x (set_stack s levels kv) = (if x = s then levels else kv_stack x kv)"
  by (simp add: kv_stack_def set_stack_def)

lemma set_stack_fields [simp]:
  "kv_storage (set_stack s levels kv) = kv_storage kv" "kv_isolation (set_stack s levels kv) = kv_isolation kv"
  "kv_log (set_stack s levels kv) = kv_log kv"
  by (simp_all add: set_stack_def)

lemma kv_apply_fields [simp]:
  "kv_stack x (kv_apply ws kv) = kv_stack x kv" "kv_isolation (kv_apply ws kv) = kv_isolation kv"
  "kv_storage (kv_apply ws kv) = fold apply_write ws (kv_storage kv)"
  by (simp_all add: kv_apply_def kv_stack_def)

lemma overlay_Nil [simp]: "overlay [] m = m"
  by (simp add: overlay_def fun_eq_iff)

lemma overlay_set [simp]: "overlay (dict_set key entry ws) m = (overlay ws m)(key := entry)"
  by (auto simp: overlay_def fun_eq_iff)

lemma fold_update_get:
  "dict_ok ws \<Longrightarrow> dict_get (fold (\<lambda>(key, entry). dict_set key entry) ws d) k =
     (case dict_get ws k of None \<Rightarrow> dict_get d k | Some entry \<Rightarrow> Some entry)"
proof (induction ws arbitrary: d)
  case (Cons w ws)
  obtain key entry where w: "w = (key, entry)" by fastforce
  have ok: "dict_ok ws" and new: "dict_get ws key = None"
    using Cons.prems by (auto simp: w dict_ok_def dict_get_None)
  show ?case using Cons.IH [OF ok] new by (auto simp: w split: option.splits)
qed simp

lemma fold_update_ok: "dict_ok d \<Longrightarrow> dict_ok (fold (\<lambda>(key, entry). dict_set key entry) ws d)"
  by (induction ws arbitrary: d) auto

lemma tx_observe_writes [simp]: "tx_writes (tx_observe key version t) = tx_writes t"
  by (simp add: tx_observe_def split: option.splits)

lemma fold_observe_writes [simp]: "tx_writes (fold (\<lambda>(key, version). tx_observe key version) rs t) = tx_writes t"
  by (induction rs arbitrary: t) auto

lemma tx_observe_reads:
  "dict_get (tx_reads (tx_observe key version t)) k =
     (case dict_get (tx_reads t) k of None \<Rightarrow> (if k = key then Some version else None) | Some u \<Rightarrow> Some u)"
  by (auto simp: tx_observe_def split: option.splits)

lemma fold_observe_reads:
  "dict_get (tx_reads (fold (\<lambda>(key, version). tx_observe key version) rs t)) k =
     (case dict_get (tx_reads t) k of None \<Rightarrow> dict_get rs k | Some u \<Rightarrow> Some u)"
  by (induction rs arbitrary: t) (auto simp: tx_observe_reads split: option.splits)

lemma tx_observe_ok: "dict_ok (tx_reads t) \<Longrightarrow> dict_ok (tx_reads (tx_observe key version t))"
  by (simp add: tx_observe_def split: option.splits)

lemma fold_observe_ok:
  "dict_ok (tx_reads t) \<Longrightarrow> dict_ok (tx_reads (fold (\<lambda>(key, version). tx_observe key version) rs t))"
  by (induction rs arbitrary: t) (auto simp: tx_observe_ok)

lemma merge_writes: "tx_writes (tx_merge_into t p) = fold (\<lambda>(key, entry). dict_set key entry) (tx_writes t) (tx_writes p)"
  by (simp add: tx_merge_into_def)

lemma merge_reads:
  "dict_get (tx_reads (tx_merge_into t p)) k =
     (case dict_get (tx_reads p) k of None \<Rightarrow> dict_get (tx_reads t) k | Some u \<Rightarrow> Some u)"
  by (simp add: tx_merge_into_def fold_observe_reads)

lemma merge_overlay:
  "dict_ok (tx_writes t) \<Longrightarrow> overlay (tx_writes (tx_merge_into t p)) m = overlay (tx_writes t) (overlay (tx_writes p) m)"
  by (auto simp: overlay_def merge_writes fold_update_get fun_eq_iff split: option.splits)

lemma stage_fields [simp]:
  "tx_writes (tx_stage key entry t) = dict_set key entry (tx_writes t)" "tx_reads (tx_stage key entry t) = tx_reads t"
  by (simp_all add: tx_stage_def)

lemma tx_new_fields [simp]: "tx_writes (tx_new i) = []" "tx_reads (tx_new i) = []"
  by (simp_all add: tx_new_def)

lemma views_simps [simp]:
  "views m [] = [m]" "views m [t] = [overlay (tx_writes t) m, m]" "views m (ts @ [t]) = overlay (tx_writes t) (hd (views m ts)) # views m ts"
  by (simp_all add: views_def)

lemma views_ne [simp]: "views m ts \<noteq> []"
  by (cases ts rule: rev_cases) simp_all

lemma views_unfold: "views m ts = hd (views m ts) # tl (views m ts)"
  by simp

lemma stack_lookup_simps [simp]:
  "stack_lookup key [] = None"
  "stack_lookup key (ts @ [t]) = (case dict_get (tx_writes t) key of Some e \<Rightarrow> Some e | None \<Rightarrow> stack_lookup key ts)"
  by (simp_all add: stack_lookup_def tx_lookup_def split: option.splits)

lemma stack_lookup_view:
  "hd (views m ts) key = (case stack_lookup key ts of None \<Rightarrow> m key | Some entry \<Rightarrow> entry)"
  by (induction ts rule: rev_induct) (auto simp: overlay_def split: option.splits)

lemma sto_get_live: "sto_get key now sto = live now (dict_get (sto_entries sto) key)"
  by (simp add: sto_get_def live_def)

text \<open>A session reads the top of its maps.\<close>

lemma kv_read_view: "fst (kv_read s key now kv) = live now (hd (views (committed kv) (kv_stack s kv)) key)"
  by (simp add: kv_read_def Let_def stack_lookup_view committed_def sto_get_live live_def split: option.splits)

lemma kv_read_fields [simp]:
  "kv_storage (snd (kv_read s key now kv)) = kv_storage kv" "kv_isolation (snd (kv_read s key now kv)) = kv_isolation kv"
  "kv_log (snd (kv_read s key now kv)) = kv_log kv"
  "x \<noteq> s \<Longrightarrow> kv_stack x (snd (kv_read s key now kv)) = kv_stack x kv"
  by (simp_all add: kv_read_def Let_def split: option.splits)

lemma kv_read_stack:
  "kv_stack s (snd (kv_read s key now kv)) =
     (if kv_stack s kv = [] \<or> stack_lookup key (kv_stack s kv) \<noteq> None then kv_stack s kv
      else butlast (kv_stack s kv) @ [tx_observe key (sto_version key (kv_storage kv)) (List.last (kv_stack s kv))])"
  by (simp add: kv_read_def Let_def split: option.splits)

lemma kv_read_idle: "kv_stack s kv = [] \<Longrightarrow> snd (kv_read s key now kv) = kv"
  by (simp add: kv_read_def)

text \<open>One reading and one writing cover the operations on keys, in and out of a transaction.\<close>

lemma kv_incr_read_write:
  "kv_incr s key i now kv =
     (case kv_read s key now kv of (entry, kv1) \<Rightarrow>
        (case as_int entry of
           Inl e \<Rightarrow> (Inl e, kv1)
         | Inr n \<Rightarrow>
             (Inr (n + i),
              kv_write s key (Some \<lparr>ke_value = Int_Value (n + i), ke_expires_at = (case entry of None \<Rightarrow> None | Some e \<Rightarrow> ke_expires_at e)\<rparr>) kv1)))"
proof (cases "kv_stack s kv = []")
  case True
  then show ?thesis by (simp add: kv_incr_def Let_def kv_read_def kv_write_def split: sum.splits)
next
  case False
  then show ?thesis by (simp add: kv_incr_def Let_def)
qed

section \<open>The storage moves forward\<close>

text \<open>A version never falls, and a key whose version stands still holds what it held.\<close>

definition advances :: "kv_storage \<Rightarrow> kv_storage \<Rightarrow> bool" where
  "advances sto sto1 \<longleftrightarrow>
     (\<forall>k. sto_version k sto \<le> sto_version k sto1 \<and>
          (sto_version k sto = sto_version k sto1 \<longrightarrow> dict_get (sto_entries sto1) k = dict_get (sto_entries sto) k))"

lemma advances_refl [simp]: "advances sto sto"
  by (simp add: advances_def)

lemma advances_trans: "advances a b \<Longrightarrow> advances b c \<Longrightarrow> advances a c"
  unfolding advances_def by (metis order_trans antisym)

lemma sto_version_set [simp]: "sto_version k (sto_set key e sto) = (if k = key then sto_version k sto + 1 else sto_version k sto)"
  by (simp add: sto_version_def sto_set_def)

lemma sto_entries_set [simp]: "sto_entries (sto_set key e sto) = dict_set key e (sto_entries sto)"
  by (simp add: sto_set_def)

lemma sto_version_delete:
  "sto_version k (snd (sto_delete key sto)) =
     (if k = key \<and> dict_get (sto_entries sto) key \<noteq> None then sto_version k sto + 1 else sto_version k sto)"
  by (auto simp: sto_version_def sto_delete_def split: option.splits)

lemma sto_entries_delete [simp]: "dict_get (sto_entries (snd (sto_delete key sto))) k = (if k = key then None else dict_get (sto_entries sto) k)"
  by (simp add: sto_delete_def split: option.splits)

lemma sto_delete_ok: "dict_ok (sto_entries sto) \<Longrightarrow> dict_ok (sto_entries (snd (sto_delete key sto)))"
  by (simp add: sto_delete_def split: option.splits)

lemma advances_delete: "advances sto (snd (sto_delete key sto))"
  by (auto simp: advances_def sto_version_delete)

lemma advances_write: "advances sto (apply_write w sto)"
proof -
  have "advances sto (sto_set key e sto)" for key e by (simp add: advances_def)
  then show ?thesis by (cases w) (simp add: apply_write_def advances_delete split: option.split)
qed

lemma advances_fold: "(\<And>x sto. advances sto (f x sto)) \<Longrightarrow> advances sto (fold f xs sto)"
proof (induction xs arbitrary: sto)
  case (Cons x xs)
  show ?case using advances_trans [OF Cons.prems Cons.IH [OF Cons.prems]] by simp
qed simp

lemma advances_purge: "advances sto (snd (sto_purge now sto))"
  by (simp add: sto_purge_def Let_def advances_fold advances_delete)

lemma apply_write_get: "dict_get (sto_entries (apply_write (key, entry) sto)) = (dict_get (sto_entries sto))(key := entry)"
  by (auto simp: apply_write_def fun_eq_iff split: option.splits)

lemma apply_write_ok: "dict_ok (sto_entries sto) \<Longrightarrow> dict_ok (sto_entries (apply_write w sto))"
  by (cases w) (auto simp: apply_write_def sto_delete_ok split: option.splits)

lemma fold_ok: "(\<And>x sto. dict_ok (sto_entries sto) \<Longrightarrow> dict_ok (sto_entries (f x sto))) \<Longrightarrow>
    dict_ok (sto_entries sto) \<Longrightarrow> dict_ok (sto_entries (fold f xs sto))"
  by (induction xs arbitrary: sto) auto

lemma sto_purge_ok: "dict_ok (sto_entries sto) \<Longrightarrow> dict_ok (sto_entries (snd (sto_purge now sto)))"
  by (simp add: sto_purge_def Let_def fold_ok sto_delete_ok)

lemma fold_write_get:
  "dict_ok ws \<Longrightarrow> dict_get (sto_entries (fold apply_write ws sto)) = overlay ws (dict_get (sto_entries sto))"
proof (induction ws arbitrary: sto)
  case (Cons w ws)
  obtain key entry where w: "w = (key, entry)" by fastforce
  have ok: "dict_ok ws" and new: "dict_get ws key = None"
    using Cons.prems by (auto simp: w dict_ok_def dict_get_None)
  show ?case unfolding w fold.simps comp_apply Cons.IH [OF ok] apply_write_get
    using new by (auto simp: overlay_def fun_eq_iff split: option.splits)
qed simp

section \<open>Well-formed stores\<close>

definition stack_ok :: "kv_storage \<Rightarrow> kv_transaction list \<Rightarrow> bool" where
  "stack_ok sto levels \<longleftrightarrow>
     (\<forall>t \<in> set levels. dict_ok (tx_writes t) \<and> dict_ok (tx_reads t) \<and>
        (\<forall>k v. dict_get (tx_reads t) k = Some v \<longrightarrow> v \<le> sto_version k sto)) \<and>
     sorted_wrt (\<lambda>t t'. \<forall>k u v. dict_get (tx_reads t) k = Some u \<longrightarrow> dict_get (tx_reads t') k = Some v \<longrightarrow> u \<le> v) levels"

definition kv_wf :: "kv_store \<Rightarrow> bool" where
  "kv_wf kv \<longleftrightarrow> dict_ok (sto_entries (kv_storage kv)) \<and> (\<forall>s. stack_ok (kv_storage kv) (kv_stack s kv))"

lemma stack_ok_Nil [simp]: "stack_ok sto []"
  by (simp add: stack_ok_def)

lemma stack_ok_snoc:
  "stack_ok sto (ts @ [t]) \<longleftrightarrow>
     stack_ok sto ts \<and> dict_ok (tx_writes t) \<and> dict_ok (tx_reads t) \<and>
     (\<forall>k v. dict_get (tx_reads t) k = Some v \<longrightarrow> v \<le> sto_version k sto) \<and>
     (\<forall>p \<in> set ts. \<forall>k u v. dict_get (tx_reads p) k = Some u \<longrightarrow> dict_get (tx_reads t) k = Some v \<longrightarrow> u \<le> v)"
  by (auto simp: stack_ok_def sorted_wrt_append)

lemma stack_ok_advances: "stack_ok sto ts \<Longrightarrow> advances sto sto1 \<Longrightarrow> stack_ok sto1 ts"
  unfolding stack_ok_def advances_def by (meson order_trans)

lemma stack_ok_reads:
  "stack_ok sto ts \<Longrightarrow> p \<in> set ts \<Longrightarrow> dict_get (tx_reads p) k = Some u \<Longrightarrow> u \<le> sto_version k sto"
  by (simp add: stack_ok_def)

lemma stack_ok_observe:
  assumes "stack_ok sto (ts @ [t])"
  shows "stack_ok sto (ts @ [tx_observe key (sto_version key sto) t])"
  using assms stack_ok_reads [OF assms]
  by (auto simp: stack_ok_snoc tx_observe_reads tx_observe_ok split: option.splits if_splits)

lemma stack_ok_stage: "stack_ok sto (ts @ [t]) \<Longrightarrow> stack_ok sto (ts @ [tx_stage key entry t])"
  by (simp add: stack_ok_snoc)

lemma stack_ok_begin: "stack_ok sto ts \<Longrightarrow> stack_ok sto (ts @ [tx_new i])"
  by (simp add: stack_ok_snoc)

lemma stack_ok_merge:
  assumes "stack_ok sto (ts @ [p, t])"
  shows "stack_ok sto (ts @ [tx_merge_into t p])"
proof -
  have "stack_ok sto ((ts @ [p]) @ [t])" using assms by simp
  then show ?thesis
    unfolding stack_ok_snoc merge_reads
    by (auto simp: merge_writes tx_merge_into_def fold_update_ok fold_observe_ok split: option.splits)
qed

text \<open>What an operation of a session leaves alone, and what it keeps.\<close>

definition steps_well :: "nat \<Rightarrow> kv_store \<Rightarrow> kv_store \<Rightarrow> bool" where
  "steps_well s kv kv1 \<longleftrightarrow>
     advances (kv_storage kv) (kv_storage kv1) \<and> kv_isolation kv1 = kv_isolation kv \<and>
     (\<forall>x. x \<noteq> s \<longrightarrow> kv_stack x kv1 = kv_stack x kv) \<and> (kv_wf kv \<longrightarrow> kv_wf kv1)"

lemma steps_wellI:
  assumes "advances (kv_storage kv) (kv_storage kv1)" and "kv_isolation kv1 = kv_isolation kv"
    and "\<And>x. x \<noteq> s \<Longrightarrow> kv_stack x kv1 = kv_stack x kv"
    and "kv_wf kv \<Longrightarrow> dict_ok (sto_entries (kv_storage kv1))"
    and "kv_wf kv \<Longrightarrow> stack_ok (kv_storage kv) (kv_stack s kv1)"
  shows "steps_well s kv kv1"
  using assms stack_ok_advances [OF _ assms(1)] unfolding steps_well_def kv_wf_def by metis

lemma steps_well_refl [simp]: "steps_well s kv kv"
  by (simp add: steps_well_def)

lemma steps_well_trans: "steps_well s a b \<Longrightarrow> steps_well s b c \<Longrightarrow> steps_well s a c"
  unfolding steps_well_def using advances_trans by metis

lemma kv_wf_parts: "kv_wf kv \<Longrightarrow> dict_ok (sto_entries (kv_storage kv))" "kv_wf kv \<Longrightarrow> stack_ok (kv_storage kv) (kv_stack s kv)"
  by (simp_all add: kv_wf_def)

lemma stack_snoc: "levels \<noteq> [] \<Longrightarrow> \<exists>ts t. levels = ts @ [t]"
  by (metis append_butlast_last_id)

lemma kv_read_well: "steps_well s kv (snd (kv_read s key now kv))"
proof (rule steps_wellI)
  assume wf: "kv_wf kv"
  show "stack_ok (kv_storage kv) (kv_stack s (snd (kv_read s key now kv)))"
  proof (cases "kv_stack s kv = []")
    case False
    then obtain ts t where "kv_stack s kv = ts @ [t]" by (metis stack_snoc)
    then show ?thesis using kv_wf_parts(2) [OF wf, of s] by (simp add: kv_read_stack stack_ok_observe)
  qed (simp add: kv_read_stack)
qed (simp_all add: kv_wf_parts)

lemma kv_write_well: "steps_well s kv (kv_write s key entry kv)"
proof (cases "kv_stack s kv = []")
  case True
  then show ?thesis
    by (intro steps_wellI) (simp_all add: kv_write_def advances_write apply_write_ok kv_wf_parts)
next
  case False
  then obtain ts t where "kv_stack s kv = ts @ [t]" by (metis stack_snoc)
  then show ?thesis
    using kv_wf_parts(2) [of kv s] by (intro steps_wellI) (simp_all add: kv_write_def stack_ok_stage kv_wf_parts)
qed

lemma kv_read_write_well: "steps_well s kv (kv_write s key entry (snd (kv_read s key now kv)))"
  by (rule steps_well_trans [OF kv_read_well kv_write_well])

lemma kv_begin_well: "steps_well s kv (snd (kv_begin s kv))"
proof (rule steps_wellI)
  have st: "kv_stack x (kv\<lparr>kv_ids := ids\<rparr>) = kv_stack x kv" for x ids by (simp add: kv_stack_def)
  show "stack_ok (kv_storage kv) (kv_stack s (snd (kv_begin s kv)))" if "kv_wf kv"
    using kv_wf_parts(2) [OF that, of s] by (simp add: kv_begin_def split_beta stack_ok_begin)
  show "kv_stack x (snd (kv_begin s kv)) = kv_stack x kv" if "x \<noteq> s" for x
    using that by (simp add: kv_begin_def split_beta st)
qed (simp_all add: kv_begin_def split_beta kv_wf_parts)

lemma kv_rollback_well: "steps_well s kv (snd (kv_rollback s kv))"
proof (cases "kv_stack s kv = []")
  case False
  then obtain ts t where "kv_stack s kv = ts @ [t]" by (metis stack_snoc)
  then show ?thesis
    using kv_wf_parts(2) [of kv s] by (intro steps_wellI) (simp_all add: kv_rollback_def stack_ok_snoc kv_wf_parts)
qed (simp add: kv_rollback_def)

text \<open>The three outcomes of a commit.\<close>

lemma kv_commit_cases:
  shows "kv_stack s kv = [] \<Longrightarrow> kv_commit s kv = (Inl InvalidStateError, kv)"
    and "kv_stack s kv = ts @ [p, t] \<Longrightarrow> kv_commit s kv = (Inr (tx_id t), set_stack s (ts @ [tx_merge_into t p]) (set_stack s (ts @ [p]) kv))"
    and "kv_stack s kv = [t] \<Longrightarrow>
      kv_commit s kv = (case validate (kv_isolation kv) t (kv_storage kv) of
        Inl e \<Rightarrow> (Inl e, set_stack s [] kv) | Inr _ \<Rightarrow> (Inr (tx_id t), kv_apply (tx_writes t) (set_stack s [] kv)))"
  by (simp_all add: kv_commit_def Let_def butlast_append split: sum.splits)

lemma levels_cases:
  obtains "levels = []" | t where "levels = [t]" | ts p t where "levels = ts @ [p, t]"
proof (cases levels rule: rev_cases)
  case (snoc ts t)
  then show ?thesis using that by (cases ts rule: rev_cases) auto
qed (use that in auto)

lemma kv_commit_well: "steps_well s kv (snd (kv_commit s kv))"
proof (cases "kv_stack s kv" rule: levels_cases)
  case 1
  then show ?thesis by (simp add: kv_commit_cases)
next
  case (2 t)
  then show ?thesis
    by (intro steps_wellI)
      (auto simp: kv_commit_cases(3) advances_fold advances_write kv_wf_parts fold_ok apply_write_ok split: sum.splits)
next
  case (3 ts p t)
  then show ?thesis
    using kv_wf_parts(2) [of kv s]
    by (intro steps_wellI) (simp_all add: kv_commit_cases(2) stack_ok_merge kv_wf_parts)
qed

lemma kv_do_well: "steps_well s kv (snd (kv_do s now op kv))"
proof (cases op)
  case (Op_Set key val ttl)
  then show ?thesis by (simp add: answer_def kv_set_def kv_write_well)
next
  case (Op_Delete key)
  then show ?thesis
    by (simp add: kv_delete_def split_beta kv_read_write_well)
next
  case (Op_Incr key i)
  then show ?thesis
    by (simp add: answer_def kv_incr_read_write split_beta kv_read_well kv_read_write_well split: sum.split)
qed (simp_all add: answer_def kv_get_def kv_exists_def split_beta kv_read_well kv_begin_well kv_commit_well kv_rollback_well)

lemma kv_purge_fields [simp]:
  "kv_stack x (snd (kv_purge_expired now kv)) = kv_stack x kv" "kv_isolation (snd (kv_purge_expired now kv)) = kv_isolation kv"
  "kv_storage (snd (kv_purge_expired now kv)) = snd (sto_purge now (kv_storage kv))"
  "kv_log (snd (kv_purge_expired now kv)) = kv_log kv"
  by (simp_all add: kv_purge_expired_def split_beta kv_stack_def)

lemma kv_purge_wf: "kv_wf kv \<Longrightarrow> kv_wf (snd (kv_purge_expired now kv))"
  using stack_ok_advances [OF _ advances_purge] by (simp add: kv_wf_def sto_purge_ok)

lemma kv_run_simps:
  "kv_run (Kv_Do s now op # evs) kv =
     ((s, fst (kv_do s now op kv)) # fst (kv_run evs (snd (kv_do s now op kv))), snd (kv_run evs (snd (kv_do s now op kv))))"
  by (simp add: split_beta apfst_def map_prod_def)

declare kv_run.simps(2) [simp del]
declare kv_run_simps [simp]

lemma kv_run_well:
  "kv_wf kv \<Longrightarrow>
     kv_wf (snd (kv_run evs kv)) \<and> advances (kv_storage kv) (kv_storage (snd (kv_run evs kv))) \<and>
     kv_isolation (snd (kv_run evs kv)) = kv_isolation kv"
proof (induction evs arbitrary: kv)
  case (Cons ev evs)
  show ?case
  proof (cases ev)
    case (Kv_Do s now op)
    have w: "steps_well s kv (snd (kv_do s now op kv))" by (rule kv_do_well)
    then have "kv_wf (snd (kv_do s now op kv))" using Cons.prems by (simp add: steps_well_def)
    from Cons.IH [OF this] w show ?thesis by (auto simp: Kv_Do steps_well_def intro: advances_trans)
  next
    case (Kv_Purge now)
    from Cons.IH [OF kv_purge_wf [OF Cons.prems]] show ?thesis
      by (auto simp: Kv_Purge intro: advances_trans [OF advances_purge])
  qed
qed simp

lemma kv_new_wf [simp]: "kv_wf (kv_new policy l)"
  by (simp add: kv_wf_def kv_new_def sto_new_def kv_stack_def)

lemma kv_new_fields [simp]: "kv_stack s (kv_new policy l) = []" "kv_isolation (kv_new policy l) = policy" "kv_log (kv_new policy l) = l"
  by (simp_all add: kv_new_def kv_stack_def)

section \<open>A session alone is a stack of whole maps\<close>

lemma sorted_items:
  assumes "dict_ok d"
  shows "sort_key fst d = map (\<lambda>k. (k, the (dict_get d k))) (sorted_list_of_set {k. dict_get d k \<noteq> None})"
proof -
  have eq: "sort_key fst d = map (\<lambda>k. (k, the (dict_get d k))) (map fst (sort_key fst d))"
    unfolding map_map by (rule map_idI [symmetric]) (auto simp: dict_get_mem [OF assms])
  have dist: "distinct (map fst (sort_key fst d))"
    using assms by (simp add: dict_ok_def distinct_map)
  have "{k. dict_get d k \<noteq> None} = set (map fst (sort_key fst d))"
    by (auto simp: dict_get_None)
  then have "sorted_list_of_set {k. dict_get d k \<noteq> None} = map fst (sort_key fst d)"
    using sorted_list_of_set.idem_if_sorted_distinct [OF sorted_sort_key dist] by simp
  with eq show ?thesis by simp
qed

lemma filter_get:
  "dict_ok d \<Longrightarrow> dict_get (filter P d) k = (case dict_get d k of None \<Rightarrow> None | Some e \<Rightarrow> if P (k, e) then Some e else None)"
proof (induction d)
  case (Cons x d)
  obtain key e where x: "x = (key, e)" by fastforce
  have ok: "dict_ok d" and new: "dict_get d key = None"
    using Cons.prems by (auto simp: x dict_ok_def dict_get_None)
  show ?case using Cons.IH [OF ok] new by (auto simp: x)
qed simp

lemma layer_write_get:
  "dict_get (layer_write p now (key, entry) d) k = (if k = key \<and> starts_with p k then live now entry else dict_get d k)"
  by (auto simp: layer_write_def live_def split: option.splits)

lemma layer_write_ok: "dict_ok d \<Longrightarrow> dict_ok (layer_write p now w d)"
  by (cases w) (simp add: layer_write_def split: option.splits)

lemma layer_level_get:
  "dict_ok ws \<Longrightarrow> dict_get (fold (layer_write p now) ws d) k =
     (case dict_get ws k of None \<Rightarrow> dict_get d k | Some entry \<Rightarrow> if starts_with p k then live now entry else dict_get d k)"
proof (induction ws arbitrary: d)
  case (Cons w ws)
  obtain key entry where w: "w = (key, entry)" by fastforce
  have ok: "dict_ok ws" and new: "dict_get ws key = None"
    using Cons.prems by (auto simp: w dict_ok_def dict_get_None)
  show ?case using Cons.IH [OF ok] new by (auto simp: w layer_write_get split: option.splits)
qed simp

lemma layer_levels_ok: "dict_ok d \<Longrightarrow> dict_ok (fold (\<lambda>t. fold (layer_write p now) (tx_writes t)) levels d)"
proof (induction levels arbitrary: d)
  case (Cons t levels)
  have "dict_ok (fold (layer_write p now) ws d)" if "dict_ok d" for ws d
    using that by (induction ws arbitrary: d) (simp_all add: layer_write_ok)
  with Cons show ?case by simp
qed simp

lemma layer_levels_get:
  "stack_ok sto levels \<Longrightarrow> dict_get (fold (\<lambda>t. fold (layer_write p now) (tx_writes t)) levels d) k =
     (case stack_lookup k levels of None \<Rightarrow> dict_get d k | Some entry \<Rightarrow> if starts_with p k then live now entry else dict_get d k)"
  by (induction levels rule: rev_induct) (simp_all add: stack_ok_snoc layer_level_get split: option.split)

lemma kv_visible_get:
  assumes "kv_wf kv"
  shows "dict_get (kv_visible s p now kv) k =
    (if starts_with p k then live now (hd (views (committed kv) (kv_stack s kv)) k) else None)"
  using assms stack_lookup_view [of "committed kv" "kv_stack s kv" k]
  by (auto simp: kv_visible_def layer_levels_get [OF kv_wf_parts(2)] filter_get kv_wf_parts sto_snapshot_def committed_def
      live_def split: option.splits)

lemma kv_visible_ok: "kv_wf kv \<Longrightarrow> dict_ok (kv_visible s p now kv)"
  by (simp add: kv_visible_def layer_levels_ok sto_snapshot_def kv_wf_parts)

lemma kv_scan_view:
  assumes "kv_wf kv"
  shows "kv_scan s p now kv = view_scan p now (hd (views (committed kv) (kv_stack s kv)))"
proof -
  let ?m = "hd (views (committed kv) (kv_stack s kv))"
  have dom: "{k. dict_get (kv_visible s p now kv) k \<noteq> None} = {k. starts_with p k \<and> live now (?m k) \<noteq> None}"
    by (auto simp: kv_visible_get [OF assms])
  have fin: "finite {k. starts_with p k \<and> live now (?m k) \<noteq> None}"
    unfolding dom [symmetric] using finite_dom_map_of by (simp add: dom_def)
  have val: "ke_value (the (dict_get (kv_visible s p now kv) k)) = ke_value (the (?m k))"
    if "starts_with p k \<and> live now (?m k) \<noteq> None" for k
    using that by (auto simp: kv_visible_get [OF assms] live_def split: option.splits if_splits)
  show ?thesis
    unfolding kv_scan_def sorted_items [OF kv_visible_ok [OF assms]] dom view_scan_def
    using val fin by (simp add: split_beta)
qed

text \<open>No other session has committed since: every recorded version is the current one.\<close>

definition reads_current :: "nat \<Rightarrow> kv_store \<Rightarrow> bool" where
  "reads_current s kv \<longleftrightarrow>
     (\<forall>t \<in> set (kv_stack s kv). \<forall>k v. dict_get (tx_reads t) k = Some v \<longrightarrow> sto_version k (kv_storage kv) = v)"

abbreviation own_views :: "nat \<Rightarrow> kv_store \<Rightarrow> kv_view list" where
  "own_views s kv \<equiv> views (committed kv) (kv_stack s kv)"

lemma kv_read_views: "own_views s (snd (kv_read s key now kv)) = own_views s kv"
proof (cases "kv_stack s kv = []")
  case False
  then obtain ts t where "kv_stack s kv = ts @ [t]" by (metis stack_snoc)
  then show ?thesis by (simp add: kv_read_stack committed_def)
qed (simp add: kv_read_idle)

lemma kv_read_current: "reads_current s kv \<Longrightarrow> reads_current s (snd (kv_read s key now kv))"
proof (cases "kv_stack s kv = []")
  case False
  assume *: "reads_current s kv"
  from False obtain ts t where "kv_stack s kv = ts @ [t]" by (metis stack_snoc)
  with * show ?thesis by (auto simp: reads_current_def kv_read_stack tx_observe_reads split: option.splits if_splits)
qed (simp add: kv_read_idle)

lemma kv_write_views: "own_views s (kv_write s key entry kv) = (hd (own_views s kv))(key := entry) # tl (own_views s kv)"
proof (cases "kv_stack s kv = []")
  case True
  then show ?thesis by (simp add: kv_write_def committed_def apply_write_get)
next
  case False
  then obtain ts t where "kv_stack s kv = ts @ [t]" by (metis stack_snoc)
  then show ?thesis by (simp add: kv_write_def committed_def)
qed

lemma kv_write_current: "reads_current s kv \<Longrightarrow> reads_current s (kv_write s key entry kv)"
proof (cases "kv_stack s kv = []")
  case False
  assume *: "reads_current s kv"
  from False obtain ts t where "kv_stack s kv = ts @ [t]" by (metis stack_snoc)
  with * show ?thesis by (simp add: reads_current_def kv_write_def)
qed (simp add: reads_current_def kv_write_def)

lemma validate_current:
  assumes "dict_ok (tx_reads t)"
  shows "validate Optimistic_Isolation t sto = Inr () \<longleftrightarrow>
    (\<forall>k v. dict_get (tx_reads t) k = Some v \<longrightarrow> sto_version k sto = v)"
  unfolding dict_get_mem [OF assms, symmetric] by auto

lemma validate_passes:
  assumes "dict_ok (tx_reads t)" and "\<And>k v. dict_get (tx_reads t) k = Some v \<Longrightarrow> sto_version k sto = v"
  shows "validate policy t sto = Inr ()"
  using assms by (cases policy) (auto simp: dict_get_mem)

lemma kv_begin_step: "fst (kv_do s now Op_Begin kv) = Ans_Done \<and> kv_storage (snd (kv_do s now Op_Begin kv)) = kv_storage kv \<and>
    (\<exists>i. kv_stack s (snd (kv_do s now Op_Begin kv)) = kv_stack s kv @ [tx_new i])"
  by (simp add: kv_begin_def split_beta) blast

lemma lone_commit:
  assumes "kv_wf kv" and "reads_current s kv"
  shows "view_do now Op_Commit (own_views s kv) =
      (fst (kv_do s now Op_Commit kv), own_views s (snd (kv_do s now Op_Commit kv))) \<and>
    reads_current s (snd (kv_do s now Op_Commit kv))"
proof (cases "kv_stack s kv" rule: levels_cases)
  case 1
  then show ?thesis using assms by (simp add: kv_commit_cases(1) answer_def)
next
  case (2 t)
  have ok: "dict_ok (tx_writes t)" "dict_ok (tx_reads t)"
    using kv_wf_parts(2) [OF assms(1), of s] 2 by (simp_all add: stack_ok_def)
  have "validate (kv_isolation kv) t (kv_storage kv) = Inr ()"
    using assms(2) 2 by (intro validate_passes ok) (simp add: reads_current_def)
  then have "kv_commit s kv = (Inr (tx_id t), kv_apply (tx_writes t) (set_stack s [] kv))"
    using kv_commit_cases(3) [OF 2] by simp
  then show ?thesis using 2 ok by (simp add: answer_def committed_def fold_write_get reads_current_def)
next
  case (3 ts p t)
  have ok: "dict_ok (tx_writes t)"
    using kv_wf_parts(2) [OF assms(1), of s] 3 by (simp add: stack_ok_def)
  have v: "own_views s kv = views (committed kv) ((ts @ [p]) @ [t])" using 3 by simp
  have c: "kv_do s now Op_Commit kv = (Ans_Done, set_stack s (ts @ [tx_merge_into t p]) (set_stack s (ts @ [p]) kv))"
    using kv_commit_cases(2) [OF 3] by (simp add: answer_def)
  have "reads_current s (snd (kv_do s now Op_Commit kv))"
    using assms(2) 3 unfolding c by (auto simp: reads_current_def merge_reads split: option.splits)
  moreover have "view_do now Op_Commit (own_views s kv) = (fst (kv_do s now Op_Commit kv), own_views s (snd (kv_do s now Op_Commit kv)))"
    unfolding c v views_simps(3) by (simp add: merge_overlay ok committed_def)
  ultimately show ?thesis by simp
qed

lemma lone_rollback:
  assumes "reads_current s kv"
  shows "view_do now Op_Rollback (own_views s kv) =
      (fst (kv_do s now Op_Rollback kv), own_views s (snd (kv_do s now Op_Rollback kv))) \<and>
    reads_current s (snd (kv_do s now Op_Rollback kv))"
proof (cases "kv_stack s kv = []")
  case False
  then obtain ts t where ts: "kv_stack s kv = ts @ [t]" by (metis stack_snoc)
  have c: "kv_do s now Op_Rollback kv = (Ans_Done, set_stack s ts kv)" using ts by (simp add: kv_rollback_def answer_def)
  show ?thesis
    using assms ts views_unfold [of "committed kv" ts] unfolding c
    by (auto simp: reads_current_def committed_def split: list.split)
qed (use assms in \<open>simp add: kv_rollback_def answer_def\<close>)

lemma lone_step:
  assumes "kv_wf kv" and "reads_current s kv"
  shows "view_do now op (own_views s kv) = (fst (kv_do s now op kv), own_views s (snd (kv_do s now op kv)))"
    and "reads_current s (snd (kv_do s now op kv))"
proof -
  obtain m ms where v: "own_views s kv = m # ms" by (metis views_unfold)
  have r: "fst (kv_read s key now kv) = live now (m key)" for key by (simp add: kv_read_view v)
  have rv: "own_views s (snd (kv_read s key now kv)) = m # ms" for key by (simp add: kv_read_views v)
  have wv: "own_views s (kv_write s key entry kv') = m(key := entry) # ms" if "own_views s kv' = m # ms" for key entry kv'
    by (simp add: kv_write_views that)
  note current = kv_read_current [OF assms(2)] kv_write_current [OF kv_read_current [OF assms(2)]] kv_write_current [OF assms(2)]
  have "view_do now op (own_views s kv) = (fst (kv_do s now op kv), own_views s (snd (kv_do s now op kv))) \<and>
    reads_current s (snd (kv_do s now op kv))"
  proof (cases op)
    case (Op_Get key)
    show ?thesis by (auto simp: Op_Get v kv_get_def split_beta r rv current split: option.split)
  next
    case (Op_Exists key)
    show ?thesis by (simp add: Op_Exists v kv_exists_def split_beta r rv current)
  next
    case (Op_Set key val ttl)
    show ?thesis using assms(2) by (auto simp: Op_Set v answer_def kv_set_def wv current split: option.split)
  next
    case (Op_Delete key)
    show ?thesis by (simp add: Op_Delete v kv_delete_def split_beta r wv [OF rv] current)
  next
    case (Op_Incr key i)
    show ?thesis unfolding Op_Incr v
      by (simp add: answer_def kv_incr_read_write split_beta r rv wv [OF rv] current as_int_def split: option.split kv_value.split)
  next
    case (Op_Scan p)
    show ?thesis using assms by (simp add: Op_Scan v kv_scan_view)
  next
    case Op_Begin
    obtain i where "kv_stack s (snd (kv_do s now Op_Begin kv)) = kv_stack s kv @ [tx_new i]" using kv_begin_step by blast
    then show ?thesis unfolding Op_Begin
      using kv_begin_step [of s now kv] assms(2) v by (simp add: reads_current_def committed_def)
  next
    case Op_Commit
    show ?thesis unfolding Op_Commit by (rule lone_commit [OF assms])
  next
    case Op_Rollback
    show ?thesis unfolding Op_Rollback by (rule lone_rollback [OF assms(2)])
  qed
  then show "view_do now op (own_views s kv) = (fst (kv_do s now op kv), own_views s (snd (kv_do s now op kv)))"
    and "reads_current s (snd (kv_do s now op kv))" by simp_all
qed

lemma own_answers_simps [simp]:
  "own_answers s [] = []" "own_answers s ((x, a) # as) = (if x = s then a # own_answers s as else own_answers s as)"
  by (simp_all add: own_answers_def)

lemma own_ops_simps [simp]:
  "own_ops s [] = []"
  "own_ops s (Kv_Do x now op # evs) = (if x = s then (now, op) # own_ops s evs else own_ops s evs)"
  "own_ops s (Kv_Purge now # evs) = own_ops s evs"
  by (simp_all add: own_ops_def)

lemma alone_simps [simp]: "alone s [] = []" "alone s ((now, op) # ops) = Kv_Do s now op # alone s ops"
  by (simp_all add: alone_def)

lemma lone_run:
  "kv_wf kv \<Longrightarrow> reads_current s kv \<Longrightarrow>
     view_run ops (own_views s kv) = (own_answers s (fst (kv_run (alone s ops) kv)), own_views s (snd (kv_run (alone s ops) kv)))"
proof (induction ops arbitrary: kv)
  case (Cons x ops)
  obtain now op where x: "x = (now, op)" by fastforce
  have wf: "kv_wf (snd (kv_do s now op kv))" using kv_do_well Cons.prems(1) unfolding steps_well_def by blast
  show ?case
    using Cons.IH [OF wf lone_step(2) [OF Cons.prems]] by (simp add: x lone_step(1) [OF Cons.prems])
qed simp

text \<open>C16. A session that works while the others wait answers as a stack of whole maps: a read sees the innermost map, begin
  copies it, rollback drops the copy, and a commit puts it in the place of the one below, which for the outermost is what
  the store holds for everyone. This holds after any history, under either isolation policy, with expiry judged at the
  reading of the clock of each operation.
\<close>
theorem session_is_stack_of_maps:
  assumes "kv = snd (kv_run history (kv_new policy l))" and "kv_stack s kv = []"
  shows "view_run ops [committed kv] =
    (own_answers s (fst (kv_run (alone s ops) kv)), own_views s (snd (kv_run (alone s ops) kv)))"
proof -
  have "kv_wf kv" using kv_run_well [OF kv_new_wf] unfolding assms(1) by blast
  from lone_run [OF this, of s ops] show ?thesis using assms(2) by (simp add: reads_current_def)
qed

lemma session_is_stack_of_maps_witness:
  "own_answers 2 (fst (kv_run (alone 2 [(1, Op_Begin), (1, Op_Incr ''a'' 2), (1, Op_Begin), (2, Op_Delete ''a''), (3, Op_Rollback),
       (3, Op_Commit), (4, Op_Get ''a'')])
     (snd (kv_run [Kv_Do 1 0 (Op_Set ''a'' (Int_Value 5) None)] (kv_new Optimistic_Isolation Null_Log))))) =
   [Ans_Done, Ans_Int 7, Ans_Done, Ans_Bool True, Ans_Done, Ans_Done, Ans_Value (Some (Int_Value 7))]"
proof -
  let ?kv = "snd (kv_run [Kv_Do 1 0 (Op_Set ''a'' (Int_Value 5) None)] (kv_new Optimistic_Isolation Null_Log))"
  let ?ops = "[(1, Op_Begin), (1, Op_Incr ''a'' 2), (1, Op_Begin), (2, Op_Delete ''a''), (3, Op_Rollback),
       (3, Op_Commit), (4, Op_Get ''a'')]"
  have idle: "kv_stack 2 ?kv = []"
    by (simp add: kv_set_def kv_write_def answer_def)
  have held: "committed ?kv = [''a'' \<mapsto> \<lparr>ke_value = Int_Value 5, ke_expires_at = None\<rparr>]"
    by (simp add: kv_set_def kv_write_def answer_def committed_def apply_write_def) (simp add: kv_new_def sto_new_def)
  have "fst (view_run ?ops [committed ?kv]) =
      [Ans_Done, Ans_Int 7, Ans_Done, Ans_Bool True, Ans_Done, Ans_Done, Ans_Value (Some (Int_Value 7))]"
    unfolding held by (simp add: live_def ke_is_expired_def)
  then show ?thesis unfolding session_is_stack_of_maps [OF refl idle] fst_conv .
qed

section \<open>Transactions among other sessions\<close>

text \<open>
  What a transaction does between its outermost begin and commit, with the depth of its savepoints. Scans and rollbacks
  are left out: they are what the recorded reads do not cover.
\<close>

fun inner_op :: "nat \<Rightarrow> kv_op \<Rightarrow> nat option" where
  "inner_op n Op_Begin = Some (Suc n)"
| "inner_op n Op_Commit = (case n of 0 \<Rightarrow> None | Suc m \<Rightarrow> Some m)"
| "inner_op n Op_Rollback = None"
| "inner_op n (Op_Scan p) = None"
| "inner_op n op = Some n"

fun nest :: "nat \<Rightarrow> (time \<times> kv_op) list \<Rightarrow> nat option" where
  "nest n [] = Some n"
| "nest n ((now, op) # ops) = (case inner_op n op of None \<Rightarrow> None | Some m \<Rightarrow> nest m ops)"

fun op_key :: "kv_op \<Rightarrow> string option" where
  "op_key (Op_Get key) = Some key"
| "op_key (Op_Exists key) = Some key"
| "op_key (Op_Delete key) = Some key"
| "op_key (Op_Incr key i) = Some key"
| "op_key op = None"

definition agree :: "(string \<Rightarrow> int) \<Rightarrow> kv_transaction list \<Rightarrow> bool" where
  "agree vf levels \<longleftrightarrow> (\<forall>t \<in> set levels. \<forall>k v. dict_get (tx_reads t) k = Some v \<longrightarrow> v = vf k)"

definition write_sets :: "nat \<Rightarrow> kv_store \<Rightarrow> (string, kv_entry option) dict list" where
  "write_sets s kv = map tx_writes (kv_stack s kv)"

lemma stack_lookup_cong: "map tx_writes ts = map tx_writes us \<Longrightarrow> stack_lookup key ts = stack_lookup key us"
proof (induction ts arbitrary: us rule: rev_induct)
  case (snoc t ts)
  then obtain u us' where "us = us' @ [u]" by (cases us rule: rev_cases) auto
  moreover from this have "stack_lookup key ts = stack_lookup key us'" using snoc.IH [of us'] snoc.prems by simp
  ultimately show ?case using snoc.prems by (simp split: option.split)
qed simp

lemma write_sets_read [simp]: "write_sets s (snd (kv_read s key now kv)) = write_sets s kv"
proof (cases "kv_stack s kv = []")
  case False
  then obtain ts t where "kv_stack s kv = ts @ [t]" by (metis stack_snoc)
  then show ?thesis by (simp add: kv_read_stack write_sets_def)
qed (simp add: kv_read_idle)

lemma write_sets_write:
  "kv_stack s kv \<noteq> [] \<Longrightarrow> write_sets s (kv_write s key entry kv) =
     butlast (write_sets s kv) @ [dict_set key entry (List.last (write_sets s kv))]"
  by (drule stack_snoc) (auto simp: kv_write_def write_sets_def)

lemma kv_write_inside: "kv_stack s kv \<noteq> [] \<Longrightarrow> kv_storage (kv_write s key entry kv) = kv_storage kv"
  by (simp add: kv_write_def Let_def)

lemma write_sets_Nil: "write_sets s kv = [] \<longleftrightarrow> kv_stack s kv = []"
  by (simp add: write_sets_def)

lemma read_again:
  assumes "write_sets s kvs = write_sets s kv"
    and "stack_lookup key (kv_stack s kv) = None \<Longrightarrow> committed kv key = committed kvs key"
  shows "fst (kv_read s key now kvs) = fst (kv_read s key now kv)"
  using assms(2) stack_lookup_cong [OF assms(1) [unfolded write_sets_def], of key]
  by (simp add: kv_read_view stack_lookup_view split: option.split)

lemma commit_inside:
  assumes "length (kv_stack s kv) = Suc (Suc n)"
  obtains ts p t where "kv_stack s kv = ts @ [p, t]"
    "kv_commit s kv = (Inr (tx_id t), set_stack s (ts @ [tx_merge_into t p]) (set_stack s (ts @ [p]) kv))" "length ts = n"
proof (cases "kv_stack s kv" rule: levels_cases)
  case (3 ts p t)
  then show ?thesis using that kv_commit_cases(2) assms by simp
qed (use assms in simp_all)

lemma stack_length: "length (kv_stack s kv) = length (write_sets s kv)"
  by (simp add: write_sets_def)

lemma inside_step:
  assumes "inner_op n op = Some m" and "length (kv_stack s kv) = Suc n"
  shows "length (kv_stack s (snd (kv_do s now op kv))) = Suc m" and "kv_storage (snd (kv_do s now op kv)) = kv_storage kv"
proof -
  have busy: "write_sets s kv \<noteq> []" "kv_stack s kv \<noteq> []" using assms(2) by (auto simp: write_sets_def)
  have busy': "kv_stack s (snd (kv_read s key now kv)) \<noteq> []" for key
    using busy(1) write_sets_Nil [of s "snd (kv_read s key now kv)"] by simp
  have "length (kv_stack s (snd (kv_do s now op kv))) = Suc m \<and> kv_storage (snd (kv_do s now op kv)) = kv_storage kv"
  proof (cases op)
    case (Op_Set key val ttl)
    show ?thesis using assms busy
      by (simp add: Op_Set answer_def kv_set_def stack_length write_sets_write kv_write_inside)
  next
    case (Op_Delete key)
    show ?thesis using assms busy
      by (simp add: Op_Delete kv_delete_def split_beta stack_length write_sets_write kv_write_inside busy')
  next
    case (Op_Incr key i)
    show ?thesis using assms busy
      by (simp add: Op_Incr answer_def kv_incr_read_write split_beta stack_length write_sets_write kv_write_inside busy' split: sum.split)
  next
    case Op_Begin
    show ?thesis using assms kv_begin_step [of s now kv] by (auto simp: Op_Begin)
  next
    case Op_Commit
    then obtain k where "n = Suc k" "m = k" using assms(1) by (auto split: nat.splits)
    then show ?thesis using commit_inside [of s kv k] assms(2) by (metis Op_Commit answer_def fst_conv kv_do.simps(8)
      kv_stack_set length_append length_Cons list.size(3) Suc_eq_plus1 One_nat_def snd_conv set_stack_fields(1))
  qed (use assms in \<open>simp_all add: kv_get_def kv_exists_def split_beta stack_length\<close>)
  then show "length (kv_stack s (snd (kv_do s now op kv))) = Suc m" and "kv_storage (snd (kv_do s now op kv)) = kv_storage kv"
    by simp_all
qed

lemma inside_step_same:
  assumes "inner_op n op = Some m" and "length (kv_stack s kv) = Suc n" and "write_sets s kvs = write_sets s kv"
    and "\<And>key. op_key op = Some key \<Longrightarrow> stack_lookup key (kv_stack s kv) = None \<Longrightarrow> committed kv key = committed kvs key"
  shows "fst (kv_do s now op kvs) = fst (kv_do s now op kv)"
    and "write_sets s (snd (kv_do s now op kvs)) = write_sets s (snd (kv_do s now op kv))"
proof -
  have busy: "write_sets s kv \<noteq> []" "write_sets s kvs \<noteq> []" using assms(2, 3) by (auto simp: write_sets_def)
  then have busy0: "kv_stack s kv \<noteq> []" "kv_stack s kvs \<noteq> []" by (simp_all add: write_sets_Nil)
  have busy': "kv_stack s (snd (kv_read s key now kv)) \<noteq> []" "kv_stack s (snd (kv_read s key now kvs)) \<noteq> []" for key
    using busy write_sets_Nil [of s "snd (kv_read s key now kv)"] write_sets_Nil [of s "snd (kv_read s key now kvs)"] by simp_all
  have again: "fst (kv_read s key now kvs) = fst (kv_read s key now kv)" if "op_key op = Some key" for key
    by (rule read_again [OF assms(3)]) (rule assms(4) [OF that])
  note facts = assms(3) write_sets_write [OF busy'(1)] write_sets_write [OF busy'(2)]
    write_sets_write [OF busy0(1)] write_sets_write [OF busy0(2)]
  have "fst (kv_do s now op kvs) = fst (kv_do s now op kv) \<and>
    write_sets s (snd (kv_do s now op kvs)) = write_sets s (snd (kv_do s now op kv))"
  proof (cases op)
    case (Op_Get key)
    then show ?thesis using again [of key] by (simp add: kv_get_def split_beta facts)
  next
    case (Op_Exists key)
    then show ?thesis using again [of key] by (simp add: kv_exists_def split_beta facts)
  next
    case (Op_Set key val ttl)
    then show ?thesis by (simp add: answer_def kv_set_def facts)
  next
    case (Op_Delete key)
    then show ?thesis using again [of key] by (simp add: kv_delete_def split_beta facts)
  next
    case (Op_Incr key i)
    then show ?thesis using again [of key] by (simp add: answer_def kv_incr_read_write split_beta facts split: sum.split)
  next
    case Op_Begin
    have "write_sets s (snd (kv_do s now Op_Begin x)) = write_sets s x @ [[]]" for x
      using kv_begin_step [of s now x] by (auto simp: write_sets_def)
    then show ?thesis using kv_begin_step [of s now] assms(3) by (simp only: Op_Begin)
  next
    case Op_Commit
    then obtain k where k: "n = Suc k" "m = k" using assms(1) by (auto split: nat.splits)
    have len: "length (kv_stack s kvs) = Suc (Suc k)" using assms(2, 3) k by (simp add: stack_length)
    obtain ts p t where a: "kv_stack s kv = ts @ [p, t]"
      "kv_commit s kv = (Inr (tx_id t), set_stack s (ts @ [tx_merge_into t p]) (set_stack s (ts @ [p]) kv))"
      using commit_inside [of s kv k] assms(2) k by metis
    obtain us q u where b: "kv_stack s kvs = us @ [q, u]"
      "kv_commit s kvs = (Inr (tx_id u), set_stack s (us @ [tx_merge_into u q]) (set_stack s (us @ [q]) kvs))"
      using commit_inside [OF len] by metis
    show ?thesis using assms(3) by (simp add: Op_Commit answer_def a b write_sets_def merge_writes)
  qed (use assms in simp_all)
  then show "fst (kv_do s now op kvs) = fst (kv_do s now op kv)"
    and "write_sets s (snd (kv_do s now op kvs)) = write_sets s (snd (kv_do s now op kv))" by simp_all
qed

text \<open>No recorded read is lost on the way to the outermost commit, except one that a lower level already holds.\<close>

lemma agree_read:
  assumes "agree vf (kv_stack s (snd (kv_read s key now kv)))"
  shows "agree vf (kv_stack s kv)"
proof (cases "kv_stack s kv = []")
  case False
  then obtain ts t where "kv_stack s kv = ts @ [t]" by (metis stack_snoc)
  with assms show ?thesis by (auto simp: kv_read_stack agree_def tx_observe_reads split: if_splits option.splits)
qed (simp add: agree_def)

lemma agree_write: "agree vf (kv_stack s (kv_write s key entry kv)) = agree vf (kv_stack s kv)"
proof (cases "kv_stack s kv = []")
  case False
  then obtain ts t where "kv_stack s kv = ts @ [t]" by (metis stack_snoc)
  then show ?thesis by (simp add: kv_write_def agree_def)
qed (simp add: kv_write_def)

lemma agree_merge:
  assumes "stack_ok sto (ts @ [p, t])" and "\<And>k. sto_version k sto \<le> vf k" and "agree vf (ts @ [tx_merge_into t p])"
  shows "agree vf (ts @ [p, t])"
proof -
  have ok: "stack_ok sto ((ts @ [p]) @ [t])" using assms(1) by simp
  have merged: "v = vf k" if "dict_get (tx_reads (tx_merge_into t p)) k = Some v" for k v
    using assms(3) that by (simp add: agree_def)
  have pv: "v = vf k" if "dict_get (tx_reads p) k = Some v" for k v
    using merged [of k v] that by (simp add: merge_reads)
  have tv: "v = vf k" if r: "dict_get (tx_reads t) k = Some v" for k v
  proof (cases "dict_get (tx_reads p) k")
    case None
    then show ?thesis using merged [of k v] r by (simp add: merge_reads)
  next
    case (Some u)
    have "u \<le> v" using ok [unfolded stack_ok_snoc [of sto "ts @ [p]"]] Some r by simp
    moreover have "v \<le> sto_version k sto" using ok [unfolded stack_ok_snoc [of sto "ts @ [p]"]] r by simp
    ultimately show ?thesis using pv [OF Some] assms(2) [of k] by simp
  qed
  show ?thesis using assms(3) pv tv by (auto simp: agree_def)
qed

lemma agree_back:
  assumes "inner_op n op = Some m" and "length (kv_stack s kv) = Suc n" and "kv_wf kv"
    and "\<And>k. sto_version k (kv_storage kv) \<le> vf k" and "agree vf (kv_stack s (snd (kv_do s now op kv)))"
  shows "agree vf (kv_stack s kv)"
proof (cases op)
  case (Op_Get key)
  then show ?thesis using assms(5) by (auto simp: kv_get_def split_beta intro: agree_read)
next
  case (Op_Exists key)
  then show ?thesis using assms(5) by (auto simp: kv_exists_def split_beta intro: agree_read)
next
  case (Op_Set key val ttl)
  then show ?thesis using assms(5) by (simp add: answer_def kv_set_def agree_write split: if_splits)
next
  case (Op_Delete key)
  then show ?thesis using assms(5) by (auto simp: kv_delete_def split_beta agree_write intro: agree_read)
next
  case (Op_Incr key i)
  then show ?thesis using assms(5)
    by (auto simp: answer_def kv_incr_read_write split_beta agree_write split: sum.splits intro: agree_read)
next
  case Op_Begin
  obtain i where "kv_stack s (snd (kv_do s now Op_Begin kv)) = kv_stack s kv @ [tx_new i]" using kv_begin_step by blast
  then show ?thesis using assms(5) by (simp add: Op_Begin agree_def)
next
  case Op_Commit
  then obtain k where k: "n = Suc k" using assms(1) by (auto split: nat.splits)
  obtain ts p t where a: "kv_stack s kv = ts @ [p, t]"
    "kv_commit s kv = (Inr (tx_id t), set_stack s (ts @ [tx_merge_into t p]) (set_stack s (ts @ [p]) kv))"
    using commit_inside [of s kv k] assms(2) k by metis
  have "agree vf (ts @ [tx_merge_into t p])" using assms(5) by (simp add: Op_Commit answer_def a)
  from agree_merge [OF _ assms(4) this] kv_wf_parts(2) [OF assms(3), of s] show ?thesis by (simp add: a)
qed (use assms in simp_all)

text \<open>A key that is read through to the store is recorded, at the version it had or an earlier one.\<close>

lemma kv_read_recorded:
  assumes "kv_wf kv" and "kv_stack s kv \<noteq> []" and "stack_lookup key (kv_stack s kv) = None"
  shows "\<exists>t \<in> set (kv_stack s (snd (kv_read s key now kv))). \<exists>u. dict_get (tx_reads t) key = Some u \<and> u \<le> sto_version key (kv_storage kv)"
proof -
  obtain ts t where ts: "kv_stack s kv = ts @ [t]" using assms(2) by (metis stack_snoc)
  have "\<exists>u. dict_get (tx_reads (tx_observe key (sto_version key (kv_storage kv)) t)) key = Some u \<and> u \<le> sto_version key (kv_storage kv)"
    using kv_wf_parts(2) [OF assms(1), of s] by (simp add: ts stack_ok_snoc tx_observe_reads split: option.split)
  then show ?thesis using assms(3) ts by (simp add: kv_read_stack)
qed

lemma read_is_current:
  assumes "kv_wf kv" and "length (kv_stack s kv) = Suc n" and "op_key op = Some key" and "stack_lookup key (kv_stack s kv) = None"
    and "\<And>k. sto_version k (kv_storage kv) \<le> vf k" and "agree vf (kv_stack s (snd (kv_do s now op kv)))"
  shows "sto_version key (kv_storage kv) = vf key"
proof -
  have "kv_stack s kv \<noteq> []" using assms(2) by auto
  note rec = kv_read_recorded [OF assms(1) this assms(4), of now]
  have "agree vf (kv_stack s (snd (kv_read s key now kv)))"
    using assms(3, 6)
    by (cases op) (auto simp: kv_get_def kv_exists_def kv_delete_def answer_def kv_incr_read_write split_beta agree_write split: sum.splits)
  then have "\<exists>u. u = vf key \<and> u \<le> sto_version key (kv_storage kv)" using rec unfolding agree_def by blast
  then show ?thesis using assms(5) [of key] by simp
qed

lemma run_depth:
  assumes "nest n (own_ops s evs) = Some d" and "length (kv_stack s kv) = Suc n" and "kv_wf kv"
  shows "length (kv_stack s (snd (kv_run evs kv))) = Suc d"
  using assms
proof (induction evs arbitrary: kv n)
  case (Cons ev evs)
  note 2 = Cons.prems
  show ?case
  proof (cases ev)
    case (Kv_Purge now)
    then show ?thesis using Cons.IH [of n "snd (kv_purge_expired now kv)"] 2 kv_purge_wf by simp
  next
    case (Kv_Do x now op)
    let ?kv1 = "snd (kv_do x now op kv)"
    have well: "steps_well x kv ?kv1" by (rule kv_do_well)
    then have wf1: "kv_wf ?kv1" using 2 by (simp add: steps_well_def)
    show ?thesis
    proof (cases "x = s")
      case False
      have "kv_stack s ?kv1 = kv_stack s kv" using well False by (simp add: steps_well_def)
      then show ?thesis using Cons.IH [of n ?kv1] 2 wf1 False by (simp add: Kv_Do)
    next
      case True
      then obtain m where m: "inner_op n op = Some m" "nest m (own_ops s evs) = Some d"
        using 2(1) by (auto simp: Kv_Do split: option.splits)
      show ?thesis
        using Cons.IH [OF m(2), of ?kv1] 2 inside_step(1) [OF m(1), of s kv now] wf1 True by (simp add: Kv_Do)
    qed
  qed
qed simp

lemma agree_back_run:
  assumes "nest n (own_ops s evs) = Some d" and "length (kv_stack s kv) = Suc n" and "kv_wf kv"
    and "agree (\<lambda>k. sto_version k (kv_storage (snd (kv_run evs kv)))) (kv_stack s (snd (kv_run evs kv)))"
  shows "agree (\<lambda>k. sto_version k (kv_storage (snd (kv_run evs kv)))) (kv_stack s kv)"
  using assms
proof (induction evs arbitrary: kv n)
  case (Cons ev evs)
  note 1 = Cons.prems
  show ?case
  proof (cases ev)
    case (Kv_Purge now)
    then show ?thesis using Cons.IH [of n "snd (kv_purge_expired now kv)"] 1 kv_purge_wf by simp
  next
    case (Kv_Do x now op)
    let ?kv1 = "snd (kv_do x now op kv)"
    have well: "steps_well x kv ?kv1" by (rule kv_do_well)
    then have wf1: "kv_wf ?kv1" using 1 by (simp add: steps_well_def)
    show ?thesis
    proof (cases "x = s")
      case False
      have "kv_stack s ?kv1 = kv_stack s kv" using well False by (simp add: steps_well_def)
      then show ?thesis using Cons.IH [of n ?kv1] 1 wf1 False by (simp add: Kv_Do)
    next
      case True
      then obtain m where m: "inner_op n op = Some m" "nest m (own_ops s evs) = Some d"
        using 1(1) by (auto simp: Kv_Do split: option.splits)
      note inside = inside_step [OF m(1), of s kv now]
      have "agree (\<lambda>k. sto_version k (kv_storage (snd (kv_run evs ?kv1)))) (kv_stack s ?kv1)"
        using Cons.IH [OF m(2), of ?kv1] 1 inside(1) wf1 True by (simp add: Kv_Do)
      moreover have "sto_version k (kv_storage kv) \<le> sto_version k (kv_storage (snd (kv_run evs ?kv1)))" for k
        using kv_run_well [OF wf1, of evs] well unfolding steps_well_def advances_def by (meson order_trans)
      ultimately show ?thesis using agree_back [OF m(1) 1(2, 3)] True by (simp add: Kv_Do)
    qed
  qed
qed simp

text \<open>The operations of the transaction, run once more on the store of its commit.\<close>

lemma replay_body:
  assumes "nest n (own_ops s evs) = Some d" and "length (kv_stack s kv) = Suc n" and "kv_wf kv"
    and "kv_storage (snd (kv_run evs kv)) = sto"
    and "agree (\<lambda>k. sto_version k sto) (kv_stack s (snd (kv_run evs kv)))"
    and "write_sets s kvs = write_sets s kv" and "kv_storage kvs = sto" and "kv_wf kvs" and "reads_current s kvs"
  shows "own_answers s (fst (kv_run (alone s (own_ops s evs)) kvs)) = own_answers s (fst (kv_run evs kv)) \<and>
    write_sets s (snd (kv_run (alone s (own_ops s evs)) kvs)) = write_sets s (snd (kv_run evs kv)) \<and>
    kv_storage (snd (kv_run (alone s (own_ops s evs)) kvs)) = sto \<and>
    kv_wf (snd (kv_run (alone s (own_ops s evs)) kvs)) \<and> reads_current s (snd (kv_run (alone s (own_ops s evs)) kvs))"
  using assms
proof (induction evs arbitrary: kv kvs n)
  case (Cons ev evs)
  show ?case
  proof (cases ev)
    case (Kv_Purge now)
    have st: "write_sets s (snd (kv_purge_expired now kv)) = write_sets s kv" by (simp add: write_sets_def)
    show ?thesis
      using Cons.IH [of n "snd (kv_purge_expired now kv)" kvs] Cons.prems kv_purge_wf st by (simp add: Kv_Purge)
  next
    case (Kv_Do x now op)
    let ?kv1 = "snd (kv_do x now op kv)"
    have well: "steps_well x kv ?kv1" by (rule kv_do_well)
    then have wf1: "kv_wf ?kv1" using Cons.prems(3) by (simp add: steps_well_def)
    have run1: "kv_storage (snd (kv_run evs ?kv1)) = sto" "agree (\<lambda>k. sto_version k sto) (kv_stack s (snd (kv_run evs ?kv1)))"
      using Cons.prems(4, 5) by (simp_all add: Kv_Do)
    show ?thesis
    proof (cases "x = s")
      case False
      have "kv_stack s ?kv1 = kv_stack s kv" using well False by (simp add: steps_well_def)
      then have "write_sets s kvs = write_sets s ?kv1" "length (kv_stack s ?kv1) = Suc n"
        using Cons.prems by (simp_all add: write_sets_def)
      moreover have "nest n (own_ops s evs) = Some d" using Cons.prems(1) False by (simp add: Kv_Do)
      ultimately show ?thesis
        using Cons.IH [OF _ _ wf1 run1 _ Cons.prems(7, 8, 9)] False by (simp add: Kv_Do)
    next
      case True
      let ?kvs1 = "snd (kv_do s now op kvs)"
      obtain m where m: "inner_op n op = Some m" "nest m (own_ops s evs) = Some d"
        using Cons.prems(1) True by (auto simp: Kv_Do split: option.splits)
      have run: "kv_storage (snd (kv_run evs (snd (kv_do s now op kv)))) = sto"
        "agree (\<lambda>k. sto_version k sto) (kv_stack s (snd (kv_run evs (snd (kv_do s now op kv)))))"
        using run1 True by simp_all
      have wf: "kv_wf (snd (kv_do s now op kv))" using wf1 True by simp
      have lens: "length (kv_stack s (snd (kv_do s now op kv))) = Suc m" "length (kv_stack s kvs) = Suc n"
        using inside_step(1) [OF m(1) Cons.prems(2)] Cons.prems(2, 6) by (simp_all add: stack_length)
      have ag: "agree (\<lambda>k. sto_version k sto) (kv_stack s (snd (kv_do s now op kv)))"
        using agree_back_run [OF m(2) lens(1) wf] run by simp
      have adv: "advances (kv_storage kv) sto"
        using kv_run_well [OF wf, of evs] well True run(1) unfolding steps_well_def by (metis advances_trans)
      have "committed kv key = committed kvs key"
        if "op_key op = Some key" "stack_lookup key (kv_stack s kv) = None" for key
        using read_is_current [OF Cons.prems(3, 2) that _ ag] adv Cons.prems(7) unfolding advances_def committed_def by metis
      note same = inside_step_same [OF m(1) Cons.prems(2, 6) this, simplified]
      have "kv_wf ?kvs1" using kv_do_well [of s kvs now op] Cons.prems(8) by (simp add: steps_well_def)
      moreover have "reads_current s ?kvs1" by (rule lone_step(2) [OF Cons.prems(8, 9)])
      moreover have "kv_storage ?kvs1 = sto" using inside_step(2) [OF m(1) lens(2)] Cons.prems(7) by simp
      ultimately show ?thesis
        using Cons.IH [OF m(2) lens(1) wf run same(2)] same(1) True by (simp add: Kv_Do)
    qed
  qed
qed simp

lemma kv_run_append:
  "kv_run (evs @ evs') kv = (fst (kv_run evs kv) @ fst (kv_run evs' (snd (kv_run evs kv))), snd (kv_run evs' (snd (kv_run evs kv))))"
proof (induction evs arbitrary: kv)
  case (Cons ev evs)
  then show ?case by (cases ev) simp_all
qed simp

lemma alone_append: "alone s (ops @ ops') = alone s ops @ alone s ops'"
  by (simp add: alone_def)

lemma own_append:
  "own_ops s (evs @ evs') = own_ops s evs @ own_ops s evs'" "own_answers s (as @ as') = own_answers s as @ own_answers s as'"
  by (simp_all add: own_ops_def own_answers_def)

lemma commit_outermost:
  assumes "kv_stack s kv = [t]" and "fst (kv_do s now Op_Commit kv) = Ans_Done"
  shows "validate (kv_isolation kv) t (kv_storage kv) = Inr ()"
    and "kv_storage (snd (kv_do s now Op_Commit kv)) = fold apply_write (tx_writes t) (kv_storage kv)"
  using assms(2) by (simp_all add: answer_def kv_commit_cases(3) [OF assms(1)] split: sum.splits)



text \<open>
  What the recorded reads leave out. A scan records nothing, so that a key of its answer may change before the commit; and
  a read in a savepoint that is rolled back is forgotten, although the session has seen its answer.
\<close>

lemma scan_is_not_validated:
  "let evs = [Kv_Do 1 1 Op_Begin, Kv_Do 1 2 (Op_Scan ''a''), Kv_Do 2 3 (Op_Set ''a'' (Int_Value 9) None), Kv_Do 1 4 (Op_Set ''b'' (Int_Value 1) None)];
       before = snd (kv_run evs (kv_new Optimistic_Isolation Null_Log))
   in fst (kv_do 1 5 Op_Commit before) = Ans_Done \<and>
      own_answers 1 (fst (kv_run evs (kv_new Optimistic_Isolation Null_Log))) = [Ans_Done, Ans_Entries [], Ans_Done] \<and>
      own_answers 1 (fst (kv_run (alone 1 (own_ops 1 evs)) (set_stack 1 [] before))) =
        [Ans_Done, Ans_Entries [(''a'', Int_Value 9)], Ans_Done]"
  by code_simp

lemma rolled_back_read_is_forgotten:
  "let evs = [Kv_Do 1 1 Op_Begin, Kv_Do 1 2 Op_Begin, Kv_Do 1 2 (Op_Get ''a''), Kv_Do 1 2 Op_Rollback,
              Kv_Do 2 3 (Op_Set ''a'' (Int_Value 9) None), Kv_Do 1 4 (Op_Set ''b'' (Int_Value 1) None)];
       before = snd (kv_run evs (kv_new Optimistic_Isolation Null_Log))
   in fst (kv_do 1 5 Op_Commit before) = Ans_Done \<and>
      own_answers 1 (fst (kv_run evs (kv_new Optimistic_Isolation Null_Log))) = [Ans_Done, Ans_Done, Ans_Value None, Ans_Done, Ans_Done] \<and>
      own_answers 1 (fst (kv_run (alone 1 (own_ops 1 evs)) (set_stack 1 [] before))) =
        [Ans_Done, Ans_Done, Ans_Value (Some (Int_Value 9)), Ans_Done, Ans_Done]"
  by code_simp

text \<open>A purge moves the version of a key that already read as absent, and refuses the commit of who read it.\<close>

lemma purge_refuses_commit:
  "let evs = [Kv_Do 2 0 (Op_Set ''a'' (Int_Value 1) (Some 5)), Kv_Do 1 6 Op_Begin, Kv_Do 1 6 (Op_Get ''a'')];
       kv = snd (kv_run evs (kv_new Optimistic_Isolation Null_Log))
   in own_answers 1 (fst (kv_run evs (kv_new Optimistic_Isolation Null_Log))) = [Ans_Done, Ans_Value None] \<and>
      fst (kv_do 1 7 Op_Commit kv) = Ans_Done \<and>
      fst (kv_do 1 7 Op_Commit (snd (kv_purge_expired 7 kv))) = Ans_Failed ConflictError"
  by code_simp

section \<open>Recovery\<close>

text \<open>Every operation writes the storage and the log together.\<close>

definition wrote :: "(string \<times> kv_entry option) list \<Rightarrow> kv_store \<Rightarrow> kv_store \<Rightarrow> bool" where
  "wrote ws kv kv1 \<longleftrightarrow>
     kv_storage kv1 = fold apply_write ws (kv_storage kv) \<and>
     kv_log kv1 = write_log_append (map (\<lambda>(key, entry). log_entry_of key entry) ws) (kv_log kv)"

lemma write_log_append_Nil [simp]: "write_log_append [] l = l"
  by (cases l) simp_all

lemma wrote_same: "kv_storage kv1 = kv_storage kv \<Longrightarrow> kv_log kv1 = kv_log kv \<Longrightarrow> \<exists>ws. wrote ws kv kv1"
  by (rule exI [of _ "[]"]) (simp add: wrote_def)

lemma kv_apply_wrote: "wrote ws kv (kv_apply ws (set_stack s levels kv))" "wrote ws kv (kv_apply ws kv)"
  by (simp_all add: wrote_def kv_apply_def)

lemma kv_write_wrote:
  assumes "kv_storage kv = kv_storage kv0" and "kv_log kv = kv_log kv0"
  shows "\<exists>ws. wrote ws kv0 (kv_write s key entry kv)"
proof (cases "kv_stack s kv = []")
  case True
  then have "wrote [(key, entry)] kv0 (kv_write s key entry kv)"
    using kv_apply_wrote(2) [of "[(key, entry)]" kv] assms by (simp add: kv_write_def wrote_def)
  then show ?thesis by blast
qed (rule wrote_same, simp_all add: kv_write_def Let_def assms)

lemma kv_do_wrote: "\<exists>ws. wrote ws kv (snd (kv_do s now op kv))"
proof (cases op)
  case (Op_Set key val ttl)
  then show ?thesis using wrote_same [of kv kv] by (simp add: answer_def kv_set_def kv_write_wrote)
next
  case (Op_Delete key)
  then show ?thesis by (simp add: kv_delete_def split_beta kv_write_wrote)
next
  case (Op_Incr key i)
  then show ?thesis by (simp add: answer_def kv_incr_read_write split_beta kv_write_wrote wrote_same split: sum.split)
next
  case Op_Begin
  then show ?thesis by (intro wrote_same) (simp_all add: kv_begin_def split_beta)
next
  case Op_Commit
  show ?thesis
  proof (cases "kv_stack s kv" rule: levels_cases)
    case (2 t)
    then show ?thesis using kv_apply_wrote(1) [of "tx_writes t" kv s "[]"] wrote_same [of "set_stack s [] kv" kv]
      by (auto simp: Op_Commit answer_def kv_commit_cases(3) split: sum.split)
  qed (simp_all add: Op_Commit answer_def kv_commit_cases wrote_same)
qed (simp_all add: answer_def kv_get_def kv_exists_def kv_rollback_def Let_def split_beta wrote_same)

lemma entry_eta [simp]: "\<lparr>ke_value = ke_value e, ke_expires_at = ke_expires_at e\<rparr> = e"
  by (rule kv_entry.equality) simp_all

lemma apply_record_of: "apply_record (log_entry_of key entry) = apply_write (key, entry)"
  by (auto simp: apply_record_def log_entry_of_def apply_write_def fun_eq_iff split: option.split)

lemma replay_writes:
  "fold apply_record (map (\<lambda>(key, entry). log_entry_of key entry) ws) sto = fold apply_write ws sto"
  by (induction ws arbitrary: sto) (auto simp: apply_record_of)

text \<open>Up to the reading of a clock, the log rebuilds what is held; purged keys come back, expired.\<close>

definition rebuilds :: "time \<Rightarrow> kv_storage \<Rightarrow> kv_storage \<Rightarrow> bool" where
  "rebuilds now sto held \<longleftrightarrow>
     (\<forall>k. dict_get (sto_entries sto) k = dict_get (sto_entries held) k \<or>
          dict_get (sto_entries held) k = None \<and> live now (dict_get (sto_entries sto) k) = None)"

lemma rebuilds_write: "rebuilds now sto held \<Longrightarrow> rebuilds now (apply_write w sto) (apply_write w held)"
  by (cases w) (simp add: rebuilds_def apply_write_get)

lemma rebuilds_fold: "rebuilds now sto held \<Longrightarrow> rebuilds now (fold apply_write ws sto) (fold apply_write ws held)"
  by (induction ws arbitrary: sto held) (simp_all add: rebuilds_write)

lemma fold_delete_get:
  "dict_get (sto_entries (fold (\<lambda>key sto. snd (sto_delete key sto)) keys sto)) k = (if k \<in> set keys then None else dict_get (sto_entries sto) k)"
  by (induction keys arbitrary: sto) auto

lemma sto_purge_get:
  "dict_ok (sto_entries sto) \<Longrightarrow>
     dict_get (sto_entries (snd (sto_purge now sto))) k = live now (dict_get (sto_entries sto) k)"
  by (auto simp: sto_purge_def Let_def fold_delete_get live_def dict_get_mem image_iff split: option.split)

lemma live_later: "now \<le> later \<Longrightarrow> live now entry = None \<Longrightarrow> live later entry = None"
  by (auto simp: live_def ke_is_expired_def split: option.splits if_splits)

lemma rebuilds_purge:
  assumes "rebuilds later sto held" and "now \<le> later" and "dict_ok (sto_entries held)"
  shows "rebuilds later sto (snd (sto_purge now held))"
  unfolding rebuilds_def
proof
  fix k
  let ?e = "dict_get (sto_entries sto) k" and ?h = "dict_get (sto_entries held) k"
  have purged: "dict_get (sto_entries (snd (sto_purge now held))) k = live now ?h" by (rule sto_purge_get [OF assms(3)])
  have "live now ?h = ?h \<or> live now ?h = None" by (simp add: live_def split: option.split)
  then show "?e = dict_get (sto_entries (snd (sto_purge now held))) k \<or>
      dict_get (sto_entries (snd (sto_purge now held))) k = None \<and> live later ?e = None"
    using assms(1) live_later [OF assms(2), of ?h] unfolding purged rebuilds_def by metis
qed

lemma write_log_append_replay: "l \<noteq> Null_Log \<Longrightarrow> write_log_replay (write_log_append rs l) = write_log_replay l @ rs \<and> write_log_append rs l \<noteq> Null_Log"
  by (cases l) auto

lemma run_rebuilds:
  assumes "kv_wf kv" and "kv_log kv \<noteq> Null_Log" and "rebuilds now (fold apply_record (write_log_replay (kv_log kv)) sto_new) (kv_storage kv)"
    and "\<forall>t. Kv_Purge t \<in> set evs \<longrightarrow> t \<le> now"
  shows "rebuilds now (fold apply_record (write_log_replay (kv_log (snd (kv_run evs kv)))) sto_new) (kv_storage (snd (kv_run evs kv)))"
  using assms
proof (induction evs arbitrary: kv)
  case (Cons ev evs)
  show ?case
  proof (cases ev)
    case (Kv_Do s t op)
    let ?kv1 = "snd (kv_do s t op kv)"
    obtain ws where ws: "wrote ws kv ?kv1" using kv_do_wrote by blast
    have wf: "kv_wf ?kv1" using kv_do_well Cons.prems(1) unfolding steps_well_def by blast
    have "rebuilds now (fold apply_record (write_log_replay (kv_log ?kv1)) sto_new) (kv_storage ?kv1)"
      using ws write_log_append_replay [OF Cons.prems(2)] rebuilds_fold [OF Cons.prems(3)] by (simp add: wrote_def replay_writes)
    moreover have "kv_log ?kv1 \<noteq> Null_Log" using ws write_log_append_replay [OF Cons.prems(2)] by (simp add: wrote_def)
    ultimately show ?thesis using Cons.IH [OF wf] Cons.prems(4) by (simp add: Kv_Do del: kv_do.simps)
  next
    case (Kv_Purge t)
    then show ?thesis
      using Cons.IH [OF kv_purge_wf [OF Cons.prems(1)]] Cons.prems by (simp add: rebuilds_purge kv_wf_parts)
  qed
qed simp

text \<open>C23. Recovery from the log. After any history of operations, commits, refusals and purges by any sessions on a store with
  a log, a store restored from that log holds under every key the entry that a read at a later time finds in the original,
  whatever was staged and not committed left out.
\<close>
theorem restore_returns_committed:
  assumes "kv = snd (kv_run evs (kv_new policy (In_Memory_Log [] 0)))" and "\<forall>t. Kv_Purge t \<in> set evs \<longrightarrow> t \<le> now"
  shows "sto_get key now (kv_storage (kv_restore policy' (kv_log kv))) = sto_get key now (kv_storage kv) \<and>
    kv_stack s (kv_restore policy' (kv_log kv)) = []"
proof -
  have "rebuilds now (fold apply_record (write_log_replay (kv_log kv)) sto_new) (kv_storage kv)"
    unfolding assms(1)
    by (rule run_rebuilds [OF kv_new_wf _ _ assms(2)]) (simp_all add: kv_new_def rebuilds_def)
  then have "live now (dict_get (sto_entries (fold apply_record (write_log_replay (kv_log kv)) sto_new)) key) =
      live now (dict_get (sto_entries (kv_storage kv)) key)"
    unfolding rebuilds_def by (metis (no_types, lifting) live_def option.simps(4))
  then show ?thesis by (simp add: kv_restore_def sto_get_live kv_new_def kv_stack_def)
qed

lemma restore_returns_committed_witness:
  "sto_get ''a'' 9 (kv_storage (kv_restore Last_Write_Wins (kv_log (snd (kv_run
       [Kv_Do 1 0 (Op_Set ''a'' (Int_Value 1) None), Kv_Do 1 1 (Op_Set ''b'' (Int_Value 2) (Some 3)), Kv_Purge 8,
        Kv_Do 1 8 Op_Begin, Kv_Do 1 8 (Op_Delete ''a'')] (kv_new Last_Write_Wins (In_Memory_Log [] 0))))))) =
   Some \<lparr>ke_value = Int_Value 1, ke_expires_at = None\<rparr>"
proof -
  let ?evs = "[Kv_Do 1 0 (Op_Set ''a'' (Int_Value 1) None), Kv_Do 1 1 (Op_Set ''b'' (Int_Value 2) (Some 3)), Kv_Purge 8,
        Kv_Do 1 8 Op_Begin, Kv_Do 1 8 (Op_Delete ''a'')]"
  have purges: "\<forall>t. Kv_Purge t \<in> set ?evs \<longrightarrow> t \<le> 9" by simp
  have "sto_get ''a'' 9 (kv_storage (snd (kv_run ?evs (kv_new Last_Write_Wins (In_Memory_Log [] 0))))) =
      Some \<lparr>ke_value = Int_Value 1, ke_expires_at = None\<rparr>"
    by code_simp
  then show ?thesis using restore_returns_committed [OF refl purges, THEN conjunct1] by simp
qed

end
