(* ===== verification/Merkle_Tree.thy ===== *)
theory Merkle_Tree
  imports Python_Lib "HOL-Library.Word"
begin

text \<open>
  \<^verbatim>\<open>code/hld/merkle_tree.py\<close>: a hash tree over the key-value pairs of a replica, and the walk down two
  trees that finds the buckets in which they differ.

  A string is the list of the bytes of its encoding. SHA-256 is the parameter \<open>sha\<close>, a function from
  bytes to bytes; that contents do not collide is a premise where it is needed.
\<close>

unbundle bit_operations_syntax

section \<open>The tree\<close>

record merkle =
  mk_leaves :: int
  mk_buckets :: "(string, string) dict list"
  mk_levels :: "string list list"

definition mk_bucket_of :: "(string \<Rightarrow> string) \<Rightarrow> int \<Rightarrow> string \<Rightarrow> int" where
  "mk_bucket_of sha leaves key = from_bytes_big (map of_char (take 8 (sha key))) mod leaves"

definition pair_line :: "string \<times> string \<Rightarrow> string" where
  "pair_line = (\<lambda>(key, val). key @ ''='' @ val @ [CHR 0x0A])"

definition leaf_text :: "(string, string) dict \<Rightarrow> string" where
  "leaf_text bucket = concat (map pair_line (map (\<lambda>key. (key, the (dict_get bucket key))) (sort (dict_keys bucket))))"

text \<open>The number of leaves is a power of two, so a level above the root has no odd node.\<close>

fun hash_pairs :: "(string \<Rightarrow> string) \<Rightarrow> string list \<Rightarrow> string list" where
  "hash_pairs sha (x # y # rest) = sha (x @ y) # hash_pairs sha rest"
| "hash_pairs sha _ = []"

lemma hash_pairs_length: "length (hash_pairs sha xs) = length xs div 2"
  by (induction sha xs rule: hash_pairs.induct) auto

function fold_levels :: "(string \<Rightarrow> string) \<Rightarrow> string list \<Rightarrow> string list list" where
  "fold_levels sha level = (if length level \<le> 1 then [level] else level # fold_levels sha (hash_pairs sha level))"
  by pat_completeness auto
termination by (relation "measure (\<lambda>(sha, level). length level)") (auto simp: hash_pairs_length)

declare fold_levels.simps [simp del]

text \<open>\<^verbatim>\<open>self._buckets[self.bucket_of(key)][key] = value\<close>, item by item.\<close>

definition place :: "(string \<Rightarrow> string) \<Rightarrow> int \<Rightarrow> string \<times> string \<Rightarrow> (string, string) dict list \<Rightarrow> (string, string) dict list" where
  "place sha leaves = (\<lambda>(key, val) buckets.
     (let b = nat (mk_bucket_of sha leaves key) in buckets[b := dict_set key val (buckets ! b)]))"

definition mk_new :: "(string \<Rightarrow> string) \<Rightarrow> (string, string) dict \<Rightarrow> int \<Rightarrow> merkle result" where
  "mk_new sha items leaves =
     (if leaves < 1 \<or> leaves AND (leaves - 1) \<noteq> 0 then Inl ValidationError
      else let buckets = fold (place sha leaves) items (replicate (nat leaves) [])
           in Inr \<lparr>mk_leaves = leaves, mk_buckets = buckets,
                   mk_levels = fold_levels sha (map (\<lambda>bucket. sha (leaf_text bucket)) buckets)\<rparr>)"

definition mk_root :: "merkle \<Rightarrow> string" where
  "mk_root t = hd (List.last (mk_levels t))"

definition mk_keys_in_bucket :: "int \<Rightarrow> merkle \<Rightarrow> string list result" where
  "mk_keys_in_bucket b t =
     (if \<not> (0 \<le> b \<and> b < mk_leaves t) then Inl ValidationError else Inr (sort (dict_keys (mk_buckets t ! nat b))))"

section \<open>The walk\<close>

text \<open>The stack of pending nodes has its top first; a turn answers the differing buckets and the comparisons so far.\<close>

lemma power_three: "0 < l \<Longrightarrow> 3 ^ (l - Suc 0) + 3 ^ (l - Suc 0) < (3::nat) ^ l"
  by (cases l) simp_all

function mk_walk :: "string list list \<Rightarrow> string list list \<Rightarrow> (nat \<times> nat) list \<Rightarrow> nat list \<times> nat \<Rightarrow> nat list \<times> nat" where
  "mk_walk la lb [] found = found"
| "mk_walk la lb ((level, i) # pending) (differing, comparisons) =
     (if la ! level ! i = lb ! level ! i then mk_walk la lb pending (differing, comparisons + 1)
      else if level = 0 then mk_walk la lb pending (differing @ [i], comparisons + 1)
      else mk_walk la lb ((level - 1, 2 * i) # (level - 1, 2 * i + 1) # pending) (differing, comparisons + 1))"
  by pat_completeness auto
termination
  by (relation "measure (\<lambda>(la, lb, pending, found). sum_list (map (\<lambda>(level, i). 3 ^ level) pending))")
    (use power_three in \<open>auto simp: add.assoc [symmetric]\<close>)

definition mk_diff :: "merkle \<Rightarrow> merkle \<Rightarrow> (nat list \<times> nat) result" where
  "mk_diff a b =
     (if mk_leaves b \<noteq> mk_leaves a then Inl ValidationError
      else Inr (apfst sort (mk_walk (mk_levels a) (mk_levels b) [(length (mk_levels a) - 1, 0)] ([], 0))))"

section \<open>The shape of a tree\<close>

lemma power_of_two: "1 \<le> (n :: int) \<Longrightarrow> n AND (n - 1) = 0 \<Longrightarrow> \<exists>h. n = 2 ^ h"
proof (induction "nat n" arbitrary: n rule: less_induct)
  case less
  have rec: "n AND (n - 1) = 2 * ((n div 2) AND ((n - 1) div 2))"
    using and_rec [of n "n - 1"] by (cases "even n") simp_all
  show ?case
  proof (cases "even n")
    case True
    then obtain m where m: "n = 2 * m" by (elim evenE)
    then have "(n - 1) div 2 = m - 1" by simp
    with rec less.prems m have "m AND (m - 1) = 0" by simp
    with less.hyps [of m] less.prems(1) m obtain h where "m = 2 ^ h" by auto
    then have "n = 2 ^ Suc h" using m by simp
    then show ?thesis by blast
  next
    case False
    then obtain m where m: "n = 2 * m + 1" by (elim oddE)
    with rec less.prems(2) have "m = 0" by simp
    then have "n = 2 ^ 0" using m by simp
    then show ?thesis by blast
  qed
qed

lemma hash_pairs_nth: "2 * i + 1 < length xs \<Longrightarrow> hash_pairs sha xs ! i = sha (xs ! (2 * i) @ xs ! (2 * i + 1))"
  by (induction sha xs arbitrary: i rule: hash_pairs.induct) (auto simp: nth_Cons split: nat.split)

text \<open>\<open>levels_ok\<close>: level \<open>l\<close> of a tree with \<open>2 ^ h\<close> leaves has \<open>2 ^ (h - l)\<close> nodes, each above two of the level below.\<close>

definition levels_ok :: "(string \<Rightarrow> string) \<Rightarrow> nat \<Rightarrow> string list list \<Rightarrow> bool" where
  "levels_ok sha h levels \<longleftrightarrow>
     length levels = Suc h \<and> (\<forall>l \<le> h. length (levels ! l) = 2 ^ (h - l)) \<and>
     (\<forall>l i. l < h \<longrightarrow> i < 2 ^ (h - Suc l) \<longrightarrow> levels ! Suc l ! i = sha (levels ! l ! (2 * i) @ levels ! l ! (2 * i + 1)))"

lemma fold_levels_ok: "length level = 2 ^ h \<Longrightarrow> levels_ok sha h (fold_levels sha level) \<and> fold_levels sha level ! 0 = level"
proof (induction h arbitrary: level)
  case 0
  then show ?case by (subst (1 2) fold_levels.simps) (simp add: levels_ok_def)
next
  case (Suc h)
  have len: "length (hash_pairs sha level) = 2 ^ h" using Suc.prems by (simp add: hash_pairs_length)
  have "(2::nat) * 2 ^ h \<noteq> 1" and "\<not> (2::nat) * 2 ^ h \<le> 1" using one_le_power [of "2::nat" h] by arith+
  then have unfold: "fold_levels sha level = level # fold_levels sha (hash_pairs sha level)"
    using Suc.prems by (subst fold_levels.simps) simp
  from Suc.IH [OF len] have ok: "levels_ok sha h (fold_levels sha (hash_pairs sha level))"
    and first: "fold_levels sha (hash_pairs sha level) ! 0 = hash_pairs sha level" by auto
  have "levels_ok sha (Suc h) (level # fold_levels sha (hash_pairs sha level))"
    unfolding levels_ok_def
  proof (intro conjI allI impI)
    show "length (level # fold_levels sha (hash_pairs sha level)) = Suc (Suc h)" using ok by (simp add: levels_ok_def)
  next
    fix l assume "l \<le> Suc h"
    then show "length ((level # fold_levels sha (hash_pairs sha level)) ! l) = 2 ^ (Suc h - l)"
      using ok Suc.prems by (cases l) (simp_all add: levels_ok_def)
  next
    fix l i assume l: "l < Suc h" and i: "i < (2::nat) ^ (Suc h - Suc l)"
    show "(level # fold_levels sha (hash_pairs sha level)) ! Suc l ! i =
        sha ((level # fold_levels sha (hash_pairs sha level)) ! l ! (2 * i) @ (level # fold_levels sha (hash_pairs sha level)) ! l ! (2 * i + 1))"
    proof (cases l)
      case 0
      then show ?thesis using first i Suc.prems by (simp add: hash_pairs_nth)
    next
      case (Suc m)
      then show ?thesis using ok l i by (simp add: levels_ok_def)
    qed
  qed
  then show ?case by (simp add: unfold)
qed

lemma place_length [simp]: "length (place sha leaves kv buckets) = length buckets"
  by (cases kv) (simp add: place_def Let_def)

lemma fold_place_length [simp]: "length (fold (place sha leaves) items buckets) = length buckets"
  by (induction items arbitrary: buckets) simp_all

lemma bucket_of_range: "0 < leaves \<Longrightarrow> nat (mk_bucket_of sha leaves key) < nat leaves"
  by (simp add: mk_bucket_of_def)

lemma fold_place_get:
  assumes "0 < leaves" and "length buckets = nat leaves" and "b < nat leaves" and "dict_ok items"
  shows "dict_get (fold (place sha leaves) items buckets ! b) k =
    (if nat (mk_bucket_of sha leaves k) = b \<and> dict_get items k \<noteq> None then dict_get items k else dict_get (buckets ! b) k)"
  using assms(2, 4)
proof (induction items arbitrary: buckets)
  case (Cons x items)
  obtain key val where x: "x = (key, val)" by fastforce
  have ok: "dict_ok items" and new: "dict_get items key = None"
    using Cons.prems by (auto simp: x dict_ok_def dict_get_None)
  have b: "nat (mk_bucket_of sha leaves key) < length buckets" using bucket_of_range [OF assms(1)] Cons.prems by simp
  show ?case
    using Cons.IH [of "place sha leaves (key, val) buckets"] Cons.prems(1) ok new b
    by (auto simp: x place_def Let_def nth_list_update)
qed simp

lemma fold_place_ok:
  assumes "\<forall>bucket \<in> set buckets. dict_ok bucket" and "0 < leaves" and "length buckets = nat leaves"
  shows "\<forall>bucket \<in> set (fold (place sha leaves) items buckets). dict_ok bucket"
  using assms
proof (induction items arbitrary: buckets)
  case (Cons x items)
  obtain key val where x: "x = (key, val)" by fastforce
  have "\<forall>bucket \<in> set (place sha leaves (key, val) buckets). dict_ok bucket"
    using Cons.prems bucket_of_range [OF Cons.prems(2), of sha key]
    by (auto simp: place_def Let_def dest!: in_set_conv_nth [THEN iffD1] simp: nth_list_update split: if_splits)
  with Cons show ?case by (simp add: x)
qed simp

text \<open>What a tree is, from its constructor.\<close>

definition tree_of :: "(string \<Rightarrow> string) \<Rightarrow> (string, string) dict \<Rightarrow> nat \<Rightarrow> merkle \<Rightarrow> bool" where
  "tree_of sha items h t \<longleftrightarrow>
     mk_leaves t = 2 ^ h \<and> length (mk_buckets t) = 2 ^ h \<and> levels_ok sha h (mk_levels t) \<and>
     (\<forall>b < 2 ^ h. mk_levels t ! 0 ! b = sha (leaf_text (mk_buckets t ! b)) \<and> dict_ok (mk_buckets t ! b) \<and>
        (\<forall>k. dict_get (mk_buckets t ! b) k = (if nat (mk_bucket_of sha (2 ^ h) k) = b then dict_get items k else None)))"

lemma mk_new_tree:
  assumes "mk_new sha items leaves = Inr t" and "dict_ok items"
  shows "\<exists>h. leaves = 2 ^ h \<and> tree_of sha items h t"
proof -
  have n: "1 \<le> leaves" "leaves AND (leaves - 1) = 0" using assms(1) by (auto simp: mk_new_def split: if_splits)
  obtain h where h: "leaves = 2 ^ h" using power_of_two [OF n] by blast
  let ?bs = "fold (place sha (2 ^ h)) items (replicate (2 ^ h) [])"
  have t: "t = \<lparr>mk_leaves = 2 ^ h, mk_buckets = ?bs, mk_levels = fold_levels sha (map (\<lambda>bucket. sha (leaf_text bucket)) ?bs)\<rparr>"
    using assms(1) n by (auto simp: mk_new_def Let_def h nat_power_eq split: if_splits)
  note lev = fold_levels_ok [of "map (\<lambda>bucket. sha (leaf_text bucket)) ?bs" h sha]
  have ok: "dict_ok (?bs ! b)" if "b < 2 ^ h" for b
    using fold_place_ok [of "replicate (2 ^ h) []" "2 ^ h" sha items] that by (simp add: nat_power_eq)
  have got: "dict_get (?bs ! b) k = (if nat (mk_bucket_of sha (2 ^ h) k) = b then dict_get items k else None)" if "b < 2 ^ h" for b k
    using fold_place_get [of "2 ^ h" "replicate (2 ^ h) []" b items sha k] that assms(2) by (simp add: nat_power_eq)
  show ?thesis using lev ok got by (auto simp: tree_of_def t h)
qed

section \<open>The walk as a descent\<close>

fun descend :: "string list list \<Rightarrow> string list list \<Rightarrow> nat \<Rightarrow> nat \<Rightarrow> nat list" where
  "descend la lb 0 i = (if la ! 0 ! i = lb ! 0 ! i then [] else [i])"
| "descend la lb (Suc l) i =
     (if la ! Suc l ! i = lb ! Suc l ! i then [] else descend la lb l (2 * i) @ descend la lb l (2 * i + 1))"

fun descend_cost :: "string list list \<Rightarrow> string list list \<Rightarrow> nat \<Rightarrow> nat \<Rightarrow> nat" where
  "descend_cost la lb 0 i = 1"
| "descend_cost la lb (Suc l) i =
     (if la ! Suc l ! i = lb ! Suc l ! i then 1 else 1 + descend_cost la lb l (2 * i) + descend_cost la lb l (2 * i + 1))"

lemma mk_walk_descends:
  "mk_walk la lb pending (ds, c) =
     (ds @ concat (map (\<lambda>(l, i). descend la lb l i) pending), c + sum_list (map (\<lambda>(l, i). descend_cost la lb l i) pending))"
proof (induction la lb pending "(ds, c)" arbitrary: ds c rule: mk_walk.induct)
  case (2 la lb level i pending ds c)
  then show ?case by (cases level) simp_all
qed simp

lemma descend_range: "set (descend la lb l i) \<subseteq> {i * 2 ^ l ..< Suc i * 2 ^ l}"
proof (induction l arbitrary: i)
  case (Suc l)
  show ?case
  proof
    fix x
    assume "x \<in> set (descend la lb (Suc l) i)"
    then have "x \<in> set (descend la lb l (2 * i)) \<or> x \<in> set (descend la lb l (2 * i + 1))" by (simp split: if_splits)
    then have "x \<in> {2 * i * 2 ^ l ..< Suc (2 * i) * 2 ^ l} \<or> x \<in> {(2 * i + 1) * 2 ^ l ..< Suc (2 * i + 1) * 2 ^ l}"
      using Suc.IH [of "2 * i"] Suc.IH [of "2 * i + 1"] by blast
    then show "x \<in> {i * 2 ^ Suc l ..< Suc i * 2 ^ Suc l}" by (auto simp: algebra_simps)
  qed
qed auto

lemma descend_sorted: "sorted_wrt (<) (descend la lb l i)"
proof (induction l arbitrary: i)
  case (Suc l)
  have "x < y" if "x \<in> set (descend la lb l (2 * i))" "y \<in> set (descend la lb l (2 * i + 1))" for x y
    using that descend_range [of la lb l "2 * i"] descend_range [of la lb l "2 * i + 1"] by (fastforce simp: algebra_simps)
  with Suc.IH show ?case by (simp add: sorted_wrt_append)
qed simp

lemma descend_leaves_differ: "j \<in> set (descend la lb l i) \<Longrightarrow> la ! 0 ! j \<noteq> lb ! 0 ! j"
  by (induction l arbitrary: i) (auto split: if_splits)

text \<open>Below a pair that differs, some leaf differs: hashing is a function.\<close>

lemma descend_finds:
  assumes "levels_ok sha h la" and "levels_ok sha h lb" and "l \<le> h" and "i < 2 ^ (h - l)" and "la ! l ! i \<noteq> lb ! l ! i"
  shows "descend la lb l i \<noteq> []"
  using assms(3, 4, 5)
proof (induction l arbitrary: i)
  case (Suc l)
  have "2 ^ (h - l) = 2 * (2::nat) ^ (h - Suc l)" using Suc.prems(1) by (simp add: Suc_diff_le flip: power_Suc)
  then have kids: "2 * i < 2 ^ (h - l)" "2 * i + 1 < 2 ^ (h - l)" using Suc.prems(2) by simp_all
  have "la ! l ! (2 * i) \<noteq> lb ! l ! (2 * i) \<or> la ! l ! (2 * i + 1) \<noteq> lb ! l ! (2 * i + 1)"
    using Suc.prems assms(1, 2) unfolding levels_ok_def by (metis Suc_le_lessD)
  then show ?case using Suc.IH [of "2 * i"] Suc.IH [of "2 * i + 1"] kids Suc.prems by auto
qed simp

lemma descend_cost_bound:
  assumes "levels_ok sha h la" and "levels_ok sha h lb" and "l \<le> h" and "i < 2 ^ (h - l)"
  shows "descend_cost la lb l i \<le> 1 + 2 * l * length (descend la lb l i)"
  using assms(3, 4)
proof (induction l arbitrary: i)
  case (Suc l)
  have "2 ^ (h - l) = 2 * (2::nat) ^ (h - Suc l)" using Suc.prems(1) by (simp add: Suc_diff_le flip: power_Suc)
  then have kids: "2 * i < 2 ^ (h - l)" "2 * i + 1 < 2 ^ (h - l)" using Suc.prems(2) by simp_all
  show ?case
  proof (cases "la ! Suc l ! i = lb ! Suc l ! i")
    case False
    let ?a = "length (descend la lb l (2 * i))" and ?b = "length (descend la lb l (2 * i + 1))"
    have "1 \<le> ?a + ?b" using descend_finds [OF assms(1, 2) Suc.prems False] False by (simp add: Suc_le_eq)
    moreover have "descend_cost la lb l (2 * i) \<le> 1 + 2 * l * ?a" "descend_cost la lb l (2 * i + 1) \<le> 1 + 2 * l * ?b"
      using Suc.IH kids Suc.prems(1) by auto
    ultimately show ?thesis using False by (simp add: algebra_simps)
  qed simp
qed simp

text \<open>Where hashes do not collide, a leaf that differs shows in every node above it.\<close>

fun pair_texts :: "string list \<Rightarrow> string list" where
  "pair_texts (x # y # rest) = (x @ y) # pair_texts rest"
| "pair_texts _ = []"

definition hashed_texts :: "merkle \<Rightarrow> string list" where
  "hashed_texts t = map leaf_text (mk_buckets t) @ concat (map pair_texts (mk_levels t))"

lemma pair_texts_mem: "2 * i + 1 < length xs \<Longrightarrow> xs ! (2 * i) @ xs ! (2 * i + 1) \<in> set (pair_texts xs)"
proof (induction xs arbitrary: i rule: pair_texts.induct)
  case (1 x y rest)
  then show ?case by (cases i) auto
qed auto

definition no_collision :: "(string \<Rightarrow> string) \<Rightarrow> merkle \<Rightarrow> merkle \<Rightarrow> bool" where
  "no_collision sha a b \<longleftrightarrow> (\<forall>x \<in> set (hashed_texts a). \<forall>y \<in> set (hashed_texts b). sha x = sha y \<longrightarrow> x = y)"

lemma hashed_pair:
  assumes "levels_ok sha h (mk_levels t)" and "l < h" and "i < 2 ^ (h - Suc l)"
  shows "mk_levels t ! l ! (2 * i) @ mk_levels t ! l ! (2 * i + 1) \<in> set (hashed_texts t)"
proof -
  have "2 ^ (h - l) = 2 * (2::nat) ^ (h - Suc l)" using assms(2) by (simp add: Suc_diff_Suc flip: power_Suc)
  then have "2 * i + 1 < length (mk_levels t ! l)" using assms by (simp add: levels_ok_def)
  from pair_texts_mem [OF this] show ?thesis using assms(1, 2) by (auto simp: hashed_texts_def levels_ok_def)
qed

lemma level_length:
  assumes "\<And>x. length (sha x) = 32" and "tree_of sha items h t" and "l \<le> h" and "i < 2 ^ (h - l)"
  shows "length (mk_levels t ! l ! i) = 32"
  using assms by (cases l) (auto simp: tree_of_def levels_ok_def)

lemma pairs_agree:
  assumes "\<And>x. length (sha x) = 32" and "tree_of sha xs h a" and "tree_of sha ys h b" and "no_collision sha a b"
    and "l < h" and "i < 2 ^ (h - Suc l)" and "mk_levels a ! Suc l ! i = mk_levels b ! Suc l ! i"
  shows "mk_levels a ! l ! (2 * i) = mk_levels b ! l ! (2 * i) \<and> mk_levels a ! l ! (2 * i + 1) = mk_levels b ! l ! (2 * i + 1)"
proof -
  have oka: "levels_ok sha h (mk_levels a)" and okb: "levels_ok sha h (mk_levels b)" using assms(2, 3) by (simp_all add: tree_of_def)
  have "2 ^ (h - l) = 2 * (2::nat) ^ (h - Suc l)" using assms(5) by (simp add: Suc_diff_Suc flip: power_Suc)
  then have kids: "2 * i < 2 ^ (h - l)" using assms(6) by simp
  have "sha (mk_levels a ! l ! (2 * i) @ mk_levels a ! l ! (2 * i + 1)) = sha (mk_levels b ! l ! (2 * i) @ mk_levels b ! l ! (2 * i + 1))"
    using assms(5, 6, 7) oka okb by (simp add: levels_ok_def)
  then have "mk_levels a ! l ! (2 * i) @ mk_levels a ! l ! (2 * i + 1) = mk_levels b ! l ! (2 * i) @ mk_levels b ! l ! (2 * i + 1)"
    using hashed_pair [OF oka assms(5, 6)] hashed_pair [OF okb assms(5, 6)] assms(4) unfolding no_collision_def by blast
  moreover have "length (mk_levels a ! l ! (2 * i)) = length (mk_levels b ! l ! (2 * i))"
    using level_length [OF assms(1, 2) _ kids] level_length [OF assms(1, 3) _ kids] assms(5) by simp
  ultimately show ?thesis by simp
qed

lemma agree_below:
  assumes "\<And>x. length (sha x) = 32" and "tree_of sha xs h a" and "tree_of sha ys h b" and "no_collision sha a b"
    and "l \<le> h" and "i < 2 ^ (h - l)" and "j \<notin> set (descend (mk_levels a) (mk_levels b) l i)" and "i * 2 ^ l \<le> j" and "j < Suc i * 2 ^ l"
  shows "mk_levels a ! 0 ! j = mk_levels b ! 0 ! j"
  using assms(5-)
proof (induction l arbitrary: i)
  case 0
  then have "j = i" by simp
  with 0 show ?case by (simp split: if_splits)
next
  case (Suc l)
  have l: "l < h" using Suc.prems(1) by simp
  have "2 ^ (h - l) = 2 * (2::nat) ^ (h - Suc l)" using l by (simp add: Suc_diff_Suc flip: power_Suc)
  then have kids: "2 * i < 2 ^ (h - l)" "2 * i + 1 < 2 ^ (h - l)" using Suc.prems(2) by simp_all
  have out: "j \<notin> set (descend (mk_levels a) (mk_levels b) l (2 * i))" "j \<notin> set (descend (mk_levels a) (mk_levels b) l (2 * i + 1))"
  proof -
    have "descend (mk_levels a) (mk_levels b) l c = []" if "mk_levels a ! l ! c = mk_levels b ! l ! c" for c
      using that by (cases l) simp_all
    then show "j \<notin> set (descend (mk_levels a) (mk_levels b) l (2 * i))" "j \<notin> set (descend (mk_levels a) (mk_levels b) l (2 * i + 1))"
      using Suc.prems(3) pairs_agree [OF assms(1-4) l Suc.prems(2)] by (auto split: if_splits)
  qed
  show ?case
  proof (cases "j < (2 * i + 1) * 2 ^ l")
    case True
    then show ?thesis using Suc.IH [of "2 * i"] kids out Suc.prems l by (simp add: algebra_simps)
  next
    case False
    then show ?thesis using Suc.IH [of "2 * i + 1"] kids out Suc.prems l by (simp add: algebra_simps)
  qed
qed

section \<open>Contents of a bucket\<close>

text \<open>Equal contents are hashed alike; without the separators in keys and values, only equal contents are.\<close>

lemma leaf_text_cong:
  assumes "dict_ok d" and "dict_ok e" and "\<And>k. dict_get d k = dict_get e k"
  shows "leaf_text d = leaf_text e"
proof -
  have "set (dict_keys d) = set (dict_keys e)" using assms(3) by (metis dict_get_None set_eqI)
  moreover have "distinct (dict_keys d)" "distinct (dict_keys e)" using assms(1, 2) by (simp_all add: dict_ok_def)
  ultimately have "sort (dict_keys d) = sort (dict_keys e)" by (metis sorted_list_of_set_sort_remdups distinct_remdups_id)
  then show ?thesis using assms(3) by (simp add: leaf_text_def)
qed

definition plain_text :: "string \<Rightarrow> bool" where
  "plain_text s \<longleftrightarrow> CHR ''='' \<notin> set s \<and> CHR 0x0A \<notin> set s"

definition plain_pairs :: "(string \<times> string) list \<Rightarrow> bool" where
  "plain_pairs ps \<longleftrightarrow> (\<forall>(k, v) \<in> set ps. plain_text k \<and> CHR 0x0A \<notin> set v)"

lemma split_at_first:
  "c \<notin> set xs \<Longrightarrow> c \<notin> set ys \<Longrightarrow> xs @ c # us = ys @ c # vs \<Longrightarrow> xs = ys \<and> us = vs"
  by (induction xs arbitrary: ys) (auto simp: Cons_eq_append_conv)

lemma lines_inject:
  "plain_pairs ps \<Longrightarrow> plain_pairs qs \<Longrightarrow> concat (map pair_line ps) = concat (map pair_line qs) \<Longrightarrow> ps = qs"
proof (induction ps arbitrary: qs)
  case Nil
  then show ?case by (cases qs) (auto simp: pair_line_def split: prod.splits)
next
  case (Cons p ps)
  obtain k v where p: "p = (k, v)" by fastforce
  obtain q qs' where q: "qs = q # qs'" using Cons.prems(3) by (cases qs) (auto simp: p pair_line_def)
  obtain k' v' where q': "q = (k', v')" by fastforce
  have key: "k = k' \<and> v @ CHR 0x0A # concat (map pair_line ps) = v' @ CHR 0x0A # concat (map pair_line qs')"
    using Cons.prems by (intro split_at_first) (auto simp: p q q' plain_pairs_def plain_text_def pair_line_def)
  have "v = v' \<and> concat (map pair_line ps) = concat (map pair_line qs')"
    using Cons.prems key by (intro split_at_first) (auto simp: p q q' plain_pairs_def)
  with key Cons.IH [of qs'] Cons.prems show ?case by (auto simp: p q q' plain_pairs_def)
qed

lemma leaf_text_inject:
  assumes "plain_pairs d" and "plain_pairs e" and "leaf_text d = leaf_text e"
  shows "dict_get d k = dict_get e k"
proof -
  let ?ps = "\<lambda>d. map (\<lambda>key. (key, the (dict_get d key))) (sort (dict_keys d))"
  have sub: "set (?ps d) \<subseteq> set d" for d :: "(string, string) dict"
  proof
    fix p
    assume "p \<in> set (?ps d)"
    then obtain key where key: "key \<in> set (dict_keys d)" "p = (key, the (dict_get d key))" by auto
    then obtain val where "dict_get d key = Some val" using dict_get_None [of d key] by (cases "dict_get d key") auto
    with key(2) show "p \<in> set d" using map_of_SomeD by fastforce
  qed
  have plain: "plain_pairs (?ps d)" if "plain_pairs d" for d :: "(string, string) dict"
    using that sub [of d] unfolding plain_pairs_def by blast
  have read: "dict_get (?ps d) k = dict_get d k" for d :: "(string, string) dict"
  proof (cases "k \<in> set (dict_keys d)")
    case True
    then obtain val where "dict_get d k = Some val" using dict_get_None [of d k] by (cases "dict_get d k") auto
    with True show ?thesis by (simp add: map_of_map_restrict restrict_map_def)
  next
    case False
    then have "dict_get d k = None" using dict_get_None [of d k] by blast
    with False show ?thesis by (simp add: map_of_map_restrict restrict_map_def)
  qed
  have "?ps d = ?ps e"
    using lines_inject [OF plain [OF assms(1)] plain [OF assms(2)]] assms(3) by (simp add: leaf_text_def)
  then show ?thesis using read [of d] read [of e] by simp
qed

section \<open>What the walk finds\<close>

lemma mk_diff_descends:
  assumes "tree_of sha xs h a" and "tree_of sha ys h b"
  shows "mk_diff a b = Inr (descend (mk_levels a) (mk_levels b) h 0, descend_cost (mk_levels a) (mk_levels b) h 0)"
  using assms sorted_sort_id [of "descend (mk_levels a) (mk_levels b) h 0"] descend_sorted [of "mk_levels a" "mk_levels b" h 0]
  by (simp add: mk_diff_def tree_of_def levels_ok_def mk_walk_descends strict_sorted_imp_sorted)

lemma same_height: "tree_of sha xs h a \<Longrightarrow> mk_leaves a = 2 ^ n \<Longrightarrow> h = n"
  by (simp add: tree_of_def)

lemma walk_is_sound:
  assumes "mk_new sha xs leaves = Inr a" and "mk_new sha ys leaves = Inr b" and "dict_ok xs" and "dict_ok ys"
    and "leaves = 2 ^ h"
  shows "\<exists>bs c. mk_diff a b = Inr (bs, c) \<and> sorted_wrt (<) bs \<and> c \<le> 1 + 2 * h * length bs \<and>
    (\<forall>i \<in> set bs. i < 2 ^ h \<and> (\<exists>k. nat (mk_bucket_of sha leaves k) = i \<and> dict_get xs k \<noteq> dict_get ys k))"
proof -
  have a: "tree_of sha xs h a" and b: "tree_of sha ys h b"
    using mk_new_tree [OF assms(1, 3)] mk_new_tree [OF assms(2, 4)] assms(5) by auto
  let ?bs = "descend (mk_levels a) (mk_levels b) h 0" and ?c = "descend_cost (mk_levels a) (mk_levels b) h 0"
  have ok: "levels_ok sha h (mk_levels a)" "levels_ok sha h (mk_levels b)" using a b by (simp_all add: tree_of_def)
  have "\<exists>k. nat (mk_bucket_of sha leaves k) = i \<and> dict_get xs k \<noteq> dict_get ys k" and "i < 2 ^ h" if i: "i \<in> set ?bs" for i
  proof -
    show lt: "i < 2 ^ h" using descend_range [of "mk_levels a" "mk_levels b" h 0] i by auto
    have "leaf_text (mk_buckets a ! i) \<noteq> leaf_text (mk_buckets b ! i)"
      using descend_leaves_differ [OF i] a b lt by (auto simp: tree_of_def)
    moreover have "dict_ok (mk_buckets a ! i)" "dict_ok (mk_buckets b ! i)" using a b lt by (simp_all add: tree_of_def)
    ultimately obtain k where "dict_get (mk_buckets a ! i) k \<noteq> dict_get (mk_buckets b ! i) k" using leaf_text_cong by blast
    then show "\<exists>k. nat (mk_bucket_of sha leaves k) = i \<and> dict_get xs k \<noteq> dict_get ys k"
      using a b lt assms(5) by (auto simp: tree_of_def split: if_splits)
  qed
  moreover have "?c \<le> 1 + 2 * h * length ?bs" by (rule descend_cost_bound [OF ok]) simp_all
  ultimately show ?thesis using mk_diff_descends [OF a b] descend_sorted by blast
qed

lemma bucket_plain:
  assumes "tree_of sha items h t" and "b < 2 ^ h" and "plain_pairs items"
  shows "plain_pairs (mk_buckets t ! b)"
  unfolding plain_pairs_def
proof (intro ballI, clarify)
  fix k v
  assume "(k, v) \<in> set (mk_buckets t ! b)"
  then have "dict_get (mk_buckets t ! b) k = Some v" using assms(1, 2) by (simp add: dict_get_mem tree_of_def)
  then have "dict_get items k = Some v" using assms(1, 2) by (simp add: tree_of_def split: if_splits)
  from map_of_SomeD [OF this] show "plain_text k \<and> CHR 0x0A \<notin> set v" using assms(3) unfolding plain_pairs_def by blast
qed

text \<open>Comparing two replicas returns, whatever the hash function: the buckets come in order and once each, every one of
  them holds a key on which the replicas disagree, and finding d buckets among 2 to the h takes at most 1 + 2 h d
  comparisons of hashes, one if the roots are equal.
\<close>
theorem merkle_walk_is_cheap:
  assumes "mk_new sha xs leaves = Inr a" and "mk_new sha ys leaves = Inr b" and "dict_ok xs" and "dict_ok ys"
    and "leaves = 2 ^ h"
  shows "\<exists>bs c. mk_diff a b = Inr (bs, c) \<and> sorted_wrt (<) bs \<and> c \<le> 1 + 2 * h * length bs \<and>
    (\<forall>i \<in> set bs. i < 2 ^ h \<and> (\<exists>k. nat (mk_bucket_of sha leaves k) = i \<and> dict_get xs k \<noteq> dict_get ys k))"
  by (rule walk_is_sound [OF assms])

text \<open>C22. Anti-entropy finds every difference. For two replicas whose keys and values are free of the separators of the leaf
  text, and a 32-byte hash that does not collide on the texts hashed in the two trees, the buckets the walk returns are
  exactly those that hold a key on which the replicas disagree: present in one only, or with two values.
\<close>
theorem merkle_diff_exact:
  assumes "mk_new sha xs leaves = Inr a" and "mk_new sha ys leaves = Inr b" and "dict_ok xs" and "dict_ok ys"
    and "plain_pairs xs" and "plain_pairs ys" and "\<And>x. length (sha x) = 32" and "no_collision sha a b"
  shows "\<exists>bs c. mk_diff a b = Inr (bs, c) \<and>
    (\<forall>i. i \<in> set bs \<longleftrightarrow> (\<exists>k. nat (mk_bucket_of sha leaves k) = i \<and> dict_get xs k \<noteq> dict_get ys k))"
proof -
  obtain h where h: "leaves = 2 ^ h" "tree_of sha xs h a" using mk_new_tree [OF assms(1, 3)] by blast
  then have b: "tree_of sha ys h b" using mk_new_tree [OF assms(2, 4)] by auto
  let ?bs = "descend (mk_levels a) (mk_levels b) h 0"
  obtain bs c where diff: "mk_diff a b = Inr (bs, c)"
    and sound: "\<forall>i \<in> set bs. \<exists>k. nat (mk_bucket_of sha leaves k) = i \<and> dict_get xs k \<noteq> dict_get ys k"
    using walk_is_sound [OF assms(1-4) h(1)] by blast
  have bs: "bs = ?bs" using mk_diff_descends [OF h(2) b] diff by simp
  have "nat (mk_bucket_of sha leaves k) \<in> set bs" if k: "dict_get xs k \<noteq> dict_get ys k" for k
  proof (rule ccontr)
    let ?i = "nat (mk_bucket_of sha leaves k)"
    have lt: "?i < 2 ^ h" using bucket_of_range [of leaves sha k] by (simp add: h(1) nat_power_eq)
    assume "?i \<notin> set bs"
    then have "mk_levels a ! 0 ! ?i = mk_levels b ! 0 ! ?i"
      using agree_below [OF assms(7) h(2) b assms(8), of h 0 ?i] lt unfolding bs by simp
    then have "sha (leaf_text (mk_buckets a ! ?i)) = sha (leaf_text (mk_buckets b ! ?i))"
      using h(2) b lt by (simp add: tree_of_def)
    moreover have "leaf_text (mk_buckets a ! ?i) \<in> set (hashed_texts a)" "leaf_text (mk_buckets b ! ?i) \<in> set (hashed_texts b)"
      using h(2) b lt by (simp_all add: hashed_texts_def tree_of_def)
    ultimately have text_eq: "leaf_text (mk_buckets a ! ?i) = leaf_text (mk_buckets b ! ?i)"
      using assms(8) unfolding no_collision_def by blast
    have "dict_get (mk_buckets a ! ?i) k = dict_get (mk_buckets b ! ?i) k"
      by (rule leaf_text_inject [OF bucket_plain [OF h(2) lt assms(5)] bucket_plain [OF b lt assms(6)] text_eq])
    then show False using k h b lt by (simp add: tree_of_def)
  qed
  with diff sound show ?thesis by blast
qed

text \<open>Two replicas of two buckets, under a hash of 32 bytes that tells their texts apart.\<close>

definition toy_sha :: "string \<Rightarrow> string" where
  "toy_sha s = replicate 31 CHR ''0'' @ [char_of (foldl (\<lambda>acc c. (31 * acc + of_char c) mod 256) (7 :: int) s)]"

lemma toy_sha_length: "length (toy_sha x) = 32"
  by (simp add: toy_sha_def)

lemma merkle_walk_is_cheap_witness:
  "\<exists>bs c. mk_diff (projr (mk_new toy_sha [(''a'', ''1''), (''b'', ''2'')] 4)) (projr (mk_new toy_sha [(''a'', ''1''), (''b'', ''3'')] 4)) = Inr (bs, c) \<and>
    sorted_wrt (<) bs \<and> c \<le> 1 + 2 * 2 * length bs \<and>
    (\<forall>i \<in> set bs. i < 2 ^ 2 \<and>
      (\<exists>k. nat (mk_bucket_of toy_sha 4 k) = i \<and> dict_get [(''a'', ''1''), (''b'', ''2'')] k \<noteq> dict_get [(''a'', ''1''), (''b'', ''3'')] k))"
proof -
  let ?xs = "[(''a'', ''1''), (''b'', ''2'')]" and ?ys = "[(''a'', ''1''), (''b'', ''3'')]"
  have a: "mk_new toy_sha ?xs 4 = Inr (projr (mk_new toy_sha ?xs 4))" and b: "mk_new toy_sha ?ys 4 = Inr (projr (mk_new toy_sha ?ys 4))"
    by (simp_all add: mk_new_def Let_def)
  have four: "(4 :: int) = 2 ^ 2" by simp
  show ?thesis by (rule merkle_walk_is_cheap [OF a b _ _ four]) (simp_all add: dict_ok_def)
qed

lemma merkle_diff_exact_witness:
  "\<exists>bs c. mk_diff (projr (mk_new toy_sha [(''a'', ''1''), (''b'', ''2'')] 2)) (projr (mk_new toy_sha [(''a'', ''1''), (''b'', ''3'')] 2)) = Inr (bs, c) \<and>
    (\<forall>i. i \<in> set bs \<longleftrightarrow>
      (\<exists>k. nat (mk_bucket_of toy_sha 2 k) = i \<and> dict_get [(''a'', ''1''), (''b'', ''2'')] k \<noteq> dict_get [(''a'', ''1''), (''b'', ''3'')] k))"
proof -
  let ?xs = "[(''a'', ''1''), (''b'', ''2'')]" and ?ys = "[(''a'', ''1''), (''b'', ''3'')]"
  have a: "mk_new toy_sha ?xs 2 = Inr (projr (mk_new toy_sha ?xs 2))" and b: "mk_new toy_sha ?ys 2 = Inr (projr (mk_new toy_sha ?ys 2))"
    by (simp_all add: mk_new_def Let_def)
  have apart: "no_collision toy_sha (projr (mk_new toy_sha ?xs 2)) (projr (mk_new toy_sha ?ys 2))"
    unfolding no_collision_def by code_simp
  show ?thesis
    by (rule merkle_diff_exact [OF a b _ _ _ _ toy_sha_length apart]) (simp_all add: dict_ok_def plain_pairs_def plain_text_def)
qed

text \<open>
  The separators of the leaf text are not escaped: one key whose value holds a line break and an equals sign, and two keys,
  are the same text, so the trees agree under every hash function while the data differ.
\<close>

lemma unescaped_pairs_agree:
  "leaf_text [(''a'', ''1'' @ [CHR 0x0A] @ ''b=2'')] = leaf_text [(''a'', ''1''), (''b'', ''2'')]"
  "dict_get [(''a'', ''1'' @ [CHR 0x0A] @ ''b=2'')] ''b'' \<noteq> dict_get [(''a'', ''1''), (''b'', ''2'')] ''b''"
  by (simp_all add: leaf_text_def pair_line_def)

lemma equal_roots_unequal_data:
  "\<exists>a b. mk_new sha [(''a'', ''1'' @ [CHR 0x0A] @ ''b=2'')] 1 = Inr a \<and> mk_new sha [(''a'', ''1''), (''b'', ''2'')] 1 = Inr b \<and>
    mk_root a = mk_root b \<and> mk_diff a b = Inr ([], 1)"
proof -
  have bucket: "mk_bucket_of sha 1 key = 0" for key by (simp add: mk_bucket_of_def)
  have one: "fold_levels sha [x] = [[x]]" for x by (subst fold_levels.simps) simp
  show ?thesis
    using unescaped_pairs_agree(1) by (simp add: mk_new_def place_def bucket one mk_root_def mk_diff_def)
qed

end
