(* ===== verification/Text_Buffers.thy ===== *)
theory Text_Buffers
  imports Common
begin

text \<open>
  \<^verbatim>\<open>code/lld/text_editor/buffers.py\<close>: the two buffers under a document, a plain string and a gap buffer, and the
  contract \<^verbatim>\<open>TextBuffer\<close> of \<^verbatim>\<open>models.py\<close> that documents rely on.

  Positions are Python integers. A cell of the gap buffer is a string, of one character outside the gap; cells are read at
  indices that the invariant keeps in range.
\<close>

section \<open>Slices\<close>

text \<open>\<^verbatim>\<open>xs[a:b]\<close> and \<^verbatim>\<open>xs[a:b] = ys\<close>: a negative bound counts from the end, and bounds are clipped.\<close>

definition slice_bound :: "'a list \<Rightarrow> int \<Rightarrow> nat" where
  "slice_bound xs i = nat (if i < 0 then max 0 (i + int (length xs)) else min i (int (length xs)))"

definition py_slice :: "'a list \<Rightarrow> int \<Rightarrow> int \<Rightarrow> 'a list" where
  "py_slice xs a b = take (slice_bound xs b - slice_bound xs a) (drop (slice_bound xs a) xs)"

definition slice_assign :: "'a list \<Rightarrow> int \<Rightarrow> int \<Rightarrow> 'a list \<Rightarrow> 'a list" where
  "slice_assign xs a b ys = take (slice_bound xs a) xs @ ys @ drop (max (slice_bound xs a) (slice_bound xs b)) xs"

lemma slice_bound_in [simp]: "n \<le> length xs \<Longrightarrow> slice_bound xs (int n) = n"
  by (simp add: slice_bound_def)

lemma py_slice_in: "a \<le> b \<Longrightarrow> b \<le> length xs \<Longrightarrow> py_slice xs (int a) (int b) = take (b - a) (drop a xs)"
  by (simp add: py_slice_def)

lemma slice_assign_in: "a \<le> b \<Longrightarrow> b \<le> length xs \<Longrightarrow> slice_assign xs (int a) (int b) ys = take a xs @ ys @ drop b xs"
  by (simp add: slice_assign_def max_def)

lemma py_slice_to: "b \<le> length xs \<Longrightarrow> py_slice xs 0 (int b) = take b xs"
  using py_slice_in [of 0 b xs] by simp

lemma py_slice_from: "a \<le> length xs \<Longrightarrow> py_slice xs (int a) (int (length xs)) = drop a xs"
  using py_slice_in [of a "length xs" xs] by simp

section \<open>A plain string\<close>

type_synonym simple_buffer = string

definition sb_check :: "int \<Rightarrow> simple_buffer \<Rightarrow> bool" where
  "sb_check position b \<longleftrightarrow> 0 \<le> position \<and> position \<le> int (length b)"

definition sb_slice :: "int \<Rightarrow> int \<Rightarrow> simple_buffer \<Rightarrow> string" where
  "sb_slice start fin b = py_slice b (max 0 start) (max 0 fin)"

definition sb_insert :: "int \<Rightarrow> string \<Rightarrow> simple_buffer \<Rightarrow> simple_buffer result" where
  "sb_insert position s b =
     (if \<not> sb_check position b then Inl ValidationError
      else Inr (py_slice b 0 position @ s @ py_slice b position (int (length b))))"

definition sb_delete :: "int \<Rightarrow> int \<Rightarrow> simple_buffer \<Rightarrow> (string \<times> simple_buffer) result" where
  "sb_delete position n b =
     (if \<not> sb_check (position + n) b then Inl ValidationError
      else Inr (py_slice b position (position + n), py_slice b 0 position @ py_slice b (position + n) (int (length b))))"

section \<open>A gap buffer\<close>

record gap_buffer =
  gb_chars :: "string list"
  gb_start :: int
  gb_end :: int

definition min_gap :: int where
  "min_gap = 16"

definition gb_new :: "string \<Rightarrow> int \<Rightarrow> gap_buffer" where
  "gb_new s gap_size =
     (let chars = map (\<lambda>c. [c]) s @ replicate (nat (max gap_size 1)) []
      in \<lparr>gb_chars = chars, gb_start = int (length s), gb_end = int (length chars)\<rparr>)"

definition gb_len :: "gap_buffer \<Rightarrow> int" where
  "gb_len b = int (length (gb_chars b)) - (gb_end b - gb_start b)"

definition gb_text :: "gap_buffer \<Rightarrow> string" where
  "gb_text b = concat (py_slice (gb_chars b) 0 (gb_start b)) @ concat (py_slice (gb_chars b) (gb_end b) (int (length (gb_chars b))))"

definition gb_gap_size :: "gap_buffer \<Rightarrow> int" where
  "gb_gap_size b = gb_end b - gb_start b"

definition gb_raw :: "int \<Rightarrow> gap_buffer \<Rightarrow> int" where
  "gb_raw i b = (if i < gb_start b then i else i + (gb_end b - gb_start b))"

definition gb_slice :: "int \<Rightarrow> int \<Rightarrow> gap_buffer \<Rightarrow> string" where
  "gb_slice start fin b = concat (map (\<lambda>i. gb_chars b ! nat (gb_raw i b)) [max 0 start .. min (gb_len b) fin - 1])"

definition gb_check :: "int \<Rightarrow> gap_buffer \<Rightarrow> bool" where
  "gb_check position b \<longleftrightarrow> 0 \<le> position \<and> position \<le> gb_len b"

definition gb_move_gap :: "int \<Rightarrow> gap_buffer \<Rightarrow> gap_buffer" where
  "gb_move_gap position b =
     (if position < gb_start b
      then let count = gb_start b - position
           in b\<lparr>gb_chars := slice_assign (gb_chars b) (gb_end b - count) (gb_end b) (py_slice (gb_chars b) position (gb_start b)),
                gb_start := gb_start b - count, gb_end := gb_end b - count\<rparr>
      else if gb_start b < position
      then let count = position - gb_start b
           in b\<lparr>gb_chars := slice_assign (gb_chars b) (gb_start b) (gb_start b + count)
                              (py_slice (gb_chars b) (gb_end b) (gb_end b + count)),
                gb_start := gb_start b + count, gb_end := gb_end b + count\<rparr>
      else b)"

definition gb_grow :: "int \<Rightarrow> gap_buffer \<Rightarrow> gap_buffer" where
  "gb_grow needed b =
     (let extra = max needed (max (int (length (gb_chars b)) div 2) min_gap)
      in b\<lparr>gb_chars := slice_assign (gb_chars b) (gb_end b) (gb_end b) (replicate (nat extra) []), gb_end := gb_end b + extra\<rparr>)"

definition gb_put :: "char \<Rightarrow> gap_buffer \<Rightarrow> gap_buffer" where
  "gb_put c b = b\<lparr>gb_chars := (gb_chars b)[nat (gb_start b) := [c]], gb_start := gb_start b + 1\<rparr>"

definition gb_insert :: "int \<Rightarrow> string \<Rightarrow> gap_buffer \<Rightarrow> gap_buffer result" where
  "gb_insert position s b =
     (if \<not> gb_check position b then Inl ValidationError
      else let b1 = gb_move_gap position b;
               b2 = (if gb_end b1 - gb_start b1 < int (length s) then gb_grow (int (length s)) b1 else b1)
           in Inr (fold gb_put s b2))"

definition gb_delete :: "int \<Rightarrow> int \<Rightarrow> gap_buffer \<Rightarrow> (string \<times> gap_buffer) result" where
  "gb_delete position n b =
     (if \<not> gb_check (position + n) b then Inl ValidationError
      else let removed = gb_slice position (position + n) b; b1 = gb_move_gap position b
           in Inr (removed, b1\<lparr>gb_end := gb_end b1 + n\<rparr>))"

section \<open>The contract of a buffer\<close>

datatype buffer_op = Put int string | Remove int int | Read int int

fun text_edits :: "buffer_op list \<Rightarrow> string \<Rightarrow> string result list" where
  "text_edits [] t = []"
| "text_edits (Put i s # ops) t =
     (if 0 \<le> i \<and> i \<le> int (length t) then Inr [] # text_edits ops (take (nat i) t @ s @ drop (nat i) t)
      else Inl ValidationError # text_edits ops t)"
| "text_edits (Remove i n # ops) t =
     (if i + n \<le> int (length t) then Inr (take (nat n) (drop (nat i) t)) # text_edits ops (take (nat i) t @ drop (nat (i + n)) t)
      else Inl ValidationError # text_edits ops t)"
| "text_edits (Read i j # ops) t = Inr (take (nat j - nat i) (drop (nat i) t)) # text_edits ops t"

locale text_buffer =
  fixes ok :: "'b \<Rightarrow> bool"
    and contents :: "'b \<Rightarrow> string"
    and ins :: "int \<Rightarrow> string \<Rightarrow> 'b \<Rightarrow> 'b result"
    and del :: "int \<Rightarrow> int \<Rightarrow> 'b \<Rightarrow> (string \<times> 'b) result"
    and cut :: "int \<Rightarrow> int \<Rightarrow> 'b \<Rightarrow> string"
  assumes ins_in: "ok b \<Longrightarrow> p \<le> length (contents b) \<Longrightarrow>
      \<exists>b'. ins (int p) s b = Inr b' \<and> ok b' \<and> contents b' = take p (contents b) @ s @ drop p (contents b)"
    and ins_out: "ok b \<Longrightarrow> \<not> (0 \<le> i \<and> i \<le> int (length (contents b))) \<Longrightarrow> ins i s b = Inl ValidationError"
    and del_in: "ok b \<Longrightarrow> p + n \<le> length (contents b) \<Longrightarrow>
      \<exists>b'. del (int p) (int n) b = Inr (take n (drop p (contents b)), b') \<and> ok b' \<and>
        contents b' = take p (contents b) @ drop (p + n) (contents b)"
    and del_out: "ok b \<Longrightarrow> length (contents b) < p + n \<Longrightarrow> del (int p) (int n) b = Inl ValidationError"
    and cut_text: "ok b \<Longrightarrow> cut i j b = take (nat j - nat i) (drop (nat i) (contents b))"
begin

lemma del_ins:
  assumes "ok b" and "p \<le> length (contents b)"
  obtains b1 b2 where "ins (int p) s b = Inr b1" "del (int p) (int (length s)) b1 = Inr (s, b2)" "ok b1" "ok b2" "contents b2 = contents b"
proof -
  obtain b1 where b1: "ins (int p) s b = Inr b1" "ok b1" "contents b1 = take p (contents b) @ s @ drop p (contents b)"
    using ins_in [OF assms] by blast
  moreover have "p + length s \<le> length (contents b1)" using assms(2) by (simp add: b1)
  ultimately show ?thesis using del_in [of b1 p "length s"] assms(2) that by auto
qed

lemma ins_del:
  assumes "ok b" and "p + n \<le> length (contents b)"
  obtains s b1 b2 where "del (int p) (int n) b = Inr (s, b1)" "ins (int p) s b1 = Inr b2" "ok b1" "ok b2" "contents b2 = contents b"
proof -
  obtain b1 where b1: "del (int p) (int n) b = Inr (take n (drop p (contents b)), b1)" "ok b1"
    "contents b1 = take p (contents b) @ drop (p + n) (contents b)"
    using del_in [OF assms] by blast
  moreover have "take n (drop p (contents b)) @ drop (p + n) (contents b) = drop p (contents b)"
    by (metis append_take_drop_id drop_drop add.commute)
  moreover have "p \<le> length (contents b1)" using assms(2) by (simp add: b1)
  from ins_in [OF b1(2) this, of "take n (drop p (contents b))"]
  obtain b2 where "ins (int p) (take n (drop p (contents b))) b1 = Inr b2" "ok b2"
    "contents b2 = take p (contents b1) @ take n (drop p (contents b)) @ drop p (contents b1)" by blast
  ultimately show ?thesis using assms(2) that by simp
qed

text \<open>A program of edits and reads answers as it does on the plain text.\<close>

fun edits :: "buffer_op list \<Rightarrow> 'b \<Rightarrow> string result list" where
  "edits [] b = []"
| "edits (Put i s # ops) b = (case ins i s b of Inl e \<Rightarrow> Inl e # edits ops b | Inr b1 \<Rightarrow> Inr [] # edits ops b1)"
| "edits (Remove i n # ops) b = (case del i n b of Inl e \<Rightarrow> Inl e # edits ops b | Inr (s, b1) \<Rightarrow> Inr s # edits ops b1)"
| "edits (Read i j # ops) b = Inr (cut i j b) # edits ops b"

lemma edits_text:
  "ok b \<Longrightarrow> \<forall>i n. Remove i n \<in> set ops \<longrightarrow> 0 \<le> i \<and> 0 \<le> n \<Longrightarrow> edits ops b = text_edits ops (contents b)"
proof (induction ops arbitrary: b)
  case (Cons op ops)
  have rest: "\<forall>i n. Remove i n \<in> set ops \<longrightarrow> 0 \<le> i \<and> 0 \<le> n" using Cons.prems(2) by auto
  show ?case
  proof (cases op)
    case (Put i s)
    show ?thesis
    proof (cases "0 \<le> i \<and> i \<le> int (length (contents b))")
      case True
      then obtain p where p: "i = int p" "p \<le> length (contents b)" using zero_le_imp_eq_int by force
      obtain b' where "ins (int p) s b = Inr b'" "ok b'" "contents b' = take p (contents b) @ s @ drop p (contents b)"
        using ins_in [OF Cons.prems(1) p(2)] by blast
      then show ?thesis using Cons.IH [of b'] rest p by (simp add: Put)
    next
      case False
      then show ?thesis using Cons.IH [OF Cons.prems(1) rest] ins_out [OF Cons.prems(1) False] by (auto simp: Put)
    qed
  next
    case (Remove i n)
    then obtain p k where p: "i = int p" "n = int k" using Cons.prems(2) zero_le_imp_eq_int by (metis list.set_intros(1))
    show ?thesis
    proof (cases "p + k \<le> length (contents b)")
      case True
      obtain b' where "del (int p) (int k) b = Inr (take k (drop p (contents b)), b')" "ok b'"
        "contents b' = take p (contents b) @ drop (p + k) (contents b)"
        using del_in [OF Cons.prems(1) True] by blast
      then show ?thesis using Cons.IH [of b'] rest True by (simp add: Remove p nat_add_distrib)
    next
      case False
      then show ?thesis
        using Cons.IH [OF Cons.prems(1) rest] del_out [OF Cons.prems(1), of p k] by (simp add: Remove p not_le)
    qed
  next
    case (Read i j)
    then show ?thesis using Cons.IH [OF Cons.prems(1) rest] cut_text [OF Cons.prems(1)] by simp
  qed
qed simp

end

section \<open>The plain string keeps the contract\<close>

lemma sb_cut: "py_slice t (max 0 i) (max 0 j) = take (nat j - nat i) (drop (nat i) t)"
proof -
  have b: "slice_bound t (max 0 k) = min (nat k) (length t)" for k by (auto simp: slice_bound_def)
  show ?thesis unfolding py_slice_def b by (cases "nat i \<le> length t") (auto simp: min_def)
qed

interpretation sb: text_buffer "\<lambda>b. True" "\<lambda>b. b" sb_insert sb_delete sb_slice
proof
  fix b :: simple_buffer and p n :: nat
  assume "p + n \<le> length b"
  then have "py_slice b (int p) (int (p + n)) = take n (drop p b)" "py_slice b 0 (int p) = take p b"
    "py_slice b (int (p + n)) (int (length b)) = drop (p + n) b"
    using py_slice_in [of p "p + n" b] py_slice_to [of p b] py_slice_from [of "p + n" b] by simp_all
  then show "\<exists>b'. sb_delete (int p) (int n) b = Inr (take n (drop p b), b') \<and> True \<and> b' = take p b @ drop (p + n) b"
    using \<open>p + n \<le> length b\<close> by (simp add: sb_delete_def sb_check_def)
qed (auto simp: sb_insert_def sb_delete_def sb_slice_def sb_check_def sb_cut py_slice_to py_slice_from)

section \<open>The gap buffer keeps the contract\<close>

text \<open>\<open>l\<close> before the gap, \<open>g\<close> in it, whatever it is, and \<open>r\<close> behind it.\<close>

abbreviation cells :: "string \<Rightarrow> string list" where
  "cells s \<equiv> map (\<lambda>c. [c]) s"

definition gb_shows :: "string \<Rightarrow> string list \<Rightarrow> string \<Rightarrow> gap_buffer \<Rightarrow> bool" where
  "gb_shows l g r b \<longleftrightarrow> gb_chars b = cells l @ g @ cells r \<and> gb_start b = int (length l) \<and> gb_end b = int (length l + length g)"

definition gb_ok :: "gap_buffer \<Rightarrow> bool" where
  "gb_ok b \<longleftrightarrow> (\<exists>l g r. gb_shows l g r b)"

lemma concat_cells [simp]: "concat (cells s) = s"
  by (induction s) auto

lemma gb_shows_len: "gb_shows l g r b \<Longrightarrow> gb_len b = int (length l + length r)"
  by (simp add: gb_shows_def gb_len_def)

lemma gb_shows_text:
  assumes "gb_shows l g r b"
  shows "gb_text b = l @ r"
proof -
  have "py_slice (gb_chars b) 0 (gb_start b) = cells l" using assms py_slice_to [of "length l" "gb_chars b"] by (simp add: gb_shows_def)
  moreover have "py_slice (gb_chars b) (gb_end b) (int (length (gb_chars b))) = cells r"
    using assms py_slice_from [of "length l + length g" "gb_chars b"] by (simp add: gb_shows_def)
  ultimately show ?thesis by (simp add: gb_text_def)
qed

lemma gb_raw_cell:
  assumes "gb_shows l g r b" and "i < length (l @ r)"
  shows "gb_chars b ! nat (gb_raw (int i) b) = [(l @ r) ! i]"
  using assms by (auto simp: gb_shows_def gb_raw_def nth_append nat_add_distrib)

lemma int_range: "[int m .. int n - 1] = map int [m ..< n]"
proof (induction n)
  case (Suc n)
  then show ?case by (cases "m \<le> n") (simp_all add: upto_rec2)
qed simp

lemma nth_range: "map ((!) xs) [a ..< min (length xs) b] = take (b - a) (drop a xs)"
proof (rule nth_equalityI)
  fix i
  assume "i < length (map ((!) xs) [a ..< min (length xs) b])"
  then have i: "i < min (length xs) b - a" by simp
  then have "a + i < min (length xs) b" unfolding less_diff_conv by (simp only: add.commute)
  then show "map ((!) xs) [a ..< min (length xs) b] ! i = take (b - a) (drop a xs) ! i" using i by simp
qed auto

lemma gb_cut:
  assumes "gb_shows l g r b"
  shows "gb_slice i j b = take (nat j - nat i) (drop (nat i) (l @ r))"
proof -
  let ?n = "min (length (l @ r)) (nat j)"
  have upt: "[max 0 i .. min (gb_len b) j - 1] = map int [nat i ..< ?n]"
  proof (cases "0 \<le> j")
    case True
    then have "min (gb_len b) j = int ?n" "max 0 i = int (nat i)" using gb_shows_len [OF assms] by simp_all
    then show ?thesis by (simp only: int_range)
  next
    case False
    then have "min (gb_len b) j - 1 < max 0 i" by simp
    with False show ?thesis by simp
  qed
  have "map (\<lambda>k. gb_chars b ! nat (gb_raw k b)) (map int [nat i ..< ?n]) = map (\<lambda>k. [(l @ r) ! k]) [nat i ..< ?n]"
    using gb_raw_cell [OF assms] by simp
  moreover have "map (\<lambda>k. [(l @ r) ! k]) [nat i ..< ?n] = cells (map ((!) (l @ r)) [nat i ..< ?n])" by simp
  moreover have "map ((!) (l @ r)) [nat i ..< ?n] = take (nat j - nat i) (drop (nat i) (l @ r))"
    by (rule nth_range)
  ultimately show ?thesis unfolding gb_slice_def upt by (metis concat_cells)
qed

lemma gb_new_shows: "gb_shows s (replicate (nat (max gap_size 1)) []) [] (gb_new s gap_size)"
  by (simp add: gb_new_def gb_shows_def Let_def)

lemma gb_move_left:
  assumes "gb_shows (l1 @ l2) g r b" and "l2 \<noteq> []"
  shows "\<exists>g'. length g' = length g \<and> gb_shows l1 g' (l2 @ r) (gb_move_gap (int (length l1)) b)"
proof -
  let ?c = "length l2" and ?chars = "cells l1 @ cells l2 @ g @ cells r"
  define g' where "g' = take (length g) (cells l2 @ g)"
  have len: "length g' = length g" by (auto simp: g'_def)
  have b: "gb_chars b = ?chars" "gb_start b = int (length l1 + ?c)" "gb_end b = int (length l1 + ?c + length g)"
    using assms(1) by (simp_all add: gb_shows_def)
  have copied: "py_slice ?chars (int (length l1)) (int (length l1 + ?c)) = cells l2"
    using py_slice_in [of "length l1" "length l1 + ?c" ?chars] by simp
  have moved: "slice_assign ?chars (int (length l1 + length g)) (int (length l1 + ?c + length g)) (cells l2) = cells l1 @ g' @ cells l2 @ cells r"
    using slice_assign_in [of "length l1 + length g" "length l1 + ?c + length g" ?chars "cells l2"] by (simp add: g'_def add.assoc)
  have "gb_move_gap (int (length l1)) b =
      b\<lparr>gb_chars := cells l1 @ g' @ cells l2 @ cells r, gb_start := int (length l1), gb_end := int (length l1 + length g)\<rparr>"
    using assms(2) copied moved by (simp add: gb_move_gap_def Let_def b)
  then show ?thesis by (intro exI [of _ g']) (simp add: gb_shows_def len)
qed

lemma gb_move_right:
  assumes "gb_shows l g (r1 @ r2) b" and "r1 \<noteq> []"
  shows "\<exists>g'. length g' = length g \<and> gb_shows (l @ r1) g' r2 (gb_move_gap (int (length (l @ r1))) b)"
proof -
  let ?c = "length r1" and ?chars = "cells l @ g @ cells r1 @ cells r2"
  define g' where "g' = drop (length r1) (g @ cells r1)"
  have len: "length g' = length g" by (auto simp: g'_def)
  have b: "gb_chars b = ?chars" "gb_start b = int (length l)" "gb_end b = int (length l + length g)"
    using assms(1) by (simp_all add: gb_shows_def)
  have copied: "py_slice ?chars (int (length l + length g)) (int (length l + length g + ?c)) = cells r1"
    using py_slice_in [of "length l + length g" "length l + length g + ?c" ?chars] by simp
  have moved: "slice_assign ?chars (int (length l)) (int (length l + ?c)) (cells r1) = cells l @ cells r1 @ g' @ cells r2"
    using slice_assign_in [of "length l" "length l + ?c" ?chars "cells r1"] by (simp add: g'_def)
  have "gb_move_gap (int (length (l @ r1))) b =
      b\<lparr>gb_chars := cells l @ cells r1 @ g' @ cells r2, gb_start := int (length l + ?c), gb_end := int (length l + length g + ?c)\<rparr>"
    using assms(2) copied moved by (simp add: gb_move_gap_def Let_def b)
  then show ?thesis by (intro exI [of _ g']) (simp add: gb_shows_def len)
qed

lemma gb_move_gap_shows:
  assumes "gb_shows l g r b" and "p \<le> length (l @ r)"
  shows "\<exists>g'. length g' = length g \<and> gb_shows (take p (l @ r)) g' (drop p (l @ r)) (gb_move_gap (int p) b)"
proof -
  consider "p < length l" | "p = length l" | "length l < p" by linarith
  then show ?thesis
  proof cases
    case 1
    then show ?thesis using gb_move_left [of "take p l" "drop p l" g r b] assms(1) by simp
  next
    case 2
    then have "gb_move_gap (int p) b = b" using assms(1) by (simp add: gb_move_gap_def gb_shows_def)
    then show ?thesis using assms(1) 2 by auto
  next
    case 3
    then show ?thesis
      using gb_move_right [of l g "take (p - length l) r" "drop (p - length l) r" b] assms by (cases "r = []") simp_all
  qed
qed

lemma gb_grow_shows:
  assumes "gb_shows l g r b"
  shows "\<exists>g'. needed \<le> int (length g') \<and> gb_shows l g' r (gb_grow needed b)"
proof -
  let ?chars = "cells l @ g @ cells r"
  define extra where "extra = max needed (max (int (length ?chars) div 2) min_gap)"
  have pos: "0 \<le> extra" by (simp add: extra_def min_gap_def le_max_iff_disj)
  have b: "gb_chars b = ?chars" "gb_start b = int (length l)" "gb_end b = int (length l + length g)"
    using assms by (simp_all add: gb_shows_def)
  have "slice_assign ?chars (int (length l + length g)) (int (length l + length g)) (replicate (nat extra) []) =
      cells l @ (g @ replicate (nat extra) []) @ cells r"
    using slice_assign_in [of "length l + length g" "length l + length g" ?chars] by simp
  then have "gb_grow needed b = b\<lparr>gb_chars := cells l @ (g @ replicate (nat extra) []) @ cells r, gb_end := int (length l + length g) + extra\<rparr>"
    by (simp add: gb_grow_def Let_def b flip: extra_def) (simp add: extra_def)
  then have "gb_shows l (g @ replicate (nat extra) []) r (gb_grow needed b)" using pos by (simp add: gb_shows_def b)
  moreover have "needed \<le> int (length (g @ replicate (nat extra) []))" using pos by (simp add: extra_def)
  ultimately show ?thesis by blast
qed

lemma gb_put_shows:
  assumes "gb_shows l (x # g) r b"
  shows "gb_shows (l @ [c]) g r (gb_put c b)"
  using assms by (simp add: gb_shows_def gb_put_def list_update_append)

lemma gb_puts_show: "gb_shows l g r b \<Longrightarrow> length s \<le> length g \<Longrightarrow> gb_shows (l @ s) (drop (length s) g) r (fold gb_put s b)"
proof (induction s arbitrary: l g b)
  case (Cons c s)
  then obtain x g' where g: "g = x # g'" by (cases g) auto
  from gb_put_shows [of l x g' r b c] Cons show ?case using Cons.IH [of "l @ [c]" g' "gb_put c b"] by (simp add: g)
qed simp

lemma gb_insert_in:
  assumes "gb_shows l g r b" and "p \<le> length (l @ r)"
  shows "\<exists>b' g'. gb_insert (int p) s b = Inr b' \<and> gb_shows (take p (l @ r) @ s) g' (drop p (l @ r)) b'"
proof -
  let ?b1 = "gb_move_gap (int p) b"
  obtain g1 where g1: "gb_shows (take p (l @ r)) g1 (drop p (l @ r)) ?b1" using gb_move_gap_shows [OF assms] by blast
  have check: "gb_check (int p) b" using assms gb_shows_len [OF assms(1)] by (simp add: gb_check_def)
  have gap: "gb_end ?b1 - gb_start ?b1 = int (length g1)" using g1 by (simp add: gb_shows_def)
  have "\<exists>g2. length s \<le> length g2 \<and>
    gb_shows (take p (l @ r)) g2 (drop p (l @ r)) (if length g1 < length s then gb_grow (int (length s)) ?b1 else ?b1)"
  proof (cases "length g1 < length s")
    case True
    obtain g2 where "int (length s) \<le> int (length g2)" "gb_shows (take p (l @ r)) g2 (drop p (l @ r)) (gb_grow (int (length s)) ?b1)"
      using gb_grow_shows [OF g1] by blast
    with True show ?thesis by (intro exI [of _ g2]) (simp only: of_nat_le_iff if_True simp_thms)
  next
    case False
    then have "length s \<le> length g1" by simp
    with g1 show ?thesis by (intro exI [of _ g1] conjI) (simp_all only: False if_False)
  qed
  then obtain g2 where g2: "length s \<le> length g2"
    "gb_shows (take p (l @ r)) g2 (drop p (l @ r)) (if length g1 < length s then gb_grow (int (length s)) ?b1 else ?b1)" by blast
  from gb_puts_show [OF g2(2, 1)] check gap show ?thesis by (auto simp: gb_insert_def Let_def)
qed

lemma gb_delete_in:
  assumes "gb_shows l g r b" and "p + n \<le> length (l @ r)"
  shows "\<exists>b' g'. gb_delete (int p) (int n) b = Inr (take n (drop p (l @ r)), b') \<and>
    gb_shows (take p (l @ r)) g' (drop (p + n) (l @ r)) b'"
proof -
  let ?b1 = "gb_move_gap (int p) b"
  have p: "p \<le> length (l @ r)" using assms(2) by simp
  obtain g1 where g1: "gb_shows (take p (l @ r)) g1 (drop p (l @ r)) ?b1" using gb_move_gap_shows [OF assms(1) p] by blast
  have check: "gb_check (int p + int n) b" using assms gb_shows_len [OF assms(1)] by (simp add: gb_check_def)
  have removed: "gb_slice (int p) (int p + int n) b = take n (drop p (l @ r))"
    using gb_cut [OF assms(1), of "int p" "int p + int n"] by (simp add: nat_add_distrib)
  have "drop p (l @ r) = take n (drop p (l @ r)) @ drop (p + n) (l @ r)" by (metis append_take_drop_id drop_drop add.commute)
  then have "cells (drop p (l @ r)) = cells (take n (drop p (l @ r))) @ cells (drop (p + n) (l @ r))" by (metis map_append)
  then have "gb_shows (take p (l @ r)) (g1 @ cells (take n (drop p (l @ r)))) (drop (p + n) (l @ r)) (?b1\<lparr>gb_end := gb_end ?b1 + int n\<rparr>)"
    using g1 assms(2) by (simp add: gb_shows_def)
  then show ?thesis using check removed by (simp add: gb_delete_def Let_def) blast
qed

lemma gb_okE: "gb_ok b \<Longrightarrow> \<exists>l g r. gb_shows l g r b \<and> gb_text b = l @ r \<and> gb_len b = int (length (gb_text b))"
  unfolding gb_ok_def using gb_shows_text gb_shows_len by fastforce

interpretation gb: text_buffer gb_ok gb_text gb_insert gb_delete gb_slice
proof
  fix b :: gap_buffer and p :: nat and s
  assume "gb_ok b" and p: "p \<le> length (gb_text b)"
  then obtain l g r where b: "gb_shows l g r b" "gb_text b = l @ r" using gb_okE by blast
  from gb_insert_in [OF b(1), of p s] p b(2)
  show "\<exists>b'. gb_insert (int p) s b = Inr b' \<and> gb_ok b' \<and> gb_text b' = take p (gb_text b) @ s @ drop p (gb_text b)"
    unfolding gb_ok_def by (metis append.assoc gb_shows_text)
next
  fix b :: gap_buffer and p n :: nat
  assume "gb_ok b" and p: "p + n \<le> length (gb_text b)"
  then obtain l g r where b: "gb_shows l g r b" "gb_text b = l @ r" using gb_okE by blast
  from gb_delete_in [OF b(1), of p n] p b(2)
  show "\<exists>b'. gb_delete (int p) (int n) b = Inr (take n (drop p (gb_text b)), b') \<and> gb_ok b' \<and>
      gb_text b' = take p (gb_text b) @ drop (p + n) (gb_text b)"
    unfolding gb_ok_def by (metis gb_shows_text)
next
  fix b :: gap_buffer and i j
  assume "gb_ok b"
  then show "gb_slice i j b = take (nat j - nat i) (drop (nat i) (gb_text b))" using gb_okE gb_cut by metis
next
  fix b :: gap_buffer and i s
  assume "gb_ok b" and "\<not> (0 \<le> i \<and> i \<le> int (length (gb_text b)))"
  then show "gb_insert i s b = Inl ValidationError" using gb_okE [of b] by (auto simp: gb_insert_def gb_check_def)
next
  fix b :: gap_buffer and p n :: nat
  assume "gb_ok b" and "length (gb_text b) < p + n"
  then show "gb_delete (int p) (int n) b = Inl ValidationError" using gb_okE [of b] by (auto simp: gb_delete_def gb_check_def)
qed

lemma gb_new_ok: "gb_ok (gb_new s gap_size)" and gb_new_text: "gb_text (gb_new s gap_size) = s"
  using gb_new_shows [of s gap_size] gb_shows_text [OF gb_new_shows] by (auto simp: gb_ok_def)



text \<open>\<^verbatim>\<open>delete\<close> checks the end of its range only: from a negative position it lengthens the text.\<close>

lemma negative_delete_lengthens:
  "sb_delete (- 1) 1 ''abc'' = Inr ([], ''ababc'')"
  by code_simp

lemma negative_delete_differs:
  "map_sum id (\<lambda>(s, b). (s, gb_text b)) (gb_delete (- 1) 1 (gb_new ''abc'' 2)) \<noteq>
     map_sum id (\<lambda>(s, b). (s, b)) (sb_delete (- 1) 1 ''abc'')"
  by code_simp

section \<open>Either buffer\<close>

datatype buffer = Simple_Buffer simple_buffer | Gap_Buffer gap_buffer

fun buf_ok :: "buffer \<Rightarrow> bool" where
  "buf_ok (Simple_Buffer b) = True"
| "buf_ok (Gap_Buffer b) = gb_ok b"

fun buf_text :: "buffer \<Rightarrow> string" where
  "buf_text (Simple_Buffer b) = b"
| "buf_text (Gap_Buffer b) = gb_text b"

fun buf_len :: "buffer \<Rightarrow> int" where
  "buf_len (Simple_Buffer b) = int (length b)"
| "buf_len (Gap_Buffer b) = gb_len b"

fun buf_slice :: "int \<Rightarrow> int \<Rightarrow> buffer \<Rightarrow> string" where
  "buf_slice i j (Simple_Buffer b) = sb_slice i j b"
| "buf_slice i j (Gap_Buffer b) = gb_slice i j b"

fun buf_insert :: "int \<Rightarrow> string \<Rightarrow> buffer \<Rightarrow> buffer result" where
  "buf_insert i s (Simple_Buffer b) = map_sum id Simple_Buffer (sb_insert i s b)"
| "buf_insert i s (Gap_Buffer b) = map_sum id Gap_Buffer (gb_insert i s b)"

fun buf_delete :: "int \<Rightarrow> int \<Rightarrow> buffer \<Rightarrow> (string \<times> buffer) result" where
  "buf_delete i n (Simple_Buffer b) = map_sum id (apsnd Simple_Buffer) (sb_delete i n b)"
| "buf_delete i n (Gap_Buffer b) = map_sum id (apsnd Gap_Buffer) (gb_delete i n b)"

interpretation buf: text_buffer buf_ok buf_text buf_insert buf_delete buf_slice
proof
  fix b p s
  assume *: "buf_ok b" "p \<le> length (buf_text b)"
  show "\<exists>b'. buf_insert (int p) s b = Inr b' \<and> buf_ok b' \<and> buf_text b' = take p (buf_text b) @ s @ drop p (buf_text b)"
  proof (cases b)
    case (Simple_Buffer x)
    then show ?thesis using sb.ins_in [of p x s] * by auto
  next
    case (Gap_Buffer x)
    then obtain y where "gb_insert (int p) s x = Inr y" "gb_ok y" "gb_text y = take p (gb_text x) @ s @ drop p (gb_text x)"
      using gb.ins_in [of x p s] * by auto
    then show ?thesis using Gap_Buffer by (intro exI [of _ "Gap_Buffer y"]) simp
  qed
next
  fix b i s
  assume *: "buf_ok b" "\<not> (0 \<le> i \<and> i \<le> int (length (buf_text b)))"
  then show "buf_insert i s b = Inl ValidationError" using sb.ins_out gb.ins_out by (cases b) auto
next
  fix b p n
  assume *: "buf_ok b" "p + n \<le> length (buf_text b)"
  show "\<exists>b'. buf_delete (int p) (int n) b = Inr (take n (drop p (buf_text b)), b') \<and> buf_ok b' \<and>
      buf_text b' = take p (buf_text b) @ drop (p + n) (buf_text b)"
  proof (cases b)
    case (Simple_Buffer x)
    then show ?thesis using sb.del_in [of p n x] * by auto
  next
    case (Gap_Buffer x)
    then obtain y where "gb_delete (int p) (int n) x = Inr (take n (drop p (gb_text x)), y)" "gb_ok y"
      "gb_text y = take p (gb_text x) @ drop (p + n) (gb_text x)"
      using gb.del_in [of x p n] * by auto
    then show ?thesis using Gap_Buffer by (intro exI [of _ "Gap_Buffer y"]) simp
  qed
next
  fix b p n
  assume "buf_ok b" "length (buf_text b) < p + n"
  then show "buf_delete (int p) (int n) b = Inl ValidationError" using sb.del_out gb.del_out by (cases b) auto
next
  fix b i j
  assume "buf_ok b"
  then show "buf_slice i j b = take (nat j - nat i) (drop (nat i) (buf_text b))" using sb.cut_text gb.cut_text by (cases b) auto
qed

lemma buf_len_text: "buf_ok b \<Longrightarrow> buf_len b = int (length (buf_text b))"
  using gb_okE by (cases b) auto

end
