(* ===== verification/Text_Document.thy ===== *)
theory Text_Document
  imports Text_Buffers
begin

text \<open>
  \<^verbatim>\<open>code/lld/text_editor\<close> over its buffers: the commands of \<^verbatim>\<open>commands.py\<close> with their inverses and the two stacks
  of the history, and the document and editor of \<^verbatim>\<open>services.py\<close> with tabs, clipboard and storage.

  A command keeps in \<^verbatim>\<open>removed\<close> what it took out, so executing one answers the command it has become. The saved
  marker of a document is a command object compared by identity: an entry of the history carries a number that is
  fresh for every object. An operation answers its result beside the state it leaves, which after a raise is not
  always the state it found. Locks are left out (a document's operations hold its lock); listeners see the
  name and revision after a change and have no say.
\<close>

section \<open>Cursors and selections\<close>

record cursor =
  cu_position :: int
  cu_anchor :: "int option"

abbreviation caret :: "int \<Rightarrow> cursor" where
  "caret p \<equiv> \<lparr>cu_position = p, cu_anchor = None\<rparr>"

record selection =
  se_start :: int
  se_end :: int

definition selection_new :: "int \<Rightarrow> int \<Rightarrow> selection result" where
  "selection_new start fin =
     (if start < 0 \<or> fin < start then Inl ValidationError else Inr \<lparr>se_start = start, se_end = fin\<rparr>)"

definition se_length :: "selection \<Rightarrow> int" where
  "se_length s = se_end s - se_start s"

definition se_is_empty :: "selection \<Rightarrow> bool" where
  "se_is_empty s \<longleftrightarrow> se_length s = 0"

definition cu_selection :: "cursor \<Rightarrow> selection option result" where
  "cu_selection c =
     (case cu_anchor c of
        None \<Rightarrow> Inr None
      | Some a \<Rightarrow>
          if a = cu_position c then Inr None
          else map_sum id Some (selection_new (min a (cu_position c)) (max a (cu_position c))))"

definition cu_collapsed :: "cursor \<Rightarrow> cursor" where
  "cu_collapsed c = caret (cu_position c)"

definition cu_moved_to :: "int \<Rightarrow> bool \<Rightarrow> cursor \<Rightarrow> cursor" where
  "cu_moved_to position keep c =
     \<lparr>cu_position = position,
      cu_anchor = (if keep then Some (case cu_anchor c of Some a \<Rightarrow> a | None \<Rightarrow> cu_position c) else None)\<rparr>"

section \<open>Commands\<close>

datatype edit_command =
    Insert_Command int string cursor cursor
  | Delete_Command int int cursor cursor string
  | Replace_Command int int string cursor cursor string
  | Macro_Command string cursor cursor "edit_command list"

fun cmd_before :: "edit_command \<Rightarrow> cursor" where
  "cmd_before (Insert_Command _ _ b _) = b"
| "cmd_before (Delete_Command _ _ b _ _) = b"
| "cmd_before (Replace_Command _ _ _ b _ _) = b"
| "cmd_before (Macro_Command _ b _ _) = b"

fun cmd_after :: "edit_command \<Rightarrow> cursor" where
  "cmd_after (Insert_Command _ _ _ a) = a"
| "cmd_after (Delete_Command _ _ _ a _) = a"
| "cmd_after (Replace_Command _ _ _ _ a _) = a"
| "cmd_after (Macro_Command _ _ a _) = a"

definition max_coalesced_run :: int where
  "max_coalesced_run = 40"

text \<open>\<^verbatim>\<open>command.coalesce_with(previous)\<close>.\<close>

fun coalesce_with :: "edit_command \<Rightarrow> edit_command \<Rightarrow> edit_command option" where
  "coalesce_with (Insert_Command p s b a) (Insert_Command q r b' a') =
     (if q + int (length r) \<noteq> p then None
      else if CHR 0x0A \<in> set r \<or> CHR 0x0A \<in> set s then None
      else if int (length r) + int (length s) > max_coalesced_run then None
      else Some (Insert_Command q (r @ s) b' a))"
| "coalesce_with (Delete_Command p n b a x) (Delete_Command q m b' a' y) =
     (if n \<noteq> 1 \<or> m > max_coalesced_run then None
      else if p + n \<noteq> q then None
      else Some (Delete_Command p (n + m) b' a (x @ y)))"
| "coalesce_with _ _ = None"

section \<open>History\<close>

type_synonym history_entry = "nat \<times> edit_command"

record history =
  hi_capacity :: nat
  hi_window :: rat
  hi_undo :: "history_entry list"
  hi_redo :: "history_entry list"
  hi_last_at :: "time option"
  hi_can_coalesce :: bool
  hi_dropped :: int
  hi_objects :: nat

definition hi_new :: "nat \<Rightarrow> rat \<Rightarrow> history" where
  "hi_new capacity window =
     \<lparr>hi_capacity = capacity, hi_window = window, hi_undo = [], hi_redo = [], hi_last_at = None, hi_can_coalesce = True,
      hi_dropped = 0, hi_objects = 0\<rparr>"

text \<open>The \<^verbatim>\<open>while\<close> loop that drops the oldest entries over the capacity, a number of entries and so not negative.\<close>

fun drop_oldest :: "nat \<Rightarrow> history_entry list \<Rightarrow> int \<Rightarrow> history_entry list \<times> int" where
  "drop_oldest capacity [] dropped = ([], dropped)"
| "drop_oldest capacity (e # es) dropped =
     (if length (e # es) > capacity then drop_oldest capacity es (dropped + 1) else (e # es, dropped))"

definition hi_merged :: "time \<Rightarrow> edit_command \<Rightarrow> history \<Rightarrow> edit_command option" where
  "hi_merged now c h =
     (if hi_can_coalesce h \<and> hi_undo h \<noteq> [] \<and> (case hi_last_at h of None \<Rightarrow> False | Some t \<Rightarrow> now - t \<le> hi_window h)
      then coalesce_with c (snd (List.last (hi_undo h))) else None)"

definition hi_record :: "time \<Rightarrow> edit_command \<Rightarrow> history \<Rightarrow> history" where
  "hi_record now c h =
     (let h1 = h\<lparr>hi_redo := [], hi_last_at := Some now, hi_can_coalesce := True, hi_objects := hi_objects h + 1\<rparr>
      in case hi_merged now c h of
           Some m \<Rightarrow> h1\<lparr>hi_undo := butlast (hi_undo h) @ [(hi_objects h, m)]\<rparr>
         | None \<Rightarrow>
             (let (kept, dropped) = drop_oldest (hi_capacity h) (hi_undo h @ [(hi_objects h, c)]) (hi_dropped h)
              in h1\<lparr>hi_undo := kept, hi_dropped := dropped\<rparr>))"

definition hi_break_coalescing :: "history \<Rightarrow> history" where
  "hi_break_coalescing h = h\<lparr>hi_can_coalesce := False\<rparr>"

definition hi_depth :: "history \<Rightarrow> int" where
  "hi_depth h = int (length (hi_undo h)) + hi_dropped h"

text \<open>\<^verbatim>\<open>top()\<close>, by the number of the object.\<close>

definition hi_top :: "history \<Rightarrow> nat option" where
  "hi_top h = (if hi_undo h = [] then None else Some (fst (List.last (hi_undo h))))"

definition hi_can_undo :: "history \<Rightarrow> bool" where
  "hi_can_undo h \<longleftrightarrow> hi_undo h \<noteq> []"

definition hi_can_redo :: "history \<Rightarrow> bool" where
  "hi_can_redo h \<longleftrightarrow> hi_redo h \<noteq> []"

section \<open>Documents\<close>

record text_style =
  st_bold :: bool
  st_italic :: bool
  st_underline :: bool
  st_colour :: string

record style_run =
  sr_start :: int
  sr_end :: int
  sr_style :: text_style

datatype document_status = NEW_DOCUMENT | MODIFIED_DOCUMENT | SAVED_DOCUMENT

record document =
  do_name :: string
  do_buffer :: buffer
  do_cursor :: cursor
  do_history :: history
  do_styles :: "style_run list"
  do_revision :: int
  do_ever_saved :: bool
  do_saved_top :: "nat option"

definition do_new :: "string \<Rightarrow> buffer \<Rightarrow> nat \<Rightarrow> rat \<Rightarrow> document" where
  "do_new name b capacity window =
     \<lparr>do_name = name, do_buffer = b, do_cursor = caret (buf_len b), do_history = hi_new capacity window, do_styles = [],
      do_revision = 0, do_ever_saved = False, do_saved_top = None\<rparr>"

definition shift_run :: "int \<Rightarrow> int \<Rightarrow> style_run \<Rightarrow> style_run list" where
  "shift_run position delta r =
     (let start = (if position \<le> sr_start r then sr_start r + delta else sr_start r);
          fin = (if position < sr_end r then sr_end r + delta else sr_end r)
      in if start < fin then [\<lparr>sr_start = max 0 start, sr_end = max 0 fin, sr_style = sr_style r\<rparr>] else [])"

definition do_shift_styles :: "int \<Rightarrow> int \<Rightarrow> document \<Rightarrow> document" where
  "do_shift_styles position delta d = d\<lparr>do_styles := concat (map (shift_run position delta) (do_styles d))\<rparr>"

definition apply_insert :: "int \<Rightarrow> string \<Rightarrow> document \<Rightarrow> unit result \<times> document" where
  "apply_insert position s d =
     (case buf_insert position s (do_buffer d) of
        Inl e \<Rightarrow> (Inl e, d)
      | Inr b \<Rightarrow> (Inr (), (do_shift_styles position (int (length s)) (d\<lparr>do_buffer := b\<rparr>))\<lparr>do_revision := do_revision d + 1\<rparr>))"

definition apply_delete :: "int \<Rightarrow> int \<Rightarrow> document \<Rightarrow> string result \<times> document" where
  "apply_delete position n d =
     (case buf_delete position n (do_buffer d) of
        Inl e \<Rightarrow> (Inl e, d)
      | Inr (removed, b) \<Rightarrow> (Inr removed, (do_shift_styles position (- n) (d\<lparr>do_buffer := b\<rparr>))\<lparr>do_revision := do_revision d + 1\<rparr>))"

definition set_cursor :: "cursor \<Rightarrow> document \<Rightarrow> unit result \<times> document" where
  "set_cursor c d =
     (if \<not> (0 \<le> cu_position c \<and> cu_position c \<le> buf_len (do_buffer d)) then (Inl ValidationError, d)
      else (Inr (), d\<lparr>do_cursor := c\<rparr>))"

text \<open>The next call on a target, unless the one before it raised.\<close>

definition and_then :: "unit result \<times> document \<Rightarrow> (document \<Rightarrow> unit result \<times> document) \<Rightarrow> unit result \<times> document" where
  "and_then r f = (case r of (Inl e, d) \<Rightarrow> (Inl e, d) | (Inr _, d) \<Rightarrow> f d)"

fun cmd_execute :: "edit_command \<Rightarrow> document \<Rightarrow> unit result \<times> edit_command \<times> document"
  and cmds_execute :: "edit_command list \<Rightarrow> document \<Rightarrow> unit result \<times> edit_command list \<times> document" where
  "cmd_execute (Insert_Command p s b a) d =
     (case and_then (apply_insert p s d) (set_cursor a) of (r, d1) \<Rightarrow> (r, Insert_Command p s b a, d1))"
| "cmd_execute (Delete_Command p n b a x) d =
     (case apply_delete p n d of
        (Inl e, d1) \<Rightarrow> (Inl e, Delete_Command p n b a x, d1)
      | (Inr removed, d1) \<Rightarrow> (case set_cursor a d1 of (r, d2) \<Rightarrow> (r, Delete_Command p n b a removed, d2)))"
| "cmd_execute (Replace_Command p n s b a x) d =
     (case apply_delete p n d of
        (Inl e, d1) \<Rightarrow> (Inl e, Replace_Command p n s b a x, d1)
      | (Inr removed, d1) \<Rightarrow>
          (case and_then (apply_insert p s d1) (set_cursor a) of (r, d2) \<Rightarrow> (r, Replace_Command p n s b a removed, d2)))"
| "cmd_execute (Macro_Command label b a cs) d =
     (case cmds_execute cs d of
        (r, cs1, d1) \<Rightarrow> (case and_then (r, d1) (set_cursor a) of (r2, d2) \<Rightarrow> (r2, Macro_Command label b a cs1, d2)))"
| "cmds_execute [] d = (Inr (), [], d)"
| "cmds_execute (c # cs) d =
     (case cmd_execute c d of
        (Inl e, c1, d1) \<Rightarrow> (Inl e, c1 # cs, d1)
      | (Inr _, c1, d1) \<Rightarrow> (case cmds_execute cs d1 of (r, cs1, d2) \<Rightarrow> (r, c1 # cs1, d2)))"

text \<open>\<open>cmds_undo\<close> goes through the commands of a macro in reverse.\<close>

fun cmd_undo :: "edit_command \<Rightarrow> document \<Rightarrow> unit result \<times> document"
  and cmds_undo :: "edit_command list \<Rightarrow> document \<Rightarrow> unit result \<times> document" where
  "cmd_undo (Insert_Command p s b a) d = and_then (case apply_delete p (int (length s)) d of (r, d1) \<Rightarrow> (map_sum id (\<lambda>_. ()) r, d1)) (set_cursor b)"
| "cmd_undo (Delete_Command p n b a x) d = and_then (apply_insert p x d) (set_cursor b)"
| "cmd_undo (Replace_Command p n s b a x) d =
     and_then (and_then (case apply_delete p (int (length s)) d of (r, d1) \<Rightarrow> (map_sum id (\<lambda>_. ()) r, d1)) (apply_insert p x)) (set_cursor b)"
| "cmd_undo (Macro_Command label b a cs) d = and_then (cmds_undo cs d) (set_cursor b)"
| "cmds_undo [] d = (Inr (), d)"
| "cmds_undo (c # cs) d = and_then (cmds_undo cs d) (cmd_undo c)"

definition do_text :: "document \<Rightarrow> string" where
  "do_text d = buf_text (do_buffer d)"

definition do_slice :: "int \<Rightarrow> int \<Rightarrow> document \<Rightarrow> string" where
  "do_slice i j d = buf_slice i j (do_buffer d)"

definition do_length :: "document \<Rightarrow> int" where
  "do_length d = buf_len (do_buffer d)"

definition do_run :: "time \<Rightarrow> edit_command \<Rightarrow> document \<Rightarrow> edit_command result \<times> document" where
  "do_run now c d =
     (case cmd_execute c d of
        (Inl e, _, d1) \<Rightarrow> (Inl e, d1)
      | (Inr _, c1, d1) \<Rightarrow> (Inr c1, d1\<lparr>do_history := hi_record now c1 (do_history d1)\<rparr>))"

text \<open>\<^verbatim>\<open>Document.undo\<close> with \<^verbatim>\<open>CommandHistory.undo\<close>: a command that fails to undo is gone from the stack.\<close>

definition do_undo :: "document \<Rightarrow> edit_command result \<times> document" where
  "do_undo d =
     (let h = do_history d
      in if hi_undo h = [] then (Inl InvalidStateError, d)
         else let e = List.last (hi_undo h); d1 = d\<lparr>do_history := h\<lparr>hi_undo := butlast (hi_undo h)\<rparr>\<rparr>
              in case cmd_undo (snd e) d1 of
                   (Inl x, d2) \<Rightarrow> (Inl x, d2)
                 | (Inr _, d2) \<Rightarrow>
                     (Inr (snd e), d2\<lparr>do_history := (do_history d2)\<lparr>hi_redo := hi_redo h @ [e], hi_can_coalesce := False\<rparr>\<rparr>))"

definition do_redo :: "document \<Rightarrow> edit_command result \<times> document" where
  "do_redo d =
     (let h = do_history d
      in if hi_redo h = [] then (Inl InvalidStateError, d)
         else let e = List.last (hi_redo h); d1 = d\<lparr>do_history := h\<lparr>hi_redo := butlast (hi_redo h)\<rparr>\<rparr>
              in case cmd_execute (snd e) d1 of
                   (Inl x, _, d2) \<Rightarrow> (Inl x, d2)
                 | (Inr _, c1, d2) \<Rightarrow>
                     (Inr c1, d2\<lparr>do_history := (do_history d2)\<lparr>hi_undo := hi_undo h @ [(fst e, c1)], hi_can_coalesce := False\<rparr>\<rparr>))"

definition do_status :: "document \<Rightarrow> document_status" where
  "do_status d =
     (if \<not> do_ever_saved d then (if do_revision d = 0 then NEW_DOCUMENT else MODIFIED_DOCUMENT)
      else if do_saved_top d = hi_top (do_history d) then SAVED_DOCUMENT else MODIFIED_DOCUMENT)"

definition do_mark_saved :: "document \<Rightarrow> document" where
  "do_mark_saved d =
     d\<lparr>do_ever_saved := True, do_saved_top := hi_top (do_history d), do_history := hi_break_coalescing (do_history d)\<rparr>"

definition do_apply_style :: "int \<Rightarrow> int \<Rightarrow> text_style \<Rightarrow> document \<Rightarrow> document" where
  "do_apply_style start fin st d = d\<lparr>do_styles := do_styles d @ [\<lparr>sr_start = start, sr_end = fin, sr_style = st\<rparr>]\<rparr>"

definition do_styles_at :: "int \<Rightarrow> document \<Rightarrow> text_style list" where
  "do_styles_at p d = map sr_style (filter (\<lambda>r. sr_start r \<le> p \<and> p < sr_end r) (do_styles d))"

text \<open>\<^verbatim>\<open>str.split\<close> on whitespace, as far as it is counted.\<close>

definition is_whitespace :: "char \<Rightarrow> bool" where
  "is_whitespace c \<longleftrightarrow> (of_char c :: int) \<in> {9, 10, 11, 12, 13, 28, 29, 30, 31, 32, 133, 160}"

fun count_words :: "bool \<Rightarrow> string \<Rightarrow> int" where
  "count_words inside [] = 0"
| "count_words inside (c # cs) =
     (if is_whitespace c then count_words False cs else (if inside then 0 else 1) + count_words True cs)"

definition do_word_count :: "document \<Rightarrow> int" where
  "do_word_count d = count_words False (do_text d)"

section \<open>Editing a document\<close>

text \<open>The editing methods of \<^verbatim>\<open>Editor\<close>, from the active document on.\<close>

definition type_command :: "string \<Rightarrow> cursor \<Rightarrow> edit_command result" where
  "type_command s before =
     (case cu_selection before of
        Inl e \<Rightarrow> Inl e
      | Inr None \<Rightarrow> Inr (Insert_Command (cu_position before) s before (caret (cu_position before + int (length s))))
      | Inr (Some sel) \<Rightarrow>
          (let after = caret (se_start sel + int (length s))
           in Inr (Macro_Command ''type over selection'' before after
                [Delete_Command (se_start sel) (se_length sel) before (caret (se_start sel)) [],
                 Insert_Command (se_start sel) s (caret (se_start sel)) after])))"

definition do_type_text :: "time \<Rightarrow> string \<Rightarrow> document \<Rightarrow> edit_command result \<times> document" where
  "do_type_text now s d = (case type_command s (do_cursor d) of Inl e \<Rightarrow> (Inl e, d) | Inr c \<Rightarrow> do_run now c d)"

definition do_backspace :: "time \<Rightarrow> document \<Rightarrow> edit_command result \<times> document" where
  "do_backspace now d =
     (let before = do_cursor d
      in case cu_selection before of
           Inl e \<Rightarrow> (Inl e, d)
         | Inr (Some sel) \<Rightarrow> do_run now (Delete_Command (se_start sel) (se_length sel) before (caret (se_start sel)) []) d
         | Inr None \<Rightarrow>
             if cu_position before = 0 then (Inl ValidationError, d)
             else do_run now (Delete_Command (cu_position before - 1) 1 before (caret (cu_position before - 1)) []) d)"

definition do_delete_forward :: "time \<Rightarrow> document \<Rightarrow> edit_command result \<times> document" where
  "do_delete_forward now d =
     (let before = do_cursor d
      in if do_length d \<le> cu_position before then (Inl ValidationError, d)
         else do_run now (Delete_Command (cu_position before) 1 before (cu_collapsed before) []) d)"

definition do_break_coalescing :: "document \<Rightarrow> document" where
  "do_break_coalescing d = d\<lparr>do_history := hi_break_coalescing (do_history d)\<rparr>"

definition do_move_to :: "int \<Rightarrow> bool \<Rightarrow> document \<Rightarrow> cursor result \<times> document" where
  "do_move_to position keep d =
     (let c = cu_moved_to position keep (do_cursor d)
      in case set_cursor c d of (Inl e, d1) \<Rightarrow> (Inl e, d1) | (Inr _, d1) \<Rightarrow> (Inr c, do_break_coalescing d1))"

text \<open>The cursor is set before the selection answered is built, which may raise.\<close>

definition do_select :: "int \<Rightarrow> int \<Rightarrow> document \<Rightarrow> selection result \<times> document" where
  "do_select start fin d =
     (case set_cursor \<lparr>cu_position = fin, cu_anchor = Some start\<rparr> d of
        (Inl e, d1) \<Rightarrow> (Inl e, d1)
      | (Inr _, d1) \<Rightarrow> (selection_new (min start fin) (max start fin), do_break_coalescing d1))"

definition do_select_all :: "document \<Rightarrow> selection result \<times> document" where
  "do_select_all d = do_select 0 (do_length d) d"

text \<open>What \<^verbatim>\<open>copy\<close> takes from the document.\<close>

definition do_selected :: "document \<Rightarrow> string result" where
  "do_selected d =
     (case cu_selection (do_cursor d) of
        Inl e \<Rightarrow> Inl e
      | Inr None \<Rightarrow> Inr []
      | Inr (Some sel) \<Rightarrow> Inr (do_slice (se_start sel) (se_end sel) d))"

section \<open>Search and replace\<close>

definition occurs_at :: "string \<Rightarrow> string \<Rightarrow> nat \<Rightarrow> bool" where
  "occurs_at needle s i \<longleftrightarrow> take (length needle) (drop i s) = needle"

text \<open>\<^verbatim>\<open>text.find(needle, start)\<close>: the first occurrence from \<open>start\<close> on.\<close>

definition py_find :: "string \<Rightarrow> string \<Rightarrow> nat \<Rightarrow> nat option" where
  "py_find needle s start = find (\<lambda>i. occurs_at needle s i) [start ..< length s + 1 - length needle]"

lemma py_find_range: "py_find needle s start = Some i \<Longrightarrow> start \<le> i \<and> i < length s + 1 - length needle"
  using find_SomeD [of _ "[start ..< length s + 1 - length needle]" i] unfolding py_find_def by fastforce

function find_loop :: "string \<Rightarrow> string \<Rightarrow> nat \<Rightarrow> nat list" where
  "find_loop needle s start = (case py_find needle s start of None \<Rightarrow> [] | Some i \<Rightarrow> i # find_loop needle s (i + 1))"
  by pat_completeness auto
termination
  by (relation "measure (\<lambda>(needle, s, start). length s + 1 - start)") (auto dest!: py_find_range)

declare find_loop.simps [simp del]

definition do_find :: "string \<Rightarrow> document \<Rightarrow> nat list result" where
  "do_find needle d = (if needle = [] then Inl ValidationError else Inr (find_loop needle (do_text d) 0))"

definition keep_hit :: "nat \<Rightarrow> nat \<Rightarrow> nat list \<Rightarrow> nat list" where
  "keep_hit n i hits = (if hits = [] \<or> List.last hits + n \<le> i then hits @ [i] else hits)"

text \<open>The label of the macro is only shown; it is left without the quotes of \<^verbatim>\<open>repr\<close>.\<close>

definition replace_command :: "string \<Rightarrow> string \<Rightarrow> nat list \<Rightarrow> cursor \<Rightarrow> edit_command" where
  "replace_command needle replacement hits before =
     Macro_Command (''replace '' @ needle) before (caret (int (hd hits) + int (length replacement)))
       (map (\<lambda>i. Replace_Command (int i) (int (length needle)) replacement (caret (int i)) (caret (int i + int (length replacement))) [])
         (rev hits))"

definition do_replace_all :: "time \<Rightarrow> string \<Rightarrow> string \<Rightarrow> document \<Rightarrow> edit_command option result \<times> document" where
  "do_replace_all now needle replacement d =
     (case do_find needle d of
        Inl e \<Rightarrow> (Inl e, d)
      | Inr occurrences \<Rightarrow>
          (let hits = fold (keep_hit (length needle)) occurrences []
           in if hits = [] then (Inr None, d)
              else case do_run now (replace_command needle replacement hits (do_cursor d)) d of
                     (r, d1) \<Rightarrow> (map_sum id Some r, d1)))"

section \<open>Clipboard, styles and storage\<close>

type_synonym clipboard = "string option"

definition cb_copy :: "string \<Rightarrow> clipboard \<Rightarrow> clipboard" where
  "cb_copy s cb = Some s"

definition cb_paste :: "clipboard \<Rightarrow> string result" where
  "cb_paste cb = (case cb of None \<Rightarrow> Inl InvalidStateError | Some s \<Rightarrow> Inr s)"

definition cb_is_empty :: "clipboard \<Rightarrow> bool" where
  "cb_is_empty cb \<longleftrightarrow> cb = None"

type_synonym style_registry = "((bool \<times> bool \<times> bool \<times> string), text_style) dict"

definition sreg_get :: "bool \<Rightarrow> bool \<Rightarrow> bool \<Rightarrow> string \<Rightarrow> style_registry \<Rightarrow> text_style \<times> style_registry" where
  "sreg_get bold italic underline colour reg =
     (let key = (bold, italic, underline, colour)
      in case dict_get reg key of
           Some st \<Rightarrow> (st, reg)
         | None \<Rightarrow>
             (let st = \<lparr>st_bold = bold, st_italic = italic, st_underline = underline, st_colour = colour\<rparr>
              in (st, dict_set key st reg)))"

type_synonym storage = "(string, string) dict"

definition fs_save :: "string \<Rightarrow> string \<Rightarrow> storage \<Rightarrow> storage" where
  "fs_save name content fs = dict_set name content fs"

definition fs_load :: "string \<Rightarrow> storage \<Rightarrow> string result" where
  "fs_load name fs = (case dict_get fs name of None \<Rightarrow> Inl NotFoundError | Some s \<Rightarrow> Inr s)"

definition fs_exists :: "string \<Rightarrow> storage \<Rightarrow> bool" where
  "fs_exists name fs \<longleftrightarrow> dict_get fs name \<noteq> None"

definition fs_names :: "storage \<Rightarrow> string list" where
  "fs_names fs = sort (dict_keys fs)"

section \<open>The editor\<close>

record editor =
  ed_storage :: storage
  ed_clipboard :: clipboard
  ed_styles :: style_registry
  ed_capacity :: nat
  ed_window :: rat
  ed_tabs :: "(string, document) dict"
  ed_active :: "string option"

definition ed_new :: "storage \<Rightarrow> nat \<Rightarrow> rat \<Rightarrow> editor" where
  "ed_new fs capacity window =
     \<lparr>ed_storage = fs, ed_clipboard = None, ed_styles = [], ed_capacity = capacity, ed_window = window, ed_tabs = [], ed_active = None\<rparr>"

text \<open>\<open>factory\<close> is \<^verbatim>\<open>buffer_factory\<close>: which buffer a new document gets.\<close>

datatype buffer_factory = Make_Simple | Make_Gap int

fun make_buffer :: "buffer_factory \<Rightarrow> string \<Rightarrow> buffer" where
  "make_buffer Make_Simple s = Simple_Buffer s"
| "make_buffer (Make_Gap n) s = Gap_Buffer (gb_new s n)"

definition ed_new_tab :: "buffer_factory \<Rightarrow> string \<Rightarrow> string \<Rightarrow> editor \<Rightarrow> document result \<times> editor" where
  "ed_new_tab factory name s ed =
     (if dict_get (ed_tabs ed) name \<noteq> None then (Inl ConflictError, ed)
      else let d = do_new name (make_buffer factory s) (ed_capacity ed) (ed_window ed)
           in (Inr d, ed\<lparr>ed_tabs := dict_set name d (ed_tabs ed), ed_active := Some name\<rparr>))"

definition ed_open_tab :: "buffer_factory \<Rightarrow> string \<Rightarrow> editor \<Rightarrow> unit result \<times> editor" where
  "ed_open_tab factory name ed =
     (case fs_load name (ed_storage ed) of
        Inl e \<Rightarrow> (Inl e, ed)
      | Inr s \<Rightarrow>
          (case ed_new_tab factory name s ed of
             (Inl e, ed1) \<Rightarrow> (Inl e, ed1)
           | (Inr d, ed1) \<Rightarrow> (Inr (), ed1\<lparr>ed_tabs := dict_set name (do_mark_saved d) (ed_tabs ed1)\<rparr>)))"

definition ed_close_tab :: "string \<Rightarrow> editor \<Rightarrow> unit result \<times> editor" where
  "ed_close_tab name ed =
     (if dict_get (ed_tabs ed) name = None then (Inl NotFoundError, ed)
      else let tabs = dict_del name (ed_tabs ed)
           in (Inr (), ed\<lparr>ed_tabs := tabs, ed_active := (case tabs of [] \<Rightarrow> None | t # _ \<Rightarrow> Some (fst t))\<rparr>))"

definition ed_switch_to :: "string \<Rightarrow> editor \<Rightarrow> unit result \<times> editor" where
  "ed_switch_to name ed =
     (if dict_get (ed_tabs ed) name = None then (Inl NotFoundError, ed) else (Inr (), ed\<lparr>ed_active := Some name\<rparr>))"

definition ed_tab_names :: "editor \<Rightarrow> string list" where
  "ed_tab_names ed = sort (dict_keys (ed_tabs ed))"

text \<open>\<^verbatim>\<open>document = self.active\<close>, and then a method of the document. The registry of tabs holds the document itself.\<close>

definition on_active :: "(document \<Rightarrow> 'a result \<times> document) \<Rightarrow> editor \<Rightarrow> 'a result \<times> editor" where
  "on_active f ed =
     (case ed_active ed of
        None \<Rightarrow> (Inl NotFoundError, ed)
      | Some name \<Rightarrow>
          (case dict_get (ed_tabs ed) name of
             None \<Rightarrow> (Inl KeyError, ed)
           | Some d \<Rightarrow> (case f d of (r, d1) \<Rightarrow> (r, ed\<lparr>ed_tabs := dict_set name d1 (ed_tabs ed)\<rparr>))))"

definition ed_copy :: "editor \<Rightarrow> string result \<times> editor" where
  "ed_copy ed =
     (case on_active (\<lambda>d. (do_selected d, d)) ed of
        (Inl e, ed1) \<Rightarrow> (Inl e, ed1)
      | (Inr s, ed1) \<Rightarrow> (Inr s, ed1\<lparr>ed_clipboard := cb_copy s (ed_clipboard ed1)\<rparr>))"

definition ed_cut :: "time \<Rightarrow> editor \<Rightarrow> string result \<times> editor" where
  "ed_cut now ed =
     (case ed_copy ed of
        (Inl e, ed1) \<Rightarrow> (Inl e, ed1)
      | (Inr s, ed1) \<Rightarrow>
          if s = [] then (Inr s, ed1)
          else case on_active (do_backspace now) ed1 of (Inl e, ed2) \<Rightarrow> (Inl e, ed2) | (Inr _, ed2) \<Rightarrow> (Inr s, ed2))"

definition ed_paste :: "time \<Rightarrow> editor \<Rightarrow> edit_command result \<times> editor" where
  "ed_paste now ed = (case cb_paste (ed_clipboard ed) of Inl e \<Rightarrow> (Inl e, ed) | Inr s \<Rightarrow> on_active (do_type_text now s) ed)"

definition ed_save :: "string option \<Rightarrow> editor \<Rightarrow> string result \<times> editor" where
  "ed_save name ed =
     (case on_active (\<lambda>d. (Inr d, d)) ed of
        (Inl e, ed1) \<Rightarrow> (Inl e, ed1)
      | (Inr d, ed1) \<Rightarrow>
          (let target = (case name of Some n \<Rightarrow> if n = [] then do_name d else n | None \<Rightarrow> do_name d)
           in case on_active (\<lambda>d. (Inr (), do_mark_saved d)) (ed1\<lparr>ed_storage := fs_save target (do_text d) (ed_storage ed1)\<rparr>) of
                (r, ed2) \<Rightarrow> (map_sum id (\<lambda>_. target) r, ed2)))"

section \<open>Operations as data\<close>

text \<open>The operations that record a command, and the others of a document, as data.\<close>

datatype edit_op = Type_Text string | Backspace | Delete_Forward | Replace_All string string

fun doc_edit :: "time \<Rightarrow> edit_op \<Rightarrow> document \<Rightarrow> edit_command option result \<times> document" where
  "doc_edit now (Type_Text s) d = apfst (map_sum id Some) (do_type_text now s d)"
| "doc_edit now Backspace d = apfst (map_sum id Some) (do_backspace now d)"
| "doc_edit now Delete_Forward d = apfst (map_sum id Some) (do_delete_forward now d)"
| "doc_edit now (Replace_All needle rep) d = do_replace_all now needle rep d"

datatype doc_act =
  Act_Edit edit_op | Act_Move int bool | Act_Select int int | Act_Select_All | Act_Undo | Act_Redo | Act_Style int int text_style

fun doc_do :: "time \<Rightarrow> doc_act \<Rightarrow> document \<Rightarrow> document" where
  "doc_do now (Act_Edit op) d = snd (doc_edit now op d)"
| "doc_do now (Act_Move p keep) d = snd (do_move_to p keep d)"
| "doc_do now (Act_Select i j) d = snd (do_select i j d)"
| "doc_do now Act_Select_All d = snd (do_select_all d)"
| "doc_do now Act_Undo d = snd (do_undo d)"
| "doc_do now Act_Redo d = snd (do_redo d)"
| "doc_do now (Act_Style i j st) d = do_apply_style i j st d"

datatype editor_op =
    Do_New_Tab buffer_factory string string | Do_Open_Tab buffer_factory string | Do_Close_Tab string | Do_Switch_To string
  | Do_Act doc_act | Do_Copy | Do_Cut | Do_Paste | Do_Save "string option"

fun ed_do :: "time \<Rightarrow> editor_op \<Rightarrow> editor \<Rightarrow> editor" where
  "ed_do now (Do_New_Tab factory name s) ed = snd (ed_new_tab factory name s ed)"
| "ed_do now (Do_Open_Tab factory name) ed = snd (ed_open_tab factory name ed)"
| "ed_do now (Do_Close_Tab name) ed = snd (ed_close_tab name ed)"
| "ed_do now (Do_Switch_To name) ed = snd (ed_switch_to name ed)"
| "ed_do now (Do_Act act) ed = snd (on_active (\<lambda>d. (Inr (), doc_do now act d)) ed)"
| "ed_do now Do_Copy ed = snd (ed_copy ed)"
| "ed_do now Do_Cut ed = snd (ed_cut now ed)"
| "ed_do now Do_Paste ed = snd (ed_paste now ed)"
| "ed_do now (Do_Save name) ed = snd (ed_save name ed)"

definition ed_run :: "(time \<times> editor_op) list \<Rightarrow> editor \<Rightarrow> editor" where
  "ed_run ops ed = fold (\<lambda>(now, op). ed_do now op) ops ed"

section \<open>Commands on plain texts\<close>

text \<open>
  What a command makes of a text, with \<^verbatim>\<open>removed\<close> filled in, and when it fits the text: its range lies inside and
  its carets lie inside the text before and after.
\<close>

fun prep :: "edit_command \<Rightarrow> string \<Rightarrow> edit_command \<times> string"
  and preps :: "edit_command list \<Rightarrow> string \<Rightarrow> edit_command list \<times> string" where
  "prep (Insert_Command p x b a) s = (Insert_Command p x b a, take (nat p) s @ x @ drop (nat p) s)"
| "prep (Delete_Command p n b a r) s =
     (Delete_Command p n b a (take (nat n) (drop (nat p) s)), take (nat p) s @ drop (nat p + nat n) s)"
| "prep (Replace_Command p n x b a r) s =
     (Replace_Command p n x b a (take (nat n) (drop (nat p) s)), take (nat p) s @ x @ drop (nat p + nat n) s)"
| "prep (Macro_Command l b a cs) s = apfst (Macro_Command l b a) (preps cs s)"
| "preps [] s = ([], s)"
| "preps (c # cs) s = apfst (\<lambda>cs'. fst (prep c s) # cs') (preps cs (snd (prep c s)))"

definition cursor_in :: "cursor \<Rightarrow> string \<Rightarrow> bool" where
  "cursor_in c s \<longleftrightarrow> 0 \<le> cu_position c \<and> cu_position c \<le> int (length s)"

definition range_in :: "int \<Rightarrow> int \<Rightarrow> string \<Rightarrow> bool" where
  "range_in p n s \<longleftrightarrow> 0 \<le> p \<and> 0 \<le> n \<and> p + n \<le> int (length s)"

definition carets_fit :: "edit_command \<Rightarrow> string \<Rightarrow> bool" where
  "carets_fit c s \<longleftrightarrow> cursor_in (cmd_before c) s \<and> cursor_in (cmd_after c) (snd (prep c s))"

fun fits :: "edit_command \<Rightarrow> string \<Rightarrow> bool"
  and fits_all :: "edit_command list \<Rightarrow> string \<Rightarrow> bool" where
  "fits (Insert_Command p x b a) s \<longleftrightarrow> range_in p 0 s \<and> carets_fit (Insert_Command p x b a) s"
| "fits (Delete_Command p n b a r) s \<longleftrightarrow> range_in p n s \<and> carets_fit (Delete_Command p n b a r) s"
| "fits (Replace_Command p n x b a r) s \<longleftrightarrow> range_in p n s \<and> carets_fit (Replace_Command p n x b a r) s"
| "fits (Macro_Command l b a cs) s \<longleftrightarrow> fits_all cs s \<and> carets_fit (Macro_Command l b a cs) s"
| "fits_all [] s \<longleftrightarrow> True"
| "fits_all (c # cs) s \<longleftrightarrow> fits c s \<and> fits_all cs (snd (prep c s))"

lemma prep_again: "prep (fst (prep c s)) s = prep c s" "preps (fst (preps cs s)) s = preps cs s"
  by (induction c s and cs s rule: prep_preps.induct) (simp_all add: apfst_def map_prod_def split_beta prod_eq_iff)

lemma prep_carets [simp]: "cmd_before (fst (prep c s)) = cmd_before c" "cmd_after (fst (prep c s)) = cmd_after c"
  by (cases c; simp)+

lemma carets_fit_prep: "carets_fit (fst (prep c s)) s = carets_fit c s"
  by (simp add: carets_fit_def prep_again)

lemma fits_prep: "fits (fst (prep c s)) s = fits c s" "fits_all (fst (preps cs s)) s = fits_all cs s"
proof (induction c s and cs s rule: prep_preps.induct)
  case (4 l b a cs s)
  then show ?case using carets_fit_prep [of "Macro_Command l b a cs" s] by simp
qed (simp_all add: carets_fit_def prep_again)

lemma preps_append:
  "fst (preps (cs @ ds) s) = fst (preps cs s) @ fst (preps ds (snd (preps cs s)))"
  "snd (preps (cs @ ds) s) = snd (preps ds (snd (preps cs s)))"
  by (induction cs arbitrary: s) simp_all

lemma fits_append: "fits_all (cs @ ds) s \<longleftrightarrow> fits_all cs s \<and> fits_all ds (snd (preps cs s))"
  by (induction cs arbitrary: s) simp_all

section \<open>Commands on documents\<close>

definition doc_shows :: "document \<Rightarrow> string \<Rightarrow> bool" where
  "doc_shows d s \<longleftrightarrow> buf_ok (do_buffer d) \<and> do_text d = s"

text \<open>What commands leave alone.\<close>

definition same_rest :: "document \<Rightarrow> document \<Rightarrow> bool" where
  "same_rest d d1 \<longleftrightarrow>
     do_history d1 = do_history d \<and> do_name d1 = do_name d \<and> do_ever_saved d1 = do_ever_saved d \<and> do_saved_top d1 = do_saved_top d"

lemma same_rest_refl [simp]: "same_rest d d"
  by (simp add: same_rest_def)

lemma same_rest_trans: "same_rest a b \<Longrightarrow> same_rest b c \<Longrightarrow> same_rest a c"
  by (simp add: same_rest_def)

lemma apply_insert_in:
  assumes "doc_shows d s" and "range_in p 0 s"
  shows "\<exists>d1. apply_insert p x d = (Inr (), d1) \<and> doc_shows d1 (take (nat p) s @ x @ drop (nat p) s) \<and> same_rest d d1"
proof -
  have "buf_ok (do_buffer d)" "nat p \<le> length (buf_text (do_buffer d))" "p = int (nat p)"
    using assms by (auto simp: doc_shows_def do_text_def range_in_def)
  from buf.ins_in [OF this(1, 2), of x] this(3) show ?thesis
    using assms(1) by (auto simp: apply_insert_def doc_shows_def do_text_def do_shift_styles_def same_rest_def)
qed

lemma apply_delete_in:
  assumes "doc_shows d s" and "range_in p n s"
  shows "\<exists>d1. apply_delete p n d = (Inr (take (nat n) (drop (nat p) s)), d1) \<and>
    doc_shows d1 (take (nat p) s @ drop (nat p + nat n) s) \<and> same_rest d d1"
proof -
  have "buf_ok (do_buffer d)" "nat p + nat n \<le> length (buf_text (do_buffer d))" "p = int (nat p)" "n = int (nat n)"
    using assms by (auto simp: doc_shows_def do_text_def range_in_def)
  from buf.del_in [OF this(1, 2)] this(3, 4) show ?thesis
    using assms(1) by (auto simp: apply_delete_def doc_shows_def do_text_def do_shift_styles_def same_rest_def)
qed

lemma set_cursor_in:
  assumes "doc_shows d s" and "cursor_in c s"
  shows "\<exists>d1. set_cursor c d = (Inr (), d1) \<and> doc_shows d1 s \<and> do_cursor d1 = c \<and> same_rest d d1"
  using assms buf_len_text [of "do_buffer d"]
  by (simp add: set_cursor_def doc_shows_def do_text_def cursor_in_def same_rest_def)

lemma and_then_Inr: "and_then (Inr (), d) f = f d"
  by (simp add: and_then_def)

text \<open>A command that fits does what its plain form says, and undoing it takes that back.\<close>

lemma cmd_execute_fits:
  "fits c s \<Longrightarrow> doc_shows d s \<Longrightarrow>
     \<exists>d1. cmd_execute c d = (Inr (), fst (prep c s), d1) \<and> doc_shows d1 (snd (prep c s)) \<and> do_cursor d1 = cmd_after c \<and> same_rest d d1"
  "fits_all cs s \<Longrightarrow> doc_shows d s \<Longrightarrow>
     \<exists>d1. cmds_execute cs d = (Inr (), fst (preps cs s), d1) \<and> doc_shows d1 (snd (preps cs s)) \<and> same_rest d d1"
proof (induction c s and cs s arbitrary: d and d rule: prep_preps.induct)
  case (1 p x b a s)
  obtain d1 where d1: "apply_insert p x d = (Inr (), d1)" "doc_shows d1 (take (nat p) s @ x @ drop (nat p) s)" "same_rest d d1"
    using apply_insert_in [OF 1(2), of p x] 1(1) by auto
  obtain d2 where "set_cursor a d1 = (Inr (), d2)" "doc_shows d2 (take (nat p) s @ x @ drop (nat p) s)" "do_cursor d2 = a" "same_rest d1 d2"
    using set_cursor_in [OF d1(2), of a] 1(1) by (auto simp: carets_fit_def)
  then show ?case using d1 same_rest_trans by (simp add: and_then_Inr)
next
  case (2 p n b a r s)
  obtain d1 where d1: "apply_delete p n d = (Inr (take (nat n) (drop (nat p) s)), d1)"
    "doc_shows d1 (take (nat p) s @ drop (nat p + nat n) s)" "same_rest d d1"
    using apply_delete_in [OF 2(2), of p n] 2(1) by auto
  obtain d2 where "set_cursor a d1 = (Inr (), d2)" "doc_shows d2 (take (nat p) s @ drop (nat p + nat n) s)" "do_cursor d2 = a" "same_rest d1 d2"
    using set_cursor_in [OF d1(2), of a] 2(1) by (auto simp: carets_fit_def)
  then show ?case using d1 same_rest_trans by simp
next
  case (3 p n x b a r s)
  let ?u = "take (nat p) s @ drop (nat p + nat n) s" and ?t = "take (nat p) s @ x @ drop (nat p + nat n) s"
  have p: "nat p \<le> length s" "range_in p 0 ?u" using 3(1) by (auto simp: range_in_def)
  obtain d1 where d1: "apply_delete p n d = (Inr (take (nat n) (drop (nat p) s)), d1)" "doc_shows d1 ?u" "same_rest d d1"
    using apply_delete_in [OF 3(2), of p n] 3(1) by auto
  obtain d2 where d2: "apply_insert p x d1 = (Inr (), d2)" "doc_shows d2 ?t" "same_rest d1 d2"
    using apply_insert_in [OF d1(2) p(2), of x] p(1) by (auto simp: min_def)
  obtain d3 where d3: "set_cursor a d2 = (Inr (), d3)" "doc_shows d3 ?t" "do_cursor d3 = a" "same_rest d2 d3"
    using set_cursor_in [OF d2(2), of a] 3(1) by (auto simp: carets_fit_def)
  show ?case
    using same_rest_trans [OF d1(3) same_rest_trans [OF d2(3) d3(4)]] by (simp add: and_then_Inr d1(1) d2(1) d3)
next
  case (4 l b a cs s)
  obtain d1 where d1: "cmds_execute cs d = (Inr (), fst (preps cs s), d1)" "doc_shows d1 (snd (preps cs s))" "same_rest d d1"
    using 4 by auto
  obtain d2 where "set_cursor a d1 = (Inr (), d2)" "doc_shows d2 (snd (preps cs s))" "do_cursor d2 = a" "same_rest d1 d2"
    using set_cursor_in [OF d1(2), of a] 4(2) by (auto simp: carets_fit_def)
  then show ?case using d1 same_rest_trans by (simp add: and_then_Inr)
next
  case (6 c cs s)
  obtain d1 where d1: "cmd_execute c d = (Inr (), fst (prep c s), d1)" "doc_shows d1 (snd (prep c s))" "same_rest d d1"
    using 6 by auto
  obtain d2 where "cmds_execute cs d1 = (Inr (), fst (preps cs (snd (prep c s))), d2)"
    "doc_shows d2 (snd (preps cs (snd (prep c s))))" "same_rest d1 d2"
    using "6.IH"(3) [OF _ d1(2)] "6.prems"(1) by auto
  then show ?case using d1 same_rest_trans by simp
qed simp_all

lemma range_after: "range_in p n s \<Longrightarrow> range_in p (int (length x)) (take (nat p) s @ x @ drop (nat p + nat n) s)"
  by (auto simp: range_in_def)

lemma put_back: "range_in p n s \<Longrightarrow> take (nat p) s @ take (nat n) (drop (nat p) s) @ drop (nat p + nat n) s = s"
  by (metis append_take_drop_id drop_drop add.commute)

lemma taken_out:
  assumes "range_in p n s" and "doc_shows d (take (nat p) s @ x @ drop (nat p + nat n) s)"
  shows "\<exists>d1. (case apply_delete p (int (length x)) d of (r, d1) \<Rightarrow> (map_sum id (\<lambda>_. ()) r, d1)) = (Inr (), d1) \<and>
    doc_shows d1 (take (nat p) s @ drop (nat p + nat n) s) \<and> same_rest d d1"
proof -
  have "nat p \<le> length s" using assms(1) by (auto simp: range_in_def)
  then show ?thesis using apply_delete_in [OF assms(2) range_after [OF assms(1)]] by (auto simp: min_def)
qed

lemma inserted_back:
  assumes "range_in p n s" and "doc_shows d (take (nat p) s @ drop (nat p + nat n) s)"
  shows "\<exists>d1. apply_insert p (take (nat n) (drop (nat p) s)) d = (Inr (), d1) \<and> doc_shows d1 s \<and> same_rest d d1"
proof -
  have p: "nat p \<le> length s" "range_in p 0 (take (nat p) s @ drop (nat p + nat n) s)" using assms(1) by (auto simp: range_in_def)
  show ?thesis
    using apply_insert_in [OF assms(2) p(2), of "take (nat n) (drop (nat p) s)"] p(1) put_back [OF assms(1)] by (auto simp: min_def)
qed

lemma cmd_undo_fits:
  "fits c s \<Longrightarrow> doc_shows d (snd (prep c s)) \<Longrightarrow>
     \<exists>d1. cmd_undo (fst (prep c s)) d = (Inr (), d1) \<and> doc_shows d1 s \<and> do_cursor d1 = cmd_before c \<and> same_rest d d1"
  "fits_all cs s \<Longrightarrow> doc_shows d (snd (preps cs s)) \<Longrightarrow>
     \<exists>d1. cmds_undo (fst (preps cs s)) d = (Inr (), d1) \<and> doc_shows d1 s \<and> same_rest d d1"
proof (induction c s and cs s arbitrary: d and d rule: prep_preps.induct)
  case (1 p x b a s)
  obtain d1 where d1: "(case apply_delete p (int (length x)) d of (r, d1) \<Rightarrow> (map_sum id (\<lambda>_. ()) r, d1)) = (Inr (), d1)"
    "doc_shows d1 s" "same_rest d d1"
    using taken_out [of p 0 s d x] 1 by auto
  obtain d2 where "set_cursor b d1 = (Inr (), d2)" "doc_shows d2 s" "do_cursor d2 = b" "same_rest d1 d2"
    using set_cursor_in [OF d1(2), of b] 1(1) by (auto simp: carets_fit_def)
  then show ?case using d1 same_rest_trans by (simp add: and_then_Inr)
next
  case (2 p n b a r s)
  obtain d1 where d1: "apply_insert p (take (nat n) (drop (nat p) s)) d = (Inr (), d1)" "doc_shows d1 s" "same_rest d d1"
    using inserted_back [of p n s d] 2 by auto
  obtain d2 where "set_cursor b d1 = (Inr (), d2)" "doc_shows d2 s" "do_cursor d2 = b" "same_rest d1 d2"
    using set_cursor_in [OF d1(2), of b] 2(1) by (auto simp: carets_fit_def)
  then show ?case using d1 same_rest_trans by (simp add: and_then_Inr)
next
  case (3 p n x b a r s)
  obtain d1 where d1: "(case apply_delete p (int (length x)) d of (r, d1) \<Rightarrow> (map_sum id (\<lambda>_. ()) r, d1)) = (Inr (), d1)"
    "doc_shows d1 (take (nat p) s @ drop (nat p + nat n) s)" "same_rest d d1"
    using taken_out [of p n s d x] 3 by auto
  obtain d2 where d2: "apply_insert p (take (nat n) (drop (nat p) s)) d1 = (Inr (), d2)" "doc_shows d2 s" "same_rest d1 d2"
    using inserted_back [OF _ d1(2)] 3(1) by auto
  obtain d3 where d3: "set_cursor b d2 = (Inr (), d3)" "doc_shows d3 s" "do_cursor d3 = b" "same_rest d2 d3"
    using set_cursor_in [OF d2(2), of b] 3(1) by (auto simp: carets_fit_def)
  show ?case
    using same_rest_trans [OF d1(3) same_rest_trans [OF d2(3) d3(4)]] by (simp add: and_then_Inr d1(1) d2(1) d3)
next
  case (4 l b a cs s)
  obtain d1 where d1: "cmds_undo (fst (preps cs s)) d = (Inr (), d1)" "doc_shows d1 s" "same_rest d d1"
    using 4 by auto
  obtain d2 where "set_cursor b d1 = (Inr (), d2)" "doc_shows d2 s" "do_cursor d2 = b" "same_rest d1 d2"
    using set_cursor_in [OF d1(2), of b] 4(2) by (auto simp: carets_fit_def)
  then show ?case using d1 same_rest_trans by (simp add: and_then_Inr)
next
  case (6 c cs s)
  obtain d1 where d1: "cmds_undo (fst (preps cs (snd (prep c s)))) d = (Inr (), d1)" "doc_shows d1 (snd (prep c s))" "same_rest d d1"
    using "6.IH"(3) [of d] "6.prems" by auto
  obtain d2 where "cmd_undo (fst (prep c s)) d1 = (Inr (), d2)" "doc_shows d2 s" "same_rest d1 d2"
    using "6.IH"(2) [OF _ d1(2)] "6.prems"(1) by auto
  then show ?case using d1 same_rest_trans by (simp add: and_then_Inr)
qed simp_all

end
