(* ===== verification/Text_Editor.thy ===== *)
theory Text_Editor
  imports Text_Document
begin

text \<open>
  What the editor of \<^verbatim>\<open>code/lld/text_editor\<close> promises: undo and redo move along a timeline of texts and never fail
  half way, the saved marker tells the truth, and replace-all is \<^verbatim>\<open>str.replace\<close> in one undoable step.
\<close>

section \<open>The history is a timeline\<close>

text \<open>The entries done, oldest first, and behind them the undone ones, next first, from the text the oldest started on.\<close>

definition timeline :: "history \<Rightarrow> history_entry list" where
  "timeline h = hi_undo h @ rev (hi_redo h)"

definition text_at :: "string \<Rightarrow> history_entry list \<Rightarrow> string" where
  "text_at base es = snd (preps (map snd es) base)"

definition settled :: "string \<Rightarrow> history_entry list \<Rightarrow> bool" where
  "settled base es \<longleftrightarrow> fits_all (map snd es) base \<and> fst (preps (map snd es) base) = map snd es"

definition doc_wf :: "string \<Rightarrow> document \<Rightarrow> bool" where
  "doc_wf base d \<longleftrightarrow>
     doc_shows d (text_at base (hi_undo (do_history d))) \<and> cursor_in (do_cursor d) (do_text d) \<and>
     settled base (timeline (do_history d)) \<and> distinct (map fst (timeline (do_history d))) \<and>
     (\<forall>e \<in> set (timeline (do_history d)). fst e < hi_objects (do_history d))"

lemma text_at_simps [simp]:
  "text_at base [] = base" "text_at base (es @ fs) = text_at (text_at base es) fs" "text_at base (e # es) = text_at (snd (prep (snd e) base)) es"
  by (simp_all add: text_at_def preps_append)

lemma settled_simps [simp]:
  "settled base []"
  "settled base (es @ fs) \<longleftrightarrow> settled base es \<and> settled (text_at base es) fs"
  "settled base (e # es) \<longleftrightarrow> fits (snd e) base \<and> fst (prep (snd e) base) = snd e \<and> settled (snd (prep (snd e) base)) es"
proof -
  have len: "length (fst (preps cs s)) = length cs" for cs s by (induction cs arbitrary: s) simp_all
  show "settled base (es @ fs) \<longleftrightarrow> settled base es \<and> settled (text_at base es) fs"
    by (auto simp: settled_def fits_append preps_append text_at_def len)
qed (auto simp: settled_def)

lemma doc_wfD:
  assumes "doc_wf base d"
  shows "buf_ok (do_buffer d)" "do_text d = text_at base (hi_undo (do_history d))" "cursor_in (do_cursor d) (do_text d)"
    "settled base (hi_undo (do_history d))" "settled (do_text d) (rev (hi_redo (do_history d)))"
  using assms by (auto simp: doc_wf_def doc_shows_def timeline_def)

lemma doc_wf_shows: "doc_wf base d \<Longrightarrow> doc_shows d (do_text d)"
  by (simp add: doc_wf_def doc_shows_def)

lemma do_new_wf: "buf_ok b \<Longrightarrow> doc_wf (buf_text b) (do_new name b capacity window)"
  by (simp add: doc_wf_def do_new_def hi_new_def timeline_def doc_shows_def do_text_def cursor_in_def buf_len_text)

lemma do_undo_wf:
  assumes "doc_wf base d" and "hi_undo (do_history d) = es @ [e]"
  shows "\<exists>d1. do_undo d = (Inr (snd e), d1) \<and> doc_wf base d1 \<and> do_text d1 = text_at base es \<and> do_cursor d1 = cmd_before (snd e) \<and>
    do_history d1 = (do_history d)\<lparr>hi_undo := es, hi_redo := hi_redo (do_history d) @ [e], hi_can_coalesce := False\<rparr> \<and>
    do_ever_saved d1 = do_ever_saved d \<and> do_saved_top d1 = do_saved_top d"
proof -
  let ?s = "text_at base es" and ?h = "do_history d"
  have e: "fits (snd e) ?s" "fst (prep (snd e) ?s) = snd e" using doc_wfD(4) [OF assms(1)] assms(2) by simp_all
  have "doc_shows (d\<lparr>do_history := ?h\<lparr>hi_undo := es\<rparr>\<rparr>) (snd (prep (snd e) ?s))"
    using assms by (simp add: doc_wf_def doc_shows_def do_text_def)
  from cmd_undo_fits(1) [OF e(1) this] e(2) obtain d2 where d2:
    "cmd_undo (snd e) (d\<lparr>do_history := ?h\<lparr>hi_undo := es\<rparr>\<rparr>) = (Inr (), d2)" "doc_shows d2 ?s" "do_cursor d2 = cmd_before (snd e)"
    "same_rest (d\<lparr>do_history := ?h\<lparr>hi_undo := es\<rparr>\<rparr>) d2" by auto
  let ?d1 = "d2\<lparr>do_history := (do_history d2)\<lparr>hi_redo := hi_redo ?h @ [e], hi_can_coalesce := False\<rparr>\<rparr>"
  have "carets_fit (snd e) ?s" using e(1) by (cases "snd e") auto
  then have cur: "cursor_in (cmd_before (snd e)) ?s" by (simp add: carets_fit_def)
  have "do_undo d = (Inr (snd e), ?d1)" using assms(2) d2(1) by (simp add: do_undo_def Let_def)
  moreover have "doc_wf base ?d1"
    using assms d2 cur by (auto simp: doc_wf_def doc_shows_def do_text_def same_rest_def timeline_def)
  moreover have "do_text ?d1 = ?s" using d2(2) by (simp add: doc_shows_def do_text_def)
  ultimately show ?thesis using d2(3, 4) by (auto simp: same_rest_def)
qed

lemma do_redo_wf:
  assumes "doc_wf base d" and "hi_redo (do_history d) = es @ [e]"
  shows "\<exists>d1. do_redo d = (Inr (snd e), d1) \<and> doc_wf base d1 \<and> do_text d1 = snd (prep (snd e) (do_text d)) \<and>
    do_history d1 = (do_history d)\<lparr>hi_undo := hi_undo (do_history d) @ [e], hi_redo := es, hi_can_coalesce := False\<rparr> \<and>
    do_ever_saved d1 = do_ever_saved d \<and> do_saved_top d1 = do_saved_top d"
proof -
  let ?s = "do_text d" and ?h = "do_history d"
  have e: "fits (snd e) ?s" "fst (prep (snd e) ?s) = snd e" using doc_wfD(5) [OF assms(1)] assms(2) by simp_all
  have "doc_shows (d\<lparr>do_history := ?h\<lparr>hi_redo := es\<rparr>\<rparr>) ?s"
    using assms by (simp add: doc_wf_def doc_shows_def do_text_def)
  from cmd_execute_fits(1) [OF e(1) this] e(2) obtain d2 where d2:
    "cmd_execute (snd e) (d\<lparr>do_history := ?h\<lparr>hi_redo := es\<rparr>\<rparr>) = (Inr (), snd e, d2)" "doc_shows d2 (snd (prep (snd e) ?s))"
    "do_cursor d2 = cmd_after (snd e)" "same_rest (d\<lparr>do_history := ?h\<lparr>hi_redo := es\<rparr>\<rparr>) d2" by auto
  let ?d1 = "d2\<lparr>do_history := (do_history d2)\<lparr>hi_undo := hi_undo ?h @ [e], hi_can_coalesce := False\<rparr>\<rparr>"
  have "carets_fit (snd e) ?s" using e(1) by (cases "snd e") auto
  then have cur: "cursor_in (cmd_after (snd e)) (snd (prep (snd e) ?s))" by (simp add: carets_fit_def)
  have fst_e: "(fst e, snd e) = e" by simp
  have "do_redo d = (Inr (snd e), ?d1)" using assms(2) d2(1) by (simp add: do_redo_def Let_def)
  moreover have "doc_wf base ?d1"
    using assms d2 cur by (auto simp: doc_wf_def doc_shows_def do_text_def same_rest_def timeline_def)
  moreover have "do_text ?d1 = snd (prep (snd e) ?s)" using d2(2) by (simp add: doc_shows_def do_text_def)
  ultimately show ?thesis using d2(3, 4) by (auto simp: same_rest_def)
qed

text \<open>Merging two commands gives one that does what they do one after the other.\<close>

lemma coalesce_settled:
  assumes "coalesce_with c p = Some m" and "fits p s" and "fst (prep p s) = p" and "fits c (snd (prep p s))" and "fst (prep c (snd (prep p s))) = c"
  shows "fits m s \<and> fst (prep m s) = m \<and> snd (prep m s) = snd (prep c (snd (prep p s))) \<and> cmd_before m = cmd_before p"
proof (cases p)
  case (Insert_Command q r b' a')
  then obtain j x b a where c: "c = Insert_Command j x b a" using assms(1) by (cases c) auto
  have m: "m = Insert_Command q (r @ x) b' a" "j = q + int (length r)"
    using assms(1) by (auto simp: c Insert_Command split: if_splits)
  have q: "0 \<le> q" "q \<le> int (length s)" using assms(2) by (auto simp: Insert_Command range_in_def)
  then have n: "nat j = nat q + length r" "nat q \<le> length s" using m(2) by auto
  have "snd (prep m s) = snd (prep c (snd (prep p s)))" using n by (simp add: c m(1) Insert_Command)
  then show ?thesis using assms(2, 4) q by (auto simp: m(1) c Insert_Command carets_fit_def range_in_def)
next
  case (Delete_Command q k b' a' y)
  then obtain j x b a n where c: "c = Delete_Command j n b a x" using assms(1) by (cases c) auto
  have m: "m = Delete_Command j (n + k) b' a (x @ y)" "n = 1" "q = j + 1"
    using assms(1) by (auto simp: c Delete_Command split: if_splits)
  have q: "range_in q k s" "range_in j 1 (take (nat q) s @ drop (nat q + nat k) s)"
    using assms(2, 4) by (auto simp: c m(2) Delete_Command)
  then have n: "nat q = Suc (nat j)" "nat (n + k) = Suc (nat k)" "nat j < length s" "nat q + nat k \<le> length s"
    using m by (auto simp: range_in_def)
  have xy: "y = take (nat k) (drop (nat q) s)" "x = take 1 (drop (nat j) (take (nat q) s @ drop (nat q + nat k) s))"
    using assms(3, 5) by (simp_all add: c m(2) Delete_Command)
  have one: "drop (nat j) s = s ! nat j # drop (Suc (nat j)) s" using n(3) by (rule Cons_nth_drop_Suc [symmetric])
  have "x = [s ! nat j]" using n by (simp add: xy(2) drop_take) (simp add: one)
  then have "x @ y = take (nat (n + k)) (drop (nat j) s)" using n by (simp add: xy(1) one)
  moreover have "snd (prep m s) = snd (prep c (snd (prep p s)))" using n m by (simp add: c Delete_Command take_drop)
  ultimately show ?thesis using assms(2, 4) q m by (auto simp: c Delete_Command carets_fit_def range_in_def)
qed (use assms(1) in \<open>cases c; simp\<close>)+

text \<open>Recording: a command just executed, or the one it merges into, becomes the last of the timeline.\<close>

lemma drop_oldest_suffix:
  "\<exists>gone. es = gone @ fst (drop_oldest capacity es dropped) \<and> snd (drop_oldest capacity es dropped) = dropped + int (length gone)"
proof (induction capacity es dropped rule: drop_oldest.induct)
  case (2 capacity e es dropped)
  show ?case
  proof (cases "length (e # es) > capacity")
    case True
    then obtain gone where "es = gone @ fst (drop_oldest capacity es (dropped + 1))"
      "snd (drop_oldest capacity es (dropped + 1)) = dropped + 1 + int (length gone)"
      using 2 by blast
    with True show ?thesis by (intro exI [of _ "e # gone"]) simp
  qed simp
qed simp

lemma drop_oldest_keeps_last: "1 \<le> capacity \<Longrightarrow> \<exists>kept. fst (drop_oldest capacity (es @ [e]) dropped) = kept @ [e]"
proof (induction es arbitrary: dropped)
  case (Cons x es)
  then show ?case by (cases "length (x # es @ [e]) > capacity") auto
qed simp

text \<open>The stack before the dropping of old entries.\<close>

definition pushed :: "time \<Rightarrow> edit_command \<Rightarrow> history \<Rightarrow> history_entry list" where
  "pushed now c h =
     (case hi_merged now c h of
        Some m \<Rightarrow> butlast (hi_undo h) @ [(hi_objects h, m)]
      | None \<Rightarrow> hi_undo h @ [(hi_objects h, c)])"

lemma hi_record_undo:
  "\<exists>gone. pushed now c h = gone @ hi_undo (hi_record now c h) \<and> hi_dropped (hi_record now c h) = hi_dropped h + int (length gone)"
proof (cases "hi_merged now c h")
  case None
  then show ?thesis
    using drop_oldest_suffix [of "hi_undo h @ [(hi_objects h, c)]" "hi_capacity h" "hi_dropped h"]
    by (auto simp: pushed_def hi_record_def Let_def split_beta)
qed (simp add: pushed_def hi_record_def Let_def)

lemma hi_record_fields [simp]:
  "hi_redo (hi_record now c h) = []" "hi_objects (hi_record now c h) = Suc (hi_objects h)"
  "hi_can_coalesce (hi_record now c h)" "hi_capacity (hi_record now c h) = hi_capacity h"
  by (simp_all add: hi_record_def Let_def split_beta split: option.split)

lemma pushed_settled:
  assumes "settled base (hi_undo h)" and "fits c (text_at base (hi_undo h))" and "fst (prep c (text_at base (hi_undo h))) = c"
  shows "settled base (pushed now c h)" and "text_at base (pushed now c h) = snd (prep c (text_at base (hi_undo h)))"
proof -
  have "settled base (pushed now c h) \<and> text_at base (pushed now c h) = snd (prep c (text_at base (hi_undo h)))"
  proof (cases "hi_merged now c h")
    case (Some m)
    then have ne: "hi_undo h \<noteq> []" and m: "coalesce_with c (snd (List.last (hi_undo h))) = Some m"
      by (auto simp: hi_merged_def split: if_splits)
    then obtain es e where es: "hi_undo h = es @ [e]" by (metis append_butlast_last_id)
    have e: "fits (snd e) (text_at base es)" "fst (prep (snd e) (text_at base es)) = snd e" "settled base es"
      using assms(1) by (simp_all add: es)
    show ?thesis
      using coalesce_settled [OF m [unfolded es last_snoc] e(1, 2)] assms(2, 3) e(3) Some by (simp add: pushed_def es)
  qed (use assms in \<open>simp add: pushed_def\<close>)
  then show "settled base (pushed now c h)" and "text_at base (pushed now c h) = snd (prep c (text_at base (hi_undo h)))" by simp_all
qed

lemma pushed_ids:
  assumes "distinct (map fst (hi_undo h))" and "\<forall>e \<in> set (hi_undo h). fst e < hi_objects h"
  shows "distinct (map fst (pushed now c h))" and "\<forall>e \<in> set (pushed now c h). fst e < Suc (hi_objects h)"
proof -
  have "distinct (map fst (butlast (hi_undo h)))" "set (butlast (hi_undo h)) \<subseteq> set (hi_undo h)"
    using assms(1) by (simp_all add: map_butlast distinct_butlast in_set_butlastD subsetI)
  then show "distinct (map fst (pushed now c h))" and "\<forall>e \<in> set (pushed now c h). fst e < Suc (hi_objects h)"
    using assms unfolding pushed_def by (auto split: option.split simp: less_Suc_eq dest!: in_set_butlastD)
qed

lemma do_run_wf:
  assumes "doc_wf base d" and "fits c (do_text d)"
  shows "\<exists>d1 base1. do_run now c d = (Inr (fst (prep c (do_text d))), d1) \<and> doc_wf base1 d1 \<and> do_text d1 = snd (prep c (do_text d)) \<and>
    do_cursor d1 = cmd_after c \<and> do_history d1 = hi_record now (fst (prep c (do_text d))) (do_history d) \<and>
    do_ever_saved d1 = do_ever_saved d \<and> do_saved_top d1 = do_saved_top d \<and>
    (\<exists>gone. pushed now (fst (prep c (do_text d))) (do_history d) = gone @ hi_undo (do_history d1) \<and> base1 = text_at base gone \<and>
       hi_dropped (do_history d1) = hi_dropped (do_history d) + int (length gone))"
proof -
  let ?s = "do_text d" and ?h = "do_history d"
  let ?c = "fst (prep c ?s)"
  obtain d2 where d2: "cmd_execute c d = (Inr (), ?c, d2)" "doc_shows d2 (snd (prep c ?s))" "do_cursor d2 = cmd_after c" "same_rest d d2"
    using cmd_execute_fits(1) [OF assms(2) doc_wf_shows [OF assms(1)]] by blast
  let ?d1 = "d2\<lparr>do_history := hi_record now ?c ?h\<rparr>"
  have run: "do_run now c d = (Inr ?c, ?d1)" using d2 by (simp add: do_run_def same_rest_def)
  obtain gone where gone: "pushed now ?c ?h = gone @ hi_undo (hi_record now ?c ?h)"
    "hi_dropped (hi_record now ?c ?h) = hi_dropped ?h + int (length gone)" using hi_record_undo by blast
  have s: "?s = text_at base (hi_undo ?h)" by (rule doc_wfD(2) [OF assms(1)])
  have fit: "fits ?c (text_at base (hi_undo ?h))" "fst (prep ?c (text_at base (hi_undo ?h))) = ?c"
    "snd (prep ?c (text_at base (hi_undo ?h))) = snd (prep c ?s)"
    using assms(2) by (simp_all add: fits_prep prep_again flip: s)
  note set = pushed_settled [OF doc_wfD(4) [OF assms(1)] fit(1, 2), of now]
  have ids: "distinct (map fst (hi_undo ?h))" "\<forall>e \<in> set (hi_undo ?h). fst e < hi_objects ?h"
    using assms(1) by (auto simp: doc_wf_def timeline_def)
  have "carets_fit c ?s" using assms(2) by (cases c) auto
  then have "cursor_in (cmd_after c) (snd (prep c ?s))" by (simp add: carets_fit_def)
  then have "doc_wf (text_at base gone) ?d1"
    using set pushed_ids [OF ids, of now ?c] d2 fit(3) unfolding gone(1)
    by (simp add: doc_wf_def doc_shows_def do_text_def timeline_def)
  then show ?thesis using run d2 gone by (auto simp: same_rest_def doc_shows_def do_text_def)
qed

section \<open>Editing keeps the timeline\<close>

lemma selection_range:
  assumes "cu_selection c = Inr (Some sel)"
  shows "0 \<le> se_start sel" and "0 \<le> se_length sel" and "se_start sel \<le> cu_position c"
  using assms by (auto simp: cu_selection_def selection_new_def se_length_def split: option.splits if_splits)

lemma delete_refused:
  assumes "buf_ok (do_buffer d)" and "0 \<le> p" and "0 \<le> n" and "int (length (do_text d)) < p + n"
  shows "apply_delete p n d = (Inl ValidationError, d)"
  using buf.del_out [OF assms(1), of "nat p" "nat n"] assms by (simp add: apply_delete_def do_text_def)

text \<open>A typed text either fits, or its selection reaches past the end and nothing happens.\<close>

lemma type_command_cases:
  assumes "doc_shows d s" and "cursor_in (do_cursor d) s" and "type_command x (do_cursor d) = Inr c"
  shows "fits c s \<or> (\<exists>e c1. cmd_execute c d = (Inl e, c1, d))"
proof (cases "cu_selection (do_cursor d)")
  case (Inr sel)
  show ?thesis
  proof (cases sel)
    case None
    then have "c = Insert_Command (cu_position (do_cursor d)) x (do_cursor d) (caret (cu_position (do_cursor d) + int (length x)))"
      using assms(3) Inr by (simp add: type_command_def)
    then show ?thesis using assms(2) by (auto simp: range_in_def carets_fit_def cursor_in_def)
  next
    case (Some r)
    note r = selection_range [OF Inr [unfolded Some]]
    have c: "c = Macro_Command ''type over selection'' (do_cursor d) (caret (se_start r + int (length x)))
        [Delete_Command (se_start r) (se_length r) (do_cursor d) (caret (se_start r)) [],
         Insert_Command (se_start r) x (caret (se_start r)) (caret (se_start r + int (length x)))]"
      using assms(3) Inr Some by (simp add: type_command_def Let_def)
    show ?thesis
    proof (cases "se_start r + se_length r \<le> int (length s)")
      case True
      then show ?thesis using assms(2) r by (auto simp: c range_in_def carets_fit_def cursor_in_def)
    next
      case False
      then have "apply_delete (se_start r) (se_length r) d = (Inl ValidationError, d)"
        using delete_refused assms(1) r by (simp add: doc_shows_def)
      then show ?thesis by (simp add: c and_then_def)
    qed
  qed
qed (use assms(3) in \<open>simp add: type_command_def\<close>)

lemma delete_command_cases:
  assumes "doc_shows d s" and "cursor_in (do_cursor d) s" and "0 \<le> p" and "0 \<le> n" and "p \<le> int (length s)"
  shows "fits (Delete_Command p n (do_cursor d) (caret p) x) s \<or>
    (\<exists>e c1. cmd_execute (Delete_Command p n (do_cursor d) (caret p) x) d = (Inl e, c1, d))"
proof (cases "p + n \<le> int (length s)")
  case True
  then show ?thesis using assms by (auto simp: range_in_def carets_fit_def cursor_in_def)
next
  case False
  then have "apply_delete p n d = (Inl ValidationError, d)" using delete_refused assms by (simp add: doc_shows_def)
  then show ?thesis by simp
qed

section \<open>Replacing all occurrences\<close>

text \<open>\<^verbatim>\<open>str.replace\<close> for a needle that is not empty: from left to right, past each occurrence replaced.\<close>

fun py_replace :: "string \<Rightarrow> string \<Rightarrow> string \<Rightarrow> string" where
  "py_replace needle rep [] = []"
| "py_replace needle rep (c # cs) =
     (if needle \<noteq> [] \<and> take (length needle) (c # cs) = needle then rep @ py_replace needle rep (drop (length needle - 1) cs)
      else c # py_replace needle rep cs)"

text \<open>The hits kept, from a position on: the first occurrence, and those from its end on.\<close>

lemma py_find_shrinks:
  assumes "needle \<noteq> []" and "py_find needle s pos = Some i"
  shows "length s + 1 - (i + length needle) < length s + 1 - pos"
  using py_find_range [OF assms(2)] assms(1) by (cases needle) auto

function hits_from :: "string \<Rightarrow> string \<Rightarrow> nat \<Rightarrow> nat list" where
  "hits_from needle s pos =
     (if needle = [] then [] else case py_find needle s pos of None \<Rightarrow> [] | Some i \<Rightarrow> i # hits_from needle s (i + length needle))"
  by pat_completeness auto
termination
  by (relation "measure (\<lambda>(needle, s, pos). length s + 1 - pos)") (auto dest: py_find_shrinks)

declare hits_from.simps [simp del]

lemma py_find_here: "occurs_at needle s i \<Longrightarrow> i < length s + 1 - length needle \<Longrightarrow> py_find needle s i = Some i"
  by (simp add: py_find_def upt_conv_Cons)

lemma py_find_skip: "\<not> occurs_at needle s i \<Longrightarrow> py_find needle s i = py_find needle s (Suc i)"
  by (cases "i < length s + 1 - length needle") (simp_all add: py_find_def upt_conv_Cons)

lemma occurs_in: "occurs_at needle s i \<Longrightarrow> i \<le> length s \<Longrightarrow> i < length s + 1 - length needle"
  by (auto simp: occurs_at_def dest!: arg_cong [of _ _ length])

lemma py_find_end: "length s + 1 - length needle \<le> i \<Longrightarrow> py_find needle s i = None"
  by (simp add: py_find_def)

lemma find_loop_filter: "find_loop needle s start = filter (occurs_at needle s) [start ..< length s + 1 - length needle]"
proof (induction "length s + 1 - start" arbitrary: start rule: less_induct)
  case less
  show ?case
  proof (cases "start < length s + 1 - length needle")
    case False
    then show ?thesis by (subst find_loop.simps) (simp add: py_find_end)
  next
    case True
    show ?thesis
    proof (cases "occurs_at needle s start")
      case occ: True
      have "find_loop needle s (Suc start) = filter (occurs_at needle s) [Suc start ..< length s + 1 - length needle]"
        using less.hyps [of "Suc start"] True by simp
      then show ?thesis using True occ by (subst find_loop.simps) (simp add: py_find_here upt_conv_Cons)
    next
      case skip: False
      have "find_loop needle s start = find_loop needle s (Suc start)"
        by (subst (1 2) find_loop.simps) (simp add: py_find_skip [OF skip])
      then show ?thesis using less.hyps [of "Suc start"] True skip by (simp add: upt_conv_Cons)
    qed
  qed
qed

lemma keep_hits:
  assumes "needle \<noteq> []"
  shows "fold (keep_hit (length needle)) (filter (occurs_at needle s) [start ..< length s + 1 - length needle]) acc =
    acc @ hits_from needle s (if acc = [] then start else max start (List.last acc + length needle))"
proof (induction "length s + 1 - start" arbitrary: start acc rule: less_induct)
  case less
  let ?n = "length needle" and ?L = "length s + 1 - length needle"
  let ?b = "if acc = [] then start else max start (List.last acc + ?n)"
  show ?case
  proof (cases "start < ?L")
    case False
    then have "hits_from needle s ?b = []" by (subst hits_from.simps) (simp add: py_find_end assms)
    with False show ?thesis by simp
  next
    case True
    have IH: "fold (keep_hit ?n) (filter (occurs_at needle s) [Suc start ..< ?L]) a =
        a @ hits_from needle s (if a = [] then Suc start else max (Suc start) (List.last a + ?n))" for a
      using less.hyps [of "Suc start" a] True by simp
    show ?thesis
    proof (cases "occurs_at needle s start")
      case skip: False
      have "hits_from needle s start = hits_from needle s (Suc start)"
        by (subst (1 2) hits_from.simps) (simp add: py_find_skip [OF skip])
      then show ?thesis using IH [of acc] True skip by (auto simp: upt_conv_Cons max_def not_less_eq_eq le_Suc_eq)
    next
      case occ: True
      show ?thesis
      proof (cases "acc = [] \<or> List.last acc + ?n \<le> start")
        case kept: True
        then have "?b = start" by auto
        moreover have "hits_from needle s start = start # hits_from needle s (start + ?n)"
          using assms by (subst hits_from.simps) (simp add: py_find_here [OF occ True])
        moreover have "max (Suc start) (start + ?n) = start + ?n" using assms by (cases needle) simp_all
        ultimately show ?thesis using IH [of "acc @ [start]"] True occ kept by (simp add: upt_conv_Cons keep_hit_def)
      next
        case passed: False
        then have "max (Suc start) (List.last acc + ?n) = max start (List.last acc + ?n)" by simp
        then show ?thesis using IH [of acc] True occ passed by (simp add: upt_conv_Cons keep_hit_def)
      qed
    qed
  qed
qed

definition hits_ok :: "nat \<Rightarrow> nat list \<Rightarrow> nat \<Rightarrow> bool" where
  "hits_ok n hits len \<longleftrightarrow> sorted_wrt (\<lambda>i j. i + n \<le> j) hits \<and> (\<forall>i \<in> set hits. i + n \<le> len)"

lemma hits_from_bounds: "i \<in> set (hits_from needle s pos) \<Longrightarrow> pos \<le> i \<and> i + length needle \<le> length s"
proof (induction needle s pos rule: hits_from.induct)
  case (1 needle s pos)
  show ?case
  proof (cases "needle = [] \<or> py_find needle s pos = None")
    case True
    then show ?thesis using 1(2) by (subst (asm) hits_from.simps) (auto split: if_splits)
  next
    case False
    then obtain j where j: "needle \<noteq> []" "py_find needle s pos = Some j" by auto
    then have "i = j \<or> i \<in> set (hits_from needle s (j + length needle))" using 1(2) by (subst (asm) hits_from.simps) simp
    then show ?thesis using 1(1) [OF j] py_find_range [OF j(2)] by auto
  qed
qed

lemma hits_from_ok: "hits_ok (length needle) (hits_from needle s pos) (length s)"
proof (induction needle s pos rule: hits_from.induct)
  case (1 needle s pos)
  show ?case
  proof (cases "needle = [] \<or> py_find needle s pos = None")
    case True
    then show ?thesis by (subst hits_from.simps) (auto simp: hits_ok_def)
  next
    case False
    then obtain j where j: "needle \<noteq> []" "py_find needle s pos = Some j" by auto
    have "hits_from needle s pos = j # hits_from needle s (j + length needle)" using j by (subst hits_from.simps) simp
    then show ?thesis
      using 1 [OF j] hits_from_bounds [of _ needle s "j + length needle"] py_find_range [OF j(2)] by (auto simp: hits_ok_def)
  qed
qed

fun splice :: "nat \<Rightarrow> string \<Rightarrow> nat \<Rightarrow> nat list \<Rightarrow> string \<Rightarrow> string" where
  "splice n rep pos [] s = drop pos s"
| "splice n rep pos (h # hs) s = take (h - pos) (drop pos s) @ rep @ splice n rep (h + n) hs s"

lemma splice_last:
  assumes "sorted_wrt (\<lambda>i j. i + n \<le> j) (hits @ [h])" and "h + n \<le> length s" and "\<forall>i \<in> set (hits @ [h]). pos \<le> i"
  shows "splice n rep pos (hits @ [h]) s = splice n rep pos hits (take h s @ rep @ drop (h + n) s)"
  using assms
proof (induction hits arbitrary: pos)
  case Nil
  then show ?case by (simp add: drop_take)
next
  case (Cons x hits)
  have "x + n \<le> h" and rest: "\<forall>i \<in> set (hits @ [h]). x + n \<le> i" using Cons.prems(1) by auto
  have "splice n rep (x + n) (hits @ [h]) s = splice n rep (x + n) hits (take h s @ rep @ drop (h + n) s)"
    by (rule Cons.IH [OF _ Cons.prems(2) rest]) (use Cons.prems(1) in simp)
  moreover have "take (x - pos) (drop pos (take h s @ rep @ drop (h + n) s)) = take (x - pos) (drop pos s)"
    using \<open>x + n \<le> h\<close> Cons.prems(2, 3) by (simp add: drop_take)
  ultimately show ?case by simp
qed

abbreviation replace_edit :: "nat \<Rightarrow> string \<Rightarrow> nat \<Rightarrow> edit_command" where
  "replace_edit n rep i \<equiv> Replace_Command (int i) (int n) rep (caret (int i)) (caret (int i + int (length rep))) []"

lemma edits_splice:
  "hits_ok n hits (length s) \<Longrightarrow>
     fits_all (map (replace_edit n rep) (rev hits)) s \<and> snd (preps (map (replace_edit n rep) (rev hits)) s) = splice n rep 0 hits s"
proof (induction hits arbitrary: s rule: rev_induct)
  case (snoc h hits)
  let ?u = "take h s @ rep @ drop (h + n) s"
  have h: "h + n \<le> length s" and before: "\<forall>i \<in> set hits. i + n \<le> h" and sorted: "sorted_wrt (\<lambda>i j. i + n \<le> j) (hits @ [h])"
    using snoc.prems by (simp_all add: hits_ok_def sorted_wrt_append)
  have "hits_ok n hits (length ?u)" using sorted before h by (auto simp: hits_ok_def sorted_wrt_append)
  note IH = snoc.IH [OF this]
  have "fits (replace_edit n rep h) s" using h by (auto simp: range_in_def carets_fit_def cursor_in_def nat_add_distrib)
  moreover have "snd (prep (replace_edit n rep h) s) = ?u" by simp
  moreover have "splice n rep 0 (hits @ [h]) s = splice n rep 0 hits ?u" by (rule splice_last [OF sorted h]) simp
  ultimately show ?case using IH by simp
qed simp

lemma splice_replaces:
  assumes "needle \<noteq> []" and "pos \<le> length s"
  shows "splice (length needle) rep pos (hits_from needle s pos) s = py_replace needle rep (drop pos s)"
  using assms(2)
proof (induction "length s - pos" arbitrary: pos rule: less_induct)
  case less
  let ?n = "length needle"
  show ?case
  proof (cases "occurs_at needle s pos")
    case True
    have lt: "pos < length s + 1 - ?n" by (rule occurs_in [OF True less.prems])
    then have next_hit: "hits_from needle s pos = pos # hits_from needle s (pos + ?n)"
      using assms(1) by (subst hits_from.simps) (simp add: py_find_here [OF True])
    have "pos < length s" using lt assms(1) by (cases needle) auto
    then obtain c cs where cs: "drop pos s = c # cs" by (cases "drop pos s") auto
    have "drop (?n - 1) cs = drop ?n (drop pos s)" using assms(1) by (cases needle) (simp_all add: cs)
    then have rest: "drop (?n - 1) cs = drop (pos + ?n) s" by (simp add: add.commute)
    have "splice ?n rep (pos + ?n) (hits_from needle s (pos + ?n)) s = py_replace needle rep (drop (pos + ?n) s)"
      using less.hyps [of "pos + ?n"] lt assms(1) by (cases needle) auto
    then show ?thesis using True assms(1) rest by (simp add: next_hit cs occurs_at_def)
  next
    case False
    have skip: "hits_from needle s pos = hits_from needle s (Suc pos)"
      by (subst (1 2) hits_from.simps) (simp add: py_find_skip [OF False])
    show ?thesis
    proof (cases "pos < length s")
      case True
      have cs: "drop pos s = s ! pos # drop (Suc pos) s" using True by (rule Cons_nth_drop_Suc [symmetric])
      have "splice ?n rep pos (hits_from needle s (Suc pos)) s = s ! pos # splice ?n rep (Suc pos) (hits_from needle s (Suc pos)) s"
      proof (cases "hits_from needle s (Suc pos)")
        case (Cons h hs)
        then have "Suc pos \<le> h" using hits_from_bounds [of h needle s "Suc pos"] by simp
        then show ?thesis by (simp add: Cons cs Suc_diff_le [symmetric] take_Cons')
      qed (simp add: cs)
      then show ?thesis using less.hyps [of "Suc pos"] True False by (simp add: skip cs occurs_at_def)
    next
      case over: False
      then have "py_find needle s pos = None" using assms(1) by (intro py_find_end) (cases needle; simp)
      then have "hits_from needle s pos = []" by (subst hits_from.simps) simp
      with over show ?thesis by simp
    qed
  qed
qed

lemma hits_none:
  assumes "needle \<noteq> []"
  shows "hits_from needle s 0 = [] \<longleftrightarrow> (\<forall>i \<le> length s. \<not> occurs_at needle s i)"
proof -
  have "hits_from needle s 0 = [] \<longleftrightarrow> py_find needle s 0 = None"
    using assms by (subst hits_from.simps) (simp split: option.split)
  also have "\<dots> \<longleftrightarrow> (\<forall>i < length s + 1 - length needle. \<not> occurs_at needle s i)"
    by (auto simp: py_find_def find_None_iff)
  also have "\<dots> \<longleftrightarrow> (\<forall>i \<le> length s. \<not> occurs_at needle s i)"
    using occurs_in [of needle s] by fastforce
  finally show ?thesis .
qed

section \<open>Editing operations\<close>

text \<open>An edit runs a command that fits the text, or changes nothing.\<close>

definition edited :: "time \<Rightarrow> document \<Rightarrow> edit_command option result \<times> document \<Rightarrow> bool" where
  "edited now d r \<longleftrightarrow>
     (\<exists>c. fits c (do_text d) \<and> cmd_before c = do_cursor d \<and> r = apfst (map_sum id Some) (do_run now c d)) \<or>
     (snd r = d \<and> (\<forall>c. fst r \<noteq> Inr (Some c)))"

lemma edited_run:
  assumes "fits c (do_text d) \<or> (\<exists>e c1. cmd_execute c d = (Inl e, c1, d))" and "cmd_before c = do_cursor d"
  shows "edited now d (apfst (map_sum id Some) (do_run now c d))"
proof (cases "fits c (do_text d)")
  case False
  then obtain e c1 where "cmd_execute c d = (Inl e, c1, d)" using assms(1) by blast
  then show ?thesis by (simp add: edited_def do_run_def)
qed (use assms(2) in \<open>auto simp: edited_def\<close>)

lemma edited_same: "snd r = d \<Longrightarrow> (\<And>c. fst r \<noteq> Inr (Some c)) \<Longrightarrow> edited now d r"
  by (simp add: edited_def)

lemma cursor_bounds: "cursor_in (do_cursor d) (do_text d) \<Longrightarrow> 0 \<le> cu_position (do_cursor d) \<and> cu_position (do_cursor d) \<le> int (length (do_text d))"
  by (simp add: cursor_in_def)

lemma selection_bounds:
  assumes "cu_selection c = Inr (Some sel)"
  shows "se_start sel \<le> cu_position c"
  by (rule selection_range(3) [OF assms])

lemma hits_replaced:
  assumes "needle \<noteq> []" and "hits = fold (keep_hit (length needle)) (find_loop needle s 0) []"
  shows "hits = hits_from needle s 0" and "splice (length needle) rep 0 hits s = py_replace needle rep s"
proof -
  show h: "hits = hits_from needle s 0" using keep_hits [OF assms(1), of s 0 "[]"] by (simp add: assms(2) find_loop_filter)
  show "splice (length needle) rep 0 hits s = py_replace needle rep s"
    using splice_replaces [OF assms(1), of 0 s rep] by (simp add: h)
qed

lemma replace_command_fits:
  assumes "needle \<noteq> []" and "hits = hits_from needle s 0" and "hits \<noteq> []" and "cursor_in before s"
  shows "fits (replace_command needle rep hits before) s" and "snd (prep (replace_command needle rep hits before) s) = splice (length needle) rep 0 hits s"
proof -
  have ok: "hits_ok (length needle) hits (length s)" unfolding assms(2) by (rule hits_from_ok)
  note edits = edits_splice [OF ok, of rep]
  obtain h hs where h: "hits = h # hs" using assms(3) by (cases hits) auto
  have "h + length needle \<le> length s" using ok by (simp add: h hits_ok_def)
  then have "int h + int (length rep) \<le> int (length (splice (length needle) rep 0 hits s))" by (simp add: h)
  then show "fits (replace_command needle rep hits before) s"
    using edits assms(4) by (simp add: replace_command_def carets_fit_def cursor_in_def h)
  show "snd (prep (replace_command needle rep hits before) s) = splice (length needle) rep 0 hits s"
    using edits by (simp add: replace_command_def)
qed

lemma doc_edit_edited:
  assumes "doc_wf base d"
  shows "edited now d (doc_edit now op d)"
proof -
  have shows_d: "doc_shows d (do_text d)" and cur: "cursor_in (do_cursor d) (do_text d)"
    using doc_wf_shows [OF assms] doc_wfD(3) [OF assms] .
  note pos = cursor_bounds [OF cur]
  have len: "do_length d = int (length (do_text d))"
    using buf_len_text [OF doc_wfD(1) [OF assms]] by (simp add: do_length_def do_text_def)
  show ?thesis
  proof (cases op)
    case (Type_Text s)
    show ?thesis
    proof (cases "type_command s (do_cursor d)")
      case (Inl e)
      then show ?thesis by (intro edited_same) (simp_all add: Type_Text do_type_text_def)
    next
      case (Inr c)
      then have "cmd_before c = do_cursor d" by (auto simp: type_command_def Let_def split: sum.splits option.splits)
      then show ?thesis using edited_run [OF type_command_cases [OF shows_d cur Inr]] Inr by (simp add: Type_Text do_type_text_def)
    qed
  next
    case Backspace
    show ?thesis
    proof (cases "cu_selection (do_cursor d)")
      case (Inl e)
      then show ?thesis by (intro edited_same) (simp_all add: Backspace do_backspace_def Let_def)
    next
      case (Inr sel)
      show ?thesis
      proof (cases sel)
        case None
        show ?thesis
        proof (cases "cu_position (do_cursor d) = 0")
          case True
          then show ?thesis using Inr None by (intro edited_same) (simp_all add: Backspace do_backspace_def Let_def)
        next
          case False
          then show ?thesis
            using edited_run [OF delete_command_cases [OF shows_d cur, of "cu_position (do_cursor d) - 1" 1 "[]"]] pos Inr None
            by (simp add: Backspace do_backspace_def Let_def)
        qed
      next
        case (Some r)
        note r = selection_range [OF Inr [unfolded Some]]
        then show ?thesis
          using edited_run [OF delete_command_cases [OF shows_d cur, of "se_start r" "se_length r" "[]"]] pos Inr Some
          by (simp add: Backspace do_backspace_def Let_def)
      qed
    qed
  next
    case Delete_Forward
    show ?thesis
    proof (cases "do_length d \<le> cu_position (do_cursor d)")
      case True
      then show ?thesis by (intro edited_same) (simp_all add: Delete_Forward do_delete_forward_def Let_def)
    next
      case False
      then show ?thesis
        using edited_run [OF delete_command_cases [OF shows_d cur, of "cu_position (do_cursor d)" 1 "[]"]] pos
        by (simp add: Delete_Forward do_delete_forward_def Let_def cu_collapsed_def)
    qed
  next
    case (Replace_All needle rep)
    show ?thesis
    proof (cases "needle = []")
      case True
      then show ?thesis by (intro edited_same) (simp_all add: Replace_All do_replace_all_def do_find_def)
    next
      case False
      let ?hits = "fold (keep_hit (length needle)) (find_loop needle (do_text d) 0) []"
      note hits = hits_replaced(1) [OF False refl, of "do_text d"]
      show ?thesis
      proof (cases "?hits = []")
        case True
        with False show ?thesis by (intro edited_same) (simp_all add: Replace_All do_replace_all_def do_find_def Let_def)
      next
        case found: False
        have fit: "fits (replace_command needle rep ?hits (do_cursor d)) (do_text d)"
          by (rule replace_command_fits(1) [OF False hits found cur])
        have "doc_edit now op d = apfst (map_sum id Some) (do_run now (replace_command needle rep ?hits (do_cursor d)) d)"
          using False found by (simp add: Replace_All do_replace_all_def do_find_def Let_def split_beta apfst_def map_prod_def)
        then show ?thesis using edited_run [OF disjI1 [OF fit]] by (simp add: replace_command_def)
      qed
    qed
  qed
qed

lemma doc_edit_wf:
  assumes "doc_wf base d"
  shows "\<exists>base1. doc_wf base1 (snd (doc_edit now op d))"
  using doc_edit_edited [OF assms, of now op] do_run_wf [OF assms, of _ now] assms unfolding edited_def by (metis snd_apfst snd_conv)

section \<open>Every open document has a timeline\<close>

lemma do_undo_keeps: "doc_wf base d \<Longrightarrow> \<exists>base1. doc_wf base1 (snd (do_undo d))"
proof (cases "hi_undo (do_history d)" rule: rev_cases)
  case (snoc es e)
  assume "doc_wf base d"
  from do_undo_wf [OF this snoc] show ?thesis by auto
qed (auto simp: do_undo_def Let_def)

lemma do_redo_keeps: "doc_wf base d \<Longrightarrow> \<exists>base1. doc_wf base1 (snd (do_redo d))"
proof (cases "hi_redo (do_history d)" rule: rev_cases)
  case (snoc es e)
  assume "doc_wf base d"
  from do_redo_wf [OF this snoc] show ?thesis by auto
qed (auto simp: do_redo_def Let_def)

text \<open>What only moves the caret, the styles or the marker keeps the timeline.\<close>

lemma doc_wf_frame:
  assumes "doc_wf base d" and "do_buffer d1 = do_buffer d" and "cursor_in (do_cursor d1) (do_text d)"
    and "hi_undo (do_history d1) = hi_undo (do_history d)" and "hi_redo (do_history d1) = hi_redo (do_history d)"
    and "hi_objects (do_history d1) = hi_objects (do_history d)"
  shows "doc_wf base d1"
  using assms by (simp add: doc_wf_def doc_shows_def do_text_def timeline_def)

lemma set_cursor_moves:
  assumes "doc_wf base d" and "set_cursor c d = (r, d1)"
  shows "do_buffer d1 = do_buffer d \<and> do_history d1 = do_history d \<and> cursor_in (do_cursor d1) (do_text d) \<and>
    do_ever_saved d1 = do_ever_saved d \<and> do_saved_top d1 = do_saved_top d"
  using assms buf_len_text [OF doc_wfD(1) [OF assms(1)]] doc_wfD(3) [OF assms(1)]
  by (auto simp: set_cursor_def cursor_in_def do_text_def split: if_splits)

definition moved :: "document \<Rightarrow> document \<Rightarrow> bool" where
  "moved d d1 \<longleftrightarrow>
     do_buffer d1 = do_buffer d \<and> cursor_in (do_cursor d1) (do_text d) \<and> do_ever_saved d1 = do_ever_saved d \<and>
     do_saved_top d1 = do_saved_top d \<and>
     (do_history d1 = do_history d \<or> do_history d1 = hi_break_coalescing (do_history d))"

lemma moved_wf: "doc_wf base d \<Longrightarrow> moved d d1 \<Longrightarrow> doc_wf base d1"
  by (erule doc_wf_frame) (auto simp: moved_def hi_break_coalescing_def)

lemma do_select_moved:
  assumes "doc_wf base d"
  shows "moved d (snd (do_select i j d))"
proof -
  obtain r d1 where e: "set_cursor \<lparr>cu_position = j, cu_anchor = Some i\<rparr> d = (r, d1)" by fastforce
  show ?thesis
    using set_cursor_moves [OF assms e] by (cases r) (auto simp: do_select_def e do_break_coalescing_def moved_def)
qed

lemma do_move_moved:
  assumes "doc_wf base d"
  shows "moved d (snd (do_move_to p keep d))"
proof -
  obtain r d1 where e: "set_cursor (cu_moved_to p keep (do_cursor d)) d = (r, d1)" by fastforce
  show ?thesis
    using set_cursor_moves [OF assms e] by (cases r) (auto simp: do_move_to_def Let_def e do_break_coalescing_def moved_def)
qed

lemma doc_do_cases:
  assumes "doc_wf base d"
  shows "(\<exists>op. act = Act_Edit op) \<or> act = Act_Undo \<or> act = Act_Redo \<or> moved d (doc_do now act d)"
proof (cases act)
  case (Act_Style i j st)
  then show ?thesis using doc_wfD(3) [OF assms] by (simp add: do_apply_style_def moved_def)
qed (simp_all add: do_select_moved [OF assms] do_move_moved [OF assms] do_select_all_def)

lemma doc_do_wf:
  assumes "doc_wf base d"
  shows "\<exists>base1. doc_wf base1 (doc_do now act d)"
  using doc_do_cases [OF assms, of act now] doc_edit_wf [OF assms] do_undo_keeps [OF assms] do_redo_keeps [OF assms] moved_wf [OF assms]
  by (metis doc_do.simps(1) doc_do.simps(5) doc_do.simps(6))

lemma mark_saved_wf: "doc_wf base d \<Longrightarrow> doc_wf base (do_mark_saved d)"
  using doc_wfD(3) [of base d] by (auto intro: doc_wf_frame simp: do_mark_saved_def hi_break_coalescing_def)

lemma mark_saved_keeps: "doc_wf base d \<Longrightarrow> \<exists>base1. doc_wf base1 (do_mark_saved d)"
  by (rule exI, rule mark_saved_wf)

definition ed_wf :: "editor \<Rightarrow> bool" where
  "ed_wf ed \<longleftrightarrow> (\<forall>name d. dict_get (ed_tabs ed) name = Some d \<longrightarrow> (\<exists>base. doc_wf base d))"

lemma on_active_wf:
  assumes "ed_wf ed" and "\<And>base d. doc_wf base d \<Longrightarrow> \<exists>base1. doc_wf base1 (snd (f d))"
  shows "ed_wf (snd (on_active f ed))"
proof (cases "ed_active ed")
  case (Some name)
  show ?thesis
  proof (cases "dict_get (ed_tabs ed) name")
    case (Some d)
    then have "\<exists>base1. doc_wf base1 (snd (f d))" using assms unfolding ed_wf_def by blast
    then show ?thesis using assms(1) Some \<open>ed_active ed = Some name\<close> by (simp add: on_active_def split_beta ed_wf_def)
  qed (use assms(1) \<open>ed_active ed = Some name\<close> in \<open>simp add: on_active_def\<close>)
qed (use assms(1) in \<open>simp add: on_active_def\<close>)

lemma make_buffer_ok: "buf_ok (make_buffer factory s)" and make_buffer_text: "buf_text (make_buffer factory s) = s"
  by (cases factory; simp add: gb_new_ok gb_new_text)+

lemma new_document_wf: "\<exists>base. doc_wf base (do_new name (make_buffer factory s) capacity window)"
  by (rule exI, rule do_new_wf, rule make_buffer_ok)

lemma ed_new_tab_wf: "ed_wf ed \<Longrightarrow> ed_wf (snd (ed_new_tab factory name s ed))"
  by (auto simp: ed_wf_def ed_new_tab_def Let_def new_document_wf)

lemma ed_open_tab_wf:
  assumes "ed_wf ed"
  shows "ed_wf (snd (ed_open_tab factory name ed))"
proof (cases "fs_load name (ed_storage ed)")
  case (Inr s)
  show ?thesis
  proof (cases "fst (ed_new_tab factory name s ed)")
    case (Inl e)
    then show ?thesis using Inr ed_new_tab_wf [OF assms] by (simp add: ed_open_tab_def split_beta)
  next
    case new: (Inr d)
    have "d = do_new name (make_buffer factory s) (ed_capacity ed) (ed_window ed)"
      using new by (simp add: ed_new_tab_def Let_def split: if_splits)
    then have "\<exists>base. doc_wf base (do_mark_saved d)" using new_document_wf mark_saved_keeps by metis
    then show ?thesis
      using Inr new ed_new_tab_wf [OF assms, of factory name s] by (auto simp: ed_open_tab_def split_beta ed_wf_def)
  qed
qed (use assms in \<open>simp add: ed_open_tab_def\<close>)

lemma ed_wf_fields: "ed_tabs ed1 = ed_tabs ed \<Longrightarrow> ed_wf ed1 = ed_wf ed"
  by (simp add: ed_wf_def)

lemma ed_copy_wf:
  assumes "ed_wf ed"
  shows "ed_wf (snd (ed_copy ed))"
proof -
  have "ed_wf (snd (on_active (\<lambda>d. (do_selected d, d)) ed))" by (rule on_active_wf [OF assms]) auto
  then show ?thesis by (auto simp: ed_copy_def ed_wf_def split: prod.split sum.split)
qed

lemma do_backspace_wf: "doc_wf base d \<Longrightarrow> \<exists>base1. doc_wf base1 (snd (do_backspace now d))"
  using doc_edit_wf [of base d now Backspace] by simp

lemma do_type_text_wf: "doc_wf base d \<Longrightarrow> \<exists>base1. doc_wf base1 (snd (do_type_text now s d))"
  using doc_edit_wf [of base d now "Type_Text s"] by simp

lemma ed_cut_wf:
  assumes "ed_wf ed"
  shows "ed_wf (snd (ed_cut now ed))"
proof -
  have "ed_wf (snd (on_active (do_backspace now) (snd (ed_copy ed))))"
    by (rule on_active_wf [OF ed_copy_wf [OF assms] do_backspace_wf])
  then show ?thesis using ed_copy_wf [OF assms] by (auto simp: ed_cut_def split: prod.split sum.split)
qed

lemma ed_save_wf:
  assumes "ed_wf ed"
  shows "ed_wf (snd (ed_save name ed))"
proof -
  have read: "ed_wf (snd (on_active (\<lambda>d. (Inr d, d)) ed))" by (rule on_active_wf [OF assms]) auto
  have "ed_wf (snd (on_active (\<lambda>d. (Inr (), do_mark_saved d)) (ed1\<lparr>ed_storage := fs\<rparr>)))" if "ed_wf ed1" for ed1 fs
    by (rule on_active_wf) (use that in \<open>auto simp: ed_wf_def mark_saved_keeps\<close>)
  with read show ?thesis by (simp add: ed_save_def Let_def split_beta split: sum.split)
qed

lemma ed_do_wf:
  assumes "ed_wf ed"
  shows "ed_wf (ed_do now op ed)"
proof (cases op)
  case (Do_Close_Tab name)
  then show ?thesis using assms by (simp add: ed_close_tab_def Let_def ed_wf_def)
next
  case (Do_Switch_To name)
  then show ?thesis using assms by (simp add: ed_switch_to_def ed_wf_def)
next
  case (Do_Act act)
  then show ?thesis using on_active_wf [OF assms, of "\<lambda>d. (Inr (), doc_do now act d)"] doc_do_wf by simp
next
  case Do_Paste
  then show ?thesis using assms on_active_wf [OF assms do_type_text_wf] by (simp add: ed_paste_def split: sum.split)
qed (simp_all add: assms ed_new_tab_wf ed_open_tab_wf ed_copy_wf ed_cut_wf ed_save_wf)

lemma ed_run_wf: "ed_wf ed \<Longrightarrow> ed_wf (ed_run ops ed)"
  unfolding ed_run_def by (induction ops arbitrary: ed) (auto simp: ed_do_wf)

lemma open_document_wf:
  assumes "dict_get (ed_tabs (ed_run ops (ed_new fs capacity window))) name = Some d"
  obtains base where "doc_wf base d"
proof -
  have "ed_wf (ed_new fs capacity window)" by (simp add: ed_wf_def ed_new_def)
  with assms that show ?thesis using ed_run_wf unfolding ed_wf_def by blast
qed

section \<open>Undo, redo and the saved marker\<close>

text \<open>\<open>n\<close> undos, and \<open>n\<close> redos, if none of them raises.\<close>

fun undos :: "nat \<Rightarrow> document \<Rightarrow> document option" where
  "undos 0 d = Some d"
| "undos (Suc n) d = (case do_undo d of (Inl _, _) \<Rightarrow> None | (Inr _, d1) \<Rightarrow> undos n d1)"

fun redos :: "nat \<Rightarrow> document \<Rightarrow> document option" where
  "redos 0 d = Some d"
| "redos (Suc n) d = (case redos n d of None \<Rightarrow> None | Some d1 \<Rightarrow> (case do_redo d1 of (Inl _, _) \<Rightarrow> None | (Inr _, d2) \<Rightarrow> Some d2))"

lemma undos_redos:
  assumes "doc_wf base d" and "n \<le> length (hi_undo (do_history d))"
  shows "\<exists>d1 d2. undos n d = Some d1 \<and> redos n d1 = Some d2 \<and> doc_wf base d2 \<and> do_text d2 = do_text d \<and>
    hi_undo (do_history d2) = hi_undo (do_history d) \<and> hi_redo (do_history d2) = hi_redo (do_history d)"
  using assms
proof (induction n arbitrary: d)
  case (Suc n)
  obtain es e where es: "hi_undo (do_history d) = es @ [e]"
    using Suc.prems(2) by (cases "hi_undo (do_history d)" rule: rev_cases) auto
  obtain d' where d': "do_undo d = (Inr (snd e), d')" "doc_wf base d'" "do_text d' = text_at base es"
    "hi_undo (do_history d') = es" "hi_redo (do_history d') = hi_redo (do_history d) @ [e]"
    using do_undo_wf [OF Suc.prems(1) es] by auto
  obtain d1 d2 where d2: "undos n d' = Some d1" "redos n d1 = Some d2" "doc_wf base d2" "do_text d2 = do_text d'"
    "hi_undo (do_history d2) = es" "hi_redo (do_history d2) = hi_redo (do_history d) @ [e]"
    using Suc.IH [OF d'(2)] Suc.prems(2) es d' by auto
  obtain d3 where d3: "do_redo d2 = (Inr (snd e), d3)" "doc_wf base d3" "do_text d3 = snd (prep (snd e) (do_text d2))"
    "hi_undo (do_history d3) = es @ [e]" "hi_redo (do_history d3) = hi_redo (do_history d)"
    using do_redo_wf [OF d2(3, 6)] d2(5) by auto
  have "do_text d3 = do_text d" using doc_wfD(2) [OF Suc.prems(1)] by (simp add: d3(3) d2(4) d'(3) es)
  then show ?case using d' d2 d3 es by auto
qed auto

text \<open>C13. Undo and redo move along a timeline. In every document of every editor, after any editor operations whatever (typing,
  deleting, selections, cut and paste, replace-all, undos, redos, saves and tabs, failures included), as many undos as
  the history holds succeed one after the other, without failing half way, and the same number of redos brings back the
  very text and the history it came from.
\<close>
theorem undo_redo_timeline:
  assumes "dict_get (ed_tabs (ed_run ops (ed_new fs capacity window))) name = Some d" and "n \<le> length (hi_undo (do_history d))"
  shows "\<exists>d1 d2. undos n d = Some d1 \<and> redos n d1 = Some d2 \<and> do_text d2 = do_text d \<and>
    hi_undo (do_history d2) = hi_undo (do_history d) \<and> hi_redo (do_history d2) = hi_redo (do_history d)"
proof -
  obtain base where "doc_wf base d" by (rule open_document_wf [OF assms(1)])
  from undos_redos [OF this assms(2)] show ?thesis by blast
qed

lemma last_pushed:
  assumes "1 \<le> hi_capacity h"
  shows "\<exists>kept. hi_undo (hi_record now c h) =
    kept @ [(hi_objects h, case hi_merged now c h of None \<Rightarrow> c | Some m \<Rightarrow> m)]"
proof (cases "hi_merged now c h")
  case None
  then show ?thesis using drop_oldest_keeps_last [OF assms] by (simp add: hi_record_def Let_def split_beta)
qed (simp add: hi_record_def Let_def)

lemma some_command: "(Inr (Some c), d1) = apfst (map_sum id Some) r \<Longrightarrow> r = (Inr c, d1)"
  by (cases r; cases "fst r") auto

lemma edited_undone:
  assumes "doc_wf base d" and "doc_edit now op d = (Inr (Some c), d1)" and "1 \<le> hi_capacity (do_history d)"
  shows "\<exists>c2 d2. do_undo d1 = (Inr c2, d2) \<and>
    (if hi_merged now c (do_history d) = None then do_text d2 = do_text d \<and> do_cursor d2 = do_cursor d
     else do_text d2 = do_text (snd (do_undo d)) \<and> do_cursor d2 = do_cursor (snd (do_undo d)))"
proof -
  let ?h = "do_history d" and ?s = "do_text d"
  obtain c0 where c0: "fits c0 ?s" "cmd_before c0 = do_cursor d" "do_run now c0 d = (Inr c, d1)"
    using doc_edit_edited [OF assms(1), of now op] unfolding assms(2) edited_def by (auto dest!: some_command)
  obtain base1 gone where run: "c = fst (prep c0 ?s)" "doc_wf base1 d1" "do_history d1 = hi_record now c ?h"
    "pushed now c ?h = gone @ hi_undo (do_history d1)" "base1 = text_at base gone"
    using do_run_wf [OF assms(1) c0(1), of now] c0(3) by auto
  obtain kept where kept: "hi_undo (do_history d1) = kept @ [(hi_objects ?h, case hi_merged now c ?h of None \<Rightarrow> c | Some m \<Rightarrow> m)]"
    using last_pushed [OF assms(3)] run(3) by metis
  obtain d2 where d2: "do_undo d1 = (Inr (case hi_merged now c ?h of None \<Rightarrow> c | Some m \<Rightarrow> m), d2)" "do_text d2 = text_at base1 kept"
    "do_cursor d2 = cmd_before (case hi_merged now c ?h of None \<Rightarrow> c | Some m \<Rightarrow> m)"
    using do_undo_wf [OF run(2) kept] by auto
  show ?thesis
  proof (cases "hi_merged now c ?h")
    case None
    then have "gone @ kept = hi_undo ?h" using run(4) kept by (simp add: pushed_def)
    then have "text_at base1 kept = ?s" using doc_wfD(2) [OF assms(1)] by (metis run(5) text_at_simps(2))
    then show ?thesis using d2 None c0(2) by (simp add: run(1))
  next
    case (Some m)
    then have ne: "hi_undo ?h \<noteq> []" and m: "coalesce_with c (snd (List.last (hi_undo ?h))) = Some m"
      by (auto simp: hi_merged_def split: if_splits)
    then obtain es e where es: "hi_undo ?h = es @ [e]" by (metis append_butlast_last_id)
    have "gone @ kept = es" using run(4) kept Some by (simp add: pushed_def es)
    then have "text_at base1 kept = text_at base es" by (metis run(5) text_at_simps(2))
    moreover have e: "fits (snd e) (text_at base es)" "fst (prep (snd e) (text_at base es)) = snd e"
      using doc_wfD(4) [OF assms(1)] by (simp_all add: es)
    have "snd (prep (snd e) (text_at base es)) = ?s" using doc_wfD(2) [OF assms(1)] by (simp add: es)
    then have "cmd_before m = cmd_before (snd e)"
      using coalesce_settled [OF m [unfolded es last_snoc] e] c0(1) by (simp add: run(1) fits_prep prep_again)
    ultimately show ?thesis using d2 Some do_undo_wf [OF assms(1) es] by auto
  qed
qed

text \<open>Undo takes back the last edit. In every document of every editor with room for one command, an edit that is
  recorded and then undone leaves the text and the caret, with its selection, as they were before it; if it was merged
  into a run of typing or of backspaces, as they were before the run.
\<close>
theorem undo_takes_back_edit:
  assumes "dict_get (ed_tabs (ed_run ops (ed_new fs capacity window))) name = Some d"
    and "doc_edit now op d = (Inr (Some c), d1)" and "1 \<le> hi_capacity (do_history d)"
  shows "\<exists>c2 d2. do_undo d1 = (Inr c2, d2) \<and>
    (if hi_merged now c (do_history d) = None then do_text d2 = do_text d \<and> do_cursor d2 = do_cursor d
     else do_text d2 = do_text (snd (do_undo d)) \<and> do_cursor d2 = do_cursor (snd (do_undo d)))"
proof -
  obtain base where "doc_wf base d" by (rule open_document_wf [OF assms(1)])
  from edited_undone [OF this assms(2, 3)] show ?thesis .
qed

text \<open>The entries of the timeline with the texts after them.\<close>

fun text_marks :: "string \<Rightarrow> history_entry list \<Rightarrow> (nat \<times> string) list" where
  "text_marks base [] = []"
| "text_marks base (e # es) = (fst e, snd (prep (snd e) base)) # text_marks (snd (prep (snd e) base)) es"

lemma text_marks_append: "text_marks base (es @ fs) = text_marks base es @ text_marks (text_at base es) fs"
  by (induction es arbitrary: base) simp_all

lemma text_marks_last: "text_marks base (es @ [e]) = text_marks base es @ [(fst e, text_at base (es @ [e]))]"
  by (simp add: text_marks_append)

lemma text_marks_ids: "map fst (text_marks base es) = map fst es"
  by (induction es arbitrary: base) simp_all

text \<open>\<open>T\<close> is what was saved and \<open>n\<close> how many entries had been dropped by then.\<close>

definition marked :: "string \<Rightarrow> int \<Rightarrow> nat option \<Rightarrow> string \<Rightarrow> document \<Rightarrow> bool" where
  "marked T n m base d \<longleftrightarrow>
     doc_wf base d \<and> do_saved_top d = m \<and> n \<le> hi_dropped (do_history d) \<and>
     (\<forall>i t. m = Some i \<longrightarrow> (i, t) \<in> set (text_marks base (timeline (do_history d))) \<longrightarrow> t = T) \<and>
     (m = None \<longrightarrow> hi_dropped (do_history d) = n \<longrightarrow> base = T) \<and> (\<forall>i. m = Some i \<longrightarrow> i < hi_objects (do_history d))"

lemma marked_same:
  assumes "marked T n m base d" and "doc_wf base d1" and "do_saved_top d1 = do_saved_top d"
    and "timeline (do_history d1) = timeline (do_history d)" and "hi_dropped (do_history d1) = hi_dropped (do_history d)"
    and "hi_objects (do_history d1) = hi_objects (do_history d)"
  shows "marked T n m base d1"
  using assms unfolding marked_def by simp

lemma marked_undo:
  assumes "marked T n m base d"
  shows "marked T n m base (snd (do_undo d))"
proof (cases "hi_undo (do_history d)" rule: rev_cases)
  case (snoc es e)
  have wf: "doc_wf base d" using assms by (simp add: marked_def)
  obtain d1 where d1: "do_undo d = (Inr (snd e), d1)" "doc_wf base d1" "do_saved_top d1 = do_saved_top d"
    "do_history d1 = (do_history d)\<lparr>hi_undo := es, hi_redo := hi_redo (do_history d) @ [e], hi_can_coalesce := False\<rparr>"
    using do_undo_wf [OF wf snoc] by blast
  show ?thesis unfolding d1(1) snd_conv by (rule marked_same [OF assms d1(2, 3)]) (simp_all add: d1(4) timeline_def snoc)
qed (use assms in \<open>simp add: do_undo_def Let_def\<close>)

lemma marked_redo:
  assumes "marked T n m base d"
  shows "marked T n m base (snd (do_redo d))"
proof (cases "hi_redo (do_history d)" rule: rev_cases)
  case (snoc es e)
  have wf: "doc_wf base d" using assms by (simp add: marked_def)
  obtain d1 where d1: "do_redo d = (Inr (snd e), d1)" "doc_wf base d1" "do_saved_top d1 = do_saved_top d"
    "do_history d1 = (do_history d)\<lparr>hi_undo := hi_undo (do_history d) @ [e], hi_redo := es, hi_can_coalesce := False\<rparr>"
    using do_redo_wf [OF wf snoc] by blast
  show ?thesis unfolding d1(1) snd_conv by (rule marked_same [OF assms d1(2, 3)]) (simp_all add: d1(4) timeline_def snoc)
qed (use assms in \<open>simp add: do_redo_def Let_def\<close>)

lemma pushed_marks:
  "set (text_marks base (pushed now c h)) \<subseteq> set (text_marks base (hi_undo h)) \<union> {(hi_objects h, t) |t. True}"
proof (cases "hi_merged now c h")
  case (Some m)
  then have ne: "hi_undo h \<noteq> []" by (auto simp: hi_merged_def split: if_splits)
  then obtain es e where "hi_undo h = es @ [e]" by (metis append_butlast_last_id)
  then show ?thesis using Some by (auto simp: pushed_def text_marks_append)
qed (auto simp: pushed_def text_marks_append)

lemma marked_edit:
  assumes "marked T n m base d"
  shows "\<exists>base1. marked T n m base1 (snd (doc_edit now op d))"
proof -
  let ?h = "do_history d"
  have wf: "doc_wf base d" using assms by (simp add: marked_def)
  show ?thesis
  proof (cases "snd (doc_edit now op d) = d")
    case False
    then obtain c where c: "fits c (do_text d)" "doc_edit now op d = apfst (map_sum id Some) (do_run now c d)"
      using doc_edit_edited [OF wf, of now op] by (auto simp: edited_def)
    obtain d1 base1 gone where d1: "do_run now c d = (Inr (fst (prep c (do_text d))), d1)" "doc_wf base1 d1"
      "do_history d1 = hi_record now (fst (prep c (do_text d))) ?h" "do_saved_top d1 = do_saved_top d"
      "pushed now (fst (prep c (do_text d))) ?h = gone @ hi_undo (do_history d1)" "base1 = text_at base gone"
      "hi_dropped (do_history d1) = hi_dropped ?h + int (length gone)"
      using do_run_wf [OF wf c(1), of now] by blast
    have tl: "timeline (do_history d1) = hi_undo (do_history d1)" by (simp add: timeline_def d1(3))
    have "set (text_marks base1 (hi_undo (do_history d1))) \<subseteq> set (text_marks base (pushed now (fst (prep c (do_text d))) ?h))"
      by (simp add: d1(5, 6) text_marks_append)
    then have marks: "(i, t) \<in> set (text_marks base (timeline ?h))"
      if "(i, t) \<in> set (text_marks base1 (timeline (do_history d1)))" "i < hi_objects ?h" for i t
    proof -
      have "(i, t) \<in> set (text_marks base (pushed now (fst (prep c (do_text d))) ?h))"
        using that(1) \<open>set (text_marks base1 _) \<subseteq> _\<close> unfolding tl by blast
      then have "(i, t) \<in> set (text_marks base (hi_undo ?h))" using pushed_marks that(2) by blast
      then show ?thesis by (simp add: timeline_def text_marks_append)
    qed
    have "marked T n m base1 d1"
      using assms d1(2, 4, 6, 7) marks unfolding marked_def by (auto simp: d1(3))
    then show ?thesis by (auto simp: c(2) d1(1))
  qed (use assms in auto)
qed

lemma marked_moved: "marked T n m base d \<Longrightarrow> moved d d1 \<Longrightarrow> marked T n m base d1"
  using moved_wf [of base d d1] by (rule_tac marked_same) (auto simp: moved_def marked_def timeline_def hi_break_coalescing_def)

lemma marked_do:
  assumes "marked T n m base d"
  shows "\<exists>base1. marked T n m base1 (doc_do now act d)"
proof -
  have wf: "doc_wf base d" using assms by (simp add: marked_def)
  from doc_do_cases [OF wf, of act now] show ?thesis
    using marked_edit [OF assms] marked_undo [OF assms] marked_redo [OF assms] marked_moved [OF assms] by fastforce
qed

lemma marked_run: "marked T n m base d \<Longrightarrow> \<exists>base1. marked T n m base1 (fold (\<lambda>(now, act). doc_do now act) acts d)"
proof (induction acts arbitrary: base d)
  case (Cons x acts)
  obtain now act where x: "x = (now, act)" by fastforce
  obtain base1 where "marked T n m base1 (doc_do now act d)" using marked_do [OF Cons.prems] by blast
  from Cons.IH [OF this] show ?case by (simp add: x)
qed auto

lemma hi_top_last: "hi_top h = Some i \<Longrightarrow> \<exists>es e. hi_undo h = es @ [e] \<and> i = fst e"
  by (cases "hi_undo h" rule: rev_cases) (auto simp: hi_top_def)

lemma mark_saved_marked:
  assumes "doc_wf base d"
  shows "marked (do_text d) (hi_dropped (do_history d)) (hi_top (do_history d)) base (do_mark_saved d)"
proof -
  let ?h = "do_history d"
  have kept: "do_saved_top (do_mark_saved d) = hi_top ?h" "timeline (do_history (do_mark_saved d)) = timeline ?h"
    "hi_dropped (do_history (do_mark_saved d)) = hi_dropped ?h" "hi_objects (do_history (do_mark_saved d)) = hi_objects ?h"
    by (simp_all add: do_mark_saved_def hi_break_coalescing_def timeline_def)
  have top: "t = do_text d \<and> i < hi_objects ?h" if i: "hi_top ?h = Some i" and it: "(i, t) \<in> set (text_marks base (timeline ?h))" for i t
  proof -
    obtain es e where es: "hi_undo ?h = es @ [e]" "i = fst e"
      using hi_top_last [OF i] by blast
    have dist: "distinct (map fst (text_marks base (timeline ?h)))" and "fst e < hi_objects ?h"
      using assms by (simp_all add: text_marks_ids doc_wf_def timeline_def es(1))
    have "(i, do_text d) \<in> set (text_marks base (timeline ?h))"
      using doc_wfD(2) [OF assms] by (simp add: timeline_def es text_marks_append)
    then have "t = do_text d" using it dist eq_key_imp_eq_value by metis
    with \<open>fst e < hi_objects ?h\<close> es(2) show ?thesis by simp
  qed
  have below: "i < hi_objects ?h" if i: "hi_top ?h = Some i" for i
  proof -
    obtain es e where es: "hi_undo ?h = es @ [e]" "i = fst e"
      using hi_top_last [OF i] by blast
    then show ?thesis using assms by (simp add: doc_wf_def timeline_def)
  qed
  have "base = do_text d" if "hi_top ?h = None"
    using that doc_wfD(2) [OF assms] by (auto simp: hi_top_def split: if_splits)
  with top below mark_saved_wf [OF assms] kept show ?thesis unfolding marked_def by auto
qed

lemma marked_status:
  assumes "marked T n (do_saved_top d) base d" and "do_status d = SAVED_DOCUMENT"
    and "hi_can_undo (do_history d) \<or> hi_dropped (do_history d) = n"
  shows "do_text d = T"
proof -
  have wf: "doc_wf base d" using assms(1) by (simp add: marked_def)
  have top: "do_saved_top d = hi_top (do_history d)" using assms(2) by (auto simp: do_status_def split: if_splits)
  show ?thesis
  proof (cases "hi_undo (do_history d)" rule: rev_cases)
    case Nil
    then have "base = T" using assms(1, 3) top by (simp add: marked_def hi_top_def hi_can_undo_def)
    then show ?thesis using doc_wfD(2) [OF wf] Nil by simp
  next
    case (snoc es e)
    have "(fst e, do_text d) \<in> set (text_marks base (timeline (do_history d)))"
      using doc_wfD(2) [OF wf] by (simp add: timeline_def snoc text_marks_append)
    moreover have "do_saved_top d = Some (fst e)" using top by (simp add: hi_top_def snoc)
    ultimately show ?thesis using assms(1) unfolding marked_def by blast
  qed
qed

text \<open>C32. The saved marker tells the truth. Save a document, then edit, move, select, undo, redo and style it in any order: if
  its status then says saved, its text is the text that was saved, provided that there is something to undo or no
  old entry of the history has been dropped since the save.
\<close>
theorem saved_status_truthful:
  assumes "dict_get (ed_tabs (ed_run ops (ed_new fs capacity window))) name = Some d"
    and "d1 = fold (\<lambda>(now, act). doc_do now act) acts (do_mark_saved d)" and "do_status d1 = SAVED_DOCUMENT"
    and "hi_can_undo (do_history d1) \<or> hi_dropped (do_history d1) = hi_dropped (do_history d)"
  shows "do_text d1 = do_text d"
proof -
  obtain base where wf: "doc_wf base d" by (rule open_document_wf [OF assms(1)])
  obtain base1 where m: "marked (do_text d) (hi_dropped (do_history d)) (hi_top (do_history d)) base1 d1"
    using marked_run [OF mark_saved_marked [OF wf]] unfolding assms(2) by blast
  then have "do_saved_top d1 = hi_top (do_history d)" by (simp add: marked_def)
  with marked_status [OF _ assms(3, 4)] m show ?thesis by simp
qed

text \<open>C27. Replace-all is \<^verbatim>\<open>str.replace\<close>. In every document of every editor, replacing a needle leaves the text that Python's
  left-to-right \<^verbatim>\<open>replace\<close> makes of it, although the editor finds overlapping occurrences and edits from right to left;
  it never raises on a needle that is not empty, and it records no command exactly if there is no occurrence.
\<close>
theorem replace_all_is_replace:
  assumes "dict_get (ed_tabs (ed_run ops (ed_new fs capacity window))) name = Some d" and "needle \<noteq> []"
    and "do_replace_all now needle rep d = (r, d1)"
  shows "do_text d1 = py_replace needle rep (do_text d) \<and>
    (r = Inr None \<longleftrightarrow> (\<forall>i \<le> length (do_text d). \<not> occurs_at needle (do_text d) i)) \<and> (\<forall>e. r \<noteq> Inl e)"
proof -
  obtain base where wf: "doc_wf base d" by (rule open_document_wf [OF assms(1)])
  let ?s = "do_text d" and ?hits = "fold (keep_hit (length needle)) (find_loop needle (do_text d) 0) []"
  have hits: "?hits = hits_from needle ?s 0" "splice (length needle) rep 0 ?hits ?s = py_replace needle rep ?s"
    using hits_replaced [OF assms(2) refl] by blast+
  have some_hit: "?hits = [] \<longleftrightarrow> (\<forall>i \<le> length ?s. \<not> occurs_at needle ?s i)"
    using hits_none [OF assms(2), of ?s] hits(1) by simp
  show ?thesis
  proof (cases "?hits = []")
    case True
    then have "d1 = d" "r = Inr None" using assms(2, 3) by (simp_all add: do_replace_all_def do_find_def Let_def)
    then show ?thesis using hits(2) some_hit True by simp
  next
    case False
    let ?c = "replace_command needle rep ?hits (do_cursor d)"
    have c: "fits ?c ?s" "snd (prep ?c ?s) = splice (length needle) rep 0 ?hits ?s"
      using replace_command_fits [OF assms(2) hits(1) False doc_wfD(3) [OF wf]] by blast+
    obtain d2 where d2: "do_run now ?c d = (Inr (fst (prep ?c ?s)), d2)" "do_text d2 = snd (prep ?c ?s)"
      using do_run_wf [OF wf c(1), of now] by blast
    have "d1 = d2" "r = Inr (Some (fst (prep ?c ?s)))"
      using assms(2, 3) False d2(1) by (simp_all add: do_replace_all_def do_find_def Let_def del: prep.simps)
    then show ?thesis using d2(2) c(2) hits(2) some_hit False by simp
  qed
qed

section \<open>Executions\<close>

abbreviation sample_editor :: editor where
  "sample_editor \<equiv> ed_run [(0, Do_New_Tab (Make_Gap 2) ''t'' ''aaab''), (1, Do_Act (Act_Edit (Type_Text ''c''))), (9, Do_Act (Act_Edit Backspace))]
    (ed_new [] 5 1)"

definition sample_document :: document where
  "sample_document = the (dict_get (ed_tabs sample_editor) ''t'')"

lemma sample_open: "dict_get (ed_tabs sample_editor) ''t'' = Some sample_document"
  unfolding sample_document_def by code_simp

lemma undo_redo_timeline_witness:
  "\<exists>d1 d2. undos 2 sample_document = Some d1 \<and> redos 2 d1 = Some d2 \<and> do_text d2 = ''aaab''"
proof -
  have "do_text sample_document = ''aaab''" "2 \<le> length (hi_undo (do_history sample_document))"
    unfolding sample_document_def by code_simp+
  with undo_redo_timeline [OF sample_open, of 2] show ?thesis by metis
qed

lemma undo_takes_back_edit_witness:
  "\<exists>c2 d2. do_undo (snd (doc_edit 20 (Replace_All ''aa'' ''x'') sample_document)) = (Inr c2, d2) \<and> do_text d2 = ''aaab''"
proof -
  have parts: "isl (fst (doc_edit 20 (Replace_All ''aa'' ''x'') sample_document)) = False"
    "projr (fst (doc_edit 20 (Replace_All ''aa'' ''x'') sample_document)) \<noteq> None"
    "do_text sample_document = ''aaab''" "1 \<le> hi_capacity (do_history sample_document)"
    unfolding sample_document_def by code_simp+
  have "fst (doc_edit 20 (Replace_All ''aa'' ''x'') sample_document) =
      Inr (Some (the (projr (fst (doc_edit 20 (Replace_All ''aa'' ''x'') sample_document)))))"
    using parts(1, 2) by (metis option.collapse sum.collapse(2))
  then obtain c d1 where edit: "doc_edit 20 (Replace_All ''aa'' ''x'') sample_document = (Inr (Some c), d1)"
    by (metis prod.collapse)
  have "hi_merged 20 (the (projr (fst (doc_edit 20 (Replace_All ''aa'' ''x'') sample_document)))) (do_history sample_document) = None"
    unfolding sample_document_def by code_simp
  then have "hi_merged 20 c (do_history sample_document) = None" unfolding edit by simp
  with undo_takes_back_edit [OF sample_open edit parts(4)] parts(3) show ?thesis unfolding edit by auto
qed

lemma saved_status_truthful_witness:
  "do_text (fold (\<lambda>(now, act). doc_do now act) [(10, Act_Edit (Type_Text ''z'')), (11, Act_Undo)] (do_mark_saved sample_document)) = ''aaab''"
proof -
  let ?d1 = "fold (\<lambda>(now, act). doc_do now act) [(10, Act_Edit (Type_Text ''z'')), (11, Act_Undo)] (do_mark_saved sample_document)"
  have saved: "do_status ?d1 = SAVED_DOCUMENT" and kept: "hi_can_undo (do_history ?d1) \<or> hi_dropped (do_history ?d1) = hi_dropped (do_history sample_document)"
    unfolding sample_document_def by code_simp+
  have "do_text sample_document = ''aaab''" unfolding sample_document_def by code_simp
  with saved_status_truthful [OF sample_open refl saved kept] show ?thesis by simp
qed

lemma replace_all_is_replace_witness: "do_text (snd (do_replace_all 20 ''aa'' ''x'' sample_document)) = ''xab''"
proof -
  have aa: "''aa'' \<noteq> []" by simp
  have held: "do_text sample_document = ''aaab''" unfolding sample_document_def by code_simp
  from replace_all_is_replace [OF sample_open aa, of 20 "''x''"] show ?thesis
    by (cases "do_replace_all 20 ''aa'' ''x'' sample_document") (simp add: held)
qed

text \<open>
  With its capacity of entries used up, undoing everything ends where the marker of a document never edited stood: the
  document says saved though an edit that was dropped is still in its text.
\<close>

lemma saved_after_dropping:
  "let d = fold (\<lambda>(now, act). doc_do now act) [(1, Act_Edit (Type_Text ''a'')), (9, Act_Edit (Type_Text ''b'')), (10, Act_Undo)]
         (do_mark_saved (do_new ''t'' (Simple_Buffer []) 1 1))
   in do_status d = SAVED_DOCUMENT \<and> do_text d = ''a''"
  by code_simp

text \<open>Deleting text before a styled run that it overlaps from the left moves the style onto text that never had it.\<close>

lemma style_moves_onto_other_text:
  "let st = \<lparr>st_bold = True, st_italic = False, st_underline = False, st_colour = ''red''\<rparr>;
       d = do_apply_style 6 8 st (do_new ''t'' (Simple_Buffer ''0123456789'') 9 1)
   in do_styles_at 4 d = [] \<and> do_styles_at 4 (snd (apply_delete 5 3 d)) = [st]"
  by code_simp

text \<open>\<^verbatim>\<open>select\<close> checks one end of its range only, after which typing raises until the caret is moved.\<close>

lemma select_outside_refuses_typing:
  "let d = snd (do_select (- 3) 1 (do_new ''t'' (Simple_Buffer ''abc'') 9 1))
   in do_type_text 0 ''x'' d = (Inl ValidationError, d) \<and> cu_anchor (do_cursor d) = Some (- 3)"
  by code_simp

end
