(* ===== verification/Spec2Isabelle.thy ===== *)
theory Spec2Isabelle
  imports OT_Transform Snowflake Base62 Two_Phase_Commit Saga Inventory Ledger Fencing_Lock Idempotency Logical_Clocks Matching_Engine Mini_Kafka Lru_Cache Raft_Election Lsm_Tree Consistent_Hashing Quorum Rate_Limiters Circuit_Breaker Event_Sourcing Leaderboard Chunk_Sync Alerts Kv_Transactions Merkle_Tree Text_Editor
begin

text \<open>
  A verification library for the executable code of the system-design handbook, the Python under
  \<^verbatim>\<open>code/\<close>. The handbook's modules are small, complete programs: each file of \<^verbatim>\<open>code/hld\<close> is one
  distributed-systems mechanism with the failures it has to survive, each package of \<^verbatim>\<open>code/lld\<close> one
  object-oriented service. They share \<^verbatim>\<open>code/common\<close> (an injected clock, id sources, integer money and
  the exception classes) and otherwise stand alone, so the library has one theory per module, all of
  them over \<open>Prelude\<close>, \<open>Common\<close> and \<open>Python_Lib\<close>; the components inside a module call each other,
  and their composition is what the properties of a theory are about.

  \<^bold>\<open>How code becomes definitions.\<close> A class is a record whose fields are its attributes, an enum a
  datatype, a method a function that takes the object and answers its result beside the object it
  leaves. A raise is \<open>Inl\<close> of \<open>Prelude.exn\<close>; where the code raises half way, the changed object is
  beside the exception. A Python dict is an association list in insertion order (\<open>dict_get\<close>,
  \<open>dict_set\<close>, \<open>dict_del\<close>), because iteration order shows in results. Objects that several others
  share and mutate live in an explicit store: the nodes of the LRU list and of the skip list in a heap of
  addresses, the orders of the order book and the participants of a commit in a map of references.
  Integers are unbounded as Python's are, so shifts and masks are \<open>push_bit\<close>, \<open>drop_bit\<close>,
  \<open>take_bit\<close>, and that a value fits its width is proved. A float is an exact rational: the code
  adds, compares and scales them, and rounding errors are outside the model. A method that holds its
  lock for its whole body is one step; where a lock is released in between (two-phase commit, the
  circuit breaker, a repository save) the steps are separate and other threads move between them.
  Digests (SHA-256, MD5, BLAKE2), readings of the clock, random draws and handlers passed in are
  parameters of the definitions; nothing is assumed of a digest, except that \<open>Chunk_Sync\<close> and
  \<open>Merkle_Tree\<close> ask in the statement that the contents at hand do not collide.

  \<^bold>\<open>Theories and the code they model.\<close>
  \<^item> \<open>Common\<close>: \<^verbatim>\<open>common/clock.py\<close>, \<^verbatim>\<open>common/ids.py\<close>, \<^verbatim>\<open>common/money.py\<close>. The locale \<open>id_source\<close> says
    that an id is issued once; clients of ids rest on it.
  \<^item> \<open>OT_Transform\<close>: \<^verbatim>\<open>hld/ot_transform.py\<close>. Operations, the transformation with its tie-break, the
    sequencing server and optimistic clients in one system: TP1, convergence, pushes never rejected.
  \<^item> \<open>Raft_Election\<close>: \<^verbatim>\<open>hld/raft_election.py\<close>. Nodes, messages in flight, crashes, partitions and
    virtual time: one leader per term, log matching, and that the operations of a cluster return.
  \<^item> \<open>Two_Phase_Commit\<close>: \<^verbatim>\<open>hld/two_phase_commit.py\<close>. Participants and coordinators with crash points:
    agreement, unanimity, lock discipline, delivery after recovery.
  \<^item> \<open>Saga\<close>: \<^verbatim>\<open>hld/saga.py\<close>. The orchestrator over its durable log: all or nothing, with compensation in
    reverse order, through crashes and retries.
  \<^item> \<open>Inventory\<close>: \<^verbatim>\<open>hld/inventory_reservation.py\<close>. Holds with deadlines, the flash-sale counter, the
    checkout: no overselling.
  \<^item> \<open>Ledger\<close>: \<^verbatim>\<open>hld/ledger.py\<close>. Double entry, payment states and reconciliation: the books balance.
  \<^item> \<open>Matching_Engine\<close>: \<^verbatim>\<open>hld/matching_engine.py\<close>. The order book against a reference matcher in
    price-time order, and conservation of quantities.
  \<^item> \<open>Mini_Kafka\<close>: \<^verbatim>\<open>hld/mini_kafka.py\<close>. Log, broker, producer, consumer group: exactly-once appends,
    at-least-once delivery, fair assignment.
  \<^item> \<open>Quorum\<close>, \<open>Consistent_Hashing\<close>: \<^verbatim>\<open>hld/quorum.py\<close>, \<^verbatim>\<open>hld/consistent_hashing.py\<close>. Reads see the newest
    acknowledged write; removing a node moves only its keys.
  \<^item> \<open>Lsm_Tree\<close>, \<open>Lru_Cache\<close>: \<^verbatim>\<open>hld/lsm_tree.py\<close>, \<^verbatim>\<open>hld/lru_cache.py\<close>. Refinements of a dictionary and of a
    cache of plain lists.
  \<^item> \<open>Sorted_Set\<close>, \<open>Leaderboard\<close>: \<^verbatim>\<open>hld/leaderboard_sorted_set.py\<close>. The skip list with span counters
    refines a sorted list of members; sharded boards answer as one board; periodic boards retire.
  \<^item> \<open>Kv_Transactions\<close>: \<^verbatim>\<open>lld/kv_store_transactions\<close>. Savepoints as a stack of maps, serialisability of
    optimistic commits, recovery from the log.
  \<^item> \<open>Text_Buffers\<close>, \<open>Text_Document\<close>, \<open>Text_Editor\<close>: \<^verbatim>\<open>lld/text_editor\<close>. The gap buffer against a plain string, undo and redo as a
    timeline of texts, the saved marker, replace-all.
  \<^item> \<open>Merkle_Tree\<close>: \<^verbatim>\<open>hld/merkle_tree.py\<close>. The walk finds exactly the buckets that differ.
  \<^item> \<open>Chunk_Sync\<close>: \<^verbatim>\<open>hld/chunker_delta_sync.py\<close>. Chunking, deltas, reference counts, manifests: a
    synchronised file is the file, and of two writers of one version one wins.
  \<^item> \<open>Tsdb\<close>, \<open>Alerts\<close>: \<^verbatim>\<open>hld/tsdb_downsample.py\<close>. Range queries answer the aggregate of exactly the
    accepted samples; alerts fire after holding, and the router notifies changes.
  \<^item> \<open>Event_Sourcing\<close>: \<^verbatim>\<open>hld/event_sourcing.py\<close>. Loading is replaying, no update is lost, projections
    show the log.
  \<^item> \<open>Rate_Limiters\<close>, \<open>Circuit_Breaker\<close>: \<^verbatim>\<open>hld/rate_limiters.py\<close>, \<^verbatim>\<open>hld/circuit_breaker.py\<close>. Bounds on what is
    admitted in a window, exact retry times, the breaker's transitions and its trial limit.
  \<^item> \<open>Snowflake\<close>, \<open>Base62\<close>, \<open>Logical_Clocks\<close>, \<open>Fencing_Lock\<close>, \<open>Idempotency\<close>: the modules of those names
    (\<^verbatim>\<open>snowflake.py\<close>, \<^verbatim>\<open>base62.py\<close>, \<^verbatim>\<open>logical_clocks.py\<close>, \<^verbatim>\<open>fencing_lock.py\<close>, \<^verbatim>\<open>idempotency_store.py\<close>).

  \<^bold>\<open>Interfaces.\<close> Where a component relies on another through a contract, the contract is a locale with the
  client's lemmas inside, interpreted on the code's model by its provider: id sources (\<open>id_source\<close>), the conditional store of
  short codes (\<open>code_store\<close>), stores that check fencing tokens (\<open>token_store\<close>), read models fed by a log
  (\<open>read_model\<close>), limiters with a budget that refills (\<open>budgeted_limiter\<close>), the buffer under a
  document (\<open>text_buffer\<close>). Properties rest on the facts of the interpretations.

  \<^bold>\<open>Groups of lemmas.\<close> Each theory has, in this order, the definitions of a component; the facts on its
  fields that automation uses; an invariant with one preservation lemma per operation; the
  correctness theorems over runs of operations, with any interleaving of clients; concrete
  executions, which witness the theorems or show where code and documentation part. Theorems whose
  text begins with a claim id are the principal ones; the others are as much part of the library.

  \<^bold>\<open>Loops and fuel.\<close> Loops that consume a list are structural or have a measure. The matching loop has
  fuel two more than the prices on the opposite side, because a round that goes on uses up a
  level; the lazy key iterator of the LRU cache has fuel the number of its entries;
  the quorum's widening takes at most as many steps as there are nodes missing; delivery in the
  cluster and the walks along pointers are partial functions into an option, and theorems say that
  they return.

  \<^bold>\<open>Not modelled.\<close> Float rounding; the text of exceptions and of \<^verbatim>\<open>describe\<close> methods; locks and threads
  below the granularity of a critical section; \<^verbatim>\<open>main\<close> functions, demonstrations and the command front
  end of the key-value store; the remaining mechanisms of \<^verbatim>\<open>code/hld\<close> and problems of \<^verbatim>\<open>code/lld\<close>, whose
  cores are variants of modelled ones or rest on float geometry, statistics and library
  cryptography; \<^verbatim>\<open>code/patterns\<close> and \<^verbatim>\<open>code/fundamentals\<close>, which illustrate constructs; \<^verbatim>\<open>scripts/\<close>, which
  generate and lint the handbook's pages.
\<close>

end
